(* ===== verification/Hpx_Prelude.thy ===== *)
theory Hpx_Prelude
  imports Main "HOL-Library.Word"
begin

text \<open>
  Shared vocabulary of the development: machine integer synonyms, the error codes of
  \<^verbatim>\<open>hpx/error.hpp\<close> as a datatype, the result type of fallible operations, assertions as
  error values, and the generic lemmas on lists and words the component theories use.

  An operation that may throw has type \<open>'a result\<close>: \<open>Inl e\<close> is an exception with error code
  \<open>e\<close> and \<open>Inr x\<close> is a normal return. \<open>HPX_ASSERT(c)\<close> raises \<open>assertion_failure\<close> in builds
  with assertions and is undefined behaviour otherwise; \<open>hpx_assert\<close> makes the failing case
  a value, so a theorem that a result is \<open>Inr\<close> also says no assertion fails.
\<close>

unbundle bit_operations_syntax

section \<open>Collections of lemmas\<close>

named_theorems result_simps \<open>equations for the result type\<close>
named_theorems mask_bits \<open>which bits the masks of gid_type select\<close>
named_theorems gid_defs \<open>definitions of the bit-level operations of gid_type\<close>

section \<open>Machine integers\<close>

type_synonym u64 = "64 word"
type_synonym u32 = "32 word"
type_synonym i64 = int \<comment> \<open>\<open>std::int64_t\<close>; its overflow is undefined behaviour in C++\<close>
type_synonym i32 = int

section \<open>Error codes\<close>

datatype (plugins only: code) hpx_error =
    success | no_success | not_implemented | out_of_memory | bad_action_code
  | bad_component_type | network_error | version_too_new | version_too_old
  | version_unknown | unknown_component_address | duplicate_component_address
  | invalid_status | bad_parameter | internal_server_error | service_unavailable
  | bad_request | repeated_request | lock_error | duplicate_console
  | no_registered_console | startup_timed_out | uninitialized_value
  | bad_response_type | deadlock | assertion_failure | null_thread_id | invalid_data
  | yield_aborted | dynamic_link_failure | commandline_option_error
  | serialization_error | unhandled_exception | kernel_error | broken_task | task_moved
  | task_already_started | future_already_retrieved | promise_already_satisfied
  | future_does_not_support_cancellation | future_can_not_be_cancelled | no_state
  | broken_promise | thread_resource_error | future_cancelled | thread_cancelled
  | thread_not_interruptable | duplicate_component_id | unknown_error
  | bad_plugin_type | security_error | filesystem_error | bad_function_call
  | task_canceled_exception | task_block_not_active | out_of_range | length_error

type_synonym 'a result = "hpx_error + 'a"

definition bind_result :: "'a result \<Rightarrow> ('a \<Rightarrow> 'b result) \<Rightarrow> 'b result" where
  "bind_result r f = (case r of Inl e \<Rightarrow> Inl e | Inr x \<Rightarrow> f x)"

definition hpx_assert :: "bool \<Rightarrow> 'a result \<Rightarrow> 'a result" where
  "hpx_assert c r = (if c then r else Inl assertion_failure)"

lemma bind_result_simps [simp, result_simps]:
  "bind_result (Inr x) f = f x"
  "bind_result (Inl e) f = Inl e"
  by (simp_all add: bind_result_def)

lemma bind_result_Inr_iff [result_simps]:
  "bind_result r f = Inr y \<longleftrightarrow> (\<exists>x. r = Inr x \<and> f x = Inr y)"
  by (cases r) auto

lemma bind_result_Inl_iff [result_simps]:
  "bind_result r f = Inl e \<longleftrightarrow> r = Inl e \<or> (\<exists>x. r = Inr x \<and> f x = Inl e)"
  by (cases r) auto

lemma hpx_assert_True [simp]: "c \<Longrightarrow> hpx_assert c r = r"
  by (simp add: hpx_assert_def)

lemma hpx_assert_Inr_iff [result_simps]: "hpx_assert c r = Inr x \<longleftrightarrow> c \<and> r = Inr x"
  by (simp add: hpx_assert_def)

text \<open>
  An operation that may also fail to return has type \<open>'a result option\<close>, with \<open>None\<close> for a
  computation that does not end (or a lock that is never granted).
\<close>

definition bind_run :: "'a result option \<Rightarrow> ('a \<Rightarrow> 'b result option) \<Rightarrow> 'b result option" where
  "bind_run r f = (case r of None \<Rightarrow> None | Some (Inl e) \<Rightarrow> Some (Inl e) | Some (Inr x) \<Rightarrow> f x)"

definition assert_run :: "bool \<Rightarrow> 'a result option \<Rightarrow> 'a result option" where
  "assert_run c r = (if c then r else Some (Inl assertion_failure))"

lemma bind_run_simps [simp, result_simps]:
  "bind_run (Some (Inr x)) f = f x"
  "bind_run (Some (Inl e)) f = Some (Inl e)"
  "bind_run None f = None"
  by (simp_all add: bind_run_def)

lemma bind_run_Inr_iff [result_simps]:
  "bind_run r f = Some (Inr y) \<longleftrightarrow> (\<exists>x. r = Some (Inr x) \<and> f x = Some (Inr y))"
  by (auto simp: bind_run_def split: option.splits sum.splits)

lemma assert_run_True [simp]: "c \<Longrightarrow> assert_run c r = r"
  by (simp add: assert_run_def)

lemma assert_run_Inr_iff [result_simps]:
  "assert_run c r = Some (Inr x) \<longleftrightarrow> c \<and> r = Some (Inr x)"
  by (simp add: assert_run_def)

section \<open>Printing integers\<close>

text \<open>\<open>std::to_string\<close> on integers, and a stream's hexadecimal output of a given width
  filled with zeros.\<close>

definition digit_char :: "nat \<Rightarrow> char" where
  "digit_char d = char_of (if d < 10 then 48 + d else 87 + d)"

fun show_nat :: "nat \<Rightarrow> string" where
  "show_nat n = (if n < 10 then [digit_char n] else show_nat (n div 10) @ [digit_char (n mod 10)])"

declare show_nat.simps [simp del]

definition to_string :: "int \<Rightarrow> string" where
  "to_string i = (if i < 0 then ''-'' @ show_nat (nat (- i)) else show_nat (nat i))"

primrec show_hex_width :: "nat \<Rightarrow> nat \<Rightarrow> string" where
  "show_hex_width 0 n = []"
| "show_hex_width (Suc w) n = show_hex_width w (n div 16) @ [digit_char (n mod 16)]"

lemma digit_char_inj: "a < 16 \<Longrightarrow> b < 16 \<Longrightarrow> digit_char a = digit_char b \<Longrightarrow> a = b"
  by (auto simp: digit_char_def of_char_eq_iff dest!: arg_cong [of _ _ "of_char :: char \<Rightarrow> nat"]
      split: if_splits)

lemma length_show_hex [simp]: "length (show_hex_width w n) = w"
  by (induction w arbitrary: n) auto

lemma show_hex_inj:
  "m < 16 ^ w \<Longrightarrow> n < 16 ^ w \<Longrightarrow> show_hex_width w m = show_hex_width w n \<Longrightarrow> m = n"
proof (induction w arbitrary: m n)
  case (Suc w)
  have "m div 16 < 16 ^ w" "n div 16 < 16 ^ w" using Suc.prems(1,2) by (auto simp: less_mult_imp_div_less)
  moreover from Suc.prems(3) have "show_hex_width w (m div 16) = show_hex_width w (n div 16)"
    and "digit_char (m mod 16) = digit_char (n mod 16)" by auto
  ultimately have "m div 16 = n div 16" "m mod 16 = n mod 16"
    using Suc.IH digit_char_inj by auto
  then show ?case by (metis div_mult_mod_eq)
qed auto

section \<open>Lists\<close>

lemma takeWhile_append_dropWhile_last:
  assumes "takeWhile P xs \<noteq> []"
  shows "P (last (takeWhile P xs))"
  using assms by (metis last_in_set set_takeWhileD)

lemma last_takeWhile_in_set:
  "takeWhile P xs \<noteq> [] \<Longrightarrow> last (takeWhile P xs) \<in> set xs"
  by (metis last_in_set set_takeWhileD)

lemma sum_list_map_filter_split:
  fixes f :: "'a \<Rightarrow> 'b::comm_monoid_add"
  shows "sum_list (map f xs) =
    sum_list (map f (filter P xs)) + sum_list (map f (filter (\<lambda>x. \<not> P x) xs))"
  by (induction xs) (auto simp: algebra_simps)

end
