(* ===== verification/Std_Map.thy ===== *)
theory Std_Map
  imports Hpx_Prelude
begin

text \<open>
  The ordered associative container \<open>std::map\<close> the runtime keeps its tables in: a list of
  key/value pairs sorted by the map's comparison function. The comparison is an argument,
  because the tables keyed by \<open>gid_type\<close> compare with an \<open>operator<\<close> that ignores part of the
  key: two keys are the same entry when neither is less than the other.
  The operations are those the sources call: \<open>lower_bound\<close>, \<open>find\<close>, \<open>insert\<close> (which leaves an
  existing entry alone and says so), assignment through an iterator, and \<open>erase\<close>.

  The locale \<open>strict_weak_order\<close> is the contract C++ asks of a comparison; inside it the
  container laws are proved once, and the theories of the keys interpret it. It extends
  \<open>strict_order\<close>, a strict partial order, which is all that some laws need: the address cache
  compares ranges of gids, for which being incomparable (overlapping) is not transitive.
\<close>

type_synonym ('k, 'v) std_map = "('k \<times> 'v) list"

section \<open>Operations\<close>

definition equiv_keys :: "('k \<Rightarrow> 'k \<Rightarrow> bool) \<Rightarrow> 'k \<Rightarrow> 'k \<Rightarrow> bool" where
  "equiv_keys lt a b \<longleftrightarrow> \<not> lt a b \<and> \<not> lt b a"

text \<open>The entries before the iterator \<open>m.lower_bound(k)\<close>, and those from it on.\<close>

definition map_before :: "('k \<Rightarrow> 'k \<Rightarrow> bool) \<Rightarrow> ('k, 'v) std_map \<Rightarrow> 'k \<Rightarrow> ('k, 'v) std_map" where
  "map_before lt m k = takeWhile (\<lambda>e. lt (fst e) k) m"

definition map_lower_bound :: "('k \<Rightarrow> 'k \<Rightarrow> bool) \<Rightarrow> ('k, 'v) std_map \<Rightarrow> 'k \<Rightarrow> ('k, 'v) std_map" where
  "map_lower_bound lt m k = dropWhile (\<lambda>e. lt (fst e) k) m"

definition map_find :: "('k \<Rightarrow> 'k \<Rightarrow> bool) \<Rightarrow> ('k, 'v) std_map \<Rightarrow> 'k \<Rightarrow> ('k \<times> 'v) option" where
  "map_find lt m k =
     (case map_lower_bound lt m k of
        [] \<Rightarrow> None
      | e # _ \<Rightarrow> if lt k (fst e) then None else Some e)"

definition map_insert ::
  "('k \<Rightarrow> 'k \<Rightarrow> bool) \<Rightarrow> ('k, 'v) std_map \<Rightarrow> 'k \<Rightarrow> 'v \<Rightarrow> ('k, 'v) std_map \<times> bool" where
  "map_insert lt m k v =
     (case map_find lt m k of
        Some _ \<Rightarrow> (m, False)
      | None \<Rightarrow> (map_before lt m k @ (k, v) # map_lower_bound lt m k, True))"

definition map_assign ::
  "('k \<Rightarrow> 'k \<Rightarrow> bool) \<Rightarrow> ('k, 'v) std_map \<Rightarrow> 'k \<Rightarrow> 'v \<Rightarrow> ('k, 'v) std_map" where
  "map_assign lt m k v =
     (case map_find lt m k of
        None \<Rightarrow> m
      | Some (k', _) \<Rightarrow> map_before lt m k @ (k', v) # tl (map_lower_bound lt m k))"

definition map_erase :: "('k \<Rightarrow> 'k \<Rightarrow> bool) \<Rightarrow> ('k, 'v) std_map \<Rightarrow> 'k \<Rightarrow> ('k, 'v) std_map" where
  "map_erase lt m k =
     (case map_find lt m k of
        None \<Rightarrow> m
      | Some _ \<Rightarrow> map_before lt m k @ tl (map_lower_bound lt m k))"

definition map_sorted :: "('k \<Rightarrow> 'k \<Rightarrow> bool) \<Rightarrow> ('k, 'v) std_map \<Rightarrow> bool" where
  "map_sorted lt m \<longleftrightarrow> sorted_wrt (\<lambda>a b. lt (fst a) (fst b)) m"

text \<open>
  \<open>std::multimap\<close>: a new entry goes after the entries with an equivalent key; \<open>equal_range\<close>
  selects those entries, and erasing that range removes all of them.
\<close>

definition multimap_insert ::
  "('k \<Rightarrow> 'k \<Rightarrow> bool) \<Rightarrow> ('k, 'v) std_map \<Rightarrow> 'k \<Rightarrow> 'v \<Rightarrow> ('k, 'v) std_map" where
  "multimap_insert lt m k v =
     takeWhile (\<lambda>e. \<not> lt k (fst e)) m @ (k, v) # dropWhile (\<lambda>e. \<not> lt k (fst e)) m"

definition multimap_equal_range ::
  "('k \<Rightarrow> 'k \<Rightarrow> bool) \<Rightarrow> ('k, 'v) std_map \<Rightarrow> 'k \<Rightarrow> ('k, 'v) std_map" where
  "multimap_equal_range lt m k = filter (\<lambda>e. equiv_keys lt (fst e) k) m"

definition multimap_erase_range ::
  "('k \<Rightarrow> 'k \<Rightarrow> bool) \<Rightarrow> ('k, 'v) std_map \<Rightarrow> 'k \<Rightarrow> ('k, 'v) std_map" where
  "multimap_erase_range lt m k = filter (\<lambda>e. \<not> equiv_keys lt (fst e) k) m"

definition multimap_sorted :: "('k \<Rightarrow> 'k \<Rightarrow> bool) \<Rightarrow> ('k, 'v) std_map \<Rightarrow> bool" where
  "multimap_sorted lt m \<longleftrightarrow> sorted_wrt (\<lambda>a b. \<not> lt (fst b) (fst a)) m"

lemmas std_map_defs = map_before_def map_lower_bound_def map_find_def map_insert_def
  map_assign_def map_erase_def equiv_keys_def

lemma map_split: "map_before lt m k @ map_lower_bound lt m k = m"
  by (simp add: map_before_def map_lower_bound_def)

lemma map_before_less: "e \<in> set (map_before lt m k) \<Longrightarrow> lt (fst e) k"
  by (auto simp: map_before_def dest: set_takeWhileD)

lemma map_lower_bound_not_less:
  "map_lower_bound lt m k = e # es \<Longrightarrow> \<not> lt (fst e) k"
  unfolding map_lower_bound_def by (metis hd_dropWhile list.distinct(1) list.sel(1))

lemma map_sorted_Nil [simp]: "map_sorted lt []"
  by (simp add: map_sorted_def)

section \<open>The laws of the container\<close>

locale strict_order =
  fixes lt :: "'k \<Rightarrow> 'k \<Rightarrow> bool"
  assumes lt_irrefl: "\<not> lt x x"
    and lt_trans: "lt x y \<Longrightarrow> lt y z \<Longrightarrow> lt x z"
begin

lemma equiv_refl [simp]: "equiv_keys lt x x"
  by (simp add: equiv_keys_def lt_irrefl)

lemma equiv_sym: "equiv_keys lt x y \<Longrightarrow> equiv_keys lt y x"
  by (simp add: equiv_keys_def)

lemma lt_not_equiv: "lt x y \<Longrightarrow> \<not> equiv_keys lt x y"
  by (simp add: equiv_keys_def)

lemma lt_asym: "lt x y \<Longrightarrow> \<not> lt y x"
  using lt_irrefl lt_trans by blast

lemma sorted_split:
  assumes "map_sorted lt m" and "map_lower_bound lt m k = e # es"
  shows "\<forall>x \<in> set es. lt (fst e) (fst x)"
proof -
  have "m = map_before lt m k @ e # es"
    using map_split [of lt m k] assms(2) by simp
  with assms(1) show ?thesis
    by (metis map_sorted_def sorted_wrt.simps(2) sorted_wrt_append)
qed

lemma find_SomeD:
  assumes "map_find lt m k = Some e"
  shows "e \<in> set m" and "equiv_keys lt (fst e) k"
proof -
  from assms obtain es where b: "map_lower_bound lt m k = e # es" and "\<not> lt k (fst e)"
    by (auto simp: map_find_def split: list.splits if_splits)
  then show "equiv_keys lt (fst e) k"
    using map_lower_bound_not_less by (fastforce simp: equiv_keys_def)
  show "e \<in> set m" using map_split [of lt m k] b by (metis in_set_conv_decomp)
qed

lemma lower_bound_greater:
  assumes "map_sorted lt m" and "map_find lt m k = None" and "x \<in> set (map_lower_bound lt m k)"
  shows "lt k (fst x)"
proof -
  from assms(3) obtain e es where b: "map_lower_bound lt m k = e # es"
    by (cases "map_lower_bound lt m k") auto
  with assms(2) have "lt k (fst e)" by (auto simp: map_find_def split: if_splits)
  with b assms(1,3) show ?thesis using sorted_split lt_trans by fastforce
qed

lemma find_None_iff:
  assumes "map_sorted lt m"
  shows "map_find lt m k = None \<longleftrightarrow> (\<forall>e \<in> set m. \<not> equiv_keys lt (fst e) k)"
proof
  assume none: "map_find lt m k = None"
  show "\<forall>e \<in> set m. \<not> equiv_keys lt (fst e) k"
  proof
    fix e assume "e \<in> set m"
    then consider "e \<in> set (map_before lt m k)" | "e \<in> set (map_lower_bound lt m k)"
      using map_split [of lt m k] by (metis Un_iff set_append)
    then show "\<not> equiv_keys lt (fst e) k"
      using map_before_less [of e lt m k] lower_bound_greater [OF assms none, of e]
      by cases (simp_all add: equiv_keys_def)
  qed
next
  assume "\<forall>e \<in> set m. \<not> equiv_keys lt (fst e) k"
  then show "map_find lt m k = None" using find_SomeD by (metis not_None_eq)
qed

lemma sorted_insert:
  assumes "map_sorted lt m"
  shows "map_sorted lt (fst (map_insert lt m k v))"
proof (cases "map_find lt m k")
  case None
  have "sorted_wrt (\<lambda>a b. lt (fst a) (fst b)) (map_before lt m k @ map_lower_bound lt m k)"
    using assms by (simp add: map_split map_sorted_def)
  moreover have "\<forall>x \<in> set (map_lower_bound lt m k). lt k (fst x)"
    using lower_bound_greater [OF assms None] by blast
  ultimately show ?thesis
    using None map_before_less [of _ lt m k]
    by (auto simp: map_insert_def map_sorted_def sorted_wrt_append)
qed (simp add: map_insert_def assms)

lemma set_insert:
  "map_find lt m k = None \<Longrightarrow> set (fst (map_insert lt m k v)) = insert (k, v) (set m)"
  using arg_cong [OF map_split [of lt m k], of set] by (auto simp: map_insert_def)

lemma insert_present: "map_find lt m k = Some e \<Longrightarrow> map_insert lt m k v = (m, False)"
  by (simp add: map_insert_def)

lemma insert_fresh: "map_find lt m k = None \<Longrightarrow> snd (map_insert lt m k v)"
  by (simp add: map_insert_def)

lemma split_found:
  assumes "map_find lt m k = Some e"
  shows "m = map_before lt m k @ e # tl (map_lower_bound lt m k)"
proof -
  from assms have "map_lower_bound lt m k = e # tl (map_lower_bound lt m k)"
    by (auto simp: map_find_def split: list.splits if_splits)
  then show ?thesis using map_split [of lt m k] by metis
qed

lemma sorted_assign:
  assumes "map_sorted lt m"
  shows "map_sorted lt (map_assign lt m k v)"
proof (cases "map_find lt m k")
  case (Some e)
  obtain k0 v0 where e: "e = (k0, v0)" by (cases e)
  have "map_sorted lt (map_before lt m k @ (k0, v0) # tl (map_lower_bound lt m k))"
    using assms split_found [OF Some] e by metis
  then show ?thesis by (simp add: map_assign_def Some e map_sorted_def sorted_wrt_append)
qed (simp add: map_assign_def assms)

lemma sorted_erase:
  assumes "map_sorted lt m"
  shows "map_sorted lt (map_erase lt m k)"
proof (cases "map_find lt m k")
  case (Some e)
  have "map_sorted lt (map_before lt m k @ e # tl (map_lower_bound lt m k))"
    using assms split_found [OF Some] by metis
  then show ?thesis by (simp add: map_erase_def Some map_sorted_def sorted_wrt_append)
qed (simp add: map_erase_def assms)

lemma found_unique:
  assumes "map_sorted lt m" and "map_find lt m k = Some e"
  shows "e \<notin> set (map_before lt m k @ tl (map_lower_bound lt m k))"
proof -
  have "sorted_wrt (\<lambda>a b. lt (fst a) (fst b))
      (map_before lt m k @ e # tl (map_lower_bound lt m k))"
    using assms split_found [OF assms(2)] by (metis map_sorted_def)
  then show ?thesis by (auto simp: sorted_wrt_append lt_irrefl)
qed

lemma found_alone:
  assumes "map_sorted lt m" and "map_find lt m k = Some e" and "x \<in> set m" and "equiv_keys lt (fst x) (fst e)"
  shows "x = e"
proof (rule ccontr)
  assume "x \<noteq> e"
  moreover have "sorted_wrt (\<lambda>a b. lt (fst a) (fst b)) (map_before lt m k @ e # tl (map_lower_bound lt m k))"
    using assms(1) split_found [OF assms(2)] by (metis map_sorted_def)
  moreover have "x \<in> set (map_before lt m k @ e # tl (map_lower_bound lt m k))"
    using assms(3) split_found [OF assms(2)] by metis
  ultimately show False
    using assms(4) by (auto simp: sorted_wrt_append equiv_keys_def)
qed

text \<open>Looking up, or erasing, a key that is stored reaches exactly its own entry.\<close>

lemma find_stored:
  assumes "map_sorted lt m" and "(k, v) \<in> set m"
  shows "map_find lt m k = Some (k, v)"
proof -
  obtain e where e: "map_find lt m k = Some e"
    using assms find_None_iff [OF assms(1), of k] equiv_refl by fastforce
  moreover have "(k, v) = e"
    using found_alone [OF assms(1) e assms(2)] find_SomeD(2) [OF e] by (simp add: equiv_sym)
  ultimately show ?thesis by simp
qed

lemma set_remove_found:
  assumes "map_sorted lt m" and "map_find lt m k = Some e"
  shows "set (map_before lt m k @ tl (map_lower_bound lt m k)) = set m - {e}"
  using found_unique [OF assms] arg_cong [OF split_found [OF assms(2)], of set] by auto

lemma erase_stored:
  assumes "map_sorted lt m" and "(k, v) \<in> set m"
  shows "set (map_erase lt m k) = set m - {(k, v)}"
  using set_remove_found [OF assms(1) find_stored [OF assms]] find_stored [OF assms] by (simp add: map_erase_def)

end

locale strict_weak_order = strict_order +
  assumes equiv_trans: "equiv_keys lt x y \<Longrightarrow> equiv_keys lt y z \<Longrightarrow> equiv_keys lt x z"
begin

lemma lt_equiv_right: "lt x y \<Longrightarrow> equiv_keys lt y z \<Longrightarrow> lt x z"
  by (metis equiv_keys_def equiv_trans lt_trans)

lemma lt_equiv_left: "equiv_keys lt x y \<Longrightarrow> lt y z \<Longrightarrow> lt x z"
  by (metis equiv_keys_def equiv_trans lt_trans)

lemma find_iff:
  assumes "map_sorted lt m"
  shows "map_find lt m k = Some e \<longleftrightarrow> e \<in> set m \<and> equiv_keys lt (fst e) k"
proof
  assume "map_find lt m k = Some e"
  then show "e \<in> set m \<and> equiv_keys lt (fst e) k" using find_SomeD by blast
next
  assume e: "e \<in> set m \<and> equiv_keys lt (fst e) k"
  then have "e \<notin> set (map_before lt m k)"
    using map_before_less lt_not_equiv by fastforce
  with e have "e \<in> set (map_lower_bound lt m k)"
    using map_split [of lt m k] by (metis Un_iff set_append)
  then obtain x xs where b: "map_lower_bound lt m k = x # xs" and m: "e = x \<or> e \<in> set xs"
    by (cases "map_lower_bound lt m k") auto
  have nx: "\<not> lt (fst x) k" using b by (rule map_lower_bound_not_less)
  have "e = x"
  proof (rule ccontr)
    assume "e \<noteq> x"
    with m have "lt (fst x) (fst e)" using sorted_split [OF assms b] by blast
    with e nx show False using lt_equiv_right by blast
  qed
  with b e show "map_find lt m k = Some e"
    by (simp add: map_find_def equiv_keys_def)
qed

lemma find_eqI:
  assumes "\<And>e. map_find lt m k = Some e \<longleftrightarrow> r = Some e"
  shows "map_find lt m k = r"
  using assms by (metis not_None_eq)

lemma equiv_cong: "equiv_keys lt k k' \<Longrightarrow> equiv_keys lt x k \<longleftrightarrow> equiv_keys lt x k'"
  by (meson equiv_sym equiv_trans)

lemma find_equiv:
  assumes "map_sorted lt m" and "equiv_keys lt k k'"
  shows "map_find lt m k = map_find lt m k'"
  by (rule find_eqI) (simp add: find_iff [OF assms(1)] equiv_cong [OF assms(2)])

lemma find_insert:
  assumes "map_sorted lt m" and "map_find lt m k = None"
  shows "map_find lt (fst (map_insert lt m k v)) k' =
    (if equiv_keys lt k k' then Some (k, v) else map_find lt m k')"
proof (cases "equiv_keys lt k k'")
  case True
  then have "map_find lt (fst (map_insert lt m k v)) k' = Some (k, v)"
    by (simp add: find_iff [OF sorted_insert [OF assms(1)]] set_insert [OF assms(2)])
  with True show ?thesis by simp
next
  case False
  then have "map_find lt (fst (map_insert lt m k v)) k' = map_find lt m k'"
    by (intro find_eqI)
      (auto simp: find_iff [OF sorted_insert [OF assms(1)]] set_insert [OF assms(2)]
        find_iff [OF assms(1)])
  with False show ?thesis by simp
qed

lemma set_erase:
  assumes "map_sorted lt m"
  shows "set (map_erase lt m k) = {e \<in> set m. \<not> equiv_keys lt (fst e) k}"
proof (cases "map_find lt m k")
  case None
  then have "\<forall>e \<in> set m. \<not> equiv_keys lt (fst e) k" using assms by (simp add: find_None_iff)
  then show ?thesis by (auto simp: map_erase_def None)
next
  case (Some e)
  have "set m = insert e (set (map_before lt m k @ tl (map_lower_bound lt m k)))"
    using arg_cong [OF split_found [OF Some], of set] by auto
  moreover have "x = e" if "x \<in> set m" and "equiv_keys lt (fst x) k" for x
    using find_iff [OF assms, of k x] that Some by simp
  then have "{x \<in> set m. equiv_keys lt (fst x) k} = {e}"
    using find_SomeD [OF Some] by blast
  ultimately show ?thesis
    using found_unique [OF assms Some] Some by (auto simp: map_erase_def)
qed

lemma find_erase:
  assumes "map_sorted lt m"
  shows "map_find lt (map_erase lt m k) k' =
    (if equiv_keys lt k k' then None else map_find lt m k')"
proof (cases "equiv_keys lt k k'")
  case True
  have "map_find lt (map_erase lt m k) k' = None"
    by (simp add: find_None_iff [OF sorted_erase [OF assms]] set_erase [OF assms]
        equiv_cong [OF True])
  with True show ?thesis by simp
next
  case False
  then have "\<not> equiv_keys lt x k" if "equiv_keys lt x k'" for x
    using that equiv_sym equiv_trans by blast
  then have "map_find lt (map_erase lt m k) k' = map_find lt m k'"
    by (intro find_eqI)
      (auto simp: find_iff [OF sorted_erase [OF assms]] set_erase [OF assms] find_iff [OF assms])
  with False show ?thesis by simp
qed

lemma set_assign:
  assumes "map_sorted lt m" and "map_find lt m k = Some (k0, v0)"
  shows "set (map_assign lt m k v) = insert (k0, v) {e \<in> set m. \<not> equiv_keys lt (fst e) k}"
  using set_erase [OF assms(1), of k] assms(2) by (auto simp: map_assign_def map_erase_def)

lemma find_assign:
  assumes "map_sorted lt m" and "map_find lt m k = Some (k0, v0)"
  shows "map_find lt (map_assign lt m k v) k' =
    (if equiv_keys lt k k' then Some (k0, v) else map_find lt m k')"
proof (cases "equiv_keys lt k k'")
  case True
  have "equiv_keys lt k0 k" using find_SomeD(2) [OF assms(2)] by simp
  then have "map_find lt (map_assign lt m k v) k' = Some (k0, v)"
    using equiv_cong [OF True]
    by (simp add: find_iff [OF sorted_assign [OF assms(1)]] set_assign [OF assms])
  with True show ?thesis by simp
next
  case False
  then have n: "\<not> equiv_keys lt x k" if "equiv_keys lt x k'" for x
    using that equiv_sym equiv_trans by blast
  have "equiv_keys lt k0 k" using find_SomeD(2) [OF assms(2)] by simp
  with n have "map_find lt (map_assign lt m k v) k' = map_find lt m k'"
    by (intro find_eqI)
      (auto simp: find_iff [OF sorted_assign [OF assms(1)]] set_assign [OF assms]
        find_iff [OF assms(1)])
  with False show ?thesis by simp
qed

lemma equal_range_insert:
  assumes "multimap_sorted lt m"
  shows "multimap_equal_range lt (multimap_insert lt m k v) k' =
    multimap_equal_range lt m k' @ (if equiv_keys lt k k' then [(k, v)] else [])"
proof -
  let ?a = "takeWhile (\<lambda>e. \<not> lt k (fst e)) m" and ?b = "dropWhile (\<lambda>e. \<not> lt k (fst e)) m"
  have b: "multimap_equal_range lt ?b k' = []" if "equiv_keys lt k k'"
  proof (cases ?b)
    case (Cons x xs)
    then have x: "lt k (fst x)" by (metis hd_dropWhile list.distinct(1) list.sel(1))
    have "multimap_sorted lt (x # xs)"
      using assms Cons unfolding multimap_sorted_def
      by (metis sorted_wrt_append takeWhile_dropWhile_id)
    then have "\<forall>y \<in> set xs. \<not> lt (fst y) (fst x)" by (simp add: multimap_sorted_def)
    then have "\<forall>y \<in> set (x # xs). lt k (fst y)"
      using x by (metis equiv_keys_def lt_equiv_right lt_trans set_ConsD)
    then have "\<forall>y \<in> set ?b. \<not> equiv_keys lt (fst y) k'"
      using that Cons by (metis equiv_cong equiv_keys_def)
    then show ?thesis by (auto simp: multimap_equal_range_def filter_empty_conv)
  next
    case Nil
    show ?thesis unfolding Nil by (simp add: multimap_equal_range_def)
  qed
  have m: "multimap_equal_range lt m k' = multimap_equal_range lt ?a k' @ multimap_equal_range lt ?b k'"
    by (simp add: multimap_equal_range_def flip: filter_append)
  show ?thesis
    using b m by (simp add: multimap_insert_def multimap_equal_range_def)
qed

lemma multimap_sorted_insert:
  assumes "multimap_sorted lt m"
  shows "multimap_sorted lt (multimap_insert lt m k v)"
proof -
  let ?a = "takeWhile (\<lambda>e. \<not> lt k (fst e)) m" and ?b = "dropWhile (\<lambda>e. \<not> lt k (fst e)) m"
  have s: "multimap_sorted lt (?a @ ?b)" using assms by simp
  have "\<not> lt (fst y) k" if "y \<in> set ?b" for y
  proof (cases ?b)
    case (Cons x xs)
    then have x: "lt k (fst x)" by (metis hd_dropWhile list.distinct(1) list.sel(1))
    have "\<not> lt (fst y) (fst x)" if "y \<in> set xs"
      using s Cons that by (auto simp: multimap_sorted_def sorted_wrt_append)
    with x that Cons show ?thesis by (metis lt_asym lt_trans set_ConsD)
  next
    case Nil
    show ?thesis using that unfolding Nil by simp
  qed
  moreover have "\<forall>y \<in> set ?a. \<not> lt k (fst y)" using set_takeWhileD by fastforce
  moreover have "sorted_wrt (\<lambda>a b. \<not> lt (fst b) (fst a)) ?a" "sorted_wrt (\<lambda>a b. \<not> lt (fst b) (fst a)) ?b"
    "\<forall>x \<in> set ?a. \<forall>y \<in> set ?b. \<not> lt (fst y) (fst x)"
    using s unfolding multimap_sorted_def sorted_wrt_append by blast+
  ultimately show ?thesis
    unfolding multimap_sorted_def multimap_insert_def sorted_wrt_append by auto
qed

lemma multimap_sorted_erase:
  "multimap_sorted lt m \<Longrightarrow> multimap_sorted lt (multimap_erase_range lt m k)"
  by (simp add: multimap_sorted_def multimap_erase_range_def sorted_wrt_filter)

lemma equal_range_erase:
  "multimap_equal_range lt (multimap_erase_range lt m k) k' =
    (if equiv_keys lt k k' then [] else multimap_equal_range lt m k')"
proof (cases "equiv_keys lt k k'")
  case True
  then show ?thesis
    by (auto simp: multimap_equal_range_def multimap_erase_range_def filter_empty_conv equiv_cong)
next
  case False
  then have "\<not> equiv_keys lt x k" if "equiv_keys lt x k'" for x
    using that equiv_sym equiv_trans by blast
  then have "filter (\<lambda>e. \<not> equiv_keys lt (fst e) k \<and> equiv_keys lt (fst e) k') m =
      filter (\<lambda>e. equiv_keys lt (fst e) k') m" by (intro filter_cong) auto
  with False show ?thesis by (simp add: multimap_equal_range_def multimap_erase_range_def conj_commute)
qed

end

section \<open>Keys with a total order\<close>

text \<open>Strings, integers and machine words are compared with their total order, so that equivalent
  keys are equal.\<close>

lemma equiv_less [simp]: "equiv_keys (<) a b \<longleftrightarrow> a = (b :: 'a :: linorder)"
  by (auto simp: equiv_keys_def)

interpretation total: strict_weak_order "(<) :: 'a :: linorder \<Rightarrow> 'a \<Rightarrow> bool"
  by unfold_locales auto

end
