(* ===== verification/Gid_Type.thy ===== *)
theory Gid_Type
  imports Std_Map "HOL-Library.Char_ord" "HOL-Library.List_Lexorder"
begin

text \<open>
  Global identifiers: \<open>struct gid_type\<close> and the functions of \<^verbatim>\<open>hpx/runtime/naming/name.hpp\<close>
  and \<^verbatim>\<open>src/runtime/naming/name.cpp\<close> on it. A gid is two 64-bit words; the upper one also
  carries the credit share of the reference (its logarithm, bits 24 to 28), the lock bit,
  the \<open>has_credits\<close>, \<open>was_split\<close> and \<open>dont_cache\<close> flags (bits 29, 30, 31 and 23) and the
  locality (bits 32 to 63).

  A function that takes \<open>gid_type&\<close> returns the updated gid. The copy constructor and the
  assignment strip the lock bit (\<open>gid_copy\<close>). The theory shows which bits each operation
  reads and writes, that comparison ignores the internal bits and is a strict weak order
  (so gids key \<open>std::map\<close>), 128-bit addition and subtraction, and that splitting conserves
  credit.
\<close>

section \<open>Layout: the masks\<close>

definition credit_base_mask :: u64 where "credit_base_mask = 0x1f"
definition credit_shift :: nat where "credit_shift = 24"
definition credit_mask :: u64 where "credit_mask = push_bit credit_shift credit_base_mask"
definition was_split_mask :: u64 where "was_split_mask = 0x80000000"
definition has_credits_mask :: u64 where "has_credits_mask = 0x40000000"
definition is_locked_mask :: u64 where "is_locked_mask = 0x20000000"
definition locality_id_mask :: u64 where "locality_id_mask = 0xffffffff00000000"
definition locality_id_shift :: nat where "locality_id_shift = 32"
definition virtual_memory_mask :: u64 where "virtual_memory_mask = 0x7fffff"
definition dont_cache_mask :: u64 where "dont_cache_mask = 0x800000"
definition credit_bits_mask :: u64 where
  "credit_bits_mask = credit_mask OR was_split_mask OR has_credits_mask"
definition internal_bits_mask :: u64 where
  "internal_bits_mask = credit_bits_mask OR is_locked_mask OR dont_cache_mask"
definition special_bits_mask :: u64 where
  "special_bits_mask = locality_id_mask OR internal_bits_mask"

definition HPX_GLOBALCREDIT_INITIAL :: i64 where "HPX_GLOBALCREDIT_INITIAL = 0x80000000"
definition invalid_locality_id :: u32 where "invalid_locality_id = NOT 0"

section \<open>The gid and its constructors\<close>

record gid_type =
  id_msb :: u64
  id_lsb :: u64

definition strip_lock_from_msb :: "u64 \<Rightarrow> u64" where
  "strip_lock_from_msb msb = msb AND NOT is_locked_mask"

definition mk_gid :: "u64 \<Rightarrow> u64 \<Rightarrow> gid_type" where
  "mk_gid msb lsb = \<lparr>id_msb = strip_lock_from_msb msb, id_lsb = lsb\<rparr>"

definition gid_of_lsb :: "u64 \<Rightarrow> gid_type" where
  "gid_of_lsb lsb = \<lparr>id_msb = 0, id_lsb = lsb\<rparr>"

definition gid_copy :: "gid_type \<Rightarrow> gid_type" where
  "gid_copy rhs = \<lparr>id_msb = strip_lock_from_msb (id_msb rhs), id_lsb = id_lsb rhs\<rparr>"

text \<open>Move construction: the new gid, and what is left of the source.\<close>

definition gid_move :: "gid_type \<Rightarrow> gid_type \<times> gid_type" where
  "gid_move rhs = (gid_copy rhs, \<lparr>id_msb = 0, id_lsb = 0\<rparr>)"

definition gid_is_locked :: "gid_type \<Rightarrow> bool" where
  "gid_is_locked g \<longleftrightarrow> id_msb g AND is_locked_mask \<noteq> 0"

definition gid_assign :: "gid_type \<Rightarrow> gid_type \<Rightarrow> gid_type result" where
  "gid_assign this rhs = hpx_assert (\<not> gid_is_locked this) (Inr (gid_copy rhs))"

definition invalid_gid :: gid_type where
  "invalid_gid = gid_of_lsb 0"

definition gid_to_bool :: "gid_type \<Rightarrow> bool" where
  "gid_to_bool g \<longleftrightarrow> id_lsb g \<noteq> 0 \<or> id_msb g \<noteq> 0"

section \<open>Stripping and reading the internal bits\<close>

definition strip_internal_bits_from_msb :: "u64 \<Rightarrow> u64" where
  "strip_internal_bits_from_msb msb = msb AND NOT internal_bits_mask"

definition strip_internal_bits_from_gid :: "gid_type \<Rightarrow> gid_type" where
  "strip_internal_bits_from_gid g = g\<lparr>id_msb := strip_internal_bits_from_msb (id_msb g)\<rparr>"

definition strip_internal_bits_except_dont_cache_from_msb :: "u64 \<Rightarrow> u64" where
  "strip_internal_bits_except_dont_cache_from_msb msb =
     msb AND NOT (credit_bits_mask OR is_locked_mask)"

definition strip_internal_bits_except_dont_cache_from_gid :: "gid_type \<Rightarrow> gid_type" where
  "strip_internal_bits_except_dont_cache_from_gid g =
     g\<lparr>id_msb := strip_internal_bits_except_dont_cache_from_msb (id_msb g)\<rparr>"

definition get_internal_bits :: "u64 \<Rightarrow> u64" where
  "get_internal_bits msb = msb AND internal_bits_mask"

definition strip_internal_bits_and_locality_from_msb :: "u64 \<Rightarrow> u64" where
  "strip_internal_bits_and_locality_from_msb msb = msb AND NOT special_bits_mask"

definition strip_lock_from_gid :: "gid_type \<Rightarrow> gid_type" where
  "strip_lock_from_gid g = g\<lparr>id_msb := strip_lock_from_msb (id_msb g)\<rparr>"

definition get_stripped_gid :: "gid_type \<Rightarrow> gid_type" where
  "get_stripped_gid g = mk_gid (strip_internal_bits_from_msb (id_msb g)) (id_lsb g)"

definition get_stripped_gid_except_dont_cache :: "gid_type \<Rightarrow> gid_type" where
  "get_stripped_gid_except_dont_cache g =
     mk_gid (strip_internal_bits_except_dont_cache_from_msb (id_msb g)) (id_lsb g)"

definition strip_credits_from_gid :: "gid_type \<Rightarrow> gid_type" where
  "strip_credits_from_gid g = g\<lparr>id_msb := id_msb g AND NOT credit_bits_mask\<rparr>"

definition has_credits :: "gid_type \<Rightarrow> bool" where
  "has_credits g \<longleftrightarrow> id_msb g AND has_credits_mask \<noteq> 0"

definition gid_was_split :: "gid_type \<Rightarrow> bool" where
  "gid_was_split g \<longleftrightarrow> id_msb g AND was_split_mask \<noteq> 0"

definition set_credit_split_mask_for_gid :: "gid_type \<Rightarrow> gid_type" where
  "set_credit_split_mask_for_gid g = g\<lparr>id_msb := id_msb g OR was_split_mask\<rparr>"

definition store_in_cache :: "gid_type \<Rightarrow> bool" where
  "store_in_cache g \<longleftrightarrow> \<not> (id_msb g AND dont_cache_mask \<noteq> 0)"

definition set_dont_store_in_cache :: "gid_type \<Rightarrow> gid_type" where
  "set_dont_store_in_cache g = g\<lparr>id_msb := id_msb g OR dont_cache_mask\<rparr>"

section \<open>Comparison\<close>

definition gid_eq :: "gid_type \<Rightarrow> gid_type \<Rightarrow> bool" where
  "gid_eq lhs rhs \<longleftrightarrow>
     strip_internal_bits_from_msb (id_msb lhs) = strip_internal_bits_from_msb (id_msb rhs) \<and>
     id_lsb lhs = id_lsb rhs"

definition gid_less :: "gid_type \<Rightarrow> gid_type \<Rightarrow> bool" where
  "gid_less lhs rhs \<longleftrightarrow>
     (if strip_internal_bits_from_msb (id_msb lhs) < strip_internal_bits_from_msb (id_msb rhs)
      then True
      else if strip_internal_bits_from_msb (id_msb lhs) >
              strip_internal_bits_from_msb (id_msb rhs)
      then False
      else id_lsb lhs < id_lsb rhs)"

definition gid_less_eq :: "gid_type \<Rightarrow> gid_type \<Rightarrow> bool" where
  "gid_less_eq lhs rhs \<longleftrightarrow>
     (if strip_internal_bits_from_msb (id_msb lhs) < strip_internal_bits_from_msb (id_msb rhs)
      then True
      else if strip_internal_bits_from_msb (id_msb lhs) >
              strip_internal_bits_from_msb (id_msb rhs)
      then False
      else id_lsb lhs \<le> id_lsb rhs)"

definition gid_greater :: "gid_type \<Rightarrow> gid_type \<Rightarrow> bool" where
  "gid_greater lhs rhs \<longleftrightarrow> \<not> gid_less_eq lhs rhs"

definition gid_greater_eq :: "gid_type \<Rightarrow> gid_type \<Rightarrow> bool" where
  "gid_greater_eq lhs rhs \<longleftrightarrow> \<not> gid_less lhs rhs"

section \<open>Arithmetic\<close>

text \<open>The number \<open>operator+\<close> computes; \<open>gid_add\<close> below is the operator with the assertion of debug builds.\<close>

definition gid_sum :: "gid_type \<Rightarrow> gid_type \<Rightarrow> gid_type" where
  "gid_sum lhs rhs =
     (let lsb = id_lsb lhs + id_lsb rhs;
          msb = id_msb lhs + id_msb rhs;
          msb = (if lsb < id_lsb lhs \<or> lsb < id_lsb rhs then msb + 1 else msb)
      in mk_gid msb lsb)"

text \<open>The consistency check \<open>operator+\<close> makes in debug builds.\<close>

definition gid_add_check :: "gid_type \<Rightarrow> gid_type \<Rightarrow> bool" where
  "gid_add_check lhs rhs \<longleftrightarrow>
     id_msb lhs + id_msb rhs =
       (strip_internal_bits_from_msb (id_msb lhs) +
        strip_internal_bits_and_locality_from_msb (id_msb rhs)) OR
       get_internal_bits (id_msb lhs)"

definition gid_add :: "gid_type \<Rightarrow> gid_type \<Rightarrow> gid_type result" where
  "gid_add lhs rhs = hpx_assert (gid_add_check lhs rhs) (Inr (gid_sum lhs rhs))"

definition gid_sub :: "gid_type \<Rightarrow> gid_type \<Rightarrow> gid_type" where
  "gid_sub lhs rhs =
     (let lsb = id_lsb lhs - id_lsb rhs;
          msb = id_msb lhs - id_msb rhs;
          msb = (if lsb > id_lsb lhs then msb - 1 else msb)
      in mk_gid msb lsb)"

definition gid_add_u64 :: "gid_type \<Rightarrow> u64 \<Rightarrow> gid_type" where
  "gid_add_u64 lhs rhs = gid_sum lhs (mk_gid 0 rhs)"  \<comment> \<open>the assertion always holds, \<open>gid_add_number\<close>\<close>

definition gid_sub_u64 :: "gid_type \<Rightarrow> u64 \<Rightarrow> gid_type" where
  "gid_sub_u64 lhs rhs = gid_sub lhs (mk_gid 0 rhs)"

definition gid_and_u64 :: "gid_type \<Rightarrow> u64 \<Rightarrow> gid_type" where
  "gid_and_u64 lhs rhs = mk_gid (id_msb lhs) (id_lsb lhs AND rhs)"

text \<open>\<open>++g\<close> and \<open>--g\<close> assign the sum back, which strips the lock bit.\<close>

definition gid_inc :: "gid_type \<Rightarrow> gid_type" where
  "gid_inc g = gid_copy (gid_add_u64 g 1)"

definition gid_dec :: "gid_type \<Rightarrow> gid_type" where
  "gid_dec g = gid_copy (gid_sub_u64 g 1)"

section \<open>The lock bit\<close>

definition acquire_lock :: "gid_type \<Rightarrow> bool \<times> gid_type" where
  "acquire_lock g =
     (if id_msb g AND is_locked_mask \<noteq> 0 then (False, g)
      else (True, g\<lparr>id_msb := id_msb g OR is_locked_mask\<rparr>))"

definition relinquish_lock :: "gid_type \<Rightarrow> gid_type" where
  "relinquish_lock g = g\<lparr>id_msb := id_msb g AND NOT is_locked_mask\<rparr>"

definition gid_try_lock :: "gid_type \<Rightarrow> bool \<times> gid_type" where
  "gid_try_lock g = acquire_lock g"

text \<open>\<open>lock()\<close> spins until \<open>acquire_lock\<close> succeeds: \<open>None\<close> while another holder has it.\<close>

definition gid_lock :: "gid_type \<Rightarrow> gid_type option" where
  "gid_lock g = (case acquire_lock g of (True, g') \<Rightarrow> Some g' | (False, _) \<Rightarrow> None)"

definition gid_unlock :: "gid_type \<Rightarrow> gid_type" where
  "gid_unlock g = relinquish_lock g"

section \<open>Localities\<close>

definition get_gid_from_locality_id :: "u32 \<Rightarrow> gid_type" where
  "get_gid_from_locality_id locality_id =
     mk_gid (push_bit locality_id_shift (ucast (locality_id + 1))) 0"

definition get_locality_id_from_msb :: "u64 \<Rightarrow> u32" where
  "get_locality_id_from_msb msb = ucast (drop_bit locality_id_shift msb) - 1"

definition get_locality_id_from_gid :: "gid_type \<Rightarrow> u32" where
  "get_locality_id_from_gid g = get_locality_id_from_msb (id_msb g)"

definition get_locality_from_gid :: "gid_type \<Rightarrow> gid_type" where
  "get_locality_from_gid g = get_gid_from_locality_id (get_locality_id_from_gid g)"

definition is_locality :: "gid_type \<Rightarrow> bool" where
  "is_locality g \<longleftrightarrow> gid_eq (get_locality_from_gid g) g"

definition replace_locality_id_msb :: "u64 \<Rightarrow> u32 \<Rightarrow> u64" where
  "replace_locality_id_msb msb locality_id =
     (msb AND NOT locality_id_mask) OR id_msb (get_gid_from_locality_id locality_id)"

definition replace_locality_id :: "gid_type \<Rightarrow> u32 \<Rightarrow> gid_type" where
  "replace_locality_id g locality_id =
     mk_gid ((id_msb g AND NOT locality_id_mask) OR id_msb (get_gid_from_locality_id locality_id))
       (id_lsb g)"

definition refers_to_virtual_memory :: "gid_type \<Rightarrow> bool" where
  "refers_to_virtual_memory g \<longleftrightarrow> \<not> (id_msb g AND virtual_memory_mask \<noteq> 0)"

section \<open>Credits\<close>

text \<open>
  \<open>log2\<close> shifts right until the value is zero. The shift of a signed value is arithmetic, so
  the loop does not end on a negative value: \<open>None\<close>.
\<close>

partial_function (option) log2_loop :: "i64 \<Rightarrow> int \<Rightarrow> int option" where
  "log2_loop val ret = (if val \<noteq> 0 then log2_loop (val div 2) (ret + 1) else Some ret)"

definition credit_log2 :: "i64 \<Rightarrow> int option" where
  "credit_log2 val = log2_loop val (-1)"

definition power2 :: "int \<Rightarrow> i64 result" where
  "power2 log2credits = hpx_assert (log2credits \<ge> 0) (Inr (2 ^ nat log2credits))"

definition get_log2credit_from_gid :: "gid_type \<Rightarrow> int result" where
  "get_log2credit_from_gid g =
     hpx_assert (has_credits g) (Inr (uint (drop_bit credit_shift (id_msb g) AND credit_base_mask)))"

definition get_credit_from_gid :: "gid_type \<Rightarrow> i64 result" where
  "get_credit_from_gid g =
     (if has_credits g then bind_result (get_log2credit_from_gid g) power2 else Inr 0)"

definition set_log2credit_for_gid :: "gid_type \<Rightarrow> int \<Rightarrow> gid_type result" where
  "set_log2credit_for_gid g log2credits =
     hpx_assert (log2credits \<ge> 0)
       (hpx_assert (0 = (word_of_int log2credits :: u64) AND NOT credit_base_mask)
         (Inr (g\<lparr>id_msb :=
            (id_msb g AND NOT credit_mask) OR
            (push_bit credit_shift (word_of_int log2credits) AND credit_mask) OR
            has_credits_mask\<rparr>)))"

definition set_credit_for_gid :: "gid_type \<Rightarrow> i64 \<Rightarrow> gid_type result option" where
  "set_credit_for_gid g credits =
     (if credits \<noteq> 0
      then (case credit_log2 credits of
              None \<Rightarrow> None
            | Some log2credits \<Rightarrow>
                Some (bind_result (power2 log2credits) (\<lambda>p.
                  hpx_assert (p = credits) (set_log2credit_for_gid g log2credits))))
      else Some (Inr (strip_credits_from_gid g)))"

definition add_credit_to_gid :: "gid_type \<Rightarrow> i64 \<Rightarrow> (i64 \<times> gid_type) result option" where
  "add_credit_to_gid g credits =
     (case get_credit_from_gid g of
        Inl e \<Rightarrow> Some (Inl e)
      | Inr c \<Rightarrow> map_option (\<lambda>r. bind_result r (\<lambda>g'. Inr (c + credits, g')))
                   (set_credit_for_gid g (c + credits)))"

definition remove_credit_from_gid :: "gid_type \<Rightarrow> i64 \<Rightarrow> (i64 \<times> gid_type) result option" where
  "remove_credit_from_gid g debit =
     (case get_credit_from_gid g of
        Inl e \<Rightarrow> Some (Inl e)
      | Inr c \<Rightarrow>
          if c > debit
          then map_option (\<lambda>r. bind_result r (\<lambda>g'. Inr (c - debit, g')))
                 (set_credit_for_gid g (c - debit))
          else Some (Inl assertion_failure))"

definition fill_credit_for_gid :: "gid_type \<Rightarrow> i64 \<Rightarrow> (i64 \<times> gid_type) result option" where
  "fill_credit_for_gid g credits =
     (case get_credit_from_gid g of
        Inl e \<Rightarrow> Some (Inl e)
      | Inr c \<Rightarrow>
          if c \<le> credits
          then map_option (\<lambda>r. bind_result r (\<lambda>g'. Inr (credits - c, g')))
                 (set_credit_for_gid g credits)
          else Some (Inl assertion_failure))"

text \<open>The caller of the \<open>_locked\<close> functions holds the gid's lock, so its lock bit is set.
  The result is the remaining gid and the new one.\<close>

definition split_credits_for_gid_locked :: "gid_type \<Rightarrow> (gid_type \<times> gid_type) result" where
  "split_credits_for_gid_locked g =
     hpx_assert (gid_is_locked g)
       (bind_result (get_log2credit_from_gid g) (\<lambda>log2credits.
         hpx_assert (log2credits > 0)
           (bind_result (set_log2credit_for_gid g (log2credits - 1)) (\<lambda>g'.
             bind_result (set_log2credit_for_gid (gid_copy g) (log2credits - 1)) (\<lambda>newid.
               Inr (set_credit_split_mask_for_gid g', set_credit_split_mask_for_gid newid))))))"

definition move_gid_locked :: "gid_type \<Rightarrow> (gid_type \<times> gid_type) result" where
  "move_gid_locked g =
     hpx_assert (gid_is_locked g)
       (Inr (if has_credits g then strip_credits_from_gid g else g, gid_copy g))"

text \<open>Running a \<open>_locked\<close> function under a scoped lock; \<open>None\<close> while the lock is taken.\<close>

definition with_gid_lock ::
  "(gid_type \<Rightarrow> (gid_type \<times> 'a) result) \<Rightarrow> gid_type \<Rightarrow> (gid_type \<times> 'a) result option" where
  "with_gid_lock f g =
     map_option (\<lambda>g'. bind_result (f g') (\<lambda>(h, x). Inr (gid_unlock h, x))) (gid_lock g)"

definition split_credits_for_gid :: "gid_type \<Rightarrow> (gid_type \<times> gid_type) result option" where
  "split_credits_for_gid = with_gid_lock split_credits_for_gid_locked"

definition move_gid :: "gid_type \<Rightarrow> (gid_type \<times> gid_type) result option" where
  "move_gid = with_gid_lock move_gid_locked"

section \<open>Which bits the masks select\<close>

lemma credit_mask_bit [mask_bits]: "bit credit_mask n \<longleftrightarrow> 24 \<le> n \<and> n < 29"
proof -
  have m: "credit_base_mask = mask 5" by (simp add: credit_base_mask_def mask_eq_exp_minus_1)
  show ?thesis unfolding credit_mask_def credit_shift_def m
    by (auto simp: bit_push_bit_iff bit_mask_iff)
qed
lemma credit_base_mask_bit [mask_bits]: "bit credit_base_mask n \<longleftrightarrow> n < 5"
proof -
  have m: "credit_base_mask = mask 5" by (simp add: credit_base_mask_def mask_eq_exp_minus_1)
  show ?thesis unfolding m by (auto simp: bit_mask_iff)
qed

lemma single_bit_mask: "bit (push_bit k 1 :: u64) n \<longleftrightarrow> n = k \<and> k < 64"
  by (simp add: bit_exp_iff) auto

lemma was_split_mask_bit [mask_bits]: "bit was_split_mask n \<longleftrightarrow> n = 31"
  using single_bit_mask [of 31 n] by (simp add: was_split_mask_def)
lemma has_credits_mask_bit [mask_bits]: "bit has_credits_mask n \<longleftrightarrow> n = 30"
  using single_bit_mask [of 30 n] by (simp add: has_credits_mask_def)
lemma is_locked_mask_bit [mask_bits]: "bit is_locked_mask n \<longleftrightarrow> n = 29"
  using single_bit_mask [of 29 n] by (simp add: is_locked_mask_def)
lemma dont_cache_mask_bit [mask_bits]: "bit dont_cache_mask n \<longleftrightarrow> n = 23"
  using single_bit_mask [of 23 n] by (simp add: dont_cache_mask_def)
lemma locality_id_mask_bit [mask_bits]: "bit locality_id_mask n \<longleftrightarrow> 32 \<le> n \<and> n < 64"
proof -
  have m: "locality_id_mask = push_bit 32 (mask 32)"
    by (simp add: locality_id_mask_def mask_eq_exp_minus_1)
  show ?thesis unfolding m by (auto simp: bit_push_bit_iff bit_mask_iff)
qed
lemma virtual_memory_mask_bit [mask_bits]: "bit virtual_memory_mask n \<longleftrightarrow> n < 23"
proof -
  have m: "virtual_memory_mask = mask 23"
    by (simp add: virtual_memory_mask_def mask_eq_exp_minus_1)
  show ?thesis unfolding m by (auto simp: bit_mask_iff)
qed
lemma credit_bits_mask_bit [mask_bits]:
  "bit credit_bits_mask n \<longleftrightarrow> (24 \<le> n \<and> n < 29) \<or> n = 30 \<or> n = 31"
  by (auto simp: credit_bits_mask_def bit_or_iff mask_bits)
lemma internal_bits_mask_bit [mask_bits]: "bit internal_bits_mask n \<longleftrightarrow> 23 \<le> n \<and> n < 32"
  by (auto simp: internal_bits_mask_def bit_or_iff mask_bits)
lemma special_bits_mask_bit [mask_bits]: "bit special_bits_mask n \<longleftrightarrow> 23 \<le> n \<and> n < 64"
  by (auto simp: special_bits_mask_def bit_or_iff mask_bits)

lemma and_single_bit:
  assumes "\<And>n. bit m n \<longleftrightarrow> n = k" shows "(w::u64) AND m \<noteq> 0 \<longleftrightarrow> bit w k"
  unfolding bit_eq_iff [of "w AND m"] by (auto simp: bit_and_iff assms dest: bit_imp_le_length)

lemma flag_bits [mask_bits]:
  "gid_is_locked g \<longleftrightarrow> bit (id_msb g) 29"
  "has_credits g \<longleftrightarrow> bit (id_msb g) 30"
  "gid_was_split g \<longleftrightarrow> bit (id_msb g) 31"
  "store_in_cache g \<longleftrightarrow> \<not> bit (id_msb g) 23"
     apply (simp_all only: gid_is_locked_def has_credits_def gid_was_split_def store_in_cache_def)
     apply (rule and_single_bit, simp add: mask_bits)+
  using and_single_bit [of dont_cache_mask 23 "id_msb g"] by (simp add: mask_bits)

lemma gid_eq_equiv: "equiv_keys gid_less a b \<longleftrightarrow> gid_eq a b"
  by (auto simp: equiv_keys_def gid_less_def gid_eq_def)

interpretation gid_order: strict_weak_order gid_less
  by unfold_locales (auto simp: equiv_keys_def gid_less_def split: if_splits)

section \<open>Bits written and kept\<close>

lemmas gid_bit_defs = gid_copy_def mk_gid_def strip_lock_from_msb_def strip_internal_bits_from_gid_def
  strip_internal_bits_from_msb_def strip_credits_from_gid_def set_credit_split_mask_for_gid_def
  strip_internal_bits_except_dont_cache_from_msb_def strip_lock_from_gid_def
  set_dont_store_in_cache_def relinquish_lock_def gid_unlock_def get_internal_bits_def

lemma bit_imp_less_64: "bit (w :: u64) n \<Longrightarrow> n < 64"
  using bit_imp_le_length [of w n] by simp

lemma msb_bits [mask_bits]:
  "bit (id_msb (gid_copy g)) n \<longleftrightarrow> bit (id_msb g) n \<and> n \<noteq> 29"
  "bit (id_msb (mk_gid m l)) n \<longleftrightarrow> bit m n \<and> n \<noteq> 29"
  "bit (id_msb (strip_credits_from_gid g)) n \<longleftrightarrow>
     bit (id_msb g) n \<and> \<not> (24 \<le> n \<and> n < 29 \<or> n = 30 \<or> n = 31)"
  "bit (id_msb (set_credit_split_mask_for_gid g)) n \<longleftrightarrow> bit (id_msb g) n \<or> n = 31"
  "bit (id_msb (set_dont_store_in_cache g)) n \<longleftrightarrow> bit (id_msb g) n \<or> n = 23"
  "bit (id_msb (gid_unlock g)) n \<longleftrightarrow> bit (id_msb g) n \<and> n \<noteq> 29"
  "bit (strip_internal_bits_from_msb m) n \<longleftrightarrow> bit m n \<and> \<not> (23 \<le> n \<and> n < 32)"
  by (auto simp: gid_bit_defs bit_and_iff bit_or_iff bit_not_iff mask_bits dest: bit_imp_less_64)

lemma lsb_kept [simp]:
  "id_lsb (gid_copy g) = id_lsb g" "id_lsb (mk_gid m l) = l"
  "id_lsb (strip_credits_from_gid g) = id_lsb g"
  "id_lsb (set_credit_split_mask_for_gid g) = id_lsb g"
  "id_lsb (set_dont_store_in_cache g) = id_lsb g" "id_lsb (gid_unlock g) = id_lsb g"
  "id_lsb (strip_internal_bits_from_gid g) = id_lsb g"
  by (simp_all add: gid_bit_defs)

text \<open>A gid is determined by its bits.\<close>

lemma gid_eqI:
  fixes g h :: gid_type
  assumes "\<And>n. bit (id_msb g) n \<longleftrightarrow> bit (id_msb h) n" and "id_lsb g = id_lsb h"
  shows "g = h"
  using assms by (intro gid_type.equality) (auto intro: bit_word_eqI)

lemma strip_eq_iff:
  "strip_internal_bits_from_msb a = strip_internal_bits_from_msb b \<longleftrightarrow>
   (\<forall>n. \<not> (23 \<le> n \<and> n < 32) \<longrightarrow> bit a n \<longleftrightarrow> bit b n)"
  by (auto simp: bit_eq_iff [of "strip_internal_bits_from_msb a"] mask_bits dest: bit_imp_less_64)

lemma gid_eq_bits:
  "gid_eq g h \<longleftrightarrow>
     (\<forall>n. \<not> (23 \<le> n \<and> n < 32) \<longrightarrow> bit (id_msb g) n \<longleftrightarrow> bit (id_msb h) n) \<and> id_lsb g = id_lsb h"
  by (simp add: gid_eq_def strip_eq_iff)

lemma gid_eq_refl [simp]: "gid_eq g g" and gid_eq_sym: "gid_eq g h \<Longrightarrow> gid_eq h g"
  and gid_eq_trans: "gid_eq g h \<Longrightarrow> gid_eq h k \<Longrightarrow> gid_eq g k"
  by (auto simp: gid_eq_def)

lemma gid_copy_idem [simp]: "gid_copy (gid_copy g) = gid_copy g"
  by (rule gid_eqI) (auto simp: mask_bits)

lemma gid_copy_unlocked: "\<not> gid_is_locked g \<Longrightarrow> gid_copy g = g"
  by (rule gid_eqI) (auto simp: mask_bits)

lemma gid_copy_not_locked [simp]: "\<not> gid_is_locked (gid_copy g)" "\<not> gid_is_locked (mk_gid m l)"
  by (auto simp: mask_bits)

lemma strip_internal_eq:
  "strip_internal_bits_from_gid g = strip_internal_bits_from_gid h \<longleftrightarrow> gid_eq g h"
  by (cases g, cases h) (auto simp: strip_internal_bits_from_gid_def gid_eq_def)

lemma gid_eq_strip [simp]: "gid_eq (strip_internal_bits_from_gid g) g"
  by (auto simp: gid_eq_bits strip_internal_bits_from_gid_def mask_bits)

section \<open>Comparison\<close>

lemma gid_less_eq_iff: "gid_less_eq g h \<longleftrightarrow> gid_less g h \<or> gid_eq g h"
  by (auto simp: gid_less_eq_def gid_less_def gid_eq_def)

lemma gid_greater_iff: "gid_greater g h \<longleftrightarrow> gid_less h g"
  by (auto simp: gid_greater_def gid_less_eq_def gid_less_def)

lemma gid_less_linear: "gid_less g h \<or> gid_eq g h \<or> gid_less h g"
  by (auto simp: gid_less_def gid_eq_def)

section \<open>Logarithm and powers of the credit\<close>

lemma log2_loop_pos:
  "0 < val \<Longrightarrow> \<exists>k. log2_loop val ret = Some (ret + int k + 1) \<and> 2 ^ k \<le> val \<and> val < 2 ^ Suc k"
proof (induction "nat val" arbitrary: val ret rule: less_induct)
  case less
  show ?case
  proof (cases "val = 1")
    case True
    then show ?thesis by (intro exI [of _ 0]) (simp add: log2_loop.simps)
  next
    case False
    with less.prems have v: "0 < val div 2" "nat (val div 2) < nat val" by auto
    from less.hyps [OF v(2,1)] obtain k where
      k: "log2_loop (val div 2) (ret + 1) = Some (ret + 1 + int k + 1)"
        "2 ^ k \<le> val div 2" "val div 2 < 2 ^ Suc k" by blast
    have "2 ^ Suc k \<le> val" "val < 2 ^ Suc (Suc k)" using k(2,3) by auto
    with k(1) less.prems show ?thesis
      by (intro exI [of _ "Suc k"]) (simp add: log2_loop.simps [of val])
  qed
qed

lemma log2_loop_returns_nonneg:
  assumes "log2_loop val ret = Some r" shows "0 \<le> val"
proof (rule log2_loop.raw_induct [where P = "\<lambda>val ret r. 0 \<le> val", OF _ assms])
  fix f and val ret r :: int
  assume IH: "\<And>val ret r. f val ret = Some r \<Longrightarrow> 0 \<le> val"
    and eq: "(if val \<noteq> 0 then f (val div 2) (ret + 1) else Some ret) = Some r"
  show "0 \<le> val" using eq IH [of "val div 2" "ret + 1" r] by (cases "val = 0") auto
qed

lemma credit_log2_pos:
  assumes "0 < c"
  obtains k where "credit_log2 c = Some (int k)" "2 ^ k \<le> c" "c < 2 ^ Suc k"
  using log2_loop_pos [OF assms, of "-1"] that by (auto simp: credit_log2_def)

lemma credit_log2_neg: "c < 0 \<Longrightarrow> credit_log2 c = None"
  using log2_loop_returns_nonneg by (fastforce simp: credit_log2_def)

lemma power_squeeze: "(2::int) ^ k \<le> 2 ^ n \<Longrightarrow> (2::int) ^ n < 2 ^ Suc k \<Longrightarrow> n = k"
  by (metis le_antisym less_Suc_eq_le one_less_numeral_iff power_increasing_iff
      power_strict_increasing_iff semiring_norm(76))

lemma credit_log2_power: "credit_log2 (2 ^ n) = Some (int n)"
proof -
  obtain k where "credit_log2 (2 ^ n) = Some (int k)" "(2::int) ^ k \<le> 2 ^ n" "(2::int) ^ n < 2 ^ Suc k"
    by (rule credit_log2_pos [of "2 ^ n"]) auto
  with power_squeeze [of k n] show ?thesis by simp
qed

lemma power2_nat [simp]: "power2 (int n) = Inr (2 ^ n)"
  by (simp add: power2_def)

section \<open>Credits\<close>

text \<open>The credit a gid carries, as a value; the code's reader computes it without assertion.\<close>

definition gid_log2 :: "gid_type \<Rightarrow> nat" where
  "gid_log2 g = unat (drop_bit credit_shift (id_msb g) AND credit_base_mask)"

definition gid_credit :: "gid_type \<Rightarrow> i64" where
  "gid_credit g = (if has_credits g then 2 ^ gid_log2 g else 0)"

lemma credit_base_mask_eq: "credit_base_mask = mask 5"
  by (simp add: credit_base_mask_def mask_eq_exp_minus_1)

lemma gid_log2_less: "gid_log2 g < 32"
  using take_bit_nat_less_exp [of 5 "unat (drop_bit credit_shift (id_msb g))"]
  by (simp add: gid_log2_def credit_base_mask_eq take_bit_eq_mask [symmetric] unsigned_take_bit_eq)

lemma gid_log2_cong:
  assumes "\<And>n. 24 \<le> n \<Longrightarrow> n < 29 \<Longrightarrow> bit (id_msb g) n \<longleftrightarrow> bit (id_msb h) n"
  shows "gid_log2 g = gid_log2 h"
proof -
  have "drop_bit credit_shift (id_msb g) AND credit_base_mask =
      drop_bit credit_shift (id_msb h) AND credit_base_mask"
    by (rule bit_word_eqI)
      (auto simp: bit_and_iff bit_drop_bit_eq credit_shift_def mask_bits assms)
  then show ?thesis by (simp add: gid_log2_def)
qed

lemma get_log2credit_eq:
  "get_log2credit_from_gid g =
     (if has_credits g then Inr (int (gid_log2 g)) else Inl assertion_failure)"
  by (simp add: get_log2credit_from_gid_def gid_log2_def hpx_assert_def)

lemma get_credit_eq [simp]: "get_credit_from_gid g = Inr (gid_credit g)"
  by (simp add: get_credit_from_gid_def gid_credit_def get_log2credit_eq)

lemma gid_credit_nonneg: "0 \<le> gid_credit g"
  by (simp add: gid_credit_def)

lemma gid_credit_le: "gid_credit g \<le> HPX_GLOBALCREDIT_INITIAL"
proof -
  have "(2::int) ^ gid_log2 g \<le> 2 ^ 31" using gid_log2_less [of g] by (intro power_increasing) auto
  then show ?thesis by (simp add: gid_credit_def HPX_GLOBALCREDIT_INITIAL_def)
qed

lemma gid_credit_copy [simp]: "gid_credit (gid_copy g) = gid_credit g"
  "gid_credit (gid_unlock g) = gid_credit g"
  "gid_credit (set_credit_split_mask_for_gid g) = gid_credit g"
  unfolding gid_credit_def
  by (auto simp: mask_bits intro!: arg_cong [of _ _ "\<lambda>n. 2 ^ n"] gid_log2_cong)

lemma gid_credit_strip [simp]: "gid_credit (strip_credits_from_gid g) = 0"
  by (simp add: gid_credit_def mask_bits)

text \<open>The range check of \<open>set_log2credit_for_gid\<close> is a check that the logarithm has five bits.\<close>

lemma log2_range_check:
  assumes "0 \<le> l" "l < 2 ^ 15"
  shows "(0 = (word_of_int l :: u64) AND NOT credit_base_mask) \<longleftrightarrow> l < 32"
proof
  assume "l < 32"
  with assms have "take_bit 5 l = l" by (simp add: take_bit_int_eq_self)
  then have "bit l n \<Longrightarrow> n < 5" for n by (metis bit_take_bit_iff)
  then show "0 = (word_of_int l :: u64) AND NOT credit_base_mask"
    by (intro bit_word_eqI) (auto simp: bit_and_iff bit_not_iff bit_word_of_int_iff mask_bits)
next
  assume z: "0 = (word_of_int l :: u64) AND NOT credit_base_mask"
  have "(word_of_int l :: u64) = take_bit 5 (word_of_int l)"
  proof (rule bit_word_eqI)
    fix n
    have "\<not> bit ((word_of_int l :: u64) AND NOT credit_base_mask) n" by (simp flip: z)
    then show "bit (word_of_int l :: u64) n \<longleftrightarrow> bit (take_bit 5 (word_of_int l :: u64)) n"
      by (auto simp: bit_and_iff bit_not_iff bit_take_bit_iff mask_bits dest: bit_imp_less_64)
  qed
  then have "uint (word_of_int l :: u64) = take_bit 5 (uint (word_of_int l :: u64))"
    by (metis unsigned_take_bit_eq)
  moreover have "uint (word_of_int l :: u64) = l"
    using assms by (simp add: uint_word_of_int)
  ultimately show "l < 32" using take_bit_int_less_exp [of 5 l] by simp
qed

lemma set_log2_ok:
  assumes "0 \<le> l" "l < 32"
  obtains g' where "set_log2credit_for_gid g l = Inr g'"
    "\<And>n. bit (id_msb g') n \<longleftrightarrow>
       (if n = 30 then True else if 24 \<le> n \<and> n < 29 then bit l (n - 24) else bit (id_msb g) n)"
    "id_lsb g' = id_lsb g" "gid_log2 g' = nat l" "has_credits g'"
proof -
  define g' where "g' = g\<lparr>id_msb := (id_msb g AND NOT credit_mask) OR
    (push_bit credit_shift (word_of_int l) AND credit_mask) OR has_credits_mask\<rparr>"
  have b: "bit (id_msb g') n \<longleftrightarrow>
      (if n = 30 then True else if 24 \<le> n \<and> n < 29 then bit l (n - 24) else bit (id_msb g) n)" for n
    by (auto simp: g'_def bit_and_iff bit_or_iff bit_not_iff bit_push_bit_iff bit_word_of_int_iff
        credit_shift_def mask_bits dest: bit_imp_less_64)
  have "take_bit 5 l = l" using assms by (simp add: take_bit_int_eq_self)
  then have l5: "bit l n \<Longrightarrow> n < 5" for n by (metis bit_take_bit_iff)
  have "drop_bit credit_shift (id_msb g') AND credit_base_mask = word_of_int l"
    by (rule bit_word_eqI)
      (use l5 in \<open>auto simp: bit_and_iff bit_drop_bit_eq credit_shift_def b bit_word_of_int_iff
        credit_base_mask_bit\<close>)
  then have "gid_log2 g' = nat l"
    using assms unfolding gid_log2_def by (simp add: unat_eq_nat_uint uint_word_of_int)
  moreover have "set_log2credit_for_gid g l = Inr g'"
    using assms log2_range_check [of l] by (simp add: set_log2credit_for_gid_def g'_def)
  moreover have "has_credits g'" by (simp add: flag_bits b)
  moreover have "id_lsb g' = id_lsb g" by (simp add: g'_def)
  ultimately show ?thesis using that [of g'] b by blast
qed

lemma set_log2_fails:
  assumes "l < 0 \<or> 32 \<le> l" "l < 2 ^ 15"
  shows "set_log2credit_for_gid g l = Inl assertion_failure"
  using assms log2_range_check [of l] by (auto simp: set_log2credit_for_gid_def hpx_assert_def)

text \<open>The outcome of \<open>set_credit_for_gid\<close> on every argument.\<close>

lemma set_credit_power:
  assumes "n < 32"
  obtains g' where "set_credit_for_gid g (2 ^ n) = Some (Inr g')" "gid_credit g' = 2 ^ n"
    "gid_eq g' g" "gid_is_locked g' \<longleftrightarrow> gid_is_locked g" "gid_was_split g' \<longleftrightarrow> gid_was_split g"
    "store_in_cache g' \<longleftrightarrow> store_in_cache g"
proof -
  obtain g' where g': "set_log2credit_for_gid g (int n) = Inr g'"
    "\<And>m. bit (id_msb g') m \<longleftrightarrow>
       (if m = 30 then True else if 24 \<le> m \<and> m < 29 then bit (int n) (m - 24) else bit (id_msb g) m)"
    "id_lsb g' = id_lsb g" "gid_log2 g' = nat (int n)" "has_credits g'"
    using set_log2_ok [of "int n" g] assms by auto
  have "set_credit_for_gid g (2 ^ n) = Some (Inr g')"
    using g'(1) by (simp add: set_credit_for_gid_def credit_log2_power)
  moreover have "gid_credit g' = 2 ^ n" using g'(4,5) by (simp add: gid_credit_def)
  moreover have "gid_eq g' g" using g'(2,3) by (auto simp: gid_eq_bits)
  moreover have "gid_is_locked g' \<longleftrightarrow> gid_is_locked g" "gid_was_split g' \<longleftrightarrow> gid_was_split g"
    "store_in_cache g' \<longleftrightarrow> store_in_cache g" using g'(2) by (simp_all add: flag_bits)
  ultimately show ?thesis using that by blast
qed

lemma set_credit_zero: "set_credit_for_gid g 0 = Some (Inr (strip_credits_from_gid g))"
  by (simp add: set_credit_for_gid_def)

lemma set_credit_negative: "c < 0 \<Longrightarrow> set_credit_for_gid g c = None"
  by (simp add: set_credit_for_gid_def credit_log2_neg)

lemma set_credit_fails:
  assumes "0 < c" "c < 2 ^ 63" "\<And>n. n < 32 \<Longrightarrow> c \<noteq> 2 ^ n"
  shows "set_credit_for_gid g c = Some (Inl assertion_failure)"
proof -
  obtain k where k: "credit_log2 c = Some (int k)" "2 ^ k \<le> c" "c < 2 ^ Suc k"
    using assms(1) by (rule credit_log2_pos)
  have "(2::int) ^ k < 2 ^ 63" using k(2) assms(2) by simp
  then have "k < 63" by (rule power_less_imp_less_exp [rotated]) simp
  then have "int k < 2 ^ 15" by simp
  show ?thesis
  proof (cases "c = 2 ^ k")
    case True
    with assms(3) [of k] have "32 \<le> k" by (cases "k < 32") auto
    with \<open>int k < 2 ^ 15\<close> have "set_log2credit_for_gid g (int k) = Inl assertion_failure"
      by (intro set_log2_fails) auto
    with k(1) True assms(1) show ?thesis by (simp add: set_credit_for_gid_def)
  next
    case False
    with k(1) assms(1) show ?thesis by (simp add: set_credit_for_gid_def hpx_assert_def)
  qed
qed

section \<open>Splitting\<close>

lemma split_credits_locked_spec:
  assumes "gid_is_locked g" "has_credits g" "0 < gid_log2 g"
  obtains g' newid where "split_credits_for_gid_locked g = Inr (g', newid)"
    "gid_credit g' + gid_credit newid = gid_credit g" "gid_credit g' = gid_credit newid"
    "gid_was_split g'" "gid_was_split newid" "gid_eq g' g" "gid_eq newid g"
    "gid_is_locked g'" "\<not> gid_is_locked newid" "has_credits g'" "has_credits newid"
proof -
  have r: "0 \<le> int (gid_log2 g) - 1" "int (gid_log2 g) - 1 < 32"
    using assms(3) gid_log2_less [of g] by auto
  obtain a where a: "set_log2credit_for_gid g (int (gid_log2 g) - 1) = Inr a"
    "\<And>n. bit (id_msb a) n \<longleftrightarrow> (if n = 30 then True else if 24 \<le> n \<and> n < 29
       then bit (int (gid_log2 g) - 1) (n - 24) else bit (id_msb g) n)"
    "id_lsb a = id_lsb g" "gid_log2 a = nat (int (gid_log2 g) - 1)" "has_credits a"
    using set_log2_ok [OF r, of g] by blast
  obtain b where b: "set_log2credit_for_gid (gid_copy g) (int (gid_log2 g) - 1) = Inr b"
    "\<And>n. bit (id_msb b) n \<longleftrightarrow> (if n = 30 then True else if 24 \<le> n \<and> n < 29
       then bit (int (gid_log2 g) - 1) (n - 24) else bit (id_msb (gid_copy g)) n)"
    "id_lsb b = id_lsb (gid_copy g)" "gid_log2 b = nat (int (gid_log2 g) - 1)" "has_credits b"
    using set_log2_ok [OF r, of "gid_copy g"] by blast
  have half: "gid_credit a = 2 ^ (gid_log2 g - 1)" "gid_credit b = 2 ^ (gid_log2 g - 1)"
    using a(4,5) b(4,5) by (simp_all add: gid_credit_def nat_diff_distrib)
  have "split_credits_for_gid_locked g =
      Inr (set_credit_split_mask_for_gid a, set_credit_split_mask_for_gid b)"
    using assms a(1) b(1) by (simp add: split_credits_for_gid_locked_def get_log2credit_eq)
  moreover have "(2::int) ^ (gid_log2 g - 1) + 2 ^ (gid_log2 g - 1) = gid_credit g"
    using assms by (cases "gid_log2 g") (simp_all add: gid_credit_def)
  ultimately show ?thesis
    using assms(1) a(2,3) b(2,3) half
    by (intro that [of "set_credit_split_mask_for_gid a" "set_credit_split_mask_for_gid b"])
      (auto simp: mask_bits gid_eq_bits)
qed

lemma gid_lock_spec:
  "gid_lock g = (if gid_is_locked g then None else Some (g\<lparr>id_msb := id_msb g OR is_locked_mask\<rparr>))"
  by (simp add: gid_lock_def acquire_lock_def gid_is_locked_def)

lemma gid_lock_bits:
  assumes "gid_lock g = Some g'"
  shows "bit (id_msb g') n \<longleftrightarrow> bit (id_msb g) n \<or> n = 29" "id_lsb g' = id_lsb g"
  using assms by (auto simp: gid_lock_spec bit_or_iff mask_bits split: if_splits)

lemma gid_lock_effect:
  assumes "gid_lock g = Some g'"
  shows "gid_is_locked g'" "gid_eq g' g" "gid_credit g' = gid_credit g"
    "has_credits g' \<longleftrightarrow> has_credits g" "gid_log2 g' = gid_log2 g" "gid_was_split g' \<longleftrightarrow> gid_was_split g"
    "gid_unlock g' = g"
proof -
  note b = gid_lock_bits [OF assms]
  have nl: "\<not> gid_is_locked g" using assms by (simp add: gid_lock_spec split: if_splits)
  show "gid_is_locked g'" "gid_eq g' g" "has_credits g' \<longleftrightarrow> has_credits g"
    "gid_was_split g' \<longleftrightarrow> gid_was_split g" using b by (auto simp: mask_bits gid_eq_bits)
  show l: "gid_log2 g' = gid_log2 g" by (rule gid_log2_cong) (simp add: b)
  show "gid_credit g' = gid_credit g" using l b by (simp add: gid_credit_def mask_bits)
  show "gid_unlock g' = g" using b nl by (intro gid_eqI) (auto simp: mask_bits)
qed

lemma gid_unlock_effect [simp]: "\<not> gid_is_locked (gid_unlock g)" "gid_eq (gid_unlock g) h \<longleftrightarrow> gid_eq g h"
  "gid_was_split (gid_unlock g) \<longleftrightarrow> gid_was_split g" "has_credits (gid_unlock g) \<longleftrightarrow> has_credits g"
  by (auto simp: mask_bits gid_eq_bits)

lemma gid_eq_copy [simp]: "gid_eq (gid_copy g) h \<longleftrightarrow> gid_eq g h"
  by (auto simp: mask_bits gid_eq_bits)

lemma gid_eq_set_split [simp]: "gid_eq (set_credit_split_mask_for_gid g) h \<longleftrightarrow> gid_eq g h"
  by (auto simp: mask_bits gid_eq_bits)

section \<open>Arithmetic\<close>

lemma carry_int:
  fixes x y s m :: int
  assumes "x + y = s + (if m \<le> x + y then m else 0)" "0 \<le> x" "x < m" "0 \<le> y" "y < m"
  shows "(s < x \<or> s < y) \<longleftrightarrow> m \<le> x + y" "s < x \<longleftrightarrow> m \<le> x + y"
  using assms by (auto split: if_splits)

lemma word_add_carry:
  fixes a b :: u64
  shows "(a + b < a \<or> a + b < b) \<longleftrightarrow> 2 ^ 64 \<le> uint a + uint b"
    "uint a + uint b = uint (a + b) + (if 2 ^ 64 \<le> uint a + uint b then 2 ^ 64 else 0)"
proof -
  have u: "uint (a + b) = (uint a + uint b) mod 2 ^ 64" by (simp add: uint_word_ariths)
  have r: "0 \<le> uint a" "uint a < 2 ^ 64" "0 \<le> uint b" "uint b < 2 ^ 64"
    using uint_bounded [of a] uint_bounded [of b] by simp_all
  show e: "uint a + uint b = uint (a + b) + (if 2 ^ 64 \<le> uint a + uint b then 2 ^ 64 else 0)"
  proof (cases "2 ^ 64 \<le> uint a + uint b")
    case True
    have "(uint a + uint b - 2 ^ 64) mod 2 ^ 64 = uint a + uint b - 2 ^ 64"
      using r True by (intro mod_pos_pos_trivial) linarith+
    then have "(uint a + uint b) mod 2 ^ 64 = uint a + uint b - 2 ^ 64"
      by (metis minus_mod_self2)
    with True u show ?thesis by simp
  next
    case False
    with r u show ?thesis by (simp add: mod_pos_pos_trivial)
  qed
  show "(a + b < a \<or> a + b < b) \<longleftrightarrow> 2 ^ 64 \<le> uint a + uint b"
    unfolding word_less_def by (rule carry_int(1) [OF e r])
qed

text \<open>Addition is addition of 128-bit numbers, except that the result loses the lock bit.\<close>

definition gid_value :: "gid_type \<Rightarrow> int" where
  "gid_value g = uint (id_msb g) * 2 ^ 64 + uint (id_lsb g)"

lemma gid_add_parts:
  "id_lsb (gid_sum g h) = id_lsb g + id_lsb h"
  "id_msb (gid_sum g h) = strip_lock_from_msb
     (id_msb g + id_msb h + (if 2 ^ 64 \<le> uint (id_lsb g) + uint (id_lsb h) then 1 else 0))"
  using word_add_carry(1) [of "id_lsb g" "id_lsb h"]
  by (auto simp: gid_sum_def mk_gid_def Let_def)

lemma word_add_carry_left:
  fixes a b :: u64
  shows "a + b < a \<longleftrightarrow> 2 ^ 64 \<le> uint a + uint b"
proof -
  have r: "0 \<le> uint a" "uint a < 2 ^ 64" "0 \<le> uint b" "uint b < 2 ^ 64"
    using uint_bounded [of a] uint_bounded [of b] by simp_all
  show ?thesis unfolding word_less_def by (rule carry_int(2) [OF word_add_carry(2) r])
qed

lemma gid_sub_add:
  assumes "\<not> gid_is_locked g"
    and "\<not> bit (id_msb g + id_msb h +
      (if 2 ^ 64 \<le> uint (id_lsb g) + uint (id_lsb h) then 1 else 0)) 29"
  shows "gid_sub (gid_sum g h) h = g"
proof -
  let ?c = "if 2 ^ 64 \<le> uint (id_lsb g) + uint (id_lsb h) then (1 :: u64) else 0"
  have strip: "strip_lock_from_msb m = m" if "\<not> bit m 29" for m
    by (rule bit_word_eqI)
      (use that in \<open>auto simp: strip_lock_from_msb_def bit_and_iff bit_not_iff mask_bits\<close>)
  have "id_msb (gid_sum g h) = id_msb g + id_msb h + ?c"
    using assms(2) by (simp add: gid_add_parts strip)
  moreover have "id_lsb g > id_lsb g + id_lsb h \<longleftrightarrow> 2 ^ 64 \<le> uint (id_lsb g) + uint (id_lsb h)"
    using word_add_carry_left [of "id_lsb g" "id_lsb h"] by simp
  ultimately have "gid_sub (gid_sum g h) h = mk_gid (id_msb g) (id_lsb g)"
    by (simp add: gid_sub_def gid_add_parts(1) Let_def)
  then show ?thesis using gid_copy_unlocked [OF assms(1)] by (simp add: mk_gid_def gid_copy_def)
qed

lemma gid_add_u64_no_carry:
  assumes "unat (id_lsb g) + unat n < 2 ^ 64"
  shows "gid_add_u64 g n = mk_gid (id_msb g) (id_lsb g + n)"
proof -
  have "int (unat (id_lsb g) + unat n) < int (2 ^ 64)"
    using assms by (simp only: of_nat_less_iff)
  then have "\<not> 2 ^ 64 \<le> uint (id_lsb g) + uint n" by simp
  moreover have "id_msb (mk_gid 0 n) = 0" by (simp add: mk_gid_def strip_lock_from_msb_def)
  ultimately show ?thesis
    using word_add_carry(1) [of "id_lsb g" n] by (simp add: gid_add_u64_def gid_sum_def Let_def)
qed

lemma gid_add_check_u64: "gid_add_check g (mk_gid 0 n)"
proof -
  have "id_msb (mk_gid 0 n) = 0" by (simp add: mk_gid_def strip_lock_from_msb_def)
  moreover have "strip_internal_bits_from_msb m OR get_internal_bits m = m" for m
    by (rule bit_word_eqI)
      (auto simp: strip_internal_bits_from_msb_def get_internal_bits_def bit_and_iff bit_or_iff bit_not_iff)
  ultimately show ?thesis
    by (simp add: gid_add_check_def strip_internal_bits_and_locality_from_msb_def)
qed

lemma gid_add_number: "gid_add g (mk_gid 0 n) = Inr (gid_add_u64 g n)"
  by (simp add: gid_add_def gid_add_u64_def gid_add_check_u64 hpx_assert_def)

text \<open>The assertion holds whenever the part of the upper word that extends the lower one does not overflow and the
  second summand has nothing else in its upper word.\<close>

lemma add_low_part:
  fixes m r :: u64
  assumes "unat m mod 2 ^ 23 + unat r < 2 ^ 23"
  shows "drop_bit 23 (m + r) = drop_bit 23 m"
proof -
  have d: "unat m div 2 ^ 23 \<le> 2 ^ 41 - 1"
  proof -
    have "unat m < 2 ^ 41 * 2 ^ 23" using unsigned_less [of m] by simp
    then have "unat m div 2 ^ 23 < 2 ^ 41" by (rule less_mult_imp_div_less)
    then show ?thesis by linarith
  qed
  have q: "unat m + unat r = 2 ^ 23 * (unat m div 2 ^ 23) + (unat m mod 2 ^ 23 + unat r)" by simp
  have "unat m + unat r < 2 ^ 23 * (unat m div 2 ^ 23) + 2 ^ 23" using assms q by linarith
  also have "\<dots> \<le> 2 ^ 23 * (2 ^ 41 - 1) + 2 ^ 23" by (intro add_right_mono mult_le_mono2 d)
  also have "\<dots> = 2 ^ 64" by simp
  finally have "unat m + unat r < 2 ^ 64" .
  then have "unat (m + r) = unat m + unat r" by (simp add: unat_word_ariths)
  then have "unat (m + r) div 2 ^ 23 = (unat m mod 2 ^ 23 + unat r + unat m div 2 ^ 23 * 2 ^ 23) div 2 ^ 23"
    using q by (simp only: mult.commute add.commute)
  also have "\<dots> = unat m div 2 ^ 23 + (unat m mod 2 ^ 23 + unat r) div 2 ^ 23" by (rule div_mult_self1) simp
  also have "(unat m mod 2 ^ 23 + unat r) div 2 ^ 23 = 0" using assms by (rule div_less)
  finally have "unat (m + r) div 2 ^ 23 = unat m div 2 ^ 23" by (simp only: add_0_right)
  then show ?thesis by (intro word_unat_eq_iff [THEN iffD2]) (simp add: drop_bit_eq_div unat_div)
qed

lemma gid_add_check_low:
  assumes "unat (id_msb g) mod 2 ^ 23 + unat (id_msb h) < 2 ^ 23"
  shows "gid_add_check g h"
proof -
  let ?l = "id_msb g" and ?r = "id_msb h" and ?s = "strip_internal_bits_from_msb (id_msb g)"
  have t: "take_bit 23 ?s = take_bit 23 ?l"
    by (rule bit_word_eqI) (auto simp: bit_take_bit_iff strip_internal_bits_from_msb_def mask_bits bit_and_iff bit_not_iff)
  have r: "strip_internal_bits_and_locality_from_msb ?r = ?r"
  proof -
    have "drop_bit 23 ?r = 0"
      using assms by (intro word_unat_eq_iff [THEN iffD2]) (simp add: drop_bit_eq_div unat_div)
    then have "\<not> bit (drop_bit 23 ?r) (n - 23)" for n by simp
    then have "\<not> bit ?r (23 + (n - 23))" for n by (simp add: bit_drop_bit_eq)
    then have "n < 23" if "bit ?r n" for n using that by (metis le_add_diff_inverse not_le)
    then show ?thesis
      by (intro bit_word_eqI) (auto simp: strip_internal_bits_and_locality_from_msb_def mask_bits bit_and_iff bit_not_iff not_le)
  qed
  have low: "unat ?s mod 2 ^ 23 = unat ?l mod 2 ^ 23"
    using arg_cong [OF t, of unat] by (simp add: unsigned_take_bit_eq take_bit_nat_def)
  then have d: "drop_bit 23 (?s + ?r) = drop_bit 23 ?s" "drop_bit 23 (?l + ?r) = drop_bit 23 ?l"
    using assms by (simp_all add: add_low_part)
  have hi: "bit (?s + ?r) n = bit ?s n" "bit (?l + ?r) n = bit ?l n" if "23 \<le> n" for n
    using arg_cong [OF d(1), of "\<lambda>w. bit w (n - 23)"] arg_cong [OF d(2), of "\<lambda>w. bit w (n - 23)"] that
    by (simp_all add: bit_drop_bit_eq)
  have lo: "bit (?s + ?r) n = bit (?l + ?r) n" if "n < 23" for n
  proof -
    have mods: "unat (x + ?r) mod 2 ^ 23 = (unat x + unat ?r) mod 2 ^ 23" for x :: u64
      by (simp add: unat_word_ariths mod_mod_cancel)
    have "(unat ?s + unat ?r) mod 2 ^ 23 = (unat ?l + unat ?r) mod 2 ^ 23" using low by (rule mod_add_cong) simp
    then have "unat (take_bit 23 (?s + ?r)) = unat (take_bit 23 (?l + ?r))"
      by (simp only: unsigned_take_bit_eq take_bit_nat_def mods)
    then have "take_bit 23 (?s + ?r) = take_bit 23 (?l + ?r)" by (simp only: word_unat_eq_iff)
    then have "bit (take_bit 23 (?s + ?r)) n = bit (take_bit 23 (?l + ?r)) n" by simp
    then show ?thesis using that by (simp add: bit_take_bit_iff)
  qed
  have "?l + ?r = (?s + ?r) OR get_internal_bits ?l"
  proof (rule bit_word_eqI)
    fix n assume "n < LENGTH(64)"
    show "bit (?l + ?r) n = bit ((?s + ?r) OR get_internal_bits ?l) n"
    proof (cases "n < 23")
      case True
      then show ?thesis using lo [OF True] by (auto simp: bit_or_iff get_internal_bits_def bit_and_iff mask_bits)
    next
      case False
      then show ?thesis
        using hi [of n] \<open>n < LENGTH(64)\<close>
        by (auto simp: bit_or_iff get_internal_bits_def strip_internal_bits_from_msb_def bit_and_iff bit_not_iff mask_bits)
    qed
  qed
  then show ?thesis by (simp add: gid_add_check_def r)
qed

section \<open>Localities\<close>

lemma locality_roundtrip: "get_locality_id_from_gid (get_gid_from_locality_id l) = l"
proof -
  have "ucast (drop_bit 32 (strip_lock_from_msb (push_bit 32 (ucast (l + 1) :: u64)))) = l + 1"
    by (rule bit_word_eqI)
      (auto simp: strip_lock_from_msb_def bit_and_iff bit_not_iff bit_drop_bit_eq bit_push_bit_iff
        bit_ucast_iff mask_bits dest: bit_imp_le_length)
  then show ?thesis
    by (simp add: get_locality_id_from_gid_def get_locality_id_from_msb_def
        get_gid_from_locality_id_def mk_gid_def locality_id_shift_def)
qed

lemma get_locality_msb_bit:
  "bit (id_msb (get_gid_from_locality_id l)) n \<longleftrightarrow> 32 \<le> n \<and> n < 64 \<and> bit (l + 1) (n - 32)"
  by (auto simp: get_gid_from_locality_id_def mask_bits bit_push_bit_iff bit_ucast_iff locality_id_shift_def)

lemma replace_locality_spec:
  "get_locality_id_from_gid (replace_locality_id g l) = l"
  "id_lsb (replace_locality_id g l) = id_lsb g"
  "n < 32 \<Longrightarrow> n \<noteq> 29 \<Longrightarrow> bit (id_msb (replace_locality_id g l)) n \<longleftrightarrow> bit (id_msb g) n"
proof -
  have b: "bit (id_msb (replace_locality_id g l)) n \<longleftrightarrow> n \<noteq> 29 \<and>
      (if n < 32 then bit (id_msb g) n else n < 64 \<and> bit (l + 1) (n - 32))" for n
    by (auto simp: replace_locality_id_def mask_bits bit_or_iff bit_and_iff bit_not_iff
        get_locality_msb_bit dest: bit_imp_less_64)
  then show "n < 32 \<Longrightarrow> n \<noteq> 29 \<Longrightarrow> bit (id_msb (replace_locality_id g l)) n \<longleftrightarrow> bit (id_msb g) n" by simp
  show "id_lsb (replace_locality_id g l) = id_lsb g" by (simp add: replace_locality_id_def)
  have "ucast (drop_bit 32 (id_msb (replace_locality_id g l))) = l + 1"
    by (rule bit_word_eqI) (auto simp: bit_ucast_iff bit_drop_bit_eq b dest: bit_imp_le_length)
  then show "get_locality_id_from_gid (replace_locality_id g l) = l"
    by (simp add: get_locality_id_from_gid_def get_locality_id_from_msb_def locality_id_shift_def)
qed

section \<open>Properties\<close>

lemma value_mod:
  fixes m l b :: int
  assumes "0 \<le> l" "l < b"
  shows "(m * b + l) mod (b * b) = (m mod b) * b + l"
proof -
  let ?r = "m mod b"
  have r: "0 \<le> ?r" "?r \<le> b - 1" using assms pos_mod_bound [of b m] by simp_all
  have "m * b + l = (?r * b + l) + (m div b) * (b * b)"
    using mult_div_mod_eq [of b m] by (metis (no_types, opaque_lifting) add.assoc add.commute distrib_right mult.assoc mult.commute)
  moreover have "?r * b + l < b * b"
  proof -
    have "?r * b \<le> (b - 1) * b" using r(2) assms by (intro mult_right_mono) auto
    then show ?thesis using assms(2) by (simp add: algebra_simps)
  qed
  moreover have "0 \<le> ?r * b + l" using r(1) assms by simp
  ultimately show ?thesis by (metis mod_mult_self1 mod_pos_pos_trivial)
qed

text \<open>The number that remains of a gid when bits 23 to 31 of its upper word are cleared.\<close>

definition entity_value :: "gid_type \<Rightarrow> int" where
  "entity_value g = uint (id_msb g AND NOT (push_bit 23 (mask 9))) * 2 ^ 64 + uint (id_lsb g)"

lemma strip_internal_mask: "strip_internal_bits_from_msb m = m AND NOT (push_bit 23 (mask 9))"
  by (rule bit_word_eqI)
    (auto simp: strip_internal_bits_from_msb_def bit_and_iff bit_not_iff mask_bits bit_push_bit_iff bit_mask_iff)

lemma value_order:
  fixes a b c d :: u64
  shows "uint a * 2 ^ 64 + uint c < uint b * 2 ^ 64 + uint d \<longleftrightarrow> a < b \<or> a = b \<and> c < d"
    "uint a * 2 ^ 64 + uint c = uint b * 2 ^ 64 + uint d \<longleftrightarrow> a = b \<and> c = d"
proof -
  have less: "uint a * 2 ^ 64 + uint c < uint b * 2 ^ 64 + uint d" if "a < b" for a b c d :: u64
  proof -
    have "(uint a + 1) * 2 ^ 64 \<le> uint b * 2 ^ 64" using that by (intro mult_right_mono) (simp_all add: word_less_def)
    then have "uint a * 2 ^ 64 + 2 ^ 64 \<le> uint b * 2 ^ 64" by (simp only: distrib_right mult_1)
    moreover have "uint c < 2 ^ 64" "0 \<le> uint d" using uint_bounded [of c] by simp_all
    ultimately show ?thesis by linarith
  qed
  show "uint a * 2 ^ 64 + uint c < uint b * 2 ^ 64 + uint d \<longleftrightarrow> a < b \<or> a = b \<and> c < d"
    using less [of a b c d] less [of b a d c] by (cases a b rule: linorder_cases) (auto simp: word_less_def [of c d])
  show "uint a * 2 ^ 64 + uint c = uint b * 2 ^ 64 + uint d \<longleftrightarrow> a = b \<and> c = d"
    using less [of a b c d] less [of b a d c] by (cases a b rule: linorder_cases) (auto simp: word_uint_eq_iff [of c d])
qed

text \<open>C35: The comparison operators compare the numbers that remain of two gids when the internal
  bits (credit, split mark, lock, cache hint: bits 23 to 31 of the upper word) are cleared, so they form a total order on entities; gids that
  differ only in internal bits are equal.\<close>

theorem gid_order_total:
  "(gid_eq g h \<longleftrightarrow> entity_value g = entity_value h) \<and> (gid_less g h \<longleftrightarrow> entity_value g < entity_value h) \<and>
   (gid_less_eq g h \<longleftrightarrow> entity_value g \<le> entity_value h) \<and> (gid_greater g h \<longleftrightarrow> entity_value g > entity_value h) \<and>
   (gid_greater_eq g h \<longleftrightarrow> entity_value g \<ge> entity_value h) \<and>
   (\<forall>bits. gid_eq (g\<lparr>id_msb := (id_msb g AND NOT (push_bit 23 (mask 9))) OR (bits AND push_bit 23 (mask 9))\<rparr>) g)"
proof -
  have less: "gid_less a b \<longleftrightarrow> entity_value a < entity_value b" and eq: "gid_eq a b \<longleftrightarrow> entity_value a = entity_value b" for a b
    unfolding entity_value_def value_order gid_less_def gid_eq_def strip_internal_mask by auto
  have bits: "gid_eq (g\<lparr>id_msb := (id_msb g AND NOT (push_bit 23 (mask 9))) OR (bits AND push_bit 23 (mask 9))\<rparr>) g" for bits
  proof -
    have "((m AND NOT k) OR (bits AND k)) AND NOT k = m AND NOT k" for m k :: u64
      by (rule bit_word_eqI) (auto simp: bit_and_iff bit_or_iff bit_not_iff)
    then show ?thesis by (simp add: gid_eq_def strip_internal_mask)
  qed
  show ?thesis
    using less [of g h] eq [of g h] less [of h g] bits gid_less_eq_iff [of g h] gid_greater_iff [of g h]
    by (auto simp: gid_greater_eq_def)
qed

text \<open>Two gids with different credit, of which one is locked, are equal, and less than the next one.\<close>

theorem gid_order_total_witness:
  "gid_eq \<lparr>id_msb = 0x1A7000005, id_lsb = 7\<rparr> \<lparr>id_msb = 0x102000005, id_lsb = 7\<rparr> \<and>
   gid_less \<lparr>id_msb = 0x1A7000005, id_lsb = 7\<rparr> \<lparr>id_msb = 0x102000005, id_lsb = 8\<rparr>"
proof -
  have "entity_value \<lparr>id_msb = 0x1A7000005, id_lsb = 7\<rparr> = entity_value \<lparr>id_msb = 0x102000005, id_lsb = 7\<rparr>"
    "entity_value \<lparr>id_msb = 0x1A7000005, id_lsb = 7\<rparr> < entity_value \<lparr>id_msb = 0x102000005, id_lsb = 8\<rparr>"
    by (simp_all add: entity_value_def push_bit_eq_mult mask_eq_exp_minus_1)
  then show ?thesis using gid_order_total by blast
qed

text \<open>C36: Adding gids that are not locked, with the assertion of debug builds. When it does not fail, adding adds the 128-bit numbers the gids stand for, modulo 2 to the 128, and subtracting the
  second summand gives the first back, unless the sum runs into the lock bit, which every new gid
  drops. The assertion does not fail when the second summand has only the lower 23 bits of its upper word set and adding them to those of the first one
  does not overflow them.\<close>

theorem gid_add_is_addition:
  assumes "\<not> gid_is_locked g" "\<not> gid_is_locked h"
    and "\<not> bit (id_msb g + id_msb h +
      (if 2 ^ 64 \<le> uint (id_lsb g) + uint (id_lsb h) then 1 else 0)) 29"
  shows "(\<forall>s. gid_add g h = Inr s \<longrightarrow> gid_value s = (gid_value g + gid_value h) mod 2 ^ 128 \<and> gid_sub s h = g) \<and>
    (unat (id_msb g) mod 2 ^ 23 + unat (id_msb h) < 2 ^ 23 \<longrightarrow> (\<exists>s. gid_add g h = Inr s))"
proof -
  let ?l = "uint (id_lsb g) + uint (id_lsb h)"
  let ?c = "if 2 ^ 64 \<le> ?l then (1 :: u64) else 0" and ?d = "if 2 ^ 64 \<le> ?l then (1 :: int) else 0"
  let ?m = "uint (id_msb g) + uint (id_msb h) + ?d"
  have strip: "strip_lock_from_msb m = m" if "\<not> bit m 29" for m
    by (rule bit_word_eqI)
      (use that in \<open>auto simp: strip_lock_from_msb_def bit_and_iff bit_not_iff mask_bits\<close>)
  have m: "id_msb (gid_sum g h) = id_msb g + id_msb h + ?c"
    using assms(3) by (simp add: gid_add_parts strip)
  have "uint (id_msb g + id_msb h + ?c) = ?m mod 2 ^ 64"
    by (simp add: uint_word_ariths mod_simps)
  moreover have "?l = uint (id_lsb g + id_lsb h) + ?d * 2 ^ 64"
    using word_add_carry(2) [of "id_lsb g" "id_lsb h"] by auto
  then have "gid_value g + gid_value h = ?m * 2 ^ 64 + uint (id_lsb g + id_lsb h)"
    by (simp add: gid_value_def algebra_simps)
  moreover have "(?m * 2 ^ 64 + uint (id_lsb g + id_lsb h)) mod (2 ^ 64 * 2 ^ 64) =
      (?m mod 2 ^ 64) * 2 ^ 64 + uint (id_lsb g + id_lsb h)"
    using uint_bounded [of "id_lsb g + id_lsb h"] by (intro value_mod) simp_all
  ultimately have "gid_value (gid_sum g h) = (gid_value g + gid_value h) mod (2 ^ 64 * 2 ^ 64)"
    unfolding gid_value_def [of "gid_sum g h"] m gid_add_parts(1) by (simp only:)
  then have "gid_value (gid_sum g h) = (gid_value g + gid_value h) mod 2 ^ 128" by simp
  then have "gid_value (gid_sum g h) = (gid_value g + gid_value h) mod 2 ^ 128 \<and> gid_sub (gid_sum g h) h = g"
    using gid_sub_add [OF assms(1,3)] by blast
  then show ?thesis using gid_add_check_low [of g h] by (auto simp: gid_add_def hpx_assert_def)
qed

theorem gid_add_is_addition_witness:
  "\<exists>s. gid_add (gid_of_lsb 0xFFFFFFFFFFFFFFFF) (gid_of_lsb 2) = Inr s \<and> gid_value s = 2 ^ 64 + 1 \<and>
   gid_sub s (gid_of_lsb 2) = gid_of_lsb 0xFFFFFFFFFFFFFFFF"
proof -
  let ?g = "gid_of_lsb 0xFFFFFFFFFFFFFFFF" and ?h = "gid_of_lsb 2"
  have v: "gid_value ?g = 2 ^ 64 - 1" "gid_value ?h = 2" by (simp_all add: gid_value_def gid_of_lsb_def)
  have "\<not> gid_is_locked ?g" "\<not> gid_is_locked ?h" by (simp_all add: gid_of_lsb_def flag_bits)
  moreover have "\<not> bit (id_msb ?g + id_msb ?h +
      (if 2 ^ 64 \<le> uint (id_lsb ?g) + uint (id_lsb ?h) then 1 else 0)) 29"
    by (simp add: gid_of_lsb_def bit_1_iff)
  moreover have "unat (id_msb ?g) mod 2 ^ 23 + unat (id_msb ?h) < 2 ^ 23" by (simp add: gid_of_lsb_def)
  ultimately show ?thesis using gid_add_is_addition [of ?g ?h] v by fastforce
qed

text \<open>An operand with a locality makes the assertion fail.\<close>

lemma gid_add_locality_fails: "gid_add (gid_of_lsb 1) (get_gid_from_locality_id 0) = Inl assertion_failure"
  by (simp add: gid_add_def hpx_assert_def gid_add_check_def gid_of_lsb_def get_gid_from_locality_id_def mk_gid_def strip_lock_from_msb_def
      strip_internal_bits_from_msb_def strip_internal_bits_and_locality_from_msb_def get_internal_bits_def locality_id_shift_def is_locked_mask_def
      special_bits_mask_def internal_bits_mask_def locality_id_mask_def credit_bits_mask_def credit_mask_def credit_shift_def
      credit_base_mask_def was_split_mask_def has_credits_mask_def dont_cache_mask_def)

text \<open>C34: Setting the credit of a gid, on every argument. A power of two up to 2 to the 31 is stored
  exactly and names the same entity, with its lock and split bits kept; zero removes the credit;
  any other positive credit fails an assertion; and a negative credit makes the computation of the
  logarithm run forever.\<close>

theorem set_credit_outcomes:
  assumes "c < 2 ^ 63"
  shows "(c < 0 \<longrightarrow> set_credit_for_gid g c = None) \<and>
    (c = 0 \<longrightarrow> set_credit_for_gid g c = Some (Inr (strip_credits_from_gid g)) \<and>
       gid_credit (strip_credits_from_gid g) = 0 \<and> gid_eq (strip_credits_from_gid g) g) \<and>
    ((\<exists>n < 32. c = 2 ^ n) \<longrightarrow> (\<exists>g'. set_credit_for_gid g c = Some (Inr g') \<and> gid_credit g' = c \<and>
       gid_eq g' g \<and> gid_is_locked g' = gid_is_locked g \<and> gid_was_split g' = gid_was_split g)) \<and>
    (0 < c \<and> (\<forall>n < 32. c \<noteq> 2 ^ n) \<longrightarrow> set_credit_for_gid g c = Some (Inl assertion_failure))"
proof -
  have "\<exists>g'. set_credit_for_gid g (2 ^ n) = Some (Inr g') \<and> gid_credit g' = 2 ^ n \<and>
       gid_eq g' g \<and> gid_is_locked g' = gid_is_locked g \<and> gid_was_split g' = gid_was_split g" if "n < 32" for n
    by (rule set_credit_power [OF that, of g]) blast
  moreover have "gid_eq (strip_credits_from_gid g) g" by (auto simp: gid_eq_bits mask_bits)
  ultimately show ?thesis
    using assms set_credit_negative [of c g] set_credit_zero [of g] set_credit_fails [of c g]
    by (simp add: gid_credit_strip) blast
qed

theorem set_credit_outcomes_witness:
  "set_credit_for_gid (gid_of_lsb 7) 3 = Some (Inl assertion_failure) \<and> set_credit_for_gid (gid_of_lsb 7) (- 1) = None"
proof -
  have "(3::int) \<noteq> 2 ^ n" for n by (cases n) (simp, simp, presburger)
  then show ?thesis
    using set_credit_outcomes [of 3 "gid_of_lsb 7"] set_credit_outcomes [of "- 1" "gid_of_lsb 7"] by simp
qed

text \<open>The lock bit is a mutex that travels with the gid: locking succeeds exactly when nobody holds
  the lock, a second attempt then fails, the locked gid still names the same entity with the same
  credit, and unlocking restores it bit by bit; a copy is never locked.\<close>

lemma gid_lock_exclusive:
  "(gid_lock g = None \<longleftrightarrow> gid_is_locked g) \<and> \<not> gid_is_locked (gid_copy g) \<and>
   (\<forall>g'. gid_lock g = Some g' \<longrightarrow> gid_lock g' = None \<and> gid_unlock g' = g \<and> gid_eq g' g \<and>
      gid_credit g' = gid_credit g \<and> gid_copy g' = g)"
proof -
  have "gid_lock g' = None \<and> gid_unlock g' = g \<and> gid_eq g' g \<and> gid_credit g' = gid_credit g \<and> gid_copy g' = g"
    if "gid_lock g = Some g'" for g'
  proof -
    note e = gid_lock_effect [OF that]
    have "gid_copy g' = gid_unlock g'" by (rule gid_eqI) (auto simp: mask_bits)
    with e show ?thesis by (simp add: gid_lock_spec)
  qed
  then show ?thesis by (simp add: gid_lock_spec [of g])
qed

end
