(* ===== verification/Gva_Types.thy ===== *)
theory Gva_Types
  imports Gid_Type
begin

text \<open>
  Component types (\<^verbatim>\<open>hpx/runtime/components/component_type.hpp\<close>,
  \<^verbatim>\<open>src/runtime/components/component_type.cpp\<close>), global virtual addresses
  (\<^verbatim>\<open>hpx/runtime/agas/gva.hpp\<close>) and addresses (\<^verbatim>\<open>hpx/runtime/naming/address.hpp\<close>).
  A component type is an \<open>int32_t\<close>: an integer, shifted arithmetically. Local virtual
  addresses are 64-bit words and wrap.
\<close>

section \<open>Component types\<close>

type_synonym component_type = i32

definition component_invalid :: component_type where "component_invalid = -1"
definition component_runtime_support :: component_type where "component_runtime_support = 0"
definition component_plain_function :: component_type where "component_plain_function = 1"
definition component_memory :: component_type where "component_memory = 2"
definition component_memory_block :: component_type where "component_memory_block = 3"
definition component_base_lco :: component_type where "component_base_lco = 4"
definition component_base_lco_with_value :: component_type where
  "component_base_lco_with_value = 5"
definition component_latch :: component_type where
  "component_latch = push_bit 16 6 OR component_base_lco_with_value"
definition component_barrier :: component_type where
  "component_barrier = push_bit 16 7 OR component_base_lco"
definition component_flex_barrier :: component_type where
  "component_flex_barrier = push_bit 16 8 OR component_base_lco"
definition component_promise :: component_type where
  "component_promise = push_bit 16 9 OR component_base_lco_with_value"
definition component_agas_locality_namespace :: component_type where
  "component_agas_locality_namespace = 10"
definition component_agas_primary_namespace :: component_type where
  "component_agas_primary_namespace = 11"
definition component_agas_component_namespace :: component_type where
  "component_agas_component_namespace = 12"
definition component_agas_symbol_namespace :: component_type where
  "component_agas_symbol_namespace = 13"
definition component_last :: component_type where "component_last = 14"
definition component_first_dynamic :: component_type where
  "component_first_dynamic = component_last"

definition get_base_type :: "component_type \<Rightarrow> component_type" where
  "get_base_type t = t AND 0xFFFF"

definition get_derived_type :: "component_type \<Rightarrow> component_type" where
  "get_derived_type t = drop_bit 16 t AND 0xFFFF"

definition derived_component_type :: "component_type \<Rightarrow> component_type \<Rightarrow> component_type" where
  "derived_component_type derived base = push_bit 16 derived OR base"

definition types_are_compatible :: "component_type \<Rightarrow> component_type \<Rightarrow> bool" where
  "types_are_compatible lhs rhs \<longleftrightarrow>
     (if component_invalid = rhs \<or> component_invalid = lhs then True
      else if component_runtime_support = rhs \<or> component_runtime_support = lhs then True
      else
        let lhs_base = get_base_type lhs; rhs_base = get_base_type rhs in
        if lhs_base = component_base_lco \<and> rhs_base = component_base_lco_with_value \<or>
           rhs_base = component_base_lco \<and> lhs_base = component_base_lco_with_value
        then True
        else lhs_base = rhs_base)"

definition component_names :: "string list" where
  "component_names =
    [''component_runtime_support'', ''component_plain_function'', ''component_memory'',
     ''component_memory_block'', ''component_base_lco'', ''component_base_lco_with_value'',
     ''component_latch'', ''component_barrier'', ''component_flex_barrier'',
     ''component_promise'', ''component_agas_locality_namespace'',
     ''component_agas_primary_namespace'', ''component_agas_component_namespace'',
     ''component_agas_symbol_namespace'']"

text \<open>Indexing the array \<open>names\<close>; \<open>None\<close> is a read outside it.\<close>

definition read_name :: "component_type \<Rightarrow> string option" where
  "read_name i =
     (if 0 \<le> i \<and> nat i < length component_names then Some (component_names ! nat i) else None)"

definition get_component_type_name :: "component_type \<Rightarrow> string option" where
  "get_component_type_name type =
     (let base =
        (if type = component_invalid then Some ''component_invalid''
         else if type < component_last \<and> get_derived_type type = 0 then read_name type
         else if get_derived_type type < component_last \<and> get_derived_type type \<noteq> 0
         then read_name (get_derived_type type)
         else Some ''component'')
      in map_option (\<lambda>result.
        if type = get_base_type type \<or> component_invalid = type
        then result @ ''['' @ to_string type @ '']''
        else result @ ''['' @ to_string (get_derived_type type) @
          ''('' @ to_string (get_base_type type) @ '')'' @ '']'') base)"

section \<open>Global virtual addresses\<close>

record gva =
  prefix :: gid_type
  gva_type :: component_type
  count :: u64
  gva_base :: u64
  offset :: u64

definition gva_default :: gva where
  "gva_default = \<lparr>prefix = invalid_gid, gva_type = component_invalid, count = 0, gva_base = 0, offset = 0\<rparr>"

definition mk_gva :: "gid_type \<Rightarrow> component_type \<Rightarrow> u64 \<Rightarrow> u64 \<Rightarrow> u64 \<Rightarrow> gva" where
  "mk_gva p t c a off = \<lparr>prefix = gid_copy p, gva_type = t, count = c, gva_base = a, offset = off\<rparr>"

definition gva_of_lva :: "u64 \<Rightarrow> gva" where
  "gva_of_lva a =
     \<lparr>prefix = invalid_gid, gva_type = component_invalid, count = 0, gva_base = a, offset = 0\<rparr>"

definition gva_eq :: "gva \<Rightarrow> gva \<Rightarrow> bool" where
  "gva_eq lhs rhs \<longleftrightarrow> gva_type lhs = gva_type rhs \<and> count lhs = count rhs \<and>
     gva_base lhs = gva_base rhs \<and> offset lhs = offset rhs \<and> gid_eq (prefix lhs) (prefix rhs)"

definition gva_lva :: "gva \<Rightarrow> gid_type \<Rightarrow> gid_type \<Rightarrow> u64" where
  "gva_lva g gid gidbase = gva_base g + (id_lsb gid - id_lsb gidbase) * offset g"

definition gva_resolve :: "gva \<Rightarrow> gid_type \<Rightarrow> gid_type \<Rightarrow> gva" where
  "gva_resolve g gid gidbase = g\<lparr>gva_base := gva_lva g gid gidbase, count := 1\<rparr>"

section \<open>Addresses\<close>

record address =
  addr_locality :: gid_type
  addr_type :: component_type
  addr_address :: u64

definition address_default :: address where
  "address_default = \<lparr>addr_locality = invalid_gid, addr_type = component_invalid, addr_address = 0\<rparr>"

definition mk_address :: "gid_type \<Rightarrow> component_type \<Rightarrow> u64 \<Rightarrow> address" where
  "mk_address l t a = \<lparr>addr_locality = gid_copy l, addr_type = t, addr_address = a\<rparr>"

definition address_to_bool :: "address \<Rightarrow> bool" where
  "address_to_bool a \<longleftrightarrow>
     gid_to_bool (addr_locality a) \<and> (component_invalid \<noteq> addr_type a \<or> 0 \<noteq> addr_address a)"

definition address_eq :: "address \<Rightarrow> address \<Rightarrow> bool" where
  "address_eq lhs rhs \<longleftrightarrow> addr_type lhs = addr_type rhs \<and> addr_address lhs = addr_address rhs \<and>
     gid_eq (addr_locality lhs) (addr_locality rhs)"

section \<open>Properties of component types\<close>

lemma low_half_bit: "bit (0xFFFF :: int) n \<longleftrightarrow> n < 16"
proof -
  have m: "(0xFFFF :: int) = mask 16" by (simp add: mask_eq_exp_minus_1)
  show ?thesis unfolding m by (simp add: bit_mask_iff)
qed

lemma base_type_bits: "bit (get_base_type t) n \<longleftrightarrow> n < 16 \<and> bit t n"
  by (auto simp: get_base_type_def bit_and_iff low_half_bit)

lemma derived_type_bits: "bit (get_derived_type t) n \<longleftrightarrow> n < 16 \<and> bit t (n + 16)"
  by (auto simp: get_derived_type_def bit_and_iff low_half_bit bit_drop_bit_eq add.commute)

lemma half_type_range:
  "0 \<le> get_base_type t" "get_base_type t < 65536" "0 \<le> get_derived_type t" "get_derived_type t < 65536"
proof -
  have m: "(0xFFFF :: int) = mask 16" by (simp add: mask_eq_exp_minus_1)
  have "t AND 0xFFFF = t mod 65536" for t :: int
    unfolding m by (simp flip: take_bit_eq_mask add: take_bit_eq_mod)
  then show "0 \<le> get_base_type t" "get_base_type t < 65536" "0 \<le> get_derived_type t"
    "get_derived_type t < 65536" by (simp_all add: get_base_type_def get_derived_type_def)
qed

lemma derived_base_join:
  assumes "0 \<le> derived" "derived < 65536" "0 \<le> base" "base < 65536"
  shows "get_base_type (derived_component_type derived base) = base"
    "get_derived_type (derived_component_type derived base) = derived"
proof -
  have "take_bit 16 derived = derived" "take_bit 16 base = base"
    using assms by (simp_all add: take_bit_int_eq_self)
  then have "bit derived n \<Longrightarrow> n < 16" "bit base n \<Longrightarrow> n < 16" for n
    by (metis bit_take_bit_iff)+
  then show "get_base_type (derived_component_type derived base) = base"
    "get_derived_type (derived_component_type derived base) = derived"
    by (intro bit_eqI;
        fastforce simp: base_type_bits derived_type_bits derived_component_type_def bit_or_iff
          bit_push_bit_iff)+
qed

lemma mod_small_neg:
  fixes x :: int
  assumes "x < 0" "- (2 ^ 15) \<le> x" shows "x mod 65536 \<noteq> 0"
proof -
  have "(x + 65536) mod 65536 = x + 65536" using assms by (intro mod_pos_pos_trivial) auto
  then have "x mod 65536 = x + 65536" by (simp only: mod_add_self2)
  moreover have "x + 65536 \<noteq> 0" using assms(2) by simp
  ultimately show ?thesis by (simp only: not_False_eq_True)
qed

lemma derived_zero_nonneg:
  assumes "get_derived_type t = 0" "- (2 ^ 31) \<le> t"
  shows "0 \<le> t"
proof (rule ccontr)
  assume n: "\<not> 0 \<le> t"
  have m: "(0xFFFF :: int) = mask 16" by (simp add: mask_eq_exp_minus_1)
  have "drop_bit 16 t mod 65536 = 0"
    using assms(1) unfolding get_derived_type_def m by (simp flip: take_bit_eq_mask add: take_bit_eq_mod)
  moreover have "drop_bit 16 t mod 65536 \<noteq> 0"
  proof (rule mod_small_neg)
    show "drop_bit 16 t < 0" using n by simp
    show "- (2 ^ 15) \<le> drop_bit 16 t" using assms(2) by (simp add: drop_bit_eq_div)
  qed
  ultimately show False by (rule notE [rotated])
qed

lemma gva_resolve_idem:
  "gva_lva (gva_resolve g gid gidbase) gidbase gidbase = gva_lva g gid gidbase"
  by (simp add: gva_resolve_def gva_lva_def)

lemma gva_eq_refl [simp]: "gva_eq g g"
  by (simp add: gva_eq_def)

section \<open>Properties\<close>

lemma read_name_defined: "0 \<le> t \<Longrightarrow> t < component_last \<Longrightarrow> \<exists>n. read_name t = Some n"
  by (simp add: read_name_def component_names_def component_last_def nat_less_iff)

text \<open>The table of predefined component names is never read outside its bounds: every 32-bit
  component type has a printed name.\<close>

lemma component_names_in_bounds:
  assumes "- (2 ^ 31) \<le> t" "t < 2 ^ 31"
  shows "\<exists>name. get_component_type_name t = Some name"
proof -
  have "\<exists>n. read_name t = Some n" if "t < component_last" "get_derived_type t = 0"
    using that derived_zero_nonneg [OF that(2) assms(1)] by (intro read_name_defined)
  moreover have "\<exists>n. read_name (get_derived_type t) = Some n" if "get_derived_type t < component_last"
    using that half_type_range(3) [of t] by (intro read_name_defined)
  ultimately show ?thesis by (auto simp: get_component_type_name_def Let_def)
qed

text \<open>A component type made of a derived and a base part gives both parts back, and types with
  different parts differ.\<close>

lemma component_type_parts:
  assumes "0 \<le> d" "d < 65536" "0 \<le> b" "b < 65536"
  shows "get_derived_type (derived_component_type d b) = d \<and> get_base_type (derived_component_type d b) = b \<and>
    (\<forall>t. derived_component_type (get_derived_type t) (get_base_type t) = t mod 2 ^ 32)"
proof -
  have "derived_component_type (get_derived_type t) (get_base_type t) = take_bit 32 t" for t
    by (rule bit_eqI)
      (auto simp: derived_component_type_def bit_or_iff bit_push_bit_iff base_type_bits derived_type_bits
        bit_take_bit_iff)
  then show ?thesis using derived_base_join [OF assms] by (simp add: take_bit_eq_mod)
qed

end
