(* ===== verification/Id_Type.thy ===== *)
theory Id_Type
  imports Gva_Types "HOL-Library.AList"
begin

text \<open>
  Reference counted identifiers: \<open>id_type\<close>, its representation \<open>id_type_impl\<close> and the credit
  management functions of \<^verbatim>\<open>src/runtime/naming/name.cpp\<close> that may talk to AGAS.

  A function that sends a request to AGAS returns the request as a value:
  \<open>split_gid_if_needed\<close> either has its new gid at once or asks for an increment, after whose
  acknowledgement \<open>postprocess_incref\<close> runs on the gid as it then is; the deleters return the
  calls they make. The state outside these functions (is the runtime up, what does the
  address cache hold, does freeing a component throw) is an argument.
\<close>

section \<open>Splitting with replenishment\<close>

datatype split_outcome =
    split_ready gid_type \<comment> \<open>the new gid\<close>
  | split_incref gid_type i64 \<comment> \<open>\<open>agas::incref(new_gid, new_credit)\<close>, then \<open>postprocess_incref\<close>\<close>

definition split_gid_if_needed_locked :: "gid_type \<Rightarrow> (gid_type \<times> split_outcome) result" where
  "split_gid_if_needed_locked gid =
     hpx_assert (gid_is_locked gid)
       (if has_credits gid
        then bind_result (get_log2credit_from_gid gid) (\<lambda>src_log2credits.
          hpx_assert (src_log2credits > 0)
            (if src_log2credits = 1
             then
               let gid = set_credit_split_mask_for_gid gid;
                   gid = gid_unlock gid;
                   new_credit = 2 * (HPX_GLOBALCREDIT_INITIAL - 1);
                   new_gid = gid_copy gid
               in hpx_assert (\<not> gid_eq new_gid invalid_gid)
                    (Inr (gid, split_incref new_gid new_credit))
             else hpx_assert (src_log2credits > 1)
               (bind_result (split_credits_for_gid_locked gid) (\<lambda>(gid, new_gid).
                 hpx_assert (has_credits gid)
                   (hpx_assert (has_credits new_gid) (Inr (gid, split_ready new_gid)))))))
        else Inr (gid, split_ready (gid_copy gid)))"

text \<open>The scoped lock: released at the end, unless the request released it before.\<close>

definition split_gid_if_needed :: "gid_type \<Rightarrow> (gid_type \<times> split_outcome) result option" where
  "split_gid_if_needed = with_gid_lock split_gid_if_needed_locked"

text \<open>The new gid, and the excess credit handed to \<open>agas::decref\<close> if there is any.\<close>

definition postprocess_incref_locked ::
  "gid_type \<Rightarrow> (gid_type \<times> gid_type \<times> i64 option) result option" where
  "postprocess_incref_locked gid =
     (let new_gid = gid_copy gid in
      assert_run (\<not> gid_eq new_gid invalid_gid)
       (assert_run (gid_was_split gid)
         (bind_run (set_credit_for_gid new_gid HPX_GLOBALCREDIT_INITIAL) (\<lambda>new_gid.
           let new_gid = set_credit_split_mask_for_gid new_gid in
           bind_run (Some (get_credit_from_gid gid)) (\<lambda>src_credit.
             assert_run (src_credit \<ge> 2)
              (let split_credit = HPX_GLOBALCREDIT_INITIAL - 2;
                   new_credit = src_credit + split_credit;
                   overflow_credit = new_credit - HPX_GLOBALCREDIT_INITIAL;
                   new_credit = min HPX_GLOBALCREDIT_INITIAL new_credit
               in bind_run (set_credit_for_gid gid new_credit) (\<lambda>gid.
                    if overflow_credit > 0
                    then assert_run (overflow_credit \<le> HPX_GLOBALCREDIT_INITIAL - 1)
                      (Some (Inr (gid, new_gid, Some overflow_credit)))
                    else Some (Inr (gid, new_gid, None)))))))))"

definition postprocess_incref :: "gid_type \<Rightarrow> (gid_type \<times> gid_type \<times> i64 option) result option" where
  "postprocess_incref gid =
     (case gid_lock gid of
        None \<Rightarrow> None
      | Some gid \<Rightarrow> bind_run (postprocess_incref_locked gid) (\<lambda>(gid, r). Some (Inr (gid_unlock gid, r))))"

text \<open>Replenishing: the updated gid, and the increment sent for its unlocked copy.\<close>

definition replenish_credits_locked :: "gid_type \<Rightarrow> (gid_type \<times> gid_type \<times> i64) result option" where
  "replenish_credits_locked gid =
     bind_run (Some (get_credit_from_gid gid)) (\<lambda>c.
       assert_run (0 = c)
        (bind_run (fill_credit_for_gid gid HPX_GLOBALCREDIT_INITIAL) (\<lambda>(added_credit, gid).
          let gid = set_credit_split_mask_for_gid gid;
              unlocked_gid = gid_copy gid
          in Some (Inr (gid, unlocked_gid, added_credit)))))"

definition replenish_credits :: "gid_type \<Rightarrow> (gid_type \<times> gid_type \<times> i64) result option" where
  "replenish_credits gid =
     (case gid_lock gid of
        None \<Rightarrow> None
      | Some gid \<Rightarrow> bind_run (replenish_credits_locked gid) (\<lambda>(gid, r). Some (Inr (gid_unlock gid, r))))"

section \<open>The representation of an id\<close>

datatype id_type_management = unknown_deleter | unmanaged | managed | managed_move_credit

record id_type_impl =
  impl_gid :: gid_type
  impl_count :: int
  impl_type :: id_type_management

definition id_type_impl_default :: id_type_impl where
  "id_type_impl_default = \<lparr>impl_gid = invalid_gid, impl_count = 0, impl_type = unknown_deleter\<rparr>"

definition mk_id_type_impl :: "u64 \<Rightarrow> u64 \<Rightarrow> id_type_management \<Rightarrow> id_type_impl" where
  "mk_id_type_impl msb_id lsb_id t =
     \<lparr>impl_gid = mk_gid msb_id lsb_id, impl_count = 0, impl_type = t\<rparr>"

definition id_type_impl_of_gid :: "gid_type \<Rightarrow> id_type_management \<Rightarrow> id_type_impl" where
  "id_type_impl_of_gid gid t = \<lparr>impl_gid = gid_copy gid, impl_count = 0, impl_type = t\<rparr>"

definition management_to_int :: "id_type_management \<Rightarrow> int" where
  "management_to_int t = (case t of unknown_deleter \<Rightarrow> -1 | unmanaged \<Rightarrow> 0 | managed \<Rightarrow> 1
     | managed_move_credit \<Rightarrow> 2)"

definition management_type_names :: "string list" where
  "management_type_names = [''unknown_deleter'', ''unmanaged'', ''managed'', ''managed_move_credit'']"

definition get_management_type_name :: "int \<Rightarrow> string" where
  "get_management_type_name m =
     (if m < management_to_int unknown_deleter \<or> m > management_to_int managed_move_credit
      then ''invalid'' else management_type_names ! nat (m + 1))"

section \<open>Deleters\<close>

datatype release_action =
    agas_decref gid_type i64
  | free_component_sync gva gid_type

record release_env =
  runtime_ptr :: bool
  resolve_cached :: "gid_type \<Rightarrow> address option"
  free_component_result :: "gva \<Rightarrow> gid_type \<Rightarrow> unit result"
  threadmanager_stopping :: bool

text \<open>The calls made, and whether an exception leaves the deleter.\<close>

definition decrement_refcnt :: "release_env \<Rightarrow> gid_type \<Rightarrow> release_action list \<times> unit result" where
  "decrement_refcnt env p =
     (if \<not> runtime_ptr env then ([], Inr ())
      else
        case (if gid_was_split p then None else resolve_cached env p) of
          None \<Rightarrow>
            (case bind_result (get_credit_from_gid p) (\<lambda>credits. hpx_assert (0 \<noteq> credits) (Inr credits)) of
               Inr credits \<Rightarrow> ([agas_decref p credits], Inr ())
             | Inl _ \<Rightarrow> ([], Inr ()))
        | Some addr \<Rightarrow>
            if addr_type addr \<noteq> component_invalid
            then
              let g = mk_gva (addr_locality addr) (addr_type addr) 1 (addr_address addr) 0 in
              case free_component_result env g p of
                Inr _ \<Rightarrow> ([free_component_sync g p], Inr ())
              | Inl e \<Rightarrow>
                  if e \<noteq> invalid_status then ([free_component_sync g p], Inl e)
                  else if \<not> threadmanager_stopping env then ([free_component_sync g p], Inl e)
                  else ([free_component_sync g p], Inr ())
            else ([], Inl assertion_failure))"

definition gid_managed_deleter :: "release_env \<Rightarrow> gid_type \<Rightarrow> release_action list \<times> unit result" where
  "gid_managed_deleter env p = (if has_credits p then decrement_refcnt env p else ([], Inr ()))"

definition gid_unmanaged_deleter :: "release_env \<Rightarrow> gid_type \<Rightarrow> release_action list \<times> unit result" where
  "gid_unmanaged_deleter env p = ([], Inr ())"

definition get_deleter ::
  "id_type_management \<Rightarrow> (release_env \<Rightarrow> gid_type \<Rightarrow> release_action list \<times> unit result) result" where
  "get_deleter t = (case t of
       unmanaged \<Rightarrow> Inr gid_unmanaged_deleter
     | managed \<Rightarrow> Inr gid_managed_deleter
     | managed_move_credit \<Rightarrow> Inr gid_managed_deleter
     | unknown_deleter \<Rightarrow> Inl assertion_failure)"

definition intrusive_ptr_add_ref :: "id_type_impl \<Rightarrow> id_type_impl" where
  "intrusive_ptr_add_ref p = p\<lparr>impl_count := impl_count p + 1\<rparr>"

text \<open>The remaining representation (none once it is deleted) and the deleter's calls.\<close>

definition intrusive_ptr_release ::
  "release_env \<Rightarrow> id_type_impl \<Rightarrow> id_type_impl option \<times> release_action list \<times> unit result" where
  "intrusive_ptr_release env p =
     (let p = p\<lparr>impl_count := impl_count p - 1\<rparr> in
      if 0 = impl_count p
      then (case get_deleter (impl_type p) of
              Inl e \<Rightarrow> (Some p, [], Inl e)
            | Inr d \<Rightarrow> (case d env (impl_gid p) of
                (acts, Inr _) \<Rightarrow> (None, acts, Inr ())
              | (acts, Inl e) \<Rightarrow> (Some p, acts, Inl e)))
      else (Some p, [], Inr ()))"

section \<open>Ids\<close>

text \<open>An \<open>id_type\<close> is a pointer to a representation; \<open>None\<close> is the null pointer.\<close>

type_synonym id_type = "id_type_impl option"

definition invalid_id :: id_type where "invalid_id = None"

definition id_type_of_lsb :: "u64 \<Rightarrow> id_type_management \<Rightarrow> id_type" where
  "id_type_of_lsb lsb_id t = Some (intrusive_ptr_add_ref (mk_id_type_impl 0 lsb_id t))"

definition strip_unmanaged :: "id_type_management \<Rightarrow> id_type_impl \<Rightarrow> id_type_impl" where
  "strip_unmanaged t p =
     (if t = unmanaged
      then p\<lparr>impl_gid := strip_internal_bits_except_dont_cache_from_gid (impl_gid p)\<rparr> else p)"

definition id_type_of_gid :: "gid_type \<Rightarrow> id_type_management \<Rightarrow> id_type" where
  "id_type_of_gid gid t =
     Some (strip_unmanaged t (intrusive_ptr_add_ref (id_type_impl_of_gid gid t)))"

definition id_type_of_msb_lsb :: "u64 \<Rightarrow> u64 \<Rightarrow> id_type_management \<Rightarrow> id_type" where
  "id_type_of_msb_lsb msb_id lsb_id t =
     Some (strip_unmanaged t (intrusive_ptr_add_ref (mk_id_type_impl msb_id lsb_id t)))"

definition id_to_bool :: "id_type \<Rightarrow> bool" where
  "id_to_bool i = (case i of None \<Rightarrow> False | Some p \<Rightarrow> gid_to_bool (impl_gid p))"

definition id_eq :: "id_type \<Rightarrow> id_type \<Rightarrow> bool" where
  "id_eq lhs rhs =
     (if \<not> id_to_bool lhs then \<not> id_to_bool rhs
      else if \<not> id_to_bool rhs then \<not> id_to_bool lhs
      else gid_eq (impl_gid (the lhs)) (impl_gid (the rhs)))"

definition id_less :: "id_type \<Rightarrow> id_type \<Rightarrow> bool" where
  "id_less lhs rhs =
     (if \<not> id_to_bool lhs \<and> id_to_bool rhs then True
      else if \<not> id_to_bool rhs then False
      else gid_less (impl_gid (the lhs)) (impl_gid (the rhs)))"

definition id_less_eq :: "id_type \<Rightarrow> id_type \<Rightarrow> bool" where
  "id_less_eq lhs rhs \<longleftrightarrow> \<not> id_less rhs lhs"

definition get_id_from_locality_id :: "u32 \<Rightarrow> id_type" where
  "get_id_from_locality_id locality_id =
     id_type_of_msb_lsb (push_bit locality_id_shift (ucast (locality_id + 1))) 0 unmanaged"

text \<open>Turning a received gid into an id: managed exactly when it brings credit.\<close>

definition get_remote_result :: "gid_type \<Rightarrow> id_type" where
  "get_remote_result rhs = id_type_of_gid rhs (if has_credits rhs then managed else unmanaged)"

definition make_unmanaged :: "id_type_impl \<Rightarrow> id_type_impl" where
  "make_unmanaged p = p\<lparr>impl_type := unmanaged\<rparr>"

section \<open>Serialization\<close>

record gid_serialization_data =
  data_gid :: gid_type
  data_type :: id_type_management

text \<open>
  The part of an archive these functions use: its mode, the gids split while preprocessing
  (keyed by the address of the representation they were split from) and what was written.
  As in debug builds, \<open>get_new_gid\<close> invalidates the entry it hands out.
\<close>

record id_archive =
  is_preprocessing :: bool
  split_gids :: "(nat \<times> gid_type) list"
  written :: "gid_serialization_data list"

definition archive_has_gid :: "id_archive \<Rightarrow> nat \<Rightarrow> bool result" where
  "archive_has_gid ar addr =
     hpx_assert (is_preprocessing ar) (Inr (map_of (split_gids ar) addr \<noteq> None))"

definition archive_add_gid :: "id_archive \<Rightarrow> nat \<Rightarrow> gid_type \<Rightarrow> id_archive result" where
  "archive_add_gid ar addr split_gid =
     hpx_assert (is_preprocessing ar)
       (hpx_assert (case map_of (split_gids ar) addr of None \<Rightarrow> True | Some g \<Rightarrow> gid_eq g invalid_gid)
         (Inr (ar\<lparr>split_gids := AList.update addr (gid_copy split_gid) (split_gids ar)\<rparr>)))"

definition archive_get_new_gid :: "id_archive \<Rightarrow> nat \<Rightarrow> (gid_type \<times> id_archive) result" where
  "archive_get_new_gid ar addr =
     (case map_of (split_gids ar) addr of
        None \<Rightarrow> Inl assertion_failure
      | Some g \<Rightarrow> hpx_assert (\<not> gid_eq g invalid_gid)
          (Inr (gid_copy g, ar\<lparr>split_gids := AList.update addr invalid_gid (split_gids ar)\<rparr>)))"

datatype preprocess_outcome =
    preprocessed id_archive id_type_impl
  | preprocess_waits id_archive id_type_impl gid_type i64 \<comment> \<open>an increment is on its way\<close>

definition preprocess_gid ::
  "id_archive \<Rightarrow> nat \<Rightarrow> id_type_impl \<Rightarrow> preprocess_outcome result option" where
  "preprocess_gid ar addr this =
     (if unmanaged = impl_type this then Some (Inr (preprocessed ar this))
      else bind_run (Some (archive_has_gid ar addr)) (\<lambda>present.
        if present then Some (Inr (preprocessed ar this))
        else assert_run (has_credits (impl_gid this))
          (if managed = impl_type this
           then bind_run (split_gid_if_needed (impl_gid this)) (\<lambda>(gid, outcome).
             case outcome of
               split_ready new_gid \<Rightarrow>
                 bind_run (Some (archive_add_gid ar addr new_gid)) (\<lambda>ar.
                   Some (Inr (preprocessed ar (this\<lparr>impl_gid := gid\<rparr>))))
             | split_incref new_gid credit \<Rightarrow>
                 Some (Inr (preprocess_waits ar (this\<lparr>impl_gid := gid\<rparr>) new_gid credit)))
           else Some (Inr (preprocessed ar this)))))"

text \<open>The continuation of the increment: the gid is filled and its new half registered.\<close>

definition preprocess_continue ::
  "id_archive \<Rightarrow> nat \<Rightarrow> id_type_impl \<Rightarrow> (id_archive \<times> id_type_impl \<times> i64 option) result option" where
  "preprocess_continue ar addr this =
     bind_run (postprocess_incref (impl_gid this)) (\<lambda>(gid, new_gid, overflow).
       bind_run (Some (archive_add_gid ar addr new_gid)) (\<lambda>ar.
         Some (Inr (ar, this\<lparr>impl_gid := gid\<rparr>, overflow))))"

definition archive_write :: "id_archive \<Rightarrow> gid_type \<Rightarrow> id_type_management \<Rightarrow> id_archive" where
  "archive_write ar gid t =
     ar\<lparr>written := written ar @ [\<lparr>data_gid = gid_copy gid, data_type = t\<rparr>]\<rparr>"

definition id_type_impl_save ::
  "id_archive \<Rightarrow> nat \<Rightarrow> id_type_impl \<Rightarrow> preprocess_outcome result option" where
  "id_type_impl_save ar addr this =
     (if is_preprocessing ar
      then bind_run (preprocess_gid ar addr this) (\<lambda>outcome. Some (Inr (case outcome of
          preprocessed ar this \<Rightarrow> preprocessed (archive_write ar (impl_gid this) (impl_type this)) this
        | preprocess_waits ar this new_gid credit \<Rightarrow>
            preprocess_waits (archive_write ar (impl_gid this) (impl_type this)) this new_gid credit)))
      else if unmanaged = impl_type this
      then Some (Inr (preprocessed (archive_write ar (impl_gid this) (impl_type this)) this))
      else if managed_move_credit = impl_type this
      then bind_run (move_gid (impl_gid this)) (\<lambda>(gid, new_gid).
             Some (Inr (preprocessed (archive_write ar new_gid managed) (this\<lparr>impl_gid := gid\<rparr>))))
      else bind_run (Some (archive_get_new_gid ar addr)) (\<lambda>(new_gid, ar).
             assert_run (\<not> gid_eq new_gid invalid_gid)
               (Some (Inr (preprocessed (archive_write ar new_gid (impl_type this)) this)))))"

definition id_type_impl_load :: "gid_serialization_data \<Rightarrow> id_type_impl result" where
  "id_type_impl_load data =
     (if unmanaged \<noteq> data_type data \<and> managed \<noteq> data_type data
      then Inl version_too_new
      else Inr \<lparr>impl_gid = gid_copy (data_gid data), impl_count = 0, impl_type = data_type data\<rparr>)"

section \<open>Printing and raw serialization of gids\<close>

definition gid_to_string :: "gid_type \<Rightarrow> string" where
  "gid_to_string g = show_hex_width 16 (unat (id_msb g)) @ show_hex_width 16 (unat (id_lsb g))"

definition gid_print :: "gid_type \<Rightarrow> string" where
  "gid_print g =
     (if \<not> gid_eq g invalid_gid
      then ''{'' @ show_hex_width 16 (unat (id_msb g)) @ '', '' @
           show_hex_width 16 (unat (id_lsb g)) @ ''}''
      else ''{invalid}'')"

definition id_print :: "id_type \<Rightarrow> string" where
  "id_print i = (if \<not> id_to_bool i then ''{invalid}'' else gid_print (impl_gid (the i)))"

definition gid_save :: "gid_type \<Rightarrow> u64 list" where
  "gid_save g = [id_msb g, id_lsb g]"

fun gid_load :: "u64 list \<Rightarrow> (gid_type \<times> u64 list) option" where
  "gid_load (msb # lsb # rest) = Some (\<lparr>id_msb = msb AND NOT is_locked_mask, id_lsb = lsb\<rparr>, rest)"
| "gid_load _ = None"

definition gid_hash :: "(u64 \<Rightarrow> u64) \<Rightarrow> gid_type \<Rightarrow> u64" where
  "gid_hash h gid = h (id_lsb gid) XOR push_bit 1 (h (strip_internal_bits_from_msb (id_msb gid)))"

section \<open>Splitting conserves credit\<close>

lemma with_gid_lock_unlocked:
  assumes "\<not> gid_is_locked g"
  obtains g' where "gid_lock g = Some g'" "with_gid_lock f g = Some (bind_result (f g') (\<lambda>(h, x). Inr (gid_unlock h, x)))"
  using assms by (auto simp: gid_lock_spec with_gid_lock_def)

lemma split_plain:
  assumes "\<not> gid_is_locked g" "\<not> has_credits g"
  shows "split_gid_if_needed g = Some (Inr (g, split_ready g))"
proof -
  obtain l where l: "gid_lock g = Some l" "split_gid_if_needed g = Some (bind_result
      (split_gid_if_needed_locked l) (\<lambda>(h, x). Inr (gid_unlock h, x)))"
    using with_gid_lock_unlocked [OF assms(1)] unfolding split_gid_if_needed_def by metis
  note e = gid_lock_effect [OF l(1)]
  have "gid_copy l = gid_unlock l" by (rule gid_eqI) (auto simp: mask_bits)
  with assms e show ?thesis by (simp add: l(2) split_gid_if_needed_locked_def)
qed

lemma split_exhausted:
  assumes "\<not> gid_is_locked g" "has_credits g" "gid_log2 g = 0"
  shows "split_gid_if_needed g = Some (Inl assertion_failure)"
proof -
  obtain l where l: "gid_lock g = Some l" "split_gid_if_needed g = Some (bind_result
      (split_gid_if_needed_locked l) (\<lambda>(h, x). Inr (gid_unlock h, x)))"
    using with_gid_lock_unlocked [OF assms(1)] unfolding split_gid_if_needed_def by metis
  with assms gid_lock_effect [OF l(1)] show ?thesis
    by (simp add: split_gid_if_needed_locked_def get_log2credit_eq hpx_assert_def)
qed

lemma split_needs_incref:
  assumes "\<not> gid_is_locked g" "has_credits g" "gid_log2 g = 1" "\<not> gid_eq g invalid_gid"
  shows "split_gid_if_needed g = Some (Inr (set_credit_split_mask_for_gid g,
    split_incref (set_credit_split_mask_for_gid g) (2 * (HPX_GLOBALCREDIT_INITIAL - 1))))"
proof -
  obtain l where l: "gid_lock g = Some l" "split_gid_if_needed g = Some (bind_result
      (split_gid_if_needed_locked l) (\<lambda>(h, x). Inr (gid_unlock h, x)))"
    using with_gid_lock_unlocked [OF assms(1)] unfolding split_gid_if_needed_def by metis
  note e = gid_lock_effect [OF l(1)]
  have "gid_unlock (set_credit_split_mask_for_gid l) = set_credit_split_mask_for_gid g"
    "gid_copy (set_credit_split_mask_for_gid g) = set_credit_split_mask_for_gid g"
    "gid_unlock (set_credit_split_mask_for_gid g) = set_credit_split_mask_for_gid g"
    using gid_lock_bits [OF l(1)] assms(1) by (auto intro!: gid_eqI simp: mask_bits)
  moreover have "\<not> gid_eq l invalid_gid" using e(2) assms(4) gid_eq_sym gid_eq_trans by blast
  ultimately show ?thesis
    using assms e by (simp add: l(2) split_gid_if_needed_locked_def get_log2credit_eq Let_def)
qed

lemma split_halves:
  assumes "\<not> gid_is_locked g" "has_credits g" "1 < gid_log2 g"
  obtains g' newid where "split_gid_if_needed g = Some (Inr (g', split_ready newid))"
    "gid_credit g' + gid_credit newid = gid_credit g" "gid_credit g' = gid_credit newid"
    "gid_was_split g'" "gid_was_split newid" "gid_eq g' g" "gid_eq newid g"
    "\<not> gid_is_locked g'" "\<not> gid_is_locked newid" "has_credits g'" "has_credits newid"
proof -
  obtain l where l: "gid_lock g = Some l" "split_gid_if_needed g = Some (bind_result
      (split_gid_if_needed_locked l) (\<lambda>(h, x). Inr (gid_unlock h, x)))"
    using with_gid_lock_unlocked [OF assms(1)] unfolding split_gid_if_needed_def by metis
  note e = gid_lock_effect [OF l(1)]
  have p: "gid_is_locked l" "has_credits l" "0 < gid_log2 l" using e assms by simp_all
  obtain a b where ab: "split_credits_for_gid_locked l = Inr (a, b)"
    "gid_credit a + gid_credit b = gid_credit l" "gid_credit a = gid_credit b"
    "gid_was_split a" "gid_was_split b" "gid_eq a l" "gid_eq b l"
    "gid_is_locked a" "\<not> gid_is_locked b" "has_credits a" "has_credits b"
    using split_credits_locked_spec [OF p] by blast
  have "split_gid_if_needed g = Some (Inr (gid_unlock a, split_ready b))"
    using l(2) e assms ab by (simp add: split_gid_if_needed_locked_def get_log2credit_eq)
  with ab e show ?thesis using that [of "gid_unlock a" b] gid_eq_trans by auto
qed

text \<open>After the increment is acknowledged: both gids are full, the rest goes back.\<close>

lemma postprocess_spec:
  assumes "\<not> gid_is_locked g" "gid_was_split g" "2 \<le> gid_credit g" "\<not> gid_eq g invalid_gid"
  obtains g' newid overflow where "postprocess_incref g = Some (Inr (g', newid, overflow))"
    "gid_credit g' = HPX_GLOBALCREDIT_INITIAL" "gid_credit newid = HPX_GLOBALCREDIT_INITIAL"
    "overflow = (if 2 < gid_credit g then Some (gid_credit g - 2) else None)"
    "gid_was_split g'" "gid_was_split newid" "gid_eq g' g" "gid_eq newid g"
    "\<not> gid_is_locked g'" "\<not> gid_is_locked newid"
proof -
  obtain l where l: "gid_lock g = Some l" using assms(1) by (simp add: gid_lock_spec)
  note e = gid_lock_effect [OF l(1)]
  have init: "HPX_GLOBALCREDIT_INITIAL = 2 ^ 31" by (simp add: HPX_GLOBALCREDIT_INITIAL_def)
  obtain n where n: "set_credit_for_gid (gid_copy l) HPX_GLOBALCREDIT_INITIAL = Some (Inr n)"
    "gid_credit n = HPX_GLOBALCREDIT_INITIAL" "gid_eq n (gid_copy l)" "\<not> gid_is_locked n"
    using set_credit_power [of 31 "gid_copy l"] unfolding init by auto
  obtain a where a: "set_credit_for_gid l HPX_GLOBALCREDIT_INITIAL = Some (Inr a)"
    "gid_credit a = HPX_GLOBALCREDIT_INITIAL" "gid_eq a l" "gid_was_split a"
    using set_credit_power [of 31 l] e(6) assms(2) unfolding init by auto
  have m: "min HPX_GLOBALCREDIT_INITIAL (gid_credit g + (HPX_GLOBALCREDIT_INITIAL - 2)) =
      HPX_GLOBALCREDIT_INITIAL" using assms(3) by simp
  have le: "gid_credit g - 2 \<le> HPX_GLOBALCREDIT_INITIAL - 1" using gid_credit_le [of g] by simp
  have inv: "\<not> gid_eq l invalid_gid" using e(2) assms(4) gid_eq_sym gid_eq_trans by blast
  have "postprocess_incref g = Some (Inr (gid_unlock a, set_credit_split_mask_for_gid n,
      if 2 < gid_credit g then Some (gid_credit g - 2) else None))"
    using l n(1) a(1) assms(2,3) e(3,6) inv m le
    by (simp add: postprocess_incref_def postprocess_incref_locked_def Let_def)
  moreover have "gid_eq n g" using n(3) e(2) gid_eq_trans gid_eq_sym by (metis gid_eq_copy)
  moreover have "gid_eq a g" using a(3) e(2) gid_eq_trans by blast
  ultimately show ?thesis
    using a n by (intro that [of "gid_unlock a" "set_credit_split_mask_for_gid n"]) (auto simp: mask_bits)
qed

lemma move_gid_spec:
  assumes "\<not> gid_is_locked g"
  shows "move_gid g = Some (Inr (if has_credits g then strip_credits_from_gid g else g, g))"
proof -
  obtain l where l: "gid_lock g = Some l" "move_gid g = Some (bind_result
      (move_gid_locked l) (\<lambda>(h, x). Inr (gid_unlock h, x)))"
    using with_gid_lock_unlocked [OF assms(1)] unfolding move_gid_def by metis
  note e = gid_lock_effect [OF l(1)]
  have "gid_copy l = g" "gid_unlock l = g" "gid_unlock (strip_credits_from_gid l) = strip_credits_from_gid g"
    using gid_lock_bits [OF l(1)] assms by (auto intro!: gid_eqI simp: mask_bits)
  with e show ?thesis by (simp add: l(2) move_gid_locked_def)
qed

lemma replenish_spec:
  assumes "\<not> gid_is_locked g" "gid_credit g = 0"
  obtains g' where "replenish_credits g = Some (Inr (g', g', HPX_GLOBALCREDIT_INITIAL))"
    "gid_credit g' = HPX_GLOBALCREDIT_INITIAL" "gid_eq g' g" "gid_was_split g'" "\<not> gid_is_locked g'"
proof -
  obtain l where l: "gid_lock g = Some l" using assms(1) by (simp add: gid_lock_spec)
  note e = gid_lock_effect [OF l(1)]
  have init: "HPX_GLOBALCREDIT_INITIAL = 2 ^ 31" by (simp add: HPX_GLOBALCREDIT_INITIAL_def)
  obtain a where a: "set_credit_for_gid l HPX_GLOBALCREDIT_INITIAL = Some (Inr a)"
    "gid_credit a = HPX_GLOBALCREDIT_INITIAL" "gid_eq a l"
    using set_credit_power [of 31 l] unfolding init by auto
  define g' where "g' = gid_unlock (set_credit_split_mask_for_gid a)"
  have c: "gid_copy (set_credit_split_mask_for_gid a) = g'"
    unfolding g'_def by (auto intro!: gid_eqI simp: mask_bits)
  have "fill_credit_for_gid l HPX_GLOBALCREDIT_INITIAL = Some (Inr (HPX_GLOBALCREDIT_INITIAL, a))"
    using a(1) e(3) assms(2) by (simp add: fill_credit_for_gid_def init)
  then have "replenish_credits g = Some (Inr (g', g', HPX_GLOBALCREDIT_INITIAL))"
    using l e(3) assms(2) c
    by (simp add: replenish_credits_def replenish_credits_locked_def Let_def g'_def)
  moreover have "gid_eq g' g" using a(3) e(2) gid_eq_trans unfolding g'_def by auto
  moreover have "gid_was_split g'" "\<not> gid_is_locked g'" unfolding g'_def by (auto simp: mask_bits)
  ultimately show ?thesis using that a(2) by (simp add: g'_def)
qed

section \<open>Order on ids\<close>

lemma id_eq_equiv: "equiv_keys id_less a b \<longleftrightarrow> id_eq a b"
  using gid_eq_equiv by (auto simp: equiv_keys_def id_less_def id_eq_def)

interpretation id_order: strict_weak_order id_less
proof unfold_locales
  fix x y z
  show "\<not> id_less x x" using gid_order.lt_irrefl by (auto simp: id_less_def)
  show "id_less x y \<Longrightarrow> id_less y z \<Longrightarrow> id_less x z"
    using gid_order.lt_trans by (auto simp: id_less_def split: if_splits)
  show "equiv_keys id_less x y \<Longrightarrow> equiv_keys id_less y z \<Longrightarrow> equiv_keys id_less x z"
    unfolding id_eq_equiv using gid_eq_trans by (auto simp: id_eq_def split: if_splits)
qed

section \<open>Printing, hashing and serialization\<close>

lemma gid_to_string_inj: "gid_to_string g = gid_to_string h \<Longrightarrow> g = h"
proof -
  assume "gid_to_string g = gid_to_string h"
  then have "show_hex_width 16 (unat (id_msb g)) = show_hex_width 16 (unat (id_msb h))"
    "show_hex_width 16 (unat (id_lsb g)) = show_hex_width 16 (unat (id_lsb h))"
    by (auto simp: gid_to_string_def)
  moreover have "unat w < 16 ^ 16" for w :: u64 using unsigned_less [of w] by simp
  ultimately have "unat (id_msb g) = unat (id_msb h)" "unat (id_lsb g) = unat (id_lsb h)"
    using show_hex_inj by blast+
  then show "g = h" by (simp add: word_unat_eq_iff gid_type.equality)
qed

lemma gid_save_load: "gid_load (gid_save g @ rest) = Some (gid_copy g, rest)"
  by (simp add: gid_save_def gid_copy_def strip_lock_from_msb_def)

lemma gid_hash_eq: "gid_eq g h \<Longrightarrow> gid_hash f g = gid_hash f h"
  by (simp add: gid_hash_def gid_eq_def)

section \<open>Sending and releasing references\<close>

text \<open>A gid of locality 0 with the full credit of \<open>2 ^ 31\<close>, not split, for concrete instances.\<close>

definition example_gid :: gid_type where
  "example_gid = \<lparr>id_msb = 0x15F000001, id_lsb = 5\<rparr>"

lemma example_gid_facts:
  "\<not> gid_is_locked example_gid" "has_credits example_gid" "gid_log2 example_gid = 31"
  "\<not> gid_eq example_gid invalid_gid" "\<not> gid_was_split example_gid"
  by (simp_all add: example_gid_def gid_is_locked_def is_locked_mask_def has_credits_def has_credits_mask_def
      gid_was_split_def was_split_mask_def gid_log2_def credit_shift_def credit_base_mask_def drop_bit_eq_div
      gid_eq_def invalid_gid_def gid_of_lsb_def)

lemma map_of_update_same [simp]: "map_of (AList.update k v xs) k = Some v"
  by (simp add: update_conv)

lemma save_after_preprocessing:
  assumes "impl_type p = managed" "\<not> is_preprocessing ar"
    "map_of (split_gids ar) a = Some n" "\<not> gid_eq n invalid_gid"
  shows "\<exists>ar'. id_type_impl_save ar a p = Some (Inr (preprocessed ar' p)) \<and>
    written ar' = written ar @ [\<lparr>data_gid = gid_copy n, data_type = managed\<rparr>]"
  using assms by (auto simp: id_type_impl_save_def archive_get_new_gid_def archive_write_def)

lemma load_managed:
  "id_type_impl_load \<lparr>data_gid = g, data_type = managed\<rparr> =
     Inr \<lparr>impl_gid = gid_copy g, impl_count = 0, impl_type = managed\<rparr>"
  by (simp add: id_type_impl_load_def)

text \<open>Sending a managed reference with credit to spare. Preprocessing the archive and then
  saving into it succeeds, the receiver can load what was written, both sides hold a managed
  reference to the same entity, and their credits add up to the credit before.\<close>

lemma send_managed_conserves_credit:
  assumes "impl_type p = managed" "\<not> gid_is_locked (impl_gid p)" "has_credits (impl_gid p)"
    "1 < gid_log2 (impl_gid p)" "\<not> gid_eq (impl_gid p) invalid_gid"
    "is_preprocessing ar" "map_of (split_gids ar) a = None"
  shows "\<exists>ar1 p' ar2 q. id_type_impl_save ar a p = Some (Inr (preprocessed ar1 p')) \<and>
    id_type_impl_save (ar1\<lparr>is_preprocessing := False, written := []\<rparr>) a p' =
      Some (Inr (preprocessed ar2 p')) \<and>
    map id_type_impl_load (written ar2) = [Inr q] \<and>
    gid_credit (impl_gid p') + gid_credit (impl_gid q) = gid_credit (impl_gid p) \<and>
    gid_credit (impl_gid q) > 0 \<and> gid_credit (impl_gid p') > 0 \<and>
    gid_eq (impl_gid p') (impl_gid p) \<and> gid_eq (impl_gid q) (impl_gid p) \<and>
    impl_type p' = managed \<and> impl_type q = managed"
proof -
  obtain g' n where gn: "split_gid_if_needed (impl_gid p) = Some (Inr (g', split_ready n))"
    "gid_credit g' + gid_credit n = gid_credit (impl_gid p)" "gid_credit g' = gid_credit n"
    "gid_eq g' (impl_gid p)" "gid_eq n (impl_gid p)" "\<not> gid_is_locked n" "has_credits n"
    using split_halves [OF assms(2,3,4)] by blast
  define p' where "p' = p\<lparr>impl_gid := g'\<rparr>"
  define ar0 where "ar0 = ar\<lparr>split_gids := AList.update a (gid_copy n) (split_gids ar)\<rparr>"
  define ar1 where "ar1 = archive_write ar0 g' managed"
  have pre: "preprocess_gid ar a p = Some (Inr (preprocessed ar0 p'))"
    using assms gn(1) by (simp add: preprocess_gid_def archive_has_gid_def archive_add_gid_def p'_def ar0_def)
  then have s1: "id_type_impl_save ar a p = Some (Inr (preprocessed ar1 p'))"
    using assms(1,6) by (simp add: id_type_impl_save_def ar1_def p'_def)
  have "\<not> gid_eq n invalid_gid" using gn(5) assms(5) gid_eq_sym gid_eq_trans by blast
  then obtain ar2 where "id_type_impl_save (ar1\<lparr>is_preprocessing := False, written := []\<rparr>) a p' =
      Some (Inr (preprocessed ar2 p'))" "written ar2 = [\<lparr>data_gid = gid_copy n, data_type = managed\<rparr>]"
    using save_after_preprocessing [of p' "ar1\<lparr>is_preprocessing := False, written := []\<rparr>" a "gid_copy n"]
      assms(1) by (auto simp: ar1_def ar0_def p'_def archive_write_def)
  moreover have "gid_credit n > 0" using gn(7) by (simp add: gid_credit_def)
  ultimately show ?thesis
    using s1 gn assms(1)
    by (intro exI [of _ ar1] exI [of _ p'] exI [of _ ar2]
          exI [of _ "\<lparr>impl_gid = gid_copy n, impl_count = 0, impl_type = managed\<rparr>"])
      (simp add: load_managed p'_def)
qed

text \<open>Releasing the last pointer to a managed representation that was split (or whose address is
  not cached) sends AGAS exactly one decrement, of exactly the positive credit the gid carries,
  and deletes the representation; with other pointers left nothing is sent.\<close>

lemma release_returns_credit:
  assumes "runtime_ptr env" "has_credits (impl_gid p)" "impl_type p \<in> {managed, managed_move_credit}"
    "gid_was_split (impl_gid p) \<or> resolve_cached env (impl_gid p) = None"
  shows "intrusive_ptr_release env p =
      (if impl_count p = 1 then (None, [agas_decref (impl_gid p) (gid_credit (impl_gid p))], Inr ())
       else (Some (p\<lparr>impl_count := impl_count p - 1\<rparr>), [], Inr ())) \<and>
    gid_credit (impl_gid p) > 0"
proof -
  have pos: "gid_credit (impl_gid p) > 0" using assms(2) by (simp add: gid_credit_def)
  then have "decrement_refcnt env (impl_gid p) =
      ([agas_decref (impl_gid p) (gid_credit (impl_gid p))], Inr ())"
    using assms by (auto simp: decrement_refcnt_def)
  with assms pos show ?thesis
    by (auto simp: intrusive_ptr_release_def get_deleter_def gid_managed_deleter_def Let_def)
qed

text \<open>The textual form of a gid determines every bit of it, and a gid written to an archive is
  read back as its copy, with only the lock bit cleared, whatever follows it in the archive.\<close>

lemma gid_text_and_archive_roundtrip:
  "(gid_to_string g = gid_to_string h \<longleftrightarrow> g = h) \<and>
   gid_load (gid_save g @ rest) = Some (gid_copy g, rest) \<and>
   length (gid_to_string g) = 32"
  using gid_to_string_inj gid_save_load by (auto simp: gid_to_string_def)

end
