(* ===== verification/Counter_Data.thy ===== *)
theory Counter_Data
  imports Hpx_Prelude
begin

text \<open>
  The per-operation call counters every AGAS service keeps in its \<open>counter_data\<close> structure: one
  \<open>api_counter_data\<close> per operation. A service names its operations by a datatype, and its
  counters are a function from operations to counts. The time counters are not modelled.
\<close>

type_synonym 'api counter_data = "'api \<Rightarrow> i64"

definition get_and_reset_value :: "i64 \<Rightarrow> bool \<Rightarrow> i64 \<times> i64" where
  "get_and_reset_value value reset = (value, if reset then 0 else value)"

definition increment_count :: "'api \<Rightarrow> 'api counter_data \<Rightarrow> 'api counter_data" where
  "increment_count api cd = cd(api := cd api + 1)"

definition get_count :: "'api \<Rightarrow> bool \<Rightarrow> 'api counter_data \<Rightarrow> i64 \<times> 'api counter_data" where
  "get_count api reset cd =
     (let (result, value) = get_and_reset_value (cd api) reset in (result, cd(api := value)))"

primrec get_overall_count :: "'api list \<Rightarrow> bool \<Rightarrow> 'api counter_data \<Rightarrow> i64 \<times> 'api counter_data" where
  "get_overall_count [] reset cd = (0, cd)"
| "get_overall_count (api # apis) reset cd =
     (let (c, cd) = get_count api reset cd; (rest, cd) = get_overall_count apis reset cd
      in (c + rest, cd))"

definition no_counts :: "'api counter_data" where
  "no_counts = (\<lambda>_. 0)"

lemma get_count_keeps: "get_count api False cd = (cd api, cd)"
  by (simp add: get_count_def get_and_reset_value_def)

lemma get_overall_count_spec:
  assumes "distinct apis"
  shows "get_overall_count apis reset cd =
    (sum_list (map cd apis), \<lambda>api. if reset \<and> api \<in> set apis then 0 else cd api)"
  using assms
proof (induction apis arbitrary: cd)
  case (Cons api apis)
  then have "map (cd(api := v)) apis = map cd apis" for v by (simp add: map_fun_upd)
  with Cons show ?case
    by (auto simp: get_count_def get_and_reset_value_def fun_eq_iff)
qed auto

end
