(* ===== verification/Primary_Namespace.thy ===== *)
theory Primary_Namespace
  imports Id_Type Counter_Data
begin

text \<open>
  The primary namespace of AGAS (\<^verbatim>\<open>src/runtime/agas/server/primary_namespace_server.cpp\<close>): the
  table from gid ranges to global virtual addresses, the table of global reference counts, the
  objects being migrated and the allocation of gids.

  A handler maps the state to the new state and its result; the state is returned with an
  error too, since some handlers throw after they changed a table. Waiting on a migration
  splits a handler: it either runs to its end or registers as a waiter, and the second part
  runs when \<open>end_migration\<close> notifies. A request to free an object is returned as a value.
\<close>

section \<open>State\<close>

datatype primary_api = api_route | api_bind_gid | api_resolve_gid | api_unbind_gid
  | api_increment_credit | api_decrement_credit | api_allocate | api_begin_migration
  | api_end_migration

definition primary_apis :: "primary_api list" where
  "primary_apis = [api_route, api_bind_gid, api_resolve_gid, api_unbind_gid,
     api_increment_credit, api_decrement_credit, api_allocate, api_begin_migration, api_end_migration]"

type_synonym gva_table = "(gid_type, gva \<times> gid_type) std_map"
type_synonym refcnt_table = "(gid_type, i64) std_map"
type_synonym migration_table = "(gid_type, bool \<times> nat) std_map"
type_synonym resolved_type = "gid_type \<times> gva \<times> gid_type"

record primary_namespace =
  gvas :: gva_table
  refcnts :: refcnt_table
  next_id :: gid_type
  locality :: gid_type
  migrating_objects :: migration_table
  primary_counters :: "primary_api counter_data"

definition primary_init :: primary_namespace where
  "primary_init = \<lparr>gvas = [], refcnts = [], next_id = invalid_gid, locality = invalid_gid,
     migrating_objects = [], primary_counters = no_counts\<rparr>"

definition set_local_locality :: "gid_type \<Rightarrow> primary_namespace \<Rightarrow> primary_namespace" where
  "set_local_locality g s =
     s\<lparr>locality := gid_copy g, next_id := mk_gid (id_msb g + 1) 0x1000\<rparr>"

definition count_primary :: "primary_api \<Rightarrow> primary_namespace \<Rightarrow> primary_namespace" where
  "count_primary api s = s\<lparr>primary_counters := increment_count api (primary_counters s)\<rparr>"

definition unresolved :: resolved_type where
  "unresolved = (invalid_gid, gva_default, invalid_gid)"

definition gva_copy :: "gva \<Rightarrow> gva" where
  "gva_copy g = g\<lparr>prefix := gid_copy (prefix g)\<rparr>"

section \<open>Resolving\<close>

text \<open>The check of the range before the iterator, when there is one.\<close>

definition resolve_in_previous :: "gva_table \<Rightarrow> gid_type \<Rightarrow> resolved_type result" where
  "resolve_in_previous previous idn =
     (let (k, g, loc) = last previous in
      if gid_greater (gid_add_u64 k (count g)) idn
      then (if id_msb idn \<noteq> id_msb k then Inl internal_server_error else Inr (k, g, loc))
      else Inr unresolved)"

definition resolve_gid_locked :: "gva_table \<Rightarrow> gid_type \<Rightarrow> resolved_type result" where
  "resolve_gid_locked table gid =
     (let idn = strip_internal_bits_from_gid (gid_copy gid);
          previous = map_before gid_less table idn
      in case map_lower_bound gid_less table idn of
           (k, g, loc) # _ \<Rightarrow>
             if gid_eq k idn then Inr (k, g, loc)
             else if previous \<noteq> [] then resolve_in_previous previous idn
             else Inr unresolved
         | [] \<Rightarrow>
             if table \<noteq> [] then resolve_in_previous previous idn
             else Inr unresolved)"

section \<open>Migration\<close>

definition begin_migration ::
  "gid_type \<Rightarrow> primary_namespace \<Rightarrow> primary_namespace \<times> (id_type \<times> address) result" where
  "begin_migration idn s =
     (let s = count_primary api_begin_migration s in
      case resolve_gid_locked (gvas s) idn of
        Inl e \<Rightarrow> (s, Inl e)
      | Inr (base, g, loc) \<Rightarrow>
          if gid_eq base invalid_gid then (s, Inr (invalid_id, address_default))
          else
            let m = migrating_objects s;
                m = (case map_find gid_less m idn of
                       None \<Rightarrow> fst (map_insert gid_less m (gid_copy idn) (False, 0)) | Some _ \<Rightarrow> m);
                waiters = (case map_find gid_less m idn of Some (_, _, n) \<Rightarrow> n | None \<Rightarrow> 0);
                s = s\<lparr>migrating_objects := map_assign gid_less m idn (True, waiters)\<rparr>
            in (s, Inr (id_type_of_gid loc unmanaged,
                        mk_address (prefix g) (gva_type g) (gva_base g))))"

text \<open>\<open>end_migration\<close> notifies every waiter; they continue when they get the mutex.\<close>

definition end_migration :: "gid_type \<Rightarrow> primary_namespace \<Rightarrow> primary_namespace \<times> bool" where
  "end_migration idn s =
     (let s = count_primary api_end_migration s in
      case map_find gid_less (migrating_objects s) idn of
        Some (_, True, waiters) \<Rightarrow>
          (s\<lparr>migrating_objects := map_assign gid_less (migrating_objects s) idn (False, waiters)\<rparr>, True)
      | _ \<Rightarrow> (s, False))"

definition is_migrating :: "primary_namespace \<Rightarrow> gid_type \<Rightarrow> bool" where
  "is_migrating s idn = (case map_find gid_less (migrating_objects s) idn of
     Some (_, m, _) \<Rightarrow> m | None \<Rightarrow> False)"

definition wait_for_migration_enter :: "gid_type \<Rightarrow> primary_namespace \<Rightarrow> primary_namespace" where
  "wait_for_migration_enter idn s =
     (case map_find gid_less (migrating_objects s) idn of
        Some (_, m, waiters) \<Rightarrow>
          s\<lparr>migrating_objects := map_assign gid_less (migrating_objects s) idn (m, waiters + 1)\<rparr>
      | None \<Rightarrow> s)"

definition wait_for_migration_leave :: "gid_type \<Rightarrow> primary_namespace \<Rightarrow> primary_namespace" where
  "wait_for_migration_leave idn s =
     (case map_find gid_less (migrating_objects s) idn of
        Some (_, m, waiters) \<Rightarrow>
          if waiters - 1 = 0 \<and> \<not> m
          then s\<lparr>migrating_objects := map_erase gid_less (migrating_objects s) idn\<rparr>
          else s\<lparr>migrating_objects := map_assign gid_less (migrating_objects s) idn (m, waiters - 1)\<rparr>
      | None \<Rightarrow> s)"

datatype 'a waiting = must_wait | completed "'a result"

definition resolve_gid_finish :: "gid_type \<Rightarrow> primary_namespace \<Rightarrow> resolved_type result" where
  "resolve_gid_finish idn s =
     bind_result (resolve_gid_locked (gvas s) idn) (\<lambda>(base, g, loc).
       if gid_eq base invalid_gid then Inr unresolved else Inr (base, g, loc))"

definition resolve_gid :: "gid_type \<Rightarrow> primary_namespace \<Rightarrow> primary_namespace \<times> resolved_type waiting" where
  "resolve_gid idn s =
     (let s = count_primary api_resolve_gid s in
      if is_migrating s idn then (wait_for_migration_enter idn s, must_wait)
      else (s, completed (resolve_gid_finish idn s)))"

definition resolve_gid_resume :: "gid_type \<Rightarrow> primary_namespace \<Rightarrow> primary_namespace \<times> resolved_type result" where
  "resolve_gid_resume idn s =
     (let s = wait_for_migration_leave idn s in (s, resolve_gid_finish idn s))"

definition colocate :: "gid_type \<Rightarrow> primary_namespace \<Rightarrow> primary_namespace \<times> id_type waiting" where
  "colocate idn s =
     (case resolve_gid idn s of
        (s, must_wait) \<Rightarrow> (s, must_wait)
      | (s, completed r) \<Rightarrow>
          (s, completed (bind_result r (\<lambda>(_, _, loc). Inr (id_type_of_gid loc unmanaged)))))"

section \<open>Binding\<close>

definition covered_by_previous :: "gva_table \<Rightarrow> gid_type \<Rightarrow> bool" where
  "covered_by_previous previous idn =
     (let (k, g, _) = last previous in gid_greater (gid_add_u64 k (count g)) idn)"

definition bind_gid_insert ::
  "gva \<Rightarrow> gid_type \<Rightarrow> gid_type \<Rightarrow> primary_namespace \<Rightarrow> primary_namespace \<times> bool result" where
  "bind_gid_insert g idn loc s =
     (let upper_bound = gid_add_u64 idn (count g - 1) in
      if id_msb idn \<noteq> id_msb upper_bound then (s, Inl internal_server_error)
      else if component_invalid = gva_type g then (s, Inl bad_parameter)
      else
        let (table, inserted) = map_insert gid_less (gvas s) idn (gva_copy g, gid_copy loc) in
        if \<not> inserted then (s, Inl lock_error)
        else (s\<lparr>gvas := table\<rparr>, Inr True))"

definition bind_gid ::
  "gva \<Rightarrow> gid_type \<Rightarrow> gid_type \<Rightarrow> primary_namespace \<Rightarrow> primary_namespace \<times> bool result" where
  "bind_gid g gid loc s =
     (let s = count_primary api_bind_gid s;
          idn = strip_internal_bits_from_gid (gid_copy gid);
          previous = map_before gid_less (gvas s) idn
      in case map_lower_bound gid_less (gvas s) idn of
           (k, gaddr, _) # _ \<Rightarrow>
             if gid_eq k idn
             then
               if count gaddr \<noteq> count g then (s, Inl bad_parameter)
               else if component_invalid = gva_type g then (s, Inl bad_parameter)
               else if \<not> gid_to_bool loc then (s, Inl bad_parameter)
               else (s\<lparr>gvas := map_assign gid_less (gvas s) idn
                       (gaddr\<lparr>prefix := gid_copy (prefix g), gva_type := gva_type g,
                              gva_base := gva_base g, offset := offset g\<rparr>, gid_copy loc)\<rparr>,
                     Inr False)
             else if previous \<noteq> [] \<and> covered_by_previous previous idn then (s, Inl bad_parameter)
             else bind_gid_insert g idn loc s
         | [] \<Rightarrow>
             if gvas s \<noteq> [] \<and> covered_by_previous previous idn then (s, Inl bad_parameter)
             else bind_gid_insert g idn loc s)"

definition unbind_gid ::
  "u64 \<Rightarrow> gid_type \<Rightarrow> primary_namespace \<Rightarrow> primary_namespace \<times> address result" where
  "unbind_gid cnt gid s =
     (let s = count_primary api_unbind_gid s;
          idn = strip_internal_bits_from_gid (gid_copy gid)
      in case map_find gid_less (gvas s) idn of
           Some (_, g, _) \<Rightarrow>
             if count g \<noteq> cnt then (s, Inl bad_parameter)
             else (s\<lparr>gvas := map_erase gid_less (gvas s) idn\<rparr>,
                   Inr (mk_address (prefix g) (gva_type g) (gva_base g)))
         | None \<Rightarrow> (s, Inr address_default))"

section \<open>Reference counts\<close>

text \<open>
  The loops run from \<open>lower\<close> until the running gid equals \<open>upper\<close>. That they stop is a
  property of the bounds they are called with, so they are partial functions.
\<close>

definition increment_one :: "gid_type \<Rightarrow> i64 \<Rightarrow> refcnt_table \<Rightarrow> refcnt_table result" where
  "increment_one raw credits table =
     (case map_find gid_less table raw of
        None \<Rightarrow>
          let (table, inserted) =
                map_insert gid_less table raw (HPX_GLOBALCREDIT_INITIAL + credits)
          in if \<not> inserted then Inl invalid_data else Inr table
      | Some (_, c) \<Rightarrow> Inr (map_assign gid_less table raw (c + credits)))"

partial_function (option) increment_loop ::
  "gid_type \<Rightarrow> gid_type \<Rightarrow> i64 \<Rightarrow> refcnt_table \<Rightarrow> (refcnt_table \<times> unit result) option" where
  "increment_loop raw upper credits table =
     (if gid_eq raw upper then Some (table, Inr ())
      else case increment_one raw credits table of
             Inl e \<Rightarrow> Some (table, Inl e)
           | Inr table \<Rightarrow> increment_loop (gid_inc raw) upper credits table)"

definition increment_credit ::
  "i64 \<Rightarrow> gid_type \<Rightarrow> gid_type \<Rightarrow> primary_namespace \<Rightarrow> (primary_namespace \<times> i64 result) option" where
  "increment_credit credits lower upper s =
     (let s = count_primary api_increment_credit s;
          lower = strip_internal_bits_from_gid (gid_copy lower);
          upper = strip_internal_bits_from_gid (gid_copy upper);
          upper = (if gid_eq lower upper then gid_inc upper else upper)
      in if credits > 0
         then map_option (\<lambda>(table, r). (s\<lparr>refcnts := table\<rparr>, bind_result r (\<lambda>_. Inr 0)))
                (increment_loop lower upper credits (refcnts s))
         else Some (s, Inl bad_parameter))"

record free_entry =
  free_gva :: gva
  free_gid :: gid_type
  free_locality :: gid_type

text \<open>One round of the sweep: the new table and, when the count reached zero, the key.\<close>

definition decrement_one ::
  "gid_type \<Rightarrow> i64 \<Rightarrow> refcnt_table \<Rightarrow> refcnt_table \<times> gid_type option result" where
  "decrement_one raw credits table =
     (case map_find gid_less table raw of
        None \<Rightarrow>
          if credits > HPX_GLOBALCREDIT_INITIAL then (table, Inl invalid_data)
          else
            let cnt = HPX_GLOBALCREDIT_INITIAL - credits;
                (table, inserted) = map_insert gid_less table raw cnt
            in if \<not> inserted then (table, Inl invalid_data)
               else if cnt < 0 then (table, Inl invalid_data)
               else (table, Inr (if cnt = 0 then Some raw else None))
      | Some (k, c) \<Rightarrow>
          let cnt = c - credits;
              table = map_assign gid_less table raw cnt
          in if cnt < 0 then (table, Inl invalid_data)
             else (table, Inr (if cnt = 0 then Some k else None)))"

partial_function (option) decrement_loop ::
  "gid_type \<Rightarrow> gid_type \<Rightarrow> i64 \<Rightarrow> refcnt_table \<Rightarrow> gid_type list \<Rightarrow>
   (refcnt_table \<times> gid_type list result) option" where
  "decrement_loop raw upper credits table free_list =
     (if gid_eq raw upper then Some (table, Inr free_list)
      else case decrement_one raw credits table of
             (table, Inl e) \<Rightarrow> Some (table, Inl e)
           | (table, Inr None) \<Rightarrow> decrement_loop (gid_inc raw) upper credits table free_list
           | (table, Inr (Some k)) \<Rightarrow>
               decrement_loop (gid_inc raw) upper credits table (free_list @ [k]))"

text \<open>
  \<open>resolve_free_list\<close> waits while an object is being migrated: \<open>sweep_waits\<close> has the objects
  still to resolve, the first of them the one it waits for, and the entries so far;
  \<open>resolve_free_list_resume\<close> is the rest of the loop once it was notified.
\<close>

datatype 'a sweep = sweep_waits "gid_type list" "free_entry list" | sweep_done "'a result"

definition resolve_free_entry ::
  "gid_type \<Rightarrow> primary_namespace \<Rightarrow> primary_namespace \<times> free_entry result" where
  "resolve_free_entry gid s =
     (case resolve_gid_locked (gvas s) gid of
        Inl e \<Rightarrow> (s, Inl e)
      | Inr (raw, g, loc) \<Rightarrow>
          if gid_eq raw invalid_gid then (s, Inl internal_server_error)
          else if component_invalid = gva_type g then (s, Inl internal_server_error)
          else if 0 = count g then (s, Inl internal_server_error)
          else (s\<lparr>refcnts := map_erase gid_less (refcnts s) gid\<rparr>,
                Inr \<lparr>free_gva = gva_resolve g gid raw, free_gid = gid_copy gid,
                     free_locality = gid_copy loc\<rparr>))"

fun resolve_free_list ::
  "gid_type list \<Rightarrow> primary_namespace \<Rightarrow> free_entry list \<Rightarrow> primary_namespace \<times> free_entry list sweep" where
  "resolve_free_list [] s entries = (s, sweep_done (Inr entries))"
| "resolve_free_list (gid # gids) s entries =
     (if is_migrating s gid then (wait_for_migration_enter gid s, sweep_waits (gid # gids) entries)
      else case resolve_free_entry gid s of
             (s, Inl e) \<Rightarrow> (s, sweep_done (Inl e))
           | (s, Inr entry) \<Rightarrow> resolve_free_list gids s (entries @ [entry]))"

fun resolve_free_list_resume ::
  "gid_type list \<Rightarrow> primary_namespace \<Rightarrow> free_entry list \<Rightarrow> primary_namespace \<times> free_entry list sweep" where
  "resolve_free_list_resume [] s entries = (s, sweep_done (Inr entries))"
| "resolve_free_list_resume (gid # gids) s entries =
     (case resolve_free_entry gid (wait_for_migration_leave gid s) of
        (s, Inl e) \<Rightarrow> (s, sweep_done (Inl e))
      | (s, Inr entry) \<Rightarrow> resolve_free_list gids s (entries @ [entry]))"

definition decrement_sweep ::
  "gid_type \<Rightarrow> gid_type \<Rightarrow> i64 \<Rightarrow> primary_namespace \<Rightarrow> (primary_namespace \<times> free_entry list sweep) option" where
  "decrement_sweep lower upper credits s =
     (case decrement_loop lower upper credits (refcnts s) [] of
        None \<Rightarrow> None
      | Some (table, Inl e) \<Rightarrow> Some (s\<lparr>refcnts := table\<rparr>, sweep_done (Inl e))
      | Some (table, Inr free_list) \<Rightarrow> Some (resolve_free_list free_list (s\<lparr>refcnts := table\<rparr>) []))"

datatype free_action =
    free_local gva gid_type \<comment> \<open>\<open>free_component(gva, gid, 1)\<close> on this locality\<close>
  | free_remote gid_type gva gid_type

definition free_components_sync :: "bool \<Rightarrow> gid_type \<Rightarrow> free_entry list \<Rightarrow> free_action list" where
  "free_components_sync running here free_list =
     concat (map (\<lambda>e.
       if \<not> running \<and> \<not> gid_eq (free_locality e) here then []
       else if gid_eq (free_locality e) here then [free_local (free_gva e) (free_gid e)]
       else [free_remote (free_locality e) (free_gva e) (free_gid e)]) free_list)"

text \<open>One request of \<open>decrement_credit\<close>. Both bounds come from the request's first gid.\<close>

definition decrement_request ::
  "i64 \<times> gid_type \<times> gid_type \<Rightarrow> primary_namespace \<Rightarrow>
   (primary_namespace \<times> free_entry list sweep) option" where
  "decrement_request req s =
     (let (credits, req_lower, _) = req;
          lower = strip_internal_bits_from_gid (gid_copy req_lower);
          upper = strip_internal_bits_from_gid (gid_copy req_lower);
          upper = (if gid_eq lower upper then gid_inc upper else upper)
      in if credits < 0 then decrement_sweep lower upper (- credits) s
         else Some (s, sweep_done (Inl bad_parameter)))"

text \<open>The loop over the requests: \<open>credit_waits\<close> has the interrupted sweep and the loop's state.\<close>

datatype credit_outcome =
    credit_waits "gid_type list" "free_entry list" "(i64 \<times> gid_type \<times> gid_type) list"
      "i64 list" "free_action list"
  | credit_done "(i64 list \<times> free_action list) result"

fun decrement_requests ::
  "bool \<Rightarrow> (i64 \<times> gid_type \<times> gid_type) list \<Rightarrow> primary_namespace \<Rightarrow> i64 list \<Rightarrow> free_action list \<Rightarrow>
   (primary_namespace \<times> credit_outcome) option" where
  "decrement_requests running [] s res acts = Some (s, credit_done (Inr (res, acts)))"
| "decrement_requests running (req # reqs) s res acts =
     (case decrement_request req s of
        None \<Rightarrow> None
      | Some (s, sweep_waits gids entries) \<Rightarrow> Some (s, credit_waits gids entries (req # reqs) res acts)
      | Some (s, sweep_done (Inl e)) \<Rightarrow> Some (s, credit_done (Inl e))
      | Some (s, sweep_done (Inr free_list)) \<Rightarrow>
          decrement_requests running reqs s (res @ [fst req])
            (acts @ free_components_sync running (locality s) free_list))"

definition decrement_credit ::
  "bool \<Rightarrow> (i64 \<times> gid_type \<times> gid_type) list \<Rightarrow> primary_namespace \<Rightarrow>
   (primary_namespace \<times> credit_outcome) option" where
  "decrement_credit running requests s =
     decrement_requests running requests (count_primary api_decrement_credit s) [] []"

fun decrement_credit_resume ::
  "bool \<Rightarrow> credit_outcome \<Rightarrow> primary_namespace \<Rightarrow> (primary_namespace \<times> credit_outcome) option" where
  "decrement_credit_resume running (credit_waits gids entries (req # reqs) res acts) s =
     (case resolve_free_list_resume gids s entries of
        (s, sweep_waits gids entries) \<Rightarrow> Some (s, credit_waits gids entries (req # reqs) res acts)
      | (s, sweep_done (Inl e)) \<Rightarrow> Some (s, credit_done (Inl e))
      | (s, sweep_done (Inr free_list)) \<Rightarrow>
          decrement_requests running reqs s (res @ [fst req])
            (acts @ free_components_sync running (locality s) free_list))"
| "decrement_credit_resume running outcome s = Some (s, outcome)"

section \<open>Allocation\<close>

text \<open>
  \<open>allocate\<close> holds no lock: it reads \<open>next_id_\<close>, computes a block and stores its end in two steps between
  which other calls can run. \<open>allocate_choose\<close> is the block for the value of \<open>next_id_\<close> that was read,
  \<open>allocate_store\<close> what is done with it, and \<open>allocate\<close> a call that no other one overlaps.
\<close>

definition allocate_choose :: "u64 \<Rightarrow> gid_type \<Rightarrow> (gid_type \<times> gid_type) result" where
  "allocate_choose cnt next =
     (let real_count = (if cnt \<noteq> 0 then cnt - 1 else 0);
          lower = gid_add_u64 next 1;
          upper = gid_add_u64 lower real_count;
          carry = id_msb upper \<noteq> id_msb lower
      in if carry \<and> id_msb lower AND virtual_memory_mask = virtual_memory_mask
         then Inl internal_server_error
         else
           let lower = (if carry then mk_gid (id_msb upper) 0 else lower);
               upper = (if carry then gid_add_u64 lower real_count else upper)
           in Inr (lower, upper))"

definition allocate_store ::
  "gid_type \<times> gid_type \<Rightarrow> primary_namespace \<Rightarrow> (primary_namespace \<times> (gid_type \<times> gid_type) result) option" where
  "allocate_store block s =
     (let s = s\<lparr>next_id := gid_copy (snd block)\<rparr>
      in case bind_run (set_credit_for_gid (fst block) HPX_GLOBALCREDIT_INITIAL) (\<lambda>lower.
                bind_run (set_credit_for_gid (snd block) HPX_GLOBALCREDIT_INITIAL) (\<lambda>upper.
                  Some (Inr (gid_copy lower, gid_copy upper)))) of
           None \<Rightarrow> None
         | Some r \<Rightarrow> Some (s, r))"

definition allocate ::
  "u64 \<Rightarrow> primary_namespace \<Rightarrow> (primary_namespace \<times> (gid_type \<times> gid_type) result) option" where
  "allocate cnt s =
     (let s = count_primary api_allocate s
      in if 0 = cnt then Some (s, Inr (gid_copy (next_id s), gid_copy (next_id s)))
      else case allocate_choose cnt (next_id s) of
             Inl e \<Rightarrow> Some (s, Inl e)
           | Inr block \<Rightarrow> allocate_store block s)"

section \<open>Reference counts: laws\<close>

text \<open>The global reference count of a gid: an object without an entry has the initial credit.\<close>

definition table_count :: "refcnt_table \<Rightarrow> gid_type \<Rightarrow> i64" where
  "table_count table gid =
     (case map_find gid_less table gid of Some (_, c) \<Rightarrow> c | None \<Rightarrow> HPX_GLOBALCREDIT_INITIAL)"

lemma table_count_found [simp]: "map_find gid_less t g = Some (k, v) \<Longrightarrow> table_count t g = v"
  by (simp add: table_count_def)

lemma table_count_absent [simp]:
  "map_find gid_less t g = None \<Longrightarrow> table_count t g = HPX_GLOBALCREDIT_INITIAL"
  by (simp add: table_count_def)

lemma table_count_eq: "map_sorted gid_less t \<Longrightarrow> gid_eq g h \<Longrightarrow> table_count t g = table_count t h"
  using gid_order.find_equiv [of t g h] by (simp add: table_count_def gid_eq_equiv)

lemma table_count_insert:
  assumes "map_sorted gid_less t" "map_find gid_less t raw = None"
  shows "table_count (fst (map_insert gid_less t raw v)) g = (if gid_eq raw g then v else table_count t g)"
  using gid_order.find_insert [OF assms] by (simp add: table_count_def gid_eq_equiv)

lemma table_count_assign:
  assumes "map_sorted gid_less t" "map_find gid_less t raw = Some (k, w)"
  shows "table_count (map_assign gid_less t raw v) g = (if gid_eq raw g then v else table_count t g)"
  using gid_order.find_assign [OF assms] by (simp add: table_count_def gid_eq_equiv)

lemma table_count_erase:
  assumes "map_sorted gid_less t"
  shows "table_count (map_erase gid_less t raw) g =
    (if gid_eq raw g then HPX_GLOBALCREDIT_INITIAL else table_count t g)"
  using gid_order.find_erase [OF assms] by (simp add: table_count_def gid_eq_equiv)

lemmas table_count_updates = table_count_insert table_count_assign table_count_erase

lemma increment_one_ok:
  assumes "map_sorted gid_less t"
  obtains t' where "increment_one raw c t = Inr t'" "map_sorted gid_less t'"
    "\<And>g. table_count t' g = table_count t g + (if gid_eq raw g then c else 0)"
proof (cases "map_find gid_less t raw")
  case None
  define t' where "t' = fst (map_insert gid_less t raw (HPX_GLOBALCREDIT_INITIAL + c))"
  have "increment_one raw c t = Inr t'"
    using None gid_order.insert_fresh [OF None]
    by (simp add: increment_one_def t'_def case_prod_beta Let_def)
  moreover have "table_count t' g = table_count t g + (if gid_eq raw g then c else 0)" for g
    using None table_count_eq [OF assms, of raw g] by (simp add: t'_def table_count_insert [OF assms None])
  ultimately show ?thesis using that gid_order.sorted_insert [OF assms] by (auto simp: t'_def)
next
  case (Some e)
  obtain k v where e: "e = (k, v)" by (cases e)
  note f = Some [unfolded e]
  have "table_count (map_assign gid_less t raw (v + c)) g =
      table_count t g + (if gid_eq raw g then c else 0)" for g
    using f table_count_eq [OF assms, of raw g] by (simp add: table_count_assign [OF assms f])
  moreover have "increment_one raw c t = Inr (map_assign gid_less t raw (v + c))"
    using f by (simp add: increment_one_def)
  ultimately show ?thesis using that gid_order.sorted_assign [OF assms] by blast
qed

text \<open>Decrementing by at most the count.\<close>

lemma decrement_one_ok:
  assumes "map_sorted gid_less t" "0 < c" "c \<le> table_count t raw"
  obtains t' k where "decrement_one raw c t = (t', Inr (if c = table_count t raw then Some k else None))"
    "map_sorted gid_less t'" "gid_eq k raw"
    "\<And>g. table_count t' g = table_count t g - (if gid_eq raw g then c else 0)"
    "map_find gid_less t' raw = Some (k, table_count t raw - c)"
proof (cases "map_find gid_less t raw")
  case None
  define t' where "t' = fst (map_insert gid_less t raw (HPX_GLOBALCREDIT_INITIAL - c))"
  have "decrement_one raw c t = (t', Inr (if c = table_count t raw then Some raw else None))"
    using None gid_order.insert_fresh [OF None] assms(3)
    by (simp add: decrement_one_def t'_def case_prod_beta Let_def)
  moreover have "table_count t' g = table_count t g - (if gid_eq raw g then c else 0)" for g
    using None table_count_eq [OF assms(1), of raw g] by (simp add: t'_def table_count_insert [OF assms(1) None])
  moreover have "map_find gid_less t' raw = Some (raw, table_count t raw - c)"
    using None gid_order.find_insert [OF assms(1) None] by (simp add: t'_def gid_eq_equiv)
  ultimately show ?thesis
    using that [of t' raw] gid_order.sorted_insert [OF assms(1)] by (auto simp: t'_def)
next
  case (Some e)
  obtain k v where e: "e = (k, v)" by (cases e)
  note f = Some [unfolded e]
  define t' where "t' = map_assign gid_less t raw (v - c)"
  have "table_count t' g = table_count t g - (if gid_eq raw g then c else 0)" for g
    using f table_count_eq [OF assms(1), of raw g] by (simp add: t'_def table_count_assign [OF assms(1) f])
  moreover have "decrement_one raw c t = (t', Inr (if c = table_count t raw then Some k else None))"
    using f assms(3) by (auto simp: decrement_one_def t'_def Let_def)
  moreover have "gid_eq k raw" using gid_order.find_SomeD(2) [OF f] by (simp add: gid_eq_equiv)
  moreover have "map_find gid_less t' raw = Some (k, table_count t raw - c)"
    using f gid_order.find_assign [OF assms(1) f] by (simp add: t'_def gid_eq_equiv)
  ultimately show ?thesis
    using that [of t' k] gid_order.sorted_assign [OF assms(1)] by (auto simp: t'_def)
qed

lemma decrement_one_negative:
  assumes "map_sorted gid_less t" "table_count t raw < c"
  obtains t' where "decrement_one raw c t = (t', Inl invalid_data)"
proof (cases "map_find gid_less t raw")
  case (Some e)
  then show ?thesis using that assms by (cases e) (auto simp: decrement_one_def Let_def)
qed (use that assms in \<open>auto simp: decrement_one_def\<close>)

lemma gid_inc_lsb: "id_lsb (gid_inc g) = id_lsb g + 1"
  by (simp add: gid_inc_def gid_add_u64_def gid_add_parts)

lemma gid_inc_neq [simp]: "\<not> gid_eq g (gid_inc g)" "\<not> gid_eq (gid_inc g) g"
  by (auto simp: gid_eq_def gid_inc_lsb)

lemma increment_loop_single:
  "increment_loop g (gid_inc g) c t =
     Some (case increment_one g c t of Inl e \<Rightarrow> (t, Inl e) | Inr t' \<Rightarrow> (t', Inr ()))"
  by (subst increment_loop.simps)
    (auto split: sum.split simp: increment_loop.simps [of "gid_inc g" "gid_inc g"])

lemma decrement_loop_single:
  "decrement_loop g (gid_inc g) c t fl =
     Some (case decrement_one g c t of
         (t, Inl e) \<Rightarrow> (t, Inl e) | (t, Inr None) \<Rightarrow> (t, Inr fl) | (t, Inr (Some k)) \<Rightarrow> (t, Inr (fl @ [k])))"
  by (subst decrement_loop.simps)
    (auto split: sum.split prod.split option.split
      simp: decrement_loop.simps [of "gid_inc g" "gid_inc g"])

abbreviation stripped :: "gid_type \<Rightarrow> gid_type" where
  "stripped g \<equiv> strip_internal_bits_from_gid (gid_copy g)"

lemma gid_eq_stripped [simp]: "gid_eq (stripped g) h \<longleftrightarrow> gid_eq g h" "gid_eq h (stripped g) \<longleftrightarrow> gid_eq h g"
  by (auto simp: gid_eq_bits strip_internal_bits_from_gid_def mask_bits)

lemma increment_credit_ok:
  assumes "map_sorted gid_less (refcnts s)" "0 < c"
  obtains t where "increment_credit c g g s =
      Some ((count_primary api_increment_credit s)\<lparr>refcnts := t\<rparr>, Inr 0)"
    "map_sorted gid_less t"
    "\<And>h. table_count t h = table_count (refcnts s) h + (if gid_eq g h then c else 0)"
proof -
  obtain t where t: "increment_one (stripped g) c (refcnts s) = Inr t" "map_sorted gid_less t"
    "\<And>h. table_count t h = table_count (refcnts s) h + (if gid_eq (stripped g) h then c else 0)"
    using increment_one_ok [OF assms(1)] by blast
  have "increment_credit c g g s = Some ((count_primary api_increment_credit s)\<lparr>refcnts := t\<rparr>, Inr 0)"
    using t(1) assms(2)
    by (simp add: increment_credit_def Let_def increment_loop_single count_primary_def)
  with t(2,3) show ?thesis using that by simp
qed

lemma increment_credit_bad:
  "c \<le> 0 \<Longrightarrow> increment_credit c g h s = Some (count_primary api_increment_credit s, Inl bad_parameter)"
  by (simp add: increment_credit_def Let_def)

text \<open>The three outcomes of a decrement request for an object that is not being migrated.\<close>

lemma decrement_request_unfold:
  assumes "0 < c"
  shows "decrement_request (- c, g, u) s =
    (case decrement_one (stripped g) c (refcnts s) of
       (t, Inl e) \<Rightarrow> Some (s\<lparr>refcnts := t\<rparr>, sweep_done (Inl e))
     | (t, Inr None) \<Rightarrow> Some (s\<lparr>refcnts := t\<rparr>, sweep_done (Inr []))
     | (t, Inr (Some k)) \<Rightarrow> Some (resolve_free_list [k] (s\<lparr>refcnts := t\<rparr>) []))"
  using assms
  by (auto simp: decrement_request_def Let_def decrement_sweep_def decrement_loop_single
      split: prod.split sum.split option.split)

lemma decrement_request_keeps:
  assumes "map_sorted gid_less (refcnts s)" "0 < c" "c < table_count (refcnts s) g"
  obtains t where "decrement_request (- c, g, u) s = Some (s\<lparr>refcnts := t\<rparr>, sweep_done (Inr []))"
    "map_sorted gid_less t"
    "\<And>h. table_count t h = table_count (refcnts s) h - (if gid_eq g h then c else 0)"
proof -
  have e: "table_count (refcnts s) (stripped g) = table_count (refcnts s) g"
    by (rule table_count_eq [OF assms(1)]) simp
  obtain t k where "decrement_one (stripped g) c (refcnts s) = (t, Inr None)" "map_sorted gid_less t"
    "\<And>h. table_count t h = table_count (refcnts s) h - (if gid_eq (stripped g) h then c else 0)"
    using decrement_one_ok [OF assms(1,2), of "stripped g"] assms(3) e by auto
  then show ?thesis using that assms(2) by (simp add: decrement_request_unfold)
qed

lemma decrement_request_negative:
  assumes "map_sorted gid_less (refcnts s)" "0 < c" "table_count (refcnts s) g < c"
  obtains s' where "decrement_request (- c, g, u) s = Some (s', sweep_done (Inl invalid_data))"
proof -
  have "table_count (refcnts s) (stripped g) = table_count (refcnts s) g"
    by (rule table_count_eq [OF assms(1)]) simp
  then obtain t where "decrement_one (stripped g) c (refcnts s) = (t, Inl invalid_data)"
    using decrement_one_negative [OF assms(1), of "stripped g" c] assms(3) by auto
  then show ?thesis using that assms(2) by (simp add: decrement_request_unfold)
qed

lemma resolve_gid_locked_cong: "gid_eq g h \<Longrightarrow> resolve_gid_locked t g = resolve_gid_locked t h"
proof -
  assume "gid_eq g h"
  then have "stripped g = stripped h" using strip_internal_eq gid_eq_sym by simp
  then show ?thesis by (simp add: resolve_gid_locked_def)
qed

lemma is_migrating_cong:
  "map_sorted gid_less (migrating_objects s) \<Longrightarrow> gid_eq g h \<Longrightarrow> is_migrating s g = is_migrating s h"
  using gid_order.find_equiv [of "migrating_objects s" g h] by (simp add: is_migrating_def gid_eq_equiv)

lemma is_migrating_refcnts [simp]: "is_migrating (s\<lparr>refcnts := t\<rparr>) g = is_migrating s g"
  by (simp add: is_migrating_def)

lemma decrement_request_frees:
  assumes "map_sorted gid_less (refcnts s)" "0 < c" "c = table_count (refcnts s) g"
    and m: "map_sorted gid_less (migrating_objects s)" "\<not> is_migrating s g"
    and r: "resolve_gid_locked (gvas s) g = Inr (raw, a, loc)" "\<not> gid_eq raw invalid_gid"
      "gva_type a \<noteq> component_invalid" "count a \<noteq> 0"
  obtains t e where "decrement_request (- c, g, u) s = Some (s\<lparr>refcnts := t\<rparr>, sweep_done (Inr [e]))"
    "map_sorted gid_less t" "map_find gid_less t g = None"
    "\<And>h. \<not> gid_eq g h \<Longrightarrow> table_count t h = table_count (refcnts s) h"
    "gid_eq (free_gid e) g" "free_gva e = gva_resolve a g raw" "free_locality e = gid_copy loc"
proof -
  have c: "c = table_count (refcnts s) (stripped g)"
    unfolding assms(3) by (rule table_count_eq [OF assms(1)]) simp
  obtain t k where t0: "decrement_one (stripped g) c (refcnts s) =
      (t, Inr (if c = table_count (refcnts s) (stripped g) then Some k else None))"
    and t: "map_sorted gid_less t" "gid_eq k (stripped g)"
    "\<And>h. table_count t h = table_count (refcnts s) h - (if gid_eq (stripped g) h then c else 0)"
    "map_find gid_less t (stripped g) = Some (k, table_count (refcnts s) (stripped g) - c)"
    by (rule decrement_one_ok [OF assms(1,2) eq_refl [OF c]]) (rule that)
  have t1: "decrement_one (stripped g) c (refcnts s) = (t, Inr (Some k))"
    using t0 by (simp add: c [symmetric])
  have kg: "gid_eq k g" "gid_eq g k" using t(2) gid_eq_sym by simp_all
  have nm: "\<not> is_migrating (s\<lparr>refcnts := t\<rparr>) k" using m(2) is_migrating_cong [OF m(1) kg(1)] by simp
  have rk: "resolve_gid_locked (gvas s) k = Inr (raw, a, loc)"
    using r(1) resolve_gid_locked_cong [OF kg(1)] by simp
  define e where "e = \<lparr>free_gva = gva_resolve a k raw, free_gid = gid_copy k, free_locality = gid_copy loc\<rparr>"
  have d: "decrement_request (- c, g, u) s =
      Some (s\<lparr>refcnts := map_erase gid_less t k\<rparr>, sweep_done (Inr [e]))"
    using nm r(2,3,4) by (simp add: decrement_request_unfold [OF assms(2)] t1 resolve_free_entry_def rk e_def)
  have v: "gva_resolve a k raw = gva_resolve a g raw"
    using kg by (simp add: gva_resolve_def gva_lva_def gid_eq_def)
  have n: "map_find gid_less (map_erase gid_less t k) g = None"
    using gid_order.find_erase [OF t(1)] kg by (simp add: gid_eq_equiv)
  have o: "table_count (map_erase gid_less t k) h = table_count (refcnts s) h" if "\<not> gid_eq g h" for h
  proof -
    have "\<not> gid_eq k h" using that kg gid_eq_trans by blast
    with that t(3) [of h] show ?thesis by (simp add: table_count_erase [OF t(1)])
  qed
  show ?thesis
    by (rule that [OF d gid_order.sorted_erase [OF t(1)] n o]) (simp_all add: e_def v kg)
qed

end
