(* ===== verification/Primary_Ranges.thy ===== *)
theory Primary_Ranges
  imports Primary_Namespace
begin

text \<open>
  Correctness of the address table of the primary namespace. \<open>resolve_spec\<close> says what resolution
  means: the one entry whose range has the gid. The search by \<open>lower_bound\<close> and a look at the
  previous entry computes it on every table of non-overlapping ranges, binding a range that
  fits extends the meaning by exactly that range, and unbinding removes it.
\<close>

section \<open>The address table: ranges\<close>

text \<open>An entry covers the gids from its key on, as many as its count, with the key's upper word.\<close>

fun in_range :: "gid_type \<times> gva \<times> gid_type \<Rightarrow> gid_type \<Rightarrow> bool" where
  "in_range (k, g, _) i \<longleftrightarrow> id_msb (stripped i) = id_msb k \<and>
     unat (id_lsb k) \<le> unat (id_lsb i) \<and> unat (id_lsb i) < unat (id_lsb k) + unat (count g)"

fun entry_ok :: "gid_type \<times> gva \<times> gid_type \<Rightarrow> bool" where
  "entry_ok (k, g, _) \<longleftrightarrow> stripped k = k \<and> 0 < unat (count g) \<and>
     unat (id_lsb k) + unat (count g) < 2 ^ 64"

fun range_before :: "gid_type \<times> gva \<times> gid_type \<Rightarrow> gid_type \<times> gva \<times> gid_type \<Rightarrow> bool" where
  "range_before (k, g, _) (k', _) \<longleftrightarrow> id_msb k < id_msb k' \<or>
     id_msb k = id_msb k' \<and> unat (id_lsb k) + unat (count g) \<le> unat (id_lsb k')"

definition table_ok :: "gva_table \<Rightarrow> bool" where
  "table_ok t \<longleftrightarrow> (\<forall>e \<in> set t. entry_ok e) \<and> sorted_wrt range_before t"

text \<open>What resolution promises: the entry whose range has the gid, if there is one.\<close>

definition resolve_spec :: "gva_table \<Rightarrow> gid_type \<Rightarrow> resolved_type" where
  "resolve_spec t i = (case find (\<lambda>e. in_range e i) t of Some e \<Rightarrow> e | None \<Rightarrow> unresolved)"

lemma msb_stripped: "id_msb (stripped g) = strip_internal_bits_from_msb (id_msb g)"
  by (rule bit_word_eqI) (auto simp: strip_internal_bits_from_gid_def mask_bits)

lemma stripped_bits [mask_bits]: "bit (id_msb (stripped g)) n \<longleftrightarrow> bit (id_msb g) n \<and> \<not> (23 \<le> n \<and> n < 32)"
  by (simp add: msb_stripped mask_bits)

lemma stripped_idem [simp]: "stripped (stripped g) = stripped g"
  by (simp add: strip_internal_eq)

lemma gid_less_stripped:
  "gid_less g h \<longleftrightarrow> id_msb (stripped g) < id_msb (stripped h) \<or>
     id_msb (stripped g) = id_msb (stripped h) \<and> unat (id_lsb g) < unat (id_lsb h)"
  unfolding gid_less_def msb_stripped word_less_nat_alt [of "id_lsb g" "id_lsb h", symmetric] by auto

lemma gid_less_strip [simp]: "gid_less (stripped g) h = gid_less g h" "gid_less h (stripped g) = gid_less h g"
  by (simp_all add: gid_less_stripped)

lemma gid_eq_stripped_iff:
  "gid_eq g h \<longleftrightarrow> id_msb (stripped g) = id_msb (stripped h) \<and> id_lsb g = id_lsb h"
  by (simp add: gid_eq_def msb_stripped)

lemma entry_okD:
  assumes "entry_ok (k, g, l)"
  shows "id_msb (stripped k) = id_msb k" "0 < unat (count g)"
    "unat (id_lsb k) + unat (count g) < 2 ^ 64" "stripped k = k"
  using assms by simp_all

lemma range_before_less:
  assumes "entry_ok e" "entry_ok e'" "range_before e e'"
  shows "gid_less (fst e) (fst e')"
  using assms by (cases e, cases e') (auto simp: gid_less_stripped)

lemma table_ok_sorted: "table_ok t \<Longrightarrow> map_sorted gid_less t"
  unfolding table_ok_def map_sorted_def
  using range_before_less by (blast intro: sorted_wrt_mono_rel [of t range_before])

lemma range_before_disjoint: "range_before e e' \<Longrightarrow> in_range e i \<Longrightarrow> \<not> in_range e' i"
  by (cases e, cases e') auto

lemma range_before_skips:
  assumes "range_before e e'" "\<not> gid_less i (fst e')" "entry_ok e'"
  shows "\<not> in_range e i"
  using assms by (cases e, cases e') (auto simp: gid_less_stripped)

lemma in_range_key: "entry_ok (k, g, l) \<Longrightarrow> gid_eq k i \<Longrightarrow> in_range (k, g, l) i"
  by (auto simp: gid_eq_stripped_iff)

lemma in_range_self: "entry_ok e \<Longrightarrow> gid_eq (fst e) i \<Longrightarrow> in_range e i"
  by (cases e) (simp only: fst_conv in_range_key)

lemma table_okD: "table_ok t \<Longrightarrow> e \<in> set t \<Longrightarrow> entry_ok e"
  by (simp add: table_ok_def)

lemma less_not_in_range: "entry_ok e \<Longrightarrow> gid_less i (fst e) \<Longrightarrow> \<not> in_range e i"
  by (cases e) (auto simp: gid_less_stripped)

text \<open>The test of the code on the entry before the iterator.\<close>

lemma upper_of_entry:
  assumes "entry_ok (k, g, l)"
  shows "id_msb (stripped (gid_add_u64 k (count g))) = id_msb k"
    "unat (id_lsb (gid_add_u64 k (count g))) = unat (id_lsb k) + unat (count g)"
proof -
  have a: "gid_add_u64 k (count g) = mk_gid (id_msb k) (id_lsb k + count g)"
    using assms by (intro gid_add_u64_no_carry) auto
  have "id_msb (stripped (mk_gid (id_msb k) l)) = id_msb (stripped k)" for l
    by (rule bit_word_eqI) (auto simp: mask_bits)
  then show "id_msb (stripped (gid_add_u64 k (count g))) = id_msb k"
    using assms by (simp add: a)
  show "unat (id_lsb (gid_add_u64 k (count g))) = unat (id_lsb k) + unat (count g)"
    using assms by (simp add: a unat_word_ariths)
qed

lemma upper_test:
  assumes "entry_ok (k, g, l)" "gid_less k i"
  shows "gid_greater (gid_add_u64 k (count g)) i \<longleftrightarrow> in_range (k, g, l) i"
proof -
  have k: "id_msb k < id_msb (stripped i) \<or>
      id_msb k = id_msb (stripped i) \<and> unat (id_lsb k) < unat (id_lsb i)"
    using assms(2) entry_okD(1) [OF assms(1)] unfolding gid_less_stripped by metis
  show ?thesis
    unfolding gid_greater_iff gid_less_stripped upper_of_entry [OF assms(1)] in_range.simps
    using k by (metis less_imp_le_nat order_less_imp_not_less)
qed

lemma find_append: "find P (xs @ ys) = (case find P xs of Some x \<Rightarrow> Some x | None \<Rightarrow> find P ys)"
  by (induction xs) auto

lemma find_None_all: "(\<forall>x \<in> set xs. \<not> P x) \<Longrightarrow> find P xs = None"
  by (simp add: find_None_iff)

lemma resolve_in_previous_spec:
  assumes ok: "table_ok (ps @ [p])" and less: "gid_less (fst p) (stripped i)"
  shows "resolve_in_previous (ps @ [p]) (stripped i) = Inr (resolve_spec (ps @ [p]) i)"
proof -
  obtain k g l where p: "p = (k, g, l)" by (cases p)
  have e: "entry_ok (k, g, l)" using ok by (simp add: table_ok_def p)
  have "\<forall>q \<in> set ps. \<not> in_range q i"
  proof
    fix q assume "q \<in> set ps"
    then have "range_before q p" using ok by (auto simp: table_ok_def sorted_wrt_append)
    moreover have "\<not> gid_less i (fst p)" using less by (simp add: gid_order.lt_asym)
    ultimately show "\<not> in_range q i" using range_before_skips e p by blast
  qed
  then have f: "find (\<lambda>e. in_range e i) (ps @ [p]) = (if in_range p i then Some p else None)"
    by (simp add: find_append find_None_all)
  have u: "gid_greater (gid_add_u64 k (count g)) (stripped i) \<longleftrightarrow> in_range p i"
    using upper_test [OF e less [unfolded p fst_conv]] by (simp add: p)
  show ?thesis
    by (simp only: resolve_in_previous_def last_snoc Let_def p prod.case) (use f u p in \<open>auto simp: resolve_spec_def\<close>)
qed

lemma resolve_gid_locked_spec:
  assumes "table_ok t"
  shows "resolve_gid_locked t i = Inr (resolve_spec t i)"
proof -
  let ?b = "map_before gid_less t (stripped i)" and ?l = "map_lower_bound gid_less t (stripped i)"
  have t: "t = ?b @ ?l" by (rule map_split [symmetric])
  have okb: "table_ok ?b"
    using assms t by (metis (no_types, lifting) Un_iff set_append sorted_wrt_append table_ok_def)
  have prev: "resolve_in_previous ?b (stripped i) = Inr (resolve_spec ?b i)" if "?b \<noteq> []"
  proof -
    from that obtain ps p where b: "?b = ps @ [p]" by (metis append_butlast_last_id)
    have "gid_less (fst p) (stripped i)" using map_before_less [of p gid_less t "stripped i"] b by simp
    with okb show ?thesis unfolding b by (rule resolve_in_previous_spec)
  qed
  have skip: "resolve_spec t i = resolve_spec ?b i" if "\<forall>x \<in> set ?l. \<not> in_range x i"
    by (subst t) (use that in \<open>simp add: resolve_spec_def find_append find_None_all split: option.split\<close>)
  show ?thesis
  proof (cases ?l)
    case Nil
    then have s: "resolve_spec t i = resolve_spec ?b i" using skip by simp
    from Nil t have tb: "t = ?b" by simp
    then show ?thesis using prev s Nil
      by (cases "t = []") (auto simp: resolve_gid_locked_def resolve_spec_def)
  next
    case (Cons e es)
    obtain k g l where e: "e = (k, g, l)" by (cases e)
    have ek: "entry_ok (k, g, l)" using assms t Cons e by (metis Un_iff list.set_intros(1) set_append table_ok_def)
    show ?thesis
    proof (cases "gid_eq k (stripped i)")
      case True
      have "in_range e i" using in_range_key [OF ek] True e by simp
      moreover have "\<forall>q \<in> set ?b. range_before q e"
        using assms t Cons by (metis list.set_intros(1) sorted_wrt_append table_ok_def)
      then have "\<forall>q \<in> set ?b. \<not> in_range q i" using \<open>in_range e i\<close> range_before_disjoint by blast
      ultimately have "find (\<lambda>e. in_range e i) t = Some e"
        by (subst t) (simp add: Cons find_append find_None_all)
      then show ?thesis using True Cons e by (simp add: resolve_gid_locked_def resolve_spec_def Let_def)
    next
      case False
      have "\<not> in_range x i" if x: "x \<in> set ?l" for x
      proof -
        have "gid_less (stripped i) (fst x)"
        proof (rule gid_order.lower_bound_greater [OF table_ok_sorted [OF assms] _ x])
          show "map_find gid_less t (stripped i) = None"
            using Cons e False map_lower_bound_not_less [OF Cons]
            by (auto simp: map_find_def gid_eq_equiv [symmetric] equiv_keys_def)
        qed
        moreover have "entry_ok x" using assms t x by (metis Un_iff set_append table_ok_def)
        ultimately show ?thesis using less_not_in_range by simp
      qed
      then have s: "resolve_spec t i = resolve_spec ?b i" using skip by blast
      show ?thesis
        using False Cons e prev s by (auto simp: resolve_gid_locked_def Let_def resolve_spec_def)
    qed
  qed
qed

lemma table_ok_unique:
  assumes "table_ok t" "e \<in> set t" "e' \<in> set t" "in_range e i" "in_range e' i"
  shows "e = e'"
proof (rule ccontr)
  assume "e \<noteq> e'"
  then have "range_before e e' \<or> range_before e' e"
    using assms(1-3) unfolding table_ok_def
    by (metis in_set_conv_nth linorder_neqE_nat sorted_wrt_iff_nth_less)
  with assms(4,5) show False using range_before_disjoint by blast
qed

lemma resolve_spec_found:
  assumes "table_ok t" "e \<in> set t" "in_range e i"
  shows "resolve_spec t i = e"
proof -
  obtain x where x: "find (\<lambda>e. in_range e i) t = Some x"
    by (metis (mono_tags, lifting) assms(2,3) find_None_iff not_Some_eq)
  then have "x \<in> set t" "in_range x i" by (auto simp: find_Some_iff in_set_conv_nth)
  with assms have "x = e" using table_ok_unique by blast
  with x show ?thesis by (simp add: resolve_spec_def)
qed

lemma resolve_spec_none: "(\<forall>e \<in> set t. \<not> in_range e i) \<Longrightarrow> resolve_spec t i = unresolved"
  by (simp add: resolve_spec_def find_None_all)

lemma resolve_spec_cases:
  assumes "table_ok t"
  obtains e where "e \<in> set t" "in_range e i" "resolve_spec t i = e"
  | "\<forall>e \<in> set t. \<not> in_range e i" "resolve_spec t i = unresolved"
  using resolve_spec_found [OF assms] resolve_spec_none by blast

section \<open>Binding and unbinding: laws\<close>

text \<open>A new range fits when it overlaps no entry.\<close>

definition fits :: "gva_table \<Rightarrow> gid_type \<times> gva \<times> gid_type \<Rightarrow> bool" where
  "fits t e \<longleftrightarrow> entry_ok e \<and> (\<forall>x \<in> set t. range_before x e \<or> range_before e x)"

lemma fits_absent:
  assumes "table_ok t" "fits t e"
  shows "map_find gid_less t (fst e) = None"
proof -
  have "\<not> gid_eq (fst x) (fst e)" if "x \<in> set t" for x
  proof -
    have "entry_ok x" "entry_ok e" "range_before x e \<or> range_before e x"
      using assms that by (auto simp: table_ok_def fits_def)
    then have "gid_less (fst x) (fst e) \<or> gid_less (fst e) (fst x)" using range_before_less by blast
    then show ?thesis unfolding gid_eq_equiv [symmetric] equiv_keys_def by blast
  qed
  then show ?thesis
    using gid_order.find_None_iff [OF table_ok_sorted [OF assms(1)]] by (simp add: gid_eq_equiv)
qed

lemma fits_insert:
  assumes "table_ok t" "fits t (k, v)"
  defines "t' \<equiv> fst (map_insert gid_less t k v)"
  shows "table_ok t'" and "set t' = insert (k, v) (set t)"
    and "resolve_spec t' i = (if in_range (k, v) i then (k, v) else resolve_spec t i)"
proof -
  let ?b = "map_before gid_less t k" and ?l = "map_lower_bound gid_less t k"
  note none = fits_absent [OF assms(1,2), unfolded fst_conv]
  have t: "t = ?b @ ?l" by (rule map_split [symmetric])
  have t': "t' = ?b @ (k, v) # ?l" by (simp add: t'_def map_insert_def none)
  show set: "set t' = insert (k, v) (set t)"
    unfolding t'_def by (rule gid_order.set_insert [OF none])
  have fit: "range_before x (k, v) \<or> range_before (k, v) x" "entry_ok x" if "x \<in> set t" for x
    using assms that by (auto simp: fits_def table_ok_def)
  have ekv: "entry_ok (k, v)" using assms(2) by (simp add: fits_def)
  have before: "range_before x (k, v)" if x: "x \<in> set ?b" for x
  proof -
    have "x \<in> set t" using x t by (metis Un_iff set_append)
    moreover have "gid_less (fst x) k" using map_before_less x by fastforce
    ultimately show ?thesis using fit range_before_less [OF ekv] gid_order.lt_asym by (metis fst_conv)
  qed
  have after: "range_before (k, v) x" if x: "x \<in> set ?l" for x
  proof -
    have "x \<in> set t" using x t by (metis Un_iff set_append)
    moreover have "gid_less k (fst x)"
      by (rule gid_order.lower_bound_greater [OF table_ok_sorted [OF assms(1)] none x])
    ultimately show ?thesis using fit range_before_less [OF _ ekv] gid_order.lt_asym by (metis fst_conv)
  qed
  have "sorted_wrt range_before (?b @ ?l)" using assms(1) t by (simp add: table_ok_def)
  then have "sorted_wrt range_before t'"
    unfolding t' sorted_wrt_append using before after by (auto simp: sorted_wrt_append)
  then show ok: "table_ok t'" using set fit(2) ekv by (auto simp: table_ok_def)
  show "resolve_spec t' i = (if in_range (k, v) i then (k, v) else resolve_spec t i)"
  proof (cases "in_range (k, v) i")
    case True
    with ok set show ?thesis using resolve_spec_found [of t' "(k, v)" i] by simp
  next
    case False
    then show ?thesis
      using resolve_spec_cases [OF assms(1), of i] resolve_spec_found [OF ok] resolve_spec_none [of t' i] set
      by (metis insert_iff)
  qed
qed

lemma not_covered:
  assumes "table_ok t" "fits t (stripped i, v)" "map_before gid_less t (stripped i) \<noteq> []"
  shows "\<not> covered_by_previous (map_before gid_less t (stripped i)) (stripped i)"
proof -
  define p where "p = last (map_before gid_less t (stripped i))"
  have pin: "p \<in> set (map_before gid_less t (stripped i))" using assms(3) by (simp add: p_def)
  then have less: "gid_less (fst p) (stripped i)" by (rule map_before_less)
  have pt: "p \<in> set t" using pin map_split [of gid_less t "stripped i"] by (metis Un_iff set_append)
  obtain k g l where p: "p = (k, g, l)" by (cases p)
  have e: "entry_ok (k, g, l)" "entry_ok (stripped i, v)" using assms(1,2) pt p by (auto simp: table_ok_def fits_def)
  have "range_before p (stripped i, v) \<or> range_before (stripped i, v) p"
    using assms(2) pt by (auto simp: fits_def)
  moreover have "\<not> range_before (stripped i, v) p"
    using range_before_less [OF e(2) e(1)] less p gid_order.lt_asym by (metis fst_conv)
  ultimately have "\<not> in_range p i"
    using range_before_skips [of p "(stripped i, v)" i] e gid_order.lt_irrefl by simp
  moreover have "gid_greater (gid_add_u64 k (count g)) (stripped i) \<longleftrightarrow> in_range p (stripped i)"
    using upper_test [OF e(1)] less p by simp
  moreover have "in_range p (stripped i) \<longleftrightarrow> in_range p i" using p by simp
  ultimately show ?thesis by (simp add: covered_by_previous_def p_def [symmetric] p)
qed

lemma upper_bound_msb:
  assumes "entry_ok (k, g, l)"
  shows "id_msb (gid_add_u64 k (count g - 1)) = id_msb k"
proof -
  have "count g \<noteq> 0" using assms by auto
  then have "unat (count g - 1) = unat (count g) - 1" by (simp add: unat_minus_one)
  then have "gid_add_u64 k (count g - 1) = mk_gid (id_msb k) (id_lsb k + (count g - 1))"
    using assms by (intro gid_add_u64_no_carry) auto
  moreover have "id_msb (mk_gid (id_msb k) x) = id_msb k" for x
  proof -
    have "\<not> bit (id_msb k) 29" using entry_okD(1) [OF assms] stripped_bits [of k 29] by simp
    then show ?thesis by (intro bit_word_eqI) (auto simp: mask_bits)
  qed
  ultimately show ?thesis by simp
qed

lemma count_primary_tables [simp]:
  "gvas (count_primary a s) = gvas s" "refcnts (count_primary a s) = refcnts s"
  "migrating_objects (count_primary a s) = migrating_objects s" "next_id (count_primary a s) = next_id s"
  "locality (count_primary a s) = locality s"
  by (simp_all add: count_primary_def)

lemma gva_copy_count [simp]: "count (gva_copy g) = count g" "gva_type (gva_copy g) = gva_type g"
  by (simp_all add: gva_copy_def)

lemma bind_gid_fresh:
  assumes "table_ok (gvas s)" "fits (gvas s) (stripped gid, gva_copy g, gid_copy loc)"
    "gva_type g \<noteq> component_invalid"
  shows "bind_gid g gid loc s = ((count_primary api_bind_gid s)\<lparr>gvas :=
    fst (map_insert gid_less (gvas s) (stripped gid) (gva_copy g, gid_copy loc))\<rparr>, Inr True)"
proof -
  let ?k = "stripped gid"
  note none = fits_absent [OF assms(1,2), unfolded fst_conv]
  have e: "entry_ok (?k, g, gid_copy loc)" using assms(2) by (simp add: fits_def)
  have ins: "bind_gid_insert g ?k loc (count_primary api_bind_gid s) =
      ((count_primary api_bind_gid s)\<lparr>gvas :=
        fst (map_insert gid_less (gvas s) ?k (gva_copy g, gid_copy loc))\<rparr>, Inr True)"
    using upper_bound_msb [OF e] assms(3) gid_order.insert_fresh [OF none]
    by (simp add: bind_gid_insert_def Let_def case_prod_beta)
  have keys: "\<not> gid_eq (fst x) ?k" if "map_lower_bound gid_less (gvas s) ?k = x # xs" for x xs
    using that none map_lower_bound_not_less [OF that]
    by (auto simp: map_find_def gid_eq_equiv [symmetric] equiv_keys_def split: if_splits)
  show ?thesis
  proof (cases "map_lower_bound gid_less (gvas s) ?k")
    case Nil
    then have "gvas s = map_before gid_less (gvas s) ?k" using map_split [of gid_less "gvas s" ?k] by simp
    then show ?thesis using Nil ins not_covered [OF assms(1,2)] by (auto simp: bind_gid_def Let_def)
  next
    case (Cons x xs)
    obtain k a l where x: "x = (k, a, l)" by (cases x)
    show ?thesis
      using Cons x keys [OF Cons] ins not_covered [OF assms(1,2)] by (auto simp: bind_gid_def Let_def)
  qed
qed

lemma map_find_key:
  assumes "table_ok t" "(k, v) \<in> set t" "gid_eq k i"
  shows "map_find gid_less t i = Some (k, v)"
  using assms by (simp add: gid_order.find_iff [OF table_ok_sorted [OF assms(1)]] gid_eq_equiv)

lemma lower_bound_found:
  "map_find lt m k = Some e \<Longrightarrow> \<exists>es. map_lower_bound lt m k = e # es"
  by (auto simp: map_find_def split: list.splits if_splits)

text \<open>Binding inside an existing range, or under an existing key.\<close>

lemma bind_gid_contained:
  assumes "table_ok (gvas s)" "e \<in> set (gvas s)" "in_range e gid" "\<not> gid_eq (fst e) gid"
  shows "bind_gid g gid loc s = (count_primary api_bind_gid s, Inl bad_parameter)"
proof -
  let ?t = "gvas s" and ?i = "stripped gid"
  let ?b = "map_before gid_less ?t ?i" and ?l = "map_lower_bound gid_less ?t ?i"
  have er: "in_range e ?i" "entry_ok e" using assms by (cases e; auto simp: table_ok_def)+
  have none: "map_find gid_less ?t ?i = None"
  proof (rule ccontr)
    assume "map_find gid_less ?t ?i \<noteq> None"
    then obtain x where f: "map_find gid_less ?t ?i = Some x" by blast
    have x: "x \<in> set ?t" "gid_eq (fst x) ?i"
      using gid_order.find_SomeD [OF f] by (simp_all add: gid_eq_equiv)
    then have "in_range x gid" using in_range_self table_okD [OF assms(1)] gid_eq_stripped by blast
    then have "x = e" using table_ok_unique [OF assms(1) x(1) assms(2)] assms(3) by blast
    with x(2) assms(4) show False by simp
  qed
  have "e \<notin> set ?l"
    using gid_order.lower_bound_greater [OF table_ok_sorted [OF assms(1)] none] less_not_in_range er by blast
  then have eb: "e \<in> set ?b" using assms(2) map_split [of gid_less ?t ?i] by (metis Un_iff set_append)
  then have ne: "?b \<noteq> []" by auto
  have "table_ok ?b" using assms(1) map_split [of gid_less ?t ?i]
    by (metis (no_types, lifting) Un_iff set_append sorted_wrt_append table_ok_def)
  moreover from ne obtain ps p where b: "?b = ps @ [p]" by (metis append_butlast_last_id)
  ultimately have "resolve_in_previous ?b ?i = Inr (resolve_spec ?b gid)"
    using resolve_in_previous_spec [of ps p gid] map_before_less [of p gid_less ?t ?i] by simp
  moreover have "resolve_spec ?b gid = e" using \<open>table_ok ?b\<close> eb assms(3) by (rule resolve_spec_found)
  moreover have "e \<noteq> unresolved" using er(2) by (auto simp: unresolved_def gva_default_def)
  ultimately have cov: "covered_by_previous ?b ?i"
    by (auto simp: resolve_in_previous_def covered_by_previous_def split: prod.splits if_splits)
  have keys: "\<not> gid_eq (fst x) ?i" if "?l = x # xs" for x xs
    using that none map_lower_bound_not_less [OF that]
    by (auto simp: map_find_def gid_eq_equiv [symmetric] equiv_keys_def split: if_splits)
  have "?t \<noteq> []" using assms(2) by auto
  then show ?thesis using cov ne keys by (cases ?l) (auto simp: bind_gid_def Let_def)
qed

definition rebound :: "gva \<Rightarrow> gva \<Rightarrow> gva" where
  "rebound old new = old\<lparr>prefix := gid_copy (prefix new), gva_type := gva_type new,
     gva_base := gva_base new, offset := offset new\<rparr>"

lemma bind_gid_existing:
  assumes "table_ok (gvas s)" "(k, a, l) \<in> set (gvas s)" "gid_eq k gid"
  shows "bind_gid g gid loc s =
    (if count a \<noteq> count g \<or> gva_type g = component_invalid \<or> \<not> gid_to_bool loc
     then (count_primary api_bind_gid s, Inl bad_parameter)
     else ((count_primary api_bind_gid s)\<lparr>gvas :=
            map_assign gid_less (gvas s) (stripped gid) (rebound a g, gid_copy loc)\<rparr>, Inr False))"
proof -
  have f: "map_find gid_less (gvas s) (stripped gid) = Some (k, a, l)"
    using map_find_key [OF assms(1,2), of "stripped gid"] assms(3) by simp
  obtain es where "map_lower_bound gid_less (gvas s) (stripped gid) = (k, a, l) # es"
    using lower_bound_found [OF f] by auto
  then show ?thesis using assms(3) by (auto simp: bind_gid_def Let_def rebound_def)
qed

lemma unbind_gid_found:
  assumes "table_ok (gvas s)" "(k, a, l) \<in> set (gvas s)" "gid_eq k gid"
  shows "unbind_gid cnt gid s =
    (if count a \<noteq> cnt then (count_primary api_unbind_gid s, Inl bad_parameter)
     else ((count_primary api_unbind_gid s)\<lparr>gvas := map_erase gid_less (gvas s) (stripped gid)\<rparr>,
           Inr (mk_address (prefix a) (gva_type a) (gva_base a))))"
  using map_find_key [OF assms(1,2), of "stripped gid"] assms(3) by (simp add: unbind_gid_def Let_def)

lemma sorted_wrt_erase: "sorted_wrt P t \<Longrightarrow> sorted_wrt P (map_erase lt t k)"
proof -
  assume "sorted_wrt P t"
  then have s: "sorted_wrt P (map_before lt t k @ map_lower_bound lt t k)" by (simp add: map_split)
  show ?thesis
  proof (cases "map_lower_bound lt t k")
    case (Cons e es)
    then have "sorted_wrt P (map_before lt t k @ es)" using s by (auto simp: sorted_wrt_append)
    with Cons \<open>sorted_wrt P t\<close> show ?thesis by (simp add: map_erase_def split: option.split)
  qed (use \<open>sorted_wrt P t\<close> in \<open>simp add: map_erase_def map_find_def\<close>)
qed

lemma erase_range:
  assumes "table_ok t" "(k, a, l) \<in> set t" "gid_eq k gid"
  shows "table_ok (map_erase gid_less t (stripped gid))"
    and "resolve_spec (map_erase gid_less t (stripped gid)) i =
      (if in_range (k, a, l) i then unresolved else resolve_spec t i)"
proof -
  let ?t' = "map_erase gid_less t (stripped gid)"
  have "x = (k, a, l)" if "x \<in> set t" "gid_eq (fst x) gid" for x
  proof -
    have "gid_eq k (fst x)" using that(2) assms(3) gid_eq_sym gid_eq_trans by blast
    then have "in_range (k, a, l) (fst x)" using in_range_key [OF table_okD [OF assms(1,2)]] by blast
    moreover have "in_range x (fst x)" using in_range_self [OF table_okD [OF assms(1) that(1)]] by simp
    ultimately show ?thesis using table_ok_unique [OF assms(1) that(1) assms(2)] by blast
  qed
  moreover have "(k, a, l) \<in> {x \<in> set t. gid_eq (fst x) gid}" using assms(2,3) by simp
  ultimately have u: "{x \<in> set t. gid_eq (fst x) gid} = {(k, a, l)}" by blast
  have "set ?t' = {e \<in> set t. \<not> gid_eq (fst e) gid}"
    using gid_order.set_erase [OF table_ok_sorted [OF assms(1)], of "stripped gid"]
    by (simp add: gid_eq_equiv)
  with u have set: "set ?t' = set t - {(k, a, l)}" by blast
  show ok: "table_ok ?t'" using assms(1) set sorted_wrt_erase by (auto simp: table_ok_def)
  show "resolve_spec ?t' i = (if in_range (k, a, l) i then unresolved else resolve_spec t i)"
  proof (cases "in_range (k, a, l) i")
    case True
    then have "\<forall>e \<in> set ?t'. \<not> in_range e i" using table_ok_unique [OF assms(1) _ assms(2)] set by blast
    with True show ?thesis by (simp add: resolve_spec_none)
  next
    case False
    show ?thesis
    proof (rule resolve_spec_cases [OF assms(1), of i])
      fix e assume e: "e \<in> set t" "in_range e i" "resolve_spec t i = e"
      have "e \<noteq> (k, a, l)" using e(2) False by metis
      then have "e \<in> set ?t'" using set e(1) by simp
      then have "resolve_spec ?t' i = e" by (rule resolve_spec_found [OF ok _ e(2)])
      with e(3) show ?thesis by (simp only: if_not_P [OF False])
    next
      assume n: "\<forall>e \<in> set t. \<not> in_range e i" "resolve_spec t i = unresolved"
      then have "resolve_spec ?t' i = unresolved" using set by (intro resolve_spec_none) blast
      with n(2) show ?thesis by (simp only: if_not_P [OF False])
    qed
  qed
qed

section \<open>A concrete table\<close>

definition example_key :: "u64 \<Rightarrow> gid_type" where
  "example_key l = \<lparr>id_msb = 0x100000001, id_lsb = l\<rparr>"

definition example_gva :: "u64 \<Rightarrow> u64 \<Rightarrow> gva" where
  "example_gva cnt a = \<lparr>prefix = \<lparr>id_msb = 0x100000000, id_lsb = 0\<rparr>, gva_type = 17, count = cnt,
     gva_base = a, offset = 8\<rparr>"

definition example_locality :: gid_type where
  "example_locality = \<lparr>id_msb = 0x100000000, id_lsb = 0\<rparr>"

definition example_primary :: primary_namespace where
  "example_primary = \<lparr>gvas = [(example_key 16, example_gva 4 0x1000, example_locality)], refcnts = [],
     next_id = example_key 0x1000, locality = example_locality, migrating_objects = [],
     primary_counters = no_counts\<rparr>"

lemmas example_defs = example_key_def example_gva_def example_locality_def example_primary_def
lemmas mask_defs = credit_base_mask_def credit_shift_def credit_mask_def was_split_mask_def
  has_credits_mask_def is_locked_mask_def locality_id_mask_def locality_id_shift_def
  virtual_memory_mask_def dont_cache_mask_def credit_bits_mask_def internal_bits_mask_def
  special_bits_mask_def

lemma example_stripped [simp]: "stripped (example_key l) = example_key l"
  by (simp add: example_key_def gid_copy_def strip_lock_from_msb_def strip_internal_bits_from_gid_def
      strip_internal_bits_from_msb_def mask_defs)

lemma example_primary_ok: "table_ok (gvas example_primary)"
  by (simp add: table_ok_def example_primary_def) (simp add: example_defs)

section \<open>Properties\<close>

text \<open>C5: Resolution is correct: on a table of valid, non-overlapping ranges the search by lower bound
  never fails and returns the entry whose range contains the gid, or the invalid triple when no
  range does.\<close>

theorem resolve_gid_locked_correct:
  assumes "table_ok t"
  shows "resolve_gid_locked t i = Inr (resolve_spec t i) \<and>
    (\<forall>e \<in> set t. in_range e i \<longrightarrow> resolve_gid_locked t i = Inr e) \<and>
    ((\<forall>e \<in> set t. \<not> in_range e i) \<longrightarrow> resolve_gid_locked t i = Inr unresolved)"
  unfolding resolve_gid_locked_spec [OF assms]
  using resolve_spec_found [OF assms] resolve_spec_none by blast

theorem resolve_gid_locked_correct_witness:
  "resolve_gid_locked (gvas example_primary) (example_key 18) =
     Inr (example_key 16, example_gva 4 0x1000, example_locality)"
proof -
  have "(example_key 16, example_gva 4 0x1000, example_locality) \<in> set (gvas example_primary)"
    by (simp add: example_primary_def)
  moreover have "in_range (example_key 16, example_gva 4 0x1000, example_locality) (example_key 18)"
    by simp (simp add: example_defs)
  ultimately show ?thesis
    using resolve_gid_locked_correct [OF example_primary_ok, of "example_key 18"] by blast
qed

text \<open>C6: Binding a range of gids that overlaps no bound range succeeds, keeps the table well formed,
  and afterwards every gid of the range resolves to the new address while every other gid
  resolves as before.\<close>

theorem bind_gid_resolves:
  fixes g :: gva
  assumes "table_ok (gvas s)" "gva_type g \<noteq> component_invalid"
    "fits (gvas s) (stripped gid, gva_copy g, gid_copy loc)"
  shows "\<exists>s'. bind_gid g gid loc s = (s', Inr True) \<and> table_ok (gvas s') \<and> refcnts s' = refcnts s \<and>
    (\<forall>i. resolve_gid_locked (gvas s') i = Inr
      (if in_range (stripped gid, gva_copy g, gid_copy loc) i
       then (stripped gid, gva_copy g, gid_copy loc) else resolve_spec (gvas s) i))"
  using bind_gid_fresh [OF assms(1,3,2)] fits_insert [OF assms(1,3)] resolve_gid_locked_spec by simp

theorem bind_gid_resolves_witness:
  "\<exists>s'. bind_gid (example_gva 8 0x2000) (example_key 20) example_locality example_primary = (s', Inr True) \<and>
    table_ok (gvas s') \<and> resolve_gid_locked (gvas s') (example_key 18) =
      Inr (example_key 16, example_gva 4 0x1000, example_locality)"
proof -
  have f: "fits (gvas example_primary) (stripped (example_key 20), gva_copy (example_gva 8 0x2000), gid_copy example_locality)"
    by (simp add: fits_def example_primary_def) (simp add: example_defs)
  have t: "gva_type (example_gva 8 0x2000) \<noteq> component_invalid"
    by (simp add: example_gva_def component_invalid_def)
  have n: "\<not> in_range (stripped (example_key 20), gva_copy (example_gva 8 0x2000), gid_copy example_locality) (example_key 18)"
    by simp (simp add: example_key_def)
  have o: "resolve_spec (gvas example_primary) (example_key 18) = (example_key 16, example_gva 4 0x1000, example_locality)"
    by (simp add: resolve_spec_def example_primary_def) (simp add: example_defs)
  show ?thesis
    using bind_gid_resolves [OF example_primary_ok t f]
    by (elim exE conjE, intro exI conjI) (assumption, assumption, simp only: if_not_P [OF n] o)
qed

text \<open>A gid inside a bound range (but not its first) cannot be bound again: the request fails with
  \<open>bad_parameter\<close> and leaves the table as it was. A bound first gid can be rebound only with the
  same block size, a valid type and a valid locality.\<close>

lemma bind_gid_rejects:
  assumes "table_ok (gvas s)" "(k, a, l) \<in> set (gvas s)"
    "in_range (k, a, l) gid \<and> \<not> gid_eq k gid \<or>
     gid_eq k gid \<and> (count a \<noteq> count g \<or> gva_type g = component_invalid \<or> \<not> gid_to_bool loc)"
  shows "bind_gid g gid loc s = (count_primary api_bind_gid s, Inl bad_parameter)"
  using assms(3)
proof
  assume "in_range (k, a, l) gid \<and> \<not> gid_eq k gid"
  then show ?thesis by (intro bind_gid_contained [OF assms(1,2)]) (simp_all only: fst_conv simp_thms)
next
  assume "gid_eq k gid \<and> (count a \<noteq> count g \<or> gva_type g = component_invalid \<or> \<not> gid_to_bool loc)"
  then show ?thesis using bind_gid_existing [OF assms(1,2), of gid g loc] by simp
qed

text \<open>Unbinding a range with its block size returns the address it was bound to; afterwards none of
  its gids resolves and every other gid resolves as before. A wrong block size is an error that
  leaves the table as it was.\<close>

lemma unbind_gid_removes:
  assumes "table_ok (gvas s)" "(k, a, l) \<in> set (gvas s)" "gid_eq k gid"
  shows "\<exists>s'. unbind_gid (count a) gid s =
      (s', Inr (mk_address (prefix a) (gva_type a) (gva_base a))) \<and> table_ok (gvas s') \<and>
    (\<forall>i. resolve_gid_locked (gvas s') i =
      Inr (if in_range (k, a, l) i then unresolved else resolve_spec (gvas s) i)) \<and>
    (\<forall>cnt. cnt \<noteq> count a \<longrightarrow>
      unbind_gid cnt gid s = (count_primary api_unbind_gid s, Inl bad_parameter))"
proof -
  define s' where "s' = (count_primary api_unbind_gid s)\<lparr>gvas := map_erase gid_less (gvas s) (stripped gid)\<rparr>"
  have g: "gvas s' = map_erase gid_less (gvas s) (stripped gid)" by (simp add: s'_def)
  have "unbind_gid (count a) gid s = (s', Inr (mk_address (prefix a) (gva_type a) (gva_base a)))"
    by (simp add: unbind_gid_found [OF assms] s'_def)
  moreover have "resolve_gid_locked (gvas s') i =
      Inr (if in_range (k, a, l) i then unresolved else resolve_spec (gvas s) i)" for i
    unfolding g resolve_gid_locked_spec [OF erase_range(1) [OF assms]] erase_range(2) [OF assms] by (rule refl)
  ultimately show ?thesis
    using erase_range(1) [OF assms] unbind_gid_found [OF assms] g by (intro exI [of _ s']) auto
qed

text \<open>
  The range check of \<open>bind_gid\<close> looks only at the entry before the new gid: a range that reaches
  over a following entry is accepted, and its gids behind that entry do not resolve.
\<close>

theorem bind_gid_accepts_overlap:
  "\<exists>s'. bind_gid (example_gva 64 0x2000) (example_key 8) example_locality example_primary = (s', Inr True) \<and>
     resolve_gid_locked (gvas s') (example_key 40) = Inr unresolved \<and>
     in_range (example_key 8, example_gva 64 0x2000, example_locality) (example_key 40)"
proof -
  define t where "t = [(example_key 8, example_gva 64 0x2000, example_locality),
    (example_key 16, example_gva 4 0x1000, example_locality)]"
  have less: "gid_less (example_key a) (example_key b) \<longleftrightarrow> a < b" for a b
    by (simp add: gid_less_stripped word_less_nat_alt) (simp add: example_key_def)
  have eq: "gid_eq (example_key a) (example_key b) \<longleftrightarrow> a = b" for a b
    by (simp add: gid_eq_stripped_iff) (simp add: example_key_def)
  have add: "gid_add_u64 (example_key a) b = example_key (a + b)" if "unat a + unat b < 2 ^ 64" for a b
    using that by (subst gid_add_u64_no_carry)
      (simp_all add: example_key_def mk_gid_def strip_lock_from_msb_def is_locked_mask_def)
  have c: "gva_copy (example_gva a b) = example_gva a b" "gid_copy example_locality = example_locality" for a b
    by (simp_all add: gva_copy_def example_defs gid_copy_def strip_lock_from_msb_def is_locked_mask_def)
  have cnt: "count (example_gva a b) = a" "gva_type (example_gva a b) = 17" for a b
    by (simp_all add: example_gva_def)
  have "bind_gid (example_gva 64 0x2000) (example_key 8) example_locality example_primary =
      ((count_primary api_bind_gid example_primary)\<lparr>gvas := t\<rparr>, Inr True)"
    by (simp add: bind_gid_def bind_gid_insert_def example_primary_def count_primary_def Let_def less eq add cnt
        map_lower_bound_def map_before_def map_insert_def map_find_def c t_def component_invalid_def)
      (simp add: example_key_def)
  moreover have "resolve_gid_locked t (example_key 40) = Inr unresolved"
    by (simp add: resolve_gid_locked_def t_def map_lower_bound_def map_before_def less eq Let_def
        resolve_in_previous_def gid_greater_iff add cnt)
  moreover have "in_range (example_key 8, example_gva 64 0x2000, example_locality) (example_key 40)"
    by simp (simp add: example_defs)
  ultimately show ?thesis by (intro exI [of _ "(count_primary api_bind_gid example_primary)\<lparr>gvas := t\<rparr>"]) simp
qed

end
