(* ===== verification/Primary_Allocate.thy ===== *)
theory Primary_Allocate
  imports Primary_Ranges
begin

text \<open>
  Allocation of gids by the primary namespace: as long as the 23 bits of the upper word that
  extend the lower one are not used up, and calls do not overlap, \<open>allocate\<close> hands out a block of the requested size
  above everything handed out before, with the full initial credit. Overlapping calls can hand out the same gids.
\<close>

section \<open>The upper word\<close>

text \<open>The part of the upper word that counts blocks of \<open>2 ^ 64\<close> gids.\<close>

definition vm_part :: "u64 \<Rightarrow> nat" where
  "vm_part m = unat (m AND virtual_memory_mask)"

lemma vm_part_mod: "vm_part m = unat m mod 2 ^ 23"
proof -
  have v: "virtual_memory_mask = mask 23" by (simp add: virtual_memory_mask_def mask_eq_exp_minus_1)
  have "unat (m AND mask 23) = take_bit 23 (unat m)"
    by (simp flip: take_bit_eq_mask add: unsigned_take_bit_eq)
  then show ?thesis unfolding vm_part_def v take_bit_nat_def .
qed

lemma vm_exhausted_iff: "m AND virtual_memory_mask = virtual_memory_mask \<longleftrightarrow> vm_part m = 2 ^ 23 - 1"
  by (simp add: vm_part_def word_unat_eq_iff virtual_memory_mask_def)

lemma block_bound: "a < 2 ^ 41 \<Longrightarrow> b + 1 < 2 ^ 23 \<Longrightarrow> 2 ^ 23 * a + b + 1 < (2 ^ 64 :: nat)"
  by simp

lemma msb_increment:
  assumes "vm_part m + 1 < 2 ^ 23"
  shows "unat (m + 1) = unat m + 1" "vm_part (m + 1) = vm_part m + 1"
    "drop_bit 23 (m + 1) = drop_bit 23 m"
proof -
  have lt: "unat m < 2 ^ 64" using unsigned_less [of m] by simp
  have q: "unat m = 2 ^ 23 * (unat m div 2 ^ 23) + unat m mod 2 ^ 23" by simp
  have d: "unat m div 2 ^ 23 < 2 ^ 41" using lt by (simp add: less_mult_imp_div_less)
  have r: "unat m mod 2 ^ 23 + 1 < 2 ^ 23" using assms by (simp add: vm_part_mod)
  have "unat m + 1 < 2 ^ 64" using block_bound [OF d r] q by (simp only: mult_div_mod_eq)
  then show u: "unat (m + 1) = unat m + 1" by (simp add: unat_word_ariths)
  have "(unat m + 1) mod 2 ^ 23 = unat m mod 2 ^ 23 + 1" "(unat m + 1) div 2 ^ 23 = unat m div 2 ^ 23"
    using r by (simp_all add: mod_Suc div_Suc)
  then show "vm_part (m + 1) = vm_part m + 1" by (simp add: vm_part_mod u)
  show "drop_bit 23 (m + 1) = drop_bit 23 m"
    using \<open>(unat m + 1) div 2 ^ 23 = unat m div 2 ^ 23\<close>
    by (intro word_unat_eq_iff [THEN iffD2]) (simp add: drop_bit_eq_div unat_div u)
qed

lemma clean_iff: "id_msb (stripped g) = id_msb g \<longleftrightarrow> (\<forall>n. 23 \<le> n \<and> n < 32 \<longrightarrow> \<not> bit (id_msb g) n)"
  by (auto simp: bit_eq_iff [of "id_msb (stripped g)"] stripped_bits dest: bit_imp_less_64)

text \<open>An allocator position: no internal bits.\<close>

definition clean :: "gid_type \<Rightarrow> bool" where
  "clean g \<longleftrightarrow> stripped g = g"

lemma clean_msb: "clean g \<longleftrightarrow> id_msb (stripped g) = id_msb g"
  unfolding clean_def by (auto intro: gid_type.equality)

lemma clean_copy: "clean g \<Longrightarrow> gid_copy g = g"
  unfolding clean_msb clean_iff by (rule gid_copy_unlocked) (simp add: flag_bits(1))

lemma clean_mk: "clean (mk_gid m l) \<longleftrightarrow> (\<forall>n. 23 \<le> n \<and> n < 32 \<and> n \<noteq> 29 \<longrightarrow> \<not> bit m n)"
  unfolding clean_msb clean_iff by (auto simp: mask_bits)

lemma clean_step:
  assumes "clean g" "vm_part (id_msb g) + 1 < 2 ^ 23"
  shows "clean (mk_gid (id_msb g + 1) l)" "id_msb (mk_gid (id_msb g + 1) l) = id_msb g + 1"
    "id_msb (mk_gid (id_msb g) l) = id_msb g" "clean (mk_gid (id_msb g) l)"
proof -
  have hi: "bit (id_msb g + 1) n \<longleftrightarrow> bit (id_msb g) n" if "23 \<le> n" for n
    using arg_cong [OF msb_increment(3) [OF assms(2)], of "\<lambda>w. bit w (n - 23)"] that
    by (simp add: bit_drop_bit_eq)
  have c: "\<not> bit (id_msb g) n" if "23 \<le> n" "n < 32" for n using assms(1) that unfolding clean_msb clean_iff by blast
  show "clean (mk_gid (id_msb g + 1) l)" "clean (mk_gid (id_msb g) l)" unfolding clean_mk using hi c by auto
  show "id_msb (mk_gid (id_msb g + 1) l) = id_msb g + 1"
    by (rule bit_word_eqI) (use hi [of 29] c [of 29] in \<open>auto simp: mask_bits\<close>)
  show "id_msb (mk_gid (id_msb g) l) = id_msb g" by (rule bit_word_eqI) (use c [of 29] in \<open>auto simp: mask_bits\<close>)
qed

section \<open>One allocation\<close>

lemma gid_add_u64_carry:
  assumes "2 ^ 64 \<le> unat (id_lsb g) + unat n"
  shows "gid_add_u64 g n = mk_gid (id_msb g + 1) (id_lsb g + n)"
proof -
  have "int (2 ^ 64) \<le> int (unat (id_lsb g) + unat n)" using assms by (simp only: of_nat_le_iff)
  then have "2 ^ 64 \<le> uint (id_lsb g) + uint n" by simp
  moreover have "id_msb (mk_gid 0 n) = 0" by (simp add: mk_gid_def strip_lock_from_msb_def)
  ultimately show ?thesis
    using word_add_carry(1) [of "id_lsb g" n] by (simp add: gid_add_u64_def gid_sum_def Let_def)
qed

text \<open>The block \<open>allocate\<close> chooses, before the credit is filled in.\<close>

definition next_block :: "gid_type \<Rightarrow> u64 \<Rightarrow> gid_type \<Rightarrow> gid_type \<Rightarrow> bool" where
  "next_block old cnt lower upper \<longleftrightarrow> clean lower \<and> clean upper \<and> id_msb lower = id_msb upper \<and>
     unat (id_lsb upper) + 1 = unat (id_lsb lower) + unat cnt \<and>
     (id_msb lower = id_msb old \<and> unat (id_lsb lower) = unat (id_lsb old) + 1 \<or>
      id_msb lower = id_msb old + 1 \<and> id_lsb lower = 0)"

lemma next_block_same:
  assumes "clean old" "vm_part (id_msb old) + 1 < 2 ^ 23" "cnt \<noteq> 0"
    and "unat (id_lsb old) + unat cnt < 2 ^ 64"
  defines "lower \<equiv> gid_add_u64 old 1" defines "upper \<equiv> gid_add_u64 lower (cnt - 1)"
  shows "next_block old cnt lower upper" "id_msb upper = id_msb lower"
proof -
  have c: "0 < unat cnt" "unat (cnt - 1) = unat cnt - 1" using assms(3) by (simp_all add: unat_gt_0 unat_minus_one)
  have l: "lower = mk_gid (id_msb old) (id_lsb old + 1)"
    unfolding lower_def using assms(4) c by (intro gid_add_u64_no_carry) simp
  have ul: "unat (id_lsb lower) = unat (id_lsb old) + 1" unfolding l using assms(4) c by (simp add: unat_word_ariths)
  have u: "upper = mk_gid (id_msb lower) (id_lsb lower + (cnt - 1))"
    unfolding upper_def using assms(4) c ul by (intro gid_add_u64_no_carry) simp
  have uu: "unat (id_lsb upper) = unat (id_lsb lower) + (unat cnt - 1)"
    unfolding u using assms(4) c ul by (simp add: unat_word_ariths)
  note st = clean_step [OF assms(1,2)]
  have ml: "id_msb lower = id_msb old" unfolding l by (rule st(3))
  show "id_msb upper = id_msb lower" unfolding u ml by (rule st(3))
  then show "next_block old cnt lower upper"
    unfolding next_block_def using ml ul uu c st(4) l u by (simp add: ml)
qed

lemma next_block_wraps:
  assumes "clean old" "vm_part (id_msb old) + 1 < 2 ^ 23" "cnt \<noteq> 0"
  defines "lower \<equiv> mk_gid (id_msb old + 1) 0" defines "upper \<equiv> gid_add_u64 lower (cnt - 1)"
  shows "next_block old cnt lower upper" "id_msb upper = id_msb lower"
proof -
  have c: "0 < unat cnt" "unat (cnt - 1) = unat cnt - 1" "unat cnt < 2 ^ 64"
    using assms(3) unsigned_less [of cnt] by (simp_all add: unat_gt_0 unat_minus_one)
  have ml: "id_msb lower = id_msb old + 1" unfolding lower_def by (rule clean_step(2) [OF assms(1,2)])
  have u: "upper = mk_gid (id_msb lower) (cnt - 1)"
    unfolding upper_def using c by (subst gid_add_u64_no_carry) (simp_all add: lower_def)
  have mu: "id_msb upper = id_msb old + 1" unfolding u ml by (rule clean_step(2) [OF assms(1,2)])
  then show "id_msb upper = id_msb lower" by (simp only: ml)
  have "clean lower" "clean upper"
    unfolding u ml unfolding lower_def by (rule clean_step(1) [OF assms(1,2)])+
  then show "next_block old cnt lower upper"
    unfolding next_block_def using ml mu c by (simp add: u lower_def)
qed

lemma set_credit_full:
  obtains g' where "set_credit_for_gid g HPX_GLOBALCREDIT_INITIAL = Some (Inr g')"
    "gid_credit g' = HPX_GLOBALCREDIT_INITIAL" "gid_eq g' g" "gid_is_locked g' \<longleftrightarrow> gid_is_locked g"
    "gid_was_split g' \<longleftrightarrow> gid_was_split g"
proof -
  have i: "HPX_GLOBALCREDIT_INITIAL = 2 ^ 31" by (simp add: HPX_GLOBALCREDIT_INITIAL_def)
  show ?thesis by (rule set_credit_power [of 31 g]) (use that in \<open>simp_all add: i\<close>)
qed

lemma allocate_phases:
  assumes "clean (next_id s)" "vm_part (id_msb (next_id s)) + 1 < 2 ^ 23" "cnt \<noteq> 0"
  obtains lower upper l u where "next_block (next_id s) cnt lower upper"
    "allocate_choose cnt (next_id s) = Inr (lower, upper)"
    "\<And>w. allocate_store (lower, upper) w = Some (w\<lparr>next_id := upper\<rparr>, Inr (l, u))"
    "gid_eq l lower" "gid_eq u upper" "gid_credit l = HPX_GLOBALCREDIT_INITIAL"
    "gid_credit u = HPX_GLOBALCREDIT_INITIAL" "\<not> gid_is_locked l" "\<not> gid_is_locked u"
proof -
  define lo0 where "lo0 = gid_add_u64 (next_id s) 1"
  define up0 where "up0 = gid_add_u64 lo0 (cnt - 1)"
  define lower where "lower = (if id_msb up0 \<noteq> id_msb lo0 then mk_gid (id_msb up0) 0 else lo0)"
  define upper where "upper = (if id_msb up0 \<noteq> id_msb lo0 then gid_add_u64 lower (cnt - 1) else up0)"
  have blk: "next_block (next_id s) cnt lower upper \<and>
      \<not> (id_msb up0 \<noteq> id_msb lo0 \<and> id_msb lo0 AND virtual_memory_mask = virtual_memory_mask)"
  proof (cases "unat (id_lsb (next_id s)) + unat cnt < 2 ^ 64")
    case True
    from next_block_same [OF assms True] show ?thesis
      by (simp add: lower_def upper_def lo0_def up0_def)
  next
    case big: False
    show ?thesis
    proof (cases "unat (id_lsb (next_id s)) + 1 < 2 ^ 64")
      case True
      have c: "unat (cnt - 1) = unat cnt - 1" "0 < unat cnt" using assms(3) by (simp_all add: unat_gt_0 unat_minus_one)
      have l: "lo0 = mk_gid (id_msb (next_id s)) (id_lsb (next_id s) + 1)"
        unfolding lo0_def using True by (intro gid_add_u64_no_carry) simp
      have ml: "id_msb lo0 = id_msb (next_id s)" unfolding l by (rule clean_step(3) [OF assms(1,2)])
      have "unat (id_lsb lo0) = unat (id_lsb (next_id s)) + 1" unfolding l using True by (simp add: unat_word_ariths)
      then have u: "up0 = mk_gid (id_msb lo0 + 1) (id_lsb lo0 + (cnt - 1))"
        unfolding up0_def using big c by (intro gid_add_u64_carry) simp
      have mu: "id_msb up0 = id_msb (next_id s) + 1" unfolding u ml by (rule clean_step(2) [OF assms(1,2)])
      have ne: "id_msb up0 \<noteq> id_msb lo0" using mu ml by simp
      have "\<not> (id_msb lo0 AND virtual_memory_mask = virtual_memory_mask)"
        unfolding vm_exhausted_iff ml using assms(2) by simp
      with ne show ?thesis
        using next_block_wraps(1) [OF assms] by (simp add: lower_def upper_def mu [symmetric] ne)
    next
      case False
      have m: "id_lsb (next_id s) + 1 = 0"
      proof -
        have "unat (id_lsb (next_id s)) < 2 ^ 64" using unsigned_less [of "id_lsb (next_id s)"] by simp
        with False have "unat (id_lsb (next_id s)) = 2 ^ 64 - 1" by simp
        then show ?thesis by (simp add: word_unat_eq_iff unat_word_ariths)
      qed
      have "lo0 = mk_gid (id_msb (next_id s) + 1) (id_lsb (next_id s) + 1)"
        unfolding lo0_def using False by (intro gid_add_u64_carry) simp
      then have l: "lo0 = mk_gid (id_msb (next_id s) + 1) 0" by (simp only: m)
      from next_block_wraps [OF assms] show ?thesis
        unfolding l [symmetric] by (simp add: lower_def upper_def up0_def)
    qed
  qed
  then have nb: "next_block (next_id s) cnt lower upper" by blast
  obtain l where l: "set_credit_for_gid lower HPX_GLOBALCREDIT_INITIAL = Some (Inr l)"
    "gid_credit l = HPX_GLOBALCREDIT_INITIAL" "gid_eq l lower" by (rule set_credit_full [of lower])
  obtain u where u: "set_credit_for_gid upper HPX_GLOBALCREDIT_INITIAL = Some (Inr u)"
    "gid_credit u = HPX_GLOBALCREDIT_INITIAL" "gid_eq u upper" by (rule set_credit_full [of upper])
  have cu: "gid_copy upper = upper"
    using nb by (intro clean_copy) (simp add: next_block_def)
  have ch: "allocate_choose cnt (next_id s) = Inr (lower, upper)"
    using conjunct2 [OF blk] assms(3) unfolding lower_def upper_def
    by (cases "id_msb up0 = id_msb lo0")
      (simp_all add: allocate_choose_def Let_def lo0_def [symmetric] up0_def [symmetric])
  have st: "allocate_store (lower, upper) w = Some (w\<lparr>next_id := upper\<rparr>, Inr (gid_copy l, gid_copy u))" for w
    using l(1) u(1) cu by (simp add: allocate_store_def)
  show ?thesis using that [OF nb ch st] l u by simp
qed

lemma allocate_block:
  assumes "clean (next_id s)" "vm_part (id_msb (next_id s)) + 1 < 2 ^ 23" "cnt \<noteq> 0"
  obtains lower upper l u where "next_block (next_id s) cnt lower upper"
    "allocate cnt s = Some ((count_primary api_allocate s)\<lparr>next_id := upper\<rparr>, Inr (l, u))"
    "gid_eq l lower" "gid_eq u upper" "gid_credit l = HPX_GLOBALCREDIT_INITIAL"
    "gid_credit u = HPX_GLOBALCREDIT_INITIAL" "\<not> gid_is_locked l" "\<not> gid_is_locked u"
proof (rule allocate_phases [OF assms])
  fix lower upper l u
  assume b: "next_block (next_id s) cnt lower upper" "allocate_choose cnt (next_id s) = Inr (lower, upper)"
    "\<And>w. allocate_store (lower, upper) w = Some (w\<lparr>next_id := upper\<rparr>, Inr (l, u))"
    "gid_eq l lower" "gid_eq u upper" "gid_credit l = HPX_GLOBALCREDIT_INITIAL"
    "gid_credit u = HPX_GLOBALCREDIT_INITIAL" "\<not> gid_is_locked l" "\<not> gid_is_locked u"
  have "allocate cnt s = Some ((count_primary api_allocate s)\<lparr>next_id := upper\<rparr>, Inr (l, u))"
    using b(2,3) assms(3) by (simp add: allocate_def count_primary_def)
  then show ?thesis using that b by blast
qed

section \<open>Sequences of allocations\<close>

lemma next_block_greater:
  assumes "next_block old cnt lower upper" "clean old" "vm_part (id_msb old) + 1 < 2 ^ 23" "cnt \<noteq> 0"
  shows "gid_less old lower" "\<not> gid_less upper lower"
    "vm_part (id_msb upper) \<le> vm_part (id_msb old) + 1" "drop_bit 23 (id_msb lower) = drop_bit 23 (id_msb old)"
proof -
  have c: "0 < unat cnt" using assms(4) by (simp add: unat_gt_0)
  have s: "id_msb (stripped old) = id_msb old" "id_msb (stripped lower) = id_msb lower"
    "id_msb (stripped upper) = id_msb upper"
    using assms(1,2) by (simp_all add: next_block_def clean_def)
  have lt: "id_msb old < id_msb old + 1"
    unfolding word_less_nat_alt using msb_increment(1) [OF assms(3)] by simp
  show "gid_less old lower" unfolding gid_less_stripped s using assms(1) lt by (auto simp: next_block_def)
  show "\<not> gid_less upper lower" unfolding gid_less_stripped s using assms(1) c by (auto simp: next_block_def)
  show "vm_part (id_msb upper) \<le> vm_part (id_msb old) + 1"
    "drop_bit 23 (id_msb lower) = drop_bit 23 (id_msb old)"
    using assms(1) msb_increment(2,3) [OF assms(3)] by (auto simp: next_block_def)
qed

primrec allocate_all :: "u64 list \<Rightarrow> primary_namespace \<Rightarrow> (gid_type \<times> gid_type) list option" where
  "allocate_all [] s = Some []"
| "allocate_all (c # cs) s =
     (case allocate c s of
        Some (s', Inr block) \<Rightarrow> map_option (Cons block) (allocate_all cs s')
      | _ \<Rightarrow> None)"

text \<open>A block of the given size, in one upper word, with full credit on both ends.\<close>

fun good_block :: "u32 \<Rightarrow> u64 \<Rightarrow> gid_type \<times> gid_type \<Rightarrow> bool" where
  "good_block loc cnt (l, u) \<longleftrightarrow> id_msb (stripped l) = id_msb (stripped u) \<and>
     unat (id_lsb u) + 1 = unat (id_lsb l) + unat cnt \<and> get_locality_id_from_gid l = loc \<and>
     gid_credit l = HPX_GLOBALCREDIT_INITIAL \<and> gid_credit u = HPX_GLOBALCREDIT_INITIAL"

lemma locality_cong:
  assumes "drop_bit 32 (id_msb (stripped g)) = drop_bit 32 (id_msb (stripped h))"
  shows "get_locality_id_from_gid g = get_locality_id_from_gid h"
proof -
  have "drop_bit 32 (id_msb (stripped g)) = drop_bit 32 (id_msb g)" for g :: gid_type
    by (rule bit_word_eqI) (auto simp: bit_drop_bit_eq stripped_bits)
  with assms have "drop_bit 32 (id_msb g) = drop_bit 32 (id_msb h)" by metis
  then show ?thesis
    by (simp add: get_locality_id_from_gid_def get_locality_id_from_msb_def locality_id_shift_def)
qed

lemma allocate_good:
  assumes "clean (next_id s)" "vm_part (id_msb (next_id s)) + 1 < 2 ^ 23" "cnt \<noteq> 0"
  obtains s' l u where "allocate cnt s = Some (s', Inr (l, u))" "gid_less (next_id s) l"
    "gid_eq (next_id s') u" "clean (next_id s')"
    "vm_part (id_msb (next_id s')) \<le> vm_part (id_msb (next_id s)) + 1"
    "good_block (get_locality_id_from_gid (next_id s)) cnt (l, u)"
    "get_locality_id_from_gid (next_id s') = get_locality_id_from_gid (next_id s)" "\<not> gid_less u l"
proof -
  obtain lower upper l u where b: "next_block (next_id s) cnt lower upper"
    "allocate cnt s = Some ((count_primary api_allocate s)\<lparr>next_id := upper\<rparr>, Inr (l, u))"
    "gid_eq l lower" "gid_eq u upper" "gid_credit l = HPX_GLOBALCREDIT_INITIAL"
    "gid_credit u = HPX_GLOBALCREDIT_INITIAL" by (rule allocate_block [OF assms])
  note n = next_block_greater [OF b(1) assms]
  have e: "id_msb (stripped l) = id_msb lower" "id_msb (stripped u) = id_msb upper"
    "id_lsb l = id_lsb lower" "id_lsb u = id_lsb upper" "id_msb lower = id_msb upper"
    "stripped lower = lower" "stripped upper = upper" "stripped (next_id s) = next_id s"
    using b(1,3,4) assms(1) by (simp_all add: gid_eq_stripped_iff next_block_def clean_def)
  have d: "drop_bit 32 (id_msb lower) = drop_bit 32 (id_msb (next_id s))"
    using arg_cong [OF n(4), of "drop_bit 9"] by simp
  have "get_locality_id_from_gid l = get_locality_id_from_gid (next_id s)"
    "get_locality_id_from_gid upper = get_locality_id_from_gid (next_id s)"
    using d e by (auto intro!: locality_cong)
  moreover have "gid_less (next_id s) l" "\<not> gid_less u l"
    using n(1,2) e unfolding gid_less_stripped by simp_all
  ultimately show ?thesis
    using that [of "(count_primary api_allocate s)\<lparr>next_id := upper\<rparr>" l u] b e n(3) gid_eq_sym [OF b(4)]
    by (simp add: next_block_def)
qed

lemma allocate_all_ok:
  assumes "clean (next_id s)" "vm_part (id_msb (next_id s)) + length cnts < 2 ^ 23" "0 \<notin> set cnts"
    "get_locality_id_from_gid (next_id s) = loc"
  shows "\<exists>bs. allocate_all cnts s = Some bs \<and> list_all2 (good_block loc) cnts bs \<and>
    sorted_wrt (\<lambda>a b. gid_less (snd a) (fst b)) bs \<and> (\<forall>b \<in> set bs. gid_less (next_id s) (fst b))"
  using assms
proof (induction cnts arbitrary: s)
  case (Cons c cs)
  have vm: "vm_part (id_msb (next_id s)) + 1 < 2 ^ 23" using Cons.prems(2) by simp
  have c0: "c \<noteq> 0" using Cons.prems(3) by auto
  obtain s' l u where a: "allocate c s = Some (s', Inr (l, u))" "gid_less (next_id s) l"
    "gid_eq (next_id s') u" "clean (next_id s')"
    "vm_part (id_msb (next_id s')) \<le> vm_part (id_msb (next_id s)) + 1"
    "good_block (get_locality_id_from_gid (next_id s)) c (l, u)"
    "get_locality_id_from_gid (next_id s') = get_locality_id_from_gid (next_id s)" "\<not> gid_less u l"
    by (rule allocate_good [OF Cons.prems(1) vm c0])
  have "vm_part (id_msb (next_id s')) + length cs < 2 ^ 23" using a(5) Cons.prems(2) by simp
  then obtain bs where bs: "allocate_all cs s' = Some bs" "list_all2 (good_block loc) cs bs"
    "sorted_wrt (\<lambda>a b. gid_less (snd a) (fst b)) bs" "\<forall>b \<in> set bs. gid_less (next_id s') (fst b)"
    using Cons.IH [OF a(4)] Cons.prems(3,4) a(7) by auto
  have u: "\<forall>b \<in> set bs. gid_less u (fst b)"
    using bs(4) a(3) gid_order.lt_equiv_left [of u "next_id s'"] by (simp add: gid_eq_equiv gid_eq_sym)
  have "gid_less (next_id s) x" if "gid_less u x" for x
    using that a(2,8) gid_less_linear [of u l] gid_order.lt_trans gid_order.lt_equiv_left
    by (metis gid_eq_equiv gid_eq_sym)
  then have "\<forall>b \<in> set bs. gid_less (next_id s) (fst b)" using u by blast
  with a bs u Cons.prems(4) show ?case by (intro exI [of _ "(l, u) # bs"]) auto
qed simp

text \<open>From the initial position of a locality every one of up to \<open>2 ^ 22\<close> requests is served.\<close>

lemma allocate_all_initial:
  assumes "length cnts < 2 ^ 22" "0 \<notin> set cnts"
  shows "\<exists>bs. allocate_all cnts (set_local_locality (get_gid_from_locality_id loc) primary_init) = Some bs \<and>
    list_all2 (good_block loc) cnts bs \<and> sorted_wrt (\<lambda>a b. gid_less (snd a) (fst b)) bs"
proof -
  define s where "s = set_local_locality (get_gid_from_locality_id loc) primary_init"
  let ?m = "id_msb (get_gid_from_locality_id loc)"
  have z: "\<not> bit ?m n" if "n < 32" for n using that by (simp add: get_locality_msb_bit)
  have v: "vm_part ?m = 0"
  proof -
    have "?m AND virtual_memory_mask = 0" by (rule bit_word_eqI) (auto simp: bit_and_iff mask_bits z)
    then show ?thesis by (simp add: vm_part_def)
  qed
  have g: "clean (get_gid_from_locality_id loc)" unfolding clean_msb clean_iff using z by simp
  have n: "next_id s = mk_gid (?m + 1) 0x1000" by (simp add: s_def set_local_locality_def)
  have vl: "vm_part ?m + 1 < 2 ^ 23" by (simp add: v)
  have "clean (next_id s)" unfolding n by (rule clean_step(1) [OF g vl])
  moreover have m: "id_msb (next_id s) = ?m + 1" unfolding n by (rule clean_step(2) [OF g vl])
  then have "vm_part (id_msb (next_id s)) + length cnts < 2 ^ 23"
    using msb_increment(2) [OF vl] v assms(1) by simp
  moreover have "get_locality_id_from_gid (next_id s) = loc"
  proof -
    have "drop_bit 32 (?m + 1) = drop_bit 32 ?m"
      using arg_cong [OF msb_increment(3) [OF vl], of "drop_bit 9"] by simp
    then have "get_locality_id_from_gid (next_id s) = get_locality_id_from_gid (get_gid_from_locality_id loc)"
      by (simp add: get_locality_id_from_gid_def get_locality_id_from_msb_def locality_id_shift_def m)
    then show ?thesis by (simp only: locality_roundtrip)
  qed
  ultimately show ?thesis using allocate_all_ok [of s cnts loc] assms(2) unfolding s_def by blast
qed

section \<open>Interleaved allocations\<close>

text \<open>
  Calls of \<open>allocate\<close> by several threads: a thread reads \<open>next_id_\<close> and chooses its block in one step and
  stores the end of the block in another one. \<open>None\<close> is a run the events do not describe (a thread that is in a call
  begins another one, or is not in a call and stores) or one in which the namespace is exhausted.
\<close>

datatype allocate_event = Read_next nat u64 | Store_next nat

record allocate_run =
  run_namespace :: primary_namespace
  run_pending :: "nat \<rightharpoonup> u64 \<times> gid_type \<times> gid_type"
  run_blocks :: "(u64 \<times> gid_type \<times> gid_type) list"

fun allocate_step :: "allocate_event \<Rightarrow> allocate_run \<Rightarrow> allocate_run option" where
  "allocate_step (Read_next t cnt) w =
     (let s = count_primary api_allocate (run_namespace w) in
      if run_pending w t \<noteq> None then None
      else if 0 = cnt
      then Some (w\<lparr>run_namespace := s, run_blocks := run_blocks w @ [(cnt, gid_copy (next_id s), gid_copy (next_id s))]\<rparr>)
      else case allocate_choose cnt (next_id s) of
             Inl e \<Rightarrow> None
           | Inr block \<Rightarrow> Some (w\<lparr>run_namespace := s, run_pending := (run_pending w)(t \<mapsto> (cnt, block))\<rparr>))"
| "allocate_step (Store_next t) w =
     (case run_pending w t of
        None \<Rightarrow> None
      | Some (cnt, block) \<Rightarrow>
          (case allocate_store block (run_namespace w) of
             Some (s, Inr got) \<Rightarrow>
               Some (w\<lparr>run_namespace := s, run_pending := (run_pending w)(t := None), run_blocks := run_blocks w @ [(cnt, got)]\<rparr>)
           | _ \<Rightarrow> None))"

fun allocate_steps :: "allocate_event list \<Rightarrow> allocate_run \<Rightarrow> allocate_run option" where
  "allocate_steps [] w = Some w"
| "allocate_steps (e # es) w = (case allocate_step e w of None \<Rightarrow> None | Some w \<Rightarrow> allocate_steps es w)"

definition allocate_start :: "u32 \<Rightarrow> allocate_run" where
  "allocate_start loc = \<lparr>run_namespace = set_local_locality (get_gid_from_locality_id loc) primary_init,
     run_pending = Map.empty, run_blocks = []\<rparr>"

text \<open>Runs in which a call begins only when the previous one has ended, and none asks for zero gids.\<close>

fun one_at_a_time :: "allocate_event list \<Rightarrow> bool" where
  "one_at_a_time [] = True"
| "one_at_a_time (Read_next t cnt # Store_next u # es) \<longleftrightarrow> cnt \<noteq> 0 \<and> t = u \<and> one_at_a_time es"
| "one_at_a_time _ = False"

fun requested :: "allocate_event list \<Rightarrow> u64 list" where
  "requested [] = []"
| "requested (Read_next t cnt # es) = cnt # requested es"
| "requested (Store_next t # es) = requested es"

lemma requested_facts: "one_at_a_time es \<Longrightarrow> 0 \<notin> set (requested es) \<and> length es = 2 * length (requested es)"
  by (induction es rule: one_at_a_time.induct) auto

lemma allocate_steps_sequential:
  "one_at_a_time es \<Longrightarrow> run_pending w = Map.empty \<Longrightarrow> allocate_all (requested es) (run_namespace w) = Some bs \<Longrightarrow>
     \<exists>w'. allocate_steps es w = Some w' \<and> run_pending w' = Map.empty \<and> run_blocks w' = run_blocks w @ zip (requested es) bs"
proof (induction es arbitrary: w bs rule: one_at_a_time.induct)
  case (2 t cnt u es)
  then obtain s1 b bs1 where a: "allocate cnt (run_namespace w) = Some (s1, Inr b)" "allocate_all (requested es) s1 = Some bs1"
    "bs = b # bs1" by (auto split: option.splits prod.splits sum.splits)
  obtain block where c: "allocate_choose cnt (next_id (count_primary api_allocate (run_namespace w))) = Inr block"
    "allocate_store block (count_primary api_allocate (run_namespace w)) = Some (s1, Inr b)"
    using a(1) 2(2) by (auto simp: allocate_def Let_def split: sum.splits)
  define w1 where "w1 = w\<lparr>run_namespace := s1, run_pending := Map.empty, run_blocks := run_blocks w @ [(cnt, b)]\<rparr>"
  have "allocate_steps (Read_next t cnt # Store_next u # es) w = allocate_steps es w1"
    using 2(2,3) c by (simp add: w1_def)
  moreover have "\<exists>w'. allocate_steps es w1 = Some w' \<and> run_pending w' = Map.empty \<and>
      run_blocks w' = run_blocks w1 @ zip (requested es) bs1"
    using 2(2,3) a(2) by (intro 2(1)) (simp_all add: w1_def)
  ultimately show ?case using a(3) by (auto simp: w1_def)
qed simp_all

text \<open>C7: The gids a locality allocates do not collide as long as no two calls of \<open>allocate\<close> overlap in time. Starting from
  the initial position of the locality, every one of fewer than \<open>2 ^ 22\<close> requests for one or more gids, made one after the other by
  any threads, is served, each with a block of exactly the requested size
  that belongs to the locality and starts with full credit, and each block lies above all the
  blocks handed out before it.\<close>

theorem allocations_disjoint:
  assumes "one_at_a_time es" "length (requested es) < 2 ^ 22"
  shows "\<exists>w. allocate_steps es (allocate_start loc) = Some w \<and> map fst (run_blocks w) = requested es \<and>
    (\<forall>(cnt, block) \<in> set (run_blocks w). good_block loc cnt block) \<and>
    sorted_wrt (\<lambda>a b. gid_less (snd (snd a)) (fst (snd b))) (run_blocks w)"
proof -
  obtain bs where bs: "allocate_all (requested es) (run_namespace (allocate_start loc)) = Some bs"
    "list_all2 (good_block loc) (requested es) bs" "sorted_wrt (\<lambda>a b. gid_less (snd a) (fst b)) bs"
    using allocate_all_initial [OF assms(2)] requested_facts [OF assms(1)] by (auto simp: allocate_start_def)
  obtain w where w: "allocate_steps es (allocate_start loc) = Some w" "run_blocks w = zip (requested es) bs"
    using allocate_steps_sequential [OF assms(1) _ bs(1)] by (auto simp: allocate_start_def)
  have len: "length bs = length (requested es)" using bs(2) by (simp add: list_all2_lengthD)
  have "\<forall>(cnt, block) \<in> set (run_blocks w). good_block loc cnt block"
    using bs(2) by (simp add: w(2) list_all2_iff)
  moreover have "sorted_wrt (\<lambda>a b. gid_less (snd (snd a)) (fst (snd b))) (run_blocks w)"
    using bs(3) len sorted_wrt_map [of "\<lambda>a b. gid_less (snd a) (fst b)" snd "run_blocks w"] by (simp add: w(2))
  ultimately show ?thesis using w len by simp
qed

theorem allocations_disjoint_witness:
  "\<exists>w. allocate_steps [Read_next 0 100, Store_next 0, Read_next 7 0xFFFFFFFFFFFFFFFF, Store_next 7, Read_next 0 7, Store_next 0]
      (allocate_start 3) = Some w \<and>
    map fst (run_blocks w) = [100, 0xFFFFFFFFFFFFFFFF, 7] \<and>
    sorted_wrt (\<lambda>a b. gid_less (snd (snd a)) (fst (snd b))) (run_blocks w)"
  using allocations_disjoint [of "[Read_next 0 100, Store_next 0, Read_next 7 0xFFFFFFFFFFFFFFFF, Store_next 7, Read_next 0 7, Store_next 0]" 3]
  by auto

text \<open>
  Nothing keeps calls from overlapping: \<open>unique_id_ranges::get_id\<close> releases its mutex before it calls. Two
  threads that both read \<open>next_id_\<close> before one of them stores get the same gids, with full credit for both.
\<close>

lemma overlapping_allocations_collide:
  assumes "clean (next_id s)" "vm_part (id_msb (next_id s)) + 1 < 2 ^ 23" "cnt \<noteq> 0"
  shows "\<exists>w l u. allocate_steps [Read_next 0 cnt, Read_next 1 cnt, Store_next 0, Store_next 1]
      \<lparr>run_namespace = s, run_pending = Map.empty, run_blocks = []\<rparr> = Some w \<and>
    run_blocks w = [(cnt, l, u), (cnt, l, u)] \<and> gid_credit l = HPX_GLOBALCREDIT_INITIAL"
proof (rule allocate_phases [OF assms])
  fix lower upper l u
  assume "allocate_choose cnt (next_id s) = Inr (lower, upper)"
    "\<And>w. allocate_store (lower, upper) w = Some (w\<lparr>next_id := upper\<rparr>, Inr (l, u))"
    "gid_credit l = HPX_GLOBALCREDIT_INITIAL"
  then show ?thesis using assms(3) by (simp add: count_primary_def)
qed

text \<open>
  The exhaustion check compares the upper words of the new block's ends, so it misses an
  allocator that stands on the very last gid: the carry goes into the internal bits, and the
  gid handed out compares equal to the gid of the locality itself.
\<close>

theorem allocate_misses_exhaustion:
  "\<exists>s l u. clean (next_id s) \<and> allocate 1 s = Some (s\<lparr>primary_counters := increment_count api_allocate (primary_counters s),
      next_id := mk_gid 0x100800000 0\<rparr>, Inr (l, u)) \<and>
    gid_eq l (get_gid_from_locality_id 0) \<and> gid_credit l = HPX_GLOBALCREDIT_INITIAL"
proof -
  define s where "s = primary_init\<lparr>next_id := \<lparr>id_msb = 0x1007fffff, id_lsb = 0xffffffffffffffff\<rparr>\<rparr>"
  have c: "clean (next_id s)"
    by (simp add: clean_def s_def gid_copy_def strip_lock_from_msb_def strip_internal_bits_from_gid_def
        strip_internal_bits_from_msb_def mask_defs)
  have add: "gid_add_u64 (next_id s) 1 = mk_gid 0x100800000 0" "gid_add_u64 (mk_gid 0x100800000 0) 0 = mk_gid 0x100800000 0"
    by (simp_all add: s_def gid_add_u64_def gid_sum_def mk_gid_def strip_lock_from_msb_def is_locked_mask_def)
  obtain l where l: "set_credit_for_gid (mk_gid 0x100800000 0) HPX_GLOBALCREDIT_INITIAL = Some (Inr l)"
    "gid_credit l = HPX_GLOBALCREDIT_INITIAL" "gid_eq l (mk_gid 0x100800000 0)"
    by (rule set_credit_full [of "mk_gid 0x100800000 0"])
  have "allocate 1 s = Some (s\<lparr>primary_counters := increment_count api_allocate (primary_counters s),
      next_id := mk_gid 0x100800000 0\<rparr>, Inr (gid_copy l, gid_copy l))"
    by (simp add: allocate_def allocate_choose_def allocate_store_def Let_def add l(1) count_primary_def)
      (simp add: gid_copy_def mk_gid_def strip_lock_from_msb_def is_locked_mask_def)
  moreover have "gid_eq (mk_gid 0x100800000 0) (get_gid_from_locality_id 0)"
    by (simp add: gid_eq_def mk_gid_def get_gid_from_locality_id_def strip_lock_from_msb_def
        strip_internal_bits_from_msb_def mask_defs push_bit_eq_mult)
  ultimately show ?thesis
    using c l(2,3) gid_eq_trans by (intro exI [of _ s] exI [of _ "gid_copy l"]) auto
qed

end
