(* ===== verification/Refcnt_Requests.thy ===== *)
theory Refcnt_Requests
  imports Primary_Allocate
begin

text \<open>
  The client side of global reference counting: the part of \<open>addressing_service\<close>
  (\<^verbatim>\<open>src/runtime/agas/addressing_service.cpp\<close>) that batches decrement requests, compensates
  increments with them and sends the rest to the primary namespaces, and the functions of
  \<^verbatim>\<open>src/runtime/agas/primary_namespace.cpp\<close> that pick the instance responsible for a gid.
  The calls are made from HPX threads; a call from elsewhere only reschedules itself as one.
\<close>

section \<open>Service instances\<close>

definition HPX_AGAS_PRIMARY_NS_MSB :: u64 where "HPX_AGAS_PRIMARY_NS_MSB = 0x0000000100000001"
definition HPX_AGAS_PRIMARY_NS_LSB :: u64 where "HPX_AGAS_PRIMARY_NS_LSB = 0x0000000000000001"

definition get_service_instance_of_locality :: "u32 \<Rightarrow> gid_type" where
  "get_service_instance_of_locality service_locality_id =
     replace_locality_id (mk_gid HPX_AGAS_PRIMARY_NS_MSB HPX_AGAS_PRIMARY_NS_LSB) service_locality_id"

definition get_service_instance :: "gid_type \<Rightarrow> gid_type result" where
  "get_service_instance dest =
     (let service_locality_id = get_locality_id_from_gid dest in
      if service_locality_id = invalid_locality_id then Inl bad_parameter
      else Inr (get_service_instance_of_locality service_locality_id))"

definition is_service_instance :: "gid_type \<Rightarrow> bool" where
  "is_service_instance gid \<longleftrightarrow> id_lsb gid = HPX_AGAS_PRIMARY_NS_LSB \<and>
     id_msb gid AND NOT locality_id_mask = HPX_AGAS_PRIMARY_NS_MSB"

section \<open>State\<close>

record addressing_service =
  max_refcnt_requests :: nat
  refcnt_requests_count :: nat
  enable_refcnt_caching :: bool
  refcnt_requests :: "(gid_type, i64) std_map"
  agas_caching :: bool

definition addressing_service_init :: "nat \<Rightarrow> bool \<Rightarrow> addressing_service" where
  "addressing_service_init max_requests caching_mode =
     \<lparr>max_refcnt_requests = max_requests, refcnt_requests_count = 0, enable_refcnt_caching = True,
      refcnt_requests = [], agas_caching = caching_mode\<rparr>"

text \<open>A \<open>decrement_credit\<close> message: the service instance and its requests.\<close>

type_synonym credit_message = "id_type \<times> (i64 \<times> gid_type \<times> gid_type) list"

section \<open>Sending\<close>

text \<open>\<open>requests[target].push_back(...)\<close>\<close>

definition push_request ::
  "id_type \<Rightarrow> i64 \<times> gid_type \<times> gid_type \<Rightarrow> (id_type, (i64 \<times> gid_type \<times> gid_type) list) std_map \<Rightarrow>
   (id_type, (i64 \<times> gid_type \<times> gid_type) list) std_map" where
  "push_request target r requests =
     (case map_find id_less requests target of
        None \<Rightarrow> fst (map_insert id_less requests target [r])
      | Some (_, rs) \<Rightarrow> map_assign id_less requests target (rs @ [r]))"

fun collect_requests ::
  "(gid_type, i64) std_map \<Rightarrow> (id_type, (i64 \<times> gid_type \<times> gid_type) list) std_map \<Rightarrow>
   (id_type, (i64 \<times> gid_type \<times> gid_type) list) std_map result" where
  "collect_requests [] requests = Inr requests"
| "collect_requests ((k, credit) # es) requests =
     hpx_assert (credit < 0)
       (let raw = gid_copy k in
        bind_result (get_service_instance raw) (\<lambda>instance.
          collect_requests es
            (push_request (id_type_of_gid instance unmanaged) (credit, raw, raw) requests)))"

text \<open>The messages sent; the requests leave the table whatever happens to them.\<close>

definition send_refcnt_requests_non_blocking ::
  "addressing_service \<Rightarrow> addressing_service \<times> credit_message list result" where
  "send_refcnt_requests_non_blocking s =
     (if refcnt_requests s = [] then (s, Inr [])
      else (s\<lparr>refcnt_requests := [], refcnt_requests_count := 0\<rparr>,
            collect_requests (refcnt_requests s) []))"

definition send_refcnt_requests_async ::
  "addressing_service \<Rightarrow> addressing_service \<times> credit_message list result" where
  "send_refcnt_requests_async s =
     (if refcnt_requests s = [] then (s, Inr [])
      else (s\<lparr>refcnt_requests := [], refcnt_requests_count := 0\<rparr>,
            collect_requests (refcnt_requests s) []))"

definition send_refcnt_requests_sync ::
  "addressing_service \<Rightarrow> addressing_service \<times> credit_message list result" where
  "send_refcnt_requests_sync s = send_refcnt_requests_async s"

definition send_refcnt_requests ::
  "addressing_service \<Rightarrow> addressing_service \<times> credit_message list result" where
  "send_refcnt_requests s =
     (if \<not> enable_refcnt_caching s then send_refcnt_requests_non_blocking s
      else
        let s = s\<lparr>refcnt_requests_count := refcnt_requests_count s + 1\<rparr> in
        if max_refcnt_requests s = refcnt_requests_count s then send_refcnt_requests_non_blocking s
        else (s, Inr []))"

text \<open>\<open>locked\<close>: somebody else holds the mutex, and there is no need to compete.\<close>

definition garbage_collect_non_blocking ::
  "bool \<Rightarrow> addressing_service \<Rightarrow> addressing_service \<times> credit_message list result" where
  "garbage_collect_non_blocking locked s =
     (if locked then (s, Inr []) else send_refcnt_requests_non_blocking s)"

definition garbage_collect ::
  "bool \<Rightarrow> addressing_service \<Rightarrow> addressing_service \<times> credit_message list result" where
  "garbage_collect locked s = (if locked then (s, Inr []) else send_refcnt_requests_sync s)"

definition start_shutdown :: "addressing_service \<Rightarrow> addressing_service \<times> credit_message list result" where
  "start_shutdown s =
     (if \<not> agas_caching s then (s, Inr [])
      else send_refcnt_requests_sync (s\<lparr>enable_refcnt_caching := False\<rparr>))"

section \<open>Requests\<close>

definition decref ::
  "gid_type \<Rightarrow> i64 \<Rightarrow> addressing_service \<Rightarrow> addressing_service \<times> credit_message list result" where
  "decref gid credit s =
     (let raw = get_stripped_gid gid in
      if credit \<le> 0 then (s, Inl bad_parameter)
      else
        case map_find gid_less (refcnt_requests s) raw of
          Some (_, c) \<Rightarrow>
            send_refcnt_requests (s\<lparr>refcnt_requests :=
              map_assign gid_less (refcnt_requests s) raw (c - credit)\<rparr>)
        | None \<Rightarrow>
            let (table, inserted) = map_insert gid_less (refcnt_requests s) raw (- credit) in
            if \<not> inserted then (s, Inl bad_parameter)
            else send_refcnt_requests (s\<lparr>refcnt_requests := table\<rparr>))"

text \<open>
  An increment is acknowledged at once, or \<open>increment_credit(credit, gid, gid)\<close> is sent to AGAS
  and its answer is adjusted by the compensated decrements.
\<close>

datatype incref_outcome = incref_ready i64 | incref_sent i64 gid_type i64

definition incref_async ::
  "gid_type \<Rightarrow> i64 \<Rightarrow> id_type \<Rightarrow> addressing_service \<Rightarrow> addressing_service \<times> incref_outcome result" where
  "incref_async gid credit keep_alive s =
     (let raw = get_stripped_gid gid in
      if 0 \<ge> credit then (s, Inl bad_parameter)
      else if id_eq keep_alive invalid_id then (s, Inl assertion_failure)
      else
        case map_find gid_less (refcnt_requests s) raw of
          Some (k, pending_decrefs) \<Rightarrow>
            let c = pending_decrefs + credit in
            if c > 0
            then (s\<lparr>refcnt_requests := map_erase gid_less (refcnt_requests s) raw\<rparr>,
                  Inr (incref_sent c (gid_copy k) pending_decrefs))
            else if c = 0
            then (s\<lparr>refcnt_requests := map_erase gid_less (refcnt_requests s) raw\<rparr>,
                  Inr (incref_ready pending_decrefs))
            else (s\<lparr>refcnt_requests := map_assign gid_less (refcnt_requests s) raw c\<rparr>,
                  Inr (incref_ready pending_decrefs))
        | None \<Rightarrow> (s, Inr (incref_sent credit (gid_copy raw) 0)))"

definition synchronize_with_async_incref :: "i64 \<Rightarrow> i64 \<Rightarrow> i64" where
  "synchronize_with_async_incref fut compensated_credit = fut + compensated_credit"

section \<open>The table of pending decrements\<close>

definition requests_ok :: "(gid_type, i64) std_map \<Rightarrow> bool" where
  "requests_ok t \<longleftrightarrow> map_sorted gid_less t \<and>
     (\<forall>(k, c) \<in> set t. c < 0 \<and> get_locality_id_from_gid k \<noteq> invalid_locality_id)"

text \<open>The credit a client still has to give back for a gid.\<close>

definition pending :: "addressing_service \<Rightarrow> gid_type \<Rightarrow> i64" where
  "pending s gid = (case map_find gid_less (refcnt_requests s) gid of Some (_, c) \<Rightarrow> - c | None \<Rightarrow> 0)"

definition request_credit :: "gid_type \<Rightarrow> i64 \<times> gid_type \<times> gid_type \<Rightarrow> i64" where
  "request_credit gid r = (if gid_eq (fst (snd r)) gid then - fst r else 0)"

definition message_credit :: "gid_type \<Rightarrow> credit_message list \<Rightarrow> i64" where
  "message_credit gid ms = sum_list (map (\<lambda>m. sum_list (map (request_credit gid) (snd m))) ms)"

lemma message_credit_simps [simp]:
  "message_credit g [] = 0"
  "message_credit g (ms @ ms') = message_credit g ms + message_credit g ms'"
  "message_credit g ((t, rs) # ms) = sum_list (map (request_credit g) rs) + message_credit g ms"
  by (simp_all add: message_credit_def)

lemma locality_gid_eq: "gid_eq g h \<Longrightarrow> get_locality_id_from_gid g = get_locality_id_from_gid h"
  by (rule locality_cong) (simp add: gid_eq_stripped_iff)

lemma push_request_credit:
  assumes "map_sorted id_less m"
  shows "message_credit g (push_request t r m) = message_credit g m + request_credit g r"
    and "map_sorted id_less (push_request t r m)"
proof -
  show "map_sorted id_less (push_request t r m)"
    using assms by (auto simp: push_request_def id_order.sorted_insert id_order.sorted_assign split: option.split)
  show "message_credit g (push_request t r m) = message_credit g m + request_credit g r"
  proof (cases "map_find id_less m t")
    case None
    have "m = map_before id_less m t @ map_lower_bound id_less m t" by (rule map_split [symmetric])
    then have "message_credit g m =
        message_credit g (map_before id_less m t) + message_credit g (map_lower_bound id_less m t)"
      by (metis message_credit_simps(2))
    with None show ?thesis by (simp add: push_request_def map_insert_def)
  next
    case (Some e)
    obtain k rs where e: "e = (k, rs)" by (cases e)
    have "m = map_before id_less m t @ e # tl (map_lower_bound id_less m t)"
      using id_order.split_found [OF Some] .
    then have "message_credit g m = message_credit g (map_before id_less m t) +
        message_credit g (e # tl (map_lower_bound id_less m t))"
      by (metis message_credit_simps(2))
    with Some e show ?thesis by (simp add: push_request_def map_assign_def)
  qed
qed

lemma collect_requests_credit:
  assumes "\<forall>(k, c) \<in> set es. c < 0 \<and> get_locality_id_from_gid k \<noteq> invalid_locality_id"
    and "map_sorted id_less m"
  shows "\<exists>ms. collect_requests es m = Inr ms \<and>
    message_credit g ms = message_credit g m + sum_list (map (\<lambda>(k, c). if gid_eq k g then - c else 0) es)"
  using assms
proof (induction es arbitrary: m)
  case (Cons e es)
  obtain k c where e: "e = (k, c)" by (cases e)
  have l: "get_locality_id_from_gid (gid_copy k) = get_locality_id_from_gid k"
    by (rule locality_gid_eq) simp
  then obtain i where i: "get_service_instance (gid_copy k) = Inr i"
    using Cons.prems(1) e by (auto simp: get_service_instance_def Let_def)
  define m' where "m' = push_request (id_type_of_gid i unmanaged) (c, gid_copy k, gid_copy k) m"
  have m': "message_credit g m' = message_credit g m + (if gid_eq k g then - c else 0)"
    "map_sorted id_less m'"
    using push_request_credit [OF Cons.prems(2)] by (simp_all add: m'_def request_credit_def)
  have "\<forall>(k, c) \<in> set es. c < 0 \<and> get_locality_id_from_gid k \<noteq> invalid_locality_id"
    using Cons.prems(1) by simp
  from Cons.IH [OF this m'(2)] obtain ms where ms: "collect_requests es m' = Inr ms"
    "message_credit g ms = message_credit g m' + sum_list (map (\<lambda>(k, c). if gid_eq k g then - c else 0) es)"
    by blast
  have "collect_requests (e # es) m = Inr ms"
    using Cons.prems(1) e i ms(1) by (simp add: m'_def)
  with ms(2) m'(1) e show ?case by simp
qed simp

text \<open>The entry of a sorted table is all there is for its gid.\<close>

lemma sum_entries:
  assumes "map_sorted gid_less t"
  shows "sum_list (map (\<lambda>(k, c). if gid_eq k g then - c else 0) t) =
    (case map_find gid_less t g of Some (_, c) \<Rightarrow> - c | None \<Rightarrow> (0::i64))"
proof (cases "map_find gid_less t g")
  case None
  then have "\<forall>e \<in> set t. \<not> gid_eq (fst e) g"
    using gid_order.find_None_iff [OF assms] by (simp add: gid_eq_equiv)
  then have "map (\<lambda>(k, c). if gid_eq k g then - c else 0) t = map (\<lambda>_. 0) t" by (intro map_cong) auto
  with None show ?thesis by (simp only: sum_list_0 option.case)
next
  case (Some e)
  obtain k c where e: "e = (k, c)" by (cases e)
  define b where "b = map_before gid_less t g"
  define l where "l = tl (map_lower_bound gid_less t g)"
  have t: "t = b @ e # l" using gid_order.split_found [OF Some] by (simp add: b_def l_def)
  have u: "\<forall>x \<in> set b \<union> set l. \<not> gid_eq (fst x) g"
  proof
    fix x assume x: "x \<in> set b \<union> set l"
    then have "x \<in> set t" using t by auto
    moreover have "x \<noteq> e" using gid_order.found_unique [OF assms Some] x by (auto simp: b_def l_def)
    ultimately show "\<not> gid_eq (fst x) g"
      using gid_order.find_iff [OF assms, of g x] Some by (auto simp: gid_eq_equiv)
  qed
  have "map (\<lambda>(k, c). if gid_eq k g then - c else 0) b = map (\<lambda>_. 0) b"
    "map (\<lambda>(k, c). if gid_eq k g then - c else 0) l = map (\<lambda>_. 0) l"
    by (intro map_cong refl; use u in force)+
  then have z: "sum_list (map (\<lambda>(k, c). if gid_eq k g then - c else (0::i64)) b) = 0"
    "sum_list (map (\<lambda>(k, c). if gid_eq k g then - c else (0::i64)) l) = 0" by (simp_all only: sum_list_0)
  have "gid_eq k g" using gid_order.find_SomeD(2) [OF Some] e by (simp add: gid_eq_equiv)
  then show ?thesis unfolding Some by (subst t) (simp add: z e)
qed

lemma pending_nonneg:
  assumes "requests_ok (refcnt_requests s)" shows "0 \<le> pending s g"
proof (cases "map_find gid_less (refcnt_requests s) g")
  case (Some e)
  then have "e \<in> set (refcnt_requests s)" by (rule gid_order.find_SomeD)
  with assms Some show ?thesis by (auto simp: pending_def requests_ok_def)
qed (simp add: pending_def)

text \<open>Flushing sends exactly what is pending, and no assertion fails.\<close>

lemma flush_credit:
  assumes "requests_ok (refcnt_requests s)"
  obtains ms where "send_refcnt_requests_non_blocking s =
      (s\<lparr>refcnt_requests := [], refcnt_requests_count :=
         if refcnt_requests s = [] then refcnt_requests_count s else 0\<rparr>, Inr ms)"
    "\<And>g. message_credit g ms = pending s g"
proof (cases "refcnt_requests s = []")
  case True
  then show ?thesis using that [of "[]"]
    by (simp add: send_refcnt_requests_non_blocking_def pending_def map_find_def map_lower_bound_def)
next
  case False
  have s: "map_sorted gid_less (refcnt_requests s)" using assms by (simp add: requests_ok_def)
  have "\<exists>ms. collect_requests (refcnt_requests s) [] = Inr ms \<and> message_credit g ms = pending s g" for g
    using collect_requests_credit [of "refcnt_requests s" "[]" g] assms sum_entries [OF s, of g]
    by (auto simp: requests_ok_def pending_def)
  then obtain ms where "collect_requests (refcnt_requests s) [] = Inr ms"
    "\<And>g. message_credit g ms = pending s g" by (metis sum.inject(2))
  then show ?thesis using that [of ms] False by (simp add: send_refcnt_requests_non_blocking_def)
qed

section \<open>Laws of the requests\<close>

lemma requests_ok_insert:
  assumes "requests_ok t" "map_find gid_less t k = None" "c < 0" "get_locality_id_from_gid k \<noteq> invalid_locality_id"
  shows "requests_ok (fst (map_insert gid_less t k c))"
  using assms gid_order.sorted_insert [of t k c] gid_order.set_insert [OF assms(2), of c]
  by (auto simp: requests_ok_def)

lemma requests_ok_assign:
  assumes "requests_ok t" "map_find gid_less t k = Some (k0, v)" "c < 0"
  shows "requests_ok (map_assign gid_less t k c)"
proof -
  have s: "map_sorted gid_less t" using assms(1) by (simp add: requests_ok_def)
  have "(k0, v) \<in> set t" using gid_order.find_SomeD [OF assms(2)] by simp
  then show ?thesis
    using assms gid_order.sorted_assign [OF s] gid_order.set_assign [OF s assms(2), of c]
    by (auto simp: requests_ok_def)
qed

lemma requests_ok_erase: "requests_ok t \<Longrightarrow> requests_ok (map_erase gid_less t k)"
  using gid_order.sorted_erase [of t k] gid_order.set_erase [of t k] by (auto simp: requests_ok_def)

lemma gid_eq_get_stripped [simp]: "gid_eq (get_stripped_gid g) h \<longleftrightarrow> gid_eq g h"
  by (auto simp: get_stripped_gid_def gid_eq_bits mask_bits)

lemma locality_get_stripped [simp]: "get_locality_id_from_gid (get_stripped_gid g) = get_locality_id_from_gid g"
  by (rule locality_gid_eq) simp

definition table_pending :: "(gid_type, i64) std_map \<Rightarrow> gid_type \<Rightarrow> i64" where
  "table_pending t g = (case map_find gid_less t g of Some (_, c) \<Rightarrow> - c | None \<Rightarrow> 0)"

lemma pending_table: "pending s g = table_pending (refcnt_requests s) g"
  by (simp add: pending_def table_pending_def)

lemma table_pending_updates:
  assumes "map_sorted gid_less t"
  shows "map_find gid_less t k = None \<Longrightarrow>
      table_pending (fst (map_insert gid_less t k c)) g = (if gid_eq k g then - c else table_pending t g)"
    and "map_find gid_less t k = Some (k0, v) \<Longrightarrow>
      table_pending (map_assign gid_less t k c) g = (if gid_eq k g then - c else table_pending t g)"
    and "table_pending (map_erase gid_less t k) g = (if gid_eq k g then 0 else table_pending t g)"
    and "gid_eq k g \<Longrightarrow> table_pending t k = table_pending t g"
  using gid_order.find_insert [OF assms, of k c g] gid_order.find_assign [OF assms, of k k0 v c g]
    gid_order.find_erase [OF assms, of k g] gid_order.find_equiv [OF assms, of k g]
  by (auto simp: table_pending_def gid_eq_equiv)

lemma send_refcnt_requests_credit:
  assumes "requests_ok (refcnt_requests s)"
  obtains s' ms where "send_refcnt_requests s = (s', Inr ms)" "requests_ok (refcnt_requests s')"
    "\<And>g. pending s' g + message_credit g ms = pending s g"
proof (cases "\<not> enable_refcnt_caching s \<or> max_refcnt_requests s = refcnt_requests_count s + 1")
  case True
  define s0 where "s0 = (if enable_refcnt_caching s
    then s\<lparr>refcnt_requests_count := refcnt_requests_count s + 1\<rparr> else s)"
  have e: "send_refcnt_requests s = send_refcnt_requests_non_blocking s0"
    using True by (auto simp: send_refcnt_requests_def s0_def Let_def)
  have r: "refcnt_requests s0 = refcnt_requests s" by (simp add: s0_def)
  obtain ms where "send_refcnt_requests_non_blocking s0 =
      (s0\<lparr>refcnt_requests := [], refcnt_requests_count :=
         if refcnt_requests s0 = [] then refcnt_requests_count s0 else 0\<rparr>, Inr ms)"
    "\<And>g. message_credit g ms = pending s0 g"
    using flush_credit [of s0] assms r by auto
  then show ?thesis
    using that e r by (auto simp: requests_ok_def pending_def map_find_def map_lower_bound_def)
next
  case False
  then have "send_refcnt_requests s = (s\<lparr>refcnt_requests_count := refcnt_requests_count s + 1\<rparr>, Inr [])"
    by (auto simp: send_refcnt_requests_def Let_def)
  then show ?thesis using that assms by (simp add: pending_def)
qed

lemma decref_credit:
  assumes "requests_ok (refcnt_requests s)" "0 < c" "get_locality_id_from_gid gid \<noteq> invalid_locality_id"
  obtains s' ms where "decref gid c s = (s', Inr ms)" "requests_ok (refcnt_requests s')"
    "\<And>g. pending s' g + message_credit g ms = pending s g + (if gid_eq gid g then c else 0)"
proof -
  let ?t = "refcnt_requests s" and ?raw = "get_stripped_gid gid"
  have so: "map_sorted gid_less ?t" using assms(1) by (simp add: requests_ok_def)
  obtain t where t: "decref gid c s = send_refcnt_requests (s\<lparr>refcnt_requests := t\<rparr>)" "requests_ok t"
    "\<And>g. table_pending t g = table_pending ?t g + (if gid_eq gid g then c else 0)"
  proof (cases "map_find gid_less ?t ?raw")
    case None
    let ?u = "fst (map_insert gid_less ?t ?raw (- c))"
    have "decref gid c s = send_refcnt_requests (s\<lparr>refcnt_requests := ?u\<rparr>)"
      using None gid_order.insert_fresh [OF None] assms(2) by (simp add: decref_def Let_def case_prod_beta)
    moreover have "requests_ok ?u" using None assms by (intro requests_ok_insert) auto
    moreover have "table_pending ?u g = table_pending ?t g + (if gid_eq gid g then c else 0)" for g
      using None table_pending_updates(1,4) [OF so, of ?raw] by (auto simp: table_pending_def)
    ultimately show ?thesis using that by blast
  next
    case (Some e)
    obtain k v where e: "e = (k, v)" by (cases e)
    let ?u = "map_assign gid_less ?t ?raw (v - c)"
    have v: "v < 0" using gid_order.find_SomeD(1) [OF Some] assms(1) e by (auto simp: requests_ok_def)
    have "decref gid c s = send_refcnt_requests (s\<lparr>refcnt_requests := ?u\<rparr>)"
      using Some e assms(2) by (simp add: decref_def Let_def)
    moreover have "requests_ok ?u" using requests_ok_assign [OF assms(1) Some [unfolded e]] v assms(2) by simp
    moreover have "table_pending ?u g = table_pending ?t g + (if gid_eq gid g then c else 0)" for g
      using Some e table_pending_updates(2) [OF so Some [unfolded e], of "v - c" g]
        table_pending_updates(4) [OF so, of ?raw g] by (auto simp: table_pending_def)
    ultimately show ?thesis using that by blast
  qed
  obtain s' ms where "send_refcnt_requests (s\<lparr>refcnt_requests := t\<rparr>) = (s', Inr ms)"
    "requests_ok (refcnt_requests s')"
    "\<And>g. pending s' g + message_credit g ms = pending (s\<lparr>refcnt_requests := t\<rparr>) g"
    using send_refcnt_requests_credit [of "s\<lparr>refcnt_requests := t\<rparr>"] t(2) by auto
  then show ?thesis using that t(1,3) by (simp add: pending_table)
qed

text \<open>What an increment sends to AGAS, and what it takes from the pending decrements.\<close>

definition incref_to_send :: "incref_outcome \<Rightarrow> i64" where
  "incref_to_send r = (case r of incref_ready _ \<Rightarrow> 0 | incref_sent c _ _ \<Rightarrow> c)"

lemma incref_credit:
  assumes "requests_ok (refcnt_requests s)" "0 < c" "\<not> id_eq keep_alive invalid_id"
  obtains s' r where "incref_async gid c keep_alive s = (s', Inr r)" "requests_ok (refcnt_requests s')"
    "\<And>g. pending s' g = pending s g - (if gid_eq gid g then c - incref_to_send r else 0)"
    "incref_to_send r = max 0 (c - pending s gid)"
    "\<And>cr g p. r = incref_sent cr g p \<Longrightarrow> gid_eq g gid \<and> 0 < cr"
proof -
  let ?t = "refcnt_requests s" and ?raw = "get_stripped_gid gid"
  have so: "map_sorted gid_less ?t" using assms(1) by (simp add: requests_ok_def)
  have pe: "table_pending ?t ?raw = table_pending ?t gid" by (rule table_pending_updates(4) [OF so]) simp
  show ?thesis
  proof (cases "map_find gid_less ?t ?raw")
    case None
    then have z: "table_pending ?t ?raw = 0" by (simp add: table_pending_def)
    have "incref_async gid c keep_alive s = (s, Inr (incref_sent c (gid_copy ?raw) 0))"
      using None assms(2,3) by (simp add: incref_async_def Let_def)
    then show ?thesis using that [of s] assms(1,2) z pe
      by (simp add: incref_to_send_def pending_table)
  next
    case (Some e)
    obtain k v where e: "e = (k, v)" by (cases e)
    note f = Some [unfolded e]
    have v: "v < 0" using gid_order.find_SomeD(1) [OF f] assms(1) by (auto simp: requests_ok_def)
    have k: "gid_eq k gid" using gid_order.find_SomeD(2) [OF f] gid_eq_sym
      by (metis fst_conv gid_eq_equiv gid_eq_get_stripped)
    have p: "table_pending ?t ?raw = - v" using f by (simp add: table_pending_def)
    have q: "gid_eq gid g \<Longrightarrow> table_pending ?t g = - v" for g
      using table_pending_updates(4) [OF so, of ?raw g] p by simp
    consider "v + c > 0" | "v + c = 0" | "v + c < 0" by linarith
    then show ?thesis
    proof cases
      case 1
      then have "incref_async gid c keep_alive s =
          (s\<lparr>refcnt_requests := map_erase gid_less ?t ?raw\<rparr>, Inr (incref_sent (v + c) (gid_copy k) v))"
        using f assms(2,3) by (simp add: incref_async_def Let_def)
      then show ?thesis
        using that [of "s\<lparr>refcnt_requests := map_erase gid_less ?t ?raw\<rparr>"] requests_ok_erase [OF assms(1)] 1 k p pe q
        by (simp add: incref_to_send_def pending_table table_pending_updates(3) [OF so])
    next
      case 2
      then have "incref_async gid c keep_alive s =
          (s\<lparr>refcnt_requests := map_erase gid_less ?t ?raw\<rparr>, Inr (incref_ready v))"
        using f assms(2,3) by (simp add: incref_async_def Let_def)
      then show ?thesis
        using that [of "s\<lparr>refcnt_requests := map_erase gid_less ?t ?raw\<rparr>"] requests_ok_erase [OF assms(1)] 2 k p pe q
        by (simp add: incref_to_send_def pending_table table_pending_updates(3) [OF so])
    next
      case 3
      then have "incref_async gid c keep_alive s =
          (s\<lparr>refcnt_requests := map_assign gid_less ?t ?raw (v + c)\<rparr>, Inr (incref_ready v))"
        using f assms(2,3) by (simp add: incref_async_def Let_def)
      then show ?thesis
        using that [of "s\<lparr>refcnt_requests := map_assign gid_less ?t ?raw (v + c)\<rparr>"]
          requests_ok_assign [OF assms(1) f 3] 3 k p pe q
        by (simp add: incref_to_send_def pending_table table_pending_updates(2) [OF so f])
    qed
  qed
qed

text \<open>
  \<open>is_service_instance\<close> masks out the locality of the gid but not the one in the constant it
  compares with, so it holds of no gid, not even of the instances \<open>get_service_instance\<close> builds.
\<close>

theorem is_service_instance_never: "\<not> is_service_instance g"
proof -
  have "\<not> bit (id_msb g AND NOT locality_id_mask) 32" by (simp add: bit_and_iff bit_not_iff mask_bits)
  moreover have "bit HPX_AGAS_PRIMARY_NS_MSB 32" by (simp add: HPX_AGAS_PRIMARY_NS_MSB_def)
  ultimately show ?thesis by (auto simp: is_service_instance_def)
qed

end
