(* ===== verification/Credit_Protocol.thy ===== *)
theory Credit_Protocol
  imports Refcnt_Requests
begin

text \<open>
  Distributed garbage collection by credits, end to end: references on several localities
  split, replenish and release their credit through the functions of \<open>Id_Type\<close>, the client side
  of every locality batches and compensates requests (\<open>Refcnt_Requests\<close>), and the primary
  namespace of the object's home locality counts (\<open>Primary_Namespace\<close>). The steps interleave
  freely; requests for the object travel on a wire and arrive in any order.

  Two interfaces carry the argument. \<open>credit_server\<close> is what the protocol needs of the counter:
  increments and decrements are exact, and the object is freed by the decrement that takes the
  count to zero and by no other. \<open>credit_client\<close> is what it needs of a client: nothing is lost
  or made up by batching and compensation. They are interpreted on the model of the code.
\<close>

section \<open>Interfaces\<close>

locale credit_server =
  fixes ok :: "'s \<Rightarrow> bool" and cnt :: "'s \<Rightarrow> i64"
    and incr :: "i64 \<Rightarrow> 's \<Rightarrow> 's option" and decr :: "i64 \<Rightarrow> 's \<Rightarrow> ('s \<times> nat) option"
  assumes incr_law: "ok s \<Longrightarrow> 0 < c \<Longrightarrow> \<exists>s'. incr c s = Some s' \<and> ok s' \<and> cnt s' = cnt s + c"
    and decr_law: "ok s \<Longrightarrow> 0 < c \<Longrightarrow> c \<le> cnt s \<Longrightarrow> \<exists>s' n. decr c s = Some (s', n) \<and>
      (if c = cnt s then n = 1 else n = 0 \<and> ok s' \<and> cnt s' = cnt s - c)"
begin

lemma incr_step:
  assumes "ok s" "0 < c" "incr c s = Some s'"
  shows "ok s'" "cnt s' = cnt s + c"
  using incr_law [OF assms(1,2)] assms(3) by auto

lemma decr_step:
  assumes "ok s" "0 < c" "c \<le> cnt s" "decr c s = Some (s', n)"
  shows "n = (if c = cnt s then 1 else 0)" "c \<noteq> cnt s \<Longrightarrow> ok s' \<and> cnt s' = cnt s - c"
  using decr_law [OF assms(1,2,3)] assms(4) by (auto split: if_splits)

lemma decr_total: "ok s \<Longrightarrow> 0 < c \<Longrightarrow> c \<le> cnt s \<Longrightarrow> decr c s \<noteq> None"
  using decr_law by fastforce

end

locale credit_client =
  fixes ok :: "'c \<Rightarrow> bool" and pend :: "'c \<Rightarrow> i64"
    and dec :: "i64 \<Rightarrow> 'c \<Rightarrow> ('c \<times> i64 list) option"
    and inc :: "i64 \<Rightarrow> 'c \<Rightarrow> ('c \<times> i64) option"
    and flush :: "'c \<Rightarrow> ('c \<times> i64 list) option"
  assumes pend_nonneg: "ok s \<Longrightarrow> 0 \<le> pend s"
    and dec_law: "ok s \<Longrightarrow> 0 < c \<Longrightarrow> \<exists>s' ms. dec c s = Some (s', ms) \<and> ok s' \<and>
      (\<forall>m \<in> set ms. 0 < m) \<and> pend s' + sum_list ms = pend s + c"
    and inc_law: "ok s \<Longrightarrow> 0 < c \<Longrightarrow> \<exists>s' sent. inc c s = Some (s', sent) \<and> ok s' \<and>
      0 \<le> sent \<and> sent \<le> c \<and> pend s' = pend s - (c - sent)"
    and flush_law: "ok s \<Longrightarrow> \<exists>s' ms. flush s = Some (s', ms) \<and> ok s' \<and>
      (\<forall>m \<in> set ms. 0 < m) \<and> pend s' = 0 \<and> sum_list ms = pend s"
begin

lemma dec_step:
  assumes "ok s" "0 < c" "dec c s = Some (s', ms)"
  shows "ok s'" "\<forall>m \<in> set ms. 0 < m" "pend s' + sum_list ms = pend s + c"
  using dec_law [OF assms(1,2)] assms(3) by auto

lemma inc_step:
  assumes "ok s" "0 < c" "inc c s = Some (s', sent)"
  shows "ok s'" "0 \<le> sent" "sent \<le> c" "pend s' = pend s - (c - sent)"
  using inc_law [OF assms(1,2)] assms(3) by auto

lemma flush_step:
  assumes "ok s" "flush s = Some (s', ms)"
  shows "ok s'" "\<forall>m \<in> set ms. 0 < m" "pend s' = 0" "sum_list ms = pend s"
  using flush_law [OF assms(1)] assms(2) by auto

end

section \<open>The server\<close>

definition server_ok :: "gid_type \<Rightarrow> primary_namespace \<Rightarrow> bool" where
  "server_ok obj s \<longleftrightarrow> map_sorted gid_less (refcnts s) \<and> map_sorted gid_less (migrating_objects s) \<and>
     \<not> is_migrating s obj \<and>
     (case resolve_gid_locked (gvas s) obj of
        Inr (raw, a, loc) \<Rightarrow> \<not> gid_eq raw invalid_gid \<and> gva_type a \<noteq> component_invalid \<and> count a \<noteq> 0
      | Inl _ \<Rightarrow> False)"

definition server_incr :: "gid_type \<Rightarrow> i64 \<Rightarrow> primary_namespace \<Rightarrow> primary_namespace option" where
  "server_incr obj c s = (case increment_credit c obj obj s of Some (s', Inr _) \<Rightarrow> Some s' | _ \<Rightarrow> None)"

text \<open>The new state and how many objects are freed.\<close>

definition server_decr :: "gid_type \<Rightarrow> i64 \<Rightarrow> primary_namespace \<Rightarrow> (primary_namespace \<times> nat) option" where
  "server_decr obj c s =
     (case decrement_request (- c, obj, obj) s of
        Some (s', sweep_done (Inr free_list)) \<Rightarrow> Some (s', length free_list)
      | _ \<Rightarrow> None)"

lemma server_ok_refcnts:
  "server_ok obj s \<Longrightarrow> map_sorted gid_less t \<Longrightarrow> server_ok obj (s\<lparr>refcnts := t\<rparr>)"
  by (simp add: server_ok_def)

lemma server_ok_count [simp]: "server_ok obj (count_primary a s) = server_ok obj s"
  by (simp add: server_ok_def is_migrating_def)

interpretation primary: credit_server "server_ok obj" "\<lambda>s. table_count (refcnts s) obj"
  "server_incr obj" "server_decr obj" for obj
proof
  fix s :: primary_namespace and c :: i64
  assume ok: "server_ok obj s" and c: "0 < c"
  have so: "map_sorted gid_less (refcnts s)" using ok by (simp add: server_ok_def)
  obtain t where t: "increment_credit c obj obj s =
      Some ((count_primary api_increment_credit s)\<lparr>refcnts := t\<rparr>, Inr 0)" "map_sorted gid_less t"
    "\<And>h. table_count t h = table_count (refcnts s) h + (if gid_eq obj h then c else 0)"
    by (rule increment_credit_ok [OF so c, of obj]) (rule that)
  then show "\<exists>s'. server_incr obj c s = Some s' \<and> server_ok obj s' \<and>
      table_count (refcnts s') obj = table_count (refcnts s) obj + c"
    using ok by (simp add: server_incr_def server_ok_refcnts)
next
  fix s :: primary_namespace and c :: i64
  assume ok: "server_ok obj s" and c: "0 < c" "c \<le> table_count (refcnts s) obj"
  have so: "map_sorted gid_less (refcnts s)" "map_sorted gid_less (migrating_objects s)"
    "\<not> is_migrating s obj" using ok by (simp_all add: server_ok_def)
  obtain raw a loc where r: "resolve_gid_locked (gvas s) obj = Inr (raw, a, loc)" "\<not> gid_eq raw invalid_gid"
    "gva_type a \<noteq> component_invalid" "count a \<noteq> 0"
    using ok by (auto simp: server_ok_def split: sum.splits)
  show "\<exists>s' n. server_decr obj c s = Some (s', n) \<and> (if c = table_count (refcnts s) obj then n = 1
      else n = 0 \<and> server_ok obj s' \<and> table_count (refcnts s') obj = table_count (refcnts s) obj - c)"
  proof (cases "c = table_count (refcnts s) obj")
    case True
    obtain t e where "decrement_request (- c, obj, obj) s = Some (s\<lparr>refcnts := t\<rparr>, sweep_done (Inr [e]))"
      by (rule decrement_request_frees [OF so(1) c(1) True so(2,3) r])
    with True show ?thesis by (simp add: server_decr_def)
  next
    case False
    then have lt: "c < table_count (refcnts s) obj" using c(2) by simp
    obtain t where "decrement_request (- c, obj, obj) s = Some (s\<lparr>refcnts := t\<rparr>, sweep_done (Inr []))"
      "map_sorted gid_less t"
      "\<And>h. table_count t h = table_count (refcnts s) h - (if gid_eq obj h then c else 0)"
      by (rule decrement_request_keeps [OF so(1) c(1) lt]) (rule that)
    with False ok show ?thesis by (simp add: server_decr_def server_ok_refcnts)
  qed
qed

section \<open>The clients\<close>

text \<open>The credits of the requests for the object in a list of messages.\<close>

definition amounts :: "gid_type \<Rightarrow> credit_message list \<Rightarrow> i64 list" where
  "amounts obj ms = map (\<lambda>r. - fst r) (filter (\<lambda>r. gid_eq (fst (snd r)) obj) (concat (map snd ms)))"

lemma sum_amounts: "sum_list (amounts obj ms) = message_credit obj ms"
proof (induction ms)
  case (Cons m ms)
  have "sum_list (map (\<lambda>r. - fst r) (filter (\<lambda>r. gid_eq (fst (snd r)) obj) rs)) =
      sum_list (map (request_credit obj) rs)" for rs :: "(i64 \<times> gid_type \<times> gid_type) list"
    by (induction rs) (auto simp: request_credit_def)
  with Cons show ?case by (cases m) (simp add: amounts_def)
qed (simp add: amounts_def)

definition requests_negative :: "credit_message list \<Rightarrow> bool" where
  "requests_negative ms \<longleftrightarrow> (\<forall>m \<in> set ms. \<forall>r \<in> set (snd m). fst r < 0)"

lemma collect_negative:
  "collect_requests es m = Inr ms \<Longrightarrow> requests_negative m \<Longrightarrow> requests_negative ms"
proof (induction es m rule: collect_requests.induct)
  case (2 k c es m)
  from "2.prems"(1) obtain i where c: "c < 0" "get_service_instance (gid_copy k) = Inr i"
    "collect_requests es (push_request (id_type_of_gid i unmanaged) (c, gid_copy k, gid_copy k) m) = Inr ms"
    by (auto simp: result_simps Let_def)
  have "requests_negative (push_request t (c, g, h) m)" for t g h
  proof (cases "map_find id_less m t")
    case None
    then have "set (fst (map_insert id_less m t [(c, g, h)])) = insert (t, [(c, g, h)]) (set m)"
      by (rule id_order.set_insert)
    with None c(1) "2.prems"(2) show ?thesis by (auto simp: push_request_def requests_negative_def)
  next
    case (Some e)
    obtain k rs where e: "e = (k, rs)" by (cases e)
    have "e \<in> set m" using id_order.find_SomeD(1) [OF Some] .
    moreover have "set (map_assign id_less m t x) \<subseteq> insert (k, x) (set m)" for x
      using Some e arg_cong [OF id_order.split_found [OF Some], of set] by (auto simp: map_assign_def)
    ultimately show ?thesis
      using Some e c(1) "2.prems"(2) by (fastforce simp: push_request_def requests_negative_def)
  qed
  with "2.IH" [of "gid_copy k" i] c show ?case by simp
qed simp

lemma amounts_positive: "requests_negative ms \<Longrightarrow> m \<in> set (amounts obj ms) \<Longrightarrow> 0 < m"
  by (fastforce simp: amounts_def requests_negative_def)

definition client_ok :: "gid_type \<Rightarrow> addressing_service \<Rightarrow> bool" where
  "client_ok obj s \<longleftrightarrow> requests_ok (refcnt_requests s) \<and> \<not> gid_eq obj invalid_gid \<and>
     get_locality_id_from_gid obj \<noteq> invalid_locality_id"

definition client_dec :: "gid_type \<Rightarrow> i64 \<Rightarrow> addressing_service \<Rightarrow> (addressing_service \<times> i64 list) option" where
  "client_dec obj c s = (case decref obj c s of (s', Inr ms) \<Rightarrow> Some (s', amounts obj ms) | _ \<Rightarrow> None)"

text \<open>\<open>agas::incref\<close>, which keeps the object alive by an unmanaged id; how much is sent to AGAS.\<close>

definition agas_incref ::
  "gid_type \<Rightarrow> i64 \<Rightarrow> addressing_service \<Rightarrow> addressing_service \<times> incref_outcome result" where
  "agas_incref gid credits s =
     (if gid_is_locked gid then (s, Inl assertion_failure)
      else incref_async gid credits (id_type_of_gid gid unmanaged) s)"

definition client_inc :: "gid_type \<Rightarrow> i64 \<Rightarrow> addressing_service \<Rightarrow> (addressing_service \<times> i64) option" where
  "client_inc obj c s =
     (case agas_incref (gid_copy obj) c s of (s', Inr r) \<Rightarrow> Some (s', incref_to_send r) | _ \<Rightarrow> None)"

definition client_flush :: "gid_type \<Rightarrow> addressing_service \<Rightarrow> (addressing_service \<times> i64 list) option" where
  "client_flush obj s =
     (case garbage_collect_non_blocking False s of (s', Inr ms) \<Rightarrow> Some (s', amounts obj ms) | _ \<Rightarrow> None)"

lemma flush_negative:
  "send_refcnt_requests_non_blocking s = (s', Inr ms) \<Longrightarrow> requests_negative ms"
  using collect_negative [of "refcnt_requests s" "[]" ms]
  by (auto simp: send_refcnt_requests_non_blocking_def requests_negative_def split: if_splits)

lemma decref_negative: "decref g c s = (s', Inr ms) \<Longrightarrow> requests_negative ms"
  by (auto simp: decref_def Let_def send_refcnt_requests_def requests_negative_def [of "[]"]
      split: if_splits option.splits prod.splits dest: flush_negative)

lemma keep_alive_valid:
  assumes "\<not> gid_eq g invalid_gid" shows "\<not> id_eq (id_type_of_gid g unmanaged) invalid_id"
proof -
  let ?g = "strip_internal_bits_except_dont_cache_from_gid (gid_copy g)"
  have e: "gid_eq ?g g"
    by (auto simp: gid_eq_bits strip_internal_bits_except_dont_cache_from_gid_def
        strip_internal_bits_except_dont_cache_from_msb_def bit_and_iff bit_not_iff bit_or_iff mask_bits
        dest: bit_imp_less_64)
  have "gid_to_bool ?g"
  proof (rule ccontr)
    assume "\<not> gid_to_bool ?g"
    then have "?g = invalid_gid" by (simp add: gid_to_bool_def invalid_gid_def gid_of_lsb_def)
    with e assms gid_eq_sym show False by metis
  qed
  then show ?thesis
    by (simp add: id_eq_def id_to_bool_def id_type_of_gid_def strip_unmanaged_def intrusive_ptr_add_ref_def
        id_type_impl_of_gid_def invalid_id_def)
qed

interpretation requests: credit_client "client_ok obj" "\<lambda>s. pending s obj" "client_dec obj" "client_inc obj"
  "client_flush obj" for obj
proof
  fix s :: addressing_service and c :: i64
  assume ok: "client_ok obj s"
  then have r: "requests_ok (refcnt_requests s)" "\<not> gid_eq obj invalid_gid"
    "get_locality_id_from_gid obj \<noteq> invalid_locality_id" by (simp_all add: client_ok_def)
  show "0 \<le> pending s obj" by (rule pending_nonneg [OF r(1)])
  show "\<exists>s' ms. client_flush obj s = Some (s', ms) \<and> client_ok obj s' \<and> (\<forall>m \<in> set ms. 0 < m) \<and>
      pending s' obj = 0 \<and> sum_list ms = pending s obj"
  proof -
    obtain ms where f: "send_refcnt_requests_non_blocking s =
        (s\<lparr>refcnt_requests := [], refcnt_requests_count :=
           if refcnt_requests s = [] then refcnt_requests_count s else 0\<rparr>, Inr ms)"
      "\<And>g. message_credit g ms = pending s g" by (rule flush_credit [OF r(1)]) (rule that)
    then show ?thesis
      using r amounts_positive [OF flush_negative [OF f(1)]]
      by (auto simp: client_flush_def garbage_collect_non_blocking_def sum_amounts client_ok_def requests_ok_def
          pending_def map_find_def map_lower_bound_def)
  qed
  assume c: "0 < c"
  show "\<exists>s' ms. client_dec obj c s = Some (s', ms) \<and> client_ok obj s' \<and> (\<forall>m \<in> set ms. 0 < m) \<and>
      pending s' obj + sum_list ms = pending s obj + c"
  proof -
    obtain s' ms where d: "decref obj c s = (s', Inr ms)" "requests_ok (refcnt_requests s')"
      "\<And>g. pending s' g + message_credit g ms = pending s g + (if gid_eq obj g then c else 0)"
      by (rule decref_credit [OF r(1) c r(3)]) (rule that)
    then show ?thesis
      using r(2,3) amounts_positive [OF decref_negative [OF d(1)]]
      by (auto simp: client_dec_def sum_amounts client_ok_def)
  qed
  show "\<exists>s' sent. client_inc obj c s = Some (s', sent) \<and> client_ok obj s' \<and> 0 \<le> sent \<and> sent \<le> c \<and>
      pending s' obj = pending s obj - (c - sent)"
  proof -
    have k: "\<not> id_eq (id_type_of_gid (gid_copy obj) unmanaged) invalid_id"
      using r(2) by (intro keep_alive_valid) simp
    obtain s' x where i: "incref_async (gid_copy obj) c (id_type_of_gid (gid_copy obj) unmanaged) s = (s', Inr x)"
      "requests_ok (refcnt_requests s')"
      "\<And>g. pending s' g = pending s g - (if gid_eq (gid_copy obj) g then c - incref_to_send x else 0)"
      "incref_to_send x = max 0 (c - pending s (gid_copy obj))"
      by (rule incref_credit [OF r(1) c k]) (rule that)
    have "0 \<le> pending s (gid_copy obj)" by (rule pending_nonneg [OF r(1)])
    with i r(2,3) c show ?thesis by (auto simp: client_inc_def agas_incref_def client_ok_def)
  qed
qed

section \<open>The protocol\<close>

text \<open>
  A reference is a representation of the object's id on a locality: a number, the locality and
  the gid with its credit. An increment that was requested for a reference and not yet used is
  in \<open>gc_waits\<close> with the part still to be granted by the server. \<open>gc_wire\<close> has the credits of
  the decrements under way, \<open>gc_freed\<close> how often the object was freed.
\<close>

record gc_state =
  gc_server :: primary_namespace
  gc_clients :: "addressing_service list"
  gc_refs :: "(nat \<times> nat \<times> gid_type) list"
  gc_waits :: "(nat \<times> i64) list"
  gc_wire :: "i64 list"
  gc_freed :: nat

text \<open>The credit \<open>split_gid_if_needed_locked\<close> asks for.\<close>

abbreviation incref_amount :: i64 where
  "incref_amount \<equiv> 2 * (HPX_GLOBALCREDIT_INITIAL - 1)"

inductive gc_step :: "gid_type \<Rightarrow> gc_state \<Rightarrow> gc_state \<Rightarrow> bool" for obj where
  split_step:
    "gc_refs s = xs @ (r, l, g) # ys \<Longrightarrow> split_gid_if_needed g = Some (Inr (g', split_ready n)) \<Longrightarrow>
     has_credits g \<Longrightarrow> r' \<notin> fst ` set (gc_refs s) \<Longrightarrow> l' < length (gc_clients s) \<Longrightarrow>
     gc_step obj s (s\<lparr>gc_refs := xs @ (r, l, g') # ys @ [(r', l', n)]\<rparr>)"
| exhausted_step:
    "gc_refs s = xs @ (r, l, g) # ys \<Longrightarrow> split_gid_if_needed g = Some (Inr (g', split_incref n c)) \<Longrightarrow>
     agas_incref n c (gc_clients s ! l) = (cl, Inr out) \<Longrightarrow>
     gc_step obj s (s\<lparr>gc_refs := xs @ (r, l, g') # ys, gc_clients := (gc_clients s)[l := cl],
       gc_waits := (r, incref_to_send out) # gc_waits s\<rparr>)"
| grant_step:
    "gc_waits s = us @ (r, c) # vs \<Longrightarrow> 0 < c \<Longrightarrow>
     increment_credit c obj obj (gc_server s) = Some (sv, Inr x) \<Longrightarrow>
     gc_step obj s (s\<lparr>gc_server := sv, gc_waits := us @ (r, 0) # vs\<rparr>)"
| fill_step:
    "gc_waits s = us @ (r, 0) # vs \<Longrightarrow> gc_refs s = xs @ (r, l, g) # ys \<Longrightarrow>
     postprocess_incref g = Some (Inr (g', n, overflow)) \<Longrightarrow>
     r' \<notin> fst ` set (gc_refs s) \<Longrightarrow> l' < length (gc_clients s) \<Longrightarrow>
     (case overflow of None \<Rightarrow> (gc_clients s ! l, Inr []) | Some d \<Rightarrow> decref n d (gc_clients s ! l)) = (cl, Inr ms) \<Longrightarrow>
     gc_step obj s (s\<lparr>gc_refs := xs @ (r, l, g') # ys @ [(r', l', n)], gc_clients := (gc_clients s)[l := cl],
       gc_waits := us @ vs, gc_wire := gc_wire s @ amounts obj ms\<rparr>)"
| release_step:
    "gc_refs s = xs @ (r, l, g) # ys \<Longrightarrow> r \<notin> fst ` set (gc_waits s) \<Longrightarrow>
     decrement_refcnt env g = ([agas_decref g' c], Inr ()) \<Longrightarrow>
     decref g' c (gc_clients s ! l) = (cl, Inr ms) \<Longrightarrow>
     gc_step obj s (s\<lparr>gc_refs := xs @ ys, gc_clients := (gc_clients s)[l := cl],
       gc_wire := gc_wire s @ amounts obj ms\<rparr>)"
| release_local_step:
    "gc_refs s = xs @ (r, l, g) # ys \<Longrightarrow> r \<notin> fst ` set (gc_waits s) \<Longrightarrow>
     decrement_refcnt env g = ([free_component_sync a g'], Inr ()) \<Longrightarrow>
     gc_step obj s (s\<lparr>gc_refs := xs @ ys, gc_freed := gc_freed s + 1\<rparr>)"
| flush_step:
    "l < length (gc_clients s) \<Longrightarrow>
     garbage_collect_non_blocking False (gc_clients s ! l) = (cl, Inr ms) \<Longrightarrow>
     gc_step obj s (s\<lparr>gc_clients := (gc_clients s)[l := cl], gc_wire := gc_wire s @ amounts obj ms\<rparr>)"
| sweep_step:
    "gc_wire s = us @ c # vs \<Longrightarrow>
     decrement_request (- c, obj, obj) (gc_server s) = Some (sv, sweep_done (Inr free_list)) \<Longrightarrow>
     gc_step obj s (s\<lparr>gc_server := sv, gc_wire := us @ vs, gc_freed := gc_freed s + length free_list\<rparr>)"

text \<open>An object just created: one reference with the initial credit, nothing under way.\<close>

definition gc_initial :: "gid_type \<Rightarrow> gc_state \<Rightarrow> bool" where
  "gc_initial obj s \<longleftrightarrow> server_ok obj (gc_server s) \<and> map_find gid_less (refcnts (gc_server s)) obj = None \<and>
     (\<forall>c \<in> set (gc_clients s). client_ok obj c \<and> pending c obj = 0) \<and>
     (\<exists>r l g. gc_refs s = [(r, l, g)] \<and> l < length (gc_clients s) \<and> gid_eq g obj \<and> \<not> gid_is_locked g \<and>
        gid_credit g = HPX_GLOBALCREDIT_INITIAL \<and> \<not> gid_was_split g) \<and>
     gc_waits s = [] \<and> gc_wire s = [] \<and> gc_freed s = 0"

inductive gc_reachable :: "gid_type \<Rightarrow> gc_state \<Rightarrow> bool" for obj where
  initial: "gc_initial obj s \<Longrightarrow> gc_reachable obj s"
| step: "gc_reachable obj s \<Longrightarrow> gc_step obj s s' \<Longrightarrow> gc_reachable obj s'"

section \<open>The invariant\<close>

definition refs_credit :: "(nat \<times> nat \<times> gid_type) list \<Rightarrow> i64" where
  "refs_credit rs = sum_list (map (\<lambda>(_, _, g). gid_credit g) rs)"

definition clients_credit :: "gid_type \<Rightarrow> addressing_service list \<Rightarrow> i64" where
  "clients_credit obj cs = sum_list (map (\<lambda>c. pending c obj) cs)"

definition waits_credit :: "(nat \<times> i64) list \<Rightarrow> i64" where
  "waits_credit ws = sum_list (map (\<lambda>(_, c). incref_amount - c) ws)"

definition gc_credit :: "gid_type \<Rightarrow> gc_state \<Rightarrow> i64" where
  "gc_credit obj s = refs_credit (gc_refs s) + clients_credit obj (gc_clients s) +
     waits_credit (gc_waits s) + sum_list (gc_wire s)"

definition ref_ok :: "gid_type \<Rightarrow> nat \<Rightarrow> nat \<times> nat \<times> gid_type \<Rightarrow> bool" where
  "ref_ok obj n x = (case x of (r, l, g) \<Rightarrow> l < n \<and> gid_eq g obj \<and> \<not> gid_is_locked g \<and> has_credits g \<and> 1 \<le> gid_log2 g)"

text \<open>A reference that was never split is the only one, and nothing is under way.\<close>

definition unsplit_alone :: "gid_type \<Rightarrow> gc_state \<Rightarrow> bool" where
  "unsplit_alone obj s \<longleftrightarrow> (\<forall>x \<in> set (gc_refs s). gid_was_split (snd (snd x)) \<or>
     gc_refs s = [x] \<and> gc_waits s = [] \<and> gc_wire s = [] \<and> clients_credit obj (gc_clients s) = 0)"

definition waits_ok :: "gc_state \<Rightarrow> bool" where
  "waits_ok s \<longleftrightarrow> (\<forall>(r, c) \<in> set (gc_waits s). 0 \<le> c \<and> c \<le> incref_amount \<and>
     (\<exists>l g. (r, l, g) \<in> set (gc_refs s) \<and> gid_was_split g))"

definition gc_parts_ok :: "gid_type \<Rightarrow> gc_state \<Rightarrow> bool" where
  "gc_parts_ok obj s \<longleftrightarrow> (\<forall>x \<in> set (gc_refs s). ref_ok obj (length (gc_clients s)) x) \<and>
     distinct (map fst (gc_refs s)) \<and> (\<forall>c \<in> set (gc_clients s). client_ok obj c) \<and>
     waits_ok s \<and> (\<forall>c \<in> set (gc_wire s). 0 < c) \<and> unsplit_alone obj s"

definition gc_inv :: "gid_type \<Rightarrow> gc_state \<Rightarrow> bool" where
  "gc_inv obj s \<longleftrightarrow> gc_parts_ok obj s \<and>
     (if gc_freed s = 0
      then server_ok obj (gc_server s) \<and> table_count (refcnts (gc_server s)) obj = gc_credit obj s \<and>
        0 < gc_credit obj s
      else gc_freed s = 1 \<and> gc_credit obj s = 0)"

lemma credit_parts [simp]:
  "refs_credit ((r, l, g) # ys) = gid_credit g + refs_credit ys"
  "refs_credit (xs @ ys) = refs_credit xs + refs_credit ys" "refs_credit [] = 0"
  "waits_credit ((r, c) # ws) = incref_amount - c + waits_credit ws"
  "waits_credit (us @ vs) = waits_credit us + waits_credit vs" "waits_credit [] = 0"
  by (simp_all add: refs_credit_def waits_credit_def)

lemma clients_update:
  assumes "l < length cs"
  shows "clients_credit obj (cs[l := c]) = clients_credit obj cs + pending c obj - pending (cs ! l) obj"
  using assms unfolding clients_credit_def by (induction cs arbitrary: l) (auto split: nat.splits)

lemma ref_ok_credit: "ref_ok obj n (r, l, g) \<Longrightarrow> 2 \<le> gid_credit g"
proof -
  assume "ref_ok obj n (r, l, g)"
  then have "has_credits g" "1 \<le> gid_log2 g" by (simp_all add: ref_ok_def)
  then have "(2::int) ^ 1 \<le> 2 ^ gid_log2 g" by (intro power_increasing) auto
  with \<open>has_credits g\<close> show ?thesis by (simp add: gid_credit_def)
qed

lemma credits_nonneg:
  assumes "gc_parts_ok obj s"
  shows "0 \<le> refs_credit (gc_refs s)" "0 \<le> clients_credit obj (gc_clients s)"
    "0 \<le> waits_credit (gc_waits s)" "0 \<le> sum_list (gc_wire s)"
proof -
  show "0 \<le> refs_credit (gc_refs s)"
    unfolding refs_credit_def by (intro sum_list_nonneg) (auto simp: gid_credit_nonneg)
  show "0 \<le> clients_credit obj (gc_clients s)"
    unfolding clients_credit_def using assms by (intro sum_list_nonneg) (auto simp: gc_parts_ok_def requests.pend_nonneg)
  show "0 \<le> waits_credit (gc_waits s)"
    unfolding waits_credit_def using assms by (intro sum_list_nonneg) (auto simp: gc_parts_ok_def waits_ok_def)
  show "0 \<le> sum_list (gc_wire s)"
    using assms by (intro sum_list_nonneg) (auto simp: gc_parts_ok_def less_imp_le)
qed

text \<open>Without credit there is no reference left and nothing under way.\<close>

lemma no_credit:
  assumes "gc_parts_ok obj s" "gc_credit obj s = 0"
  shows "gc_refs s = []" "gc_waits s = []" "gc_wire s = []" "clients_credit obj (gc_clients s) = 0"
proof -
  note n = credits_nonneg [OF assms(1)]
  have z: "refs_credit (gc_refs s) = 0" "clients_credit obj (gc_clients s) = 0" "sum_list (gc_wire s) = 0"
    using assms(2) n by (simp_all add: gc_credit_def)
  show refs: "gc_refs s = []"
  proof (cases "gc_refs s")
    case (Cons x xs)
    obtain r l g where x: "x = (r, l, g)" by (cases x)
    have "ref_ok obj (length (gc_clients s)) (r, l, g)" using assms(1) Cons x by (simp add: gc_parts_ok_def)
    then have "2 \<le> gid_credit g" by (rule ref_ok_credit)
    moreover have "0 \<le> refs_credit xs"
      unfolding refs_credit_def by (intro sum_list_nonneg) (auto simp: gid_credit_nonneg)
    ultimately show ?thesis using z(1) Cons x by (simp add: refs_credit_def)
  qed
  show "gc_waits s = []"
    using assms(1) refs by (cases "gc_waits s") (auto simp: gc_parts_ok_def waits_ok_def)
  show "gc_wire s = []"
  proof (cases "gc_wire s")
    case (Cons c cs)
    then have "0 < c" "0 \<le> sum_list cs"
      using assms(1) by (auto simp: gc_parts_ok_def less_imp_le intro!: sum_list_nonneg)
    with z(3) Cons show ?thesis by simp
  qed
  show "clients_credit obj (gc_clients s) = 0" by (rule z(2))
qed

section \<open>Every step keeps the invariant\<close>

text \<open>Requests for a gid are requests for the object.\<close>

lemma stripped_gid_eq: "gid_eq g h \<Longrightarrow> get_stripped_gid g = get_stripped_gid h"
  by (simp add: get_stripped_gid_def gid_eq_def)

lemma decref_client:
  "gid_eq g obj \<Longrightarrow> decref g c s = (s', Inr ms) \<Longrightarrow> client_dec obj c s = Some (s', amounts obj ms)"
  using stripped_gid_eq [of g obj] by (simp add: client_dec_def decref_def)

lemma incref_client:
  assumes "gid_eq g obj" "\<not> gid_eq obj invalid_gid" "agas_incref g c s = (s', Inr r)"
  shows "client_inc obj c s = Some (s', incref_to_send r)"
proof -
  have "\<not> id_eq (id_type_of_gid g unmanaged) invalid_id"
    using assms(1,2) gid_eq_sym gid_eq_trans by (intro keep_alive_valid) blast
  moreover have "\<not> id_eq (id_type_of_gid (gid_copy obj) unmanaged) invalid_id"
    using assms(2) by (intro keep_alive_valid) simp
  moreover have "get_stripped_gid (gid_copy obj) = get_stripped_gid g"
    using assms(1) gid_eq_sym by (intro stripped_gid_eq) simp
  moreover have "\<not> gid_is_locked g" using assms(3) by (auto simp: agas_incref_def split: if_splits)
  ultimately have "incref_async (gid_copy obj) c (id_type_of_gid (gid_copy obj) unmanaged) s = (s', Inr r)"
    using assms(3) by (simp only: agas_incref_def incref_async_def if_False)
  then show ?thesis by (simp add: client_inc_def agas_incref_def)
qed

lemma log2_from_credit: "2 \<le> gid_credit g \<Longrightarrow> has_credits g \<and> 1 \<le> gid_log2 g"
  by (cases "gid_log2 g") (auto simp: gid_credit_def split: if_splits)

lemma others_split:
  assumes "gc_parts_ok obj s" "gc_refs s = xs @ (r, l, g) # ys" "x \<in> set xs \<union> set ys"
  shows "gid_was_split (snd (snd x))"
proof (rule ccontr)
  assume "\<not> gid_was_split (snd (snd x))"
  moreover have "x \<in> set (gc_refs s)" using assms(2,3) by auto
  ultimately have "gc_refs s = [x]" using assms(1) by (auto simp: gc_parts_ok_def unsplit_alone_def)
  with assms(2,3) show False by (auto simp: Cons_eq_append_conv append_eq_Cons_conv)
qed

lemma all_split_alone: "\<forall>x \<in> set (gc_refs s). gid_was_split (snd (snd x)) \<Longrightarrow> unsplit_alone obj s"
  by (simp add: unsplit_alone_def)

lemma busy_all_split:
  assumes "gc_parts_ok obj s" "gc_waits s \<noteq> [] \<or> gc_wire s \<noteq> []"
  shows "\<forall>x \<in> set (gc_refs s). gid_was_split (snd (snd x))"
  using assms by (auto simp: gc_parts_ok_def unsplit_alone_def)

text \<open>Changing the gid of one reference, and adding a reference.\<close>

lemma waits_ok_change:
  assumes "waits_ok s" "gc_refs s = xs @ (r, l, g) # ys" "gid_was_split g'"
    "set (gc_refs s') \<supseteq> set (xs @ (r, l, g') # ys)"
    "\<forall>w \<in> set (gc_waits s'). w \<in> set (gc_waits s) \<or> fst w = r \<and> 0 \<le> snd w \<and> snd w \<le> incref_amount"
  shows "waits_ok s'"
  unfolding waits_ok_def
proof safe
  fix q c assume w: "(q, c) \<in> set (gc_waits s')"
  have new: "(r, l, g') \<in> set (gc_refs s')" using assms(4) by auto
  consider "(q, c) \<in> set (gc_waits s)" | "q = r" "0 \<le> c" "c \<le> incref_amount" using assms(5) w by fastforce
  then have "0 \<le> c \<and> c \<le> incref_amount \<and> (\<exists>l g. (q, l, g) \<in> set (gc_refs s') \<and> gid_was_split g)"
  proof cases
    case 1
    then obtain m h where h: "0 \<le> c" "c \<le> incref_amount" "(q, m, h) \<in> set (gc_refs s)" "gid_was_split h"
      using assms(1) by (fastforce simp: waits_ok_def)
    have "(q, m, h) = (r, l, g) \<or> (q, m, h) \<in> set xs \<union> set ys" using h(3) assms(2) by auto
    then show ?thesis using h new assms(3,4) by auto
  next
    case 2
    then show ?thesis using new assms(3) by blast
  qed
  then show "0 \<le> c" "c \<le> incref_amount" "\<exists>l g. (q, l, g) \<in> set (gc_refs s') \<and> gid_was_split g" by auto
qed

lemma client_facts:
  assumes "gc_parts_ok obj s" "gc_refs s = xs @ (r, l, g) # ys"
  shows "l < length (gc_clients s)" "client_ok obj (gc_clients s ! l)" "\<not> gid_eq obj invalid_gid"
    "ref_ok obj (length (gc_clients s)) (r, l, g)" "gid_eq g obj" "\<not> gid_is_locked g" "has_credits g"
    "1 \<le> gid_log2 g" "2 \<le> gid_credit g" "\<not> gid_eq g invalid_gid"
proof -
  show ok: "ref_ok obj (length (gc_clients s)) (r, l, g)" using assms by (simp add: gc_parts_ok_def)
  then show l: "l < length (gc_clients s)" and e: "gid_eq g obj" and "\<not> gid_is_locked g" "has_credits g"
    "1 \<le> gid_log2 g" by (simp_all add: ref_ok_def)
  show "2 \<le> gid_credit g" using ok by (rule ref_ok_credit)
  show c: "client_ok obj (gc_clients s ! l)" using assms(1) l by (simp add: gc_parts_ok_def)
  then show i: "\<not> gid_eq obj invalid_gid" by (simp add: client_ok_def)
  then show "\<not> gid_eq g invalid_gid" using e gid_eq_sym gid_eq_trans by blast
qed

lemma parts_split:
  assumes "gc_parts_ok obj s" "gc_refs s = xs @ (r, l, g) # ys"
    "split_gid_if_needed g = Some (Inr (g', split_ready n))"
    "r' \<notin> fst ` set (gc_refs s)" "l' < length (gc_clients s)"
  defines "s' \<equiv> s\<lparr>gc_refs := xs @ (r, l, g') # ys @ [(r', l', n)]\<rparr>"
  shows "gc_parts_ok obj s'" "gc_credit obj s' = gc_credit obj s"
proof -
  note f = client_facts [OF assms(1,2)]
  have "1 < gid_log2 g"
  proof (rule ccontr)
    assume "\<not> 1 < gid_log2 g"
    then have "gid_log2 g = 1" using f(8) by simp
    from split_needs_incref [OF f(6,7) this f(10)] assms(3) show False by simp
  qed
  then obtain a b where ab: "split_gid_if_needed g = Some (Inr (a, split_ready b))"
    "gid_credit a + gid_credit b = gid_credit g" "gid_credit a = gid_credit b" "gid_was_split a" "gid_was_split b"
    "gid_eq a g" "gid_eq b g" "\<not> gid_is_locked a" "\<not> gid_is_locked b" "has_credits a" "has_credits b"
    using split_halves [OF f(6,7)] by blast
  then have eq: "g' = a" "n = b" using assms(3) by simp_all
  have "(2::int) ^ 2 \<le> 2 ^ gid_log2 g" using \<open>1 < gid_log2 g\<close> by (intro power_increasing) auto
  then have c4: "4 \<le> gid_credit g" using f(7) by (simp add: gid_credit_def)
  then have c2: "2 \<le> gid_credit a" "2 \<le> gid_credit b" using ab(2,3) by linarith+
  have new: "ref_ok obj (length (gc_clients s)) (r, l, a)" "ref_ok obj (length (gc_clients s)) (r', l', b)"
    using log2_from_credit [OF c2(1)] log2_from_credit [OF c2(2)] ab f(1,5) assms(5) gid_eq_trans
    by (auto simp: ref_ok_def)
  have w: "waits_ok s'"
    by (rule waits_ok_change [OF _ assms(2) ab(4)]) (use assms(1) in \<open>auto simp: gc_parts_ok_def s'_def eq\<close>)
  have sp: "unsplit_alone obj s'"
    using others_split [OF assms(1,2)] ab(4,5) by (intro all_split_alone) (auto simp: s'_def eq)
  show "gc_parts_ok obj s'"
    using assms(1,2,4) new w sp unfolding gc_parts_ok_def by (auto simp: s'_def eq)
  show "gc_credit obj s' = gc_credit obj s"
    using assms(2) ab(2) by (simp add: gc_credit_def s'_def eq refs_credit_def)
qed

lemma clients_ok_update:
  "\<forall>c \<in> set cs. client_ok obj c \<Longrightarrow> client_ok obj c' \<Longrightarrow> \<forall>c \<in> set (cs[l := c']). client_ok obj c"
  by (auto dest!: subsetD [OF set_update_subset_insert])

lemma parts_exhausted:
  assumes "gc_parts_ok obj s" "gc_refs s = xs @ (r, l, g) # ys"
    "split_gid_if_needed g = Some (Inr (g', split_incref n c))"
    "agas_incref n c (gc_clients s ! l) = (cl, Inr out)"
  defines "s' \<equiv> s\<lparr>gc_refs := xs @ (r, l, g') # ys, gc_clients := (gc_clients s)[l := cl],
       gc_waits := (r, incref_to_send out) # gc_waits s\<rparr>"
  shows "gc_parts_ok obj s'" "gc_credit obj s' = gc_credit obj s"
proof -
  note f = client_facts [OF assms(1,2)]
  have "\<not> 1 < gid_log2 g"
  proof
    assume "1 < gid_log2 g"
    from split_halves [OF f(6,7) this] obtain a b where
      "split_gid_if_needed g = Some (Inr (a, split_ready b))" by metis
    with assms(3) show False by simp
  qed
  then have l1: "gid_log2 g = 1" using f(8) by simp
  have eq: "g' = set_credit_split_mask_for_gid g" "n = set_credit_split_mask_for_gid g" "c = incref_amount"
    using split_needs_incref [OF f(6,7) l1 f(10)] assms(3) by simp_all
  have g': "gid_was_split g'" "gid_eq g' obj" "\<not> gid_is_locked g'" "gid_credit g' = gid_credit g"
    using f(5,6) by (auto simp: eq mask_bits gid_eq_bits)
  have "client_inc obj c (gc_clients s ! l) = Some (cl, incref_to_send out)"
    using g'(2) f(3) assms(4) by (intro incref_client [of n]) (simp_all add: eq)
  moreover have c0: "0 < c" by (simp add: eq HPX_GLOBALCREDIT_INITIAL_def)
  ultimately have i: "client_ok obj cl" "0 \<le> incref_to_send out" "incref_to_send out \<le> c"
    "pending cl obj = pending (gc_clients s ! l) obj - (c - incref_to_send out)"
    using requests.inc_step [OF f(2)] by blast+
  have new: "ref_ok obj (length (gc_clients s)) (r, l, g')"
    using log2_from_credit [of g'] f(1,9) g' by (simp add: ref_ok_def)
  have w: "waits_ok s'"
    by (rule waits_ok_change [OF _ assms(2) g'(1)])
      (use assms(1) i in \<open>auto simp: gc_parts_ok_def s'_def eq(3)\<close>)
  have sp: "unsplit_alone obj s'"
    using others_split [OF assms(1,2)] g'(1) by (intro all_split_alone) (auto simp: s'_def)
  have cl: "\<forall>c \<in> set ((gc_clients s)[l := cl]). client_ok obj c"
    using assms(1) i(1) by (intro clients_ok_update) (simp_all add: gc_parts_ok_def)
  show "gc_parts_ok obj s'"
    using assms(1,2) new w sp cl unfolding gc_parts_ok_def by (auto simp: s'_def)
  show "gc_credit obj s' = gc_credit obj s"
    using assms(2) g'(4) i(4) eq(3) by (simp add: gc_credit_def s'_def clients_update [OF f(1)])
qed

lemma parts_fill:
  assumes "gc_parts_ok obj s" "gc_waits s = us @ (r, 0) # vs" "gc_refs s = xs @ (r, l, g) # ys"
    "postprocess_incref g = Some (Inr (g', n, overflow))"
    "r' \<notin> fst ` set (gc_refs s)" "l' < length (gc_clients s)"
    "(case overflow of None \<Rightarrow> (gc_clients s ! l, Inr []) | Some d \<Rightarrow> decref n d (gc_clients s ! l)) = (cl, Inr ms)"
  defines "s' \<equiv> s\<lparr>gc_refs := xs @ (r, l, g') # ys @ [(r', l', n)], gc_clients := (gc_clients s)[l := cl],
       gc_waits := us @ vs, gc_wire := gc_wire s @ amounts obj ms\<rparr>"
  shows "gc_parts_ok obj s'" "gc_credit obj s' = gc_credit obj s"
proof -
  note f = client_facts [OF assms(1,3)]
  have gs: "gid_was_split g" using busy_all_split [OF assms(1)] assms(2,3) by auto
  obtain a b d where p: "postprocess_incref g = Some (Inr (a, b, d))"
    "gid_credit a = HPX_GLOBALCREDIT_INITIAL" "gid_credit b = HPX_GLOBALCREDIT_INITIAL"
    "d = (if 2 < gid_credit g then Some (gid_credit g - 2) else None)"
    "gid_was_split a" "gid_was_split b" "gid_eq a g" "gid_eq b g" "\<not> gid_is_locked a" "\<not> gid_is_locked b"
    using postprocess_spec [OF f(6) gs f(9,10)] by metis
  then have eq: "g' = a" "n = b" "overflow = d" using assms(4) by simp_all
  have e: "gid_eq a obj" "gid_eq b obj" using p(7,8) f(5) gid_eq_trans by blast+
  have big: "2 \<le> HPX_GLOBALCREDIT_INITIAL" by (simp add: HPX_GLOBALCREDIT_INITIAL_def)
  have cl: "client_ok obj cl" "\<forall>m \<in> set (amounts obj ms). 0 < m"
    "pending cl obj + sum_list (amounts obj ms) = pending (gc_clients s ! l) obj + (gid_credit g - 2)"
  proof -
    have "client_ok obj cl \<and> (\<forall>m \<in> set (amounts obj ms). 0 < m) \<and>
      pending cl obj + sum_list (amounts obj ms) = pending (gc_clients s ! l) obj + (gid_credit g - 2)"
    proof (cases "2 < gid_credit g")
      case True
      then have "client_dec obj (gid_credit g - 2) (gc_clients s ! l) = Some (cl, amounts obj ms)"
        using assms(7) e(2) by (intro decref_client [of n]) (simp_all add: eq p(4))
      with True show ?thesis using requests.dec_step [OF f(2), of "gid_credit g - 2"] by simp
    next
      case False
      then show ?thesis using assms(7) f(2,9) by (simp add: eq p(4) amounts_def)
    qed
    then show "client_ok obj cl" "\<forall>m \<in> set (amounts obj ms). 0 < m"
      "pending cl obj + sum_list (amounts obj ms) = pending (gc_clients s ! l) obj + (gid_credit g - 2)"
      by blast+
  qed
  have new: "ref_ok obj (length (gc_clients s)) (r, l, a)" "ref_ok obj (length (gc_clients s)) (r', l', b)"
    using log2_from_credit [of a] log2_from_credit [of b] p(2,3,9,10) e big f(1) assms(6)
    by (simp_all add: ref_ok_def)
  have w: "waits_ok s'"
    by (rule waits_ok_change [OF _ assms(3) p(5)]) (use assms(1,2) in \<open>auto simp: gc_parts_ok_def s'_def eq\<close>)
  have sp: "unsplit_alone obj s'"
    using others_split [OF assms(1,3)] p(5,6) by (intro all_split_alone) (auto simp: s'_def eq)
  have cls: "\<forall>c \<in> set ((gc_clients s)[l := cl]). client_ok obj c"
    using assms(1) cl(1) by (intro clients_ok_update) (simp_all add: gc_parts_ok_def)
  show "gc_parts_ok obj s'"
    using assms(1,3,5) new w sp cls cl(2) unfolding gc_parts_ok_def by (auto simp: s'_def eq)
  show "gc_credit obj s' = gc_credit obj s"
    using assms(2,3) p(2,3) cl(3) by (simp add: gc_credit_def s'_def eq clients_update [OF f(1)])
qed

lemma waits_ok_remove:
  assumes "waits_ok s" "gc_refs s = xs @ (r, l, g) # ys" "r \<notin> fst ` set (gc_waits s)"
    "gc_refs s' = xs @ ys" "gc_waits s' = gc_waits s"
  shows "waits_ok s'"
  unfolding waits_ok_def
proof safe
  fix q c assume w: "(q, c) \<in> set (gc_waits s')"
  then obtain m h where h: "0 \<le> c" "c \<le> incref_amount" "(q, m, h) \<in> set (gc_refs s)" "gid_was_split h"
    using assms(1,5) by (fastforce simp: waits_ok_def)
  have "q \<noteq> r" using w assms(3,5) by force
  then have "(q, m, h) \<in> set (gc_refs s')" using h(3) assms(2,4) by auto
  with h show "0 \<le> c" "c \<le> incref_amount" "\<exists>l g. (q, l, g) \<in> set (gc_refs s') \<and> gid_was_split g" by blast+
qed

lemma decrement_refcnt_decref:
  "decrement_refcnt env g = ([agas_decref g' c], Inr ()) \<Longrightarrow> g' = g \<and> c = gid_credit g"
  by (auto simp: decrement_refcnt_def hpx_assert_def Let_def split: if_splits option.splits sum.splits)

lemma decrement_refcnt_local:
  "decrement_refcnt env g = ([free_component_sync a g'], Inr ()) \<Longrightarrow> \<not> gid_was_split g"
  by (auto simp: decrement_refcnt_def hpx_assert_def Let_def split: if_splits option.splits sum.splits)

lemma parts_release:
  assumes "gc_parts_ok obj s" "gc_refs s = xs @ (r, l, g) # ys" "r \<notin> fst ` set (gc_waits s)"
    "decrement_refcnt env g = ([agas_decref g' c], Inr ())" "decref g' c (gc_clients s ! l) = (cl, Inr ms)"
  defines "s' \<equiv> s\<lparr>gc_refs := xs @ ys, gc_clients := (gc_clients s)[l := cl], gc_wire := gc_wire s @ amounts obj ms\<rparr>"
  shows "gc_parts_ok obj s'" "gc_credit obj s' = gc_credit obj s"
proof -
  note f = client_facts [OF assms(1,2)]
  have eq: "g' = g" "c = gid_credit g" using decrement_refcnt_decref [OF assms(4)] by simp_all
  have d: "client_dec obj c (gc_clients s ! l) = Some (cl, amounts obj ms)"
    using assms(5) f(5) by (intro decref_client [of g']) (simp_all add: eq)
  have "0 < c" using f(9) by (simp add: eq)
  note cl = requests.dec_step [OF f(2) this d]
  have w: "waits_ok s'"
    by (rule waits_ok_remove [OF _ assms(2,3)]) (use assms(1) in \<open>simp_all add: gc_parts_ok_def s'_def\<close>)
  have sp: "unsplit_alone obj s'"
    using others_split [OF assms(1,2)] by (intro all_split_alone) (auto simp: s'_def)
  have cls: "\<forall>c \<in> set ((gc_clients s)[l := cl]). client_ok obj c"
    using assms(1) cl(1) by (intro clients_ok_update) (simp_all add: gc_parts_ok_def)
  show "gc_parts_ok obj s'"
    using assms(1,2) w sp cls cl(2) unfolding gc_parts_ok_def by (auto simp: s'_def)
  show "gc_credit obj s' = gc_credit obj s"
    using assms(2) cl(3) eq(2) by (simp add: gc_credit_def s'_def clients_update [OF f(1)])
qed

lemma parts_release_local:
  assumes "gc_parts_ok obj s" "gc_refs s = xs @ (r, l, g) # ys"
    "decrement_refcnt env g = ([free_component_sync a g'], Inr ())"
  shows "gc_parts_ok obj (s\<lparr>gc_refs := xs @ ys, gc_freed := k\<rparr>)"
    "gc_credit obj (s\<lparr>gc_refs := xs @ ys, gc_freed := k\<rparr>) = 0"
proof -
  have ns: "\<not> gid_was_split g" by (rule decrement_refcnt_local [OF assms(3)])
  then have alone: "gc_refs s = [(r, l, g)]" "gc_waits s = []" "gc_wire s = []" "clients_credit obj (gc_clients s) = 0"
    using assms(1,2) by (auto simp: gc_parts_ok_def unsplit_alone_def)
  then have "xs = []" "ys = []" using assms(2) by (auto simp: Cons_eq_append_conv append_eq_Cons_conv)
  with alone assms(1) show "gc_parts_ok obj (s\<lparr>gc_refs := xs @ ys, gc_freed := k\<rparr>)"
    "gc_credit obj (s\<lparr>gc_refs := xs @ ys, gc_freed := k\<rparr>) = 0"
    by (simp_all add: gc_parts_ok_def waits_ok_def unsplit_alone_def gc_credit_def)
qed

lemma parts_flush:
  assumes "gc_parts_ok obj s" "l < length (gc_clients s)"
    "garbage_collect_non_blocking False (gc_clients s ! l) = (cl, Inr ms)"
  defines "s' \<equiv> s\<lparr>gc_clients := (gc_clients s)[l := cl], gc_wire := gc_wire s @ amounts obj ms\<rparr>"
  shows "gc_parts_ok obj s'" "gc_credit obj s' = gc_credit obj s"
proof -
  have ok: "client_ok obj (gc_clients s ! l)" using assms(1,2) by (simp add: gc_parts_ok_def)
  have "client_flush obj (gc_clients s ! l) = Some (cl, amounts obj ms)" using assms(3) by (simp add: client_flush_def)
  note cl = requests.flush_step [OF ok this]
  have w: "waits_ok s'" using assms(1) by (simp add: gc_parts_ok_def waits_ok_def s'_def)
  have cls: "\<forall>c \<in> set ((gc_clients s)[l := cl]). client_ok obj c"
    using assms(1) cl(1) by (intro clients_ok_update) (simp_all add: gc_parts_ok_def)
  have sp: "unsplit_alone obj s'"
  proof (cases "\<forall>x \<in> set (gc_refs s). gid_was_split (snd (snd x))")
    case True
    then show ?thesis by (intro all_split_alone) (simp add: s'_def)
  next
    case False
    then have z: "clients_credit obj (gc_clients s) = 0" "gc_waits s = []" "gc_wire s = []"
      and u: "unsplit_alone obj s" using assms(1) by (auto simp: gc_parts_ok_def unsplit_alone_def)
    have "pending (gc_clients s ! l) obj = 0"
    proof -
      have nn: "\<forall>x \<in> set (map (\<lambda>c. pending c obj) (gc_clients s)). 0 \<le> x"
        using assms(1) by (auto simp: gc_parts_ok_def requests.pend_nonneg)
      with z(1) have "\<forall>x \<in> set (map (\<lambda>c. pending c obj) (gc_clients s)). x = 0"
        unfolding clients_credit_def using sum_list_nonneg_eq_0_iff by blast
      then show ?thesis using assms(2) by simp
    qed
    then have "sum_list (amounts obj ms) = 0" using cl(4) by simp
    then have "amounts obj ms = []"
      using cl(2) sum_list_nonneg_eq_0_iff [of "amounts obj ms"] by (cases "amounts obj ms") fastforce+
    with u z show ?thesis using cl(3) \<open>pending (gc_clients s ! l) obj = 0\<close>
      by (simp add: unsplit_alone_def s'_def clients_update [OF assms(2)])
  qed
  show "gc_parts_ok obj s'"
    using assms(1) w sp cls cl(2) unfolding gc_parts_ok_def by (auto simp: s'_def)
  show "gc_credit obj s' = gc_credit obj s"
    using cl(3,4) by (simp add: gc_credit_def s'_def clients_update [OF assms(2)])
qed

lemma parts_server:
  assumes "gc_parts_ok obj s" "gc_waits s = us @ (r, c) # vs" "0 \<le> d" "d \<le> incref_amount"
  shows "gc_parts_ok obj (s\<lparr>gc_server := sv, gc_waits := us @ (r, d) # vs\<rparr>)"
  using assms busy_all_split [OF assms(1)]
  by (auto simp: gc_parts_ok_def waits_ok_def unsplit_alone_def)

lemma parts_sweep:
  assumes "gc_parts_ok obj s" "gc_wire s = us @ c # vs"
  shows "gc_parts_ok obj (s\<lparr>gc_server := sv, gc_wire := us @ vs, gc_freed := k\<rparr>)"
  using assms busy_all_split [OF assms(1)]
  by (auto simp: gc_parts_ok_def waits_ok_def unsplit_alone_def)

lemma gc_inv_keep:
  assumes "gc_inv obj s" "gc_parts_ok obj s'" "gc_credit obj s' = gc_credit obj s"
    "gc_server s' = gc_server s" "gc_freed s' = gc_freed s"
  shows "gc_inv obj s'"
  using assms unfolding gc_inv_def by (auto split: if_splits)

lemma gc_inv_alive:
  assumes "gc_inv obj s" "gc_refs s \<noteq> [] \<or> gc_waits s \<noteq> [] \<or> gc_wire s \<noteq> []"
  shows "gc_freed s = 0" "server_ok obj (gc_server s)"
    "table_count (refcnts (gc_server s)) obj = gc_credit obj s" "gc_parts_ok obj s"
  using assms no_credit [of obj s] by (auto simp: gc_inv_def split: if_splits)

lemma gc_inv_step: "gc_step obj s s' \<Longrightarrow> gc_inv obj s \<Longrightarrow> gc_inv obj s'"
proof (induction rule: gc_step.induct)
  case (split_step s xs r l g ys g' n r' l')
  have "gc_parts_ok obj s" using split_step.prems by (simp add: gc_inv_def)
  with split_step show ?case using parts_split [of obj s xs r l g ys g' n r' l'] gc_inv_keep by simp
next
  case (exhausted_step s xs r l g ys g' n c cl out)
  have "gc_parts_ok obj s" using exhausted_step.prems by (simp add: gc_inv_def)
  with exhausted_step show ?case using parts_exhausted [of obj s xs r l g ys g' n c cl out] gc_inv_keep by simp
next
  case (grant_step s us r c vs sv x)
  note a = gc_inv_alive [OF grant_step.prems]
  have p: "gc_freed s = 0" "server_ok obj (gc_server s)" "table_count (refcnts (gc_server s)) obj = gc_credit obj s"
    "gc_parts_ok obj s" using a grant_step.hyps(1) by simp_all
  have "server_incr obj c (gc_server s) = Some sv" using grant_step.hyps(3) by (simp add: server_incr_def)
  note i = primary.incr_step [OF p(2) grant_step.hyps(2) this]
  have "gc_parts_ok obj (s\<lparr>gc_server := sv, gc_waits := us @ (r, 0) # vs\<rparr>)"
    by (rule parts_server [OF p(4) grant_step.hyps(1)]) (simp_all add: HPX_GLOBALCREDIT_INITIAL_def)
  moreover have "0 < gc_credit obj s" using grant_step.prems p(1) by (simp add: gc_inv_def)
  ultimately show ?case using p i grant_step.hyps(1,2) by (simp add: gc_inv_def gc_credit_def)
next
  case (fill_step s us r vs xs l g ys g' n overflow r' l' cl ms)
  have "gc_parts_ok obj s" using fill_step.prems by (simp add: gc_inv_def)
  with fill_step show ?case
    using parts_fill [of obj s us r vs xs l g ys g' n overflow r' l' cl ms] gc_inv_keep by simp
next
  case (release_step s xs r l g ys env g' c cl ms)
  have "gc_parts_ok obj s" using release_step.prems by (simp add: gc_inv_def)
  with release_step show ?case
    using parts_release [of obj s xs r l g ys env g' c cl ms] gc_inv_keep by simp
next
  case (release_local_step s xs r l g ys env a g')
  have p: "gc_freed s = 0" "gc_parts_ok obj s"
    using gc_inv_alive [OF release_local_step.prems] release_local_step.hyps(1) by simp_all
  show ?case
    using parts_release_local [OF p(2) release_local_step.hyps(1,3), of "gc_freed s + 1"] p(1)
    by (simp add: gc_inv_def)
next
  case (flush_step l s cl ms)
  have "gc_parts_ok obj s" using flush_step.prems by (simp add: gc_inv_def)
  with flush_step show ?case using parts_flush [of obj s l cl ms] gc_inv_keep by simp
next
  case (sweep_step s us c vs sv free_list)
  have p: "gc_freed s = 0" "server_ok obj (gc_server s)" "table_count (refcnts (gc_server s)) obj = gc_credit obj s"
    "gc_parts_ok obj s" using gc_inv_alive [OF sweep_step.prems] sweep_step.hyps(1) by simp_all
  have d: "server_decr obj c (gc_server s) = Some (sv, length free_list)"
    using sweep_step.hyps(2) by (simp add: server_decr_def)
  have c0: "0 < c" using p(4) sweep_step.hyps(1) by (simp add: gc_parts_ok_def)
  define s' where "s' = s\<lparr>gc_server := sv, gc_wire := us @ vs, gc_freed := gc_freed s + length free_list\<rparr>"
  have ok': "gc_parts_ok obj s'" unfolding s'_def by (rule parts_sweep [OF p(4) sweep_step.hyps(1)])
  have cr: "gc_credit obj s' = gc_credit obj s - c"
    using sweep_step.hyps(1) by (simp add: gc_credit_def s'_def)
  have "0 \<le> gc_credit obj s'" using credits_nonneg [OF ok'] by (simp add: gc_credit_def)
  then have le: "c \<le> table_count (refcnts (gc_server s)) obj" using cr p(3) by simp
  have "gc_inv obj s'"
  proof (cases "c = gc_credit obj s")
    case True
    then show ?thesis using primary.decr_step(1) [OF p(2) c0 le d] p(1,3) ok' cr by (simp add: gc_inv_def s'_def)
  next
    case False
    then show ?thesis
      using primary.decr_step [OF p(2) c0 le d] p(1,3) ok' cr le by (simp add: gc_inv_def s'_def)
  qed
  then show ?case by (simp add: s'_def)
qed

lemma gc_inv_initial: "gc_initial obj s \<Longrightarrow> gc_inv obj s"
proof -
  assume i: "gc_initial obj s"
  then obtain r l g where r: "gc_refs s = [(r, l, g)]" "l < length (gc_clients s)" "gid_eq g obj"
    "\<not> gid_is_locked g" "gid_credit g = HPX_GLOBALCREDIT_INITIAL"
    by (auto simp: gc_initial_def)
  have "2 \<le> gid_credit g" by (simp add: r(5) HPX_GLOBALCREDIT_INITIAL_def)
  then have ok: "ref_ok obj (length (gc_clients s)) (r, l, g)" using log2_from_credit r by (simp add: ref_ok_def)
  have z: "clients_credit obj (gc_clients s) = 0"
  proof -
    have "map (\<lambda>c. pending c obj) (gc_clients s) = map (\<lambda>_. 0) (gc_clients s)"
      using i by (intro map_cong) (auto simp: gc_initial_def)
    then show ?thesis unfolding clients_credit_def by (simp only: sum_list_0)
  qed
  then have "gc_credit obj s = HPX_GLOBALCREDIT_INITIAL" using i r by (simp add: gc_initial_def gc_credit_def)
  with i r(1) ok z show ?thesis
    by (simp add: gc_inv_def gc_initial_def gc_parts_ok_def waits_ok_def unsplit_alone_def table_count_absent
        HPX_GLOBALCREDIT_INITIAL_def)
qed

lemma gc_inv_reachable: "gc_reachable obj s \<Longrightarrow> gc_inv obj s"
  by (induction rule: gc_reachable.induct) (auto intro: gc_inv_initial gc_inv_step)

section \<open>Progress\<close>

lemma gc_refs_empty_waits: "gc_parts_ok obj s \<Longrightarrow> gc_refs s = [] \<Longrightarrow> gc_waits s = []"
  by (cases "gc_waits s") (auto simp: gc_parts_ok_def waits_ok_def)

lemma sweep_enabled:
  assumes "gc_inv obj s" "gc_wire s = us @ c # vs"
  obtains sv fl where "decrement_request (- c, obj, obj) (gc_server s) = Some (sv, sweep_done (Inr fl))"
proof -
  have p: "server_ok obj (gc_server s)" "table_count (refcnts (gc_server s)) obj = gc_credit obj s"
    "gc_parts_ok obj s" using gc_inv_alive [OF assms(1)] assms(2) by simp_all
  have c0: "0 < c" using p(3) assms(2) by (simp add: gc_parts_ok_def)
  have "0 \<le> sum_list us" "0 \<le> sum_list vs"
    using p(3) assms(2) by (auto simp: gc_parts_ok_def less_imp_le intro!: sum_list_nonneg)
  then have "c \<le> table_count (refcnts (gc_server s)) obj"
    using credits_nonneg [OF p(3)] p(2) assms(2) by (simp add: gc_credit_def)
  from primary.decr_total [OF p(1) c0 this] show ?thesis
    using that by (auto simp: server_decr_def split: option.splits sum.splits sweep.splits)
qed

lemma flush_enabled:
  assumes "client_ok obj cl"
  obtains cl' ms where "garbage_collect_non_blocking False cl = (cl', Inr ms)" "pending cl' obj = 0"
    "sum_list (amounts obj ms) = pending cl obj"
  using requests.flush_law [OF assms] that
  by (auto simp: client_flush_def split: prod.splits sum.splits)

definition gc_work :: "gid_type \<Rightarrow> gc_state \<Rightarrow> nat" where
  "gc_work obj s = nat (2 * clients_credit obj (gc_clients s) + sum_list (gc_wire s))"

lemma gc_work_step:
  assumes "gc_inv obj s" "gc_refs s = []" "gc_freed s = 0"
  obtains s' where "gc_step obj s s'" "gc_refs s' = []" "gc_work obj s' < gc_work obj s"
proof -
  have p: "gc_parts_ok obj s" "0 < gc_credit obj s" using assms by (simp_all add: gc_inv_def)
  note nn = credits_nonneg [OF p(1)]
  have w: "gc_waits s = []" by (rule gc_refs_empty_waits [OF p(1) assms(2)])
  show ?thesis
  proof (cases "gc_wire s")
    case (Cons c vs)
    then have wire: "gc_wire s = [] @ c # vs" by simp
    obtain sv fl where d: "decrement_request (- c, obj, obj) (gc_server s) = Some (sv, sweep_done (Inr fl))"
      by (rule sweep_enabled [OF assms(1) wire])
    have "0 < c" "0 \<le> sum_list vs" using p(1) Cons
      by (auto simp: gc_parts_ok_def less_imp_le intro!: sum_list_nonneg)
    then have "gc_work obj (s\<lparr>gc_server := sv, gc_wire := [] @ vs, gc_freed := gc_freed s + length fl\<rparr>) < gc_work obj s"
      using Cons nn(2) by (simp add: gc_work_def)
    then show ?thesis using that [OF gc_step.sweep_step [OF wire d]] assms(2) by simp
  next
    case Nil
    then have pos: "0 < clients_credit obj (gc_clients s)" using p(2) assms(2) w by (simp add: gc_credit_def)
    have "\<exists>l < length (gc_clients s). 0 < pending (gc_clients s ! l) obj"
    proof (rule ccontr)
      assume "\<not> ?thesis"
      then have "\<forall>c \<in> set (gc_clients s). pending c obj \<le> 0" by (metis in_set_conv_nth not_le)
      then have "clients_credit obj (gc_clients s) \<le> 0"
        unfolding clients_credit_def by (intro sum_list_nonpos) auto
      with pos show False by simp
    qed
    then obtain l where l: "l < length (gc_clients s)" "0 < pending (gc_clients s ! l) obj" by blast
    have "client_ok obj (gc_clients s ! l)" using p(1) l(1) by (simp add: gc_parts_ok_def)
    then obtain cl ms where f: "garbage_collect_non_blocking False (gc_clients s ! l) = (cl, Inr ms)"
      "pending cl obj = 0" "sum_list (amounts obj ms) = pending (gc_clients s ! l) obj" by (rule flush_enabled)
    define s' where "s' = s\<lparr>gc_clients := (gc_clients s)[l := cl], gc_wire := gc_wire s @ amounts obj ms\<rparr>"
    have st: "gc_step obj s s'" unfolding s'_def by (rule gc_step.flush_step [OF l(1) f(1)])
    have "gc_parts_ok obj s'" unfolding s'_def by (rule parts_flush [OF p(1) l(1) f(1)])
    then have "0 \<le> clients_credit obj (gc_clients s')" by (rule credits_nonneg)
    then have "gc_work obj s' < gc_work obj s"
      using l f Nil pos by (simp add: gc_work_def s'_def clients_update)
    then show ?thesis using that [OF st] assms(2) by (simp add: s'_def)
  qed
qed

lemma gc_terminates: "gc_inv obj s \<Longrightarrow> gc_refs s = [] \<Longrightarrow> \<exists>s'. (gc_step obj)\<^sup>*\<^sup>* s s' \<and> gc_freed s' = 1"
proof (induction "gc_work obj s" arbitrary: s rule: less_induct)
  case less
  show ?case
  proof (cases "gc_freed s = 0")
    case True
    obtain s' where s': "gc_step obj s s'" "gc_refs s' = []" "gc_work obj s' < gc_work obj s"
      by (rule gc_work_step [OF less.prems True])
    from less.hyps [OF s'(3) gc_inv_step [OF s'(1) less.prems(1)] s'(2)] s'(1) show ?thesis
      by (meson converse_rtranclp_into_rtranclp)
  next
    case False
    then show ?thesis using less.prems(1) by (intro exI [of _ s]) (simp add: gc_inv_def)
  qed
qed

section \<open>A concrete run\<close>

text \<open>An object of the example table, its first reference, and two localities.\<close>

definition example_ref :: gid_type where
  "example_ref = \<lparr>id_msb = 0x15F000001, id_lsb = 18\<rparr>"

definition example_gc :: gc_state where
  "example_gc = \<lparr>gc_server = example_primary,
     gc_clients = [addressing_service_init 4096 True, addressing_service_init 4096 True],
     gc_refs = [(0, 1, example_ref)], gc_waits = [], gc_wire = [], gc_freed = 0\<rparr>"

lemma example_ref_facts:
  "gid_eq example_ref (example_key 18)" "\<not> gid_is_locked example_ref" "\<not> gid_was_split example_ref"
  "has_credits example_ref" "gid_log2 example_ref = 31"
  "get_locality_id_from_gid (example_key 18) \<noteq> invalid_locality_id" "\<not> gid_eq (example_key 18) invalid_gid"
  "get_locality_id_from_gid example_ref \<noteq> invalid_locality_id"
  by (simp_all add: example_ref_def example_key_def gid_is_locked_def has_credits_def gid_was_split_def
      gid_log2_def drop_bit_eq_div gid_eq_def strip_internal_bits_from_msb_def mask_defs invalid_gid_def gid_of_lsb_def
      get_locality_id_from_gid_def get_locality_id_from_msb_def invalid_locality_id_def)

lemma example_credit: "gid_credit example_ref = HPX_GLOBALCREDIT_INITIAL"
  by (simp add: gid_credit_def example_ref_facts HPX_GLOBALCREDIT_INITIAL_def)

lemma example_gc_initial: "gc_initial (example_key 18) example_gc"
proof -
  have m: "(example_key 16, example_gva 4 0x1000, example_locality) \<in> set (gvas example_primary)"
    by (simp add: example_primary_def)
  have "in_range (example_key 16, example_gva 4 0x1000, example_locality) (example_key 18)"
    by simp (simp add: example_defs)
  then have r: "resolve_gid_locked (gvas example_primary) (example_key 18) =
      Inr (example_key 16, example_gva 4 0x1000, example_locality)"
    unfolding resolve_gid_locked_spec [OF example_primary_ok]
    by (simp only: resolve_spec_found [OF example_primary_ok m])
  have v: "\<not> gid_eq (example_key 16) invalid_gid" "gva_type (example_gva 4 0x1000) \<noteq> component_invalid"
    "count (example_gva 4 0x1000) \<noteq> 0"
    by (simp_all add: example_defs gid_eq_def strip_internal_bits_from_msb_def mask_defs invalid_gid_def gid_of_lsb_def
        component_invalid_def)
  have "server_ok (example_key 18) example_primary"
    by (simp only: server_ok_def r sum.case prod.case v)
      (simp add: example_primary_def is_migrating_def map_find_def map_lower_bound_def)
  moreover have "client_ok (example_key 18) (addressing_service_init 4096 True)"
    "pending (addressing_service_init 4096 True) (example_key 18) = 0"
    by (simp_all add: client_ok_def addressing_service_init_def requests_ok_def example_ref_facts pending_def
        map_find_def map_lower_bound_def)
  moreover have "map_find gid_less (refcnts example_primary) (example_key 18) = None"
    by (simp add: example_primary_def map_find_def map_lower_bound_def)
  ultimately show ?thesis
    by (simp add: gc_initial_def example_gc_def example_ref_facts example_credit)
qed

text \<open>The run in which the reference is released at once.\<close>

lemma example_gc_released:
  obtains s where "gc_reachable (example_key 18) s" "gc_refs s = []" "gc_freed s = 0"
proof -
  define env where "env = \<lparr>runtime_ptr = True, resolve_cached = (\<lambda>_. None),
    free_component_result = (\<lambda>_ _. Inr ()), threadmanager_stopping = False\<rparr>"
  have d: "decrement_refcnt env example_ref = ([agas_decref example_ref HPX_GLOBALCREDIT_INITIAL], Inr ())"
    by (simp add: decrement_refcnt_def env_def example_ref_facts example_credit HPX_GLOBALCREDIT_INITIAL_def)
  have ok: "requests_ok (refcnt_requests (gc_clients example_gc ! 1))"
    by (simp add: example_gc_def addressing_service_init_def requests_ok_def)
  obtain cl ms where dec: "decref example_ref HPX_GLOBALCREDIT_INITIAL (gc_clients example_gc ! 1) = (cl, Inr ms)"
    by (rule decref_credit [OF ok _ example_ref_facts(8), of HPX_GLOBALCREDIT_INITIAL])
      (simp_all add: HPX_GLOBALCREDIT_INITIAL_def)
  have r: "gc_refs example_gc = [] @ (0, 1, example_ref) # []" "0 \<notin> fst ` set (gc_waits example_gc)"
    by (simp_all add: example_gc_def)
  have "gc_reachable (example_key 18) (example_gc\<lparr>gc_refs := [] @ [],
      gc_clients := (gc_clients example_gc)[1 := cl], gc_wire := gc_wire example_gc @ amounts (example_key 18) ms\<rparr>)"
    by (rule gc_reachable.step [OF gc_reachable.initial [OF example_gc_initial] gc_step.release_step [OF r d dec]])
  then show ?thesis using that by (simp add: example_gc_def)
qed

section \<open>Properties\<close>

text \<open>C1: Garbage collection is safe. However splits, transfers, replenishments, releases, batching
  and message deliveries interleave, the object is freed at most once, and when it has been
  freed no locality holds a reference to it, no increment is waiting, and no request for it is
  pending in a client or on the wire.\<close>

theorem gc_frees_only_dead:
  assumes "gc_reachable obj s"
  shows "gc_freed s \<le> 1 \<and> (gc_freed s \<noteq> 0 \<longrightarrow> gc_refs s = [] \<and> gc_waits s = [] \<and> gc_wire s = [] \<and>
    clients_credit obj (gc_clients s) = 0)"
  using gc_inv_reachable [OF assms] no_credit [of obj s] by (auto simp: gc_inv_def split: if_splits)

theorem gc_frees_only_dead_witness:
  "\<exists>s. gc_reachable (example_key 18) s \<and> gc_freed s = 1 \<and> gc_refs s = [] \<and>
    clients_credit (example_key 18) (gc_clients s) = 0"
proof -
  obtain s where s: "gc_reachable (example_key 18) s" "gc_refs s = []" by (rule example_gc_released)
  obtain s' where s': "(gc_step (example_key 18))\<^sup>*\<^sup>* s s'" "gc_freed s' = 1"
    using gc_terminates [OF gc_inv_reachable [OF s(1)] s(2)] by blast
  from s'(1) s(1) have "gc_reachable (example_key 18) s'"
    by (induction rule: rtranclp_induct) (auto intro: gc_reachable.step)
  with gc_frees_only_dead [OF this] s'(2) show ?thesis by auto
qed

text \<open>C2: Credit is conserved. As long as the object is alive, the reference count AGAS holds for it is
  exactly the credit of all references, of the batched and travelling decrements and of the
  increments granted but not yet used, and it is positive.\<close>

theorem gc_count_exact:
  assumes "gc_reachable obj s" "gc_freed s = 0"
  shows "table_count (refcnts (gc_server s)) obj = refs_credit (gc_refs s) +
      clients_credit obj (gc_clients s) + waits_credit (gc_waits s) + sum_list (gc_wire s) \<and>
    0 < table_count (refcnts (gc_server s)) obj"
  using gc_inv_reachable [OF assms(1)] assms(2) by (simp add: gc_inv_def gc_credit_def)

theorem gc_count_exact_witness:
  "\<exists>s. gc_reachable (example_key 18) s \<and> gc_refs s = [] \<and>
    table_count (refcnts (gc_server s)) (example_key 18) =
      clients_credit (example_key 18) (gc_clients s) + waits_credit (gc_waits s) + sum_list (gc_wire s)"
proof -
  obtain s where s: "gc_reachable (example_key 18) s" "gc_refs s = []" "gc_freed s = 0"
    by (rule example_gc_released)
  with gc_count_exact [OF s(1,3)] show ?thesis by auto
qed

text \<open>C3: Nothing leaks. Once the last reference is gone, some sequence of flushes and deliveries always
  leads to the object being freed (whatever is still batched or on the wire).\<close>

theorem gc_collects_garbage:
  assumes "gc_reachable obj s" "gc_refs s = []"
  shows "\<exists>s'. (gc_step obj)\<^sup>*\<^sup>* s s' \<and> gc_freed s' = 1"
  by (rule gc_terminates [OF gc_inv_reachable [OF assms(1)] assms(2)])

theorem gc_collects_garbage_witness:
  "\<exists>s s'. gc_reachable (example_key 18) s \<and> gc_freed s = 0 \<and>
    (gc_step (example_key 18))\<^sup>*\<^sup>* s s' \<and> gc_freed s' = 1"
proof -
  obtain s where s: "gc_reachable (example_key 18) s" "gc_refs s = []" "gc_freed s = 0"
    by (rule example_gc_released)
  with gc_collects_garbage [OF s(1,2)] show ?thesis by blast
qed

text \<open>C4: No step of the protocol can fail. In every reachable state each reference can be split (no
  assertion fails and the credit is never exhausted below two), each granted increment can be
  used, and each decrement on the wire is accepted by the server: a count never turns negative.\<close>

theorem gc_no_errors:
  assumes "gc_reachable obj s"
  shows "(\<forall>(r, l, g) \<in> set (gc_refs s). \<exists>g' out. split_gid_if_needed g = Some (Inr (g', out))) \<and>
    (\<forall>(r, c) \<in> set (gc_waits s). \<exists>l g g' n d. (r, l, g) \<in> set (gc_refs s) \<and>
       postprocess_incref g = Some (Inr (g', n, d))) \<and>
    (\<forall>c \<in> set (gc_wire s). \<exists>sv fl. decrement_request (- c, obj, obj) (gc_server s) =
       Some (sv, sweep_done (Inr fl)))"
proof (intro conjI ballI)
  have inv: "gc_inv obj s" by (rule gc_inv_reachable [OF assms])
  then have p: "gc_parts_ok obj s" by (simp add: gc_inv_def)
  fix x assume x: "x \<in> set (gc_refs s)"
  obtain r l g where e: "x = (r, l, g)" by (cases x)
  obtain xs ys where "gc_refs s = xs @ (r, l, g) # ys" using x e split_list by metis
  note f = client_facts [OF p this]
  show "case x of (r, l, g) \<Rightarrow> \<exists>g' out. split_gid_if_needed g = Some (Inr (g', out))"
  proof (cases "gid_log2 g = 1")
    case True
    then show ?thesis using split_needs_incref [OF f(6,7) True f(10)] e by auto
  next
    case False
    then have l: "1 < gid_log2 g" using f(8) by simp
    obtain a b where "split_gid_if_needed g = Some (Inr (a, split_ready b))"
      by (rule split_halves [OF f(6,7) l]) (rule that)
    then show ?thesis using e by simp
  qed
next
  have p: "gc_parts_ok obj s" using gc_inv_reachable [OF assms] by (simp add: gc_inv_def)
  fix w assume w: "w \<in> set (gc_waits s)"
  obtain r c where e: "w = (r, c)" by (cases w)
  obtain l g where g: "(r, l, g) \<in> set (gc_refs s)" "gid_was_split g"
    using p w e by (fastforce simp: gc_parts_ok_def waits_ok_def)
  obtain xs ys where "gc_refs s = xs @ (r, l, g) # ys" using g(1) split_list by metis
  note f = client_facts [OF p this]
  obtain g' n d where "postprocess_incref g = Some (Inr (g', n, d))"
    by (rule postprocess_spec [OF f(6) g(2) f(9,10)]) (rule that)
  then show "case w of (r, c) \<Rightarrow> \<exists>l g g' n d.
      (r, l, g) \<in> set (gc_refs s) \<and> postprocess_incref g = Some (Inr (g', n, d))"
    using g(1) unfolding e prod.case by blast
next
  fix c assume "c \<in> set (gc_wire s)"
  then obtain us vs where "gc_wire s = us @ c # vs" using split_list by metis
  from sweep_enabled [OF gc_inv_reachable [OF assms] this]
  show "\<exists>sv fl. decrement_request (- c, obj, obj) (gc_server s) = Some (sv, sweep_done (Inr fl))" by metis
qed

theorem gc_no_errors_witness:
  "\<exists>g' out. split_gid_if_needed example_ref = Some (Inr (g', out))"
  using gc_no_errors [OF gc_reachable.initial [OF example_gc_initial]] by (simp add: example_gc_def)

end
