(* ===== verification/Symbol_Namespace.thy ===== *)
theory Symbol_Namespace
  imports Id_Type Counter_Data "HOL-Library.List_Lexorder" "HOL-Library.Char_ord"
begin

text \<open>
  The symbol namespace service of \<^verbatim>\<open>src/runtime/agas/server/symbol_namespace_server.cpp\<close>: symbolic
  names bound to gids, and the LCOs waiting for a name to be bound.

  The table holds shared pointers, because the operations that split a credit release the table's
  mutex first and go on with the gid they point to, even when the name is unbound meanwhile. The
  gids live in the list \<open>cells\<close>; a pointer is an index, and a cell is never reused.

  An operation looks a name up under the mutex of the table, releases the mutex and then splits the gid it
  has found, under the lock of the gid. Splitting may have to ask AGAS for credit and then waits for the reply. Each
  of these is a step of its own, and other operations may run in between: \<open>symbol_resolve\<close>, \<open>symbol_on_event\<close>,
  \<open>symbol_bind\<close> and \<open>notify_next\<close> are what runs under the mutex, \<open>split_shared\<close> is the split, and
  \<open>split_shared_continue\<close> what runs after the reply. \<open>None\<close> stands for a lock of a gid that is never granted.
\<close>

section \<open>State\<close>

datatype symbol_api = symbol_ns_bind | symbol_ns_resolve | symbol_ns_unbind
  | symbol_ns_iterate_names | symbol_ns_on_event

definition symbol_apis :: "symbol_api list" where
  "symbol_apis = [symbol_ns_bind, symbol_ns_resolve, symbol_ns_unbind, symbol_ns_iterate_names,
     symbol_ns_on_event]"

record symbol_namespace =
  gids :: "(string, nat) std_map"
  cells :: "gid_type list"
  on_event_data :: "(string, id_type) std_map"
  symbol_counters :: "symbol_api counter_data"

definition symbol_init :: symbol_namespace where
  "symbol_init = \<lparr>gids = [], cells = [], on_event_data = [], symbol_counters = no_counts\<rparr>"

definition count_symbol :: "symbol_api \<Rightarrow> symbol_namespace \<Rightarrow> symbol_namespace" where
  "count_symbol api s = s\<lparr>symbol_counters := increment_count api (symbol_counters s)\<rparr>"

datatype symbol_action =
    symbol_return gid_type
  | set_lco_value id_type gid_type
  | symbol_incref gid_type i64
  | symbol_decref gid_type i64

section \<open>Splitting a shared gid\<close>

datatype split_run = split_got gid_type | split_waits

definition set_cell :: "nat \<Rightarrow> gid_type \<Rightarrow> symbol_namespace \<Rightarrow> symbol_namespace" where
  "set_cell p g s = s\<lparr>cells := (cells s)[p := g]\<rparr>"

text \<open>\<open>split_gid_if_needed(*current_gid)\<close>, and the continuation attached to its increment.\<close>

definition split_shared ::
  "nat \<Rightarrow> symbol_namespace \<Rightarrow> (symbol_namespace \<times> split_run result \<times> symbol_action list) option" where
  "split_shared p s =
     (case split_gid_if_needed (cells s ! p) of
        None \<Rightarrow> None
      | Some (Inl e) \<Rightarrow> Some (s, Inl e, [])
      | Some (Inr (g, split_ready new_gid)) \<Rightarrow> Some (set_cell p g s, Inr (split_got new_gid), [])
      | Some (Inr (g, split_incref new_gid new_credit)) \<Rightarrow>
          Some (set_cell p g s, Inr split_waits, [symbol_incref new_gid new_credit]))"

definition split_shared_continue ::
  "nat \<Rightarrow> symbol_namespace \<Rightarrow> (symbol_namespace \<times> gid_type result \<times> symbol_action list) option" where
  "split_shared_continue p s =
     (case postprocess_incref (cells s ! p) of
        None \<Rightarrow> None
      | Some (Inl e) \<Rightarrow> Some (s, Inl e, [])
      | Some (Inr (g, new_gid, overflow)) \<Rightarrow>
          Some (set_cell p g s, Inr new_gid,
            (case overflow of None \<Rightarrow> [] | Some c \<Rightarrow> [symbol_decref new_gid c])))"

section \<open>Binding a name\<close>

datatype bind_progress = bind_returns bool | bind_splits string nat id_type "id_type list"

text \<open>
  The head of the loop that notifies the LCOs registered for the name. It looks the name up for each LCO anew, because
  the mutex is released for the split. \<open>bind_splits key p lco lcos\<close> is about to split the gid at \<open>p\<close> for \<open>lco\<close>.
\<close>

fun notify_next :: "string \<Rightarrow> id_type list \<Rightarrow> symbol_namespace \<Rightarrow> bind_progress result" where
  "notify_next key [] s = Inr (bind_returns True)"
| "notify_next key (lco # lcos) s =
     (case map_find (<) (gids s) key of
        None \<Rightarrow> Inl invalid_status
      | Some (_, p) \<Rightarrow> Inr (bind_splits key p lco lcos))"

text \<open>
  Binding a name that is bound already: the credit of the argument is added when it names the
  same entity. Otherwise, when informational logging is enabled, the credit is added to the
  stripped argument for the message.
\<close>

definition bind_existing ::
  "bool \<Rightarrow> nat \<Rightarrow> gid_type \<Rightarrow> symbol_namespace \<Rightarrow> (symbol_namespace \<times> bind_progress result) option" where
  "bind_existing log_info p gid s =
     (case get_credit_from_gid gid of
        Inl e \<Rightarrow> Some (s, Inl e)
      | Inr credits \<Rightarrow>
          let raw_gid = strip_internal_bits_from_gid (gid_copy (cells s ! p));
              gid = strip_internal_bits_from_gid gid
          in
          if gid_eq raw_gid gid
          then (case add_credit_to_gid (cells s ! p) credits of
                  None \<Rightarrow> None
                | Some (Inl e) \<Rightarrow> Some (s, Inl e)
                | Some (Inr (_, g)) \<Rightarrow> Some (set_cell p g s, Inr (bind_returns True)))
          else if log_info
          then (case add_credit_to_gid gid credits of
                  None \<Rightarrow> None
                | Some (Inl e) \<Rightarrow> Some (s, Inl e)
                | Some (Inr _) \<Rightarrow> Some (s, Inr (bind_returns False)))
          else Some (s, Inr (bind_returns False)))"

text \<open>Up to the first time the mutex is released.\<close>

definition symbol_bind ::
  "bool \<Rightarrow> string \<Rightarrow> gid_type \<Rightarrow> symbol_namespace \<Rightarrow> (symbol_namespace \<times> bind_progress result) option" where
  "symbol_bind log_info key gid s =
     (let s = count_symbol symbol_ns_bind s in
      case map_find (<) (gids s) key of
        Some (_, p) \<Rightarrow> bind_existing log_info p gid s
      | None \<Rightarrow>
          let (table, inserted) = map_insert (<) (gids s) key (length (cells s)) in
          if \<not> inserted then Some (s, Inl lock_error)
          else
            let s = s\<lparr>gids := table, cells := cells s @ [gid_copy gid]\<rparr>;
                lcos = map snd (multimap_equal_range (<) (on_event_data s) key);
                s = s\<lparr>on_event_data := multimap_erase_range (<) (on_event_data s) key\<rparr>
            in Some (s, notify_next key lcos s))"

section \<open>Resolving, unbinding and iterating\<close>

text \<open>The lookup of \<open>resolve\<close>: the pointer to the gid that is to be split, or \<open>None\<close> when the invalid gid is returned.\<close>

definition symbol_resolve :: "string \<Rightarrow> symbol_namespace \<Rightarrow> symbol_namespace \<times> nat option" where
  "symbol_resolve key s =
     (let s = count_symbol symbol_ns_resolve s in
      (s, map_option snd (map_find (<) (gids s) key)))"

definition symbol_unbind :: "string \<Rightarrow> symbol_namespace \<Rightarrow> symbol_namespace \<times> gid_type" where
  "symbol_unbind key s =
     (let s = count_symbol symbol_ns_unbind s in
      case map_find (<) (gids s) key of
        None \<Rightarrow> (s, invalid_gid)
      | Some (_, p) \<Rightarrow> (s\<lparr>gids := map_erase (<) (gids s) key\<rparr>, gid_copy (cells s ! p)))"

text \<open>
  The callback runs with the mutex released and may change the table; the loop then looks its key
  up again and goes on with the next entry. When the callback removed the key, the loop increments
  an end iterator, which is undefined: \<open>None\<close>, as for a loop that does not end. The callback acts
  on a state of its own and on the namespace.
\<close>

partial_function (option) iterate_loop ::
  "(string \<Rightarrow> gid_type \<Rightarrow> 'w \<times> symbol_namespace \<Rightarrow> 'w \<times> symbol_namespace) \<Rightarrow>
   (string, nat) std_map \<Rightarrow> 'w \<times> symbol_namespace \<Rightarrow> ('w \<times> symbol_namespace) option" where
  "iterate_loop f rest w =
     (case rest of
        [] \<Rightarrow> Some w
      | (key, p) # _ \<Rightarrow>
          let w = f key (gid_copy (cells (snd w) ! p)) w in
          (case map_find (<) (gids (snd w)) key of
             None \<Rightarrow> None
           | Some _ \<Rightarrow> iterate_loop f (tl (map_lower_bound (<) (gids (snd w)) key)) w))"

definition symbol_iterate ::
  "(string \<Rightarrow> gid_type \<Rightarrow> 'w \<times> symbol_namespace \<Rightarrow> 'w \<times> symbol_namespace) \<Rightarrow>
   'w \<times> symbol_namespace \<Rightarrow> ('w \<times> symbol_namespace) option" where
  "symbol_iterate f w =
     (let w = (fst w, count_symbol symbol_ns_iterate_names (snd w))
      in iterate_loop f (gids (snd w)) w)"

section \<open>Waiting for a name\<close>

definition register_event :: "string \<Rightarrow> id_type \<Rightarrow> symbol_namespace \<Rightarrow> symbol_namespace" where
  "register_event name lco s = s\<lparr>on_event_data := multimap_insert (<) (on_event_data s) name lco\<rparr>"

text \<open>The pointer to the gid that is to be split for the LCO; without one the LCO is registered.\<close>

definition symbol_on_event ::
  "string \<Rightarrow> bool \<Rightarrow> id_type \<Rightarrow> symbol_namespace \<Rightarrow> symbol_namespace \<times> nat option" where
  "symbol_on_event name call_for_past_events lco s =
     (let s = count_symbol symbol_ns_on_event s;
          found = (if call_for_past_events then map_option snd (map_find (<) (gids s) name) else None)
      in (if found = None then register_event name lco s else s, found))"

section \<open>After the split\<close>

text \<open>
  For what an operation splits a gid. When it has the new gid, \<open>resolve\<close> returns it and the others give it to their LCO; \<open>bind\<close> then
  takes the mutex again and goes on with the next LCO.
\<close>

datatype symbol_use = use_resolve | use_on_event id_type | use_bind string id_type "id_type list"

fun symbol_deliver :: "symbol_use \<Rightarrow> gid_type \<Rightarrow> symbol_action" where
  "symbol_deliver use_resolve g = symbol_return g"
| "symbol_deliver (use_on_event lco) g = set_lco_value lco g"
| "symbol_deliver (use_bind key lco lcos) g = set_lco_value lco g"

section \<open>The invariant\<close>

text \<open>
  A gid in the table is not locked, and carries no credit or at least a credit of two: that is
  enough for \<open>split_gid_if_needed\<close>. A gid some operation waits for was marked as split.
\<close>

definition good_cell :: "gid_type \<Rightarrow> bool" where
  "good_cell g \<longleftrightarrow> \<not> gid_is_locked g \<and>
     (has_credits g \<longrightarrow> 1 \<le> gid_log2 g \<and> \<not> gid_eq g invalid_gid)"

definition waitable :: "gid_type \<Rightarrow> bool" where
  "waitable g \<longleftrightarrow> gid_was_split g \<and> 2 \<le> gid_credit g"

definition symbol_ok :: "symbol_namespace \<Rightarrow> bool" where
  "symbol_ok s \<longleftrightarrow> map_sorted (<) (gids s) \<and> multimap_sorted (<) (on_event_data s) \<and>
     (\<forall>e \<in> set (gids s). snd e < length (cells s)) \<and> distinct (map snd (gids s)) \<and>
     (\<forall>g \<in> set (cells s). good_cell g)"

text \<open>What a client sees: the gid a name is bound to.\<close>

definition lookup :: "symbol_namespace \<Rightarrow> string \<Rightarrow> gid_type option" where
  "lookup s key = map_option (\<lambda>e. cells s ! snd e) (map_find (<) (gids s) key)"

lemma symbol_ok_init: "symbol_ok symbol_init"
  by (simp add: symbol_ok_def symbol_init_def multimap_sorted_def)

lemma symbol_ok_count [simp]: "symbol_ok (count_symbol api s) \<longleftrightarrow> symbol_ok s"
  "gids (count_symbol api s) = gids s" "cells (count_symbol api s) = cells s"
  "on_event_data (count_symbol api s) = on_event_data s"
  by (simp_all add: symbol_ok_def count_symbol_def)

lemma set_cell_simps [simp]: "gids (set_cell p g s) = gids s"
  "cells (set_cell p g s) = (cells s)[p := g]" "on_event_data (set_cell p g s) = on_event_data s"
  by (simp_all add: set_cell_def)

lemma symbol_ok_set_cell: "symbol_ok s \<Longrightarrow> good_cell g \<Longrightarrow> symbol_ok (set_cell p g s)"
  using set_update_subset_insert [of "cells s" p g] by (auto simp: symbol_ok_def)

lemma found_cell:
  assumes "symbol_ok s" "map_find (<) (gids s) key = Some (k, p)"
  shows "k = key" "(key, p) \<in> set (gids s)" "p < length (cells s)" "good_cell (cells s ! p)"
proof -
  note f = total.find_SomeD [OF assms(2)]
  then show k: "k = key" and kp: "(key, p) \<in> set (gids s)" by auto
  with assms(1) show "p < length (cells s)" by (auto simp: symbol_ok_def)
  with assms(1) show "good_cell (cells s ! p)" by (auto simp: symbol_ok_def)
qed

lemma credit_ge2: "2 \<le> gid_credit g \<Longrightarrow> has_credits g \<and> 1 \<le> gid_log2 g"
  by (cases "gid_log2 g") (auto simp: gid_credit_def split: if_splits)

lemma split_shared_spec:
  assumes "good_cell (cells s ! p)"
  obtains (got) g n where "split_shared p s = Some (set_cell p g s, Inr (split_got n), [])"
      "good_cell g" "gid_eq g (cells s ! p)" "gid_eq n (cells s ! p)"
      "gid_credit g + gid_credit n = gid_credit (cells s ! p)" "waitable (cells s ! p) \<Longrightarrow> waitable g"
      "\<not> gid_is_locked n"
    | (waits) g where "split_shared p s =
        Some (set_cell p g s, Inr split_waits, [symbol_incref g (2 * (HPX_GLOBALCREDIT_INITIAL - 1))])"
      "good_cell g" "gid_eq g (cells s ! p)" "gid_credit g = gid_credit (cells s ! p)" "waitable g"
proof -
  define c where "c = cells s ! p"
  have l: "\<not> gid_is_locked c" using assms by (simp add: good_cell_def c_def)
  consider "\<not> has_credits c" | "has_credits c" "gid_log2 c = 1" | "has_credits c" "1 < gid_log2 c"
    using assms unfolding good_cell_def c_def by linarith
  then show ?thesis
  proof cases
    case 1
    have "split_shared p s = Some (set_cell p c s, Inr (split_got c), [])"
      using split_plain [OF l 1] by (simp add: split_shared_def flip: c_def)
    then show ?thesis
      using got [of c c] assms 1 l by (simp add: waitable_def gid_credit_def flip: c_def)
  next
    case 2
    let ?g = "set_credit_split_mask_for_gid c"
    have i: "\<not> gid_eq c invalid_gid" using assms 2 by (simp add: good_cell_def c_def)
    have "split_shared p s =
        Some (set_cell p ?g s, Inr split_waits, [symbol_incref ?g (2 * (HPX_GLOBALCREDIT_INITIAL - 1))])"
      using split_needs_incref [OF l 2 i] by (simp add: split_shared_def flip: c_def)
    moreover have "gid_log2 ?g = gid_log2 c" by (rule gid_log2_cong) (simp add: mask_bits)
    moreover have "has_credits ?g" "\<not> gid_is_locked ?g" "gid_was_split ?g"
      using 2 l by (simp_all add: mask_bits)
    ultimately have "split_shared p s =
        Some (set_cell p ?g s, Inr split_waits, [symbol_incref ?g (2 * (HPX_GLOBALCREDIT_INITIAL - 1))])"
      "good_cell ?g" "waitable ?g" using i 2
      by (simp_all add: good_cell_def waitable_def gid_credit_def)
    then show ?thesis using waits [of ?g] by (simp flip: c_def)
  next
    case 3
    obtain g n where h: "split_gid_if_needed c = Some (Inr (g, split_ready n))"
      "gid_credit g + gid_credit n = gid_credit c" "gid_credit g = gid_credit n"
      "gid_was_split g" "gid_eq g c" "gid_eq n c" "\<not> gid_is_locked g" "\<not> gid_is_locked n" "has_credits g"
      by (rule split_halves [OF l 3]) (rule that)
    have "(2::int) ^ 2 \<le> 2 ^ gid_log2 c" using 3(2) by (intro power_increasing) auto
    then have c2: "2 \<le> gid_credit g" using h(2,3) 3 by (simp add: gid_credit_def [of c])
    have "gid_log2 g \<noteq> 0" using credit_ge2 [OF c2] by simp
    moreover have "\<not> gid_eq g invalid_gid"
      using assms 3 h(5) gid_eq_sym gid_eq_trans by (metis good_cell_def c_def)
    ultimately have "good_cell g" using h by (simp add: good_cell_def)
    moreover have "split_shared p s = Some (set_cell p g s, Inr (split_got n), [])"
      using h(1) by (simp add: split_shared_def flip: c_def)
    ultimately show ?thesis using got [of g n] h c2 by (simp add: waitable_def flip: c_def)
  qed
qed

lemma split_shared_continue_spec:
  assumes "good_cell (cells s ! p)" "waitable (cells s ! p)"
  obtains g n where "split_shared_continue p s = Some (set_cell p g s, Inr n,
        if 2 < gid_credit (cells s ! p) then [symbol_decref n (gid_credit (cells s ! p) - 2)] else [])"
      "good_cell g" "waitable g" "gid_eq g (cells s ! p)" "gid_eq n (cells s ! p)"
      "gid_credit g = HPX_GLOBALCREDIT_INITIAL" "gid_credit n = HPX_GLOBALCREDIT_INITIAL"
proof -
  define c where "c = cells s ! p"
  have a: "\<not> gid_is_locked c" "gid_was_split c" "2 \<le> gid_credit c" "\<not> gid_eq c invalid_gid"
    using assms by (auto simp: good_cell_def waitable_def gid_credit_def c_def split: if_splits)
  obtain g n d where p: "postprocess_incref c = Some (Inr (g, n, d))"
    "gid_credit g = HPX_GLOBALCREDIT_INITIAL" "gid_credit n = HPX_GLOBALCREDIT_INITIAL"
    "d = (if 2 < gid_credit c then Some (gid_credit c - 2) else None)"
    "gid_was_split g" "gid_eq g c" "gid_eq n c" "\<not> gid_is_locked g"
    by (rule postprocess_spec [OF a]) (rule that)
  have "gid_log2 g \<noteq> 0"
    using credit_ge2 [of g] p(2) by (simp add: HPX_GLOBALCREDIT_INITIAL_def)
  moreover have "\<not> gid_eq g invalid_gid" using p(6) a(4) gid_eq_sym gid_eq_trans by blast
  ultimately have "good_cell g" "waitable g"
    using p by (simp_all add: good_cell_def waitable_def HPX_GLOBALCREDIT_INITIAL_def)
  moreover have "split_shared_continue p s = Some (set_cell p g s, Inr n,
      if 2 < gid_credit c then [symbol_decref n (gid_credit c - 2)] else [])"
    using p(1,4) by (simp add: split_shared_continue_def flip: c_def)
  ultimately show ?thesis using that [of g n] p by (simp flip: c_def)
qed

section \<open>Binding\<close>

text \<open>The state in which the notifications of a new binding start.\<close>

definition new_binding :: "string \<Rightarrow> gid_type \<Rightarrow> symbol_namespace \<Rightarrow> symbol_namespace" where
  "new_binding key gid s =
     (count_symbol symbol_ns_bind s)\<lparr>gids := fst (map_insert (<) (gids s) key (length (cells s))),
        cells := cells s @ [gid_copy gid],
        on_event_data := multimap_erase_range (<) (on_event_data s) key\<rparr>"

lemma new_binding_simps [simp]:
  "cells (new_binding key gid s) = cells s @ [gid_copy gid]"
  "on_event_data (new_binding key gid s) = multimap_erase_range (<) (on_event_data s) key"
  by (simp_all add: new_binding_def)

lemma symbol_bind_fresh:
  assumes "map_find (<) (gids s) key = None"
  shows "symbol_bind log_info key gid s = Some (new_binding key gid s, notify_next key
    (map snd (multimap_equal_range (<) (on_event_data s) key)) (new_binding key gid s))"
proof -
  have "snd (map_insert (<) (gids s) key (length (cells s)))" using total.insert_fresh [OF assms] .
  then show ?thesis
    by (simp add: symbol_bind_def Let_def case_prod_unfold assms new_binding_def)
qed

lemma new_binding_set:
  "map_find (<) (gids s) key = None \<Longrightarrow>
   set (gids (new_binding key gid s)) = insert (key, length (cells s)) (set (gids s))"
  by (simp add: new_binding_def total.set_insert)

lemma new_binding_find:
  assumes "symbol_ok s" "map_find (<) (gids s) key = None"
  shows "map_find (<) (gids (new_binding key gid s)) k =
    (if key = k then Some (key, length (cells s)) else map_find (<) (gids s) k)"
  using total.find_insert [of "gids s" key "length (cells s)" k] assms
  by (simp add: new_binding_def symbol_ok_def)

lemma new_binding_lookup:
  assumes "symbol_ok s" "map_find (<) (gids s) key = None"
  shows "lookup (new_binding key gid s) k = (if k = key then Some (gid_copy gid) else lookup s k)"
proof (cases "map_find (<) (gids s) k")
  case (Some e)
  then have "snd e < length (cells s)" using found_cell(3) [OF assms(1), of k "fst e" "snd e"] by simp
  then show ?thesis by (simp add: lookup_def new_binding_find [OF assms] Some nth_append)
qed (simp add: lookup_def new_binding_find [OF assms])

lemma good_cell_copy: "good_cell g \<Longrightarrow> gid_copy g = g"
  by (simp add: good_cell_def gid_copy_unlocked)

lemma new_binding_ok:
  assumes "symbol_ok s" "map_find (<) (gids s) key = None" "good_cell gid"
  shows "symbol_ok (new_binding key gid s)"
proof -
  let ?t = "fst (map_insert (<) (gids s) key (length (cells s)))"
  have bound: "\<forall>e \<in> set (gids s). snd e < length (cells s)" and sorted: "map_sorted (<) (gids s)"
    and dis: "distinct (map snd (gids s))" using assms(1) by (simp_all add: symbol_ok_def)
  have "length (cells s) \<notin> set (map snd (gids s))" using bound by fastforce
  moreover have "gids s = map_before (<) (gids s) key @ map_lower_bound (<) (gids s) key"
    by (simp add: map_split)
  then have "map snd (gids s) =
      map snd (map_before (<) (gids s) key) @ map snd (map_lower_bound (<) (gids s) key)"
    by (metis map_append)
  ultimately have "distinct (map snd ?t)" using dis assms(2) by (auto simp: map_insert_def)
  moreover have "\<forall>e \<in> set ?t. snd e < Suc (length (cells s))"
    using bound total.set_insert [OF assms(2), of "length (cells s)"] by auto
  ultimately show ?thesis
    using assms(1,3) total.sorted_insert [OF sorted] total.multimap_sorted_erase
    by (auto simp: symbol_ok_def new_binding_def good_cell_copy)
qed

text \<open>Binding a new name binds exactly that name, and takes the LCOs that were registered for it, in the order of registration, out
  of the table: none of them can be notified twice.\<close>

lemma symbol_bind_takes_lcos:
  assumes "symbol_ok s" "map_find (<) (gids s) key = None" "good_cell gid"
  shows "\<exists>s'. symbol_bind log_info key gid s = Some (s', Inr
      (case map snd (multimap_equal_range (<) (on_event_data s) key) of
         [] \<Rightarrow> bind_returns True
       | lco # lcos \<Rightarrow> bind_splits key (length (cells s)) lco lcos)) \<and> symbol_ok s' \<and>
    (\<forall>k. lookup s' k = (if k = key then Some gid else lookup s k)) \<and>
    (\<forall>k. multimap_equal_range (<) (on_event_data s') k =
       (if k = key then [] else multimap_equal_range (<) (on_event_data s) k))"
  using new_binding_ok [OF assms] new_binding_lookup [OF assms(1,2), of gid] total.equal_range_erase [of "on_event_data s" key]
  by (cases "map snd (multimap_equal_range (<) (on_event_data s) key)")
    (auto simp: symbol_bind_fresh [OF assms(2)] new_binding_find [OF assms(1,2)] good_cell_copy [OF assms(3)])

lemma example_cell: "good_cell example_gid"
  using example_gid_facts by (simp add: good_cell_def)

section \<open>Unbinding and iterating\<close>

lemma symbol_ok_erase: "symbol_ok s \<Longrightarrow> symbol_ok (s\<lparr>gids := map_erase (<) (gids s) key\<rparr>)"
proof -
  assume s: "symbol_ok s"
  then have sorted: "map_sorted (<) (gids s)" and dis: "distinct (map snd (gids s))"
    by (simp_all add: symbol_ok_def)
  have "distinct (map snd (map_erase (<) (gids s) key))"
  proof (cases "map_find (<) (gids s) key")
    case (Some e)
    have "map snd (gids s) = map snd (map_before (<) (gids s) key) @ snd e #
        map snd (tl (map_lower_bound (<) (gids s) key))"
      using arg_cong [OF total.split_found [OF Some], of "map snd"] by simp
    with dis show ?thesis by (simp add: map_erase_def Some)
  qed (simp add: map_erase_def dis)
  with s show ?thesis
    by (auto simp: symbol_ok_def total.sorted_erase total.set_erase [OF sorted])
qed

text \<open>Unbinding a name returns the gid it was bound to, with all its credit, and removes exactly
  that name. Unbinding or resolving a name that is not bound returns the invalid gid and changes
  nothing but the call counters.\<close>

lemma symbol_unbind_removes:
  assumes "symbol_ok s"
  shows "symbol_ok (fst (symbol_unbind key s)) \<and>
    lookup (fst (symbol_unbind key s)) k = (if k = key then None else lookup s k) \<and>
    snd (symbol_unbind key s) = (case lookup s key of None \<Rightarrow> invalid_gid | Some g \<Rightarrow> g) \<and>
    (lookup s key = None \<longrightarrow>
       symbol_resolve key s = (count_symbol symbol_ns_resolve s, None) \<and>
       fst (symbol_unbind key s) = count_symbol symbol_ns_unbind s)"
proof (cases "map_find (<) (gids s) key")
  case None
  then show ?thesis
    using assms by (auto simp: symbol_unbind_def symbol_resolve_def lookup_def)
next
  case (Some e)
  have sorted: "map_sorted (<) (gids s)" using assms by (simp add: symbol_ok_def)
  have "good_cell (cells s ! snd e)" using found_cell(4) [OF assms, of key "fst e" "snd e"] Some by simp
  then have u: "symbol_unbind key s =
      ((count_symbol symbol_ns_unbind s)\<lparr>gids := map_erase (<) (gids s) key\<rparr>, cells s ! snd e)"
    by (simp add: symbol_unbind_def Some good_cell_copy case_prod_unfold)
  then have "symbol_ok (fst (symbol_unbind key s))"
    using symbol_ok_erase [of "count_symbol symbol_ns_unbind s" key] assms by simp
  then show ?thesis
    using Some total.find_erase [OF sorted, of key k] by (auto simp: u lookup_def)
qed

lemma symbol_init_empty: "map_find (<) (gids symbol_init) key = None"
  by (simp add: symbol_init_def map_find_def map_lower_bound_def)

lemma iterate_loop_visits:
  assumes "map_sorted (<) (gids s)" "gids s = done @ rest"
  shows "iterate_loop (\<lambda>k g (w, s). (h k g w, s)) rest (w, s) =
    Some (fold (\<lambda>(k, p). h k (gid_copy (cells s ! p))) rest w, s)"
  using assms(2)
proof (induction rest arbitrary: "done" w)
  case Nil
  then show ?case by (simp add: iterate_loop.simps)
next
  case (Cons e rest)
  obtain k p where e: "e = (k, p)" by (cases e)
  have f: "map_find (<) (gids s) k = Some (k, p)"
    unfolding total.find_iff [OF assms(1)] using Cons.prems e by simp
  have "\<forall>x \<in> set done. fst x < k"
    using assms(1) Cons.prems e by (auto simp: map_sorted_def sorted_wrt_append)
  then have "map_lower_bound (<) (gids s) k = e # rest"
    using Cons.prems e by (simp add: map_lower_bound_def)
  with f Cons.IH [of "done @ [e]"] Cons.prems show ?case by (simp add: iterate_loop.simps e)
qed

text \<open>Iterating over the names ends and calls the callback once for every bound name, in the
  order of the names, with the gid it is bound to, when the callback leaves the table alone.\<close>

lemma symbol_iterate_visits:
  assumes "symbol_ok s"
  shows "symbol_iterate (\<lambda>k g (w, s). (h k g w, s)) (w, s) =
      Some (fold (\<lambda>(k, p). h k (cells s ! p)) (gids s) w, count_symbol symbol_ns_iterate_names s) \<and>
    sorted_wrt (<) (map fst (gids s)) \<and>
    (\<forall>k. lookup s k \<noteq> None \<longleftrightarrow> k \<in> fst ` set (gids s))"
proof -
  have sorted: "map_sorted (<) (gids s)" using assms by (simp add: symbol_ok_def)
  have "gid_copy (cells s ! p) = cells s ! p" if "(k, p) \<in> set (gids s)" for k p
    using that assms by (intro good_cell_copy) (auto simp: symbol_ok_def)
  then have "fold (\<lambda>(k, p). h k (gid_copy (cells s ! p))) (gids s) w =
      fold (\<lambda>(k, p). h k (cells s ! p)) (gids s) w" by (intro fold_cong) auto
  moreover have "lookup s k \<noteq> None \<longleftrightarrow> k \<in> fst ` set (gids s)" for k
    using total.find_None_iff [OF sorted, of k] by (force simp: lookup_def)
  ultimately show ?thesis
    using iterate_loop_visits [of "count_symbol symbol_ns_iterate_names s" "[]" "gids s" h w] sorted
    by (simp add: symbol_iterate_def map_sorted_def sorted_wrt_map)
qed

end
