(* ===== verification/Symbol_Credit.thy ===== *)
theory Symbol_Credit
  imports Symbol_Namespace
begin

text \<open>
  The credit ledger of the symbol namespace under every interleaving of its operations.

  The system is the service, the operations under way, and logs: the gids whose credit was taken over by \<open>bind\<close>, the actions
  sent, and the gids that \<open>unbind\<close> has copied out of the table. An operation under way is about to split a gid that it has looked up,
  waits for an increment, or is about to look up its name for the next LCO. \<open>raced\<close> records whether a name was ever unbound while
  an operation had a pointer to its gid. \<open>unbind\<close> returns the credit of the gid, and such an operation goes on with the same credit.
\<close>

section \<open>The system\<close>

datatype symbol_task =
    task_split symbol_use nat
  | task_wait symbol_use nat
  | task_notify string "id_type list"

fun task_ptr :: "symbol_task \<Rightarrow> nat option" where
  "task_ptr (task_split u p) = Some p"
| "task_ptr (task_wait u p) = Some p"
| "task_ptr (task_notify key lcos) = None"

record symbol_system =
  names :: symbol_namespace
  tasks :: "symbol_task list"
  taken :: "gid_type list"
  copied :: "gid_type list"
  sent :: "symbol_action list"
  raced :: bool

definition system_init :: symbol_system where
  "system_init = \<lparr>names = symbol_init, tasks = [], taken = [], copied = [], sent = [], raced = False\<rparr>"

fun bind_task :: "bind_progress result \<Rightarrow> symbol_task list" where
  "bind_task (Inr (bind_splits key p lco lcos)) = [task_split (use_bind key lco lcos) p]"
| "bind_task _ = []"

fun use_next :: "symbol_use \<Rightarrow> symbol_task list" where
  "use_next (use_bind key lco lcos) = [task_notify key lcos]"
| "use_next _ = []"

text \<open>The credit of the argument is taken over when \<open>bind\<close> stores it or adds it to an entry.\<close>

definition bind_takes :: "symbol_namespace \<Rightarrow> string \<Rightarrow> bind_progress result \<Rightarrow> bool" where
  "bind_takes s key r \<longleftrightarrow> lookup s key = None \<or> r = Inr (bind_returns True)"

inductive symbol_step :: "symbol_system \<Rightarrow> symbol_system \<Rightarrow> bool" where
  step_bind: "symbol_bind log_info key gid (names x) = Some (s', r) \<Longrightarrow> good_cell gid \<Longrightarrow>
    symbol_step x (x\<lparr>names := s', tasks := tasks x @ bind_task r,
      taken := (if bind_takes (names x) key r then gid # taken x else taken x)\<rparr>)"
| step_resolve: "symbol_resolve key (names x) = (s', Some p) \<Longrightarrow>
    symbol_step x (x\<lparr>names := s', tasks := tasks x @ [task_split use_resolve p]\<rparr>)"
| step_resolve_unbound: "symbol_resolve key (names x) = (s', None) \<Longrightarrow>
    symbol_step x (x\<lparr>names := s', sent := sent x @ [symbol_return invalid_gid]\<rparr>)"
| step_on_event: "symbol_on_event key past lco (names x) = (s', Some p) \<Longrightarrow>
    symbol_step x (x\<lparr>names := s', tasks := tasks x @ [task_split (use_on_event lco) p]\<rparr>)"
| step_on_event_registered: "symbol_on_event key past lco (names x) = (s', None) \<Longrightarrow>
    symbol_step x (x\<lparr>names := s'\<rparr>)"
| step_unbind: "symbol_unbind key (names x) = (s', g) \<Longrightarrow>
    symbol_step x (x\<lparr>names := s', sent := sent x @ [symbol_return g], copied := g # copied x,
      raced := (raced x \<or> (\<exists>t \<in> set (tasks x). \<exists>p. task_ptr t = Some p \<and> (key, p) \<in> set (gids (names x))))\<rparr>)"
| step_split: "tasks x = before @ task_split u p # after \<Longrightarrow>
    split_shared p (names x) = Some (s', Inr (split_got g), acts) \<Longrightarrow>
    symbol_step x (x\<lparr>names := s', tasks := before @ use_next u @ after, sent := sent x @ acts @ [symbol_deliver u g]\<rparr>)"
| step_split_waits: "tasks x = before @ task_split u p # after \<Longrightarrow>
    split_shared p (names x) = Some (s', Inr split_waits, acts) \<Longrightarrow>
    symbol_step x (x\<lparr>names := s', tasks := before @ task_wait u p # after, sent := sent x @ acts\<rparr>)"
| step_continue: "tasks x = before @ task_wait u p # after \<Longrightarrow>
    split_shared_continue p (names x) = Some (s', Inr g, acts) \<Longrightarrow>
    symbol_step x (x\<lparr>names := s', tasks := before @ use_next u @ after, sent := sent x @ acts @ [symbol_deliver u g]\<rparr>)"
| step_notify: "tasks x = before @ task_notify key lcos # after \<Longrightarrow>
    symbol_step x (x\<lparr>tasks := before @ bind_task (notify_next key lcos (names x)) @ after\<rparr>)"

inductive symbol_reachable :: "symbol_system \<Rightarrow> bool" where
  reach_init: "symbol_reachable system_init"
| reach_step: "symbol_reachable x \<Longrightarrow> symbol_step x y \<Longrightarrow> symbol_reachable y"

section \<open>The ledger\<close>

definition credit_of :: "gid_type \<Rightarrow> gid_type list \<Rightarrow> i64" where
  "credit_of e gs = sum_list (map (\<lambda>g. if gid_eq g e then gid_credit g else 0) gs)"

text \<open>What an action costs the service: a gid that is returned or given to an LCO and a decrement cost credit, an
  increment brings it.\<close>

fun action_cost :: "gid_type \<Rightarrow> symbol_action \<Rightarrow> i64" where
  "action_cost e (symbol_return g) = (if gid_eq g e then gid_credit g else 0)"
| "action_cost e (set_lco_value lco g) = (if gid_eq g e then gid_credit g else 0)"
| "action_cost e (symbol_incref g c) = (if gid_eq g e then - c else 0)"
| "action_cost e (symbol_decref g c) = (if gid_eq g e then c else 0)"

definition cost :: "gid_type \<Rightarrow> symbol_action list \<Rightarrow> i64" where
  "cost e acts = sum_list (map (action_cost e) acts)"

text \<open>The increments under way: each operation that waits has asked for the credit of its new gid and for what the cell lacks.\<close>

fun task_share :: "gid_type \<Rightarrow> gid_type list \<Rightarrow> symbol_task \<Rightarrow> i64" where
  "task_share e gs (task_wait u p) = (if gid_eq (gs ! p) e then 2 * (HPX_GLOBALCREDIT_INITIAL - 1) else 0)"
| "task_share e gs _ = 0"

definition under_way :: "gid_type \<Rightarrow> gid_type list \<Rightarrow> symbol_task list \<Rightarrow> i64" where
  "under_way e gs ts = sum_list (map (task_share e gs) ts)"

definition live :: "symbol_namespace \<Rightarrow> nat \<Rightarrow> bool" where
  "live s p \<longleftrightarrow> p \<in> snd ` set (gids s)"



lemma ledger_simps [simp]: "credit_of e [] = 0"
  "credit_of e (g # gs) = (if gid_eq g e then gid_credit g else 0) + credit_of e gs"
  "credit_of e (gs @ hs) = credit_of e gs + credit_of e hs"
  "cost e [] = 0" "cost e (a # as) = action_cost e a + cost e as" "cost e (as @ bs) = cost e as + cost e bs"
  "under_way e gs [] = 0" "under_way e gs (t # ts) = task_share e gs t + under_way e gs ts"
  "under_way e gs (ts @ us) = under_way e gs ts + under_way e gs us"
  by (simp_all add: credit_of_def cost_def under_way_def)

lemma task_shares [simp]: "task_share e gs (task_split u p) = 0" "task_share e gs (task_notify key lcos) = 0"
  "under_way e gs (use_next u) = 0" "under_way e gs (bind_task r) = 0"
proof -
  show "under_way e gs (use_next u) = 0" by (cases u) simp_all
  show "under_way e gs (bind_task r) = 0" by (induction r rule: bind_task.induct) simp_all
qed simp_all

lemma deliver_cost [simp]: "action_cost e (symbol_deliver u g) = (if gid_eq g e then gid_credit g else 0)"
  by (cases u) simp_all

lemma live_set_cell [simp]: "live (set_cell p g s) q = live s q"
  by (simp add: live_def)

lemma live_count [simp]: "live (count_symbol api s) p = live s p"
  by (simp add: live_def)










section \<open>Adding credit and unbinding\<close>



lemma has_credits_iff: "has_credits g \<longleftrightarrow> 0 < gid_credit g"
  by (simp add: gid_credit_def)




section \<open>The invariant\<close>

definition task_ok :: "symbol_namespace \<Rightarrow> symbol_task \<Rightarrow> bool" where
  "task_ok s t \<longleftrightarrow> (\<forall>p. task_ptr t = Some p \<longrightarrow> p < length (cells s)) \<and>
     (\<forall>u p. t = task_wait u p \<longrightarrow> waitable (cells s ! p))"



lemma task_ok_simps [simp]: "task_ok s (task_notify key lcos)" "task_ok s (task_split u p) \<longleftrightarrow> p < length (cells s)"
  "task_ok s (task_wait u p) \<longleftrightarrow> p < length (cells s) \<and> waitable (cells s ! p)"
  "task_ok (count_symbol api s) t = task_ok s t"
  by (auto simp: task_ok_def)

lemma task_ok_use [simp]: "t \<in> set (use_next u) \<Longrightarrow> task_ok s t" "t \<in> set (use_next u) \<Longrightarrow> task_ptr t = None"
  by (cases u; simp)+




lemma invalid_credit [simp]: "gid_credit invalid_gid = 0"
  by (simp add: gid_credit_def flag_bits invalid_gid_def gid_of_lsb_def)














section \<open>Operations end\<close>

fun task_work :: "symbol_task \<Rightarrow> nat" where
  "task_work (task_split (use_bind key lco lcos) p) = 3 * length lcos + 3"
| "task_work (task_wait (use_bind key lco lcos) p) = 3 * length lcos + 2"
| "task_work (task_notify key lcos) = 3 * length lcos + 1"
| "task_work (task_split u p) = 2"
| "task_work (task_wait u p) = 1"

definition tasks_work :: "symbol_task list \<Rightarrow> nat" where
  "tasks_work ts = sum_list (map task_work ts)"

lemma tasks_work_simps [simp]: "tasks_work [] = 0" "tasks_work (t # ts) = task_work t + tasks_work ts"
  "tasks_work (ts @ us) = tasks_work ts + tasks_work us"
  by (simp_all add: tasks_work_def)







section \<open>Runs\<close>

text \<open>A gid bound to a name, and one whose credit of two is used up.\<close>

definition bound_with :: "gid_type \<Rightarrow> symbol_system" where
  "bound_with g = system_init\<lparr>names := new_binding ''/a'' g symbol_init, taken := [g]\<rparr>"

definition poor_gid :: gid_type where
  "poor_gid = \<lparr>id_msb = 0x141000001, id_lsb = 5\<rparr>"

lemma poor_gid_facts: "\<not> gid_is_locked poor_gid" "has_credits poor_gid" "gid_log2 poor_gid = 1"
  "\<not> gid_eq poor_gid invalid_gid" "gid_credit poor_gid = 2" "good_cell poor_gid"
proof -
  show 1: "\<not> gid_is_locked poor_gid" "has_credits poor_gid" "gid_log2 poor_gid = 1"
    "\<not> gid_eq poor_gid invalid_gid"
    by code_simp+
  then show "gid_credit poor_gid = 2" "good_cell poor_gid" by (simp_all add: gid_credit_def good_cell_def)
qed

lemma bound_with_facts:
  assumes "good_cell g"
  shows "symbol_reachable (bound_with g)" "gids (names (bound_with g)) = [(''/a'', 0)]" "cells (names (bound_with g)) = [g]"
    "tasks (bound_with g) = []" "sent (bound_with g) = []" "taken (bound_with g) = [g]" "raced (bound_with g) = False"
proof -
  have "symbol_bind False ''/a'' g (names system_init) = Some (new_binding ''/a'' g symbol_init, Inr (bind_returns True))"
    by (simp add: system_init_def symbol_bind_fresh [OF symbol_init_empty])
      (simp add: symbol_init_def multimap_equal_range_def)
  from step_bind [OF this assms] have "symbol_step system_init (bound_with g)"
    by (simp add: bound_with_def system_init_def bind_takes_def lookup_def symbol_init_empty)
  then show "symbol_reachable (bound_with g)" by (rule reach_step [OF reach_init])
  show "gids (names (bound_with g)) = [(''/a'', 0)]"
    by (simp add: bound_with_def new_binding_def symbol_init_def map_insert_def map_find_def map_before_def map_lower_bound_def)
  show "cells (names (bound_with g)) = [g]"
    by (simp add: bound_with_def good_cell_copy [OF assms]) (simp add: symbol_init_def)
qed (simp_all add: bound_with_def system_init_def)

lemma poor_find: "map_find (<) [(''/a'', 0::nat)] ''/a'' = Some (''/a'', 0)"
  by (simp add: map_find_def map_lower_bound_def)

text \<open>A resolve operation has looked the name up.\<close>

lemma looked_up:
  assumes "good_cell g"
  obtains x where "symbol_reachable x" "gids (names x) = [(''/a'', 0)]" "cells (names x) = [g]"
    "tasks x = [task_split use_resolve 0]" "sent x = []" "taken x = [g]"
proof -
  let ?x = "bound_with g"
  note b = bound_with_facts [OF assms]
  have "symbol_resolve ''/a'' (names ?x) = (count_symbol symbol_ns_resolve (names ?x), Some 0)"
    by (simp add: symbol_resolve_def b poor_find)
  from reach_step [OF b(1) step_resolve [OF this]] show ?thesis by (rule that) (simp_all add: b)
qed

text \<open>Unbinding the name then.\<close>

lemma unbound:
  assumes "symbol_reachable x" "gids (names x) = [(''/a'', 0)]" "cells (names x) = [h]" "good_cell h"
  obtains y where "symbol_reachable y" "gids (names y) = []" "cells (names y) = [h]" "tasks y = tasks x"
    "sent y = sent x @ [symbol_return h]" "taken y = taken x"
proof -
  obtain t where t: "symbol_unbind ''/a'' (names x) = (t, h)" "cells t = [h]" "gids t = []"
    using assms(2,3) good_cell_copy [OF assms(4)]
    by (simp add: symbol_unbind_def poor_find map_erase_def map_before_def map_lower_bound_def)
  from reach_step [OF assms(1) step_unbind [OF t(1)]] show ?thesis by (rule that) (simp_all add: t)
qed

section \<open>Theorems\<close>





text \<open>When a name is unbound between the lookup and the split of a resolve operation, unbind returns the whole credit of the gid, and the
  operation gives half of it away once more.\<close>

lemma symbol_unbind_race_duplicates:
  "\<exists>x. symbol_reachable x \<and> tasks x = [] \<and> gids (names x) = [] \<and>
     credit_of example_gid (taken x) < cost example_gid (sent x)"
proof -
  obtain x where x: "symbol_reachable x" "gids (names x) = [(''/a'', 0)]" "cells (names x) = [example_gid]"
    "tasks x = [task_split use_resolve 0]" "sent x = []" "taken x = [example_gid]"
    by (rule looked_up [OF example_cell])
  obtain y where y: "symbol_reachable y" "gids (names y) = []" "cells (names y) = [example_gid]" "tasks y = tasks x"
    "sent y = sent x @ [symbol_return example_gid]" "taken y = taken x"
    by (rule unbound [OF x(1-3) example_cell])
  have l: "1 < gid_log2 example_gid" using example_gid_facts(3) by simp
  obtain g n where h: "split_gid_if_needed example_gid = Some (Inr (g, split_ready n))"
    "gid_credit g + gid_credit n = gid_credit example_gid" "gid_credit g = gid_credit n" "gid_eq n example_gid"
    by (rule split_halves [OF example_gid_facts(1,2) l]) (rule that)
  have sp: "split_shared 0 (names y) = Some (set_cell 0 g (names y), Inr (split_got n), [])"
    by (simp add: split_shared_def y(3) h(1))
  have ty: "tasks y = [] @ task_split use_resolve 0 # []" using x(4) y(4) by simp
  note z = reach_step [OF y(1) step_split [OF ty sp]]
  have "0 < gid_credit example_gid" using example_gid_facts(2) by (simp add: has_credits_iff)
  then have "credit_of example_gid (taken y) < cost example_gid (sent y @ [] @ [symbol_deliver use_resolve n])"
    using h x y by simp
  then show ?thesis using y(2) by - (rule exI, rule conjI [OF z], simp)
qed

text \<open>When a name is unbound while a resolve operation waits for credit, the credit that operation
  leaves in the cell is lost: nothing is bound and nothing waits, but less credit was given away
  and returned than was received.\<close>

lemma symbol_unbind_race_leaks:
  "\<exists>x. symbol_reachable x \<and> tasks x = [] \<and> gids (names x) = [] \<and>
     cost poor_gid (sent x) + (HPX_GLOBALCREDIT_INITIAL - 2) = credit_of poor_gid (taken x)"
proof -
  let ?I = "HPX_GLOBALCREDIT_INITIAL" and ?g = "set_credit_split_mask_for_gid poor_gid"
  obtain x where x: "symbol_reachable x" "gids (names x) = [(''/a'', 0)]" "cells (names x) = [poor_gid]"
    "tasks x = [task_split use_resolve 0]" "sent x = []" "taken x = [poor_gid]"
    by (rule looked_up [OF poor_gid_facts(6)])
  have c: "good_cell (cells (names x) ! 0)" by (simp add: x(3) poor_gid_facts(6))
  have sp: "split_shared 0 (names x) = Some (set_cell 0 ?g (names x), Inr split_waits, [symbol_incref ?g (2 * (?I - 1))])"
    using split_needs_incref [OF poor_gid_facts(1-4)] by (simp add: split_shared_def x(3))
  then have g: "good_cell ?g" "waitable ?g" "gid_eq ?g poor_gid" "gid_credit ?g = 2"
    by (rule_tac split_shared_spec [OF c]; auto simp: set_cell_def x(3) poor_gid_facts(5))+
  have tx: "tasks x = [] @ task_split use_resolve 0 # []" using x(4) by simp
  note w = reach_step [OF x(1) step_split_waits [OF tx sp]]
  obtain y where y: "symbol_reachable y" "gids (names y) = []" "cells (names y) = [?g]" "tasks y = [task_wait use_resolve 0]"
    "sent y = [symbol_incref ?g (2 * (?I - 1)), symbol_return ?g]" "taken y = [poor_gid]"
    by (rule unbound [OF w, of ?g]) (use x g that in simp_all)
  have cy: "good_cell (cells (names y) ! 0)" "waitable (cells (names y) ! 0)" using y(3) g by simp_all
  obtain h n where h: "split_shared_continue 0 (names y) = Some (set_cell 0 h (names y), Inr n, [])"
    "gid_eq n ?g" "gid_credit n = ?I"
    by (rule split_shared_continue_spec [OF cy]) (use y(3) g(4) that in simp)
  have ty: "tasks y = [] @ task_wait use_resolve 0 # []" using y(4) by simp
  note z = reach_step [OF y(1) step_continue [OF ty h(1)]]
  have "gid_eq n poor_gid" using h(2) g(3) gid_eq_trans by blast
  then have "cost poor_gid (sent y @ [] @ [symbol_deliver use_resolve n]) + (?I - 2) = credit_of poor_gid (taken y)"
    using y h g poor_gid_facts(5) by simp
  then show ?thesis using y(2) by - (rule exI, rule conjI [OF z], simp)
qed

end
