(* ===== verification/Jenkins_Hash.thy ===== *)
theory Jenkins_Hash
  imports Hpx_Prelude
begin

text \<open>
  The string hash of \<^verbatim>\<open>hpx/util/jenkins_hash.hpp\<close>, which places symbolic names on localities. A
  character is a signed 8-bit value, as on the platforms the runtime supports, and is sign-extended
  when it is added to the 32-bit state.
\<close>

section \<open>The hash\<close>

type_synonym mix_state = "u32 \<times> u32 \<times> u32"

text \<open>One line of \<open>mix\<close> for each of its three variables, given the shift of the last assignment.\<close>

definition mix_a :: "(u32 \<Rightarrow> u32) \<Rightarrow> mix_state \<Rightarrow> mix_state" where
  "mix_a shift = (\<lambda>(a, b, c). let a = a - b; a = a - c; a = a XOR shift c in (a, b, c))"

definition mix_b :: "(u32 \<Rightarrow> u32) \<Rightarrow> mix_state \<Rightarrow> mix_state" where
  "mix_b shift = (\<lambda>(a, b, c). let b = b - c; b = b - a; b = b XOR shift a in (a, b, c))"

definition mix_c :: "(u32 \<Rightarrow> u32) \<Rightarrow> mix_state \<Rightarrow> mix_state" where
  "mix_c shift = (\<lambda>(a, b, c). let c = c - a; c = c - b; c = c XOR shift b in (a, b, c))"

definition mix :: "mix_state \<Rightarrow> mix_state" where
  "mix s =
     (let s = mix_a (drop_bit 13) s;
          s = mix_b (push_bit 8) s;
          s = mix_c (drop_bit 13) s;
          s = mix_a (drop_bit 12) s;
          s = mix_b (push_bit 16) s;
          s = mix_c (drop_bit 5) s;
          s = mix_a (drop_bit 3) s;
          s = mix_b (push_bit 10) s;
          s = mix_c (drop_bit 15) s
      in s)"

definition char_word :: "char \<Rightarrow> u32" where
  "char_word ch = scast (word_of_nat (of_char ch) :: 8 word)"

definition key_at :: "string \<Rightarrow> nat \<Rightarrow> u32" where
  "key_at k i = char_word (k ! i)"

definition key_word :: "string \<Rightarrow> nat \<Rightarrow> u32" where
  "key_word k i = key_at k i + push_bit 8 (key_at k (i + 1)) + push_bit 16 (key_at k (i + 2)) +
     push_bit 24 (key_at k (i + 3))"

text \<open>The loop over blocks of twelve characters: the state and the rest of the key.\<close>

function hash_blocks :: "string \<Rightarrow> mix_state \<Rightarrow> string \<times> mix_state" where
  "hash_blocks k s =
     (if length k \<ge> 12
      then let (a, b, c) = s in
           hash_blocks (drop 12 k) (mix (a + key_word k 0, b + key_word k 4, c + key_word k 8))
      else (k, s))"
  by pat_completeness auto
termination by (relation "measure (\<lambda>(k, s). length k)") auto

declare hash_blocks.simps [simp del]

text \<open>The \<open>switch\<close> that falls through: character \<open>i\<close> is added when the rest is longer than \<open>i\<close>.\<close>

definition tail_term :: "string \<Rightarrow> nat \<Rightarrow> nat \<Rightarrow> u32" where
  "tail_term k i sh = (if i < length k then push_bit sh (key_at k i) else 0)"

definition hash_tail :: "string \<Rightarrow> mix_state \<Rightarrow> mix_state" where
  "hash_tail k = (\<lambda>(a, b, c).
     let c = c + tail_term k 10 24;
         c = c + tail_term k 9 16;
         c = c + tail_term k 8 8;
         b = b + tail_term k 7 24;
         b = b + tail_term k 6 16;
         b = b + tail_term k 5 8;
         b = b + tail_term k 4 0;
         a = a + tail_term k 3 24;
         a = a + tail_term k 2 16;
         a = a + tail_term k 1 8;
         a = a + tail_term k 0 0
     in (a, b, c))"

definition hash :: "u32 \<Rightarrow> string \<Rightarrow> u32" where
  "hash seed k =
     (let (k', a, b, c) = hash_blocks k (0x9e3779b9, 0x9e3779b9, seed);
          c = c + word_of_nat (length k);
          (a, b, c) = mix (hash_tail k' (a, b, c))
      in c)"

definition jenkins_hash :: "string \<Rightarrow> u32" where
  "jenkins_hash key = hash 0 key"

section \<open>Mixing is reversible\<close>

definition unmix_a :: "(u32 \<Rightarrow> u32) \<Rightarrow> mix_state \<Rightarrow> mix_state" where
  "unmix_a shift = (\<lambda>(a, b, c). ((a XOR shift c) + c + b, b, c))"

definition unmix_b :: "(u32 \<Rightarrow> u32) \<Rightarrow> mix_state \<Rightarrow> mix_state" where
  "unmix_b shift = (\<lambda>(a, b, c). (a, (b XOR shift a) + a + c, c))"

definition unmix_c :: "(u32 \<Rightarrow> u32) \<Rightarrow> mix_state \<Rightarrow> mix_state" where
  "unmix_c shift = (\<lambda>(a, b, c). (a, b, (c XOR shift b) + b + a))"

lemma unmix_lines [simp]:
  "unmix_a f (mix_a f s) = s" "mix_a f (unmix_a f s) = s"
  "unmix_b f (mix_b f s) = s" "mix_b f (unmix_b f s) = s"
  "unmix_c f (mix_c f s) = s" "mix_c f (unmix_c f s) = s"
  by (cases s, simp add: unmix_a_def mix_a_def unmix_b_def mix_b_def unmix_c_def mix_c_def
      xor.assoc Let_def)+

text \<open>Undoing the lines of \<open>mix\<close> from the last to the first.\<close>

definition unmix :: "mix_state \<Rightarrow> mix_state" where
  "unmix s =
     unmix_a (drop_bit 13) (unmix_b (push_bit 8) (unmix_c (drop_bit 13)
      (unmix_a (drop_bit 12) (unmix_b (push_bit 16) (unmix_c (drop_bit 5)
       (unmix_a (drop_bit 3) (unmix_b (push_bit 10) (unmix_c (drop_bit 15) s))))))))"

lemma unmix_mix: "unmix (mix s) = s"
  by (simp add: mix_def unmix_def)

lemma mix_unmix: "mix (unmix s) = s"
  by (simp add: mix_def unmix_def)

text \<open>The comment on mix is true: mixing three 32-bit values loses no information. \<open>unmix\<close> is its
  inverse on both sides, so mix is a permutation of the 2 to the 96 states.\<close>

lemma mix_reversible: "unmix (mix s) = s \<and> mix (unmix s) = s \<and> bij mix"
proof -
  have "bij mix" by (rule o_bij [of unmix]) (auto simp: unmix_mix mix_unmix)
  then show ?thesis by (simp add: unmix_mix mix_unmix)
qed

end
