(* ===== verification/Symbol_Routing.thy ===== *)
theory Symbol_Routing
  imports Jenkins_Hash Symbol_Namespace Refcnt_Requests
begin

text \<open>
  The client side of the symbol namespace, \<^verbatim>\<open>src/runtime/agas/symbol_namespace.cpp\<close>: a name is kept
  by the service instance of one locality, which its hash selects, and an operation is either
  performed by the local server object or sent to that instance.
\<close>

definition HPX_AGAS_SYMBOL_NS_MSB :: u64 where "HPX_AGAS_SYMBOL_NS_MSB = 0x0000000100000001"
definition HPX_AGAS_SYMBOL_NS_LSB :: u64 where "HPX_AGAS_SYMBOL_NS_LSB = 0x0000000000000003"

definition symbol_service_instance :: "u32 \<Rightarrow> gid_type" where
  "symbol_service_instance service_locality_id =
     replace_locality_id (mk_gid HPX_AGAS_SYMBOL_NS_MSB HPX_AGAS_SYMBOL_NS_LSB) service_locality_id"

definition symbol_service_instance_of_gid :: "gid_type \<Rightarrow> gid_type result" where
  "symbol_service_instance_of_gid dest =
     (let service_locality_id = get_locality_id_from_gid dest in
      if service_locality_id = invalid_locality_id then Inl bad_parameter
      else Inr (symbol_service_instance service_locality_id))"

definition symbol_is_service_instance :: "gid_type \<Rightarrow> bool" where
  "symbol_is_service_instance gid \<longleftrightarrow> id_lsb gid = HPX_AGAS_SYMBOL_NS_LSB \<and>
     id_msb gid AND NOT locality_id_mask = HPX_AGAS_SYMBOL_NS_MSB"

text \<open>\<open>None\<close>: the remainder of a division by zero, which is undefined.\<close>

definition symbol_hash_value :: "u32 \<Rightarrow> string \<Rightarrow> u32 option" where
  "symbol_hash_value num_localities key =
     (if length key < 2 \<or> key ! 1 \<noteq> CHR ''0'' \<or> key ! 0 \<noteq> CHR ''/''
      then (if num_localities = 0 then None else Some (jenkins_hash key mod num_localities))
      else Some 0)"

definition symbol_namespace_locality :: "u32 \<Rightarrow> string \<Rightarrow> id_type option" where
  "symbol_namespace_locality num_localities key =
     map_option (\<lambda>hash_value. id_type_of_gid (symbol_service_instance hash_value) unmanaged)
       (symbol_hash_value num_localities key)"

datatype route = route_local | route_remote id_type

definition symbol_route :: "u32 \<Rightarrow> gid_type \<Rightarrow> string \<Rightarrow> route option" where
  "symbol_route num_localities here key =
     map_option (\<lambda>dest.
       if gid_eq (get_locality_from_gid (impl_gid (the dest))) here then route_local else route_remote dest)
       (symbol_namespace_locality num_localities key)"

text \<open>The id made of a gid that the local server object returned.\<close>

definition symbol_result_id :: "gid_type \<Rightarrow> id_type" where
  "symbol_result_id raw_gid =
     (if has_credits raw_gid then id_type_of_gid raw_gid managed else id_type_of_gid raw_gid unmanaged)"

definition register_instance_name :: "u32 \<Rightarrow> string" where
  "register_instance_name locality_id = ''locality#'' @ to_string (uint locality_id) @ ''/''"

section \<open>One instance per name\<close>

lemma unmanaged_locality:
  "get_locality_id_from_gid (impl_gid (the (id_type_of_gid g unmanaged))) = get_locality_id_from_gid g"
  by (rule locality_gid_eq)
    (auto simp: id_type_of_gid_def strip_unmanaged_def intrusive_ptr_add_ref_def id_type_impl_of_gid_def
      gid_eq_bits mask_bits strip_internal_bits_except_dont_cache_from_gid_def
      strip_internal_bits_except_dont_cache_from_msb_def bit_and_iff bit_not_iff
      dest: bit_imp_less_64)

lemma locality_gid_inj:
  "gid_eq (get_gid_from_locality_id a) (get_gid_from_locality_id b) \<longleftrightarrow> a = b"
  using locality_gid_eq locality_roundtrip by (metis gid_eq_refl)

text \<open>Every name has exactly one home. For a running system of \<open>n\<close> localities, the name is sent to
  the symbol service of a locality below \<open>n\<close>, the same wherever the operation starts: exactly the
  operations started on that locality are performed locally. Names that start with /0 live on
  locality 0.\<close>

lemma symbol_route_unique:
  assumes "0 < n"
  shows "\<exists>l. l < n \<and> symbol_namespace_locality n key = Some (id_type_of_gid (symbol_service_instance l) unmanaged) \<and>
    (\<forall>m. symbol_route n (get_gid_from_locality_id m) key =
       Some (if m = l then route_local
             else route_remote (id_type_of_gid (symbol_service_instance l) unmanaged))) \<and>
    (take 2 key = ''/0'' \<longrightarrow> l = 0)"
proof -
  have n: "n \<noteq> 0" using assms by auto
  obtain l where l: "symbol_hash_value n key = Some l" "l < n" "take 2 key = ''/0'' \<Longrightarrow> l = 0"
  proof (cases "length key < 2 \<or> key ! 1 \<noteq> CHR ''0'' \<or> key ! 0 \<noteq> CHR ''/''")
    case True
    moreover have "take 2 key \<noteq> ''/0''"
    proof
      assume t: "take 2 key = ''/0''"
      then have "2 \<le> length key" by (metis length_take min.cobounded1 length_Cons list.size(3) numeral_2_eq_2)
      moreover have "key ! 0 = take 2 key ! 0" "key ! 1 = take 2 key ! 1" by simp_all
      ultimately show False using True t by simp
    qed
    moreover have "jenkins_hash key mod n < n" using assms by (rule word_mod_less_divisor)
    ultimately show ?thesis using that [of "jenkins_hash key mod n"] n by (simp add: symbol_hash_value_def)
  next
    case False
    then have "symbol_hash_value n key = Some 0" by (simp add: symbol_hash_value_def)
    then show ?thesis using that assms by blast
  qed
  have "get_locality_id_from_gid (symbol_service_instance l) = l"
    by (simp add: symbol_service_instance_def replace_locality_spec)
  then have "get_locality_from_gid (impl_gid (the (id_type_of_gid (symbol_service_instance l) unmanaged))) =
      get_gid_from_locality_id l"
    by (simp add: get_locality_from_gid_def unmanaged_locality)
  then show ?thesis
    using l by (intro exI [of _ l]) (auto simp: symbol_route_def symbol_namespace_locality_def locality_gid_inj)
qed

end
