(* ===== verification/Component_Namespace.thy ===== *)
theory Component_Namespace
  imports Gva_Types Std_Map Counter_Data "HOL-Library.List_Lexorder" "HOL-Library.Char_ord"
begin

text \<open>
  The component namespace service of
  \<^verbatim>\<open>src/runtime/agas/server/component_namespace_server.cpp\<close>: names of component types, the numbers
  assigned to them and the localities that can create them.

  The \<open>boost::bimap\<close> of names and types is its left view, a map ordered by name; inserting into it
  fails when the name or the type is taken. A \<open>std::set\<close> of localities is a sorted list. The type counter is a signed
  32-bit integer: a registration that would increment it beyond its range is undefined, \<open>None\<close>.
\<close>

section \<open>State\<close>

datatype component_api = component_ns_bind_prefix | component_ns_bind_name | component_ns_resolve_id
  | component_ns_unbind_name | component_ns_iterate_types | component_ns_get_component_type_name
  | component_ns_num_localities

definition component_apis :: "component_api list" where
  "component_apis = [component_ns_bind_prefix, component_ns_bind_name, component_ns_resolve_id,
     component_ns_unbind_name, component_ns_iterate_types, component_ns_get_component_type_name,
     component_ns_num_localities]"

record component_namespace =
  component_ids :: "(string, component_type) std_map"
  factories :: "(component_type, u32 list) std_map"
  type_counter :: component_type
  component_counters :: "component_api counter_data"

definition component_init :: component_namespace where
  "component_init = \<lparr>component_ids = [], factories = [], type_counter = component_first_dynamic,
     component_counters = no_counts\<rparr>"

definition count_component :: "component_api \<Rightarrow> component_namespace \<Rightarrow> component_namespace" where
  "count_component api s = s\<lparr>component_counters := increment_count api (component_counters s)\<rparr>"

definition bimap_insert ::
  "(string, component_type) std_map \<Rightarrow> string \<Rightarrow> component_type \<Rightarrow> (string, component_type) std_map \<times> bool" where
  "bimap_insert m k t =
     (if t \<in> snd ` set m then (m, False) else map_insert (<) m k t)"

definition bimap_right_find :: "(string, component_type) std_map \<Rightarrow> component_type \<Rightarrow> string option" where
  "bimap_right_find m t = map_option fst (find (\<lambda>e. snd e = t) m)"

section \<open>Operations\<close>

text \<open>The type registered for a name; a new name takes the value of the type counter.\<close>

definition find_or_register ::
  "string \<Rightarrow> component_namespace \<Rightarrow> (component_namespace \<times> component_type result) option" where
  "find_or_register key s =
     (case map_find (<) (component_ids s) key of
        Some (_, t) \<Rightarrow> Some (s, Inr t)
      | None \<Rightarrow>
          let (table, inserted) = bimap_insert (component_ids s) key (type_counter s) in
          if \<not> inserted then Some (s, Inl lock_error)
          else if type_counter s \<ge> 2 ^ 31 - 1 then None
          else Some (s\<lparr>component_ids := table, type_counter := type_counter s + 1\<rparr>, Inr (type_counter s)))"

text \<open>Adding a locality to the factories of a type.\<close>

definition register_locality ::
  "component_type \<Rightarrow> u32 \<Rightarrow> component_namespace \<Rightarrow> component_namespace \<times> component_type result" where
  "register_locality ctype loc s =
     (case map_find (<) (factories s) ctype of
        Some (_, prefixes) \<Rightarrow>
          if loc \<in> set prefixes then (s, Inl duplicate_component_id)
          else (s\<lparr>factories := map_assign (<) (factories s) ctype (insort loc prefixes)\<rparr>, Inr ctype)
      | None \<Rightarrow>
          let (table, inserted) = map_insert (<) (factories s) ctype [] in
          if \<not> inserted then (s, Inl lock_error)
          else (s\<lparr>factories := map_assign (<) table ctype (insort loc [])\<rparr>, Inr ctype))"

definition bind_prefix ::
  "string \<Rightarrow> u32 \<Rightarrow> component_namespace \<Rightarrow> (component_namespace \<times> component_type result) option" where
  "bind_prefix key loc s =
     (let s = count_component component_ns_bind_prefix s in
      case find_or_register key s of
        None \<Rightarrow> None
      | Some (s, Inl e) \<Rightarrow> Some (s, Inl e)
      | Some (s, Inr ctype) \<Rightarrow> Some (register_locality ctype loc s))"

definition bind_name :: "string \<Rightarrow> component_namespace \<Rightarrow> (component_namespace \<times> component_type result) option" where
  "bind_name key s = find_or_register key (count_component component_ns_bind_name s)"

definition factory_key :: "component_type \<Rightarrow> component_type" where
  "factory_key key = (if key \<noteq> get_base_type key then get_derived_type key else key)"

definition resolve_id :: "component_type \<Rightarrow> component_namespace \<Rightarrow> component_namespace \<times> u32 list" where
  "resolve_id key s =
     (let s = count_component component_ns_resolve_id s in
      case map_find (<) (factories s) (factory_key key) of
        None \<Rightarrow> (s, [])
      | Some (_, prefixes) \<Rightarrow> if prefixes = [] then (s, []) else (s, prefixes))"

definition component_unbind :: "string \<Rightarrow> component_namespace \<Rightarrow> component_namespace \<times> bool" where
  "component_unbind key s =
     (let s = count_component component_ns_unbind_name s in
      case map_find (<) (component_ids s) key of
        None \<Rightarrow> (s, False)
      | Some (_, t) \<Rightarrow>
          (s\<lparr>factories := map_erase (<) (factories s) t,
             component_ids := map_erase (<) (component_ids s) key\<rparr>, True))"

text \<open>The callback runs under the lock, so it cannot change the tables; its own state is threaded.\<close>

definition iterate_types ::
  "(string \<Rightarrow> component_type \<Rightarrow> 'w \<Rightarrow> 'w) \<Rightarrow> 'w \<Rightarrow> component_namespace \<Rightarrow> component_namespace \<times> 'w" where
  "iterate_types f w s =
     (let s = count_component component_ns_iterate_types s
      in (s, fold (\<lambda>(k, t). f k t) (component_ids s) w))"

text \<open>\<open>None\<close> is a read outside the table of predefined names.\<close>

definition get_component_name :: "(string, component_type) std_map \<Rightarrow> component_type \<Rightarrow> string option" where
  "get_component_name m t =
     (if t < component_last then Gva_Types.get_component_type_name t
      else case bimap_right_find m t of None \<Rightarrow> Some '''' | Some name \<Rightarrow> Some name)"

definition component_type_name ::
  "component_type \<Rightarrow> component_namespace \<Rightarrow> component_namespace \<times> string option" where
  "component_type_name t s =
     (let s = count_component component_ns_get_component_type_name s in
      (s, if t = component_invalid then Some ''component_invalid''
          else if get_derived_type t = 0 then get_component_name (component_ids s) t
          else (case get_component_name (component_ids s) (get_derived_type t) of
                  None \<Rightarrow> None
                | Some derived \<Rightarrow>
                    map_option (\<lambda>base. derived @ ''/'' @ base)
                      (get_component_name (component_ids s) (get_base_type t)))))"

definition component_num_localities ::
  "component_type \<Rightarrow> component_namespace \<Rightarrow> component_namespace \<times> u32" where
  "component_num_localities key s =
     (let s = count_component component_ns_num_localities s in
      case map_find (<) (factories s) (factory_key key) of
        None \<Rightarrow> (s, 0)
      | Some (_, prefixes) \<Rightarrow> (s, word_of_nat (length prefixes)))"

section \<open>The invariant\<close>

text \<open>
  Names have different types, all between the first dynamic type and the counter; localities are
  registered for types that have a name, and each such set is sorted and not empty.
\<close>

definition component_ok :: "component_namespace \<Rightarrow> bool" where
  "component_ok s \<longleftrightarrow> map_sorted (<) (component_ids s) \<and> map_sorted (<) (factories s) \<and>
     inj_on snd (set (component_ids s)) \<and> component_first_dynamic \<le> type_counter s \<and>
     (\<forall>e \<in> set (component_ids s). component_first_dynamic \<le> snd e \<and> snd e < type_counter s) \<and>
     (\<forall>e \<in> set (factories s). fst e \<in> snd ` set (component_ids s) \<and> snd e \<noteq> [] \<and>
        sorted (snd e) \<and> distinct (snd e))"

text \<open>What a client sees: the type of a name, and the localities of a type.\<close>

definition type_of :: "component_namespace \<Rightarrow> string \<Rightarrow> component_type option" where
  "type_of s key = map_option snd (map_find (<) (component_ids s) key)"

definition localities_of :: "component_namespace \<Rightarrow> component_type \<Rightarrow> u32 list" where
  "localities_of s t = (case map_find (<) (factories s) t of None \<Rightarrow> [] | Some e \<Rightarrow> snd e)"

lemma component_ok_init: "component_ok component_init"
  by (simp add: component_ok_def component_init_def)

lemma component_count [simp]: "component_ok (count_component api s) \<longleftrightarrow> component_ok s"
  "type_of (count_component api s) = type_of s" "localities_of (count_component api s) = localities_of s"
  "type_counter (count_component api s) = type_counter s" "component_ids (count_component api s) = component_ids s"
  "factories (count_component api s) = factories s"
  by (simp_all add: component_ok_def count_component_def type_of_def [abs_def] localities_of_def [abs_def])

lemma component_okD:
  assumes "component_ok s"
  shows "map_sorted (<) (component_ids s)" "map_sorted (<) (factories s)" "inj_on snd (set (component_ids s))"
    "e \<in> set (component_ids s) \<Longrightarrow> component_first_dynamic \<le> snd e \<and> snd e < type_counter s"
    "f \<in> set (factories s) \<Longrightarrow> fst f \<in> snd ` set (component_ids s) \<and> snd f \<noteq> [] \<and> sorted (snd f) \<and> distinct (snd f)"
    "component_first_dynamic \<le> type_counter s"
  using assms unfolding component_ok_def by blast+

lemma type_of_iff:
  assumes "component_ok s"
  shows "type_of s key = Some t \<longleftrightarrow> (key, t) \<in> set (component_ids s)"
proof -
  have "type_of s key = Some t \<longleftrightarrow> map_find (<) (component_ids s) key = Some (key, t)"
    using total.find_SomeD [of "component_ids s" key] by (fastforce simp: type_of_def)
  then show ?thesis by (simp add: total.find_iff [OF component_okD(1) [OF assms]])
qed

lemma type_of_range:
  "component_ok s \<Longrightarrow> type_of s key = Some t \<Longrightarrow> component_first_dynamic \<le> t \<and> t < type_counter s"
  using component_okD(4) [of s "(key, t)"] by (simp add: type_of_iff)

lemma type_of_inj:
  "component_ok s \<Longrightarrow> type_of s k = Some t \<Longrightarrow> type_of s k' = Some t \<Longrightarrow> k = k'"
  using component_okD(3) [of s] unfolding type_of_iff by (metis inj_onD prod.inject snd_conv)

lemma localities_named:
  assumes "component_ok s" "localities_of s t \<noteq> []"
  shows "\<exists>key. type_of s key = Some t"
proof -
  from assms(2) obtain e where e: "map_find (<) (factories s) t = Some e"
    by (auto simp: localities_of_def split: option.splits)
  note f = total.find_SomeD [OF e]
  then have "t \<in> snd ` set (component_ids s)" using component_okD(5) [OF assms(1) f(1)] by simp
  then show ?thesis using assms(1) by (auto simp: type_of_iff)
qed

lemma register_spec:
  assumes "component_ok s" "type_of s key = None \<Longrightarrow> type_counter s < 2 ^ 31 - 1"
  obtains s' t where "find_or_register key s = Some (s', Inr t)" "component_ok s'"
    "t = (case type_of s key of Some t \<Rightarrow> t | None \<Rightarrow> type_counter s)"
    "type_of s' = (type_of s)(key \<mapsto> t)" "factories s' = factories s"
    "type_counter s' = (if type_of s key = None then type_counter s + 1 else type_counter s)"
    "component_counters s' = component_counters s"
proof (cases "map_find (<) (component_ids s) key")
  case (Some e)
  obtain k t where e: "e = (k, t)" by (cases e)
  have t: "type_of s key = Some t" by (simp add: type_of_def Some e)
  show ?thesis
  proof (rule that [of s t])
    show "type_of s = (type_of s)(key \<mapsto> t)" using t by (simp add: fun_upd_idem)
    show "find_or_register key s = Some (s, Inr t)" by (simp add: find_or_register_def Some e)
  qed (simp_all add: t assms(1))
next
  case None
  let ?t = "type_counter s" and ?m = "fst (map_insert (<) (component_ids s) key (type_counter s))"
  note d = component_okD [OF assms(1)]
  have less: "type_counter s < 2 ^ 31 - 1" by (rule assms(2)) (simp add: type_of_def None)
  have new: "?t \<notin> snd ` set (component_ids s)" using d(4) by force
  have set: "set ?m = insert (key, ?t) (set (component_ids s))" by (rule total.set_insert [OF None])
  define s' where "s' = s\<lparr>component_ids := ?m, type_counter := ?t + 1\<rparr>"
  have "find_or_register key s = Some (s', Inr ?t)"
    using new less None total.insert_fresh [OF None, of ?t]
    by (simp add: find_or_register_def bimap_insert_def s'_def case_prod_unfold)
  moreover have "component_ok s'"
    unfolding component_ok_def s'_def using d(2,3,6) new total.sorted_insert [OF d(1)] d(4,5)
    by (auto simp: set less_imp_le intro: less_trans)
  moreover have "type_of s' = (type_of s)(key \<mapsto> ?t)"
    by (rule ext) (simp add: type_of_def s'_def total.find_insert [OF d(1) None])
  moreover have "type_of s key = None" by (simp add: type_of_def None)
  ultimately show ?thesis using that [of s' ?t] by (simp add: s'_def)
qed

section \<open>Registering\<close>

lemma bind_name_registers:
  assumes "component_ok s" "type_of s key = None \<Longrightarrow> type_counter s < 2 ^ 31 - 1"
  shows "\<exists>s' t. bind_name key s = Some (s', Inr t) \<and> component_ok s' \<and>
    t = (case type_of s key of Some t \<Rightarrow> t | None \<Rightarrow> type_counter s) \<and> type_of s' = (type_of s)(key \<mapsto> t) \<and>
    type_counter s' = (if type_of s key = None then type_counter s + 1 else type_counter s) \<and>
    localities_of s' = localities_of s"
proof -
  have c: "component_ok (count_component component_ns_bind_name s)"
    "type_of (count_component component_ns_bind_name s) key = None \<Longrightarrow> type_counter (count_component component_ns_bind_name s) < 2 ^ 31 - 1"
    using assms by simp_all
  obtain s' t where r: "find_or_register key (count_component component_ns_bind_name s) = Some (s', Inr t)"
    "component_ok s'" "t = (case type_of s key of Some t \<Rightarrow> t | None \<Rightarrow> type_counter s)"
    "type_of s' = (type_of s)(key \<mapsto> t)" "factories s' = factories s"
    "type_counter s' = (if type_of s key = None then type_counter s + 1 else type_counter s)"
    using register_spec [OF c] unfolding component_count by metis
  have "localities_of s' = localities_of s" by (simp add: localities_of_def [abs_def] r(5))
  then show ?thesis using r by (intro exI [of _ s'] exI [of _ t]) (simp add: bind_name_def)
qed

lemma assign_factories:
  assumes "component_ok s" "map_find (<) m t = Some (t, ls)" "map_sorted (<) m" "xs \<noteq> []" "sorted xs"
    "distinct xs" "t \<in> snd ` set (component_ids s)"
    "\<forall>e \<in> set m. fst e = t \<or> e \<in> set (factories s)"
  shows "component_ok (s\<lparr>factories := map_assign (<) m t xs\<rparr>)"
proof -
  note d = component_okD [OF assms(1)]
  have "fst e \<in> snd ` set (component_ids s) \<and> snd e \<noteq> [] \<and> sorted (snd e) \<and> distinct (snd e)"
    if "e \<in> set (map_assign (<) m t xs)" for e
  proof -
    have "e = (t, xs) \<or> e \<in> set (factories s)"
      using that assms(8) unfolding total.set_assign [OF assms(3,2)] by auto
    then show ?thesis using assms(4-7) d(5) [of e] by (elim disjE) simp_all
  qed
  with d(1,3,4,6) total.sorted_assign [OF assms(3)] show ?thesis by (simp add: component_ok_def)
qed

lemma assign_localities:
  assumes "map_sorted (<) m" "map_find (<) m t = Some (t, ls)"
  shows "localities_of (s\<lparr>factories := map_assign (<) m t xs\<rparr>) u =
    (if u = t then xs else localities_of (s\<lparr>factories := m\<rparr>) u)"
  using total.find_assign [OF assms, of xs u] by (auto simp: localities_of_def)

text \<open>Registering a locality for a type that has a name.\<close>

lemma add_locality:
  assumes "component_ok s" "type_of s key = Some t" "l \<notin> set (localities_of s t)"
  obtains m where "register_locality t l s = (s\<lparr>factories := m\<rparr>, Inr t)" "component_ok (s\<lparr>factories := m\<rparr>)"
    "\<And>u. localities_of (s\<lparr>factories := m\<rparr>) u =
       (if u = t then insort l (localities_of s t) else localities_of s u)"
proof -
  note d = component_okD [OF assms(1)]
  have t: "t \<in> snd ` set (component_ids s)" using assms(1,2) by (force simp: type_of_iff)
  show ?thesis
  proof (cases "map_find (<) (factories s) t")
    case (Some e)
    obtain ls where e: "e = (t, ls)" using total.find_SomeD(2) [OF Some] by (cases e) simp
    note f = Some [unfolded e]
    have l: "localities_of s t = ls" by (simp add: localities_of_def f)
    have "sorted ls" "distinct ls" "l \<notin> set ls"
      using d(5) [OF total.find_SomeD(1) [OF f]] assms(3) l by simp_all
    then have "component_ok (s\<lparr>factories := map_assign (<) (factories s) t (insort l ls)\<rparr>)"
      by (intro assign_factories [OF assms(1) f d(2) _ _ _ t])
        (auto simp: sorted_insort distinct_insort)
    moreover have "localities_of (s\<lparr>factories := factories s\<rparr>) = localities_of s" by simp
    ultimately show ?thesis
      using that [of "map_assign (<) (factories s) t (insort l ls)"] \<open>l \<notin> set ls\<close>
      by (simp add: register_locality_def f l assign_localities [OF d(2) f])
  next
    case None
    define m where "m = fst (map_insert (<) (factories s) t [])"
    have i: "map_insert (<) (factories s) t [] = (m, True)"
      using total.insert_fresh [OF None] by (simp add: m_def prod_eq_iff)
    have m: "map_sorted (<) m" "\<And>k. map_find (<) m k = (if t = k then Some (t, []) else map_find (<) (factories s) k)"
      "set m = insert (t, []) (set (factories s))"
      unfolding m_def using total.sorted_insert [OF d(2)] total.find_insert [OF d(2) None]
        total.set_insert [OF None] by simp_all
    then have f: "map_find (<) m t = Some (t, [])" by simp
    have "component_ok (s\<lparr>factories := map_assign (<) m t (insort l [])\<rparr>)"
      by (intro assign_factories [OF assms(1) f m(1) _ _ _ t]) (auto simp: m(3))
    moreover have "localities_of (s\<lparr>factories := map_assign (<) m t (insort l [])\<rparr>) u =
       (if u = t then insort l (localities_of s t) else localities_of s u)" for u
      unfolding assign_localities [OF m(1) f] by (simp add: localities_of_def m(2) None)
    ultimately show ?thesis using that [of "map_assign (<) m t (insort l [])"] by (simp add: register_locality_def None i)
  qed
qed

text \<open>Registering a locality for a component type. The name gets its type as with bind_name. If
  the locality is new for the type it is added, in order, to the localities of that type and of no
  other, and the type is returned; otherwise the result is \<open>duplicate_component_id\<close> and no
  registration changes. The invariant holds afterwards in both cases.\<close>

lemma bind_prefix_registers:
  assumes "component_ok s" "type_of s key = None \<Longrightarrow> type_counter s < 2 ^ 31 - 1"
  shows "\<exists>s' r t. bind_prefix key l s = Some (s', r) \<and> component_ok s' \<and> type_of s' = (type_of s)(key \<mapsto> t) \<and>
    t = (case type_of s key of Some t \<Rightarrow> t | None \<Rightarrow> type_counter s) \<and>
    type_counter s' = (if type_of s key = None then type_counter s + 1 else type_counter s) \<and>
    (if type_of s key \<noteq> None \<and> l \<in> set (localities_of s t)
     then r = Inl duplicate_component_id \<and> localities_of s' = localities_of s
     else r = Inr t \<and> (\<forall>u. localities_of s' u =
       (if u = t then insort l (localities_of s t) else localities_of s u)))"
proof -
  have c: "component_ok (count_component component_ns_bind_prefix s)"
    "type_of (count_component component_ns_bind_prefix s) key = None \<Longrightarrow> type_counter (count_component component_ns_bind_prefix s) < 2 ^ 31 - 1"
    using assms by simp_all
  obtain s1 t where r: "find_or_register key (count_component component_ns_bind_prefix s) = Some (s1, Inr t)"
    "component_ok s1" "t = (case type_of s key of Some t \<Rightarrow> t | None \<Rightarrow> type_counter s)"
    "type_of s1 = (type_of s)(key \<mapsto> t)" "factories s1 = factories s"
    "type_counter s1 = (if type_of s key = None then type_counter s + 1 else type_counter s)"
    using register_spec [OF c] unfolding component_count by metis
  have run: "bind_prefix key l s = Some (register_locality t l s1)" by (simp add: bind_prefix_def r(1))
  have locs: "localities_of s1 = localities_of s" by (simp add: localities_of_def [abs_def] r(5))
  show ?thesis
  proof (cases "l \<in> set (localities_of s1 t)")
    case True
    then obtain e where e: "map_find (<) (factories s1) t = Some e" "l \<in> set (snd e)"
      by (cases "map_find (<) (factories s1) t") (auto simp: localities_of_def)
    have "type_of s key \<noteq> None"
    proof
      assume n: "type_of s key = None"
      obtain k where "type_of s k = Some t" using localities_named [OF assms(1), of t] True locs by fastforce
      then show False using type_of_range [OF assms(1)] n r(3) by fastforce
    qed
    moreover have "register_locality t l s1 = (s1, Inl duplicate_component_id)"
      using e by (cases e) (simp add: register_locality_def)
    ultimately show ?thesis using r run locs True by auto
  next
    case False
    have "type_of s1 key = Some t" using r(4) by simp
    from add_locality [OF r(2) this False] obtain m where m:
      "register_locality t l s1 = (s1\<lparr>factories := m\<rparr>, Inr t)" "component_ok (s1\<lparr>factories := m\<rparr>)"
      "\<And>u. localities_of (s1\<lparr>factories := m\<rparr>) u = (if u = t then insort l (localities_of s1 t) else localities_of s1 u)"
      by metis
    moreover have "type_of (s1\<lparr>factories := m\<rparr>) = type_of s1" by (simp add: type_of_def [abs_def])
    ultimately show ?thesis using r run locs False by auto
  qed
qed

text \<open>Removing a component name. The name loses its type and the type its localities; every other
  name keeps its type and its localities, and the type is not assigned again. Removing an unknown
  name reports so and changes nothing but the call counter.\<close>

lemma component_unbind_removes:
  assumes "component_ok s"
  shows "component_ok (fst (component_unbind key s)) \<and>
    type_of (fst (component_unbind key s)) = (type_of s)(key := None) \<and>
    type_counter (fst (component_unbind key s)) = type_counter s \<and>
    (snd (component_unbind key s) \<longleftrightarrow> type_of s key \<noteq> None) \<and>
    (\<forall>u. localities_of (fst (component_unbind key s)) u =
       (if type_of s key = Some u then [] else localities_of s u))"
proof (cases "map_find (<) (component_ids s) key")
  case None
  then have "type_of s key = None" by (simp add: type_of_def)
  moreover from this have "(type_of s)(key := None) = type_of s" by auto
  ultimately show ?thesis using assms None by (simp add: component_unbind_def)
next
  case (Some e)
  obtain t where e: "e = (key, t)" using total.find_SomeD(2) [OF Some] by (cases e) simp
  note d = component_okD [OF assms] and f = Some [unfolded e]
  have t: "type_of s key = Some t" by (simp add: type_of_def f)
  define s' where "s' = fst (component_unbind key s)"
  have ids: "component_ids s' = map_erase (<) (component_ids s) key"
    and facs: "factories s' = map_erase (<) (factories s) t" and tc: "type_counter s' = type_counter s"
    by (simp_all add: s'_def component_unbind_def f)
  have named: "fst g \<in> snd ` set (component_ids s')" if "g \<in> set (factories s')" for g
  proof -
    have g: "g \<in> set (factories s)" "fst g \<noteq> t" using that by (simp_all add: facs total.set_erase [OF d(2)])
    have "fst g \<in> snd ` set (component_ids s)" using d(5) [OF g(1)] by blast
    then obtain k where k: "(k, fst g) \<in> set (component_ids s)" by (metis imageE prod.collapse)
    then have "type_of s k = Some (fst g)" by (simp only: type_of_iff [OF assms])
    then have "k \<noteq> key" using g(2) t by auto
    with k show ?thesis by (force simp: ids total.set_erase [OF d(1)])
  qed
  have "component_ok s'"
    unfolding component_ok_def
  proof (intro conjI)
    show "inj_on snd (set (component_ids s'))"
      using d(3) by (rule inj_on_subset) (auto simp: ids total.set_erase [OF d(1)])
    show "\<forall>e \<in> set (component_ids s'). component_first_dynamic \<le> snd e \<and> snd e < type_counter s'"
      using d(4) by (simp add: ids tc total.set_erase [OF d(1)])
    show "\<forall>g \<in> set (factories s'). fst g \<in> snd ` set (component_ids s') \<and> snd g \<noteq> [] \<and>
        sorted (snd g) \<and> distinct (snd g)"
      using named d(5) by (simp add: facs total.set_erase [OF d(2)])
  qed (use d in \<open>simp_all add: ids facs tc total.sorted_erase\<close>)
  moreover have "type_of s' = (type_of s)(key := None)"
    by (rule ext) (simp add: type_of_def ids total.find_erase [OF d(1)])
  moreover have "localities_of s' u = (if type_of s key = Some u then [] else localities_of s u)" for u
    by (simp add: localities_of_def facs total.find_erase [OF d(2)] t)
  moreover have "snd (component_unbind key s)" by (simp add: component_unbind_def f)
  ultimately show ?thesis using tc t by (simp add: s'_def)
qed

lemma small_type:
  assumes "0 \<le> t" "t < 65536"
  shows "get_base_type t = t" "get_derived_type t = 0"
  using derived_base_join [of 0 t] assms by (simp_all add: derived_component_type_def)

lemma right_find:
  assumes "component_ok s" "type_of s key = Some t"
  shows "bimap_right_find (component_ids s) t = Some key"
proof -
  have mem: "(key, t) \<in> set (component_ids s)" using assms by (simp add: type_of_iff)
  then obtain e where e: "find (\<lambda>e. snd e = t) (component_ids s) = Some e"
    by (cases "find (\<lambda>e. snd e = t) (component_ids s)") (force simp: find_None_iff)+
  then have "e \<in> set (component_ids s)" "snd e = t" by (auto simp: find_Some_iff)
  then have "e = (key, t)" using mem component_okD(3) [OF assms(1)] by (metis inj_onD snd_conv)
  with e show ?thesis by (simp add: bimap_right_find_def)
qed

text \<open>Names of the types from the table of predefined types, and of the types that are registered.\<close>

definition type_named :: "component_namespace \<Rightarrow> component_type \<Rightarrow> string \<Rightarrow> bool" where
  "type_named s t name \<longleftrightarrow> type_of s name = Some t \<or> 0 < t \<and> t < component_last \<and> Gva_Types.get_component_type_name t = Some name"

lemma type_named_name:
  assumes "component_ok s" "type_named s t name"
  shows "0 < t" "get_component_name (component_ids s) t = Some name" "type_counter s \<le> 32768 \<Longrightarrow> t < 32768"
proof -
  have pos: "0 < component_last" "component_last < 32768" by (simp_all add: component_last_def)
  show "0 < t" "type_counter s \<le> 32768 \<Longrightarrow> t < 32768"
    using assms(2) pos type_of_range [OF assms(1), of name t] by (auto simp: type_named_def component_first_dynamic_def)
  show "get_component_name (component_ids s) t = Some name"
    using assms(2) right_find [OF assms(1)] type_of_range [OF assms(1), of name t]
    by (auto simp: type_named_def get_component_name_def component_first_dynamic_def)
qed

section \<open>Theorems\<close>

text \<open>C32: Looking a component type up. As long as no type above \<open>2 ^ 15\<close> has been assigned, the localities found
  for the type of a name, and for any type that is derived from it as the derived part with any other registered or predefined type as its base, are
  exactly the registered ones, their number is reported, and the name of the type is the name it was bound to
  (for a derived type, both names joined by a slash).\<close>

theorem component_lookup_correct:
  assumes "component_ok s" "type_counter s \<le> 32768" "type_of s key = Some t" "type_named s b basekey"
  shows "snd (resolve_id t s) = localities_of s t \<and>
    snd (resolve_id (derived_component_type t b) s) = localities_of s t \<and>
    snd (component_num_localities t s) = word_of_nat (length (localities_of s t)) \<and>
    snd (component_num_localities (derived_component_type t b) s) = word_of_nat (length (localities_of s t)) \<and>
    snd (component_type_name t s) = Some key \<and>
    snd (component_type_name (derived_component_type t b) s) = Some (key @ ''/'' @ basekey)"
proof -
  have t: "component_last \<le> t" "t < 32768"
    using type_of_range [OF assms(1)] assms(2,3) by (fastforce simp: component_first_dynamic_def)+
  note b = type_named_name [OF assms(1,4)]
  have bl: "b < 32768" by (rule b(3) [OF assms(2)])
  have pos: "0 < component_last" by (simp add: component_last_def)
  let ?d = "derived_component_type t b"
  have d: "get_base_type ?d = b" "get_derived_type ?d = t" using t b(1) bl pos by (simp_all add: derived_base_join)
  have dt: "get_base_type t = t" "get_derived_type t = 0" using t pos by (simp_all add: small_type)
  have "?d \<noteq> get_base_type ?d"
  proof
    assume "?d = get_base_type ?d"
    then have "get_derived_type ?d = 0" using small_type(2) [of b] b(1) bl d by simp
    then show False using d t pos by simp
  qed
  then have k: "factory_key t = t" "factory_key ?d = t" using dt d by (simp_all add: factory_key_def)
  have inv: "get_derived_type component_invalid \<noteq> t" "component_invalid \<noteq> t"
    using t pos by (simp_all add: component_invalid_def get_derived_type_def)
  then have "?d \<noteq> component_invalid" using d by auto
  moreover have "get_component_name (component_ids s) t = Some key"
    using right_find [OF assms(1,3)] t by (simp add: get_component_name_def)
  ultimately show ?thesis
    using inv dt d t pos b(2)
    by (auto simp: resolve_id_def component_num_localities_def component_type_name_def k localities_of_def
        Let_def split: option.splits)
qed

text \<open>
  A type with more than sixteen bits is taken for a derived type, whose localities are not those of the registered type. Nothing prevents that such a type is assigned.
\<close>

lemma large_type_not_found:
  assumes "component_ok s" "type_of s key = Some 0x10005"
  shows "snd (resolve_id 0x10005 s) = []"
proof -
  have k: "factory_key 0x10005 = 1" by code_simp
  have "map_find (<) (factories s) 1 = None"
  proof (rule ccontr)
    assume "map_find (<) (factories s) 1 \<noteq> None"
    then obtain e where e: "map_find (<) (factories s) 1 = Some e" by auto
    note f = total.find_SomeD [OF e]
    have "1 \<in> snd ` set (component_ids s)" using component_okD(5) [OF assms(1) f(1)] f(2) by simp
    then show False using component_okD(4) [OF assms(1)] by (fastforce simp: component_first_dynamic_def component_last_def)
  qed
  then show ?thesis by (simp add: resolve_id_def k)
qed

section \<open>Histories\<close>

datatype component_call = Bind_name string | Bind_prefix string u32 | Unbind_name string

fun called_name :: "component_call \<Rightarrow> string" where
  "called_name (Bind_name k) = k"
| "called_name (Bind_prefix k l) = k"
| "called_name (Unbind_name k) = k"

text \<open>A call, with the type it returns; \<open>unbind\<close> and a call that throws return none.\<close>

fun component_serve :: "component_call \<Rightarrow> component_namespace \<Rightarrow> (component_namespace \<times> component_type option) option" where
  "component_serve (Bind_name k) s =
     map_option (\<lambda>(s, r). (s, case r of Inl e \<Rightarrow> None | Inr t \<Rightarrow> Some t)) (bind_name k s)"
| "component_serve (Bind_prefix k l) s =
     map_option (\<lambda>(s, r). (s, case r of Inl e \<Rightarrow> None | Inr t \<Rightarrow> Some t)) (bind_prefix k l s)"
| "component_serve (Unbind_name k) s = Some (fst (component_unbind k s), None)"

fun component_run :: "component_call list \<Rightarrow> component_namespace \<Rightarrow> (component_type option list \<times> component_namespace) option" where
  "component_run [] s = Some ([], s)"
| "component_run (c # cs) s = (case component_serve c s of
       None \<Rightarrow> None
     | Some (s, r) \<Rightarrow> map_option (\<lambda>(rs, s). (r # rs, s)) (component_run cs s))"

lemma component_call_some:
  assumes ok: "component_ok s" and less: "type_counter s < 2 ^ 31 - 1"
  shows "\<exists>s' r. component_serve c s = Some (s', r) \<and> type_counter s' \<le> type_counter s + 1"
proof (cases c)
  case (Bind_name k)
  then show ?thesis using bind_name_registers [OF ok, of k] less by auto
next
  case (Bind_prefix k l)
  then show ?thesis using bind_prefix_registers [OF ok, of k l] less by auto
next
  case (Unbind_name k)
  then show ?thesis using component_unbind_removes [OF ok, of k] by simp
qed

lemma find_or_register_full:
  assumes "find_or_register k s = Some (s', r)" "component_ok s" "type_of s k = None"
  shows "type_counter s < 2 ^ 31 - 1"
proof -
  have "type_counter s \<notin> snd ` set (component_ids s)" using component_okD(4) [OF assms(2)] by force
  then show ?thesis
    using assms total.insert_fresh [of "component_ids s" k "type_counter s"]
    by (auto simp: find_or_register_def type_of_def bimap_insert_def Let_def case_prod_unfold split: option.splits if_splits)
qed

text \<open>What one call does to the types of names.\<close>

lemma component_call_types:
  assumes ok: "component_ok s" and step: "component_serve c s = Some (s', r)"
  shows "component_ok s'" "type_counter s \<le> type_counter s'"
    "\<And>k. k \<noteq> called_name c \<Longrightarrow> type_of s' k = type_of s k"
    "c = Unbind_name k \<Longrightarrow> type_of s' k = None \<and> r = None"
    "\<And>t. r = Some t \<Longrightarrow> type_of s' (called_name c) = Some t \<and> (t = type_counter s \<or> type_of s (called_name c) = Some t)"
    "\<And>t k. c \<noteq> Unbind_name k \<Longrightarrow> type_of s k = Some t \<Longrightarrow> type_of s' k = Some t"
    "\<And>t. type_of s' (called_name c) = Some t \<Longrightarrow> t = type_counter s \<or> type_of s (called_name c) = Some t"
proof -
  have big: "component_ok s' \<and> type_counter s \<le> type_counter s' \<and> (\<forall>k. k \<noteq> called_name c \<longrightarrow> type_of s' k = type_of s k) \<and>
    (\<forall>k. c = Unbind_name k \<longrightarrow> type_of s' k = None \<and> r = None) \<and>
    (\<forall>t. r = Some t \<longrightarrow> type_of s' (called_name c) = Some t) \<and>
    ((\<forall>k. c \<noteq> Unbind_name k) \<longrightarrow> type_of s' (called_name c) = Some (case type_of s (called_name c) of Some t \<Rightarrow> t | None \<Rightarrow> type_counter s))"
  proof (cases c)
    case (Bind_name k)
    then obtain s1 r1 where b: "bind_name k s = Some (s1, r1)" using step by auto
    have less: "type_of s k = None \<Longrightarrow> type_counter s < 2 ^ 31 - 1"
      using find_or_register_full [of k "count_component component_ns_bind_name s"] b ok by (simp add: bind_name_def)
    from bind_name_registers [where key = k, OF ok less] show ?thesis using step Bind_name by auto
  next
    case (Bind_prefix k l)
    then obtain s1 r1 where b: "find_or_register k (count_component component_ns_bind_prefix s) = Some (s1, r1)"
      using step by (auto simp: bind_prefix_def Let_def split: option.splits sum.splits)
    have less: "type_of s k = None \<Longrightarrow> type_counter s < 2 ^ 31 - 1" using find_or_register_full [OF b] ok by simp
    from bind_prefix_registers [where key = k and l = l, OF ok less] show ?thesis using step Bind_prefix by (auto split: if_splits)
  next
    case (Unbind_name k)
    then show ?thesis using step component_unbind_removes [OF ok, of k] by auto
  qed
  note c2 = big [THEN conjunct2] note c3 = c2 [THEN conjunct2] note c4 = c3 [THEN conjunct2] note c5 = c4 [THEN conjunct2]
  have facts: "component_ok s'" "type_counter s \<le> type_counter s'"
    "\<And>k. k \<noteq> called_name c \<Longrightarrow> type_of s' k = type_of s k"
    "\<And>k. c = Unbind_name k \<Longrightarrow> type_of s' k = None \<and> r = None" "\<And>t. r = Some t \<Longrightarrow> type_of s' (called_name c) = Some t"
    "(\<forall>k. c \<noteq> Unbind_name k) \<Longrightarrow>
       type_of s' (called_name c) = Some (case type_of s (called_name c) of Some t \<Rightarrow> t | None \<Rightarrow> type_counter s)"
    using conjunct1 [OF big] conjunct1 [OF c2] conjunct1 [OF c3] conjunct1 [OF c4] c5 by simp_all
  show "component_ok s'" "type_counter s \<le> type_counter s'" by (fact facts)+
  show "type_of s' k = type_of s k" if "k \<noteq> called_name c" for k using that by (rule facts(3))
  show "type_of s' k = None \<and> r = None" if "c = Unbind_name k" using that by (rule facts(4))
  show t: "t = type_counter s \<or> type_of s (called_name c) = Some t" if "type_of s' (called_name c) = Some t" for t
  proof (cases "\<exists>k. c = Unbind_name k")
    case True
    then show ?thesis using that facts(4) by fastforce
  next
    case False
    then show ?thesis using that facts(6) by (cases "type_of s (called_name c)") auto
  qed
  show "type_of s' (called_name c) = Some t \<and> (t = type_counter s \<or> type_of s (called_name c) = Some t)" if "r = Some t" for t
    using facts(5) [OF that] t by blast
  show "type_of s' k = Some t" if new: "c \<noteq> Unbind_name k" "type_of s k = Some t" for t k
  proof (cases "k = called_name c")
    case True
    then have "\<forall>k. c \<noteq> Unbind_name k" using new(1) by (metis called_name.simps(3))
    then show ?thesis using facts(6) new(2) True by simp
  next
    case False
    then show ?thesis using facts(3) new(2) by metis
  qed
qed

lemma component_run_types:
  "component_ok s \<Longrightarrow> component_run cs s = Some (rs, s') \<Longrightarrow> length rs = length cs"
proof (induction cs arbitrary: s rs)
  case (Cons c cs)
  then obtain s1 r rs1 where c: "component_serve c s = Some (s1, r)" "component_run cs s1 = Some (rs1, s')" "rs = r # rs1"
    by (auto split: option.splits)
  then show ?case using Cons.IH [OF component_call_types(1) [OF Cons.prems(1) c(1)] c(2)] by simp
qed simp

text \<open>A type below the counter that no name has is not given to any.\<close>

lemma dropped_type_unused:
  "component_ok s \<Longrightarrow> component_run cs s = Some (rs, s') \<Longrightarrow> t < type_counter s \<Longrightarrow> \<forall>k. type_of s k \<noteq> Some t \<Longrightarrow>
     j < length cs \<Longrightarrow> rs ! j \<noteq> Some t"
proof (induction cs arbitrary: s rs j)
  case (Cons c cs)
  obtain s1 r rs1 where c: "component_serve c s = Some (s1, r)" "component_run cs s1 = Some (rs1, s')" "rs = r # rs1"
    using Cons.prems(2) by (auto split: option.splits)
  note ct = component_call_types [OF Cons.prems(1) c(1)]
  have "t < type_counter s1" using ct(2) Cons.prems(3) by simp
  moreover have "\<forall>k. type_of s1 k \<noteq> Some t"
    using ct(3,7) Cons.prems(3,4) by (metis less_irrefl)
  ultimately have "j' < length cs \<Longrightarrow> rs1 ! j' \<noteq> Some t" for j' using Cons.IH [OF ct(1) c(2)] by blast
  moreover have "r \<noteq> Some t" using ct(5) Cons.prems(3,4) by (metis less_irrefl)
  ultimately show ?case using c(3) Cons.prems(5) by (cases j) auto
qed simp

text \<open>A name that is bound is told its type until it is unbound, and nobody else is, ever.\<close>

lemma bound_type_kept:
  "component_ok s \<Longrightarrow> component_run cs s = Some (rs, s') \<Longrightarrow> type_of s k = Some t \<Longrightarrow>
     j < length cs \<Longrightarrow> rs ! j = Some t' \<Longrightarrow>
     t = t' \<longleftrightarrow> called_name (cs ! j) = k \<and> (\<forall>m < j. cs ! m \<noteq> Unbind_name k)"
proof (induction cs arbitrary: s rs j)
  case (Cons c cs)
  obtain s1 r rs1 where c: "component_serve c s = Some (s1, r)" "component_run cs s1 = Some (rs1, s')" "rs = r # rs1"
    using Cons.prems(2) by (auto split: option.splits)
  note ct = component_call_types [OF Cons.prems(1) c(1)]
  show ?case
  proof (cases j)
    case 0
    then have r: "r = Some t'" using Cons.prems(5) c(3) by simp
    show ?thesis
    proof (cases "called_name c = k")
      case True
      have "c \<noteq> Unbind_name k" using r ct(4) [of k] by auto
      then have "type_of s1 k = Some t" using ct(6) Cons.prems(3) by blast
      then show ?thesis using ct(5) [OF r] True 0 by simp
    next
      case False
      then have "type_of s1 k = Some t" using ct(3) Cons.prems(3) by metis
      then show ?thesis using type_of_inj [OF ct(1)] ct(5) [OF r] False 0 by auto
    qed
  next
    case (Suc i)
    then have i: "i < length cs" "rs1 ! i = Some t'" using Cons.prems(4,5) c(3) by simp_all
    show ?thesis
    proof (cases "c = Unbind_name k")
      case True
      have "t < type_counter s1" using ct(2) type_of_range [OF Cons.prems(1,3)] by simp
      moreover have "type_of s1 k' \<noteq> Some t" for k'
        using ct(3,4) True type_of_inj [OF Cons.prems(1,3)] by (metis called_name.simps(3) option.distinct(1))
      ultimately have "rs1 ! i \<noteq> Some t" using dropped_type_unused [OF ct(1) c(2)] i by blast
      then show ?thesis using i(2) Suc True by auto
    next
      case False
      have "type_of s1 k = Some t" by (rule ct(6) [OF False Cons.prems(3)])
      from Cons.IH [OF ct(1) c(2) this i] show ?thesis using Suc False by (auto simp: less_Suc_eq_0_disj)
    qed
  qed
qed simp

lemma component_answers:
  "component_ok s \<Longrightarrow> component_run cs s = Some (rs, s') \<Longrightarrow> i < j \<Longrightarrow> j < length cs \<Longrightarrow>
     rs ! i = Some t \<Longrightarrow> rs ! j = Some t' \<Longrightarrow>
     t = t' \<longleftrightarrow> called_name (cs ! i) = called_name (cs ! j) \<and> (\<forall>m. i < m \<and> m < j \<longrightarrow> cs ! m \<noteq> Unbind_name (called_name (cs ! i)))"
proof (induction cs arbitrary: s rs i j)
  case (Cons c cs)
  obtain s1 r rs1 where c: "component_serve c s = Some (s1, r)" "component_run cs s1 = Some (rs1, s')" "rs = r # rs1"
    using Cons.prems(2) by (auto split: option.splits)
  note ct = component_call_types [OF Cons.prems(1) c(1)]
  obtain j' where j: "j = Suc j'" using Cons.prems(3) by (cases j) auto
  have j': "j' < length cs" "rs1 ! j' = Some t'" using Cons.prems(4,6) j c(3) by simp_all
  show ?case
  proof (cases i)
    case 0
    then have "type_of s1 (called_name c) = Some t" using ct(5) Cons.prems(5) c(3) by simp
    from bound_type_kept [OF ct(1) c(2) this j'] show ?thesis
      using 0 j by (auto simp: gr0_conv_Suc)
  next
    case (Suc i')
    have "i' < j'" "rs1 ! i' = Some t" using Cons.prems(3,5) Suc j c(3) by simp_all
    from Cons.IH [OF ct(1) c(2) this(1) j'(1) this(2) j'(2)] show ?thesis
      using Suc j by (auto simp: Suc_less_eq2)
  qed
qed simp

lemma component_run_defined:
  "component_ok s \<Longrightarrow> type_counter s + int (length cs) \<le> 2 ^ 31 - 1 \<Longrightarrow> component_run cs s \<noteq> None"
proof (induction cs arbitrary: s)
  case (Cons c cs)
  obtain s1 r where c: "component_serve c s = Some (s1, r)" "type_counter s1 \<le> type_counter s + 1"
    using component_call_some [OF Cons.prems(1), of c] Cons.prems(2) by auto
  then have "component_run cs s1 \<noteq> None"
    using Cons.prems(2) by (intro Cons.IH component_call_types(1) [OF Cons.prems(1) c(1)]) simp
  then show ?case using c(1) by auto
qed simp

text \<open>C31: Types over the whole life of the service. Every history of at most \<open>2 ^ 31 - 1\<close> less the number of
  predefined types of \<open>bind_name\<close>, \<open>bind_prefix\<close> and \<open>unbind\<close> calls runs without overflow of the type
  counter; and in every history without one, two calls return the same type if and only if they are for
  the same name and that name was not unbound in between. So the type of a name that has been unbound is never assigned again,
  not even to the same name.\<close>

theorem component_types_never_reassigned:
  "(\<forall>cs. component_first_dynamic + int (length cs) \<le> 2 ^ 31 - 1 \<longrightarrow> component_run cs component_init \<noteq> None) \<and>
   (\<forall>cs rs s i j t t'. component_run cs component_init = Some (rs, s) \<and> i < j \<and> j < length cs \<and>
      rs ! i = Some t \<and> rs ! j = Some t' \<longrightarrow>
      (t = t' \<longleftrightarrow> called_name (cs ! i) = called_name (cs ! j) \<and>
         (\<forall>m. i < m \<and> m < j \<longrightarrow> cs ! m \<noteq> Unbind_name (called_name (cs ! i)))))"
proof (intro conjI allI impI)
  fix cs :: "component_call list"
  assume "component_first_dynamic + int (length cs) \<le> 2 ^ 31 - 1"
  then show "component_run cs component_init \<noteq> None"
    using component_run_defined [OF component_ok_init] by (simp add: component_init_def)
next
  fix cs :: "component_call list" and rs s i j t t'
  assume "component_run cs component_init = Some (rs, s) \<and> i < j \<and> j < length cs \<and> rs ! i = Some t \<and> rs ! j = Some t'"
  then show "t = t' \<longleftrightarrow> called_name (cs ! i) = called_name (cs ! j) \<and>
      (\<forall>m. i < m \<and> m < j \<longrightarrow> cs ! m \<noteq> Unbind_name (called_name (cs ! i)))"
    using component_answers [OF component_ok_init] by blast
qed

section \<open>An instance\<close>

definition example_components :: component_namespace where
  "example_components = fst (the (bind_prefix ''worker'' 3 component_init))"

lemma example_components_facts:
  "component_ok example_components" "type_of example_components ''worker'' = Some 14"
  "localities_of example_components 14 = [3]" "type_counter example_components = 15"
proof -
  have e: "example_components = (count_component component_ns_bind_prefix component_init)
      \<lparr>component_ids := [(''worker'', 14)], factories := [(14, [3])], type_counter := 15\<rparr>"
    by (simp add: example_components_def bind_prefix_def find_or_register_def component_init_def
        count_component_def map_find_def map_lower_bound_def bimap_insert_def map_insert_def map_before_def
        register_locality_def map_assign_def component_first_dynamic_def component_last_def)
  show "component_ok example_components" "type_of example_components ''worker'' = Some 14"
    "localities_of example_components 14 = [3]" "type_counter example_components = 15"
    by (simp_all add: e component_ok_def type_of_def localities_of_def map_find_def map_lower_bound_def
        map_sorted_def component_first_dynamic_def component_last_def)
qed

definition example_calls :: "component_call list" where
  "example_calls = [Bind_prefix ''worker'' 3, Bind_name ''worker'', Unbind_name ''worker'', Bind_prefix ''worker'' 4]"

lemma example_calls_run: "\<exists>s. component_run example_calls component_init = Some ([Some 14, Some 14, None, Some 15], s)"
  by (simp add: example_calls_def bind_prefix_def bind_name_def component_unbind_def find_or_register_def component_init_def
      count_component_def map_find_def map_lower_bound_def bimap_insert_def map_insert_def map_before_def map_erase_def
      register_locality_def map_assign_def component_first_dynamic_def component_last_def)

theorem component_types_never_reassigned_witness:
  "\<exists>s. component_run example_calls component_init = Some ([Some 14, Some 14, None, Some 15], s) \<and>
     (14 = (15::component_type) \<longleftrightarrow> (\<forall>m. 0 < m \<and> m < 3 \<longrightarrow> example_calls ! m \<noteq> Unbind_name ''worker''))"
proof -
  obtain s where s: "component_run example_calls component_init = Some ([Some 14, Some 14, None, Some 15], s)"
    using example_calls_run by blast
  have "called_name (example_calls ! 0) = ''worker''" "called_name (example_calls ! 3) = ''worker''" "3 < length example_calls"
    by (simp_all add: example_calls_def)
  then show ?thesis
    using s component_types_never_reassigned [THEN conjunct2, rule_format, OF conjI [OF s], of 0 3 14 15] by fastforce
qed

theorem component_lookup_correct_witness:
  "snd (resolve_id 14 example_components) = [3] \<and> snd (component_type_name 14 example_components) = Some ''worker'' \<and>
   snd (component_type_name (derived_component_type 14 component_memory) example_components) = Some ''worker/component_memory[2]''"
proof -
  have "Gva_Types.get_component_type_name 2 = Some ''component_memory[2]''" by code_simp
  then have "type_named example_components component_memory ''component_memory[2]''"
    by (simp add: type_named_def component_memory_def component_last_def)
  from component_lookup_correct [OF example_components_facts(1) _ example_components_facts(2) this]
  show ?thesis using example_components_facts(3,4) by simp
qed

end
