(* ===== verification/Locality_Namespace.thy ===== *)
theory Locality_Namespace
  imports Symbol_Routing Primary_Ranges
begin

text \<open>
  The locality namespace service of \<^verbatim>\<open>src/runtime/agas/server/locality_namespace_server.cpp\<close>: the
  table of localities (partitions) with their endpoints and thread counts, and the numbering of new
  localities. On the locality that hosts the primary namespace the service also binds and unbinds
  the gids of a locality there.

  Endpoints are a map from the name of a parcelport to an address of a type the service never looks
  into. The search for a free number is a loop over a counter that wraps, so it is a partial
  function; \<open>None\<close> means that it does not end.
\<close>

section \<open>State\<close>

datatype locality_api = locality_ns_allocate | locality_ns_resolve_locality | locality_ns_free
  | locality_ns_localities | locality_ns_num_localities | locality_ns_num_threads

type_synonym 'ep endpoints_type = "(string, 'ep) std_map"

record 'ep locality_namespace =
  partitions :: "(u32, 'ep endpoints_type \<times> u32) std_map"
  prefix_counter :: u32
  primary :: "primary_namespace option"
  locality_counters :: "locality_api counter_data"

definition HPX_AGAS_BOOTSTRAP_PREFIX :: u32 where "HPX_AGAS_BOOTSTRAP_PREFIX = 0"

definition locality_init :: "primary_namespace option \<Rightarrow> 'ep locality_namespace" where
  "locality_init prim = \<lparr>partitions = [], prefix_counter = HPX_AGAS_BOOTSTRAP_PREFIX, primary = prim,
     locality_counters = no_counts\<rparr>"

definition count_locality :: "locality_api \<Rightarrow> 'ep locality_namespace \<Rightarrow> 'ep locality_namespace" where
  "count_locality api s = s\<lparr>locality_counters := increment_count api (locality_counters s)\<rparr>"

section \<open>Operations\<close>

text \<open>\<open>do { prefix = prefix_counter_++; it = partitions_.find(prefix); } while (it != end)\<close>: the prefix
  and the counter.\<close>

partial_function (option) next_prefix ::
  "(u32, 'v) std_map \<Rightarrow> u32 \<Rightarrow> (u32 \<times> u32) option" where
  "next_prefix table counter =
     (case map_find (<) table counter of
        None \<Rightarrow> Some (counter, counter + 1)
      | Some _ \<Rightarrow> next_prefix table (counter + 1))"

definition choose_prefix ::
  "gid_type \<Rightarrow> 'ep locality_namespace \<Rightarrow> (u32 \<times> u32) option" where
  "choose_prefix suggested_prefix s =
     (let suggested_locality_id = get_locality_id_from_gid suggested_prefix in
      if suggested_locality_id \<noteq> invalid_locality_id
      then (case map_find (<) (partitions s) suggested_locality_id of
              None \<Rightarrow> Some (suggested_locality_id, prefix_counter s)
            | Some _ \<Rightarrow> next_prefix (partitions s) (prefix_counter s))
      else next_prefix (partitions s) (prefix_counter s))"

definition bind_locality ::
  "u32 \<Rightarrow> u64 \<Rightarrow> 'ep locality_namespace \<Rightarrow> 'ep locality_namespace \<times> u32 result" where
  "bind_locality new_prefix cnt s =
     (case primary s of
        None \<Rightarrow> (s, Inr new_prefix)
      | Some prim \<Rightarrow>
          let idn = get_gid_from_locality_id new_prefix;
              g = mk_gva idn component_runtime_support cnt 0 0
          in (case bind_gid g idn idn prim of
                (prim, Inl e) \<Rightarrow> (s\<lparr>primary := Some prim\<rparr>, Inl e)
              | (prim, Inr bound) \<Rightarrow>
                  (s\<lparr>primary := Some prim\<rparr>, if bound then Inr new_prefix else Inl bad_request)))"

text \<open>The assertion on the endpoints is compiled in debug builds only.\<close>

definition locality_allocate ::
  "bool \<Rightarrow> 'ep endpoints_type \<Rightarrow> u64 \<Rightarrow> u32 \<Rightarrow> gid_type \<Rightarrow> 'ep locality_namespace \<Rightarrow>
   ('ep locality_namespace \<times> u32 result) option" where
  "locality_allocate debug endpoints cnt num_threads suggested_prefix s =
     (let s = count_locality locality_ns_allocate s in
      if debug \<and> (\<exists>e \<in> set (partitions s). fst (snd e) = endpoints)
      then Some (s, Inl assertion_failure)
      else if 0xFFFFFFFE < length (partitions s) then Some (s, Inl internal_server_error)
      else
        map_option (\<lambda>(new_prefix, counter).
          let s = s\<lparr>prefix_counter := counter\<rparr>;
              (table, inserted) = map_insert (<) (partitions s) new_prefix (endpoints, num_threads)
          in if \<not> inserted then (s, Inl lock_error)
             else bind_locality new_prefix cnt (s\<lparr>partitions := table\<rparr>))
          (choose_prefix suggested_prefix s))"

definition resolve_locality ::
  "gid_type \<Rightarrow> 'ep locality_namespace \<Rightarrow> 'ep locality_namespace \<times> 'ep endpoints_type" where
  "resolve_locality loc s =
     (let s = count_locality locality_ns_resolve_locality s in
      case map_find (<) (partitions s) (get_locality_id_from_gid loc) of
        Some (_, endpoints, _) \<Rightarrow> (s, endpoints)
      | None \<Rightarrow> (s, []))"

text \<open>The calls to the primary namespace stop at the first exception.\<close>

definition free_in_primary :: "u32 \<Rightarrow> gid_type \<Rightarrow> primary_namespace \<Rightarrow> primary_namespace \<times> unit result" where
  "free_in_primary id_prefix loc prim =
     (case unbind_gid 1 (replace_locality_id (mk_gid HPX_AGAS_PRIMARY_NS_MSB HPX_AGAS_PRIMARY_NS_LSB) id_prefix) prim of
        (prim, Inl e) \<Rightarrow> (prim, Inl e)
      | (prim, Inr _) \<Rightarrow>
          (case unbind_gid 1 (replace_locality_id (mk_gid HPX_AGAS_SYMBOL_NS_MSB HPX_AGAS_SYMBOL_NS_LSB) id_prefix) prim of
             (prim, Inl e) \<Rightarrow> (prim, Inl e)
           | (prim, Inr _) \<Rightarrow>
               (case unbind_gid 0 loc prim of
                  (prim, Inl e) \<Rightarrow> (prim, Inl e)
                | (prim, Inr _) \<Rightarrow> (prim, Inr ()))))"

definition locality_free :: "gid_type \<Rightarrow> 'ep locality_namespace \<Rightarrow> 'ep locality_namespace \<times> unit result" where
  "locality_free loc s =
     (let s = count_locality locality_ns_free s;
          id_prefix = get_locality_id_from_gid loc
      in case map_find (<) (partitions s) id_prefix of
           None \<Rightarrow> (s, Inr ())
         | Some _ \<Rightarrow>
             let s = s\<lparr>partitions := map_erase (<) (partitions s) id_prefix\<rparr> in
             (case primary s of
                None \<Rightarrow> (s, Inr ())
              | Some prim \<Rightarrow>
                  (case free_in_primary id_prefix loc prim of
                     (prim, r) \<Rightarrow> (s\<lparr>primary := Some prim\<rparr>, r))))"

definition localities :: "'ep locality_namespace \<Rightarrow> 'ep locality_namespace \<times> u32 list" where
  "localities s = (let s = count_locality locality_ns_localities s in (s, map fst (partitions s)))"

definition locality_num_localities :: "'ep locality_namespace \<Rightarrow> 'ep locality_namespace \<times> u32" where
  "locality_num_localities s =
     (let s = count_locality locality_ns_num_localities s in (s, word_of_nat (length (partitions s))))"

definition get_num_threads :: "'ep locality_namespace \<Rightarrow> u32 list" where
  "get_num_threads s = map (\<lambda>e. snd (snd e)) (partitions s)"

definition get_num_overall_threads :: "'ep locality_namespace \<Rightarrow> u32" where
  "get_num_overall_threads s = fold (\<lambda>e num_threads. num_threads + snd (snd e)) (partitions s) 0"

section \<open>Free numbers\<close>

lemma count_locality_simps [simp]: "partitions (count_locality api s) = partitions s"
  "prefix_counter (count_locality api s) = prefix_counter s" "primary (count_locality api s) = primary s"
  by (simp_all add: count_locality_def)

lemma next_prefix_found:
  "map_find (<) table (c + word_of_nat k) = None \<Longrightarrow> (\<And>j. j < k \<Longrightarrow> map_find (<) table (c + word_of_nat j) \<noteq> None) \<Longrightarrow>
   next_prefix table c = Some (c + word_of_nat k, c + word_of_nat k + 1)"
proof (induction k arbitrary: c)
  case 0
  then show ?case by (simp add: next_prefix.simps)
next
  case (Suc k)
  have "map_find (<) table c \<noteq> None" using Suc.prems(2) [of 0] by simp
  moreover have "next_prefix table (c + 1) = Some (c + 1 + word_of_nat k, c + 1 + word_of_nat k + 1)"
  proof (rule Suc.IH)
    show "map_find (<) table (c + 1 + word_of_nat k) = None" using Suc.prems(1) by (simp add: algebra_simps)
    show "map_find (<) table (c + 1 + word_of_nat j) \<noteq> None" if "j < k" for j
      using Suc.prems(2) [of "Suc j"] that by (simp add: algebra_simps)
  qed
  ultimately show ?case by (auto simp: next_prefix.simps [of table c] algebra_simps)
qed

text \<open>The search ends whenever the table is not full: the counter visits every number.\<close>

lemma next_prefix_terminates:
  fixes table :: "(u32, 'v) std_map"
  assumes "map_sorted (<) table" "length table < 2 ^ 32"
  obtains p where "next_prefix table c = Some (p, p + 1)" "map_find (<) table p = None"
proof -
  have "card (set (map fst table)) \<le> length table" by (metis card_length length_map)
  then have "card (set (map fst table)) < card (UNIV :: u32 set)" using assms(2) by (simp add: card_word)
  then obtain q where "q \<notin> set (map fst table)" by (metis UNIV_eq_I less_irrefl)
  then have q: "map_find (<) table q = None" by (force simp: total.find_None_iff [OF assms(1)])
  let ?P = "\<lambda>k. map_find (<) table (c + word_of_nat k) = None"
  have "c + word_of_nat (unat (q - c)) = q" by simp
  with q have "?P (unat (q - c))" by simp
  then have "?P (LEAST k. ?P k)" by (rule LeastI)
  moreover have "map_find (<) table (c + word_of_nat j) \<noteq> None" if "j < (LEAST k. ?P k)" for j
    using not_less_Least [OF that] .
  ultimately show ?thesis
    using that next_prefix_found by blast
qed

lemma choose_prefix_fresh:
  assumes "map_sorted (<) (partitions s)" "length (partitions s) < 2 ^ 32"
  obtains p c where "choose_prefix g s = Some (p, c)" "map_find (<) (partitions s) p = None"
    "get_locality_id_from_gid g \<noteq> invalid_locality_id \<Longrightarrow>
     map_find (<) (partitions s) (get_locality_id_from_gid g) = None \<Longrightarrow> p = get_locality_id_from_gid g"
proof (cases "get_locality_id_from_gid g \<noteq> invalid_locality_id \<and>
    map_find (<) (partitions s) (get_locality_id_from_gid g) = None")
  case True
  then show ?thesis
    using that [of "get_locality_id_from_gid g" "prefix_counter s"] by (simp add: choose_prefix_def)
next
  case False
  obtain p where "next_prefix (partitions s) (prefix_counter s) = Some (p, p + 1)"
    "map_find (<) (partitions s) p = None"
    using next_prefix_terminates [OF assms] .
  with False show ?thesis
    using that [of p "p + 1"] by (auto simp: choose_prefix_def Let_def split: option.split)
qed

lemma bind_locality_partitions [simp]: "partitions (fst (bind_locality p cnt s)) = partitions s"
  by (auto simp: bind_locality_def Let_def split: option.split prod.split sum.split)

lemma bind_locality_result:
  "snd (bind_locality p cnt s) = (case primary s of None \<Rightarrow> Inr p | Some prim \<Rightarrow>
     (case snd (bind_gid (mk_gva (get_gid_from_locality_id p) component_runtime_support cnt 0 0)
        (get_gid_from_locality_id p) (get_gid_from_locality_id p) prim) of
        Inl e \<Rightarrow> Inl e | Inr b \<Rightarrow> if b then Inr p else Inl bad_request))"
  by (auto simp: bind_locality_def Let_def split: option.split prod.split sum.split)

text \<open>The endpoints of a locality, as \<open>resolve_locality\<close> reports them.\<close>

definition endpoints_of :: "'ep locality_namespace \<Rightarrow> u32 \<Rightarrow> ('ep endpoints_type \<times> u32) option" where
  "endpoints_of s p = map_option snd (map_find (<) (partitions s) p)"

lemma endpoints_count [simp]: "endpoints_of (count_locality api s) = endpoints_of s"
  by (simp add: endpoints_of_def [abs_def])

lemma resolve_locality_endpoints:
  "snd (resolve_locality (get_gid_from_locality_id p) s) =
    (case endpoints_of s p of None \<Rightarrow> [] | Some (eps, _) \<Rightarrow> eps)"
  by (auto simp: resolve_locality_def Let_def locality_roundtrip endpoints_of_def split: option.split)

text \<open>C33: Numbering localities. As long as fewer than \<open>0xFFFFFFFF\<close> localities are registered, the search
  for a number ends with one that no registered locality has (the suggested one if it is free), the
  locality is recorded with its endpoints and thread count, no other locality changes, and the
  number is returned unless the primary namespace cannot bind the new gid.\<close>

theorem locality_allocate_fresh:
  assumes "map_sorted (<) (partitions s)" "length (partitions s) \<le> 0xFFFFFFFE"
    "debug \<longrightarrow> (\<forall>e \<in> set (partitions s). fst (snd e) \<noteq> endpoints)"
  shows "\<exists>s' r p. locality_allocate debug endpoints cnt num_threads suggested s = Some (s', r) \<and>
    endpoints_of s p = None \<and> endpoints_of s' = (endpoints_of s)(p \<mapsto> (endpoints, num_threads)) \<and>
    map_sorted (<) (partitions s') \<and> length (partitions s') = Suc (length (partitions s)) \<and>
    (get_locality_id_from_gid suggested \<noteq> invalid_locality_id \<and>
       endpoints_of s (get_locality_id_from_gid suggested) = None \<longrightarrow> p = get_locality_id_from_gid suggested) \<and>
    r = (case primary s of None \<Rightarrow> Inr p | Some prim \<Rightarrow>
       (case snd (bind_gid (mk_gva (get_gid_from_locality_id p) component_runtime_support cnt 0 0)
          (get_gid_from_locality_id p) (get_gid_from_locality_id p) prim) of
          Inl e \<Rightarrow> Inl e | Inr b \<Rightarrow> if b then Inr p else Inl bad_request)) \<and>
    snd (resolve_locality (get_gid_from_locality_id p) s') = endpoints"
proof -
  let ?s = "count_locality locality_ns_allocate s"
  obtain p c where c: "choose_prefix suggested ?s = Some (p, c)" "map_find (<) (partitions ?s) p = None"
    "get_locality_id_from_gid suggested \<noteq> invalid_locality_id \<Longrightarrow>
     map_find (<) (partitions ?s) (get_locality_id_from_gid suggested) = None \<Longrightarrow> p = get_locality_id_from_gid suggested"
    by (rule choose_prefix_fresh [of ?s suggested]) (use assms(1,2) that in simp_all)
  have free: "map_find (<) (partitions s) p = None" using c(2) by simp
  define m where "m = fst (map_insert (<) (partitions s) p (endpoints, num_threads))"
  have i: "map_insert (<) (partitions s) p (endpoints, num_threads) = (m, True)"
    using total.insert_fresh [OF free] by (simp add: m_def prod_eq_iff)
  define t where "t = ?s\<lparr>prefix_counter := c, partitions := m\<rparr>"
  define s' where "s' = fst (bind_locality p cnt t)"
  have run: "locality_allocate debug endpoints cnt num_threads suggested s = Some (s', snd (bind_locality p cnt t))"
    using assms(2,3) i c(1) by (auto simp: locality_allocate_def Let_def t_def s'_def)
  have ps: "partitions s' = m" by (simp add: s'_def t_def)
  have eps: "endpoints_of s' = (endpoints_of s)(p \<mapsto> (endpoints, num_threads))"
    by (rule ext) (simp add: endpoints_of_def ps m_def total.find_insert [OF assms(1) free])
  have "map_sorted (<) (partitions s')" by (simp add: ps m_def total.sorted_insert [OF assms(1)])
  moreover have "length m = Suc (length (partitions s))"
    using arg_cong [OF map_split [of "(<)" "partitions s" p], of length] free
    by (simp add: m_def map_insert_def)
  moreover have "primary t = primary s" by (simp add: t_def)
  moreover have "snd (resolve_locality (get_gid_from_locality_id p) s') = endpoints"
    by (simp add: resolve_locality_endpoints eps)
  ultimately show ?thesis
    using run eps free c(3) ps
    by (intro exI [of _ s'] exI [of _ "snd (bind_locality p cnt t)"] exI [of _ p])
      (simp add: bind_locality_result endpoints_of_def [of s])
qed

section \<open>Removing a locality\<close>

definition bound_with :: "gva_table \<Rightarrow> gid_type \<Rightarrow> u64 \<Rightarrow> bool" where
  "bound_with table gid cnt \<longleftrightarrow>
     (case map_find gid_less table gid of None \<Rightarrow> True | Some (_, g, _) \<Rightarrow> count g = cnt)"

lemma find_stripped:
  "map_sorted gid_less t \<Longrightarrow> map_find gid_less t (stripped g) = map_find gid_less t g"
  by (rule gid_order.find_equiv) (simp_all add: gid_eq_equiv)

lemma unbind_ok:
  assumes "map_sorted gid_less (gvas s)" "bound_with (gvas s) gid cnt"
  obtains s' a where "unbind_gid cnt gid s = (s', Inr a)" "map_sorted gid_less (gvas s')"
    "\<And>h. map_find gid_less (gvas s') h = (if gid_eq gid h then None else map_find gid_less (gvas s) h)"
proof -
  have e: "map_find gid_less (map_erase gid_less (gvas s) (stripped gid)) h =
      (if gid_eq gid h then None else map_find gid_less (gvas s) h)" for h
    using gid_order.find_erase [OF assms(1), of "stripped gid" h] by (simp add: gid_eq_equiv)
  show ?thesis
  proof (cases "map_find gid_less (gvas s) gid")
    case None
    then have "map_find gid_less (gvas s) h = None" if "gid_eq gid h" for h
      using that gid_order.find_equiv [OF assms(1), of gid h] by (simp add: gid_eq_equiv)
    then show ?thesis
      using that [of "count_primary api_unbind_gid s" address_default] None assms(1)
      by (simp add: unbind_gid_def find_stripped)
  next
    case (Some x)
    obtain k g l where x: "x = (k, g, l)" by (cases x)
    then have "count g = cnt" using assms(2) Some by (simp add: bound_with_def)
    then show ?thesis
      using that [of "(count_primary api_unbind_gid s)\<lparr>gvas := map_erase gid_less (gvas s) (stripped gid)\<rparr>"]
        Some x assms(1) e gid_order.sorted_erase [OF assms(1)]
      by (simp add: unbind_gid_def find_stripped)
  qed
qed

lemma bound_with_erased:
  "(\<And>h. map_find gid_less t' h = (if gid_eq gid h then None else map_find gid_less t h)) \<Longrightarrow>
   bound_with t h c \<Longrightarrow> bound_with t' h c"
  by (simp add: bound_with_def)

abbreviation primary_instance :: "u32 \<Rightarrow> gid_type" where
  "primary_instance p \<equiv> replace_locality_id (mk_gid HPX_AGAS_PRIMARY_NS_MSB HPX_AGAS_PRIMARY_NS_LSB) p"

abbreviation symbol_instance :: "u32 \<Rightarrow> gid_type" where
  "symbol_instance p \<equiv> replace_locality_id (mk_gid HPX_AGAS_SYMBOL_NS_MSB HPX_AGAS_SYMBOL_NS_LSB) p"

lemma free_in_primary_ok:
  assumes "map_sorted gid_less (gvas prim)" "bound_with (gvas prim) (primary_instance p) 1"
    "bound_with (gvas prim) (symbol_instance p) 1" "bound_with (gvas prim) loc 0"
  obtains prim' where "free_in_primary p loc prim = (prim', Inr ())"
    "\<And>h. map_find gid_less (gvas prim') h =
       (if gid_eq (primary_instance p) h \<or> gid_eq (symbol_instance p) h \<or> gid_eq loc h then None
        else map_find gid_less (gvas prim) h)"
proof -
  obtain s1 a1 where 1: "unbind_gid 1 (primary_instance p) prim = (s1, Inr a1)" "map_sorted gid_less (gvas s1)"
    "\<And>h. map_find gid_less (gvas s1) h = (if gid_eq (primary_instance p) h then None else map_find gid_less (gvas prim) h)"
    using unbind_ok [OF assms(1,2)] by metis
  obtain s2 a2 where 2: "unbind_gid 1 (symbol_instance p) s1 = (s2, Inr a2)" "map_sorted gid_less (gvas s2)"
    "\<And>h. map_find gid_less (gvas s2) h = (if gid_eq (symbol_instance p) h then None else map_find gid_less (gvas s1) h)"
    using unbind_ok [OF 1(2) bound_with_erased [OF 1(3) assms(3)]] by metis
  have "bound_with (gvas s2) loc 0"
    by (rule bound_with_erased [OF 2(3)]) (rule bound_with_erased [OF 1(3) assms(4)])
  then obtain s3 a3 where 3: "unbind_gid 0 loc s2 = (s3, Inr a3)"
    "\<And>h. map_find gid_less (gvas s3) h = (if gid_eq loc h then None else map_find gid_less (gvas s2) h)"
    using unbind_ok [OF 2(2)] by metis
  have "free_in_primary p loc prim = (s3, Inr ())" by (simp add: free_in_primary_def 1(1) 2(1) 3(1))
  moreover have "map_find gid_less (gvas s3) h =
       (if gid_eq (primary_instance p) h \<or> gid_eq (symbol_instance p) h \<or> gid_eq loc h then None
        else map_find gid_less (gvas prim) h)" for h
    by (simp add: 1(3) 2(3) 3(2))
  ultimately show ?thesis using that by blast
qed

text \<open>Removing a locality. Its number is free again and every other locality keeps its entry. Where
  the primary namespace is hosted and binds the service instances with count 1 and the locality
  with count 0, as the bootstrap code does, the call succeeds and exactly those three gids are no
  longer bound.\<close>

lemma locality_free_removes:
  assumes "map_sorted (<) (partitions s)" "get_locality_id_from_gid loc = p" "endpoints_of s p \<noteq> None"
    "primary s = Some prim" "map_sorted gid_less (gvas prim)"
    "bound_with (gvas prim) (primary_instance p) 1" "bound_with (gvas prim) (symbol_instance p) 1"
    "bound_with (gvas prim) loc 0"
  shows "\<exists>s' prim'. locality_free loc s = (s', Inr ()) \<and> primary s' = Some prim' \<and>
    map_sorted (<) (partitions s') \<and> endpoints_of s' = (endpoints_of s)(p := None) \<and>
    (\<forall>h. map_find gid_less (gvas prim') h =
       (if gid_eq (primary_instance p) h \<or> gid_eq (symbol_instance p) h \<or> gid_eq loc h then None
        else map_find gid_less (gvas prim) h))"
proof -
  obtain prim' where f: "free_in_primary p loc prim = (prim', Inr ())"
    "\<And>h. map_find gid_less (gvas prim') h =
       (if gid_eq (primary_instance p) h \<or> gid_eq (symbol_instance p) h \<or> gid_eq loc h then None
        else map_find gid_less (gvas prim) h)"
    using free_in_primary_ok [OF assms(5-8)] by metis
  define s' where "s' = (count_locality locality_ns_free s)
    \<lparr>partitions := map_erase (<) (partitions s) p, primary := Some prim'\<rparr>"
  obtain e where "map_find (<) (partitions s) p = Some e" using assms(3) by (auto simp: endpoints_of_def)
  then have "locality_free loc s = (s', Inr ())"
    by (simp add: locality_free_def Let_def assms(2,4) f(1) s'_def)
  moreover have "endpoints_of s' = (endpoints_of s)(p := None)"
    by (rule ext) (simp add: endpoints_of_def s'_def total.find_erase [OF assms(1)])
  moreover have "map_sorted (<) (partitions s')" by (simp add: s'_def total.sorted_erase [OF assms(1)])
  ultimately show ?thesis using f(2) by (intro exI [of _ s'] exI [of _ prim']) (simp add: s'_def)
qed

lemma fold_threads: "fold (\<lambda>e n. n + snd (snd e)) es (a :: u32) = a + sum_list (map (\<lambda>e. snd (snd e)) es)"
  by (induction es arbitrary: a) (auto simp: algebra_simps)

text \<open>The reports of the locality namespace agree: the localities are listed in increasing order
  without repetition, exactly those with an entry; their number and their thread counts are listed
  in the same order, and the overall thread count is the sum of the listed ones modulo 2 to the 32.\<close>

lemma locality_reports_agree:
  assumes "map_sorted (<) (partitions s)"
  shows "sorted_wrt (<) (snd (localities s)) \<and>
    (\<forall>p. p \<in> set (snd (localities s)) \<longleftrightarrow> endpoints_of s p \<noteq> None) \<and>
    snd (locality_num_localities s) = word_of_nat (length (snd (localities s))) \<and>
    (\<forall>i < length (snd (localities s)).
       map_option snd (endpoints_of s (snd (localities s) ! i)) = Some (get_num_threads s ! i)) \<and>
    get_num_overall_threads s = sum_list (get_num_threads s)"
proof -
  have "p \<in> fst ` set (partitions s) \<longleftrightarrow> endpoints_of s p \<noteq> None" for p
    using total.find_None_iff [OF assms, of p] by (force simp: endpoints_of_def)
  moreover have "map_option snd (endpoints_of s (fst (partitions s ! i))) = Some (snd (snd (partitions s ! i)))"
    if "i < length (partitions s)" for i
  proof -
    have "map_find (<) (partitions s) (fst (partitions s ! i)) = Some (partitions s ! i)"
      using that by (simp add: total.find_iff [OF assms])
    then show ?thesis by (simp add: endpoints_of_def)
  qed
  ultimately show ?thesis
    using assms
    by (simp add: localities_def locality_num_localities_def get_num_threads_def get_num_overall_threads_def
        fold_threads map_sorted_def sorted_wrt_map)
qed

section \<open>An instance\<close>

definition example_localities :: "string locality_namespace" where
  "example_localities = (locality_init (Some primary_init))
     \<lparr>partitions := [(0, [(''tcp'', ''10.0.0.1'')], 4), (1, [(''tcp'', ''10.0.0.2'')], 8)]\<rparr>"

lemma example_localities_facts: "map_sorted (<) (partitions example_localities)"
  "length (partitions example_localities) = 2" "endpoints_of example_localities 1 \<noteq> None"
  "primary example_localities = Some primary_init" "gvas primary_init = []"
  by (simp_all add: example_localities_def locality_init_def map_sorted_def endpoints_of_def map_find_def
      map_lower_bound_def primary_init_def)

theorem locality_allocate_fresh_witness:
  "\<exists>s' r p. locality_allocate True [(''tcp'', ''10.0.0.3'')] 0 16 invalid_gid example_localities = Some (s', r) \<and>
     endpoints_of example_localities p = None \<and>
     snd (resolve_locality (get_gid_from_locality_id p) s') = [(''tcp'', ''10.0.0.3'')]"
proof -
  have "True \<longrightarrow> (\<forall>e \<in> set (partitions example_localities). fst (snd e) \<noteq> [(''tcp'', ''10.0.0.3'')])"
    by (simp add: example_localities_def)
  from locality_allocate_fresh [OF example_localities_facts(1) _ this, of 0 16 invalid_gid]
  show ?thesis using example_localities_facts(2) by auto
qed

end
