(* ===== verification/Lru_Cache.thy ===== *)
theory Lru_Cache
  imports Std_Map Counter_Data
begin

text \<open>
  The cache \<^verbatim>\<open>hpx/util/cache/lru_cache.hpp\<close> the addressing service keeps resolved addresses in,
  with the statistics of \<^verbatim>\<open>hpx/util/cache/statistics/local_full_statistics.hpp\<close>.

  The entries are in a doubly linked list, most recently used first, and a map from keys to
  iterators into the list. An iterator is the address of a list node, which a node keeps while it
  is moved within the list; \<open>storage\<close> lists the nodes with their addresses. Following an iterator to
  a node that no longer exists, or removing the last node of an empty list, is undefined behaviour:
  an operation that does so is \<open>None\<close>.

  The lemmas of the locale \<open>strict_order\<close> relate the list and the map for any comparison of keys
  (an invariant every operation keeps); the cache is then shown to behave as the abstract cache of
  the last section, a list of entries in the order of their last use.
\<close>

section \<open>Statistics\<close>

datatype (plugins only: code) cache_method =
  method_get_entry | method_insert_entry | method_update_entry | method_erase_entry

record cache_statistics =
  hits :: u64
  misses :: u64
  insertions :: u64
  evictions :: u64
  calls :: "cache_method counter_data"

definition no_cache_statistics :: cache_statistics where
  "no_cache_statistics = \<lparr>hits = 0, misses = 0, insertions = 0, evictions = 0, calls = no_counts\<rparr>"

definition got_hit :: "cache_statistics \<Rightarrow> cache_statistics" where
  "got_hit st = st\<lparr>hits := hits st + 1\<rparr>"

definition got_miss :: "cache_statistics \<Rightarrow> cache_statistics" where
  "got_miss st = st\<lparr>misses := misses st + 1\<rparr>"

definition got_insertion :: "cache_statistics \<Rightarrow> cache_statistics" where
  "got_insertion st = st\<lparr>insertions := insertions st + 1\<rparr>"

definition got_eviction :: "cache_statistics \<Rightarrow> cache_statistics" where
  "got_eviction st = st\<lparr>evictions := evictions st + 1\<rparr>"

definition update_on_exit :: "cache_method \<Rightarrow> cache_statistics \<Rightarrow> cache_statistics" where
  "update_on_exit m st = st\<lparr>calls := increment_count m (calls st)\<rparr>"

definition cache_get_and_reset :: "u64 \<Rightarrow> bool \<Rightarrow> u64 \<times> u64" where
  "cache_get_and_reset value reset = (value, if reset then 0 else value)"

definition get_hits :: "bool \<Rightarrow> cache_statistics \<Rightarrow> u64 \<times> cache_statistics" where
  "get_hits reset st = (let (r, v) = cache_get_and_reset (hits st) reset in (r, st\<lparr>hits := v\<rparr>))"

definition get_misses :: "bool \<Rightarrow> cache_statistics \<Rightarrow> u64 \<times> cache_statistics" where
  "get_misses reset st = (let (r, v) = cache_get_and_reset (misses st) reset in (r, st\<lparr>misses := v\<rparr>))"

definition get_insertions :: "bool \<Rightarrow> cache_statistics \<Rightarrow> u64 \<times> cache_statistics" where
  "get_insertions reset st = (let (r, v) = cache_get_and_reset (insertions st) reset in (r, st\<lparr>insertions := v\<rparr>))"

definition get_evictions :: "bool \<Rightarrow> cache_statistics \<Rightarrow> u64 \<times> cache_statistics" where
  "get_evictions reset st = (let (r, v) = cache_get_and_reset (evictions st) reset in (r, st\<lparr>evictions := v\<rparr>))"

definition get_entry_count :: "cache_method \<Rightarrow> bool \<Rightarrow> cache_statistics \<Rightarrow> i64 \<times> cache_statistics" where
  "get_entry_count m reset st = (let (r, cd) = get_count m reset (calls st) in (r, st\<lparr>calls := cd\<rparr>))"

section \<open>The cache\<close>

type_synonym node = nat

record ('k, 'e) lru_cache =
  max_size :: u64
  current_size :: u64
  storage :: "(node \<times> 'k \<times> 'e) list"
  lru_map :: "('k, node) std_map"
  statistics :: cache_statistics

definition lru_new :: "u64 \<Rightarrow> ('k, 'e) lru_cache" where
  "lru_new n = \<lparr>max_size = n, current_size = 0, storage = [], lru_map = [], statistics = no_cache_statistics\<rparr>"

definition lru_move :: "('k, 'e) lru_cache \<Rightarrow> ('k, 'e) lru_cache" where
  "lru_move other = \<lparr>max_size = max_size other, current_size = 0, storage = storage other,
     lru_map = lru_map other, statistics = statistics other\<rparr>"

definition lru_size :: "('k, 'e) lru_cache \<Rightarrow> u64" where
  "lru_size c = current_size c"

definition lru_capacity :: "('k, 'e) lru_cache \<Rightarrow> u64" where
  "lru_capacity c = max_size c"

definition lru_touch :: "node \<Rightarrow> ('k, 'e) lru_cache \<Rightarrow> ('k, 'e) lru_cache option" where
  "lru_touch it c =
     (case map_of (storage c) it of
        None \<Rightarrow> None
      | Some p \<Rightarrow> Some (c\<lparr>storage := (it, p) # filter (\<lambda>n. fst n \<noteq> it) (storage c)\<rparr>))"

definition lru_evict :: "('k \<Rightarrow> 'k \<Rightarrow> bool) \<Rightarrow> ('k, 'e) lru_cache \<Rightarrow> ('k, 'e) lru_cache option" where
  "lru_evict lt c =
     (if storage c = [] then None
      else Some (c\<lparr>statistics := got_eviction (statistics c),
        lru_map := map_erase lt (lru_map c) (fst (snd (last (storage c)))),
        storage := butlast (storage c), current_size := current_size c - 1\<rparr>))"

lemma lru_evict_size: "lru_evict lt c = Some c' \<Longrightarrow> current_size c' = current_size c - 1 \<and> max_size c' = max_size c"
  by (auto simp: lru_evict_def split: if_splits)

function lru_evict_while :: "('k \<Rightarrow> 'k \<Rightarrow> bool) \<Rightarrow> ('k, 'e) lru_cache \<Rightarrow> ('k, 'e) lru_cache option" where
  "lru_evict_while lt c =
     (if current_size c > max_size c
      then (case lru_evict lt c of None \<Rightarrow> None | Some c' \<Rightarrow> lru_evict_while lt c')
      else Some c)"
  by pat_completeness auto
termination
proof (relation "measure (\<lambda>(lt, c). unat (current_size c))")
  fix lt :: "'k \<Rightarrow> 'k \<Rightarrow> bool" and c c' :: "('k, 'e) lru_cache"
  assume "current_size c > max_size c" "lru_evict lt c = Some c'"
  then have "current_size c \<noteq> 0" "current_size c' = current_size c - 1"
    using lru_evict_size by auto
  then show "((lt, c'), (lt, c)) \<in> measure (\<lambda>(lt, c). unat (current_size c))"
    using unat_gt_0 [of "current_size c"] by (simp add: unat_minus_one)
qed simp

declare lru_evict_while.simps [simp del]

definition lru_reserve :: "('k \<Rightarrow> 'k \<Rightarrow> bool) \<Rightarrow> u64 \<Rightarrow> ('k, 'e) lru_cache \<Rightarrow> ('k, 'e) lru_cache option" where
  "lru_reserve lt n c =
     (if n > max_size c then Some (c\<lparr>max_size := n\<rparr>)
      else lru_evict_while lt (c\<lparr>max_size := n\<rparr>))"

definition lru_holds_key :: "('k \<Rightarrow> 'k \<Rightarrow> bool) \<Rightarrow> 'k \<Rightarrow> ('k, 'e) lru_cache \<Rightarrow> bool" where
  "lru_holds_key lt k c \<longleftrightarrow> map_find lt (lru_map c) k \<noteq> None"

text \<open>The value of \<open>get_entry\<close> is the pair \<open>realkey\<close>, \<open>entry\<close> it stores through its reference
  arguments when it returns true.\<close>

definition lru_get_entry ::
  "('k \<Rightarrow> 'k \<Rightarrow> bool) \<Rightarrow> 'k \<Rightarrow> ('k, 'e) lru_cache \<Rightarrow> (('k, 'e) lru_cache \<times> ('k \<times> 'e) option) option" where
  "lru_get_entry lt k c =
     (case map_find lt (lru_map c) k of
        None \<Rightarrow> Some (c\<lparr>statistics := update_on_exit method_get_entry (got_miss (statistics c))\<rparr>, None)
      | Some (realkey, it) \<Rightarrow>
          (case lru_touch it c of
             None \<Rightarrow> None
           | Some c \<Rightarrow>
               (case map_of (storage c) it of
                  None \<Rightarrow> None
                | Some (_, entry) \<Rightarrow>
                    Some (c\<lparr>statistics := update_on_exit method_get_entry (got_hit (statistics c))\<rparr>,
                      Some (realkey, entry)))))"

text \<open>The address of a new node differs from those of the nodes in the list.\<close>

definition new_node :: "(node \<times> 'a) list \<Rightarrow> node" where
  "new_node xs = Suc (foldr (\<lambda>n m. max (fst n) m) xs 0)"

text \<open>\<open>map_[key] = it\<close>\<close>

definition map_subscript :: "('k \<Rightarrow> 'k \<Rightarrow> bool) \<Rightarrow> ('k, 'v) std_map \<Rightarrow> 'k \<Rightarrow> 'v \<Rightarrow> ('k, 'v) std_map" where
  "map_subscript lt m k v =
     (case map_find lt m k of None \<Rightarrow> fst (map_insert lt m k v) | Some _ \<Rightarrow> map_assign lt m k v)"

definition lru_insert_nonexist ::
  "('k \<Rightarrow> 'k \<Rightarrow> bool) \<Rightarrow> 'k \<Rightarrow> 'e \<Rightarrow> ('k, 'e) lru_cache \<Rightarrow> ('k, 'e) lru_cache option" where
  "lru_insert_nonexist lt k e c =
     (let it = new_node (storage c);
          c = c\<lparr>storage := (it, k, e) # storage c\<rparr>;
          c = c\<lparr>lru_map := map_subscript lt (lru_map c) k it\<rparr>;
          c = c\<lparr>current_size := current_size c + 1\<rparr>;
          c = c\<lparr>statistics := got_insertion (statistics c)\<rparr>
      in if current_size c > max_size c then lru_evict lt c else Some c)"

definition lru_insert ::
  "('k \<Rightarrow> 'k \<Rightarrow> bool) \<Rightarrow> 'k \<Rightarrow> 'e \<Rightarrow> ('k, 'e) lru_cache \<Rightarrow> (('k, 'e) lru_cache \<times> bool) option" where
  "lru_insert lt k e c =
     (if map_find lt (lru_map c) k \<noteq> None
      then Some (c\<lparr>statistics := update_on_exit method_insert_entry (statistics c)\<rparr>, False)
      else map_option (\<lambda>c. (c\<lparr>statistics := update_on_exit method_insert_entry (statistics c)\<rparr>, True))
             (lru_insert_nonexist lt k e c))"

definition lru_set_entry :: "node \<Rightarrow> 'e \<Rightarrow> ('k, 'e) lru_cache \<Rightarrow> ('k, 'e) lru_cache option" where
  "lru_set_entry it e c =
     (case map_of (storage c) it of
        None \<Rightarrow> None
      | Some _ \<Rightarrow> Some (c\<lparr>storage := map (\<lambda>(n, k, e'). (n, k, if n = it then e else e')) (storage c)\<rparr>))"

text \<open>The inner \<open>update_on_exit\<close> object of a miss is destroyed before the outer one.\<close>

definition lru_update ::
  "('k \<Rightarrow> 'k \<Rightarrow> bool) \<Rightarrow> 'k \<Rightarrow> 'e \<Rightarrow> ('k, 'e) lru_cache \<Rightarrow> ('k, 'e) lru_cache option" where
  "lru_update lt k e c =
     (case map_find lt (lru_map c) k of
        None \<Rightarrow>
          map_option (\<lambda>c. c\<lparr>statistics := update_on_exit method_update_entry
              (update_on_exit method_insert_entry (statistics c))\<rparr>)
            (lru_insert_nonexist lt k e (c\<lparr>statistics := got_miss (statistics c)\<rparr>))
      | Some (_, it) \<Rightarrow>
          (case lru_set_entry it e c of
             None \<Rightarrow> None
           | Some c \<Rightarrow>
               map_option (\<lambda>c. c\<lparr>statistics := update_on_exit method_update_entry (got_hit (statistics c))\<rparr>)
                 (lru_touch it c)))"

definition lru_update_if ::
  "('k \<Rightarrow> 'k \<Rightarrow> bool) \<Rightarrow> 'k \<Rightarrow> 'e \<Rightarrow> ('k \<Rightarrow> 'k \<Rightarrow> bool) \<Rightarrow> ('k, 'e) lru_cache \<Rightarrow>
    (('k, 'e) lru_cache \<times> bool) option" where
  "lru_update_if lt k e f c =
     (case map_find lt (lru_map c) k of
        None \<Rightarrow>
          map_option (\<lambda>c. (c\<lparr>statistics := update_on_exit method_update_entry
              (update_on_exit method_insert_entry (statistics c))\<rparr>, True))
            (lru_insert_nonexist lt k e (c\<lparr>statistics := got_miss (statistics c)\<rparr>))
      | Some (k', it) \<Rightarrow>
          if f k k'
          then Some (c\<lparr>statistics := update_on_exit method_update_entry (statistics c)\<rparr>, False)
          else
            (case lru_touch it c of
               None \<Rightarrow> None
             | Some c \<Rightarrow>
                 map_option (\<lambda>c. (c\<lparr>statistics := update_on_exit method_update_entry (got_hit (statistics c))\<rparr>, True))
                   (lru_set_entry it e c)))"

text \<open>The loop of \<open>erase\<close>: \<open>kept\<close> are the entries of the map before the iterator, the second
  argument those from the iterator on.\<close>

primrec lru_erase_loop ::
  "('k \<times> 'e \<Rightarrow> bool) \<Rightarrow> ('k, node) std_map \<Rightarrow> ('k, node) std_map \<Rightarrow> ('k, 'e) lru_cache \<Rightarrow> u64 \<Rightarrow>
    (('k, 'e) lru_cache \<times> u64) option" where
  "lru_erase_loop ep [] kept c erased = Some (c, erased)"
| "lru_erase_loop ep (kit # rest) kept c erased =
     (case map_of (storage c) (snd kit) of
        None \<Rightarrow> None
      | Some p \<Rightarrow>
          if ep p
          then lru_erase_loop ep rest kept
                 (c\<lparr>storage := filter (\<lambda>n. fst n \<noteq> snd kit) (storage c), lru_map := kept @ rest,
                    statistics := got_eviction (statistics c)\<rparr>) (erased + 1)
          else lru_erase_loop ep rest (kept @ [kit]) c erased)"

definition lru_erase_if ::
  "('k \<times> 'e \<Rightarrow> bool) \<Rightarrow> ('k, 'e) lru_cache \<Rightarrow> (('k, 'e) lru_cache \<times> u64) option" where
  "lru_erase_if ep c =
     map_option (\<lambda>(c, erased). (c\<lparr>statistics := update_on_exit method_erase_entry (statistics c)\<rparr>, erased))
       (lru_erase_loop ep (lru_map c) [] c 0)"

definition lru_clear :: "('k, 'e) lru_cache \<Rightarrow> ('k, 'e) lru_cache \<times> u64" where
  "lru_clear c = (c\<lparr>current_size := 0, lru_map := [], storage := []\<rparr>, current_size c)"

definition lru_erase_all :: "('k, 'e) lru_cache \<Rightarrow> ('k, 'e) lru_cache \<times> u64" where
  "lru_erase_all c = (let size = current_size c; (c, _) = lru_clear c in (c, size))"

section \<open>List and map agree\<close>

definition lru_entries :: "('k, 'e) lru_cache \<Rightarrow> ('k \<times> 'e) list" where
  "lru_entries c = map snd (storage c)"

definition lru_linked :: "('k \<Rightarrow> 'k \<Rightarrow> bool) \<Rightarrow> ('k, 'e) lru_cache \<Rightarrow> bool" where
  "lru_linked lt c \<longleftrightarrow> map_sorted lt (lru_map c) \<and> distinct (map fst (storage c)) \<and>
     set (lru_map c) = (\<lambda>n. (fst (snd n), fst n)) ` set (storage c)"

text \<open>The number of entries that \<open>current_size\<close> counts although they were erased.\<close>

definition lru_lost :: "('k, 'e) lru_cache \<Rightarrow> nat" where
  "lru_lost c = unat (current_size c) - length (storage c)"

definition lru_ok :: "('k \<Rightarrow> 'k \<Rightarrow> bool) \<Rightarrow> ('k, 'e) lru_cache \<Rightarrow> bool" where
  "lru_ok lt c \<longleftrightarrow> lru_linked lt c \<and> length (storage c) \<le> unat (current_size c) \<and>
     current_size c \<le> max_size c \<and> max_size c \<noteq> - 1"

lemma length_lru_entries [simp]: "length (lru_entries c) = length (storage c)"
  by (simp add: lru_entries_def)

lemma lru_ignores [simp]:
  "lru_linked lt (c\<lparr>statistics := st\<rparr>) = lru_linked lt c"
  "lru_linked lt (c\<lparr>current_size := n\<rparr>) = lru_linked lt c"
  "lru_linked lt (c\<lparr>max_size := n\<rparr>) = lru_linked lt c"
  "lru_entries (c\<lparr>statistics := st\<rparr>) = lru_entries c"
  "lru_entries (c\<lparr>current_size := n\<rparr>) = lru_entries c"
  "lru_entries (c\<lparr>max_size := n\<rparr>) = lru_entries c"
  "lru_ok lt (c\<lparr>statistics := st\<rparr>) = lru_ok lt c"
  "lru_lost (c\<lparr>statistics := st\<rparr>) = lru_lost c"
  by (simp_all add: lru_linked_def lru_entries_def lru_ok_def lru_lost_def)

lemma new_node_fresh: "new_node xs \<notin> fst ` set xs"
proof -
  have "n \<le> foldr (\<lambda>n m. max (fst n) m) xs 0" if "n \<in> fst ` set xs" for n
    using that by (induction xs) (force simp: le_max_iff_disj)+
  then show ?thesis unfolding new_node_def by force
qed

context strict_order
begin

lemma linked_map_of:
  assumes "lru_linked lt c" "(k, it) \<in> set (lru_map c)"
  obtains e where "map_of (storage c) it = Some (k, e)" "(it, k, e) \<in> set (storage c)"
    "(k, e) \<in> set (lru_entries c)"
proof -
  from assms obtain e where "(it, k, e) \<in> set (storage c)"
    by (auto simp: lru_linked_def)
  with assms(1) show ?thesis
    by (intro that [of e]) (force simp: lru_linked_def lru_entries_def)+
qed

lemma linked_node:
  assumes "lru_linked lt c" "(it, k, e) \<in> set (storage c)"
  shows "(k, it) \<in> set (lru_map c)" "map_of (storage c) it = Some (k, e)"
  using assms by (force simp: lru_linked_def)+

lemma linked_apart:
  assumes "lru_linked lt c" "m \<in> set (storage c)" "n \<in> set (storage c)"
    "equiv_keys lt (fst (snd m)) (fst (snd n))"
  shows "m = n"
proof -
  obtain i k e j k' e' where mn: "m = (i, k, e)" "n = (j, k', e')" by (metis surj_pair)
  have "(k, i) \<in> set (lru_map c)" "(k', j) \<in> set (lru_map c)"
    using linked_node(1) [OF assms(1)] assms(2,3) mn by simp_all
  moreover have "map_sorted lt (lru_map c)" "equiv_keys lt k k'"
    using assms(1,4) mn by (simp_all add: lru_linked_def)
  ultimately have "(k, i) = (k', j)"
    using found_alone [OF _ find_stored, of "lru_map c" k' j "(k, i)"] by simp
  moreover have "map_of (storage c) i = Some (k, e)" "map_of (storage c) j = Some (k', e')"
    using linked_node(2) [OF assms(1)] assms(2,3) mn by simp_all
  ultimately show ?thesis using mn by simp
qed

lemma linked_keys_apart:
  assumes "lru_linked lt c" "p \<in> set (lru_entries c)" "q \<in> set (lru_entries c)"
    "equiv_keys lt (fst p) (fst q)"
  shows "p = q"
  using assms linked_apart [OF assms(1)] by (auto simp: lru_entries_def)

lemma linked_distinct_keys:
  assumes "lru_linked lt c"
  shows "distinct (map fst (lru_entries c))"
proof -
  have "distinct (storage c)" using assms by (simp add: lru_linked_def distinct_map)
  moreover have "inj_on (\<lambda>n. fst (snd n)) (set (storage c))"
    using linked_apart [OF assms] equiv_refl by (metis (mono_tags, lifting) inj_onI)
  ultimately show ?thesis by (simp add: lru_entries_def distinct_map comp_def)
qed

lemma find_None_entries:
  "lru_linked lt c \<Longrightarrow>
    map_find lt (lru_map c) k = None \<longleftrightarrow> (\<forall>p \<in> set (lru_entries c). \<not> equiv_keys lt (fst p) k)"
  by (subst find_None_iff) (auto simp: lru_linked_def lru_entries_def)

lemma same_node:
  assumes "lru_linked lt c" "(it, k, e) \<in> set (storage c)" "n \<in> set (storage c)"
  shows "fst n = it \<longleftrightarrow> fst (snd n) = k" "fst n = it \<longleftrightarrow> n = (it, k, e)"
proof -
  have "n = (it, k, e)" if "fst n = it"
    using eq_key_imp_eq_value [of "storage c" it "snd n" "(k, e)"] assms that
    by (cases n) (auto simp: lru_linked_def)
  moreover have "n = (it, k, e)" if "fst (snd n) = k"
    using linked_apart [OF assms(1,3,2)] that by simp
  ultimately show "fst n = it \<longleftrightarrow> fst (snd n) = k" "fst n = it \<longleftrightarrow> n = (it, k, e)"
    by (metis fst_conv snd_conv)+
qed

lemma filter_nodes:
  assumes "lru_linked lt c" "(it, k, e) \<in> set (storage c)"
  shows "map snd (filter (\<lambda>n. fst n \<noteq> it) (storage c)) = filter (\<lambda>p. fst p \<noteq> k) (lru_entries c)"
proof -
  have "fst n \<noteq> it \<longleftrightarrow> fst (snd n) \<noteq> k" if "n \<in> set (storage c)" for n
    using same_node(1) [OF assms that] by simp
  then show ?thesis
    by (simp add: lru_entries_def filter_map comp_def cong: filter_cong)
qed

section \<open>The steps of the operations\<close>

lemma touch_linked:
  assumes "lru_linked lt c" "(it, k, e) \<in> set (storage c)"
  obtains c' where "lru_touch it c = Some c'" "lru_linked lt c'" "(it, k, e) \<in> set (storage c')"
    "lru_entries c' = (k, e) # filter (\<lambda>p. fst p \<noteq> k) (lru_entries c)"
    "length (storage c') = length (storage c)" "current_size c' = current_size c"
    "max_size c' = max_size c" "statistics c' = statistics c"
proof -
  let ?s = "(it, k, e) # filter (\<lambda>n. fst n \<noteq> it) (storage c)"
  have m: "map_of (storage c) it = Some (k, e)" using linked_node [OF assms] by simp
  have d: "distinct (map fst (storage c))" using assms(1) by (simp add: lru_linked_def)
  have same: "set ?s = set (storage c)"
  proof (rule set_eqI)
    fix n show "n \<in> set ?s \<longleftrightarrow> n \<in> set (storage c)"
      using assms(2) same_node(2) [OF assms, of n] by auto
  qed
  have d': "distinct (map fst ?s)" using d by (auto simp: distinct_map_filter)
  have "length (map fst ?s) = length (map fst (storage c))"
    using distinct_card [OF d] distinct_card [OF d'] same by (simp only: set_map)
  then have "length ?s = length (storage c)" by (simp only: length_map)
  with same d' m assms show ?thesis
    by (intro that [of "c\<lparr>storage := ?s\<rparr>"])
      (simp_all add: lru_touch_def lru_linked_def lru_entries_def filter_nodes [OF assms, unfolded lru_entries_def])
qed

lemma set_entry_linked:
  assumes "lru_linked lt c" "(it, k, e0) \<in> set (storage c)"
  obtains c' where "lru_set_entry it e c = Some c'" "lru_linked lt c'" "(it, k, e) \<in> set (storage c')"
    "lru_entries c' = map (\<lambda>p. if fst p = k then (k, e) else p) (lru_entries c)"
    "length (storage c') = length (storage c)" "current_size c' = current_size c"
    "max_size c' = max_size c" "statistics c' = statistics c"
proof -
  let ?f = "\<lambda>(n, k, e'). (n, k, if n = it then e else e')"
  define s' where "s' = map ?f (storage c)"
  have m: "map_of (storage c) it = Some (k, e0)" using linked_node [OF assms] by simp
  have ptr: "map fst s' = map fst (storage c)" "length s' = length (storage c)"
    "(\<lambda>n. (fst (snd n), fst n)) ` set s' = (\<lambda>n. (fst (snd n), fst n)) ` set (storage c)"
    by (auto simp: s'_def image_image split_beta)
  have "snd (?f n) = (if fst (snd n) = k then (k, e) else snd n)" if "n \<in> set (storage c)" for n
    using same_node [OF assms that] by (cases n) auto
  then have ent: "map snd s' = map (\<lambda>p. if fst p = k then (k, e) else p) (map snd (storage c))"
    by (simp add: s'_def)
  have mem: "(it, k, e) \<in> set s'" using imageI [OF assms(2), of ?f] by (simp add: s'_def)
  have "lru_set_entry it e c = Some (c\<lparr>storage := s'\<rparr>)" by (simp add: lru_set_entry_def m s'_def)
  then show ?thesis
  proof (rule that)
    show "lru_linked lt (c\<lparr>storage := s'\<rparr>)" using assms(1) ptr by (simp add: lru_linked_def)
  qed (use ent mem ptr in \<open>simp_all add: lru_entries_def\<close>)
qed

lemma push_linked:
  assumes "lru_linked lt c" "map_find lt (lru_map c) k = None"
  shows "lru_linked lt (c\<lparr>storage := (new_node (storage c), k, e) # storage c,
    lru_map := map_subscript lt (lru_map c) k (new_node (storage c))\<rparr>)"
  using assms new_node_fresh [of "storage c"]
  by (simp add: lru_linked_def map_subscript_def sorted_insert set_insert)

lemma evict_linked:
  assumes "lru_linked lt c" "storage c \<noteq> []"
  obtains c' where "lru_evict lt c = Some c'" "lru_linked lt c'" "lru_entries c' = butlast (lru_entries c)"
    "storage c' = butlast (storage c)" "current_size c' = current_size c - 1" "max_size c' = max_size c"
proof -
  obtain it k e where l: "last (storage c) = (it, k, e)" by (metis surj_pair)
  then have s: "storage c = butlast (storage c) @ [(it, k, e)]" using assms(2) by (metis append_butlast_last_id)
  have n: "(it, k, e) \<in> set (storage c)" using l assms(2) by (metis last_in_set)
  let ?m = "map_erase lt (lru_map c) k"
  have m: "map_sorted lt ?m" "set ?m = set (lru_map c) - {(k, it)}"
    using assms(1) linked_node(1) [OF assms(1) n] by (simp_all add: lru_linked_def sorted_erase erase_stored)
  have d: "distinct (map fst (butlast (storage c)))" "it \<notin> fst ` set (butlast (storage c))"
    using assms(1) s by (metis (no_types, lifting) distinct_append fst_conv list.set_map lru_linked_def
        map_append distinct_butlast map_butlast not_distinct_conv_prefix list.simps(8,9))+
  have "set (lru_map c) - {(k, it)} = (\<lambda>n. (fst (snd n), fst n)) ` set (butlast (storage c))"
    using assms(1) d(2) arg_cong [OF s, of set] by (auto simp: lru_linked_def)
  then show ?thesis
    using assms(2) l m d
    by (intro that [of "c\<lparr>statistics := got_eviction (statistics c), lru_map := ?m,
        storage := butlast (storage c), current_size := current_size c - 1\<rparr>"])
      (simp_all add: lru_evict_def lru_linked_def lru_entries_def map_butlast)
qed

lemma insert_nonexist_ok:
  assumes "lru_ok lt c" "map_find lt (lru_map c) k = None"
  obtains c' where "lru_insert_nonexist lt k e c = Some c'" "lru_ok lt c'" "lru_lost c' = lru_lost c"
    "lru_entries c' = take (unat (max_size c) - lru_lost c) ((k, e) # lru_entries c)"
    "max_size c' = max_size c"
proof -
  define c1 where "c1 = c\<lparr>storage := (new_node (storage c), k, e) # storage c,
    lru_map := map_subscript lt (lru_map c) k (new_node (storage c)),
    current_size := current_size c + 1, statistics := got_insertion (statistics c)\<rparr>"
  have ok: "lru_linked lt c" "length (storage c) \<le> unat (current_size c)" "current_size c \<le> max_size c"
    "max_size c \<noteq> - 1" using assms(1) by (auto simp: lru_ok_def)
  then have "current_size c \<noteq> - 1" by (metis word_order.extremum_uniqueI)
  then have cur: "unat (current_size c + 1) = Suc (unat (current_size c))"
    by (metis Suc_eq_plus1 add.commute add_eq_0_iff unatSuc)
  have le: "unat (current_size c) \<le> unat (max_size c)" using ok(3) by (simp add: word_le_nat_alt)
  have c1: "lru_linked lt c1" "lru_entries c1 = (k, e) # lru_entries c"
    "storage c1 = (new_node (storage c), k, e) # storage c" "current_size c1 = current_size c + 1"
    "max_size c1 = max_size c"
    using push_linked [OF ok(1) assms(2), of e]
    by (simp_all add: c1_def lru_linked_def lru_entries_def)
  have run: "lru_insert_nonexist lt k e c = (if current_size c1 > max_size c1 then lru_evict lt c1 else Some c1)"
    by (simp add: lru_insert_nonexist_def c1_def Let_def)
  show ?thesis
  proof (cases "current_size c1 > max_size c1")
    case False
    then have "Suc (unat (current_size c)) \<le> unat (max_size c)"
      using c1 cur by (simp add: word_less_nat_alt)
    then show ?thesis using False run c1 ok cur
      by (intro that [of c1]) (auto simp: lru_ok_def lru_lost_def word_le_nat_alt)
  next
    case True
    then have full: "unat (current_size c) = unat (max_size c)"
      using c1 cur le by (simp add: word_less_nat_alt)
    obtain c' where c': "lru_evict lt c1 = Some c'" "lru_linked lt c'" "lru_entries c' = butlast (lru_entries c1)"
      "storage c' = butlast (storage c1)" "current_size c' = current_size c1 - 1" "max_size c' = max_size c1"
      using evict_linked [OF c1(1)] c1(3) by (metis list.distinct(1))
    have n: "unat (max_size c) - lru_lost c = length (storage c)" using ok(2) full by (simp add: lru_lost_def)
    have "butlast ((k, e) # lru_entries c) = take (length (storage c)) ((k, e) # lru_entries c)"
      by (simp add: butlast_conv_take)
    then show ?thesis using True run c1 c' ok n
      by (intro that [of c']) (simp_all add: lru_ok_def lru_lost_def)
  qed
qed

lemma get_entry_ok:
  assumes "lru_ok lt c"
  shows "map_find lt (lru_map c) k = None \<Longrightarrow> \<exists>c'. lru_get_entry lt k c = Some (c', None) \<and>
      lru_ok lt c' \<and> lru_lost c' = lru_lost c \<and> lru_entries c' = lru_entries c \<and> max_size c' = max_size c"
    and "map_find lt (lru_map c) k = Some (k0, it) \<Longrightarrow> \<exists>c' e. lru_get_entry lt k c = Some (c', Some (k0, e)) \<and>
      (k0, e) \<in> set (lru_entries c) \<and> lru_ok lt c' \<and> lru_lost c' = lru_lost c \<and>
      lru_entries c' = (k0, e) # filter (\<lambda>p. fst p \<noteq> k0) (lru_entries c) \<and> max_size c' = max_size c"
proof -
  have l: "lru_linked lt c" using assms by (simp add: lru_ok_def)
  show "\<exists>c'. lru_get_entry lt k c = Some (c', None) \<and>
      lru_ok lt c' \<and> lru_lost c' = lru_lost c \<and> lru_entries c' = lru_entries c \<and> max_size c' = max_size c"
    if "map_find lt (lru_map c) k = None"
    using that assms by (simp add: lru_get_entry_def)
  assume f: "map_find lt (lru_map c) k = Some (k0, it)"
  then obtain e where e: "(it, k0, e) \<in> set (storage c)" "(k0, e) \<in> set (lru_entries c)"
    using linked_map_of [OF l] find_SomeD(1) by metis
  obtain c' where c': "lru_touch it c = Some c'" "lru_linked lt c'" "(it, k0, e) \<in> set (storage c')"
    "lru_entries c' = (k0, e) # filter (\<lambda>p. fst p \<noteq> k0) (lru_entries c)"
    "length (storage c') = length (storage c)" "current_size c' = current_size c"
    "max_size c' = max_size c" "statistics c' = statistics c"
    using touch_linked [OF l e(1)] by metis
  moreover have "map_of (storage c') it = Some (k0, e)" using linked_node(2) [OF c'(2,3)] .
  ultimately show "\<exists>c' e. lru_get_entry lt k c = Some (c', Some (k0, e)) \<and>
      (k0, e) \<in> set (lru_entries c) \<and> lru_ok lt c' \<and> lru_lost c' = lru_lost c \<and>
      lru_entries c' = (k0, e) # filter (\<lambda>p. fst p \<noteq> k0) (lru_entries c) \<and> max_size c' = max_size c"
    using f e assms by (simp add: lru_get_entry_def lru_ok_def lru_lost_def)
qed

lemma replaced_then_touched:
  "(k0, e) # filter (\<lambda>p. fst p \<noteq> k0) (map (\<lambda>p. if fst p = k0 then (k0, e) else p) xs) =
    (k0, e) # filter (\<lambda>p. fst p \<noteq> k0) xs"
  by (induction xs) auto

lemma touched_then_replaced:
  "map (\<lambda>p. if fst p = k0 then (k0, e) else p) ((k0, e0) # filter (\<lambda>p. fst p \<noteq> k0) xs) =
    (k0, e) # filter (\<lambda>p. fst p \<noteq> k0) xs"
  by (induction xs) auto

lemma update_hit_ok:
  assumes "lru_ok lt c" "map_find lt (lru_map c) k = Some (k0, it)"
  shows "\<exists>c'. lru_update lt k e c = Some c' \<and> lru_ok lt c' \<and> lru_lost c' = lru_lost c \<and>
      lru_entries c' = (k0, e) # filter (\<lambda>p. fst p \<noteq> k0) (lru_entries c) \<and> max_size c' = max_size c"
    and "\<not> f k k0 \<Longrightarrow> \<exists>c'. lru_update_if lt k e f c = Some (c', True) \<and> lru_ok lt c' \<and> lru_lost c' = lru_lost c \<and>
      lru_entries c' = (k0, e) # filter (\<lambda>p. fst p \<noteq> k0) (lru_entries c) \<and> max_size c' = max_size c"
proof -
  have l: "lru_linked lt c" using assms by (simp add: lru_ok_def)
  obtain e0 where e0: "(it, k0, e0) \<in> set (storage c)"
    by (rule linked_map_of [OF l find_SomeD(1) [OF assms(2)]])
  obtain c1 where c1: "lru_set_entry it e c = Some c1" "lru_linked lt c1" "(it, k0, e) \<in> set (storage c1)"
    "lru_entries c1 = map (\<lambda>p. if fst p = k0 then (k0, e) else p) (lru_entries c)"
    "length (storage c1) = length (storage c)" "current_size c1 = current_size c"
    "max_size c1 = max_size c" "statistics c1 = statistics c"
    by (rule set_entry_linked [OF l e0])
  obtain c2 where c2: "lru_touch it c1 = Some c2" "lru_linked lt c2" "(it, k0, e) \<in> set (storage c2)"
    "lru_entries c2 = (k0, e) # filter (\<lambda>p. fst p \<noteq> k0) (lru_entries c1)"
    "length (storage c2) = length (storage c1)" "current_size c2 = current_size c1"
    "max_size c2 = max_size c1" "statistics c2 = statistics c1"
    by (rule touch_linked [OF c1(2,3)])
  have "lru_entries c2 = (k0, e) # filter (\<lambda>p. fst p \<noteq> k0) (lru_entries c)"
    unfolding c2(4) c1(4) by (rule replaced_then_touched)
  then show "\<exists>c'. lru_update lt k e c = Some c' \<and> lru_ok lt c' \<and> lru_lost c' = lru_lost c \<and>
      lru_entries c' = (k0, e) # filter (\<lambda>p. fst p \<noteq> k0) (lru_entries c) \<and> max_size c' = max_size c"
    using c1 c2 assms by (simp add: lru_update_def lru_ok_def lru_lost_def)
  obtain d1 where d1: "lru_touch it c = Some d1" "lru_linked lt d1" "(it, k0, e0) \<in> set (storage d1)"
    "lru_entries d1 = (k0, e0) # filter (\<lambda>p. fst p \<noteq> k0) (lru_entries c)"
    "length (storage d1) = length (storage c)" "current_size d1 = current_size c"
    "max_size d1 = max_size c" "statistics d1 = statistics c"
    by (rule touch_linked [OF l e0])
  obtain d2 where d2: "lru_set_entry it e d1 = Some d2" "lru_linked lt d2" "(it, k0, e) \<in> set (storage d2)"
    "lru_entries d2 = map (\<lambda>p. if fst p = k0 then (k0, e) else p) (lru_entries d1)"
    "length (storage d2) = length (storage d1)" "current_size d2 = current_size d1"
    "max_size d2 = max_size d1" "statistics d2 = statistics d1"
    by (rule set_entry_linked [OF d1(2,3)])
  have "lru_entries d2 = (k0, e) # filter (\<lambda>p. fst p \<noteq> k0) (lru_entries c)"
    unfolding d2(4) d1(4) by (rule touched_then_replaced)
  then show "\<not> f k k0 \<Longrightarrow> \<exists>c'. lru_update_if lt k e f c = Some (c', True) \<and> lru_ok lt c' \<and> lru_lost c' = lru_lost c \<and>
      lru_entries c' = (k0, e) # filter (\<lambda>p. fst p \<noteq> k0) (lru_entries c) \<and> max_size c' = max_size c"
    using d1 d2 assms by (simp add: lru_update_if_def lru_ok_def lru_lost_def)
qed

lemma erase_node_linked:
  assumes "lru_linked lt c" "lru_map c = kept @ (k, it) # rest"
  shows "lru_linked lt (c\<lparr>storage := filter (\<lambda>n. fst n \<noteq> it) (storage c), lru_map := kept @ rest, statistics := st\<rparr>)"
proof -
  have m: "(k, it) \<in> set (lru_map c)" using assms(2) by simp
  have s: "sorted_wrt (\<lambda>a b. lt (fst a) (fst b)) (kept @ (k, it) # rest)"
    using assms by (simp add: lru_linked_def map_sorted_def)
  then have "(k, it) \<notin> set (kept @ rest)" by (auto simp: sorted_wrt_append lt_irrefl)
  then have img: "set (kept @ rest) = set (lru_map c) - {(k, it)}" using assms(2) by auto
  obtain e where e: "(it, k, e) \<in> set (storage c)" using linked_map_of [OF assms(1) m] by metis
  have "(\<lambda>n. (fst (snd n), fst n)) ` {n \<in> set (storage c). fst n \<noteq> it} = set (lru_map c) - {(k, it)}"
  proof -
    have "n = (it, k, e) \<longleftrightarrow> fst n = it" "fst (snd n) = k \<longleftrightarrow> fst n = it" if "n \<in> set (storage c)" for n
      using same_node [OF assms(1) e that] by simp_all
    then have "{n \<in> set (storage c). fst n \<noteq> it} = set (storage c) - {(it, k, e)}" by auto
    moreover have "inj_on (\<lambda>n. (fst (snd n), fst n)) (set (storage c))"
      using assms(1) by (auto simp: lru_linked_def distinct_map inj_on_def)
    ultimately show ?thesis
      using assms(1) e by (simp add: lru_linked_def inj_on_image_set_diff [of _ "set (storage c)"])
  qed
  then show ?thesis
    using assms s img by (simp add: lru_linked_def map_sorted_def distinct_map_filter sorted_wrt_append)
qed

lemma erase_loop_ok:
  assumes "lru_linked lt c" "lru_map c = kept @ todo"
  shows "\<exists>c' m. lru_erase_loop ep todo kept c n = Some (c', m) \<and> lru_linked lt c' \<and>
    storage c' = filter (\<lambda>nd. fst nd \<in> snd ` set todo \<longrightarrow> \<not> ep (snd nd)) (storage c) \<and>
    m + of_nat (length (storage c')) = n + of_nat (length (storage c)) \<and>
    current_size c' = current_size c \<and> max_size c' = max_size c"
  using assms
proof (induction todo arbitrary: kept c n)
  case (Cons ki rest)
  obtain k it where ki: "ki = (k, it)" by (cases ki)
  have m: "(k, it) \<in> set (lru_map c)" using Cons.prems(2) ki by simp
  obtain e where e: "map_of (storage c) it = Some (k, e)" "(it, k, e) \<in> set (storage c)"
    using linked_map_of [OF Cons.prems(1) m] by metis
  show ?case
  proof (cases "ep (k, e)")
    case False
    obtain c' m where c': "lru_erase_loop ep rest (kept @ [ki]) c n = Some (c', m)" "lru_linked lt c'"
      "storage c' = filter (\<lambda>nd. fst nd \<in> snd ` set rest \<longrightarrow> \<not> ep (snd nd)) (storage c)"
      "m + of_nat (length (storage c')) = n + of_nat (length (storage c))"
      "current_size c' = current_size c" "max_size c' = max_size c"
      using Cons.IH [OF Cons.prems(1), of "kept @ [ki]" n] Cons.prems(2) by auto
    have "storage c' = filter (\<lambda>nd. fst nd \<in> snd ` set (ki # rest) \<longrightarrow> \<not> ep (snd nd)) (storage c)"
      unfolding c'(3) using same_node(2) [OF Cons.prems(1) e(2)] False ki by (intro filter_cong) auto
    with c' e False ki show ?thesis by simp
  next
    case True
    let ?c = "c\<lparr>storage := filter (\<lambda>n. fst n \<noteq> it) (storage c), lru_map := kept @ rest,
      statistics := got_eviction (statistics c)\<rparr>"
    have l: "lru_linked lt ?c" using erase_node_linked Cons.prems ki by blast
    obtain c' m where c': "lru_erase_loop ep rest kept ?c (n + 1) = Some (c', m)" "lru_linked lt c'"
      "storage c' = filter (\<lambda>nd. fst nd \<in> snd ` set rest \<longrightarrow> \<not> ep (snd nd)) (storage ?c)"
      "m + of_nat (length (storage c')) = n + 1 + of_nat (length (storage ?c))"
      "current_size c' = current_size ?c" "max_size c' = max_size ?c"
      using Cons.IH [OF l, of kept "n + 1"] by auto
    have "storage c' = filter (\<lambda>nd. fst nd \<in> snd ` set (ki # rest) \<longrightarrow> \<not> ep (snd nd)) (storage c)"
    proof -
      have "fst nd \<noteq> it \<and> (fst nd \<in> snd ` set rest \<longrightarrow> \<not> ep (snd nd)) \<longleftrightarrow>
          (fst nd \<in> snd ` set (ki # rest) \<longrightarrow> \<not> ep (snd nd))" if "nd \<in> set (storage c)" for nd
        using same_node(2) [OF Cons.prems(1) e(2) that] True ki by auto
      then show ?thesis
        unfolding c'(3) by (simp add: conj_commute cong: filter_cong)
    qed
    moreover have len: "Suc (length (filter (\<lambda>n. fst n \<noteq> it) (storage c))) = length (storage c)"
    proof -
      have "filter (\<lambda>n. fst n \<noteq> it) (storage c) = remove1 (it, k, e) (storage c)"
        using Cons.prems(1) same_node(2) [OF Cons.prems(1) e(2)]
        by (subst distinct_remove1_removeAll) (auto simp: lru_linked_def distinct_map removeAll_filter_not_eq intro!: filter_cong)
      with e(2) show ?thesis using length_pos_if_in_set [OF e(2)] by (simp add: length_remove1)
    qed
    moreover have "n + 1 + of_nat (length (storage ?c)) = n + of_nat (length (storage c))"
      by (simp flip: len)
    ultimately show ?thesis using c' e True ki by simp
  qed
qed simp

lemma erase_if_ok:
  assumes "lru_ok lt c"
  shows "\<exists>c'. lru_erase_if ep c = Some (c', of_nat (length (filter ep (lru_entries c)))) \<and> lru_ok lt c' \<and>
    lru_entries c' = filter (\<lambda>p. \<not> ep p) (lru_entries c) \<and>
    lru_lost c' = lru_lost c + length (filter ep (lru_entries c)) \<and> max_size c' = max_size c"
proof -
  have l: "lru_linked lt c" and len: "length (storage c) \<le> unat (current_size c)"
    using assms by (simp_all add: lru_ok_def)
  obtain c' m where c': "lru_erase_loop ep (lru_map c) [] c 0 = Some (c', m)" "lru_linked lt c'"
    "storage c' = filter (\<lambda>nd. fst nd \<in> snd ` set (lru_map c) \<longrightarrow> \<not> ep (snd nd)) (storage c)"
    "m + of_nat (length (storage c')) = of_nat (length (storage c))"
    "current_size c' = current_size c" "max_size c' = max_size c"
    using erase_loop_ok [OF l, of "[]" "lru_map c" ep 0] by auto
  have "fst nd \<in> snd ` set (lru_map c)" if "nd \<in> set (storage c)" for nd
    using l that by (force simp: lru_linked_def)
  then have s: "storage c' = filter (\<lambda>nd. \<not> ep (snd nd)) (storage c)"
    unfolding c'(3) by (intro filter_cong) auto
  then have ent: "lru_entries c' = filter (\<lambda>p. \<not> ep p) (lru_entries c)"
    by (simp add: lru_entries_def filter_map comp_def)
  have parts: "length (filter ep (lru_entries c)) + length (storage c') = length (storage c)"
    using sum_length_filter_compl [of ep "lru_entries c"] arg_cong [OF ent, of length] by simp
  then have "m = of_nat (length (filter ep (lru_entries c)))"
    using c'(4) by (metis add_right_imp_eq of_nat_add)
  then show ?thesis
    using c' ent parts len assms by (simp add: lru_erase_if_def lru_ok_def lru_lost_def)
qed

text \<open>The loop of \<open>reserve\<close> evicts \<open>current_size - max_size\<close> entries, unless so many are not there.\<close>

lemma evict_while_ok:
  assumes "lru_linked lt c" "length (storage c) \<le> unat (current_size c)" "max_size c \<noteq> - 1"
    "extra = unat (current_size c) - unat (max_size c)"
  shows "(extra > length (storage c) \<longrightarrow> lru_evict_while lt c = None) \<and>
    (extra \<le> length (storage c) \<longrightarrow> (\<exists>c'. lru_evict_while lt c = Some c' \<and> lru_ok lt c' \<and>
      lru_lost c' = lru_lost c \<and> lru_entries c' = take (length (storage c) - extra) (lru_entries c) \<and>
      max_size c' = max_size c))"
  using assms
proof (induction extra arbitrary: c)
  case 0
  then have "current_size c \<le> max_size c" "\<not> current_size c > max_size c"
    by (simp_all add: word_le_nat_alt word_less_nat_alt)
  with 0 show ?case by (simp add: lru_evict_while.simps [of lt c] lru_ok_def)
next
  case (Suc x)
  then have gt: "current_size c > max_size c" by (simp add: word_less_nat_alt)
  show ?case
  proof (cases "storage c = []")
    case True
    then show ?thesis using gt by (simp add: lru_evict_while.simps [of lt c] lru_evict_def)
  next
    case False
    obtain c1 where c1: "lru_evict lt c = Some c1" "lru_linked lt c1" "lru_entries c1 = butlast (lru_entries c)"
      "storage c1 = butlast (storage c)" "current_size c1 = current_size c - 1" "max_size c1 = max_size c"
      by (rule evict_linked [OF Suc.prems(1) False])
    have "current_size c \<noteq> 0" using gt by auto
    then have cur: "unat (current_size c1) = unat (current_size c) - 1" by (simp add: c1 unat_minus_one)
    have len: "length (storage c1) = length (storage c) - 1" "0 < length (storage c)"
      using False by (simp_all add: c1)
    have hyp: "length (storage c1) \<le> unat (current_size c1)" "max_size c1 \<noteq> - 1"
      "x = unat (current_size c1) - unat (max_size c1)"
      using Suc.prems cur len c1 by simp_all
    have run: "lru_evict_while lt c = lru_evict_while lt c1"
      using gt c1(1) by (simp add: lru_evict_while.simps [of lt c])
    have x: "length (storage c1) < x \<longleftrightarrow> length (storage c) < Suc x"
      "x \<le> length (storage c1) \<longleftrightarrow> Suc x \<le> length (storage c)"
      "length (storage c1) - x = length (storage c) - Suc x" using len by linarith+
    have lost: "lru_lost c1 = lru_lost c" using Suc.prems len cur by (simp add: lru_lost_def)
    have "take (length (storage c) - Suc x) (lru_entries c1) = take (length (storage c) - Suc x) (lru_entries c)"
      using len by (simp add: c1 butlast_conv_take min_def)
    then show ?thesis
      using Suc.IH [OF c1(2) hyp] unfolding run x lost
      by (simp add: c1)
  qed
qed

lemma reserve_ok:
  assumes "lru_ok lt c" "n \<noteq> - 1"
  shows "unat n < lru_lost c \<Longrightarrow> lru_reserve lt n c = None"
    and "lru_lost c \<le> unat n \<Longrightarrow> \<exists>c'. lru_reserve lt n c = Some c' \<and> lru_ok lt c' \<and>
      lru_lost c' = lru_lost c \<and> lru_entries c' = take (unat n - lru_lost c) (lru_entries c) \<and> max_size c' = n"
proof -
  have l: "lru_linked lt c" "length (storage c) \<le> unat (current_size c)" "current_size c \<le> max_size c"
    using assms(1) by (auto simp: lru_ok_def)
  let ?c = "c\<lparr>max_size := n\<rparr>"
  have le: "unat (current_size c) \<le> unat (max_size c)" using l(3) by (simp add: word_le_nat_alt)
  have e: "unat n < lru_lost c \<longleftrightarrow> length (storage c) < unat (current_size c) - unat n" if "unat n \<le> unat (max_size c)"
    using l(2) by (auto simp: lru_lost_def)
  have hyp: "lru_linked lt ?c" "length (storage ?c) \<le> unat (current_size ?c)" "max_size ?c \<noteq> - 1"
    using l assms(2) by simp_all
  show "lru_reserve lt n c = None" if "unat n < lru_lost c"
    using evict_while_ok [OF hyp refl] that le l(2)
    by (auto simp: lru_reserve_def lru_lost_def word_less_nat_alt)
  show "\<exists>c'. lru_reserve lt n c = Some c' \<and> lru_ok lt c' \<and>
      lru_lost c' = lru_lost c \<and> lru_entries c' = take (unat n - lru_lost c) (lru_entries c) \<and> max_size c' = n"
    if "lru_lost c \<le> unat n"
  proof (cases "n > max_size c")
    case True
    then show ?thesis using assms l le
      by (auto simp: lru_reserve_def lru_ok_def lru_lost_def lru_entries_def word_le_nat_alt word_less_nat_alt)
  next
    case False
    have x: "length (storage c) - (unat (current_size c) - unat n) = min (length (storage c)) (unat n - lru_lost c)"
      using that l(2) by (auto simp: lru_lost_def)
    have "unat (current_size c) - unat n \<le> length (storage c)" using that l(2) by (auto simp: lru_lost_def)
    then obtain c' where c': "lru_evict_while lt ?c = Some c'" "lru_ok lt c'" "lru_lost c' = lru_lost ?c"
      "lru_entries c' = take (length (storage c) - (unat (current_size c) - unat n)) (lru_entries c)" "max_size c' = n"
      using evict_while_ok [OF hyp refl] by auto
    have "lru_entries c' = take (unat n - lru_lost c) (lru_entries c)"
      unfolding c'(4) x by (simp add: min_def)
    with c' False show ?thesis by (simp add: lru_reserve_def lru_lost_def)
  qed
qed

lemma clear_ok: "lru_ok lt c \<Longrightarrow> lru_ok lt (fst (lru_clear c))"
  by (simp add: lru_clear_def lru_ok_def lru_linked_def)

lemma new_ok: "n \<noteq> - 1 \<Longrightarrow> lru_ok lt (lru_new n)"
  by (simp add: lru_new_def lru_ok_def lru_linked_def)

end

section \<open>The abstract cache\<close>

text \<open>
  What the documentation of the cache promises for keys with a total order: a list of entries in the order of their last
  use that is cut off at the limit, where a limit of zero is none; \<open>update_if\<close> goes on if the callback
  returns true. The implementation differs from this in two ways: it evicts everything from a cache with limit zero, and
  goes on if the callback returns false. \<open>lost\<close> is the capacity that is gone because \<open>erase\<close> with a
  predicate removes entries without taking them out of \<open>current_size\<close>; only \<open>clear\<close> gives it back.
  Shrinking the cache below \<open>lost\<close> makes \<open>reserve\<close> evict from an empty list.
\<close>

record ('k, 'e) lru_spec =
  limit :: nat
  lost :: nat
  recent :: "('k \<times> 'e) list"

datatype ('k, 'e) lru_op =
    op_get_entry 'k
  | op_insert 'k 'e
  | op_update 'k 'e
  | op_update_if 'k 'e "'k \<Rightarrow> 'k \<Rightarrow> bool"
  | op_erase_if "'k \<times> 'e \<Rightarrow> bool"
  | op_erase_all
  | op_clear
  | op_reserve u64

datatype ('k, 'e) lru_result =
  found "('k \<times> 'e) option" | flag bool | erased u64 | finished

definition use_front :: "'k \<Rightarrow> 'e \<Rightarrow> ('k \<times> 'e) list \<Rightarrow> ('k \<times> 'e) list" where
  "use_front k e xs = (k, e) # filter (\<lambda>p. fst p \<noteq> k) xs"

definition spec_cut :: "('k, 'e) lru_spec \<Rightarrow> ('k, 'e) lru_spec" where
  "spec_cut s = (if limit s = 0 then s else s\<lparr>recent := take (limit s - lost s) (recent s)\<rparr>)"

definition spec_add :: "'k \<Rightarrow> 'e \<Rightarrow> ('k, 'e) lru_spec \<Rightarrow> ('k, 'e) lru_spec" where
  "spec_add k e s = spec_cut (s\<lparr>recent := (k, e) # recent s\<rparr>)"

fun spec_step :: "('k, 'e) lru_op \<Rightarrow> ('k, 'e) lru_spec \<Rightarrow> (('k, 'e) lru_spec \<times> ('k, 'e) lru_result) option" where
  "spec_step (op_get_entry k) s =
     (case map_of (recent s) k of
        None \<Rightarrow> Some (s, found None)
      | Some e \<Rightarrow> Some (s\<lparr>recent := use_front k e (recent s)\<rparr>, found (Some (k, e))))"
| "spec_step (op_insert k e) s =
     (if map_of (recent s) k = None then Some (spec_add k e s, flag True) else Some (s, flag False))"
| "spec_step (op_update k e) s =
     (if map_of (recent s) k = None then Some (spec_add k e s, finished)
      else Some (s\<lparr>recent := use_front k e (recent s)\<rparr>, finished))"
| "spec_step (op_update_if k e f) s =
     (if map_of (recent s) k = None then Some (spec_add k e s, flag True)
      else if f k k then Some (s\<lparr>recent := use_front k e (recent s)\<rparr>, flag True)
      else Some (s, flag False))"
| "spec_step (op_erase_if ep) s =
     (let n = length (filter ep (recent s))
      in Some (s\<lparr>recent := filter (\<lambda>p. \<not> ep p) (recent s), lost := lost s + n\<rparr>, erased (of_nat n)))"
| "spec_step op_erase_all s =
     Some (s\<lparr>recent := [], lost := 0\<rparr>, erased (of_nat (length (recent s) + lost s)))"
| "spec_step op_clear s =
     Some (s\<lparr>recent := [], lost := 0\<rparr>, erased (of_nat (length (recent s) + lost s)))"
| "spec_step (op_reserve n) s =
     (if n \<noteq> 0 \<and> unat n < lost s then None else Some (spec_cut (s\<lparr>limit := unat n\<rparr>), finished))"

text \<open>The call as it is documented for what the implementation does: with the answer of the callback reversed.\<close>

fun documented :: "('k, 'e) lru_op \<Rightarrow> ('k, 'e) lru_op" where
  "documented (op_update_if k e f) = op_update_if k e (\<lambda>a b. \<not> f a b)"
| "documented op = op"

fun lru_step ::
  "('k \<Rightarrow> 'k \<Rightarrow> bool) \<Rightarrow> ('k, 'e) lru_op \<Rightarrow> ('k, 'e) lru_cache \<Rightarrow> (('k, 'e) lru_cache \<times> ('k, 'e) lru_result) option" where
  "lru_step lt (op_get_entry k) c = map_option (map_prod (\<lambda>c. c) found) (lru_get_entry lt k c)"
| "lru_step lt (op_insert k e) c = map_option (map_prod (\<lambda>c. c) flag) (lru_insert lt k e c)"
| "lru_step lt (op_update k e) c = map_option (\<lambda>c. (c, finished)) (lru_update lt k e c)"
| "lru_step lt (op_update_if k e f) c = map_option (map_prod (\<lambda>c. c) flag) (lru_update_if lt k e f c)"
| "lru_step lt (op_erase_if ep) c = map_option (map_prod (\<lambda>c. c) erased) (lru_erase_if ep c)"
| "lru_step lt op_erase_all c = Some (map_prod (\<lambda>c. c) erased (lru_erase_all c))"
| "lru_step lt op_clear c = Some (map_prod (\<lambda>c. c) erased (lru_clear c))"
| "lru_step lt (op_reserve n) c = map_option (\<lambda>c. (c, finished)) (lru_reserve lt n c)"

primrec run_ops :: "('op \<Rightarrow> 's \<Rightarrow> ('s \<times> 'r) option) \<Rightarrow> 'op list \<Rightarrow> 's \<Rightarrow> ('s \<times> 'r list) option" where
  "run_ops f [] s = Some (s, [])"
| "run_ops f (op # ops) s =
     (case f op s of
        None \<Rightarrow> None
      | Some (s', r) \<Rightarrow> map_option (map_prod (\<lambda>s. s) ((#) r)) (run_ops f ops s'))"

definition lru_abs :: "('k, 'e) lru_cache \<Rightarrow> ('k, 'e) lru_spec" where
  "lru_abs c = \<lparr>limit = unat (max_size c), lost = lru_lost c, recent = lru_entries c\<rparr>"

fun op_ok :: "('k, 'e) lru_op \<Rightarrow> bool" where
  "op_ok (op_reserve n) \<longleftrightarrow> n \<noteq> 0 \<and> n \<noteq> - 1"
| "op_ok _ \<longleftrightarrow> True"

text \<open>A step of the cache is a step of the abstract cache, undefined behaviour included.\<close>

definition refines_step :: "('k :: linorder, 'e) lru_op \<Rightarrow> ('k, 'e) lru_cache \<Rightarrow> bool" where
  "refines_step op c \<longleftrightarrow>
     map_option (map_prod lru_abs (\<lambda>r. r)) (lru_step (<) op c) = spec_step (documented op) (lru_abs c) \<and>
     (\<forall>c' r. lru_step (<) op c = Some (c', r) \<longrightarrow> lru_ok (<) c')"

lemma refines_stepI:
  assumes "lru_step (<) op c = Some (c', r)" "lru_ok (<) c'" "spec_step (documented op) (lru_abs c) = Some (lru_abs c', r)"
  shows "refines_step op c"
  using assms by (simp add: refines_step_def)

lemma find_is_map_of:
  fixes c :: "('k :: linorder, 'e) lru_cache"
  assumes "lru_ok (<) c"
  shows "map_of (lru_entries c) k = None \<longleftrightarrow> map_find (<) (lru_map c) k = None"
    and "map_find (<) (lru_map c) k = Some (k0, it) \<Longrightarrow> k0 = k"
    and "(k, e) \<in> set (lru_entries c) \<Longrightarrow> map_of (lru_entries c) k = Some e"
proof -
  have l: "lru_linked (<) c" using assms by (simp add: lru_ok_def)
  show "map_of (lru_entries c) k = None \<longleftrightarrow> map_find (<) (lru_map c) k = None"
    using total.find_None_entries [OF l, of k] by (auto simp: map_of_eq_None_iff)
  show "k0 = k" if "map_find (<) (lru_map c) k = Some (k0, it)" using total.find_SomeD(2) [OF that] by simp
  show "map_of (lru_entries c) k = Some e" if "(k, e) \<in> set (lru_entries c)"
    using total.linked_distinct_keys [OF l] that by simp
qed

lemma add_refines:
  fixes c :: "('k :: linorder, 'e) lru_cache"
  assumes "lru_ok (<) c" "max_size c \<noteq> 0" "map_find (<) (lru_map c) k = None"
  shows "\<exists>c'. lru_insert_nonexist (<) k e c = Some c' \<and> lru_ok (<) c' \<and> lru_abs c' = spec_add k e (lru_abs c)"
proof -
  have "unat (max_size c) \<noteq> 0" using assms(2) by (simp add: unat_eq_0)
  then have "spec_add k e (lru_abs c) = \<lparr>limit = unat (max_size c), lost = lru_lost c,
      recent = take (unat (max_size c) - lru_lost c) ((k, e) # lru_entries c)\<rparr>"
    by (simp add: spec_add_def spec_cut_def lru_abs_def)
  then show ?thesis using total.insert_nonexist_ok [OF assms(1,3), of e] by (metis lru_abs_def)
qed

lemma lru_abs_statistics [simp]: "lru_abs (c\<lparr>statistics := st\<rparr>) = lru_abs c"
  by (simp add: lru_abs_def)

lemma get_entry_refines: "lru_ok (<) c \<Longrightarrow> refines_step (op_get_entry k) c"
proof (cases "map_find (<) (lru_map c) k")
  case None
  assume ok: "lru_ok (<) c"
  then show ?thesis
    using total.get_entry_ok(1) [OF ok None] find_is_map_of(1) [OF ok, of k] None
    by (auto intro!: refines_stepI simp: lru_abs_def)
next
  case (Some e)
  assume ok: "lru_ok (<) c"
  obtain it where it: "map_find (<) (lru_map c) k = Some (k, it)"
    using Some find_is_map_of(2) [OF ok] by (cases e) auto
  obtain c' x where c': "lru_get_entry (<) k c = Some (c', Some (k, x))" "(k, x) \<in> set (lru_entries c)"
    "lru_ok (<) c'" "lru_lost c' = lru_lost c" "lru_entries c' = use_front k x (lru_entries c)" "max_size c' = max_size c"
    using total.get_entry_ok(2) [OF ok it] by (auto simp: use_front_def)
  then show ?thesis
    using find_is_map_of(3) [OF ok c'(2)] by (intro refines_stepI [of _ _ c']) (auto simp: lru_abs_def)
qed

lemma insert_refines:
  assumes ok: "lru_ok (<) c" and size: "max_size c \<noteq> 0"
  shows "refines_step (op_insert k e) c"
proof (cases "map_find (<) (lru_map c) k")
  case None
  obtain c' where "lru_insert_nonexist (<) k e c = Some c'" "lru_ok (<) c'" "lru_abs c' = spec_add k e (lru_abs c)"
    using add_refines [OF ok size None] by blast
  then show ?thesis using None find_is_map_of(1) [OF ok, of k]
    by (auto intro!: refines_stepI simp: lru_insert_def) (simp add: lru_abs_def)
next
  case (Some x)
  then show ?thesis using ok find_is_map_of(1) [OF ok, of k]
    by (auto intro!: refines_stepI simp: lru_insert_def) (simp add: lru_abs_def)
qed

lemma update_refines:
  assumes ok: "lru_ok (<) c" and size: "max_size c \<noteq> 0"
  shows "refines_step (op_update k e) c" "refines_step (op_update_if k e f) c"
proof -
  have miss: "recent (lru_abs c) = lru_entries c" by (simp add: lru_abs_def)
  have "refines_step (op_update k e) c \<and> refines_step (op_update_if k e f) c"
  proof (cases "map_find (<) (lru_map c) k")
    case None
    let ?c = "c\<lparr>statistics := got_miss (statistics c)\<rparr>"
    obtain c' where "lru_insert_nonexist (<) k e ?c = Some c'" "lru_ok (<) c'" "lru_abs c' = spec_add k e (lru_abs c)"
      using add_refines [of ?c k e] ok size None by auto
    then show ?thesis using None find_is_map_of(1) [OF ok, of k] miss
      by (auto intro!: refines_stepI simp: lru_update_def lru_update_if_def)
  next
    case (Some x)
    obtain it where it: "map_find (<) (lru_map c) k = Some (k, it)"
      using Some find_is_map_of(2) [OF ok] by (cases x) auto
    have m: "map_of (recent (lru_abs c)) k \<noteq> None" using find_is_map_of(1) [OF ok, of k] it miss by simp
    have "refines_step (op_update k e) c"
      using total.update_hit_ok(1) [OF ok it, of e] m
      by (auto intro!: refines_stepI simp: use_front_def) (simp add: lru_abs_def)
    moreover have "refines_step (op_update_if k e f) c"
    proof (cases "f k k")
      case True
      then show ?thesis using ok it m by (auto intro!: refines_stepI simp: lru_update_if_def)
    next
      case False
      then show ?thesis using total.update_hit_ok(2) [OF ok it, of f e] m
        by (auto intro!: refines_stepI simp: use_front_def) (simp add: lru_abs_def)
    qed
    ultimately show ?thesis ..
  qed
  then show "refines_step (op_update k e) c" "refines_step (op_update_if k e f) c" by blast+
qed

lemma size_word: "lru_ok lt c \<Longrightarrow> of_nat (length (lru_entries c) + lru_lost c) = current_size c"
  by (simp add: lru_ok_def lru_lost_def)

lemma clear_refines:
  fixes c :: "('k :: linorder, 'e) lru_cache"
  assumes ok: "lru_ok (<) c"
  shows "refines_step op_clear c" "refines_step op_erase_all c"
  using total.clear_ok [OF ok] size_word [OF ok]
  by (simp_all add: refines_step_def lru_erase_all_def lru_clear_def lru_abs_def lru_lost_def lru_entries_def Let_def)

lemma step_refines:
  fixes c :: "('k :: linorder, 'e) lru_cache"
  assumes ok: "lru_ok (<) c" and size: "max_size c \<noteq> 0" and op: "op_ok op"
  shows "refines_step op c"
proof (cases op)
  case (op_erase_if ep)
  show ?thesis unfolding op_erase_if
    using total.erase_if_ok [OF ok, of ep] by (auto intro!: refines_stepI simp: lru_abs_def Let_def)
next
  case (op_reserve n)
  then have n: "n \<noteq> - 1" "n \<noteq> 0" using op by simp_all
  show ?thesis unfolding op_reserve
    using total.reserve_ok [OF ok n(1)] n(2)
    by (cases "unat n < lru_lost c") (auto intro!: refines_stepI simp: refines_step_def lru_abs_def spec_cut_def unat_eq_0)
qed (use ok size in \<open>auto intro: get_entry_refines insert_refines update_refines clear_refines\<close>)

lemma spec_limit: "spec_step op s = Some (s', r) \<Longrightarrow> op_ok op \<Longrightarrow> limit s \<noteq> 0 \<Longrightarrow> limit s' \<noteq> 0"
  by (cases op) (auto simp: spec_add_def spec_cut_def Let_def unat_gt_0 unat_eq_0 split: option.splits if_splits)

lemma documented_ok: "op_ok (documented op) = op_ok op"
  by (cases op) simp_all

lemma run_refines:
  fixes c :: "('k :: linorder, 'e) lru_cache"
  assumes "lru_ok (<) c" "\<forall>op \<in> set ops. op_ok op" "max_size c \<noteq> 0"
  shows "map_option (map_prod lru_abs (\<lambda>r. r)) (run_ops (lru_step (<)) ops c) = run_ops spec_step (map documented ops) (lru_abs c)"
  using assms
proof (induction ops arbitrary: c)
  case (Cons op ops)
  then have r: "refines_step op c" by (simp add: step_refines)
  show ?case
  proof (cases "lru_step (<) op c")
    case None
    then show ?thesis using r by (auto simp: refines_step_def)
  next
    case (Some cr)
    obtain c' o' where cr: "cr = (c', o')" by (cases cr)
    have s: "spec_step (documented op) (lru_abs c) = Some (lru_abs c', o')" "lru_ok (<) c'"
      using r Some cr by (auto simp: refines_step_def)
    have "max_size c' \<noteq> 0"
      using spec_limit [OF s(1)] Cons.prems(2,3) documented_ok [of op] by (simp add: lru_abs_def unat_eq_0)
    then have IH: "map_option (map_prod lru_abs (\<lambda>r. r)) (run_ops (lru_step (<)) ops c') = run_ops spec_step (map documented ops) (lru_abs c')"
      using Cons.IH s(2) Cons.prems by simp
    show ?thesis using Some cr s(1) by (simp add: IH [symmetric] option.map_comp comp_def map_prod_def split_beta)
  qed
qed simp

section \<open>Comparisons that agree on the keys at hand\<close>

text \<open>The operations only look at the comparison of the keys they are given and those in the cache.\<close>

definition agree :: "('k \<Rightarrow> 'k \<Rightarrow> bool) \<Rightarrow> ('k \<Rightarrow> 'k \<Rightarrow> bool) \<Rightarrow> 'k set \<Rightarrow> bool" where
  "agree lt lt' K \<longleftrightarrow> (\<forall>a \<in> K. \<forall>b \<in> K. lt a b = lt' a b)"

lemma agree_subset: "agree lt lt' K \<Longrightarrow> L \<subseteq> K \<Longrightarrow> agree lt lt' L"
  by (auto simp: agree_def)

lemma map_cong:
  assumes "agree lt lt' (insert k (fst ` set m))"
  shows "map_before lt m k = map_before lt' m k" "map_lower_bound lt m k = map_lower_bound lt' m k"
    "map_find lt m k = map_find lt' m k" "map_insert lt m k v = map_insert lt' m k v"
    "map_assign lt m k v = map_assign lt' m k v" "map_erase lt m k = map_erase lt' m k"
    "map_subscript lt m k v = map_subscript lt' m k v"
proof -
  show b: "map_before lt m k = map_before lt' m k" and l: "map_lower_bound lt m k = map_lower_bound lt' m k"
    using assms by (auto simp: map_before_def map_lower_bound_def agree_def intro: takeWhile_cong dropWhile_cong)
  have "fst (hd (map_lower_bound lt' m k)) \<in> fst ` set m" if "map_lower_bound lt' m k \<noteq> []"
    using that unfolding map_lower_bound_def by (metis hd_in_set imageI set_dropWhileD)
  then show f: "map_find lt m k = map_find lt' m k"
    using assms by (auto simp: map_find_def l agree_def split: list.split)
  show "map_insert lt m k v = map_insert lt' m k v" "map_assign lt m k v = map_assign lt' m k v"
    "map_erase lt m k = map_erase lt' m k" "map_subscript lt m k v = map_subscript lt' m k v"
    unfolding map_subscript_def map_insert_def map_assign_def map_erase_def f b l by (rule refl)+
qed

definition lru_keys :: "('k, 'e) lru_cache \<Rightarrow> 'k set" where
  "lru_keys c = fst ` set (lru_map c) \<union> fst ` set (lru_entries c)"

lemma lru_get_entry_cong:
  assumes "agree lt lt' (insert k (lru_keys c))"
  shows "lru_get_entry lt k c = lru_get_entry lt' k c"
proof -
  have "agree lt lt' (insert k (fst ` set (lru_map c)))"
    using assms by (rule agree_subset) (auto simp: lru_keys_def)
  then show ?thesis by (simp add: lru_get_entry_def map_cong(3) [of lt lt'])
qed

lemma lru_evict_cong:
  assumes "agree lt lt' (lru_keys c)"
  shows "lru_evict lt c = lru_evict lt' c"
proof (cases "storage c = []")
  case False
  then have "fst (snd (last (storage c))) \<in> lru_keys c" by (auto simp: lru_keys_def lru_entries_def)
  then have "agree lt lt' (insert (fst (snd (last (storage c)))) (fst ` set (lru_map c)))"
    using assms by (elim agree_subset) (auto simp: lru_keys_def)
  then show ?thesis using False by (simp add: lru_evict_def map_cong(6) [of lt lt'])
qed (simp add: lru_evict_def)

lemma map_subscript_keys: "fst ` set (map_subscript lt m k v) \<subseteq> insert k (fst ` set m)"
proof -
  have b: "fst ` set (map_before lt m k) \<subseteq> fst ` set m" "fst ` set (map_lower_bound lt m k) \<subseteq> fst ` set m"
    by (auto simp: map_before_def map_lower_bound_def dest: set_takeWhileD set_dropWhileD)
  moreover have "fst ` set (tl (map_lower_bound lt m k)) \<subseteq> fst ` set m"
    using b(2) by (cases "map_lower_bound lt m k") auto
  moreover have "fst e \<in> fst ` set m" if "map_find lt m k = Some e" for e
    using b(2) that by (auto simp: map_find_def split: list.splits if_splits)
  ultimately show ?thesis
    by (auto simp: map_subscript_def map_insert_def map_assign_def split: option.splits)
qed

lemma lru_insert_nonexist_cong:
  assumes "agree lt lt' (insert k (lru_keys c))"
  shows "lru_insert_nonexist lt k e c = lru_insert_nonexist lt' k e c"
proof -
  let ?it = "new_node (storage c)"
  have m: "map_subscript lt (lru_map c) k ?it = map_subscript lt' (lru_map c) k ?it"
    using assms by (intro map_cong(7) agree_subset [OF assms]) (auto simp: lru_keys_def)
  let ?c = "c\<lparr>storage := (?it, k, e) # storage c, lru_map := map_subscript lt' (lru_map c) k ?it,
    current_size := current_size c + 1, statistics := got_insertion (statistics c)\<rparr>"
  have "lru_keys ?c \<subseteq> insert k (lru_keys c)"
    using map_subscript_keys [of lt' "lru_map c" k ?it] by (auto simp: lru_keys_def lru_entries_def)
  then have "lru_evict lt ?c = lru_evict lt' ?c" by (intro lru_evict_cong agree_subset [OF assms])
  then show ?thesis by (simp add: lru_insert_nonexist_def m Let_def)
qed

lemma lru_update_if_cong:
  assumes "agree lt lt' (insert k (lru_keys c))"
  shows "lru_update_if lt k e f c = lru_update_if lt' k e f c"
proof -
  have f: "map_find lt (lru_map c) k = map_find lt' (lru_map c) k"
    by (intro map_cong(3) agree_subset [OF assms]) (auto simp: lru_keys_def)
  have "lru_keys (c\<lparr>statistics := st\<rparr>) = lru_keys c" for st by (simp add: lru_keys_def)
  then have i: "lru_insert_nonexist lt k e (c\<lparr>statistics := st\<rparr>) = lru_insert_nonexist lt' k e (c\<lparr>statistics := st\<rparr>)" for st
    using assms by (intro lru_insert_nonexist_cong) simp
  show ?thesis unfolding lru_update_if_def f i by (rule refl)
qed

lemma lru_new_fields [simp]:
  "lru_map (lru_new n) = []" "storage (lru_new n) = []" "max_size (lru_new n) = n" "current_size (lru_new n) = 0"
  "statistics (lru_new n) = no_cache_statistics"
  by (simp_all add: lru_new_def)

section \<open>Properties\<close>

lemma lru_abs_new: "lru_abs (lru_new n) = \<lparr>limit = unat n, lost = 0, recent = []\<rparr>"
  by (simp add: lru_abs_def lru_new_def lru_lost_def lru_entries_def)



text \<open>
  The differences to the documentation on concrete calls: a cache with capacity zero, documented to have no limit, holds
  nothing, and \<open>update_if\<close> stops when the callback returns true.
\<close>

lemma zero_capacity_keeps_nothing:
  "\<exists>c. run_ops (lru_step (<)) [op_insert (1 :: nat) (10 :: nat), op_get_entry 1] (lru_new 0) = Some (c, [flag True, found None])"
  by (simp add: lru_insert_def lru_insert_nonexist_def lru_new_def lru_evict_def lru_get_entry_def map_subscript_def std_map_defs new_node_def)

lemma update_if_stops_on_true:
  "\<exists>c. run_ops (lru_step (<)) [op_insert (1 :: nat) (10 :: nat), op_update_if 1 11 (\<lambda>a b. True)] (lru_new 4) =
     Some (c, [flag True, flag False]) \<and> lru_entries c = [(1, 10)]"
  by (simp add: lru_insert_def lru_insert_nonexist_def lru_new_def lru_update_if_def map_subscript_def std_map_defs new_node_def lru_entries_def)

lemma spec_step_lost:
  assumes "lost s = 0" "\<forall>ep. op \<noteq> op_erase_if ep"
  shows "spec_step op s \<noteq> None" "spec_step op s = Some (s1, r) \<Longrightarrow> lost s1 = 0"
  using assms by (cases op; auto simp: spec_add_def spec_cut_def split: option.splits if_splits)+

lemma keeps_all:
  assumes "run_ops spec_step ops s = Some (s', rs)" "lost s = 0" "\<forall>op \<in> set ops. \<forall>ep. op \<noteq> op_erase_if ep"
  shows "lost s' = 0"
  using assms
proof (induction ops arbitrary: s rs)
  case (Cons op ops)
  then obtain s1 r rs' where s1: "spec_step op s = Some (s1, r)" "run_ops spec_step ops s1 = Some (s', rs')"
    by (auto split: option.splits)
  have "lost s1 = 0"
    using s1(1) Cons.prems spec_step_lost(2) [of s op] by simp
  then show ?case using Cons.IH [OF s1(2)] Cons.prems by simp
qed simp

lemma spec_defined:
  assumes "lost s = 0" "\<forall>op \<in> set ops. \<forall>ep. op \<noteq> op_erase_if ep"
  shows "\<exists>s' rs. run_ops spec_step ops s = Some (s', rs)"
  using assms
proof (induction ops arbitrary: s)
  case (Cons op ops)
  obtain s1 r where s1: "spec_step op s = Some (s1, r)" "lost s1 = 0"
    using Cons.prems spec_step_lost [of s op] by (auto simp: not_None_eq)
  then show ?case using Cons.IH [OF s1(2)] Cons.prems by auto
qed simp

lemma run_ok:
  fixes c :: "('k :: linorder, 'e) lru_cache"
  assumes "lru_ok (<) c" "\<forall>op \<in> set ops. op_ok op" "max_size c \<noteq> 0" "run_ops (lru_step (<)) ops c = Some (c', rs)"
  shows "lru_ok (<) c'"
  using assms
proof (induction ops arbitrary: c rs)
  case (Cons op ops)
  then obtain c1 r rs' where c1: "lru_step (<) op c = Some (c1, r)" "run_ops (lru_step (<)) ops c1 = Some (c', rs')"
    by (auto split: option.splits)
  moreover have s: "lru_ok (<) c1" "spec_step (documented op) (lru_abs c) = Some (lru_abs c1, r)"
    using step_refines [of c op] Cons.prems c1(1) by (auto simp: refines_step_def)
  moreover have "max_size c1 \<noteq> 0"
    using spec_limit [OF s(2)] Cons.prems(2,3) documented_ok [of op] by (simp add: lru_abs_def unat_eq_0)
  ultimately show ?case using Cons.IH Cons.prems by simp
qed simp

text \<open>As long as entries are not erased with a predicate, no sequence of operations runs into
  undefined behaviour: the size of the cache is the number of its entries, at most its capacity, and
  no key is held twice.
\<close>

lemma lru_cache_bounded:
  fixes ops :: "('k :: linorder, 'e) lru_op list"
  assumes "n \<noteq> - 1" "n \<noteq> 0" "\<forall>op \<in> set ops. op_ok op" "\<forall>op \<in> set ops. \<forall>ep. op \<noteq> op_erase_if ep"
  shows "\<exists>c rs. run_ops (lru_step (<)) ops (lru_new n) = Some (c, rs) \<and>
    length (lru_entries c) = unat (lru_size c) \<and> lru_size c \<le> lru_capacity c \<and> distinct (map fst (lru_entries c))"
proof -
  let ?s = "\<lparr>limit = unat n, lost = 0, recent = []\<rparr> :: ('k, 'e) lru_spec"
  have ne: "\<forall>op \<in> set (map documented ops). \<forall>ep. op \<noteq> op_erase_if ep"
    using assms(4) by (auto elim!: documented.elims)
  obtain s rs where s: "run_ops spec_step (map documented ops) ?s = Some (s, rs)" using spec_defined [of ?s "map documented ops"] ne by auto
  then obtain c where c: "run_ops (lru_step (<)) ops (lru_new n) = Some (c, rs)" "lru_abs c = s"
    using run_refines [OF total.new_ok [OF assms(1)] assms(3)] assms(2) by (auto simp: lru_abs_new)
  have ok: "lru_ok (<) c" using run_ok [OF total.new_ok [OF assms(1)] assms(3) _ c(1)] assms(2) by simp
  have "lru_lost c = 0" using keeps_all [OF s _ ne] c(2) by (auto simp: lru_abs_def)
  then show ?thesis
    using c(1) ok total.linked_distinct_keys [of c]
    by (auto simp: lru_ok_def lru_lost_def lru_size_def lru_capacity_def)
qed

text \<open>
  Erasing an entry with a predicate costs the cache that place for good: a cache for one entry holds
  nothing any more afterwards, and making it smaller evicts from an empty list.
\<close>

lemma lru_erase_shrinks:
  "\<exists>c. run_ops (lru_step (<)) [op_insert (1 :: nat) (10 :: nat), op_erase_if (\<lambda>p. True), op_insert 2 20, op_get_entry 2]
      (lru_new 1) = Some (c, [flag True, erased 1, flag True, found None]) \<and> lru_entries c = [] \<and> lru_size c = 1"
  "run_ops (lru_step (<)) [op_insert (1 :: nat) (10 :: nat), op_erase_if (\<lambda>p. True), op_reserve 0] (lru_new 1) = None"
  by (simp_all add: lru_insert_def lru_insert_nonexist_def lru_new_def lru_erase_if_def lru_evict_def lru_get_entry_def
      lru_reserve_def lru_evict_while.simps map_subscript_def std_map_defs new_node_def lru_entries_def lru_size_def)

end
