(* ===== verification/Address_Cache.thy ===== *)
theory Address_Cache
  imports Refcnt_Requests Symbol_Routing Lru_Cache
begin

text \<open>
  Address resolution on the client side of AGAS: the part of \<open>addressing_service\<close>
  (\<^verbatim>\<open>src/runtime/agas/addressing_service.cpp\<close>, \<^verbatim>\<open>hpx/runtime/agas/addressing_service.hpp\<close>) that
  resolves ids from local knowledge, from its cache of ranges and from the primary namespace that
  manages them, and that keeps the cache and the set of migrated objects.

  Keys of the cache are closed intervals of ids of the library Boost.ICL, which is a parameter
  \<open>icl\<close>: its comparison \<open>exclusive_less\<close> and \<open>length\<close>. An interval is the pair of its bounds, and
  \<open>icl_ok\<close> is what the library documents for intervals that are not empty.

  As in the theory of reference counting the calls are made from HPX threads. A step returns the new
  state and a result; it is \<open>None\<close> where the cache runs into undefined behaviour. The argument
  \<open>throwing\<close> tells whether the caller passed \<open>hpx::throws\<close> as error code.
\<close>

section \<open>Keys of the cache\<close>

type_synonym gva_cache_key = "gid_type \<times> gid_type"

record icl =
  exclusive_less :: "gva_cache_key \<Rightarrow> gva_cache_key \<Rightarrow> bool"
  icl_length :: "gva_cache_key \<Rightarrow> gid_type"

definition mk_cache_key :: "gid_type \<Rightarrow> u64 \<Rightarrow> gva_cache_key result" where
  "mk_cache_key idn n =
     hpx_assert (n \<noteq> 0) (Inr (get_stripped_gid idn, gid_add_u64 (get_stripped_gid idn) (n - 1)))"

definition key_get_gid :: "gva_cache_key \<Rightarrow> gid_type" where
  "key_get_gid key = gid_copy (fst key)"

definition key_get_count :: "icl \<Rightarrow> gva_cache_key \<Rightarrow> u64 result" where
  "key_get_count icl key =
     (let size = icl_length icl key in hpx_assert (id_msb size = 0) (Inr (id_lsb size)))"

definition check_for_collisions :: "icl \<Rightarrow> gva_cache_key \<Rightarrow> gva_cache_key \<Rightarrow> bool result" where
  "check_for_collisions icl new_key old_key =
     (if \<not> gid_eq (key_get_gid new_key) (key_get_gid old_key) then Inr True
      else bind_result (key_get_count icl new_key) (\<lambda>n.
           bind_result (key_get_count icl old_key) (\<lambda>m. Inr (n \<noteq> m))))"

section \<open>State\<close>

record agas_client = addressing_service +
  range_caching :: bool
  gva_cache :: "(gva_cache_key, gva) lru_cache"
  agas_locality :: gid_type
  migrated_objects_table :: "(gid_type, unit) std_map"
  rts_lva :: u64
  mem_lva :: u64
  locality_ns_addr :: address
  component_ns_addr :: address
  primary_ns_addr :: address
  symbol_ns_addr :: address
  is_starting :: bool
  log_warnings :: bool

definition HPX_AGAS_COMPONENT_NS_MSB :: u64 where "HPX_AGAS_COMPONENT_NS_MSB = 0x0000000100000001"
definition HPX_AGAS_COMPONENT_NS_LSB :: u64 where "HPX_AGAS_COMPONENT_NS_LSB = 0x0000000000000002"
definition HPX_AGAS_LOCALITY_NS_MSB :: u64 where "HPX_AGAS_LOCALITY_NS_MSB = 0x0000000100000001"
definition HPX_AGAS_LOCALITY_NS_LSB :: u64 where "HPX_AGAS_LOCALITY_NS_LSB = 0x0000000000000004"

section \<open>Keeping the cache\<close>

text \<open>An assertion inside the callback of \<open>update_if\<close> ends the update before it changes an entry.\<close>

definition collision_asserts :: "icl \<Rightarrow> gva_cache_key \<Rightarrow> agas_client \<Rightarrow> bool result" where
  "collision_asserts icl key c =
     (case map_find (exclusive_less icl) (lru_map (gva_cache c)) key of
        None \<Rightarrow> Inr False
      | Some (old_key, _) \<Rightarrow> check_for_collisions icl key old_key)"

definition update_cache_entry ::
  "icl \<Rightarrow> gid_type \<Rightarrow> gva \<Rightarrow> agas_client \<Rightarrow> (agas_client \<times> unit result) option" where
  "update_cache_entry icl idn g c =
     (if \<not> agas_caching c then Some (c, Inr ())
      else if \<not> store_in_cache idn then Some (c, Inr ())
      else
        let gid = get_stripped_gid idn in
        if get_locality_id_from_gid gid = get_locality_id_from_gid (agas_locality c) then Some (c, Inr ())
        else
          let n = (if count g \<noteq> 0 then count g else 1) in
          case mk_cache_key gid n of
            Inl e \<Rightarrow> Some (c, Inl e)
          | Inr key \<Rightarrow>
              case collision_asserts icl key c of
                Inl e \<Rightarrow> Some (c, Inl e)
              | Inr _ \<Rightarrow>
                  case lru_update_if (exclusive_less icl) key (gva_copy g)
                         (\<lambda>new_key old_key. check_for_collisions icl new_key old_key = Inr True) (gva_cache c) of
                    None \<Rightarrow> None
                  | Some (cache, True) \<Rightarrow> Some (c\<lparr>gva_cache := cache\<rparr>, Inr ())
                  | Some (cache, False) \<Rightarrow>
                      if \<not> log_warnings c then Some (c\<lparr>gva_cache := cache\<rparr>, Inr ())
                      else
                        case lru_get_entry (exclusive_less icl) key cache of
                          None \<Rightarrow> None
                        | Some (cache, None) \<Rightarrow> Some (c\<lparr>gva_cache := cache\<rparr>, Inl invalid_data)
                        | Some (cache, Some _) \<Rightarrow> Some (c\<lparr>gva_cache := cache\<rparr>, Inr ()))"

definition get_cache_entry ::
  "icl \<Rightarrow> gid_type \<Rightarrow> agas_client \<Rightarrow> (agas_client \<times> (gva \<times> gid_type) option result) option" where
  "get_cache_entry icl gid c =
     (if is_starting c then Some (c, Inr None)
      else
        case mk_cache_key gid 1 of
          Inl e \<Rightarrow> Some (c, Inl e)
        | Inr k \<Rightarrow>
            case lru_get_entry (exclusive_less icl) k (gva_cache c) of
              None \<Rightarrow> None
            | Some (cache, None) \<Rightarrow> Some (c\<lparr>gva_cache := cache\<rparr>, Inr None)
            | Some (cache, Some (idbase_key, g)) \<Rightarrow>
                if strip_internal_bits_from_msb (id_msb gid) \<noteq> id_msb (key_get_gid idbase_key)
                then Some (c\<lparr>gva_cache := cache\<rparr>, Inl internal_server_error)
                else Some (c\<lparr>gva_cache := cache\<rparr>, Inr (Some (g, key_get_gid idbase_key))))"

definition clear_cache :: "agas_client \<Rightarrow> agas_client" where
  "clear_cache c = (if \<not> agas_caching c then c else c\<lparr>gva_cache := fst (lru_clear (gva_cache c))\<rparr>)"

definition remove_cache_entry :: "gid_type \<Rightarrow> agas_client \<Rightarrow> agas_client option" where
  "remove_cache_entry idn c =
     (if \<not> agas_caching c then Some c
      else if \<not> store_in_cache idn then Some c
      else
        let gid = get_stripped_gid idn in
        if get_locality_id_from_gid gid = get_locality_id_from_gid (agas_locality c) then Some c
        else map_option (\<lambda>(cache, _). c\<lparr>gva_cache := cache\<rparr>)
               (lru_erase_if (\<lambda>p. gid_eq gid (key_get_gid (fst p))) (gva_cache c)))"

definition adjust_local_cache_size :: "icl \<Rightarrow> u64 \<Rightarrow> agas_client \<Rightarrow> agas_client option" where
  "adjust_local_cache_size icl cache_size c =
     (if agas_caching c
      then map_option (\<lambda>cache. c\<lparr>gva_cache := cache\<rparr>) (lru_reserve (exclusive_less icl) cache_size (gva_cache c))
      else Some c)"

section \<open>Migrated objects\<close>

definition was_object_migrated_locked :: "gid_type \<Rightarrow> agas_client \<Rightarrow> bool" where
  "was_object_migrated_locked gid c \<longleftrightarrow>
     map_find gid_less (migrated_objects_table c) (get_stripped_gid gid) \<noteq> None"

text \<open>\<open>migratable\<close> is the first component of what the user supplied function returns.\<close>

definition mark_as_migrated :: "gid_type \<Rightarrow> bool \<Rightarrow> agas_client \<Rightarrow> (agas_client \<times> unit result) option" where
  "mark_as_migrated gid migratable c =
     (if \<not> gid_to_bool gid then Some (c, Inl bad_parameter)
      else if migratable
      then
        let c = c\<lparr>migrated_objects_table :=
              fst (map_insert gid_less (migrated_objects_table c) (get_stripped_gid gid) ())\<rparr>
        in map_option (\<lambda>c. (c, Inr ())) (remove_cache_entry gid c)
      else Some (c, Inr ()))"

definition unmark_as_migrated :: "gid_type \<Rightarrow> agas_client \<Rightarrow> (agas_client \<times> unit result) option" where
  "unmark_as_migrated gid c =
     (if \<not> gid_to_bool gid then Some (c, Inl bad_parameter)
      else if map_find gid_less (migrated_objects_table c) (get_stripped_gid gid) \<noteq> None
      then
        let c = c\<lparr>migrated_objects_table := map_erase gid_less (migrated_objects_table c) (get_stripped_gid gid)\<rparr>
        in if agas_caching c \<and> store_in_cache gid
           then map_option (\<lambda>c. (c, Inr ())) (remove_cache_entry gid c)
           else Some (c, Inr ())
      else Some (c, Inr ()))"

definition was_object_migrated :: "gid_type \<Rightarrow> 'p \<Rightarrow> 'p \<Rightarrow> agas_client \<Rightarrow> (bool \<times> 'p) result" where
  "was_object_migrated gid no_pin pin c =
     (if \<not> gid_to_bool gid then Inl bad_parameter
      else if was_object_migrated_locked gid c then Inr (True, no_pin) else Inr (False, pin))"

section \<open>Resolving\<close>

definition is_local_lva_encoded_address :: "u64 \<Rightarrow> agas_client \<Rightarrow> bool" where
  "is_local_lva_encoded_address msb c \<longleftrightarrow> strip_internal_bits_from_msb msb = id_msb (agas_locality c)"

text \<open>The second argument is what the caller's \<open>addr\<close> holds; members that are not assigned keep it.\<close>

definition resolve_locally_known_addresses ::
  "gid_type \<Rightarrow> address \<Rightarrow> agas_client \<Rightarrow> (address \<times> bool) result" where
  "resolve_locally_known_addresses idn addr c =
     (let lsb = id_lsb idn; msb = strip_internal_bits_from_msb (id_msb idn) in
      if is_local_lva_encoded_address msb c
      then
        let addr = addr\<lparr>addr_locality := gid_copy (agas_locality c)\<rparr> in
        hpx_assert (rts_lva c \<noteq> 0)
          (if 0 = lsb \<or> lsb = rts_lva c
           then Inr (addr\<lparr>addr_type := component_runtime_support, addr_address := rts_lva c\<rparr>, True)
           else hpx_assert (mem_lva c \<noteq> 0)
                  (Inr (addr\<lparr>addr_type := component_memory, addr_address := mem_lva c\<rparr>, True)))
      else if is_locality idn
      then Inr (addr\<lparr>addr_locality := gid_copy idn, addr_type := component_runtime_support\<rparr>, True)
      else if HPX_AGAS_LOCALITY_NS_MSB = msb \<and> HPX_AGAS_LOCALITY_NS_LSB = lsb
      then Inr (locality_ns_addr c, True)
      else if HPX_AGAS_COMPONENT_NS_MSB = msb \<and> HPX_AGAS_COMPONENT_NS_LSB = lsb
      then Inr (component_ns_addr c, True)
      else
        let dest = get_locality_from_gid idn in
        if HPX_AGAS_PRIMARY_NS_LSB = lsb \<and> \<not> gid_eq dest (agas_locality c)
        then Inr (addr\<lparr>addr_locality := dest, addr_type := component_agas_primary_namespace\<rparr>, True)
        else
          let addr = (if HPX_AGAS_PRIMARY_NS_LSB = lsb then primary_ns_addr c else addr) in
          if HPX_AGAS_SYMBOL_NS_LSB = lsb
          then if gid_eq dest (agas_locality c) then Inr (symbol_ns_addr c, True)
               else Inr (addr\<lparr>addr_locality := dest, addr_type := component_agas_symbol_namespace\<rparr>, True)
          else Inr (addr, False))"

definition agas_resolve_cached ::
  "icl \<Rightarrow> bool \<Rightarrow> gid_type \<Rightarrow> address \<Rightarrow> agas_client \<Rightarrow> (agas_client \<times> (address \<times> bool) result) option" where
  "agas_resolve_cached icl throwing gid addr c =
     (let idn = get_stripped_gid_except_dont_cache gid in
      case resolve_locally_known_addresses idn addr c of
        Inl e \<Rightarrow> Some (c, Inl e)
      | Inr (addr, True) \<Rightarrow> Some (c, Inr (addr, True))
      | Inr (addr, False) \<Rightarrow>
          if \<not> agas_caching c then Some (c, Inr (addr, False))
          else if \<not> store_in_cache idn then Some (c, Inr (addr, False))
          else if get_locality_id_from_gid idn = get_locality_id_from_gid (agas_locality c)
          then Some (c, Inr (addr, False))
          else if was_object_migrated_locked idn c then Some (c, Inr (addr, False))
          else
            case get_cache_entry icl idn c of
              None \<Rightarrow> None
            | Some (c, Inl e) \<Rightarrow> Some (c, if throwing \<or> e = assertion_failure then Inl e else Inr (addr, False))
            | Some (c, Inr None) \<Rightarrow> Some (c, Inr (addr, False))
            | Some (c, Inr (Some (g, idbase))) \<Rightarrow>
                Some (c, Inr (mk_address (prefix g) (gva_type g) (gva_lva g idn idbase), True)))"

text \<open>
  What the primary namespace answers is an argument \<open>rep\<close>: the value of \<open>resolve_gid\<close> on the local
  server, or of the future \<open>resolve_full\<close> returns.
\<close>

definition cache_resolved ::
  "icl \<Rightarrow> gid_type \<Rightarrow> gid_type \<Rightarrow> gva \<Rightarrow> gva \<Rightarrow> agas_client \<Rightarrow> (agas_client \<times> unit result) option" where
  "cache_resolved icl idn base_gid base_gva g c =
     (if range_caching c then update_cache_entry icl base_gid base_gva c else update_cache_entry icl idn g c)"

definition resolve_full_local ::
  "icl \<Rightarrow> resolved_type result \<Rightarrow> gid_type \<Rightarrow> address \<Rightarrow> agas_client \<Rightarrow>
    (agas_client \<times> (address \<times> bool) result) option" where
  "resolve_full_local icl rep idn addr c =
     (case rep of
        Inl e \<Rightarrow> Some (c, Inl e)
      | Inr (base_gid, base_gva, loc) \<Rightarrow>
          if gid_eq base_gid invalid_gid \<or> gid_eq loc invalid_gid then Some (c, Inr (addr, False))
          else
            let g = gva_resolve base_gva idn base_gid;
                addr = mk_address (prefix g) (gva_type g) (gva_base g)
            in if store_in_cache idn
               then if addr_address addr = 0 then Some (c, Inl assertion_failure)
                    else map_option (map_prod (\<lambda>c. c) (map_sum (\<lambda>e. e) (\<lambda>_. (addr, True))))
                           (cache_resolved icl idn base_gid base_gva g c)
               else Some (c, Inr (addr, True)))"

definition resolve_local ::
  "icl \<Rightarrow> bool \<Rightarrow> resolved_type result \<Rightarrow> gid_type \<Rightarrow> address \<Rightarrow> agas_client \<Rightarrow>
    (agas_client \<times> (address \<times> bool) result) option" where
  "resolve_local icl throwing rep idn addr c =
     (if agas_caching c
      then
        case agas_resolve_cached icl throwing idn addr c of
          None \<Rightarrow> None
        | Some (c, Inl e) \<Rightarrow> Some (c, Inl e)
        | Some (c, Inr (addr, True)) \<Rightarrow> Some (c, Inr (addr, True))
        | Some (c, Inr (addr, False)) \<Rightarrow> resolve_full_local icl rep idn addr c
      else resolve_full_local icl rep idn addr c)"

definition resolve_full_postproc ::
  "icl \<Rightarrow> resolved_type result \<Rightarrow> gid_type \<Rightarrow> agas_client \<Rightarrow> (agas_client \<times> address result) option" where
  "resolve_full_postproc icl rep idn c =
     (case rep of
        Inl e \<Rightarrow> Some (c, Inl e)
      | Inr (base_gid, base_gva, loc) \<Rightarrow>
          if gid_eq base_gid invalid_gid \<or> gid_eq loc invalid_gid then Some (c, Inl bad_parameter)
          else
            let g = gva_resolve base_gva idn base_gid;
                addr = mk_address (prefix g) (gva_type g) (gva_base g)
            in if store_in_cache idn
               then map_option (map_prod (\<lambda>c. c) (map_sum (\<lambda>e. e) (\<lambda>_. addr)))
                      (cache_resolved icl idn base_gid base_gva g c)
               else Some (c, Inr addr))"

definition resolve_full_async ::
  "icl \<Rightarrow> resolved_type result \<Rightarrow> gid_type \<Rightarrow> agas_client \<Rightarrow> (agas_client \<times> address result) option" where
  "resolve_full_async icl rep gid c =
     (if \<not> gid_to_bool gid then Some (c, Inl bad_parameter) else resolve_full_postproc icl rep gid c)"

definition resolve_async ::
  "icl \<Rightarrow> resolved_type result \<Rightarrow> gid_type \<Rightarrow> agas_client \<Rightarrow> (agas_client \<times> address result) option" where
  "resolve_async icl rep gid c =
     (if \<not> gid_to_bool gid then Some (c, Inl bad_parameter)
      else if agas_caching c
      then
        case agas_resolve_cached icl False gid address_default c of
          None \<Rightarrow> None
        | Some (c, Inl e) \<Rightarrow> Some (c, Inl e)
        | Some (c, Inr (addr, True)) \<Rightarrow> Some (c, Inr addr)
        | Some (c, Inr (addr, False)) \<Rightarrow> resolve_full_async icl rep gid c
      else resolve_full_async icl rep gid c)"

definition is_local_address_cached ::
  "icl \<Rightarrow> bool \<Rightarrow> resolved_type result \<Rightarrow> gid_type \<Rightarrow> address \<Rightarrow> agas_client \<Rightarrow>
    (agas_client \<times> (address \<times> bool) result) option" where
  "is_local_address_cached icl throwing rep gid addr c =
     (let idn = get_stripped_gid_except_dont_cache gid;
          here = (\<lambda>addr. gid_eq (addr_locality addr) (agas_locality c))
      in if was_object_migrated_locked idn c then Some (c, Inr (addr, False))
         else
           case agas_resolve_cached icl throwing idn addr c of
             None \<Rightarrow> None
           | Some (c, Inl e) \<Rightarrow> Some (c, Inl e)
           | Some (c, Inr (addr, True)) \<Rightarrow> Some (c, Inr (addr, here addr))
           | Some (c, Inr (addr, False)) \<Rightarrow>
               map_option (map_prod (\<lambda>c. c) (map_sum (\<lambda>e. e) (\<lambda>(addr, b). (addr, b \<and> here addr))))
                 (resolve_full_local icl rep idn addr c))"

section \<open>Binding\<close>

definition cache_bound ::
  "icl \<Rightarrow> gid_type \<Rightarrow> gva \<Rightarrow> agas_client \<Rightarrow> (agas_client \<times> unit result) option" where
  "cache_bound icl lower_id g c =
     (if range_caching c then update_cache_entry icl lower_id g c
      else update_cache_entry icl lower_id (gva_resolve g lower_id lower_id) c)"

definition bind_postproc ::
  "icl \<Rightarrow> bool result \<Rightarrow> gid_type \<Rightarrow> gva \<Rightarrow> agas_client \<Rightarrow> (agas_client \<times> bool result) option" where
  "bind_postproc icl f lower_id g c =
     (case f of
        Inl e \<Rightarrow> Some (c, Inl e)
      | Inr _ \<Rightarrow> map_option (map_prod (\<lambda>c. c) (map_sum (\<lambda>e. e) (\<lambda>_. True))) (cache_bound icl lower_id g c))"

definition bind_range_local ::
  "icl \<Rightarrow> gid_type \<Rightarrow> u64 \<Rightarrow> address \<Rightarrow> u64 \<Rightarrow> primary_namespace \<Rightarrow> agas_client \<Rightarrow>
    (primary_namespace \<times> agas_client \<times> bool result) option" where
  "bind_range_local icl lower_id n baseaddr off s c =
     (let g = mk_gva (addr_locality baseaddr) (addr_type baseaddr) n (addr_address baseaddr) off;
          (s, r) = bind_gid g lower_id (get_locality_from_gid lower_id) s
      in case r of
           Inl e \<Rightarrow> Some (s, c, Inl e)
         | Inr _ \<Rightarrow>
             map_option (\<lambda>(c, r). (s, c, map_sum (\<lambda>e. e) (\<lambda>_. True) r)) (cache_bound icl lower_id g c))"

text \<open>The server is the instance that manages \<open>lower_id\<close>; its step and the continuation that fills
  the cache follow each other.\<close>

definition bind_range_async ::
  "icl \<Rightarrow> gid_type \<Rightarrow> u64 \<Rightarrow> address \<Rightarrow> u64 \<Rightarrow> gid_type \<Rightarrow> primary_namespace \<Rightarrow> agas_client \<Rightarrow>
    (primary_namespace \<times> agas_client \<times> bool result) option" where
  "bind_range_async icl lower_id n baseaddr off loc s c =
     (let g = mk_gva (addr_locality baseaddr) (addr_type baseaddr) n (addr_address baseaddr) off;
          idn = get_stripped_gid_except_dont_cache lower_id;
          (s, f) = bind_gid g idn loc s
      in map_option (\<lambda>(c, r). (s, c, r)) (bind_postproc icl f idn g c))"

text \<open>Unbinding is left to the server; the cache keeps what it has.\<close>

definition unbind_range_async :: "gid_type \<Rightarrow> u64 \<Rightarrow> primary_namespace \<Rightarrow> primary_namespace \<times> address result" where
  "unbind_range_async lower_id cnt s = unbind_gid cnt lower_id s"

definition unbind_range_local ::
  "gid_type \<Rightarrow> u64 \<Rightarrow> address \<Rightarrow> primary_namespace \<Rightarrow> primary_namespace \<times> address \<times> bool result" where
  "unbind_range_local lower_id cnt addr s =
     (case unbind_gid cnt lower_id s of
        (s, Inr addr) \<Rightarrow> (s, addr, Inr True)
      | (s, Inl e) \<Rightarrow> (s, addr, Inl e))"

section \<open>Many ids at once\<close>

text \<open>The loop of the bulk \<open>resolve_full_local\<close>; \<open>reps\<close> are the answers of the local primary namespace.\<close>

fun resolve_full_local_loop ::
  "icl \<Rightarrow> (gid_type \<Rightarrow> resolved_type result) \<Rightarrow> gid_type list \<Rightarrow> address list \<Rightarrow> bool list \<Rightarrow> agas_client \<Rightarrow>
    (agas_client \<times> (address list \<times> bool list \<times> bool) result) option" where
  "resolve_full_local_loop icl rep (gid # ids) (addr # addrs) (local # locals) c =
     (let continue = (\<lambda>c addr' local'.
        map_option (map_prod (\<lambda>c. c) (map_sum (\<lambda>e. e) (\<lambda>(as, ls, b). (addr' # as, local' # ls, b))))
          (resolve_full_local_loop icl rep ids addrs locals c))
      in if address_to_bool addr then continue c addr True
         else if local then Some (c, Inl assertion_failure)
         else
           case rep gid of
             Inl e \<Rightarrow> Some (c, Inl e)
           | Inr (base_gid, base_gva, loc) \<Rightarrow>
               if gid_eq base_gid invalid_gid \<or> gid_eq loc invalid_gid
               then Some (c, Inr (addr # addrs, local # locals, False))
               else
                 let g = gva_resolve base_gva gid base_gid;
                     addr' = mk_address (prefix g) (gva_type g) (gva_base g)
                 in if store_in_cache gid
                    then
                      case cache_resolved icl gid base_gid base_gva g c of
                        None \<Rightarrow> None
                      | Some (c, Inl e) \<Rightarrow>
                          Some (c, if e = assertion_failure then Inl e else Inr (addr' # addrs, local # locals, False))
                      | Some (c, Inr _) \<Rightarrow> continue c addr' local
                    else continue c addr' local)"
| "resolve_full_local_loop icl rep _ addrs locals c = Some (c, Inr (addrs, locals, True))"

definition resize_locals :: "nat \<Rightarrow> bool list \<Rightarrow> bool list" where
  "resize_locals n ls = take n ls @ replicate (n - length ls) False"

definition resolve_full_local_bulk ::
  "icl \<Rightarrow> (gid_type \<Rightarrow> resolved_type result) \<Rightarrow> gid_type list \<Rightarrow> address list \<Rightarrow> bool list \<Rightarrow> agas_client \<Rightarrow>
    (agas_client \<times> (address list \<times> bool list \<times> bool) result) option" where
  "resolve_full_local_bulk icl rep ids addrs locals c =
     resolve_full_local_loop icl rep ids addrs (resize_locals (length ids) locals) c"

fun resolve_cached_loop ::
  "icl \<Rightarrow> bool \<Rightarrow> gid_type list \<Rightarrow> address list \<Rightarrow> bool list \<Rightarrow> nat \<Rightarrow> agas_client \<Rightarrow>
    (agas_client \<times> (address list \<times> bool list \<times> nat) result) option" where
  "resolve_cached_loop icl throwing (gid # ids) (addr # addrs) (local # locals) resolved c =
     (let here = (\<lambda>addr. gid_eq (addr_locality addr) (agas_locality c));
          continue = (\<lambda>c addr' local' resolved.
            map_option (map_prod (\<lambda>c. c) (map_sum (\<lambda>e. e) (\<lambda>(as, ls, n). (addr' # as, local' # ls, n))))
              (resolve_cached_loop icl throwing ids addrs locals resolved c))
      in if \<not> address_to_bool addr \<and> \<not> local
         then
           case agas_resolve_cached icl throwing gid addr c of
             None \<Rightarrow> None
           | Some (c, Inl e) \<Rightarrow> Some (c, Inl e)
           | Some (c, Inr (addr', was_resolved)) \<Rightarrow>
               continue c addr' (here addr' \<or> local) (if was_resolved then resolved + 1 else resolved)
         else if here addr then continue c addr True (resolved + 1)
         else continue c addr local resolved)"
| "resolve_cached_loop icl throwing _ addrs locals resolved c = Some (c, Inr (addrs, locals, resolved))"

definition resolve_cached_bulk ::
  "icl \<Rightarrow> bool \<Rightarrow> gid_type list \<Rightarrow> address list \<Rightarrow> bool list \<Rightarrow> agas_client \<Rightarrow>
    (agas_client \<times> (address list \<times> bool list \<times> bool) result) option" where
  "resolve_cached_bulk icl throwing ids addrs locals c =
     map_option (map_prod (\<lambda>c. c) (map_sum (\<lambda>e. e) (\<lambda>(as, ls, n). (as, ls, n = length ids))))
       (resolve_cached_loop icl throwing ids addrs (resize_locals (length ids) locals) 0 c)"

definition resolve_local_bulk ::
  "icl \<Rightarrow> bool \<Rightarrow> (gid_type \<Rightarrow> resolved_type result) \<Rightarrow> gid_type list \<Rightarrow> address list \<Rightarrow> bool list \<Rightarrow> agas_client \<Rightarrow>
    (agas_client \<times> (address list \<times> bool list \<times> bool) result) option" where
  "resolve_local_bulk icl throwing rep ids addrs locals c =
     (if agas_caching c
      then
        case resolve_cached_bulk icl throwing ids addrs locals c of
          None \<Rightarrow> None
        | Some (c, Inl e) \<Rightarrow> Some (c, Inl e)
        | Some (c, Inr (addrs, locals, True)) \<Rightarrow> Some (c, Inr (addrs, locals, True))
        | Some (c, Inr (addrs, locals, False)) \<Rightarrow> resolve_full_local_bulk icl rep ids addrs locals c
      else resolve_full_local_bulk icl rep ids addrs locals c)"

section \<open>Statistics of the cache\<close>

definition with_cache_statistics ::
  "(cache_statistics \<Rightarrow> 'r \<times> cache_statistics) \<Rightarrow> agas_client \<Rightarrow> 'r \<times> agas_client" where
  "with_cache_statistics f c =
     (let (r, st) = f (statistics (gva_cache c)) in (r, c\<lparr>gva_cache := (gva_cache c)\<lparr>statistics := st\<rparr>\<rparr>))"

definition get_cache_entries :: "bool \<Rightarrow> agas_client \<Rightarrow> u64" where
  "get_cache_entries reset c = lru_size (gva_cache c)"

definition get_cache_hits :: "bool \<Rightarrow> agas_client \<Rightarrow> u64 \<times> agas_client" where
  "get_cache_hits reset = with_cache_statistics (get_hits reset)"

definition get_cache_misses :: "bool \<Rightarrow> agas_client \<Rightarrow> u64 \<times> agas_client" where
  "get_cache_misses reset = with_cache_statistics (get_misses reset)"

definition get_cache_evictions :: "bool \<Rightarrow> agas_client \<Rightarrow> u64 \<times> agas_client" where
  "get_cache_evictions reset = with_cache_statistics (get_evictions reset)"

definition get_cache_insertions :: "bool \<Rightarrow> agas_client \<Rightarrow> u64 \<times> agas_client" where
  "get_cache_insertions reset = with_cache_statistics (get_insertions reset)"

definition get_cache_entry_count :: "cache_method \<Rightarrow> bool \<Rightarrow> agas_client \<Rightarrow> i64 \<times> agas_client" where
  "get_cache_entry_count m reset = with_cache_statistics (get_entry_count m reset)"

end
