(* ===== verification/Cache_Coherence.thy ===== *)
theory Cache_Coherence
  imports Address_Cache
begin

text \<open>
  The address cache of a client agrees with the address tables of the primary namespaces, as they are or
  as they were. A cached range lies inside a range that is or was bound and gives the same addresses; every
  operation of the client and every binding and unbinding anywhere keeps this. So resolving through the cache
  gives an answer of the home of the gid, the present one as long as the gid has only ever been bound to one address. Ranges of gids are only partially ordered (overlapping ranges are incomparable),
  so the lemmas of the cache are used through an interpretation of \<open>strict_order\<close>.
\<close>

section \<open>Ranges of gids\<close>

definition range_nonempty :: "gva_cache_key \<Rightarrow> bool" where
  "range_nonempty key \<longleftrightarrow> \<not> gid_less (snd key) (fst key)"

text \<open>What Boost.ICL documents: an interval comes before another when its last element is before
  the first of the other; the length of an interval is the distance of its bounds (for an integral
  domain, one more).\<close>

definition icl_ok :: "icl \<Rightarrow> bool" where
  "icl_ok icl \<longleftrightarrow>
     (\<forall>a b. range_nonempty a \<and> range_nonempty b \<longrightarrow> exclusive_less icl a b = gid_less (snd a) (fst b)) \<and>
     ((\<forall>a. range_nonempty a \<longrightarrow> icl_length icl a = gid_sub (snd a) (fst a)) \<or>
      (\<forall>a. range_nonempty a \<longrightarrow> icl_length icl a = gid_add_u64 (gid_sub (snd a) (fst a)) 1))"

definition range_less :: "gva_cache_key \<Rightarrow> gva_cache_key \<Rightarrow> bool" where
  "range_less a b \<longleftrightarrow> range_nonempty a \<and> range_nonempty b \<and> gid_less (snd a) (fst b)"

interpretation ranges: strict_order range_less
proof
  show "\<not> range_less x x" for x by (auto simp: range_less_def range_nonempty_def)
  show "range_less x z" if "range_less x y" "range_less y z" for x y z
    using that by (auto simp: range_less_def range_nonempty_def gid_less_stripped)
qed

text \<open>The keys the cache holds: ranges within the gids of one upper word.\<close>

definition key_ok :: "gva_cache_key \<Rightarrow> bool" where
  "key_ok key \<longleftrightarrow> stripped (fst key) = fst key \<and> id_msb (snd key) = id_msb (fst key) \<and>
     unat (id_lsb (fst key)) \<le> unat (id_lsb (snd key)) \<and>
     unat (id_lsb (snd key)) < unat (id_lsb (fst key)) + (2 ^ 64 - 1)"

definition in_key :: "gva_cache_key \<Rightarrow> gid_type \<Rightarrow> bool" where
  "in_key key i \<longleftrightarrow> id_msb (stripped i) = id_msb (fst key) \<and>
     unat (id_lsb (fst key)) \<le> unat (id_lsb i) \<and> unat (id_lsb i) \<le> unat (id_lsb (snd key))"

lemma stripped_msb_eq: "id_msb g = id_msb h \<Longrightarrow> id_msb (stripped g) = id_msb (stripped h)"
  by (simp add: msb_stripped)

lemma key_ok_msb: "key_ok key \<Longrightarrow> id_msb (stripped (snd key)) = id_msb (fst key) \<and> id_msb (stripped (fst key)) = id_msb (fst key)"
  unfolding key_ok_def using stripped_msb_eq [of "snd key" "fst key"] by metis

lemma key_ok_nonempty: "key_ok key \<Longrightarrow> range_nonempty key"
  using key_ok_msb [of key] by (auto simp: range_nonempty_def gid_less_stripped key_ok_def)

lemma get_stripped_gid_eq: "get_stripped_gid g = stripped g"
  by (rule gid_eqI) (auto simp: get_stripped_gid_def mask_bits)

lemma mk_cache_key_ok:
  assumes "n \<noteq> 0" "unat (id_lsb g) + unat n < 2 ^ 64 + 1"
  obtains key where "mk_cache_key g n = Inr key" "key_ok key" "fst key = stripped g"
    "unat (id_lsb (snd key)) = unat (id_lsb g) + (unat n - 1)"
proof -
  have n: "unat (n - 1) = unat n - 1" "0 < unat n" using assms(1) by (simp_all add: unat_minus_one unat_gt_0)
  have lsb: "id_lsb (stripped g) = id_lsb g" by simp
  have a: "gid_add_u64 (stripped g) (n - 1) = mk_gid (id_msb (stripped g)) (id_lsb g + (n - 1))"
    using assms(2) n by (subst gid_add_u64_no_carry) auto
  have m: "id_msb (mk_gid (id_msb (stripped g)) l) = id_msb (stripped g)" for l
    by (rule bit_word_eqI) (auto simp: mask_bits)
  have l: "unat (id_lsb g + (n - 1)) = unat (id_lsb g) + (unat n - 1)"
    using assms(2) n by (simp add: unat_word_ariths)
  have "unat n < 2 ^ 64" using unsigned_less [of n] by simp
  then have "unat n - 1 < 2 ^ 64 - 1" using n(2) by linarith
  then show ?thesis
    by (intro that [of "(stripped g, gid_add_u64 (stripped g) (n - 1))"])
      (use assms(1) a m l in \<open>simp_all add: mk_cache_key_def get_stripped_gid_eq key_ok_def mk_gid_def\<close>)
qed

lemma key_length:
  assumes "key_ok key"
  shows "gid_sub (snd key) (fst key) = mk_gid 0 (id_lsb (snd key) - id_lsb (fst key))"
    "gid_add_u64 (mk_gid 0 (id_lsb (snd key) - id_lsb (fst key))) 1 = mk_gid 0 (id_lsb (snd key) - id_lsb (fst key) + 1)"
proof -
  have le: "id_lsb (fst key) \<le> id_lsb (snd key)" and w: "unat (id_lsb (snd key)) - unat (id_lsb (fst key)) < 2 ^ 64 - 1"
    using assms by (auto simp: key_ok_def word_le_nat_alt)
  have "id_lsb (snd key) - id_lsb (fst key) \<le> id_lsb (snd key)" using le by (simp add: word_le_nat_alt unat_sub)
  then show "gid_sub (snd key) (fst key) = mk_gid 0 (id_lsb (snd key) - id_lsb (fst key))"
    using assms by (simp add: gid_sub_def key_ok_def Let_def leD)
  show "gid_add_u64 (mk_gid 0 (id_lsb (snd key) - id_lsb (fst key))) 1 = mk_gid 0 (id_lsb (snd key) - id_lsb (fst key) + 1)"
    using w le by (subst gid_add_u64_no_carry) (simp_all add: mk_gid_def strip_lock_from_msb_def unat_sub)
qed

lemma key_eqI:
  assumes "key_ok a" "key_ok b" "fst a = fst b" "id_lsb (snd a) = id_lsb (snd b)"
  shows "a = b"
proof -
  have "snd a = snd b" using assms by (intro gid_type.equality) (auto simp: key_ok_def)
  with assms(3) show ?thesis by (simp add: prod_eq_iff)
qed

lemma key_base_eq:
  assumes "key_ok a" "stripped g = g"
  shows "gid_eq (fst a) g \<longleftrightarrow> fst a = g"
proof
  assume "gid_eq (fst a) g"
  then have "id_msb (fst a) = id_msb g" "id_lsb (fst a) = id_lsb g"
    using assms by (auto simp: gid_eq_stripped_iff key_ok_def)
  then show "fst a = g" by (intro gid_type.equality) simp_all
qed simp

lemma check_for_collisions_ok:
  assumes "icl_ok icl" "key_ok a" "key_ok b"
  shows "check_for_collisions icl a b = Inr (a \<noteq> b)"
proof -
  have copy: "gid_eq (key_get_gid a) (key_get_gid b) \<longleftrightarrow> fst a = fst b"
    using key_base_eq [OF assms(2), of "fst b"] assms(3) by (simp add: key_get_gid_def key_ok_def)
      (metis gid_eq_copy gid_eq_sym)
  have ne: "range_nonempty a" "range_nonempty b" using assms key_ok_nonempty by auto
  have eq: "a = b \<longleftrightarrow> id_lsb (snd a) - id_lsb (fst a) = id_lsb (snd b) - id_lsb (fst b)" if "fst a = fst b"
    using that key_eqI [OF assms(2,3) that] by auto
  have "(\<forall>k. key_ok k \<longrightarrow> key_get_count icl k = Inr (id_lsb (snd k) - id_lsb (fst k))) \<or>
      (\<forall>k. key_ok k \<longrightarrow> key_get_count icl k = Inr (id_lsb (snd k) - id_lsb (fst k) + 1))"
    using assms(1) key_length key_ok_nonempty
    by (simp add: icl_ok_def key_get_count_def Let_def) (auto simp: mk_gid_def strip_lock_from_msb_def)
  then obtain d where d: "key_get_count icl a = Inr (id_lsb (snd a) - id_lsb (fst a) + d)"
    "key_get_count icl b = Inr (id_lsb (snd b) - id_lsb (fst b) + d)"
    using assms(2,3) by (metis add.right_neutral)
  show ?thesis unfolding check_for_collisions_def d using copy eq by auto
qed

section \<open>The cache agrees with the address tables\<close>

text \<open>The tables of all primary namespaces, by the number of their locality.\<close>

type_synonym tables = "u32 \<Rightarrow> gva_table"

definition home :: "tables \<Rightarrow> gid_type \<Rightarrow> gva_table" where
  "home ts i = ts (get_locality_id_from_gid i)"

text \<open>The address the home of a gid has for it.\<close>

definition home_address :: "tables \<Rightarrow> gid_type \<Rightarrow> address option" where
  "home_address ts i =
     (case resolve_spec (home ts i) i of
        (k, g, loc) \<Rightarrow>
          if gid_eq k invalid_gid \<or> gid_eq loc invalid_gid then None
          else Some (mk_address (prefix g) (gva_type g) (gva_lva g i k)))"

text \<open>A cached range lies inside a bound one and gives the same addresses.\<close>

definition cached_ok :: "tables \<Rightarrow> gva_cache_key \<times> gva \<Rightarrow> bool" where
  "cached_ok ts p \<longleftrightarrow> key_ok (fst p) \<and>
     (\<exists>(k, g, loc) \<in> set (home ts (fst (fst p))). \<not> gid_eq k invalid_gid \<and> \<not> gid_eq loc invalid_gid \<and>
       gid_copy (prefix (snd p)) = gid_copy (prefix g) \<and> gva_type (snd p) = gva_type g \<and>
       (\<forall>i. in_key (fst p) i \<longrightarrow> in_range (k, g, loc) i \<and> gva_lva (snd p) i (fst (fst p)) = gva_lva g i k))"

definition cache_keys_ok :: "agas_client \<Rightarrow> bool" where
  "cache_keys_ok c \<longleftrightarrow> lru_ok range_less (gva_cache c) \<and> (\<forall>p \<in> set (lru_entries (gva_cache c)). key_ok (fst p))"

text \<open>An entry of the cache agrees with one of the given states of the tables.\<close>

definition known_ok :: "tables set \<Rightarrow> gva_cache_key \<times> gva \<Rightarrow> bool" where
  "known_ok H p \<longleftrightarrow> (\<exists>ts \<in> H. cached_ok ts p)"

lemma known_key: "known_ok H p \<Longrightarrow> key_ok (fst p)"
  by (auto simp: known_ok_def cached_ok_def)

lemma known_okI: "cached_ok ts p \<Longrightarrow> ts \<in> H \<Longrightarrow> known_ok H p"
  by (auto simp: known_ok_def)

definition coherent :: "tables set \<Rightarrow> agas_client \<Rightarrow> bool" where
  "coherent H c \<longleftrightarrow> lru_ok range_less (gva_cache c) \<and> (\<forall>p \<in> set (lru_entries (gva_cache c)). known_ok H p)"

lemma coherent_keys: "coherent H c \<Longrightarrow> cache_keys_ok c"
  unfolding coherent_def cache_keys_ok_def using known_key by blast

lemma cache_keys:
  assumes "cache_keys_ok c"
  shows "\<forall>k \<in> lru_keys (gva_cache c). key_ok k"
  using assms by (auto simp: cache_keys_ok_def lru_keys_def lru_ok_def lru_linked_def lru_entries_def)

lemma icl_less:
  "icl_ok icl \<Longrightarrow> key_ok a \<Longrightarrow> key_ok b \<Longrightarrow> exclusive_less icl a b = range_less a b"
  using key_ok_nonempty [of a] key_ok_nonempty [of b] unfolding icl_ok_def range_less_def by blast

lemma icl_agrees:
  assumes "icl_ok icl" "cache_keys_ok c" "key_ok k"
  shows "agree (exclusive_less icl) range_less (insert k (lru_keys (gva_cache c)))"
  using assms(3) cache_keys [OF assms(2)] icl_less [OF assms(1)] unfolding agree_def by blast

lemma cached_overlap:
  assumes "key_ok a" "key_ok b"
  shows "equiv_keys range_less a b \<longleftrightarrow> (\<exists>i. in_key a i \<and> in_key b i)"
proof -
  have ne: "range_nonempty a" "range_nonempty b" using assms key_ok_nonempty by auto
  show ?thesis
  proof
    assume "equiv_keys range_less a b"
    then have le: "\<not> gid_less (snd a) (fst b)" "\<not> gid_less (snd b) (fst a)"
      using ne by (auto simp: equiv_keys_def range_less_def)
    let ?i = "if unat (id_lsb (fst a)) \<le> unat (id_lsb (fst b)) then fst b else fst a"
    have "in_key a ?i \<and> in_key b ?i"
      using le key_ok_msb [OF assms(1)] key_ok_msb [OF assms(2)] assms
      by (auto simp: in_key_def gid_less_stripped key_ok_def)
    then show "\<exists>i. in_key a i \<and> in_key b i" ..
  next
    assume "\<exists>i. in_key a i \<and> in_key b i"
    then show "equiv_keys range_less a b"
      using key_ok_msb [OF assms(1)] key_ok_msb [OF assms(2)]
      by (auto simp: equiv_keys_def range_less_def in_key_def gid_less_stripped)
  qed
qed

definition with_cache :: "agas_client \<Rightarrow> (gva_cache_key, gva) lru_cache \<Rightarrow> agas_client" where
  "with_cache c cache = c\<lparr>gva_cache := cache\<rparr>"

lemma with_cache_simps [simp]:
  "gva_cache (with_cache c cache) = cache" "agas_locality (with_cache c cache) = agas_locality c"
  "agas_caching (with_cache c cache) = agas_caching c" "range_caching (with_cache c cache) = range_caching c"
  "is_starting (with_cache c cache) = is_starting c" "log_warnings (with_cache c cache) = log_warnings c"
  "migrated_objects_table (with_cache c cache) = migrated_objects_table c"
  "with_cache c (gva_cache c) = c"
  by (simp_all add: with_cache_def)

lemma update_if_ok:
  assumes "icl_ok icl" "coherent H c" "known_ok H (key, g)"
    "\<And>k. key_ok k \<Longrightarrow> f key k \<longleftrightarrow> key \<noteq> k"
  shows "\<exists>cache b. lru_update_if (exclusive_less icl) key g f (gva_cache c) = Some (cache, b) \<and>
    coherent H (with_cache c cache) \<and> (\<not> b \<longrightarrow> map_find range_less (lru_map cache) key \<noteq> None)"
proof -
  have ok: "lru_ok range_less (gva_cache c)" and valid: "\<forall>p \<in> set (lru_entries (gva_cache c)). known_ok H p"
    using assms(2) by (auto simp: coherent_def)
  have k: "key_ok key" using known_key [OF assms(3)] by simp
  have eq: "lru_update_if (exclusive_less icl) key g f (gva_cache c) = lru_update_if range_less key g f (gva_cache c)"
    by (intro lru_update_if_cong icl_agrees [OF assms(1) coherent_keys [OF assms(2)] k])
  show ?thesis
  proof (cases "map_find range_less (lru_map (gva_cache c)) key")
    case None
    let ?c = "(gva_cache c)\<lparr>statistics := got_miss (statistics (gva_cache c))\<rparr>"
    obtain c1 where c1: "lru_insert_nonexist range_less key g ?c = Some c1" "lru_ok range_less c1"
      "lru_entries c1 = take (unat (max_size ?c) - lru_lost ?c) ((key, g) # lru_entries ?c)"
      using ranges.insert_nonexist_ok [of ?c key g] ok None by auto
    have "set (lru_entries c1) \<subseteq> insert (key, g) (set (lru_entries (gva_cache c)))"
      unfolding c1(3) using set_take_subset [of _ "(key, g) # lru_entries ?c"] by auto
    then show ?thesis
      unfolding eq using None c1 valid assms(3) by (auto simp: lru_update_if_def coherent_def)
  next
    case (Some x)
    obtain old it where x: "x = (old, it)" by (cases x)
    have "old \<in> lru_keys (gva_cache c)"
      using ranges.find_SomeD(1) [OF Some [unfolded x]] by (force simp: lru_keys_def)
    then have old: "key_ok old" using cache_keys [OF coherent_keys [OF assms(2)]] by blast
    show ?thesis
    proof (cases "key = old")
      case False
      then have "f key old" using assms(4) [OF old] by simp
      then show ?thesis unfolding eq using Some x ok valid by (auto simp: lru_update_if_def coherent_def)
    next
      case True
      then have "\<not> f key old" using assms(4) [OF old] by simp
      then obtain c1 where c1: "lru_update_if range_less key g f (gva_cache c) = Some (c1, True)" "lru_ok range_less c1"
        "lru_entries c1 = (old, g) # filter (\<lambda>p. fst p \<noteq> old) (lru_entries (gva_cache c))"
        using ranges.update_hit_ok(2) [OF ok Some [unfolded x], of f g] by auto
      then show ?thesis unfolding eq using valid assms(3) True by (auto simp: coherent_def)
    qed
  qed
qed

lemma get_entry_coherent:
  assumes "icl_ok icl" "coherent H c" "key_ok key"
  shows "map_find range_less (lru_map (gva_cache c)) key = None \<Longrightarrow>
      \<exists>cache. lru_get_entry (exclusive_less icl) key (gva_cache c) = Some (cache, None) \<and> coherent H (with_cache c cache)"
    and "map_find range_less (lru_map (gva_cache c)) key \<noteq> None \<Longrightarrow>
      \<exists>cache k g. lru_get_entry (exclusive_less icl) key (gva_cache c) = Some (cache, Some (k, g)) \<and>
        known_ok H (k, g) \<and> equiv_keys range_less k key \<and> coherent H (with_cache c cache)"
proof -
  have ok: "lru_ok range_less (gva_cache c)" and valid: "\<forall>p \<in> set (lru_entries (gva_cache c)). known_ok H p"
    using assms(2) by (auto simp: coherent_def)
  have eq: "lru_get_entry (exclusive_less icl) key (gva_cache c) = lru_get_entry range_less key (gva_cache c)"
    by (intro lru_get_entry_cong icl_agrees [OF assms(1) coherent_keys [OF assms(2)] assms(3)])
  show "\<exists>cache. lru_get_entry (exclusive_less icl) key (gva_cache c) = Some (cache, None) \<and> coherent H (with_cache c cache)"
    if "map_find range_less (lru_map (gva_cache c)) key = None"
    unfolding eq using ranges.get_entry_ok(1) [OF ok that] valid by (auto simp: coherent_def)
  assume "map_find range_less (lru_map (gva_cache c)) key \<noteq> None"
  then obtain k it where x: "map_find range_less (lru_map (gva_cache c)) key = Some (k, it)" by auto
  then have "equiv_keys range_less k key" using ranges.find_SomeD(2) by fastforce
  then show "\<exists>cache k g. lru_get_entry (exclusive_less icl) key (gva_cache c) = Some (cache, Some (k, g)) \<and>
        known_ok H (k, g) \<and> equiv_keys range_less k key \<and> coherent H (with_cache c cache)"
    unfolding eq using ranges.get_entry_ok(2) [OF ok x] valid by (fastforce simp: coherent_def)
qed

lemma update_cache_entry_ok:
  assumes "icl_ok icl" "coherent H c"
    "get_locality_id_from_gid (get_stripped_gid idn) \<noteq> get_locality_id_from_gid (agas_locality c) \<Longrightarrow>
      \<exists>key. mk_cache_key (get_stripped_gid idn) (if count g \<noteq> 0 then count g else 1) = Inr key \<and> known_ok H (key, gva_copy g)"
  shows "\<exists>cache. update_cache_entry icl idn g c = Some (with_cache c cache, Inr ()) \<and> coherent H (with_cache c cache)"
proof (cases "agas_caching c \<and> store_in_cache idn \<and>
    get_locality_id_from_gid (get_stripped_gid idn) \<noteq> get_locality_id_from_gid (agas_locality c)")
  case False
  then have "update_cache_entry icl idn g c = Some (with_cache c (gva_cache c), Inr ())"
    by (auto simp: update_cache_entry_def Let_def)
  with assms(2) show ?thesis by (metis with_cache_simps(8))
next
  case True
  then obtain key where key: "mk_cache_key (get_stripped_gid idn) (if count g \<noteq> 0 then count g else 1) = Inr key"
    "known_ok H (key, gva_copy g)" using assms(3) by blast
  have k: "key_ok key" using known_key [OF key(2)] by simp
  let ?f = "\<lambda>new_key old_key. check_for_collisions icl new_key old_key = Inr True"
  obtain cache b where cache: "lru_update_if (exclusive_less icl) key (gva_copy g) ?f (gva_cache c) = Some (cache, b)"
    "coherent H (with_cache c cache)" "\<not> b \<Longrightarrow> map_find range_less (lru_map cache) key \<noteq> None"
    using update_if_ok [OF assms(1,2) key(2), of ?f] check_for_collisions_ok [OF assms(1) k] by auto
  have f: "map_find (exclusive_less icl) (lru_map (gva_cache c)) key = map_find range_less (lru_map (gva_cache c)) key"
    by (intro map_cong(3) agree_subset [OF icl_agrees [OF assms(1) coherent_keys [OF assms(2)] k]]) (auto simp: lru_keys_def)
  have "\<exists>r. collision_asserts icl key c = Inr r"
  proof (cases "map_find range_less (lru_map (gva_cache c)) key")
    case (Some x)
    then have "fst x \<in> lru_keys (gva_cache c)"
      using ranges.find_SomeD(1) [OF Some] by (force simp: lru_keys_def)
    then have "key_ok (fst x)" using cache_keys [OF coherent_keys [OF assms(2)]] by blast
    then show ?thesis using Some f check_for_collisions_ok [OF assms(1) k] by (cases x) (simp add: collision_asserts_def)
  qed (auto simp: collision_asserts_def f)
  then obtain r where r: "collision_asserts icl key c = Inr r" by blast
  have upd: "update_cache_entry icl idn g c =
      (if b \<or> \<not> log_warnings c then Some (with_cache c cache, Inr ())
       else case lru_get_entry (exclusive_less icl) key cache of
              None \<Rightarrow> None
            | Some (cache, None) \<Rightarrow> Some (with_cache c cache, Inl invalid_data)
            | Some (cache, Some _) \<Rightarrow> Some (with_cache c cache, Inr ()))"
    using True key(1) r cache(1) by (cases b) (auto simp: update_cache_entry_def Let_def with_cache_def split: option.split)
  show ?thesis
  proof (cases "b \<or> \<not> log_warnings c")
    case False
    then obtain cache' e where "lru_get_entry (exclusive_less icl) key cache = Some (cache', Some e)"
        "coherent H (with_cache (with_cache c cache) cache')"
      using get_entry_coherent(2) [OF assms(1) cache(2) k] cache(3) by (auto simp del: not_None_eq)
    then show ?thesis using False by (intro exI [of _ cache']) (simp add: upd, simp add: with_cache_def)
  qed (use upd cache(2) in auto)
qed

section \<open>Resolving through the cache\<close>

lemma locality_of_stripped:
  assumes "id_msb (stripped i) = id_msb (stripped j)"
  shows "get_locality_id_from_gid i = get_locality_id_from_gid j"
proof -
  have "bit (id_msb i) n \<longleftrightarrow> bit (id_msb j) n" if "32 \<le> n" for n
    using arg_cong [OF assms, of "\<lambda>w. bit w n"] that by (auto simp: mask_bits)
  then have "drop_bit 32 (id_msb i) = drop_bit 32 (id_msb j)"
    by (intro bit_word_eqI) (auto simp: bit_drop_bit_eq)
  then show ?thesis by (simp add: get_locality_id_from_gid_def get_locality_id_from_msb_def locality_id_shift_def)
qed

lemma home_stripped:
  assumes "id_msb (stripped i) = id_msb (stripped j)"
  shows "home ts i = home ts j"
  using locality_of_stripped [OF assms] by (simp add: home_def)

lemma stripped_stripped [simp]: "id_msb (stripped (stripped i)) = id_msb (stripped i)"
  by simp

lemma except_dont_cache_parts [simp]:
  "stripped (get_stripped_gid_except_dont_cache i) = stripped i"
  "id_lsb (get_stripped_gid_except_dont_cache i) = id_lsb i"
  "store_in_cache (get_stripped_gid_except_dont_cache i) = store_in_cache i"
proof -
  have bits: "bit (id_msb (get_stripped_gid_except_dont_cache i)) n \<longleftrightarrow> bit (id_msb i) n \<and> \<not> (24 \<le> n \<and> n < 32)" for n
    by (auto simp: get_stripped_gid_except_dont_cache_def strip_internal_bits_except_dont_cache_from_msb_def
        bit_and_iff bit_not_iff bit_imp_less_64 mask_bits)
  show l: "id_lsb (get_stripped_gid_except_dont_cache i) = id_lsb i"
    by (simp only: get_stripped_gid_except_dont_cache_def mk_gid_def gid_type.select_convs)
  show "stripped (get_stripped_gid_except_dont_cache i) = stripped i"
    by (rule gid_eqI) (auto simp: mask_bits bits l)
  show "store_in_cache (get_stripped_gid_except_dont_cache i) = store_in_cache i"
    using bits [of 23] by (simp only: flag_bits) simp
qed

lemma same_entity:
  assumes "stripped i = stripped j"
  shows "in_range e i \<longleftrightarrow> in_range e j" "resolve_spec t i = resolve_spec t j" "gva_lva g i k = gva_lva g j k"
    "get_locality_id_from_gid i = get_locality_id_from_gid j"
proof -
  have lsb: "id_lsb i = id_lsb j" using arg_cong [OF assms, of id_lsb] by simp
  show r: "in_range e i \<longleftrightarrow> in_range e j" for e using assms lsb by (cases e) simp
  show "resolve_spec t i = resolve_spec t j" by (simp add: resolve_spec_def r)
  show "gva_lva g i k = gva_lva g j k" using lsb by (simp add: gva_lva_def)
  show "get_locality_id_from_gid i = get_locality_id_from_gid j" by (rule locality_of_stripped) (simp only: assms)
qed

lemma in_key_same:
  assumes "stripped j = stripped i"
  shows "in_key k j \<longleftrightarrow> in_key k i"
proof -
  have "id_lsb j = id_lsb i" using arg_cong [OF assms, of id_lsb] by simp
  then show ?thesis by (simp add: in_key_def assms)
qed

lemma home_address_same:
  assumes "stripped i = stripped j"
  shows "home_address ts i = home_address ts j"
  unfolding home_address_def home_def same_entity(2-4) [OF assms] by (rule refl)

lemma gid_copy_stripped [simp]: "gid_copy (stripped g) = stripped g"
  by (rule gid_eqI) (auto simp: mask_bits)

lemma strip_stripped [simp]: "strip_internal_bits_from_gid (stripped g) = stripped g"
  using stripped_idem [of g] by (simp only: gid_copy_stripped)

lemma key_get_gid_ok: "key_ok k \<Longrightarrow> key_get_gid k = fst k"
  unfolding key_get_gid_def key_ok_def by (metis gid_copy_stripped)

definition tables_ok :: "tables \<Rightarrow> bool" where
  "tables_ok ts \<longleftrightarrow> (\<forall>l. table_ok (ts l))"

text \<open>A cached range answers as the home of the gid does.\<close>

lemma cached_answer:
  assumes "tables_ok ts" "cached_ok ts (key, g)" "in_key key i"
  shows "home_address ts i = Some (mk_address (prefix g) (gva_type g) (gva_lva g i (fst key)))"
proof -
  obtain k gv loc where e: "(k, gv, loc) \<in> set (home ts (fst key))" "\<not> gid_eq k invalid_gid" "\<not> gid_eq loc invalid_gid"
    "gid_copy (prefix g) = gid_copy (prefix gv)" "gva_type g = gva_type gv"
    "in_range (k, gv, loc) i" "gva_lva g i (fst key) = gva_lva gv i k"
    using assms(2,3) by (auto simp: cached_ok_def)
  have "home ts i = home ts (fst key)"
    using assms(2,3) key_ok_msb [of key] by (intro home_stripped) (auto simp: in_key_def cached_ok_def)
  then have "resolve_spec (home ts i) i = (k, gv, loc)"
    using resolve_spec_found e(1,6) assms(1) by (simp add: tables_ok_def home_def)
  then show ?thesis using e by (simp add: home_address_def mk_address_def)
qed

lemma point_key:
  assumes "mk_cache_key i 1 = Inr key"
  shows "key_ok key" "in_key key j \<longleftrightarrow> stripped j = stripped i" "fst key = stripped i"
proof -
  have l: "unat (id_lsb i) + unat (1 :: u64) < 2 ^ 64 + 1" using unsigned_less [of "id_lsb i"] by simp
  obtain key' where key': "mk_cache_key i 1 = Inr key'" "key_ok key'" "fst key' = stripped i"
    "unat (id_lsb (snd key')) = unat (id_lsb i) + (unat (1 :: u64) - 1)"
    by (rule mk_cache_key_ok [OF _ l]) auto
  then have eq: "key' = key" using assms by simp
  show "key_ok key" "fst key = stripped i" using key' eq by auto
  have "in_key key j \<longleftrightarrow> id_msb (stripped j) = id_msb (stripped i) \<and> id_lsb (stripped j) = id_lsb (stripped i)"
    using key' unfolding eq in_key_def by (auto simp: word_unat_eq_iff)
  also have "\<dots> \<longleftrightarrow> stripped j = stripped i" by (simp add: strip_internal_eq gid_eq_stripped_iff)
  finally show "in_key key j \<longleftrightarrow> stripped j = stripped i" .
qed

lemma get_cache_entry_ok:
  assumes "icl_ok icl" "\<forall>ts \<in> H. tables_ok ts" "coherent H c"
  shows "(\<exists>cache. get_cache_entry icl i c = Some (with_cache c cache, Inr None) \<and> coherent H (with_cache c cache)) \<or>
    (\<exists>cache g b. get_cache_entry icl i c = Some (with_cache c cache, Inr (Some (g, b))) \<and> coherent H (with_cache c cache) \<and>
      (\<exists>ts \<in> H. home_address ts i = Some (mk_address (prefix g) (gva_type g) (gva_lva g i b))))"
proof (cases "is_starting c")
  case True
  then have "get_cache_entry icl i c = Some (with_cache c (gva_cache c), Inr None)" by (simp add: get_cache_entry_def)
  then show ?thesis using assms(3) by (metis with_cache_simps(8))
next
  case False
  obtain key where key: "mk_cache_key i 1 = Inr key" by (simp add: mk_cache_key_def)
  note p = point_key [OF key]
  show ?thesis
  proof (cases "map_find range_less (lru_map (gva_cache c)) key = None")
    case True
    then show ?thesis using get_entry_coherent(1) [OF assms(1,3) p(1) True] False key
      by (auto simp: get_cache_entry_def with_cache_def)
  next
    case found: False
    obtain cache k g where e: "lru_get_entry (exclusive_less icl) key (gva_cache c) = Some (cache, Some (k, g))"
      "known_ok H (k, g)" "equiv_keys range_less k key" "coherent H (with_cache c cache)"
      using get_entry_coherent(2) [OF assms(1,3) p(1) found] by blast
    have k: "key_ok k" using known_key [OF e(2)] by simp
    obtain j where j: "in_key k j" "stripped j = stripped i"
      using e(3) cached_overlap [OF k p(1)] p(2) by auto
    have i: "in_key k i" using in_key_same [OF j(2)] j(1) by simp
    have kc: "key_get_gid k = fst k" using key_get_gid_ok [OF k] .
    have "strip_internal_bits_from_msb (id_msb i) = id_msb (key_get_gid k)"
      using i by (simp add: kc in_key_def msb_stripped)
    then have "get_cache_entry icl i c = Some (with_cache c cache, Inr (Some (g, fst k)))"
      using False key e(1) by (simp add: get_cache_entry_def with_cache_def kc)
    moreover obtain ts where ts: "ts \<in> H" "cached_ok ts (k, g)" using e(2) by (auto simp: known_ok_def)
    ultimately show ?thesis using cached_answer [OF _ ts(2) i] assms(2) ts(1) e(4) by blast
  qed
qed

text \<open>What is put into the cache after a gid was resolved or a range bound.\<close>

lemma cached_range:
  assumes "(k, gv, loc) \<in> set (home ts k)" "entry_ok (k, gv, loc)" "\<not> gid_eq k invalid_gid" "\<not> gid_eq loc invalid_gid"
    "stripped i = k" "count g = count gv" "gid_copy (prefix g) = gid_copy (prefix gv)" "gva_type g = gva_type gv"
    "gva_base g = gva_base gv" "offset g = offset gv"
  shows "\<exists>key. mk_cache_key (get_stripped_gid i) (if count g \<noteq> 0 then count g else 1) = Inr key \<and> cached_ok ts (key, gva_copy g)"
proof -
  have n: "count gv \<noteq> 0" "unat (id_lsb i) + unat (count gv) < 2 ^ 64 + 1"
    using assms(2,5) by (auto simp: unat_gt_0)
  obtain key where key: "mk_cache_key i (count gv) = Inr key" "key_ok key" "fst key = stripped i"
    "unat (id_lsb (snd key)) = unat (id_lsb i) + (unat (count gv) - 1)" by (rule mk_cache_key_ok [OF n])
  have mk: "mk_cache_key (get_stripped_gid i) (count gv) = mk_cache_key i (count gv)"
    by (simp add: mk_cache_key_def get_stripped_gid_eq)
  have lsb: "id_lsb k = id_lsb i" using assms(5) by auto
  have "in_range (k, gv, loc) j" if "in_key key j" for j
    using that key(3,4) assms(2,5) lsb by (auto simp: in_key_def)
  then have "cached_ok ts (key, gva_copy g)"
    using assms key(2,3) by (auto simp: cached_ok_def gva_copy_def gva_lva_def intro!: bexI [of _ "(k, gv, loc)"])
  then show ?thesis using key(1) mk n(1) assms(6) by auto
qed

lemma cached_point:
  assumes "(k, gv, loc) \<in> set (home ts i)" "\<not> gid_eq k invalid_gid" "\<not> gid_eq loc invalid_gid" "in_range (k, gv, loc) i"
    "count g = 1" "gid_copy (prefix g) = gid_copy (prefix gv)" "gva_type g = gva_type gv" "gva_base g = gva_lva gv i k"
  shows "\<exists>key. mk_cache_key (get_stripped_gid i) (if count g \<noteq> 0 then count g else 1) = Inr key \<and> cached_ok ts (key, gva_copy g)"
proof -
  obtain key where mk: "mk_cache_key (get_stripped_gid i) 1 = Inr key" by (simp add: mk_cache_key_def)
  have key: "key_ok key" "in_key key j \<longleftrightarrow> stripped j = stripped i" "fst key = stripped i" for j
    using point_key [OF mk] by (simp_all add: get_stripped_gid_eq)
  have h: "home ts (fst key) = home ts i" by (rule home_stripped) (simp add: key(3))
  have "in_range (k, gv, loc) j \<and> gva_lva (gva_copy g) j (fst key) = gva_lva gv j k" if "in_key key j" for j
  proof -
    have s: "stripped j = stripped i" using that key(2) by simp
    have "id_lsb j = id_lsb i" using arg_cong [OF s, of id_lsb] by simp
    then show ?thesis
      using assms(4,8) key(3) s unfolding same_entity(1) [OF s] by (simp add: gva_lva_def gva_copy_def)
  qed
  then have "cached_ok ts (key, gva_copy g)"
    using assms key(1) h by (auto simp: cached_ok_def gva_copy_def intro!: bexI [of _ "(k, gv, loc)"])
  then show ?thesis using mk assms(5) by simp
qed

lemma cache_resolved_ok:
  assumes "icl_ok icl" "tables_ok ts" "ts \<in> H" "coherent H c" "resolve_spec (home ts i) i = (k, gv, loc)"
    "\<not> gid_eq k invalid_gid" "\<not> gid_eq loc invalid_gid"
  shows "\<exists>cache. cache_resolved icl i k gv (gva_resolve gv i k) c = Some (with_cache c cache, Inr ()) \<and>
    coherent H (with_cache c cache)"
proof -
  have t: "table_ok (home ts i)" using assms(2) by (simp add: tables_ok_def home_def)
  have e: "(k, gv, loc) \<in> set (home ts i) \<and> in_range (k, gv, loc) i"
  proof (cases rule: resolve_spec_cases [OF t, of i])
    case (1 e)
    then show ?thesis using assms(5) by simp
  next
    case 2
    then have "k = invalid_gid" using assms(5) by (simp add: unresolved_def)
    with assms(6) show ?thesis by simp
  qed
  note e = conjunct1 [OF e] conjunct2 [OF e]
  have ek: "entry_ok (k, gv, loc)" using table_okD [OF t e(1)] .
  then have k: "stripped k = k" by simp
  have "home ts k = home ts i" by (rule home_stripped) (use e(2) k in simp)
  then have r: "\<exists>key. mk_cache_key (get_stripped_gid k) (if count gv \<noteq> 0 then count gv else 1) = Inr key \<and> cached_ok ts (key, gva_copy gv)"
    using cached_range [of k gv loc ts k gv, OF _ ek assms(6,7) k] e(1) by simp
  have p: "\<exists>key. mk_cache_key (get_stripped_gid i) (if count (gva_resolve gv i k) \<noteq> 0 then count (gva_resolve gv i k) else 1) = Inr key \<and>
      cached_ok ts (key, gva_copy (gva_resolve gv i k))"
    using cached_point [of k gv loc ts i "gva_resolve gv i k"] e assms(6,7) by (simp add: gva_resolve_def)
  show ?thesis
    using update_cache_entry_ok [OF assms(1,4), of k gv] update_cache_entry_ok [OF assms(1,4), of i "gva_resolve gv i k"] r p known_okI [OF _ assms(3)]
    by (auto simp: cache_resolved_def)
qed

text \<open>The answer of the primary namespace that manages a gid.\<close>

definition home_reply :: "(u32 \<Rightarrow> primary_namespace) \<Rightarrow> gid_type \<Rightarrow> resolved_type result" where
  "home_reply servers i = resolve_gid_finish i (servers (get_locality_id_from_gid i))"

definition tables_of :: "(u32 \<Rightarrow> primary_namespace) \<Rightarrow> tables" where
  "tables_of servers l = gvas (servers l)"

lemma home_reply_eq:
  assumes "tables_ok (tables_of servers)"
  shows "\<exists>k g loc. home_reply servers i = Inr (k, g, loc) \<and>
    (if gid_eq k invalid_gid \<or> gid_eq loc invalid_gid then home_address (tables_of servers) i = None
     else resolve_spec (home (tables_of servers) i) i = (k, g, loc))"
proof -
  have t: "gvas (servers (get_locality_id_from_gid i)) = home (tables_of servers) i"
    by (simp add: home_def tables_of_def)
  obtain k g loc where r: "resolve_spec (home (tables_of servers) i) i = (k, g, loc)" by (metis surj_pair)
  have "resolve_gid_locked (home (tables_of servers) i) i = Inr (k, g, loc)"
    using resolve_gid_locked_spec assms r by (simp add: tables_ok_def home_def)
  then show ?thesis
    using r by (auto simp: home_reply_def resolve_gid_finish_def t home_address_def unresolved_def)
qed

abbreviation answer :: "tables \<Rightarrow> gid_type \<Rightarrow> address result" where
  "answer ts i \<equiv> (case home_address ts i of None \<Rightarrow> Inl bad_parameter | Some a \<Rightarrow> Inr a)"

lemma resolve_full_async_ok:
  assumes "icl_ok icl" "\<forall>ts \<in> H. tables_ok ts" "tables_of old \<in> H" "coherent H c" "gid_to_bool i"
  shows "\<exists>cache. resolve_full_async icl (home_reply old i) i c = Some (with_cache c cache, answer (tables_of old) i) \<and>
    coherent H (with_cache c cache)"
proof -
  let ?ts = "tables_of old"
  have ok: "tables_ok ?ts" using assms(2,3) by blast
  have self: "with_cache c (gva_cache c) = c" by simp
  obtain k g loc where r: "home_reply old i = Inr (k, g, loc)"
    "if gid_eq k invalid_gid \<or> gid_eq loc invalid_gid then home_address ?ts i = None
     else resolve_spec (home ?ts i) i = (k, g, loc)" using home_reply_eq [OF ok] by blast
  show ?thesis
  proof (cases "gid_eq k invalid_gid \<or> gid_eq loc invalid_gid")
    case True
    then have "resolve_full_async icl (home_reply old i) i c = Some (c, Inl bad_parameter)" "home_address ?ts i = None"
      using r assms(5) by (auto simp: resolve_full_async_def resolve_full_postproc_def)
    then show ?thesis using assms(4) by (intro exI [of _ "gva_cache c"]) simp
  next
    case False
    then have h: "home_address ?ts i = Some (mk_address (prefix g) (gva_type g) (gva_lva g i k))"
      and s: "resolve_spec (home ?ts i) i = (k, g, loc)" using r by (auto simp: home_address_def)
    have a: "mk_address (prefix (gva_resolve g i k)) (gva_type (gva_resolve g i k)) (gva_base (gva_resolve g i k)) =
        mk_address (prefix g) (gva_type g) (gva_lva g i k)" by (simp add: gva_resolve_def)
    obtain cache where "cache_resolved icl i k g (gva_resolve g i k) c = Some (with_cache c cache, Inr ())"
      "coherent H (with_cache c cache)"
      using cache_resolved_ok [OF assms(1) ok assms(3,4) s] False by blast
    then show ?thesis
      using False h r(1) assms(4,5) self unfolding resolve_full_async_def resolve_full_postproc_def
      by (cases "store_in_cache i") (auto simp: a Let_def intro: exI [of _ "gva_cache c"] exI [of _ cache])
  qed
qed

lemma nested_if:
  "(if \<not> A then x else if \<not> B then x else if C then x else if D then x else y) =
    (if A \<and> B \<and> \<not> C \<and> \<not> D then y else x)"
  by simp

text \<open>The lookup in the cache, when the gid is not known otherwise.\<close>

lemma resolve_cached_ok:
  assumes "icl_ok icl" "\<forall>ts \<in> H. tables_ok ts" "coherent H c"
    "resolve_locally_known_addresses (get_stripped_gid_except_dont_cache i) address_default c = Inr (a, False)"
  shows "\<exists>cache. coherent H (with_cache c cache) \<and>
    (agas_resolve_cached icl False i address_default c = Some (with_cache c cache, Inr (a, False)) \<or>
     agas_caching c \<and> (\<exists>ts \<in> H. \<exists>b. home_address ts i = Some b \<and>
       agas_resolve_cached icl False i address_default c = Some (with_cache c cache, Inr (b, True))))"
proof -
  let ?i = "get_stripped_gid_except_dont_cache i"
  let ?look = "agas_caching c \<and> store_in_cache ?i \<and>
    get_locality_id_from_gid ?i \<noteq> get_locality_id_from_gid (agas_locality c) \<and> \<not> was_object_migrated_locked ?i c"
  have rc: "agas_resolve_cached icl False i address_default c =
      (if ?look then
        (case get_cache_entry icl ?i c of
           None \<Rightarrow> None
         | Some (c, Inl e) \<Rightarrow> Some (c, if False \<or> e = assertion_failure then Inl e else Inr (a, False))
         | Some (c, Inr None) \<Rightarrow> Some (c, Inr (a, False))
         | Some (c, Inr (Some (g, idbase))) \<Rightarrow> Some (c, Inr (mk_address (prefix g) (gva_type g) (gva_lva g ?i idbase), True)))
       else Some (c, Inr (a, False)))"
    unfolding agas_resolve_cached_def Let_def assms(4) sum.case prod.case bool.case by (rule nested_if)
  have h: "home_address ts ?i = home_address ts i" for ts by (rule home_address_same) simp
  show ?thesis
  proof (cases ?look)
    case False
    have "agas_resolve_cached icl False i address_default c = Some (c, Inr (a, False))"
      unfolding rc if_not_P [OF False] by (rule refl)
    then show ?thesis using assms(3) by (intro exI [of _ "gva_cache c"]) simp
  next
    case True
    note rc = rc [unfolded if_P [OF True]]
    from get_cache_entry_ok [OF assms(1-3), of ?i] show ?thesis
      unfolding h using True rc by (elim disjE exE conjE bexE) auto
  qed
qed

lemma resolve_async_ok:
  assumes "icl_ok icl" "\<forall>ts \<in> H. tables_ok ts" "tables_of old \<in> H" "coherent H c" "gid_to_bool i"
    "resolve_locally_known_addresses (get_stripped_gid_except_dont_cache i) address_default c = Inr (a, False)"
  shows "\<exists>cache r. resolve_async icl (home_reply old i) i c = Some (with_cache c cache, r) \<and> coherent H (with_cache c cache) \<and>
    (r = answer (tables_of old) i \<or> (\<exists>ts \<in> H. \<exists>b. home_address ts i = Some b \<and> r = Inr b))"
proof -
  have full: "\<exists>cache'. resolve_full_async icl (home_reply old i) i (with_cache c cache) = Some (with_cache c cache', answer (tables_of old) i) \<and>
      coherent H (with_cache c cache')" if "coherent H (with_cache c cache)" for cache
    using resolve_full_async_ok [OF assms(1-3) that assms(5)] by (simp add: with_cache_def)
  obtain cache where cache: "coherent H (with_cache c cache)"
    "agas_resolve_cached icl False i address_default c = Some (with_cache c cache, Inr (a, False)) \<or>
     agas_caching c \<and> (\<exists>ts \<in> H. \<exists>b. home_address ts i = Some b \<and>
       agas_resolve_cached icl False i address_default c = Some (with_cache c cache, Inr (b, True)))"
    using resolve_cached_ok [OF assms(1,2,4,6)] by blast
  show ?thesis
  proof (cases "agas_caching c")
    case False
    then have "resolve_async icl (home_reply old i) i c = resolve_full_async icl (home_reply old i) i c"
      using assms(5) by (simp add: resolve_async_def)
    then show ?thesis using full [of "gva_cache c"] assms(4) by auto
  next
    case True
    from cache(2) show ?thesis
    proof (elim disjE conjE bexE exE)
      assume "agas_resolve_cached icl False i address_default c = Some (with_cache c cache, Inr (a, False))"
      then have "resolve_async icl (home_reply old i) i c = resolve_full_async icl (home_reply old i) i (with_cache c cache)"
        using True assms(5) by (simp add: resolve_async_def)
      then show ?thesis using full [OF cache(1)] by auto
    next
      fix ts b
      assume "ts \<in> H" "home_address ts i = Some b"
        "agas_resolve_cached icl False i address_default c = Some (with_cache c cache, Inr (b, True))"
      then show ?thesis using True assms(5) cache(1) by (auto simp: resolve_async_def)
    qed
  qed
qed

section \<open>Clients among primary namespaces\<close>

text \<open>
  One client and the primary namespaces of all localities, with all their earlier states (the present one first).
  The namespaces bind a range (for the first time or again) or unbind one, for whatever client. The client looks a gid up in its
  cache, gets the reply for one it has asked for, or for a range it has bound, forgets entries and marks migrated
  objects. Replies are on their way while everything else goes on, so that a reply is what a namespace had to say
  in some earlier state.

  Bindings are restricted to valid gids and localities, and to such that do not overlap: \<open>bind_gid\<close> lets some
  overlapping ranges pass (\<open>bind_gid_accepts_overlap\<close>).
\<close>

type_synonym primaries = "u32 \<Rightarrow> primary_namespace"
type_synonym agas_system = "agas_client \<times> primaries list"

inductive client_step :: "icl \<Rightarrow> agas_system \<Rightarrow> agas_system \<Rightarrow> bool" for icl where
  step_bind: "l = get_locality_id_from_gid i \<Longrightarrow> bind_gid g i loc (servers l) = (s', r) \<Longrightarrow>
    \<not> gid_eq i invalid_gid \<Longrightarrow> \<not> gid_eq loc invalid_gid \<Longrightarrow> table_ok (gvas s') \<Longrightarrow>
    client_step icl (c, servers # past) (c, servers(l := s') # servers # past)"
| step_unbind: "l = get_locality_id_from_gid i \<Longrightarrow> unbind_range_async i n (servers l) = (s', r) \<Longrightarrow>
    client_step icl (c, servers # past) (c, servers(l := s') # servers # past)"
| step_lookup: "agas_resolve_cached icl False i address_default c = Some (c', r) \<Longrightarrow>
    client_step icl (c, servers # past) (c', servers # past)"
| step_resolved: "old \<in> set (servers # past) \<Longrightarrow> gid_to_bool i \<Longrightarrow> resolve_full_async icl (home_reply old i) i c = Some (c', r) \<Longrightarrow>
    client_step icl (c, servers # past) (c', servers # past)"
| step_bound: "l = get_locality_id_from_gid i \<Longrightarrow> bind_gid g i loc (old l) = (s', Inr b) \<Longrightarrow>
    \<not> gid_eq i invalid_gid \<Longrightarrow> \<not> gid_eq loc invalid_gid \<Longrightarrow>
    old \<in> set (servers # past) \<Longrightarrow> old(l := s') \<in> set (servers # past) \<Longrightarrow> bind_postproc icl (Inr b) i g c = Some (c', r) \<Longrightarrow>
    client_step icl (c, servers # past) (c', servers # past)"
| step_remove: "remove_cache_entry i c = Some c' \<Longrightarrow> client_step icl (c, servers # past) (c', servers # past)"
| step_clear: "client_step icl (c, servers # past) (clear_cache c, servers # past)"
| step_mark: "mark_as_migrated i migratable c = Some (c', r) \<Longrightarrow> client_step icl (c, servers # past) (c', servers # past)"
| step_unmark: "unmark_as_migrated i c = Some (c', r) \<Longrightarrow> client_step icl (c, servers # past) (c', servers # past)"

definition client_initial :: "agas_system \<Rightarrow> bool" where
  "client_initial x \<longleftrightarrow> (\<exists>n. n \<noteq> - 1 \<and> gva_cache (fst x) = lru_new n) \<and> (\<exists>servers. snd x = [servers] \<and> tables_ok (tables_of servers))"

inductive client_reachable :: "icl \<Rightarrow> agas_system \<Rightarrow> bool" for icl where
  reach_start: "client_initial x \<Longrightarrow> client_reachable icl x"
| reach_client_step: "client_reachable icl x \<Longrightarrow> client_step icl x y \<Longrightarrow> client_reachable icl y"

abbreviation states :: "primaries list \<Rightarrow> tables set" where
  "states hist \<equiv> tables_of ` set hist"

definition client_inv :: "agas_system \<Rightarrow> bool" where
  "client_inv x \<longleftrightarrow> (\<forall>ts \<in> states (snd x). tables_ok ts) \<and> coherent (states (snd x)) (fst x)"

lemma coherent_cache: "gva_cache c' = gva_cache c \<Longrightarrow> coherent H c' = coherent H c"
  by (simp add: coherent_def)

lemma coherent_mono: "coherent H c \<Longrightarrow> H \<subseteq> H' \<Longrightarrow> coherent H' c"
  unfolding coherent_def known_ok_def by blast

lemma remove_cache_entry_ok:
  assumes "coherent H c"
  shows "\<exists>cache. remove_cache_entry i c = Some (with_cache c cache) \<and> coherent H (with_cache c cache)"
proof -
  have ok: "lru_ok range_less (gva_cache c)" using assms by (simp add: coherent_def)
  let ?p = "\<lambda>p. gid_eq (get_stripped_gid i) (key_get_gid (fst p))"
  obtain cache n where e: "lru_erase_if ?p (gva_cache c) = Some (cache, n)" "lru_ok range_less cache"
    "lru_entries cache = filter (\<lambda>p. \<not> ?p p) (lru_entries (gva_cache c))"
    using ranges.erase_if_ok [OF ok, of ?p] by blast
  have k: "remove_cache_entry i c = Some (with_cache c (gva_cache c)) \<or> remove_cache_entry i c = Some (with_cache c cache)"
    using e(1) by (auto simp: remove_cache_entry_def Let_def with_cache_def)
  have "coherent H (with_cache c cache)" using assms e(2,3) by (simp add: coherent_def)
  moreover have "coherent H (with_cache c (gva_cache c))" using assms by simp
  ultimately show ?thesis using k by blast
qed

lemma mark_as_migrated_ok:
  assumes "coherent H c"
  shows "\<exists>c' r. mark_as_migrated i b c = Some (c', r) \<and> coherent H c'" "\<exists>c' r. unmark_as_migrated i c = Some (c', r) \<and> coherent H c'"
proof -
  have m: "coherent H (c\<lparr>migrated_objects_table := t\<rparr>)" for t using assms by (simp add: coherent_def)
  have r: "\<exists>c'. remove_cache_entry i (c\<lparr>migrated_objects_table := t\<rparr>) = Some c' \<and> coherent H c'" for t
    using remove_cache_entry_ok [OF m] by blast
  show "\<exists>c' r. mark_as_migrated i b c = Some (c', r) \<and> coherent H c'"
    using assms r [of "fst (map_insert gid_less (migrated_objects_table c) (get_stripped_gid i) ())"]
    by (auto simp: mark_as_migrated_def)
  show "\<exists>c' r. unmark_as_migrated i c = Some (c', r) \<and> coherent H c'"
    using assms r [of "map_erase gid_less (migrated_objects_table c) (get_stripped_gid i)"] m
    by (auto simp: unmark_as_migrated_def Let_def)
qed

text \<open>The range a namespace has after it has agreed to bind it.\<close>

lemma bind_gid_entry:
  assumes "table_ok (gvas s)" "bind_gid g i loc s = (s', Inr b)"
  shows "\<exists>gv. (stripped i, gv, gid_copy loc) \<in> set (gvas s') \<and> count gv = count g \<and>
    gid_copy (prefix gv) = gid_copy (prefix g) \<and> gva_type gv = gva_type g \<and> gva_base gv = gva_base g \<and> offset gv = offset g"
proof (cases "\<exists>(k, a, l) \<in> set (gvas s). gid_eq k i")
  case True
  then obtain k a l where e: "(k, a, l) \<in> set (gvas s)" "gid_eq k i" by auto
  have f: "map_find gid_less (gvas s) (stripped i) = Some (k, a, l)"
    using map_find_key [OF assms(1) e(1), of "stripped i"] e(2) by simp
  have k: "k = stripped i"
    using table_okD [OF assms(1) e(1)] e(2) by (intro gid_type.equality) (auto simp: gid_eq_stripped_iff)
  have s': "gvas s' = map_assign gid_less (gvas s) (stripped i) (rebound a g, gid_copy loc)" "count a = count g"
    using bind_gid_existing [OF assms(1) e, of g loc] assms(2) by (auto split: if_splits)
  have "(k, rebound a g, gid_copy loc) \<in> set (gvas s')"
    unfolding s'(1) gid_order.set_assign [OF table_ok_sorted [OF assms(1)] f] by simp
  then show ?thesis using k s'(2) by (intro exI [of _ "rebound a g"]) (simp add: rebound_def)
next
  case False
  have none: "map_find gid_less (gvas s) (stripped i) = None"
  proof (rule ccontr)
    assume "map_find gid_less (gvas s) (stripped i) \<noteq> None"
    then obtain e where "map_find gid_less (gvas s) (stripped i) = Some e" by auto
    from gid_order.find_SomeD [OF this] False show False by (cases e) (auto simp: gid_eq_equiv)
  qed
  have in_lower_bound: "e \<in> set (gvas s)" if "map_lower_bound gid_less (gvas s) (stripped i) = e # es" for e es
    using that unfolding map_lower_bound_def by (metis list.set_intros(1) set_dropWhileD)
  have "bind_gid g i loc s = (s', Inr b) \<Longrightarrow>
      bind_gid_insert g (stripped i) loc (count_primary api_bind_gid s) = (s', Inr b)"
    using False in_lower_bound
    by (auto simp: bind_gid_def Let_def split: list.splits if_splits)
  then have "gvas s' = fst (map_insert gid_less (gvas s) (stripped i) (gva_copy g, gid_copy loc))"
    using assms(2) by (auto simp: bind_gid_insert_def Let_def case_prod_unfold split: if_splits)
  then show ?thesis
    using gid_order.set_insert [OF none] by (intro exI [of _ "gva_copy g"]) (simp add: gva_copy_def)
qed

lemma cache_bound_ok:
  assumes "icl_ok icl" "tables_ok ts" "ts \<in> H" "coherent H c" "\<not> gid_eq i invalid_gid" "\<not> gid_eq loc invalid_gid"
    "(stripped i, gv, gid_copy loc) \<in> set (home ts (stripped i))" "count gv = count g"
    "gid_copy (prefix gv) = gid_copy (prefix g)" "gva_type gv = gva_type g" "gva_base gv = gva_base g" "offset gv = offset g"
  shows "\<exists>cache. cache_bound icl i g c = Some (with_cache c cache, Inr ()) \<and> coherent H (with_cache c cache)"
proof -
  have e: "entry_ok (stripped i, gv, gid_copy loc)"
    using table_okD [OF _ assms(7)] assms(2) by (simp add: tables_ok_def home_def)
  have inv: "\<not> gid_eq (stripped i) invalid_gid" "\<not> gid_eq (gid_copy loc) invalid_gid" using assms(5,6) by simp_all
  have h: "home ts (stripped i) = home ts i" by (rule home_stripped) simp
  have r: "\<exists>key. mk_cache_key (get_stripped_gid i) (if count g \<noteq> 0 then count g else 1) = Inr key \<and> cached_ok ts (key, gva_copy g)"
    by (rule cached_range [OF assms(7) e inv]) (simp_all add: assms(8-12))
  have "in_range (stripped i, gv, gid_copy loc) i" using e by (auto simp: gid_eq_stripped_iff)
  then have p: "\<exists>key. mk_cache_key (get_stripped_gid i) (if count (gva_resolve g i i) \<noteq> 0 then count (gva_resolve g i i) else 1) = Inr key \<and>
      cached_ok ts (key, gva_copy (gva_resolve g i i))"
    using assms(7-12) inv h
    by (intro cached_point [of "stripped i" gv "gid_copy loc"]) (simp_all add: gva_resolve_def gva_copy_def gva_lva_def)
  show ?thesis
    using update_cache_entry_ok [OF assms(1,4), of i g] update_cache_entry_ok [OF assms(1,4), of i "gva_resolve g i i"] r p
      known_okI [OF _ assms(3)]
    by (auto simp: cache_bound_def)
qed

lemma bound_reply_ok:
  assumes "icl_ok icl" "\<forall>ts \<in> H. tables_ok ts" "coherent H c" "\<not> gid_eq i invalid_gid" "\<not> gid_eq loc invalid_gid"
    "l = get_locality_id_from_gid i" "bind_gid g i loc (old l) = (s', Inr b)" "tables_of old \<in> H" "tables_of (old(l := s')) \<in> H"
  shows "\<exists>cache. bind_postproc icl (Inr b) i g c = Some (with_cache c cache, Inr True) \<and> coherent H (with_cache c cache)"
proof -
  have "table_ok (gvas (old l))" using assms(2,8) by (auto simp: tables_ok_def tables_of_def)
  from bind_gid_entry [OF this assms(7)] obtain gv where gv: "(stripped i, gv, gid_copy loc) \<in> set (gvas s')" "count gv = count g"
    "gid_copy (prefix gv) = gid_copy (prefix g)" "gva_type gv = gva_type g" "gva_base gv = gva_base g" "offset gv = offset g" by blast
  have "home (tables_of (old(l := s'))) (stripped i) = gvas s'"
    using locality_of_stripped [of "stripped i" i] by (simp add: home_def tables_of_def assms(6))
  then show ?thesis
    using cache_bound_ok [OF assms(1) _ assms(9,3,4,5), of gv g] assms(2,9) gv by (auto simp: bind_postproc_def)
qed

lemma unbind_table_ok:
  assumes "table_ok (gvas s)" "unbind_gid n i s = (s', r)"
  shows "table_ok (gvas s')"
proof (cases "map_find gid_less (gvas s) (stripped i)")
  case None
  then show ?thesis using assms by (simp add: unbind_gid_def Let_def) auto
next
  case (Some e)
  obtain k a l where e: "e = (k, a, l)" by (cases e)
  have "(k, a, l) \<in> set (gvas s)" "gid_eq k i"
    using gid_order.find_SomeD [OF Some] by (simp_all add: e gid_eq_equiv)
  from erase_range(1) [OF assms(1) this] show ?thesis
    using assms Some e by (auto simp: unbind_gid_def Let_def split: if_splits)
qed

lemma resolve_cached_coherent:
  assumes "icl_ok icl" "\<forall>ts \<in> H. tables_ok ts" "coherent H c"
    "agas_resolve_cached icl False i address_default c = Some (c', r)"
  shows "coherent H c'"
proof (cases "\<exists>a. resolve_locally_known_addresses (get_stripped_gid_except_dont_cache i) address_default c = Inr (a, False)")
  case True
  then show ?thesis using resolve_cached_ok [OF assms(1-3)] assms(4) by fastforce
next
  case False
  then have "c' = c" using assms(4) by (auto simp: agas_resolve_cached_def Let_def split: sum.splits bool.splits)
  then show ?thesis using assms(3) by simp
qed

lemma client_step_inv:
  assumes "icl_ok icl" "client_step icl x y" "client_inv x"
  shows "client_inv y"
proof -
  have upd: "tables_ok (tables_of (servers(l := s')))" if "tables_ok (tables_of servers)" "table_ok (gvas s')" for servers l s'
    using that by (simp add: tables_ok_def tables_of_def)
  show ?thesis
    using assms(2)
  proof cases
    case (step_bind l i g loc servers s' r c past)
    then show ?thesis
      using assms(3) upd [of servers s' l] coherent_mono [of "states (servers # past)" c "states (servers(l := s') # servers # past)"]
      by (auto simp: client_inv_def)
  next
    case (step_unbind l i n servers s' r c past)
    have "table_ok (gvas s')"
      using unbind_table_ok [of "servers l" n i s' r] step_unbind(4) assms(3) step_unbind(1)
      by (simp add: unbind_range_async_def client_inv_def tables_ok_def tables_of_def)
    then show ?thesis
      using assms(3) step_unbind upd [of servers s' l]
        coherent_mono [of "states (servers # past)" c "states (servers(l := s') # servers # past)"]
      by (auto simp: client_inv_def)
  next
    case (step_lookup i c c' r servers past)
    then show ?thesis
      using resolve_cached_coherent [OF assms(1) _ _ step_lookup(3), of "states (servers # past)"] assms(3) by (auto simp: client_inv_def)
  next
    case (step_resolved old servers past i c c' r)
    then show ?thesis
      using resolve_full_async_ok [OF assms(1), of "states (servers # past)" old c i] assms(3) by (auto simp: client_inv_def)
  next
    case (step_bound l i g loc old s' b servers past c c' r)
    then show ?thesis
      using bound_reply_ok [where H = "states (servers # past)" and c = c and i = i and loc = loc and l = l and g = g and old = old
          and s' = s' and b = b, OF assms(1)] assms(3)
      by (simp only: client_inv_def fst_conv snd_conv imageI) auto
  next
    case (step_remove i c c' servers past)
    then show ?thesis using remove_cache_entry_ok [of "states (servers # past)" c i] assms(3) by (auto simp: client_inv_def)
  next
    case (step_clear c servers past)
    then show ?thesis
      using ranges.clear_ok [of "gva_cache c"] assms(3)
      by (auto simp: client_inv_def coherent_def clear_cache_def lru_clear_def lru_entries_def)
  next
    case (step_mark i b c c' r servers past)
    then show ?thesis using mark_as_migrated_ok(1) [of "states (servers # past)" c i b] assms(3) by (auto simp: client_inv_def)
  next
    case (step_unmark i c c' r servers past)
    then show ?thesis using mark_as_migrated_ok(2) [of "states (servers # past)" c i] assms(3) by (auto simp: client_inv_def)
  qed
qed

lemma client_reachable_inv:
  assumes "client_reachable icl x" "icl_ok icl"
  shows "client_inv x"
  using assms
proof (induction rule: client_reachable.induct)
  case (reach_start x)
  then obtain n where "n \<noteq> - 1" "gva_cache (fst x) = lru_new n" by (auto simp: client_initial_def)
  then show ?case
    using reach_start ranges.new_ok [of n] by (auto simp: client_inv_def client_initial_def coherent_def lru_entries_def lru_new_def)
qed (blast intro: client_step_inv)

text \<open>Resolving asynchronously is a lookup and, if the cache does not know the gid, a reply.\<close>

lemma resolve_async_reachable:
  assumes "client_reachable icl (c, servers # past)" "old \<in> set (servers # past)" "gid_to_bool i"
    "resolve_async icl (home_reply old i) i c = Some (c', r)"
  shows "client_reachable icl (c', servers # past)"
proof -
  have full: "client_reachable icl (c2, servers # past)"
    if "client_reachable icl (c1, servers # past)" "resolve_full_async icl (home_reply old i) i c1 = Some (c2, r2)" for c1 c2 r2
    using reach_client_step [OF that(1) step_resolved [OF assms(2,3) that(2)]] .
  have look: "client_reachable icl (c1, servers # past)" if "agas_resolve_cached icl False i address_default c = Some (c1, r1)" for c1 r1
    using reach_client_step [OF assms(1) step_lookup [OF that]] .
  show ?thesis
    using assms(3,4) look full full [OF assms(1)]
    by (auto simp: resolve_async_def split: if_splits option.splits sum.splits bool.splits prod.splits)
qed

section \<open>Properties\<close>

definition example_icl :: icl where
  "example_icl = \<lparr>exclusive_less = (\<lambda>a b. gid_less (snd a) (fst b)),
     icl_length = (\<lambda>a. gid_add_u64 (gid_sub (snd a) (fst a)) 1)\<rparr>"

definition example_client :: agas_client where
  "example_client = \<lparr>max_refcnt_requests = 1, refcnt_requests_count = 0, enable_refcnt_caching = True,
     refcnt_requests = [], agas_caching = True, range_caching = True, gva_cache = lru_new 4,
     agas_locality = \<lparr>id_msb = 0x200000000, id_lsb = 0\<rparr>, migrated_objects_table = [], rts_lva = 1, mem_lva = 2,
     locality_ns_addr = address_default, component_ns_addr = address_default, primary_ns_addr = address_default,
     symbol_ns_addr = address_default, is_starting = False, log_warnings = False\<rparr>"

lemma example_client_fields [simp]:
  "agas_caching example_client" "range_caching example_client" "gva_cache example_client = lru_new 4"
  "migrated_objects_table example_client = []" "\<not> is_starting example_client" "\<not> log_warnings example_client"
  by (simp_all add: example_client_def)

definition example_servers :: "u32 \<Rightarrow> primary_namespace" where
  "example_servers l = example_primary"

lemma example_icl_ok: "icl_ok example_icl"
  by (simp add: icl_ok_def example_icl_def)

lemma example_client_reachable: "client_reachable icl (example_client, [example_servers])"
  by (rule reach_start) (simp add: client_initial_def example_client_def tables_ok_def tables_of_def
      example_servers_def example_primary_ok exI [of _ "4 :: u64"])

lemma example_key_not_invalid [simp]:
  "\<not> gid_eq (example_key l) invalid_gid" "\<not> gid_eq example_locality invalid_gid" "gid_to_bool (example_key l)"
  by (simp_all add: example_key_def example_locality_def gid_eq_def invalid_gid_def gid_of_lsb_def gid_copy_def mk_gid_def
      strip_lock_from_msb_def strip_internal_bits_from_msb_def mask_defs gid_to_bool_def)

lemma example_key_not_known:
  "resolve_locally_known_addresses (get_stripped_gid_except_dont_cache (example_key 18)) address_default example_client =
    Inr (address_default, False)"
  "resolve_locally_known_addresses (get_stripped_gid_except_dont_cache (example_key 16)) address_default example_client =
    Inr (address_default, False)"
  by (simp_all add: resolve_locally_known_addresses_def example_key_def example_client_def is_local_lva_encoded_address_def
      is_locality_def get_locality_from_gid_def get_gid_from_locality_id_def get_locality_id_from_gid_def
      get_locality_id_from_msb_def get_stripped_gid_except_dont_cache_def strip_internal_bits_except_dont_cache_from_msb_def
      strip_internal_bits_from_msb_def gid_eq_def mk_gid_def strip_lock_from_msb_def mask_defs
      HPX_AGAS_LOCALITY_NS_LSB_def HPX_AGAS_COMPONENT_NS_LSB_def HPX_AGAS_PRIMARY_NS_LSB_def HPX_AGAS_SYMBOL_NS_LSB_def)

text \<open>C10: Resolving through the cache. Whatever a client has resolved, bound, forgotten or marked before, and whatever
  ranges have been bound, bound to another address or unbound anywhere (without overlaps), resolving a gid that is not answered from local knowledge
  gives the answer of its home, which may be an earlier one: that of the state in which the home replied, or, from the cache, of some
  state since the start. If the home has never had another address for the gid than the present one,
  and replied in a state with that address, the result is exactly the present answer, from the cache or not, with
  or without caching of ranges.
\<close>

theorem cached_resolution_correct:
  assumes "icl_ok icl" "client_reachable icl (c, servers # past)" "old \<in> set (servers # past)" "gid_to_bool i"
    "resolve_locally_known_addresses (get_stripped_gid_except_dont_cache i) address_default c = Inr (a, False)"
  shows "\<exists>c' r. resolve_async icl (home_reply old i) i c = Some (c', r) \<and> client_reachable icl (c', servers # past) \<and>
    (r = answer (tables_of old) i \<or> (\<exists>h \<in> set (servers # past). \<exists>b. home_address (tables_of h) i = Some b \<and> r = Inr b)) \<and>
    (home_address (tables_of old) i = home_address (tables_of servers) i \<and>
     (\<forall>h \<in> set past. home_address (tables_of h) i \<in> {None, home_address (tables_of servers) i}) \<longrightarrow>
       r = answer (tables_of servers) i)"
proof -
  have "\<forall>ts \<in> states (servers # past). tables_ok ts" "coherent (states (servers # past)) c"
    using client_reachable_inv [OF assms(2,1)] by (simp_all add: client_inv_def)
  from resolve_async_ok [OF assms(1) this(1) _ this(2) assms(4,5), of old] obtain cache r where
    r: "resolve_async icl (home_reply old i) i c = Some (with_cache c cache, r)"
      "r = answer (tables_of old) i \<or> (\<exists>ts \<in> states (servers # past). \<exists>b. home_address ts i = Some b \<and> r = Inr b)"
    using assms(3) by blast
  moreover have "r = answer (tables_of servers) i"
    if "home_address (tables_of old) i = home_address (tables_of servers) i"
      "\<forall>h \<in> set past. home_address (tables_of h) i \<in> {None, home_address (tables_of servers) i}"
    using r(2) that by fastforce
  ultimately show ?thesis using resolve_async_reachable [OF assms(2-4) r(1)] by blast
qed

theorem cached_resolution_correct_witness:
  "\<exists>c'. resolve_async example_icl (home_reply example_servers (example_key 18)) (example_key 18) example_client =
      Some (c', Inr \<lparr>addr_locality = example_locality, addr_type = 17, addr_address = 0x1010\<rparr>) \<and>
    client_reachable example_icl (c', [example_servers])"
proof -
  have "home_address (tables_of example_servers) (example_key 18) =
      Some \<lparr>addr_locality = example_locality, addr_type = 17, addr_address = 0x1010\<rparr>"
  proof -
    have "resolve_spec (home (tables_of example_servers) (example_key 18)) (example_key 18) =
        (example_key 16, example_gva 4 0x1000, example_locality)"
      by (rule resolve_spec_found) (simp_all add: home_def tables_of_def example_servers_def example_primary_ok,
        simp_all add: example_defs)
    then show ?thesis
      by (simp add: home_address_def mk_address_def gva_lva_def)
        (simp add: example_defs gid_eq_def invalid_gid_def gid_of_lsb_def mk_gid_def gid_copy_def strip_lock_from_msb_def mask_defs
          strip_internal_bits_from_msb_def)
  qed
  then show ?thesis
    using cached_resolution_correct [OF example_icl_ok example_client_reachable _ _ example_key_not_known(1), of example_servers] by fastforce
qed

text \<open>The ranges in a client's cache never overlap, so that no gid is in two of them, and each entry is
  found under every gid of its range.
\<close>

lemma cached_ranges_disjoint:
  assumes "icl_ok icl" "client_reachable icl (c, hist)" "p \<in> set (lru_entries (gva_cache c))" "in_key (fst p) i"
  shows "(\<forall>q \<in> set (lru_entries (gva_cache c)). in_key (fst q) i \<longrightarrow> q = p) \<and>
    (\<forall>key. mk_cache_key i 1 = Inr key \<longrightarrow>
      (\<exists>cache. lru_get_entry (exclusive_less icl) key (gva_cache c) = Some (cache, Some p)))"
proof -
  have co: "coherent (states hist) c" using client_reachable_inv [OF assms(2,1)] by (simp add: client_inv_def)
  then have l: "lru_linked range_less (gva_cache c)" by (simp add: coherent_def lru_ok_def)
  have k: "key_ok (fst q)" if "q \<in> set (lru_entries (gva_cache c))" for q
    using co that known_key unfolding coherent_def by blast
  have uniq: "q = p" if "q \<in> set (lru_entries (gva_cache c))" "in_key (fst q) i" for q
    using ranges.linked_keys_apart [OF l that(1) assms(3)] cached_overlap k that assms(3,4) by blast
  moreover have "\<exists>cache. lru_get_entry (exclusive_less icl) key (gva_cache c) = Some (cache, Some p)"
    if "mk_cache_key i 1 = Inr key" for key
  proof -
    note pk = point_key [OF that]
    have "equiv_keys range_less (fst p) key" using cached_overlap [OF k [OF assms(3)] pk(1)] assms(4) pk(2) by blast
    then have f: "map_find range_less (lru_map (gva_cache c)) key \<noteq> None"
      using ranges.find_None_entries [OF l, of key] assms(3) by blast
    then obtain k0 it where x: "map_find range_less (lru_map (gva_cache c)) key = Some (k0, it)" by auto
    obtain cache e where g: "lru_get_entry range_less key (gva_cache c) = Some (cache, Some (k0, e))"
      "(k0, e) \<in> set (lru_entries (gva_cache c))"
      using ranges.get_entry_ok(2) [OF _ x] co by (auto simp: coherent_def)
    obtain j where j: "in_key k0 j" "stripped j = stripped i"
      using ranges.find_SomeD(2) [OF x] cached_overlap [OF _ pk(1)] k [OF g(2)] pk(2) by auto
    then have "in_key k0 i" using in_key_same [OF j(2)] by simp
    then have "(k0, e) = p" using uniq g(2) by simp
    then show ?thesis
      using g(1) lru_get_entry_cong [OF icl_agrees [OF assms(1) coherent_keys [OF co] pk(1)]] by auto
  qed
  ultimately show ?thesis by blast
qed

text \<open>
  That the answer can be an earlier one is not only a matter of replies that are on their way: unbinding a range leaves the
  caches as they are, and a client goes on to resolve its gids.
\<close>

definition example_caching :: agas_client where
  "example_caching = with_cache example_client ((lru_new 4)\<lparr>storage := [(1, (example_key 16, example_key 19), example_gva 4 0x1000)],
     lru_map := [((example_key 16, example_key 19), 1)], current_size := 1,
     statistics := update_on_exit method_update_entry (update_on_exit method_insert_entry (got_insertion (got_miss no_cache_statistics)))\<rparr>)"

lemma example_caching_fields [simp]:
  "agas_caching example_caching" "migrated_objects_table example_caching = []" "\<not> is_starting example_caching"
  "agas_locality example_caching = agas_locality example_client"
  by (simp_all add: example_caching_def)

lemma example_key_cached:
  "store_in_cache (example_key 16)" "store_in_cache (get_stripped_gid_except_dont_cache (example_key 16))"
  "get_locality_id_from_gid (get_stripped_gid_except_dont_cache (example_key 16)) \<noteq> get_locality_id_from_gid (agas_locality example_client)"
  "get_locality_id_from_gid (get_stripped_gid (example_key 16)) \<noteq> get_locality_id_from_gid (agas_locality example_client)"
proof -
  show "store_in_cache (example_key 16)" "store_in_cache (get_stripped_gid_except_dont_cache (example_key 16))"
    unfolding except_dont_cache_parts by (simp_all add: store_in_cache_def example_key_def mask_defs)
  show "get_locality_id_from_gid (get_stripped_gid_except_dont_cache (example_key 16)) \<noteq> get_locality_id_from_gid (agas_locality example_client)"
    "get_locality_id_from_gid (get_stripped_gid (example_key 16)) \<noteq> get_locality_id_from_gid (agas_locality example_client)"
    unfolding get_stripped_gid_eq same_entity(4) [OF except_dont_cache_parts(1)] example_stripped
    by (simp_all add: get_locality_id_from_gid_def get_locality_id_from_msb_def example_key_def example_client_def mask_defs)
qed

lemma example_caching_reachable: "client_reachable example_icl (example_caching, [example_servers])"
proof -
  let ?i = "example_key 16"
  have "resolve_spec (gvas example_primary) ?i = (?i, example_gva 4 0x1000, example_locality)"
    by (rule resolve_spec_found) (simp_all add: example_primary_ok, simp_all add: example_defs)
  then have rep: "home_reply example_servers ?i = Inr (?i, example_gva 4 0x1000, example_locality)"
    by (simp add: home_reply_def example_servers_def resolve_gid_finish_def resolve_gid_locked_spec [OF example_primary_ok])
  have key: "mk_cache_key (get_stripped_gid ?i) 4 = Inr (?i, example_key 19)"
    by (simp add: mk_cache_key_def get_stripped_gid_eq, simp add: gid_add_u64_no_carry example_key_def mk_gid_def strip_lock_from_msb_def mask_defs)
  have gva: "gva_copy (example_gva 4 0x1000) = example_gva 4 0x1000" "count (example_gva 4 0x1000) = 4"
    by (simp_all add: gva_copy_def example_gva_def gid_copy_def strip_lock_from_msb_def mask_defs)
  have "update_cache_entry example_icl ?i (example_gva 4 0x1000) example_client = Some (example_caching, Inr ())"
    using example_key_cached key
    by (simp add: update_cache_entry_def gva Let_def collision_asserts_def lru_update_if_def lru_insert_nonexist_def map_subscript_def
        std_map_defs new_node_def) (simp add: with_cache_def example_caching_def)
  then have "\<exists>r. resolve_full_async example_icl (home_reply example_servers ?i) ?i example_client = Some (example_caching, r)"
    using example_key_cached by (simp add: rep resolve_full_async_def resolve_full_postproc_def cache_resolved_def Let_def)
  then show ?thesis using reach_client_step [OF example_client_reachable step_resolved] example_key_not_invalid(3) by fastforce
qed

lemma known_locally_cache:
  "resolve_locally_known_addresses i a (with_cache c cache) = resolve_locally_known_addresses i a c"
  unfolding resolve_locally_known_addresses_def is_local_lva_encoded_address_def with_cache_def by (simp add: Let_def cong: if_cong)

lemma unbound_range_still_resolves:
  "\<exists>servers c' a. client_reachable example_icl (example_caching, [servers, example_servers]) \<and>
     home_address (tables_of servers) (example_key 16) = None \<and>
     resolve_async example_icl (home_reply servers (example_key 16)) (example_key 16) example_caching = Some (c', Inr a)"
proof -
  let ?i = "example_key 16" and ?l = "get_locality_id_from_gid (example_key 16)"
  have e: "(?i, example_gva 4 0x1000, example_locality) \<in> set (gvas example_primary)" "gid_eq ?i ?i"
    by (simp_all add: example_primary_def)
  obtain s' r where u: "unbind_gid 4 ?i example_primary = (s', r)"
    "resolve_gid_locked (gvas s') ?i = Inr unresolved" "table_ok (gvas s')"
    using unbind_gid_removes [OF example_primary_ok e] in_range_key [OF table_okD [OF example_primary_ok e(1)] e(2)]
    by (auto simp: example_gva_def)
  define servers where "servers = example_servers(?l := s')"
  have re: "client_reachable example_icl (example_caching, [servers, example_servers])"
    unfolding servers_def using u(1)
    by (intro reach_client_step [OF example_caching_reachable] step_unbind [OF refl]) (simp add: unbind_range_async_def example_servers_def)
  have "resolve_spec (gvas s') ?i = unresolved" using u(2) resolve_gid_locked_spec [OF u(3)] by simp
  then have none: "home_address (tables_of servers) ?i = None"
    by (simp add: home_address_def home_def tables_of_def servers_def unresolved_def)
  have nk: "resolve_locally_known_addresses (get_stripped_gid_except_dont_cache ?i) address_default example_caching = Inr (address_default, False)"
    using example_key_not_known(2) by (simp add: example_caching_def known_locally_cache)
  have p: "((?i, example_key 19), example_gva 4 0x1000) \<in> set (lru_entries (gva_cache example_caching))"
    by (simp add: example_caching_def lru_entries_def)
  let ?j = "get_stripped_gid_except_dont_cache ?i"
  have k: "in_key (?i, example_key 19) ?j" by (simp add: in_key_def) (simp add: example_key_def)
  obtain key where key: "mk_cache_key ?j 1 = Inr key" by (simp add: mk_cache_key_def)
  obtain cache where cache: "lru_get_entry (exclusive_less example_icl) key (gva_cache example_caching) =
      Some (cache, Some ((?i, example_key 19), example_gva 4 0x1000))"
    using cached_ranges_disjoint [OF example_icl_ok re p, of ?j] k key by auto
  have m: "strip_internal_bits_from_msb (id_msb ?j) = id_msb (key_get_gid (?i, example_key 19))"
    by (simp add: key_get_gid_def, simp add: msb_stripped [symmetric])
      (simp add: example_key_def gid_copy_def strip_lock_from_msb_def mask_defs)
  have "\<exists>a. agas_resolve_cached example_icl False ?i address_default example_caching = Some (with_cache example_caching cache, Inr (a, True))"
    using nk cache key m example_key_cached
    by (simp add: agas_resolve_cached_def get_cache_entry_def was_object_migrated_locked_def with_cache_def Let_def map_find_def map_lower_bound_def)
  then have "\<exists>c' a. resolve_async example_icl (home_reply servers ?i) ?i example_caching = Some (c', Inr a)"
    by (auto simp: resolve_async_def)
  with re none show ?thesis by blast
qed

text \<open>
  Two peculiarities of the code. The client does not know the gid of its own primary namespace
  (the address is assigned, but the branch does not return it as found); and the bulk version of
  \<open>resolve_full_local\<close> marks every address that is already resolved as local, wherever it is.
\<close>

lemma own_primary_not_known:
  "resolve_locally_known_addresses (get_service_instance_of_locality 1) address_default example_client =
    Inr (primary_ns_addr example_client, False)"
  by (simp add: resolve_locally_known_addresses_def get_service_instance_of_locality_def replace_locality_id_def
      example_client_def is_local_lva_encoded_address_def is_locality_def get_locality_from_gid_def
      get_gid_from_locality_id_def get_locality_id_from_gid_def get_locality_id_from_msb_def strip_internal_bits_from_msb_def
      gid_eq_def mk_gid_def strip_lock_from_msb_def mask_defs HPX_AGAS_LOCALITY_NS_LSB_def HPX_AGAS_COMPONENT_NS_LSB_def
      HPX_AGAS_PRIMARY_NS_LSB_def HPX_AGAS_PRIMARY_NS_MSB_def HPX_AGAS_SYMBOL_NS_LSB_def HPX_AGAS_LOCALITY_NS_MSB_def
      HPX_AGAS_COMPONENT_NS_MSB_def)

lemma bulk_marks_resolved_local:
  assumes "address_to_bool addr"
  shows "resolve_full_local_bulk icl rep [i] [addr] [False] c = Some (c, Inr ([addr], [True], True))"
  using assms by (simp add: resolve_full_local_bulk_def resize_locals_def)

end
