(* ===== verification/Chunk_Shape.thy ===== *)
theory Chunk_Shape
  imports Hpx_Prelude "HOL-Library.Monad_Syntax"
begin

text \<open>
  How the parallel algorithms cut a range of iterations into chunks: the executor parameters of
  \<^verbatim>\<open>hpx/parallel/executors/*_chunk_size.hpp\<close>, the functions \<open>get_bulk_iteration_shape\<close> and
  \<open>get_bulk_iteration_shape_idx\<close> of \<^verbatim>\<open>hpx/parallel/util/detail/chunk_size.hpp\<close>, the iterators over
  chunks of \<^verbatim>\<open>chunk_size_iterator.hpp\<close> and the iterator arithmetic they use from
  \<^verbatim>\<open>hpx/parallel/algorithms/detail/predicates.hpp\<close>.

  An iterator (or an integral loop variable) is its position, an integer; sizes are 64-bit words.
  A run gives \<open>None\<close> where the program has no outcome (a failed assertion, a division by zero, a
  loop that does not end, \<open>hpx::terminate\<close>), \<open>Some (Inl e)\<close> where it throws \<open>e\<close> and
  \<open>Some (Inr x)\<close> where it returns \<open>x\<close>. The readings of the clock that \<open>auto_chunk_size\<close> takes
  are an argument.
\<close>

section \<open>Runs and exceptions\<close>

datatype 'x exn = Bad_Alloc | Exception 'x | Exception_List "'x exn list"

type_synonym ('x, 'a) run = "('x exn + 'a) option"

definition ret :: "'a \<Rightarrow> ('x, 'a) run" where
  "ret x = Some (Inr x)"

definition throw :: "'x exn \<Rightarrow> ('x, 'a) run" where
  "throw e = Some (Inl e)"

definition run_bind :: "('x, 'a) run \<Rightarrow> ('a \<Rightarrow> ('x, 'b) run) \<Rightarrow> ('x, 'b) run" where
  "run_bind r f = Option.bind r (\<lambda>v. case v of Inl e \<Rightarrow> Some (Inl e) | Inr x \<Rightarrow> f x)"

definition run_assert :: "bool \<Rightarrow> ('x, 'a) run \<Rightarrow> ('x, 'a) run" where
  "run_assert c r = (if c then r else None)"

definition run_option :: "'a option \<Rightarrow> ('x, 'a) run" where
  "run_option v = map_option Inr v"

definition checked_div :: "u64 \<Rightarrow> u64 \<Rightarrow> u64 option" where
  "checked_div a b = (if b = 0 then None else Some (a div b))"

lemma run_bind_simps [simp]:
  "run_bind (ret x) f = f x" "run_bind (throw e) f = throw e" "run_bind None f = None"
  by (simp_all add: run_bind_def ret_def throw_def)

lemma run_bind_Some [simp]:
  "run_bind (Some (Inr x)) f = f x" "run_bind (Some (Inl e)) f = Some (Inl e)"
  by (simp_all add: run_bind_def)

lemma map_ret_inj: "map ret xs = map ret ys \<longleftrightarrow> xs = ys"
  by (auto simp: ret_def inj_on_def dest!: map_injective)

lemma run_cases:
  obtains "r = None" | e where "r = throw e" | x where "r = ret x"
  by (cases r; cases "the r") (auto simp: ret_def throw_def)

lemma run_assert_simps [simp]:
  "c \<Longrightarrow> run_assert c r = r" "\<not> c \<Longrightarrow> run_assert c r = None"
  by (simp_all add: run_assert_def)

lemma run_option_simps [simp]: "run_option (Some x) = ret x" "run_option None = None"
  by (simp_all add: run_option_def ret_def)

lemma checked_div_nonzero [simp]: "b \<noteq> 0 \<Longrightarrow> checked_div a b = Some (a div b)"
  by (simp add: checked_div_def)

lemma ret_eq [simp]: "ret x = ret y \<longleftrightarrow> x = y" "ret x \<noteq> throw e" "throw e \<noteq> ret x" "ret x \<noteq> None"
  "None \<noteq> ret x" "throw e \<noteq> None" "None \<noteq> throw e"
  by (simp_all add: ret_def throw_def)

lemma throw_eq [simp]: "(throw e :: ('x, 'a) run) = throw e' \<longleftrightarrow> e = e'"
  by (simp add: throw_def)

lemma run_bind_mono [partial_function_mono]:
  assumes "mono_option B" "\<And>y. mono_option (\<lambda>f. C y f)"
  shows "mono_option (\<lambda>f. run_bind (B f) (\<lambda>y. C y f))"
proof -
  have "mono_option (\<lambda>f. case v of Inl e \<Rightarrow> Some (Inl e) | Inr x \<Rightarrow> C x f)" for v
    by (cases v) (auto intro: assms option.const_mono)
  then show ?thesis unfolding run_bind_def by (intro bind_mono assms(1))
qed

section \<open>Iterators\<close>

type_synonym pos = int

datatype iter_kind = Integral_Type | Forward_Iterator | Bidirectional_Iterator

definition next_pos :: "pos \<Rightarrow> u64 \<Rightarrow> pos" where
  "next_pos it offset = it + uint offset"

function step_forward :: "pos \<Rightarrow> u64 \<Rightarrow> pos \<times> u64" where
  "step_forward it count = (if count = 0 then (it, count) else step_forward (it + 1) (count - 1))"
  by auto
termination
  by (relation "measure (\<lambda>(it, count). unat count)") (auto simp: unat_minus_one unat_gt_0)

declare step_forward.simps [simp del]

definition next_within :: "iter_kind \<Rightarrow> pos \<Rightarrow> u64 \<Rightarrow> u64 \<Rightarrow> pos \<times> u64" where
  "next_within kind it max_count offset = (let count = (if max_count < offset then max_count else offset) in
     case kind of
       Forward_Iterator \<Rightarrow> (case step_forward it count of (it', count') \<Rightarrow> (it', offset - count'))
     | Integral_Type \<Rightarrow> (it + uint count, count)
     | Bidirectional_Iterator \<Rightarrow> (next_pos it count, count))"

section \<open>Executor parameters\<close>

datatype exec_parameters =
    Static_Chunk_Size u64
  | Dynamic_Chunk_Size u64
  | Guided_Chunk_Size u64
  | Auto_Chunk_Size u64
  | Persistent_Auto_Chunk_Size u64 u64
  | Sequential_Parameters

type_synonym clock = "u64 \<times> u64" \<comment> \<open>the two readings around the timed chunk\<close>

definition static_get_chunk_size :: "u64 \<Rightarrow> u64 \<Rightarrow> u64 \<Rightarrow> u64 option" where
  "static_get_chunk_size chunk_size cores num_tasks =
     (if chunk_size \<noteq> 0 then Some chunk_size
      else checked_div (num_tasks + 4 * cores - 1) (4 * cores))"

definition guided_get_chunk_size :: "u64 \<Rightarrow> u64 \<Rightarrow> u64 \<Rightarrow> u64 option" where
  "guided_get_chunk_size min_chunk_size cores num_tasks =
     Option.bind (checked_div (num_tasks + cores - 1) cores) (\<lambda>q. Some (max min_chunk_size q))"

definition auto_get_chunk_size ::
  "u64 \<Rightarrow> clock \<Rightarrow> ('s \<Rightarrow> ('x, u64 \<times> 's) run) \<Rightarrow> u64 \<Rightarrow> u64 \<Rightarrow> 's \<Rightarrow> ('x, u64 \<times> 's) run" where
  "auto_get_chunk_size min_time clk f cores count s =
     (let fallback = (\<lambda>s. run_bind (run_option (checked_div (count + cores - 1) cores)) (\<lambda>q. ret (q, s))) in
      if count > 100 * cores then
        run_bind (f s) (\<lambda>(test_chunk_size, s').
          if test_chunk_size \<noteq> 0 then
            (let t = (snd clk - fst clk) div test_chunk_size in
             if t \<noteq> 0 \<and> min_time \<ge> t then ret (min count (min_time div t), s')
             else fallback s')
          else fallback s')
      else fallback s)"

definition persistent_get_chunk_size ::
  "u64 \<Rightarrow> u64 \<Rightarrow> clock \<Rightarrow> ('s \<Rightarrow> ('x, u64 \<times> 's) run) \<Rightarrow> u64 \<Rightarrow> u64 \<Rightarrow> 's
    \<Rightarrow> ('x, u64 \<times> u64 \<times> 's) run" where
  "persistent_get_chunk_size chunk_size_time min_time clk f cores count s =
     (let fallback = (\<lambda>c s. run_bind (run_option (checked_div (count + cores - 1) cores)) (\<lambda>q. ret (q, c, s))) in
      if count > 100 * cores then
        run_bind (f s) (\<lambda>(test_chunk_size, s').
          if test_chunk_size \<noteq> 0 then
            (let t = (if chunk_size_time = 0 then (snd clk - fst clk) div test_chunk_size
                      else chunk_size_time) in
             if t \<noteq> 0 \<and> min_time \<ge> t then ret (min count (min_time div t), t, s')
             else fallback t s')
          else fallback chunk_size_time s')
      else fallback chunk_size_time s)"

definition get_chunk_size ::
  "exec_parameters \<Rightarrow> clock \<Rightarrow> ('s \<Rightarrow> ('x, u64 \<times> 's) run) \<Rightarrow> u64 \<Rightarrow> u64 \<Rightarrow> 's
    \<Rightarrow> ('x, u64 \<times> exec_parameters \<times> 's) run" where
  "get_chunk_size params clk f cores num_tasks s = (case params of
       Static_Chunk_Size c \<Rightarrow>
         run_bind (run_option (static_get_chunk_size c cores num_tasks)) (\<lambda>q. ret (q, params, s))
     | Dynamic_Chunk_Size c \<Rightarrow> ret (c, params, s)
     | Guided_Chunk_Size c \<Rightarrow>
         run_bind (run_option (guided_get_chunk_size c cores num_tasks)) (\<lambda>q. ret (q, params, s))
     | Auto_Chunk_Size m \<Rightarrow>
         run_bind (auto_get_chunk_size m clk f cores num_tasks s) (\<lambda>(q, s'). ret (q, params, s'))
     | Persistent_Auto_Chunk_Size c m \<Rightarrow>
         run_bind (persistent_get_chunk_size c m clk f cores num_tasks s)
           (\<lambda>(q, c', s'). ret (q, Persistent_Auto_Chunk_Size c' m, s'))
     | Sequential_Parameters \<Rightarrow> ret (num_tasks, params, s))"

definition has_variable_chunk_size :: "exec_parameters \<Rightarrow> bool" where
  "has_variable_chunk_size params = (case params of Guided_Chunk_Size _ \<Rightarrow> True | _ \<Rightarrow> False)"

definition maximal_number_of_chunks :: "u64 \<Rightarrow> u64" where
  "maximal_number_of_chunks cores = 4 * cores"

section \<open>The shape of a loop\<close>

record chunk_iterator =
  it_pos :: pos
  it_chunk :: u64
  it_base :: u64 \<comment> \<open>only \<open>chunk_size_idx_iterator\<close> has it\<close>
  it_chunk_size :: u64
  it_count :: u64

definition make_chunk_iterator :: "pos \<Rightarrow> u64 \<Rightarrow> u64 \<Rightarrow> u64 \<Rightarrow> chunk_iterator" where
  "make_chunk_iterator it chunk_size count base_idx =
     \<lparr> it_pos = it, it_chunk = min chunk_size count, it_base = base_idx,
       it_chunk_size = chunk_size, it_count = count \<rparr>"

definition chunk_iterator_equal :: "chunk_iterator \<Rightarrow> chunk_iterator \<Rightarrow> bool" where
  "chunk_iterator_equal a b \<longleftrightarrow>
     it_pos a = it_pos b \<and> it_count a = it_count b \<and> it_chunk_size a = it_chunk_size b"

definition chunk_iterator_increment :: "chunk_iterator \<Rightarrow> chunk_iterator" where
  "chunk_iterator_increment a =
     (let count = it_count a - it_chunk a in
      a\<lparr> it_count := count, it_pos := next_pos (it_pos a) (it_chunk a),
         it_base := it_base a + it_chunk a, it_chunk := min (it_chunk_size a) count \<rparr>)"

type_synonym idx_chunk = "pos \<times> u64 \<times> u64" \<comment> \<open>begin, size, base index\<close>

definition chunk_iterator_deref :: "chunk_iterator \<Rightarrow> idx_chunk" where
  "chunk_iterator_deref a = (it_pos a, it_chunk a, it_base a)"

partial_function (option) range_elements :: "chunk_iterator \<Rightarrow> chunk_iterator \<Rightarrow> idx_chunk list option" where
  [code]: "range_elements a b =
     (if chunk_iterator_equal a b then Some []
      else Option.bind (range_elements (chunk_iterator_increment a) b)
             (\<lambda>xs. Some (chunk_iterator_deref a # xs)))"

record 'r shape_state =
  sh_items :: "'r list"
  sh_begin :: pos
  sh_count :: u64
  sh_base :: u64

definition abs_stride :: "int \<Rightarrow> int" where
  "abs_stride s = (if s < 0 then - s else s)"

definition round_up_stride :: "int \<Rightarrow> u64 \<Rightarrow> u64 option" where
  "round_up_stride stride c =
     (if stride \<noteq> 1 then
        Option.bind (checked_div (c + word_of_int stride - 1) (word_of_int stride))
          (\<lambda>q. Some (max (word_of_int stride) (q * word_of_int stride)))
      else Some c)"

definition round_down_stride :: "int \<Rightarrow> u64 \<Rightarrow> u64 option" where
  "round_down_stride stride c =
     (if stride \<noteq> 1 then
        Option.bind (checked_div (c + word_of_int stride) (word_of_int stride))
          (\<lambda>q. Some (max (word_of_int stride) ((q - 1) * word_of_int stride)))
      else Some c)"

type_synonym ('x, 'r) chunk_fun = "pos \<Rightarrow> u64 \<Rightarrow> u64 \<Rightarrow> ('x, 'r) run"

definition add_ready_future ::
  "('x, 'r) chunk_fun \<Rightarrow> pos \<Rightarrow> u64 \<Rightarrow> u64 \<Rightarrow> 'r list \<Rightarrow> ('x, 'r list) run" where
  "add_ready_future f first base_idx count workitems =
     run_bind (f first count base_idx) (\<lambda>r. ret (workitems @ [r]))"

definition test_function ::
  "(u64 \<Rightarrow> u64 option) \<Rightarrow> iter_kind \<Rightarrow> ('x, 'r) chunk_fun
    \<Rightarrow> 'r shape_state \<Rightarrow> ('x, u64 \<times> 'r shape_state) run" where
  "test_function adjust kind f1 s =
     (let test_chunk_size = sh_count s div 100 in
      if test_chunk_size = 0 then ret (0, s)
      else run_bind (run_option (adjust test_chunk_size)) (\<lambda>test_chunk_size.
        run_bind (add_ready_future f1 (sh_begin s) (sh_base s) test_chunk_size (sh_items s))
          (\<lambda>items. case next_within kind (sh_begin s) (sh_count s) test_chunk_size of
             (begin', test_chunk_size) \<Rightarrow>
               ret (test_chunk_size,
                 s\<lparr> sh_items := items, sh_begin := begin', sh_base := sh_base s + test_chunk_size,
                    sh_count := sh_count s - test_chunk_size \<rparr>))))"

definition fixed_shape ::
  "(int \<Rightarrow> u64 \<Rightarrow> u64 option) \<Rightarrow> exec_parameters \<Rightarrow> clock \<Rightarrow> u64 \<Rightarrow> iter_kind
    \<Rightarrow> ('x, 'r) chunk_fun \<Rightarrow> 'r list \<Rightarrow> pos \<Rightarrow> u64 \<Rightarrow> int
    \<Rightarrow> ('x, (chunk_iterator \<times> chunk_iterator) \<times> exec_parameters \<times> 'r shape_state) run" where
  "fixed_shape adjust params clk cores kind f1 workitems begin count s =
     (let max_chunks = maximal_number_of_chunks cores;
          last = next_pos begin count;
          stride = abs_stride s in
      run_assert (0 \<noteq> max_chunks)
       (run_bind (get_chunk_size params clk (test_function (adjust stride) kind f1) cores count
                    \<lparr> sh_items = workitems, sh_begin = begin, sh_count = count, sh_base = 0 \<rparr>)
         (\<lambda>(chunk_size, params', st).
            let max_chunks = min max_chunks (sh_count st) in
            run_bind (run_option (checked_div (sh_count st + max_chunks - 1) max_chunks)) (\<lambda>least.
            run_bind (run_option (round_down_stride stride (max chunk_size least))) (\<lambda>chunk_size.
              ret ((make_chunk_iterator (sh_begin st) chunk_size (sh_count st) (sh_base st),
                    make_chunk_iterator last chunk_size 0 0), params', st))))))"

definition get_bulk_iteration_shape where
  "get_bulk_iteration_shape params clk cores kind f1 = fixed_shape round_up_stride params clk cores kind (\<lambda>b n _. f1 b n)"

definition get_bulk_iteration_shape_idx where
  "get_bulk_iteration_shape_idx = fixed_shape round_down_stride"

partial_function (option) variable_shape_loop ::
  "exec_parameters \<Rightarrow> clock \<Rightarrow> u64 \<Rightarrow> iter_kind \<Rightarrow> int \<Rightarrow> u64 \<Rightarrow> pos \<Rightarrow> u64 \<Rightarrow> u64 \<Rightarrow> idx_chunk list
    \<Rightarrow> ('x, idx_chunk list \<times> exec_parameters \<times> pos) run" where
  [code]: "variable_shape_loop params clk cores kind stride max_chunks first count base_idx shape =
     (if count \<noteq> 0 then
        run_bind (get_chunk_size params clk (\<lambda>u. ret (0, u)) cores count ()) (\<lambda>r.
        run_bind (run_option (checked_div (count + max_chunks - 1) max_chunks)) (\<lambda>least.
        run_bind (run_option (round_down_stride stride (max (fst r) least))) (\<lambda>chunk_size.
          variable_shape_loop (fst (snd r)) clk cores kind stride max_chunks
            (fst (next_within kind first count (min chunk_size count)))
            (count - snd (next_within kind first count (min chunk_size count)))
            (base_idx + snd (next_within kind first count (min chunk_size count)))
            (shape @ [(first, min chunk_size count, base_idx)]))))
      else ret (shape, params, first))"

definition variable_shape ::
  "exec_parameters \<Rightarrow> clock \<Rightarrow> u64 \<Rightarrow> iter_kind \<Rightarrow> pos \<Rightarrow> u64 \<Rightarrow> int
    \<Rightarrow> ('x, idx_chunk list \<times> exec_parameters \<times> pos) run" where
  "variable_shape params clk cores kind first count s =
     (let max_chunks = maximal_number_of_chunks cores in
      run_assert (0 \<noteq> max_chunks)
        (variable_shape_loop params clk cores kind (abs_stride s) (min max_chunks count) first count 0 []))"

section \<open>Positions\<close>

lemma uint_pos_iff: "0 < uint x \<longleftrightarrow> x \<noteq> (0 :: u64)"
  using uint_ge_0 [of x] by (auto simp: less_le uint_0_iff)

lemma step_forward_eq [simp]: "step_forward it count = (it + uint count, 0)"
proof (induction it count rule: step_forward.induct)
  case (1 it count)
  show ?case
  proof (cases "count = 0")
    case False
    then have "1 \<le> uint count" using uint_pos_iff [of count] by simp
    then have "uint (count - 1) = uint count - 1" by (simp add: uint_sub_if')
    with False 1 show ?thesis by (subst step_forward.simps) simp
  qed (subst step_forward.simps, simp)
qed

lemma next_within_le: "offset \<le> max_count \<Longrightarrow> next_within kind it max_count offset = (it + uint offset, offset)"
  by (auto simp: next_within_def next_pos_def split: iter_kind.split)

section \<open>Rounding to the stride\<close>

lemma uint_stride: "0 < s \<Longrightarrow> s < 2 ^ 63 \<Longrightarrow> uint (word_of_int s :: u64) = s"
  by (simp add: uint_word_of_int take_bit_eq_mod)

lemma uint_max_word: "uint (max a b :: u64) = max (uint a) (uint b)"
  by (simp add: max_def word_le_def)

lemma uint_min_word: "uint (min a b :: u64) = min (uint a) (uint b)"
  by (simp add: min_def word_le_def)

lemma div_times_le: "0 < s \<Longrightarrow> k div s * s \<le> (k :: int)"
  by (simp add: minus_mod_eq_div_mult [symmetric])

lemma multiple_no_overflow:
  assumes "0 < s" "s < 2 ^ 63"
  shows "uint ((c div word_of_int s) * word_of_int s :: u64) = uint c div s * s"
proof -
  have w: "uint (word_of_int s :: u64) = s" using assms by (rule uint_stride)
  have "uint c div s * s \<le> uint c" using assms by (simp add: div_times_le)
  also have "uint c < 2 ^ 64" using uint_lt2p [of c] by simp
  finally have "uint c div s * s < 2 ^ 64" .
  moreover have "uint (c div word_of_int s) = uint c div s" using w by (simp add: uint_div)
  ultimately show ?thesis
    using w uint_mult_lem [of "c div word_of_int s" "word_of_int s :: u64"] by simp
qed

lemma round_down_value:
  assumes "0 < s" "s < 2 ^ 63" "uint c + s < 2 ^ 64"
  shows "round_down_stride s c =
    Some (if s = 1 then c else max (word_of_int s) ((c div word_of_int s) * word_of_int s))"
proof -
  define w where "w = (word_of_int s :: u64)"
  have w: "uint w = s" unfolding w_def using assms by (intro uint_stride)
  have w0: "w \<noteq> 0" using w assms(1) by auto
  have "uint (c + w) = uint c + s" using w assms(3) by (simp add: uint_plus_if')
  then have "uint ((c + w) div w) = uint c div s + 1"
    using assms(1) w by (simp add: uint_div div_add_self2)
  then have "uint ((c + w) div w - 1) = uint c div s"
    using assms(1) by (simp add: uint_sub_if' pos_imp_zdiv_nonneg_iff)
  then have "(c + w) div w - 1 = c div w"
    using w by (simp add: word_uint_eq_iff uint_div)
  then show ?thesis using w0 unfolding w_def by (simp add: round_down_stride_def)
qed

lemma round_down_overflow:
  assumes "1 < s" "s < 2 ^ 63" "2 ^ 64 \<le> uint c + s"
  obtains c' where "round_down_stride s c = Some c'" "2 ^ 63 \<le> uint c'"
proof -
  define w where "w = (word_of_int s :: u64)"
  have w: "uint w = s" unfolding w_def using assms by (intro uint_stride) auto
  have w0: "w \<noteq> 0" using w assms(1) by auto
  have "uint (c + w) = uint c + s - 2 ^ 64" using w assms(3) by (simp add: uint_plus_if')
  then have "uint (c + w) < s" using uint_lt2p [of c] by simp
  then have "uint ((c + w) div w) = 0" using w by (simp add: uint_div)
  then have q: "(c + w) div w = 0" by (simp add: word_uint_eq_iff)
  have r: "round_down_stride s c = Some (max w (- w))"
    using w0 q assms(1) by (simp add: round_down_stride_def w_def)
  have "uint (- w) = 2 ^ 64 - s"
    using assms(1,2) w by (simp add: uint_word_ariths(4) zmod_zminus1_eq_if)
  then have "2 ^ 63 \<le> uint (max w (- w))" using assms(2) by (simp add: uint_max_word)
  with r show thesis by (rule that)
qed

lemma round_down_ok:
  assumes "0 < s" "s < 2 ^ 63" "c \<noteq> 0"
  obtains c' where "round_down_stride s c = Some c'" "c' \<noteq> 0" "s dvd uint c' \<or> 2 ^ 63 \<le> uint c'"
    "s = 1 \<longrightarrow> c' = c"
proof (cases "s = 1 \<or> uint c + s < 2 ^ 64")
  case True
  show thesis
  proof (cases "s = 1")
    case True
    then show thesis using assms by (intro that [of c]) (auto simp: round_down_stride_def)
  next
    case False
    let ?c = "max (word_of_int s) ((c div word_of_int s) * word_of_int s) :: u64"
    have u: "uint ?c = max s (uint c div s * s)"
      using assms by (simp add: uint_max_word uint_stride multiple_no_overflow)
    then have d: "s dvd uint ?c" by (simp add: max_def)
    have "0 < uint ?c" using u assms(1) by simp
    then have nz: "?c \<noteq> 0" using uint_pos_iff [of ?c] by blast
    have "uint c + s < 2 ^ 64" using False True by simp
    then have "round_down_stride s c = Some ?c" using False assms round_down_value [of s c] by simp
    then show thesis using d nz False by (intro that [of ?c]) auto
  qed
next
  case False
  then have o: "1 < s" "2 ^ 64 \<le> uint c + s" using assms(1) by auto
  obtain c' where c: "round_down_stride s c = Some c'" "2 ^ 63 \<le> uint c'"
    by (rule round_down_overflow [OF o(1) assms(2) o(2)])
  have "c' \<noteq> 0" using c(2) by auto
  moreover have "s = 1 \<longrightarrow> c' = c" using o(1) by simp
  ultimately show thesis using c by (intro that [of c']) auto
qed

lemma round_up_value:
  assumes "1 < s" "s < 2 ^ 63" "uint c + s < 2 ^ 64"
  shows "round_up_stride s c =
    Some (max (word_of_int s) (((c + word_of_int s - 1) div word_of_int s) * word_of_int s))"
    and "uint (c + word_of_int s - 1) = uint c + s - 1"
proof -
  have w: "uint (word_of_int s :: u64) = s" using assms by (intro uint_stride) auto
  then have "word_of_int s \<noteq> (0 :: u64)" using assms(1) by auto
  then show "round_up_stride s c =
    Some (max (word_of_int s) (((c + word_of_int s - 1) div word_of_int s) * word_of_int s))"
    using assms by (simp add: round_up_stride_def)
  have "uint (c + word_of_int s) = uint c + s" using w assms(3) by (simp add: uint_plus_if')
  moreover have "1 \<le> uint c + s" using assms(1) uint_ge_0 [of c] by linarith
  ultimately show "uint (c + word_of_int s - 1) = uint c + s - 1" by (simp add: uint_sub_if')
qed

text \<open>
  The two versions of the shape round the size of the timed chunk differently. What the rest relies
  on: the result is a positive multiple of the stride, and smaller than the whole range if
  the stride is.
\<close>

locale stride_rounding =
  fixes adjust :: "int \<Rightarrow> u64 \<Rightarrow> u64 option"
  assumes adjusted: "0 < s \<Longrightarrow> s < 2 ^ 63 \<Longrightarrow> n < 2 ^ 64 \<Longrightarrow> uint t = n div 100 \<Longrightarrow> t \<noteq> 0 \<Longrightarrow>
    \<exists>t'. adjust s t = Some t' \<and> 0 < uint t' \<and> s dvd uint t' \<and> (s < n \<longrightarrow> uint t' < n)"

lemma small_multiple:
  fixes s n k :: int
  assumes "s < n" "0 < s" "k \<le> n div 100 + s - 1" "0 \<le> k"
  shows "max s (k div s * s) < n"
proof -
  have le: "k div s * s \<le> k" using assms(2) by (rule div_times_le)
  moreover have "k div s * s \<le> s" if "n div 100 \<le> s"
  proof -
    have "k < 2 * s" using that assms by simp
    then have "k div s * s < 2 * s" using le by simp
    then have "k div s < 2" using assms(2) by (simp only: mult_less_cancel_right_pos)
    then show ?thesis using assms(2) by simp
  qed
  ultimately show ?thesis using assms by linarith
qed

lemma timed_no_overflow:
  assumes "s < 2 ^ 63" "n < 2 ^ 64" "k = n div 100"
  shows "k + s < (2 :: int) ^ 64"
proof -
  have "100 * k \<le> n" using assms(3) pos_mod_sign [of 100 n] by (simp add: minus_mod_eq_mult_div [symmetric])
  then show ?thesis using assms(1,2) by simp
qed

interpretation rounding_up: stride_rounding round_up_stride
proof
  fix s n :: int and t :: u64
  assume a: "0 < s" "s < 2 ^ 63" "n < 2 ^ 64" "uint t = n div 100" "t \<noteq> 0"
  show "\<exists>t'. round_up_stride s t = Some t' \<and> 0 < uint t' \<and> s dvd uint t' \<and> (s < n \<longrightarrow> uint t' < n)"
  proof (cases "s = 1")
    case True
    then show ?thesis using a uint_pos_iff [of t] by (auto simp: round_up_stride_def)
  next
    case False
    let ?k = "t + word_of_int s - 1 :: u64"
    let ?c = "max (word_of_int s) ((?k div word_of_int s) * word_of_int s)"
    have o: "uint t + s < 2 ^ 64" using a(2-4) by (rule timed_no_overflow)
    have u: "uint ?c = max s ((uint t + s - 1) div s * s)"
      using a False o
      by (simp add: uint_max_word uint_stride multiple_no_overflow round_up_value(2))
    then have "s dvd uint ?c" "0 < uint ?c" using a(1) by (auto simp: max_def)
    moreover have "uint ?c < n" if "s < n"
      unfolding u using that a uint_ge_0 [of t] by (intro small_multiple) auto
    ultimately show ?thesis using False a o round_up_value(1) [of s t] by auto
  qed
qed

interpretation rounding_down: stride_rounding round_down_stride
proof
  fix s n :: int and t :: u64
  assume a: "0 < s" "s < 2 ^ 63" "n < 2 ^ 64" "uint t = n div 100" "t \<noteq> 0"
  have o: "uint t + s < 2 ^ 64" using a(2-4) by (rule timed_no_overflow)
  let ?c = "if s = 1 then t else max (word_of_int s) ((t div word_of_int s) * word_of_int s)"
  have pos: "0 < uint t" using a(5) by (simp add: uint_pos_iff)
  have u: "uint ?c = (if s = 1 then uint t else max s (uint t div s * s))"
    using a by (simp add: uint_max_word uint_stride multiple_no_overflow)
  then have "s dvd uint ?c" "0 < uint ?c" using a(1) pos by (auto simp: max_def)
  moreover have "uint ?c < n" if "s < n"
    unfolding u using that a pos small_multiple [of s n "uint t"] div_times_le [of 100 n] by auto
  ultimately show "\<exists>t'. round_down_stride s t = Some t' \<and> 0 < uint t' \<and> s dvd uint t' \<and> (s < n \<longrightarrow> uint t' < n)"
    using a o round_down_value [of s t] by auto
qed

section \<open>Chunks partition the range\<close>

fun consecutive :: "pos \<Rightarrow> u64 \<Rightarrow> idx_chunk list \<Rightarrow> pos \<Rightarrow> bool" where
  "consecutive b i [] e \<longleftrightarrow> b = e"
| "consecutive b i ((p, n, k) # xs) e \<longleftrightarrow>
     p = b \<and> k = i \<and> n \<noteq> 0 \<and> consecutive (b + uint n) (i + n) xs e"

definition aligned :: "int \<Rightarrow> idx_chunk list \<Rightarrow> bool" where
  "aligned s xs \<longleftrightarrow> (\<forall>(p, n, i) \<in> set (butlast xs). s dvd uint n)"

lemma aligned_simps [simp]:
  "aligned s []" "aligned s [x]"
  "aligned s ((p, n, i) # y # ys) \<longleftrightarrow> s dvd uint n \<and> aligned s (y # ys)"
  by (auto simp: aligned_def)

lemma aligned_Cons: "s dvd uint n \<Longrightarrow> aligned s xs \<Longrightarrow> aligned s ((p, n, i) # xs)"
  by (cases xs) auto

lemma aligned_one [simp]: "aligned 1 xs"
  by (auto simp: aligned_def)

lemma consecutive_append:
  "consecutive b i (xs @ ys) e \<longleftrightarrow> (\<exists>m k. consecutive b i xs m \<and> k = i + sum_list (map (\<lambda>(p, n, j). n) xs) \<and> consecutive m k ys e)"
  by (induction b i xs e rule: consecutive.induct) (auto simp: algebra_simps)

lemma consecutive_length: "consecutive b i xs e \<Longrightarrow> b + int (length xs) \<le> e"
proof (induction b i xs e rule: consecutive.induct)
  case (2 b i p n k xs e)
  then have "1 \<le> uint n" using uint_pos_iff [of n] by simp
  with 2 show ?case by auto
qed simp

definition chunk_inside :: "pos \<Rightarrow> u64 \<Rightarrow> pos \<Rightarrow> u64 \<Rightarrow> bool" where
  "chunk_inside first count b n \<longleftrightarrow> n \<noteq> 0 \<and> first \<le> b \<and> b + uint n \<le> next_pos first count"

lemma consecutive_inside:
  "consecutive b i cs e \<Longrightarrow> (p, n, k) \<in> set cs \<Longrightarrow> n \<noteq> 0 \<and> b \<le> p \<and> p + uint n \<le> e"
proof (induction b i cs e rule: consecutive.induct)
  case (2 b i p' n' k' xs e)
  then have le: "b + uint n' + int (length xs) \<le> e" using consecutive_length by auto
  have "(n \<noteq> 0 \<and> b + uint n' \<le> p \<and> p + uint n \<le> e) \<or> (p = b \<and> n = n' \<and> n \<noteq> 0)" using 2 by auto
  then show ?case using le uint_ge_0 [of n'] by (elim disjE conjE; simp; linarith)
qed simp

lemma uint_diff_le: "a \<le> b \<Longrightarrow> uint (b - a :: u64) = uint b - uint a"
  by (simp add: uint_sub_if' word_le_def)

lemma chunk_iterator_equal_make:
  "chunk_iterator_equal (make_chunk_iterator b cs n i) (make_chunk_iterator (next_pos b n) cs 0 0) \<longleftrightarrow> n = 0"
  by (auto simp: chunk_iterator_equal_def make_chunk_iterator_def next_pos_def)

lemma chunk_iterator_increment_make:
  "chunk_iterator_increment (make_chunk_iterator b cs n i) =
     make_chunk_iterator (next_pos b (min cs n)) cs (n - min cs n) (i + min cs n)"
  by (simp add: chunk_iterator_increment_def make_chunk_iterator_def Let_def)

lemma range_elements_partition:
  assumes "cs \<noteq> 0" "s dvd uint cs \<or> n \<le> cs"
  shows "\<exists>xs. range_elements (make_chunk_iterator b cs n i) (make_chunk_iterator (next_pos b n) cs 0 0) = Some xs \<and>
    consecutive b i xs (next_pos b n) \<and> aligned s xs \<and> int (length xs) * uint cs < uint n + uint cs"
  using assms(2)
proof (induction "unat n" arbitrary: b n i rule: less_induct)
  case less
  show ?case
  proof (cases "n = 0")
    case True
    then have "range_elements (make_chunk_iterator b cs n i) (make_chunk_iterator (next_pos b n) cs 0 0) = Some []"
      by (subst range_elements.simps) (simp only: chunk_iterator_equal_make simp_thms if_True)
    with True show ?thesis using assms(1) by (auto simp: next_pos_def uint_pos_iff)
  next
    case False
    let ?m = "min cs n"
    have m: "?m \<noteq> 0" "?m \<le> n" using False assms(1) by (auto simp: min_def)
    then have un: "uint (n - ?m) = uint n - uint ?m" by (simp add: uint_diff_le)
    have um: "0 < uint ?m" using m(1) uint_pos_iff by blast
    have "uint (n - ?m) < uint n" using un um by linarith
    then have "unat (n - ?m) < unat n" by (simp only: word_less_nat_alt [symmetric] word_less_def)
    moreover have "s dvd uint cs \<or> n - ?m \<le> cs"
      using less.prems False by (auto simp: min_def)
    ultimately obtain xs where xs:
      "range_elements (make_chunk_iterator (next_pos b ?m) cs (n - ?m) (i + ?m))
         (make_chunk_iterator (next_pos (next_pos b ?m) (n - ?m)) cs 0 0) = Some xs"
      "consecutive (next_pos b ?m) (i + ?m) xs (next_pos (next_pos b ?m) (n - ?m))" "aligned s xs"
      "int (length xs) * uint cs < uint (n - ?m) + uint cs"
      using less.hyps [of "n - ?m" "next_pos b ?m" "i + ?m"] by blast
    have e: "next_pos (next_pos b ?m) (n - ?m) = next_pos b n"
      using un by (simp add: next_pos_def)
    have single: "xs = []" if "n \<le> cs"
    proof -
      have "?m = n" using that by (simp add: min_absorb2)
      then show ?thesis using consecutive_length [OF xs(2)] by (simp add: next_pos_def)
    qed
    have "range_elements (make_chunk_iterator b cs n i) (make_chunk_iterator (next_pos b n) cs 0 0) =
      Some ((b, ?m, i) # xs)"
      using False xs(1) e
      by (subst range_elements.simps)
        (simp add: chunk_iterator_equal_make chunk_iterator_increment_make chunk_iterator_deref_def,
         simp add: make_chunk_iterator_def)
    moreover have "consecutive b i ((b, ?m, i) # xs) (next_pos b n)"
      using xs(2) [unfolded e] m(1) by (simp add: next_pos_def)
    moreover have "aligned s ((b, ?m, i) # xs)"
    proof (cases "n \<le> cs")
      case True
      then show ?thesis using single by simp
    next
      case False
      then show ?thesis using less.prems xs(3) by (intro aligned_Cons) (auto simp: min_def)
    qed
    moreover have "int (length ((b, ?m, i) # xs)) * uint cs < uint n + uint cs"
    proof (cases "n \<le> cs")
      case True
      then show ?thesis using False single by (simp add: uint_pos_iff)
    next
      case False
      then have "?m = cs" by (simp add: min_absorb1)
      then show ?thesis using xs(4) un by (simp add: algebra_simps)
    qed
    ultimately show ?thesis by blast
  qed
qed

section \<open>Executor parameters call the timing function at most once\<close>

definition times_chunks :: "exec_parameters \<Rightarrow> bool" where
  "times_chunks params \<longleftrightarrow> (case params of Auto_Chunk_Size _ \<Rightarrow> True | Persistent_Auto_Chunk_Size _ _ \<Rightarrow> True | _ \<Rightarrow> False)"

lemma auto_get_chunk_size_cases:
  assumes "cores \<noteq> 0"
  shows "(\<exists>q. auto_get_chunk_size m clk f cores n s = ret (q, s)) \<or>
    (\<exists>t s' q. f s = ret (t, s') \<and> auto_get_chunk_size m clk f cores n s = ret (q, s')) \<or>
    (\<exists>e. f s = throw e \<and> auto_get_chunk_size m clk f cores n s = throw e) \<or> f s = None"
proof (cases "n > 100 * cores")
  case True
  show ?thesis
  proof (cases "f s")
    case (Some v)
    then show ?thesis
      using assms True by (cases v) (auto simp: auto_get_chunk_size_def Let_def ret_def throw_def)
  qed simp
qed (use assms in \<open>simp add: auto_get_chunk_size_def\<close>)

lemma persistent_get_chunk_size_cases:
  assumes "cores \<noteq> 0"
  shows "(\<exists>q c'. persistent_get_chunk_size c m clk f cores n s = ret (q, c', s)) \<or>
    (\<exists>t s' q c'. f s = ret (t, s') \<and> persistent_get_chunk_size c m clk f cores n s = ret (q, c', s')) \<or>
    (\<exists>e. f s = throw e \<and> persistent_get_chunk_size c m clk f cores n s = throw e) \<or> f s = None"
proof (cases "n > 100 * cores")
  case True
  show ?thesis
  proof (cases "f s")
    case (Some v)
    then show ?thesis
      using assms True by (cases v) (auto simp: persistent_get_chunk_size_def Let_def ret_def throw_def)
  qed simp
qed (use assms in \<open>simp add: persistent_get_chunk_size_def\<close>)

lemma get_chunk_size_cases:
  assumes "4 * cores \<noteq> 0"
  obtains q p' where "get_chunk_size params clk f cores n s = ret (q, p', s)"
  | t s' q p' where "times_chunks params" "f s = ret (t, s')" "get_chunk_size params clk f cores n s = ret (q, p', s')"
  | e where "times_chunks params" "f s = throw e" "get_chunk_size params clk f cores n s = throw e"
  | "times_chunks params" "f s = None"
proof -
  have c: "cores \<noteq> 0" using assms by auto
  show thesis
  proof (cases params)
    case (Static_Chunk_Size c)
    then show thesis using assms that(1) by (cases "c = 0") (auto simp: get_chunk_size_def static_get_chunk_size_def)
  next
    case (Dynamic_Chunk_Size c)
    then show thesis using that(1) by (simp add: get_chunk_size_def)
  next
    case (Guided_Chunk_Size x)
    then show thesis using c that(1) by (simp add: get_chunk_size_def guided_get_chunk_size_def)
  next
    case (Auto_Chunk_Size x)
    then show thesis
      using auto_get_chunk_size_cases [OF c, of x clk f n s] that
      by (elim disjE exE conjE) (auto simp: get_chunk_size_def times_chunks_def)
  next
    case (Persistent_Auto_Chunk_Size x y)
    then show thesis
      using persistent_get_chunk_size_cases [OF c, of x y clk f n s] that
      by (elim disjE exE conjE) (auto simp: get_chunk_size_def times_chunks_def)
  next
    case Sequential_Parameters
    then show thesis using that(1) by (simp add: get_chunk_size_def)
  qed
qed

lemma least_chunk_size:
  fixes m n :: u64
  assumes "m \<noteq> 0" "n \<noteq> 0" "uint n \<le> 2 ^ 63" "uint m \<le> 2 ^ 63"
  shows "(n + m - 1) div m \<noteq> 0" "uint n \<le> uint ((n + m - 1) div m) * uint m"
proof -
  have pos: "0 < uint m" "0 < uint n" using assms(1,2) uint_pos_iff by blast+
  have s: "uint (n + m - 1) = uint n + uint m - 1"
  proof (cases "uint n + uint m < 2 ^ 64")
    case True
    then have "uint (n + m) = uint n + uint m" by (simp add: uint_plus_if')
    then show ?thesis using pos by (simp add: uint_sub_if')
  next
    case False
    then have "uint n = 2 ^ 63" "uint m = 2 ^ 63" using assms(3,4) by auto
    then show ?thesis by (simp add: uint_sub_if' uint_plus_if')
  qed
  let ?q = "(uint n + uint m - 1) div uint m"
  have q: "uint ((n + m - 1) div m) = ?q" by (simp add: uint_div s)
  have "uint n + uint m - 1 < ?q * uint m + uint m"
    using pos(1) by (metis add.commute div_mult_mod_eq mult.commute add_less_cancel_left pos_mod_bound)
  then show le: "uint n \<le> uint ((n + m - 1) div m) * uint m" by (simp add: q)
  then show "(n + m - 1) div m \<noteq> 0" using pos by auto
qed

section \<open>The fixed shape\<close>

text \<open>
  What a shape promises: chunks \<open>tests\<close> were run while the shape was made (at most one, by the
  timing function), the rest \<open>xs\<close> is left to run; together they cut the range into consecutive
  pieces whose sizes are multiples of the stride, except for the last.
\<close>

definition apply_chunk :: "('p \<Rightarrow> 'n \<Rightarrow> 'i \<Rightarrow> 'r) \<Rightarrow> 'p \<times> 'n \<times> 'i \<Rightarrow> 'r" where
  "apply_chunk g c = (case c of (b, n, i) \<Rightarrow> g b n i)"

definition cuts :: "int \<Rightarrow> pos \<Rightarrow> u64 \<Rightarrow> idx_chunk list \<Rightarrow> idx_chunk list \<Rightarrow> bool" where
  "cuts s b n tests xs \<longleftrightarrow> length tests \<le> 1 \<and> xs \<noteq> [] \<and>
     consecutive b 0 (tests @ xs) (next_pos b n) \<and> aligned s (tests @ xs)"

context stride_rounding
begin

lemma test_function_result:
  fixes F :: "('x, 'r) chunk_fun"
  assumes "0 < s" "s < 2 ^ 63" "s < uint (sh_count st)" "sh_count st div 100 \<noteq> 0"
  shows "\<exists>t. 0 < uint t \<and> uint t < uint (sh_count st) \<and> s dvd uint t \<and>
    test_function (adjust s) kind F st = run_bind (F (sh_begin st) t (sh_base st))
      (\<lambda>r. ret (t, st\<lparr> sh_items := sh_items st @ [r],
        sh_begin := next_pos (sh_begin st) t, sh_base := sh_base st + t, sh_count := sh_count st - t \<rparr>))"
proof -
  have "uint (sh_count st div 100) = uint (sh_count st) div 100" by (simp add: uint_div)
  then obtain t where t: "adjust s (sh_count st div 100) = Some t" "0 < uint t" "s dvd uint t"
    "uint t < uint (sh_count st)"
    using adjusted [OF assms(1,2), of "uint (sh_count st)" "sh_count st div 100"] assms(3,4) uint_lt2p [of "sh_count st"]
    by auto
  have "next_within kind (sh_begin st) (sh_count st) t = (next_pos (sh_begin st) t, t)"
    using t(4) by (simp add: next_within_le word_le_def next_pos_def)
  then have "test_function (adjust s) kind F st = run_bind (F (sh_begin st) t (sh_base st))
      (\<lambda>r. ret (t, st\<lparr> sh_items := sh_items st @ [r],
        sh_begin := next_pos (sh_begin st) t, sh_base := sh_base st + t, sh_count := sh_count st - t \<rparr>))"
    using t(1) assms(4)
    by (cases "F (sh_begin st) t (sh_base st)" rule: run_cases) (simp_all add: test_function_def add_ready_future_def)
  with t show ?thesis by blast
qed

lemma shape_of_state:
  assumes "4 * cores \<noteq> 0" "0 < s" "s < 2 ^ 63" "n \<noteq> 0" "uint n \<le> 2 ^ 63"
  defines "m \<equiv> min (4 * cores) n"
  shows "\<exists>cs xs. run_bind (run_option (checked_div (n + m - 1) m)) (\<lambda>least.
        run_bind (run_option (round_down_stride s (max q least))) (\<lambda>cs. ret (h cs))) = ret (h cs) \<and>
      range_elements (make_chunk_iterator b cs n i) (make_chunk_iterator (next_pos b n) cs 0 0) = Some xs \<and>
      consecutive b i xs (next_pos b n) \<and> aligned s xs \<and> xs \<noteq> [] \<and>
      (s = 1 \<longrightarrow> int (length xs) \<le> uint (4 * cores))"
proof -
  let ?l = "(n + m - 1) div m"
  have m: "m \<noteq> 0" "m \<le> n" "m \<le> 4 * cores" using assms(1,4) by (auto simp: m_def min_def)
  have "uint m \<le> 2 ^ 63" using m(2) assms(5) by (simp add: word_le_def)
  then have l: "?l \<noteq> 0" "uint n \<le> uint ?l * uint m"
    using least_chunk_size [OF m(1) assms(4,5)] by auto
  have "max q ?l \<noteq> 0" using l(1) by (auto simp: max_def)
  then obtain cs where cs: "round_down_stride s (max q ?l) = Some cs" "cs \<noteq> 0"
    "s dvd uint cs \<or> 2 ^ 63 \<le> uint cs" "s = 1 \<longrightarrow> cs = max q ?l"
    by (rule round_down_ok [OF assms(2,3)])
  then have "s dvd uint cs \<or> n \<le> cs" using assms(5) by (auto simp: word_le_def)
  then obtain xs where xs: "range_elements (make_chunk_iterator b cs n i) (make_chunk_iterator (next_pos b n) cs 0 0) = Some xs"
    "consecutive b i xs (next_pos b n)" "aligned s xs" "int (length xs) * uint cs < uint n + uint cs"
    using range_elements_partition [OF cs(2)] by blast
  have "xs \<noteq> []" using xs(2) assms(4) by (auto simp: next_pos_def uint_0_iff)
  moreover have "int (length xs) \<le> uint (4 * cores)" if "s = 1"
  proof -
    have "uint ?l \<le> uint cs" using cs(4) that by (simp add: uint_max_word)
    then have "uint ?l * uint m \<le> uint cs * uint m" by (intro mult_right_mono) simp_all
    then have "int (length xs) * uint cs < (uint m + 1) * uint cs"
      using xs(4) l(2) by (simp add: algebra_simps)
    moreover have "0 < uint cs" using cs(2) uint_pos_iff [of cs] by blast
    ultimately have "int (length xs) < uint m + 1" by (simp only: mult_less_cancel_right_pos)
    then show ?thesis using m(3) by (simp add: word_le_def)
  qed
  ultimately show ?thesis using cs(1) m(1) xs(1-3) by auto
qed

lemma fixed_shape_cuts:
  fixes F :: "('x, 'r) chunk_fun"
  assumes "4 * cores \<noteq> 0" "0 < s" "s < 2 ^ 63" "count \<noteq> 0" "uint count \<le> 2 ^ 63"
    "times_chunks params \<longrightarrow> s < uint count" and F: "\<And>n. chunk_inside b count b n \<Longrightarrow> F b n 0 \<noteq> None"
  shows "(\<exists>it1 it2 p' st tests rs xs.
    fixed_shape adjust params clk cores kind F items b count s = ret ((it1, it2), p', st) \<and>
    range_elements it1 it2 = Some xs \<and> cuts s b count tests xs \<and>
    sh_items st = items @ rs \<and> map (apply_chunk F) tests = map ret rs \<and>
    uint (sh_count st) = uint count - sum_list (map (\<lambda>(b, n, i). uint n) tests) \<and>
    (s = 1 \<longrightarrow> int (length xs) \<le> uint (4 * cores))) \<or>
   (\<exists>n e. times_chunks params \<and> F b n 0 = throw e \<and>
      fixed_shape adjust params clk cores kind F items b count s = throw e)"
    (is "?ok \<or> ?thrown")
proof -
  let ?f = "test_function (adjust s) kind F"
  let ?st = "\<lparr> sh_items = items, sh_begin = b, sh_count = count, sh_base = 0 \<rparr>"
  let ?shape = "fixed_shape adjust params clk cores kind F items b count s"
  define h where "h = (\<lambda>(st :: 'r shape_state) (p' :: exec_parameters) cs.
    ((make_chunk_iterator (sh_begin st) cs (sh_count st) (sh_base st),
      make_chunk_iterator (next_pos b count) cs 0 0), p', st))"
  have s: "abs_stride s = s" using assms(2) by (simp add: abs_stride_def)
  have shape: "?shape = run_bind (get_chunk_size params clk ?f cores count ?st) (\<lambda>(q, p', st).
      run_bind (run_option (checked_div (sh_count st + min (4 * cores) (sh_count st) - 1) (min (4 * cores) (sh_count st)))) (\<lambda>least.
       run_bind (run_option (round_down_stride s (max q least))) (\<lambda>cs. ret (h st p' cs))))"
    using assms(1) by (simp add: fixed_shape_def s maximal_number_of_chunks_def h_def Let_def)
  have unchanged: ?ok if get: "get_chunk_size params clk ?f cores count ?st = ret (q, p', ?st)" for q p'
  proof -
    obtain cs xs where "?shape = ret (h ?st p' cs)"
      "range_elements (make_chunk_iterator b cs count 0) (make_chunk_iterator (next_pos b count) cs 0 0) = Some xs"
      "consecutive b 0 xs (next_pos b count)" "aligned s xs" "xs \<noteq> []" "s = 1 \<longrightarrow> int (length xs) \<le> uint (4 * cores)"
      using shape_of_state [OF assms(1-5), of q "h ?st p'" b 0] shape get by auto
    then show ?thesis
      by (intro exI [of _ "make_chunk_iterator b cs count 0"] exI [of _ "make_chunk_iterator (next_pos b count) cs 0 0"]
          exI [of _ p'] exI [of _ ?st] exI [of _ "[]"] exI [of _ xs])
        (simp add: h_def cuts_def)
  qed
  have timed: ?ok if m: "times_chunks params" and big: "count div 100 \<noteq> 0"
    and f: "?f ?st = ret (t, st)" and get: "get_chunk_size params clk ?f cores count ?st = ret (q, p', st)" for t st q p'
  proof -
    obtain u where u: "0 < uint u" "uint u < uint count" "s dvd uint u"
      and fu: "?f ?st = run_bind (F b u 0) (\<lambda>r. ret (u,
        \<lparr> sh_items = items @ [r], sh_begin = next_pos b u, sh_count = count - u, sh_base = u \<rparr>))"
      using test_function_result [OF assms(2,3), of ?st kind F] m big assms(6) by auto
    obtain r where r: "F b u 0 = ret r"
      and st: "st = \<lparr> sh_items = items @ [r], sh_begin = next_pos b u, sh_count = count - u, sh_base = u \<rparr>"
      using f fu by (cases "F b u 0" rule: run_cases) auto
    have un: "uint (count - u) = uint count - uint u" using u(2) by (simp add: uint_diff_le word_le_def)
    have e: "next_pos (next_pos b u) (count - u) = next_pos b count" by (simp add: next_pos_def un)
    have "count - u \<noteq> 0" using u(2) by auto
    moreover have "uint (count - u) \<le> 2 ^ 63" using un u(1) assms(5) by simp
    ultimately obtain cs xs where "?shape = ret (h st p' cs)"
      "range_elements (make_chunk_iterator (next_pos b u) cs (count - u) u) (make_chunk_iterator (next_pos b count) cs 0 0) = Some xs"
      "consecutive (next_pos b u) u xs (next_pos b count)" "aligned s xs" "xs \<noteq> []" "s = 1 \<longrightarrow> int (length xs) \<le> uint (4 * cores)"
      using shape_of_state [OF assms(1-3), of "count - u" q "h st p'" "next_pos b u" u] shape get e
      unfolding st by auto
    moreover have "u \<noteq> 0" using u(1) by auto
    ultimately show ?thesis using u(3) un r
      by (intro exI [of _ "make_chunk_iterator (next_pos b u) cs (count - u) u"]
          exI [of _ "make_chunk_iterator (next_pos b count) cs 0 0"]
          exI [of _ p'] exI [of _ st] exI [of _ "[(b, u, 0)]"] exI [of _ "[r]"] exI [of _ xs])
        (simp add: h_def cuts_def aligned_Cons apply_chunk_def st, simp add: next_pos_def)
  qed
  have small: "?f ?st = ret (0, ?st)" if "count div 100 = 0"
    using that by (simp add: test_function_def)
  show ?thesis
  proof (rule get_chunk_size_cases [OF assms(1), of params clk ?f count ?st])
    fix q p' assume "get_chunk_size params clk ?f cores count ?st = ret (q, p', ?st)"
    then show ?thesis using unchanged by blast
  next
    fix t st q p'
    assume "times_chunks params" "?f ?st = ret (t, st)"
      "get_chunk_size params clk ?f cores count ?st = ret (q, p', st)"
    then show ?thesis using timed unchanged small by (cases "count div 100 = 0") auto
  next
    fix e assume m: "times_chunks params" and f: "?f ?st = throw e"
      and get: "get_chunk_size params clk ?f cores count ?st = throw e"
    have "count div 100 \<noteq> 0" using f small by auto
    then obtain u where "?f ?st = run_bind (F b u 0) (\<lambda>r. ret (u,
        \<lparr> sh_items = items @ [r], sh_begin = next_pos b u, sh_count = count - u, sh_base = u \<rparr>))"
      using test_function_result [OF assms(2,3), of ?st kind F] m assms(6) by auto
    then have "F b u 0 = throw e" using f by (cases "F b u 0" rule: run_cases) (auto simp: throw_eq)
    then show ?thesis using m shape get by (intro disjI2 exI [of _ u] exI [of _ e]) simp
  next
    assume m: "times_chunks params" and f: "?f ?st = None"
    have "count div 100 \<noteq> 0" using f small by auto
    then obtain u where u: "0 < uint u" "uint u < uint count" and "?f ?st = run_bind (F b u 0) (\<lambda>r. ret (u,
        \<lparr> sh_items = items @ [r], sh_begin = next_pos b u, sh_count = count - u, sh_base = u \<rparr>))"
      using test_function_result [OF assms(2,3), of ?st kind F] m assms(6) by auto
    then have "F b u 0 = None" using f by (cases "F b u 0" rule: run_cases) auto
    moreover have "chunk_inside b count b u" using u by (auto simp: chunk_inside_def next_pos_def)
    ultimately show ?thesis using F by blast
  qed
qed

end

section \<open>The shape with chunks of variable size\<close>

lemma get_chunk_size_untimed:
  fixes F :: "'s \<Rightarrow> ('x, u64 \<times> 's) run"
  assumes "4 * cores \<noteq> 0" and F: "F = (\<lambda>u. ret (0, u))"
  obtains q p' where "get_chunk_size params clk F cores n s = ret (q, p', s)"
  by (rule get_chunk_size_cases [OF assms(1), of params clk F n s]) (auto simp: F)

lemma variable_shape_loop_ok:
  assumes "4 * cores \<noteq> 0" "0 < s" "s < 2 ^ 63" "m \<noteq> 0" "uint m \<le> 2 ^ 63" "uint n \<le> 2 ^ 63"
  shows "\<exists>xs p'. variable_shape_loop params clk cores kind s m b n i shape =
      (ret (shape @ xs, p', next_pos b n) :: ('x, _) run) \<and>
    consecutive b i xs (next_pos b n) \<and> aligned s xs"
  using assms(6)
proof (induction "unat n" arbitrary: params b n i shape rule: less_induct)
  case less
  show ?case
  proof (cases "n = 0")
    case True
    then show ?thesis by (subst variable_shape_loop.simps) (simp add: next_pos_def)
  next
    case False
    obtain q p' where get: "get_chunk_size params clk (\<lambda>u. ret (0, u)) cores n () = (ret (q, p', ()) :: ('x, _) run)"
      by (rule get_chunk_size_untimed [OF assms(1) refl])
    let ?l = "(n + m - 1) div m"
    have "?l \<noteq> 0" using False assms(4,5) less.prems by (intro least_chunk_size)
    then have "max q ?l \<noteq> 0" by (auto simp: max_def)
    then obtain cs where cs: "round_down_stride s (max q ?l) = Some cs" "cs \<noteq> 0"
      "s dvd uint cs \<or> 2 ^ 63 \<le> uint cs"
      by (rule round_down_ok [OF assms(2,3)])
    let ?m = "min cs n"
    have mn: "?m \<noteq> 0" "?m \<le> n" using False cs(2) by (auto simp: min_def)
    then have un: "uint (n - ?m) = uint n - uint ?m" by (simp add: uint_diff_le)
    have "0 < uint ?m" using mn(1) uint_pos_iff by blast
    then have lt: "uint (n - ?m) < uint n" "uint (n - ?m) \<le> 2 ^ 63" using un less.prems by linarith+
    have nw: "next_within kind b n ?m = (next_pos b ?m, ?m)"
      using mn(2) by (simp add: next_within_le next_pos_def)
    have "unat (n - ?m) < unat n" using lt(1) by (simp only: word_less_nat_alt [symmetric] word_less_def)
    then obtain xs p'' where xs: "variable_shape_loop p' clk cores kind s m (next_pos b ?m) (n - ?m) (i + ?m) (shape @ [(b, ?m, i)]) =
        (ret ((shape @ [(b, ?m, i)]) @ xs, p'', next_pos (next_pos b ?m) (n - ?m)) :: ('x, _) run)"
      "consecutive (next_pos b ?m) (i + ?m) xs (next_pos (next_pos b ?m) (n - ?m))" "aligned s xs"
      using less.hyps [of "n - ?m" p' "next_pos b ?m" "i + ?m" "shape @ [(b, ?m, i)]"] lt(2) by blast
    have e: "next_pos (next_pos b ?m) (n - ?m) = next_pos b n" using un by (simp add: next_pos_def)
    have "variable_shape_loop params clk cores kind s m b n i shape =
        (ret (shape @ (b, ?m, i) # xs, p'', next_pos b n) :: ('x, _) run)"
      using False get cs(1) xs(1) assms(4) e by (subst variable_shape_loop.simps) (simp add: nw)
    moreover have "consecutive b i ((b, ?m, i) # xs) (next_pos b n)"
      using xs(2) [unfolded e] mn(1) by (simp add: next_pos_def)
    moreover have "aligned s ((b, ?m, i) # xs)"
    proof (cases "n \<le> cs")
      case True
      then have "?m = n" by (simp add: min_absorb2)
      then have "xs = []" using consecutive_length [OF xs(2)] by (simp add: next_pos_def)
      then show ?thesis by simp
    next
      case False
      then have "?m = cs" by (simp add: min_absorb1)
      moreover have "uint cs < 2 ^ 63" using False less.prems by (simp add: word_le_def)
      ultimately show ?thesis using cs(3) xs(3) by (intro aligned_Cons) auto
    qed
    ultimately show ?thesis by blast
  qed
qed

lemma variable_shape_ok:
  assumes "4 * cores \<noteq> 0" "0 < s" "s < 2 ^ 63" "count \<noteq> 0" "uint count \<le> 2 ^ 63"
  shows "\<exists>xs p'. variable_shape params clk cores kind b count s = (ret (xs, p', next_pos b count) :: ('x, _) run) \<and>
    cuts s b count [] xs"
proof -
  let ?m = "min (4 * cores) count"
  have m: "?m \<noteq> 0" using assms(1,4) by (auto simp: min_def)
  have "?m \<le> count" by simp
  then have "uint ?m \<le> 2 ^ 63" using assms(5) by (simp add: word_le_def)
  then obtain xs p' where xs: "variable_shape_loop params clk cores kind s ?m b count 0 [] =
      (ret (xs, p', next_pos b count) :: ('x, _) run)" "consecutive b 0 xs (next_pos b count)" "aligned s xs"
    using variable_shape_loop_ok [OF assms(1-3) m _ assms(5), of params clk kind b 0 "[]"] by auto
  moreover have "xs \<noteq> []" using xs(2) assms(4) by (auto simp: next_pos_def uint_0_iff)
  moreover have "abs_stride s = s" using assms(2) by (simp add: abs_stride_def)
  ultimately show ?thesis using assms(1)
    by (auto simp: variable_shape_def maximal_number_of_chunks_def cuts_def)
qed

section \<open>Both kinds of shape\<close>

text \<open>
  The algorithms select one of the overloads by \<open>has_variable_chunk_size\<close> and then run over the
  range it returns. The result here holds the chunks of that range, the parameters (whose
  remembered time may have changed), the results of chunks already run, and the remaining count
  that the version without indices passes back by reference.
\<close>

definition bulk_shape_idx ::
  "exec_parameters \<Rightarrow> clock \<Rightarrow> u64 \<Rightarrow> iter_kind \<Rightarrow> ('x, 'r) chunk_fun \<Rightarrow> 'r list \<Rightarrow> pos \<Rightarrow> u64 \<Rightarrow> int
    \<Rightarrow> ('x, idx_chunk list \<times> exec_parameters \<times> 'r list \<times> u64) run" where
  "bulk_shape_idx params clk cores kind f1 items first count s =
     (if has_variable_chunk_size params then
        run_bind (variable_shape params clk cores kind first count s)
          (\<lambda>(xs, params', first'). ret (xs, params', items, 0))
      else
        run_bind (get_bulk_iteration_shape_idx params clk cores kind f1 items first count s)
          (\<lambda>((a, b), params', st). run_bind (run_option (range_elements a b))
             (\<lambda>xs. ret (xs, params', sh_items st, sh_count st))))"

definition drop_index :: "idx_chunk \<Rightarrow> pos \<times> u64" where
  "drop_index c = (fst c, fst (snd c))"

definition bulk_shape ::
  "exec_parameters \<Rightarrow> clock \<Rightarrow> u64 \<Rightarrow> iter_kind \<Rightarrow> (pos \<Rightarrow> u64 \<Rightarrow> ('x, 'r) run) \<Rightarrow> 'r list \<Rightarrow> pos \<Rightarrow> u64 \<Rightarrow> int
    \<Rightarrow> ('x, (pos \<times> u64) list \<times> exec_parameters \<times> 'r list \<times> u64) run" where
  "bulk_shape params clk cores kind f1 items first count s =
     (if has_variable_chunk_size params then
        run_bind (variable_shape params clk cores kind first count s)
          (\<lambda>(xs, params', first'). ret (map drop_index xs, params', items, 0))
      else
        run_bind (get_bulk_iteration_shape params clk cores kind f1 items first count s)
          (\<lambda>((a, b), params', st). run_bind (run_option (range_elements a b))
             (\<lambda>xs. ret (map drop_index xs, params', sh_items st, sh_count st))))"

definition shape_pre :: "exec_parameters \<Rightarrow> u64 \<Rightarrow> u64 \<Rightarrow> int \<Rightarrow> bool" where
  "shape_pre params cores count s \<longleftrightarrow> 4 * cores \<noteq> 0 \<and> 0 < s \<and> s < 2 ^ 63 \<and> count \<noteq> 0 \<and>
     uint count \<le> 2 ^ 63 \<and> (times_chunks params \<longrightarrow> s < uint count)"

lemma shape_preD:
  assumes "shape_pre params cores count s"
  shows "4 * cores \<noteq> 0" "0 < s" "s < 2 ^ 63" "count \<noteq> 0" "uint count \<le> 2 ^ 63"
    "times_chunks params \<longrightarrow> s < uint count"
  using assms by (auto simp: shape_pre_def)

lemma bulk_shape_idx_cuts:
  fixes F :: "('x, 'r) chunk_fun"
  assumes "shape_pre params cores count s" and F: "\<And>n. chunk_inside b count b n \<Longrightarrow> F b n 0 \<noteq> None"
  obtains xs p' tests rs n' where
    "bulk_shape_idx params clk cores kind F items b count s = ret (xs, p', items @ rs, n')"
    "map (apply_chunk F) tests = map ret rs" "cuts s b count tests xs"
    "\<not> has_variable_chunk_size params \<and> s = 1 \<longrightarrow> int (length xs) \<le> uint (4 * cores)"
  | n e where "times_chunks params" "F b n 0 = throw e"
    "bulk_shape_idx params clk cores kind F items b count s = throw e"
proof (cases "has_variable_chunk_size params")
  case True
  obtain xs p' where "variable_shape params clk cores kind b count s = (ret (xs, p', next_pos b count) :: ('x, _) run)"
    "cuts s b count [] xs"
    using variable_shape_ok [OF shape_preD(1-5) [OF assms(1)], of params clk kind b] by blast
  then show thesis using True that(1) [of xs p' "[]" 0 "[]"] by (simp add: bulk_shape_idx_def)
next
  case False
  from rounding_down.fixed_shape_cuts [OF shape_preD [OF assms(1)], where F = "F" and clk = clk and kind = kind
      and items = items and b = b] F
  consider it1 it2 p' st tests rs xs where "get_bulk_iteration_shape_idx params clk cores kind F items b count s = ret ((it1, it2), p', st)"
      "range_elements it1 it2 = Some xs" "cuts s b count tests xs" "sh_items st = items @ rs"
      "map (apply_chunk F) tests = map ret rs" "uint (sh_count st) = uint count - sum_list (map (\<lambda>(b, n, i). uint n) tests)"
      "s = 1 \<longrightarrow> int (length xs) \<le> uint (4 * cores)"
    | n e where "times_chunks params" "F b n 0 = throw e" "get_bulk_iteration_shape_idx params clk cores kind F items b count s = throw e"
    unfolding get_bulk_iteration_shape_idx_def by blast
  then show thesis
  proof cases
    case (1 it1 it2 p' st tests rs xs)
    then show thesis using False by (intro that(1) [of xs p' rs "sh_count st" tests]) (simp_all add: bulk_shape_idx_def)
  next
    case (2 n e)
    then show thesis using False by (intro that(2) [of n e]) (simp_all add: bulk_shape_idx_def)
  qed
qed

lemma bulk_shape_cuts:
  fixes F :: "pos \<Rightarrow> u64 \<Rightarrow> ('x, 'r) run"
  assumes "shape_pre params cores count s" and F: "\<And>n. chunk_inside b count b n \<Longrightarrow> F b n \<noteq> None"
  obtains xs p' tests rs n' where
    "bulk_shape params clk cores kind F items b count s = ret (map drop_index xs, p', items @ rs, n')"
    "map (\<lambda>c. apply_chunk (\<lambda>b n i. F b n) c) tests = map ret rs" "cuts s b count tests xs"
    "\<not> has_variable_chunk_size params \<and> s = 1 \<longrightarrow> int (length xs) \<le> uint (4 * cores)"
    "tests \<noteq> [] \<longrightarrow> uint n' = uint count - sum_list (map (\<lambda>(b, n, i). uint n) tests)"
  | n e where "times_chunks params" "F b n = throw e"
    "bulk_shape params clk cores kind F items b count s = throw e"
proof (cases "has_variable_chunk_size params")
  case True
  obtain xs p' where "variable_shape params clk cores kind b count s = (ret (xs, p', next_pos b count) :: ('x, _) run)"
    "cuts s b count [] xs"
    using variable_shape_ok [OF shape_preD(1-5) [OF assms(1)], of params clk kind b] by blast
  then show thesis using True that(1) [of xs p' "[]" 0 "[]"] by (simp add: bulk_shape_def)
next
  case False
  from rounding_up.fixed_shape_cuts [OF shape_preD [OF assms(1)], where F = "\<lambda>b n _. F b n" and clk = clk and kind = kind
      and items = items and b = b] F
  consider it1 it2 p' st tests rs xs where "get_bulk_iteration_shape params clk cores kind F items b count s = ret ((it1, it2), p', st)"
      "range_elements it1 it2 = Some xs" "cuts s b count tests xs" "sh_items st = items @ rs"
      "map (\<lambda>c. apply_chunk (\<lambda>b n i. F b n) c) tests = map ret rs" "uint (sh_count st) = uint count - sum_list (map (\<lambda>(b, n, i). uint n) tests)"
      "s = 1 \<longrightarrow> int (length xs) \<le> uint (4 * cores)"
    | n e where "times_chunks params" "F b n = throw e" "get_bulk_iteration_shape params clk cores kind F items b count s = throw e"
    unfolding get_bulk_iteration_shape_def by blast
  then show thesis
  proof cases
    case (1 it1 it2 p' st tests rs xs)
    then show thesis using False by (intro that(1) [of xs p' rs "sh_count st" tests]) (simp_all add: bulk_shape_def)
  next
    case (2 n e)
    then show thesis using False by (intro that(2) [of n e]) (simp_all add: bulk_shape_def)
  qed
qed

text \<open>
  A stride that is not smaller than the range, with parameters that time a first chunk: that chunk is
  the whole range, nothing is left and the largest number of chunks becomes zero, by which the
  code then divides.
\<close>

lemma timed_chunk_takes_all:
  fixes F :: "('x, 'r) chunk_fun"
  assumes "4 * cores \<noteq> 0" "1 < s" "s < 2 ^ 63" "uint count \<le> s" "100 * cores < count" "count div 100 \<noteq> 0"
    "kind \<noteq> Forward_Iterator" "F = (\<lambda>b n i. ret (g b n i))"
  shows "get_bulk_iteration_shape_idx (Auto_Chunk_Size m) clk cores kind F items b count s = None"
proof -
  have lt: "uint (count div 100) < s"
    using assms(4,6) div_times_le [of 100 "uint count"] uint_pos_iff [of "count div 100"]
    by (simp add: uint_div)
  have "uint (count div 100) + s < 2 ^ 64" using lt assms(3) by simp
  then have r: "round_down_stride s (count div 100) = Some (word_of_int s)"
    using assms(2,3) round_down_value [of s "count div 100"] lt
    by (simp add: word_div_def uint_stride max_absorb1)
  have "next_within kind b count (word_of_int s) = (next_pos b count, count)"
  proof -
    have "count \<le> word_of_int s" using assms(2-4) by (simp add: word_le_def uint_stride)
    then show ?thesis using assms(7) by (cases kind) (auto simp: next_within_def next_pos_def Let_def)
  qed
  then have "test_function (round_down_stride s) kind F \<lparr> sh_items = items, sh_begin = b, sh_count = count, sh_base = 0 \<rparr> =
    ret (count, \<lparr> sh_items = items @ [g b (word_of_int s) 0], sh_begin = next_pos b count, sh_count = 0, sh_base = count \<rparr>)"
    using assms(6,8) r by (simp add: test_function_def add_ready_future_def)
  moreover have "cores \<noteq> 0" using assms(1) by auto
  moreover have "abs_stride s = s" using assms(2) by (simp add: abs_stride_def)
  ultimately show ?thesis
    using assms(1,5)
    by (auto simp: get_bulk_iteration_shape_idx_def fixed_shape_def get_chunk_size_def auto_get_chunk_size_def
        maximal_number_of_chunks_def checked_div_def Let_def)
qed

section \<open>Properties\<close>

text \<open>C37: for every executor parameters, number of cores, clock and kind of iterator the shape of a
  loop is found, and the chunks of that shape together with the chunk that was run for timing cut the range
  exactly: they start at its beginning, follow each other without gap or overlap, are not empty, end
  at its end, carry the index of their first element, and all but the last are multiples of the stride. With a stride
  of one and chunks of equal size there are at most four per core. The range must not be empty nor larger than the
  largest difference of iterators, and the stride smaller than the range if a chunk is timed.\<close>

theorem bulk_shape_partitions:
  assumes "shape_pre params cores count s"
  shows "(\<exists>xs p' tests n'.
      bulk_shape_idx params clk cores kind (\<lambda>b n i. ret (b, n, i)) [] first count s = ret (xs, p', tests, n') \<and>
      length tests \<le> 1 \<and> consecutive first 0 (tests @ xs) (next_pos first count) \<and> aligned s (tests @ xs) \<and>
      (\<not> has_variable_chunk_size params \<and> s = 1 \<longrightarrow> int (length xs) \<le> uint (4 * cores))) \<and>
    (\<exists>xs p' tests n'.
      bulk_shape params clk cores kind (\<lambda>b n. ret (b, n)) [] first count s =
        ret (map drop_index xs, p', map drop_index tests, n') \<and>
      length tests \<le> 1 \<and> consecutive first 0 (tests @ xs) (next_pos first count) \<and> aligned s (tests @ xs) \<and>
      (\<not> has_variable_chunk_size params \<and> s = 1 \<longrightarrow> int (length xs) \<le> uint (4 * cores)))"
proof -
  have t: "map (apply_chunk (\<lambda>b n i. ret (b, n, i))) ts = map ret ts" for ts :: "idx_chunk list"
    by (auto simp: apply_chunk_def)
  have u: "map (\<lambda>c. apply_chunk (\<lambda>b n i. ret (b, n)) c) ts = map ret (map drop_index ts)" for ts :: "idx_chunk list"
    by (auto simp: apply_chunk_def drop_index_def)
  show ?thesis
  proof (rule conjI, goal_cases)
    case 1
    show ?case
      by (rule bulk_shape_idx_cuts [OF assms, where clk = clk and kind = kind and items = "[]"
            and F = "\<lambda>b n i. ret (b, n, i)" and b = first])
        (auto simp: t cuts_def map_ret_inj)
  next
    case 2
    show ?case
      by (rule bulk_shape_cuts [OF assms, where clk = clk and kind = kind and items = "[]"
            and F = "\<lambda>b n. ret (b, n)" and b = first])
        (simp, simp only: u map_ret_inj cuts_def append_Nil, blast, simp)
  qed
qed

lemma bulk_shape_partitions_witness:
  "\<exists>xs p' tests n'. bulk_shape_idx (Auto_Chunk_Size 80000) (0, 1000) 2 Integral_Type (\<lambda>b n i. ret (b, n, i)) [] 0 1000 3 =
     ret (xs, p', tests, n') \<and> consecutive 0 0 (tests @ xs) 1000"
  using bulk_shape_partitions [of "Auto_Chunk_Size 80000" 2 1000 3 "(0, 1000)" Integral_Type 0]
  by (auto simp: shape_pre_def next_pos_def)

end
