(* ===== verification/Partitioner.thy ===== *)
theory Partitioner
  imports Chunk_Shape
begin

text \<open>
  Running the chunks of a loop: the executors that start one task per chunk
  (\<^verbatim>\<open>hpx/parallel/executors/parallel_executor.hpp\<close> and the generic helper of
  \<^verbatim>\<open>executor_traits.hpp\<close>), the collection of exceptions
  (\<^verbatim>\<open>hpx/parallel/util/detail/handle_local_exceptions.hpp\<close>) and the partitioners of
  \<^verbatim>\<open>hpx/parallel/util/partitioner.hpp\<close> and \<^verbatim>\<open>foreach_partitioner.hpp\<close>.

  A task is its outcome, a value or an exception. Tasks of one loop write to different slots of
  the vector of results, so the order in which they run does not matter and the model runs them in
  the order of their creation. Positions in vectors are natural numbers; the sizes that the executor computes with are
  64-bit words and wrap. A call of an executor that gives \<open>None\<close> divides by zero, does not end, reads or writes outside of a vector, or
  reserves more futures than a vector can hold. Memory is not exhausted otherwise.
\<close>

section \<open>Executors\<close>

type_synonym ('x, 'r) outcome = "'x exn + 'r"

type_synonym ('c, 'x, 'r) executor = "('c \<Rightarrow> ('x, 'r) run) \<Rightarrow> 'c list \<Rightarrow> ('x, 'r) outcome list option"

fun bulk_async_execute_helper :: "('c, 'x, 'r) executor" where
  "bulk_async_execute_helper f [] = Some []"
| "bulk_async_execute_helper f (c # cs) =
     Option.bind (f c) (\<lambda>v. Option.bind (bulk_async_execute_helper f cs) (\<lambda>vs. Some (v # vs)))"

record parallel_executor =
  num_spread :: u64
  num_tasks :: u64

type_synonym ('x, 'r) slots = "('x, 'r) outcome option list" \<comment> \<open>\<open>None\<close>: a future without state\<close>

fun spawn_all :: "('c \<Rightarrow> ('x, 'r) run) \<Rightarrow> 'c list \<Rightarrow> nat \<Rightarrow> nat \<Rightarrow> nat \<Rightarrow> ('x, 'r) slots \<Rightarrow> ('x, 'r) slots option" where
  "spawn_all f cs base it 0 results = Some results"
| "spawn_all f cs base it (Suc n) results =
     (if it < length cs \<and> base < length results then
        Option.bind (f (cs ! it)) (\<lambda>v. spawn_all f cs (Suc base) (Suc it) n (results[base := Some v]))
      else None)"

partial_function (option) spawn_parts :: "nat \<Rightarrow> nat \<Rightarrow> nat \<Rightarrow> nat \<Rightarrow> (nat \<times> nat \<times> nat) list option" where
  [code]: "spawn_parts chunk_size base sz it =
     (if sz \<noteq> 0 then
        Option.bind (spawn_parts chunk_size (base + min chunk_size sz) (sz - min chunk_size sz)
                       (it + min chunk_size sz))
          (\<lambda>tasks. Some ((base, min chunk_size sz, it) # tasks))
      else Some [])"

text \<open>The greatest size of a vector of futures, which are one pointer each: half of the address space.\<close>

definition future_vector_max_size :: u64 where
  "future_vector_max_size = 2 ^ 60 - 1"

text \<open>The size of the parts of a range that is larger than the number of tasks.\<close>

definition spawn_chunk_size :: "u64 \<Rightarrow> u64 \<Rightarrow> nat \<Rightarrow> nat" where
  "spawn_chunk_size spread tasks sz = unat (max ((of_nat sz + spread) div spread - 1) tasks)"

partial_function (option) spawn ::
  "u64 \<Rightarrow> u64 \<Rightarrow> ('c \<Rightarrow> ('x, 'r) run) \<Rightarrow> 'c list \<Rightarrow> (nat \<times> nat \<times> nat) list \<Rightarrow> ('x, 'r) slots
    \<Rightarrow> ('x, 'r) slots option" where
  [code]: "spawn spread tasks f cs waiting results =
     (case waiting of
        [] \<Rightarrow> Some results
      | (base, sz, it) # rest \<Rightarrow>
          if sz > unat tasks then
            if spread = 0 \<or> future_vector_max_size < spread then None
            else Option.bind (spawn_parts (spawn_chunk_size spread tasks sz) base sz it)
                   (\<lambda>parts. spawn spread tasks f cs (parts @ rest) results)
          else if base + sz \<le> length results then
            Option.bind (spawn_all f cs base it sz results)
              (\<lambda>results. spawn spread tasks f cs rest results)
          else None)"

definition parallel_bulk_async_execute :: "parallel_executor \<Rightarrow> nat \<Rightarrow> ('c, 'x, 'r) executor" where
  "parallel_bulk_async_execute exec os_threads f cs =
     (let tasks = (if num_tasks exec = - 1 then of_nat (min 128 os_threads) else num_tasks exec) in
      Option.bind (spawn (num_spread exec) tasks f cs [(0, length cs, 0)] (replicate (length cs) None)) those)"

section \<open>Exceptions of tasks\<close>

datatype policy = Parallel_Policy | Parallel_Unsequenced_Policy

definition rethrow_exception :: "policy \<Rightarrow> 'x exn \<Rightarrow> ('x, 'a) run" where
  "rethrow_exception pol e = (case pol of Parallel_Policy \<Rightarrow> throw e | Parallel_Unsequenced_Policy \<Rightarrow> None)"

definition handle_exception :: "policy \<Rightarrow> 'x exn \<Rightarrow> 'x exn list \<Rightarrow> ('x, 'x exn list) run" where
  "handle_exception pol e errors = (case pol of
       Parallel_Policy \<Rightarrow> (case e of Bad_Alloc \<Rightarrow> throw Bad_Alloc | _ \<Rightarrow> ret (errors @ [e]))
     | Parallel_Unsequenced_Policy \<Rightarrow> None)"

fun collect_exceptions :: "policy \<Rightarrow> ('x, 'r) outcome list \<Rightarrow> 'x exn list \<Rightarrow> ('x, 'x exn list) run" where
  "collect_exceptions pol [] errors = ret errors"
| "collect_exceptions pol (Inr _ # vs) errors = collect_exceptions pol vs errors"
| "collect_exceptions pol (Inl e # vs) errors =
     run_bind (handle_exception pol e errors) (collect_exceptions pol vs)"

definition handle_local_exceptions ::
  "policy \<Rightarrow> ('x, 'r) outcome list \<Rightarrow> 'x exn list \<Rightarrow> ('x, unit) run" where
  "handle_local_exceptions pol workitems errors =
     run_bind (collect_exceptions pol workitems errors) (\<lambda>errors.
       if pol = Parallel_Policy \<and> errors \<noteq> [] then throw (Exception_List errors) else ret ())"

definition values_of :: "('x, 'r) outcome list \<Rightarrow> 'r list" where
  "values_of vs = map projr vs"

section \<open>Partitioners\<close>

definition finish :: "policy \<Rightarrow> ('r list \<Rightarrow> ('x, 'a) run) \<Rightarrow> ('x, 'r) outcome list \<Rightarrow> ('x, 'a) run" where
  "finish pol f2 items = (case f2 (values_of items) of
       Some (Inl e) \<Rightarrow> rethrow_exception pol e | r \<Rightarrow> r)"

definition try_tasks ::
  "policy \<Rightarrow> ('x, ('x, 'r) outcome list) run \<Rightarrow> (('x, 'r) outcome list \<Rightarrow> ('x, 'a) run) \<Rightarrow> ('x, 'a) run" where
  "try_tasks pol body rest = (case body of
       None \<Rightarrow> None
     | Some (Inl e) \<Rightarrow> run_bind (handle_exception pol e [])
         (\<lambda>errors. run_bind (handle_local_exceptions pol ([] :: ('x, 'r) outcome list) errors) (\<lambda>_. rest []))
     | Some (Inr items) \<Rightarrow> run_bind (handle_local_exceptions pol items []) (\<lambda>_. rest items))"

definition partitioner_call ::
  "policy \<Rightarrow> (pos \<times> u64, 'x, 'r) executor \<Rightarrow> exec_parameters \<Rightarrow> clock \<Rightarrow> u64 \<Rightarrow> iter_kind \<Rightarrow> pos \<Rightarrow> u64
    \<Rightarrow> (pos \<Rightarrow> u64 \<Rightarrow> ('x, 'r) run) \<Rightarrow> ('r list \<Rightarrow> ('x, 'a) run) \<Rightarrow> ('x, 'a) run" where
  "partitioner_call pol exec params clk cores kind first count f1 f2 =
     try_tasks pol
       (run_bind (bulk_shape params clk cores kind f1 [] first count 1) (\<lambda>(shapes, params', inititems, _).
          run_bind (run_option (exec (\<lambda>(b, n). f1 b n) shapes)) (\<lambda>workitems.
            ret (map Inr inititems @ workitems))))
       (finish pol f2)"

definition partitioner_call_with_index ::
  "policy \<Rightarrow> (idx_chunk, 'x, 'r) executor \<Rightarrow> exec_parameters \<Rightarrow> clock \<Rightarrow> u64 \<Rightarrow> iter_kind \<Rightarrow> pos \<Rightarrow> u64 \<Rightarrow> int
    \<Rightarrow> ('x, 'r) chunk_fun \<Rightarrow> ('r list \<Rightarrow> ('x, 'a) run) \<Rightarrow> ('x, 'a) run" where
  "partitioner_call_with_index pol exec params clk cores kind first count stride f1 f2 =
     try_tasks pol
       (run_bind (bulk_shape_idx params clk cores kind f1 [] first count stride) (\<lambda>(shapes, params', inititems, _).
          run_bind (run_option (exec (\<lambda>(b, n, i). f1 b n i) shapes)) (\<lambda>workitems.
            ret (map Inr inititems @ workitems))))
       (finish pol f2)"

fun data_shape :: "pos \<Rightarrow> u64 \<Rightarrow> u64 list \<Rightarrow> 'd list \<Rightarrow> ('d \<times> pos \<times> u64) list option" where
  "data_shape first count chunk_sizes data =
     (if count \<noteq> 0 then
        (case (chunk_sizes, data) of
           (c # cs, d # ds) \<Rightarrow>
             (let chunk = min count c in
              if chunk \<noteq> 0 then
                Option.bind (data_shape (next_pos first chunk) (count - chunk) cs ds)
                  (\<lambda>shape. Some ((d, first, chunk) # shape))
              else None)
         | _ \<Rightarrow> None)
      else if chunk_sizes = [] then Some [] else None)"

declare data_shape.simps [simp del]

definition partitioner_call_with_data ::
  "policy \<Rightarrow> ('d \<times> pos \<times> u64, 'x, 'r) executor \<Rightarrow> pos \<Rightarrow> u64
    \<Rightarrow> ('d \<Rightarrow> pos \<Rightarrow> u64 \<Rightarrow> ('x, 'r) run) \<Rightarrow> ('r list \<Rightarrow> ('x, 'a) run) \<Rightarrow> u64 list \<Rightarrow> 'd list \<Rightarrow> ('x, 'a) run" where
  "partitioner_call_with_data pol exec first count f1 f2 chunk_sizes data =
     run_assert (length data \<ge> length chunk_sizes)
       (try_tasks pol
         (run_bind (run_option (data_shape first count chunk_sizes data)) (\<lambda>shape.
            run_option (exec (\<lambda>(d, b, n). f1 d b n) shape)))
         (finish pol f2))"

text \<open>The versions for \<open>parallel_task_policy\<close> give a future; this is what it will hold.\<close>

definition try_tasks_async ::
  "('x, ('x, 'r) outcome list) run \<Rightarrow> ('r list \<Rightarrow> ('x, 'a) run) \<Rightarrow> ('x, 'a) run" where
  "try_tasks_async body f2 = (case body of
       None \<Rightarrow> None
     | Some (Inl Bad_Alloc) \<Rightarrow> throw Bad_Alloc
     | Some (Inl e) \<Rightarrow>
         run_bind (handle_local_exceptions Parallel_Policy ([] :: ('x, 'r) outcome list) [e]) (\<lambda>_. f2 [])
     | Some (Inr items) \<Rightarrow>
         run_bind (handle_local_exceptions Parallel_Policy items []) (\<lambda>_. f2 (values_of items)))"

definition partitioner_call_task ::
  "(pos \<times> u64, 'x, 'r) executor \<Rightarrow> exec_parameters \<Rightarrow> clock \<Rightarrow> u64 \<Rightarrow> iter_kind \<Rightarrow> pos \<Rightarrow> u64
    \<Rightarrow> (pos \<Rightarrow> u64 \<Rightarrow> ('x, 'r) run) \<Rightarrow> ('r list \<Rightarrow> ('x, 'a) run) \<Rightarrow> ('x, 'a) run" where
  "partitioner_call_task exec params clk cores kind first count f1 f2 =
     try_tasks_async
       (run_bind (bulk_shape params clk cores kind f1 [] first count 1) (\<lambda>(shapes, params', inititems, _).
          run_bind (run_option (exec (\<lambda>(b, n). f1 b n) shapes)) (\<lambda>workitems.
            ret (map Inr inititems @ workitems)))) f2"

definition partitioner_call_with_index_task ::
  "(idx_chunk, 'x, 'r) executor \<Rightarrow> exec_parameters \<Rightarrow> clock \<Rightarrow> u64 \<Rightarrow> iter_kind \<Rightarrow> pos \<Rightarrow> u64 \<Rightarrow> int
    \<Rightarrow> ('x, 'r) chunk_fun \<Rightarrow> ('r list \<Rightarrow> ('x, 'a) run) \<Rightarrow> ('x, 'a) run" where
  "partitioner_call_with_index_task exec params clk cores kind first count stride f1 f2 =
     try_tasks_async
       (run_bind (bulk_shape_idx params clk cores kind f1 [] first count stride) (\<lambda>(shapes, params', inititems, _).
          run_bind (run_option (exec (\<lambda>(b, n, i). f1 b n i) shapes)) (\<lambda>workitems.
            ret (map Inr inititems @ workitems)))) f2"

text \<open>
  The version for \<open>for_each\<close> keeps the chunks that were run for timing apart from the others; they hold
  values, so looking for exceptions in one list and then in the other is looking in both together.
\<close>

definition foreach_partitioner_call ::
  "policy \<Rightarrow> (idx_chunk, 'x, 'r) executor \<Rightarrow> exec_parameters \<Rightarrow> clock \<Rightarrow> u64 \<Rightarrow> iter_kind \<Rightarrow> pos \<Rightarrow> u64
    \<Rightarrow> ('x, 'r) chunk_fun \<Rightarrow> (pos \<Rightarrow> ('x, 'a) run) \<Rightarrow> ('x, 'a) run" where
  "foreach_partitioner_call pol exec params clk cores kind first count f1 f2 =
     (let last = next_pos first count in
      partitioner_call_with_index pol exec params clk cores kind first count 1 f1 (\<lambda>_. f2 last))"

section \<open>Executors run every chunk once\<close>

locale bulk_executor =
  fixes exec :: "('c, 'x, 'r) executor"
  assumes runs_all: "length cs \<le> 2 ^ 63 \<Longrightarrow> \<forall>c \<in> set cs. f c \<noteq> None \<Longrightarrow> exec f cs = Some (map (\<lambda>c. the (f c)) cs)"

interpretation helper: bulk_executor bulk_async_execute_helper
proof
  fix cs :: "'a list" and f :: "'a \<Rightarrow> ('b, 'c) run"
  assume "length cs \<le> 2 ^ 63"
  show "\<forall>c \<in> set cs. f c \<noteq> None \<Longrightarrow> bulk_async_execute_helper f cs = Some (map (\<lambda>c. the (f c)) cs)"
    by (induction cs) auto
qed

definition filled :: "('c \<Rightarrow> ('x, 'r) run) \<Rightarrow> 'c list \<Rightarrow> nat \<Rightarrow> nat \<Rightarrow> nat \<Rightarrow> ('x, 'r) slots \<Rightarrow> ('x, 'r) slots" where
  "filled f cs base it n results = map (\<lambda>j. if base \<le> j \<and> j < base + n
     then Some (the (f (cs ! (it + (j - base))))) else results ! j) [0..<length results]"

lemma length_filled [simp]: "length (filled f cs base it n results) = length results"
  by (simp add: filled_def)

lemma filled_0 [simp]: "filled f cs base it 0 results = results"
  by (rule nth_equalityI) (auto simp: filled_def)

lemma filled_add: "filled f cs (base + a) (it + a) b (filled f cs base it a results) = filled f cs base it (a + b) results"
  by (rule nth_equalityI) (auto simp: filled_def algebra_simps)

lemma spawn_all_filled:
  assumes "\<forall>c \<in> set cs. f c \<noteq> None" "it + n \<le> length cs" "base + n \<le> length results"
  shows "spawn_all f cs base it n results = Some (filled f cs base it n results)"
  using assms(2,3)
proof (induction n arbitrary: base it results)
  case (Suc n)
  have "f (cs ! it) \<noteq> None" using assms(1) Suc.prems(1) by simp
  then obtain v where v: "f (cs ! it) = Some v" by auto
  have "results[base := Some v] = filled f cs base it 1 results"
    using v Suc.prems(2) by (auto simp: filled_def nth_list_update intro!: nth_equalityI)
  then show ?case using Suc v filled_add [of f cs base 1 it n results] by simp
qed simp

lemma spawn_parts_filled:
  fixes f :: "'c \<Rightarrow> ('x, 'r) run"
  assumes "0 < k" "it + n \<le> length cs" "base + n \<le> length results"
    and sub: "\<And>base n it rest results. n \<le> k \<Longrightarrow> it + n \<le> length cs \<Longrightarrow> base + n \<le> length results \<Longrightarrow>
      spawn spread tasks f cs ((base, n, it) # rest) results = spawn spread tasks f cs rest (filled f cs base it n results)"
  shows "\<exists>parts. spawn_parts k base n it = Some parts \<and>
    spawn spread tasks f cs (parts @ rest) results = spawn spread tasks f cs rest (filled f cs base it n results)"
  using assms(2,3)
proof (induction n arbitrary: base it results rule: less_induct)
  case (less n)
  show ?case
  proof (cases "n = 0")
    case True
    then show ?thesis by (subst spawn_parts.simps) simp
  next
    case False
    let ?m = "min k n"
    have "n - ?m < n" using False assms(1) by simp
    moreover have "(it + ?m) + (n - ?m) \<le> length cs" "(base + ?m) + (n - ?m) \<le> length (filled f cs base it ?m results)"
      using less.prems by auto
    ultimately obtain parts where parts: "spawn_parts k (base + ?m) (n - ?m) (it + ?m) = Some parts"
      "spawn spread tasks f cs (parts @ rest) (filled f cs base it ?m results) =
        spawn spread tasks f cs rest (filled f cs (base + ?m) (it + ?m) (n - ?m) (filled f cs base it ?m results))"
      using less.IH by blast
    have "spawn_parts k base n it = Some ((base, ?m, it) # parts)"
      using False parts(1) by (subst spawn_parts.simps) simp
    moreover have "spawn spread tasks f cs (((base, ?m, it) # parts) @ rest) results =
        spawn spread tasks f cs (parts @ rest) (filled f cs base it ?m results)"
      using less.prems sub [of ?m it base results "parts @ rest"] by simp
    ultimately show ?thesis using parts(2) by (simp add: filled_add)
  qed
qed

lemma spawn_chunk_size_less:
  assumes "1 < spread" "spread \<le> future_vector_max_size" "0 < tasks" "unat tasks < n" "n \<le> 2 ^ 63"
  shows "0 < spawn_chunk_size spread tasks n" "spawn_chunk_size spread tasks n < n"
proof -
  have sp: "1 < unat spread" "unat spread < 2 ^ 60"
    using assms(1,2) by (simp_all add: word_less_nat_alt word_le_nat_alt future_vector_max_size_def)
  then have "unat (of_nat n + spread) = n + unat spread"
    using assms(5) by (simp add: unat_word_ariths unat_of_nat take_bit_nat_def)
  then have q: "unat ((of_nat n + spread) div spread) = n div unat spread + 1"
    using sp by (simp add: unat_div div_add_self2)
  then have "(of_nat n + spread) div spread \<noteq> 0" by (metis add_is_0 unat_0 one_neq_zero)
  then have "unat ((of_nat n + spread) div spread - 1) = n div unat spread" using q by (simp add: unat_minus_one)
  moreover have "n div unat spread < n" using sp assms(3,4) by simp
  ultimately show "spawn_chunk_size spread tasks n < n" using assms(4) by (simp add: spawn_chunk_size_def max_def)
  show "0 < spawn_chunk_size spread tasks n"
    using assms(3) by (auto simp: spawn_chunk_size_def max_def unat_gt_0)
qed

lemma spawn_filled:
  fixes f :: "'c \<Rightarrow> ('x, 'r) run"
  assumes total: "\<forall>c \<in> set cs. f c \<noteq> None"
  assumes sp: "1 < spread" "spread \<le> future_vector_max_size" "0 < tasks"
    and len: "length cs \<le> 2 ^ 63" "it + n \<le> length cs" "base + n \<le> length results"
  shows "spawn spread tasks f cs ((base, n, it) # rest) results = spawn spread tasks f cs rest (filled f cs base it n results)"
  using len(2,3)
proof (induction n arbitrary: base it rest results rule: less_induct)
  case (less n)
  show ?case
  proof (cases "n > unat tasks")
    case True
    let ?k = "spawn_chunk_size spread tasks n"
    have k: "0 < ?k" "?k < n" using spawn_chunk_size_less [OF sp True] less.prems(1) len(1) by simp_all
    have sub: "spawn spread tasks f cs ((base, m, it) # rest) results = spawn spread tasks f cs rest (filled f cs base it m results)"
      if "m \<le> ?k" "it + m \<le> length cs" "base + m \<le> length results" for base m it rest results
      using that k(2) less.IH [of m it base results rest] by auto
    obtain parts where "spawn_parts ?k base n it = Some parts"
      "spawn spread tasks f cs (parts @ rest) results = spawn spread tasks f cs rest (filled f cs base it n results)"
      using spawn_parts_filled [OF k(1) less.prems sub] by blast
    then show ?thesis using True sp by (subst spawn.simps) auto
  next
    case False
    then show ?thesis
      using spawn_all_filled [OF total less.prems] less.prems by (subst spawn.simps) simp
  qed
qed

lemma those_map_Some: "those (map Some xs) = Some xs"
  by (induction xs) auto

lemma parallel_executor_runs_all:
  assumes "1 < num_spread ex" "num_spread ex \<le> future_vector_max_size" "0 < os_threads" "num_tasks ex \<noteq> 0"
    "length cs \<le> 2 ^ 63" "\<forall>c \<in> set cs. f c \<noteq> None"
  shows "parallel_bulk_async_execute ex os_threads f cs = Some (map (\<lambda>c. the (f c)) cs)"
proof -
  let ?t = "if num_tasks ex = - 1 then of_nat (min 128 os_threads) else num_tasks ex"
  let ?r = "replicate (length cs) None"
  have "unat (of_nat (min 128 os_threads) :: u64) = min 128 os_threads"
    by (simp add: unat_of_nat take_bit_nat_def)
  then have t: "0 < ?t" using assms(3,4) by (auto simp: word_less_nat_alt unat_gt_0)
  have "spawn (num_spread ex) ?t f cs [(0, length cs, 0)] ?r = spawn (num_spread ex) ?t f cs [] (filled f cs 0 0 (length cs) ?r)"
    using assms(5) by (intro spawn_filled [OF assms(6,1,2) t]) auto
  also have "\<dots> = Some (filled f cs 0 0 (length cs) ?r)" by (subst spawn.simps) simp
  also have "filled f cs 0 0 (length cs) ?r = map Some (map (\<lambda>c. the (f c)) cs)"
    by (auto simp: filled_def intro: nth_equalityI)
  finally show ?thesis by (simp add: parallel_bulk_async_execute_def those_map_Some del: map_map)
qed

locale working_executor =
  fixes ex :: parallel_executor and os_threads :: nat
  assumes spreads: "1 < num_spread ex" and spread_fits: "num_spread ex \<le> future_vector_max_size"
    and threads: "0 < os_threads" and some_tasks: "num_tasks ex \<noteq> 0"

sublocale working_executor \<subseteq> bulk_executor "parallel_bulk_async_execute ex os_threads"
  by unfold_locales (rule parallel_executor_runs_all [OF spreads spread_fits threads some_tasks])

text \<open>The default arguments of the constructor of \<open>parallel_executor\<close>.\<close>

definition default_parallel_executor :: parallel_executor where
  "default_parallel_executor = \<lparr> num_spread = 4, num_tasks = - 1 \<rparr>"

interpretation default_executor: working_executor default_parallel_executor "Suc n" for n
  by unfold_locales (simp_all add: default_parallel_executor_def future_vector_max_size_def)

text \<open>An executor with a spread of one starts itself again with the whole range, without end.\<close>

lemma spawn_one_endless:
  assumes "unat tasks < n" "n < 2 ^ 64"
  shows "spawn 1 tasks f cs ((base, n, it) # rest) results = None"
proof (rule ccontr)
  assume "spawn 1 tasks f cs ((base, n, it) # rest) results \<noteq> None"
  then obtain r where r: "spawn 1 tasks f cs ((base, n, it) # rest) results = Some r" by auto
  have n: "unat (of_nat n :: u64) = n" using assms(2) by (simp add: unat_of_nat take_bit_nat_def)
  then have k: "spawn_chunk_size 1 tasks n = n"
    using assms(1) by (simp add: spawn_chunk_size_def max_def word_le_nat_alt)
  have part: "spawn_parts n base n it = Some [(base, n, it)]" for base it
    using assms(1) by (subst spawn_parts.simps, subst spawn_parts.simps) simp
  have "sp = 1 \<and> tk = tasks \<longrightarrow> (\<forall>base it rest. waiting \<noteq> (base, n, it) # rest)"
    if "spawn sp tk g xs waiting res = Some r" for sp tk g xs waiting res r
    using that
    by (rule spawn.raw_induct [rotated]) (use assms part k in \<open>force split: if_splits\<close>)
  then show False using r by blast
qed

text \<open>A spread that no vector can hold ends in an exception as soon as there are more chunks than tasks.\<close>

lemma spawn_reserve_fails:
  assumes "unat tasks < n" "future_vector_max_size < spread"
  shows "spawn spread tasks f cs ((base, n, it) # rest) results = None"
  using assms by (subst spawn.simps) simp

section \<open>Outcome of a partitioner\<close>

definition errors_of :: "('x, 'r) outcome list \<Rightarrow> 'x exn list" where
  "errors_of vs = map projl (filter isl vs)"

definition join_outcomes :: "('r list \<Rightarrow> ('x, 'a) run) \<Rightarrow> ('x, 'r) outcome list \<Rightarrow> ('x, 'a) run" where
  "join_outcomes f2 vs =
     (if Inl Bad_Alloc \<in> set vs then throw Bad_Alloc
      else if errors_of vs \<noteq> [] then throw (Exception_List (errors_of vs))
      else f2 (values_of vs))"

lemma join_outcomes_values: "join_outcomes f2 (map (\<lambda>c. Inr (g c)) cs) = f2 (map g cs)"
  by (auto simp: join_outcomes_def errors_of_def values_of_def comp_def)

lemma collect_exceptions_parallel:
  "collect_exceptions Parallel_Policy vs errors =
    (if Inl Bad_Alloc \<in> set vs then throw Bad_Alloc else ret (errors @ errors_of vs))"
  by (induction "Parallel_Policy" vs errors rule: collect_exceptions.induct)
    (auto simp: errors_of_def handle_exception_def split: exn.splits)

lemma try_tasks_ret:
  "try_tasks Parallel_Policy (ret items) (finish Parallel_Policy f2) = join_outcomes f2 items"
  by (auto simp: try_tasks_def ret_def [of items] handle_local_exceptions_def collect_exceptions_parallel
      join_outcomes_def finish_def rethrow_exception_def throw_def split: option.split sum.split)

lemma try_tasks_throw:
  "try_tasks Parallel_Policy (throw e) (finish Parallel_Policy f2) =
    (join_outcomes f2 [Inl e] :: ('x, 'a) run)"
  by (cases e) (auto simp: try_tasks_def throw_def [of e] handle_exception_def handle_local_exceptions_def
      join_outcomes_def errors_of_def throw_def)

lemma try_tasks_async_agrees:
  "try_tasks_async body f2 = try_tasks Parallel_Policy body (finish Parallel_Policy f2)"
proof (cases body rule: run_cases)
  case (2 e)
  have "try_tasks_async (throw e) f2 = join_outcomes f2 [Inl e]"
    by (cases e) (auto simp: try_tasks_async_def throw_def handle_local_exceptions_def
        join_outcomes_def errors_of_def)
  then show ?thesis using 2 by (simp add: try_tasks_throw)
next
  case (3 items)
  have "try_tasks_async (ret items) f2 = join_outcomes f2 items"
    by (auto simp: try_tasks_async_def ret_def [of items] handle_local_exceptions_def collect_exceptions_parallel
        join_outcomes_def)
  then show ?thesis using 3 by (simp add: try_tasks_ret)
qed (simp add: try_tasks_async_def try_tasks_def)

lemma map_the_ret: "map g cs = map ret rs \<Longrightarrow> map (\<lambda>c. the (g c)) cs = map Inr rs"
  by (induction cs arbitrary: rs) (auto simp: ret_def Cons_eq_map_conv)

lemma cuts_inside: "cuts s b n tests xs \<Longrightarrow> (p, m, i) \<in> set xs \<Longrightarrow> chunk_inside b n p m"
  using consecutive_inside [of b 0 "tests @ xs" "next_pos b n"] by (auto simp: cuts_def chunk_inside_def)

lemma cuts_length:
  assumes "cuts s b n tests xs" "uint n \<le> 2 ^ 63"
  shows "length xs \<le> 2 ^ 63"
  using consecutive_length [of b 0 "tests @ xs" "next_pos b n"] assms by (simp add: cuts_def next_pos_def)

locale idx_executor = bulk_executor exec for exec :: "(idx_chunk, 'x, 'r) executor"
begin

lemma call_with_index_outcome:
  assumes "shape_pre params cores count s" "\<And>b n i. chunk_inside first count b n \<Longrightarrow> f1 b n i \<noteq> None"
  obtains cs where "cs \<noteq> []" "consecutive first 0 cs (next_pos first count)" "aligned s cs"
    "partitioner_call_with_index Parallel_Policy exec params clk cores kind first count s f1 f2 =
      join_outcomes f2 (map (\<lambda>c. the (apply_chunk f1 c)) cs)"
  | n e where "times_chunks params" "f1 first n 0 = throw e"
    "partitioner_call_with_index Parallel_Policy exec params clk cores kind first count s f1 f2 =
      join_outcomes f2 [Inl e]"
proof (rule bulk_shape_idx_cuts [OF assms, where clk = clk and kind = kind and items = "[]" and b = first])
  fix xs p' tests rs n'
  assume shape: "bulk_shape_idx params clk cores kind f1 [] first count s = ret (xs, p', [] @ rs, n')"
    and rs: "map (apply_chunk f1) tests = map ret rs" and cuts: "cuts s first count tests xs"
  have "exec (\<lambda>(b, n, i). f1 b n i) xs = Some (map (\<lambda>c. the (apply_chunk f1 c)) xs)"
    using assms(2) cuts_inside [OF cuts] cuts_length [OF cuts] shape_preD(5) [OF assms(1)]
    by (subst runs_all) (auto simp: apply_chunk_def)
  then have "partitioner_call_with_index Parallel_Policy exec params clk cores kind first count s f1 f2 =
      join_outcomes f2 (map (\<lambda>c. the (apply_chunk f1 c)) (tests @ xs))"
    using shape map_the_ret [OF rs] by (simp add: partitioner_call_with_index_def try_tasks_ret)
  then show thesis using cuts by (intro that(1) [of "tests @ xs"]) (auto simp: cuts_def)
next
  fix n e assume "times_chunks params" "f1 first n 0 = throw e"
    "bulk_shape_idx params clk cores kind f1 [] first count s = throw e"
  then show thesis by (intro that(2) [of n e]) (simp_all add: partitioner_call_with_index_def try_tasks_throw)
qed

end

locale chunk_executor = bulk_executor exec for exec :: "(pos \<times> u64, 'x, 'r) executor"
begin

lemma call_outcome:
  assumes "shape_pre params cores count 1" "\<And>b n. chunk_inside first count b n \<Longrightarrow> f1 b n \<noteq> None"
  obtains cs where "cs \<noteq> []" "consecutive first 0 cs (next_pos first count)"
    "partitioner_call Parallel_Policy exec params clk cores kind first count f1 f2 =
      join_outcomes f2 (map (\<lambda>(b, n, i). the (f1 b n)) cs)"
  | n e where "times_chunks params" "f1 first n = throw e"
    "partitioner_call Parallel_Policy exec params clk cores kind first count f1 f2 = join_outcomes f2 [Inl e]"
proof (rule bulk_shape_cuts [OF assms, where clk = clk and kind = kind and items = "[]" and b = first])
  fix xs p' tests rs n'
  assume shape: "bulk_shape params clk cores kind f1 [] first count 1 = ret (map drop_index xs, p', [] @ rs, n')"
    and rs: "map (\<lambda>c. apply_chunk (\<lambda>b n i. f1 b n) c) tests = map ret rs" and cuts: "cuts 1 first count tests xs"
  have "exec (\<lambda>(b, n). f1 b n) (map drop_index xs) = Some (map (\<lambda>(b, n, i). the (f1 b n)) xs)"
    using assms(2) cuts_inside [OF cuts] cuts_length [OF cuts] shape_preD(5) [OF assms(1)]
    by (subst runs_all) (auto simp: drop_index_def)
  moreover have "map (\<lambda>(b, n, i). the (f1 b n)) tests = map Inr rs"
    using map_the_ret [OF rs] by (simp add: apply_chunk_def case_prod_beta' split_def)
  ultimately have "partitioner_call Parallel_Policy exec params clk cores kind first count f1 f2 =
      join_outcomes f2 (map (\<lambda>(b, n, i). the (f1 b n)) (tests @ xs))"
    using shape by (simp add: partitioner_call_def try_tasks_ret)
  then show thesis using cuts by (intro that(1) [of "tests @ xs"]) (auto simp: cuts_def)
next
  fix n e assume "times_chunks params" "f1 first n = throw e"
    "bulk_shape params clk cores kind f1 [] first count 1 = throw e"
  then show thesis by (intro that(2) [of n e]) (simp_all add: partitioner_call_def try_tasks_throw)
qed

end

sublocale working_executor \<subseteq> idx: idx_executor "parallel_bulk_async_execute ex os_threads"
  by unfold_locales (rule runs_all)

sublocale working_executor \<subseteq> chunk: chunk_executor "parallel_bulk_async_execute ex os_threads"
  by unfold_locales (rule runs_all)

interpretation idx_helper: idx_executor bulk_async_execute_helper
  by unfold_locales (rule helper.runs_all)

interpretation chunk_helper: chunk_executor bulk_async_execute_helper
  by unfold_locales (rule helper.runs_all)

text \<open>Chunks of given sizes follow each other, each with the next element of the data.\<close>

lemma data_shape_cuts:
  "data_shape first count chunk_sizes data = Some shape \<Longrightarrow>
    map fst shape = take (length chunk_sizes) data \<and> length shape = length chunk_sizes \<and>
    (\<exists>cs. map snd shape = map drop_index cs \<and> consecutive first i cs (next_pos first count))"
proof (induction first count chunk_sizes data arbitrary: shape i rule: data_shape.induct)
  case (1 first count chunk_sizes data)
  show ?case
  proof (cases "count = 0")
    case True
    then show ?thesis using 1(2) by (auto simp: data_shape.simps [of first] next_pos_def intro!: exI [of _ "[]"] split: if_splits)
  next
    case False
    then obtain c cs d ds shape' where cd: "chunk_sizes = c # cs" "data = d # ds" "min count c \<noteq> 0"
      and rest: "data_shape (next_pos first (min count c)) (count - min count c) cs ds = Some shape'"
      and shape: "shape = (d, first, min count c) # shape'"
      using 1(2) by (subst (asm) data_shape.simps)
        (auto simp: Let_def split: list.splits if_splits Option.bind_splits)
    let ?m = "min count c"
    obtain xs where xs: "map snd shape' = map drop_index xs"
      "consecutive (next_pos first ?m) (i + ?m) xs (next_pos (next_pos first ?m) (count - ?m))"
      "map fst shape' = take (length cs) ds" "length shape' = length cs"
      using 1(1) [OF False _ cd(1,2) refl cd(3) rest, of "i + ?m"] cd by auto
    have "uint (count - ?m) = uint count - uint ?m" by (simp add: uint_diff_le)
    then have e: "next_pos (next_pos first ?m) (count - ?m) = next_pos first count" by (simp add: next_pos_def)
    then have "consecutive first i ((first, ?m, i) # xs) (next_pos first count)"
      using xs(2) [unfolded e] cd(3) by (simp add: next_pos_def)
    then show ?thesis using xs shape cd by (auto intro!: exI [of _ "(first, ?m, i) # xs"] simp: drop_index_def)
  qed
qed

section \<open>Properties\<close>

text \<open>C38: what a call of the partitioner with the parallel policy gives, for every executor with a spread of at least two (and at most
  what a vector holds) and at least one task, and all executor parameters whose chunks can be made (\<open>shape_pre\<close>: at least one core, a range that is not empty
  and, if a chunk is timed, longer than one): the function for one chunk is applied to the chunks of a partition of the range; if it returns
  for all of them the result is that of the final function on all results in order; otherwise the call throws
  \<open>bad_alloc\<close> if one of the chunks did, and else a list of all exceptions in the order of the
  chunks. If the chunk that is run for timing throws, no other chunk is run. The asynchronous version
  gives the same outcome.\<close>

theorem partitioner_outcome:
  assumes "1 < num_spread ex" "num_spread ex \<le> future_vector_max_size" "0 < os_threads" "num_tasks ex \<noteq> 0"
    "shape_pre params cores count 1" "\<forall>b n. chunk_inside first count b n \<longrightarrow> f1 b n \<noteq> None"
  shows "let call = partitioner_call Parallel_Policy (parallel_bulk_async_execute ex os_threads)
        params clk cores kind first count f1 f2 in
    ((\<exists>cs. cs \<noteq> [] \<and> consecutive first 0 cs (next_pos first count) \<and>
        call = join_outcomes f2 (map (\<lambda>(b, n, i). the (f1 b n)) cs)) \<or>
     (\<exists>n e. times_chunks params \<and> f1 first n = throw e \<and> call = join_outcomes f2 [Inl e])) \<and>
    partitioner_call_task (parallel_bulk_async_execute ex os_threads)
      params clk cores kind first count f1 f2 = call"
proof -
  have w: "chunk_executor (parallel_bulk_async_execute ex os_threads)"
    by unfold_locales (rule parallel_executor_runs_all [OF assms(1-4)])
  show ?thesis unfolding Let_def
    by (rule chunk_executor.call_outcome [OF w assms(5), where ?f1.0 = f1 and clk = clk and kind = kind and first = first and ?f2.0 = f2])
      (use assms(6) in \<open>simp_all add: partitioner_call_task_def partitioner_call_def try_tasks_async_agrees, blast+\<close>)
qed

lemma partitioner_outcome_witness:
  "\<exists>cs. consecutive 0 0 cs 10 \<and>
    partitioner_call Parallel_Policy (parallel_bulk_async_execute default_parallel_executor 4) (Static_Chunk_Size 3)
      (0, 0) 2 Integral_Type 0 10 (\<lambda>b n. ret n) ret =
    (join_outcomes ret (map (\<lambda>(b, n, i). Inr n) cs) :: (nat, u64 list) run)"
  using partitioner_outcome [where ex = default_parallel_executor and os_threads = 4 and params = "Static_Chunk_Size 3"
      and cores = 2 and count = 10 and clk = "(0, 0)" and kind = Integral_Type and first = 0
      and ?f1.0 = "\<lambda>b n. ret n :: (nat, u64) run" and ?f2.0 = "ret :: u64 list \<Rightarrow> (nat, u64 list) run"]
  by (auto simp: default_parallel_executor_def future_vector_max_size_def shape_pre_def times_chunks_def next_pos_def ret_def Let_def)

end
