(* ===== verification/For_Loop.thy ===== *)
theory For_Loop
  imports Partitioner
begin

text \<open>
  The loops of \<^verbatim>\<open>hpx/parallel/algorithms/for_loop.hpp\<close> with the induction variables of
  \<^verbatim>\<open>for_loop_induction.hpp\<close>. A run gives the calls of the loop body, position and induction
  values of each, and the induction objects afterwards. Induction variables have an integral type
  of 64 bits. The stride is a signed number of 64 bits.
\<close>

section \<open>Induction variables\<close>

record induction =
  ind_var :: u64
  ind_curr :: u64
  ind_stride :: "u64 option" \<comment> \<open>\<open>None\<close>: \<open>induction_helper\<close>; \<open>Some\<close>: \<open>induction_stride_helper\<close>\<close>
  ind_live_out :: "u64 option" \<comment> \<open>the variable that the versions for references write back\<close>

definition make_induction :: "u64 \<Rightarrow> u64 option \<Rightarrow> bool \<Rightarrow> induction" where
  "make_induction var stride is_reference =
     \<lparr> ind_var = var, ind_curr = var, ind_stride = stride,
       ind_live_out = (if is_reference then Some var else None) \<rparr>"

definition init_iteration :: "u64 \<Rightarrow> induction \<Rightarrow> induction" where
  "init_iteration index a = a\<lparr> ind_curr := (case ind_stride a of
       None \<Rightarrow> ind_var a + index | Some st \<Rightarrow> ind_var a + st * index) \<rparr>"

definition iteration_value :: "induction \<Rightarrow> u64" where
  "iteration_value a = ind_curr a"

definition next_iteration :: "induction \<Rightarrow> induction" where
  "next_iteration a = a\<lparr> ind_curr := (case ind_stride a of
       None \<Rightarrow> ind_curr a + 1 | Some st \<Rightarrow> ind_curr a + st) \<rparr>"

definition exit_iteration :: "u64 \<Rightarrow> induction \<Rightarrow> induction" where
  "exit_iteration index a = a\<lparr> ind_live_out := map_option (\<lambda>v. case ind_stride a of
       None \<Rightarrow> v + index | Some st \<Rightarrow> v + st * index) (ind_live_out a) \<rparr>"

section \<open>Loops\<close>

type_synonym loop_call = "pos \<times> u64 list"

type_synonym 'x loop_body = "pos \<Rightarrow> u64 list \<Rightarrow> ('x, unit) run"

definition loop_step :: "int \<Rightarrow> u64 \<Rightarrow> u64" where
  "loop_step stride steps = (if sint steps < stride then steps else word_of_int stride)"

partial_function (option) iterations ::
  "iter_kind \<Rightarrow> int \<Rightarrow> 'x loop_body \<Rightarrow> induction list \<Rightarrow> pos \<Rightarrow> u64 \<Rightarrow> loop_call list
    \<Rightarrow> ('x, loop_call list \<times> induction list) run" where
  [code]: "iterations kind stride f args first count calls =
     (if count \<noteq> 0 then
        run_bind (f first (map iteration_value args)) (\<lambda>_.
          iterations kind stride f (map next_iteration args)
            (fst (next_within kind first count (loop_step stride count)))
            (count - snd (next_within kind first count (loop_step stride count)))
            (calls @ [(first, map iteration_value args)]))
      else ret (calls, args))"

definition part_iterations ::
  "iter_kind \<Rightarrow> int \<Rightarrow> 'x loop_body \<Rightarrow> induction list \<Rightarrow> ('x, loop_call list) chunk_fun" where
  "part_iterations kind stride f args part_begin part_steps part_index =
     run_bind (iterations kind stride f (map (init_iteration part_index) args) part_begin part_steps [])
       (\<lambda>(calls, _). ret calls)"

definition for_loop_sequential ::
  "iter_kind \<Rightarrow> pos \<Rightarrow> u64 \<Rightarrow> int \<Rightarrow> 'x loop_body \<Rightarrow> induction list
    \<Rightarrow> ('x, loop_call list \<times> u64 option list) run" where
  "for_loop_sequential kind first sz stride f args =
     run_bind (iterations kind stride f (map (init_iteration 0) args) first sz [])
       (\<lambda>(calls, args'). ret (calls, map (\<lambda>a. ind_live_out (exit_iteration sz a)) args'))"

definition for_loop_parallel ::
  "policy \<Rightarrow> (idx_chunk, 'x, loop_call list) executor \<Rightarrow> exec_parameters \<Rightarrow> clock \<Rightarrow> u64
    \<Rightarrow> iter_kind \<Rightarrow> pos \<Rightarrow> u64 \<Rightarrow> int \<Rightarrow> 'x loop_body \<Rightarrow> induction list
    \<Rightarrow> ('x, loop_call list \<times> u64 option list) run" where
  "for_loop_parallel pol exec params clk cores kind first sz stride f args =
     (if sz = 0 then ret ([], map ind_live_out args)
      else partitioner_call_with_index pol exec params clk cores kind first sz stride
             (part_iterations kind stride f args)
             (\<lambda>results. ret (concat results, map (\<lambda>a. ind_live_out (exit_iteration sz a)) args)))"

datatype loop_policy = Sequenced | Parallel policy

definition for_loop_call ::
  "loop_policy \<Rightarrow> bool \<Rightarrow> (idx_chunk, 'x, loop_call list) executor \<Rightarrow> exec_parameters \<Rightarrow> clock \<Rightarrow> u64
    \<Rightarrow> iter_kind \<Rightarrow> pos \<Rightarrow> u64 \<Rightarrow> int \<Rightarrow> 'x loop_body \<Rightarrow> induction list
    \<Rightarrow> ('x, loop_call list \<times> u64 option list) run" where
  "for_loop_call lp input_only exec params clk cores kind first sz stride f args = (case lp of
       Parallel pol \<Rightarrow>
         if input_only then for_loop_sequential kind first sz stride f args
         else for_loop_parallel pol exec params clk cores kind first sz stride f args
     | Sequenced \<Rightarrow> for_loop_sequential kind first sz stride f args)"

definition for_loop_strided ::
  "loop_policy \<Rightarrow> bool \<Rightarrow> (idx_chunk, 'x, loop_call list) executor \<Rightarrow> exec_parameters \<Rightarrow> clock \<Rightarrow> u64
    \<Rightarrow> iter_kind \<Rightarrow> pos \<Rightarrow> pos \<Rightarrow> int \<Rightarrow> 'x loop_body \<Rightarrow> induction list
    \<Rightarrow> ('x, loop_call list \<times> u64 option list) run" where
  "for_loop_strided lp input_only exec params clk cores kind first last' stride f args =
     run_assert (stride \<noteq> 0) (run_assert (stride < 0 \<longrightarrow> kind \<noteq> Forward_Iterator)
       (for_loop_call lp input_only exec params clk cores kind first (word_of_int (last' - first)) stride f args))"

definition for_loop_n_strided ::
  "loop_policy \<Rightarrow> bool \<Rightarrow> (idx_chunk, 'x, loop_call list) executor \<Rightarrow> exec_parameters \<Rightarrow> clock \<Rightarrow> u64
    \<Rightarrow> iter_kind \<Rightarrow> pos \<Rightarrow> int \<Rightarrow> int \<Rightarrow> 'x loop_body \<Rightarrow> induction list
    \<Rightarrow> ('x, loop_call list \<times> u64 option list) run" where
  "for_loop_n_strided lp input_only exec params clk cores kind first sz stride f args =
     run_assert (sz \<ge> 0) (run_assert (stride \<noteq> 0) (run_assert (stride < 0 \<longrightarrow> kind \<noteq> Forward_Iterator)
       (for_loop_call lp (input_only \<or> kind = Integral_Type) exec params clk cores kind first (word_of_int sz) stride f args)))"

section \<open>What a loop visits\<close>

definition ind_step :: "induction \<Rightarrow> u64" where
  "ind_step a = (case ind_stride a of None \<Rightarrow> 1 | Some st \<Rightarrow> st)"

definition visit :: "int \<Rightarrow> pos \<Rightarrow> induction list \<Rightarrow> nat \<Rightarrow> loop_call" where
  "visit s b args k = (b + s * int k, map (\<lambda>a. ind_curr a + of_nat k * ind_step a) args)"

definition rounds :: "int \<Rightarrow> int \<Rightarrow> nat" where
  "rounds s n = nat ((n + s - 1) div s)"

definition visits :: "int \<Rightarrow> pos \<Rightarrow> int \<Rightarrow> induction list \<Rightarrow> loop_call list" where
  "visits s b n args = map (visit s b args) [0..<rounds s n]"

lemma rounds_0 [simp]: "0 < s \<Longrightarrow> rounds s 0 = 0"
  by (simp add: rounds_def)

lemma rounds_last: "0 < s \<Longrightarrow> 0 < n \<Longrightarrow> n \<le> s \<Longrightarrow> rounds s n = 1"
proof -
  assume a: "0 < s" "0 < n" "n \<le> s"
  have "(n + s - 1) div s = (n - 1 + s) div s" by (simp add: algebra_simps)
  also have "\<dots> = 1" using a by (simp add: div_add_self2 div_pos_pos_trivial)
  finally show ?thesis by (simp add: rounds_def)
qed

lemma rounds_add:
  assumes "0 < s" "0 \<le> n" "0 \<le> m" "s dvd m"
  shows "rounds s (m + n) = nat (m div s) + rounds s n"
proof -
  obtain q where q: "m = s * q" using assms(4) by (auto simp: dvd_def)
  have "(m + n + s - 1) div s = q + (n + s - 1) div s"
    using assms(1) q by (simp add: algebra_simps)
      (metis add.commute add.left_commute diff_add_eq div_mult_self4 less_irrefl mult.commute)
  moreover have "0 \<le> q" using assms(1,3) q by (simp add: zero_le_mult_iff)
  moreover have "0 \<le> (n + s - 1) div s" using assms(1,2) by (simp add: pos_imp_zdiv_nonneg_iff)
  ultimately show ?thesis using assms(1) q by (simp add: rounds_def nat_add_distrib)
qed

lemma ind_step_simps [simp]:
  "ind_step (next_iteration a) = ind_step a" "ind_step (init_iteration i a) = ind_step a"
  "ind_curr (next_iteration a) = ind_curr a + ind_step a"
  "ind_curr (init_iteration i a) = ind_var a + ind_step a * i"
  by (auto simp: ind_step_def next_iteration_def init_iteration_def split: option.split)

lemma visit_Suc: "visit s b args (Suc k) = visit s (b + s) (map next_iteration args) k"
  by (simp add: visit_def algebra_simps)

lemma visits_next:
  assumes "0 < s" "0 < n"
  shows "visits s b n args = visit s b args 0 # visits s (b + s) (n - min s n) (map next_iteration args)"
proof -
  have "rounds s n = Suc (rounds s (n - min s n))"
  proof (cases "s \<le> n")
    case True
    then show ?thesis using assms rounds_add [of s "n - s" s] by (simp add: min_def)
  next
    case False
    then show ?thesis using assms by (simp add: min_def rounds_last)
  qed
  then show ?thesis by (simp add: visits_def upt_conv_Cons map_Suc_upt [symmetric] visit_Suc del: upt_Suc)
qed

lemma sint_small:
  fixes n :: u64
  assumes "uint n < 2 ^ 63"
  shows "sint n = uint n"
  unfolding sint_uint using assms order_trans [OF _ uint_ge_0 [of n], of "- (2 ^ 63)"]
  by (intro signed_take_bit_int_eq_self) simp_all

lemma loop_step_positive:
  assumes "0 < s" "s < 2 ^ 63" "n \<noteq> 0" "uint n < 2 ^ 63"
  shows "uint (loop_step s n) = min s (uint n)" "loop_step s n \<le> n"
proof -
  have "sint n = uint n" using assms(4) by (rule sint_small)
  then show u: "uint (loop_step s n) = min s (uint n)"
    using assms by (simp add: loop_step_def uint_stride)
  then show "loop_step s n \<le> n" by (simp add: word_le_def)
qed

lemma iterations_visits:
  fixes f :: "'x loop_body"
  assumes "0 < s" "s < 2 ^ 63" "f = (\<lambda>p vs. ret ())" "uint n < 2 ^ 63"
  shows "\<exists>args'. iterations kind s f args b n calls = ret (calls @ visits s b (uint n) args, args') \<and>
    map (ind_curr_update (\<lambda>_. 0)) args' = map (ind_curr_update (\<lambda>_. 0)) args"
  using assms(4)
proof (induction "unat n" arbitrary: b n args calls rule: less_induct)
  case less
  show ?case
  proof (cases "n = 0")
    case True
    then show ?thesis using assms(1) by (subst iterations.simps) (simp add: visits_def)
  next
    case False
    let ?c = "loop_step s n"
    have c: "uint ?c = min s (uint n)" "?c \<le> n" using loop_step_positive [OF assms(1,2) False less.prems] .
    have un: "uint (n - ?c) = uint n - min s (uint n)" using c by (simp add: uint_diff_le)
    have pos: "0 < uint n" using False by (simp only: uint_pos_iff) simp
    have "uint (n - ?c) < uint n" using un pos assms(1) by linarith
    then have lt: "unat (n - ?c) < unat n" by (simp only: word_less_nat_alt [symmetric] word_less_def)
    have b: "uint (n - ?c) < 2 ^ 63" using \<open>uint (n - ?c) < uint n\<close> less.prems by linarith
    obtain args' where args: "iterations kind s f (map next_iteration args) (b + uint ?c) (n - ?c)
        (calls @ [(b, map iteration_value args)]) =
        ret ((calls @ [(b, map iteration_value args)]) @ visits s (b + uint ?c) (uint (n - ?c)) (map next_iteration args), args')"
      "map (ind_curr_update (\<lambda>_. 0)) args' = map (ind_curr_update (\<lambda>_. 0)) (map next_iteration args)"
      using less.hyps [OF lt b] by blast
    have v: "visits s (b + uint ?c) (uint (n - ?c)) (map next_iteration args) =
      visits s (b + s) (uint n - min s (uint n)) (map next_iteration args)"
      using assms(1) pos by (cases "s \<le> uint n") (simp_all add: c un visits_def)
    have "(b, map iteration_value args) = visit s b args 0" by (simp add: visit_def iteration_value_def)
    then have e: "visits s b (uint n) args = (b, map iteration_value args) #
        visits s (b + uint ?c) (uint (n - ?c)) (map next_iteration args)"
      by (simp only: v visits_next [OF assms(1) pos])
    have "iterations kind s f args b n calls = iterations kind s f (map next_iteration args) (b + uint ?c) (n - ?c)
        (calls @ [(b, map iteration_value args)])"
      using False iterations.simps [of kind s f args b n calls]
      by (simp only: assms(3) next_within_le [OF c(2)] run_bind_simps fst_conv snd_conv not_False_eq_True if_True)
    then have "iterations kind s f args b n calls = ret (calls @ visits s b (uint n) args, args')"
      by (simp only: args(1) e append_assoc append.simps)
    moreover have "map (ind_curr_update (\<lambda>_. 0)) (map next_iteration args) = map (ind_curr_update (\<lambda>_. 0)) args"
      by (simp add: next_iteration_def)
    ultimately show ?thesis using args(2) by (intro exI [of _ args'] conjI) (simp_all only:)
  qed
qed

lemma part_iterations_visits:
  fixes f :: "'x loop_body"
  assumes "0 < s" "s < 2 ^ 63" "f = (\<lambda>p vs. ret ())" "uint n < 2 ^ 63"
  shows "part_iterations kind s f args b n i = ret (visits s b (uint n) (map (init_iteration i) args))"
  using iterations_visits [OF assms, where kind = kind and args = "map (init_iteration i) args" and b = b and calls = "[]"]
  by (auto simp: part_iterations_def)

lemma visits_append:
  assumes "0 < s" "0 \<le> m" "0 \<le> n" "s dvd m"
  shows "visits s b (m + n) args =
    visits s b m args @ map (\<lambda>k. visit s b args (nat (m div s) + k)) [0..<rounds s n]"
proof -
  have "visits s b (m + n) args = map (visit s b args) [0..<rounds s m + rounds s n]"
    using assms rounds_add [of s n m] rounds_add [of s 0 m] by (simp add: visits_def)
  also have "[0..<rounds s m + rounds s n] = [0..<rounds s m] @ map (\<lambda>k. rounds s m + k) [0..<rounds s n]"
    by (rule nth_equalityI) (auto simp: nth_append)
  finally show ?thesis using assms rounds_add [of s 0 m] by (simp add: visits_def)
qed

lemma loop_step_le:
  assumes "0 < s" "s < 2 ^ 63" "n \<noteq> 0"
  shows "loop_step s n \<le> n" "loop_step s n \<noteq> 0"
proof -
  have "word_of_int s \<le> n" if "s \<le> sint n"
  proof -
    have "0 \<le> sint n" using that assms(1) by simp
    moreover have "sint n < 2 ^ 63" using sint_lt [of n] by simp
    moreover have "uint n = sint n mod 2 ^ 64" by (simp add: uint_sint take_bit_eq_mod)
    ultimately have "sint n = uint n" by simp
    then show ?thesis using that assms(1,2) by (simp add: word_le_def uint_stride)
  qed
  then show "loop_step s n \<le> n" by (simp add: loop_step_def not_less)
  have "uint (word_of_int s :: u64) \<noteq> 0" using assms(1,2) by (simp add: uint_stride)
  then show "loop_step s n \<noteq> 0" using assms(3) by (auto simp: loop_step_def)
qed

lemma iterations_defined:
  fixes f :: "'x loop_body"
  assumes "0 < s" "s < 2 ^ 63" "f = (\<lambda>p vs. ret ())"
  shows "\<exists>r. iterations kind s f args b n calls = ret r"
proof (induction "unat n" arbitrary: b n args calls rule: less_induct)
  case less
  show ?case
  proof (cases "n = 0")
    case True
    then show ?thesis by (subst iterations.simps) simp
  next
    case False
    let ?c = "loop_step s n"
    have c: "?c \<le> n" "?c \<noteq> 0" using loop_step_le [OF assms(1,2) False] .
    have "0 < uint ?c" using c(2) uint_pos_iff by blast
    then have "uint (n - ?c) < uint n" using c(1) by (simp add: uint_diff_le)
    then have "unat (n - ?c) < unat n" by (simp only: word_less_nat_alt [symmetric] word_less_def)
    then obtain r where "iterations kind s f (map next_iteration args) (b + uint ?c) (n - ?c)
        (calls @ [(b, map iteration_value args)]) = ret r"
      using less.hyps by blast
    then show ?thesis using False iterations.simps [of kind s f args b n calls]
      by (simp only: assms(3) next_within_le [OF c(1)] run_bind_simps fst_conv snd_conv not_False_eq_True if_True) blast
  qed
qed

lemma visits_shift:
  assumes "0 < s" "0 \<le> m" "s dvd m" "args = [] \<or> s = 1"
  shows "map (\<lambda>k. visit s b (map (init_iteration i) args) (nat (m div s) + k)) [0..<rounds s n] =
    visits s (b + m) n (map (init_iteration (i + word_of_int m)) args)"
proof -
  have "s * (m div s) = m" using assms(3) by simp
  then have p: "s * int (nat (m div s) + k) = m + s * int k" for k
    using assms(1,2) by (simp add: distrib_left pos_imp_zdiv_nonneg_iff)
  have "of_nat (nat m) = (word_of_int m :: u64)" using assms(2) by (simp add: of_nat_nat)
  then have "visit s b (map (init_iteration i) args) (nat (m div s) + k) =
      visit s (b + m) (map (init_iteration (i + word_of_int m)) args) k" for k
    using assms(4) p [of k] by (auto simp: visit_def algebra_simps)
  then show ?thesis by (simp add: visits_def)
qed

lemma concat_visits:
  assumes "0 < s" "args = [] \<or> s = 1"
  shows "consecutive b i cs e \<Longrightarrow> aligned s cs \<Longrightarrow>
    concat (map (\<lambda>(b, n, i). visits s b (uint n) (map (init_iteration i) args)) cs) =
    visits s b (e - b) (map (init_iteration i) args)"
proof (induction b i cs e rule: consecutive.induct)
  case (1 b i e)
  then show ?case using assms(1) by (simp add: visits_def)
next
  case (2 b i p n k xs e)
  show ?case
  proof (cases "xs = []")
    case True
    then show ?thesis using 2 by auto
  next
    case False
    then have al: "s dvd uint n" "aligned s xs" using 2 by (cases xs; auto)+
    have "0 \<le> e - (b + uint n)" using consecutive_length [of "b + uint n" "i + n" xs e] 2 by simp
    then have "visits s b (uint n + (e - (b + uint n))) (map (init_iteration i) args) =
        visits s b (uint n) (map (init_iteration i) args) @
        visits s (b + uint n) (e - (b + uint n)) (map (init_iteration (i + n)) args)"
      by (simp only: visits_append [OF assms(1) uint_ge_0 _ al(1)]
          visits_shift [OF assms(1) uint_ge_0 al(1) assms(2)] word_of_int_uint)
    then show ?thesis using 2 al(2) by simp
  qed
qed

lemma consecutive_sizes: "consecutive b i cs e \<Longrightarrow> (p, n, k) \<in> set cs \<Longrightarrow> uint n \<le> e - b"
proof (induction b i cs e rule: consecutive.induct)
  case (2 b i p' n' k' xs e)
  then have "b + uint n' + int (length xs) \<le> e" using consecutive_length by auto
  moreover have "uint n \<le> e - (b + uint n') \<or> uint n = uint n'" using 2 by auto
  ultimately show ?case using uint_ge_0 [of n'] by (elim disjE) linarith+
qed simp

lemma live_out_exit: "ind_live_out (exit_iteration n (a\<lparr> ind_curr := v \<rparr>)) = ind_live_out (exit_iteration n a)"
  by (simp add: exit_iteration_def)

lemma live_out_same:
  assumes "map (ind_curr_update (\<lambda>_. 0)) as = map (ind_curr_update (\<lambda>_. 0)) bs"
  shows "map (\<lambda>a. ind_live_out (exit_iteration n a)) as = map (\<lambda>a. ind_live_out (exit_iteration n a)) bs"
proof -
  have "map (\<lambda>a. ind_live_out (exit_iteration n a)) cs =
      map (\<lambda>a. ind_live_out (exit_iteration n a)) (map (ind_curr_update (\<lambda>_. 0)) cs)" for cs
    by (simp add: live_out_exit)
  then show ?thesis using assms by metis
qed

lemma for_loop_sequential_visits:
  fixes f :: "'x loop_body"
  assumes "0 < s" "s < 2 ^ 63" "f = (\<lambda>p vs. ret ())" "uint n < 2 ^ 63"
  shows "for_loop_sequential kind b n s f args =
    ret (visits s b (uint n) (map (init_iteration 0) args), map (\<lambda>a. ind_live_out (exit_iteration n a)) args)"
proof -
  obtain args' where it: "iterations kind s f (map (init_iteration 0) args) b n [] =
      ret (visits s b (uint n) (map (init_iteration 0) args), args')"
    and "map (ind_curr_update (\<lambda>_. 0)) args' = map (ind_curr_update (\<lambda>_. 0)) (map (init_iteration 0) args)"
    using iterations_visits [OF assms, where kind = kind and b = b and calls = "[]" and args = "map (init_iteration 0) args"]
    by auto
  then have "map (\<lambda>a. ind_live_out (exit_iteration n a)) args' =
      map (\<lambda>a. ind_live_out (exit_iteration n a)) (map (init_iteration 0) args)"
    by (intro live_out_same)
  then show ?thesis using it by (simp add: for_loop_sequential_def init_iteration_def exit_iteration_def)
qed

lemma for_loop_parallel_visits:
  fixes f :: "'x loop_body"
  assumes ex: "idx_executor exec" and pre: "shape_pre params cores n s"
    and f: "f = (\<lambda>p vs. ret ())" and n: "uint n < 2 ^ 63" and args: "args = [] \<or> s = 1"
  shows "for_loop_parallel Parallel_Policy exec params clk cores kind b n s f args =
    ret (visits s b (uint n) (map (init_iteration 0) args), map (\<lambda>a. ind_live_out (exit_iteration n a)) args)"
proof -
  note s = shape_preD(2,3) [OF pre]
  let ?P = "part_iterations kind s f args"
  let ?V = "\<lambda>(b, n, i). visits s b (uint n) (map (init_iteration i) args)"
  have "\<exists>r. ?P b n i = ret r" for b n i
    using iterations_defined [OF s f, of kind "map (init_iteration i) args" b n "[]"]
    by (auto simp: part_iterations_def split_beta)
  then have total: "?P b n i \<noteq> None" "?P b n i \<noteq> throw e" for b n i e
    by (metis ret_eq(4), metis ret_eq(2))
  show ?thesis
  proof (rule idx_executor.call_with_index_outcome [OF ex pre, where ?f1.0 = ?P and clk = clk and kind = kind and first = b
        and ?f2.0 = "\<lambda>results. ret (concat results, map (\<lambda>a. ind_live_out (exit_iteration n a)) args)"])
    fix cs
    assume cs: "consecutive b 0 cs (next_pos b n)" "aligned s cs"
      and call: "partitioner_call_with_index Parallel_Policy exec params clk cores kind b n s ?P
        (\<lambda>results. ret (concat results, map (\<lambda>a. ind_live_out (exit_iteration n a)) args)) =
        join_outcomes (\<lambda>results. ret (concat results, map (\<lambda>a. ind_live_out (exit_iteration n a)) args))
          (map (\<lambda>c. the (apply_chunk ?P c)) cs)"
    have "uint m < 2 ^ 63" if "(p, m, i) \<in> set cs" for p m i
      using consecutive_sizes [OF cs(1) that] n by (simp add: next_pos_def)
    then have chunks: "map (\<lambda>c. the (apply_chunk ?P c)) cs = map (\<lambda>c. Inr (?V c)) cs"
      using part_iterations_visits [OF s f] by (auto simp: apply_chunk_def ret_def)
    have all: "concat (map ?V cs) = visits s b (uint n) (map (init_iteration 0) args)"
      using concat_visits [OF s(1) args cs] by (simp add: next_pos_def)
    show ?thesis
      using shape_preD(4) [OF pre] call
      by (simp only: for_loop_parallel_def chunks join_outcomes_values all if_False)
  qed (use total in auto)
qed

section \<open>Two limits of the loops\<close>

text \<open>
  A negative stride is documented for integral loop variables and bidirectional iterators. The step
  is computed as an unsigned number, so it is larger than any range and cut down to the rest of it: the body
  runs once, whatever the range.
\<close>

lemma negative_stride_once:
  fixes f :: "'x loop_body"
  assumes "s < 0" "- (2 ^ 63) \<le> s" "n \<noteq> 0" "uint n < 2 ^ 63" "kind \<noteq> Forward_Iterator" "f = (\<lambda>p vs. ret ())"
  shows "for_loop_sequential kind b n s f [] = ret ([(b, [])], [])"
proof -
  have "sint n = uint n" using assms(4) by (rule sint_small)
  moreover have "\<not> uint n < s" using assms(1) uint_ge_0 [of n] by linarith
  ultimately have "loop_step s n = word_of_int s" by (simp add: loop_step_def)
  moreover have "uint (word_of_int s :: u64) = s + 2 ^ 64"
  proof -
    have "s mod 2 ^ 64 = (s + 2 ^ 64) mod 2 ^ 64" by simp
    also have "\<dots> = s + 2 ^ 64" using assms(1,2) by (intro mod_pos_pos_trivial) simp_all
    finally show ?thesis by (simp add: uint_word_of_int take_bit_eq_mod)
  qed
  ultimately have "n < loop_step s n" using assms(2,4) by (simp add: word_less_def)
  then have nw: "next_within kind b n (loop_step s n) = (b + uint n, n)"
    using assms(5) by (cases kind) (auto simp: next_within_def next_pos_def Let_def)
  have "iterations kind s f [] b n [] = ret ([(b, [])], [])"
    using assms(3,6) by (subst iterations.simps, subst iterations.simps) (simp add: nw)
  then show ?thesis by (simp add: for_loop_sequential_def)
qed

text \<open>
  With a stride other than one a chunk starts its induction variables at the index of its first element
  and not at the number of iterations before it: the parallel loop gives other values than the sequential one.
\<close>

lemma induction_with_stride_differs:
  "for_loop_sequential Integral_Type 0 8 2 (\<lambda>p vs. ret ()) [make_induction 0 None False] =
     (ret ([(0, [0]), (2, [1]), (4, [2]), (6, [3])], [None]) :: (nat, _) run)"
  "for_loop_parallel Parallel_Policy bulk_async_execute_helper (Static_Chunk_Size 4) (0, 0) 1 Integral_Type 0 8 2
     (\<lambda>p vs. ret ()) [make_induction 0 None False] =
     (ret ([(0, [0]), (2, [1]), (4, [4]), (6, [5])], [None]) :: (nat, _) run)"
  by code_simp+

section \<open>Properties\<close>

text \<open>C13: a parallel loop makes the same calls as the sequential one, if it has no induction variables or a stride of one. For every executor with
  a spread of at least two (and at most what a vector holds) and at least one task, all executor parameters and clocks, every positive stride (smaller than the number of iterations if
  the parameters time a chunk), at least one core, a number of iterations between one and \<open>2 ^ 63 - 1\<close>, and a body that does not throw, the calls of all chunks
  put together in the order of the chunks are exactly the calls of the sequential loop in its order, with the same values
  of the induction variables and the same values written back at the end. The
  sequential loop visits the positions at multiples of the stride below the end.\<close>

theorem for_loop_parallel_is_sequential:
  fixes f :: "'x loop_body"
  assumes "1 < num_spread ex" "num_spread ex \<le> future_vector_max_size" "0 < os_threads" "num_tasks ex \<noteq> 0" "shape_pre params cores n s"
    "f = (\<lambda>p vs. ret ())" "uint n < 2 ^ 63" "args = [] \<or> s = 1"
  shows "\<exists>calls live.
    for_loop_sequential kind b n s f args = ret (calls, live) \<and>
    for_loop_parallel Parallel_Policy (parallel_bulk_async_execute ex os_threads) params clk cores kind b n s f args =
      ret (calls, live) \<and>
    map fst calls = map (\<lambda>k. b + s * int k) [0..<nat ((uint n + s - 1) div s)]"
proof -
  have ex: "idx_executor (parallel_bulk_async_execute ex os_threads)"
    by unfold_locales (rule parallel_executor_runs_all [OF assms(1-4)])
  have positions: "map fst (visits s b (uint n) as) = map (\<lambda>k. b + s * int k) [0..<nat ((uint n + s - 1) div s)]" for as
    by (simp add: visits_def visit_def rounds_def)
  show ?thesis
    by (intro exI conjI, rule for_loop_sequential_visits [OF shape_preD(2,3) [OF assms(5)] assms(6,7)],
        rule for_loop_parallel_visits [OF ex assms(5-8)], rule positions)
qed

lemma for_loop_parallel_is_sequential_witness:
  "\<exists>calls live.
    for_loop_parallel Parallel_Policy (parallel_bulk_async_execute default_parallel_executor 4) (Guided_Chunk_Size 2)
      (0, 0) 3 Forward_Iterator 5 100 7 (\<lambda>p vs. ret ()) [] = (ret (calls, live) :: (nat, _) run) \<and>
    map fst calls = map (\<lambda>k. 5 + 7 * int k) [0..<15]"
  using for_loop_parallel_is_sequential [where ex = default_parallel_executor and os_threads = 4
      and params = "Guided_Chunk_Size 2" and cores = 3 and n = 100 and s = 7 and clk = "(0, 0)"
      and kind = Forward_Iterator and b = 5 and args = "[]" and f = "\<lambda>p vs. ret () :: (nat, unit) run"]
  by (auto simp: default_parallel_executor_def future_vector_max_size_def shape_pre_def times_chunks_def)

end
