(* ===== verification/Parallel_Scan.thy ===== *)
theory Parallel_Scan
  imports Partitioner
begin

text \<open>
  Reductions and prefix sums: \<^verbatim>\<open>hpx/parallel/algorithms/reduce.hpp\<close>, \<^verbatim>\<open>inclusive_scan.hpp\<close> and
  \<^verbatim>\<open>exclusive_scan.hpp\<close>, which run on the partitioners of \<^verbatim>\<open>partitioner.hpp\<close> and
  \<^verbatim>\<open>scan_partitioner.hpp\<close>.

  The input is a list; an iterator into it is its position, and reading outside of the list is undefined
  behaviour (\<open>None\<close>). The operation is a total function. A scan writes to the list \<open>dest\<close>, which is
  not the input. Its tasks run concurrently: for every chunk a first task that scans the chunk on its own, and a
  last task that adds what precedes the chunk, which waits for the first tasks of all chunks up to its own. The
  steps of the relation \<open>scan_step\<close> are these tasks, in any order the waiting allows. The chunk that is run for timing is the
  first one, and its tasks run before the others; that is one of these orders.
\<close>

section \<open>Reduction\<close>

definition deref :: "'a list \<Rightarrow> pos \<Rightarrow> 'a option" where
  "deref xs p = (if 0 \<le> p \<and> p < int (length xs) then Some (xs ! nat p) else None)"

primrec accumulate_n :: "('b \<Rightarrow> 'a \<Rightarrow> 'b) \<Rightarrow> 'a list \<Rightarrow> pos \<Rightarrow> nat \<Rightarrow> 'b \<Rightarrow> 'b option" where
  "accumulate_n f xs it 0 init = Some init"
| "accumulate_n f xs it (Suc count) init =
     Option.bind (deref xs it) (\<lambda>x. accumulate_n f xs (it + 1) count (f init x))"

definition reduce_part :: "('a \<Rightarrow> 'a \<Rightarrow> 'a) \<Rightarrow> 'a list \<Rightarrow> pos \<Rightarrow> u64 \<Rightarrow> ('x, 'a) run" where
  "reduce_part r xs part_begin part_size =
     run_option (Option.bind (deref xs part_begin)
       (\<lambda>val. accumulate_n r xs (part_begin + 1) (unat (part_size - 1)) val))"

definition reduce_sequential :: "('a \<Rightarrow> 'a \<Rightarrow> 'a) \<Rightarrow> 'a list \<Rightarrow> 'a \<Rightarrow> 'a" where
  "reduce_sequential r xs init = foldl r init xs"

definition reduce_parallel ::
  "policy \<Rightarrow> (pos \<times> u64, 'x, 'a) executor \<Rightarrow> exec_parameters \<Rightarrow> clock \<Rightarrow> u64 \<Rightarrow> iter_kind
    \<Rightarrow> ('a \<Rightarrow> 'a \<Rightarrow> 'a) \<Rightarrow> 'a list \<Rightarrow> 'a \<Rightarrow> ('x, 'a) run" where
  "reduce_parallel pol exec params clk cores kind r xs init =
     (if xs = [] then ret init
      else partitioner_call pol exec params clk cores kind 0 (of_nat (length xs)) (reduce_part r xs)
             (\<lambda>results. run_option (accumulate_n r results 0 (length results) init)))"

section \<open>The loops of a scan\<close>

fun inclusive_scan_n :: "('a \<Rightarrow> 'a \<Rightarrow> 'a) \<Rightarrow> 'a list \<Rightarrow> nat \<Rightarrow> nat \<Rightarrow> 'a \<Rightarrow> 'a list \<Rightarrow> ('a \<times> 'a list) option" where
  "inclusive_scan_n op xs p 0 init dest = Some (init, dest)"
| "inclusive_scan_n op xs p (Suc n) init dest =
     (if p < length xs \<and> p < length dest then
        (let init' = op init (xs ! p) in inclusive_scan_n op xs (Suc p) n init' (dest[p := init']))
      else None)"

fun exclusive_scan_n ::
  "('a \<Rightarrow> 'a \<Rightarrow> 'a) \<Rightarrow> 'a list \<Rightarrow> nat \<Rightarrow> nat \<Rightarrow> 'a \<Rightarrow> 'a \<Rightarrow> 'a list \<Rightarrow> ('a \<times> 'a list) option" where
  "exclusive_scan_n op xs p 0 init temp dest = Some (init, dest)"
| "exclusive_scan_n op xs p (Suc n) init temp dest =
     (if p < length xs \<and> p < length dest then
        (let init' = op init (xs ! p) in exclusive_scan_n op xs (Suc p) n init' init' (dest[p := temp]))
      else None)"

fun add_before :: "('a \<Rightarrow> 'a \<Rightarrow> 'a) \<Rightarrow> 'a \<Rightarrow> nat \<Rightarrow> nat \<Rightarrow> 'a list \<Rightarrow> 'a list option" where
  "add_before op val p 0 dest = Some dest"
| "add_before op val p (Suc n) dest =
     (if p < length dest then add_before op val (Suc p) n (dest[p := op val (dest ! p)]) else None)"

definition inclusive_scan_sequential :: "('a \<Rightarrow> 'a \<Rightarrow> 'a) \<Rightarrow> 'a list \<Rightarrow> 'a \<Rightarrow> 'a list \<Rightarrow> 'a list option" where
  "inclusive_scan_sequential op xs init dest =
     map_option snd (inclusive_scan_n op xs 0 (length xs) init dest)"

definition exclusive_scan_sequential :: "('a \<Rightarrow> 'a \<Rightarrow> 'a) \<Rightarrow> 'a list \<Rightarrow> 'a \<Rightarrow> 'a list \<Rightarrow> 'a list option" where
  "exclusive_scan_sequential op xs init dest =
     map_option snd (exclusive_scan_n op xs 0 (length xs) init init dest)"

definition inclusive_f1 :: "('a \<Rightarrow> 'a \<Rightarrow> 'a) \<Rightarrow> 'a list \<Rightarrow> nat \<Rightarrow> nat \<Rightarrow> 'a list \<Rightarrow> ('a \<times> 'a list) option" where
  "inclusive_f1 op xs part_begin part_size dest =
     (if part_begin < length xs \<and> part_begin < length dest \<and> part_size \<noteq> 0 then
        inclusive_scan_n op xs (Suc part_begin) (part_size - 1) (xs ! part_begin) (dest[part_begin := xs ! part_begin])
      else None)"

definition inclusive_f3 :: "('a \<Rightarrow> 'a \<Rightarrow> 'a) \<Rightarrow> nat \<Rightarrow> nat \<Rightarrow> 'a \<Rightarrow> 'a list \<Rightarrow> 'a list option" where
  "inclusive_f3 op part_begin part_size val dest = add_before op val part_begin part_size dest"

definition exclusive_f1 :: "('a \<Rightarrow> 'a \<Rightarrow> 'a) \<Rightarrow> 'a list \<Rightarrow> nat \<Rightarrow> nat \<Rightarrow> 'a list \<Rightarrow> ('a \<times> 'a list) option" where
  "exclusive_f1 op xs part_begin part_size dest =
     (if part_begin < length xs \<and> part_size \<noteq> 0 then
        exclusive_scan_n op xs (Suc part_begin) (part_size - 1) (xs ! part_begin) (xs ! part_begin) dest
      else None)"

definition exclusive_f3 :: "('a \<Rightarrow> 'a \<Rightarrow> 'a) \<Rightarrow> nat \<Rightarrow> nat \<Rightarrow> 'a \<Rightarrow> 'a list \<Rightarrow> 'a list option" where
  "exclusive_f3 op part_begin part_size val dest =
     (if part_begin < length dest \<and> part_size \<noteq> 0 then
        add_before op val (Suc part_begin) (part_size - 1) (dest[part_begin := val])
      else None)"

section \<open>Tasks of a scan\<close>

datatype 'a scan_status = Waiting | Scanned 'a | Finished 'a

fun scan_value :: "'a scan_status \<Rightarrow> 'a option" where
  "scan_value Waiting = None"
| "scan_value (Scanned v) = Some v"
| "scan_value (Finished v) = Some v"

text \<open>The shared future \<open>workitems[i]\<close>: the initial value and the results of the first tasks before chunk \<open>i\<close>.\<close>

fun workitem :: "('a \<Rightarrow> 'a \<Rightarrow> 'a) \<Rightarrow> 'a \<Rightarrow> 'a scan_status list \<Rightarrow> nat \<Rightarrow> 'a option" where
  "workitem f2 init sts 0 = Some init"
| "workitem f2 init sts (Suc i) = (case (workitem f2 init sts i, scan_value (sts ! i)) of
     (Some prev, Some cur) \<Rightarrow> Some (f2 prev cur) | _ \<Rightarrow> None)"

record 'a scan_state =
  sc_dest :: "'a list"
  sc_status :: "'a scan_status list"

type_synonym 'a scan_f1 = "nat \<Rightarrow> nat \<Rightarrow> 'a list \<Rightarrow> ('a \<times> 'a list) option"
type_synonym 'a scan_f3 = "nat \<Rightarrow> nat \<Rightarrow> 'a \<Rightarrow> 'a list \<Rightarrow> 'a list option"

inductive scan_step ::
  "'a scan_f1 \<Rightarrow> ('a \<Rightarrow> 'a \<Rightarrow> 'a) \<Rightarrow> 'a scan_f3 \<Rightarrow> 'a \<Rightarrow> (nat \<times> nat) list \<Rightarrow> 'a scan_state \<Rightarrow> 'a scan_state \<Rightarrow> bool"
  for f1 f2 f3 init shape where
  first_task: "i < length shape \<Longrightarrow> sc_status s ! i = Waiting \<Longrightarrow>
     f1 (fst (shape ! i)) (snd (shape ! i)) (sc_dest s) = Some (v, dest') \<Longrightarrow>
     scan_step f1 f2 f3 init shape s (s\<lparr> sc_dest := dest', sc_status := (sc_status s)[i := Scanned v] \<rparr>)"
| last_task: "i < length shape \<Longrightarrow> sc_status s ! i = Scanned v \<Longrightarrow>
     workitem f2 init (sc_status s) i = Some prev \<Longrightarrow>
     f3 (fst (shape ! i)) (snd (shape ! i)) prev (sc_dest s) = Some dest' \<Longrightarrow>
     scan_step f1 f2 f3 init shape s (s\<lparr> sc_dest := dest', sc_status := (sc_status s)[i := Finished v] \<rparr>)"

definition scan_start :: "(nat \<times> nat) list \<Rightarrow> 'a list \<Rightarrow> 'a scan_state" where
  "scan_start shape dest = \<lparr> sc_dest = dest, sc_status = replicate (length shape) Waiting \<rparr>"

definition scan_shape ::
  "exec_parameters \<Rightarrow> clock \<Rightarrow> u64 \<Rightarrow> iter_kind \<Rightarrow> u64 \<Rightarrow> ('x, (nat \<times> nat) list) run" where
  "scan_shape params clk cores kind count =
     run_assert (count > 0)
       (run_bind (bulk_shape params clk cores kind (\<lambda>b n. ret (b, n)) [] 0 count 1)
         (\<lambda>(shape, params', tested, count'). run_assert (tested \<noteq> [] \<longrightarrow> count > count')
            (ret (map (\<lambda>(b, n). (nat b, unat n)) (tested @ shape)))))"

section \<open>What the loops compute\<close>

fun inclusive_sums :: "('a \<Rightarrow> 'a \<Rightarrow> 'a) \<Rightarrow> 'a \<Rightarrow> 'a list \<Rightarrow> 'a list" where
  "inclusive_sums op v [] = []"
| "inclusive_sums op v (x # xs) = op v x # inclusive_sums op (op v x) xs"

fun exclusive_sums :: "('a \<Rightarrow> 'a \<Rightarrow> 'a) \<Rightarrow> 'a \<Rightarrow> 'a list \<Rightarrow> 'a list" where
  "exclusive_sums op v [] = []"
| "exclusive_sums op v (x # xs) = v # exclusive_sums op (op v x) xs"

definition chunk_total :: "('a \<Rightarrow> 'a \<Rightarrow> 'a) \<Rightarrow> 'a list \<Rightarrow> 'a" where
  "chunk_total op c = foldl op (hd c) (tl c)"

definition associative :: "('a \<Rightarrow> 'a \<Rightarrow> 'a) \<Rightarrow> bool" where
  "associative op \<longleftrightarrow> (\<forall>x y z. op (op x y) z = op x (op y z))"

lemma sums_simps [simp]:
  "length (inclusive_sums op v c) = length c" "length (exclusive_sums op v c) = length c"
  "inclusive_sums op v (c @ d) = inclusive_sums op v c @ inclusive_sums op (foldl op v c) d"
  "exclusive_sums op v (c @ d) = exclusive_sums op v c @ exclusive_sums op (foldl op v c) d"
  by (induction c arbitrary: v) auto

lemma map_sums:
  assumes "associative op"
  shows "map (op v) (inclusive_sums op x c) = inclusive_sums op (op v x) c"
    and "map (op v) (exclusive_sums op x c) = exclusive_sums op (op v x) c"
  using assms by (induction c arbitrary: x) (auto simp: associative_def)

lemma foldl_total:
  assumes "associative op" "c \<noteq> []"
  shows "foldl op v c = op v (chunk_total op c)"
proof -
  have "foldl op (op v x) d = op v (foldl op x d)" for x d
    using assms(1) by (induction d arbitrary: x) (auto simp: associative_def)
  then show ?thesis using assms(2) by (cases c) (auto simp: chunk_total_def)
qed

lemma inclusive_scan_n_sums:
  "length a' = length a \<Longrightarrow> length old = length c \<Longrightarrow>
    inclusive_scan_n op (a' @ c @ b') (length a) (length c) v (a @ old @ b) =
      Some (foldl op v c, a @ inclusive_sums op v c @ b)"
proof (induction c arbitrary: a a' old v)
  case (Cons x c)
  then obtain y old' where old: "old = y # old'" "length old' = length c" by (cases old) auto
  show ?case using Cons.prems Cons.IH [of "a' @ [x]" "a @ [op v x]" old' "op v x"] old
    by (auto simp: nth_append Let_def)
qed simp

lemma exclusive_scan_n_sums:
  "length a' = length a \<Longrightarrow> length old = length c \<Longrightarrow>
    exclusive_scan_n op (a' @ c @ b') (length a) (length c) v v (a @ old @ b) =
      Some (foldl op v c, a @ exclusive_sums op v c @ b)"
proof (induction c arbitrary: a a' old v)
  case (Cons x c)
  then obtain y old' where old: "old = y # old'" "length old' = length c" by (cases old) auto
  show ?case using Cons.prems Cons.IH [of "a' @ [x]" "a @ [v]" old' "op v x"] old
    by (auto simp: nth_append Let_def)
qed simp

lemma add_before_map: "add_before op v (length a) (length c) (a @ c @ b) = Some (a @ map (op v) c @ b)"
proof (induction c arbitrary: a)
  case (Cons x c)
  show ?case using Cons.IH [of "a @ [op v x]"] by (simp add: nth_append)
qed simp

section \<open>Every order of the tasks gives the same sums\<close>

fun shape_of :: "nat \<Rightarrow> 'a list list \<Rightarrow> (nat \<times> nat) list" where
  "shape_of k [] = []"
| "shape_of k (c # cs) = (k, length c) # shape_of (k + length c) cs"

lemma shape_of_nth: "i < length cs \<Longrightarrow> shape_of k cs ! i = (k + length (concat (take i cs)), length (cs ! i))"
  by (induction k cs arbitrary: i rule: shape_of.induct) (auto simp: nth_Cons' less_Suc_eq_0_disj take_Cons')

lemma length_shape_of [simp]: "length (shape_of k cs) = length cs"
  by (induction k cs rule: shape_of.induct) auto

lemma concat_nth: "i < length L \<Longrightarrow> concat L = concat (take i L) @ L ! i @ concat (drop (Suc i) L)"
  by (metis concat.simps(2) concat_append id_take_nth_drop)

lemma concat_update: "i < length L \<Longrightarrow> concat (L[i := y]) = concat (take i L) @ y @ concat (drop (Suc i) L)"
  by (simp add: upd_conv_take_nth_drop)

lemma length_concat_take:
  "map length L = map length M \<Longrightarrow> length (concat (take i L)) = length (concat (take i M))"
  by (simp add: length_concat take_map [symmetric])

lemma same_lengths:
  assumes "map length L = map length M" "i < length M"
  shows "length (L ! i) = length (M ! i)"
proof -
  have "length L = length M" using assms(1) by (rule map_eq_imp_length_eq)
  then show ?thesis using assms nth_map [of i L length] nth_map [of i M length] by metis
qed

locale scan_algorithm =
  fixes op :: "'a \<Rightarrow> 'a \<Rightarrow> 'a" and xs :: "'a list" and f1 :: "'a scan_f1" and f3 :: "'a scan_f3"
    and local :: "'a list \<Rightarrow> 'a list \<Rightarrow> 'a list" and sums :: "'a \<Rightarrow> 'a list \<Rightarrow> 'a list"
  assumes f1_law: "xs = a' @ c @ b' \<Longrightarrow> length a' = length a \<Longrightarrow> length old = length c \<Longrightarrow> c \<noteq> [] \<Longrightarrow>
      f1 (length a) (length c) (a @ old @ b) = Some (chunk_total op c, a @ local c old @ b)"
    and f3_law: "length old = length c \<Longrightarrow> c \<noteq> [] \<Longrightarrow>
      f3 (length a) (length c) v (a @ local c old @ b) = Some (a @ sums v c @ b)"
    and lengths: "length old = length c \<Longrightarrow> c \<noteq> [] \<Longrightarrow> length (local c old) = length c" "length (sums v c) = length c"
    and sums_append: "c \<noteq> [] \<Longrightarrow> sums v (c @ d) = sums v c @ sums (op v (chunk_total op c)) d"
begin

definition before :: "'a \<Rightarrow> 'a list list \<Rightarrow> nat \<Rightarrow> 'a" where
  "before init cs i = foldl op init (map (chunk_total op) (take i cs))"

definition content :: "'a \<Rightarrow> 'a list list \<Rightarrow> 'a list list \<Rightarrow> 'a scan_status list \<Rightarrow> nat \<Rightarrow> 'a list" where
  "content init cs olds sts i = (case sts ! i of
     Waiting \<Rightarrow> olds ! i | Scanned _ \<Rightarrow> local (cs ! i) (olds ! i) | Finished _ \<Rightarrow> sums (before init cs i) (cs ! i))"

definition scan_inv :: "'a \<Rightarrow> 'a list list \<Rightarrow> 'a list list \<Rightarrow> 'a scan_state \<Rightarrow> bool" where
  "scan_inv init cs olds s \<longleftrightarrow> length (sc_status s) = length cs \<and>
     (\<forall>i < length cs. \<forall>v. scan_value (sc_status s ! i) = Some v \<longrightarrow> v = chunk_total op (cs ! i)) \<and>
     sc_dest s = concat (map (content init cs olds (sc_status s)) [0..<length cs])"

lemma workitem_before:
  assumes "scan_inv init cs olds s" "workitem op init (sc_status s) i = Some v" "i \<le> length cs"
  shows "v = before init cs i"
  using assms(2,3)
proof (induction i arbitrary: v)
  case (Suc i)
  then obtain p c where "workitem op init (sc_status s) i = Some p" "scan_value (sc_status s ! i) = Some c" "v = op p c"
    by (auto split: option.splits)
  then show ?case using Suc assms(1) by (auto simp: before_def scan_inv_def take_Suc_conv_app_nth)
qed (simp add: before_def)

lemma content_lengths:
  assumes "map length olds = map length cs" "[] \<notin> set cs" "i < length cs"
  shows "length (content init cs olds sts i) = length (cs ! i)"
proof -
  have l: "length (olds ! i) = length (cs ! i)" "cs ! i \<noteq> []"
    using same_lengths [OF assms(1,3)] assms(2) nth_mem [OF assms(3)] by auto
  show ?thesis
    by (cases "sts ! i") (simp_all only: content_def scan_status.case l(1) lengths(1) [OF l] lengths(2))
qed

lemma content_update:
  assumes "i < length cs" "length sts = length cs"
  shows "map (content init cs olds (sts[i := st])) [0..<length cs] =
    (map (content init cs olds sts) [0..<length cs])[i := content init cs olds (sts[i := st]) i]"
proof (rule nth_equalityI)
  fix j assume "j < length (map (content init cs olds (sts[i := st])) [0..<length cs])"
  then show "map (content init cs olds (sts[i := st])) [0..<length cs] ! j =
      (map (content init cs olds sts) [0..<length cs])[i := content init cs olds (sts[i := st]) i] ! j"
    using assms by (cases "j = i") (simp_all add: content_def)
qed simp

lemma replace_content:
  assumes inv: "scan_inv init cs olds s" and lens: "map length olds = map length cs" and xs: "concat cs = xs"
    and ne: "[] \<notin> set cs" and i: "i < length cs"
  obtains a b a' b' where "sc_dest s = a @ content init cs olds (sc_status s) i @ b" "xs = a' @ cs ! i @ b'"
    "length a' = length a" "shape_of 0 cs ! i = (length a, length (cs ! i))"
    "\<forall>st. concat (map (content init cs olds ((sc_status s)[i := st])) [0..<length cs]) =
       a @ content init cs olds ((sc_status s)[i := st]) i @ b"
proof -
  let ?L = "map (content init cs olds (sc_status s)) [0..<length cs]"
  have "map length ?L = map length cs"
    by (rule nth_equalityI) (simp_all add: content_lengths [OF lens ne])
  then have "length (concat (take i ?L)) = length (concat (take i cs))" by (rule length_concat_take)
  moreover have "sc_dest s = concat ?L" "length (sc_status s) = length cs" using inv by (auto simp: scan_inv_def)
  moreover have "concat ?L = concat (take i ?L) @ ?L ! i @ concat (drop (Suc i) ?L)"
    using i by (intro concat_nth) simp
  moreover have "concat (map (content init cs olds ((sc_status s)[i := st])) [0..<length cs]) =
      concat (take i ?L) @ content init cs olds ((sc_status s)[i := st]) i @ concat (drop (Suc i) ?L)" for st
    using i \<open>length (sc_status s) = length cs\<close>
    by (subst content_update) (simp_all add: concat_update)
  moreover have "?L ! i = content init cs olds (sc_status s) i" using i by (simp)
  ultimately show thesis
    using that [of "concat (take i ?L)" "concat (drop (Suc i) ?L)" "concat (take i cs)" "concat (drop (Suc i) cs)"]
      i xs concat_nth [OF i] shape_of_nth [OF i, of 0]
    by (simp)
qed

lemma scan_inv_step:
  assumes "scan_step f1 op f3 init (shape_of 0 cs) s s'" and inv: "scan_inv init cs olds s"
    and lens: "map length olds = map length cs" and xs: "concat cs = xs" and ne: "[] \<notin> set cs"
  shows "scan_inv init cs olds s'"
  using assms(1)
proof cases
  case (first_task i v dest')
  then have i: "i < length cs" by simp
  have c: "length (olds ! i) = length (cs ! i)" "cs ! i \<noteq> []"
    using same_lengths [OF lens i] ne nth_mem [OF i] by auto
  obtain a b a' b' where r: "sc_dest s = a @ content init cs olds (sc_status s) i @ b" "xs = a' @ cs ! i @ b'"
    "length a' = length a" "shape_of 0 cs ! i = (length a, length (cs ! i))"
    "\<forall>st. concat (map (content init cs olds ((sc_status s)[i := st])) [0..<length cs]) =
       a @ content init cs olds ((sc_status s)[i := st]) i @ b"
    by (rule replace_content [OF inv lens xs ne i])
  have "f1 (length a) (length (cs ! i)) (a @ olds ! i @ b) = Some (chunk_total op (cs ! i), a @ local (cs ! i) (olds ! i) @ b)"
    using r(2,3) c by (rule f1_law)
  then have "v = chunk_total op (cs ! i)" "dest' = a @ local (cs ! i) (olds ! i) @ b"
    using first_task r(1,4) by (auto simp: content_def)
  then show ?thesis using first_task(1) i inv spec [OF r(5), of "Scanned v"]
    by (auto simp: scan_inv_def nth_list_update content_def)
next
  case (last_task i v prev dest')
  then have i: "i < length cs" by simp
  have c: "length (olds ! i) = length (cs ! i)" "cs ! i \<noteq> []"
    using same_lengths [OF lens i] ne nth_mem [OF i] by auto
  obtain a b a' b' where r: "sc_dest s = a @ content init cs olds (sc_status s) i @ b" "xs = a' @ cs ! i @ b'"
    "length a' = length a" "shape_of 0 cs ! i = (length a, length (cs ! i))"
    "\<forall>st. concat (map (content init cs olds ((sc_status s)[i := st])) [0..<length cs]) =
       a @ content init cs olds ((sc_status s)[i := st]) i @ b"
    by (rule replace_content [OF inv lens xs ne i])
  have "prev = before init cs i" using workitem_before [OF inv last_task(4)] i by simp
  moreover have "f3 (length a) (length (cs ! i)) prev (a @ local (cs ! i) (olds ! i) @ b) =
      Some (a @ sums prev (cs ! i) @ b)"
    using c by (rule f3_law)
  ultimately have "dest' = a @ sums (before init cs i) (cs ! i) @ b"
    using last_task r(1,4) by (auto simp: content_def)
  moreover have "v = chunk_total op (cs ! i)" using inv i last_task(3) by (auto simp: scan_inv_def)
  ultimately show ?thesis using last_task(1) i inv spec [OF r(5), of "Finished v"]
    by (auto simp: scan_inv_def nth_list_update content_def)
qed

lemma sums_Nil [simp]: "sums v [] = []"
  using lengths(2) [of v "[]"] by simp

lemma concat_sums: "[] \<notin> set cs \<Longrightarrow>
    concat (map (\<lambda>i. sums (before init cs i) (cs ! i)) [0..<length cs]) = sums init (concat cs)"
proof (induction cs arbitrary: init)
  case (Cons c cs)
  have "map (\<lambda>i. sums (before init (c # cs) i) ((c # cs) ! i)) [0..<length (c # cs)] =
      sums init c # map (\<lambda>i. sums (before (op init (chunk_total op c)) cs i) (cs ! i)) [0..<length cs]"
    by (simp add: upt_conv_Cons map_Suc_upt [symmetric] before_def del: upt_Suc)
  moreover have "c \<noteq> []" using Cons.prems by auto
  ultimately show ?case using Cons sums_append [of c init "concat cs"] by (simp del: upt_Suc)
qed simp

lemma scan_finished:
  assumes "scan_inv init cs olds s" "\<forall>i < length cs. \<exists>v. sc_status s ! i = Finished v" "[] \<notin> set cs"
  shows "sc_dest s = sums init (concat cs)"
proof -
  have "content init cs olds (sc_status s) i = sums (before init cs i) (cs ! i)" if "i < length cs" for i
    using assms(2) that by (auto simp: content_def split: scan_status.split)
  then have "map (content init cs olds (sc_status s)) [0..<length cs] =
      map (\<lambda>i. sums (before init cs i) (cs ! i)) [0..<length cs]" by simp
  moreover have "sc_dest s = concat (map (content init cs olds (sc_status s)) [0..<length cs])"
    using assms(1) by (simp add: scan_inv_def)
  ultimately show ?thesis by (simp only: concat_sums [OF assms(3)])
qed

lemma workitem_ready: "\<forall>j < i. sts ! j \<noteq> Waiting \<Longrightarrow> \<exists>v. workitem op init sts i = Some v"
proof (induction i)
  case (Suc i)
  then obtain v where "workitem op init sts i = Some v" by auto
  moreover obtain w where "scan_value (sts ! i) = Some w" using Suc.prems by (cases "sts ! i") auto
  ultimately show ?case by simp
qed simp

lemma scan_progress:
  assumes inv: "scan_inv init cs olds s" and lens: "map length olds = map length cs" and xs: "concat cs = xs"
    and ne: "[] \<notin> set cs" and i: "i < length cs" and unfinished: "\<forall>v. sc_status s ! i \<noteq> Finished v"
  shows "\<exists>s'. scan_step f1 op f3 init (shape_of 0 cs) s s'"
proof (cases "\<exists>j < length cs. sc_status s ! j = Waiting")
  case True
  then obtain j where j: "j < length cs" "sc_status s ! j = Waiting" by blast
  have c: "length (olds ! j) = length (cs ! j)" "cs ! j \<noteq> []"
    using same_lengths [OF lens j(1)] ne nth_mem [OF j(1)] by auto
  obtain a b a' b' where r: "sc_dest s = a @ content init cs olds (sc_status s) j @ b" "xs = a' @ cs ! j @ b'"
    "length a' = length a" "shape_of 0 cs ! j = (length a, length (cs ! j))"
    by (rule replace_content [OF inv lens xs ne j(1)])
  have "f1 (length a) (length (cs ! j)) (a @ olds ! j @ b) = Some (chunk_total op (cs ! j), a @ local (cs ! j) (olds ! j) @ b)"
    using r(2,3) c by (rule f1_law)
  then have "scan_step f1 op f3 init (shape_of 0 cs) s (s\<lparr> sc_dest := a @ local (cs ! j) (olds ! j) @ b,
      sc_status := (sc_status s)[j := Scanned (chunk_total op (cs ! j))] \<rparr>)"
    using j r(1,4) by (intro scan_step.first_task) (auto simp: content_def)
  then show ?thesis by blast
next
  case False
  then obtain v where v: "sc_status s ! i = Scanned v" using i unfinished by (cases "sc_status s ! i") auto
  have c: "length (olds ! i) = length (cs ! i)" "cs ! i \<noteq> []"
    using same_lengths [OF lens i] ne nth_mem [OF i] by auto
  obtain prev where prev: "workitem op init (sc_status s) i = Some prev"
    using workitem_ready [of i "sc_status s" init] False i by auto
  obtain a b a' b' where r: "sc_dest s = a @ content init cs olds (sc_status s) i @ b" "xs = a' @ cs ! i @ b'"
    "length a' = length a" "shape_of 0 cs ! i = (length a, length (cs ! i))"
    by (rule replace_content [OF inv lens xs ne i])
  have "f3 (length a) (length (cs ! i)) prev (a @ local (cs ! i) (olds ! i) @ b) = Some (a @ sums prev (cs ! i) @ b)"
    using c by (rule f3_law)
  then have "scan_step f1 op f3 init (shape_of 0 cs) s (s\<lparr> sc_dest := a @ sums prev (cs ! i) @ b,
      sc_status := (sc_status s)[i := Finished v] \<rparr>)"
    using i v prev r(1,4) by (intro scan_step.last_task) (auto simp: content_def)
  then show ?thesis by blast
qed

lemma scan_start_inv:
  assumes "map length olds = map length cs"
  shows "scan_inv init cs olds (scan_start (shape_of 0 cs) (concat olds))"
proof -
  have l: "length olds = length cs" using assms by (rule map_eq_imp_length_eq)
  have "map (content init cs olds (replicate (length cs) Waiting)) [0..<length cs] = map (\<lambda>i. olds ! i) [0..<length olds]"
    by (rule nth_equalityI) (auto simp: content_def l)
  then show ?thesis by (simp add: scan_inv_def scan_start_def map_nth)
qed

lemma scan_reachable_inv:
  assumes "(scan_step f1 op f3 init (shape_of 0 cs))\<^sup>*\<^sup>* (scan_start (shape_of 0 cs) (concat olds)) s"
    and "map length olds = map length cs" "concat cs = xs" "[] \<notin> set cs"
  shows "scan_inv init cs olds s"
  using assms(1)
proof induction
  case base
  show ?case using assms(2) by (rule scan_start_inv)
next
  case (step s s')
  then show ?case using scan_inv_step assms(2-4) by blast
qed

lemma scan_schedule:
  assumes "(scan_step f1 op f3 init (shape_of 0 cs))\<^sup>*\<^sup>* (scan_start (shape_of 0 cs) (concat olds)) s"
    and "map length olds = map length cs" "concat cs = xs" "[] \<notin> set cs"
    and "\<nexists>s'. scan_step f1 op f3 init (shape_of 0 cs) s s'"
  shows "sc_dest s = sums init xs"
proof -
  have inv: "scan_inv init cs olds s" using assms(1-4) by (rule scan_reachable_inv)
  then have "\<forall>i < length cs. \<exists>v. sc_status s ! i = Finished v"
    using scan_progress [OF _ assms(2-4)] assms(5) by blast
  then show ?thesis using scan_finished [OF inv _ assms(4)] assms(3) by simp
qed

end

text \<open>Both scans are such algorithms, on every input and for every associative operation.\<close>

lemma inclusive_scan_algorithm:
  assumes "associative op"
  shows "scan_algorithm op xs (inclusive_f1 op xs) (inclusive_f3 op)
    (\<lambda>c old. hd c # inclusive_sums op (hd c) (tl c)) (inclusive_sums op)"
proof
  fix a' c b' a old b :: "'a list"
  assume xs: "xs = a' @ c @ b'" and l: "length a' = length a" "length old = length c" "c \<noteq> []"
  then obtain x c' y old' where c: "c = x # c'" "old = y # old'" "length old' = length c'"
    by (cases c; cases old) auto
  have "inclusive_scan_n op ((a' @ [x]) @ c' @ b') (length (a @ [x])) (length c') x ((a @ [x]) @ old' @ b) =
      Some (foldl op x c', (a @ [x]) @ inclusive_sums op x c' @ b)"
    using l c by (intro inclusive_scan_n_sums) auto
  then show "inclusive_f1 op xs (length a) (length c) (a @ old @ b) =
      Some (chunk_total op c, a @ (hd c # inclusive_sums op (hd c) (tl c)) @ b)"
    using l by (simp add: inclusive_f1_def xs c chunk_total_def nth_append)
next
  fix old c a b :: "'a list" and v
  assume "length old = length c" "c \<noteq> []"
  then show "inclusive_f3 op (length a) (length c) v (a @ (hd c # inclusive_sums op (hd c) (tl c)) @ b) =
      Some (a @ inclusive_sums op v c @ b)"
    using add_before_map [of op v a "hd c # inclusive_sums op (hd c) (tl c)" b] map_sums(1) [OF assms]
    by (cases c) (auto simp: inclusive_f3_def)
qed (auto simp: foldl_total [OF assms])

lemma exclusive_scan_algorithm:
  assumes "associative op"
  shows "scan_algorithm op xs (exclusive_f1 op xs) (exclusive_f3 op)
    (\<lambda>c old. hd old # exclusive_sums op (hd c) (tl c)) (exclusive_sums op)"
proof
  fix a' c b' a old b :: "'a list"
  assume xs: "xs = a' @ c @ b'" and l: "length a' = length a" "length old = length c" "c \<noteq> []"
  then obtain x c' y old' where c: "c = x # c'" "old = y # old'" "length old' = length c'"
    by (cases c; cases old) auto
  have "exclusive_scan_n op ((a' @ [x]) @ c' @ b') (length (a @ [y])) (length c') x x ((a @ [y]) @ old' @ b) =
      Some (foldl op x c', (a @ [y]) @ exclusive_sums op x c' @ b)"
    using l c by (intro exclusive_scan_n_sums) auto
  then show "exclusive_f1 op xs (length a) (length c) (a @ old @ b) =
      Some (chunk_total op c, a @ (hd old # exclusive_sums op (hd c) (tl c)) @ b)"
    using l by (simp add: exclusive_f1_def xs c chunk_total_def nth_append)
next
  fix old c a b :: "'a list" and v
  assume "length old = length c" "c \<noteq> []"
  then show "exclusive_f3 op (length a) (length c) v (a @ (hd old # exclusive_sums op (hd c) (tl c)) @ b) =
      Some (a @ exclusive_sums op v c @ b)"
    using add_before_map [of op v "a @ [v]" "exclusive_sums op (hd c) (tl c)" b] map_sums(2) [OF assms]
    by (cases c) (auto simp: exclusive_f3_def nth_append)
qed (auto simp: foldl_total [OF assms])

text \<open>In particular for addition, the operation both scans have by default.\<close>

interpretation sum_scan: scan_algorithm "(+) :: int \<Rightarrow> int \<Rightarrow> int" xs "inclusive_f1 (+) xs" "inclusive_f3 (+)"
  "\<lambda>c old. hd c # inclusive_sums (+) (hd c) (tl c)" "inclusive_sums (+)" for xs
  by (rule inclusive_scan_algorithm) (simp add: associative_def)

interpretation prefix_scan: scan_algorithm "(+) :: int \<Rightarrow> int \<Rightarrow> int" xs "exclusive_f1 (+) xs" "exclusive_f3 (+)"
  "\<lambda>c old. hd old # exclusive_sums (+) (hd c) (tl c)" "exclusive_sums (+)" for xs
  by (rule exclusive_scan_algorithm) (simp add: associative_def)

section \<open>Termination\<close>

fun scan_work :: "'a scan_status \<Rightarrow> nat" where
  "scan_work Waiting = 2"
| "scan_work (Scanned v) = 1"
| "scan_work (Finished v) = 0"

definition remaining :: "'a scan_state \<Rightarrow> nat" where
  "remaining s = sum_list (map scan_work (sc_status s))"

lemma sum_list_less_update:
  fixes f :: "'b \<Rightarrow> nat"
  shows "i < length xs \<Longrightarrow> f y < f (xs ! i) \<Longrightarrow> sum_list (map f (xs[i := y])) < sum_list (map f xs)"
  by (induction xs arbitrary: i) (auto split: nat.split simp: nth_Cons')

lemma scan_step_remaining:
  "scan_step f1 f2 f3 init shape s s' \<Longrightarrow> length (sc_status s) = length shape \<Longrightarrow>
    remaining s' < remaining s \<and> length (sc_status s') = length shape"
  by (induction rule: scan_step.induct) (auto simp: remaining_def intro!: sum_list_less_update)

section \<open>The shape of a scan\<close>

definition pieces :: "'a list \<Rightarrow> idx_chunk list \<Rightarrow> 'a list list" where
  "pieces xs cs = map (\<lambda>(p, n, i). take (unat n) (drop (nat p) xs)) cs"

lemma pieces_cut:
  "consecutive p i cs (int (length xs)) \<Longrightarrow> 0 \<le> p \<Longrightarrow>
    shape_of (nat p) (pieces xs cs) = map (\<lambda>(b, n, i). (nat b, unat n)) cs \<and>
    concat (pieces xs cs) = drop (nat p) xs \<and> [] \<notin> set (pieces xs cs) \<and>
    map length (pieces xs cs) = map (\<lambda>(b, n, i). unat n) cs"
proof (induction p i cs "int (length xs)" rule: consecutive.induct)
  case (2 p i q n k cs)
  have "consecutive (p + uint n) (i + n) cs (int (length xs))" using 2(2) by simp
  from consecutive_length [OF this] have le: "p + uint n \<le> int (length xs)" by simp
  have u: "uint n = int (unat n)" by (rule uint_nat)
  have n: "unat n \<le> length xs - nat p" using le u 2(3) by linarith
  have p: "nat (p + uint n) = nat p + unat n" using u 2(3) by linarith
  have "n \<noteq> 0" using 2 by simp
  then have pos: "0 < unat n" by (simp add: unat_gt_0)
  have IH: "shape_of (nat p + unat n) (pieces xs cs) = map (\<lambda>(b, n, i). (nat b, unat n)) cs"
    "concat (pieces xs cs) = drop (nat p + unat n) xs" "[] \<notin> set (pieces xs cs)"
    "map length (pieces xs cs) = map (\<lambda>(b, n, i). unat n) cs"
    using 2 p by auto
  have "take (unat n) (drop (nat p) xs) @ drop (nat p + unat n) xs = drop (nat p) xs"
    by (metis add.commute append_take_drop_id drop_drop)
  then show ?case using 2(2) n pos IH by (auto simp: pieces_def min_def)
qed (simp add: pieces_def)

lemma uint_length: "length xs < 2 ^ 63 \<Longrightarrow> uint (of_nat (length xs) :: u64) = int (length xs)"
  by (simp only: uint_nat unat_of_nat) simp

lemma scan_shape_pieces:
  assumes "shape_pre params cores (of_nat (length xs)) 1" "length xs < 2 ^ 63"
  obtains cs where "scan_shape params clk cores kind (of_nat (length xs)) = (ret (shape_of 0 (pieces xs cs)) :: ('x, _) run)"
    "consecutive 0 0 cs (int (length xs))"
proof -
  let ?n = "of_nat (length xs) :: u64"
  have n: "uint ?n = int (length xs)" using assms(2) by (rule uint_length)
  obtain ys p' tests rs n' where shape: "bulk_shape params clk cores kind (\<lambda>b n. ret (b, n)) [] 0 ?n 1 =
      (ret (map drop_index ys, p', [] @ rs, n') :: ('x, _) run)"
    and rs: "map (\<lambda>c. apply_chunk (\<lambda>b n i. ret (b, n)) c) tests = (map ret rs :: ('x, _) run list)"
    and cuts: "cuts 1 0 ?n tests ys"
    and count: "tests \<noteq> [] \<longrightarrow> uint n' = uint ?n - sum_list (map (\<lambda>(b, n, i). uint n) tests)"
    by (rule bulk_shape_cuts [OF assms(1), where clk = clk and kind = kind and items = "[]" and b = 0
          and F = "\<lambda>b n. ret (b, n) :: ('x, _) run"]) auto
  have "map (\<lambda>c. apply_chunk (\<lambda>b n i. ret (b, n)) c) tests = (map ret (map drop_index tests) :: ('x, _) run list)"
    by (auto simp: apply_chunk_def drop_index_def)
  then have rs': "rs = map drop_index tests" using rs by (simp only: map_ret_inj)
  have cons: "consecutive 0 0 (tests @ ys) (int (length xs))" using cuts n by (simp add: cuts_def next_pos_def)
  have "n' < ?n" if "tests \<noteq> []"
  proof -
    have "length tests = 1" using that cuts by (cases tests) (auto simp: cuts_def)
    then obtain c where c: "tests = [c]" by (auto simp: length_Suc_conv)
    obtain b m i where "c = (b, m, i)" by (cases c)
    then have "m \<noteq> 0" "tests = [(b, m, i)]" using cons c by auto
    then show ?thesis using count uint_pos_iff [of m] by (simp add: word_less_def)
  qed
  moreover have "0 < ?n" using shape_preD(4) [OF assms(1)] by (simp add: word_gt_0)
  moreover have "map (\<lambda>(b, n). (nat b, unat n)) (rs @ map drop_index ys) = shape_of 0 (pieces xs (tests @ ys))"
    using pieces_cut [OF cons] by (auto simp: rs' drop_index_def)
  ultimately have "scan_shape params clk cores kind ?n = (ret (shape_of 0 (pieces xs (tests @ ys))) :: ('x, _) run)"
    using shape rs' by (simp add: scan_shape_def)
  then show thesis using cons by (rule that)
qed

section \<open>Reduction of the chunks\<close>

lemma accumulate_n_foldl: "accumulate_n f (a @ c @ b) (int (length a)) (length c) v = Some (foldl f v c)"
proof (induction c arbitrary: a v)
  case (Cons x c)
  have "deref (a @ (x # c) @ b) (int (length a)) = Some x" by (simp add: deref_def nth_append)
  then show ?case using Cons.IH [of "a @ [x]" "f v x"] by (simp add: algebra_simps)
qed simp

lemma reduce_part_total:
  assumes "chunk_inside 0 (of_nat (length xs)) b n" "length xs < 2 ^ 63"
  shows "reduce_part r xs b n = ret (chunk_total r (take (unat n) (drop (nat b) xs)))"
proof -
  have "uint (of_nat (length xs) :: u64) = int (length xs)" using assms(2) by (rule uint_length)
  then have b: "0 \<le> b" "n \<noteq> 0" and "b + uint n \<le> int (length xs)"
    using assms(1) by (auto simp: chunk_inside_def next_pos_def)
  then have le: "nat b + unat n \<le> length xs" using uint_nat [of n] by linarith
  let ?a = "take (nat b) xs" and ?c = "take (unat n) (drop (nat b) xs)" and ?d = "drop (nat b + unat n) xs"
  have pos: "0 < unat n" using b(2) by (simp add: unat_gt_0)
  have xs: "xs = ?a @ ?c @ ?d" by (metis add.commute append_take_drop_id drop_drop)
  have len: "length ?c = unat n" "int (length ?a) = b" using b(1) le by auto
  then obtain x c where c: "?c = x # c" using pos by (cases ?c) auto
  have lc: "length c = unat (n - 1)" using len(1) c b(2) by (simp add: unat_minus_one)
  have "xs ! nat b = x"
    using xs c len(2) b(1) nth_append_length [of ?a x "c @ ?d"] by (simp add: min_def split: if_splits)
  then have "deref xs b = Some x" using b(1) le pos by (simp add: deref_def)
  moreover have "accumulate_n r xs (b + 1) (unat (n - 1)) x = Some (foldl r x c)"
    using accumulate_n_foldl [of r "?a @ [x]" c ?d x] xs c len(2) lc by (simp add: add.commute)
  ultimately show ?thesis by (simp add: reduce_part_def c chunk_total_def)
qed

lemma foldl_totals:
  assumes "associative r"
  shows "[] \<notin> set cs \<Longrightarrow> foldl r v (map (chunk_total r) cs) = foldl r v (concat cs)"
  by (induction cs arbitrary: v) (auto simp: foldl_total [OF assms])

lemma reduce_parallel_foldl:
  fixes r :: "'a \<Rightarrow> 'a \<Rightarrow> 'a"
  assumes ex: "chunk_executor exec" and pre: "shape_pre params cores (of_nat (length xs)) 1"
    and len: "length xs < 2 ^ 63" and r: "associative r"
  shows "reduce_parallel Parallel_Policy exec params clk cores kind r xs init = (ret (foldl r init xs) :: ('x, 'a) run)"
proof -
  let ?n = "of_nat (length xs) :: u64" and ?f1 = "reduce_part r xs :: pos \<Rightarrow> u64 \<Rightarrow> ('x, 'a) run"
  let ?f2 = "\<lambda>results. run_option (accumulate_n r results 0 (length results) init) :: ('x, 'a) run"
  have part: "?f1 b n = ret (chunk_total r (take (unat n) (drop (nat b) xs)))" if "chunk_inside 0 ?n b n" for b n
    using that len by (rule reduce_part_total)
  show ?thesis
  proof (rule chunk_executor.call_outcome [OF ex pre, where ?f1.0 = ?f1 and ?f2.0 = ?f2 and clk = clk and kind = kind and first = 0])
    fix cs
    assume cs: "consecutive 0 0 cs (next_pos 0 ?n)"
      and call: "partitioner_call Parallel_Policy exec params clk cores kind 0 ?n ?f1 ?f2 =
        join_outcomes ?f2 (map (\<lambda>(b, n, i). the (?f1 b n)) cs)"
    have cons: "consecutive 0 0 cs (int (length xs))" using cs uint_length [OF len] by (simp add: next_pos_def)
    have "chunk_inside 0 ?n b n" if "(b, n, i) \<in> set cs" for b n i
      using consecutive_inside [OF cs that] by (simp add: chunk_inside_def)
    then have chunks: "map (\<lambda>(b, n, i). the (?f1 b n)) cs = map (\<lambda>c. Inr (chunk_total r c)) (pieces xs cs)"
      using part by (auto simp: pieces_def ret_def)
    have "foldl r init (map (chunk_total r) (pieces xs cs)) = foldl r init xs"
      using pieces_cut [OF cons] foldl_totals [OF r] by simp
    moreover have "xs \<noteq> []" using shape_preD(4) [OF pre] by auto
    ultimately show ?thesis
      using accumulate_n_foldl [of r "[]" "map (chunk_total r) (pieces xs cs)" "[]" init]
      by (simp add: reduce_parallel_def call chunks join_outcomes_values)
  next
    fix n e assume "?f1 0 n = throw e"
    then show ?thesis by (cases "deref xs 0") (auto simp: reduce_part_def run_option_def throw_def)
  qed (simp add: part)
qed

section \<open>Properties\<close>

text \<open>Reducing in parallel gives the value of the sequential reduction, for every associative operation (it need not be
  commutative), initial value and non-empty input, every executor that spreads its tasks, all executor
  parameters and clocks.\<close>

lemma reduce_parallel_is_sequential:
  fixes r :: "'a \<Rightarrow> 'a \<Rightarrow> 'a"
  assumes "1 < num_spread ex" "num_spread ex \<le> future_vector_max_size" "0 < os_threads" "num_tasks ex \<noteq> 0"
    "shape_pre params cores (of_nat (length xs)) 1" "length xs < 2 ^ 63" "associative r"
  shows "reduce_parallel Parallel_Policy (parallel_bulk_async_execute ex os_threads) params clk cores kind r xs init =
    (ret (reduce_sequential r xs init) :: ('x, 'a) run)"
  unfolding reduce_sequential_def
proof (rule reduce_parallel_foldl [OF _ assms(5-7)])
  show "chunk_executor (parallel_bulk_async_execute ex os_threads :: (pos \<times> u64, 'x, 'a) executor)"
    by unfold_locales (rule parallel_executor_runs_all [OF assms(1-4)])
qed

text \<open>C14: in whatever order the concurrent tasks of a parallel scan run, it ends, and then the output holds exactly what the
  sequential scan writes: for inclusive and exclusive scans, every associative operation, initial value and non-empty input,
  all executor parameters and clocks. Every task lessens the work that remains, and when no task can run any more all
  chunks are finished.\<close>

theorem scan_parallel_is_sequential:
  assumes "associative op" "length dest = length xs"
    "shape_pre params cores (of_nat (length xs)) 1" "length xs < 2 ^ 63"
  shows "\<exists>shape. scan_shape params clk cores kind (of_nat (length xs)) = (ret shape :: ('x, _) run) \<and>
    (\<forall>s. (scan_step (inclusive_f1 op xs) op (inclusive_f3 op) init shape)\<^sup>*\<^sup>* (scan_start shape dest) s \<longrightarrow>
      (\<forall>s'. scan_step (inclusive_f1 op xs) op (inclusive_f3 op) init shape s s' \<longrightarrow> remaining s' < remaining s) \<and>
      ((\<nexists>s'. scan_step (inclusive_f1 op xs) op (inclusive_f3 op) init shape s s') \<longrightarrow>
        inclusive_scan_sequential op xs init dest = Some (sc_dest s))) \<and>
    (\<forall>s. (scan_step (exclusive_f1 op xs) op (exclusive_f3 op) init shape)\<^sup>*\<^sup>* (scan_start shape dest) s \<longrightarrow>
      (\<forall>s'. scan_step (exclusive_f1 op xs) op (exclusive_f3 op) init shape s s' \<longrightarrow> remaining s' < remaining s) \<and>
      ((\<nexists>s'. scan_step (exclusive_f1 op xs) op (exclusive_f3 op) init shape s s') \<longrightarrow>
        exclusive_scan_sequential op xs init dest = Some (sc_dest s)))"
proof -
  obtain cs where shape: "scan_shape params clk cores kind (of_nat (length xs)) =
      (ret (shape_of 0 (pieces xs cs)) :: ('x, _) run)" and cons: "consecutive 0 0 cs (int (length xs))"
    by (rule scan_shape_pieces [OF assms(3,4)])
  have xs: "concat (pieces xs cs) = xs" "[] \<notin> set (pieces xs cs)" using pieces_cut [OF cons] by auto
  have dest: "concat (pieces dest cs) = dest" "map length (pieces dest cs) = map length (pieces xs cs)"
    using pieces_cut [OF cons] pieces_cut [of 0 0 cs dest] cons assms(2) by auto
  have steps: "length (sc_status s) = length (shape_of 0 (pieces xs cs))"
    if "(scan_step f1 op f3 init (shape_of 0 (pieces xs cs)))\<^sup>*\<^sup>* (scan_start (shape_of 0 (pieces xs cs)) dest) s" for f1 f3 s
    using that by induction (auto simp: scan_start_def dest: scan_step_remaining)
  have less: "remaining s' < remaining s"
    if "(scan_step f1 op f3 init (shape_of 0 (pieces xs cs)))\<^sup>*\<^sup>* (scan_start (shape_of 0 (pieces xs cs)) dest) s"
      "scan_step f1 op f3 init (shape_of 0 (pieces xs cs)) s s'" for f1 f3 s s'
    using scan_step_remaining [OF that(2) steps [OF that(1)]] by blast
  note inclusive = scan_algorithm.scan_schedule [OF inclusive_scan_algorithm [OF assms(1)] _ dest(2) xs, unfolded dest(1)]
  note exclusive = scan_algorithm.scan_schedule [OF exclusive_scan_algorithm [OF assms(1)] _ dest(2) xs, unfolded dest(1)]
  have i: "inclusive_scan_sequential op xs init dest = Some (inclusive_sums op init xs)"
    using inclusive_scan_n_sums [of "[]" "[]" dest xs op "[]" init "[]"] assms(2) by (simp add: inclusive_scan_sequential_def)
  have e: "exclusive_scan_sequential op xs init dest = Some (exclusive_sums op init xs)"
    using exclusive_scan_n_sums [of "[]" "[]" dest xs op "[]" init "[]"] assms(2) by (simp add: exclusive_scan_sequential_def)
  show ?thesis
    by (intro exI [of _ "shape_of 0 (pieces xs cs)"] conjI allI impI)
      (rule shape, erule (1) less, subst i, rule arg_cong [where f = Some], erule (1) inclusive [symmetric],
       erule (1) less, subst e, rule arg_cong [where f = Some], erule (1) exclusive [symmetric])
qed

lemma scan_parallel_is_sequential_witness:
  "\<exists>shape. scan_shape (Static_Chunk_Size 0) (0, 0) 2 Bidirectional_Iterator 5 = (ret shape :: (nat, _) run) \<and>
    (\<forall>s. (scan_step (inclusive_f1 (+) [1, 2, 3, 4, 5 :: int]) (+) (inclusive_f3 (+)) 10 shape)\<^sup>*\<^sup>*
        (scan_start shape [0, 0, 0, 0, 0]) s \<longrightarrow>
      (\<nexists>s'. scan_step (inclusive_f1 (+) [1, 2, 3, 4, 5]) (+) (inclusive_f3 (+)) 10 shape s s') \<longrightarrow>
      sc_dest s = [11, 13, 16, 20, 25])"
  using scan_parallel_is_sequential [where op = "(+) :: int \<Rightarrow> int \<Rightarrow> int" and dest = "[0, 0, 0, 0, 0]" and xs = "[1, 2, 3, 4, 5]"
      and params = "Static_Chunk_Size 0" and cores = 2 and clk = "(0, 0)" and kind = Bidirectional_Iterator and init = 10]
  by (auto simp: associative_def shape_pre_def times_chunks_def inclusive_scan_sequential_def Let_def)

end
