(* ===== verification/Cancellation_Token.thy ===== *)
theory Cancellation_Token
  imports Parallel_Scan
begin

text \<open>
  Cancellation tokens, \<^verbatim>\<open>hpx/parallel/util/cancellation_token.hpp\<close>, and the loops of \<^verbatim>\<open>util/loop.hpp\<close> that check them.
  The tasks of a parallel algorithm share one atomic variable. Some tokens keep the best value that has been
  offered so far, where \<open>pred\<close> is the template parameter \<open>Pred\<close>, the others are flags.

  A task is a program: what it does with the token, in order, and what it does with the values it reads. All accesses
  are \<open>memory_order_relaxed\<close>. The state has the history of the token, the values it has had in their
  modification order, and for each task the position of the latest one it has seen. A load reads this one or any
  later one, so that it may be out of date but never goes back. A compare and exchange that succeeds
  has read the last value; one that fails has read another value than it expects. Stores go to the end of the history.
  The elements that the tasks compare are not changed meanwhile, and predicates are total functions.

  A run ends when no task can go on, and \<open>all_runs\<close> states that there is no endless run and that all
  tasks have returned in the end, none of them undefined, with results and a last value of the token that satisfy a
  condition. The waiting for the tasks orders the final read of the token behind all they did. Two ways to show
  this are derived: \<open>token_order\<close> for tokens that keep the best value, \<open>flag_runs\<close> for flags.
\<close>

section \<open>Tasks that share a token\<close>

datatype ('v, 'r) prog =
    Return 'r
  | Read "'v \<Rightarrow> ('v, 'r) prog"
  | Write 'v "('v, 'r) prog"
  | Cancel 'v "('v, 'r) prog"
  | Undefined

primrec prog_bind :: "('v, 'a) prog \<Rightarrow> ('a \<Rightarrow> ('v, 'b) prog) \<Rightarrow> ('v, 'b) prog" where
  "prog_bind (Return r) k = k r"
| "prog_bind (Read g) k = Read (\<lambda>v. prog_bind (g v) k)"
| "prog_bind (Write v p) k = Write v (prog_bind p k)"
| "prog_bind (Cancel d p) k = Cancel d (prog_bind p k)"
| "prog_bind Undefined k = Undefined"

definition prog_option :: "'a option \<Rightarrow> ('v, 'a) prog" where
  "prog_option x = (case x of None \<Rightarrow> Undefined | Some a \<Rightarrow> Return a)"

text \<open>The operations of a token with a value, and of a flag.\<close>

definition was_cancelled :: "('v \<Rightarrow> 'v \<Rightarrow> bool) \<Rightarrow> 'v \<Rightarrow> ('v, bool) prog" where
  "was_cancelled pred data = Read (\<lambda>v. Return (pred v data))"

definition cancel :: "'v \<Rightarrow> ('v, unit) prog" where
  "cancel data = Cancel data (Return ())"

definition flag_was_cancelled :: "(bool, bool) prog" where
  "flag_was_cancelled = Read Return"

definition flag_cancel :: "(bool, unit) prog" where
  "flag_cancel = Write True (Return ())"

text \<open>
  The step of a task, where \<open>k\<close> is the position in the history that it reads. A task that calls \<open>cancel\<close> loads the
  old value and then exchanges, until the old value is as good as its own or the exchange succeeds.
\<close>

definition readable :: "'v list \<Rightarrow> nat \<Rightarrow> nat \<Rightarrow> bool" where
  "readable h view k \<longleftrightarrow> view \<le> k \<and> k < length h"

datatype ('v, 'r) task = Running "('v, 'r) prog" | Exchanging 'v 'v "('v, 'r) prog"

fun task_step ::
  "('v \<Rightarrow> 'v \<Rightarrow> bool) \<Rightarrow> nat \<Rightarrow> 'v list \<Rightarrow> nat \<Rightarrow> ('v, 'r) task \<Rightarrow> ('v list \<times> nat \<times> ('v, 'r) task) option" where
  "task_step pred k h view (Running (Return r)) = None"
| "task_step pred k h view (Running Undefined) = None"
| "task_step pred k h view (Running (Read g)) =
     (if readable h view k then Some (h, k, Running (g (h ! k))) else None)"
| "task_step pred k h view (Running (Write v p)) = Some (h @ [v], length h, Running p)"
| "task_step pred k h view (Running (Cancel d p)) =
     (if readable h view k then Some (h, k, Exchanging d (h ! k) p) else None)"
| "task_step pred k h view (Exchanging d old p) =
     (if pred old d then Some (h, view, Running p)
      else if \<not> readable h view k then None
      else if h ! k \<noteq> old then Some (h, k, Exchanging d (h ! k) p)
      else if Suc k = length h then Some (h @ [d], length h, Running p)
      else None)"

record ('v, 'r) token_state =
  tk_history :: "'v list"
  tk_tasks :: "(nat \<times> ('v, 'r) task) list"

definition token_start :: "'v \<Rightarrow> ('v, 'r) prog list \<Rightarrow> ('v, 'r) token_state" where
  "token_start data ps = \<lparr> tk_history = [data], tk_tasks = map (\<lambda>p. (0, Running p)) ps \<rparr>"

inductive token_step :: "('v \<Rightarrow> 'v \<Rightarrow> bool) \<Rightarrow> ('v, 'r) token_state \<Rightarrow> ('v, 'r) token_state \<Rightarrow> bool" for pred where
  task: "j < length (tk_tasks s) \<Longrightarrow> tk_tasks s ! j = (view, t) \<Longrightarrow>
     task_step pred k (tk_history s) view t = Some (h, view', t') \<Longrightarrow>
     token_step pred s \<lparr> tk_history = h, tk_tasks = (tk_tasks s)[j := (view', t')] \<rparr>"

text \<open>The value that is read after all tasks have ended.\<close>

definition get_data :: "('v, 'r) token_state \<Rightarrow> 'v" where
  "get_data s = last (tk_history s)"

section \<open>Loops\<close>

text \<open>
  The iterators are positions, and the loops give back where they stopped. The loops over a flag pass on
  what their body keeps between iterations, instead of their iterator.
\<close>

fun loop_idx_n ::
  "(int \<Rightarrow> int \<Rightarrow> bool) \<Rightarrow> (pos \<Rightarrow> u64 \<Rightarrow> (int, unit) prog) \<Rightarrow> u64 \<Rightarrow> pos \<Rightarrow> nat \<Rightarrow> (int, pos) prog" where
  "loop_idx_n pred f base_idx it 0 = Return it"
| "loop_idx_n pred f base_idx it (Suc count) =
     prog_bind (was_cancelled pred (uint base_idx)) (\<lambda>c. if c then Return it
       else prog_bind (f it base_idx) (\<lambda>_. loop_idx_n pred f (base_idx + 1) (it + 1) count))"

text \<open>A part of a range, run by one task.\<close>

definition loop_part ::
  "(int \<Rightarrow> int \<Rightarrow> bool) \<Rightarrow> (pos \<Rightarrow> u64 \<Rightarrow> (int, unit) prog) \<Rightarrow> pos \<Rightarrow> u64 \<Rightarrow> u64 \<Rightarrow> (int, unit) prog" where
  "loop_part pred f it part_size base_idx =
     prog_bind (loop_idx_n pred f base_idx it (unat part_size)) (\<lambda>_. Return ())"

fun loop_n_with_token :: "('s \<Rightarrow> pos \<Rightarrow> (bool, 's) prog) \<Rightarrow> 's \<Rightarrow> pos \<Rightarrow> nat \<Rightarrow> (bool, 's) prog" where
  "loop_n_with_token f s it 0 = Return s"
| "loop_n_with_token f s it (Suc count) =
     prog_bind flag_was_cancelled (\<lambda>c. if c then Return s
       else prog_bind (f s it) (\<lambda>s'. loop_n_with_token f s' (it + 1) count))"

fun loop_n_plain :: "('s \<Rightarrow> pos \<Rightarrow> (bool, 's) prog) \<Rightarrow> 's \<Rightarrow> pos \<Rightarrow> nat \<Rightarrow> (bool, 's) prog" where
  "loop_n_plain f s it 0 = Return s"
| "loop_n_plain f s it (Suc count) = prog_bind (f s it) (\<lambda>s'. loop_n_plain f s' (it + 1) count)"

section \<open>Every run ends with the right result\<close>

definition all_runs ::
  "('v \<Rightarrow> 'v \<Rightarrow> bool) \<Rightarrow> ('v, 'r) token_state \<Rightarrow> ('v \<Rightarrow> 'r list \<Rightarrow> bool) \<Rightarrow> bool" where
  "all_runs pred s Q \<longleftrightarrow>
     (\<forall>s'. (token_step pred)\<^sup>*\<^sup>* s s' \<and> (\<nexists>s''. token_step pred s' s'') \<longrightarrow>
        (\<exists>rs. map snd (tk_tasks s') = map (\<lambda>r. Running (Return r)) rs \<and> Q (get_data s') rs)) \<and>
     (\<nexists>c. c 0 = s \<and> (\<forall>n. token_step pred (c n) (c (Suc n))))"

text \<open>The steps a task has left, without those that fail to exchange.\<close>

primrec bounded :: "('v, 'r) prog \<Rightarrow> nat \<Rightarrow> bool" where
  "bounded (Return r) n \<longleftrightarrow> True"
| "bounded Undefined n \<longleftrightarrow> True"
| "bounded (Read g) n \<longleftrightarrow> 0 < n \<and> (\<forall>v. bounded (g v) (n - 1))"
| "bounded (Write v p) n \<longleftrightarrow> 0 < n \<and> bounded p (n - 1)"
| "bounded (Cancel d p) n \<longleftrightarrow> 1 < n \<and> bounded p (n - 2)"

lemma bounded_mono: "bounded p m \<Longrightarrow> m \<le> n \<Longrightarrow> bounded p n"
proof (induction p arbitrary: m n)
  case (Read g)
  have "bounded (g v) (n - 1)" for v
    using Read.IH [of "g v" "m - 1" "n - 1"] Read.prems by auto
  then show ?case using Read.prems by auto
next
  case (Cancel d p)
  then show ?case using Cancel.IH [of "m - 2" "n - 2"] by auto
next
  case (Write d p)
  then show ?case using Write.IH [of "m - 1" "n - 1"] by auto
qed auto

lemma bounded_bind:
  "bounded p m \<Longrightarrow> \<forall>r. bounded (k r) n \<Longrightarrow> bounded (prog_bind p k) (m + n)"
proof (induction p arbitrary: m)
  case (Return r)
  then show ?case using bounded_mono [of "k r" n "m + n"] by simp
next
  case (Read g)
  have "bounded (prog_bind (g v) k) (m + n - 1)" for v
    using Read.IH [of "g v" "m - 1"] Read.prems by auto
  then show ?case using Read.prems by auto
next
  case (Cancel d p)
  then show ?case using Cancel.IH [of "m - 2"] by auto
next
  case (Write d p)
  then show ?case using Write.IH [of "m - 1"] by auto
qed auto

definition depth :: "('v, 'r) prog \<Rightarrow> nat" where
  "depth p = (LEAST n. bounded p n)"

lemma depth_less:
  "bounded (Read g) n \<Longrightarrow> depth (g v) < depth (Read g)"
  "bounded (Write w p) n \<Longrightarrow> depth p < depth (Write w p)"
  "bounded (Cancel d p) n \<Longrightarrow> Suc (depth p) < depth (Cancel d p)"
proof -
  have *: "bounded p (depth p)" if "bounded p n" for n and p :: "('v, 'r) prog"
    using that unfolding depth_def by (rule LeastI)
  have le: "depth p \<le> n" if "bounded p n" for n and p :: "('v, 'r) prog"
    using that unfolding depth_def by (rule Least_le)
  show "depth (g v) < depth (Read g)" if "bounded (Read g) n"
    using * [OF that] le [of "g v" "depth (Read g) - 1"] by auto
  show "depth p < depth (Write w p)" if "bounded (Write w p) n"
    using * [OF that] le [of p "depth (Write w p) - 1"] by auto
  show "Suc (depth p) < depth (Cancel d p)" if "bounded (Cancel d p) n"
    using * [OF that] le [of p "depth (Cancel d p) - 2"] by auto
qed

fun steps_left :: "('v, 'r) task \<Rightarrow> nat" where
  "steps_left (Running p) = depth p"
| "steps_left (Exchanging d old p) = Suc (depth p)"

fun task_bounded :: "('v, 'r) task \<Rightarrow> bool" where
  "task_bounded (Running p) \<longleftrightarrow> (\<exists>n. bounded p n)"
| "task_bounded (Exchanging d old p) \<longleftrightarrow> (\<exists>n. bounded p n)"

definition task_ok :: "'v list \<Rightarrow> nat \<times> ('v, 'r) task \<Rightarrow> bool" where
  "task_ok h t \<longleftrightarrow> fst t < length h \<and> task_bounded (snd t) \<and>
     (\<forall>d old p. snd t = Exchanging d old p \<longrightarrow> h ! fst t = old)"

lemma task_ok_append: "task_ok h t \<Longrightarrow> task_ok (h @ ys) t"
  by (auto simp: task_ok_def nth_append)

text \<open>
  A step of a task leaves it fewer steps, or it is an exchange that fails because it reads a later value than before.
\<close>

lemma task_step_progress:
  assumes step: "task_step pred k h view t = Some (h', view', t')" and ok: "task_ok h (view, t)"
  shows "task_ok h' (view', t') \<and>
    ((h' = h \<or> (\<exists>d. h' = h @ [d])) \<and> steps_left t' < steps_left t \<or>
     h' = h \<and> steps_left t' = steps_left t \<and> view < view' \<and> view' < length h)"
proof (cases t)
  case (Running p)
  show ?thesis
  proof (cases p)
    case (Read g)
    then obtain n where "bounded (Read g) n" using ok Running by (auto simp: task_ok_def)
    then have "depth (g (h ! k)) < depth (Read g)" "\<exists>n. bounded (g (h ! k)) n" by (auto intro: depth_less)
    then show ?thesis using step Running Read by (auto simp: task_ok_def readable_def split: if_splits)
  next
    case (Write d q)
    then obtain n where "bounded (Write d q) n" using ok Running by (auto simp: task_ok_def)
    then have "depth q < depth (Write d q)" "\<exists>n. bounded q n" by (auto intro: depth_less)
    then show ?thesis using step Running Write by (auto simp: task_ok_def)
  next
    case (Cancel d q)
    then obtain n where "bounded (Cancel d q) n" using ok Running by (auto simp: task_ok_def)
    then have "Suc (depth q) < depth (Cancel d q)" "\<exists>n. bounded q n" by (auto intro: depth_less)
    then show ?thesis using step Running Cancel by (auto simp: task_ok_def readable_def split: if_splits)
  qed (use step Running in auto)
next
  case (Exchanging d old q)
  then have old: "h ! view = old" "view < length h" using ok by (auto simp: task_ok_def)
  show ?thesis
  proof (cases "\<not> pred old d \<and> h ! k \<noteq> old")
    case True
    then have "readable h view k" using step Exchanging by (auto split: if_splits)
    moreover have "view \<noteq> k" using True old by auto
    ultimately show ?thesis using step ok Exchanging True
      by (auto simp: task_ok_def readable_def split: if_splits)
  next
    case False
    then show ?thesis using step ok Exchanging by (auto simp: task_ok_def split: if_splits)
  qed
qed

lemma task_step_history: "task_step pred k h view t = Some (h', view', t') \<Longrightarrow> set h \<subseteq> set h'"
  by (cases t; cases "case t of Running p \<Rightarrow> p | Exchanging d old p \<Rightarrow> p") (auto split: if_splits)

lemma task_stuck:
  assumes "\<forall>k. task_step pred k h view t = None" "task_ok h (view, t)"
  shows "(\<exists>r. t = Running (Return r)) \<or> t = Running Undefined"
proof (cases t)
  case (Running p)
  have "readable h view view" using assms(2) by (simp add: readable_def task_ok_def)
  then show ?thesis using spec [OF assms(1), of view] Running by (cases p) auto
next
  case (Exchanging d old q)
  have "readable h view (length h - 1)" using assms(2) by (auto simp: readable_def task_ok_def)
  then have "task_step pred (length h - 1) h view t \<noteq> None" using Exchanging by (auto simp: readable_def)
  then show ?thesis using assms(1) by simp
qed

definition tasks_ok :: "('v, 'r) token_state \<Rightarrow> bool" where
  "tasks_ok s \<longleftrightarrow> (\<forall>t \<in> set (tk_tasks s). task_ok (tk_history s) t)"

definition unread :: "('v, 'r) token_state \<Rightarrow> nat" where
  "unread s = sum_list (map (\<lambda>t. length (tk_history s) - fst t) (tk_tasks s))"

definition work_left :: "('v, 'r) token_state \<Rightarrow> nat" where
  "work_left s = sum_list (map (\<lambda>t. steps_left (snd t)) (tk_tasks s))"

lemma sum_list_update_eq:
  fixes f :: "'b \<Rightarrow> nat"
  shows "i < length xs \<Longrightarrow> f y = f (xs ! i) \<Longrightarrow> sum_list (map f (xs[i := y])) = sum_list (map f xs)"
  by (metis list_update_id map_update)

lemma token_step_progress:
  assumes "token_step pred s s'" "tasks_ok s"
  shows "tasks_ok s' \<and> (work_left s' < work_left s \<or> work_left s' = work_left s \<and> unread s' < unread s)"
  using assms(1)
proof cases
  case (task j view t k h view' t')
  have ok: "task_ok (tk_history s) (view, t)"
    using assms(2) task(2,3) nth_mem [of j "tk_tasks s"] by (auto simp: tasks_ok_def)
  note p = task_step_progress [OF task(4) ok]
  have h: "\<exists>ys. h = tk_history s @ ys" using p by auto
  then have "task_ok h u" if "u \<in> set (tk_tasks s)" for u
    using assms(2) that task_ok_append [of "tk_history s" u] by (auto simp: tasks_ok_def)
  then have "tasks_ok s'" using p task(1) set_update_subset_insert [of "tk_tasks s" j "(view', t')"] by (auto simp: tasks_ok_def)
  moreover have "work_left s' < work_left s" if "steps_left t' < steps_left t"
    using that task by (auto simp: work_left_def intro!: sum_list_less_update)
  moreover have "work_left s' = work_left s \<and> unread s' < unread s"
    if "h = tk_history s" "steps_left t' = steps_left t" "view < view'" "view' < length h"
    using that task by (auto simp: work_left_def unread_def intro!: sum_list_less_update sum_list_update_eq)
  ultimately show ?thesis using p by blast
qed

lemma tasks_ok_start:
  "\<forall>p \<in> set ps. \<exists>n. bounded p n \<Longrightarrow> tasks_ok (token_start data ps)"
  by (auto simp: tasks_ok_def token_start_def task_ok_def)

lemma tasks_ok_reachable: "(token_step pred)\<^sup>*\<^sup>* s s' \<Longrightarrow> tasks_ok s \<Longrightarrow> tasks_ok s'"
  by (induction rule: rtranclp_induct) (auto dest: token_step_progress)

lemma no_endless_run:
  assumes "tasks_ok (c 0)" "\<forall>n. token_step pred (c n) (c (Suc n))"
  shows False
proof -
  have "tasks_ok (c n)" for n
    using assms(1) by (induction n) (use assms(2) token_step_progress in blast)+
  then have "((work_left (c (Suc n)), unread (c (Suc n))), (work_left (c n), unread (c n))) \<in> less_than <*lex*> less_than" for n
    using token_step_progress [of pred "c n" "c (Suc n)"] assms(2) by auto
  then have "\<exists>f. \<forall>n. (f (Suc n), f n) \<in> (less_than <*lex*> less_than :: ((nat \<times> nat) \<times> nat \<times> nat) set)"
    by (intro exI [of _ "\<lambda>n. (work_left (c n), unread (c n))"]) blast
  moreover have "wf (less_than <*lex*> less_than :: ((nat \<times> nat) \<times> nat \<times> nat) set)" by auto
  ultimately show False by (simp add: wf_iff_no_infinite_down_chain)
qed

text \<open>
  The way to show that every run ends with a result in \<open>Q\<close>: an invariant under which no task is undefined.
\<close>

lemma all_runsI:
  assumes bounded: "\<forall>p \<in> set ps. \<exists>n. bounded p n"
    and start: "I (token_start data ps)"
    and step: "\<And>s s'. I s \<Longrightarrow> token_step pred s s' \<Longrightarrow> I s'"
    and safe: "\<And>s view. I s \<Longrightarrow> (view, Running Undefined) \<notin> set (tk_tasks s)"
    and final: "\<And>s rs. I s \<Longrightarrow> map snd (tk_tasks s) = map (\<lambda>r. Running (Return r)) rs \<Longrightarrow> Q (get_data s) rs"
  shows "all_runs pred (token_start data ps) Q"
  unfolding all_runs_def
proof (intro conjI allI impI)
  fix s assume s: "(token_step pred)\<^sup>*\<^sup>* (token_start data ps) s \<and> (\<nexists>s'. token_step pred s s')"
  have "I s" using conjunct1 [OF s] start by (induction rule: rtranclp_induct) (use step in blast)+
  have ok: "tasks_ok s" using s tasks_ok_reachable tasks_ok_start [OF bounded] by blast
  have "\<exists>r. t = Running (Return r)" if "t \<in> set (map snd (tk_tasks s))" for t
  proof -
    obtain j view where j: "j < length (tk_tasks s)" "tk_tasks s ! j = (view, t)"
      using \<open>t \<in> _\<close> by (auto simp: in_set_conv_nth)
    then have "task_step pred k (tk_history s) view t = None" for k
      using s token_step.task [of j s view t pred k] by (cases "task_step pred k (tk_history s) view t") auto
    moreover have "task_ok (tk_history s) (view, t)" using ok j by (metis nth_mem tasks_ok_def)
    ultimately show ?thesis using task_stuck safe [OF \<open>I s\<close>, of view] j by (metis nth_mem)
  qed
  then have "\<exists>rs. map snd (tk_tasks s) = map (\<lambda>r. Running (Return r)) rs" by (intro ex_map_conv [THEN iffD2]) auto
  then show "\<exists>rs. map snd (tk_tasks s) = map (\<lambda>r. Running (Return r)) rs \<and> Q (get_data s) rs"
    using final [OF \<open>I s\<close>] by blast
next
  show "\<nexists>c. c 0 = token_start data ps \<and> (\<forall>n. token_step pred (c n) (c (Suc n)))"
    using no_endless_run tasks_ok_start [OF bounded] by metis
qed

lemma loop_idx_n_bounded:
  assumes "\<forall>it i. bounded (f it i) B"
  shows "bounded (loop_idx_n pred f base_idx it count) (count * Suc B)"
proof (induction count arbitrary: base_idx it)
  case (Suc count)
  have "bounded (prog_bind (f it base_idx) (\<lambda>_. loop_idx_n pred f (base_idx + 1) (it + 1) count)) (B + count * Suc B)"
    by (intro bounded_bind allI Suc.IH) (use assms in blast)
  then show ?case by (simp add: was_cancelled_def ac_simps)
qed simp

lemma loop_n_bounded:
  assumes "\<forall>s it. bounded (f s it) B"
  shows "bounded (loop_n_with_token f s it count) (count * Suc B)" "bounded (loop_n_plain f s it count) (count * Suc B)"
proof -
  show "bounded (loop_n_with_token f s it count) (count * Suc B)"
  proof (induction count arbitrary: s it)
    case (Suc count)
    have "bounded (prog_bind (f s it) (\<lambda>s'. loop_n_with_token f s' (it + 1) count)) (B + count * Suc B)"
      by (intro bounded_bind allI Suc.IH) (use assms in blast)
    then show ?case by (simp add: flag_was_cancelled_def ac_simps)
  qed simp
  show "bounded (loop_n_plain f s it count) (count * Suc B)"
  proof (induction count arbitrary: s it)
    case (Suc count)
    have "bounded (prog_bind (f s it) (\<lambda>s'. loop_n_plain f s' (it + 1) count)) (B + count * Suc B)"
      by (intro bounded_bind allI Suc.IH) (use assms in blast)
    then show ?case by (auto intro: bounded_mono)
  qed simp
qed

text \<open>The pieces of a shape: the index of each is its position, they are disjoint and their union is the range.\<close>

lemma consecutive_index:
  "consecutive b i cs e \<Longrightarrow> b = uint i \<Longrightarrow> e < 2 ^ 64 \<Longrightarrow> (p, n, k) \<in> set cs \<Longrightarrow> p = uint k"
proof (induction b i cs e rule: consecutive.induct)
  case (2 b i p' n' k' xs e)
  then have "b + uint n' \<le> e" using consecutive_length [of "b + uint n'" "i + n'" xs e] by auto
  then have "b + uint n' = uint (i + n')" using 2(3,4) by (simp add: uint_plus_if')
  then show ?case using 2 by auto
qed simp

lemma consecutive_disjoint:
  assumes "consecutive b i cs e" "j < j'" "j' < length cs" "cs ! j = (p, n, k)" "cs ! j' = (p', n', k')"
  shows "p + uint n \<le> p'"
proof -
  have "cs = take j' cs @ cs ! j' # drop (Suc j') cs" using assms(3) by (rule id_take_nth_drop)
  then obtain q m where "consecutive b i (take j' cs) q" "consecutive q m (cs ! j' # drop (Suc j') cs) e"
    using assms(1) consecutive_append by metis
  then have "consecutive b i (take j' cs) p'" using assms(5) by auto
  moreover have "(p, n, k) \<in> set (take j' cs)" using assms(2-4) by (metis in_set_conv_nth length_take min.absorb4 nth_take)
  ultimately show ?thesis using consecutive_inside by blast
qed

lemma consecutive_covers:
  "consecutive b i cs e \<Longrightarrow> b \<le> x \<Longrightarrow> x < e \<Longrightarrow> \<exists>(p, n, k) \<in> set cs. p \<le> x \<and> x < p + uint n"
proof (induction b i cs e rule: consecutive.induct)
  case (2 b i p n k xs e)
  then show ?case by (cases "x < b + uint n") auto
qed simp

primrec cancel_times :: "nat \<Rightarrow> 'v \<Rightarrow> ('v, unit) prog" where
  "cancel_times 0 d = Return ()"
| "cancel_times (Suc m) d = Cancel d (cancel_times m d)"

section \<open>Tokens that keep the best value\<close>

locale token_order =
  fixes pred better :: "int \<Rightarrow> int \<Rightarrow> bool"
  assumes better_refl: "better v v"
    and better_trans: "better u v \<Longrightarrow> better v w \<Longrightarrow> better u w"
    and pred_better: "pred v d \<Longrightarrow> better v d"
    and not_pred: "\<not> pred v d \<Longrightarrow> better d v"
    and pred_earlier: "v < i \<Longrightarrow> i \<le> j \<Longrightarrow> pred v i \<Longrightarrow> better v j"
    and pred_later: "i \<le> j \<Longrightarrow> j < v \<Longrightarrow> pred v i \<Longrightarrow> better v j"
begin

text \<open>
  \<open>covers H A S p\<close>: when \<open>p\<close> reads only values in \<open>A\<close>, or that it has offered itself, it offers only values in \<open>H\<close> and when it
  has returned, the token is better than all of \<open>S\<close>.
\<close>

primrec covers :: "int set \<Rightarrow> int set \<Rightarrow> int set \<Rightarrow> (int, 'r) prog \<Rightarrow> bool" where
  "covers H A S (Return r) \<longleftrightarrow> S = {}"
| "covers H A S Undefined \<longleftrightarrow> False"
| "covers H A S (Read g) \<longleftrightarrow> (\<forall>v \<in> A. covers H A {d \<in> S. \<not> better v d} (g v))"
| "covers H A S (Write v p) \<longleftrightarrow> False"
| "covers H A S (Cancel d p) \<longleftrightarrow> d \<in> H \<and> covers H (insert d A) {d' \<in> S. \<not> better d d'} p"

fun task_covers :: "int list \<Rightarrow> int set \<Rightarrow> int set \<Rightarrow> int set \<Rightarrow> (int, 'r) task \<Rightarrow> bool" where
  "task_covers h H A S (Running p) \<longleftrightarrow> covers H A S p"
| "task_covers h H A S (Exchanging d old p) \<longleftrightarrow>
     old \<in> set h \<and> d \<in> H \<and> covers H (insert d A) {d' \<in> S. \<not> better d d'} p"

definition others :: "int \<Rightarrow> int set list \<Rightarrow> nat \<Rightarrow> int set" where
  "others data Hs j = insert data (\<Union>i \<in> {..<length Hs} - {j}. Hs ! i)"

definition task_inv :: "int \<Rightarrow> int set list \<Rightarrow> int list \<Rightarrow> nat \<Rightarrow> (int, 'r) task \<Rightarrow> bool" where
  "task_inv data Hs h j t \<longleftrightarrow> (\<exists>A S. others data Hs j \<subseteq> A \<and> set h \<subseteq> A \<and> task_covers h (Hs ! j) A S t \<and>
     (\<forall>d \<in> Hs ! j. d \<in> S \<or> better (last h) d))"

definition history_inv :: "int \<Rightarrow> int set list \<Rightarrow> int list \<Rightarrow> bool" where
  "history_inv data Hs h \<longleftrightarrow> h \<noteq> [] \<and> set h \<subseteq> insert data (\<Union> (set Hs)) \<and> (\<forall>v \<in> set h. better (last h) v)"

lemma task_invI:
  "others data Hs j \<subseteq> A \<Longrightarrow> set h \<subseteq> A \<Longrightarrow> task_covers h (Hs ! j) A S t \<Longrightarrow>
    \<forall>d \<in> Hs ! j. d \<in> S \<or> better (last h) d \<Longrightarrow> task_inv data Hs h j t"
  by (auto simp: task_inv_def)

lemma task_inv_step:
  assumes "task_step pred k h view t = Some (h', view', t')" "task_inv data Hs h j t" "history_inv data Hs h"
    and "j < length Hs"
  shows "task_inv data Hs h' j t' \<and> history_inv data Hs h' \<and>
    (h' = h \<or> (\<exists>d \<in> Hs ! j. h' = h @ [d] \<and> better d (last h)))"
proof -
  obtain A S where A: "others data Hs j \<subseteq> A" "set h \<subseteq> A" "task_covers h (Hs ! j) A S t"
    "\<forall>d \<in> Hs ! j. d \<in> S \<or> better (last h) d" using assms(2) by (auto simp: task_inv_def)
  have last: "better (last h) (h ! k)" if "readable h view k" for k
    using assms(3) that by (auto simp: history_inv_def readable_def)
  have mem: "h ! k \<in> A" if "readable h view k" for k using A(2) that by (auto simp: readable_def)
  show ?thesis
  proof (cases t)
    case (Running p)
    show ?thesis
    proof (cases p)
      case (Read g)
      then have r: "readable h view k" "h' = h" "t' = Running (g (h ! k))"
        using assms(1) Running by (auto split: if_splits)
      then have "task_covers h (Hs ! j) A {d \<in> S. \<not> better (h ! k) d} t'" using A(3) mem Running Read by auto
      moreover have "\<forall>d \<in> Hs ! j. d \<in> {d \<in> S. \<not> better (h ! k) d} \<or> better (last h) d"
        using A(4) last [OF r(1)] better_trans by blast
      ultimately show ?thesis using task_invI [OF A(1,2)] assms(3) r(2) by blast
    next
      case (Cancel d q)
      then have r: "readable h view k" "h' = h" "t' = Exchanging d (h ! k) q"
        using assms(1) Running by (auto split: if_splits)
      then have "task_covers h (Hs ! j) A S t'" using A(3) Running Cancel by (auto simp: readable_def)
      then show ?thesis using task_invI [OF A(1,2) _ A(4)] assms(3) r(2) by blast
    qed (use assms(1) A(3) Running in auto)
  next
    case (Exchanging d old q)
    let ?S = "{d' \<in> S. \<not> better d d'}"
    have q: "old \<in> set h" "d \<in> Hs ! j" "covers (Hs ! j) (insert d A) ?S q" using A(3) Exchanging by auto
    consider "pred old d" "h' = h" "t' = Running q" | "h' = h" "t' = Exchanging d (h ! k) q" "readable h view k"
      | "\<not> pred old d" "h ! k = old" "Suc k = length h" "h' = h @ [d]" "t' = Running q"
      using assms(1) Exchanging by (auto split: if_splits)
    then show ?thesis
    proof cases
      case 1
      have "better (last h) old" using q(1) assms(3) by (auto simp: history_inv_def)
      then have "better (last h) d" using pred_better [OF 1(1)] by (rule better_trans)
      then have "\<forall>d' \<in> Hs ! j. d' \<in> ?S \<or> better (last h) d'" using A(4) better_trans by blast
      moreover have "task_covers h (Hs ! j) (insert d A) ?S t'" using q 1 by simp
      ultimately show ?thesis using task_invI [of data Hs j "insert d A" h ?S t'] A(1,2) assms(3) 1(2) by blast
    next
      case 2
      then have "task_covers h (Hs ! j) A S t'" using q by (auto simp: readable_def)
      then show ?thesis using task_invI [OF A(1,2) _ A(4)] assms(3) 2(1) by blast
    next
      case 3
      then have "k = length h - 1" "h \<noteq> []" by auto
      then have "last h = old" using 3(2) by (simp add: last_conv_nth)
      then have "better d (last h)" using 3(1) not_pred by simp
      have "task_covers h' (Hs ! j) (insert d A) ?S t'" using q 3 by simp
      moreover have "\<forall>d' \<in> Hs ! j. d' \<in> ?S \<or> better (last h') d'"
        using A(4) better_trans [OF \<open>better d (last h)\<close>] 3(4) by auto
      moreover have "d \<in> \<Union> (set Hs)" using q(2) assms(4) by auto
      then have "history_inv data Hs h'"
        using assms(3) better_trans [OF \<open>better d (last h)\<close>] better_refl 3(4) by (auto simp: history_inv_def)
      moreover have "set h' \<subseteq> insert d A" using 3(4) A(2) by auto
      ultimately show ?thesis
        using task_invI [of data Hs j "insert d A" h' ?S t'] A(1) q(2) 3(4) \<open>better d (last h)\<close> by blast
    qed
  qed
qed

definition order_inv :: "int \<Rightarrow> int set list \<Rightarrow> (int, 'r) token_state \<Rightarrow> bool" where
  "order_inv data Hs s \<longleftrightarrow> length (tk_tasks s) = length Hs \<and> history_inv data Hs (tk_history s) \<and>
     (\<forall>j < length Hs. task_inv data Hs (tk_history s) j (snd (tk_tasks s ! j)))"

lemma task_covers_append: "task_covers h H A S t \<Longrightarrow> task_covers (h @ ys) H A S t"
  by (cases t) auto

lemma task_inv_offer:
  assumes "task_inv data Hs h j t" "d \<in> others data Hs j" "better d (last h)"
  shows "task_inv data Hs (h @ [d]) j t"
proof -
  obtain A S where A: "others data Hs j \<subseteq> A" "set h \<subseteq> A" "task_covers h (Hs ! j) A S t"
    "\<forall>d \<in> Hs ! j. d \<in> S \<or> better (last h) d" using assms(1) by (auto simp: task_inv_def)
  moreover have "set (h @ [d]) \<subseteq> A" using A(1,2) assms(2) by auto
  moreover have "\<forall>e \<in> Hs ! j. e \<in> S \<or> better (last (h @ [d])) e"
    using A(4) better_trans [OF assms(3)] by auto
  ultimately show ?thesis using task_invI [OF A(1) _ task_covers_append [OF A(3)]] by blast
qed

lemma order_inv_step:
  assumes "token_step pred s s'" "order_inv data Hs s"
  shows "order_inv data Hs s'"
  using assms(1)
proof cases
  case (task j view t k h view' t')
  have j: "j < length Hs" using task(2) assms(2) by (simp add: order_inv_def)
  have t: "task_inv data Hs (tk_history s) j t" using assms(2) j task(3) by (auto simp: order_inv_def)
  have "history_inv data Hs (tk_history s)" using assms(2) by (simp add: order_inv_def)
  from task_inv_step [OF task(4) t this j]
  have h: "task_inv data Hs h j t'" "history_inv data Hs h"
    "h = tk_history s \<or> (\<exists>d \<in> Hs ! j. h = tk_history s @ [d] \<and> better d (last (tk_history s)))" by auto
  have "task_inv data Hs h i (snd (tk_tasks s ! i))" if "i < length Hs" "i \<noteq> j" for i
  proof -
    have i: "task_inv data Hs (tk_history s) i (snd (tk_tasks s ! i))" using assms(2) that by (auto simp: order_inv_def)
    have "Hs ! j \<subseteq> others data Hs i" using j that by (auto simp: others_def)
    then show ?thesis using h(3) i task_inv_offer [OF i] by blast
  qed
  then show ?thesis using h(1,2) assms(2) task(1,2) by (auto simp: order_inv_def nth_list_update)
qed

lemma order_inv_start:
  assumes "length ps = length Hs" "\<forall>j < length Hs. covers (Hs ! j) (others data Hs j) (Hs ! j) (ps ! j)"
  shows "order_inv data Hs (token_start data ps)"
proof -
  have "task_inv data Hs [data] j (Running (ps ! j))" if "j < length Hs" for j
    using assms(2) that unfolding task_inv_def
    by (intro exI [of _ "others data Hs j"] exI [of _ "Hs ! j"]) (auto simp: others_def)
  then show ?thesis using assms(1) better_refl by (auto simp: order_inv_def token_start_def history_inv_def)
qed

lemma best_value:
  assumes "length ps = length Hs" "\<forall>j < length Hs. covers (Hs ! j) (others data Hs j) (Hs ! j) (ps ! j)"
    and "\<forall>p \<in> set ps. \<exists>n. bounded p n"
  shows "all_runs pred (token_start data ps) (\<lambda>v rs. v \<in> insert data (\<Union> (set Hs)) \<and> better v data \<and>
    (\<forall>d \<in> \<Union> (set Hs). better v d))"
proof (rule all_runsI [where I = "\<lambda>s. order_inv data Hs s \<and> data \<in> set (tk_history s)", OF assms(3)])
  show "order_inv data Hs (token_start data ps) \<and> data \<in> set (tk_history (token_start data ps))"
    using order_inv_start [OF assms(1,2)] by (simp add: token_start_def)
next
  fix s s' :: "(int, 'b) token_state"
  assume "order_inv data Hs s \<and> data \<in> set (tk_history s)" "token_step pred s s'"
  then show "order_inv data Hs s' \<and> data \<in> set (tk_history s')"
    using order_inv_step [of s s' data Hs] by (auto elim!: token_step.cases dest!: task_step_history)
next
  fix s :: "(int, 'b) token_state" and view
  assume "order_inv data Hs s \<and> data \<in> set (tk_history s)"
  then show "(view, Running Undefined) \<notin> set (tk_tasks s)"
    by (auto simp: order_inv_def task_inv_def in_set_conv_nth)
next
  fix s :: "(int, 'b) token_state" and rs
  assume I: "order_inv data Hs s \<and> data \<in> set (tk_history s)"
    and rs: "map snd (tk_tasks s) = map (\<lambda>r. Running (Return r)) rs"
  have "better (get_data s) d" if "d \<in> Hs ! j" "j < length Hs" for d j
  proof -
    have "length rs = length Hs" using I rs by (metis length_map order_inv_def)
    then have "snd (tk_tasks s ! j) = Running (Return (rs ! j))" 
      using I rs that by (metis length_map nth_map)
    then have "task_inv data Hs (tk_history s) j (Running (Return (rs ! j)) :: (int, 'b) task)"
      using I that by (metis order_inv_def)
    then show ?thesis using that by (auto simp: task_inv_def get_data_def)
  qed
  then have "\<forall>d \<in> \<Union> (set Hs). better (get_data s) d" by (auto simp: in_set_conv_nth)
  moreover have "get_data s \<in> set (tk_history s)" "better (get_data s) data"
    using I by (auto simp: order_inv_def history_inv_def get_data_def)
  ultimately show "get_data s \<in> insert data (\<Union> (set Hs)) \<and> better (get_data s) data \<and> (\<forall>d \<in> \<Union> (set Hs). better (get_data s) d)"
    using I by (auto simp: order_inv_def history_inv_def)
qed

lemma covers_bind_Return: "covers H A S p \<Longrightarrow> covers H A S (prog_bind p (\<lambda>_. Return r))"
  by (induction p arbitrary: A S) auto

lemma covers_cancel_times:
  "covers H A S (prog_bind (cancel_times (Suc m) d) k) \<longleftrightarrow>
    d \<in> H \<and> covers H (insert d A) {d' \<in> S. \<not> better d d'} (k ())"
proof (induction m arbitrary: A S)
  case (Suc m)
  have "covers H A S (prog_bind (cancel_times (Suc (Suc m)) d) k) \<longleftrightarrow>
      d \<in> H \<and> covers H (insert d A) {d' \<in> S. \<not> better d d'} (prog_bind (cancel_times (Suc m) d) k)" by simp
  then show ?case unfolding Suc by auto
qed simp

lemma loop_covers:
  assumes "it = uint base_idx" "it + int count < 2 ^ 64"
    "\<forall>i. it \<le> i \<and> i < it + int count \<longrightarrow> f i (word_of_int i) = cancel_times (m i) i \<and> (0 < m i \<longrightarrow> i \<in> H)"
    "\<forall>i \<in> S. it \<le> i \<and> i < it + int count \<and> 0 < m i"
    "\<forall>v \<in> A. \<forall>i j. it \<le> i \<and> i \<le> j \<and> j < it + int count \<and> pred v i \<longrightarrow> better v j"
  shows "covers H A S (loop_idx_n pred f base_idx it count)"
  using assms
proof (induction count arbitrary: it base_idx A S)
  case 0
  then have "S = {}" by force
  then show ?case by simp
next
  case (Suc count)
  have next_idx: "it + 1 = uint (base_idx + 1)"
    using Suc.prems(1,2) by (simp add: uint_plus_if')
  have body: "f it base_idx = cancel_times (m it) it" "0 < m it \<Longrightarrow> it \<in> H"
    using Suc.prems(1,3) by auto
  have rest: "covers H A' S' (loop_idx_n pred f (base_idx + 1) (it + 1) count)"
    if "\<forall>i \<in> S'. i \<in> S \<and> i \<noteq> it" "A' \<subseteq> insert it A" for A' S'
  proof (rule Suc.IH)
    show "\<forall>i \<in> S'. it + 1 \<le> i \<and> i < it + 1 + int count \<and> 0 < m i"
      using that(1) Suc.prems(4) by force
    show "\<forall>v \<in> A'. \<forall>i j. it + 1 \<le> i \<and> i \<le> j \<and> j < it + 1 + int count \<and> pred v i \<longrightarrow> better v j"
    proof (intro ballI allI impI)
      fix v i j assume v: "v \<in> A'" "it + 1 \<le> i \<and> i \<le> j \<and> j < it + 1 + int count \<and> pred v i"
      show "better v j"
      proof (cases "v = it")
        case True then show ?thesis using v(2) pred_earlier [of v i j] by simp
      next
        case False
        then have "v \<in> A" using v(1) that(2) by auto
        moreover have "it \<le> i" "j < it + int (Suc count)" using v(2) by auto
        ultimately show ?thesis using v(2) Suc.prems(5) by blast
      qed
    qed
  qed (use Suc.prems(2,3) next_idx in auto)
  have "covers H A {d \<in> S. \<not> better v d}
      (if pred v it then Return it else prog_bind (f it base_idx) (\<lambda>_. loop_idx_n pred f (base_idx + 1) (it + 1) count))"
    if v: "v \<in> A" for v
  proof (cases "pred v it")
    case True
    then have "better v d" if "d \<in> S" for d using that v Suc.prems(4,5) by auto
    then show ?thesis using True by auto
  next
    case False
    show ?thesis
    proof (cases "m it")
      case 0
      then have "it \<notin> S" using Suc.prems(4) by auto
      then show ?thesis using False 0 body(1) rest [of "{d \<in> S. \<not> better v d}" A] by auto
    next
      case (Suc m')
      have "covers H (insert it A) {d' \<in> {d \<in> S. \<not> better v d}. \<not> better it d'}
          (loop_idx_n pred f (base_idx + 1) (it + 1) count)"
        by (rule rest) (use better_refl in auto)
      then have "covers H A {d \<in> S. \<not> better v d} (prog_bind (cancel_times (Suc m') it)
          (\<lambda>_. loop_idx_n pred f (base_idx + 1) (it + 1) count))"
        unfolding covers_cancel_times using body(2) Suc by simp
      then show ?thesis using False Suc body(1) by simp
    qed
  qed
  moreover have "loop_idx_n pred f base_idx it (Suc count) = Read (\<lambda>v. if pred v it then Return it
      else prog_bind (f it base_idx) (\<lambda>_. loop_idx_n pred f (base_idx + 1) (it + 1) count))"
    by (simp add: was_cancelled_def flip: Suc.prems(1))
  ultimately show ?case by (simp only: covers.simps) blast
qed

text \<open>A search for the best index, in chunks that are run by tasks of their own.\<close>

definition chunk_hits :: "(int \<Rightarrow> nat) \<Rightarrow> idx_chunk \<Rightarrow> int set" where
  "chunk_hits m = apply_chunk (\<lambda>b n _. {i. b \<le> i \<and> i < b + uint n \<and> 0 < m i})"

lemma search_runs:
  assumes cs: "consecutive 0 0 cs n" and n: "n < 2 ^ 63"
    and body: "\<forall>i. 0 \<le> i \<and> i < n \<longrightarrow> f i (word_of_int i) = cancel_times (m i) i"
    and data: "\<forall>i j. 0 \<le> i \<and> i \<le> j \<and> j < n \<and> pred data i \<longrightarrow> better data j"
    and bound: "\<forall>it i. bounded (f it i) B"
  shows "all_runs pred (token_start data (map (apply_chunk (loop_part pred f)) cs)) (\<lambda>v rs.
    (v = data \<or> 0 \<le> v \<and> v < n \<and> 0 < m v) \<and> better v data \<and> (\<forall>d. 0 \<le> d \<and> d < n \<and> 0 < m d \<longrightarrow> better v d))"
proof -
  let ?Hs = "map (chunk_hits m) cs"
  have chunk: "0 \<le> p" "p + uint k \<le> n" "p = uint b" if "(p, k, b) \<in> set cs" for p k b
    using consecutive_inside [OF cs that] consecutive_index [OF cs _ _ that] n by auto
  have hits: "\<Union> (set ?Hs) = {i. 0 \<le> i \<and> i < n \<and> 0 < m i}"
    using chunk consecutive_covers [OF cs] by (fastforce simp: chunk_hits_def apply_chunk_def)
  have covers: "covers (?Hs ! j) (others data ?Hs j) (?Hs ! j) (map (apply_chunk (loop_part pred f)) cs ! j)" if j: "j < length cs" for j
  proof -
    obtain p k b where c: "cs ! j = (p, k, b)" by (cases "cs ! j")
    then have mem: "(p, k, b) \<in> set cs" using j by (metis nth_mem)
    have k: "int (unat k) = uint k" by simp
    have H: "?Hs ! j = {i. p \<le> i \<and> i < p + uint k \<and> 0 < m i}" using j c by (simp add: chunk_hits_def apply_chunk_def)
    have outside: "v < p \<or> p + uint k \<le> v" if "v \<in> ?Hs ! i" "i < length cs" "i \<noteq> j" for v i
    proof -
      obtain p' k' b' where c': "cs ! i = (p', k', b')" by (cases "cs ! i")
      then have "p' \<le> v" "v < p' + uint k'" using that by (auto simp: chunk_hits_def apply_chunk_def)
      then show ?thesis using that(2,3) j consecutive_disjoint [OF cs _ _ c c'] consecutive_disjoint [OF cs _ _ c' c]
        by (cases "i < j") auto
    qed
    have "better v j'" if "v \<in> others data ?Hs j" "p \<le> i" "i \<le> j'" "j' < p + uint k" "pred v i" for v i j'
    proof (cases "v = data")
      case True
      moreover have "0 \<le> i" "j' < n" using that chunk [OF mem] by linarith+
      ultimately show ?thesis using data that by blast
    next
      case False
      then have "v < p \<or> p + uint k \<le> v" using that(1) outside by (auto simp: others_def)
      then show ?thesis using that pred_earlier [of v i j'] pred_later [of i j' v] by auto
    qed
    moreover have "f i (word_of_int i) = cancel_times (m i) i" if "p \<le> i" "i < p + uint k" for i
    proof -
      have "0 \<le> i" "i < n" using that chunk [OF mem] by linarith+
      then show ?thesis using body by blast
    qed
    ultimately have "covers (?Hs ! j) (others data ?Hs j) (?Hs ! j) (loop_idx_n pred f b p (unat k))"
      using chunk [OF mem] n by (intro loop_covers [where m = m]) (auto simp: H)
    then show ?thesis using j c by (simp add: loop_part_def apply_chunk_def covers_bind_Return)
  qed
  have "\<exists>N. bounded p N" if p: "p \<in> set (map (apply_chunk (loop_part pred f)) cs)" for p
  proof -
    obtain c where "p = apply_chunk (loop_part pred f) c" using p by auto
    moreover obtain q k b where "c = (q, k, b)" by (cases c)
    ultimately have q: "p = prog_bind (loop_idx_n pred f b q (unat k)) (\<lambda>_. Return ())"
      by (simp add: loop_part_def apply_chunk_def)
    have "bounded p (unat k * Suc B + 0)" unfolding q
      by (intro bounded_bind loop_idx_n_bounded bound) auto
    then show ?thesis by blast
  qed
  with covers have "all_runs pred (token_start data (map (apply_chunk (loop_part pred f)) cs)) (\<lambda>v rs. v \<in> insert data (\<Union> (set ?Hs)) \<and>
      better v data \<and> (\<forall>d \<in> \<Union> (set ?Hs). better v d))"
    by (intro best_value) auto
  then show ?thesis unfolding hits by (simp add: Ball_def)
qed

end

section \<open>Flags\<close>

text \<open>
  \<open>flag_wp W p seen Q\<close>: whatever the other tasks do, where they raise the flag only if \<open>W\<close>, the task \<open>p\<close> ends with a
  result in \<open>Q\<close>. It may have seen that the flag is raised.
\<close>

primrec flag_wp :: "bool \<Rightarrow> (bool, 'r) prog \<Rightarrow> bool \<Rightarrow> (bool \<Rightarrow> 'r \<Rightarrow> bool) \<Rightarrow> bool" where
  "flag_wp W (Return r) seen Q \<longleftrightarrow> Q seen r"
| "flag_wp W Undefined seen Q \<longleftrightarrow> False"
| "flag_wp W (Read g) seen Q \<longleftrightarrow> (\<not> seen \<longrightarrow> flag_wp W (g False) False Q) \<and> (seen \<or> W \<longrightarrow> flag_wp W (g True) True Q)"
| "flag_wp W (Write v p) seen Q \<longleftrightarrow> W \<and> v \<and> flag_wp W p True Q"
| "flag_wp W (Cancel d p) seen Q \<longleftrightarrow> False"

lemma flag_wp_bind [simp]:
  "flag_wp W (prog_bind p k) seen Q \<longleftrightarrow> flag_wp W p seen (\<lambda>seen r. flag_wp W (k r) seen Q)"
  by (induction p arbitrary: seen) auto

lemma flag_wp_mono:
  "flag_wp W p seen Q \<Longrightarrow> (\<And>seen r. Q seen r \<Longrightarrow> Q' seen r) \<Longrightarrow> flag_wp W p seen Q'"
  by (induction p arbitrary: seen) auto

definition flag_task :: "bool \<Rightarrow> (bool \<Rightarrow> 'r \<Rightarrow> bool) \<Rightarrow> nat \<Rightarrow> nat \<times> (bool, 'r) task \<Rightarrow> bool" where
  "flag_task W Q n t \<longleftrightarrow> fst t \<le> n \<and> (\<exists>p. snd t = Running p \<and> flag_wp W p (fst t \<noteq> 0) Q)"

definition flag_inv :: "bool \<Rightarrow> (bool \<Rightarrow> 'r \<Rightarrow> bool) list \<Rightarrow> (bool, 'r) token_state \<Rightarrow> bool" where
  "flag_inv W Qs s \<longleftrightarrow> (\<exists>n. tk_history s = False # replicate n True \<and> (0 < n \<longrightarrow> W) \<and>
     length (tk_tasks s) = length Qs \<and> (\<forall>j < length Qs. flag_task W (Qs ! j) n (tk_tasks s ! j)))"

lemma flag_task_step:
  assumes "task_step pred k (False # replicate n True) view t = Some (h, view', t')" "flag_task W Q n (view, t)" "0 < n \<longrightarrow> W"
  shows "\<exists>n'. n \<le> n' \<and> h = False # replicate n' True \<and> flag_task W Q n' (view', t') \<and> (0 < n' \<longrightarrow> W)"
proof -
  obtain p where p: "t = Running p" "flag_wp W p (view \<noteq> 0) Q" "view \<le> n" using assms(2) by (auto simp: flag_task_def)
  show ?thesis
  proof (cases p)
    case (Read g)
    then show ?thesis using assms(1,3) p
      by (intro exI [of _ n]) (auto simp: flag_task_def readable_def nth_Cons' less_Suc_eq_le split: if_splits)
  next
    case (Write v q)
    then show ?thesis using assms(1,3) p
      by (intro exI [of _ "Suc n"]) (auto simp: flag_task_def replicate_append_same)
  qed (use assms(1) p in auto)
qed

lemma flag_inv_step:
  assumes "token_step pred s s'" "flag_inv W Qs s"
  shows "flag_inv W Qs s'"
  using assms(1)
proof cases
  case (task j view t k h view' t')
  obtain n where n: "tk_history s = False # replicate n True" "0 < n \<longrightarrow> W" "length (tk_tasks s) = length Qs"
    "\<forall>j < length Qs. flag_task W (Qs ! j) n (tk_tasks s ! j)" using assms(2) by (auto simp: flag_inv_def)
  have "flag_task W (Qs ! j) n (view, t)" using n task(2,3) by metis
  then obtain n' where n': "n \<le> n'" "h = False # replicate n' True" "flag_task W (Qs ! j) n' (view', t')" "0 < n' \<longrightarrow> W"
    using flag_task_step [of pred k n view t h view' t' W "Qs ! j"] task(4) n(1,2) by auto
  have "flag_task W (Qs ! i) n' (tk_tasks s ! i)" if "i < length Qs" for i
    using n(4) n'(1) that by (auto simp: flag_task_def)
  then show ?thesis using n n' task(1,2) unfolding flag_inv_def by (intro exI [of _ n']) (auto simp: nth_list_update)
qed

lemma flag_runs:
  assumes "length ps = length Qs" "\<forall>j < length Qs. flag_wp W (ps ! j) False (Qs ! j)"
    and "\<forall>p \<in> set ps. \<exists>n. bounded p n"
  shows "all_runs pred (token_start False ps) (\<lambda>v rs. length rs = length Qs \<and> (v \<longrightarrow> W) \<and>
    (\<forall>j < length Qs. \<exists>seen. (seen \<longrightarrow> v) \<and> (Qs ! j) seen (rs ! j)))"
proof (rule all_runsI [where I = "flag_inv W Qs", OF assms(3)])
  show "flag_inv W Qs (token_start False ps)"
    using assms(1,2) by (auto simp: flag_inv_def token_start_def flag_task_def intro!: exI [of _ 0])
next
  fix s :: "(bool, 'a) token_state" and view
  assume "flag_inv W Qs s"
  then show "(view, Running Undefined) \<notin> set (tk_tasks s)"
    by (auto simp: flag_inv_def flag_task_def in_set_conv_nth)
next
  fix s :: "(bool, 'a) token_state" and rs
  assume I: "flag_inv W Qs s" and rs: "map snd (tk_tasks s) = map (\<lambda>r. Running (Return r)) rs"
  obtain n where n: "tk_history s = False # replicate n True" "0 < n \<longrightarrow> W" "length (tk_tasks s) = length Qs"
    "\<forall>j < length Qs. flag_task W (Qs ! j) n (tk_tasks s ! j)" using I by (auto simp: flag_inv_def)
  have v: "get_data s = (0 < n)" using n(1) by (cases n) (auto simp: get_data_def simp flip: replicate_append_same)
  have len: "length rs = length Qs" using rs n(3) by (metis length_map)
  have "\<exists>seen. (seen \<longrightarrow> get_data s) \<and> (Qs ! j) seen (rs ! j)" if "j < length Qs" for j
  proof -
    have "snd (tk_tasks s ! j) = Running (Return (rs ! j))" using rs that len n(3) by (metis length_map nth_map)
    then have "fst (tk_tasks s ! j) \<le> n" "(Qs ! j) (fst (tk_tasks s ! j) \<noteq> 0) (rs ! j)"
      using n(4) that by (auto simp: flag_task_def)
    then show ?thesis using v by (intro exI [of _ "fst (tk_tasks s ! j) \<noteq> 0"]) auto
  qed
  then show "length rs = length Qs \<and> (get_data s \<longrightarrow> W) \<and> (\<forall>j < length Qs. \<exists>seen. (seen \<longrightarrow> get_data s) \<and> (Qs ! j) seen (rs ! j))"
    using len v n(2) by blast
qed (rule flag_inv_step)

section \<open>The tokens of the algorithms\<close>

text \<open>The default token keeps the least value, the token of \<open>find_end\<close> the greatest.\<close>

interpretation least: token_order "(\<le>)" "(\<le>)"
  by unfold_locales auto

interpretation greatest: token_order "(>)" "(\<ge>)"
  by unfold_locales auto

end
