(* ===== verification/Parallel_Find.thy ===== *)
theory Parallel_Find
  imports Cancellation_Token
begin

text \<open>
  Parallel searches: \<^verbatim>\<open>find.hpp\<close>, \<^verbatim>\<open>adjacent_find.hpp\<close>, \<^verbatim>\<open>mismatch.hpp\<close>, \<^verbatim>\<open>lexicographical_compare.hpp\<close>,
  \<^verbatim>\<open>search.hpp\<close> and \<^verbatim>\<open>is_sorted_until\<close> of \<^verbatim>\<open>is_sorted.hpp\<close> in \<^verbatim>\<open>hpx/parallel/algorithms\<close>. The range is cut into chunks by the
  partitioner. The task of a chunk looks for hits and offers their index to a token they share, and it stops as soon as
  the token has an index that is better than all that are left.

  A range is a list that begins at position 0, and an iterator into it is its position. A parallel algorithm
  either has its result at once or gives the tasks to be run, what the token is at first and what is made of
  the last value of the token; \<open>always_returns\<close> states that in every interleaving of the tasks it returns such a result.
  The sequential versions, which the standard library or the source has, are the specification.
\<close>

section \<open>Algorithms on a partitioner\<close>

definition index_shape ::
  "exec_parameters \<Rightarrow> clock \<Rightarrow> u64 \<Rightarrow> iter_kind \<Rightarrow> u64 \<Rightarrow> ('x, idx_chunk list) run" where
  "index_shape params clk cores kind count =
     run_bind (bulk_shape_idx params clk cores kind (\<lambda>it part_size base_idx. ret (it, part_size, base_idx)) [] 0 count 1)
       (\<lambda>(shapes, params', inititems, count'). ret (inititems @ shapes))"

datatype ('v, 'r, 'a) parallel_run =
    Immediate 'a
  | Tasks 'v "('v, 'r) prog list" "'v \<Rightarrow> 'r list \<Rightarrow> 'a option"

definition call_with_index ::
  "exec_parameters \<Rightarrow> clock \<Rightarrow> u64 \<Rightarrow> iter_kind \<Rightarrow> nat \<Rightarrow> int \<Rightarrow> (pos \<Rightarrow> u64 \<Rightarrow> u64 \<Rightarrow> (int, unit) prog)
    \<Rightarrow> (int \<Rightarrow> 'a option) \<Rightarrow> ('x, (int, unit, 'a) parallel_run) run" where
  "call_with_index params clk cores kind count data f1 f2 =
     run_bind (index_shape params clk cores kind (of_nat count))
       (\<lambda>shapes. ret (Tasks data (map (apply_chunk f1) shapes) (\<lambda>v rs. f2 v)))"

fun always_returns :: "('v \<Rightarrow> 'v \<Rightarrow> bool) \<Rightarrow> ('v, 'r, 'a) parallel_run \<Rightarrow> ('a \<Rightarrow> bool) \<Rightarrow> bool" where
  "always_returns pred (Immediate r) Q \<longleftrightarrow> Q r"
| "always_returns pred (Tasks data ps f2) Q \<longleftrightarrow>
     all_runs pred (token_start data ps) (\<lambda>v rs. \<exists>r. f2 v rs = Some r \<and> Q r)"

section \<open>Searches for one element\<close>

definition advance_to :: "int \<Rightarrow> int \<Rightarrow> pos" where
  "advance_to count res = (if res \<noteq> count then 0 + res else count)"

definition find_body :: "'a \<Rightarrow> 'a list \<Rightarrow> pos \<Rightarrow> u64 \<Rightarrow> (int, unit) prog" where
  "find_body val xs it i = prog_bind (prog_option (deref xs it))
     (\<lambda>v. if v = val then cancel (uint i) else Return ())"

definition find_parallel ::
  "exec_parameters \<Rightarrow> clock \<Rightarrow> u64 \<Rightarrow> iter_kind \<Rightarrow> 'a list \<Rightarrow> 'a \<Rightarrow> ('x, (int, unit, pos) parallel_run) run" where
  "find_parallel params clk cores kind xs val =
     (let count = length xs in
      if count \<le> 0 then ret (Immediate (int count))
      else call_with_index params clk cores kind count (int count) (loop_part (\<le>) (find_body val xs))
             (\<lambda>find_res. Some (advance_to (int count) find_res)))"

definition find_if_body :: "('a \<Rightarrow> bool) \<Rightarrow> 'a list \<Rightarrow> pos \<Rightarrow> u64 \<Rightarrow> (int, unit) prog" where
  "find_if_body f xs it i = prog_bind (prog_option (deref xs it))
     (\<lambda>v. if f v then cancel (uint i) else Return ())"

definition find_if_parallel ::
  "exec_parameters \<Rightarrow> clock \<Rightarrow> u64 \<Rightarrow> iter_kind \<Rightarrow> 'a list \<Rightarrow> ('a \<Rightarrow> bool) \<Rightarrow> ('x, (int, unit, pos) parallel_run) run" where
  "find_if_parallel params clk cores kind xs f =
     (let count = length xs in
      if count \<le> 0 then ret (Immediate (int count))
      else call_with_index params clk cores kind count (int count) (loop_part (\<le>) (find_if_body f xs))
             (\<lambda>find_res. Some (advance_to (int count) find_res)))"

definition find_if_not_body :: "('a \<Rightarrow> bool) \<Rightarrow> 'a list \<Rightarrow> pos \<Rightarrow> u64 \<Rightarrow> (int, unit) prog" where
  "find_if_not_body f xs it i = prog_bind (prog_option (deref xs it))
     (\<lambda>v. if \<not> f v then cancel (uint i) else Return ())"

definition find_if_not_parallel ::
  "exec_parameters \<Rightarrow> clock \<Rightarrow> u64 \<Rightarrow> iter_kind \<Rightarrow> 'a list \<Rightarrow> ('a \<Rightarrow> bool) \<Rightarrow> ('x, (int, unit, pos) parallel_run) run" where
  "find_if_not_parallel params clk cores kind xs f =
     (let count = length xs in
      if count \<le> 0 then ret (Immediate (int count))
      else call_with_index params clk cores kind count (int count) (loop_part (\<le>) (find_if_not_body f xs))
             (\<lambda>find_res. Some (advance_to (int count) find_res)))"

fun find_if_sequential :: "('a \<Rightarrow> bool) \<Rightarrow> 'a list \<Rightarrow> nat" where
  "find_if_sequential f [] = 0"
| "find_if_sequential f (x # xs) = (if f x then 0 else Suc (find_if_sequential f xs))"

text \<open>The first of a set of elements: the set is searched to its end, even when it has matched.\<close>

primrec find_first_of_loop :: "('a \<Rightarrow> 'b \<Rightarrow> bool) \<Rightarrow> 'a \<Rightarrow> u64 \<Rightarrow> 'b list \<Rightarrow> (int, unit) prog" where
  "find_first_of_loop op v i [] = Return ()"
| "find_first_of_loop op v i (y # ys) =
     prog_bind (if op v y then cancel (uint i) else Return ()) (\<lambda>_. find_first_of_loop op v i ys)"

definition find_first_of_body :: "('a \<Rightarrow> 'b \<Rightarrow> bool) \<Rightarrow> 'a list \<Rightarrow> 'b list \<Rightarrow> pos \<Rightarrow> u64 \<Rightarrow> (int, unit) prog" where
  "find_first_of_body op xs ys it i = prog_bind (prog_option (deref xs it))
     (\<lambda>v. find_first_of_loop op v i ys)"

definition find_first_of_parallel ::
  "exec_parameters \<Rightarrow> clock \<Rightarrow> u64 \<Rightarrow> iter_kind \<Rightarrow> 'a list \<Rightarrow> 'b list \<Rightarrow> ('a \<Rightarrow> 'b \<Rightarrow> bool)
    \<Rightarrow> ('x, (int, unit, pos) parallel_run) run" where
  "find_first_of_parallel params clk cores kind xs ys op =
     (let diff = length ys; count = length xs in
      if diff \<le> 0 then ret (Immediate (int count))
      else if diff > count then ret (Immediate (int count))
      else call_with_index params clk cores kind count (int count) (loop_part (\<le>) (find_first_of_body op xs ys))
             (\<lambda>find_first_of_res. Some (advance_to (int count) find_first_of_res)))"

definition find_first_of_sequential :: "('a \<Rightarrow> 'b \<Rightarrow> bool) \<Rightarrow> 'a list \<Rightarrow> 'b list \<Rightarrow> nat" where
  "find_first_of_sequential op xs ys = find_if_sequential (\<lambda>v. list_ex (op v) ys) xs"

section \<open>Pairs of neighbours and of two ranges\<close>

definition adjacent_find_body :: "('a \<Rightarrow> 'a \<Rightarrow> bool) \<Rightarrow> 'a list \<Rightarrow> pos \<Rightarrow> u64 \<Rightarrow> (int, unit) prog" where
  "adjacent_find_body op xs it i =
     prog_bind (prog_option (deref xs it)) (\<lambda>a.
     prog_bind (prog_option (deref xs (it + 1))) (\<lambda>b.
       if op a b then cancel (uint i) else Return ()))"

definition adjacent_find_parallel ::
  "exec_parameters \<Rightarrow> clock \<Rightarrow> u64 \<Rightarrow> iter_kind \<Rightarrow> 'a list \<Rightarrow> ('a \<Rightarrow> 'a \<Rightarrow> bool) \<Rightarrow> ('x, (int, unit, pos) parallel_run) run" where
  "adjacent_find_parallel params clk cores kind xs op =
     (if xs = [] then ret (Immediate (int (length xs)))
      else let count = length xs in
        call_with_index params clk cores kind (count - 1) (int count) (loop_part (\<le>) (adjacent_find_body op xs))
          (\<lambda>adj_find_res. Some (advance_to (int count) adj_find_res)))"

fun adjacent_find_sequential :: "('a \<Rightarrow> 'a \<Rightarrow> bool) \<Rightarrow> 'a list \<Rightarrow> nat" where
  "adjacent_find_sequential op (x # y # xs) = (if op x y then 0 else Suc (adjacent_find_sequential op (y # xs)))"
| "adjacent_find_sequential op xs = length xs"

definition mismatch_body :: "('a \<Rightarrow> 'b \<Rightarrow> bool) \<Rightarrow> 'a list \<Rightarrow> 'b list \<Rightarrow> pos \<Rightarrow> u64 \<Rightarrow> (int, unit) prog" where
  "mismatch_body f xs ys it i =
     prog_bind (prog_option (deref xs it)) (\<lambda>a.
     prog_bind (prog_option (deref ys it)) (\<lambda>b.
       if \<not> f a b then cancel (uint i) else Return ()))"

definition mismatch_parallel ::
  "exec_parameters \<Rightarrow> clock \<Rightarrow> u64 \<Rightarrow> iter_kind \<Rightarrow> 'a list \<Rightarrow> 'b list \<Rightarrow> ('a \<Rightarrow> 'b \<Rightarrow> bool)
    \<Rightarrow> ('x, (int, unit, pos \<times> pos) parallel_run) run" where
  "mismatch_parallel params clk cores kind xs ys f =
     (if xs = [] \<or> ys = [] then ret (Immediate (0, 0))
      else let count1 = length xs; count2 = length ys in
        if count1 \<noteq> count2 then ret (Immediate (0, 0))
        else call_with_index params clk cores kind count1 (int count1) (loop_part (\<le>) (mismatch_body f xs ys))
          (\<lambda>mismatched. Some (if mismatched \<noteq> int count1 then (mismatched, mismatched) else (int count1, int count2))))"

definition mismatch_from_parallel ::
  "exec_parameters \<Rightarrow> clock \<Rightarrow> u64 \<Rightarrow> iter_kind \<Rightarrow> 'a list \<Rightarrow> 'b list \<Rightarrow> ('a \<Rightarrow> 'b \<Rightarrow> bool)
    \<Rightarrow> ('x, (int, unit, pos \<times> pos) parallel_run) run" where
  "mismatch_from_parallel params clk cores kind xs ys f =
     (if xs = [] then ret (Immediate (0, 0))
      else let count = length xs in
        call_with_index params clk cores kind count (int count) (loop_part (\<le>) (mismatch_body f xs ys))
          (\<lambda>mismatched. Some (if mismatched \<noteq> int count then 0 + mismatched else int count, 0 + mismatched)))"

fun sequential_mismatch_binary :: "('a \<Rightarrow> 'b \<Rightarrow> bool) \<Rightarrow> 'a list \<Rightarrow> 'b list \<Rightarrow> nat \<times> nat" where
  "sequential_mismatch_binary f (x # xs) (y # ys) =
     (if f x y then map_prod Suc Suc (sequential_mismatch_binary f xs ys) else (0, 0))"
| "sequential_mismatch_binary f xs ys = (0, 0)"

definition lexicographical_compare_body :: "('a \<Rightarrow> 'a \<Rightarrow> bool) \<Rightarrow> 'a list \<Rightarrow> 'a list \<Rightarrow> pos \<Rightarrow> u64 \<Rightarrow> (int, unit) prog" where
  "lexicographical_compare_body pred xs ys it i =
     prog_bind (prog_option (deref xs it)) (\<lambda>a.
     prog_bind (prog_option (deref ys it)) (\<lambda>b.
       if pred a b \<or> pred b a then cancel (uint i) else Return ()))"

definition lexicographical_compare_result :: "('a \<Rightarrow> 'a \<Rightarrow> bool) \<Rightarrow> 'a list \<Rightarrow> 'a list \<Rightarrow> int \<Rightarrow> bool option" where
  "lexicographical_compare_result pred xs ys mismatched =
     (let first1 = 0 + mismatched; first2 = 0 + mismatched in
      if first1 \<noteq> int (length xs) \<and> first2 \<noteq> int (length ys) then
        Option.bind (deref xs first1) (\<lambda>a. map_option (pred a) (deref ys first2))
      else Some (first2 \<noteq> int (length ys)))"

definition lexicographical_compare_parallel ::
  "exec_parameters \<Rightarrow> clock \<Rightarrow> u64 \<Rightarrow> iter_kind \<Rightarrow> 'a list \<Rightarrow> 'a list \<Rightarrow> ('a \<Rightarrow> 'a \<Rightarrow> bool)
    \<Rightarrow> ('x, (int, unit, bool) parallel_run) run" where
  "lexicographical_compare_parallel params clk cores kind xs ys pred =
     (let count1 = length xs; count2 = length ys in
      if count1 = 0 \<and> count2 \<noteq> 0 then ret (Immediate True)
      else if count2 = 0 \<and> count1 \<noteq> 0 then ret (Immediate False)
      else let count = min count1 count2 in
        call_with_index params clk cores kind count (int count) (loop_part (\<le>) (lexicographical_compare_body pred xs ys))
          (lexicographical_compare_result pred xs ys))"

fun lexicographical_compare_sequential :: "('a \<Rightarrow> 'a \<Rightarrow> bool) \<Rightarrow> 'a list \<Rightarrow> 'a list \<Rightarrow> bool" where
  "lexicographical_compare_sequential pred (x # xs) (y # ys) \<longleftrightarrow>
     pred x y \<or> \<not> pred y x \<and> lexicographical_compare_sequential pred xs ys"
| "lexicographical_compare_sequential pred [] ys \<longleftrightarrow> ys \<noteq> []"
| "lexicographical_compare_sequential pred (x # xs) [] \<longleftrightarrow> False"

section \<open>Searches for a subsequence\<close>

text \<open>
  The elements after the first are compared from \<open>mid\<close> and \<open>needle\<close> on, while fewer than \<open>diff\<close> have matched, where
  \<open>left\<close> is \<open>diff - local_count\<close>, and \<open>len\<close> has not reached the length of the range. It has matched when nothing is left.
\<close>

fun match_rest :: "'a list \<Rightarrow> 'a list \<Rightarrow> pos \<Rightarrow> pos \<Rightarrow> nat \<Rightarrow> nat \<Rightarrow> nat option" where
  "match_rest xs ys mid needle (Suc left) (Suc len) =
     Option.bind (deref xs mid) (\<lambda>a. Option.bind (deref ys (needle + 1)) (\<lambda>b.
       if a \<noteq> b then Some (Suc left) else match_rest xs ys (mid + 1) (needle + 1) left len))"
| "match_rest xs ys mid needle left len = Some left"

definition search_body :: "('a \<Rightarrow> 'a \<Rightarrow> bool) \<Rightarrow> 'a list \<Rightarrow> 'a list \<Rightarrow> nat \<Rightarrow> pos \<Rightarrow> u64 \<Rightarrow> (int, unit) prog" where
  "search_body op xs ys count it i =
     (let curr = it + 1 in
      prog_bind (prog_option (deref xs it)) (\<lambda>t.
      prog_bind (prog_option (deref ys 0)) (\<lambda>y.
        if op t y then
          prog_bind (prog_option (match_rest xs ys curr 0 (length ys - 1) count)) (\<lambda>left.
            if left = 0 then cancel (uint i) else Return ())
        else Return ())))"

definition search_parallel ::
  "exec_parameters \<Rightarrow> clock \<Rightarrow> u64 \<Rightarrow> iter_kind \<Rightarrow> 'a list \<Rightarrow> 'a list \<Rightarrow> ('a \<Rightarrow> 'a \<Rightarrow> bool)
    \<Rightarrow> ('x, (int, unit, pos) parallel_run) run" where
  "search_parallel params clk cores kind xs ys op =
     (let diff = length ys; count = length xs in
      if diff \<le> 0 then ret (Immediate 0)
      else if diff > count then ret (Immediate (int count))
      else call_with_index params clk cores kind (count - (diff - 1)) (int count) (loop_part (\<le>) (search_body op xs ys count))
             (\<lambda>search_res. Some (advance_to (int count) search_res)))"

definition search_n_parallel ::
  "exec_parameters \<Rightarrow> clock \<Rightarrow> u64 \<Rightarrow> iter_kind \<Rightarrow> 'a list \<Rightarrow> nat \<Rightarrow> 'a list \<Rightarrow> ('a \<Rightarrow> 'a \<Rightarrow> bool)
    \<Rightarrow> ('x, (int, unit, pos) parallel_run) run" where
  "search_n_parallel params clk cores kind xs count ys op =
     (let diff = length ys in
      if diff \<le> 0 then ret (Immediate 0)
      else if diff > count then ret (Immediate 0)
      else call_with_index params clk cores kind (count - (diff - 1)) (int count) (loop_part (\<le>) (search_body op xs ys count))
             (\<lambda>search_res. Some (if search_res \<noteq> int count then 0 + search_res else 0)))"

definition find_end_parallel ::
  "exec_parameters \<Rightarrow> clock \<Rightarrow> u64 \<Rightarrow> iter_kind \<Rightarrow> 'a list \<Rightarrow> 'a list \<Rightarrow> ('a \<Rightarrow> 'a \<Rightarrow> bool)
    \<Rightarrow> ('x, (int, unit, pos) parallel_run) run" where
  "find_end_parallel params clk cores kind xs ys op =
     (let diff = length ys; count = length xs in
      if diff \<le> 0 then ret (Immediate (int count))
      else if diff > count then ret (Immediate (int count))
      else call_with_index params clk cores kind (count - (diff - 1)) (- 1) (loop_part (>) (search_body op xs ys count))
             (\<lambda>find_end_res. Some (advance_to (int count) find_end_res)))"

definition occurs_at :: "('a \<Rightarrow> 'a \<Rightarrow> bool) \<Rightarrow> 'a list \<Rightarrow> 'a list \<Rightarrow> nat \<Rightarrow> bool" where
  "occurs_at op xs ys i \<longleftrightarrow> i + length ys \<le> length xs \<and> list_all2 op (take (length ys) (drop i xs)) ys"

definition search_sequential :: "('a \<Rightarrow> 'a \<Rightarrow> bool) \<Rightarrow> 'a list \<Rightarrow> 'a list \<Rightarrow> nat" where
  "search_sequential op xs ys =
     (let k = find_if_sequential (occurs_at op xs ys) [0..<Suc (length xs)] in if k \<le> length xs then k else length xs)"

definition find_end_sequential :: "('a \<Rightarrow> 'a \<Rightarrow> bool) \<Rightarrow> 'a list \<Rightarrow> 'a list \<Rightarrow> nat" where
  "find_end_sequential op xs ys =
     (if ys = [] then length xs
      else case filter (occurs_at op xs ys) (rev [0..<length xs]) of [] \<Rightarrow> length xs | k # ks \<Rightarrow> k)"

section \<open>The end of the sorted prefix\<close>

definition is_sorted_until_body :: "('a \<Rightarrow> 'a \<Rightarrow> bool) \<Rightarrow> 'a list \<Rightarrow> pos \<Rightarrow> u64 \<Rightarrow> (int, unit) prog" where
  "is_sorted_until_body pred xs it ind =
     prog_bind (prog_option (deref xs it)) (\<lambda>v.
     prog_bind (prog_option (deref xs (it - 1))) (\<lambda>t.
       if pred v t then cancel (uint ind) else Return ()))"

definition is_sorted_until_part :: "('a \<Rightarrow> 'a \<Rightarrow> bool) \<Rightarrow> 'a list \<Rightarrow> pos \<Rightarrow> u64 \<Rightarrow> u64 \<Rightarrow> (int, unit) prog" where
  "is_sorted_until_part pred xs part_begin part_size base_idx =
     (let base_idx = base_idx + 1 in
      prog_bind (loop_idx_n (\<le>) (is_sorted_until_body pred xs) base_idx (part_begin + 1) (unat (part_size - 1))) (\<lambda>it.
        let i = it - 1; trail = it in
        prog_bind (was_cancelled (\<le>) (uint (base_idx + part_size))) (\<lambda>c.
          if \<not> c \<and> trail \<noteq> int (length xs) then
            prog_bind (prog_option (deref xs trail)) (\<lambda>v.
            prog_bind (prog_option (deref xs i)) (\<lambda>t.
              if pred v t then cancel (uint (base_idx + part_size)) else Return ()))
          else Return ())))"

definition is_sorted_until_parallel ::
  "exec_parameters \<Rightarrow> clock \<Rightarrow> u64 \<Rightarrow> iter_kind \<Rightarrow> 'a list \<Rightarrow> ('a \<Rightarrow> 'a \<Rightarrow> bool) \<Rightarrow> ('x, (int, unit, pos) parallel_run) run" where
  "is_sorted_until_parallel params clk cores kind xs pred =
     (let count = length xs in
      if count \<le> 1 then ret (Immediate (int count))
      else call_with_index params clk cores kind count (int count) (is_sorted_until_part pred xs)
             (\<lambda>loc. Some (0 + loc)))"

section \<open>What a search finds\<close>

text \<open>All searches for the first hit are instances of one lemma, \<open>first_hit_returns\<close>; the search for the last hit is its dual.\<close>

definition first_hit :: "(nat \<Rightarrow> bool) \<Rightarrow> nat \<Rightarrow> int \<Rightarrow> int" where
  "first_hit g n data = (if \<exists>i < n. g i then int (LEAST i. g i) else data)"

definition last_hit :: "(nat \<Rightarrow> bool) \<Rightarrow> nat \<Rightarrow> int \<Rightarrow> int" where
  "last_hit g n data = (if \<exists>i < n. g i then int (Max {i. i < n \<and> g i}) else data)"

lemma first_hit_eq:
  assumes "v = data \<or> 0 \<le> v \<and> v < int n \<and> g (nat v)" "\<forall>d. 0 \<le> d \<and> d < int n \<and> g (nat d) \<longrightarrow> v \<le> d"
    and "int n \<le> data"
  shows "v = first_hit g n data"
proof (cases "\<exists>i < n. g i")
  case True
  then obtain i where i: "i < n" "g i" by blast
  have "g (LEAST i. g i)" "(LEAST i. g i) \<le> i" using i(2) by (rule LeastI, rule Least_le)
  then have "v \<le> int (LEAST i. g i)" "v \<noteq> data" using i(1) assms(2) [rule_format, of "int (LEAST i. g i)"] assms(3) by auto
  moreover have "(LEAST i. g i) \<le> nat v" using calculation assms(1) by (intro Least_le) auto
  ultimately show ?thesis using True assms(1) by (auto simp: first_hit_def)
next
  case False
  then have "\<not> (0 \<le> v \<and> v < int n \<and> g (nat v))" by (metis nat_less_iff)
  then show ?thesis using assms(1) False by (auto simp: first_hit_def)
qed

lemma last_hit_eq:
  assumes "v = data \<or> 0 \<le> v \<and> v < int n \<and> g (nat v)" "\<forall>d. 0 \<le> d \<and> d < int n \<and> g (nat d) \<longrightarrow> v \<ge> d"
    and "data < 0"
  shows "v = last_hit g n data"
proof (cases "\<exists>i < n. g i")
  case True
  let ?S = "{i. i < n \<and> g i}"
  have fin: "finite ?S" "?S \<noteq> {}" using True by auto
  then have "Max ?S \<in> ?S" by (rule Max_in)
  then have "int (Max ?S) \<le> v" using assms(2) [rule_format, of "int (Max ?S)"] by auto
  then have "0 \<le> v \<and> v < int n \<and> g (nat v)" using assms(1,3) by auto
  then have "nat v \<le> Max ?S" using fin(1) by (intro Max_ge) auto
  then show ?thesis using True \<open>int (Max ?S) \<le> v\<close> by (auto simp: last_hit_def)
next
  case False
  then have "\<not> (0 \<le> v \<and> v < int n \<and> g (nat v))" by (metis nat_less_iff)
  then show ?thesis using assms(1) False by (auto simp: last_hit_def)
qed

lemma index_shape_pieces:
  assumes "shape_pre params cores (of_nat n) 1" "n < 2 ^ 63"
  obtains cs where "index_shape params clk cores kind (of_nat n) = (ret cs :: ('x, _) run)" "consecutive 0 0 cs (int n)"
proof -
  let ?F = "\<lambda>it part_size base_idx. ret (it, part_size, base_idx) :: ('x, _) run"
  have n: "uint (of_nat n :: u64) = int n" using uint_length [of "replicate n ()"] assms(2) by simp
  obtain xs p' tests rs n' where shape: "bulk_shape_idx params clk cores kind ?F [] 0 (of_nat n) 1 = ret (xs, p', [] @ rs, n')"
    and rs: "map (apply_chunk ?F) tests = map ret rs" and cuts: "cuts 1 0 (of_nat n) tests xs"
    by (rule bulk_shape_idx_cuts [OF assms(1), where clk = clk and kind = kind and items = "[]" and b = 0 and F = ?F]) auto
  have "map (apply_chunk ?F) tests = map ret tests" by (auto simp: apply_chunk_def)
  then have "rs = tests" using rs by (simp only: map_ret_inj)
  then have "index_shape params clk cores kind (of_nat n) = (ret (tests @ xs) :: ('x, _) run)"
    using shape by (simp add: index_shape_def)
  moreover have "consecutive 0 0 (tests @ xs) (int n)" using cuts n by (simp add: cuts_def next_pos_def)
  ultimately show thesis by (rule that)
qed

lemma all_runs_mono: "all_runs pred s Q \<Longrightarrow> (\<And>v rs. Q v rs \<Longrightarrow> Q' v rs) \<Longrightarrow> all_runs pred s Q'"
  unfolding all_runs_def by blast

lemma always_returns_mono: "always_returns pred s Q \<Longrightarrow> (\<And>r. Q r \<Longrightarrow> Q' r) \<Longrightarrow> always_returns pred s Q'"
  by (cases s) (auto elim!: all_runs_mono)

definition cancels_at :: "(pos \<Rightarrow> u64 \<Rightarrow> (int, unit) prog) \<Rightarrow> (nat \<Rightarrow> bool) \<Rightarrow> nat \<Rightarrow> bool" where
  "cancels_at body g n \<longleftrightarrow> (\<forall>i < n. \<exists>m. body (int i) (of_nat i) = cancel_times m (int i) \<and> (0 < m \<longleftrightarrow> g i)) \<and>
     (\<exists>B. \<forall>it i. bounded (body it i) B)"

lemma cancels_atD:
  assumes "cancels_at body g n"
  obtains m B where "\<forall>i. 0 \<le> i \<and> i < int n \<longrightarrow> body i (word_of_int i) = cancel_times (m i) i"
    "\<forall>i. 0 \<le> i \<and> i < int n \<longrightarrow> (0 < m i \<longleftrightarrow> g (nat i))" "\<forall>it i. bounded (body it i) B"
proof -
  obtain m where m: "\<forall>i < n. body (int i) (of_nat i) = cancel_times (m i) (int i) \<and> (0 < m i \<longleftrightarrow> g i)"
    using assms unfolding cancels_at_def by metis
  obtain B where "\<forall>it i. bounded (body it i) B" using assms unfolding cancels_at_def by blast
  moreover have "body i (word_of_int i) = cancel_times (m (nat i)) i \<and> (0 < m (nat i) \<longleftrightarrow> g (nat i))"
    if "0 \<le> i \<and> i < int n" for i
  proof -
    have "nat i < n" "int (nat i) = i" using that by auto
    moreover have "(of_nat (nat i) :: u64) = word_of_int i" using that by (metis calculation(2) of_int_of_nat_eq)
    ultimately show ?thesis using m by metis
  qed
  ultimately show thesis using that [of "\<lambda>i. m (nat i)" B] by blast
qed

lemma first_hit_returns:
  fixes f2 :: "int \<Rightarrow> 'a option"
  assumes "shape_pre params cores (of_nat n) 1" "n < 2 ^ 63" "cancels_at body g n" "int n \<le> data"
    and "\<exists>r. f2 (first_hit g n data) = Some r \<and> Q r"
  shows "\<exists>s. call_with_index params clk cores kind n data (loop_part (\<le>) body) f2 = (ret s :: ('x, _) run) \<and>
    always_returns (\<le>) s Q"
proof -
  obtain cs where cs: "index_shape params clk cores kind (of_nat n) = (ret cs :: ('x, _) run)" "consecutive 0 0 cs (int n)"
    using index_shape_pieces [OF assms(1,2)] by blast
  obtain m B where m: "\<forall>i. 0 \<le> i \<and> i < int n \<longrightarrow> body i (word_of_int i) = cancel_times (m i) i"
    "\<forall>i. 0 \<le> i \<and> i < int n \<longrightarrow> (0 < m i \<longleftrightarrow> g (nat i))" "\<forall>it i. bounded (body it i) B"
    using cancels_atD [OF assms(3)] by blast
  have "all_runs (\<le>) (token_start data (map (apply_chunk (loop_part (\<le>) body)) cs)) (\<lambda>v rs. v = first_hit g n data)"
    by (rule all_runs_mono [OF least.search_runs [OF cs(2) _ m(1) _ m(3)]])
      (use assms(2,4) m(2) in \<open>auto intro!: first_hit_eq\<close>)
  then have "all_runs (\<le>) (token_start data (map (apply_chunk (loop_part (\<le>) body)) cs)) (\<lambda>v rs. \<exists>r. f2 v = Some r \<and> Q r)"
    by (rule all_runs_mono) (use assms(5) in blast)
  then show ?thesis using cs(1) by (simp add: call_with_index_def)
qed

lemma last_hit_returns:
  fixes f2 :: "int \<Rightarrow> 'a option"
  assumes "shape_pre params cores (of_nat n) 1" "n < 2 ^ 63" "cancels_at body g n" "data < 0"
    and "\<exists>r. f2 (last_hit g n data) = Some r \<and> Q r"
  shows "\<exists>s. call_with_index params clk cores kind n data (loop_part (>) body) f2 = (ret s :: ('x, _) run) \<and>
    always_returns (>) s Q"
proof -
  obtain cs where cs: "index_shape params clk cores kind (of_nat n) = (ret cs :: ('x, _) run)" "consecutive 0 0 cs (int n)"
    using index_shape_pieces [OF assms(1,2)] by blast
  obtain m B where m: "\<forall>i. 0 \<le> i \<and> i < int n \<longrightarrow> body i (word_of_int i) = cancel_times (m i) i"
    "\<forall>i. 0 \<le> i \<and> i < int n \<longrightarrow> (0 < m i \<longleftrightarrow> g (nat i))" "\<forall>it i. bounded (body it i) B"
    using cancels_atD [OF assms(3)] by blast
  have "all_runs (>) (token_start data (map (apply_chunk (loop_part (>) body)) cs)) (\<lambda>v rs. v = last_hit g n data)"
    by (rule all_runs_mono [OF greatest.search_runs [OF cs(2) _ m(1) _ m(3)]])
      (use assms(2,4) m(2) in \<open>auto intro!: last_hit_eq\<close>)
  then have "all_runs (>) (token_start data (map (apply_chunk (loop_part (>) body)) cs)) (\<lambda>v rs. \<exists>r. f2 v = Some r \<and> Q r)"
    by (rule all_runs_mono) (use assms(5) in blast)
  then show ?thesis using cs(1) by (simp add: call_with_index_def)
qed

section \<open>The bodies\<close>

lemma deref_nth [simp]: "i < length xs \<Longrightarrow> deref xs (int i) = Some (xs ! i)"
  by (simp add: deref_def)

lemma deref_Cons: "deref (x # xs) (0 + int (Suc k)) = deref xs (0 + int k)"
  by (simp add: deref_def nat_add_distrib)

lemma deref_Suc_nth [simp]: "Suc i < length xs \<Longrightarrow> deref xs (int i + 1) = Some (xs ! Suc i)"
  using deref_nth [of "Suc i" xs] by (simp add: add.commute)

lemma prog_option_simps [simp]: "prog_option (Some x) = Return x" "prog_option None = Undefined"
  by (simp_all add: prog_option_def)

lemma uint_of_small: "i < 2 ^ 63 \<Longrightarrow> uint (of_nat i :: u64) = int i"
  using uint_length [of "replicate i ()"] by simp

lemma cancel_if: "(if b then cancel d else Return ()) = cancel_times (of_bool b) d"
  by (simp add: cancel_def)

lemma bounded_option: "\<forall>x. bounded (k x) B \<Longrightarrow> bounded (prog_bind (prog_option y) k) B"
  by (cases y) auto

lemma bounded_cancel_if: "bounded (if b then cancel d else Return ()) 2"
  by (simp add: cancel_def)

lemma bounded_cancel_times: "m \<le> n \<Longrightarrow> bounded (cancel_times m d) (2 * n)"
proof -
  have "bounded (cancel_times m d) (2 * m)" by (induction m) auto
  then show "m \<le> n \<Longrightarrow> bounded (cancel_times m d) (2 * n)" by (rule bounded_mono) simp
qed

lemma cancels_atI:
  assumes "\<And>i. i < n \<Longrightarrow> body (int i) (of_nat i) = cancel_times (m i) (int i) \<and> (0 < m i \<longleftrightarrow> g i)"
    and "\<And>it i. bounded (body it i) B"
  shows "cancels_at body g n"
  using assms unfolding cancels_at_def by blast

text \<open>
  The bodies offer an index exactly where there is a hit, and do not read outside of the ranges.
\<close>

named_theorems body_cancels

lemma find_body_cancels [body_cancels]:
  "length xs < 2 ^ 63 \<Longrightarrow> cancels_at (find_body val xs) (\<lambda>i. xs ! i = val) (length xs)"
  by (rule cancels_atI [where B = 2 and m = "\<lambda>i. of_bool (xs ! i = val)"])
    (auto simp: find_body_def uint_of_small cancel_def intro!: bounded_option)

lemma find_if_body_cancels [body_cancels]:
  "length xs < 2 ^ 63 \<Longrightarrow> cancels_at (find_if_body f xs) (\<lambda>i. f (xs ! i)) (length xs)"
  by (rule cancels_atI [where B = 2 and m = "\<lambda>i. of_bool (f (xs ! i))"])
    (auto simp: find_if_body_def uint_of_small cancel_def intro!: bounded_option)

lemma find_if_not_body_cancels [body_cancels]:
  "length xs < 2 ^ 63 \<Longrightarrow> cancels_at (find_if_not_body f xs) (\<lambda>i. \<not> f (xs ! i)) (length xs)"
  by (rule cancels_atI [where B = 2 and m = "\<lambda>i. of_bool (\<not> f (xs ! i))"])
    (auto simp: find_if_not_body_def uint_of_small cancel_def intro!: bounded_option)

lemma find_first_of_loop_cancels: "find_first_of_loop op v i ys = cancel_times (length (filter (op v) ys)) (uint i)"
  by (induction ys) (auto simp: cancel_def)

lemma find_first_of_body_cancels [body_cancels]:
  "length xs < 2 ^ 63 \<Longrightarrow> cancels_at (find_first_of_body op xs ys) (\<lambda>i. list_ex (op (xs ! i)) ys) (length xs)"
  by (rule cancels_atI [where B = "2 * length ys" and m = "\<lambda>i. length (filter (op (xs ! i)) ys)"])
    (auto simp: find_first_of_body_def find_first_of_loop_cancels uint_of_small list_ex_iff filter_empty_conv
      intro!: bounded_option bounded_cancel_times)

lemma adjacent_find_body_cancels [body_cancels]:
  "length xs < 2 ^ 63 \<Longrightarrow> cancels_at (adjacent_find_body op xs) (\<lambda>i. op (xs ! i) (xs ! Suc i)) (length xs - 1)"
  by (rule cancels_atI [where B = 2 and m = "\<lambda>i. of_bool (op (xs ! i) (xs ! Suc i))"])
    (auto simp: adjacent_find_body_def uint_of_small cancel_def intro!: bounded_option)

lemma mismatch_body_cancels [body_cancels]:
  "length xs < 2 ^ 63 \<Longrightarrow> length xs \<le> length ys \<Longrightarrow>
    cancels_at (mismatch_body f xs ys) (\<lambda>i. \<not> f (xs ! i) (ys ! i)) (length xs)"
  by (rule cancels_atI [where B = 2 and m = "\<lambda>i. of_bool (\<not> f (xs ! i) (ys ! i))"])
    (auto simp: mismatch_body_def uint_of_small cancel_def intro!: bounded_option)

lemma lexicographical_compare_body_cancels [body_cancels]:
  "length xs < 2 ^ 63 \<Longrightarrow> cancels_at (lexicographical_compare_body pred xs ys)
     (\<lambda>i. pred (xs ! i) (ys ! i) \<or> pred (ys ! i) (xs ! i)) (min (length xs) (length ys))"
  by (rule cancels_atI [where B = 2 and m = "\<lambda>i. of_bool (pred (xs ! i) (ys ! i) \<or> pred (ys ! i) (xs ! i))"])
    (auto simp: lexicographical_compare_body_def uint_of_small cancel_def intro!: bounded_option)

definition begins_at :: "('a \<Rightarrow> 'a \<Rightarrow> bool) \<Rightarrow> 'a list \<Rightarrow> 'a list \<Rightarrow> nat \<Rightarrow> bool" where
  "begins_at op xs ys i \<longleftrightarrow> op (xs ! i) (ys ! 0) \<and> (\<forall>k. 0 < k \<and> k < length ys \<longrightarrow> xs ! (i + k) = ys ! k)"

lemma match_rest_matches:
  "i + length ys \<le> length xs \<Longrightarrow> j < length ys \<Longrightarrow> length ys \<le> len + Suc j \<Longrightarrow>
    \<exists>l. match_rest xs ys (int (i + Suc j)) (int j) (length ys - Suc j) len = Some l \<and>
      (l = 0 \<longleftrightarrow> (\<forall>k. j < k \<and> k < length ys \<longrightarrow> xs ! (i + k) = ys ! k))"
proof (induction "length ys - Suc j" arbitrary: j len)
  case 0
  then show ?case by auto
next
  case (Suc left)
  obtain len' where len: "len = Suc len'" using Suc by (cases len) auto
  have j: "Suc j < length ys" "length ys - Suc j = Suc (length ys - Suc (Suc j))" using Suc.hyps(2) by auto
  have d: "deref xs (int (i + Suc j)) = Some (xs ! (i + Suc j))" "deref ys (int j + 1) = Some (ys ! Suc j)"
    using Suc.prems j by (auto simp del: of_nat_add of_nat_Suc)
  have split: "(\<forall>k. j < k \<and> k < length ys \<longrightarrow> xs ! (i + k) = ys ! k) \<longleftrightarrow>
      xs ! (i + Suc j) = ys ! Suc j \<and> (\<forall>k. Suc j < k \<and> k < length ys \<longrightarrow> xs ! (i + k) = ys ! k)"
    (is "?L \<longleftrightarrow> ?R")
  proof
    assume R: ?R
    show ?L
    proof (intro allI impI)
      fix k assume "j < k \<and> k < length ys"
      then show "xs ! (i + k) = ys ! k" using R by (cases "k = Suc j") auto
    qed
  qed (use j(1) in auto)
  have "int (i + Suc j) + 1 = int (i + Suc (Suc j))" "int j + 1 = int (Suc j)" by auto
  then have step: "match_rest xs ys (int (i + Suc j)) (int j) (length ys - Suc j) len =
      (if xs ! (i + Suc j) \<noteq> ys ! Suc j then Some (Suc (length ys - Suc (Suc j)))
       else match_rest xs ys (int (i + Suc (Suc j))) (int (Suc j)) (length ys - Suc (Suc j)) len')"
    using d len j(2) by (simp add: add.commute)
  show ?case
  proof (cases "xs ! (i + Suc j) = ys ! Suc j")
    case True
    then show ?thesis using step split Suc.hyps(1) [of "Suc j" len'] Suc.hyps(2) Suc.prems j(1) len by simp
  next
    case False
    then show ?thesis using step split by simp
  qed
qed

lemma search_body_cancels [body_cancels]:
  assumes "ys \<noteq> []" "length ys \<le> count" "count \<le> length xs" "length xs < 2 ^ 63"
  shows "cancels_at (search_body op xs ys count) (begins_at op xs ys) (count - (length ys - 1))"
proof (rule cancels_atI [where B = 2 and m = "\<lambda>i. of_bool (begins_at op xs ys i)"])
  fix i assume "i < count - (length ys - 1)"
  then have i: "i + length ys \<le> length xs" "i < length xs" using assms by auto
  have y: "deref ys 0 = Some (ys ! 0)" using deref_nth [of 0 ys] assms(1) by simp
  have "\<exists>l. match_rest xs ys (int i + 1) 0 (length ys - 1) count = Some l \<and>
      (l = 0 \<longleftrightarrow> (\<forall>k. 0 < k \<and> k < length ys \<longrightarrow> xs ! (i + k) = ys ! k))"
    using match_rest_matches [OF i(1), of 0 count] assms(1,2) by (simp add: add.commute)
  then show "search_body op xs ys count (int i) (of_nat i) = cancel_times (of_bool (begins_at op xs ys i)) (int i) \<and>
      (0 < (of_bool (begins_at op xs ys i) :: nat) \<longleftrightarrow> begins_at op xs ys i)"
    using i(2) y assms(4) by (auto simp: search_body_def begins_at_def uint_of_small cancel_def)
qed (auto simp: search_body_def cancel_def intro!: bounded_option)

section \<open>The parallel algorithms agree with the sequential ones\<close>

lemma advance_to_eq [simp]: "advance_to count res = res"
  by (simp add: advance_to_def)

lemma find_if_sequential_props:
  "find_if_sequential f xs \<le> length xs"
  "find_if_sequential f xs < length xs \<Longrightarrow> f (xs ! find_if_sequential f xs)"
  "j < find_if_sequential f xs \<Longrightarrow> \<not> f (xs ! j)"
proof -
  show "find_if_sequential f xs \<le> length xs" by (induction xs) auto
  show "find_if_sequential f xs < length xs \<Longrightarrow> f (xs ! find_if_sequential f xs)" by (induction xs) (auto split: if_splits)
  show "j < find_if_sequential f xs \<Longrightarrow> \<not> f (xs ! j)" by (induction xs arbitrary: j) (auto simp: nth_Cons' split: if_splits)
qed

text \<open>A first hit is a position before which there is none.\<close>

lemma first_hitI:
  assumes "k < n \<and> g k \<and> r = int k \<or> k = n \<and> r = data" "\<forall>j < k. \<not> g j" "int n \<le> data"
  shows "first_hit g n data = r"
proof (rule sym, rule first_hit_eq)
  show "r = data \<or> 0 \<le> r \<and> r < int n \<and> g (nat r)" using assms(1) by auto
  show "\<forall>d. 0 \<le> d \<and> d < int n \<and> g (nat d) \<longrightarrow> r \<le> d"
  proof (intro allI impI)
    fix d assume d: "0 \<le> d \<and> d < int n \<and> g (nat d)"
    then have "\<not> nat d < k" using assms(2) by blast
    then show "r \<le> d" using assms(1) d by auto
  qed
qed (rule assms(3))

lemma find_if_first_hit:
  "first_hit (\<lambda>i. f (xs ! i)) (length xs) (int (length xs)) = int (find_if_sequential f xs)"
  using find_if_sequential_props [where f = f and xs = xs] by (intro first_hitI [where k = "find_if_sequential f xs"]) (auto simp: le_less)

definition search_pre :: "exec_parameters \<Rightarrow> u64 \<Rightarrow> nat \<Rightarrow> bool" where
  "search_pre params cores n \<longleftrightarrow> n < 2 ^ 63 \<and> shape_pre params cores (of_nat n) 1"

text \<open>C15: In every interleaving of its tasks, whatever outdated values of the token they read and however the
  range is cut, a parallel \<open>find_if\<close> ends without undefined behaviour and returns the position that the sequential
  search returns: the first element that satisfies the predicate, or the end.\<close>

theorem find_if_parallel_correct:
  assumes "xs = [] \<or> search_pre params cores (length xs)"
  shows "\<exists>s. find_if_parallel params clk cores kind xs f = (ret s :: ('x, _) run) \<and>
    always_returns (\<le>) s (\<lambda>r. r = int (find_if_sequential f xs))"
proof (cases "xs = []")
  case False
  then show ?thesis using assms find_if_body_cancels [of xs f]
    by (auto simp: find_if_parallel_def search_pre_def Let_def find_if_first_hit intro!: first_hit_returns)
qed (simp add: find_if_parallel_def)

lemma find_if_parallel_correct_witness:
  "\<exists>s. find_if_parallel (Static_Chunk_Size 2) (0, 0) 1 Integral_Type [5, 6, 7, 8 :: int] even = (ret s :: (unit, _) run) \<and>
    always_returns (\<le>) s (\<lambda>r. r = 1)"
  using find_if_parallel_correct [of "[5, 6, 7, 8 :: int]" "Static_Chunk_Size 2" 1 "(0, 0)" Integral_Type even]
  by (simp add: search_pre_def shape_pre_def times_chunks_def)

lemma find_parallel_correct:
  assumes "xs = [] \<or> search_pre params cores (length xs)"
  shows "\<exists>s. find_parallel params clk cores kind xs val = (ret s :: ('x, _) run) \<and>
    always_returns (\<le>) s (\<lambda>r. r = int (find_if_sequential (\<lambda>x. x = val) xs))"
proof (cases "xs = []")
  case False
  then show ?thesis using assms find_body_cancels [of xs val] find_if_first_hit [of "\<lambda>x. x = val" xs]
    by (auto simp: find_parallel_def search_pre_def Let_def intro!: first_hit_returns)
qed (simp add: find_parallel_def)

lemma find_if_not_parallel_correct:
  assumes "xs = [] \<or> search_pre params cores (length xs)"
  shows "\<exists>s. find_if_not_parallel params clk cores kind xs f = (ret s :: ('x, _) run) \<and>
    always_returns (\<le>) s (\<lambda>r. r = int (find_if_sequential (\<lambda>x. \<not> f x) xs))"
proof (cases "xs = []")
  case False
  then show ?thesis using assms find_if_not_body_cancels [of xs f] find_if_first_hit [of "\<lambda>x. \<not> f x" xs]
    by (auto simp: find_if_not_parallel_def search_pre_def Let_def intro!: first_hit_returns)
qed (simp add: find_if_not_parallel_def)

lemma find_first_of_parallel_correct:
  assumes "search_pre params cores (length xs)" "length ys \<le> length xs"
  shows "\<exists>s. find_first_of_parallel params clk cores kind xs ys op = (ret s :: ('x, _) run) \<and>
    always_returns (\<le>) s (\<lambda>r. r = int (find_first_of_sequential op xs ys))"
proof (cases "ys = []")
  case True
  have "find_if_sequential (\<lambda>v. False) xs = length xs" by (induction xs) auto
  then show ?thesis using True by (simp add: find_first_of_parallel_def find_first_of_sequential_def)
next
  case False
  then show ?thesis
    using assms find_first_of_body_cancels [of xs op ys] find_if_first_hit [of "\<lambda>v. list_ex (op v) ys" xs]
    by (auto simp: find_first_of_parallel_def find_first_of_sequential_def search_pre_def Let_def intro!: first_hit_returns)
qed

lemma adjacent_find_first_hit:
  "xs \<noteq> [] \<Longrightarrow> first_hit (\<lambda>i. op (xs ! i) (xs ! Suc i)) (length xs - 1) (int (length xs)) = int (adjacent_find_sequential op xs)"
proof -
  let ?k = "adjacent_find_sequential op xs"
  assume "xs \<noteq> []"
  then have "(?k < length xs - 1 \<and> op (xs ! ?k) (xs ! Suc ?k) \<or> ?k = length xs) \<and> (\<forall>j < min ?k (length xs - 1). \<not> op (xs ! j) (xs ! Suc j))"
    by (induction op xs rule: adjacent_find_sequential.induct) (auto simp: less_Suc_eq_0_disj)
  then show ?thesis by (intro first_hitI [where k = "min ?k (length xs - 1)"]) auto
qed

lemma adjacent_find_parallel_correct:
  assumes "xs = [] \<or> search_pre params cores (length xs - 1)" "length xs < 2 ^ 63"
  shows "\<exists>s. adjacent_find_parallel params clk cores kind xs op = (ret s :: ('x, _) run) \<and>
    always_returns (\<le>) s (\<lambda>r. r = int (adjacent_find_sequential op xs))"
proof (cases "xs = []")
  case False
  then show ?thesis using assms adjacent_find_body_cancels [of xs op] adjacent_find_first_hit [of xs op]
    by (auto simp: adjacent_find_parallel_def search_pre_def Let_def intro!: first_hit_returns)
qed (simp add: adjacent_find_parallel_def)

lemma mismatch_first_hit:
  "length xs \<le> length ys \<Longrightarrow> sequential_mismatch_binary f xs ys = (k, k') \<Longrightarrow>
    k' = k \<and> first_hit (\<lambda>i. \<not> f (xs ! i) (ys ! i)) (length xs) (int (length xs)) = int k"
proof -
  assume a: "length xs \<le> length ys" "sequential_mismatch_binary f xs ys = (k, k')"
  then have "k' = k \<and> (k < length xs \<and> \<not> f (xs ! k) (ys ! k) \<or> k = length xs) \<and> (\<forall>j < k. f (xs ! j) (ys ! j))"
  proof (induction f xs ys arbitrary: k k' rule: sequential_mismatch_binary.induct)
    case (1 f x xs y ys)
    obtain a b where "sequential_mismatch_binary f xs ys = (a, b)" by fastforce
    then show ?case using 1 by (auto simp: less_Suc_eq_0_disj split: if_splits)
  qed auto
  then show ?thesis by (auto intro!: first_hitI [where k = k])
qed

lemma mismatch_parallel_correct:
  assumes "xs = [] \<or> search_pre params cores (length xs)" "length ys = length xs"
  shows "\<exists>s. mismatch_parallel params clk cores kind xs ys f = (ret s :: ('x, _) run) \<and>
    always_returns (\<le>) s (\<lambda>r. r = map_prod int int (sequential_mismatch_binary f xs ys))"
proof (cases "xs = []")
  case False
  obtain k k' where k: "sequential_mismatch_binary f xs ys = (k, k')" by fastforce
  then have "k' = k" "first_hit (\<lambda>i. \<not> f (xs ! i) (ys ! i)) (length xs) (int (length xs)) = int k"
    using mismatch_first_hit [of xs ys f k k'] assms(2) by auto
  then show ?thesis using False assms mismatch_body_cancels [of xs ys f] k
    by (auto simp: mismatch_parallel_def search_pre_def Let_def intro!: first_hit_returns)
qed (use assms in \<open>simp add: mismatch_parallel_def\<close>)

lemma mismatch_from_parallel_correct:
  assumes "xs = [] \<or> search_pre params cores (length xs)" "length xs \<le> length ys"
  shows "\<exists>s. mismatch_from_parallel params clk cores kind xs ys f = (ret s :: ('x, _) run) \<and>
    always_returns (\<le>) s (\<lambda>r. r = map_prod int int (sequential_mismatch_binary f xs ys))"
proof (cases "xs = []")
  case False
  obtain k k' where k: "sequential_mismatch_binary f xs ys = (k, k')" by fastforce
  then have "k' = k" "first_hit (\<lambda>i. \<not> f (xs ! i) (ys ! i)) (length xs) (int (length xs)) = int k"
    using mismatch_first_hit [of xs ys f k k'] assms(2) by auto
  then show ?thesis using False assms mismatch_body_cancels [of xs ys f] k
    by (auto simp: mismatch_from_parallel_def search_pre_def Let_def intro!: first_hit_returns)
qed (simp add: mismatch_from_parallel_def)

lemma lexicographical_compare_first_hit:
  "\<exists>k. first_hit (\<lambda>i. pred (xs ! i) (ys ! i) \<or> pred (ys ! i) (xs ! i)) (min (length xs) (length ys)) (int (min (length xs) (length ys))) = int k \<and>
    lexicographical_compare_result pred xs ys (int k) = Some (lexicographical_compare_sequential pred xs ys)"
proof -
  let ?g = "\<lambda>i. pred (xs ! i) (ys ! i) \<or> pred (ys ! i) (xs ! i)" and ?n = "min (length xs) (length ys)"
  have "\<exists>k. (k < ?n \<and> ?g k \<or> k = ?n) \<and> (\<forall>j < k. \<not> ?g j) \<and>
      lexicographical_compare_result pred xs ys (int k) = Some (lexicographical_compare_sequential pred xs ys)"
  proof (induction pred xs ys rule: lexicographical_compare_sequential.induct)
    case (1 pred x xs y ys)
    show ?case
    proof (cases "pred x y \<or> pred y x")
      case True
      then show ?thesis by (intro exI [of _ 0]) (auto simp: lexicographical_compare_result_def deref_def)
    next
      case False
      then obtain k where "k < min (length xs) (length ys) \<and> (pred (xs ! k) (ys ! k) \<or> pred (ys ! k) (xs ! k)) \<or> k = min (length xs) (length ys)"
        "\<forall>j < k. \<not> (pred (xs ! j) (ys ! j) \<or> pred (ys ! j) (xs ! j))"
        "lexicographical_compare_result pred xs ys (int k) = Some (lexicographical_compare_sequential pred xs ys)"
        using 1 by auto
      moreover have "lexicographical_compare_result pred (x # xs) (y # ys) (int (Suc k)) = lexicographical_compare_result pred xs ys (int k)"
        by (simp only: lexicographical_compare_result_def deref_Cons Let_def) simp
      ultimately show ?thesis using False
        by (intro exI [of _ "Suc k"]) (auto simp: less_Suc_eq_0_disj simp del: of_nat_Suc)
    qed
  qed (auto simp: lexicographical_compare_result_def)
  then obtain k where k: "k < ?n \<and> ?g k \<or> k = ?n" "\<forall>j < k. \<not> ?g j"
    "lexicographical_compare_result pred xs ys (int k) = Some (lexicographical_compare_sequential pred xs ys)" by blast
  then have "first_hit ?g ?n (int ?n) = int k" by (intro first_hitI [where k = k]) auto
  then show ?thesis using k(3) by blast
qed

text \<open>C17: In every interleaving of its tasks, a parallel \<open>lexicographical_compare\<close> ends and answers as the sequential
  one, for every predicate and ranges of different lengths, unless both ranges are empty.\<close>

theorem lexicographical_compare_parallel_correct:
  assumes "search_pre params cores (min (length xs) (length ys)) \<or> (xs = [] \<longleftrightarrow> ys \<noteq> [])" "length xs < 2 ^ 63"
  shows "\<exists>s. lexicographical_compare_parallel params clk cores kind xs ys pred = (ret s :: ('x, _) run) \<and>
    always_returns (\<le>) s (\<lambda>r. r = lexicographical_compare_sequential pred xs ys)"
proof (cases "xs = [] \<longleftrightarrow> ys \<noteq> []")
  case True
  then show ?thesis by (cases xs; cases ys) (auto simp: lexicographical_compare_parallel_def)
next
  case False
  then have "search_pre params cores (min (length xs) (length ys))" using assms(1) by blast
  then show ?thesis
    using False assms(2) lexicographical_compare_body_cancels [of xs pred ys] lexicographical_compare_first_hit [of pred xs ys]
    by (auto simp: lexicographical_compare_parallel_def search_pre_def Let_def intro!: first_hit_returns)
qed

lemma lexicographical_compare_parallel_correct_witness:
  "\<exists>s. lexicographical_compare_parallel (Static_Chunk_Size 2) (0, 0) 1 Integral_Type [1, 2, 3] [1, 2, 4, 0 :: int] (<) =
      (ret s :: (unit, _) run) \<and> always_returns (\<le>) s (\<lambda>r. r)"
  using lexicographical_compare_parallel_correct [of "Static_Chunk_Size 2" 1 "[1, 2, 3]" "[1, 2, 4, 0 :: int]" "(0, 0)" Integral_Type "(<)"]
  by (simp add: search_pre_def shape_pre_def times_chunks_def)

lemma begins_occurs:
  assumes "ys \<noteq> []"
  shows "occurs_at (=) xs ys i \<longleftrightarrow> i < length xs - (length ys - 1) \<and> begins_at (=) xs ys i"
proof (cases "i + length ys \<le> length xs")
  case True
  have "(\<forall>k < length ys. xs ! (i + k) = ys ! k) \<longleftrightarrow> begins_at (=) xs ys i"
    using assms by (auto simp: begins_at_def) (metis add_0_right gr0I)
  moreover have "i < length xs - (length ys - 1)" using True assms by (cases ys) auto
  ultimately show ?thesis using True by (auto simp: occurs_at_def list_all2_conv_all_nth)
next
  case False
  then have "\<not> i < length xs - (length ys - 1)" using assms by (cases ys) auto
  then show ?thesis using False by (simp add: occurs_at_def)
qed

lemma search_first_hit:
  assumes "ys \<noteq> []"
  shows "first_hit (begins_at (=) xs ys) (length xs - (length ys - 1)) (int (length xs)) = int (search_sequential (=) xs ys)"
proof -
  let ?P = "occurs_at (=) xs ys" and ?n = "length xs" and ?N = "length xs - (length ys - 1)"
  let ?k = "find_if_sequential ?P [0..<Suc ?n]"
  have k: "?k < Suc ?n \<Longrightarrow> ?P ?k" "\<And>j. j < ?k \<Longrightarrow> \<not> ?P j"
    using find_if_sequential_props(1,2) [of ?P "[0..<Suc ?n]"] find_if_sequential_props(3) [of _ ?P "[0..<Suc ?n]"]
    by (auto simp del: upt_Suc)
  show ?thesis
  proof (cases "?k < Suc ?n")
    case True
    then show ?thesis using k begins_occurs [OF assms, of xs]
      by (intro first_hitI [where k = ?k]) (auto simp: search_sequential_def simp del: upt_Suc)
  next
    case False
    then have "\<not> ?P j" if "j < ?N" for j using k(2) [of j] that by auto
    then show ?thesis using False begins_occurs [OF assms, of xs]
      by (intro first_hitI [where k = ?N]) (auto simp: search_sequential_def simp del: upt_Suc)
  qed
qed

text \<open>C16: In every interleaving of its tasks, a parallel \<open>search\<close> with the default comparison ends, reads only elements of
  the ranges and returns the first occurrence of the subsequence, or the end if there is none.\<close>

theorem search_parallel_correct:
  assumes "ys = [] \<or> length xs < length ys \<or> search_pre params cores (length xs - (length ys - 1))" "length xs < 2 ^ 63"
  shows "\<exists>s. search_parallel params clk cores kind xs ys (=) = (ret s :: ('x, _) run) \<and>
    always_returns (\<le>) s (\<lambda>r. r = int (search_sequential (=) xs ys))"
proof (cases "ys = [] \<or> length xs < length ys")
  case True
  have "occurs_at (=) xs [] 0" by (simp add: occurs_at_def)
  then have nil: "search_sequential (=) xs [] = 0" by (simp add: search_sequential_def upt_conv_Cons del: upt_Suc)
  have "\<not> occurs_at (=) xs ys i" if "length xs < length ys" for i using that by (simp add: occurs_at_def)
  then have "find_if_sequential (occurs_at (=) xs ys) zs = length zs" if "length xs < length ys" for zs
    using that by (induction zs) auto
  then have "search_sequential (=) xs ys = length xs" if "length xs < length ys"
    using that by (simp add: search_sequential_def del: upt_Suc)
  then show ?thesis using True nil by (auto simp: search_parallel_def Let_def)
next
  case False
  then show ?thesis using assms search_body_cancels [of ys "length xs" xs "(=)"] search_first_hit [of ys xs]
    by (auto simp: search_parallel_def search_pre_def Let_def intro!: first_hit_returns)
qed

lemma search_parallel_correct_witness:
  "\<exists>s. search_parallel (Static_Chunk_Size 2) (0, 0) 1 Integral_Type [1, 2, 1, 3, 1, 3 :: int] [1, 3] (=) = (ret s :: (unit, _) run) \<and>
    always_returns (\<le>) s (\<lambda>r. r = 2)"
proof -
  have "search_sequential (=) [1, 2, 1, 3, 1, 3 :: int] [1, 3] = 2" by code_simp
  then show ?thesis
    using search_parallel_correct [of "[1, 3]" "[1, 2, 1, 3, 1, 3 :: int]" "Static_Chunk_Size 2" 1 "(0, 0)" Integral_Type]
    by (simp add: search_pre_def shape_pre_def times_chunks_def)
qed

lemma find_end_last_hit:
  assumes "ys \<noteq> []"
  shows "last_hit (begins_at (=) xs ys) (length xs - (length ys - 1)) (- 1) =
    (if \<exists>i. occurs_at (=) xs ys i then int (find_end_sequential (=) xs ys) else - 1)"
proof -
  let ?P = "occurs_at (=) xs ys" and ?N = "length xs - (length ys - 1)"
  have inside: "i < length xs" if "?P i" for i using that assms by (cases ys) (auto simp: occurs_at_def)
  show ?thesis
  proof (cases "filter ?P (rev [0..<length xs])")
    case Nil
    then have none: "\<not> ?P i" for i using inside [of i] by (auto simp: filter_empty_conv)
    then show ?thesis using begins_occurs [OF assms, of xs] by (auto simp: last_hit_def)
  next
    case (Cons k ks)
    then have "k \<in> set (filter ?P (rev [0..<length xs]))" by simp
    then have k: "?P k" by simp
    have "sorted_wrt (>) (filter ?P (rev [0..<length xs]))"
      by (intro sorted_wrt_filter) (simp add: sorted_wrt_rev sorted_wrt_upt)
    then have "\<forall>d \<in> set ks. d < k" using Cons by simp
    moreover have "d \<in> insert k (set ks)" if "?P d" for d
    proof -
      have "d \<in> set (filter ?P (rev [0..<length xs]))" using that inside by simp
      then show ?thesis unfolding Cons by simp
    qed
    ultimately have max: "d \<le> k" if "?P d" for d using that by fastforce
    have "int k = last_hit (begins_at (=) xs ys) ?N (- 1)"
    proof (rule last_hit_eq)
      show "int k = - 1 \<or> 0 \<le> int k \<and> int k < int ?N \<and> begins_at (=) xs ys (nat (int k))"
        using k begins_occurs [OF assms, of xs k] by simp
      show "\<forall>d. 0 \<le> d \<and> d < int ?N \<and> begins_at (=) xs ys (nat d) \<longrightarrow> d \<le> int k"
      proof (intro allI impI)
        fix d assume "0 \<le> d \<and> d < int ?N \<and> begins_at (=) xs ys (nat d)"
        then have "nat d \<le> k" using begins_occurs [OF assms, of xs "nat d"] by (intro max) auto
        then show "d \<le> int k" by simp
      qed
    qed simp
    then show ?thesis using k Cons assms by (auto simp: find_end_sequential_def)
  qed
qed

lemma find_end_parallel_returns:
  assumes "search_pre params cores (length xs - (length ys - 1))" "length xs < 2 ^ 63" "ys \<noteq> []" "length ys \<le> length xs"
  shows "\<exists>s. find_end_parallel params clk cores kind xs ys (=) = (ret s :: ('x, _) run) \<and>
    always_returns (>) s (\<lambda>r. r = (if \<exists>i. occurs_at (=) xs ys i then int (find_end_sequential (=) xs ys) else - 1))"
  using assms search_body_cancels [of ys "length xs" xs "(=)"] find_end_last_hit [of ys xs]
  by (auto simp: find_end_parallel_def search_pre_def Let_def intro!: last_hit_returns)

text \<open>In every interleaving of its tasks, a parallel \<open>find_end\<close> with the default comparison ends and returns the last
  occurrence of the subsequence, if there is one.\<close>

lemma find_end_parallel_correct:
  assumes "search_pre params cores (length xs - (length ys - 1))" "length xs < 2 ^ 63" "ys \<noteq> []" "occurs_at (=) xs ys i"
  shows "\<exists>s. find_end_parallel params clk cores kind xs ys (=) = (ret s :: ('x, _) run) \<and>
    always_returns (>) s (\<lambda>r. r = int (find_end_sequential (=) xs ys))"
proof -
  have "length ys \<le> length xs" using assms(4) by (simp add: occurs_at_def)
  moreover have "(\<exists>i. occurs_at (=) xs ys i) = True" using assms(4) by blast
  ultimately show ?thesis
    using find_end_parallel_returns [OF assms(1-3), where clk = clk and kind = kind and ?'x = 'x] by simp
qed

section \<open>Where they do not\<close>

text \<open>
  A \<open>find_end\<close> that finds nothing returns the position before the first: the token still has its first value, which is not
  the length of the range.
\<close>

lemma find_end_not_found:
  assumes "search_pre params cores (length xs - (length ys - 1))" "length xs < 2 ^ 63" "ys \<noteq> []" "length ys \<le> length xs"
    and "\<nexists>i. occurs_at (=) xs ys i"
  shows "(\<exists>s. find_end_parallel params clk cores kind xs ys (=) = (ret s :: ('x, _) run) \<and>
    always_returns (>) s (\<lambda>r. r = - 1)) \<and> find_end_sequential (=) xs ys = length xs"
proof
  have "(\<exists>i. occurs_at (=) xs ys i) = False" using assms(5) by blast
  then show "\<exists>s. find_end_parallel params clk cores kind xs ys (=) = (ret s :: ('x, _) run) \<and>
      always_returns (>) s (\<lambda>r. r = - 1)"
    using find_end_parallel_returns [OF assms(1-4), where clk = clk and kind = kind and ?'x = 'x] by simp
  have "filter (occurs_at (=) xs ys) (rev [0..<length xs]) = []" using assms(5) by (simp add: filter_empty_conv)
  then show "find_end_sequential (=) xs ys = length xs" by (simp add: find_end_sequential_def)
qed

text \<open>The comparison that is passed to \<open>search\<close> and \<open>find_end\<close> is used for the first element of the subsequence only.\<close>

lemma search_ignores_op:
  assumes "search_pre params cores 1" and "op = (\<lambda>x y :: int. x mod 10 = y mod 10)"
  shows "(\<exists>s. search_parallel params clk cores kind [1, 12] [11, 2] op = (ret s :: ('x, _) run) \<and>
    always_returns (\<le>) s (\<lambda>r. r = 2)) \<and> search_sequential op [1, 12] [11, 2] = 0"
proof
  have "first_hit (begins_at op [1, 12] [11, 2]) 1 2 = 2"
    by (simp add: first_hit_def begins_at_def exI [of _ 1])
  then show "\<exists>s. search_parallel params clk cores kind [1, 12] [11, 2] op = (ret s :: ('x, _) run) \<and> always_returns (\<le>) s (\<lambda>r. r = 2)"
    using assms(1) search_body_cancels [of "[11, 2]" "Suc (Suc 0)" "[1, 12]" op]
    by (auto simp: search_parallel_def search_pre_def Let_def intro!: first_hit_returns)
  show "search_sequential op [1, 12] [11, 2] = 0"
    by (simp add: assms(2) search_sequential_def occurs_at_def upt_rec)
qed

text \<open>A \<open>search_n\<close> that finds nothing returns the beginning of the range, as its documentation says.\<close>

lemma search_n_not_found:
  assumes "search_pre params cores (count - (length ys - 1))" "ys \<noteq> []" "length ys \<le> count" "count \<le> length xs"
    "length xs < 2 ^ 63" "\<nexists>i. occurs_at (=) (take count xs) ys i"
  shows "\<exists>s. search_n_parallel params clk cores kind xs count ys (=) = (ret s :: ('x, _) run) \<and>
    always_returns (\<le>) s (\<lambda>r. r = 0)"
proof -
  have "\<not> begins_at (=) xs ys i" if "i < count - (length ys - 1)" for i
  proof
    assume "begins_at (=) xs ys i"
    then have "begins_at (=) (take count xs) ys i" using that assms(2-4) by (cases ys) (auto simp: begins_at_def)
    then show False using begins_occurs [OF assms(2), of "take count xs" i] that assms(4,6) by (auto simp: min_absorb2)
  qed
  then have "first_hit (begins_at (=) xs ys) (count - (length ys - 1)) (int count) = int count"
    by (auto simp: first_hit_def)
  then show ?thesis using assms search_body_cancels [of ys count xs "(=)"]
    by (auto simp: search_n_parallel_def search_pre_def Let_def intro!: first_hit_returns)
qed

text \<open>A set with more elements than the range is not searched for, and ranges of different lengths are not compared.\<close>

lemma find_first_of_long_set:
  "find_first_of_parallel params clk cores kind [1] [1, 2 :: int] (=) = ret (Immediate 1) \<and>
    find_first_of_sequential (=) [1] [1, 2 :: int] = 0"
  by (simp add: find_first_of_parallel_def find_first_of_sequential_def)

lemma mismatch_other_length:
  "mismatch_parallel params clk cores kind [1, 2] [1 :: int] (=) = ret (Immediate (0, 0)) \<and>
    sequential_mismatch_binary (=) [1, 2] [1 :: int] = (1, 1)"
  by (simp add: mismatch_parallel_def)

text \<open>
  A range of one element has no neighbours and two empty ranges no pairs: the number of chunks is zero, by which the code
  divides.
\<close>

lemma index_shape_empty: "index_shape (Static_Chunk_Size c) clk cores kind 0 = None"
proof (cases "0 \<noteq> maximal_number_of_chunks cores")
  case True
  then show ?thesis
    by (cases "static_get_chunk_size c cores 0")
      (auto simp: index_shape_def bulk_shape_idx_def has_variable_chunk_size_def get_bulk_iteration_shape_idx_def
        fixed_shape_def Let_def get_chunk_size_def checked_div_def)
qed (simp add: index_shape_def bulk_shape_idx_def has_variable_chunk_size_def get_bulk_iteration_shape_idx_def fixed_shape_def)

lemma no_pairs_divides_by_zero:
  "adjacent_find_parallel (Static_Chunk_Size c) clk cores kind [x] op = None \<and>
    lexicographical_compare_parallel (Static_Chunk_Size c) clk cores kind [] [] op = None"
  by (simp add: adjacent_find_parallel_def lexicographical_compare_parallel_def call_with_index_def index_shape_empty
      run_bind_def Let_def)

fun is_sorted_until_sequential :: "('a \<Rightarrow> 'a \<Rightarrow> bool) \<Rightarrow> 'a list \<Rightarrow> nat" where
  "is_sorted_until_sequential pred (x # y # xs) = (if pred y x then 1 else Suc (is_sorted_until_sequential pred (y # xs)))"
| "is_sorted_until_sequential pred xs = length xs"

text \<open>
  The index of the element behind a chunk is one too large, since \<open>base_idx\<close> has been incremented before. The first
  element that is out of order is missed when it is the last of the range and begins a chunk.
\<close>

definition boundary_shape :: "idx_chunk list" where
  "boundary_shape = [(0, 2, 0), (2, 1, 2)]"

lemma boundary_shape: "index_shape (Static_Chunk_Size 2) (0, 0) 1 Integral_Type 3 = (ret boundary_shape :: (unit, _) run)"
  by code_simp

lemma is_sorted_until_misses_boundary:
  "(\<exists>s. is_sorted_until_parallel (Static_Chunk_Size 2) (0, 0) 1 Integral_Type [1, 2, 0 :: int] (<) = (ret s :: (unit, _) run) \<and>
    always_returns (\<le>) s (\<lambda>r. r = 3)) \<and> is_sorted_until_sequential (<) [1, 2, 0 :: int] = 2"
proof
  let ?ps = "map (apply_chunk (is_sorted_until_part (<) [1, 2, 0 :: int])) boundary_shape"
  have "all_runs (\<le>) (token_start 3 ?ps) (\<lambda>v rs. v \<in> insert 3 (\<Union> (set [{}, {}])) \<and> v \<le> 3 \<and> (\<forall>d \<in> \<Union> (set [{}, {}]). v \<le> d))"
  proof (rule least.best_value)
    show "\<forall>j < length [{}, {}]. least.covers ([{}, {}] ! j) (least.others 3 [{}, {}] j) ([{}, {}] ! j) (?ps ! j)"
      by (auto simp: boundary_shape_def apply_chunk_def is_sorted_until_part_def was_cancelled_def least.others_def
          less_Suc_eq is_sorted_until_body_def deref_def)
    have "\<forall>p \<in> set ?ps. bounded p 10"
      by (simp add: boundary_shape_def apply_chunk_def is_sorted_until_part_def was_cancelled_def
          is_sorted_until_body_def deref_def cancel_def)
    then show "\<forall>p \<in> set ?ps. \<exists>n. bounded p n" by blast
  qed (simp add: boundary_shape_def)
  then have "all_runs (\<le>) (token_start 3 ?ps) (\<lambda>v rs. v = 3)" by (rule all_runs_mono) simp
  then show "\<exists>s. is_sorted_until_parallel (Static_Chunk_Size 2) (0, 0) 1 Integral_Type [1, 2, 0 :: int] (<) = (ret s :: (unit, _) run) \<and>
      always_returns (\<le>) s (\<lambda>r. r = 3)"
    by (simp add: is_sorted_until_parallel_def call_with_index_def boundary_shape)
qed simp

end
