(* ===== verification/Parallel_Predicates.thy ===== *)
theory Parallel_Predicates
  imports Parallel_Find
begin

text \<open>
  Algorithms that answer yes or no: \<^verbatim>\<open>all_any_none.hpp\<close>, \<^verbatim>\<open>equal.hpp\<close>, \<^verbatim>\<open>is_sorted\<close> of \<^verbatim>\<open>is_sorted.hpp\<close> and
  \<^verbatim>\<open>is_partitioned.hpp\<close> in \<^verbatim>\<open>hpx/parallel/algorithms\<close>. The tasks of the chunks share a flag, which a task raises when it
  knows the answer, and each returns what it has found out; these results are combined. The model is that
  of \<open>Parallel_Find\<close>.
\<close>

section \<open>The algorithms\<close>

definition plain_shape ::
  "exec_parameters \<Rightarrow> clock \<Rightarrow> u64 \<Rightarrow> iter_kind \<Rightarrow> u64 \<Rightarrow> ('x, (pos \<times> u64) list) run" where
  "plain_shape params clk cores kind count =
     run_bind (bulk_shape params clk cores kind (\<lambda>it part_size. ret (it, part_size)) [] 0 count 1)
       (\<lambda>(shapes, params', inititems, count'). ret (inititems @ shapes))"

definition call_parts ::
  "exec_parameters \<Rightarrow> clock \<Rightarrow> u64 \<Rightarrow> iter_kind \<Rightarrow> nat \<Rightarrow> (pos \<Rightarrow> u64 \<Rightarrow> (bool, bool) prog)
    \<Rightarrow> (bool \<Rightarrow> bool list \<Rightarrow> bool) \<Rightarrow> ('x, (bool, bool, bool) parallel_run) run" where
  "call_parts params clk cores kind count f1 f2 =
     run_bind (plain_shape params clk cores kind (of_nat count))
       (\<lambda>shapes. ret (Tasks False (map (\<lambda>(it, part_size). f1 it part_size) shapes) (\<lambda>v rs. Some (f2 v rs))))"

definition not_cancelled :: "(bool, bool) prog" where
  "not_cancelled = prog_bind flag_was_cancelled (\<lambda>c. Return (\<not> c))"

definition none_of_body :: "('a \<Rightarrow> bool) \<Rightarrow> 'a list \<Rightarrow> unit \<Rightarrow> pos \<Rightarrow> (bool, unit) prog" where
  "none_of_body op xs u it = prog_bind (prog_option (deref xs it)) (\<lambda>v. if op v then flag_cancel else Return ())"

definition none_of_parallel ::
  "exec_parameters \<Rightarrow> clock \<Rightarrow> u64 \<Rightarrow> iter_kind \<Rightarrow> 'a list \<Rightarrow> ('a \<Rightarrow> bool) \<Rightarrow> ('x, (bool, bool, bool) parallel_run) run" where
  "none_of_parallel params clk cores kind xs op =
     (if xs = [] then ret (Immediate True)
      else call_parts params clk cores kind (length xs)
        (\<lambda>part_begin part_count. prog_bind (loop_n_with_token (none_of_body op xs) () part_begin (unat part_count))
           (\<lambda>_. not_cancelled))
        (\<lambda>v results. list_all (\<lambda>r. r) results))"

definition any_of_body :: "('a \<Rightarrow> bool) \<Rightarrow> 'a list \<Rightarrow> unit \<Rightarrow> pos \<Rightarrow> (bool, unit) prog" where
  "any_of_body op xs u it = prog_bind (prog_option (deref xs it)) (\<lambda>v. if op v then flag_cancel else Return ())"

definition any_of_parallel ::
  "exec_parameters \<Rightarrow> clock \<Rightarrow> u64 \<Rightarrow> iter_kind \<Rightarrow> 'a list \<Rightarrow> ('a \<Rightarrow> bool) \<Rightarrow> ('x, (bool, bool, bool) parallel_run) run" where
  "any_of_parallel params clk cores kind xs op =
     (if xs = [] then ret (Immediate False)
      else call_parts params clk cores kind (length xs)
        (\<lambda>part_begin part_count. prog_bind (loop_n_with_token (any_of_body op xs) () part_begin (unat part_count))
           (\<lambda>_. flag_was_cancelled))
        (\<lambda>v results. list_ex (\<lambda>r. r) results))"

definition all_of_body :: "('a \<Rightarrow> bool) \<Rightarrow> 'a list \<Rightarrow> unit \<Rightarrow> pos \<Rightarrow> (bool, unit) prog" where
  "all_of_body op xs u it = prog_bind (prog_option (deref xs it)) (\<lambda>v. if \<not> op v then flag_cancel else Return ())"

definition all_of_parallel ::
  "exec_parameters \<Rightarrow> clock \<Rightarrow> u64 \<Rightarrow> iter_kind \<Rightarrow> 'a list \<Rightarrow> ('a \<Rightarrow> bool) \<Rightarrow> ('x, (bool, bool, bool) parallel_run) run" where
  "all_of_parallel params clk cores kind xs op =
     (if xs = [] then ret (Immediate True)
      else call_parts params clk cores kind (length xs)
        (\<lambda>part_begin part_count. prog_bind (loop_n_with_token (all_of_body op xs) () part_begin (unat part_count))
           (\<lambda>_. not_cancelled))
        (\<lambda>v results. list_all (\<lambda>r. r) results))"

definition equal_binary_body :: "('a \<Rightarrow> 'b \<Rightarrow> bool) \<Rightarrow> 'a list \<Rightarrow> 'b list \<Rightarrow> unit \<Rightarrow> pos \<Rightarrow> (bool, unit) prog" where
  "equal_binary_body f xs ys u it =
     prog_bind (prog_option (deref xs it)) (\<lambda>a.
     prog_bind (prog_option (deref ys it)) (\<lambda>b. if \<not> f a b then flag_cancel else Return ()))"

definition equal_binary_parallel ::
  "exec_parameters \<Rightarrow> clock \<Rightarrow> u64 \<Rightarrow> iter_kind \<Rightarrow> 'a list \<Rightarrow> 'b list \<Rightarrow> ('a \<Rightarrow> 'b \<Rightarrow> bool)
    \<Rightarrow> ('x, (bool, bool, bool) parallel_run) run" where
  "equal_binary_parallel params clk cores kind xs ys f =
     (if xs = [] then ret (Immediate (ys = []))
      else if ys = [] then ret (Immediate False)
      else let count1 = length xs; count2 = length ys in
        if count1 \<noteq> count2 then ret (Immediate False)
        else call_parts params clk cores kind count1
          (\<lambda>it part_count. prog_bind (loop_n_with_token (equal_binary_body f xs ys) () it (unat part_count))
             (\<lambda>_. not_cancelled))
          (\<lambda>v results. list_all (\<lambda>r. r) results))"

definition equal_from_parallel ::
  "exec_parameters \<Rightarrow> clock \<Rightarrow> u64 \<Rightarrow> iter_kind \<Rightarrow> 'a list \<Rightarrow> 'b list \<Rightarrow> ('a \<Rightarrow> 'b \<Rightarrow> bool)
    \<Rightarrow> ('x, (bool, bool, bool) parallel_run) run" where
  "equal_from_parallel params clk cores kind xs ys f =
     (if xs = [] then ret (Immediate True)
      else call_parts params clk cores kind (length xs)
        (\<lambda>it part_count. prog_bind (loop_n_with_token (equal_binary_body f xs ys) () it (unat part_count))
           (\<lambda>_. not_cancelled))
        (\<lambda>v results. list_all (\<lambda>r. r) results))"

fun sequential_equal_binary :: "('a \<Rightarrow> 'b \<Rightarrow> bool) \<Rightarrow> 'a list \<Rightarrow> 'b list \<Rightarrow> bool" where
  "sequential_equal_binary f (x # xs) (y # ys) \<longleftrightarrow> (if \<not> f x y then False else sequential_equal_binary f xs ys)"
| "sequential_equal_binary f xs ys \<longleftrightarrow> xs = [] \<and> ys = []"

definition is_sorted_body :: "('a \<Rightarrow> 'a \<Rightarrow> bool) \<Rightarrow> 'a list \<Rightarrow> pos \<Rightarrow> pos \<Rightarrow> (bool, pos) prog" where
  "is_sorted_body pred xs trail it =
     prog_bind (prog_option (deref xs it)) (\<lambda>v.
     prog_bind (prog_option (deref xs trail)) (\<lambda>t.
     prog_bind (if pred v t then flag_cancel else Return ()) (\<lambda>_. Return (trail + 1))))"

definition is_sorted_part :: "('a \<Rightarrow> 'a \<Rightarrow> bool) \<Rightarrow> 'a list \<Rightarrow> pos \<Rightarrow> u64 \<Rightarrow> (bool, bool) prog" where
  "is_sorted_part pred xs part_begin part_size =
     prog_bind (loop_n_plain (is_sorted_body pred xs) part_begin (part_begin + 1) (unat (part_size - 1))) (\<lambda>trail.
       let i = trail; trail = trail + 1 in
       prog_bind flag_was_cancelled (\<lambda>c.
         if \<not> c \<and> trail \<noteq> int (length xs) then
           prog_bind (prog_option (deref xs trail)) (\<lambda>v.
           prog_bind (prog_option (deref xs i)) (\<lambda>t. Return (\<not> pred v t)))
         else not_cancelled))"

definition is_sorted_parallel ::
  "exec_parameters \<Rightarrow> clock \<Rightarrow> u64 \<Rightarrow> iter_kind \<Rightarrow> 'a list \<Rightarrow> ('a \<Rightarrow> 'a \<Rightarrow> bool) \<Rightarrow> ('x, (bool, bool, bool) parallel_run) run" where
  "is_sorted_parallel params clk cores kind xs pred =
     (let count = length xs in
      if count \<le> 1 then ret (Immediate True)
      else call_parts params clk cores kind count (is_sorted_part pred xs) (\<lambda>v results. list_all (\<lambda>r. r) results))"

fun is_sorted_sequential :: "('a \<Rightarrow> 'a \<Rightarrow> bool) \<Rightarrow> 'a list \<Rightarrow> bool" where
  "is_sorted_sequential pred (x # y # xs) \<longleftrightarrow> \<not> pred y x \<and> is_sorted_sequential pred (y # xs)"
| "is_sorted_sequential pred xs \<longleftrightarrow> True"

definition is_partitioned_body :: "('a \<Rightarrow> bool) \<Rightarrow> 'a list \<Rightarrow> bool \<Rightarrow> pos \<Rightarrow> (bool, bool) prog" where
  "is_partitioned_body pred xs fst_bool a =
     prog_bind (prog_option (deref xs a)) (\<lambda>v.
       if fst_bool \<noteq> pred v then
         (if fst_bool then Return False else prog_bind flag_cancel (\<lambda>_. Return fst_bool))
       else Return fst_bool)"

definition is_partitioned_part :: "('a \<Rightarrow> bool) \<Rightarrow> 'a list \<Rightarrow> pos \<Rightarrow> u64 \<Rightarrow> (bool, bool) prog" where
  "is_partitioned_part pred xs part_begin part_count =
     prog_bind (prog_option (deref xs part_begin)) (\<lambda>v.
       let fst_bool = pred v in
       if part_count = 1 then Return fst_bool
       else loop_n_with_token (is_partitioned_body pred xs) fst_bool (part_begin + 1) (unat (part_count - 1)))"

definition sequential_is_partitioned :: "bool list \<Rightarrow> bool" where
  "sequential_is_partitioned res = (case dropWhile (\<lambda>r. r) res of [] \<Rightarrow> True | r # rest \<Rightarrow> list_all (\<lambda>r. \<not> r) rest)"

definition is_partitioned_parallel ::
  "exec_parameters \<Rightarrow> clock \<Rightarrow> u64 \<Rightarrow> iter_kind \<Rightarrow> 'a list \<Rightarrow> ('a \<Rightarrow> bool) \<Rightarrow> ('x, (bool, bool, bool) parallel_run) run" where
  "is_partitioned_parallel params clk cores kind xs pred =
     (let count = length xs in
      if count \<le> 1 then ret (Immediate True)
      else call_parts params clk cores kind count (is_partitioned_part pred xs)
        (\<lambda>v results. if v then False else sequential_is_partitioned results))"

definition is_partitioned_sequential :: "('a \<Rightarrow> bool) \<Rightarrow> 'a list \<Rightarrow> bool" where
  "is_partitioned_sequential pred xs \<longleftrightarrow> list_all (\<lambda>x. \<not> pred x) (dropWhile pred xs)"

section \<open>Parts that raise a flag\<close>

lemma plain_shape_pieces:
  assumes "shape_pre params cores (of_nat n) 1" "n < 2 ^ 63"
  obtains cs where "plain_shape params clk cores kind (of_nat n) = (ret (map drop_index cs) :: ('x, _) run)" "consecutive 0 0 cs (int n)"
proof -
  let ?F = "\<lambda>it part_size. ret (it, part_size) :: ('x, _) run"
  have n: "uint (of_nat n :: u64) = int n" using assms(2) by (rule uint_of_small)
  obtain xs p' tests rs n' where shape: "bulk_shape params clk cores kind ?F [] 0 (of_nat n) 1 = ret (map drop_index xs, p', [] @ rs, n')"
    and rs: "map (\<lambda>c. apply_chunk (\<lambda>b n i. ?F b n) c) tests = map ret rs" and cuts: "cuts 1 0 (of_nat n) tests xs"
    by (rule bulk_shape_cuts [OF assms(1), where clk = clk and kind = kind and items = "[]" and b = 0 and F = ?F]) auto
  have "map (\<lambda>c. apply_chunk (\<lambda>b n i. ?F b n) c) tests = map ret (map drop_index tests)"
    by (auto simp: apply_chunk_def drop_index_def)
  then have "rs = map drop_index tests" using rs by (simp only: map_ret_inj)
  then have "plain_shape params clk cores kind (of_nat n) = (ret (map drop_index (tests @ xs)) :: ('x, _) run)"
    using shape by (simp add: plain_shape_def)
  moreover have "consecutive 0 0 (tests @ xs) (int n)" using cuts n by (simp add: cuts_def next_pos_def)
  ultimately show thesis by (rule that)
qed

lemma range_Suc: "{it..<it + int (Suc count)} = insert it {it + 1..<it + 1 + int count}"
  by auto

lemma check_loop_wp:
  assumes "\<forall>i \<in> {it..<it + int count}. f () i = (if h i then flag_cancel else Return ())"
    and "seen \<or> W \<longrightarrow> Q True ()" "\<not> seen \<and> (\<forall>i \<in> {it..<it + int count}. \<not> h i) \<longrightarrow> Q False ()"
    and "\<forall>i \<in> {it..<it + int count}. h i \<longrightarrow> W"
  shows "flag_wp W (loop_n_with_token f () it count) seen Q"
  using assms
proof (induction count arbitrary: it seen)
  case (Suc count)
  note prems = Suc.prems [unfolded range_Suc]
  have "f () it = (if h it then flag_cancel else Return ())" "h it \<longrightarrow> W" using prems(1,4) by auto
  moreover have "flag_wp W (loop_n_with_token f () (it + 1) count) False Q" if "\<not> h it" "\<not> seen"
    by (rule Suc.IH) (use prems that in simp_all)
  moreover have "flag_wp W (loop_n_with_token f () (it + 1) count) True Q" if "W"
    by (rule Suc.IH) (use prems that in simp_all)
  ultimately show ?case using prems(2) by (simp add: flag_was_cancelled_def flag_cancel_def)
next
  case 0
  then show ?case by (cases seen) auto
qed

definition chunk_range :: "pos \<Rightarrow> u64 \<Rightarrow> int set" where
  "chunk_range p m = {p..<p + uint m}"

lemma parts_return:
  assumes "shape_pre params cores (of_nat n) 1" "n < 2 ^ 63"
    and "\<forall>p m. \<exists>B. bounded (part p m) B"
    and "\<And>cs. consecutive 0 0 cs (int n) \<Longrightarrow> \<exists>W Q. (\<forall>c \<in> set cs. flag_wp W (part (fst c) (fst (snd c))) False (Q c)) \<and>
      (\<forall>v rs. length rs = length cs \<and> (v \<longrightarrow> W) \<and> (\<forall>j < length cs. \<exists>seen. (seen \<longrightarrow> v) \<and> Q (cs ! j) seen (rs ! j)) \<longrightarrow> P cs (f2 v rs))"
  shows "\<exists>cs s. consecutive 0 0 cs (int n) \<and> plain_shape params clk cores kind (of_nat n) = (ret (map drop_index cs) :: ('x, _) run) \<and>
    call_parts params clk cores kind n part f2 = (ret s :: ('x, _) run) \<and> always_returns pred s (P cs)"
proof -
  obtain cs where cs: "plain_shape params clk cores kind (of_nat n) = (ret (map drop_index cs) :: ('x, _) run)" "consecutive 0 0 cs (int n)"
    using plain_shape_pieces [OF assms(1,2)] by blast
  let ?ps = "map (\<lambda>(it, part_size). part it part_size) (map drop_index cs)"
  obtain W Q where WQ: "\<forall>c \<in> set cs. flag_wp W (part (fst c) (fst (snd c))) False (Q c)"
    "\<forall>v rs. length rs = length cs \<and> (v \<longrightarrow> W) \<and> (\<forall>j < length cs. \<exists>seen. (seen \<longrightarrow> v) \<and> Q (cs ! j) seen (rs ! j)) \<longrightarrow> P cs (f2 v rs)"
    using assms(4) [OF cs(2)] by blast
  have "\<forall>p \<in> set ?ps. \<exists>N. bounded p N" using assms(3) by (auto simp: drop_index_def)
  moreover have "\<forall>j < length (map Q cs). flag_wp W (?ps ! j) False (map Q cs ! j)" using WQ(1) by (simp add: drop_index_def)
  ultimately have "all_runs pred (token_start False ?ps) (\<lambda>v rs. length rs = length (map Q cs) \<and> (v \<longrightarrow> W) \<and>
      (\<forall>j < length (map Q cs). \<exists>seen. (seen \<longrightarrow> v) \<and> (map Q cs ! j) seen (rs ! j)))"
    by (intro flag_runs) auto
  then have "all_runs pred (token_start False ?ps) (\<lambda>v rs. \<exists>r. Some (f2 v rs) = Some r \<and> P cs r)"
    by (rule all_runs_mono) (use WQ(2) in auto)
  then show ?thesis using cs by (intro exI [of _ cs]) (simp add: call_parts_def)
qed

lemma chunk_ranges:
  assumes "consecutive 0 0 cs (int n)"
  shows "(\<exists>i \<in> {0..<int n}. h i) \<longleftrightarrow> (\<exists>j < length cs. \<exists>i \<in> chunk_range (fst (cs ! j)) (fst (snd (cs ! j))). h i)"
proof
  assume "\<exists>i \<in> {0..<int n}. h i"
  then obtain i where i: "0 \<le> i" "i < int n" "h i" by auto
  then obtain p m k where "(p, m, k) \<in> set cs" "p \<le> i" "i < p + uint m" using consecutive_covers [OF assms i(1,2)] by auto
  then show "\<exists>j < length cs. \<exists>i \<in> chunk_range (fst (cs ! j)) (fst (snd (cs ! j))). h i"
    using i(3) by (metis (no_types, lifting) atLeastLessThan_iff chunk_range_def fst_conv in_set_conv_nth snd_conv)
next
  assume "\<exists>j < length cs. \<exists>i \<in> chunk_range (fst (cs ! j)) (fst (snd (cs ! j))). h i"
  then obtain j i where j: "j < length cs" "i \<in> chunk_range (fst (cs ! j)) (fst (snd (cs ! j)))" "h i" by blast
  obtain p m k where "cs ! j = (p, m, k)" by (cases "cs ! j")
  then have "(p, m, k) \<in> set cs" "i \<in> chunk_range p m" using j by (metis nth_mem, simp)
  then have "i \<in> {0..<int n}" using consecutive_inside [OF assms] by (fastforce simp: chunk_range_def)
  then show "\<exists>i \<in> {0..<int n}. h i" using j(3) by blast
qed

definition chunk_reports :: "(int \<Rightarrow> bool) \<Rightarrow> bool \<Rightarrow> nat \<Rightarrow> (pos \<Rightarrow> u64 \<Rightarrow> (bool, bool) prog) \<Rightarrow> bool" where
  "chunk_reports h hit n part \<longleftrightarrow> (\<forall>p m. 0 \<le> p \<and> m \<noteq> 0 \<and> p + uint m \<le> int n \<longrightarrow>
     flag_wp (\<exists>i \<in> {0..<int n}. h i) (part p m) False
       (\<lambda>seen r. ((\<exists>i \<in> chunk_range p m. h i) \<longrightarrow> r = hit) \<and> ((\<forall>i \<in> {0..<int n}. \<not> h i) \<longrightarrow> r \<noteq> hit)))"

lemma reports_return:
  assumes "search_pre params cores n" "\<forall>p m. \<exists>B. bounded (part p m) B" "chunk_reports h hit n part"
    and "\<And>rs. (\<exists>r \<in> set rs. r = hit) \<longleftrightarrow> (\<exists>i \<in> {0..<int n}. h i) \<Longrightarrow> P (f2 rs)"
  shows "\<exists>s. call_parts params clk cores kind n part (\<lambda>v. f2) = (ret s :: ('x, _) run) \<and> always_returns pred s P"
proof -
  have "\<exists>cs s. consecutive 0 0 cs (int n) \<and> plain_shape params clk cores kind (of_nat n) = (ret (map drop_index cs) :: ('x, _) run) \<and>
      call_parts params clk cores kind n part (\<lambda>v. f2) = (ret s :: ('x, _) run) \<and> always_returns pred s ((\<lambda>cs. P) cs)"
  proof (rule parts_return)
    fix cs assume cs: "consecutive 0 0 cs (int n)"
    let ?W = "\<exists>i \<in> {0..<int n}. h i"
    let ?Q = "\<lambda>c seen r. ((\<exists>i \<in> chunk_range (fst c) (fst (snd c)). h i) \<longrightarrow> r = hit) \<and> (\<not> ?W \<longrightarrow> r \<noteq> hit)"
    have "flag_wp ?W (part (fst c) (fst (snd c))) False (?Q c)" if "c \<in> set cs" for c
      using assms(3) consecutive_inside [OF cs, of "fst c" "fst (snd c)" "snd (snd c)"] that by (auto simp: chunk_reports_def)
    moreover have "P (f2 rs)" if rs: "length rs = length cs" "\<forall>j < length cs. ?Q (cs ! j) seen (rs ! j)" for seen rs
    proof (rule assms(4))
      show "(\<exists>r \<in> set rs. r = hit) \<longleftrightarrow> ?W"
      proof
        assume "\<exists>r \<in> set rs. r = hit"
        then obtain j where "j < length cs" "rs ! j = hit" using rs(1) by (auto simp: in_set_conv_nth)
        then show ?W using rs(2) by blast
      next
        assume ?W
        then obtain j where "j < length cs" "\<exists>i \<in> chunk_range (fst (cs ! j)) (fst (snd (cs ! j))). h i"
          using chunk_ranges [OF cs, of h] by blast
        then have "j < length rs" "rs ! j = hit" using rs by auto
        then show "\<exists>r \<in> set rs. r = hit" using nth_mem by blast
      qed
    qed
    ultimately show "\<exists>W Q. (\<forall>c \<in> set cs. flag_wp W (part (fst c) (fst (snd c))) False (Q c)) \<and>
        (\<forall>v rs. length rs = length cs \<and> (v \<longrightarrow> W) \<and> (\<forall>j < length cs. \<exists>seen. (seen \<longrightarrow> v) \<and> Q (cs ! j) seen (rs ! j)) \<longrightarrow> P (f2 rs))"
      by (intro exI [of _ ?W] exI [of _ ?Q]) auto
  qed (use assms(1,2) in \<open>auto simp: search_pre_def\<close>)
  then show ?thesis by blast
qed

lemma check_part_reports:
  assumes "\<forall>i \<in> {0..<int n}. f () i = (if h i then flag_cancel else Return ())"
  shows "chunk_reports h False n (\<lambda>p m. prog_bind (loop_n_with_token f () p (unat m)) (\<lambda>_. not_cancelled))"
    and "chunk_reports h True n (\<lambda>p m. prog_bind (loop_n_with_token f () p (unat m)) (\<lambda>_. flag_was_cancelled))"
  unfolding chunk_reports_def flag_wp_bind
  by (intro allI impI check_loop_wp [where h = h];
      use assms in \<open>auto simp: not_cancelled_def flag_was_cancelled_def chunk_range_def\<close>)+

lemma bounded_bindI: "\<exists>m. bounded p m \<Longrightarrow> \<forall>r. bounded (k r) n \<Longrightarrow> \<exists>n. bounded (prog_bind p k) n"
  using bounded_bind by blast

lemma check_part_bounded:
  assumes "\<forall>s it. bounded (f s it) B"
  shows "\<exists>B. bounded (prog_bind (loop_n_with_token f s p m) (\<lambda>_. not_cancelled)) B"
    "\<exists>B. bounded (prog_bind (loop_n_with_token f s p m) (\<lambda>_. flag_was_cancelled)) B"
  using loop_n_bounded(1) [OF assms] by (auto simp: not_cancelled_def flag_was_cancelled_def intro!: bounded_bindI [where n = 1])

lemma int_range: "{0..<int n} = int ` {0..<n}"
  by (rule image_int_atLeastLessThan [symmetric, where a = 0, simplified])

lemma ball_int: "(\<forall>i \<in> {0..<int n}. P i) \<longleftrightarrow> (\<forall>i < n. P (int i))"
  unfolding int_range by auto

lemma set_range: "set xs = (\<lambda>i. xs ! nat i) ` {0..<int (length xs)}"
  by (simp add: int_range image_image nth_image)

lemma deref_range: "i \<in> {0..<int (length xs)} \<Longrightarrow> deref xs i = Some (xs ! nat i)"
  by (auto simp: deref_def)

lemma check_returns:
  assumes "search_pre params cores n" "\<forall>i \<in> {0..<int n}. f () i = (if h i then flag_cancel else Return ())"
    and "\<forall>s it. bounded (f s it) 1"
  shows "\<exists>s. call_parts params clk cores kind n (\<lambda>p m. prog_bind (loop_n_with_token f () p (unat m)) (\<lambda>_. not_cancelled))
      (\<lambda>v results. list_all (\<lambda>r. r) results) = (ret s :: ('x, _) run) \<and> always_returns pred s (\<lambda>r. r \<longleftrightarrow> (\<forall>i \<in> {0..<int n}. \<not> h i))"
    and "\<exists>s. call_parts params clk cores kind n (\<lambda>p m. prog_bind (loop_n_with_token f () p (unat m)) (\<lambda>_. flag_was_cancelled))
      (\<lambda>v results. list_ex (\<lambda>r. r) results) = (ret s :: ('x, _) run) \<and> always_returns pred s (\<lambda>r. r \<longleftrightarrow> (\<exists>i \<in> {0..<int n}. h i))"
proof -
  show "\<exists>s. call_parts params clk cores kind n (\<lambda>p m. prog_bind (loop_n_with_token f () p (unat m)) (\<lambda>_. not_cancelled))
      (\<lambda>v results. list_all (\<lambda>r. r) results) = (ret s :: ('x, _) run) \<and> always_returns pred s (\<lambda>r. r \<longleftrightarrow> (\<forall>i \<in> {0..<int n}. \<not> h i))"
    by (rule reports_return [OF assms(1) _ check_part_reports(1) [where f = f and h = h, OF assms(2)]])
      (auto intro: check_part_bounded [OF assms(3)] simp: list_all_iff)
  show "\<exists>s. call_parts params clk cores kind n (\<lambda>p m. prog_bind (loop_n_with_token f () p (unat m)) (\<lambda>_. flag_was_cancelled))
      (\<lambda>v results. list_ex (\<lambda>r. r) results) = (ret s :: ('x, _) run) \<and> always_returns pred s (\<lambda>r. r \<longleftrightarrow> (\<exists>i \<in> {0..<int n}. h i))"
    by (rule reports_return [OF assms(1) _ check_part_reports(2) [where f = f and h = h, OF assms(2)]])
      (auto intro: check_part_bounded [OF assms(3)] simp: list_ex_iff)
qed

lemma none_of_parallel_correct:
  assumes "xs = [] \<or> search_pre params cores (length xs)"
  shows "\<exists>s. none_of_parallel params clk cores kind xs op = (ret s :: ('x, _) run) \<and>
    always_returns pred s (\<lambda>r. r \<longleftrightarrow> (\<forall>x \<in> set xs. \<not> op x))"
proof (cases "xs = []")
  case False
  have "\<forall>i \<in> {0..<int (length xs)}. none_of_body op xs () i = (if op (xs ! nat i) then flag_cancel else Return ())"
    "\<forall>s it. bounded (none_of_body op xs s it) 1"
    by (auto simp: none_of_body_def deref_range flag_cancel_def intro!: bounded_option)
  then show ?thesis using False assms check_returns(1) [where f = "none_of_body op xs" and h = "\<lambda>i. op (xs ! nat i)"]
    by (simp add: none_of_parallel_def set_range [of xs])
qed (simp add: none_of_parallel_def)

lemma any_of_parallel_correct:
  assumes "xs = [] \<or> search_pre params cores (length xs)"
  shows "\<exists>s. any_of_parallel params clk cores kind xs op = (ret s :: ('x, _) run) \<and>
    always_returns pred s (\<lambda>r. r \<longleftrightarrow> (\<exists>x \<in> set xs. op x))"
proof (cases "xs = []")
  case False
  have "\<forall>i \<in> {0..<int (length xs)}. any_of_body op xs () i = (if op (xs ! nat i) then flag_cancel else Return ())"
    "\<forall>s it. bounded (any_of_body op xs s it) 1"
    by (auto simp: any_of_body_def deref_range flag_cancel_def intro!: bounded_option)
  then show ?thesis using False assms check_returns(2) [where f = "any_of_body op xs" and h = "\<lambda>i. op (xs ! nat i)"]
    by (simp add: any_of_parallel_def set_range [of xs])
qed (simp add: any_of_parallel_def)

lemma all_of_parallel_correct:
  assumes "xs = [] \<or> search_pre params cores (length xs)"
  shows "\<exists>s. all_of_parallel params clk cores kind xs op = (ret s :: ('x, _) run) \<and>
    always_returns pred s (\<lambda>r. r \<longleftrightarrow> (\<forall>x \<in> set xs. op x))"
proof (cases "xs = []")
  case False
  have "\<forall>i \<in> {0..<int (length xs)}. all_of_body op xs () i = (if \<not> op (xs ! nat i) then flag_cancel else Return ())"
    "\<forall>s it. bounded (all_of_body op xs s it) 1"
    by (auto simp: all_of_body_def deref_range flag_cancel_def intro!: bounded_option)
  then show ?thesis using False assms check_returns(1) [where f = "all_of_body op xs" and h = "\<lambda>i. \<not> op (xs ! nat i)"]
    by (simp add: all_of_parallel_def set_range [of xs])
qed (simp add: all_of_parallel_def)

lemma sequential_equal_binary_iff:
  "sequential_equal_binary f xs ys \<longleftrightarrow> length xs = length ys \<and> (\<forall>i \<in> {0..<int (length xs)}. f (xs ! nat i) (ys ! nat i))"
proof -
  have "sequential_equal_binary f xs ys \<longleftrightarrow> list_all2 f xs ys"
    by (induction f xs ys rule: sequential_equal_binary.induct) auto
  moreover have "(\<forall>i < length xs. f (xs ! i) (ys ! i)) \<longleftrightarrow> (\<forall>i \<in> {0..<int (length xs)}. f (xs ! nat i) (ys ! nat i))"
    by (simp add: ball_int)
  ultimately show ?thesis by (auto simp: list_all2_conv_all_nth)
qed

lemma equal_binary_parallel_correct:
  assumes "xs = [] \<or> search_pre params cores (length xs)"
  shows "\<exists>s. equal_binary_parallel params clk cores kind xs ys f = (ret s :: ('x, _) run) \<and>
    always_returns pred s (\<lambda>r. r = sequential_equal_binary f xs ys)"
proof (cases "xs = [] \<or> length xs \<noteq> length ys")
  case False
  have "\<forall>i \<in> {0..<int (length xs)}. equal_binary_body f xs ys () i = (if \<not> f (xs ! nat i) (ys ! nat i) then flag_cancel else Return ())"
    "\<forall>s it. bounded (equal_binary_body f xs ys s it) 1"
    using False by (auto simp: equal_binary_body_def deref_range flag_cancel_def intro!: bounded_option)
  then show ?thesis
    using False assms check_returns(1) [where f = "equal_binary_body f xs ys" and h = "\<lambda>i. \<not> f (xs ! nat i) (ys ! nat i)" and n = "length xs"]
    by (cases "ys = []") (simp_all add: equal_binary_parallel_def sequential_equal_binary_iff Let_def)
qed (auto simp: equal_binary_parallel_def sequential_equal_binary_iff Let_def)

lemma equal_from_parallel_correct:
  assumes "xs = [] \<or> search_pre params cores (length xs)" "length xs \<le> length ys"
  shows "\<exists>s. equal_from_parallel params clk cores kind xs ys f = (ret s :: ('x, _) run) \<and>
    always_returns pred s (\<lambda>r. r = sequential_equal_binary f xs (take (length xs) ys))"
proof (cases "xs = []")
  case False
  have "\<forall>i \<in> {0..<int (length xs)}. equal_binary_body f xs ys () i = (if \<not> f (xs ! nat i) (ys ! nat i) then flag_cancel else Return ())"
    "\<forall>s it. bounded (equal_binary_body f xs ys s it) 1"
    using assms(2) by (auto simp: equal_binary_body_def deref_range flag_cancel_def intro!: bounded_option)
  moreover have eq: "sequential_equal_binary f xs (take (length xs) ys) \<longleftrightarrow>
      (\<forall>i \<in> {0..<int (length xs)}. f (xs ! nat i) (ys ! nat i))"
    using assms(2) by (simp add: sequential_equal_binary_iff ball_int)
  ultimately show ?thesis
    using False assms check_returns(1) [where f = "equal_binary_body f xs ys" and h = "\<lambda>i. \<not> f (xs ! nat i) (ys ! nat i)" and n = "length xs"]
    by (simp add: equal_from_parallel_def eq)
qed (simp add: equal_from_parallel_def)

section \<open>Sorted ranges\<close>

definition descends :: "('a \<Rightarrow> 'a \<Rightarrow> bool) \<Rightarrow> 'a list \<Rightarrow> int \<Rightarrow> bool" where
  "descends pred xs i \<longleftrightarrow> i + 1 < int (length xs) \<and> pred (xs ! nat (i + 1)) (xs ! nat i)"

lemma is_sorted_loop_wp:
  assumes "0 \<le> trail" "trail + int count < int (length xs)"
    and "\<forall>i \<in> {trail..<trail + int count}. descends pred xs i \<longrightarrow> W" "seen \<longrightarrow> W"
    and "W \<longrightarrow> Q True (trail + int count)"
    and "\<not> seen \<and> (\<forall>i \<in> {trail..<trail + int count}. \<not> descends pred xs i) \<longrightarrow> Q False (trail + int count)"
  shows "flag_wp W (loop_n_plain (is_sorted_body pred xs) trail (trail + 1) count) seen Q"
  using assms
proof (induction count arbitrary: trail seen)
  case 0
  then show ?case by (cases seen) auto
next
  case (Suc count)
  have eq: "trail + int (Suc count) = trail + 1 + int count" by simp
  note prems = Suc.prems [unfolded range_Suc, unfolded eq]
  have d: "deref xs trail = Some (xs ! nat trail)" "deref xs (trail + 1) = Some (xs ! nat (trail + 1))"
    using prems(1,2) by (auto simp: deref_def)
  have trail: "descends pred xs trail \<longleftrightarrow> pred (xs ! nat (trail + 1)) (xs ! nat trail)"
    using prems(2) by (simp add: descends_def)
  have "flag_wp W (loop_n_plain (is_sorted_body pred xs) (trail + 1) (trail + 1 + 1) count) False Q"
    if "\<not> descends pred xs trail" "\<not> seen"
    by (rule Suc.IH) (use prems that in simp_all)
  moreover have "flag_wp W (loop_n_plain (is_sorted_body pred xs) (trail + 1) (trail + 1 + 1) count) True Q" if "W"
    by (rule Suc.IH) (use prems that in simp_all)
  moreover have "is_sorted_body pred xs trail (trail + 1) =
      prog_bind (if descends pred xs trail then flag_cancel else Return ()) (\<lambda>_. Return (trail + 1))"
    using d trail by (simp add: is_sorted_body_def)
  ultimately show ?case using prems(3,4) by (cases seen) (auto simp: flag_cancel_def)
qed

lemma is_sorted_part_reports: "chunk_reports (descends pred xs) False (length xs) (is_sorted_part pred xs)"
  unfolding chunk_reports_def
proof (intro allI impI)
  fix p and m :: u64
  assume a: "0 \<le> p \<and> m \<noteq> 0 \<and> p + uint m \<le> int (length xs)"
  let ?W = "\<exists>i \<in> {0..<int (length xs)}. descends pred xs i"
  let ?e = "p + int (unat (m - 1))"
  have m: "int (unat (m - 1)) = uint m - 1" using a uint_pos_iff [of m] by (simp add: unat_minus_one of_nat_diff Suc_leI unat_gt_0)
  have range: "chunk_range p m = insert ?e {p..<?e}" using m a uint_pos_iff [of m] by (auto simp: chunk_range_def)
  have e: "?e \<in> {0..<int (length xs)}" using a m uint_pos_iff [of m] by auto
  have last: "descends pred xs ?e \<longleftrightarrow> ?e + 1 \<noteq> int (length xs) \<and> pred (xs ! nat (?e + 1)) (xs ! nat ?e)"
    using e by (auto simp: descends_def)
  have d: "deref xs ?e = Some (xs ! nat ?e)" "?e + 1 \<noteq> int (length xs) \<Longrightarrow> deref xs (?e + 1) = Some (xs ! nat (?e + 1))"
    using e by (auto simp: deref_def)
  let ?Q = "\<lambda>seen r. ((\<exists>i \<in> chunk_range p m. descends pred xs i) \<longrightarrow> r = False) \<and>
    ((\<forall>i \<in> {0..<int (length xs)}. \<not> descends pred xs i) \<longrightarrow> r \<noteq> False)"
  show "flag_wp ?W (is_sorted_part pred xs p m) False ?Q"
    unfolding is_sorted_part_def flag_wp_bind
  proof (rule is_sorted_loop_wp)
    show "\<forall>i \<in> {p..<p + int (unat (m - 1))}. descends pred xs i \<longrightarrow> ?W" using a e by auto
  qed (use a e last d range in \<open>auto simp: Let_def flag_was_cancelled_def not_cancelled_def\<close>)
qed

lemma is_sorted_sequential_iff:
  "is_sorted_sequential pred xs \<longleftrightarrow> (\<forall>i \<in> {0..<int (length xs)}. \<not> descends pred xs i)"
proof -
  have "is_sorted_sequential pred xs \<longleftrightarrow> (\<forall>i. Suc i < length xs \<longrightarrow> \<not> pred (xs ! Suc i) (xs ! i))"
    by (induction pred xs rule: is_sorted_sequential.induct) (auto simp: less_Suc_eq_0_disj)
  moreover have "descends pred xs (int i) \<longleftrightarrow> Suc i < length xs \<and> pred (xs ! Suc i) (xs ! i)" for i
    by (auto simp: descends_def nat_add_distrib)
  ultimately show ?thesis by (auto simp: ball_int)
qed

lemma is_sorted_part_bounded: "\<exists>B. bounded (is_sorted_part pred xs p m) B"
proof -
  have "\<forall>s it. bounded (is_sorted_body pred xs s it) 1"
    by (auto simp: is_sorted_body_def flag_cancel_def intro!: bounded_option)
  then show ?thesis unfolding is_sorted_part_def
    by (intro bounded_bindI [where n = 2])
      (auto simp: Let_def flag_was_cancelled_def not_cancelled_def intro: loop_n_bounded intro!: bounded_option)
qed

text \<open>C18: In every interleaving of its tasks, a parallel \<open>is_sorted\<close> ends without undefined behaviour and answers as
  the sequential one; pairs of neighbours in different chunks are compared, too.\<close>

theorem is_sorted_parallel_correct:
  assumes "length xs \<le> 1 \<or> search_pre params cores (length xs)"
  shows "\<exists>s. is_sorted_parallel params clk cores kind xs cmp = (ret s :: ('x, _) run) \<and>
    always_returns pred s (\<lambda>r. r = is_sorted_sequential cmp xs)"
proof (cases "length xs \<le> 1")
  case True
  then have "is_sorted_sequential cmp xs" by (cases "(cmp, xs)" rule: is_sorted_sequential.cases) auto
  then show ?thesis using True by (simp add: is_sorted_parallel_def)
next
  case False
  have "\<exists>s. call_parts params clk cores kind (length xs) (is_sorted_part cmp xs) (\<lambda>v results. list_all (\<lambda>r. r) results) =
      (ret s :: ('x, _) run) \<and> always_returns pred s (\<lambda>r. r = is_sorted_sequential cmp xs)"
    by (rule reports_return [OF _ _ is_sorted_part_reports])
      (use assms False is_sorted_part_bounded in \<open>auto simp: list_all_iff is_sorted_sequential_iff\<close>)
  then show ?thesis using False by (simp add: is_sorted_parallel_def Let_def)
qed

lemma is_sorted_parallel_correct_witness:
  "\<exists>s. is_sorted_parallel (Static_Chunk_Size 2) (0, 0) 1 Integral_Type [1, 2, 0 :: int] (<) = (ret s :: (unit, _) run) \<and>
    always_returns (\<lambda>u v. False) s (\<lambda>r. \<not> r)"
  using is_sorted_parallel_correct [of "[1, 2, 0 :: int]" "Static_Chunk_Size 2" 1 "(0, 0)" Integral_Type "(<)" "\<lambda>u v. False"]
  by (simp add: search_pre_def shape_pre_def times_chunks_def)

section \<open>Partitioned ranges\<close>

definition chunk_of :: "'a list \<Rightarrow> pos \<Rightarrow> u64 \<Rightarrow> 'a list" where
  "chunk_of xs p m = take (unat m) (drop (nat p) xs)"

lemma is_partitioned_loop_wp:
  assumes "\<forall>k < length ys. deref xs (it + int k) = Some (ys ! k)"
    and "seen \<longrightarrow> W" "\<not> is_partitioned_sequential (\<lambda>b. b) (b # map pred ys) \<longrightarrow> W"
    and "W \<longrightarrow> (\<forall>r. Q True r)"
    and "\<not> seen \<and> is_partitioned_sequential (\<lambda>b. b) (b # map pred ys) \<longrightarrow> Q False (last (b # map pred ys))"
  shows "flag_wp W (loop_n_with_token (is_partitioned_body pred xs) b it (length ys)) seen Q"
  using assms
proof (induction ys arbitrary: it b seen)
  case Nil
  then show ?case by (cases seen) (auto simp: is_partitioned_sequential_def split: if_splits)
next
  case (Cons y ys)
  have y: "deref xs it = Some y" using Cons.prems(1) by force
  have ys: "\<forall>k < length ys. deref xs (it + 1 + int k) = Some (ys ! k)"
  proof (intro allI impI)
    fix k assume "k < length ys"
    then show "deref xs (it + 1 + int k) = Some (ys ! k)" using Cons.prems(1) [rule_format, of "Suc k"] by (simp add: algebra_simps)
  qed
  have "flag_wp W (loop_n_with_token (is_partitioned_body pred xs) b' (it + 1) (length ys)) True Q" if W for b'
    by (rule Cons.IH) (use Cons.prems(4) ys that in auto)
  moreover have "flag_wp W (loop_n_with_token (is_partitioned_body pred xs) (pred y) (it + 1) (length ys)) False Q"
    if "b \<or> \<not> pred y" "\<not> seen"
    using that
    by (intro Cons.IH; cases b; cases "pred y"; use Cons.prems ys in \<open>auto simp: is_partitioned_sequential_def\<close>)
  moreover have "W" if "\<not> b" "pred y" using Cons.prems(3) that by (simp add: is_partitioned_sequential_def)
  moreover have "is_partitioned_body pred xs b it = (if b \<or> \<not> pred y then Return (pred y)
      else prog_bind flag_cancel (\<lambda>_. Return b))"
    using y by (auto simp: is_partitioned_body_def)
  ultimately show ?case using Cons.prems(2,4)
    by (cases "b \<or> \<not> pred y"; cases seen) (auto simp: flag_was_cancelled_def flag_cancel_def)
qed

lemma partitioned_sorted: "is_partitioned_sequential p xs \<longleftrightarrow> sorted_wrt (\<lambda>x y. p y \<longrightarrow> p x) xs"
proof (induction xs)
  case (Cons x xs)
  have "list_all (\<lambda>x. \<not> p x) xs \<Longrightarrow> is_partitioned_sequential p xs"
    by (auto simp: is_partitioned_sequential_def list_all_iff dest: set_dropWhileD)
  then show ?case using Cons by (cases "p x") (auto simp: is_partitioned_sequential_def list_all_iff)
qed (simp add: is_partitioned_sequential_def)

lemma sequential_is_partitioned_iff: "sequential_is_partitioned rs \<longleftrightarrow> is_partitioned_sequential (\<lambda>r. r) rs"
  by (induction rs) (auto simp: sequential_is_partitioned_def is_partitioned_sequential_def)

lemma partitioned_map: "is_partitioned_sequential (\<lambda>r. r) (map p xs) \<longleftrightarrow> is_partitioned_sequential p xs"
  by (simp add: partitioned_sorted sorted_wrt_map)

lemma partitioned_concat:
  "[] \<notin> set L \<Longrightarrow> is_partitioned_sequential p (concat L) \<Longrightarrow>
    (\<forall>c \<in> set L. is_partitioned_sequential p c) \<and> sequential_is_partitioned (map (\<lambda>c. p (last c)) L)"
  unfolding partitioned_sorted sequential_is_partitioned_iff sorted_wrt_map
proof (induction L)
  case (Cons c L)
  moreover have "last d \<in> set (concat L)" if "d \<in> set L" for d
  proof -
    have "d \<noteq> []" using that Cons.prems(1) by auto
    then show ?thesis using that last_in_set by auto
  qed
  ultimately show ?case by (auto simp: sorted_wrt_append)
qed simp

text \<open>
  What \<open>is_partitioned\<close> answers: whether all chunks are partitioned and so are their last values.
\<close>

definition chunks_partitioned :: "('a \<Rightarrow> bool) \<Rightarrow> 'a list \<Rightarrow> (pos \<times> u64) list \<Rightarrow> bool" where
  "chunks_partitioned pred xs shapes \<longleftrightarrow> (\<forall>(p, m) \<in> set shapes. is_partitioned_sequential pred (chunk_of xs p m)) \<and>
     sequential_is_partitioned (map (\<lambda>(p, m). pred (last (chunk_of xs p m))) shapes)"

lemma chunk_of_Cons:
  assumes "0 \<le> p" "m \<noteq> 0" "p + uint m \<le> int (length xs)"
  obtains y ys where "chunk_of xs p m = y # ys" "length ys = unat (m - 1)" "deref xs p = Some y"
    "\<forall>k < length ys. deref xs (p + 1 + int k) = Some (ys ! k)"
proof -
  have le: "nat p + unat m \<le> length xs" using assms uint_nat [of m] by linarith
  have pos: "0 < unat m" using assms(2) by (simp add: unat_gt_0)
  then obtain y ys where c: "chunk_of xs p m = y # ys" using le by (cases "chunk_of xs p m") (auto simp: chunk_of_def)
  have len: "length (chunk_of xs p m) = unat m" using le by (simp add: chunk_of_def)
  have nth: "deref xs (p + int k) = Some (chunk_of xs p m ! k)" if "k < unat m" for k
    using that le assms(1) by (auto simp: deref_def chunk_of_def nat_add_distrib)
  show thesis
  proof (rule that [OF c])
    show "length ys = unat (m - 1)" using len c assms(2) by (simp add: unat_minus_one)
    show "deref xs p = Some y" using nth [of 0] pos c by simp
    show "\<forall>k < length ys. deref xs (p + 1 + int k) = Some (ys ! k)"
      using nth [of "Suc _"] len c by (auto simp: algebra_simps)
  qed
qed

lemma is_partitioned_part_wp:
  assumes "0 \<le> p" "m \<noteq> 0" "p + uint m \<le> int (length xs)" "\<not> is_partitioned_sequential pred (chunk_of xs p m) \<longrightarrow> W"
  shows "flag_wp W (is_partitioned_part pred xs p m) False
    (\<lambda>seen r. (\<not> is_partitioned_sequential pred (chunk_of xs p m) \<longrightarrow> seen) \<and> (\<not> W \<longrightarrow> r = pred (last (chunk_of xs p m))))"
proof -
  obtain y ys where c: "chunk_of xs p m = y # ys" "length ys = unat (m - 1)" "deref xs p = Some y"
    "\<forall>k < length ys. deref xs (p + 1 + int k) = Some (ys ! k)"
    by (rule chunk_of_Cons [OF assms(1-3)])
  have part: "is_partitioned_sequential (\<lambda>b. b) (pred y # map pred ys) \<longleftrightarrow> is_partitioned_sequential pred (y # ys)"
    using partitioned_map [of pred "y # ys"] by simp
  have last: "last (pred y # map pred ys) = pred (last (y # ys))" by (simp add: last_map)
  show ?thesis
  proof (cases "m = 1")
    case True
    then have "ys = []" using c(2) by simp
    then show ?thesis using True c by (simp add: is_partitioned_part_def is_partitioned_sequential_def)
  next
    case False
    have "flag_wp W (loop_n_with_token (is_partitioned_body pred xs) (pred y) (p + 1) (length ys)) False
      (\<lambda>seen r. (\<not> is_partitioned_sequential pred (y # ys) \<longrightarrow> seen) \<and> (\<not> W \<longrightarrow> r = pred (last (y # ys))))"
      using assms(4) c(1) by (intro is_partitioned_loop_wp [OF c(4)]) (auto simp: part simp flip: last simp del: last.simps)
    then show ?thesis using False c by (simp add: is_partitioned_part_def Let_def)
  qed
qed

lemma is_partitioned_part_bounded: "\<exists>B. bounded (is_partitioned_part pred xs p m) B"
proof -
  have "\<forall>b it. bounded (is_partitioned_body pred xs b it) 1"
    by (auto simp: is_partitioned_body_def flag_cancel_def intro!: bounded_option)
  then have "bounded (is_partitioned_part pred xs p m) (unat (m - 1) * Suc 1)" unfolding is_partitioned_part_def
    by (intro bounded_option) (auto simp: Let_def simp del: mult_Suc_right intro: loop_n_bounded(1))
  then show ?thesis by blast
qed

lemma is_partitioned_parallel_result:
  assumes "search_pre params cores (length xs)" "1 < length xs"
  shows "\<exists>cs s. consecutive 0 0 cs (int (length xs)) \<and>
    plain_shape params clk cores kind (of_nat (length xs)) = (ret (map drop_index cs) :: ('x, _) run) \<and>
    is_partitioned_parallel params clk cores kind xs f = (ret s :: ('x, _) run) \<and>
    always_returns pred s (\<lambda>r. r = chunks_partitioned f xs (map drop_index cs))"
proof -
  let ?part = "\<lambda>c. is_partitioned_sequential f (chunk_of xs (fst c) (fst (snd c)))"
  let ?last = "\<lambda>c. f (last (chunk_of xs (fst c) (fst (snd c))))"
  have "\<exists>cs s. consecutive 0 0 cs (int (length xs)) \<and>
    plain_shape params clk cores kind (of_nat (length xs)) = (ret (map drop_index cs) :: ('x, _) run) \<and>
    call_parts params clk cores kind (length xs) (is_partitioned_part f xs)
      (\<lambda>v results. if v then False else sequential_is_partitioned results) = (ret s :: ('x, _) run) \<and>
    always_returns pred s ((\<lambda>cs r. r = chunks_partitioned f xs (map drop_index cs)) cs)"
  proof (rule parts_return)
    fix cs assume cs: "consecutive 0 0 cs (int (length xs))"
    let ?W = "\<exists>c \<in> set cs. \<not> ?part c"
    let ?Q = "\<lambda>c seen r. (\<not> ?part c \<longrightarrow> seen) \<and> (\<not> ?W \<longrightarrow> r = ?last c)"
    have all: "chunks_partitioned f xs (map drop_index cs) \<longleftrightarrow> \<not> ?W \<and> sequential_is_partitioned (map ?last cs)"
      by (auto simp: chunks_partitioned_def drop_index_def comp_def)
    have "flag_wp ?W (is_partitioned_part f xs (fst c) (fst (snd c))) False (?Q c)" if "c \<in> set cs" for c
      using consecutive_inside [OF cs, of "fst c" "fst (snd c)" "snd (snd c)"] that
      by (intro is_partitioned_part_wp) auto
    moreover have "(if v then False else sequential_is_partitioned rs) = chunks_partitioned f xs (map drop_index cs)"
      if rs: "length rs = length cs" "v \<longrightarrow> ?W" "\<forall>j < length cs. \<exists>seen. (seen \<longrightarrow> v) \<and> ?Q (cs ! j) seen (rs ! j)" for v rs
    proof (cases ?W)
      case True
      then obtain j where "j < length cs" "\<not> ?part (cs ! j)" by (auto simp: in_set_conv_nth)
      then have v using rs(3) by blast
      then show ?thesis using all True by simp
    next
      case False
      then have "rs = map ?last cs" using rs by (intro nth_equalityI) auto
      then show ?thesis using False all rs(2) by auto
    qed
    ultimately show "\<exists>W Q. (\<forall>c \<in> set cs. flag_wp W (is_partitioned_part f xs (fst c) (fst (snd c))) False (Q c)) \<and>
        (\<forall>v rs. length rs = length cs \<and> (v \<longrightarrow> W) \<and> (\<forall>j < length cs. \<exists>seen. (seen \<longrightarrow> v) \<and> Q (cs ! j) seen (rs ! j)) \<longrightarrow>
          (if v then False else sequential_is_partitioned rs) = chunks_partitioned f xs (map drop_index cs))"
      by (intro exI [of _ ?W] exI [of _ ?Q]) blast
  qed (use assms(1) is_partitioned_part_bounded in \<open>auto simp: search_pre_def\<close>)
  then show ?thesis using assms(2) by (simp add: is_partitioned_parallel_def Let_def)
qed

text \<open>In every interleaving of its tasks, a parallel \<open>is_partitioned\<close> ends, and it answers yes exactly if every chunk is
  partitioned and so is the list of the values of the predicate at the last elements of the chunks.\<close>

lemma is_partitioned_parallel_outcome:
  assumes "search_pre params cores (length xs)" "1 < length xs"
  shows "\<exists>cs s. consecutive 0 0 cs (int (length xs)) \<and>
    plain_shape params clk cores kind (of_nat (length xs)) = (ret (map drop_index cs) :: ('x, _) run) \<and>
    is_partitioned_parallel params clk cores kind xs f = (ret s :: ('x, _) run) \<and>
    always_returns pred s (\<lambda>r. r = chunks_partitioned f xs (map drop_index cs))"
  using assms by (rule is_partitioned_parallel_result)

text \<open>So a range that is partitioned is accepted.\<close>

lemma is_partitioned_parallel_accepts:
  assumes "length xs \<le> 1 \<or> search_pre params cores (length xs)" "is_partitioned_sequential f xs"
  shows "\<exists>s. is_partitioned_parallel params clk cores kind xs f = (ret s :: ('x, _) run) \<and> always_returns pred s (\<lambda>r. r)"
proof (cases "length xs \<le> 1")
  case False
  then obtain cs s where cs: "consecutive 0 0 cs (int (length xs))"
    "is_partitioned_parallel params clk cores kind xs f = (ret s :: ('x, _) run)"
    "always_returns pred s (\<lambda>r. r = chunks_partitioned f xs (map drop_index cs))"
    using is_partitioned_parallel_result [of params cores xs clk kind f pred] assms(1) by auto
  have p: "pieces xs cs = map (\<lambda>c. chunk_of xs (fst c) (fst (snd c))) cs"
    by (auto simp: pieces_def chunk_of_def)
  have "concat (pieces xs cs) = xs" "[] \<notin> set (pieces xs cs)" using pieces_cut [OF cs(1)] by auto
  then have "chunks_partitioned f xs (map drop_index cs)"
    using partitioned_concat [of "pieces xs cs" f] assms(2) by (auto simp: chunks_partitioned_def drop_index_def p comp_def)
  then show ?thesis using cs(2,3) by simp
qed (simp add: is_partitioned_parallel_def)

text \<open>But a range that is not may be accepted, too, since the result of a chunk does not tell how the chunk begins.\<close>

lemma is_partitioned_forgets_first:
  "(\<exists>s. is_partitioned_parallel (Static_Chunk_Size 2) (0, 0) 1 Integral_Type [False, False, True, False] (\<lambda>b. b) = (ret s :: (unit, _) run) \<and>
    always_returns pred s (\<lambda>r. r)) \<and> \<not> is_partitioned_sequential (\<lambda>b. b) [False, False, True, False]"
proof
  let ?xs = "[False, False, True, False]"
  have shape: "plain_shape (Static_Chunk_Size 2) (0, 0) 1 Integral_Type 4 = (ret [(0, 2), (2, 2)] :: (unit, _) run)" by code_simp
  have "search_pre (Static_Chunk_Size 2) 1 (length ?xs)" by (simp add: search_pre_def shape_pre_def times_chunks_def)
  then obtain cs s where cs: "plain_shape (Static_Chunk_Size 2) (0, 0) 1 Integral_Type (of_nat (length ?xs)) = (ret (map drop_index cs) :: (unit, _) run)"
    "is_partitioned_parallel (Static_Chunk_Size 2) (0, 0) 1 Integral_Type ?xs (\<lambda>b. b) = (ret s :: (unit, _) run)"
    "always_returns pred s (\<lambda>r. r = chunks_partitioned (\<lambda>b. b) ?xs (map drop_index cs))"
    using is_partitioned_parallel_result [of "Static_Chunk_Size 2" 1 ?xs "(0, 0)" Integral_Type "\<lambda>b. b" pred] by auto
  have "map drop_index cs = [(0, 2), (2, 2)]" using cs(1) shape by simp
  moreover have "chunks_partitioned (\<lambda>b. b) ?xs [(0, 2), (2, 2)]" by code_simp
  ultimately show "\<exists>s. is_partitioned_parallel (Static_Chunk_Size 2) (0, 0) 1 Integral_Type ?xs (\<lambda>b. b) = (ret s :: (unit, _) run) \<and>
      always_returns pred s (\<lambda>r. r)"
    using cs(2,3) by simp
qed (simp add: is_partitioned_sequential_def)

end
