(* ===== verification/Ieee_Double.thy ===== *)
theory Ieee_Double
  imports Hpx_Prelude "HOL-Library.Log_Nat"
begin

text \<open>
  The type \<open>double\<close> of C++ on the machines HPX runs on: IEEE 754 binary64 with rounding to the nearest
  value, ties to the even significand. Every operation computes the exact result as a quotient of integers and
  rounds it once. \<open>dval\<close> is the number a finite value stands for; \<open>round_ratio_error\<close> is the bound on
  the error of rounding that proofs about computed values use.
\<close>

section \<open>Values\<close>

text \<open>\<open>Fin neg m e\<close> is \<open>m * 2 ^ e\<close> with a sign; zero keeps its sign.\<close>

datatype double = NaN | Inf bool | Fin bool int int

definition sign_of :: "bool \<Rightarrow> int" where
  "sign_of neg = (if neg then -1 else 1)"

fun dval :: "double \<Rightarrow> rat" where
  "dval (Fin neg m e) = of_int (sign_of neg) * of_int m * 2 powi e"
| "dval _ = 0"

fun finite_double :: "double \<Rightarrow> bool" where
  "finite_double (Fin _ _ _) \<longleftrightarrow> True"
| "finite_double _ \<longleftrightarrow> False"

section \<open>Rounding\<close>

text \<open>The exponent \<open>e\<close> with \<open>2 ^ e \<le> n / d < 2 ^ (e + 1)\<close>, for positive \<open>n\<close> and \<open>d\<close>.\<close>

definition ratio_exponent :: "int \<Rightarrow> int \<Rightarrow> int" where
  "ratio_exponent n d =
     (let e = bitlen n - bitlen d in
      if d * 2 ^ nat e \<le> n * 2 ^ nat (- e) then e else e - 1)"

definition nearest_even :: "int \<Rightarrow> int \<Rightarrow> int" where
  "nearest_even n d =
     (let q = n div d; r = n mod d in
      if 2 * r < d \<or> 2 * r = d \<and> even q then q else q + 1)"

definition round_ratio :: "bool \<Rightarrow> int \<Rightarrow> int \<Rightarrow> double" where
  "round_ratio neg n d =
     (if n = 0 then Fin neg 0 (- 1074)
      else
        let u = max (ratio_exponent n d - 52) (- 1074);
            m = nearest_even (n * 2 ^ nat (- u)) (d * 2 ^ nat u);
            (m, u) = (if m = 2 ^ 53 then (2 ^ 52, u + 1) else (m, u))
        in if 971 < u then Inf neg else Fin neg m u)"

section \<open>Arithmetic\<close>

fun double_neg :: "double \<Rightarrow> double" where
  "double_neg NaN = NaN"
| "double_neg (Inf neg) = Inf (\<not> neg)"
| "double_neg (Fin neg m e) = Fin (\<not> neg) m e"

fun double_add :: "double \<Rightarrow> double \<Rightarrow> double" where
  "double_add NaN _ = NaN"
| "double_add _ NaN = NaN"
| "double_add (Inf s) (Inf t) = (if s = t then Inf s else NaN)"
| "double_add (Inf s) (Fin _ _ _) = Inf s"
| "double_add (Fin _ _ _) (Inf t) = Inf t"
| "double_add (Fin s m e) (Fin t n f) =
     (let g = min e f;
          v = sign_of s * m * 2 ^ nat (e - g) + sign_of t * n * 2 ^ nat (f - g)
      in if v = 0 then Fin (s \<and> t) 0 (- 1074)
         else round_ratio (v < 0) (\<bar>v\<bar> * 2 ^ nat g) (2 ^ nat (- g)))"

definition double_sub :: "double \<Rightarrow> double \<Rightarrow> double" where
  "double_sub x y = double_add x (double_neg y)"

fun double_mul :: "double \<Rightarrow> double \<Rightarrow> double" where
  "double_mul NaN _ = NaN"
| "double_mul _ NaN = NaN"
| "double_mul (Inf s) (Inf t) = Inf (s \<noteq> t)"
| "double_mul (Inf s) (Fin t n _) = (if n = 0 then NaN else Inf (s \<noteq> t))"
| "double_mul (Fin s m _) (Inf t) = (if m = 0 then NaN else Inf (s \<noteq> t))"
| "double_mul (Fin s m e) (Fin t n f) =
     round_ratio (s \<noteq> t) (m * n * 2 ^ nat (e + f)) (2 ^ nat (- (e + f)))"

fun double_div :: "double \<Rightarrow> double \<Rightarrow> double" where
  "double_div NaN _ = NaN"
| "double_div _ NaN = NaN"
| "double_div (Inf _) (Inf _) = NaN"
| "double_div (Inf s) (Fin t _ _) = Inf (s \<noteq> t)"
| "double_div (Fin s _ _) (Inf t) = Fin (s \<noteq> t) 0 (- 1074)"
| "double_div (Fin s m e) (Fin t n f) =
     (if n = 0 then (if m = 0 then NaN else Inf (s \<noteq> t))
      else round_ratio (s \<noteq> t) (m * 2 ^ nat (e - f)) (n * 2 ^ nat (f - e)))"

fun double_less :: "double \<Rightarrow> double \<Rightarrow> bool" where
  "double_less NaN _ \<longleftrightarrow> False"
| "double_less _ NaN \<longleftrightarrow> False"
| "double_less (Inf s) (Inf t) \<longleftrightarrow> s \<and> \<not> t"
| "double_less (Inf s) (Fin _ _ _) \<longleftrightarrow> s"
| "double_less (Fin _ _ _) (Inf t) \<longleftrightarrow> \<not> t"
| "double_less (Fin s m e) (Fin t n f) \<longleftrightarrow>
     sign_of s * m * 2 ^ nat (e - min e f) < sign_of t * n * 2 ^ nat (f - min e f)"

section \<open>Conversions\<close>

definition double_of_u64 :: "u64 \<Rightarrow> double" where
  "double_of_u64 w = round_ratio False (uint w) 1"

text \<open>Truncation; the conversion of a value that has no such integer is undefined.\<close>

fun u64_of_double :: "double \<Rightarrow> u64 option" where
  "u64_of_double (Fin neg m e) =
     (let t = sign_of neg * (m * 2 ^ nat e div 2 ^ nat (- e)) in
      if 0 \<le> t \<and> t < 2 ^ 64 then Some (word_of_int t) else None)"
| "u64_of_double _ = None"

abbreviation double_zero :: double where "double_zero \<equiv> Fin False 0 (- 1074)"

section \<open>The error of rounding\<close>

lemma two_powi: "(2 :: rat) powi k = 2 ^ nat k / 2 ^ nat (- k)"
  by (simp add: power_int_def power_one_over field_simps)

lemma powi_mono: "i \<le> j \<Longrightarrow> (2 :: rat) powi i \<le> 2 powi j"
  by (rule power_int_increasing) simp_all

lemma powi_pos [simp]: "0 < (2 :: rat) powi k"
  by (rule zero_less_power_int) simp

lemma powi_le_ratio:
  assumes "0 < d"
  shows "(2 :: rat) powi e \<le> of_int n / of_int d \<longleftrightarrow> d * 2 ^ nat e \<le> n * 2 ^ nat (- e)"
proof -
  have "(2 :: rat) powi e \<le> of_int n / of_int d \<longleftrightarrow> (of_int (d * 2 ^ nat e) :: rat) \<le> of_int (n * 2 ^ nat (- e))"
    using assms by (simp add: two_powi field_simps)
  then show ?thesis by (simp only: of_int_le_iff)
qed

lemma bitlen_rat:
  assumes "0 < n"
  shows "(2 :: rat) powi (bitlen n - 1) \<le> of_int n" "of_int n < (2 :: rat) powi (bitlen n)"
proof -
  have l: "0 < bitlen n" using assms bitlen_nonneg [of n] bitlen_eq_zero_iff [of n] by simp
  have b: "2 ^ nat (bitlen n - 1) \<le> n" "n < 2 ^ nat (bitlen n)" using bitlen_bounds [OF assms] by simp_all
  have "(of_int (2 ^ nat (bitlen n - 1)) :: rat) \<le> of_int n" using b(1) by (simp only: of_int_le_iff)
  then show "(2 :: rat) powi (bitlen n - 1) \<le> of_int n" using l by (simp add: two_powi)
  have "(of_int n :: rat) < of_int (2 ^ nat (bitlen n))" using b(2) by (simp only: of_int_less_iff)
  then show "of_int n < (2 :: rat) powi (bitlen n)" using l by (simp add: two_powi)
qed

lemma ratio_exponent_bounds:
  assumes "0 < n" "0 < d"
  shows "2 powi ratio_exponent n d \<le> of_int n / (of_int d :: rat)"
    "of_int n / (of_int d :: rat) < 2 powi (ratio_exponent n d + 1)"
proof -
  let ?e = "bitlen n - bitlen d" and ?x = "of_int n / (of_int d :: rat)"
  note n = bitlen_rat [OF assms(1)] and d = bitlen_rat [OF assms(2)]
  have "2 powi (?e - 1) * of_int d \<le> (2 :: rat) powi (?e - 1) * 2 powi (bitlen d)"
    using d(2) by (intro mult_left_mono) simp_all
  also have "\<dots> = 2 powi (bitlen n - 1)" by (simp flip: power_int_add)
  finally have lo: "2 powi (?e - 1) \<le> ?x" using n(1) assms by (simp add: field_simps)
  have "(2 :: rat) powi (bitlen n) = 2 powi (?e + 1) * 2 powi (bitlen d - 1)" by (simp flip: power_int_add)
  also have "\<dots> \<le> 2 powi (?e + 1) * of_int d" using d(1) by (intro mult_left_mono) simp_all
  finally have hi: "?x < 2 powi (?e + 1)" using n(2) assms by (simp add: field_simps)
  show "2 powi ratio_exponent n d \<le> ?x" "?x < 2 powi (ratio_exponent n d + 1)"
    using lo hi powi_le_ratio [OF assms(2), of ?e n] by (auto simp: ratio_exponent_def Let_def)
qed

lemma nearest_even_error:
  assumes "0 < d"
  shows "\<bar>of_int (nearest_even n d) - of_int n / (of_int d :: rat)\<bar> \<le> 1 / 2"
proof -
  let ?q = "n div d" and ?r = "n mod d"
  have n: "(of_int n :: rat) = of_int ?q * of_int d + of_int ?r"
    by (simp flip: of_int_mult of_int_add)
  have r: "(0 :: rat) \<le> of_int ?r" "of_int ?r < (of_int d :: rat)" using assms by simp_all
  have x: "of_int n / (of_int d :: rat) = of_int ?q + of_int ?r / of_int d"
    using assms by (simp add: n field_simps)
  have half: "a * 2 \<le> (of_int d :: rat) \<longleftrightarrow> a / of_int d \<le> 1 / 2"
    "of_int d \<le> a * (2 :: rat) \<longleftrightarrow> 1 / 2 \<le> a / of_int d" for a
    using assms by (simp_all add: field_simps)
  have "2 * ?r \<le> d \<longleftrightarrow> (of_int (?r * 2) :: rat) \<le> of_int d" "d \<le> 2 * ?r \<longleftrightarrow> of_int d \<le> (of_int (?r * 2) :: rat)"
    by (simp_all only: of_int_le_iff mult.commute)
  then have two: "2 * ?r \<le> d \<longleftrightarrow> of_int ?r / (of_int d :: rat) \<le> 1 / 2"
    "d \<le> 2 * ?r \<longleftrightarrow> 1 / 2 \<le> of_int ?r / (of_int d :: rat)"
    unfolding of_int_mult of_int_numeral half by simp_all
  have u: "of_int ?r / (of_int d :: rat) \<le> 1" "0 \<le> of_int ?r / (of_int d :: rat)" using less_imp_le [OF r(2)] r(1) assms by (simp_all del: of_int_less_iff of_int_le_iff)
  show ?thesis using two u unfolding nearest_even_def Let_def x
    by (simp add: abs_le_iff split: if_split) linarith
qed

lemma ratio_scaled:
  assumes "0 < d"
  shows "of_int (n * 2 ^ nat (- u)) / of_int (d * 2 ^ nat u) = of_int n / (of_int d :: rat) / 2 powi u"
  using assms by (simp add: two_powi field_simps)

text \<open>Rounding to the nearest value, whether it is normal or not.\<close>

lemma round_ratio_step:
  assumes "0 < n" "0 < d"
  defines "u \<equiv> max (ratio_exponent n d - 52) (- 1074)"
  defines "m \<equiv> nearest_even (n * 2 ^ nat (- u)) (d * 2 ^ nat u)"
  shows "\<bar>of_int m * 2 powi u - of_int n / (of_int d :: rat)\<bar> \<le> 2 powi (u - 1)" "0 \<le> m" "m \<le> 2 ^ 53"
proof -
  let ?x = "of_int n / (of_int d :: rat)"
  have d: "0 < d * 2 ^ nat u" using assms(2) by simp
  have e: "\<bar>of_int m - ?x / 2 powi u\<bar> \<le> 1 / 2"
    using nearest_even_error [OF d, of "n * 2 ^ nat (- u)"] ratio_scaled [OF assms(2), of n u] by (simp only: m_def)
  have "\<bar>of_int m * 2 powi u - ?x\<bar> = \<bar>(of_int m - ?x / 2 powi u) * 2 powi u\<bar>"
    by (simp add: left_diff_distrib)
  also have "\<dots> \<le> 1 / 2 * 2 powi u" unfolding abs_mult using e by (intro mult_mono) simp_all
  also have "\<dots> = 2 powi (u - 1)" by (simp add: power_int_diff)
  finally show "\<bar>of_int m * 2 powi u - ?x\<bar> \<le> 2 powi (u - 1)" .
  have "ratio_exponent n d + 1 \<le> 53 + u" by (simp add: u_def)
  then have "?x < 2 powi (53 + u)"
    using ratio_exponent_bounds(2) [OF assms(1,2)] powi_mono by fastforce
  then have "?x / 2 powi u < 2 ^ 53" by (simp add: power_int_add pos_divide_less_eq mult.commute del: divide_divide_eq_left)
  then have "(of_int m :: rat) < 2 ^ 53 + 1" using e by linarith
  also have "\<dots> = of_int (2 ^ 53 + 1)" by simp
  finally have "(of_int m :: rat) < of_int (2 ^ 53 + 1)" .
  then show "m \<le> 2 ^ 53" unfolding of_int_less_iff by simp
  have "0 \<le> ?x / 2 powi u" using assms(1,2) by simp
  then have "(of_int (- 1) :: rat) < of_int m" using e unfolding of_int_minus of_int_1 by linarith
  then show "0 \<le> m" unfolding of_int_less_iff by simp
qed

text \<open>Within the range of normal numbers the relative error is at most \<open>2 ^ - 53\<close>, and there is no overflow.\<close>

lemma round_ratio_error:
  assumes "0 < n" "0 < d" "2 powi (- 1022) \<le> of_int n / (of_int d :: rat)" "of_int n / (of_int d :: rat) < 2 powi 1023"
  obtains m e where "round_ratio neg n d = Fin neg m e" "0 \<le> m"
    "\<bar>of_int m * 2 powi e - of_int n / (of_int d :: rat)\<bar> \<le> of_int n / of_int d * 2 powi (- 53)"
proof -
  let ?x = "of_int n / (of_int d :: rat)" and ?r = "ratio_exponent n d"
  let ?u = "max (?r - 52) (- 1074)"
  let ?m = "nearest_even (n * 2 ^ nat (- ?u)) (d * 2 ^ nat ?u)"
  note b = ratio_exponent_bounds [OF assms(1,2)] and st = round_ratio_step [OF assms(1,2)]
  have "(2 :: rat) powi (- 1022) < 2 powi (?r + 1)" "(2 :: rat) powi ?r < 2 powi 1023" using b assms(3,4) by linarith+
  then have "- 1022 < ?r + 1" "?r < 1023" by (meson not_le powi_mono)+
  then have u: "?u = ?r - 52" "?u < 971" by simp_all
  have "(2 :: rat) powi (?u - 1) = 2 powi ?r * 2 powi (- 53)" unfolding u(1) by (subst power_int_add [symmetric]) simp_all
  also have "\<dots> \<le> ?x * 2 powi (- 53)" using b(1) by (intro mult_right_mono) simp_all
  finally have e: "\<bar>of_int ?m * 2 powi ?u - ?x\<bar> \<le> ?x * 2 powi (- 53)" using st(1) by linarith
  show thesis
  proof (cases "?m = 2 ^ 53")
    case True
    then have v: "(of_int ?m :: rat) * 2 powi ?u = of_int (2 ^ 52) * 2 powi (?u + 1)" by (simp add: power_int_add)
    have f: "round_ratio neg n d = Fin neg (2 ^ 52) (?u + 1)"
      using True assms(1) u(2) unfolding round_ratio_def Let_def by simp
    show thesis by (rule that [OF f _ e [unfolded v]]) simp
  next
    case False
    then have "round_ratio neg n d = Fin neg ?m ?u"
      using assms(1) u(2) unfolding round_ratio_def Let_def by simp
    then show thesis using st(2) e by (rule that)
  qed
qed

text \<open>The same for the value of a positive quotient.\<close>

lemma round_ratio_value:
  assumes "0 < n" "0 < d" "2 powi (- 1022) \<le> of_int n / (of_int d :: rat)" "of_int n / (of_int d :: rat) < 2 powi 1023"
  obtains m e where "round_ratio False n d = Fin False m e" "0 < m"
    "of_int n / of_int d * (1 - 2 powi (- 53)) \<le> of_int m * (2 powi e :: rat)"
    "of_int m * (2 powi e :: rat) \<le> of_int n / of_int d * (1 + 2 powi (- 53))"
proof -
  let ?x = "of_int n / (of_int d :: rat)"
  obtain m e where r: "round_ratio False n d = Fin False m e" "0 \<le> m"
    "\<bar>of_int m * 2 powi e - ?x\<bar> \<le> ?x * 2 powi (- 53)"
    using round_ratio_error [OF assms] by metis
  have b: "?x * (1 - 2 powi (- 53)) \<le> of_int m * 2 powi e" "of_int m * 2 powi e \<le> ?x * (1 + 2 powi (- 53))"
    using r(3) by (simp_all add: abs_le_iff right_diff_distrib distrib_left)
  have "0 < ?x * (1 - 2 powi (- 53))" using assms(1,2) by simp
  then have "0 < of_int m * (2 powi e :: rat)" using b(1) by linarith
  then have "0 < m" by (simp add: zero_less_mult_iff not_less [THEN iffD2, OF less_imp_le])
  then show thesis using r(1) b that by blast
qed

lemma mult_ratio:
  "of_int (m * n * 2 ^ nat g) / of_int (2 ^ nat (- g)) = of_int m * of_int n * (2 powi g :: rat)"
  by (simp add: two_powi)

section \<open>Order\<close>

text \<open>Values in their order, with the infinities at the ends.\<close>

fun double_rank :: "double \<Rightarrow> int" where
  "double_rank (Inf neg) = sign_of neg"
| "double_rank _ = 0"

lemma double_less_rank:
  "double_less x y \<longleftrightarrow> x \<noteq> NaN \<and> y \<noteq> NaN \<and>
     (double_rank x < double_rank y \<or> double_rank x = double_rank y \<and> dval x < dval y)"
proof (cases "\<exists>s m e t n f. x = Fin s m e \<and> y = Fin t n f")
  case True
  then obtain s m e t n f where xy: "x = Fin s m e" "y = Fin t n f" by blast
  let ?g = "min e f"
  have p: "of_int (k * 2 ^ nat (i - ?g)) * (2 powi ?g :: rat) = of_int k * 2 powi i" if "?g \<le> i" for k i
  proof -
    have "(2 :: rat) powi i = 2 powi (i - ?g) * 2 powi ?g" by (simp flip: power_int_add)
    also have "(2 :: rat) powi (i - ?g) = 2 ^ nat (i - ?g)" using that by (simp add: power_int_def)
    finally show ?thesis by simp
  qed
  have "double_less x y \<longleftrightarrow> sign_of s * m * 2 ^ nat (e - ?g) < sign_of t * n * 2 ^ nat (f - ?g)"
    by (simp add: xy)
  also have "\<dots> \<longleftrightarrow> of_int (sign_of s * m * 2 ^ nat (e - ?g)) < (of_int (sign_of t * n * 2 ^ nat (f - ?g)) :: rat)"
    by (simp only: of_int_less_iff)
  also have "\<dots> \<longleftrightarrow> of_int (sign_of s * m * 2 ^ nat (e - ?g)) * (2 powi ?g :: rat)
      < of_int (sign_of t * n * 2 ^ nat (f - ?g)) * 2 powi ?g"
    by (rule mult_less_cancel_right_pos [OF powi_pos, symmetric])
  also have "\<dots> \<longleftrightarrow> dval x < dval y" unfolding xy by (simp add: p del: of_int_mult) (simp add: algebra_simps)
  finally show ?thesis by (simp add: xy)
next
  case False
  then show ?thesis by (cases x; cases y) (auto simp: sign_of_def)
qed

end
