(* ===== verification/Learned_Parameters.thy ===== *)
theory Learned_Parameters
  imports Ieee_Double Chunk_Shape
begin

text \<open>
  The learned parameters of parallel loops: \<^verbatim>\<open>hpx/parallel/reading_learning_weights.hpp\<close> reads the
  weights of the trained models from text files into static vectors, and \<^verbatim>\<open>seq_or_par.hpp.cpp\<close>,
  \<^verbatim>\<open>chunk_size_determination.hpp\<close> and \<^verbatim>\<open>prefetching_distance_determination.hpp\<close> weigh the features of a loop with them to
  choose the execution policy, the size of the chunks and the prefetching distance.

  The static vectors are a record, the files a function from paths to contents (\<open>None\<close>: not readable), the
  number of threads an argument. A result \<open>None\<close> is a read outside a vector or array, or a
  conversion without a defined value. The functions modify the vector of features they are given, a temporary in
  all callers, so the changed vector is not returned. Arithmetic on \<open>double\<close> is rounded after every operation.
\<close>

section \<open>Reading numbers\<close>

datatype learning_error = Assertion_Failed | Invalid_Argument | Out_Of_Range

definition char_code :: "char \<Rightarrow> int" where
  "char_code c = of_char c"

definition is_space :: "char \<Rightarrow> bool" where
  "is_space c \<longleftrightarrow> char_code c = 32 \<or> 9 \<le> char_code c \<and> char_code c \<le> 13"

definition is_digit :: "char \<Rightarrow> bool" where
  "is_digit c \<longleftrightarrow> 48 \<le> char_code c \<and> char_code c \<le> 57"

definition is_xdigit :: "char \<Rightarrow> bool" where
  "is_xdigit c \<longleftrightarrow> is_digit c \<or> 65 \<le> char_code c \<and> char_code c \<le> 70 \<or> 97 \<le> char_code c \<and> char_code c \<le> 102"

definition digit_value :: "char \<Rightarrow> int" where
  "digit_value c =
     (if is_digit c then char_code c - 48
      else if char_code c \<le> 70 then char_code c - 55
      else char_code c - 87)"

definition digits_value :: "int \<Rightarrow> string \<Rightarrow> int" where
  "digits_value base cs = foldl (\<lambda>n c. base * n + digit_value c) 0 cs"

definition read_sign :: "string \<Rightarrow> bool \<times> string" where
  "read_sign s = (case s of
       c # r \<Rightarrow> if c = CHR ''-'' then (True, r) else if c = CHR ''+'' then (False, r) else (False, s)
     | [] \<Rightarrow> (False, s))"

definition read_exponent :: "string \<Rightarrow> string \<Rightarrow> int" where
  "read_exponent marks s = (case s of
       c # r \<Rightarrow> if c \<in> set marks
                then (let (neg, r) = read_sign r in sign_of neg * digits_value 10 (takeWhile is_digit r))
                else 0
     | [] \<Rightarrow> 0)"

text \<open>The digits before and after the point, and what follows.\<close>

definition read_digits :: "(char \<Rightarrow> bool) \<Rightarrow> string \<Rightarrow> string \<times> string \<times> string" where
  "read_digits digit s =
     (let whole = takeWhile digit s; r = dropWhile digit s in
      case r of
        c # r' \<Rightarrow> if c = CHR ''.'' then (whole, takeWhile digit r', dropWhile digit r') else (whole, [], r)
      | [] \<Rightarrow> (whole, [], r))"

text \<open>The number at the start of the text as a quotient.\<close>

definition read_decimal :: "string \<Rightarrow> (int \<times> int) option" where
  "read_decimal s =
     (let (whole, frac, r) = read_digits is_digit s;
          e = read_exponent ''eE'' r - int (length frac)
      in if whole @ frac = [] then None
         else Some (digits_value 10 (whole @ frac) * 10 ^ nat e, 10 ^ nat (- e)))"

definition read_number :: "string \<Rightarrow> (int \<times> int) option" where
  "read_number s =
     (if take 2 s \<in> {''0x'', ''0X''}
      then
        let (whole, frac, r) = read_digits is_xdigit (drop 2 s);
            e = read_exponent ''pP'' r - 4 * int (length frac)
        in if whole @ frac = [] then Some (0, 1)
           else Some (digits_value 16 (whole @ frac) * 2 ^ nat e, 2 ^ nat (- e))
      else read_decimal s)"

definition lower :: "char \<Rightarrow> char" where
  "lower c = (if 65 \<le> char_code c \<and> char_code c \<le> 90 then char_of (char_code c + 32) else c)"

text \<open>Overflow, or a result below the normal numbers that is not exact.\<close>

fun range_error :: "int \<Rightarrow> int \<Rightarrow> double \<Rightarrow> bool" where
  "range_error n d NaN = False"
| "range_error n d (Inf _) = True"
| "range_error n d (Fin _ m e) = (m < 2 ^ 52 \<and> m * 2 ^ nat e * d \<noteq> n * 2 ^ nat (- e))"

text \<open>\<open>std::stod\<close>, which ignores what follows the number.\<close>

definition stod :: "string \<Rightarrow> learning_error + double" where
  "stod s =
     (let (neg, r) = read_sign (dropWhile is_space s); word = map lower (take 3 r) in
      if word = ''inf'' then Inr (Inf neg)
      else if word = ''nan'' then Inr NaN
      else case read_number r of
        None \<Rightarrow> Inl Invalid_Argument
      | Some (n, d) \<Rightarrow>
          let x = round_ratio neg n d in
          if range_error n d x then Inl Out_Of_Range else Inr x)"

fun stod_all :: "string list \<Rightarrow> learning_error + double list" where
  "stod_all [] = Inr []"
| "stod_all (w # ws) =
     (case stod w of
        Inl e \<Rightarrow> Inl e
      | Inr x \<Rightarrow> (case stod_all ws of Inl e \<Rightarrow> Inl e | Inr xs \<Rightarrow> Inr (x # xs)))"

section \<open>Reading files\<close>

text \<open>Repeated \<open>getline\<close>, and the words an \<open>istream_iterator<std::string>\<close> gives.\<close>

fun file_lines :: "string \<Rightarrow> string list" where
  "file_lines [] = []"
| "file_lines (c # s) =
     (if c = CHR 0x0A then [] # file_lines s
      else case file_lines s of
        [] \<Rightarrow> [[c]]
      | l # ls \<Rightarrow> (c # l) # ls)"

fun words_from :: "string \<Rightarrow> string \<Rightarrow> string list" where
  "words_from word [] = (if word = [] then [] else [word])"
| "words_from word (c # s) =
     (if is_space c then (if word = [] then [] else [word]) @ words_from [] s
      else words_from (word @ [c]) s)"

definition line_words :: "string \<Rightarrow> string list" where
  "line_words s = words_from [] s"

type_synonym file_system = "string \<Rightarrow> string option"

definition lines_of :: "file_system \<Rightarrow> string \<Rightarrow> string list" where
  "lines_of fs path = (case fs path of None \<Rightarrow> [] | Some s \<Rightarrow> file_lines s)"

text \<open>A \<open>getline\<close> that fails leaves the string empty.\<close>

definition line_at :: "nat \<Rightarrow> string list \<Rightarrow> string" where
  "line_at i ls = (if i < length ls then ls ! i else [])"

section \<open>The weights\<close>

record learned_weights =
  weights_seq_par :: "double list"
  weights_chunk_size :: "double list list"
  weights_prefetching_distance :: "double list list"

definition no_weights :: learned_weights where
  "no_weights = \<lparr>weights_seq_par = [], weights_chunk_size = [], weights_prefetching_distance = []\<rparr>"

definition path_seq_par :: string where
  "path_seq_par = ''../../logisticRegressionModel/learning_weights/weights_seq_par.dat''"

definition path_chunk_size :: string where
  "path_chunk_size = ''../../logisticRegressionModel/learning_weights/weights_chunk_size.dat''"

definition path_prefetching_distance :: string where
  "path_prefetching_distance = ''../../logisticRegressionModel/learning_weights/weights_prefetcher_distance_factor.dat''"

text \<open>One line of weights: the values made so far, and how it ended.\<close>

fun transform_row :: "double list \<Rightarrow> nat \<Rightarrow> string list \<Rightarrow> double list \<times> (learning_error + unit) option" where
  "transform_row params t [] = ([], Some (Inr ()))"
| "transform_row params t (s # ws) =
     (case stod s of
        Inl e \<Rightarrow> ([], Some (Inl e))
      | Inr x \<Rightarrow>
          if 2 * t + 1 < length params
          then
            let w = double_div (double_sub x (params ! (t * 2))) (params ! (2 * t + 1));
                (ws', r) = transform_row params (Suc t) ws
            in (w # ws', r)
          else ([], None))"

definition reading_weights_seq_par ::
  "file_system \<Rightarrow> learned_weights \<Rightarrow> (learned_weights \<times> (learning_error + unit)) option" where
  "reading_weights_seq_par fs w =
     (if weights_seq_par w \<noteq> [] then Some (w, Inl Assertion_Failed)
      else
        let ls = lines_of fs path_seq_par in
        case stod_all (line_words (line_at 0 ls)) of
          Inl e \<Rightarrow> Some (w, Inl e)
        | Inr params \<Rightarrow>
            (case transform_row params 0 (line_words (line_at 1 ls)) of
               (_, None) \<Rightarrow> None
             | (row, Some r) \<Rightarrow> Some (w\<lparr>weights_seq_par := row\<rparr>, r)))"

text \<open>The loop over the remaining lines; the rows pushed before an exception stay.\<close>

fun push_rows ::
  "double list \<Rightarrow> string list \<Rightarrow> double list list \<Rightarrow> (double list list \<times> (learning_error + unit)) option" where
  "push_rows params [] rows = Some (rows, Inr ())"
| "push_rows params (l # ls) rows =
     (case transform_row params 0 (line_words l) of
        (_, None) \<Rightarrow> None
      | (_, Some (Inl e)) \<Rightarrow> Some (rows, Inl e)
      | (row, Some (Inr _)) \<Rightarrow> push_rows params ls (rows @ [row]))"

definition read_table ::
  "string list \<Rightarrow> (double list list \<times> (learning_error + unit)) option" where
  "read_table ls =
     (case stod_all (line_words (line_at 0 ls)) of
        Inl e \<Rightarrow> Some ([], Inl e)
      | Inr params \<Rightarrow> push_rows params (drop 1 ls) [])"

definition reading_weights_chunk_size ::
  "file_system \<Rightarrow> learned_weights \<Rightarrow> (learned_weights \<times> (learning_error + unit)) option" where
  "reading_weights_chunk_size fs w =
     (if weights_chunk_size w \<noteq> [] then Some (w, Inl Assertion_Failed)
      else map_option (\<lambda>(rows, r). (w\<lparr>weights_chunk_size := rows\<rparr>, r)) (read_table (lines_of fs path_chunk_size)))"

definition reading_weights_prefetching_distance ::
  "file_system \<Rightarrow> learned_weights \<Rightarrow> (learned_weights \<times> (learning_error + unit)) option" where
  "reading_weights_prefetching_distance fs w =
     (if weights_prefetching_distance w \<noteq> [] then Some (w, Inl Assertion_Failed)
      else map_option (\<lambda>(rows, r). (w\<lparr>weights_prefetching_distance := rows\<rparr>, r))
        (read_table (lines_of fs path_prefetching_distance)))"

definition after_reading ::
  "(learned_weights \<Rightarrow> 'a) \<Rightarrow> (learned_weights \<times> (learning_error + unit)) option
    \<Rightarrow> (learned_weights \<times> (learning_error + 'a)) option" where
  "after_reading get r = map_option (\<lambda>(w, res). (w, map_sum id (\<lambda>_. get w) res)) r"

definition retreiving_weights_seq_par ::
  "file_system \<Rightarrow> learned_weights \<Rightarrow> (learned_weights \<times> (learning_error + double list)) option" where
  "retreiving_weights_seq_par fs w =
     after_reading weights_seq_par
       (if weights_seq_par w = [] then reading_weights_seq_par fs w else Some (w, Inr ()))"

definition retreiving_weights_chunk_size ::
  "file_system \<Rightarrow> learned_weights \<Rightarrow> (learned_weights \<times> (learning_error + double list list)) option" where
  "retreiving_weights_chunk_size fs w =
     after_reading weights_chunk_size
       (if weights_chunk_size w = [] then reading_weights_chunk_size fs w else Some (w, Inr ()))"

definition retreiving_weights_prefetching_distance ::
  "file_system \<Rightarrow> learned_weights \<Rightarrow> (learned_weights \<times> (learning_error + double list list)) option" where
  "retreiving_weights_prefetching_distance fs w =
     after_reading weights_prefetching_distance
       (if weights_prefetching_distance w = [] then reading_weights_prefetching_distance fs w else Some (w, Inr ()))"

section \<open>Decisions\<close>

text \<open>\<open>sum += weights[f] * features[f]\<close> for every feature.\<close>

fun weighted_sum :: "double list \<Rightarrow> u64 list \<Rightarrow> double \<Rightarrow> double option" where
  "weighted_sum ws [] acc = Some acc"
| "weighted_sum [] (f # fs) acc = None"
| "weighted_sum (w # ws) (f # fs) acc = weighted_sum ws fs (double_add acc (double_mul w (double_of_u64 f)))"

fun determine_class :: "double list list \<Rightarrow> u64 list \<Rightarrow> nat \<Rightarrow> double \<Rightarrow> nat \<Rightarrow> nat option" where
  "determine_class [] features w max_value determined_class = Some determined_class"
| "determine_class (row # rows) features w max_value determined_class =
     (case weighted_sum row features double_zero of
        None \<Rightarrow> None
      | Some acc \<Rightarrow>
          if double_less max_value acc then determine_class rows features (Suc w) acc w
          else determine_class rows features (Suc w) max_value determined_class)"

definition seq_or_par ::
  "file_system \<Rightarrow> u64 \<Rightarrow> u64 list \<Rightarrow> learned_weights \<Rightarrow> (learned_weights \<times> (learning_error + bool)) option" where
  "seq_or_par fs threads features w =
     (case retreiving_weights_seq_par fs w of
        None \<Rightarrow> None
      | Some (w, Inl e) \<Rightarrow> Some (w, Inl e)
      | Some (w, Inr []) \<Rightarrow> Some (w, Inl Assertion_Failed)
      | Some (w, Inr (w0 # weights)) \<Rightarrow>
          if features = [] then None
          else map_option (\<lambda>result. (w, Inr (double_less result double_zero)))
            (weighted_sum weights (list_update features 0 threads) w0))"

definition chunk_candidates :: "double list" where
  "chunk_candidates = [round_ratio False 1 1000, round_ratio False 1 100, round_ratio False 1 10, round_ratio False 1 2]"

definition chunk_size_determination ::
  "file_system \<Rightarrow> u64 \<Rightarrow> u64 list \<Rightarrow> learned_weights
    \<Rightarrow> (learned_weights \<times> (learning_error + exec_parameters)) option" where
  "chunk_size_determination fs threads features w =
     (case retreiving_weights_chunk_size fs w of
        None \<Rightarrow> None
      | Some (w, Inl e) \<Rightarrow> Some (w, Inl e)
      | Some (w, Inr weights) \<Rightarrow>
          if weights = [] then Some (w, Inl Assertion_Failed)
          else if features = [] then None
          else
            let features' = list_update features 0 threads in
            case determine_class weights features' 0 double_zero 0 of
              None \<Rightarrow> None
            | Some k \<Rightarrow>
                if k < length chunk_candidates \<and> 4 < length features'
                then map_option (\<lambda>c. (w, Inr (Dynamic_Chunk_Size c)))
                  (u64_of_double (double_mul (chunk_candidates ! k) (double_of_u64 (features' ! 4))))
                else None)"

definition distance_candidates :: "u64 list" where
  "distance_candidates = [10, 50, 100, 500, 1000, 5000]"

definition prefetching_distance_determination ::
  "file_system \<Rightarrow> u64 \<Rightarrow> u64 list \<Rightarrow> learned_weights
    \<Rightarrow> (learned_weights \<times> (learning_error + u64)) option" where
  "prefetching_distance_determination fs threads features w =
     (case retreiving_weights_prefetching_distance fs w of
        None \<Rightarrow> None
      | Some (w, Inl e) \<Rightarrow> Some (w, Inl e)
      | Some (w, Inr weights) \<Rightarrow>
          if weights = [] then Some (w, Inl Assertion_Failed)
          else if features = [] then None
          else
            case determine_class weights (list_update features 0 threads) 0 double_zero 0 of
              None \<Rightarrow> None
            | Some k \<Rightarrow> if k < length distance_candidates then Some (w, Inr (distance_candidates ! k)) else None)"

section \<open>The chosen class\<close>

text \<open>What the loop over the rows of weights promises: the first class with the greatest score, if any score is
  positive, and the class zero otherwise.\<close>

definition positive_score :: "double \<Rightarrow> bool" where
  "positive_score x \<longleftrightarrow> double_less double_zero x"

definition best_class :: "double list \<Rightarrow> nat \<Rightarrow> bool" where
  "best_class scores k \<longleftrightarrow>
     (if \<exists>x \<in> set scores. positive_score x
      then k < length scores \<and> positive_score (scores ! k) \<and>
        (\<forall>x \<in> set scores. \<not> double_less (scores ! k) x) \<and>
        (\<forall>i < k. positive_score (scores ! i) \<longrightarrow> double_less (scores ! i) (scores ! k))
      else k = 0)"

lemma double_less_trans: "double_less x y \<Longrightarrow> double_less y z \<Longrightarrow> double_less x z"
  by (auto simp: double_less_rank)

lemma double_less_irrefl: "\<not> double_less x x"
  by (simp add: double_less_rank)

lemma double_not_less_trans: "double_less x y \<Longrightarrow> \<not> double_less z y \<Longrightarrow> z \<noteq> NaN \<Longrightarrow> double_less x z"
  by (auto simp: double_less_rank)

text \<open>The state of the loop after some rows: the greatest score so far with its class, or the initial values.\<close>

definition class_so_far :: "double list \<Rightarrow> double \<Rightarrow> nat \<Rightarrow> bool" where
  "class_so_far scores max_value k \<longleftrightarrow> best_class scores k \<and>
     max_value = (if \<exists>x \<in> set scores. positive_score x then scores ! k else double_zero)"

lemma class_so_far_max:
  assumes "class_so_far scores max_value k"
  shows "max_value \<noteq> NaN" "x \<in> set scores \<Longrightarrow> \<not> double_less max_value x" "\<not> double_less max_value double_zero"
  using assms double_less_trans [of double_zero max_value double_zero] double_less_irrefl [of double_zero]
  by (auto simp: class_so_far_def best_class_def positive_score_def double_less_rank split: if_splits)

lemma class_so_far_step:
  assumes "class_so_far scores max_value k"
  shows "if double_less max_value x then class_so_far (scores @ [x]) x (length scores)
         else class_so_far (scores @ [x]) max_value k"
proof (cases "double_less max_value x")
  case True
  have pos: "positive_score x"
    using True class_so_far_max(3) [OF assms] by (auto simp: positive_score_def double_less_rank)
  have b: "\<not> double_less x y" if "y \<in> set scores" for y
    using class_so_far_max(2) [OF assms that] True double_less_trans by blast
  have l: "double_less (scores ! i) x" if "i < length scores" "positive_score (scores ! i)" for i
    using class_so_far_max(2) [OF assms nth_mem [OF that(1)]] True that(2)
    by (auto simp: positive_score_def double_less_rank)
  show ?thesis using True pos b l
    by (auto simp: class_so_far_def best_class_def nth_append double_less_irrefl)
next
  case False
  show ?thesis
  proof (cases "\<exists>y \<in> set scores. positive_score y")
    case pos: True
    then show ?thesis using assms False
      by (auto simp: class_so_far_def best_class_def nth_append)
  next
    case none: False
    then have "\<not> positive_score x" using assms False by (auto simp: class_so_far_def positive_score_def)
    then show ?thesis using assms False none by (auto simp: class_so_far_def best_class_def)
  qed
qed

lemma determine_class_correct:
  assumes "class_so_far done max_value k" "list_all2 (\<lambda>row x. weighted_sum row features double_zero = Some x) rows scores"
  shows "\<exists>k'. determine_class rows features (length done) max_value k = Some k' \<and> best_class (done @ scores) k'"
  using assms(2,1)
proof (induction rows scores arbitrary: "done" max_value k rule: list_all2_induct)
  case Nil
  then show ?case by (simp add: class_so_far_def)
next
  case (Cons row rows x scores)
  show ?case
    using Cons.hyps(1) Cons.IH [of "done @ [x]"] class_so_far_step [OF Cons.prems, of x] by simp
qed

lemma weighted_sum_some: "length features \<le> length row \<Longrightarrow> \<exists>x. weighted_sum row features acc = Some x"
  by (induction row features acc rule: weighted_sum.induct) auto

lemma scores_exist:
  assumes "\<forall>row \<in> set rows. length features \<le> length row"
  obtains scores where "list_all2 (\<lambda>row x. weighted_sum row features double_zero = Some x) rows scores"
proof
  show "list_all2 (\<lambda>row x. weighted_sum row features double_zero = Some x) rows
      (map (\<lambda>row. the (weighted_sum row features double_zero)) rows)"
    using assms weighted_sum_some by (fastforce simp: list_all2_conv_all_nth)
qed

lemma no_class_yet: "class_so_far [] double_zero 0"
  by (simp add: class_so_far_def best_class_def)

lemma best_class_bound: "best_class scores k \<Longrightarrow> scores \<noteq> [] \<Longrightarrow> k < length scores"
  by (auto simp: best_class_def split: if_splits)

section \<open>The size of the chunks\<close>

lemma u64_of_double_floor:
  assumes "0 < m" "of_int m * (2 powi e :: rat) < 2 ^ 64"
  obtains c where "u64_of_double (Fin False m e) = Some c" "of_int (uint c) \<le> of_int m * (2 powi e :: rat)"
    "of_int m * (2 powi e :: rat) < of_int (uint c) + 1"
proof -
  let ?t = "m * 2 ^ nat e div 2 ^ nat (- e)"
  have v: "of_int m * (2 powi e :: rat) = of_int (m * 2 ^ nat e) / of_int (2 ^ nat (- e))"
    by (simp add: two_powi)
  have b: "of_int ?t \<le> of_int m * (2 powi e :: rat)" "of_int m * (2 powi e :: rat) < of_int ?t + 1"
    using floor_correct [of "of_int (m * 2 ^ nat e) / (of_int (2 ^ nat (- e)) :: rat)"]
    unfolding v floor_divide_of_int_eq by simp_all
  have t: "0 \<le> ?t" using assms(1) by (simp add: pos_imp_zdiv_nonneg_iff)
  have "(of_int ?t :: rat) < of_int (2 ^ 64)" using b(1) assms(2) by simp
  then have "?t < 2 ^ 64" by (simp only: of_int_less_iff)
  then have "u64_of_double (Fin False m e) = Some (word_of_int ?t)" "uint (word_of_int ?t :: u64) = ?t"
    using t by (simp_all add: sign_of_def uint_word_of_int_eq take_bit_int_eq_self)
  then show thesis using b that by metis
qed

lemma candidate_value:
  assumes "2 \<le> q" "q \<le> 1000"
  obtains m e where "round_ratio False 1 q = Fin False m e" "0 < m"
    "1 / of_int q * (1 - 2 powi (- 53)) \<le> of_int m * (2 powi e :: rat)"
    "of_int m * (2 powi e :: rat) \<le> 1 / of_int q * (1 + 2 powi (- 53))"
proof -
  have p: "(2 :: rat) powi (- 1022) \<le> 2 powi (- 12)" "(2 :: rat) powi 0 \<le> 2 powi 1023" by (rule powi_mono, simp)+
  have q: "(1 :: rat) / 1000 \<le> 1 / of_int q" "(1 :: rat) / of_int q \<le> 1 / 2"
    using assms by (simp_all add: field_simps)
  have t: "(2 :: rat) powi (- 12) = 1 / 4096" by simp
  have "2 powi (- 1022) \<le> of_int 1 / (of_int q :: rat)" "of_int 1 / (of_int q :: rat) < 2 powi 1023"
    using p q t unfolding of_int_1 power_int_0_right by linarith+
  then show thesis using round_ratio_value [of 1 q] assms(1) that unfolding of_int_1 by auto
qed

text \<open>A candidate fraction times the number of iterations, with its three roundings.\<close>

lemma candidate_product:
  assumes "2 \<le> q" "q \<le> 1000" "0 < n" "n < 2 ^ 64"
  obtains m e where "double_mul (round_ratio False 1 q) (round_ratio False n 1) = Fin False m e" "0 < m"
    "of_int n / of_int q * (1 - 2 powi (- 51)) \<le> of_int m * (2 powi e :: rat)"
    "of_int m * (2 powi e :: rat) \<le> of_int n / of_int q * (1 + 2 powi (- 51))"
proof -
  let ?\<epsilon> = "(2 :: rat) powi (- 53)"
  have small: "(2 :: rat) powi (- 1022) \<le> 2 powi (- 12)" "(2 :: rat) powi 66 \<le> 2 powi 1023" by (rule powi_mono, simp)+
  have q: "(1 :: rat) / 1000 \<le> 1 / of_int q" "(1 :: rat) / of_int q \<le> 1 / 2"
    using assms(1,2) by (simp_all add: field_simps)
  have "(of_int 1 :: rat) \<le> of_int n" "(of_int n :: rat) < of_int (2 ^ 64)"
    unfolding of_int_le_iff of_int_less_iff using assms(3,4) by simp_all
  then have n: "(1 :: rat) \<le> of_int n" "(of_int n :: rat) < 2 ^ 64" unfolding of_int_power of_int_numeral of_int_1 .
  obtain m1 e1 where c: "round_ratio False 1 q = Fin False m1 e1" "0 < m1"
    "1 / of_int q * (1 - ?\<epsilon>) \<le> of_int m1 * 2 powi e1" "of_int m1 * 2 powi e1 \<le> 1 / of_int q * (1 + ?\<epsilon>)"
    by (rule candidate_value [OF assms(1,2)])
  obtain m2 e2 where i: "round_ratio False n 1 = Fin False m2 e2" "0 < m2"
    "of_int n * (1 - ?\<epsilon>) \<le> of_int m2 * 2 powi e2" "of_int m2 * 2 powi e2 \<le> of_int n * (1 + ?\<epsilon>)"
    using round_ratio_value [of n 1] assms(3) n small by auto
  let ?g = "e1 + e2" and ?x = "of_int m1 * 2 powi e1 * (of_int m2 * 2 powi e2) :: rat"
  have x: "of_int (m1 * m2 * 2 ^ nat ?g) / of_int (2 ^ nat (- ?g)) = ?x"
    unfolding mult_ratio by (simp add: power_int_add)
  have lo: "1 / of_int q * (1 - ?\<epsilon>) * (of_int n * (1 - ?\<epsilon>)) \<le> ?x"
    by (rule mult_mono [OF c(3) i(3)]) (use c(2) n(1) in \<open>simp_all add: less_imp_le\<close>)
  have hi: "?x \<le> 1 / of_int q * (1 + ?\<epsilon>) * (of_int n * (1 + ?\<epsilon>))"
    by (rule mult_mono [OF c(4) i(4)]) (use i(2) assms(1) in \<open>simp_all add: less_imp_le\<close>)
  have y: "(1 :: rat) / 1000 \<le> of_int n / of_int q" "of_int n / of_int q < (2 :: rat) ^ 64"
    using assms(1) q n mult_mono [OF q(1) n(1)] mult_strict_mono' [of "1 / of_int q" 1 "of_int n" "2 ^ 64 :: rat"]
    by (simp_all del: of_int_le_iff of_int_less_iff)
  have "?x \<ge> 2 powi (- 12)" using lo y by (simp add: power2_eq_square)
  moreover have "?x < 2 powi 66" using hi y by (simp add: power2_eq_square)
  ultimately obtain m e where r: "round_ratio False (m1 * m2 * 2 ^ nat ?g) (2 ^ nat (- ?g)) = Fin False m e" "0 < m"
    "?x * (1 - ?\<epsilon>) \<le> of_int m * 2 powi e" "of_int m * 2 powi e \<le> ?x * (1 + ?\<epsilon>)"
    using round_ratio_value [of "m1 * m2 * 2 ^ nat ?g" "2 ^ nat (- ?g)"] c(2) i(2) small unfolding x by auto
  show thesis
  proof (rule that [OF _ r(2)])
    show "double_mul (round_ratio False 1 q) (round_ratio False n 1) = Fin False m e"
      using r(1) by (simp add: c(1) i(1))
    show "of_int n / of_int q * (1 - 2 powi (- 51)) \<le> of_int m * (2 powi e :: rat)"
      using r(3) lo y by simp
    show "of_int m * (2 powi e :: rat) \<le> of_int n / of_int q * (1 + 2 powi (- 51))"
      using r(4) hi y by simp
  qed
qed

definition candidate_denominators :: "int list" where
  "candidate_denominators = [1000, 100, 10, 2]"

lemma chunk_candidate_nth:
  assumes "k < 4"
  shows "chunk_candidates ! k = round_ratio False 1 (candidate_denominators ! k)"
    "2 \<le> candidate_denominators ! k" "candidate_denominators ! k \<le> 1000"
proof -
  consider "k = 0" | "k = 1" | "k = 2" | "k = 3" using assms by linarith
  then show "chunk_candidates ! k = round_ratio False 1 (candidate_denominators ! k)"
    "2 \<le> candidate_denominators ! k" "candidate_denominators ! k \<le> 1000"
    by (cases; simp add: chunk_candidates_def candidate_denominators_def)+
qed

text \<open>The chunk size is the candidate's share of the iterations, up to the error of rounding, rounded down.\<close>

definition chunk_share :: "nat \<Rightarrow> u64 \<Rightarrow> u64 \<Rightarrow> bool" where
  "chunk_share k n c \<longleftrightarrow>
     (let share = of_int (uint n) / of_int (candidate_denominators ! k) :: rat in
      share * (1 - 2 powi (- 51)) < of_int (uint c) + 1 \<and> of_int (uint c) \<le> share * (1 + 2 powi (- 51)))"

lemma chunk_size_of_class:
  assumes "k < 4"
  obtains c where "u64_of_double (double_mul (chunk_candidates ! k) (double_of_u64 n)) = Some c" "chunk_share k n c"
proof (cases "n = 0")
  case True
  obtain m e where "round_ratio False 1 (candidate_denominators ! k) = Fin False m e"
    by (rule candidate_value [OF chunk_candidate_nth(2,3) [OF assms]])
  then show thesis using chunk_candidate_nth(1) [OF assms]
    by (intro that [of 0]) (simp_all add: True double_of_u64_def round_ratio_def sign_of_def chunk_share_def)
next
  case False
  let ?q = "candidate_denominators ! k"
  have n: "0 < uint n" "uint n < 2 ^ 64" using False uint_bounded [of n] by (simp_all add: uint_0_iff less_le)
  obtain m e where p: "double_mul (round_ratio False 1 ?q) (round_ratio False (uint n) 1) = Fin False m e" "0 < m"
    "of_int (uint n) / of_int ?q * (1 - 2 powi (- 51)) \<le> of_int m * (2 powi e :: rat)"
    "of_int m * (2 powi e :: rat) \<le> of_int (uint n) / of_int ?q * (1 + 2 powi (- 51))"
    by (rule candidate_product [OF chunk_candidate_nth(2,3) [OF assms] n])
  have "(of_int (uint n) :: rat) < of_int (2 ^ 64)" unfolding of_int_less_iff using n(2) .
  moreover have "(2 :: rat) \<le> of_int ?q" using chunk_candidate_nth(2) [OF assms] by simp
  ultimately have "of_int (uint n) / of_int ?q * (1 + 2 powi (- 51)) < (2 ^ 64 :: rat)"
    by (simp add: field_simps)
  then have "of_int m * (2 powi e :: rat) < 2 ^ 64" using p(4) by linarith
  then obtain c where c: "u64_of_double (Fin False m e) = Some c" "of_int (uint c) \<le> of_int m * (2 powi e :: rat)"
    "of_int m * (2 powi e :: rat) < of_int (uint c) + 1"
    by (rule u64_of_double_floor [OF p(2)])
  have "chunk_share k n c" using c(2,3) p(3,4) unfolding chunk_share_def Let_def by linarith
  then show thesis using that c(1) p(1) chunk_candidate_nth(1) [OF assms] by (simp add: double_of_u64_def)
qed

section \<open>What is read from a file\<close>

definition normalized :: "double list \<Rightarrow> double list \<Rightarrow> double list" where
  "normalized params xs =
     map (\<lambda>t. double_div (double_sub (xs ! t) (params ! (2 * t))) (params ! (2 * t + 1))) [0..<length xs]"

lemma stod_all_length: "stod_all ws = Inr xs \<Longrightarrow> length xs = length ws"
  by (induction ws arbitrary: xs) (auto split: sum.splits)

lemma transform_row_correct:
  assumes "stod_all ws = Inr xs" "2 * (t + length ws) \<le> length params"
  shows "transform_row params t ws =
    (map (\<lambda>i. double_div (double_sub (xs ! i) (params ! (2 * (t + i)))) (params ! (2 * (t + i) + 1))) [0..<length xs],
     Some (Inr ()))"
  using assms
proof (induction ws arbitrary: t xs)
  case Nil
  then show ?case by simp
next
  case (Cons w ws)
  then obtain x ys where x: "stod w = Inr x" "stod_all ws = Inr ys" "xs = x # ys" by (auto split: sum.splits)
  have "transform_row params (Suc t) ws =
    (map (\<lambda>i. double_div (double_sub (ys ! i) (params ! (2 * (Suc t + i)))) (params ! (2 * (Suc t + i) + 1))) [0..<length ys],
     Some (Inr ()))"
    using Cons.IH [OF x(2)] Cons.prems(2) by simp
  moreover have "[0..<length xs] = 0 # map Suc [0..<length ys]" by (simp add: x(3) upt_conv_Cons map_Suc_upt del: upt_Suc)
  ultimately show ?case using Cons.prems(2) by (simp add: x Let_def mult.commute)
qed

lemma row_of_line:
  assumes "stod_all (line_words l) = Inr xs" "2 * length (line_words l) \<le> length params"
  shows "transform_row params 0 (line_words l) = (normalized params xs, Some (Inr ()))"
  using transform_row_correct [OF assms(1), of 0 params] assms(2) by (simp add: normalized_def)

lemma push_rows_correct:
  assumes "list_all2 (\<lambda>l xs. stod_all (line_words l) = Inr xs \<and> 2 * length xs \<le> length params) ls table"
  shows "push_rows params ls rows = Some (rows @ map (normalized params) table, Inr ())"
  using assms
proof (induction ls table arbitrary: rows rule: list_all2_induct)
  case (Cons l ls xs table)
  have "transform_row params 0 (line_words l) = (normalized params xs, Some (Inr ()))"
    using Cons.hyps(1) stod_all_length [of "line_words l" xs] by (intro row_of_line) auto
  then show ?case using Cons.IH by simp
qed simp

text \<open>The weights of the chunk size model are what the file says. For a file whose first line has the normalization
  parameters and whose other lines have numbers, at most half as many as there are parameters, the rows of weights are the
  lines in their order, each number less its first parameter and divided by its second one. Once there are weights, they
  are used again without looking at the files.\<close>

lemma retreiving_weights_correct:
  assumes "weights_chunk_size w = []" "lines_of fs path_chunk_size = first_line # ls"
    "stod_all (line_words first_line) = Inr params"
    "list_all2 (\<lambda>l xs. stod_all (line_words l) = Inr xs \<and> 2 * length xs \<le> length params) ls table"
  shows "let w' = w\<lparr>weights_chunk_size := map (normalized params) table\<rparr> in
    retreiving_weights_chunk_size fs w = Some (w', Inr (map (normalized params) table)) \<and>
    (ls \<noteq> [] \<longrightarrow> retreiving_weights_chunk_size fs' w' = Some (w', Inr (map (normalized params) table)))"
proof -
  have "read_table (lines_of fs path_chunk_size) = Some (map (normalized params) table, Inr ())"
    using push_rows_correct [OF assms(4), of "[]"] assms(3) by (simp add: read_table_def assms(2) line_at_def)
  moreover have "table \<noteq> []" if "ls \<noteq> []" using assms(4) that by auto
  ultimately show ?thesis using assms(1)
    by (simp add: retreiving_weights_chunk_size_def reading_weights_chunk_size_def after_reading_def Let_def)
qed

definition small_weights_file :: file_system where
  "small_weights_file path = (if path = path_chunk_size then Some ''1 2 0 4 
5 3
7 1'' else None)"

section \<open>Decisions\<close>

text \<open>C39: with weights that fit, a chunk size is found, the share of the iterations that belongs to the chosen class. If the weights are loaded,
  with at most four rows, each at least as long as the vector of features, which has the number of iterations at index four,
  nothing is read out of bounds, no conversion is undefined and no exception is thrown. The class is the first one with the
  greatest score if a score is positive, and zero otherwise. The
  chunk size is a thousandth, a hundredth, a tenth or a half of the number of iterations rounded down, with a relative error of at
  most \<open>2 ^ - 51\<close>, for all \<open>2 ^ 64\<close> numbers of iterations.\<close>

theorem chunk_size_determination_correct:
  assumes "weights_chunk_size w \<noteq> []" "length (weights_chunk_size w) \<le> 4"
    "\<forall>row \<in> set (weights_chunk_size w). length features \<le> length row" "4 < length features"
  shows "\<exists>scores k c.
    list_all2 (\<lambda>row x. weighted_sum row (list_update features 0 threads) double_zero = Some x) (weights_chunk_size w) scores \<and>
    best_class scores k \<and> chunk_share k (features ! 4) c \<and>
    chunk_size_determination fs threads features w = Some (w, Inr (Dynamic_Chunk_Size c))"
proof -
  let ?fs = "list_update features 0 threads" and ?rows = "weights_chunk_size w"
  obtain scores where s: "list_all2 (\<lambda>row x. weighted_sum row ?fs double_zero = Some x) ?rows scores"
    using scores_exist [of ?rows ?fs] assms(3) by auto
  obtain k where k: "determine_class ?rows ?fs 0 double_zero 0 = Some k" "best_class scores k"
    using determine_class_correct [OF no_class_yet s] by auto
  have "length scores = length ?rows" using list_all2_lengthD [OF s] by simp
  then have k4: "k < 4" using best_class_bound [OF k(2)] assms(1,2) by fastforce
  obtain c where c: "u64_of_double (double_mul (chunk_candidates ! k) (double_of_u64 (features ! 4))) = Some c"
    "chunk_share k (features ! 4) c" by (rule chunk_size_of_class [OF k4])
  have "length chunk_candidates = 4" "features \<noteq> []" using assms(4) by (auto simp: chunk_candidates_def)
  then have "chunk_size_determination fs threads features w = Some (w, Inr (Dynamic_Chunk_Size c))"
    using assms(1,4) k(1) k4 c(1)
    by (simp add: chunk_size_determination_def retreiving_weights_chunk_size_def after_reading_def Let_def)
  then show ?thesis using s k(2) c(2) by blast
qed

theorem chunk_size_determination_correct_witness:
  "\<exists>scores k c.
    list_all2 (\<lambda>row x. weighted_sum row (list_update [0, 3, 2, 1, 5000] 0 8) double_zero = Some x)
      [replicate 5 (round_ratio False 1 2), replicate 5 (round_ratio False 3 4)] scores \<and>
    best_class scores k \<and> chunk_share k ([0, 3, 2, 1, 5000] ! 4) c \<and>
    chunk_size_determination small_weights_file 8 [0, 3, 2, 1, 5000]
      (no_weights\<lparr>weights_chunk_size := [replicate 5 (round_ratio False 1 2), replicate 5 (round_ratio False 3 4)]\<rparr>) =
    Some (no_weights\<lparr>weights_chunk_size := [replicate 5 (round_ratio False 1 2), replicate 5 (round_ratio False 3 4)]\<rparr>,
      Inr (Dynamic_Chunk_Size c))"
  using chunk_size_determination_correct [of
    "no_weights\<lparr>weights_chunk_size := [replicate 5 (round_ratio False 1 2), replicate 5 (round_ratio False 3 4)]\<rparr>"
    "[0, 3, 2, 1, 5000]" 8 small_weights_file]
  by simp

lemma prefetching_distance_determination_correct:
  assumes "weights_prefetching_distance w \<noteq> []" "length (weights_prefetching_distance w) \<le> 6"
    "\<forall>row \<in> set (weights_prefetching_distance w). length features \<le> length row" "features \<noteq> []"
  shows "\<exists>scores k.
    list_all2 (\<lambda>row x. weighted_sum row (list_update features 0 threads) double_zero = Some x)
      (weights_prefetching_distance w) scores \<and> best_class scores k \<and>
    prefetching_distance_determination fs threads features w = Some (w, Inr (distance_candidates ! k))"
proof -
  let ?fs = "list_update features 0 threads" and ?rows = "weights_prefetching_distance w"
  obtain scores where s: "list_all2 (\<lambda>row x. weighted_sum row ?fs double_zero = Some x) ?rows scores"
    using scores_exist [of ?rows ?fs] assms(3) by auto
  obtain k where k: "determine_class ?rows ?fs 0 double_zero 0 = Some k" "best_class scores k"
    using determine_class_correct [OF no_class_yet s] by auto
  have "length scores = length ?rows" using list_all2_lengthD [OF s] by simp
  then have "k < length distance_candidates"
    using best_class_bound [OF k(2)] assms(1,2) by (fastforce simp: distance_candidates_def)
  then show ?thesis using assms(1,4) s k
    by (auto simp: prefetching_distance_determination_def retreiving_weights_prefetching_distance_def after_reading_def)
qed

section \<open>The weights that come with the program\<close>

text \<open>Weights that are not positive give no positive score, so the class is zero whatever the features are. The files with
  the trained weights have the variance of a feature before its average, and the code subtracts the first and divides by the
  second: all weights of the chunk size model become negative.\<close>

fun nonpositive :: "double \<Rightarrow> bool" where
  "nonpositive NaN = False"
| "nonpositive (Inf neg) = neg"
| "nonpositive (Fin neg m e) = (m = 0 \<or> neg \<and> 0 < m)"

lemma round_ratio_nonpositive:
  assumes "0 \<le> n" "0 < d" "neg \<or> n = 0"
  shows "nonpositive (round_ratio neg n d)"
proof (cases "n = 0")
  case False
  then have "0 < n" "neg" using assms by auto
  then show ?thesis using round_ratio_step(2) [OF \<open>0 < n\<close> assms(2)]
    by (auto simp: round_ratio_def Let_def)
qed (simp add: round_ratio_def)

lemma double_add_nonpositive:
  assumes "nonpositive x" "nonpositive y"
  shows "nonpositive (double_add x y)"
proof (cases "\<exists>s m e t n f. x = Fin s m e \<and> y = Fin t n f")
  case True
  then obtain s m e t n f where xy: "x = Fin s m e" "y = Fin t n f" by blast
  let ?g = "min e f"
  have "sign_of s * m \<le> 0" "sign_of t * n \<le> 0" using assms by (auto simp: xy sign_of_def)
  then have "sign_of s * m * 2 ^ nat (e - ?g) + sign_of t * n * 2 ^ nat (f - ?g) \<le> 0"
    by (intro add_nonpos_nonpos mult_nonpos_nonneg [where b = "2 ^ _"]) simp_all
  then show ?thesis
    by (simp add: xy Let_def) (intro impI round_ratio_nonpositive, simp_all)
next
  case False
  then show ?thesis using assms by (cases x; cases y) auto
qed

lemma double_of_u64_nonneg: "\<exists>m e. double_of_u64 f = Fin False m e \<and> 0 \<le> m"
proof (cases "f = 0")
  case False
  then have f: "0 < uint f" "uint f < 2 ^ 64" using uint_bounded [of f] by (simp_all add: uint_0_iff less_le)
  have p: "(2 :: rat) powi (- 1022) \<le> 2 powi 0" "(2 :: rat) powi 64 \<le> 2 powi 1023" by (rule powi_mono, simp)+
  have "(of_int 1 :: rat) \<le> of_int (uint f)" "(of_int (uint f) :: rat) < of_int (2 ^ 64)"
    unfolding of_int_le_iff of_int_less_iff using f by simp_all
  then have "2 powi (- 1022) \<le> of_int (uint f) / (of_int 1 :: rat)" "of_int (uint f) / (of_int 1 :: rat) < 2 powi 1023"
    using p by simp_all
  then show ?thesis using round_ratio_value [OF f(1), of 1] unfolding double_of_u64_def
    by (metis less_imp_le zero_less_one)
qed (simp add: double_of_u64_def round_ratio_def)

lemma double_mul_nonpositive:
  assumes "nonpositive x" "finite_double x"
  shows "nonpositive (double_mul x (double_of_u64 f))"
proof -
  obtain m e where f: "double_of_u64 f = Fin False m e" "0 \<le> m" using double_of_u64_nonneg by blast
  obtain s n g where x: "x = Fin s n g" using assms(2) by (cases x) auto
  show ?thesis unfolding x f(1) double_mul.simps
    using assms(1) f(2) by (intro round_ratio_nonpositive) (auto simp: x)
qed

lemma weighted_sum_nonpositive:
  "\<forall>x \<in> set ws. nonpositive x \<and> finite_double x \<Longrightarrow> nonpositive acc \<Longrightarrow>
   weighted_sum ws features acc = Some r \<Longrightarrow> nonpositive r"
  by (induction ws features acc rule: weighted_sum.induct)
    (auto simp: double_add_nonpositive double_mul_nonpositive)

lemma nonpositive_weights_class_zero:
  assumes "\<forall>row \<in> set rows. length features \<le> length row" "\<forall>row \<in> set rows. \<forall>x \<in> set row. nonpositive x \<and> finite_double x"
  shows "determine_class rows features 0 double_zero 0 = Some 0"
proof -
  obtain scores where s: "list_all2 (\<lambda>row x. weighted_sum row features double_zero = Some x) rows scores"
    using scores_exist [OF assms(1)] .
  obtain k where k: "determine_class rows features 0 double_zero 0 = Some k" "best_class scores k"
    using determine_class_correct [OF no_class_yet s] by auto
  have "nonpositive x" if "x \<in> set scores" for x
    using s that assms(2) weighted_sum_nonpositive [of _ double_zero features x]
    by (fastforce simp: list_all2_conv_all_nth in_set_conv_nth)
  then have "\<not> positive_score x" if "x \<in> set scores" for x
    using that by (cases x) (fastforce simp: positive_score_def sign_of_def mult_less_0_iff)+
  then show ?thesis using k by (auto simp: best_class_def split: if_splits)
qed

text \<open>The first pair of normalization parameters the training program writes for the policy is \<open>1 0\<close>, so the first weight
  is divided by zero. With the trained weight the sum is infinite and every loop is executed in parallel.\<close>

lemma infinite_sum_stays: "acc \<in> {Inf False, NaN} \<Longrightarrow> weighted_sum ws features acc = Some r \<Longrightarrow> r \<in> {Inf False, NaN}"
proof (induction ws features acc rule: weighted_sum.induct)
  case (3 w ws f fs acc)
  have "double_add acc (double_mul w (double_of_u64 f)) \<in> {Inf False, NaN}"
    using 3(2) by (cases "double_mul w (double_of_u64 f)") auto
  then show ?case using 3 by simp
qed auto

lemma infinite_first_weight_parallel:
  assumes "weights_seq_par w = Inf False # ws" "features \<noteq> []" "length features \<le> length ws"
  shows "seq_or_par fs threads features w = Some (w, Inr False)"
proof -
  obtain r where r: "weighted_sum ws (list_update features 0 threads) (Inf False) = Some r"
    using weighted_sum_some [of "list_update features 0 threads" ws] assms(3) by auto
  then have "\<not> double_less r double_zero" using infinite_sum_stays [OF _ r] by auto
  then show ?thesis using assms r
    by (simp add: seq_or_par_def retreiving_weights_seq_par_def after_reading_def)
qed

lemma trained_first_weight:
  "map_sum id (\<lambda>x. double_div (double_sub x (round_ratio False 1 1)) (round_ratio False 0 1)) (stod ''1.23821'')
    = Inr (Inf False)"
  by code_simp

end
