(* ===== verification/Condition_Variable.thy ===== *)
theory Condition_Variable
  imports Hpx_Prelude
begin

text \<open>
  The condition variable of \<^verbatim>\<open>hpx/lcos/local/detail/condition_variable.hpp\<close> and
  \<^verbatim>\<open>src/lcos/local/detail/condition_variable.cpp\<close>, on which all blocking objects of HPX are built: an intrusive
  list of entries that live on the stacks of the waiting threads.

  An entry knows its thread and the list it is in. A thread that wakes up removes its entry from that list if nobody else has
  done so (\<open>wait_end\<close>). \<open>notify_all\<close> and \<open>abort_all\<close> move the entries to a list of their own first; what
  becomes of entries that refer to such a list after the call is part of the model. A waiting thread \<open>'w\<close> stands for the thread
  together with its suspended call. Changing the state of a thread belongs to the scheduler, which is the argument
  \<open>set_state\<close>: \<open>None\<close> if it succeeds.
\<close>

section \<open>Data\<close>

datatype queue_ref = Own_Queue | Local_Queue

record 'w queue_entry =
  qe_id :: "'w option"
  qe_q :: queue_ref

record 'w condition_variable =
  cv_queue :: "'w queue_entry list"

definition condition_variable_init :: "'w condition_variable" where
  "condition_variable_init = \<lparr>cv_queue = []\<rparr>"

definition cv_empty :: "'w condition_variable \<Rightarrow> bool" where
  "cv_empty cv \<longleftrightarrow> cv_queue cv = []"

definition cv_size :: "'w condition_variable \<Rightarrow> nat" where
  "cv_size cv = length (cv_queue cv)"

section \<open>Waiting\<close>

text \<open>What happens before the thread is suspended, and after it runs again for the reason \<open>reason\<close>.\<close>

datatype thread_state_ex = wait_signaled | wait_timeout | wait_abort

definition wait_begin :: "'w \<Rightarrow> 'w condition_variable \<Rightarrow> 'w condition_variable" where
  "wait_begin w cv = cv\<lparr>cv_queue := cv_queue cv @ [\<lparr>qe_id = Some w, qe_q = Own_Queue\<rparr>]\<rparr>"

text \<open>\<open>None\<close>: the entry is erased from a list that no longer exists.\<close>

definition wait_end :: "'w \<Rightarrow> thread_state_ex \<Rightarrow> 'w condition_variable \<Rightarrow> ('w condition_variable \<times> thread_state_ex) option" where
  "wait_end w reason cv =
     (case find (\<lambda>e. qe_id e = Some w) (cv_queue cv) of
        None \<Rightarrow> Some (cv, reason)
      | Some e \<Rightarrow>
          if qe_q e = Own_Queue then Some (cv\<lparr>cv_queue := remove1 e (cv_queue cv)\<rparr>, wait_timeout)
          else None)"

section \<open>Notifying\<close>

text \<open>The threads that were made to run, and the result.\<close>

definition cv_notify_one ::
  "('w \<Rightarrow> hpx_error option) \<Rightarrow> 'w condition_variable \<Rightarrow> 'w condition_variable \<times> 'w list \<times> bool result" where
  "cv_notify_one set_state cv =
     (case cv_queue cv of
        [] \<Rightarrow> (cv, [], Inr False)
      | e # es \<Rightarrow>
          let cv = cv\<lparr>cv_queue := es\<rparr> in
          case qe_id e of
            None \<Rightarrow> (cv, [], Inl null_thread_id)
          | Some w \<Rightarrow>
              let not_empty = (es \<noteq> []) in
              case set_state w of
                Some err \<Rightarrow> (cv, [], Inl err)
              | None \<Rightarrow> (cv, [w], Inr not_empty))"

text \<open>The loop over the local list: what is left of it, the threads that were made to run, and the result.\<close>

fun notify_loop ::
  "('w \<Rightarrow> hpx_error option) \<Rightarrow> 'w queue_entry list \<Rightarrow> 'w queue_entry list \<times> 'w list \<times> unit result" where
  "notify_loop set_state [] = ([], [], Inr ())"
| "notify_loop set_state (e # queue) =
     (case qe_id e of
        None \<Rightarrow> (queue, [], Inl null_thread_id)
      | Some w \<Rightarrow>
          (case set_state w of
             Some err \<Rightarrow> (queue, [], Inl err)
           | None \<Rightarrow> (let (rest, ws, r) = notify_loop set_state queue in (rest, w # ws, r))))"

definition to_local :: "'w queue_entry list \<Rightarrow> 'w queue_entry list" where
  "to_local queue = map (\<lambda>e. e\<lparr>qe_q := Local_Queue\<rparr>) queue"

definition prepend_entries :: "'w queue_entry list \<Rightarrow> 'w condition_variable \<Rightarrow> 'w condition_variable" where
  "prepend_entries queue cv = cv\<lparr>cv_queue := queue @ cv_queue cv\<rparr>"

definition cv_notify_all ::
  "('w \<Rightarrow> hpx_error option) \<Rightarrow> 'w condition_variable \<Rightarrow> 'w condition_variable \<times> 'w list \<times> unit result" where
  "cv_notify_all set_state cv =
     (let queue = cv_queue cv; cv = cv\<lparr>cv_queue := []\<rparr> in
      if queue = [] then (cv, [], Inr ())
      else
        let (rest, ws, r) = notify_loop set_state (to_local queue) in
        (case r of Inl _ \<Rightarrow> prepend_entries rest cv | Inr _ \<Rightarrow> cv, ws, r))"

text \<open>
  \<open>abort_all\<close> releases the lock whenever it aborts a thread, so it is a sequence of steps on the list it has taken: one turn
  of the inner loop, or taking the list again. The result is the thread that is aborted; nothing is left to do when both lists
  are empty. Failing to abort a thread is only logged.
\<close>

definition abort_turn ::
  "'w condition_variable \<times> 'w queue_entry list \<Rightarrow> ('w condition_variable \<times> 'w queue_entry list) \<times> 'w option" where
  "abort_turn = (\<lambda>(cv, queue).
     case queue of
       e # es \<Rightarrow> ((cv, es), qe_id e)
     | [] \<Rightarrow> ((cv\<lparr>cv_queue := []\<rparr>, to_local (cv_queue cv)), None))"

partial_function (option) abort_all ::
  "'w condition_variable \<times> 'w queue_entry list \<Rightarrow> 'w list option" where
  "abort_all s =
     (if cv_queue (fst s) = [] \<and> snd s = [] then Some []
      else Option.bind (abort_all (fst (abort_turn s)))
        (\<lambda>ws. Some (case snd (abort_turn s) of None \<Rightarrow> ws | Some w \<Rightarrow> w # ws)))"

section \<open>The queue of threads\<close>

text \<open>
  What the objects built on a condition variable rely on: it is a queue of waiting threads, first come first served,
  from which a thread can also take itself. The laws are those of lists; a client may use its own order of waiting threads.
\<close>

locale waiting_queue =
  fixes valid :: "'q \<Rightarrow> bool" and waiters :: "'q \<Rightarrow> 'w list"
    and enqueue :: "'w \<Rightarrow> 'q \<Rightarrow> 'q" and wake_one :: "'q \<Rightarrow> 'q \<times> 'w list \<times> bool"
    and wake_all :: "'q \<Rightarrow> 'q \<times> 'w list" and leave :: "'w \<Rightarrow> 'q \<Rightarrow> 'q \<times> bool"
  assumes enqueue_law: "valid q \<Longrightarrow> valid (enqueue w q) \<and> waiters (enqueue w q) = waiters q @ [w]"
    and wake_one_law: "valid q \<Longrightarrow> wake_one q = (q', ws, others) \<Longrightarrow>
      valid q' \<and> waiters q = ws @ waiters q' \<and> length ws = min 1 (length (waiters q)) \<and> others = (waiters q' \<noteq> [])"
    and wake_all_law: "valid q \<Longrightarrow> wake_all q = (q', ws) \<Longrightarrow> valid q' \<and> ws = waiters q \<and> waiters q' = []"
    and leave_law: "valid q \<Longrightarrow> leave w q = (q', timeout) \<Longrightarrow>
      valid q' \<and> waiters q' = remove1 w (waiters q) \<and> timeout = (w \<in> set (waiters q))"
begin

text \<open>Nobody overtakes: the threads that have been woken, followed by those that wait, are the threads that came, in order.\<close>

fun serve :: "'w option list \<Rightarrow> 'q \<Rightarrow> 'q \<times> 'w list" where
  "serve [] q = (q, [])"
| "serve (Some w # ops) q = serve ops (enqueue w q)"
| "serve (None # ops) q = (let (q, ws, _) = wake_one q; (q, ws') = serve ops q in (q, ws @ ws'))"

lemma serve_in_order:
  "valid q \<Longrightarrow> serve ops q = (q', ws) \<Longrightarrow>
   valid q' \<and> ws @ waiters q' = waiters q @ concat (map (\<lambda>op. case op of Some w \<Rightarrow> [w] | None \<Rightarrow> []) ops)"
proof (induction ops arbitrary: q ws)
  case (Cons op ops)
  show ?case
  proof (cases op)
    case None
    obtain r vs others where r: "wake_one q = (r, vs, others)" by (metis prod_cases3)
    obtain r' ws' where r': "serve ops r = (r', ws')" by fastforce
    note l = wake_one_law [OF Cons.prems(1) r]
    have e: "q' = r'" "ws = vs @ ws'" using Cons.prems(2) by (simp_all add: None r r')
    then show ?thesis using Cons.IH [OF _ r' [folded e(1)]] l by (simp add: None)
  next
    case (Some w)
    then show ?thesis using Cons.IH [of "enqueue w q" ws] Cons.prems enqueue_law [of q w] by simp
  qed
qed simp

end

definition cv_valid :: "'w condition_variable \<Rightarrow> bool" where
  "cv_valid cv \<longleftrightarrow> (\<forall>e \<in> set (cv_queue cv). qe_id e \<noteq> None \<and> qe_q e = Own_Queue)"

definition cv_waiters :: "'w condition_variable \<Rightarrow> 'w list" where
  "cv_waiters cv = map (\<lambda>e. the (qe_id e)) (cv_queue cv)"

definition always_runs :: "'w \<Rightarrow> hpx_error option" where
  "always_runs w = None"

lemma notify_loop_outcome:
  fixes set_state :: "'w \<Rightarrow> hpx_error option"
  assumes "\<forall>e \<in> set queue. qe_id e \<noteq> None"
  defines "ws \<equiv> map (\<lambda>e. the (qe_id e)) queue"
  defines "good \<equiv> takeWhile (\<lambda>w. set_state w = None) ws"
  shows "notify_loop set_state queue =
    (drop (Suc (length good)) queue, good,
     if length good < length ws then Inl (the (set_state (ws ! length good))) else Inr ())"
  using assms(1) unfolding good_def ws_def
  by (induction queue) (auto split: option.splits)

lemma notify_all_outcome:
  fixes set_state :: "'w \<Rightarrow> hpx_error option"
  assumes "cv_valid cv"
  defines "good \<equiv> takeWhile (\<lambda>w. set_state w = None) (cv_waiters cv)"
  shows "cv_notify_all set_state cv =
    (cv\<lparr>cv_queue := drop (Suc (length good)) (to_local (cv_queue cv))\<rparr>, good,
     if length good < length (cv_waiters cv) then Inl (the (set_state (cv_waiters cv ! length good))) else Inr ())"
proof -
  let ?l = "to_local (cv_queue cv)"
  have v: "\<forall>e \<in> set ?l. qe_id e \<noteq> None" using assms(1) by (auto simp: cv_valid_def to_local_def)
  have w: "map (\<lambda>e. the (qe_id e)) ?l = cv_waiters cv" by (simp add: to_local_def cv_waiters_def)
  have n: "length ?l = length (cv_waiters cv)" by (simp flip: w)
  have "cv_notify_all set_state cv = (case notify_loop set_state ?l of (rest, ws, r) \<Rightarrow>
      (case r of Inl _ \<Rightarrow> prepend_entries rest (cv\<lparr>cv_queue := []\<rparr>) | Inr _ \<Rightarrow> cv\<lparr>cv_queue := []\<rparr>, ws, r))"
    by (cases "cv_queue cv = []") (simp_all add: cv_notify_all_def Let_def to_local_def)
  then show ?thesis
    unfolding notify_loop_outcome [OF v, of set_state, unfolded w] good_def
    by (simp add: prepend_entries_def n)
qed

lemma notify_all_runs:
  assumes "cv_valid cv"
  shows "cv_notify_all always_runs cv = (cv\<lparr>cv_queue := []\<rparr>, cv_waiters cv, Inr ())"
proof -
  have "takeWhile (\<lambda>w. always_runs w = None) (cv_waiters cv) = cv_waiters cv"
    by (simp add: always_runs_def)
  moreover have "length (to_local (cv_queue cv)) = length (cv_waiters cv)" by (simp add: to_local_def cv_waiters_def)
  ultimately show ?thesis using notify_all_outcome [OF assms, of always_runs] by (simp del: takeWhile_eq_all_conv)
qed

lemma cv_find_waiter:
  assumes "cv_valid cv"
  shows "find (\<lambda>e. qe_id e = Some w) (cv_queue cv) =
    (if w \<in> set (cv_waiters cv) then Some \<lparr>qe_id = Some w, qe_q = Own_Queue\<rparr> else None)"
proof -
  have "find (\<lambda>e. qe_id e = Some w) es = (if w \<in> set (map (\<lambda>e. the (qe_id e)) es) then Some \<lparr>qe_id = Some w, qe_q = Own_Queue\<rparr> else None)"
    if "\<forall>e \<in> set es. qe_id e \<noteq> None \<and> qe_q e = Own_Queue" for es :: "'a queue_entry list"
    using that by (induction es) auto
  then show ?thesis using assms by (simp add: cv_valid_def cv_waiters_def)
qed

lemma cv_remove_waiter:
  assumes "cv_valid cv"
  shows "map (\<lambda>e. the (qe_id e)) (remove1 \<lparr>qe_id = Some w, qe_q = Own_Queue\<rparr> (cv_queue cv)) = remove1 w (cv_waiters cv)"
proof -
  have "map (\<lambda>e. the (qe_id e)) (remove1 \<lparr>qe_id = Some w, qe_q = Own_Queue\<rparr> es) = remove1 w (map (\<lambda>e. the (qe_id e)) es)"
    if "\<forall>e \<in> set es. qe_id e \<noteq> None \<and> qe_q e = Own_Queue" for es :: "'a queue_entry list"
    using that by (induction es) auto
  then show ?thesis using assms by (simp add: cv_valid_def cv_waiters_def)
qed

lemma wait_end_valid:
  assumes "cv_valid cv"
  obtains cv' where "cv_valid cv'" "cv_waiters cv' = remove1 w (cv_waiters cv)"
    "wait_end w reason cv = Some (cv', if w \<in> set (cv_waiters cv) then wait_timeout else reason)"
proof -
  let ?e = "\<lparr>qe_id = Some w, qe_q = Own_Queue\<rparr>"
  let ?cv = "if w \<in> set (cv_waiters cv) then cv\<lparr>cv_queue := remove1 ?e (cv_queue cv)\<rparr> else cv"
  have "cv_valid ?cv" using assms set_remove1_subset [of ?e "cv_queue cv"] by (auto simp: cv_valid_def)
  moreover have "cv_waiters ?cv = remove1 w (cv_waiters cv)"
    using cv_remove_waiter [OF assms, of w] by (auto simp: cv_waiters_def [of "_ \<lparr>cv_queue := _\<rparr>"] remove1_idem)
  moreover have "wait_end w reason cv = Some (?cv, if w \<in> set (cv_waiters cv) then wait_timeout else reason)"
    by (simp add: wait_end_def cv_find_waiter [OF assms])
  ultimately show thesis by (rule that)
qed

interpretation cv: waiting_queue cv_valid cv_waiters wait_begin
  "\<lambda>cv. let (cv', ws, r) = cv_notify_one always_runs cv in (cv', ws, r = Inr True)"
  "\<lambda>cv. let (cv', ws, r) = cv_notify_all always_runs cv in (cv', ws)"
  "\<lambda>w cv. let (cv', reason) = the (wait_end w wait_signaled cv) in (cv', reason = wait_timeout)"
proof
  fix q q' :: "'a condition_variable" and w :: 'a and ws :: "'a list" and others timeout :: bool
  assume q: "cv_valid q"
  show "cv_valid (wait_begin w q) \<and> cv_waiters (wait_begin w q) = cv_waiters q @ [w]"
    using q by (auto simp: cv_valid_def wait_begin_def cv_waiters_def)
  show "cv_valid q' \<and> cv_waiters q = ws @ cv_waiters q' \<and> length ws = min 1 (length (cv_waiters q)) \<and>
      others = (cv_waiters q' \<noteq> [])"
    if "(let (cv', ws, r) = cv_notify_one always_runs q in (cv', ws, r = Inr True)) = (q', ws, others)"
    using that q
    by (cases "cv_queue q") (auto simp: cv_notify_one_def cv_valid_def cv_waiters_def always_runs_def Let_def split: option.splits)
  show "cv_valid q' \<and> ws = cv_waiters q \<and> cv_waiters q' = []"
    if "(let (cv', ws, r) = cv_notify_all always_runs q in (cv', ws)) = (q', ws)"
    using that by (auto simp: notify_all_runs [OF q] cv_valid_def cv_waiters_def)
  show "cv_valid q' \<and> cv_waiters q' = remove1 w (cv_waiters q) \<and> timeout = (w \<in> set (cv_waiters q))"
    if "(let (cv', reason) = the (wait_end w wait_signaled q) in (cv', reason = wait_timeout)) = (q', timeout)"
  proof -
    obtain cv' where "cv_valid cv'" "cv_waiters cv' = remove1 w (cv_waiters q)"
      "wait_end w wait_signaled q = Some (cv', if w \<in> set (cv_waiters q) then wait_timeout else wait_signaled)"
      by (rule wait_end_valid [OF q])
    then show ?thesis using that by (auto split: if_splits)
  qed
qed

text \<open>Aborting takes all waiting threads, those of the own list first.\<close>

lemma abort_all_local: "abort_all (cv, queue) = map_option (\<lambda>ws. List.map_filter qe_id queue @ ws) (abort_all (cv, []))"
proof (induction queue)
  case Nil
  show ?case by (cases "abort_all (cv, [])") simp_all
next
  case (Cons e es)
  then show ?case by (cases "abort_all (cv, [])")
    (auto simp: abort_all.simps [of "(cv, e # es)"] abort_turn_def List.map_filter_simps split: option.splits)
qed

lemma abort_all_takes_all: "abort_all (cv, []) = Some (List.map_filter qe_id (cv_queue cv))"
proof (cases "cv_queue cv = []")
  case False
  have "abort_all (cv\<lparr>cv_queue := []\<rparr>, []) = Some []" by (simp add: abort_all.simps)
  moreover have "List.map_filter qe_id (to_local es) = List.map_filter qe_id es" for es :: "'a queue_entry list"
    by (simp add: to_local_def List.map_filter_def filter_map comp_def)
  ultimately show ?thesis
    using False abort_all_local [of "cv\<lparr>cv_queue := []\<rparr>" "to_local (cv_queue cv)"]
    by (simp add: abort_all.simps [of "(cv, [])"] abort_turn_def)
qed (simp add: abort_all.simps List.map_filter_simps)

text \<open>What \<open>notify_all\<close> does, whatever the scheduler answers. It runs the waiting threads in the order in which they
  came, up to the first one whose state cannot be changed: that one is dropped, the error is reported and the
  threads behind it keep waiting in their order. If the state of all can be changed all of them run and none waits.\<close>

lemma cv_notify_all_outcome:
  assumes "cv_valid cv"
  shows "let good = takeWhile (\<lambda>w. set_state w = None) (cv_waiters cv);
             (cv', ws, r) = cv_notify_all set_state cv
         in ws = good \<and> cv_waiters cv' = drop (Suc (length good)) (cv_waiters cv) \<and>
            r = (if length good < length (cv_waiters cv)
                 then Inl (the (set_state (cv_waiters cv ! length good))) else Inr ())"
proof -
  have "cv_waiters (cv\<lparr>cv_queue := drop n (to_local (cv_queue cv))\<rparr>) = drop n (cv_waiters cv)" for n
    by (simp add: cv_waiters_def to_local_def drop_map)
  then show ?thesis using notify_all_outcome [OF assms, of set_state] by (simp add: Let_def)
qed

definition example_cv :: "nat condition_variable" where
  "example_cv = wait_begin 3 (wait_begin 2 (wait_begin 1 condition_variable_init))"

text \<open>After an error the entries of the threads that still wait refer to the list of the call that has ended: when such a
  thread times out it erases its entry from a list that no longer exists.\<close>

lemma notify_all_leaves_dangling_entries:
  "wait_end 3 wait_timeout (fst (cv_notify_all (\<lambda>w. if w = 2 then Some bad_parameter else None) example_cv)) = None"
  by code_simp

end
