(* ===== verification/Monitor.thy ===== *)
theory Monitor
  imports Condition_Variable
begin

text \<open>
  How threads use an object that is built on a mutex and condition variables. A call is cut into sections that run
  while the mutex is held (or that are one atomic access): \<open>sec t p n s\<close> is what thread \<open>t\<close> does from the
  point \<open>p\<close> of its call on, given the members \<open>s\<close> of the object and the lengths \<open>n\<close> of its queues. It either waits on a condition variable or goes on,
  possibly after waking other threads. Threads call operations at any time and their sections run in any order.

  A thread that waits with a time limit can be woken by its timer. Its entry stays in the queue until the thread has the mutex
  again, so that it can still be notified; the scheduler ignores the second change of its state
  (\<^verbatim>\<open>hpx/runtime/threads/detail/set_thread_state.hpp\<close>: nothing is done if the thread is pending). Threads are
  neither interrupted nor aborted.
\<close>

section \<open>States and steps\<close>

type_synonym tid = nat

text \<open>A waiting call: where it goes on when it is notified, and when its time is over.\<close>

type_synonym 'p waiter = "tid \<times> 'p \<times> 'p option"

datatype wake = Wake_One | Wake_All

text \<open>What a section ends with. Going on depends on what the last \<open>notify_one\<close> gives: whether more threads wait. \<open>Inl\<close> is
  another section, \<open>Inr\<close> the return value of the call.\<close>

datatype ('c, 'p, 'v) action =
    Suspend 'c 'p "'p option"
  | Proceed "('c \<times> wake) list" "bool \<Rightarrow> 'p + 'v"

abbreviation return_value :: "'v \<Rightarrow> ('c, 'p, 'v) action" where
  "return_value v \<equiv> Proceed [] (\<lambda>_. Inr v)"

text \<open>The section a thread runs may look at the number of threads that wait.\<close>

type_synonym ('s, 'c, 'p, 'v) sections = "tid \<Rightarrow> 'p \<Rightarrow> ('c \<Rightarrow> nat) \<Rightarrow> 's \<Rightarrow> 's \<times> ('c, 'p, 'v) action"

text \<open>A thread that is to run: from a point of its call on, or after its timer has woken it.\<close>

datatype ('c, 'p) resume = Run 'p | Timed_Out 'c 'p

record ('s, 'c, 'p, 'v) monitor =
  members :: 's
  conds :: "'c \<Rightarrow> 'p waiter condition_variable"
  ready :: "(tid \<times> ('c, 'p) resume) list"
  returned :: "(tid \<times> 'v) list"

definition monitor_init :: "'s \<Rightarrow> ('s, 'c, 'p, 'v) monitor" where
  "monitor_init s = \<lparr>members = s, conds = (\<lambda>_. condition_variable_init), ready = [], returned = []\<rparr>"

definition make_ready ::
  "'p waiter list \<Rightarrow> (tid \<times> ('c, 'p) resume) list \<Rightarrow> (tid \<times> ('c, 'p) resume) list" where
  "make_ready ws rd = rd @ map (\<lambda>(t, p, _). (t, Run p)) (filter (\<lambda>w. fst w \<notin> fst ` set rd) ws)"

fun wake_threads ::
  "('c \<times> wake) list \<Rightarrow> ('c \<Rightarrow> 'p waiter condition_variable) \<Rightarrow> (tid \<times> ('c, 'p) resume) list \<Rightarrow> bool
    \<Rightarrow> ('c \<Rightarrow> 'p waiter condition_variable) \<times> (tid \<times> ('c, 'p) resume) list \<times> bool" where
  "wake_threads [] cs rd others = (cs, rd, others)"
| "wake_threads ((c, Wake_One) # ns) cs rd others =
     (let (cv, ws, r) = cv_notify_one always_runs (cs c)
      in wake_threads ns (cs(c := cv)) (make_ready ws rd) (r = Inr True))"
| "wake_threads ((c, Wake_All) # ns) cs rd others =
     (let (cv, ws, r) = cv_notify_all always_runs (cs c)
      in wake_threads ns (cs(c := cv)) (make_ready ws rd) False)"

text \<open>Getting the mutex again after the timer: the entry is erased if it is still there.\<close>

definition leave_queue :: "tid \<Rightarrow> 'p waiter condition_variable \<Rightarrow> 'p waiter condition_variable" where
  "leave_queue t cv =
     (case find (\<lambda>w. fst w = t) (cv_waiters cv) of
        None \<Rightarrow> cv
      | Some w \<Rightarrow> (case wait_end w wait_timeout cv of Some (cv', _) \<Rightarrow> cv' | None \<Rightarrow> cv))"

fun point_of :: "('c, 'p) resume \<Rightarrow> 'p" where
  "point_of (Run p) = p"
| "point_of (Timed_Out c p) = p"

fun conds_of :: "tid \<Rightarrow> ('c, 'p) resume \<Rightarrow> ('c \<Rightarrow> 'p waiter condition_variable) \<Rightarrow> 'c \<Rightarrow> 'p waiter condition_variable" where
  "conds_of t (Run p) cs = cs"
| "conds_of t (Timed_Out c p) cs = cs(c := leave_queue t (cs c))"

definition run_section ::
  "('s, 'c, 'p, 'v) sections \<Rightarrow> nat \<Rightarrow> ('s, 'c, 'p, 'v) monitor \<Rightarrow> ('s, 'c, 'p, 'v) monitor" where
  "run_section sec i m =
     (let (t, pc) = ready m ! i;
          rd = take i (ready m) @ drop (Suc i) (ready m);
          cs = conds_of t pc (conds m);
          (s, act) = sec t (point_of pc) (\<lambda>c. cv_size (cs c)) (members m)
      in case act of
           Suspend c p q \<Rightarrow> m\<lparr>members := s, conds := cs(c := wait_begin (t, p, q) (cs c)), ready := rd\<rparr>
         | Proceed ns go \<Rightarrow>
             let (cs, rd, others) = wake_threads ns cs rd False in
             case go others of
               Inl p \<Rightarrow> m\<lparr>members := s, conds := cs, ready := rd @ [(t, Run p)]\<rparr>
             | Inr v \<Rightarrow> m\<lparr>members := s, conds := cs, ready := rd, returned := returned m @ [(t, v)]\<rparr>)"

definition idle :: "('s, 'c, 'p, 'v) monitor \<Rightarrow> tid \<Rightarrow> bool" where
  "idle m t \<longleftrightarrow> t \<notin> fst ` set (ready m) \<and> (\<forall>c. t \<notin> fst ` set (cv_waiters (conds m c)))"

definition call_operation :: "tid \<Rightarrow> 'p \<Rightarrow> ('s, 'c, 'p, 'v) monitor \<Rightarrow> ('s, 'c, 'p, 'v) monitor" where
  "call_operation t p m = m\<lparr>ready := ready m @ [(t, Run p)]\<rparr>"

inductive monitor_step ::
  "('s, 'c, 'p, 'v) sections \<Rightarrow> (('s, 'c, 'p, 'v) monitor \<Rightarrow> tid \<Rightarrow> 'p \<Rightarrow> bool) \<Rightarrow> ('s, 'c, 'p, 'v) monitor \<Rightarrow> ('s, 'c, 'p, 'v) monitor \<Rightarrow> bool"
  for sec entry where
  call_step: "idle m t \<Longrightarrow> entry m t p \<Longrightarrow> monitor_step sec entry m (call_operation t p m)"
| run_step: "i < length (ready m) \<Longrightarrow> monitor_step sec entry m (run_section sec i m)"
| timer_step: "(t, p, Some q) \<in> set (cv_waiters (conds m c)) \<Longrightarrow> t \<notin> fst ` set (ready m) \<Longrightarrow>
    monitor_step sec entry m (m\<lparr>ready := ready m @ [(t, Timed_Out c q)]\<rparr>)"

inductive monitor_reachable ::
  "('s, 'c, 'p, 'v) sections \<Rightarrow> (('s, 'c, 'p, 'v) monitor \<Rightarrow> tid \<Rightarrow> 'p \<Rightarrow> bool) \<Rightarrow> 's \<Rightarrow> ('s, 'c, 'p, 'v) monitor \<Rightarrow> bool"
  for sec entry s0 where
  reach_init: "monitor_reachable sec entry s0 (monitor_init s0)"
| reach_step: "monitor_reachable sec entry s0 m \<Longrightarrow> monitor_step sec entry m m' \<Longrightarrow> monitor_reachable sec entry s0 m'"

inductive_cases monitor_stepE: "monitor_step sec entry m m'"

section \<open>Objects without time limits\<close>

text \<open>The view of an object whose calls wait without time limit: its members, the queues of waiting threads, the threads that are to
  run and what calls have returned.\<close>

fun wakes ::
  "('c \<times> wake) list \<Rightarrow> ('c \<Rightarrow> (tid \<times> 'p) list) \<Rightarrow> (tid \<times> 'p) list \<Rightarrow> bool
    \<Rightarrow> ('c \<Rightarrow> (tid \<times> 'p) list) \<times> (tid \<times> 'p) list \<times> bool" where
  "wakes [] W R others = (W, R, others)"
| "wakes ((c, Wake_One) # ns) W R others = wakes ns (W(c := tl (W c))) (R @ take 1 (W c)) (tl (W c) \<noteq> [])"
| "wakes ((c, Wake_All) # ns) W R others = wakes ns (W(c := [])) (R @ W c) False"

text \<open>Every thread makes one call at a time.\<close>

definition one_call :: "('c \<Rightarrow> (tid \<times> 'p) list) \<Rightarrow> (tid \<times> 'p) list \<Rightarrow> bool" where
  "one_call W R \<longleftrightarrow> distinct (map fst R) \<and>
     (\<forall>c. distinct (map fst (W c)) \<and> fst ` set (W c) \<inter> fst ` set R = {} \<and>
       (\<forall>d. c \<noteq> d \<longrightarrow> fst ` set (W c) \<inter> fst ` set (W d) = {}))"

lemma one_call_move:
  assumes "one_call W R" "W c = us @ vs"
  shows "one_call (W(c := vs)) (R @ us)"
proof -
  have d: "distinct (map fst R)" "distinct (map fst us)" "distinct (map fst vs)" "fst ` set us \<inter> fst ` set vs = {}"
    "(fst ` set us \<union> fst ` set vs) \<inter> fst ` set R = {}"
    using assms(1) spec [of _ c] unfolding one_call_def
    by (metis assms(2) distinct_append image_Un map_append set_append set_map)+
  have o: "distinct (map fst (W d)) \<and> fst ` set (W d) \<inter> fst ` set R = {}" for d
    using assms(1) by (simp add: one_call_def)
  have e: "fst ` set (W d) \<inter> fst ` set (W e) = {}" if "d \<noteq> e" for d e
    using assms(1) that by (simp add: one_call_def)
  have c: "fst ` set (W d) \<inter> (fst ` set us \<union> fst ` set vs) = {}" if "d \<noteq> c" for d
    using e [OF that] by (simp add: assms(2) image_Un)
  show ?thesis unfolding one_call_def
  proof (intro conjI allI impI)
    show "distinct (map fst (R @ us))" using d by auto
    show "distinct (map fst ((W(c := vs)) x))" for x using d(3) o by simp
    show "fst ` set ((W(c := vs)) x) \<inter> fst ` set (R @ us) = {}" for x
      using d(4,5) o [of x] c [of x] by (cases "x = c") (auto simp: image_Un)
    show "fst ` set ((W(c := vs)) x) \<inter> fst ` set ((W(c := vs)) y) = {}" if "x \<noteq> y" for x y
      using that e [of x y] c [of x] c [of y] by (cases "x = c"; cases "y = c") (simp_all, blast+)
  qed
qed

definition all_threads :: "('c \<Rightarrow> (tid \<times> 'p) list) \<Rightarrow> (tid \<times> 'p) list \<Rightarrow> tid set" where
  "all_threads W R = fst ` set R \<union> (\<Union>c. fst ` set (W c))"

lemma all_threads_move: "W c = us @ vs \<Longrightarrow> all_threads (W(c := vs)) (R @ us) = all_threads W R"
  by (auto simp: all_threads_def image_Un split: if_splits) (metis Un_iff image_eqI set_append fst_conv)+

lemma wakes_moves:
  assumes "\<And>W R c us vs. P W R \<Longrightarrow> W c = us @ vs \<Longrightarrow> P (W(c := vs)) (R @ us)"
  shows "P W R \<Longrightarrow> wakes ns W R b = (W', R', b') \<Longrightarrow> P W' R'"
proof (induction ns arbitrary: W R b)
  case (Cons n ns)
  obtain c k where n: "n = (c, k)" by fastforce
  have "P (W(c := tl (W c))) (R @ take 1 (W c))" "P (W(c := [])) (R @ W c)"
    using assms [of W R c "take 1 (W c)" "tl (W c)"] assms [of W R c "W c" "[]"] Cons.prems(1)
    by (cases "W c"; simp)+
  then show ?case using Cons.IH Cons.prems(2) by (cases k) (simp_all only: n wakes.simps)
qed simp

lemma one_call_wakes:
  assumes "one_call W R" "wakes ns W R b = (W', R', b')"
  shows "one_call W' R'" "all_threads W' R' = all_threads W R"
proof -
  show "one_call W' R'" by (rule wakes_moves [of one_call, OF one_call_move assms])
  show "all_threads W' R' = all_threads W R"
    using wakes_moves [of "\<lambda>W' R'. all_threads W' R' = all_threads W R", OF _ refl assms(2)] all_threads_move by metis
qed

section \<open>From the queues to their threads\<close>

lemma make_ready_disjoint:
  assumes "fst ` set ws \<inter> fst ` set rd = {}"
  shows "map (\<lambda>(t, pc). (t, point_of pc)) (make_ready ws rd) =
    map (\<lambda>(t, pc). (t, point_of pc)) rd @ map (\<lambda>(t, p, q). (t, p)) ws"
proof -
  have "filter (\<lambda>w. fst w \<notin> fst ` set rd) ws = ws" using assms by (auto simp: filter_id_conv)
  then show ?thesis by (simp add: make_ready_def case_prod_unfold comp_def)
qed

definition cond_threads :: "('c \<Rightarrow> 'p waiter condition_variable) \<Rightarrow> 'c \<Rightarrow> (tid \<times> 'p) list" where
  "cond_threads cs c = map (\<lambda>(t, p, q). (t, p)) (cv_waiters (cs c))"

definition ready_threads :: "(tid \<times> ('c, 'p) resume) list \<Rightarrow> (tid \<times> 'p) list" where
  "ready_threads rd = map (\<lambda>(t, pc). (t, point_of pc)) rd"

definition all_untimed :: "('c \<Rightarrow> 'p waiter condition_variable) \<Rightarrow> (tid \<times> ('c, 'p) resume) list \<Rightarrow> bool" where
  "all_untimed cs rd \<longleftrightarrow> (\<forall>c. cv_valid (cs c) \<and> (\<forall>w \<in> set (cv_waiters (cs c)). snd (snd w) = None)) \<and>
     (\<forall>r \<in> set rd. \<exists>p. snd r = Run p)"

lemma fst_cond_threads: "fst ` set (cond_threads cs c) = fst ` set (cv_waiters (cs c))"
  by (force simp: cond_threads_def)

lemma fst_ready_threads: "fst ` set (ready_threads rd) = fst ` set rd"
  by (force simp: ready_threads_def)

lemma wake_threads_move:
  assumes "all_untimed cs rd" "one_call (cond_threads cs) (ready_threads rd)" "cv_valid cv"
    "cv_waiters (cs c) = ws @ cv_waiters cv"
  shows "all_untimed (cs(c := cv)) (make_ready ws rd)"
    "cond_threads (cs(c := cv)) = (cond_threads cs)(c := map (\<lambda>(t, p, q). (t, p)) (cv_waiters cv))"
    "ready_threads (make_ready ws rd) = ready_threads rd @ map (\<lambda>(t, p, q). (t, p)) ws"
proof -
  have "fst ` set (cond_threads cs c) \<inter> fst ` set (ready_threads rd) = {}" using assms(2) by (simp add: one_call_def)
  then have "fst ` set ws \<inter> fst ` set rd = {}"
    unfolding fst_cond_threads fst_ready_threads assms(4) by auto
  then show "ready_threads (make_ready ws rd) = ready_threads rd @ map (\<lambda>(t, p, q). (t, p)) ws"
    unfolding ready_threads_def by (rule make_ready_disjoint)
  show "cond_threads (cs(c := cv)) = (cond_threads cs)(c := map (\<lambda>(t, p, q). (t, p)) (cv_waiters cv))"
    by (auto simp: cond_threads_def)
  have "\<forall>w \<in> set (cv_waiters (cs c)). snd (snd w) = None" using assms(1) by (simp add: all_untimed_def)
  then have "\<forall>w \<in> set (cv_waiters cv). snd (snd w) = None" by (simp add: assms(4))
  then show "all_untimed (cs(c := cv)) (make_ready ws rd)"
    using assms(1,3) by (auto simp: all_untimed_def make_ready_def)
qed

lemma first_of_queue: "xs = ws @ vs \<Longrightarrow> length ws = min 1 (length xs) \<Longrightarrow> vs = tl xs \<and> ws = take 1 xs"
  by (cases xs; cases ws) auto

lemma notify_one_moves:
  assumes "cv_notify_one always_runs cv = (cv', ws, r)" "cv_valid cv"
  shows "cv_valid cv'" "cv_waiters cv = ws @ cv_waiters cv'" "(r = Inr True) = (tl (cv_waiters cv) \<noteq> [])"
    "cv_waiters cv' = tl (cv_waiters cv)" "ws = take 1 (cv_waiters cv)"
proof -
  have "(let (cv', ws, r) = cv_notify_one always_runs cv in (cv', ws, r = Inr True)) = (cv', ws, r = Inr True)"
    by (simp add: assms(1))
  from cv.wake_one_law [OF assms(2) this]
  have l: "cv_valid cv'" "cv_waiters cv = ws @ cv_waiters cv'" "length ws = min 1 (length (cv_waiters cv))"
    "(r = Inr True) = (cv_waiters cv' \<noteq> [])" by blast+
  then show "cv_valid cv'" "cv_waiters cv = ws @ cv_waiters cv'" by blast+
  show "cv_waiters cv' = tl (cv_waiters cv)" "ws = take 1 (cv_waiters cv)" using first_of_queue [OF l(2,3)] by blast+
  then show "(r = Inr True) = (tl (cv_waiters cv) \<noteq> [])" using l(4) by simp
qed

lemma notify_all_moves:
  assumes "cv_notify_all always_runs cv = (cv', ws, r)" "cv_valid cv"
  shows "cv_valid cv'" "cv_waiters cv = ws @ cv_waiters cv'" "cv_waiters cv' = []" "ws = cv_waiters cv"
proof -
  have "(let (cv', ws, r) = cv_notify_all always_runs cv in (cv', ws)) = (cv', ws)" by (simp add: assms(1))
  from cv.wake_all_law [OF assms(2) this]
  show "cv_valid cv'" "cv_waiters cv = ws @ cv_waiters cv'" "cv_waiters cv' = []" "ws = cv_waiters cv" by simp_all
qed

lemma wake_threads_wakes:
  "all_untimed cs rd \<Longrightarrow> one_call (cond_threads cs) (ready_threads rd) \<Longrightarrow>
   wake_threads ns cs rd b = (cs', rd', b') \<Longrightarrow>
   all_untimed cs' rd' \<and> wakes ns (cond_threads cs) (ready_threads rd) b = (cond_threads cs', ready_threads rd', b')"
proof (induction ns arbitrary: cs rd b)
  case (Cons n ns)
  obtain c k where n: "n = (c, k)" by fastforce
  have v: "cv_valid (cs c)" using Cons.prems(1) by (simp add: all_untimed_def)
  show ?case
  proof (cases k)
    case Wake_One
    obtain cv ws r where e: "cv_notify_one always_runs (cs c) = (cv, ws, r)" by (metis prod_cases3)
    note l = notify_one_moves [OF e v]
    note mv = wake_threads_move [OF Cons.prems(1,2) l(1,2)]
    have o: "one_call (cond_threads (cs(c := cv))) (ready_threads (make_ready ws rd))"
      unfolding mv(2,3) by (rule one_call_move [OF Cons.prems(2)]) (simp add: cond_threads_def l(2))
    have w: "wake_threads ns (cs(c := cv)) (make_ready ws rd) (r = Inr True) = (cs', rd', b')"
      using Cons.prems(3) by (simp add: n Wake_One e)
    have "wakes (n # ns) (cond_threads cs) (ready_threads rd) b =
        wakes ns (cond_threads (cs(c := cv))) (ready_threads (make_ready ws rd)) (r = Inr True)"
    proof -
      have a: "tl (cond_threads cs c) = map (\<lambda>(t, p, q). (t, p)) (cv_waiters cv)"
        unfolding cond_threads_def l(4) map_tl ..
      have b: "take 1 (cond_threads cs c) = map (\<lambda>(t, p, q). (t, p)) ws"
        unfolding cond_threads_def l(5) take_map ..
      have d: "(tl (cond_threads cs c) \<noteq> []) = (r = Inr True)"
        unfolding a l(3) l(4) [symmetric] by simp
      show ?thesis unfolding n Wake_One wakes.simps mv(2,3) d unfolding a b ..
    qed
    then show ?thesis using Cons.IH [OF mv(1) o w] by simp
  next
    case Wake_All
    obtain cv ws r where e: "cv_notify_all always_runs (cs c) = (cv, ws, r)" by (metis prod_cases3)
    note l = notify_all_moves [OF e v]
    note mv = wake_threads_move [OF Cons.prems(1,2) l(1,2)]
    have o: "one_call (cond_threads (cs(c := cv))) (ready_threads (make_ready ws rd))"
      unfolding mv(2,3) by (rule one_call_move [OF Cons.prems(2)]) (simp add: cond_threads_def l(2))
    have w: "wake_threads ns (cs(c := cv)) (make_ready ws rd) False = (cs', rd', b')"
      using Cons.prems(3) by (simp add: n Wake_All e)
    have "wakes (n # ns) (cond_threads cs) (ready_threads rd) b =
        wakes ns (cond_threads (cs(c := cv))) (ready_threads (make_ready ws rd)) False"
      unfolding n Wake_All wakes.simps mv(2,3) by (simp add: cond_threads_def l(3) l(4) [symmetric])
    then show ?thesis using Cons.IH [OF mv(1) o w] by simp
  qed
qed simp

section \<open>Invariants\<close>

text \<open>An object is described by its sections and by when operations may be called. The rule gives an invariant of
  all reachable states from the calls and sections alone; it is interpreted for every object.\<close>

abbreviation waiting :: "('s, 'c, 'p, 'v) monitor \<Rightarrow> 'c \<Rightarrow> (tid \<times> 'p) list" where
  "waiting m \<equiv> cond_threads (conds m)"

abbreviation running :: "('s, 'c, 'p, 'v) monitor \<Rightarrow> (tid \<times> 'p) list" where
  "running m \<equiv> ready_threads (ready m)"

lemma one_call_less: "one_call W (xs @ x # ys) \<Longrightarrow> one_call W (xs @ ys)"
  by (auto simp: one_call_def)

lemma one_call_add:
  assumes "one_call W R" "t \<notin> all_threads W R"
  shows "one_call W (R @ [(t, p)])" "one_call (W(c := W c @ [(t, p)])) R"
  using assms by (auto simp: one_call_def all_threads_def)

lemma one_call_other:
  assumes "one_call W (xs @ (t, p) # ys)"
  shows "t \<notin> all_threads W (xs @ ys)"
  using assms by (auto simp: one_call_def all_threads_def)

lemma monitor_init_simps [simp]:
  "members (monitor_init s) = s" "returned (monitor_init s) = []"
  "waiting (monitor_init s) c = []" "running (monitor_init s) = []"
  by (simp_all add: monitor_init_def cond_threads_def ready_threads_def condition_variable_init_def cv_waiters_def)

lemma reach_run:
  assumes "monitor_reachable sec entry s0 m" "i < length (ready m)"
  shows "monitor_reachable sec entry s0 (run_section sec i m)"
  using assms by (auto intro: monitor_reachable.intros monitor_step.intros)

lemma reach_call:
  assumes "monitor_reachable sec entry s0 m" "idle m t" "entry m t p"
  shows "monitor_reachable sec entry s0 (call_operation t p m)"
  using assms by (auto intro: monitor_reachable.intros monitor_step.intros)

text \<open>Members and results change by sections only, also with time limits.\<close>

lemma members_step:
  assumes "monitor_step sec entry m m'"
  obtains (same) "members m' = members m" "returned m' = returned m"
  | (inner) t p n act where "sec t p n (members m) = (members m', act)" "returned m' = returned m"
      "\<forall>ns go. act = Proceed ns go \<longrightarrow> (\<exists>b q. go b = Inl q)"
  | (result) t p n ns go b v where "sec t p n (members m) = (members m', Proceed ns go)" "go b = Inr v"
      "returned m' = returned m @ [(t, v)]"
  using assms
proof (cases rule: monitor_step.cases)
  case (run_step i)
  obtain t pc where r: "ready m ! i = (t, pc)" by fastforce
  let ?cs = "conds_of t pc (conds m)" and ?rd = "take i (ready m) @ drop (Suc i) (ready m)"
  obtain s act where sec: "sec t (point_of pc) (\<lambda>c. cv_size (?cs c)) (members m) = (s, act)" by fastforce
  note m' = run_step(1) [unfolded run_section_def r Let_def prod.case sec]
  show thesis
  proof (cases act)
    case (Suspend c q q')
    then have "sec t (point_of pc) (\<lambda>c. cv_size (?cs c)) (members m) = (members m', act)" "returned m' = returned m"
      using m' sec by simp_all
    then show thesis by (rule inner) (simp add: Suspend)
  next
    case (Proceed ns go)
    obtain cs rd b where w: "wake_threads ns ?cs ?rd False = (cs, rd, b)" by (metis prod_cases3)
    have sec': "sec t (point_of pc) (\<lambda>c. cv_size (?cs c)) (members m) = (members m', Proceed ns go)"
      using m' sec by (cases "go b") (simp_all add: Proceed w)
    show thesis
    proof (cases "go b")
      case (Inl q)
      then show thesis using inner [OF sec'] m' by (auto simp: Proceed w)
    next
      case (Inr v)
      then show thesis using result [OF sec' Inr] m' by (simp add: Proceed w)
    qed
  qed
qed (auto simp: call_operation_def intro: same)

lemma unit_update [simp]: "f(() := x) = (\<lambda>_. x)"
  by auto

locale untimed_object =
  fixes sec :: "('s, 'c, 'p, 'v) sections"
    and entry :: "('s, 'c, 'p, 'v) monitor \<Rightarrow> tid \<Rightarrow> 'p \<Rightarrow> bool"
  assumes no_time_limit: "sec t p sizes s = (s', Suspend c q r) \<Longrightarrow> r = None"
begin

definition tidy :: "('s, 'c, 'p, 'v) monitor \<Rightarrow> bool" where
  "tidy m \<longleftrightarrow> all_untimed (conds m) (ready m) \<and> one_call (waiting m) (running m)"

lemma tidy_init: "tidy (monitor_init s0)"
  by (simp add: tidy_def monitor_init_def all_untimed_def one_call_def cond_threads_def ready_threads_def
      condition_variable_init_def cv_valid_def cv_waiters_def)

lemma step_cases:
  assumes "monitor_step sec entry m m'" "tidy m"
  obtains (call) t p where "entry m t p" "t \<notin> all_threads (waiting m) (running m)"
      "m' = call_operation t p m" "running m' = running m @ [(t, p)]" "tidy m'"
  | (suspend) xs t p ys s c q where "running m = xs @ (t, p) # ys" "sec t p (\<lambda>c. length (waiting m c)) (members m) = (s, Suspend c q None)"
      "members m' = s" "waiting m' = (waiting m)(c := waiting m c @ [(t, q)])" "running m' = xs @ ys"
      "returned m' = returned m" "tidy m'"
  | (go_on) xs t p ys s ns go q where "running m = xs @ (t, p) # ys" "sec t p (\<lambda>c. length (waiting m c)) (members m) = (s, Proceed ns go)"
      "go (snd (snd (wakes ns (waiting m) (xs @ ys) False))) = Inl q"
      "members m' = s" "waiting m' = fst (wakes ns (waiting m) (xs @ ys) False)"
      "running m' = fst (snd (wakes ns (waiting m) (xs @ ys) False)) @ [(t, q)]" "returned m' = returned m" "tidy m'"
  | (return) xs t p ys s ns go v where "running m = xs @ (t, p) # ys" "sec t p (\<lambda>c. length (waiting m c)) (members m) = (s, Proceed ns go)"
      "go (snd (snd (wakes ns (waiting m) (xs @ ys) False))) = Inr v"
      "members m' = s" "waiting m' = fst (wakes ns (waiting m) (xs @ ys) False)"
      "running m' = fst (snd (wakes ns (waiting m) (xs @ ys) False))" "returned m' = returned m @ [(t, v)]" "tidy m'"
  using assms(1)
proof (cases rule: monitor_step.cases)
  case (call_step t p)
  note 1 = call_step
  have t: "t \<notin> all_threads (waiting m) (running m)"
    using 1(2) by (auto simp: idle_def all_threads_def fst_cond_threads fst_ready_threads)
  then have "tidy m'" using assms(2) one_call_add(1) [of "waiting m" "running m" t p]
    by (auto simp: tidy_def 1(1) call_operation_def all_untimed_def ready_threads_def)
  then show thesis using call [OF 1(3) t 1(1)] by (simp add: 1(1) call_operation_def ready_threads_def)
next
  case (run_step i)
  note 2 = run_step
  let ?xs = "take i (ready m)" and ?ys = "drop (Suc i) (ready m)"
  obtain t pc where r: "ready m ! i = (t, pc)" by fastforce
  have rd: "ready m = ?xs @ (t, pc) # ?ys" using id_take_nth_drop [OF 2(2)] r by simp
  obtain p where p: "pc = Run p" using assms(2) nth_mem [OF 2(2)] r by (auto simp: tidy_def all_untimed_def)
  have run: "running m = ready_threads ?xs @ (t, p) # ready_threads ?ys"
    unfolding ready_threads_def by (subst rd) (simp add: p)
  have xy: "ready_threads (?xs @ ?ys) = ready_threads ?xs @ ready_threads ?ys" by (simp add: ready_threads_def)
  have un: "all_untimed (conds m) (?xs @ ?ys)"
    using assms(2) set_take_subset [of i "ready m"] set_drop_subset [of "Suc i" "ready m"]
    by (auto simp: tidy_def all_untimed_def)
  have o: "one_call (waiting m) (ready_threads ?xs @ (t, p) # ready_threads ?ys)"
    using assms(2) unfolding tidy_def run by blast
  note oc = one_call_less [OF o, folded xy] and new = one_call_other [OF o, folded xy]
  obtain s act where sec: "sec t p (\<lambda>c. length (waiting m c)) (members m) = (s, act)" by fastforce
  have size: "cv_size (conds m c) = length (waiting m c)" for c
    by (simp add: cv_size_def cond_threads_def cv_waiters_def)
  show thesis
  proof (cases act)
    case (Suspend c q r)
    then have r0: "r = None" using no_time_limit sec by blast
    have m': "m' = m\<lparr>members := s, conds := (conds m)(c := wait_begin (t, q, None) (conds m c)), ready := ?xs @ ?ys\<rparr>"
      unfolding 2(1) run_section_def r Let_def by (simp add: p size sec Suspend r0)
    have v: "cv_valid (conds m c)" using un by (simp add: all_untimed_def)
    have w: "cond_threads ((conds m)(c := wait_begin (t, q, None) (conds m c))) = (waiting m)(c := waiting m c @ [(t, q)])"
      using cv.enqueue_law [OF v, of "(t, q, None)"] by (auto simp: cond_threads_def)
    have "tidy m'" using un cv.enqueue_law [OF v, of "(t, q, None)"] one_call_add(2) [OF oc new, of c q] w
      by (auto simp: tidy_def m' all_untimed_def)
    then show thesis using suspend [OF run sec [unfolded Suspend r0]] w by (simp add: m' xy)
  next
    case (Proceed ns go)
    obtain cs rd' b where wt: "wake_threads ns (conds m) (?xs @ ?ys) False = (cs, rd', b)" by (metis prod_cases3)
    note wk = wake_threads_wakes [OF un oc wt]
    have wk2: "wakes ns (waiting m) (ready_threads ?xs @ ready_threads ?ys) False = (cond_threads cs, ready_threads rd', b)"
      using wk by (simp add: xy)
    have oc': "one_call (cond_threads cs) (ready_threads rd')" "t \<notin> all_threads (cond_threads cs) (ready_threads rd')"
      using one_call_wakes [OF oc conjunct2 [OF wk]] new by simp_all
    show thesis
    proof (cases "go b")
      case (Inl q)
      have m': "m' = m\<lparr>members := s, conds := cs, ready := rd' @ [(t, Run q)]\<rparr>"
        unfolding 2(1) run_section_def r Let_def by (simp add: p size sec Proceed wt Inl)
      have "tidy m'" using wk one_call_add(1) [OF oc', of q]
        by (auto simp: tidy_def m' all_untimed_def ready_threads_def)
      then show thesis using go_on [OF run sec [unfolded Proceed], of q] Inl by (simp add: m' wk2) (simp add: ready_threads_def)
    next
      case (Inr v)
      have m': "m' = m\<lparr>members := s, conds := cs, ready := rd', returned := returned m @ [(t, v)]\<rparr>"
        unfolding 2(1) run_section_def r Let_def by (simp add: p size sec Proceed wt Inr)
      have "tidy m'" using wk oc' by (auto simp: tidy_def m')
      then show thesis using return [OF run sec [unfolded Proceed], of v] Inr by (simp add: m' wk2)
    qed
  qed
next
  case (timer_step t p q c)
  then show thesis using assms(2) by (fastforce simp: tidy_def all_untimed_def)
qed

lemma reachable_tidy: "monitor_reachable sec entry s0 m \<Longrightarrow> tidy m"
proof (induction rule: monitor_reachable.induct)
  case (reach_step m m')
  then show ?case by (auto elim: step_cases)
qed (rule tidy_init)

lemma reachable_invariant:
  assumes "monitor_reachable sec entry s0 m" "J (monitor_init s0)"
    "\<And>m m'. monitor_step sec entry m m' \<Longrightarrow> tidy m \<Longrightarrow> J m \<Longrightarrow> J m'"
  shows "J m"
  using assms(1) by induction (auto intro: assms(2,3) reachable_tidy)

end

end
