(* ===== verification/Local_Semaphore.thy ===== *)
theory Local_Semaphore
  imports Monitor
begin

text \<open>
  The semaphores of \<^verbatim>\<open>hpx/lcos/local/detail/counting_semaphore.hpp\<close> and
  \<^verbatim>\<open>hpx/lcos/local/detail/sliding_semaphore.hpp\<close>. \<open>signal\<close> wakes waiting threads one by one and releases the
  mutex each time, so each turn of its loop is a section of its own. The classes of
  \<^verbatim>\<open>hpx/lcos/local/counting_semaphore.hpp\<close> and \<^verbatim>\<open>sliding_semaphore.hpp\<close> only add the mutex.
\<close>

section \<open>Counting semaphore\<close>

datatype sem_point =
    Sem_Wait i64 | Sem_Try_Wait i64 | Sem_Signal i64 | Sem_Signal_All
  | Sem_Notify i64 i64 \<comment> \<open>the loop of \<open>signal\<close>: its counter and its bound\<close>

datatype sem_result = Acquired i64 | Refused | Signalled i64

definition signal_loop :: "i64 \<Rightarrow> i64 \<Rightarrow> i64 \<Rightarrow> i64 \<times> (unit, sem_point, sem_result) action" where
  "signal_loop i count value =
     (value,
      if 0 \<le> value \<and> i < count
      then Proceed [((), Wake_One)] (\<lambda>others. if others then Inl (Sem_Notify (i + 1) count) else Inr (Signalled count))
      else Proceed [] (\<lambda>_. Inr (Signalled count)))"

fun counting_semaphore :: "(i64, unit, sem_point, sem_result) sections" where
  "counting_semaphore t (Sem_Wait count) n value =
     (if value < count then (value, Suspend () (Sem_Wait count) None)
      else (value - count, Proceed [] (\<lambda>_. Inr (Acquired count))))"
| "counting_semaphore t (Sem_Try_Wait count) n value =
     (if \<not> (value < count) then (value - count, Proceed [] (\<lambda>_. Inr (Acquired count)))
      else (value, Proceed [] (\<lambda>_. Inr Refused)))"
| "counting_semaphore t (Sem_Signal count) n value = signal_loop 0 count (value + count)"
| "counting_semaphore t Sem_Signal_All n value = signal_loop 0 (int (n ())) (value + int (n ()))"
| "counting_semaphore t (Sem_Notify i count) n value = signal_loop i count value"

fun semaphore_call :: "'m \<Rightarrow> tid \<Rightarrow> sem_point \<Rightarrow> bool" where
  "semaphore_call m t (Sem_Notify i count) = False"
| "semaphore_call m t p = True"

type_synonym semaphore = "(i64, unit, sem_point, sem_result) monitor"

interpretation sem: untimed_object counting_semaphore entry for entry :: "semaphore \<Rightarrow> tid \<Rightarrow> sem_point \<Rightarrow> bool"
proof
  fix t p n s s' c q r
  show "counting_semaphore t p n s = (s', Suspend c q r) \<Longrightarrow> r = None"
    by (cases p) (auto simp: signal_loop_def split: if_splits)
qed

text \<open>What calls have added to the value, and what signals that are still waking threads have.\<close>

fun result_amount :: "tid \<times> sem_result \<Rightarrow> i64" where
  "result_amount (t, Acquired count) = - count"
| "result_amount (t, Refused) = 0"
| "result_amount (t, Signalled count) = count"

fun point_amount :: "tid \<times> sem_point \<Rightarrow> i64" where
  "point_amount (t, Sem_Notify i count) = count"
| "point_amount (t, p) = 0"

definition balance :: "i64 \<Rightarrow> semaphore \<Rightarrow> bool" where
  "balance v0 m \<longleftrightarrow>
     members m = v0 + sum_list (map result_amount (returned m)) + sum_list (map point_amount (running m)) \<and>
     (\<forall>w \<in> set (waiting m ()). point_amount w = 0)"

lemma balance_wake: "\<forall>w \<in> set ws. point_amount w = 0 \<Longrightarrow> sum_list (map point_amount (take 1 ws)) = 0"
  by (cases ws) auto

lemma balance_step:
  assumes "monitor_step counting_semaphore semaphore_call m m'" "sem.tidy m" "balance v0 m"
  shows "balance v0 m'"
  using assms(1,2)
proof (cases rule: sem.step_cases)
  case (call t p)
  then show ?thesis using assms(3) by (cases p) (auto simp: balance_def call_operation_def)
next
  case (suspend xs t p ys s c q)
  then show ?thesis using assms(3)
    by (cases p) (auto simp: balance_def signal_loop_def split: if_splits)
next
  case (go_on xs t p ys s ns go q)
  then show ?thesis using assms(3) balance_wake [of "waiting m ()"]
    by (cases p; cases "waiting m ()") (auto simp: balance_def signal_loop_def split: if_splits)
next
  case (return xs t p ys s ns go v)
  then show ?thesis using assms(3) balance_wake [of "waiting m ()"]
    by (cases p; cases "waiting m ()") (auto simp: balance_def signal_loop_def split: if_splits)
qed

text \<open>A counting semaphore neither loses nor makes up credits. In every state that threads can reach by calling its
  operations, in whatever order their sections run, the value is the initial one, plus the counts of all signals, less the counts of all waits
  that have returned. So no wait returns before the semaphore has been signalled often enough.\<close>

lemma semaphore_conserves_credits:
  assumes "monitor_reachable counting_semaphore semaphore_call v0 m"
  shows "members m = v0 + sum_list (map result_amount (returned m)) + sum_list (map point_amount (running m))"
proof -
  have "balance v0 m" by (rule sem.reachable_invariant [OF assms _ balance_step]) (simp_all add: balance_def)
  then show ?thesis by (simp add: balance_def)
qed

definition example_semaphore :: semaphore where
  "example_semaphore =
     (let run = run_section counting_semaphore 0 in
      run (run (call_operation 2 (Sem_Signal 2) (run (call_operation 1 (Sem_Wait 1) (monitor_init 0))))))"

lemma example_semaphore_reachable:
  assumes "\<And>m t p. p \<in> {Sem_Wait 1, Sem_Signal 2} \<Longrightarrow> entry m t p"
  shows "monitor_reachable counting_semaphore entry 0 example_semaphore"
  unfolding example_semaphore_def Let_def
  by (intro reach_run reach_call reach_init assms) code_simp+

section \<open>No wake-up is lost\<close>

text \<open>Signals that still have threads to wake, and threads that will look at the value.\<close>

fun pending_wakes :: "tid \<times> sem_point \<Rightarrow> i64" where
  "pending_wakes (t, Sem_Notify i count) = max 0 (count - i)"
| "pending_wakes (t, Sem_Wait count) = 1"
| "pending_wakes (t, p) = 0"

fun unit_point :: "sem_point \<Rightarrow> bool" where
  "unit_point (Sem_Wait count) = (count = 1)"
| "unit_point (Sem_Try_Wait count) = (0 \<le> count)"
| "unit_point p = True"

definition unit_call :: "semaphore \<Rightarrow> tid \<Rightarrow> sem_point \<Rightarrow> bool" where
  "unit_call m t p \<longleftrightarrow> semaphore_call m t p \<and> unit_point p"

definition covered :: "semaphore \<Rightarrow> bool" where
  "covered m \<longleftrightarrow> (waiting m () \<noteq> [] \<longrightarrow> members m \<le> sum_list (map pending_wakes (running m))) \<and>
     list_all (\<lambda>w. snd w = Sem_Wait 1) (waiting m ()) \<and> list_all (\<lambda>w. unit_point (snd w)) (running m)"

lemma pending_wakes_nonneg: "0 \<le> sum_list (map pending_wakes R)"
proof (induction R)
  case (Cons w R)
  moreover have "0 \<le> pending_wakes w" by (cases w rule: pending_wakes.cases) simp_all
  ultimately show ?case by simp
qed simp

lemma covered_step:
  assumes "monitor_step counting_semaphore unit_call m m'" "sem.tidy m" "covered m"
  shows "covered m'"
  using assms(1,2)
proof (cases rule: sem.step_cases)
  case (call t p)
  then show ?thesis using assms(3) by (cases p) (auto simp: covered_def call_operation_def unit_call_def)
next
  case (suspend xs t p ys s c q)
  then show ?thesis using assms(3) pending_wakes_nonneg [of xs] pending_wakes_nonneg [of ys]
    by (cases p) (auto simp: covered_def signal_loop_def split: if_splits)
next
  case (go_on xs t p ys s ns go q)
  then show ?thesis using assms(3)
    by (cases p; cases "waiting m ()") (auto simp: covered_def signal_loop_def split: if_splits)
next
  case (return xs t p ys s ns go v)
  then show ?thesis using assms(3) pending_wakes_nonneg [of xs] pending_wakes_nonneg [of ys]
    by (cases p; cases "waiting m ()") (auto simp: covered_def signal_loop_def split: if_splits)
qed

text \<open>C28: if every wait asks for exactly one credit, no thread is left behind. In every state reachable by such calls in which nobody is about to run, no thread
  waits while the semaphore has a credit to give: each signal wakes enough threads, also if other threads come in between
  and take the credits, if signals overlap or if the initial value is negative.\<close>

theorem semaphore_no_lost_wakeup:
  assumes "monitor_reachable counting_semaphore unit_call v0 m" "ready m = []" "0 < members m"
  shows "waiting m () = []"
proof -
  have "covered m" by (rule sem.reachable_invariant [OF assms(1) _ covered_step]) (simp_all add: covered_def)
  then show ?thesis using assms(2,3) by (auto simp: covered_def ready_threads_def)
qed

theorem semaphore_no_lost_wakeup_witness: "waiting example_semaphore () = []"
proof (rule semaphore_no_lost_wakeup)
  show "monitor_reachable counting_semaphore unit_call 0 example_semaphore"
    by (rule example_semaphore_reachable) (auto simp: unit_call_def)
  show "ready example_semaphore = []" "0 < members example_semaphore" by code_simp+
qed

text \<open>With different counts this is not so: a thread that waits for two credits is woken by a signal of one, waits again,
  and the thread behind it, for which the credit would do, sleeps on.\<close>

definition mixed_waits :: semaphore where
  "mixed_waits =
     (let run = run_section counting_semaphore 0 in
      run (run (run (call_operation 3 (Sem_Signal 1)
        (run (call_operation 2 (Sem_Wait 1) (run (call_operation 1 (Sem_Wait 2) (monitor_init 0)))))))))"

lemma mixed_waits_lose_wakeup:
  "monitor_reachable counting_semaphore semaphore_call 0 mixed_waits \<and> ready mixed_waits = [] \<and>
   members mixed_waits = 1 \<and> waiting mixed_waits () = [(2, Sem_Wait 1), (1, Sem_Wait 2)]"
proof -
  have "monitor_reachable counting_semaphore semaphore_call 0 mixed_waits"
    unfolding mixed_waits_def Let_def
    by (intro reach_run reach_call reach_init) code_simp+
  moreover have "ready mixed_waits = []" "members mixed_waits = 1" "waiting mixed_waits () = [(2, Sem_Wait 1), (1, Sem_Wait 2)]"
    by code_simp+
  ultimately show ?thesis by blast
qed

section \<open>Sliding semaphore\<close>

record sliding_semaphore =
  max_difference :: i64
  lower_limit :: i64

datatype slide_point =
    Slide_Wait i64 | Slide_Try_Wait i64 | Slide_Signal i64 | Slide_Signal_All
  | Slide_Notify i64 bool \<comment> \<open>the loop of \<open>signal\<close>, and whether \<open>signal_all\<close> has called it\<close>
  | Slide_Read \<comment> \<open>\<open>signal_all\<close> reads the limit it returns without the mutex\<close>

datatype slide_result = Passed i64 | Too_Far | Moved | Limit i64

definition too_far :: "i64 \<Rightarrow> sliding_semaphore \<Rightarrow> bool" where
  "too_far upper_limit s \<longleftrightarrow> lower_limit s < upper_limit - max_difference s"

definition slide_done :: "bool \<Rightarrow> slide_point + slide_result" where
  "slide_done all = (if all then Inl Slide_Read else Inr Moved)"

definition slide_loop ::
  "i64 \<Rightarrow> bool \<Rightarrow> sliding_semaphore \<Rightarrow> sliding_semaphore \<times> (unit, slide_point, slide_result) action" where
  "slide_loop count all s =
     (s, if 0 < count
         then Proceed [((), Wake_One)] (\<lambda>others. if others then Inl (Slide_Notify (count - 1) all) else slide_done all)
         else Proceed [] (\<lambda>_. slide_done all))"

fun sliding_section :: "(sliding_semaphore, unit, slide_point, slide_result) sections" where
  "sliding_section t (Slide_Wait upper) n s =
     (s, if too_far upper s then Suspend () (Slide_Wait upper) None else Proceed [] (\<lambda>_. Inr (Passed upper)))"
| "sliding_section t (Slide_Try_Wait upper) n s =
     (s, if \<not> too_far upper s then Proceed [] (\<lambda>_. Inr (Passed upper)) else Proceed [] (\<lambda>_. Inr Too_Far))"
| "sliding_section t (Slide_Signal lower) n s =
     slide_loop (int (n ())) False (s\<lparr>lower_limit := max lower (lower_limit s)\<rparr>)"
| "sliding_section t Slide_Signal_All n s =
     slide_loop (int (n ())) True (s\<lparr>lower_limit := max (lower_limit s) (lower_limit s)\<rparr>)"
| "sliding_section t (Slide_Notify count all) n s = slide_loop count all s"
| "sliding_section t Slide_Read n s = (s, Proceed [] (\<lambda>_. Inr (Limit (lower_limit s))))"

type_synonym sliding = "(sliding_semaphore, unit, slide_point, slide_result) monitor"

definition slide_call :: "sliding \<Rightarrow> tid \<Rightarrow> slide_point \<Rightarrow> bool" where
  "slide_call m t p \<longleftrightarrow> (case p of Slide_Notify _ _ \<Rightarrow> False | Slide_Read \<Rightarrow> False | _ \<Rightarrow> True)"

interpretation slide: untimed_object sliding_section entry for entry :: "sliding \<Rightarrow> tid \<Rightarrow> slide_point \<Rightarrow> bool"
proof
  fix t p n s s' c q r
  show "sliding_section t p n s = (s', Suspend c q r) \<Longrightarrow> r = None"
    by (cases p) (auto simp: slide_loop_def split: if_splits)
qed

fun slide_wakes :: "tid \<times> slide_point \<Rightarrow> i64" where
  "slide_wakes (t, Slide_Notify count all) = max 0 count"
| "slide_wakes (t, p) = 0"

fun wait_limit :: "slide_point \<Rightarrow> i64" where
  "wait_limit (Slide_Wait upper) = upper"
| "wait_limit _ = 0"

text \<open>A thread in the queue that could pass is within reach of the signals that are still waking threads.\<close>

definition slide_covered :: "sliding \<Rightarrow> bool" where
  "slide_covered m \<longleftrightarrow>
     (\<forall>i < length (waiting m ()). \<not> too_far (wait_limit (snd (waiting m () ! i))) (members m) \<longrightarrow>
       int i < sum_list (map slide_wakes (running m))) \<and>
     list_all (\<lambda>w. \<exists>upper. snd w = Slide_Wait upper) (waiting m ())"

lemma slide_wakes_nonneg: "0 \<le> sum_list (map slide_wakes R)"
proof (induction R)
  case (Cons w R)
  moreover have "0 \<le> slide_wakes w" by (cases w rule: slide_wakes.cases) simp_all
  ultimately show ?case by simp
qed simp

text \<open>Waking the first thread brings the others one place nearer.\<close>

lemma reach_shift:
  assumes "\<forall>i < length (w # ws). P ((w # ws) ! i) \<longrightarrow> int i < k"
  shows "\<forall>i < length ws. P (ws ! i) \<longrightarrow> int i < k - 1"
proof (intro allI impI)
  fix i assume "i < length ws" "P (ws ! i)"
  then show "int i < k - 1" using assms [rule_format, of "Suc i"] by simp
qed

lemma slide_covered_step:
  assumes "monitor_step sliding_section slide_call m m'" "slide.tidy m" "slide_covered m"
  shows "slide_covered m'"
  using assms(1,2)
proof (cases rule: slide.step_cases)
  case (call t p)
  then show ?thesis using assms(3) by (cases p) (auto simp: slide_covered_def call_operation_def slide_call_def)
next
  case (suspend xs t p ys s c q)
  then show ?thesis using assms(3)
    by (cases p) (auto simp: slide_covered_def slide_loop_def nth_append less_Suc_eq split: if_splits)
next
  case (go_on xs t p ys s ns go q)
  note n = slide_wakes_nonneg [of xs] slide_wakes_nonneg [of ys]
  show ?thesis
  proof (cases "waiting m ()")
    case Nil
    then show ?thesis using go_on assms(3) by (cases p) (auto simp: slide_covered_def slide_loop_def slide_done_def split: if_splits)
  next
    case (Cons w ws)
    have sh: "\<forall>i < length ws. \<not> too_far (wait_limit (snd (ws ! i))) (members m) \<longrightarrow>
        int i < sum_list (map slide_wakes (running m)) - 1"
      using assms(3) unfolding slide_covered_def Cons by (intro reach_shift) blast
    have w0: "slide_wakes w = 0" using assms(3) by (cases w) (auto simp: slide_covered_def Cons)
    show ?thesis using go_on assms(3) n sh w0
      by (cases p) (auto simp: slide_covered_def slide_loop_def slide_done_def Cons algebra_simps split: if_splits)
  qed
next
  case (return xs t p ys s ns go v)
  then show ?thesis using assms(3)
    by (cases p; cases "waiting m ()") (auto simp: slide_covered_def slide_loop_def slide_done_def split: if_splits)
qed

text \<open>A sliding semaphore lets everybody pass who may. In every reachable state in which nobody is about to run, each thread that
  waits has an upper limit that is more than the largest difference above the lower limit.\<close>

lemma sliding_no_lost_wakeup:
  assumes "monitor_reachable sliding_section slide_call s0 m" "ready m = []" "(t, Slide_Wait upper) \<in> set (waiting m ())"
  shows "too_far upper (members m)"
proof -
  have "slide_covered m"
    by (rule slide.reachable_invariant [OF assms(1) _ slide_covered_step]) (simp_all add: slide_covered_def)
  moreover obtain i where "i < length (waiting m ())" "waiting m () ! i = (t, Slide_Wait upper)"
    using assms(3) by (auto simp: in_set_conv_nth)
  ultimately show ?thesis using assms(2) unfolding slide_covered_def by (auto simp: ready_threads_def)
qed

end
