(* ===== verification/Local_Mutex.thy ===== *)
theory Local_Mutex
  imports Monitor
begin

text \<open>
  The mutex of \<^verbatim>\<open>src/lcos/local/mutex.cpp\<close>, with and without time limits. Instrumentation for thread analysers and the register of held locks are left out.
\<close>

section \<open>Mutex\<close>

datatype mutex_point = Mutex_Lock | Mutex_Lock_Loop | Mutex_Try_Lock | Mutex_Unlock

datatype mutex_result = Locked | Not_Locked | Unlocked

fun mutex_section :: "(tid option, unit, mutex_point, mutex_result result) sections" where
  "mutex_section t Mutex_Lock n owner_id =
     (if owner_id = Some t then (owner_id, return_value (Inl deadlock))
      else if owner_id \<noteq> None then (owner_id, Suspend () Mutex_Lock_Loop None)
      else (Some t, return_value (Inr Locked)))"
| "mutex_section t Mutex_Lock_Loop n owner_id =
     (if owner_id \<noteq> None then (owner_id, Suspend () Mutex_Lock_Loop None)
      else (Some t, return_value (Inr Locked)))"
| "mutex_section t Mutex_Try_Lock n owner_id =
     (if owner_id \<noteq> None then (owner_id, return_value (Inr Not_Locked))
      else (Some t, return_value (Inr Locked)))"
| "mutex_section t Mutex_Unlock n owner_id =
     (if owner_id \<noteq> Some t then (owner_id, return_value (Inl lock_error))
      else (None, Proceed [((), Wake_One)] (\<lambda>_. Inr (Inr Unlocked))))"

type_synonym mutex = "(tid option, unit, mutex_point, mutex_result result) monitor"

definition mutex_call :: "mutex \<Rightarrow> tid \<Rightarrow> mutex_point \<Rightarrow> bool" where
  "mutex_call m t p \<longleftrightarrow> p \<noteq> Mutex_Lock_Loop"

text \<open>The mutex with time limits has the operations of the mutex and \<open>try_lock_until\<close>, which waits once.\<close>

datatype timed_mutex_point =
  Mutex_Point mutex_point | Try_Lock_Until | Try_Lock_Notified | Try_Lock_Timeout

fun timed_mutex_section :: "(tid option, unit, timed_mutex_point, mutex_result result) sections" where
  "timed_mutex_section t (Mutex_Point p) n owner_id =
     map_prod id (map_action id Mutex_Point id) (mutex_section t p n owner_id)"
| "timed_mutex_section t Try_Lock_Until n owner_id =
     (if owner_id \<noteq> None then (owner_id, Suspend () Try_Lock_Notified (Some Try_Lock_Timeout))
      else (Some t, return_value (Inr Locked)))"
| "timed_mutex_section t Try_Lock_Notified n owner_id =
     (if owner_id \<noteq> None then (owner_id, return_value (Inr Not_Locked))
      else (Some t, return_value (Inr Locked)))"
| "timed_mutex_section t Try_Lock_Timeout n owner_id = (owner_id, return_value (Inr Not_Locked))"

type_synonym timed_mutex = "(tid option, unit, timed_mutex_point, mutex_result result) monitor"

definition timed_mutex_call :: "timed_mutex \<Rightarrow> tid \<Rightarrow> timed_mutex_point \<Rightarrow> bool" where
  "timed_mutex_call m t p \<longleftrightarrow> p \<notin> {Mutex_Point Mutex_Lock_Loop, Try_Lock_Notified, Try_Lock_Timeout}"

text \<open>Who has the mutex after some calls have returned; \<open>None\<close> if they do not take turns.\<close>

fun holder :: "tid option \<Rightarrow> (tid \<times> mutex_result result) list \<Rightarrow> tid option option" where
  "holder h [] = Some h"
| "holder h ((t, Inr Locked) # rs) = (if h = None then holder (Some t) rs else None)"
| "holder h ((t, Inr Unlocked) # rs) = (if h = Some t then holder None rs else None)"
| "holder h ((t, _) # rs) = holder h rs"

lemma holder_snoc: "holder h rs = Some h' \<Longrightarrow> holder h (rs @ [r]) = holder h' [r]"
  by (induction h rs rule: holder.induct) (auto split: if_splits)

lemma timed_section_owner:
  assumes "timed_mutex_section t p n h = (h', act)"
  shows "(\<forall>ns go. act = Proceed ns go \<longrightarrow> (\<exists>b q. go b = Inl q)) \<Longrightarrow> h' = h"
    "act = Proceed ns go \<Longrightarrow> go b = Inr v \<Longrightarrow> holder h [(t, v)] = Some h'"
proof -
  show "(\<forall>ns go. act = Proceed ns go \<longrightarrow> (\<exists>b q. go b = Inl q)) \<Longrightarrow> h' = h"
    using assms by (cases "(t, p, n, h)" rule: timed_mutex_section.cases; cases "case p of Mutex_Point q \<Rightarrow> q | _ \<Rightarrow> Mutex_Lock")
      (auto split: if_splits)
  show "act = Proceed ns go \<Longrightarrow> go b = Inr v \<Longrightarrow> holder h [(t, v)] = Some h'"
    using assms by (cases "(t, p, n, h)" rule: timed_mutex_section.cases; cases "case p of Mutex_Point q \<Rightarrow> q | _ \<Rightarrow> Mutex_Lock")
      (auto split: if_splits)
qed

text \<open>C29: the mutex excludes. Whatever threads call, with and without time limits, and in whatever order their sections run, a call that locks
  returns only when nobody has the mutex, a call that unlocks returns only in the thread that has it, and the member
  \<open>owner_id_\<close> is the thread that has it.\<close>

theorem mutex_exclusive:
  assumes "monitor_reachable timed_mutex_section timed_mutex_call None m"
  shows "holder None (returned m) = Some (members m)"
  using assms
proof (induction rule: monitor_reachable.induct)
  case (reach_step m m')
  show ?case using reach_step.hyps(2)
  proof (cases rule: members_step)
    case (inner t p n act)
    then show ?thesis using timed_section_owner(1) [OF inner(1,3)] reach_step.IH by simp
  next
    case (result t p n ns go b v)
    then show ?thesis using timed_section_owner(2) [OF result(1) refl result(2)] reach_step.IH by (simp add: holder_snoc)
  qed (use reach_step.IH in simp)
qed simp

section \<open>No wake-up is lost\<close>

interpretation mutex: untimed_object mutex_section entry for entry :: "mutex \<Rightarrow> tid \<Rightarrow> mutex_point \<Rightarrow> bool"
proof
  fix t p n s s' c q r
  show "mutex_section t p n s = (s', Suspend c q r) \<Longrightarrow> r = None" by (cases p) (auto split: if_splits)
qed

definition mutex_covered :: "mutex \<Rightarrow> bool" where
  "mutex_covered m \<longleftrightarrow> (waiting m () \<noteq> [] \<longrightarrow> members m \<noteq> None \<or> Mutex_Lock_Loop \<in> snd ` set (running m)) \<and>
     list_all (\<lambda>w. snd w = Mutex_Lock_Loop) (waiting m ())"

lemma mutex_covered_step:
  assumes "monitor_step mutex_section mutex_call m m'" "mutex.tidy m" "mutex_covered m"
  shows "mutex_covered m'"
  using assms(1,2)
proof (cases rule: mutex.step_cases)
  case (call t p)
  then show ?thesis using assms(3) by (auto simp: mutex_covered_def call_operation_def)
next
  case (suspend xs t p ys s c q)
  then show ?thesis using assms(3) by (cases p) (auto simp: mutex_covered_def split: if_splits)
next
  case (go_on xs t p ys s ns go q)
  then show ?thesis by (cases p) (auto split: if_splits)
next
  case (return xs t p ys s ns go v)
  then show ?thesis using assms(3)
    by (cases p; cases "waiting m ()") (auto simp: mutex_covered_def image_Un split: if_splits)
qed

text \<open>No thread sleeps in front of a free mutex. If threads use \<open>lock\<close>, \<open>try_lock\<close> and \<open>unlock\<close>, then in every reachable state in
  which nobody is about to run and nobody has the mutex, nobody waits for it.\<close>

lemma mutex_no_lost_wakeup:
  assumes "monitor_reachable mutex_section mutex_call None m" "ready m = []" "members m = None"
  shows "waiting m () = []"
proof -
  have "mutex_covered m"
    by (rule mutex.reachable_invariant [OF assms(1) _ mutex_covered_step]) (simp_all add: mutex_covered_def)
  then show ?thesis using assms(2,3) by (auto simp: mutex_covered_def ready_threads_def)
qed

text \<open>With time limits a wake-up can be lost: the timer wakes a thread in \<open>try_lock_until\<close>, before it has the internal mutex again it is also
  notified by \<open>unlock\<close>, and it gives up because of the time. The thread behind it sleeps in front of a free mutex.\<close>

definition late_timer :: timed_mutex where
  "late_timer =
     (let run = run_section timed_mutex_section in
      let m = run 0 (call_operation 3 (Mutex_Point Mutex_Lock) (run 0 (call_operation 2 Try_Lock_Until
        (run 0 (call_operation 1 (Mutex_Point Mutex_Lock) (monitor_init None))))));
          m = m\<lparr>ready := ready m @ [(2, Timed_Out () Try_Lock_Timeout)]\<rparr>
      in run 0 (run 1 (call_operation 1 (Mutex_Point Mutex_Unlock) m)))"

lemma timed_mutex_loses_wakeup:
  "monitor_reachable timed_mutex_section timed_mutex_call None late_timer \<and> ready late_timer = [] \<and>
   members late_timer = None \<and> waiting late_timer () = [(3, Mutex_Point Mutex_Lock_Loop)]"
proof -
  have "monitor_reachable timed_mutex_section timed_mutex_call None late_timer"
    unfolding late_timer_def Let_def
    by (intro reach_run reach_call reach_init
        reach_step [OF _ timer_step [where p = Try_Lock_Notified]]) code_simp+
  moreover have "ready late_timer = []" "members late_timer = None" "waiting late_timer () = [(3, Mutex_Point Mutex_Lock_Loop)]"
    by code_simp+
  ultimately show ?thesis by blast
qed

theorem mutex_exclusive_witness: "holder None (returned late_timer) = Some (members late_timer)"
  using mutex_exclusive timed_mutex_loses_wakeup by blast

end
