(* ===== verification/Latch_Barrier.thy ===== *)
theory Latch_Barrier
  imports Monitor
begin

text \<open>
  Objects at which threads meet: the event semaphore of \<^verbatim>\<open>hpx/lcos/local/event.hpp\<close>, the latch of
  \<^verbatim>\<open>hpx/lcos/local/latch.hpp\<close> and the barrier of \<^verbatim>\<open>src/lcos/local/local_barrier.cpp\<close>.
\<close>

section \<open>Event\<close>

text \<open>The flag is an atomic variable that is also read and written without the mutex.\<close>

datatype event_point = Event_Occurred | Event_Wait | Event_Wait_Locked | Event_Set | Event_Set_Locked | Event_Reset

datatype event_result = Event_Is bool | Event_Seen | Event_Was_Set | Event_Was_Reset

fun event_section :: "(bool, unit, event_point, event_result) sections" where
  "event_section t Event_Occurred n event = (event, return_value (Event_Is event))"
| "event_section t Event_Wait n event =
     (event, if event then return_value Event_Seen else Proceed [] (\<lambda>_. Inl Event_Wait_Locked))"
| "event_section t Event_Wait_Locked n event =
     (event, if \<not> event then Suspend () Event_Wait_Locked None else return_value Event_Seen)"
| "event_section t Event_Set n event = (True, Proceed [] (\<lambda>_. Inl Event_Set_Locked))"
| "event_section t Event_Set_Locked n event = (event, Proceed [((), Wake_All)] (\<lambda>_. Inr Event_Was_Set))"
| "event_section t Event_Reset n event = (False, return_value Event_Was_Reset)"

type_synonym event = "(bool, unit, event_point, event_result) monitor"

definition event_call :: "event \<Rightarrow> tid \<Rightarrow> event_point \<Rightarrow> bool" where
  "event_call m t p \<longleftrightarrow> p \<in> {Event_Occurred, Event_Wait, Event_Set, Event_Reset}"

interpretation event: untimed_object event_section entry for entry :: "event \<Rightarrow> tid \<Rightarrow> event_point \<Rightarrow> bool"
proof
  fix t p n s s' c q r
  show "event_section t p n s = (s', Suspend c q r) \<Longrightarrow> r = None" by (cases p) (auto split: if_splits)
qed

definition event_covered :: "event \<Rightarrow> bool" where
  "event_covered m \<longleftrightarrow> (waiting m () \<noteq> [] \<and> members m \<longrightarrow> Event_Set_Locked \<in> snd ` set (running m))"

lemma event_covered_step:
  assumes "monitor_step event_section event_call m m'" "event.tidy m" "event_covered m"
  shows "event_covered m'"
  using assms(1,2)
proof (cases rule: event.step_cases)
  case (call t p)
  then show ?thesis using assms(3) by (auto simp: event_covered_def call_operation_def)
next
  case (suspend xs t p ys s c q)
  then show ?thesis using assms(3) by (cases p) (auto simp: event_covered_def split: if_splits)
next
  case (go_on xs t p ys s ns go q)
  then show ?thesis using assms(3) by (cases p) (auto simp: event_covered_def image_Un split: if_splits)
next
  case (return xs t p ys s ns go v)
  then show ?thesis using assms(3) by (cases p) (auto simp: event_covered_def image_Un split: if_splits)
qed

text \<open>Nobody sleeps on an event that has occurred, although the flag is set before the mutex is taken.\<close>

lemma event_no_lost_wakeup:
  assumes "monitor_reachable event_section event_call s0 m" "ready m = []" "members m"
  shows "waiting m () = []"
proof -
  have "event_covered m"
    by (rule event.reachable_invariant [OF assms(1) _ event_covered_step]) (simp_all add: event_covered_def)
  then show ?thesis using assms(2,3) by (auto simp: event_covered_def ready_threads_def)
qed

section \<open>Latch\<close>

datatype latch_point = Count_Down_And_Wait | Count_Down i64 | Latch_Wait | Latch_Is_Ready | Latch_Woken

datatype latch_result = Released | Counted | Latch_Ready bool

fun latch_section :: "(i64, unit, latch_point, latch_result result) sections" where
  "latch_section t Count_Down_And_Wait n counter =
     (if \<not> 0 < counter then (counter, return_value (Inl assertion_failure))
      else (counter - 1,
        if counter - 1 = 0 then Proceed [((), Wake_All)] (\<lambda>_. Inr (Inr Released)) else Suspend () Latch_Woken None))"
| "latch_section t (Count_Down k) n counter =
     (if \<not> (0 \<le> k \<and> k \<le> counter) then (counter, return_value (Inl assertion_failure))
      else (counter - k,
        if counter - k = 0 then Proceed [((), Wake_All)] (\<lambda>_. Inr (Inr Counted)) else return_value (Inr Counted)))"
| "latch_section t Latch_Wait n counter =
     (counter, if 0 < counter then Suspend () Latch_Woken None else return_value (Inr Released))"
| "latch_section t Latch_Is_Ready n counter = (counter, return_value (Inr (Latch_Ready (counter = 0))))"
| "latch_section t Latch_Woken n counter = (counter, return_value (Inr Released))"

type_synonym latch = "(i64, unit, latch_point, latch_result result) monitor"

definition latch_call :: "latch \<Rightarrow> tid \<Rightarrow> latch_point \<Rightarrow> bool" where
  "latch_call m t p \<longleftrightarrow> p \<noteq> Latch_Woken"

interpretation latch: untimed_object latch_section entry for entry :: "latch \<Rightarrow> tid \<Rightarrow> latch_point \<Rightarrow> bool"
proof
  fix t p n s s' c q r
  show "latch_section t p n s = (s', Suspend c q r) \<Longrightarrow> r = None" by (cases p) (auto split: if_splits)
qed

definition latch_inv :: "latch \<Rightarrow> bool" where
  "latch_inv m \<longleftrightarrow> 0 \<le> members m \<and> (members m = 0 \<longrightarrow> waiting m () = []) \<and>
     (members m \<noteq> 0 \<longrightarrow> Latch_Woken \<notin> snd ` set (running m) \<and>
       {Inr Released, Inr (Latch_Ready True)} \<inter> snd ` set (returned m) = {})"

lemma latch_inv_step:
  assumes "monitor_step latch_section latch_call m m'" "latch.tidy m" "latch_inv m"
  shows "latch_inv m'"
  using assms(1,2)
proof (cases rule: latch.step_cases)
  case (call t p)
  then show ?thesis using assms(3) by (auto simp: latch_inv_def call_operation_def latch_call_def)
next
  case (suspend xs t p ys s c q)
  then show ?thesis using assms(3) by (cases p) (auto simp: latch_inv_def image_Un split: if_splits)
next
  case (go_on xs t p ys s ns go q)
  then show ?thesis using assms(3) by (cases p) (auto simp: latch_inv_def image_Un split: if_splits)
next
  case (return xs t p ys s ns go v)
  then show ?thesis using assms(3) by (cases p) (auto simp: latch_inv_def image_Un split: if_splits)
qed

text \<open>A latch opens when its counter is zero, not before, and for everybody. In every reachable state, if a waiting call has
  returned or the latch was reported ready, the counter is zero; and once the counter is zero nobody waits any more.\<close>

lemma latch_opens_at_zero:
  assumes "monitor_reachable latch_section latch_call count m" "0 \<le> count"
  shows "({Inr Released, Inr (Latch_Ready True)} \<inter> snd ` set (returned m) \<noteq> {} \<longrightarrow> members m = 0) \<and>
    (members m = 0 \<longrightarrow> waiting m () = [])"
proof -
  have "latch_inv m"
    by (rule latch.reachable_invariant [OF assms(1) _ latch_inv_step]) (use assms(2) in \<open>simp_all add: latch_inv_def\<close>)
  then show ?thesis unfolding latch_inv_def by blast
qed

section \<open>Barrier\<close>

text \<open>While a group of threads assembles, \<open>total_\<close> counts the threads that have entered; while it leaves, \<open>total_\<close> is the flag plus the number of threads
  that still have to leave.\<close>

definition barrier_flag :: u64 where
  "barrier_flag = push_bit 63 1"

lemma barrier_flag_code [code]: "barrier_flag = 0x8000000000000000"
  by (simp add: barrier_flag_def)

datatype barrier_point = Barrier_Wait | Barrier_Inside | Barrier_Destroy

datatype barrier_result = Passed_Barrier | Destroyed

type_synonym barrier_action = "u64 \<times> (unit, barrier_point, barrier_result) action"

definition barrier_leave :: "u64 \<Rightarrow> barrier_action" where
  "barrier_leave tot =
     (if tot < barrier_flag then (tot, Suspend () Barrier_Inside None)
      else (tot - 1,
        if tot - 1 = barrier_flag then Proceed [((), Wake_All)] (\<lambda>_. Inr Passed_Barrier) else return_value Passed_Barrier))"

definition barrier_enter :: "u64 \<Rightarrow> u64 \<Rightarrow> barrier_action" where
  "barrier_enter number_of_threads tot =
     (if tot = number_of_threads
      then (tot + (barrier_flag - 1), Proceed [((), Wake_All)] (\<lambda>_. Inr Passed_Barrier))
      else barrier_leave tot)"

fun barrier_section :: "u64 \<Rightarrow> (u64, unit, barrier_point, barrier_result) sections" where
  "barrier_section number_of_threads t Barrier_Wait n tot =
     (if tot > barrier_flag then (tot, Suspend () Barrier_Wait None)
      else barrier_enter number_of_threads ((if tot = barrier_flag then 0 else tot) + 1))"
| "barrier_section number_of_threads t Barrier_Inside n tot = barrier_leave tot"
| "barrier_section number_of_threads t Barrier_Destroy n tot =
     (tot, if tot > barrier_flag then Suspend () Barrier_Destroy None else return_value Destroyed)"

type_synonym barrier = "(u64, unit, barrier_point, barrier_result) monitor"

definition barrier_call :: "barrier \<Rightarrow> tid \<Rightarrow> barrier_point \<Rightarrow> bool" where
  "barrier_call m t p \<longleftrightarrow> p \<noteq> Barrier_Inside"

interpretation barrier: untimed_object "barrier_section number_of_threads" entry
  for number_of_threads :: u64 and entry :: "barrier \<Rightarrow> tid \<Rightarrow> barrier_point \<Rightarrow> bool"
proof
  fix t p n s s' c q r
  show "barrier_section number_of_threads t p n s = (s', Suspend c q r) \<Longrightarrow> r = None"
    by (cases p) (auto simp: barrier_leave_def barrier_enter_def split: if_splits)
qed

text \<open>How many calls of \<open>wait\<close> have returned, and how many are past its first loop.\<close>

definition passed :: "barrier \<Rightarrow> nat" where
  "passed m = count_list (map snd (returned m)) Passed_Barrier"

definition inside :: "barrier \<Rightarrow> nat" where
  "inside m = count_list (map snd (running m)) Barrier_Inside + count_list (map snd (waiting m ())) Barrier_Inside"

definition barrier_inv :: "u64 \<Rightarrow> barrier \<Rightarrow> bool" where
  "barrier_inv N m \<longleftrightarrow>
     (if unat (members m) < 2 ^ 63
      then 0 < unat (members m) \<and> unat (members m) < unat N \<and>
        count_list (map snd (running m)) Barrier_Inside = 0 \<and> list_all (\<lambda>w. snd w = Barrier_Inside) (waiting m ()) \<and>
        length (waiting m ()) = unat (members m) \<and> unat N dvd passed m
      else unat (members m) < 2 ^ 63 + unat N \<and>
        count_list (map snd (waiting m ())) Barrier_Inside = 0 \<and>
        2 ^ 63 + count_list (map snd (running m)) Barrier_Inside = unat (members m) \<and>
        (unat (members m) = 2 ^ 63 \<longrightarrow> waiting m () = []) \<and>
        unat N dvd passed m + count_list (map snd (running m)) Barrier_Inside)"

lemma unat_barrier_flag: "unat barrier_flag = 2 ^ 63"
  by (simp add: barrier_flag_def)

lemma barrier_compare:
  "tot < barrier_flag \<longleftrightarrow> unat tot < 2 ^ 63" "barrier_flag < tot \<longleftrightarrow> 2 ^ 63 < unat tot" "tot = barrier_flag \<longleftrightarrow> unat tot = 2 ^ 63"
  by (simp_all add: word_less_nat_alt word_unat_eq_iff unat_barrier_flag)

lemma barrier_count:
  "unat tot \<le> 2 ^ 63 \<Longrightarrow> unat (tot + 1) = unat tot + 1"
  "0 < unat tot \<Longrightarrow> unat (tot - 1) = unat tot - 1"
  "0 < unat tot \<Longrightarrow> unat tot \<le> 2 ^ 63 \<Longrightarrow> unat (tot + (barrier_flag - 1)) = unat tot + 2 ^ 63 - 1"
proof -
  show "unat tot \<le> 2 ^ 63 \<Longrightarrow> unat (tot + 1) = unat tot + 1"
    by (subst unat_word_ariths(1)) (simp add: take_bit_eq_mod)
  show "0 < unat tot \<Longrightarrow> unat (tot - 1) = unat tot - 1"
    by (subst unat_minus_one) auto
  have f: "unat (barrier_flag - 1) = 2 ^ 63 - 1"
    by (subst unat_minus_one) (auto simp: barrier_flag_def)
  show "0 < unat tot \<Longrightarrow> unat tot \<le> 2 ^ 63 \<Longrightarrow> unat (tot + (barrier_flag - 1)) = unat tot + 2 ^ 63 - 1"
    by (subst unat_word_ariths(1)) (simp add: f take_bit_eq_mod)
qed

lemma dvd_next: "Suc k dvd Suc (n + k)" if "Suc k dvd n" for n k :: nat
  using dvd_add [OF that dvd_refl] by simp

lemma count_list_all: "list_all (\<lambda>x. x = a) xs \<Longrightarrow> count_list xs a = length xs"
  by (induction xs) auto

text \<open>The sections in terms of numbers, for a barrier of at most \<open>2 ^ 63\<close> threads.\<close>

definition assembled :: "u64 \<Rightarrow> nat" where
  "assembled tot = (if unat tot = 2 ^ 63 then 0 else unat tot)"

lemma barrier_section_cases:
  assumes "barrier_section N t p n tot = (tot', act)" "0 < N" "N \<le> barrier_flag" "unat tot < 2 ^ 63 \<longrightarrow> unat tot < unat N"
  obtains (closed) "p \<noteq> Barrier_Inside" "2 ^ 63 < unat tot" "tot' = tot" "act = Suspend () p None"
  | (join) "p = Barrier_Wait" "unat tot \<le> 2 ^ 63" "assembled tot + 1 < unat N" "unat tot' = assembled tot + 1" "act = Suspend () Barrier_Inside None"
  | (complete) "p = Barrier_Wait" "unat tot \<le> 2 ^ 63" "unat N = assembled tot + 1" "unat tot' = 2 ^ 63 + assembled tot"
      "act = Proceed [((), Wake_All)] (\<lambda>_. Inr Passed_Barrier)"
  | (stay) "p = Barrier_Inside" "unat tot < 2 ^ 63" "tot' = tot" "act = Suspend () Barrier_Inside None"
  | (leave) "p = Barrier_Inside" "2 ^ 63 \<le> unat tot" "unat tot' = unat tot - 1"
      "act = (if unat tot - 1 = 2 ^ 63 then Proceed [((), Wake_All)] (\<lambda>_. Inr Passed_Barrier) else return_value Passed_Barrier)"
  | (destroyed) "p = Barrier_Destroy" "unat tot \<le> 2 ^ 63" "tot' = tot" "act = return_value Destroyed"
proof (cases p)
  case Barrier_Wait
  let ?k = "(if tot = barrier_flag then 0 else tot) + 1"
  show thesis
  proof (cases "2 ^ 63 < unat tot")
    case True
    then show thesis using assms(1) Barrier_Wait by (intro closed) (auto simp: barrier_compare)
  next
    case False
    then have k: "unat ?k = assembled tot + 1" using barrier_count(1) [of tot]
      by (auto simp: assembled_def barrier_compare)
    have N: "0 < unat N" "unat N \<le> 2 ^ 63" "assembled tot < unat N"
      using assms(2-4) False by (auto simp: word_less_nat_alt word_le_nat_alt unat_barrier_flag assembled_def)
    have e: "barrier_enter N ?k = (tot', act)" using assms(1) Barrier_Wait False by (simp add: barrier_compare)
    show thesis
    proof (cases "?k = N")
      case True
      have "unat (?k + (barrier_flag - 1)) = 2 ^ 63 + assembled tot" using barrier_count(3) [of ?k] k N True by simp
      then show thesis using e True False k Barrier_Wait by (intro complete) (auto simp: barrier_enter_def)
    next
      case ne: False
      then have "assembled tot + 1 \<noteq> unat N" using k by (metis word_unat_eq_iff)
      then show thesis using e ne False k N Barrier_Wait
        by (intro join) (auto simp: barrier_enter_def barrier_leave_def barrier_compare)
    qed
  qed
next
  case Barrier_Inside
  then show thesis using assms(1) barrier_count(2) [of tot]
    by (cases "unat tot < 2 ^ 63") (auto simp: barrier_leave_def barrier_compare intro: stay leave)
next
  case Barrier_Destroy
  then show thesis using assms(1)
    by (cases "2 ^ 63 < unat tot") (auto simp: barrier_compare intro: closed destroyed)
qed


lemma barrier_inv_step:
  assumes "monitor_step (barrier_section N) barrier_call m m'" "barrier.tidy m" "barrier_inv N m" "0 < N" "N \<le> barrier_flag"
  shows "barrier_inv N m'"
proof -
  have N: "unat N \<le> 2 ^ 63" using assms(5) by (simp add: word_le_nat_alt unat_barrier_flag)
  have T: "unat (members m) < 2 ^ 63 \<longrightarrow> unat (members m) < unat N"
    using assms(3) by (auto simp: barrier_inv_def split: if_splits)
  show ?thesis
  using assms(1,2)
proof (cases rule: barrier.step_cases)
  case (call t p)
  then show ?thesis using assms(3) by (auto simp: barrier_inv_def passed_def call_operation_def barrier_call_def)
next
  case (suspend xs t p ys s c q)
  from suspend(2) assms(4,5) T show ?thesis
    by (cases rule: barrier_section_cases)
      (use suspend(1,3-) assms(3) N in \<open>auto simp: barrier_inv_def passed_def assembled_def image_Un split: if_splits\<close>)
next
  case (go_on xs t p ys s ns go q)
  then show ?thesis by (cases p) (auto simp: barrier_enter_def barrier_leave_def split: if_splits)
next
  case (return xs t p ys s ns go v)
  let ?i = "count_list (map snd xs) Barrier_Inside + count_list (map snd ys) Barrier_Inside"
  from return(2) assms(4,5) T show ?thesis
  proof (cases rule: barrier_section_cases)
    case complete
    then show ?thesis using return(1,3-) assms(3) N
      by (auto simp: barrier_inv_def passed_def assembled_def image_Un count_list_all list.pred_map comp_def dvd_next split: if_splits)
  next
    case leave
    then have "unat (members m) = 2 ^ 63 + Suc ?i" using return(1) assms(3) by (simp add: barrier_inv_def)
    then show ?thesis using return(1,3-) assms(3) N leave
      by (cases ?i) (simp_all add: barrier_inv_def passed_def)
  next
    case destroyed
    then show ?thesis using return(1,3-) assms(3) N by (auto simp: barrier_inv_def passed_def split: if_splits)
  qed simp_all
qed
qed

text \<open>C27: a barrier releases threads in complete groups. In every reachable state, the number of calls of \<open>wait\<close> that have returned is at
  most the number of threads in the groups that are complete; and if nobody is about to run, all complete groups have returned and fewer threads than a
  group wait, all of them inside. A new group that assembles while the last one leaves disturbs neither.\<close>

theorem barrier_groups:
  assumes "monitor_reachable (barrier_section N) barrier_call barrier_flag m" "0 < N" "N \<le> barrier_flag"
  shows "passed m \<le> unat N * ((passed m + inside m) div unat N) \<and>
    (ready m = [] \<longrightarrow> passed m = unat N * ((passed m + inside m) div unat N) \<and>
       length (waiting m ()) = inside m \<and> inside m < unat N)"
proof -
  have N: "0 < unat N" using assms(2) by (simp add: word_less_nat_alt)
  have J: "barrier_inv N m"
    by (rule barrier.reachable_invariant [OF assms(1) _ barrier_inv_step])
      (use assms(2,3) N in \<open>simp_all add: barrier_inv_def unat_barrier_flag passed_def\<close>)
  show ?thesis
  proof (cases "unat (members m) < 2 ^ 63")
    case True
    then obtain k where k: "passed m = unat N * k" using J by (auto simp: barrier_inv_def elim: dvdE)
    have "inside m = length (waiting m ())" "length (waiting m ()) < unat N"
      using J True by (auto simp: barrier_inv_def inside_def count_list_all list.pred_map comp_def)
    then show ?thesis using N k by simp
  next
    case False
    then obtain k where k: "passed m + inside m = unat N * k" using J by (auto simp: barrier_inv_def inside_def elim: dvdE)
    have "ready m = [] \<Longrightarrow> waiting m () = [] \<and> inside m = 0" using J False
      by (auto simp: barrier_inv_def inside_def ready_threads_def)
    then show ?thesis using N k by (cases "ready m = []") auto
  qed
qed

definition example_barrier :: barrier where
  "example_barrier =
     (let run = run_section (barrier_section 2) 0 in
      run (call_operation 3 Barrier_Wait (run (run (call_operation 2 Barrier_Wait
        (run (call_operation 1 Barrier_Wait (monitor_init barrier_flag))))))))"

theorem barrier_groups_witness:
  "passed example_barrier = 2 * ((passed example_barrier + inside example_barrier) div 2) \<and> inside example_barrier < 2"
proof -
  have "monitor_reachable (barrier_section 2) barrier_call barrier_flag example_barrier"
    unfolding example_barrier_def Let_def by (intro reach_run reach_call reach_init) code_simp+
  moreover have "ready example_barrier = []" "0 < (2 :: u64)" "(2 :: u64) \<le> barrier_flag" by code_simp+
  ultimately show ?thesis using barrier_groups [of 2 example_barrier] by simp
qed

end
