(* ===== verification/Shared_Mutex.thy ===== *)
theory Shared_Mutex
  imports Monitor
begin

text \<open>
  The mutex of \<^verbatim>\<open>hpx/lcos/local/shared_mutex.hpp\<close>: many readers, one writer, and at most one reader that may become a writer. It has
  three condition variables. Their class, \<^verbatim>\<open>hpx/lcos/local/condition_variable.hpp\<close>, puts a thread into the queue before it releases
  the mutex of the caller, so that a section ends with the wait.
\<close>

section \<open>Sections\<close>

record state_data =
  shared_count :: u32
  exclusive :: bool
  upgrade :: bool
  exclusive_waiting_blocked :: bool

definition state_data_init :: state_data where
  "state_data_init = \<lparr>shared_count = 0, exclusive = False, upgrade = False, exclusive_waiting_blocked = False\<rparr>"

datatype rw_cond = Shared_Cond | Exclusive_Cond | Upgrade_Cond

instantiation rw_cond :: enum
begin

definition enum_rw_cond :: "rw_cond list" where
  "enum_rw_cond = [Shared_Cond, Exclusive_Cond, Upgrade_Cond]"

definition enum_all_rw_cond :: "(rw_cond \<Rightarrow> bool) \<Rightarrow> bool" where
  "enum_all_rw_cond P \<longleftrightarrow> P Shared_Cond \<and> P Exclusive_Cond \<and> P Upgrade_Cond"

definition enum_ex_rw_cond :: "(rw_cond \<Rightarrow> bool) \<Rightarrow> bool" where
  "enum_ex_rw_cond P \<longleftrightarrow> P Shared_Cond \<or> P Exclusive_Cond \<or> P Upgrade_Cond"

instance
proof
  have c: "x = Shared_Cond \<or> x = Exclusive_Cond \<or> x = Upgrade_Cond" for x :: rw_cond by (cases x) simp_all
  show "(UNIV :: rw_cond set) = set enum_class.enum" using c by (auto simp: enum_rw_cond_def)
  show "enum_class.enum_all P \<longleftrightarrow> Ball UNIV P" "enum_class.enum_ex P \<longleftrightarrow> Bex UNIV P" for P :: "rw_cond \<Rightarrow> bool"
    using c by (metis UNIV_I enum_all_rw_cond_def enum_ex_rw_cond_def)+
  show "distinct (enum_class.enum :: rw_cond list)" by (simp add: enum_rw_cond_def)
qed

end

datatype rw_point =
    Lock_Shared | Try_Lock_Shared | Unlock_Shared
  | Lock | Try_Lock | Unlock
  | Lock_Upgrade | Try_Lock_Upgrade | Unlock_Upgrade
  | Unlock_Upgrade_And_Lock | Upgrade_Loop
  | Unlock_And_Lock_Upgrade | Unlock_And_Lock_Shared
  | Try_Unlock_Shared_And_Lock | Unlock_Upgrade_And_Lock_Shared

text \<open>A call that returns has given its thread a mode, unless it is a \<open>try\<close> that returns false.\<close>

datatype rw_mode = No_Lock | Shared | Upgrade | Exclusive | Upgrading \<comment> \<open>waits in \<open>unlock_upgrade_and_lock\<close>\<close>

datatype rw_result = Granted rw_mode | Denied

definition release_waiters :: "(rw_cond \<times> wake) list" where
  "release_waiters = [(Exclusive_Cond, Wake_One), (Shared_Cond, Wake_All)]"

definition grant :: "(rw_cond \<times> wake) list \<Rightarrow> rw_mode \<Rightarrow> (rw_cond, rw_point, rw_result) action" where
  "grant ns md = Proceed ns (\<lambda>_. Inr (Granted md))"

definition upgrade_loop :: "state_data \<Rightarrow> state_data \<times> (rw_cond, rw_point, rw_result) action" where
  "upgrade_loop s =
     (if shared_count s \<noteq> 0 then (s, Suspend Upgrade_Cond Upgrade_Loop None)
      else (s\<lparr>upgrade := False, exclusive := True\<rparr>, grant [] Exclusive))"

fun shared_mutex_section :: "(state_data, rw_cond, rw_point, rw_result) sections" where
  "shared_mutex_section t Lock_Shared n s =
     (if exclusive s \<or> exclusive_waiting_blocked s then (s, Suspend Shared_Cond Lock_Shared None)
      else (s\<lparr>shared_count := shared_count s + 1\<rparr>, grant [] Shared))"
| "shared_mutex_section t Try_Lock_Shared n s =
     (if exclusive s \<or> exclusive_waiting_blocked s then (s, return_value Denied)
      else (s\<lparr>shared_count := shared_count s + 1\<rparr>, grant [] Shared))"
| "shared_mutex_section t Unlock_Shared n s =
     (let s = s\<lparr>shared_count := shared_count s - 1\<rparr> in
      if shared_count s = 0
      then if upgrade s
        then (s\<lparr>upgrade := False, exclusive := True\<rparr>, grant ((Upgrade_Cond, Wake_One) # release_waiters) No_Lock)
        else (s\<lparr>exclusive_waiting_blocked := False\<rparr>, grant release_waiters No_Lock)
      else (s, grant [] No_Lock))"
| "shared_mutex_section t Lock n s =
     (if shared_count s \<noteq> 0 \<or> exclusive s
      then (s\<lparr>exclusive_waiting_blocked := True\<rparr>, Suspend Exclusive_Cond Lock None)
      else (s\<lparr>exclusive := True\<rparr>, grant [] Exclusive))"
| "shared_mutex_section t Try_Lock n s =
     (if shared_count s \<noteq> 0 \<or> exclusive s then (s, return_value Denied)
      else (s\<lparr>exclusive := True\<rparr>, grant [] Exclusive))"
| "shared_mutex_section t Unlock n s =
     (s\<lparr>exclusive := False, exclusive_waiting_blocked := False\<rparr>, grant release_waiters No_Lock)"
| "shared_mutex_section t Lock_Upgrade n s =
     (if exclusive s \<or> exclusive_waiting_blocked s \<or> upgrade s then (s, Suspend Shared_Cond Lock_Upgrade None)
      else (s\<lparr>shared_count := shared_count s + 1, upgrade := True\<rparr>, grant [] Upgrade))"
| "shared_mutex_section t Try_Lock_Upgrade n s =
     (if exclusive s \<or> exclusive_waiting_blocked s \<or> upgrade s then (s, return_value Denied)
      else (s\<lparr>shared_count := shared_count s + 1, upgrade := True\<rparr>, grant [] Upgrade))"
| "shared_mutex_section t Unlock_Upgrade n s =
     (let s = s\<lparr>upgrade := False, shared_count := shared_count s - 1\<rparr> in
      if shared_count s = 0
      then (s\<lparr>exclusive_waiting_blocked := False\<rparr>, grant release_waiters No_Lock)
      else (s, grant [] No_Lock))"
| "shared_mutex_section t Unlock_Upgrade_And_Lock n s = upgrade_loop (s\<lparr>shared_count := shared_count s - 1\<rparr>)"
| "shared_mutex_section t Upgrade_Loop n s = upgrade_loop s"
| "shared_mutex_section t Unlock_And_Lock_Upgrade n s =
     (s\<lparr>exclusive := False, upgrade := True, shared_count := shared_count s + 1, exclusive_waiting_blocked := False\<rparr>,
      grant release_waiters Upgrade)"
| "shared_mutex_section t Unlock_And_Lock_Shared n s =
     (s\<lparr>exclusive := False, shared_count := shared_count s + 1, exclusive_waiting_blocked := False\<rparr>,
      grant release_waiters Shared)"
| "shared_mutex_section t Try_Unlock_Shared_And_Lock n s =
     (if \<not> exclusive s \<and> \<not> exclusive_waiting_blocked s \<and> \<not> upgrade s \<and> shared_count s = 1
      then (s\<lparr>shared_count := 0, exclusive := True\<rparr>, grant [] Exclusive)
      else (s, return_value Denied))"
| "shared_mutex_section t Unlock_Upgrade_And_Lock_Shared n s =
     (s\<lparr>upgrade := False, exclusive_waiting_blocked := False\<rparr>, grant release_waiters Shared)"

type_synonym shared_mutex = "(state_data, rw_cond, rw_point, rw_result) monitor"

interpretation rw: untimed_object shared_mutex_section entry for entry :: "shared_mutex \<Rightarrow> tid \<Rightarrow> rw_point \<Rightarrow> bool"
proof
  fix t p n s s' c q r
  show "shared_mutex_section t p n s = (s', Suspend c q r) \<Longrightarrow> r = None"
    by (cases p) (auto simp: upgrade_loop_def grant_def Let_def split: if_splits)
qed

section \<open>What the callers promise\<close>

text \<open>The mode of a thread after the calls that have returned.\<close>

definition mode_after :: "(tid \<times> rw_result) list \<Rightarrow> tid \<Rightarrow> rw_mode" where
  "mode_after rs t = fold (\<lambda>(u, r) md. if u = t then (case r of Granted md' \<Rightarrow> md' | Denied \<Rightarrow> md) else md) rs No_Lock"

text \<open>Threads unlock what they have locked, and lock only if they have nothing locked.\<close>

fun needs :: "rw_point \<Rightarrow> rw_mode" where
  "needs Unlock_Shared = Shared"
| "needs Unlock = Exclusive"
| "needs Unlock_Upgrade = Upgrade"
| "needs Unlock_Upgrade_And_Lock = Upgrade"
| "needs Upgrade_Loop = Upgrading"
| "needs Unlock_And_Lock_Upgrade = Exclusive"
| "needs Unlock_And_Lock_Shared = Exclusive"
| "needs Try_Unlock_Shared_And_Lock = Shared"
| "needs Unlock_Upgrade_And_Lock_Shared = Upgrade"
| "needs _ = No_Lock"

definition rw_call :: "shared_mutex \<Rightarrow> tid \<Rightarrow> rw_point \<Rightarrow> bool" where
  "rw_call m t p \<longleftrightarrow> int t < 2 ^ 32 - 1 \<and> p \<noteq> Upgrade_Loop \<and> mode_after (returned m) t = needs p"

section \<open>Exclusion\<close>

text \<open>The members in terms of the modes of all threads. \<open>exclusive\<close> is also set for the thread that waits to become a writer, as soon as the last
  reader has gone.\<close>

definition holders :: "(tid \<Rightarrow> rw_mode) \<Rightarrow> rw_mode \<Rightarrow> nat" where
  "holders f md = card {t. f t = md}"

definition few_threads :: "(tid \<Rightarrow> rw_mode) \<Rightarrow> bool" where
  "few_threads f \<longleftrightarrow> (\<forall>t. f t \<noteq> No_Lock \<longrightarrow> t < 2 ^ 32 - 1)"

definition modes_inv :: "state_data \<Rightarrow> (tid \<Rightarrow> rw_mode) \<Rightarrow> bool" where
  "modes_inv s f \<longleftrightarrow> few_threads f \<and>
     unat (shared_count s) = holders f Shared + holders f Upgrade \<and>
     holders f Upgrade + holders f Upgrading + holders f Exclusive \<le> 1 \<and>
     (exclusive s \<longleftrightarrow> holders f Exclusive = 1 \<or> holders f Upgrading = 1 \<and> holders f Shared = 0) \<and>
     (exclusive s \<longrightarrow> unat (shared_count s) = 0) \<and>
     (upgrade s \<longleftrightarrow> holders f Upgrade = 1 \<or> holders f Upgrading = 1 \<and> holders f Shared \<noteq> 0)"

lemma few_finite:
  assumes "few_threads f" "md \<noteq> No_Lock"
  shows "finite {t. f t = md}" "{t. f t = md} \<subseteq> {..<2 ^ 32 - 1}"
proof -
  show "{t. f t = md} \<subseteq> {..<2 ^ 32 - 1}" using assms by (auto simp: few_threads_def)
  then show "finite {t. f t = md}" by (rule finite_subset) simp
qed

lemma holders_update:
  assumes "few_threads f" "md \<noteq> No_Lock"
  shows "holders (f(t := x)) md =
    (if x = md then if f t = md then holders f md else holders f md + 1
     else if f t = md then holders f md - 1 else holders f md)"
proof -
  have "{u. (f(t := x)) u = md} = (if x = md then insert t {u. f u = md} else {u. f u = md} - {t})" by auto
  then show ?thesis using few_finite(1) [OF assms] by (simp add: holders_def card_insert_if)
qed

lemma holder_counts: "few_threads f \<Longrightarrow> f t \<noteq> No_Lock \<Longrightarrow> 0 < holders f (f t)"
  unfolding holders_def by (subst card_gt_0_iff) (use few_finite in \<open>auto simp: few_threads_def\<close>)

lemma few_readers:
  assumes "few_threads f" "t < 2 ^ 32 - 1" "f t \<notin> {Shared, Upgrade}"
  shows "holders f Shared + holders f Upgrade < 2 ^ 32 - 1"
proof -
  have "holders f Shared + holders f Upgrade = card ({t. f t = Shared} \<union> {t. f t = Upgrade})"
    unfolding holders_def by (rule card_Un_disjoint [symmetric]) (use few_finite [OF assms(1)] in auto)
  also have "\<dots> \<le> card ({..<2 ^ 32 - 1} - {t})"
    by (rule card_mono) (use assms few_finite(2) [OF assms(1), of Shared] few_finite(2) [OF assms(1), of Upgrade] in auto)
  also have "\<dots> < 2 ^ 32 - 1" using assms(2) by (simp add: card_Diff_singleton)
  finally show ?thesis .
qed

lemma few_threads_update: "few_threads f \<Longrightarrow> t < 2 ^ 32 - 1 \<Longrightarrow> few_threads (f(t := x))"
  by (simp add: few_threads_def)

lemma count_words:
  "(c :: u32) = 0 \<longleftrightarrow> unat c = 0" "(c :: u32) = 1 \<longleftrightarrow> unat c = 1"
  "unat c < 2 ^ 32 - 1 \<Longrightarrow> unat (c + 1) = unat c + 1" "0 < unat c \<Longrightarrow> unat (c - 1) = unat c - 1"
proof -
  show "c = 0 \<longleftrightarrow> unat c = 0" "c = 1 \<longleftrightarrow> unat c = 1" by (simp_all add: word_unat_eq_iff)
  show "unat c < 2 ^ 32 - 1 \<Longrightarrow> unat (c + 1) = unat c + 1"
    by (subst unat_word_ariths(1)) (simp add: take_bit_eq_mod)
  show "0 < unat c \<Longrightarrow> unat (c - 1) = unat c - 1"
    by (subst unat_minus_one) auto
qed


lemma section_modes:
  assumes "shared_mutex_section t p n s = (s', act)" "modes_inv s f" "f t = needs p" "t < 2 ^ 32 - 1"
  shows "act = Suspend c q r \<Longrightarrow> modes_inv s' (f(t := needs q))"
    and "act = Proceed ns go \<Longrightarrow> go b = Inr (Granted md) \<Longrightarrow> modes_inv s' (f(t := md))"
    and "act = Proceed ns go \<Longrightarrow> go b = Inr Denied \<Longrightarrow> modes_inv s' f"
proof -
  have F: "few_threads f" using assms(2) by (simp add: modes_inv_def)
  note h = holders_update [OF F] few_threads_update [OF F assms(4)]
  have c: "f t \<noteq> No_Lock \<Longrightarrow> 0 < holders f (f t)" using holder_counts [OF F] by blast
  have r: "f t \<notin> {Shared, Upgrade} \<Longrightarrow> holders f Shared + holders f Upgrade < 2 ^ 32 - 1"
    using few_readers [OF F assms(4)] by blast
  show "act = Suspend c q r \<Longrightarrow> modes_inv s' (f(t := needs q))" using assms(1,3)
    by (cases p; clarsimp simp: upgrade_loop_def grant_def Let_def split: if_splits)
      (use assms(2) c r in \<open>simp_all add: modes_inv_def h count_words\<close>, arith+)
  show "act = Proceed ns go \<Longrightarrow> go b = Inr (Granted md) \<Longrightarrow> modes_inv s' (f(t := md))" using assms(1,3)
    by (cases p; clarsimp simp: upgrade_loop_def grant_def Let_def split: if_splits)
      (use assms(2) c r in \<open>simp_all add: modes_inv_def h count_words\<close>, arith+)
  show "act = Proceed ns go \<Longrightarrow> go b = Inr Denied \<Longrightarrow> modes_inv s' f" using assms(1,2)
    by (cases p) (auto simp: upgrade_loop_def grant_def Let_def split: if_splits)
qed

text \<open>The mode of a thread now: while a call is under way, it is what the point of the call needs.\<close>

definition all_calls :: "shared_mutex \<Rightarrow> (tid \<times> rw_point) set" where
  "all_calls m = set (running m) \<union> (\<Union>c. set (waiting m c))"

definition modes_now :: "shared_mutex \<Rightarrow> tid \<Rightarrow> rw_mode" where
  "modes_now m t = (if (t, Upgrade_Loop) \<in> all_calls m then Upgrading else mode_after (returned m) t)"

definition rw_inv :: "shared_mutex \<Rightarrow> bool" where
  "rw_inv m \<longleftrightarrow> modes_inv (members m) (modes_now m) \<and>
     (\<forall>(t, p) \<in> all_calls m. t < 2 ^ 32 - 1 \<and> modes_now m t = needs p) \<and>
     (\<forall>t. mode_after (returned m) t = (if modes_now m t = Upgrading then Upgrade else modes_now m t))"

lemma mode_after_snoc [simp]:
  "mode_after (rs @ [(u, r)]) t = (if u = t then (case r of Granted md \<Rightarrow> md | Denied \<Rightarrow> mode_after rs t) else mode_after rs t)"
  by (simp add: mode_after_def split: rw_result.split)

lemma calls_move: "W c = us @ vs \<Longrightarrow> set (R @ us) \<union> (\<Union>d. set ((W(c := vs)) d)) = set R \<union> (\<Union>d. set (W d))"
  by (auto split: if_splits) (metis Un_iff set_append)+

lemma wakes_calls: "wakes ns W R b = (W', R', b') \<Longrightarrow> set R' \<union> (\<Union>c. set (W' c)) = set R \<union> (\<Union>c. set (W c))"
  using wakes_moves [of "\<lambda>W' R'. set R' \<union> (\<Union>c. set (W' c)) = set R \<union> (\<Union>c. set (W c))", OF _ refl] calls_move by metis

text \<open>A section of thread \<open>t\<close> changes the mode of \<open>t\<close> only.\<close>

lemma modes_now_suspend:
  assumes "all_calls m = insert (t, p) R" "t \<notin> fst ` R" "all_calls m' = insert (t, q) R" "returned m' = returned m"
    "modes_now m t = needs p" "q = p \<or> q = Upgrade_Loop \<and> p = Unlock_Upgrade_And_Lock"
  shows "modes_now m' = (modes_now m)(t := needs q)"
proof
  fix u
  have "(t, x) \<notin> R" for x using assms(2) by force
  then show "modes_now m' u = ((modes_now m)(t := needs q)) u"
    using assms(1,3-) by (cases "u = t") (auto simp: modes_now_def)
qed

lemma modes_now_return:
  assumes "all_calls m = insert (t, p) R" "t \<notin> fst ` R" "all_calls m' = R" "returned m' = returned m @ [(t, r)]"
  shows "modes_now m' = (modes_now m)(t := (case r of Granted md \<Rightarrow> md | Denied \<Rightarrow> mode_after (returned m) t))"
proof
  fix u
  have "(t, x) \<notin> R" for x using assms(2) by force
  then show "modes_now m' u = ((modes_now m)(t := (case r of Granted md \<Rightarrow> md | Denied \<Rightarrow> mode_after (returned m) t))) u"
    using assms(1,3-) by (cases "u = t") (auto simp: modes_now_def split: rw_result.split)
qed

lemma section_suspends:
  "shared_mutex_section t p n s = (s', Suspend c q r) \<Longrightarrow> q = p \<or> q = Upgrade_Loop \<and> p = Unlock_Upgrade_And_Lock"
  "shared_mutex_section t p n s = (s', Proceed ns go) \<Longrightarrow>
   \<exists>r. go b = Inr r \<and> r \<noteq> Granted Upgrading \<and> (r = Denied \<longrightarrow> p \<noteq> Upgrade_Loop)"
  by (cases p; auto simp: upgrade_loop_def grant_def Let_def split: if_splits)+

lemma rest_needs:
  assumes "rw_inv m" "all_calls m = insert (t, p) R" "t \<notin> fst ` R" "modes_now m' = (modes_now m)(t := md)"
  shows "\<forall>(u, q) \<in> R. u < 2 ^ 32 - 1 \<and> modes_now m' u = needs q"
proof (intro ballI case_prodI2)
  fix x u q assume "x \<in> R" "x = (u, q)"
  then have "u \<noteq> t" "(u, q) \<in> all_calls m" using assms(2,3) by force+
  then show "u < 2 ^ 32 - 1 \<and> modes_now m' u = needs q" using assms(1,4) by (auto simp: rw_inv_def)
qed

lemma rw_inv_step:
  assumes "monitor_step shared_mutex_section rw_call m m'" "rw.tidy m" "rw_inv m"
  shows "rw_inv m'"
  using assms(1,2)
proof (cases rule: rw.step_cases)
  case (call t p)
  then have "all_calls m' = insert (t, p) (all_calls m)" "returned m' = returned m" "members m' = members m"
    by (auto simp: all_calls_def call_operation_def)
  moreover from this have "modes_now m' = modes_now m" using call(1) by (auto simp: modes_now_def rw_call_def)
  moreover have "(t, Upgrade_Loop) \<notin> all_calls m" using call(2) by (force simp: all_calls_def all_threads_def)
  then have "modes_now m t = needs p" using call(1) by (simp add: modes_now_def rw_call_def)
  ultimately show ?thesis using assms(3) call(1) by (auto simp: rw_inv_def rw_call_def)
next
  case (suspend xs t p ys s c q)
  let ?R = "set (xs @ ys) \<union> (\<Union>c. set (waiting m c))"
  have R: "all_calls m = insert (t, p) ?R" "all_calls m' = insert (t, q) ?R" "t \<notin> fst ` ?R"
    using one_call_other [of "waiting m" xs t p ys] suspend assms(2)
    by (auto simp: all_calls_def rw.tidy_def all_threads_def image_Un split: if_splits)
  have t: "t < 2 ^ 32 - 1" "modes_now m t = needs p" using assms(3) R(1) by (auto simp: rw_inv_def)
  have n: "modes_now m' = (modes_now m)(t := needs q)"
    using modes_now_suspend [OF R(1,3,2) suspend(6) t(2) section_suspends(1) [OF suspend(2)]] .
  have "modes_inv (members m) (modes_now m)" using assms(3) by (simp add: rw_inv_def)
  from section_modes(1) [OF suspend(2) this t(2,1) refl] show ?thesis
    using rest_needs [OF assms(3) R(1,3) n] t section_suspends(1) [OF suspend(2)] assms(3)
    unfolding rw_inv_def R(2) suspend(3,6) n by auto
next
  case (go_on xs t p ys s ns go q)
  then show ?thesis using section_suspends(2) [OF go_on(2)] by (metis Inl_Inr_False)
next
  case (return xs t p ys s ns go v)
  let ?R = "set (xs @ ys) \<union> (\<Union>c. set (waiting m c))"
  obtain W Q b where w: "wakes ns (waiting m) (xs @ ys) False = (W, Q, b)" by (metis prod_cases3)
  have R: "all_calls m = insert (t, p) ?R" "all_calls m' = ?R" "t \<notin> fst ` ?R"
    using one_call_other [of "waiting m" xs t p ys] return assms(2) wakes_calls [OF w]
    by (auto simp: all_calls_def rw.tidy_def all_threads_def image_Un w)
  have t: "t < 2 ^ 32 - 1" "modes_now m t = needs p" using assms(3) R(1) by (auto simp: rw_inv_def)
  note n = modes_now_return [OF R(1,3,2) return(7)]
  have J: "modes_inv (members m) (modes_now m)" using assms(3) by (simp add: rw_inv_def)
  have v: "v \<noteq> Granted Upgrading" "v = Denied \<Longrightarrow> p \<noteq> Upgrade_Loop"
    using section_suspends(2) [OF return(2)] return(3) by (metis sum.inject(2))+
  have "modes_inv s (modes_now m') \<and>
    (\<forall>t. mode_after (returned m') t = (if modes_now m' t = Upgrading then Upgrade else modes_now m' t))"
  proof (cases v)
    case (Granted md)
    then show ?thesis using section_modes(2) [OF return(2) J t(2,1) refl return(3) [unfolded Granted]] v(1) assms(3)
      by (simp add: n return(7) rw_inv_def)
  next
    case Denied
    have "(t, Upgrade_Loop) \<notin> all_calls m" using R(1,3) v(2) Denied by (force simp del: UN_iff Un_iff)
    then have "modes_now m' = modes_now m" unfolding n Denied by (auto simp: modes_now_def fun_eq_iff)
    then show ?thesis using section_modes(3) [OF return(2) J t(2,1) refl return(3) [unfolded Denied]] assms(3)
      by (simp add: return(7) Denied rw_inv_def)
  qed
  then show ?thesis using rest_needs [OF assms(3) R(1,3) n] unfolding rw_inv_def R(2) return(4) by blast
qed

lemma rw_inv_reachable:
  assumes "monitor_reachable shared_mutex_section rw_call state_data_init m"
  shows "rw_inv m"
proof (rule rw.reachable_invariant [OF assms _ rw_inv_step])
  have "modes_now (monitor_init state_data_init) = (\<lambda>t. No_Lock)"
    by (simp add: fun_eq_iff modes_now_def all_calls_def mode_after_def)
  then show "rw_inv (monitor_init state_data_init)"
    by (simp add: rw_inv_def modes_inv_def few_threads_def holders_def state_data_init_def all_calls_def mode_after_def)
qed

lemma two_holders: "few_threads f \<Longrightarrow> f t = md \<Longrightarrow> f u = md \<Longrightarrow> md \<noteq> No_Lock \<Longrightarrow> t \<noteq> u \<Longrightarrow> 1 < holders f md"
  using card_mono [of "{t. f t = md}" "{t, u}"] few_finite(1) [of f md] by (auto simp: holders_def)

text \<open>Which locks two threads may have at the same time.\<close>

fun compatible :: "rw_mode \<Rightarrow> rw_mode \<Rightarrow> bool" where
  "compatible No_Lock md = True"
| "compatible md No_Lock = True"
| "compatible Shared Shared = True"
| "compatible Shared Upgrade = True"
| "compatible Upgrade Shared = True"
| "compatible _ _ = False"

lemma modes_compatible:
  assumes "modes_inv s f" "t \<noteq> u"
  shows "compatible (if f t = Upgrading then Upgrade else f t) (if f u = Upgrading then Upgrade else f u)"
proof -
  have F: "few_threads f" using assms(1) by (simp add: modes_inv_def)
  show ?thesis
    using assms holder_counts [OF F, of t] holder_counts [OF F, of u] two_holders [OF F, of t _ u]
    by (cases "f t"; cases "f u") (force simp: modes_inv_def)+
qed

text \<open>C26: a shared mutex excludes. If threads unlock only what they have locked, then in every reachable state two threads hold locks that go together: a
  writer is alone, and at most one of the readers has the upgrade lock.\<close>

theorem shared_mutex_exclusion:
  assumes "monitor_reachable shared_mutex_section rw_call state_data_init m" "t \<noteq> u"
  shows "compatible (mode_after (returned m) t) (mode_after (returned m) u)"
proof -
  have J: "modes_inv (members m) (modes_now m)"
    and E: "mode_after (returned m) x = (if modes_now m x = Upgrading then Upgrade else modes_now m x)" for x
    using rw_inv_reachable [OF assms(1)] by (simp_all add: rw_inv_def)
  show ?thesis unfolding E by (rule modes_compatible [OF J assms(2)])
qed

section \<open>No wake-up is lost when the mutex becomes free\<close>

definition free_inv :: "shared_mutex \<Rightarrow> bool" where
  "free_inv m \<longleftrightarrow>
     (shared_count (members m) = 0 \<and> \<not> exclusive (members m) \<longrightarrow> \<not> exclusive_waiting_blocked (members m) \<and>
        waiting m Shared_Cond = [] \<and> (waiting m Exclusive_Cond \<noteq> [] \<longrightarrow> Lock \<in> snd ` set (running m))) \<and>
     list_all (\<lambda>w. snd w = Lock) (waiting m Exclusive_Cond) \<and>
     list_all (\<lambda>w. snd w = Upgrade_Loop) (waiting m Upgrade_Cond)"

lemma upgrade_not_free: "modes_inv s f \<Longrightarrow> upgrade s \<Longrightarrow> shared_count s = 0 \<Longrightarrow> exclusive s"
  by (auto simp: modes_inv_def)

lemma no_count_overflow:
  assumes "rw_inv m" "(t, p) \<in> all_calls m" "needs p \<notin> {Shared, Upgrade}"
  shows "shared_count (members m) + 1 \<noteq> 0"
proof -
  have "few_threads (modes_now m)" "t < 2 ^ 32 - 1" "modes_now m t = needs p"
    "unat (shared_count (members m)) = holders (modes_now m) Shared + holders (modes_now m) Upgrade"
    using assms(1,2) by (auto simp: rw_inv_def modes_inv_def)
  then have "unat (shared_count (members m)) < 2 ^ 32 - 1" using few_readers [of "modes_now m" t] assms(3) by simp
  then show ?thesis using count_words(3) [of "shared_count (members m)"] by (auto simp: count_words(1))
qed

lemma free_inv_step:
  assumes "monitor_step shared_mutex_section rw_call m m'" "rw.tidy m" "rw_inv m" "free_inv m"
  shows "free_inv m'"
  using assms(1,2)
proof (cases rule: rw.step_cases)
  case (call t p)
  then show ?thesis using assms(4) by (auto simp: free_inv_def call_operation_def)
next
  case (suspend xs t p ys s c q)
  have "upgrade (members m) \<Longrightarrow> shared_count (members m) = 0 \<Longrightarrow> exclusive (members m)"
    using assms(3) upgrade_not_free by (auto simp: rw_inv_def)
  then show ?thesis using suspend(1,2) assms(4) unfolding free_inv_def suspend(3-5)
    by (cases p) (auto simp: upgrade_loop_def grant_def Let_def split: if_splits)
next
  case (go_on xs t p ys s ns go q)
  then show ?thesis using section_suspends(2) [OF go_on(2)] by (metis Inl_Inr_False)
next
  case (return xs t p ys s ns go v)
  have L: "list_all (\<lambda>w. snd w = Lock) (waiting m Exclusive_Cond)"  "list_all (\<lambda>w. snd w = Upgrade_Loop) (waiting m Upgrade_Cond)"
    using assms(4) by (simp_all add: free_inv_def)
  have "(t, p) \<in> all_calls m" using return(1) by (simp add: all_calls_def)
  note o = no_count_overflow [OF assms(3) this]
  show ?thesis using return(1,2) o unfolding free_inv_def return(4-6)
    by (cases p; clarsimp simp: upgrade_loop_def grant_def release_waiters_def Let_def split: if_splits;
      use L assms(4) in \<open>cases "waiting m Exclusive_Cond"; cases "waiting m Upgrade_Cond"; auto simp: free_inv_def\<close>)
qed

text \<open>C40: nobody sleeps in front of a free shared mutex. In every reachable state in which nobody is about to run and the mutex
  is neither shared nor exclusive, none of its three condition variables has a waiting thread.\<close>

theorem shared_mutex_no_lost_wakeup:
  assumes "monitor_reachable shared_mutex_section rw_call state_data_init m" "ready m = []"
    "shared_count (members m) = 0" "\<not> exclusive (members m)"
  shows "waiting m c = []"
proof -
  have "rw_inv m \<and> free_inv m"
    by (rule rw.reachable_invariant [OF assms(1), where J = "\<lambda>m. rw_inv m \<and> free_inv m"])
      (use rw_inv_reachable [OF reach_init] rw_inv_step free_inv_step in \<open>auto simp: free_inv_def state_data_init_def\<close>)
  then have J: "rw_inv m" "free_inv m" by simp_all
  have "waiting m Upgrade_Cond = []"
  proof (rule ccontr)
    assume "waiting m Upgrade_Cond \<noteq> []"
    then obtain t ws where "waiting m Upgrade_Cond = (t, Upgrade_Loop) # ws"
      using J(2) by (cases "waiting m Upgrade_Cond") (auto simp: free_inv_def)
    then have "(t, Upgrade_Loop) \<in> set (waiting m Upgrade_Cond)" by simp
    then have "modes_now m t = Upgrading" by (auto simp: modes_now_def all_calls_def)
    then show False using J(1) holder_counts [of "modes_now m" t] assms(3,4)
      by (auto simp: rw_inv_def modes_inv_def count_words(1) [of "shared_count (members m)"])
  qed
  then show ?thesis using J(2) assms(2-4) by (cases c) (auto simp: free_inv_def ready_threads_def)
qed

definition rw_op :: "tid \<Rightarrow> rw_point \<Rightarrow> shared_mutex \<Rightarrow> shared_mutex" where
  "rw_op t p m = run_section shared_mutex_section 0 (call_operation t p m)"

lemma reach_rw_op:
  assumes "monitor_reachable shared_mutex_section rw_call s0 m" "idle m t \<and> rw_call m t p"
  shows "monitor_reachable shared_mutex_section rw_call s0 (rw_op t p m)"
  unfolding rw_op_def using assms by (intro reach_run reach_call) (auto simp: call_operation_def)

text \<open>A reader, a reader that becomes a writer, and a writer that has to wait for both.\<close>

definition writer_after_upgrade :: shared_mutex where
  "writer_after_upgrade =
     run_section shared_mutex_section 0
       (rw_op 2 Unlock (rw_op 2 Unlock_Upgrade_And_Lock (rw_op 1 Unlock_Shared (rw_op 3 Lock
         (rw_op 2 Lock_Upgrade (rw_op 1 Lock_Shared (monitor_init state_data_init)))))))"

lemma writer_after_upgrade_reachable: "monitor_reachable shared_mutex_section rw_call state_data_init writer_after_upgrade"
  unfolding writer_after_upgrade_def by (intro reach_run reach_rw_op reach_init) code_simp+

theorem shared_mutex_exclusion_witness:
  "compatible (mode_after (returned writer_after_upgrade) 3) (mode_after (returned writer_after_upgrade) 2)"
  by (rule shared_mutex_exclusion [OF writer_after_upgrade_reachable]) simp

theorem shared_mutex_no_lost_wakeup_witness: "waiting (rw_op 3 Unlock writer_after_upgrade) Exclusive_Cond = []"
proof (rule shared_mutex_no_lost_wakeup)
  show "monitor_reachable shared_mutex_section rw_call state_data_init (rw_op 3 Unlock writer_after_upgrade)"
    by (intro reach_rw_op writer_after_upgrade_reachable) code_simp
qed code_simp+

text \<open>While there are readers, \<open>unlock_upgrade\<close> wakes nobody, so that a thread in \<open>lock_upgrade\<close> sleeps on although nobody has the upgrade lock any
  more and its condition holds.\<close>

definition upgrade_released :: shared_mutex where
  "upgrade_released =
     rw_op 2 Unlock_Upgrade (rw_op 3 Lock_Upgrade (rw_op 2 Lock_Upgrade (rw_op 1 Lock_Shared (monitor_init state_data_init))))"

lemma unlock_upgrade_wakes_nobody:
  "monitor_reachable shared_mutex_section rw_call state_data_init upgrade_released \<and> ready upgrade_released = [] \<and>
   members upgrade_released = state_data_init\<lparr>shared_count := 1\<rparr> \<and> waiting upgrade_released Shared_Cond = [(3, Lock_Upgrade)]"
proof -
  have "monitor_reachable shared_mutex_section rw_call state_data_init upgrade_released"
    unfolding upgrade_released_def by (intro reach_rw_op reach_init) code_simp+
  moreover have "ready upgrade_released = []" "members upgrade_released = state_data_init\<lparr>shared_count := 1\<rparr>"
    "waiting upgrade_released Shared_Cond = [(3, Lock_Upgrade)]"
    by code_simp+
  ultimately show ?thesis by blast
qed

end
