(* ===== verification/Receive_Buffer.thy ===== *)
theory Receive_Buffer
  imports Std_Map
begin

text \<open>
  Promises (\<^verbatim>\<open>hpx/lcos/local/promise.hpp\<close>) and the buffer that pairs values with futures by a step number
  (\<^verbatim>\<open>hpx/lcos/local/receive_buffer.hpp\<close>). The specializations for \<open>void\<close> are the case of a type with one value.
\<close>

section \<open>Promises\<close>

datatype 'v outcome = Value 'v | Exceptional hpx_error

text \<open>The state a promise shares with its future: \<open>None\<close> as long as it is not ready. The future refers to the same state; only its
  reading end is left out here.\<close>

type_synonym 'v shared_state = "'v outcome option"

record 'v promise =
  shared_state :: "'v shared_state option" \<comment> \<open>\<open>None\<close> after the promise was moved from\<close>
  future_retrieved :: bool

definition promise_new :: "'v promise" where
  "promise_new = \<lparr>shared_state = Some None, future_retrieved = False\<rparr>"

definition get_future :: "'v promise \<Rightarrow> 'v promise \<times> unit result" where
  "get_future p =
     (if future_retrieved p then (p, Inl future_already_retrieved)
      else if shared_state p = None then (p, Inl no_state)
      else (p\<lparr>future_retrieved := True\<rparr>, Inr ()))"

definition set_outcome :: "'v outcome \<Rightarrow> 'v promise \<Rightarrow> 'v promise \<times> unit result" where
  "set_outcome x p =
     (case shared_state p of
        None \<Rightarrow> (p, Inl no_state)
      | Some (Some _) \<Rightarrow> (p, Inl promise_already_satisfied)
      | Some None \<Rightarrow> (p\<lparr>shared_state := Some (Some x)\<rparr>, Inr ()))"

definition set_value :: "'v \<Rightarrow> 'v promise \<Rightarrow> 'v promise \<times> unit result" where
  "set_value v = set_outcome (Value v)"

definition set_exception :: "hpx_error \<Rightarrow> 'v promise \<Rightarrow> 'v promise \<times> unit result" where
  "set_exception e = set_outcome (Exceptional e)"

definition check_abandon_shared_state :: "'v promise \<Rightarrow> 'v promise" where
  "check_abandon_shared_state p =
     (if shared_state p = Some None \<and> future_retrieved p
      then p\<lparr>shared_state := Some (Some (Exceptional broken_promise))\<rparr> else p)"

section \<open>Entries of the buffer\<close>

record 'v entry_data =
  entry_promise :: "'v promise"
  can_be_deleted :: bool
  value_set :: bool

definition entry_new :: "'v entry_data" where
  "entry_new = \<lparr>entry_promise = promise_new, can_be_deleted = False, value_set = False\<rparr>"

text \<open>Entries are shared pointers: the map has one, and a call of \<open>store_received\<close> has one until it has set the value, which it does
  after the mutex is released. \<open>held\<close> are these entries with the values that are still to be set. An entry that nobody has any more is destroyed, and its promise abandoned.\<close>

record 'v receive_buffer =
  buffer_map :: "(u64, nat) std_map"
  entries :: "nat \<Rightarrow> 'v entry_data"
  next_entry :: nat
  held :: "(nat \<times> 'v) list"

definition receive_buffer_new :: "'v receive_buffer" where
  "receive_buffer_new = \<lparr>buffer_map = [], entries = (\<lambda>_. entry_new), next_entry = 0, held = []\<rparr>"

definition update_entry :: "nat \<Rightarrow> 'v entry_data \<Rightarrow> 'v receive_buffer \<Rightarrow> 'v receive_buffer" where
  "update_entry i e b = b\<lparr>entries := (entries b)(i := e)\<rparr>"

definition release_entry :: "nat \<Rightarrow> 'v receive_buffer \<Rightarrow> 'v receive_buffer" where
  "release_entry i b =
     (if i \<in> snd ` set (buffer_map b) \<or> i \<in> fst ` set (held b) then b
      else let e = entries b i in
        update_entry i (e\<lparr>entry_promise := check_abandon_shared_state (entry_promise e)\<rparr>) b)"

definition erase_entry :: "u64 \<Rightarrow> nat \<Rightarrow> 'v receive_buffer \<Rightarrow> 'v receive_buffer" where
  "erase_entry step i b = release_entry i (b\<lparr>buffer_map := map_erase (<) (buffer_map b) step\<rparr>)"

definition entry_get_future :: "nat \<Rightarrow> 'v receive_buffer \<Rightarrow> 'v receive_buffer \<times> nat result" where
  "entry_get_future i b =
     (let e = entries b i; (p, r) = get_future (entry_promise e) in
      (update_entry i (e\<lparr>entry_promise := p\<rparr>) b, bind_result r (\<lambda>_. Inr i)))"

section \<open>Operations\<close>

text \<open>The future that is returned is named by its entry.\<close>

definition get_buffer_entry :: "u64 \<Rightarrow> 'v receive_buffer \<Rightarrow> 'v receive_buffer \<times> nat result" where
  "get_buffer_entry step b =
     (case map_find (<) (buffer_map b) step of
        Some (_, i) \<Rightarrow> (b, Inr i)
      | None \<Rightarrow>
          let i = next_entry b;
              b = (update_entry i entry_new b)\<lparr>next_entry := i + 1\<rparr>;
              (m, inserted) = map_insert (<) (buffer_map b) step i
          in if \<not> inserted then (b, Inl invalid_status) else (b\<lparr>buffer_map := m\<rparr>, Inr i))"

definition take_future :: "u64 \<Rightarrow> nat \<Rightarrow> 'v receive_buffer \<Rightarrow> 'v receive_buffer \<times> nat result" where
  "take_future step i b =
     (if can_be_deleted (entries b i)
      then let (b, r) = entry_get_future i b in (erase_entry step i b, r)
      else entry_get_future i (update_entry i ((entries b i)\<lparr>can_be_deleted := True\<rparr>) b))"

definition receive :: "u64 \<Rightarrow> 'v receive_buffer \<Rightarrow> 'v receive_buffer \<times> nat result" where
  "receive step b =
     (case get_buffer_entry step b of
        (b, Inl err) \<Rightarrow> (b, Inl err)
      | (b, Inr i) \<Rightarrow> take_future step i b)"

text \<open>\<open>Inr None\<close>: false; \<open>Inr (Some f)\<close>: true, and the future if one was asked for.\<close>

definition try_receive :: "u64 \<Rightarrow> bool \<Rightarrow> 'v receive_buffer \<Rightarrow> 'v receive_buffer \<times> nat option option result" where
  "try_receive step wanted b =
     (case map_find (<) (buffer_map b) step of
        None \<Rightarrow> (b, Inr None)
      | Some (_, i) \<Rightarrow>
          if wanted then let (b, r) = take_future step i b in (b, bind_result r (\<lambda>f. Inr (Some (Some f))))
          else (b, Inr (Some None)))"

text \<open>\<open>store_received\<close> up to where it releases the mutex, and after that.\<close>

definition store_begin :: "u64 \<Rightarrow> 'v \<Rightarrow> 'v receive_buffer \<Rightarrow> 'v receive_buffer \<times> nat result" where
  "store_begin step v b =
     (case get_buffer_entry step b of
        (b, Inl err) \<Rightarrow> (b, Inl err)
      | (b, Inr i) \<Rightarrow>
          let b = b\<lparr>held := held b @ [(i, v)]\<rparr> in
          if \<not> can_be_deleted (entries b i)
          then (update_entry i ((entries b i)\<lparr>can_be_deleted := True\<rparr>) b, Inr i)
          else (b\<lparr>buffer_map := map_erase (<) (buffer_map b) step\<rparr>, Inr i))"

definition store_end :: "nat \<Rightarrow> 'v \<Rightarrow> 'v receive_buffer \<Rightarrow> 'v receive_buffer \<times> unit result" where
  "store_end i v b =
     (let e = entries b i; (p, r) = set_value v (entry_promise e);
          b = (update_entry i (e\<lparr>entry_promise := p, value_set := True\<rparr>) b)\<lparr>held := remove1 (i, v) (held b)\<rparr>
      in (release_entry i b, r))"

definition buffer_empty :: "'v receive_buffer \<Rightarrow> bool" where
  "buffer_empty b \<longleftrightarrow> buffer_map b = []"

fun cancel_loop :: "hpx_error \<Rightarrow> (u64 \<times> nat) list \<Rightarrow> 'v receive_buffer \<Rightarrow> 'v receive_buffer \<times> unit result" where
  "cancel_loop err [] b = (b, Inr ())"
| "cancel_loop err ((step, i) # rest) b =
     (let e = entries b i in
      if \<not> can_be_deleted e then (b, Inl assertion_failure)
      else if \<not> value_set e
      then case set_exception err (entry_promise e) of
          (p, Inl err') \<Rightarrow> (b, Inl err')
        | (p, Inr _) \<Rightarrow> cancel_loop err rest (erase_entry step i (update_entry i (e\<lparr>entry_promise := p\<rparr>) b))
      else cancel_loop err rest b)"

definition cancel_waiting :: "hpx_error \<Rightarrow> 'v receive_buffer \<Rightarrow> 'v receive_buffer \<times> unit result" where
  "cancel_waiting err b = cancel_loop err (buffer_map b) b"

definition future_state :: "nat \<Rightarrow> 'v receive_buffer \<Rightarrow> 'v shared_state option" where
  "future_state i b = shared_state (entry_promise (entries b i))"

section \<open>Values meet futures\<close>

lemma map_insert_fresh:
  fixes k :: "'a :: linorder"
  assumes "map_find (<) m k = None"
  obtains m' where "map_insert (<) m k v = (m', True)" "map_find (<) m' k = Some (k, v)" "map_erase (<) m' k = m"
    "set m' = insert (k, v) (set m)"
proof (rule that)
  let ?m = "map_before (<) m k @ (k, v) # map_lower_bound (<) m k"
  show "map_insert (<) m k v = (?m, True)" using assms by (simp add: map_insert_def)
  have b: "takeWhile (\<lambda>e. fst e < k) ?m = map_before (<) m k" "dropWhile (\<lambda>e. fst e < k) ?m = (k, v) # map_lower_bound (<) m k"
    using map_before_less [of _ "(<)" m k]
    by (simp_all add: takeWhile_append2 dropWhile_append2)
  show f: "map_find (<) ?m k = Some (k, v)" by (simp add: map_find_def map_lower_bound_def [of _ ?m] b)
  show "map_erase (<) ?m k = m"
    unfolding map_erase_def f by (simp add: map_before_def [of _ ?m] map_lower_bound_def [of _ ?m] b map_split)
  show "set ?m = insert (k, v) (set m)" using map_split [of "(<)" m k] by (metis Un_insert_right list.simps(15) set_append)
qed

text \<open>Entries in the map and in the hands of \<open>store_received\<close> have been made before.\<close>

definition buffer_ok :: "'v receive_buffer \<Rightarrow> bool" where
  "buffer_ok b \<longleftrightarrow> list_all (\<lambda>(k, i). i < next_entry b) (buffer_map b) \<and> list_all (\<lambda>(i, v). i < next_entry b) (held b)"

lemma update_entry_simps [simp]:
  "entries (update_entry i e b) = (entries b)(i := e)" "buffer_map (update_entry i e b) = buffer_map b"
  "next_entry (update_entry i e b) = next_entry b" "held (update_entry i e b) = held b"
  by (simp_all add: update_entry_def)

lemma release_entry_simps [simp]:
  "buffer_map (release_entry i b) = buffer_map b" "next_entry (release_entry i b) = next_entry b" "held (release_entry i b) = held b"
  "j \<noteq> i \<Longrightarrow> entries (release_entry i b) j = entries b j"
  by (simp_all add: release_entry_def Let_def)

text \<open>An entry survives its release unless somebody waits for a value that nobody is setting.\<close>

lemma release_entry_ready:
  "shared_state (entry_promise (entries b i)) \<noteq> Some None \<or> i \<in> fst ` set (held b) \<Longrightarrow> release_entry i b = b"
  by (auto simp: release_entry_def check_abandon_shared_state_def update_entry_def)

definition retrieved_entry :: "'v shared_state \<Rightarrow> bool \<Rightarrow> bool \<Rightarrow> 'v entry_data" where
  "retrieved_entry x got stored =
     \<lparr>entry_promise = \<lparr>shared_state = Some x, future_retrieved = got\<rparr>, can_be_deleted = True, value_set = stored\<rparr>"

text \<open>The two sides of a step that nobody has touched, and of one that the other side has.\<close>

lemma receive_first:
  assumes "map_insert (<) (buffer_map b) step (next_entry b) = (m', True)"
  shows "receive step b = (b\<lparr>buffer_map := m', next_entry := next_entry b + 1,
    entries := (entries b)(next_entry b := retrieved_entry None True False)\<rparr>, Inr (next_entry b))"
proof -
  have "map_find (<) (buffer_map b) step = None" using assms by (auto simp: map_insert_def split: option.splits)
  then show ?thesis using assms
    by (simp add: receive_def get_buffer_entry_def take_future_def entry_get_future_def Let_def entry_new_def promise_new_def
        get_future_def retrieved_entry_def update_entry_def)
qed

lemma store_first:
  assumes "map_insert (<) (buffer_map b) step (next_entry b) = (m', True)"
  shows "store_begin step v b = (b\<lparr>buffer_map := m', next_entry := next_entry b + 1,
    entries := (entries b)(next_entry b := retrieved_entry None False False), held := held b @ [(next_entry b, v)]\<rparr>, Inr (next_entry b))"
proof -
  have "map_find (<) (buffer_map b) step = None" using assms by (auto simp: map_insert_def split: option.splits)
  then show ?thesis using assms
    by (simp add: store_begin_def get_buffer_entry_def Let_def entry_new_def promise_new_def
        retrieved_entry_def update_entry_def)
qed

lemma receive_second:
  assumes "map_find (<) (buffer_map b) step = Some (k, i)" "entries b i = retrieved_entry x False stored"
    "x \<noteq> None \<or> i \<in> fst ` set (held b)"
  shows "receive step b = (b\<lparr>buffer_map := map_erase (<) (buffer_map b) step,
    entries := (entries b)(i := retrieved_entry x True stored)\<rparr>, Inr i)"
  using assms(3)
  by (simp add: receive_def get_buffer_entry_def assms take_future_def retrieved_entry_def entry_get_future_def get_future_def Let_def
      erase_entry_def release_entry_ready)

lemma store_second:
  assumes "map_find (<) (buffer_map b) step = Some (k, i)" "entries b i = retrieved_entry x got stored"
  shows "store_begin step v b = (b\<lparr>buffer_map := map_erase (<) (buffer_map b) step, held := held b @ [(i, v)]\<rparr>, Inr i)"
  by (simp add: store_begin_def get_buffer_entry_def assms retrieved_entry_def Let_def)

lemma store_end_waiting:
  assumes "entries b i = retrieved_entry None got False"
  shows "store_end i v b = (b\<lparr>entries := (entries b)(i := retrieved_entry (Some (Value v)) got True),
    held := remove1 (i, v) (held b)\<rparr>, Inr ())"
  by (simp add: store_end_def assms retrieved_entry_def set_value_def set_outcome_def Let_def release_entry_ready)

text \<open>The three orders in which one side receives and the other stores for a step.\<close>

datatype meeting = Receive_First | Store_First | Receive_Between

definition meet :: "meeting \<Rightarrow> u64 \<Rightarrow> 'v \<Rightarrow> 'v receive_buffer \<Rightarrow> 'v receive_buffer \<times> nat result" where
  "meet order step v b =
     (case order of
        Receive_First \<Rightarrow>
          (case receive step b of (b, Inr i) \<Rightarrow>
             (case store_begin step v b of (b, Inr j) \<Rightarrow>
                (case store_end j v b of (b, r) \<Rightarrow> (b, bind_result r (\<lambda>_. Inr i)))
              | (b, Inl e) \<Rightarrow> (b, Inl e))
           | (b, Inl e) \<Rightarrow> (b, Inl e))
      | Store_First \<Rightarrow>
          (case store_begin step v b of (b, Inr j) \<Rightarrow>
             (case store_end j v b of (b, Inr _) \<Rightarrow> receive step b | (b, Inl e) \<Rightarrow> (b, Inl e))
           | (b, Inl e) \<Rightarrow> (b, Inl e))
      | Receive_Between \<Rightarrow>
          (case store_begin step v b of (b, Inr j) \<Rightarrow>
             (case receive step b of (b, Inr i) \<Rightarrow>
                (case store_end j v b of (b, r) \<Rightarrow> (b, bind_result r (\<lambda>_. Inr i)))
              | (b, Inl e) \<Rightarrow> (b, Inl e))
           | (b, Inl e) \<Rightarrow> (b, Inl e)))"

text \<open>Whichever comes first, the value stored for a step is the value of the future received for it. If the step is not in use, all three orders of
  receiving and storing succeed, the future becomes ready with the value, the step can be used again, and no other entry has changed.\<close>

lemma receive_buffer_pairs:
  assumes "buffer_ok b" "map_find (<) (buffer_map b) step = None"
  shows "meet order step v b =
    (b\<lparr>entries := (entries b)(next_entry b := retrieved_entry (Some (Value v)) True True), next_entry := next_entry b + 1\<rparr>,
     Inr (next_entry b))"
proof -
  obtain m' where m: "map_insert (<) (buffer_map b) step (next_entry b) = (m', True)"
    "map_find (<) m' step = Some (step, next_entry b)" "map_erase (<) m' step = buffer_map b"
    using map_insert_fresh [OF assms(2), of "next_entry b"] by metis
  have h: "remove1 (next_entry b, v) (held b @ [(next_entry b, v)]) = held b"
    using assms(1) by (subst remove1_append) (auto simp: buffer_ok_def list_all_iff)
  show ?thesis
  proof (cases order)
    case Receive_First
    then show ?thesis using h
      by (simp add: meet_def receive_first [OF m(1)] store_second m store_end_waiting)
  next
    case Store_First
    then show ?thesis using h
      by (simp add: meet_def store_first [OF m(1)] store_end_waiting receive_second m)
  next
    case Receive_Between
    then show ?thesis using h
      by (simp add: meet_def store_first [OF m(1)] receive_second m store_end_waiting)
  qed
qed

text \<open>Steps that are used twice. Storing a second value deletes the entry of the first one, which is lost, and fails: a later receive waits in vain.\<close>

lemma second_store_loses_first:
  "let b = fst (store_end 0 10 (fst (store_begin 1 (10 :: nat) receive_buffer_new)));
       (b, r) = store_begin 1 20 b; (b, r') = store_end 0 20 b; (b, f) = receive 1 b
   in r = Inr 0 \<and> r' = Inl promise_already_satisfied \<and> f = Inr 1 \<and> future_state 1 b = Some None"
  by code_simp

text \<open>Receiving a second time fails, and on the way out deletes the entry: the promise of the first receiver is broken.\<close>

lemma second_receive_breaks_first:
  "let (b, f) = receive 1 (receive_buffer_new :: nat receive_buffer); (b, f') = receive 1 b
   in f = Inr 0 \<and> f' = Inl future_already_retrieved \<and> future_state 0 b = Some (Some (Exceptional broken_promise))"
  by code_simp

end
