(* ===== verification/Channel.thy ===== *)
theory Channel
  imports Receive_Buffer
begin

text \<open>
  The channel of \<^verbatim>\<open>hpx/lcos/local/channel.hpp\<close>: an unlimited queue of values over a receive buffer, in which the step of a
  value is the number of the call (its generation) unless the caller gives one. The classes \<open>channel\<close>, \<open>receive_channel\<close> and \<open>send_channel\<close> only forward
  to it. A future that is made with an exception is an error here.
\<close>

section \<open>Operations\<close>

record 'v unlimited_channel =
  buffer :: "'v receive_buffer"
  get_generation :: u64
  set_generation :: u64
  closed :: bool

definition channel_new :: "'v unlimited_channel" where
  "channel_new = \<lparr>buffer = receive_buffer_new, get_generation = 0, set_generation = 0, closed = False\<rparr>"

definition with_buffer :: "'v unlimited_channel \<Rightarrow> 'v receive_buffer \<times> 'a \<Rightarrow> 'v unlimited_channel \<times> 'a" where
  "with_buffer c = (\<lambda>(b, r). (c\<lparr>buffer := b\<rparr>, r))"

definition chosen :: "u64 \<Rightarrow> u64 \<Rightarrow> u64" where
  "chosen generation counter = (if generation = - 1 then counter else generation)"

definition channel_get :: "u64 \<Rightarrow> bool \<Rightarrow> nat \<Rightarrow> 'v unlimited_channel \<Rightarrow> 'v unlimited_channel \<times> nat result" where
  "channel_get generation blocking use_count c =
     (if buffer_empty (buffer c) \<and> (closed c \<or> blocking \<and> use_count = 1) then (c, Inl invalid_status)
      else
        let c = c\<lparr>get_generation := get_generation c + 1\<rparr>;
            generation = chosen generation (get_generation c)
        in if closed c
           then case try_receive generation True (buffer c) of
               (b, Inr (Some (Some f))) \<Rightarrow> (c\<lparr>buffer := b\<rparr>, Inr f)
             | (b, Inr _) \<Rightarrow> (c\<lparr>buffer := b\<rparr>, Inl invalid_status)
             | (b, Inl err) \<Rightarrow> (c\<lparr>buffer := b\<rparr>, Inl err)
           else with_buffer c (receive generation (buffer c)))"

text \<open>\<open>Inr None\<close>: false; \<open>Inr (Some f)\<close>: true, and the future if one was asked for.\<close>

definition channel_try_get :: "u64 \<Rightarrow> bool \<Rightarrow> 'v unlimited_channel \<Rightarrow> 'v unlimited_channel \<times> nat option option result" where
  "channel_try_get generation wanted c =
     (if buffer_empty (buffer c) \<and> closed c then (c, Inr None)
      else
        let c = c\<lparr>get_generation := get_generation c + 1\<rparr>;
            generation = chosen generation (get_generation c)
        in if wanted
           then with_buffer c (let (b, r) = receive generation (buffer c) in (b, bind_result r (\<lambda>f. Inr (Some (Some f)))))
           else (c, Inr (Some None)))"

text \<open>\<open>set\<close> up to where the buffer releases the lock; its end is that of \<open>store_received\<close>.\<close>

definition channel_set :: "u64 \<Rightarrow> 'v \<Rightarrow> 'v unlimited_channel \<Rightarrow> 'v unlimited_channel \<times> nat result" where
  "channel_set generation v c =
     (if closed c then (c, Inl invalid_status)
      else
        let c = c\<lparr>set_generation := set_generation c + 1\<rparr> in
        with_buffer c (store_begin (chosen generation (set_generation c)) v (buffer c)))"

definition channel_set_end :: "nat \<Rightarrow> 'v \<Rightarrow> 'v unlimited_channel \<Rightarrow> 'v unlimited_channel \<times> unit result" where
  "channel_set_end i v c = with_buffer c (store_end i v (buffer c))"

text \<open>\<open>close\<close> releases the lock while it makes the exception. The result of the first part says whether there is more to do.\<close>

definition channel_close :: "'v unlimited_channel \<Rightarrow> 'v unlimited_channel \<times> bool result" where
  "channel_close c =
     (if closed c then (c, Inl invalid_status)
      else (c\<lparr>closed := True\<rparr>, Inr (\<not> buffer_empty (buffer c))))"

definition channel_close_end :: "'v unlimited_channel \<Rightarrow> 'v unlimited_channel \<times> unit result" where
  "channel_close_end c = with_buffer c (cancel_waiting future_cancelled (buffer c))"

section \<open>Threads that use a channel\<close>

text \<open>
  Threads get, set and close without giving generations. \<open>got\<close> are the futures that \<open>get\<close> has returned, \<open>sent\<close> the values that
  \<open>set\<close> has accepted with their entries, in the order of the calls; \<open>closing\<close>: a close has done its first part only; \<open>faults\<close>: errors
  other than that the channel is closed, or empty and about to block forever; \<open>asked\<close>: how often \<open>get\<close> was called.
\<close>

record 'v channel_users =
  chan :: "'v unlimited_channel"
  got :: "nat list"
  sent :: "(nat \<times> 'v) list"
  closing :: bool
  asked :: nat
  faults :: "hpx_error list"

definition users_init :: "'v channel_users" where
  "users_init = \<lparr>chan = channel_new, got = [], sent = [], closing = False, asked = 0, faults = []\<rparr>"

datatype 'v channel_action = Get bool nat | Set 'v | Set_End nat | Close | Close_End

definition fault :: "'a result \<Rightarrow> hpx_error list" where
  "fault r = (case r of Inl e \<Rightarrow> if e = invalid_status then [] else [e] | Inr _ \<Rightarrow> [])"

fun perform :: "'v channel_action \<Rightarrow> 'v channel_users \<Rightarrow> 'v channel_users" where
  "perform (Get blocking uses) u =
     (let (c, r) = channel_get (- 1) blocking uses (chan u) in
      u\<lparr>chan := c, got := got u @ (case r of Inr f \<Rightarrow> [f] | Inl _ \<Rightarrow> []), asked := asked u + 1, faults := faults u @ fault r\<rparr>)"
| "perform (Set v) u =
     (let (c, r) = channel_set (- 1) v (chan u) in
      u\<lparr>chan := c, sent := sent u @ (case r of Inr i \<Rightarrow> [(i, v)] | Inl _ \<Rightarrow> []), faults := faults u @ fault r\<rparr>)"
| "perform (Set_End n) u =
     (let (i, v) = held (buffer (chan u)) ! n; (c, r) = channel_set_end i v (chan u) in
      u\<lparr>chan := c, faults := faults u @ fault r\<rparr>)"
| "perform Close u =
     (let (c, r) = channel_close (chan u) in u\<lparr>chan := c, closing := closing u \<or> r = Inr True, faults := faults u @ fault r\<rparr>)"
| "perform Close_End u =
     (let (c, r) = channel_close_end (chan u) in u\<lparr>chan := c, closing := False, faults := faults u @ fault r\<rparr>)"

text \<open>Only calls of \<open>set\<close> and \<open>close\<close> that are under way can end. A user that is orderly closes the channel when all calls of \<open>set\<close> have returned.\<close>

fun possible :: "bool \<Rightarrow> 'v channel_action \<Rightarrow> 'v channel_users \<Rightarrow> bool" where
  "possible orderly (Set_End n) u \<longleftrightarrow> n < length (held (buffer (chan u)))"
| "possible orderly Close u \<longleftrightarrow> (orderly \<longrightarrow> held (buffer (chan u)) = [])"
| "possible orderly Close_End u \<longleftrightarrow> closing u"
| "possible orderly a u \<longleftrightarrow> True"

inductive channel_reachable :: "bool \<Rightarrow> 'v channel_users \<Rightarrow> bool" for orderly where
  users_start: "channel_reachable orderly users_init"
| users_step: "channel_reachable orderly u \<Longrightarrow> possible orderly a u \<Longrightarrow> channel_reachable orderly (perform a u)"

section \<open>Steps in order\<close>

definition step_key :: "nat \<Rightarrow> u64" where
  "step_key k = of_nat (Suc k)"

definition step_map :: "(nat \<Rightarrow> nat) \<Rightarrow> nat \<Rightarrow> nat \<Rightarrow> (u64, nat) std_map" where
  "step_map f a b = map (\<lambda>k. (step_key k, f k)) [a..<b]"

lemma step_key_less: "j < 2 ^ 64 - 1 \<Longrightarrow> k < 2 ^ 64 - 1 \<Longrightarrow> step_key j < step_key k \<longleftrightarrow> j < k"
  by (simp add: step_key_def word_less_nat_alt unsigned_of_nat take_bit_nat_eq_self del: of_nat_Suc)

lemma step_map_cong: "(\<And>k. a \<le> k \<Longrightarrow> k < b \<Longrightarrow> f k = g k) \<Longrightarrow> step_map f a b = step_map g a b"
  by (simp add: step_map_def)

lemma step_map_first:
  assumes "a < b"
  shows "map_find (<) (step_map f a b) (step_key a) = Some (step_key a, f a)"
    "map_erase (<) (step_map f a b) (step_key a) = step_map f (Suc a) b"
proof -
  have c: "step_map f a b = (step_key a, f a) # step_map f (Suc a) b" using assms by (simp add: step_map_def upt_conv_Cons)
  show f: "map_find (<) (step_map f a b) (step_key a) = Some (step_key a, f a)"
    by (simp add: c map_find_def map_lower_bound_def)
  show "map_erase (<) (step_map f a b) (step_key a) = step_map f (Suc a) b"
    unfolding map_erase_def f by (simp add: c map_before_def map_lower_bound_def)
qed

lemma step_map_after:
  assumes "b \<le> k" "k < 2 ^ 64 - 1"
  shows "map_find (<) (step_map f a b) (step_key k) = None"
    "map_insert (<) (step_map f a b) (step_key k) i = (step_map f a b @ [(step_key k, i)], True)"
proof -
  have l: "\<forall>e \<in> set (step_map f a b). fst e < step_key k" using assms by (auto simp: step_map_def step_key_less)
  show f: "map_find (<) (step_map f a b) (step_key k) = None"
    using l by (simp add: map_find_def map_lower_bound_def dropWhile_eq_Nil_conv [THEN iffD2])
  show "map_insert (<) (step_map f a b) (step_key k) i = (step_map f a b @ [(step_key k, i)], True)"
    unfolding map_insert_def f using l
    by (simp add: map_before_def map_lower_bound_def dropWhile_eq_Nil_conv [THEN iffD2] takeWhile_eq_all_conv [THEN iffD2])
qed

lemma step_map_snoc: "a \<le> b \<Longrightarrow> step_map f a b @ [(step_key b, f b)] = step_map f a (Suc b)"
  by (simp add: step_map_def)

section \<open>Futures and values in order\<close>

text \<open>The futures \<open>G\<close> that were received and the values \<open>S\<close> that were stored for the steps \<open>1, 2, \<dots>\<close>: the entry of each step, what is in it, and which steps
  are in the map. \<open>K\<close>: waiting futures have been cancelled.\<close>

definition entry_at :: "nat list \<Rightarrow> (nat \<times> 'v) list \<Rightarrow> nat \<Rightarrow> nat" where
  "entry_at G S k = (if k < length G then G ! k else fst (S ! k))"

definition expected_state :: "(nat \<times> 'v) list \<Rightarrow> (nat \<times> 'v) list \<Rightarrow> bool \<Rightarrow> nat \<Rightarrow> 'v shared_state" where
  "expected_state S H K k =
     (if k < length S then if S ! k \<in> set H then None else Some (Value (snd (S ! k)))
      else if K then Some (Exceptional future_cancelled) else None)"

definition expected_entry :: "nat list \<Rightarrow> (nat \<times> 'v) list \<Rightarrow> (nat \<times> 'v) list \<Rightarrow> bool \<Rightarrow> nat \<Rightarrow> 'v entry_data" where
  "expected_entry G S H K k =
     retrieved_entry (expected_state S H K k) (k < length G) (k < length S \<and> S ! k \<notin> set H)"

definition steps_used :: "nat list \<Rightarrow> 'a list \<Rightarrow> nat" where
  "steps_used G S = max (length G) (length S)"

definition pairing :: "nat list \<Rightarrow> (nat \<times> 'v) list \<Rightarrow> bool \<Rightarrow> 'v receive_buffer \<Rightarrow> bool" where
  "pairing G S K b \<longleftrightarrow>
     (\<forall>k < steps_used G S. entries b (entry_at G S k) = expected_entry G S (held b) K k \<and> entry_at G S k < next_entry b) \<and>
     inj_on (entry_at G S) {..<steps_used G S} \<and>
     (\<forall>k < min (length G) (length S). G ! k = fst (S ! k)) \<and>
     buffer_map b = step_map (entry_at G S) (min (length G) (length S)) (if K then length S else steps_used G S) \<and>
     set (held b) \<subseteq> set S \<and> distinct (held b)"

lemma pairing_init: "pairing [] [] K receive_buffer_new"
  by (simp add: pairing_def steps_used_def receive_buffer_new_def step_map_def)

lemma sent_at: "pairing G S K b \<Longrightarrow> k < length S \<Longrightarrow> fst (S ! k) = entry_at G S k"
  by (auto simp: pairing_def entry_at_def)

lemma entry_at_get_second:
  assumes "pairing G S K b" "length G < length S"
  shows "entry_at (G @ [fst (S ! length G)]) S = entry_at G S"
  by (auto simp: fun_eq_iff entry_at_def nth_append less_Suc_eq)

lemma pairing_get_second:
  assumes "pairing G S K b" "length G < length S"
  defines "i \<equiv> fst (S ! length G)"
  shows "\<exists>b'. receive (step_key (length G)) b = (b', Inr i) \<and> pairing (G @ [i]) S K b' \<and> held b' = held b"
proof -
  have e: "entry_at G S (length G) = i" by (simp add: entry_at_def i_def)
  have n: "steps_used G S = length S" "min (length G) (length S) = length G" using assms(2) by (simp_all add: steps_used_def)
  have m: "buffer_map b = step_map (entry_at G S) (length G) (length S)"
    using assms(1) n by (simp add: pairing_def)
  note f = step_map_first [OF assms(2), of "entry_at G S", folded m, unfolded e]
  have E: "entries b i = retrieved_entry (expected_state S (held b) K (length G)) False (S ! length G \<notin> set (held b))"
    using assms(1,2) e n by (auto simp: pairing_def expected_entry_def)
  have h: "expected_state S (held b) K (length G) \<noteq> None \<or> i \<in> fst ` set (held b)"
    using assms(2) by (auto simp: expected_state_def i_def)
  note r = receive_second [OF f(1) E h]
  show ?thesis
  proof (intro exI conjI)
    show "receive (step_key (length G)) b = (b\<lparr>buffer_map := map_erase (<) (buffer_map b) (step_key (length G)),
      entries := (entries b)(i := retrieved_entry (expected_state S (held b) K (length G)) True (S ! length G \<notin> set (held b)))\<rparr>, Inr i)"
      by (rule r)
  next
    have inj: "inj_on (entry_at G S) {..<length S}" using assms(1) n by (simp add: pairing_def)
    have "entry_at G S k = i \<longleftrightarrow> k = length G" if "k < length S" for k
      using inj_onD [OF inj, of k "length G"] that assms(2) e by auto
    then show "pairing (G @ [i]) S K (b\<lparr>buffer_map := map_erase (<) (buffer_map b) (step_key (length G)),
      entries := (entries b)(i := retrieved_entry (expected_state S (held b) K (length G)) True (S ! length G \<notin> set (held b)))\<rparr>)"
      using assms(1,2) n unfolding pairing_def f(2) entry_at_get_second [OF assms(1,2), folded i_def]
      by (auto simp: steps_used_def expected_entry_def nth_append less_Suc_eq i_def)
  qed simp
qed

lemma pairing_get_first:
  assumes "pairing G S False b" "length S \<le> length G" "length G < 2 ^ 64 - 1"
  defines "i \<equiv> next_entry b"
  shows "\<exists>b'. receive (step_key (length G)) b = (b', Inr i) \<and> pairing (G @ [i]) S False b' \<and> held b' = held b"
proof -
  have n: "steps_used G S = length G" "min (length G) (length S) = length S" using assms(2) by (simp_all add: steps_used_def max_def)
  have m: "buffer_map b = step_map (entry_at G S) (length S) (length G)"
    using assms(1) n by (simp add: pairing_def)
  note r = receive_first [OF step_map_after(2) [OF order_refl assms(3), of "entry_at G S" "length S" "next_entry b", folded m]]
  have old: "entry_at (G @ [i]) S k = entry_at G S k" "entry_at G S k \<noteq> i" if "k < length G" for k
    using assms(1) that n by (auto simp: entry_at_def nth_append pairing_def i_def)
  have new: "entry_at (G @ [i]) S (length G) = i" by (simp add: entry_at_def)
  have sm: "step_map (entry_at G S) (length S) (length G) @ [(step_key (length G), i)] = step_map (entry_at (G @ [i]) S) (length S) (Suc (length G))"
    using step_map_snoc [OF assms(2), of "entry_at (G @ [i]) S"] old(1) new
    by (metis (no_types, lifting) step_map_cong)
  have inj: "inj_on (entry_at (G @ [i]) S) {..<Suc (length G)}"
    using assms(1) n old new by (auto simp: pairing_def inj_on_def less_Suc_eq)
  show ?thesis
    using r assms(1,2) n old new inj unfolding m sm [unfolded i_def] i_def
    by (auto simp: pairing_def steps_used_def expected_entry_def expected_state_def less_Suc_eq nth_append max_def)
qed

lemma entry_at_snoc: "k < length S \<or> k < length G \<Longrightarrow> entry_at G (S @ [x]) k = entry_at G S k"
  by (auto simp: entry_at_def nth_append)

lemma pairing_set_second:
  assumes "pairing G S False b" "length S < length G"
  defines "i \<equiv> G ! length S"
  shows "\<exists>b'. store_begin (step_key (length S)) v b = (b', Inr i) \<and> pairing G (S @ [(i, v)]) False b' \<and> held b' = held b @ [(i, v)]"
proof -
  have e: "entry_at G S (length S) = i" using assms(2) by (simp add: entry_at_def i_def)
  have n: "steps_used G S = length G" "min (length G) (length S) = length S" using assms(2) by (simp_all add: steps_used_def)
  have m: "buffer_map b = step_map (entry_at G S) (length S) (length G)"
    using assms(1) n by (simp add: pairing_def)
  note f = step_map_first [OF assms(2), of "entry_at G S", folded m, unfolded e]
  have E: "entries b i = retrieved_entry None True False"
    using assms(1,2) e n by (auto simp: pairing_def expected_entry_def expected_state_def)
  note r = store_second [OF f(1) E, of v]
  have inj: "inj_on (entry_at G S) {..<length G}" using assms(1) n by (simp add: pairing_def)
  have new: "fst (S ! k) \<noteq> i" if "k < length S" for k
    using inj_onD [OF inj, of k "length S"] that assms(1,2) e n by (auto simp: pairing_def entry_at_def)
  then have fresh: "(i, v) \<notin> set S" by (metis fst_conv in_set_conv_nth)
  then have nk: "S ! k \<noteq> (i, v)" if "k < length S" for k using that nth_mem by metis
  have at: "entry_at G (S @ [(i, v)]) k = entry_at G S k" if "k < length G" for k
    using that by (simp add: entry_at_def)
  have sm: "step_map (entry_at G S) (Suc (length S)) (length G) = step_map (entry_at G (S @ [(i, v)])) (Suc (length S)) (length G)"
    by (rule step_map_cong) (simp add: at)
  have inj': "inj_on (entry_at G (S @ [(i, v)])) {..<length G}" using inj at by (auto simp: inj_on_def)
  have x: "expected_entry G (S @ [(i, v)]) (held b @ [(i, v)]) False k = expected_entry G S (held b) False k" if "k < length G" for k
    using that fresh nk assms(2) by (auto simp: expected_entry_def expected_state_def nth_append less_Suc_eq not_less_eq)
  have u: "steps_used G (S @ [(i, v)]) = length G" "min (length G) (Suc (length S)) = Suc (length S)"
    using assms(2) by (simp_all add: steps_used_def max_def min_def)
  show ?thesis
    using r assms(1,2) n at inj' fresh x unfolding f(2) sm
    by (auto simp: pairing_def u [unfolded i_def] nth_append less_Suc_eq i_def)
qed

lemma pairing_set_first:
  assumes "pairing G S False b" "length G \<le> length S" "length S < 2 ^ 64 - 1"
  defines "i \<equiv> next_entry b"
  shows "\<exists>b'. store_begin (step_key (length S)) v b = (b', Inr i) \<and> pairing G (S @ [(i, v)]) False b' \<and> held b' = held b @ [(i, v)]"
proof -
  have n: "steps_used G S = length S" "min (length G) (length S) = length G" using assms(2) by (simp_all add: steps_used_def)
  have m: "buffer_map b = step_map (entry_at G S) (length G) (length S)"
    using assms(1) n by (simp add: pairing_def)
  note r = store_first [OF step_map_after(2) [OF order_refl assms(3), of "entry_at G S" "length G" "next_entry b", folded m], of v]
  have old: "entry_at G (S @ [(i, v)]) k = entry_at G S k" "entry_at G S k \<noteq> i" if "k < length S" for k
    using assms(1) that n entry_at_snoc [of k S G "(i, v)"] by (auto simp: pairing_def i_def)
  have new: "entry_at G (S @ [(i, v)]) (length S) = i" using assms(2) by (simp add: entry_at_def)
  have "fst (S ! k) \<noteq> i" if "k < length S" for k
    using old(2) [OF that] sent_at [OF assms(1) that] by simp
  then have fresh: "(i, v) \<notin> set S" by (metis fst_conv in_set_conv_nth)
  then have nk: "S ! k \<noteq> (i, v)" if "k < length S" for k using that nth_mem by metis
  have sm: "step_map (entry_at G S) (length G) (length S) @ [(step_key (length S), i)] =
      step_map (entry_at G (S @ [(i, v)])) (length G) (Suc (length S))"
    using step_map_snoc [OF assms(2), of "entry_at G (S @ [(i, v)])"] old(1) new
    by (metis (no_types, lifting) step_map_cong)
  have inj: "inj_on (entry_at G (S @ [(i, v)])) {..<Suc (length S)}"
    using assms(1) n old new by (auto simp: pairing_def inj_on_def less_Suc_eq)
  have x: "expected_entry G (S @ [(i, v)]) (held b @ [(i, v)]) False k =
      (if k = length S then retrieved_entry None False False else expected_entry G S (held b) False k)" if "k < Suc (length S)" for k
    using that fresh nk assms(2) by (auto simp: expected_entry_def expected_state_def nth_append less_Suc_eq)
  have u: "steps_used G (S @ [(i, v)]) = Suc (length S)" "min (length G) (Suc (length S)) = length G"
    using assms(2) by (simp_all add: steps_used_def)
  show ?thesis
    using r assms(1,2) n old new inj x fresh unfolding m sm [unfolded i_def] i_def
    by (auto simp: pairing_def u [unfolded i_def] less_Suc_eq nth_append)
qed

lemma pairing_set_end:
  assumes "pairing G S K b" "(i, v) \<in> set (held b)"
  shows "\<exists>b'. store_end i v b = (b', Inr ()) \<and> pairing G S K b' \<and> held b' = remove1 (i, v) (held b)"
proof -
  obtain j where j: "j < length S" "S ! j = (i, v)" using assms by (metis in_set_conv_nth pairing_def subsetD)
  then have at: "entry_at G S j = i" using sent_at [OF assms(1) j(1)] by simp
  have sv: "snd (S ! j) = v" using j(2) by simp
  have js: "j < steps_used G S" using j(1) by (simp add: steps_used_def)
  have E: "entries b i = retrieved_entry None (j < length G) False"
    using assms js at j by (auto simp: pairing_def expected_entry_def expected_state_def)
  have inj: "inj_on (entry_at G S) {..<steps_used G S}" using assms(1) by (simp add: pairing_def)
  have other: "entry_at G S k = i \<longleftrightarrow> k = j" if "k < steps_used G S" for k
    using inj_onD [OF inj, of k j] that at js by auto
  have "S ! k = (i, v) \<longleftrightarrow> k = j" if "k < length S" for k
    using other [of k] sent_at [OF assms(1) that] that j(2) by (auto simp: steps_used_def)
  moreover have "set (remove1 (i, v) (held b)) = set (held b) - {(i, v)}" using assms(1) by (simp add: pairing_def)
  ultimately have x: "expected_entry G S (remove1 (i, v) (held b)) K k =
      (if k = j then retrieved_entry (Some (Value v)) (j < length G) True else expected_entry G S (held b) K k)" for k
    using j(1) sv by (auto simp: expected_entry_def expected_state_def)
  show ?thesis
    using store_end_waiting [OF E, of v] assms(1) other x set_remove1_subset [of "(i, v)" "held b"]
    by (auto simp: pairing_def distinct_remove1)
qed

lemma cancel_stored:
  "(\<And>k i. (k, i) \<in> set xs \<Longrightarrow> can_be_deleted (entries b i) \<and> value_set (entries b i)) \<Longrightarrow> cancel_loop err xs b = (b, Inr ())"
proof (induction xs)
  case (Cons x xs)
  then show ?case by (cases x) (force simp: Let_def)
qed simp

lemma cancel_waiting_steps:
  assumes "inj_on f {a..<n}" "\<And>k. a \<le> k \<Longrightarrow> k < n \<Longrightarrow> entries b (f k) = retrieved_entry None True False"
    "buffer_map b = step_map f a n"
  shows "cancel_loop err (step_map f a n) b = (b\<lparr>buffer_map := step_map f n n,
    entries := \<lambda>i. if i \<in> f ` {a..<n} then retrieved_entry (Some (Exceptional err)) True False else entries b i\<rparr>, Inr ())"
  using assms
proof (induction "n - a" arbitrary: a b)
  case 0
  then show ?case by (simp add: step_map_def)
next
  case (Suc d)
  then have lt: "a < n" by simp
  have c: "step_map f a n = (step_key a, f a) # step_map f (Suc a) n" using lt by (simp add: step_map_def upt_conv_Cons)
  let ?b = "b\<lparr>buffer_map := step_map f (Suc a) n, entries := (entries b)(f a := retrieved_entry (Some (Exceptional err)) True False)\<rparr>"
  have E: "entries b (f a) = retrieved_entry None True False" using Suc.prems(2) lt by simp
  have "erase_entry (step_key a) (f a) (update_entry (f a) ((entries b (f a))\<lparr>entry_promise := \<lparr>shared_state = Some (Some (Exceptional err)), future_retrieved = True\<rparr>\<rparr>) b) = ?b"
    using step_map_first [OF lt, of f] Suc.prems(3)
    by (simp add: erase_entry_def release_entry_ready E retrieved_entry_def)
  then have l: "cancel_loop err (step_map f a n) b = cancel_loop err (step_map f (Suc a) n) ?b"
    unfolding c by (simp add: E retrieved_entry_def set_exception_def set_outcome_def Let_def)
  have "entries ?b (f k) = retrieved_entry None True False" if "Suc a \<le> k" "k < n" for k
    using that Suc.prems(2) inj_onD [OF Suc.prems(1), of k a] lt by auto
  moreover have "inj_on f {Suc a..<n}" using Suc.prems(1) by (rule inj_on_subset) auto
  ultimately have "cancel_loop err (step_map f (Suc a) n) ?b = (?b\<lparr>buffer_map := step_map f n n,
      entries := \<lambda>i. if i \<in> f ` {Suc a..<n} then retrieved_entry (Some (Exceptional err)) True False else entries ?b i\<rparr>, Inr ())"
    using Suc.hyps(1) [of "Suc a" ?b] Suc.hyps(2) by simp
  moreover have "{a..<n} = insert a {Suc a..<n}" using lt by auto
  ultimately show ?case unfolding l by (auto simp: fun_eq_iff)
qed

lemma pairing_cancel:
  assumes "pairing G S False b" "held b = []"
  shows "\<exists>b'. cancel_waiting future_cancelled b = (b', Inr ()) \<and> pairing G S True b' \<and> held b' = []"
proof (cases "length G \<le> length S")
  case True
  have u: "steps_used G S = length S" "min (length G) (length S) = length G" using True by (simp_all add: steps_used_def)
  have "cancel_waiting future_cancelled b = (b, Inr ())" unfolding cancel_waiting_def
    by (rule cancel_stored)
      (use assms u in \<open>auto simp: pairing_def step_map_def expected_entry_def retrieved_entry_def\<close>)
  moreover have "pairing G S True b" using assms u by (auto simp: pairing_def expected_entry_def expected_state_def)
  ultimately show ?thesis using assms(2) by blast
next
  case False
  have u: "steps_used G S = length G" "min (length G) (length S) = length S" using False by (simp_all add: steps_used_def)
  have m: "buffer_map b = step_map (entry_at G S) (length S) (length G)" using assms(1) u by (simp add: pairing_def)
  have inj: "inj_on (entry_at G S) {..<length G}" using assms(1) u by (simp add: pairing_def)
  have E: "entries b (entry_at G S k) = retrieved_entry None True False" if "length S \<le> k" "k < length G" for k
    using assms that u by (auto simp: pairing_def expected_entry_def expected_state_def)
  have i: "inj_on (entry_at G S) {length S..<length G}" using inj by (rule inj_on_subset) auto
  note c = cancel_waiting_steps [OF i E m, of future_cancelled, folded m]
  have in': "entry_at G S k \<in> entry_at G S ` {length S..<length G} \<longleftrightarrow> length S \<le> k" if "k < length G" for k
    using that by (auto dest: inj_onD [OF inj])
  show ?thesis using c assms u in'
    by (auto simp: cancel_waiting_def pairing_def expected_entry_def expected_state_def step_map_def)
qed

section \<open>First in, first out\<close>

definition users_inv :: "'v channel_users \<Rightarrow> bool" where
  "users_inv u \<longleftrightarrow>
     pairing (got u) (sent u) (closed (chan u) \<and> \<not> closing u) (buffer (chan u)) \<and>
     set_generation (chan u) = of_nat (length (sent u)) \<and>
     (\<exists>g. get_generation (chan u) = of_nat g \<and> length (got u) \<le> g \<and> g \<le> asked u \<and>
        (\<not> closed (chan u) \<longrightarrow> g = length (got u)) \<and> (length (got u) < g \<longrightarrow> length (sent u) \<le> length (got u))) \<and>
     (closed (chan u) \<longrightarrow> held (buffer (chan u)) = []) \<and> (closing u \<longrightarrow> closed (chan u)) \<and> faults u = []"

lemma pairing_empty:
  "pairing G S False b \<Longrightarrow> buffer_empty b \<longleftrightarrow> length G = length S"
  "pairing G S True b \<Longrightarrow> buffer_empty b \<longleftrightarrow> length S \<le> length G"
  by (auto simp: pairing_def buffer_empty_def step_map_def steps_used_def)

lemma try_receive_found:
  assumes "map_find (<) (buffer_map b) step = Some (k, i)" "receive step b = (b', Inr f)"
  shows "try_receive step True b = (b', Inr (Some (Some f)))"
  using assms by (simp add: try_receive_def receive_def get_buffer_entry_def)

lemma pairing_found:
  assumes "pairing G S K b" "length G < length S"
  shows "\<exists>i. map_find (<) (buffer_map b) (step_key (length G)) = Some (step_key (length G), i)"
  using assms step_map_first(1) [OF assms(2), of "entry_at G S"] by (auto simp: pairing_def steps_used_def)

lemma pairing_not_found:
  assumes "pairing G S K b" "length S \<le> length G" "length G \<le> g" "g < 2 ^ 64 - 1"
  shows "map_find (<) (buffer_map b) (step_key g) = None"
  using assms step_map_after(1) [of "if K then length S else steps_used G S" g "entry_at G S"]
  by (auto simp: pairing_def steps_used_def max_def)

lemma chosen_default [simp]: "chosen (- 1) g = g"
  by (simp add: chosen_def)

lemma perform_get:
  assumes "users_inv u" "asked u < 2 ^ 64 - 1"
  shows "users_inv (perform (Get blocking uses) u)"
proof -
  let ?c = "chan u" and ?b = "buffer (chan u)"
  let ?K = "closed ?c \<and> \<not> closing u"
  have P: "pairing (got u) (sent u) ?K ?b" using assms(1) by (simp add: users_inv_def)
  obtain g where g: "get_generation ?c = of_nat g" "length (got u) \<le> g" "g \<le> asked u"
    "\<not> closed ?c \<Longrightarrow> g = length (got u)" "length (got u) < g \<Longrightarrow> length (sent u) \<le> length (got u)"
    using assms(1) by (auto simp: users_inv_def)
  have k: "get_generation ?c + 1 = step_key g" by (simp add: step_key_def g(1))
  have gb: "g < 2 ^ 64 - 1" "length (got u) < 2 ^ 64 - 1" using g(2,3) assms(2) by simp_all
  show ?thesis
  proof (cases "buffer_empty ?b \<and> (closed ?c \<or> blocking \<and> uses = 1)")
    case True
    then have "channel_get (- 1) blocking uses ?c = (?c, Inl invalid_status)" by (simp add: channel_get_def)
    then show ?thesis using assms(1) by (auto simp: users_inv_def fault_def intro: le_SucI)
  next
    case open': False
    show ?thesis
    proof (cases "length (got u) < length (sent u)")
      case True
      then have gn: "g = length (got u)" using g(2,5) by linarith
      obtain b' where r: "receive (step_key g) ?b = (b', Inr (fst (sent u ! length (got u))))"
        "pairing (got u @ [fst (sent u ! length (got u))]) (sent u) ?K b'" "held b' = held ?b"
        using pairing_get_second [OF P True] gn by metis
      obtain i where "map_find (<) (buffer_map ?b) (step_key g) = Some (step_key g, i)"
        using pairing_found [OF P True] gn by metis
      note t = try_receive_found [OF this r(1)]
      have "channel_get (- 1) blocking uses ?c =
          (?c\<lparr>get_generation := step_key g, buffer := b'\<rparr>, Inr (fst (sent u ! length (got u))))"
        using open' by (simp add: channel_get_def Let_def k t r(1) with_buffer_def)
      then show ?thesis using assms(1) r(2,3) g(3) gn True
        by (auto simp: users_inv_def fault_def step_key_def intro!: exI [of _ "Suc g"])
    next
      case False
      show ?thesis
      proof (cases "closed ?c")
        case True
        have "map_find (<) (buffer_map ?b) (step_key g) = None" using pairing_not_found [OF P _ g(2) gb(1)] False by simp
        then have "channel_get (- 1) blocking uses ?c = (?c\<lparr>get_generation := step_key g\<rparr>, Inl invalid_status)"
          using open' True by (simp add: channel_get_def Let_def k try_receive_def)
        then show ?thesis using assms(1) g(2,3) False True
          by (auto simp: users_inv_def fault_def step_key_def intro!: exI [of _ "Suc g"])
      next
        case o: False
        then have gn: "g = length (got u)" using g(4) by simp
        have P': "pairing (got u) (sent u) False ?b" using P o by simp
        obtain b' where r: "receive (step_key g) ?b = (b', Inr (next_entry ?b))"
          "pairing (got u @ [next_entry ?b]) (sent u) False b'" "held b' = held ?b"
          using pairing_get_first [OF P' _ gb(2)] False gn by auto
        have "channel_get (- 1) blocking uses ?c = (?c\<lparr>get_generation := step_key g, buffer := b'\<rparr>, Inr (next_entry ?b))"
          using open' o by (simp add: channel_get_def Let_def k r(1) with_buffer_def)
        then show ?thesis using assms(1) r(2,3) g(3) gn o
          by (auto simp: users_inv_def fault_def step_key_def intro!: exI [of _ "Suc g"])
      qed
    qed
  qed
qed

lemma perform_set:
  assumes "users_inv u" "length (sent u) < 2 ^ 64 - 1"
  shows "users_inv (perform (Set v) u)"
proof (cases "closed (chan u)")
  case True
  then show ?thesis using assms(1) by (auto simp: users_inv_def channel_set_def fault_def)
next
  case False
  let ?c = "chan u" and ?b = "buffer (chan u)"
  have P: "pairing (got u) (sent u) False ?b" using assms(1) False by (simp add: users_inv_def)
  have k: "set_generation ?c + 1 = step_key (length (sent u))" using assms(1) by (simp add: users_inv_def step_key_def)
  obtain b' i where r: "store_begin (step_key (length (sent u))) v ?b = (b', Inr i)" "pairing (got u) (sent u @ [(i, v)]) False b'"
    using pairing_set_second [OF P, of v] pairing_set_first [OF P _ assms(2), of v] by (meson not_less)
  have "channel_set (- 1) v ?c = (?c\<lparr>set_generation := step_key (length (sent u)), buffer := b'\<rparr>, Inr i)"
    using False by (simp add: channel_set_def Let_def k r(1) with_buffer_def)
  then show ?thesis using assms(1) r(2) False by (auto simp: users_inv_def fault_def step_key_def)
qed

lemma perform_set_end:
  assumes "users_inv u" "n < length (held (buffer (chan u)))"
  shows "users_inv (perform (Set_End n) u)"
proof -
  let ?c = "chan u" and ?b = "buffer (chan u)"
  obtain i v where h: "held ?b ! n = (i, v)" by fastforce
  then have "(i, v) \<in> set (held ?b)" using assms(2) nth_mem by metis
  moreover have "pairing (got u) (sent u) (closed ?c \<and> \<not> closing u) ?b" using assms(1) by (simp add: users_inv_def)
  ultimately obtain b' where "store_end i v ?b = (b', Inr ())" "pairing (got u) (sent u) (closed ?c \<and> \<not> closing u) b'"
    "held b' = remove1 (i, v) (held ?b)"
    using pairing_set_end by metis
  then show ?thesis using assms(1) by (auto simp: users_inv_def h channel_set_end_def with_buffer_def fault_def)
qed

lemma pairing_cancelled_nothing: "pairing G S False b \<Longrightarrow> length G = length S \<Longrightarrow> pairing G S True b"
  by (auto simp: pairing_def steps_used_def expected_entry_def expected_state_def)

lemma perform_close:
  assumes "users_inv u" "held (buffer (chan u)) = []"
  shows "users_inv (perform Close u)"
proof (cases "closed (chan u)")
  case True
  then show ?thesis using assms(1) by (auto simp: users_inv_def channel_close_def fault_def)
next
  case False
  then have "pairing (got u) (sent u) False (buffer (chan u))" "\<not> closing u" using assms(1) by (auto simp: users_inv_def)
  then show ?thesis using assms False pairing_empty(1) pairing_cancelled_nothing
    by (fastforce simp: users_inv_def channel_close_def fault_def)
qed

lemma perform_close_end:
  assumes "users_inv u" "closing u"
  shows "users_inv (perform Close_End u)"
proof -
  have "pairing (got u) (sent u) False (buffer (chan u))" "held (buffer (chan u)) = []" "closed (chan u)"
    using assms by (auto simp: users_inv_def)
  then show ?thesis using assms pairing_cancel [of "got u" "sent u" "buffer (chan u)"]
    by (auto simp: users_inv_def channel_close_end_def with_buffer_def fault_def)
qed

lemma users_inv_reachable:
  assumes "channel_reachable True u" "asked u < 2 ^ 64 - 1" "length (sent u) < 2 ^ 64 - 1"
  shows "users_inv u"
  using assms
proof (induction rule: channel_reachable.induct)
  case users_start
  show ?case by (simp add: users_inv_def users_init_def channel_new_def pairing_init)
next
  case (users_step u a)
  have "asked u \<le> asked (perform a u)" "length (sent u) \<le> length (sent (perform a u))"
    by (cases a; simp add: case_prod_unfold Let_def)+
  then have "users_inv u" "asked u < 2 ^ 64 - 1" "length (sent u) < 2 ^ 64 - 1" using users_step by simp_all
  then show ?case using users_step.hyps(2)
    by (cases a) (auto simp del: perform.simps intro: perform_get perform_set perform_set_end perform_close perform_close_end)
qed

text \<open>C25: a channel that is closed in order delivers first in, first out. Whatever order threads get and set in (without \<open>try_get\<close> and without giving a generation), if the channel is closed only when all calls of \<open>set\<close> have
  returned and there are fewer than \<open>2 ^ 64 - 1\<close> calls of each, no operation fails in a way the interface does not name, and the future of
  the \<open>k\<close>-th successful \<open>get\<close> is ready with the \<open>k\<close>-th value that was set, as soon as that call of \<open>set\<close> has ended; if there is no such value it waits, or is
  cancelled when the channel has been closed.\<close>

theorem channel_first_in_first_out:
  assumes "channel_reachable True u" "asked u < 2 ^ 64 - 1" "length (sent u) < 2 ^ 64 - 1"
  shows "faults u = [] \<and>
    (\<forall>k < length (got u). future_state (got u ! k) (buffer (chan u)) =
       Some (if k < length (sent u)
             then if sent u ! k \<in> set (held (buffer (chan u))) then None else Some (Value (snd (sent u ! k)))
             else if closed (chan u) \<and> \<not> closing u then Some (Exceptional future_cancelled) else None))"
proof -
  have J: "users_inv u" by (rule users_inv_reachable [OF assms])
  have P: "entries (buffer (chan u)) (entry_at (got u) (sent u) k) =
      expected_entry (got u) (sent u) (held (buffer (chan u))) (closed (chan u) \<and> \<not> closing u) k" if "k < length (got u)" for k
    using J that by (auto simp: users_inv_def pairing_def steps_used_def)
  have "entry_at (got u) (sent u) k = got u ! k" if "k < length (got u)" for k using that by (simp add: entry_at_def)
  then show ?thesis using J P
    by (auto simp: users_inv_def future_state_def expected_entry_def expected_state_def retrieved_entry_def)
qed

text \<open>Two values, one that was waited for and one that is fetched after the channel has been closed.\<close>

definition example_channel :: "nat channel_users" where
  "example_channel =
     fold perform [Get False 2, Set 7, Set_End 0, Set 8, Set_End 0, Close, Get False 2, Close_End] users_init"

theorem channel_first_in_first_out_witness:
  "future_state (got example_channel ! 1) (buffer (chan example_channel)) = Some (Some (Value 8))"
proof -
  have "channel_reachable True example_channel"
    unfolding example_channel_def fold.simps comp_def id_def
    by (intro users_step users_start) code_simp+
  moreover have "asked example_channel = 2" "length (sent example_channel) = 2" "length (got example_channel) = 2"
    "held (buffer (chan example_channel)) = []" "snd (sent example_channel ! 1) = 8"
    by code_simp+
  ultimately show ?thesis using channel_first_in_first_out [of example_channel] by simp
qed

text \<open>If the channel is closed while a call of \<open>set\<close> has released the lock but not yet set its value, the value is taken for a waiting request and
  cancelled: \<open>set\<close> fails with an error of the promise, and \<open>get\<close> does not find the value that was accepted before the channel was closed.\<close>

definition close_during_set :: "nat channel_users" where
  "close_during_set = fold perform [Set 7, Close, Close_End, Set_End 0, Get False 2] users_init"

lemma close_cancels_pending_set:
  "channel_reachable False close_during_set \<and> map snd (sent close_during_set) = [7] \<and> got close_during_set = [] \<and>
   faults close_during_set = [promise_already_satisfied]"
proof -
  have "channel_reachable False close_during_set"
    unfolding close_during_set_def fold.simps comp_def id_def by (intro users_step users_start) code_simp+
  moreover have "map snd (sent close_during_set) = [7]" "got close_during_set = []"
    "faults close_during_set = [promise_already_satisfied]"
    by code_simp+
  ultimately show ?thesis by blast
qed

text \<open>On an open channel \<open>try_get\<close> does what \<open>get\<close> does. Without a place for the future it still counts as a request, so that the value of its generation is
  never fetched.\<close>

lemma try_get_is_get:
  assumes "\<not> closed c"
  shows "channel_try_get generation True c =
    (let (c', r) = channel_get generation False uses c in (c', bind_result r (\<lambda>f. Inr (Some (Some f)))))"
  using assms by (simp add: channel_try_get_def channel_get_def with_buffer_def Let_def case_prod_unfold)

lemma try_get_skips_value:
  "let u = fold perform [Set (7 :: nat), Set_End 0, Set 8, Set_End 0] users_init;
       (c, r) = channel_try_get (- 1) False (chan u); (c, f) = channel_get (- 1) False 2 c
   in r = Inr (Some None) \<and> f = Inr 1 \<and> future_state 1 (buffer c) = Some (Some (Value 8))"
  by code_simp

end
