(* ===== verification/And_Gate.thy ===== *)
theory And_Gate
  imports Receive_Buffer
begin

text \<open>
  Gates and triggers: \<^verbatim>\<open>hpx/lcos/local/and_gate.hpp\<close>, \<^verbatim>\<open>hpx/lcos/local/trigger.hpp\<close> and
  \<^verbatim>\<open>hpx/lcos/local/conditional_trigger.hpp\<close>. A gate fires a promise when all of its segments have been set. Both have a generation; a thread can wait until
  it has reached a number. Moving these objects is left out.
\<close>

section \<open>Promises that are replaced\<close>

text \<open>A gate replaces its promise when it fires, while the future of the old one is in use. Promises are therefore kept in a store; a future is named by its promise.\<close>

record conditional_trigger =
  ct_promise :: nat
  ct_cond :: "u64 option" \<comment> \<open>the generation that \<open>test_condition\<close> compares with\<close>

text \<open>\<open>conditions\<close> refers to the triggers of the threads that wait in \<open>synchronize\<close>. The segments are used by gates only.\<close>

record gate =
  promises :: "nat \<Rightarrow> unit promise"
  next_promise :: nat
  received_segments :: "bool list"
  gate_promise :: nat
  gate_generation :: u64
  conditions :: "(nat \<times> conditional_trigger) list"

definition new_promise :: "gate \<Rightarrow> gate \<times> nat" where
  "new_promise g = (g\<lparr>promises := (promises g)(next_promise g := promise_new), next_promise := next_promise g + 1\<rparr>, next_promise g)"

definition on_promise :: "(unit promise \<Rightarrow> unit promise \<times> 'a) \<Rightarrow> nat \<Rightarrow> gate \<Rightarrow> gate \<times> 'a" where
  "on_promise f i g = (let (p, r) = f (promises g i) in (g\<lparr>promises := (promises g)(i := p)\<rparr>, r))"

definition gate_new :: "nat \<Rightarrow> gate" where
  "gate_new count = \<lparr>promises = (\<lambda>_. promise_new), next_promise = 1, received_segments = replicate count False,
     gate_promise = 0, gate_generation = 0, conditions = []\<rparr>"

section \<open>Conditional triggers\<close>

definition test_condition :: "u64 \<Rightarrow> gate \<Rightarrow> bool" where
  "test_condition generation_value g \<longleftrightarrow> \<not> generation_value > gate_generation g"

definition ct_set :: "conditional_trigger \<Rightarrow> gate \<Rightarrow> gate \<times> (conditional_trigger \<times> bool) result" where
  "ct_set c g =
     (case ct_cond c of
        Some generation_value \<Rightarrow>
          if test_condition generation_value g
          then case on_promise (set_value ()) (ct_promise c) g of
              (g, Inl err) \<Rightarrow> (g, Inl err)
            | (g, Inr _) \<Rightarrow> let (g, i) = new_promise g in (g, Inr (c\<lparr>ct_promise := i\<rparr>, True))
          else (g, Inr (c, False))
      | None \<Rightarrow> (g, Inr (c, False)))"

definition ct_get_future :: "u64 \<Rightarrow> conditional_trigger \<Rightarrow> gate \<Rightarrow> gate \<times> (conditional_trigger \<times> nat) result" where
  "ct_get_future generation_value c g =
     (let c = c\<lparr>ct_cond := Some generation_value\<rparr>; f = ct_promise c in
      case on_promise get_future f g of
        (g, Inl err) \<Rightarrow> (g, Inl err)
      | (g, Inr _) \<Rightarrow>
          (case ct_set c g of
             (g, Inl err) \<Rightarrow> (g, Inl err)
           | (g, Inr (c, _)) \<Rightarrow> (g, Inr (c, f))))"

text \<open>The loop over the conditions; an error of one of them leaves it.\<close>

fun trigger_loop ::
  "(nat \<times> conditional_trigger) list \<Rightarrow> gate \<Rightarrow> gate \<times> (nat \<times> conditional_trigger) list \<times> bool result" where
  "trigger_loop [] g = (g, [], Inr False)"
| "trigger_loop ((t, c) # cs) g =
     (case ct_set c g of
        (g, Inl err) \<Rightarrow> (g, (t, c) # cs, Inl err)
      | (g, Inr (c, fired)) \<Rightarrow>
          let (g, cs, r) = trigger_loop cs g in (g, (t, c) # cs, bind_result r (\<lambda>triggered. Inr (fired \<or> triggered))))"

definition trigger_conditions :: "gate \<Rightarrow> gate \<times> bool result" where
  "trigger_conditions g = (let (g, cs, r) = trigger_loop (conditions g) g in (g\<lparr>conditions := cs\<rparr>, r))"

section \<open>Generations\<close>

definition next_generation :: "gate \<Rightarrow> gate \<times> u64 result" where
  "next_generation g =
     (if gate_generation g = - 1 then (g, Inl assertion_failure)
      else
        let g = g\<lparr>gate_generation := gate_generation g + 1\<rparr>; retval = gate_generation g in
        let (g, r) = trigger_conditions g in (g, bind_result r (\<lambda>_. Inr retval)))"

text \<open>\<open>synchronize\<close> of thread \<open>t\<close>: the future it waits for, if it has to wait, and what it does when it has the lock again.\<close>

definition synchronize :: "nat \<Rightarrow> u64 \<Rightarrow> gate \<Rightarrow> gate \<times> nat option result" where
  "synchronize t generation_value g =
     (if generation_value < gate_generation g then (g, Inl invalid_status)
      else if \<not> test_condition generation_value g
      then let (g, i) = new_promise g; c = \<lparr>ct_promise = i, ct_cond = None\<rparr> in
        case ct_get_future generation_value c g of
          (g, Inl err) \<Rightarrow> (g, Inl err)
        | (g, Inr (c, f)) \<Rightarrow> (g\<lparr>conditions := conditions g @ [(t, c)]\<rparr>, Inr (Some f))
      else (g, Inr None))"

definition synchronize_end :: "nat \<Rightarrow> gate \<Rightarrow> gate" where
  "synchronize_end t g = g\<lparr>conditions := filter (\<lambda>(u, c). u \<noteq> t) (conditions g)\<rparr>"

section \<open>Gates\<close>

definition init_locked :: "nat \<Rightarrow> gate \<Rightarrow> gate \<times> unit result" where
  "init_locked count g =
     (if True \<in> set (received_segments g) then (g, Inl bad_parameter)
      else (g\<lparr>received_segments := replicate count False\<rparr>, Inr ()))"

text \<open>\<open>count\<close> is \<open>None\<close> for the default.\<close>

definition gate_get_future :: "nat option \<Rightarrow> gate \<Rightarrow> gate \<times> (nat \<times> u64) result" where
  "gate_get_future count g =
     (let count = (case count of None \<Rightarrow> length (received_segments g) | Some n \<Rightarrow> n) in
      if count = 0 then (g, Inl assertion_failure)
      else case init_locked count g of
        (g, Inl err) \<Rightarrow> (g, Inl err)
      | (g, Inr _) \<Rightarrow>
          (case next_generation g of
             (g, Inl err) \<Rightarrow> (g, Inl err)
           | (g, Inr generation_value) \<Rightarrow>
               let (g, r) = on_promise get_future (gate_promise g) g
               in (g, bind_result r (\<lambda>_. Inr (gate_promise g, generation_value)))))"

text \<open>Setting a segment gives the promise that is to be fired, if it was the last one. It is fired when the locks are released.\<close>

definition gate_set :: "nat \<Rightarrow> gate \<Rightarrow> gate \<times> nat option result" where
  "gate_set which g =
     (if which \<ge> length (received_segments g) then (g, Inl bad_parameter)
      else if received_segments g ! which then (g, Inl bad_parameter)
      else
        let g = g\<lparr>received_segments := (received_segments g)[which := True]\<rparr> in
        if list_all id (received_segments g)
        then let p = gate_promise g; (g, i) = new_promise g in
          (g\<lparr>gate_promise := i, received_segments := map (\<lambda>_. False) (received_segments g)\<rparr>, Inr (Some p))
        else (g, Inr None))"

definition gate_fire :: "nat \<Rightarrow> gate \<Rightarrow> gate \<times> bool result" where
  "gate_fire p g = (let (g, r) = on_promise (set_value ()) p g in (g, bind_result r (\<lambda>_. Inr True)))"

text \<open>The whole operation.\<close>

definition and_gate_set :: "nat \<Rightarrow> gate \<Rightarrow> gate \<times> bool result" where
  "and_gate_set which g =
     (case gate_set which g of
        (g, Inl err) \<Rightarrow> (g, Inl err)
      | (g, Inr None) \<Rightarrow> (g, Inr False)
      | (g, Inr (Some p)) \<Rightarrow> gate_fire p g)"

section \<open>Triggers\<close>

definition trigger_get_future :: "gate \<Rightarrow> gate \<times> (nat \<times> u64) result" where
  "trigger_get_future g =
     (case next_generation g of
        (g, Inl err) \<Rightarrow> (g, Inl err)
      | (g, Inr generation_value) \<Rightarrow>
          let (g, r) = on_promise get_future (gate_promise g) g
          in (g, bind_result r (\<lambda>_. Inr (gate_promise g, generation_value))))"

definition trigger_set :: "gate \<Rightarrow> gate \<times> bool result" where
  "trigger_set g =
     (case on_promise (set_value ()) (gate_promise g) g of
        (g, Inl err) \<Rightarrow> (g, Inl err)
      | (g, Inr _) \<Rightarrow> let (g, i) = new_promise g in (g\<lparr>gate_promise := i\<rparr>, Inr True))"

section \<open>Which triggers fire\<close>

definition due :: "u64 \<Rightarrow> conditional_trigger \<Rightarrow> bool" where
  "due generation c \<longleftrightarrow> (case ct_cond c of Some generation_value \<Rightarrow> generation_value \<le> generation | None \<Rightarrow> False)"

definition waiting_promise :: "gate \<Rightarrow> nat \<Rightarrow> bool" where
  "waiting_promise g i \<longleftrightarrow> i < next_promise g \<and> shared_state (promises g i) = Some None"

definition trigger_promises :: "(nat \<times> conditional_trigger) list \<Rightarrow> nat list" where
  "trigger_promises cs = map (\<lambda>(t, c). ct_promise c) cs"

definition fired_promises :: "u64 \<Rightarrow> (nat \<times> conditional_trigger) list \<Rightarrow> nat list" where
  "fired_promises gen cs = trigger_promises (filter (\<lambda>(t, c). due gen c) cs)"

lemma waiting_promise_conditions [simp]: "waiting_promise (g\<lparr>conditions := cs\<rparr>) = waiting_promise g"
  by (simp add: fun_eq_iff waiting_promise_def)

lemma trigger_promises_simps [simp]:
  "trigger_promises [] = []" "trigger_promises ((t, c) # cs) = ct_promise c # trigger_promises cs"
  "trigger_promises (cs @ ds) = trigger_promises cs @ trigger_promises ds"
  by (simp_all add: trigger_promises_def)

lemma fired_promises_simps [simp]:
  "fired_promises gen [] = []"
  "fired_promises gen ((t, c) # cs) = (if due gen c then ct_promise c # fired_promises gen cs else fired_promises gen cs)"
  by (simp_all add: fired_promises_def)

text \<open>A trigger after the loop: the same if it was not due, with a new promise otherwise.\<close>

definition retriggered :: "gate \<Rightarrow> nat \<times> conditional_trigger \<Rightarrow> nat \<times> conditional_trigger \<Rightarrow> bool" where
  "retriggered g = (\<lambda>(t, c) (t', c'). t' = t \<and> ct_cond c' = ct_cond c \<and>
     (if due (gate_generation g) c then next_promise g \<le> ct_promise c' else ct_promise c' = ct_promise c))"

definition fire :: "unit promise \<Rightarrow> unit promise" where
  "fire p = p\<lparr>shared_state := Some (Some (Value ()))\<rparr>"

lemma ct_set_cases:
  assumes "waiting_promise g (ct_promise c)"
  shows "ct_set c g =
    (if due (gate_generation g) c
     then (g\<lparr>promises := (promises g)(ct_promise c := fire (promises g (ct_promise c)), next_promise g := promise_new),
             next_promise := next_promise g + 1\<rparr>, Inr (c\<lparr>ct_promise := next_promise g\<rparr>, True))
     else (g, Inr (c, False)))"
  using assms
  by (auto simp: ct_set_def due_def test_condition_def waiting_promise_def on_promise_def set_value_def set_outcome_def fire_def
      new_promise_def Let_def split: option.splits)

definition loop_result :: "gate \<Rightarrow> (nat \<times> conditional_trigger) list \<Rightarrow> gate \<Rightarrow> (nat \<times> conditional_trigger) list \<Rightarrow> bool" where
  "loop_result g cs g' cs' \<longleftrightarrow>
     g' = g\<lparr>promises := promises g', next_promise := next_promise g'\<rparr> \<and> next_promise g \<le> next_promise g' \<and>
     (\<forall>i < next_promise g. promises g' i = (if i \<in> set (fired_promises (gate_generation g) cs) then fire (promises g i) else promises g i)) \<and>
     list_all2 (retriggered g) cs cs' \<and>
     list_all (waiting_promise g') (trigger_promises cs') \<and> distinct (trigger_promises cs')"

lemma retriggered_promises:
  "list_all2 (retriggered g) cs cs' \<Longrightarrow> j \<in> set (trigger_promises cs') \<Longrightarrow> j \<in> set (trigger_promises cs) \<or> next_promise g \<le> j"
proof (induction rule: list_all2_induct)
  case (Cons x xs y ys)
  then show ?case by (cases x; cases y) (auto simp: retriggered_def split: if_splits)
qed simp

lemma fired_subset: "set (fired_promises gen cs) \<subseteq> set (trigger_promises cs)"
  by (auto simp: fired_promises_def trigger_promises_def)

lemma loop_result_skip:
  assumes "loop_result g cs g' cs'" "\<not> due (gate_generation g) c" "waiting_promise g (ct_promise c)" "ct_promise c \<notin> set (trigger_promises cs)"
  shows "loop_result g ((t, c) # cs) g' ((t, c) # cs')"
proof -
  have "ct_promise c \<notin> set (trigger_promises cs')"
    using retriggered_promises [of g cs cs' "ct_promise c"] assms by (auto simp: loop_result_def waiting_promise_def)
  moreover have "promises g' (ct_promise c) = promises g (ct_promise c)"
    using assms(1,3,4) fired_subset [of "gate_generation g" cs] by (auto simp: loop_result_def waiting_promise_def)
  moreover have "fired_promises (gate_generation g) ((t, c) # cs) = fired_promises (gate_generation g) cs"
    using assms(2) by simp
  ultimately show ?thesis using assms
    by (auto simp: loop_result_def retriggered_def waiting_promise_def)
qed

lemma loop_result_fire:
  assumes "loop_result (g\<lparr>promises := (promises g)(ct_promise c := fire (promises g (ct_promise c)), next_promise g := promise_new),
      next_promise := next_promise g + 1\<rparr>) cs g' cs'" (is "loop_result ?g cs g' cs'")
    "due (gate_generation g) c" "list_all (waiting_promise g) (trigger_promises ((t, c) # cs))" "ct_promise c \<notin> set (trigger_promises cs)"
  shows "loop_result g ((t, c) # cs) g' ((t, c\<lparr>ct_promise := next_promise g\<rparr>) # cs')"
proof -
  have lt: "i < next_promise g" if "i \<in> set (trigger_promises ((t, c) # cs))" for i
    using assms(3) that by (auto simp: list_all_iff waiting_promise_def)
  have c: "ct_promise c < next_promise g" using lt by simp
  have cs: "i < next_promise g" if "i \<in> set (trigger_promises cs)" for i using lt that by simp
  have f: "i \<in> set (trigger_promises cs)" if "i \<in> set (fired_promises (gate_generation g) cs)" for i
    using fired_subset that by fast
  have new: "next_promise g \<notin> set (trigger_promises cs')"
    using retriggered_promises [of ?g cs cs' "next_promise g"] assms(1) cs by (fastforce simp: loop_result_def)
  have P: "promises g' i = (if i \<in> set (fired_promises (gate_generation g) cs) then fire (promises ?g i) else promises ?g i)"
    if "i < next_promise g + 1" for i
    using assms(1) that by (simp add: loop_result_def)
  have w: "promises g' (next_promise g) = promise_new" using P [of "next_promise g"] f cs by fastforce
  have l2: "list_all2 (retriggered g) cs cs'"
  proof (rule list_all2_mono [of "retriggered ?g"])
    show "list_all2 (retriggered ?g) cs cs'" using assms(1) unfolding loop_result_def by blast
    show "retriggered g x y" if "retriggered ?g x y" for x y using that by (auto simp: retriggered_def split: if_splits)
  qed
  have old: "promises g' i = (if i \<in> set (fired_promises (gate_generation g) ((t, c) # cs)) then fire (promises g i) else promises g i)"
    if "i < next_promise g" for i
    using P [of i] that c f assms(2,4) by auto
  have "g' = ?g\<lparr>promises := promises g', next_promise := next_promise g'\<rparr>" "next_promise g + 1 \<le> next_promise g'"
    and g3: "list_all (waiting_promise g') (trigger_promises cs')" "distinct (trigger_promises cs')"
    using assms(1) unfolding loop_result_def by simp_all
  then have g: "g' = g\<lparr>promises := promises g', next_promise := next_promise g'\<rparr>" "next_promise g + 1 \<le> next_promise g'"
    by simp_all
  show ?thesis unfolding loop_result_def
  proof (intro conjI allI impI)
    show "g' = g\<lparr>promises := promises g', next_promise := next_promise g'\<rparr>" by (rule g(1))
    show "list_all2 (retriggered g) ((t, c) # cs) ((t, c\<lparr>ct_promise := next_promise g\<rparr>) # cs')"
      using l2 assms(2) by (simp add: retriggered_def)
    show "list_all (waiting_promise g') (trigger_promises ((t, c\<lparr>ct_promise := next_promise g\<rparr>) # cs'))"
      using g(2) g3 w by (simp add: waiting_promise_def promise_new_def)
  qed (use g(2) g3 new old in simp_all)
qed

lemma trigger_loop_spec:
  "list_all (waiting_promise g) (trigger_promises cs) \<Longrightarrow> distinct (trigger_promises cs) \<Longrightarrow>
   \<exists>g' cs' b. trigger_loop cs g = (g', cs', Inr b) \<and> loop_result g cs g' cs'"
proof (induction cs arbitrary: g)
  case Nil
  then show ?case by (auto simp: loop_result_def)
next
  case (Cons x cs)
  obtain t c where x: "x = (t, c)" by fastforce
  have w: "waiting_promise g (ct_promise c)" "ct_promise c \<notin> set (trigger_promises cs)"
    using Cons.prems by (simp_all add: x)
  show ?case
  proof (cases "due (gate_generation g) c")
    case False
    obtain g' cs' b where r: "trigger_loop cs g = (g', cs', Inr b)" "loop_result g cs g' cs'"
      using Cons.IH [of g] Cons.prems by (auto simp: x)
    then show ?thesis using loop_result_skip [OF r(2) False w] False by (simp add: x ct_set_cases [OF w(1)])
  next
    case True
    let ?g = "g\<lparr>promises := (promises g)(ct_promise c := fire (promises g (ct_promise c)), next_promise g := promise_new),
      next_promise := next_promise g + 1\<rparr>"
    have "list_all (waiting_promise ?g) (trigger_promises cs)"
      using Cons.prems(1) w(2) by (auto simp: list_all_iff waiting_promise_def x)
    then obtain g' cs' b where r: "trigger_loop cs ?g = (g', cs', Inr b)" "loop_result ?g cs g' cs'"
      using Cons.IH [of ?g] Cons.prems(2) by (auto simp: x)
    then show ?thesis using loop_result_fire [OF r(2) True _ w(2)] Cons.prems(1) True by (auto simp: x ct_set_cases [OF w(1)])
  qed
qed

section \<open>Waiting for a generation\<close>

text \<open>Threads that wait, with their generation and their future, and the promises \<open>F\<close> that \<open>set\<close> is about to fire. The promises in use are
  different and not ready; a waiting thread is at the same place in the list of conditions, and its future is ready if the generation has been reached.\<close>

type_synonym sleeper = "nat \<times> u64 \<times> nat"

definition gate_ok :: "nat list \<Rightarrow> gate \<Rightarrow> bool" where
  "gate_ok F g \<longleftrightarrow> distinct (gate_promise g # F @ trigger_promises (conditions g)) \<and>
     list_all (waiting_promise g) (gate_promise g # F @ trigger_promises (conditions g))"

definition sleeps :: "gate \<Rightarrow> sleeper \<Rightarrow> nat \<times> conditional_trigger \<Rightarrow> bool" where
  "sleeps g = (\<lambda>(t, gv, f) (t', c). t' = t \<and> ct_cond c = Some gv \<and> f < next_promise g \<and>
     (if gv \<le> gate_generation g then \<exists>x. shared_state (promises g f) = Some (Some x) else ct_promise c = f))"

definition sleepers_ok :: "sleeper list \<Rightarrow> nat list \<Rightarrow> gate \<Rightarrow> bool" where
  "sleepers_ok sl F g \<longleftrightarrow> gate_ok F g \<and> list_all2 (sleeps g) sl (conditions g)"

lemma sleeps_update [simp]:
  "sleeps (g\<lparr>conditions := cs\<rparr>) = sleeps g" "sleeps (g\<lparr>received_segments := bs\<rparr>) = sleeps g" "sleeps (g\<lparr>gate_promise := i\<rparr>) = sleeps g"
  by (simp_all add: sleeps_def)

lemma sleeps_mono:
  assumes "sleeps g x y" "gate_generation g' = gate_generation g" "next_promise g \<le> next_promise g'"
    "\<And>i v. i < next_promise g \<Longrightarrow> shared_state (promises g i) = Some (Some v) \<Longrightarrow> \<exists>v. shared_state (promises g' i) = Some (Some v)"
  shows "sleeps g' x y"
  using assms by (cases x; cases y) (force simp: sleeps_def split: if_splits)

lemma sleeps_retriggered:
  assumes "sleeps g x y" "retriggered (g\<lparr>gate_generation := gen\<rparr>) y z" "gate_generation g \<le> gen"
    "loop_result (g\<lparr>gate_generation := gen\<rparr>) cs g' cs'" "y \<in> set cs" "list_all (waiting_promise g) (trigger_promises cs)"
  shows "sleeps g' x z"
proof -
  obtain t gv f c c' where x: "x = (t, gv, f)" "y = (t, c)" "z = (t, c')"
    using assms(1,2) by (cases x; cases y; cases z) (auto simp: sleeps_def retriggered_def)
  have c: "ct_cond c = Some gv" "ct_cond c' = Some gv" "f < next_promise g" using assms(1,2) by (auto simp: x sleeps_def retriggered_def)
  have g': "gate_generation g' = gen" "next_promise g \<le> next_promise g'"
    "promises g' f = (if f \<in> set (fired_promises gen cs) then fire (promises g f) else promises g f)"
    using assms(4) c(3) unfolding loop_result_def by (metis gate.select_convs(5) gate.surjective gate.update_convs(1,2,5), simp_all)
  show ?thesis
  proof (cases "gv \<le> gen")
    case False
    then show ?thesis using assms(1-3) c g'(1,2) by (auto simp: x sleeps_def retriggered_def due_def)
  next
    case True
    have "\<exists>x. shared_state (promises g' f) = Some (Some x)"
    proof (cases "gv \<le> gate_generation g")
      case True
      then show ?thesis using assms(1) g'(3) by (auto simp: x sleeps_def fire_def)
    next
      case False
      then have "ct_promise c = f" using assms(1) by (simp add: x sleeps_def)
      then have "f \<in> set (fired_promises gen cs)"
        using assms(5) True c(1) by (force simp: x fired_promises_def trigger_promises_def due_def)
      then show ?thesis using g'(3) by (simp add: fire_def)
    qed
    then show ?thesis using True c g'(1,2) by (simp add: x sleeps_def)
  qed
qed

lemma word_next_le:
  assumes "(x :: u64) \<noteq> - 1"
  shows "x \<le> x + 1"
proof -
  have "unat x \<noteq> unat (- 1 :: u64)" using assms by (simp only: word_unat_eq_iff) simp
  then have "unat x + 1 < 2 ^ 64" using unsigned_less [of x, where ?'a = nat] by (simp add: unsigned_minus_1_eq_mask mask_eq_exp_minus_1)
  then have "unat (x + 1) = unat x + 1" by (subst unat_word_ariths(1)) (simp add: take_bit_eq_mod)
  then show ?thesis by (simp add: word_le_nat_alt)
qed

lemma next_generation_ok:
  assumes "sleepers_ok sl F g" "gate_generation g \<noteq> - 1"
  shows "\<exists>g'. next_generation g = (g', Inr (gate_generation g + 1)) \<and> sleepers_ok sl F g' \<and> received_segments g' = received_segments g \<and>
    gate_promise g' = gate_promise g \<and> gate_generation g' = gate_generation g + 1 \<and>
    promises g' (gate_promise g) = promises g (gate_promise g)"
proof -
  let ?g = "g\<lparr>gate_generation := gate_generation g + 1\<rparr>" and ?cs = "conditions g"
  have ok: "distinct (gate_promise g # F @ trigger_promises ?cs)" "list_all (waiting_promise g) (gate_promise g # F @ trigger_promises ?cs)"
    using assms(1) by (simp_all add: sleepers_ok_def gate_ok_def)
  have w: "waiting_promise ?g = waiting_promise g" by (simp add: fun_eq_iff waiting_promise_def)
  obtain g' cs' b where r: "trigger_loop ?cs ?g = (g', cs', Inr b)" "loop_result ?g ?cs g' cs'"
    using trigger_loop_spec [of ?g ?cs] ok by (auto simp: w)
  have g': "g' = ?g\<lparr>promises := promises g', next_promise := next_promise g'\<rparr>" "next_promise g \<le> next_promise g'"
    "list_all2 (retriggered ?g) ?cs cs'" "list_all (waiting_promise g') (trigger_promises cs')" "distinct (trigger_promises cs')"
    using r(2) unfolding loop_result_def by auto
  have same: "promises g' i = promises g i" if "i \<in> set (gate_promise g # F)" for i
  proof -
    have "i < next_promise g" "i \<notin> set (trigger_promises ?cs)" using ok that by (auto simp: waiting_promise_def list_all_iff)
    then show ?thesis using r(2) fired_subset [of "gate_generation g + 1" ?cs] unfolding loop_result_def by auto
  qed
  have fields: "gate_promise g' = gate_promise g" "received_segments g' = received_segments g" "gate_generation g' = gate_generation g + 1"
    using g'(1) by (metis gate.select_convs gate.surjective gate.update_convs)+
  have "list_all2 (sleeps g') sl cs'"
  proof (rule list_all2_all_nthI)
    have l: "length sl = length ?cs" "length ?cs = length cs'"
      using assms(1) g'(3) by (auto simp: sleepers_ok_def dest: list_all2_lengthD)
    then show "length sl = length cs'" by simp
    fix k assume k: "k < length sl"
    show "sleeps g' (sl ! k) (cs' ! k)"
      by (rule sleeps_retriggered [OF _ _ word_next_le [OF assms(2)] r(2)])
        (use assms(1) g'(3) k l ok in \<open>auto simp: sleepers_ok_def list_all2_conv_all_nth\<close>)
  qed
  moreover have "gate_ok F (g'\<lparr>conditions := cs'\<rparr>)"
  proof -
    have "i \<notin> set (trigger_promises cs')" "waiting_promise g' i" if i: "i \<in> set (gate_promise g # F)" for i
    proof -
      have "i < next_promise g" "i \<notin> set (trigger_promises ?cs)" "shared_state (promises g i) = Some None"
        using ok i by (auto simp: waiting_promise_def list_all_iff)
      then show "i \<notin> set (trigger_promises cs')" "waiting_promise g' i"
        using retriggered_promises [OF g'(3), of i] same [OF i] g'(2) by (auto simp: waiting_promise_def)
    qed
    then show ?thesis using ok(1) g'(4,5) fields(1)
      by (auto simp: gate_ok_def list_all_iff waiting_promise_def)
  qed
  ultimately have "sleepers_ok sl F (g'\<lparr>conditions := cs'\<rparr>)"
    by (simp add: sleepers_ok_def)
  moreover have "next_generation g = (g'\<lparr>conditions := cs'\<rparr>, Inr (gate_generation g + 1))"
    using assms(2) r(1) by (simp add: next_generation_def trigger_conditions_def Let_def)
  ultimately show ?thesis using fields same [of "gate_promise g"] by auto
qed

text \<open>Threads that use a gate or a trigger: the gate, the threads that wait for a generation, and the promises that are about to be fired.\<close>

record gate_users =
  the_gate :: gate
  sleepers :: "sleeper list"
  firing :: "nat list"

datatype gate_action =
    Synchronize nat u64 | Wake nat | Next_Generation | Gate_Get_Future "nat option" | Gate_Set nat | Gate_Fire nat
  | Trigger_Get_Future | Trigger_Set

fun gate_perform :: "gate_action \<Rightarrow> gate_users \<Rightarrow> gate_users" where
  "gate_perform (Synchronize t gv) u =
     (let (g, r) = synchronize t gv (the_gate u) in
      u\<lparr>the_gate := g, sleepers := sleepers u @ (case r of Inr (Some f) \<Rightarrow> [(t, gv, f)] | _ \<Rightarrow> [])\<rparr>)"
| "gate_perform (Wake t) u =
     u\<lparr>the_gate := synchronize_end t (the_gate u), sleepers := filter (\<lambda>(v, _). v \<noteq> t) (sleepers u)\<rparr>"
| "gate_perform Next_Generation u = u\<lparr>the_gate := fst (next_generation (the_gate u))\<rparr>"
| "gate_perform (Gate_Get_Future count) u = u\<lparr>the_gate := fst (gate_get_future count (the_gate u))\<rparr>"
| "gate_perform (Gate_Set which) u =
     (let (g, r) = gate_set which (the_gate u) in
      u\<lparr>the_gate := g, firing := firing u @ (case r of Inr (Some p) \<Rightarrow> [p] | _ \<Rightarrow> [])\<rparr>)"
| "gate_perform (Gate_Fire p) u = u\<lparr>the_gate := fst (gate_fire p (the_gate u)), firing := remove1 p (firing u)\<rparr>"
| "gate_perform Trigger_Get_Future u = u\<lparr>the_gate := fst (trigger_get_future (the_gate u))\<rparr>"
| "gate_perform Trigger_Set u = u\<lparr>the_gate := fst (trigger_set (the_gate u))\<rparr>"

text \<open>A thread makes one call at a time; it wakes up when its future is ready.\<close>

fun gate_possible :: "gate_action \<Rightarrow> gate_users \<Rightarrow> bool" where
  "gate_possible (Synchronize t gv) u \<longleftrightarrow> t \<notin> fst ` set (sleepers u)"
| "gate_possible (Wake t) u \<longleftrightarrow> (\<exists>(v, gv, f) \<in> set (sleepers u). v = t \<and> shared_state (promises (the_gate u) f) \<noteq> Some None)"
| "gate_possible (Gate_Fire p) u \<longleftrightarrow> p \<in> set (firing u)"
| "gate_possible _ u \<longleftrightarrow> True"

inductive gate_reachable :: "nat \<Rightarrow> gate_users \<Rightarrow> bool" for count where
  gate_start: "gate_reachable count \<lparr>the_gate = gate_new count, sleepers = [], firing = []\<rparr>"
| gate_step: "gate_reachable count u \<Longrightarrow> gate_possible a u \<Longrightarrow> gate_reachable count (gate_perform a u)"

lemma new_promise_ok:
  assumes "sleepers_ok sl F g" "new_promise g = (g', i)"
  shows "sleepers_ok sl F g'" "i = next_promise g" "waiting_promise g' i" "gate_generation g' = gate_generation g"
    "\<forall>j. waiting_promise g j \<longrightarrow> waiting_promise g' j \<and> j \<noteq> i" "conditions g' = conditions g" "gate_promise g' = gate_promise g"
proof -
  show w: "\<forall>j. waiting_promise g j \<longrightarrow> waiting_promise g' j \<and> j \<noteq> i" and "i = next_promise g" "waiting_promise g' i"
    "gate_generation g' = gate_generation g" and c: "conditions g' = conditions g" "gate_promise g' = gate_promise g"
    using assms(2) by (auto simp: new_promise_def waiting_promise_def promise_new_def)
  have "list_all2 (sleeps g') sl (conditions g)"
    by (rule list_all2_mono [of "sleeps g"]) (use assms in \<open>auto simp: sleepers_ok_def new_promise_def intro: sleeps_mono\<close>)
  then show "sleepers_ok sl F g'" using assms(1) w c by (auto simp: sleepers_ok_def gate_ok_def list_all_iff)
qed

text \<open>Firing a promise that no waiting thread has.\<close>

lemma fire_ok:
  assumes "sleepers_ok sl F g" "p \<notin> set (gate_promise g # F @ trigger_promises (conditions g))"
  shows "sleepers_ok sl F (g\<lparr>promises := (promises g)(p := fire (promises g p))\<rparr>)"
proof -
  let ?g = "g\<lparr>promises := (promises g)(p := fire (promises g p))\<rparr>"
  have "list_all2 (sleeps ?g) sl (conditions g)"
    by (rule list_all2_mono [of "sleeps g"]) (use assms in \<open>auto simp: sleepers_ok_def fire_def intro: sleeps_mono\<close>)
  then show ?thesis using assms by (auto simp: sleepers_ok_def gate_ok_def list_all_iff waiting_promise_def)
qed

lemma retrieve_ok:
  assumes "sleepers_ok sl F g"
  shows "sleepers_ok sl F (fst (on_promise get_future p g))"
proof -
  have same: "shared_state (promises (fst (on_promise get_future p g)) i) = shared_state (promises g i)" for i
    by (simp add: on_promise_def get_future_def Let_def)
  have f: "conditions (fst (on_promise get_future p g)) = conditions g" "gate_promise (fst (on_promise get_future p g)) = gate_promise g"
    "next_promise (fst (on_promise get_future p g)) = next_promise g" "gate_generation (fst (on_promise get_future p g)) = gate_generation g"
    by (simp_all add: on_promise_def case_prod_unfold Let_def)
  have "sleeps (fst (on_promise get_future p g)) = sleeps g" by (simp add: sleeps_def same f)
  then show ?thesis using assms by (simp add: sleepers_ok_def gate_ok_def list_all_iff waiting_promise_def same f)
qed

lemma synchronize_waits:
  assumes "gv > gate_generation g"
  shows "synchronize t gv g =
    (g\<lparr>promises := (promises g)(next_promise g := promise_new\<lparr>future_retrieved := True\<rparr>), next_promise := next_promise g + 1,
       conditions := conditions g @ [(t, \<lparr>ct_promise = next_promise g, ct_cond = Some gv\<rparr>)]\<rparr>, Inr (Some (next_promise g)))"
  using assms
  by (auto simp: synchronize_def test_condition_def new_promise_def ct_get_future_def on_promise_def get_future_def promise_new_def
      ct_set_def Let_def)

lemma synchronize_ok:
  assumes "sleepers_ok sl F g" "synchronize t gv g = (g', r)"
  shows "sleepers_ok (sl @ (case r of Inr (Some f) \<Rightarrow> [(t, gv, f)] | _ \<Rightarrow> [])) F g'"
proof (cases "gv > gate_generation g")
  case False
  then show ?thesis using assms by (auto simp: synchronize_def test_condition_def split: if_splits)
next
  case True
  let ?i = "next_promise g" and ?p = "promise_new\<lparr>future_retrieved := True\<rparr> :: unit promise"
  let ?g = "g\<lparr>promises := (promises g)(?i := ?p), next_promise := ?i + 1\<rparr>"
  let ?c = "(t, \<lparr>ct_promise = ?i, ct_cond = Some gv\<rparr>)"
  have r: "g' = ?g\<lparr>conditions := conditions g @ [?c]\<rparr>" "r = Inr (Some ?i)"
    using assms(2) synchronize_waits [OF True, of t] by simp_all
  have "list_all2 (sleeps ?g) sl (conditions g)"
    by (rule list_all2_mono [of "sleeps g"]) (use assms in \<open>auto simp: sleepers_ok_def intro: sleeps_mono\<close>)
  moreover have "sleeps ?g (t, gv, ?i) ?c" using True by (auto simp: sleeps_def)
  moreover have w: "waiting_promise ?g ?i" "\<forall>j. waiting_promise g j \<longrightarrow> waiting_promise ?g j \<and> j \<noteq> ?i"
    by (auto simp: waiting_promise_def promise_new_def)
  moreover have "list_all (\<lambda>j. waiting_promise ?g j \<and> j \<noteq> ?i) (gate_promise g # F @ trigger_promises (conditions g))"
    using assms(1) w(2) unfolding sleepers_ok_def gate_ok_def list_all_iff by blast
  ultimately show ?thesis using assms(1)
    unfolding r by (auto simp: sleepers_ok_def gate_ok_def list_all_iff intro: list_all2_appendI)
qed

lemma list_all2_filter:
  assumes "list_all2 P xs ys" "\<And>x y. P x y \<Longrightarrow> f x = g y"
  shows "list_all2 P (filter f xs) (filter g ys)"
  using assms(1) by induction (auto dest: assms(2))

lemma synchronize_end_ok:
  assumes "sleepers_ok sl F g"
  shows "sleepers_ok (filter (\<lambda>(v, _). v \<noteq> t) sl) F (synchronize_end t g)"
proof -
  have "list_all2 (sleeps g) (filter (\<lambda>(v, _). v \<noteq> t) sl) (filter (\<lambda>(u, c). u \<noteq> t) (conditions g))"
    by (rule list_all2_filter) (use assms in \<open>auto simp: sleepers_ok_def sleeps_def\<close>)
  then show ?thesis using assms
    by (auto simp: sleepers_ok_def synchronize_end_def gate_ok_def list_all_iff trigger_promises_def distinct_map_filter waiting_promise_def)
qed

lemma swap_promise_ok:
  assumes "sleepers_ok sl F g" "new_promise g = (g', i)"
  shows "sleepers_ok sl (F @ [gate_promise g]) (g'\<lparr>gate_promise := i\<rparr>)"
  using new_promise_ok [OF assms] assms(1)
  by (auto simp: sleepers_ok_def gate_ok_def list_all_iff waiting_promise_def)

lemma set_value_fires: "waiting_promise g p \<Longrightarrow> on_promise (set_value ()) p g = (g\<lparr>promises := (promises g)(p := fire (promises g p))\<rparr>, Inr ())"
  by (simp add: on_promise_def set_value_def set_outcome_def waiting_promise_def fire_def)

lemma segments_ok [simp]: "sleepers_ok sl F (g\<lparr>received_segments := bs\<rparr>) = sleepers_ok sl F g"
  by (simp add: sleepers_ok_def gate_ok_def list_all_iff waiting_promise_def)

lemma gate_set_ok:
  assumes "sleepers_ok sl F g" "gate_set which g = (g', r)"
  shows "sleepers_ok sl (F @ (case r of Inr (Some p) \<Rightarrow> [p] | _ \<Rightarrow> [])) g'"
proof -
  let ?g = "g\<lparr>received_segments := (received_segments g)[which := True]\<rparr>"
  obtain h i where n: "new_promise ?g = (h, i)" by fastforce
  have "sleepers_ok sl F ?g" using assms(1) by simp
  from swap_promise_ok [OF this n] have "sleepers_ok sl (F @ [gate_promise g]) (h\<lparr>gate_promise := i\<rparr>)" by simp
  then have "sleepers_ok sl (F @ [gate_promise g]) (h\<lparr>gate_promise := i, received_segments := bs\<rparr>)" for bs by (simp only: segments_ok)
  then show ?thesis using assms n by (auto simp: gate_set_def Let_def split: if_splits)
qed

lemma gate_fire_ok:
  assumes "sleepers_ok sl F g" "p \<in> set F"
  shows "sleepers_ok sl (remove1 p F) (fst (gate_fire p g))"
proof -
  have w: "waiting_promise g p" using assms by (auto simp: sleepers_ok_def gate_ok_def list_all_iff)
  have d: "distinct (gate_promise g # F @ trigger_promises (conditions g))" using assms(1) by (simp add: sleepers_ok_def gate_ok_def)
  then have "sleepers_ok sl (remove1 p F) g" using assms(1) by (auto simp: sleepers_ok_def gate_ok_def list_all_iff)
  moreover have "p \<notin> set (gate_promise g # remove1 p F @ trigger_promises (conditions g))" using d assms(2) by auto
  ultimately show ?thesis using fire_ok [of sl "remove1 p F" g p] by (simp add: gate_fire_def set_value_fires [OF w])
qed

lemma trigger_set_ok:
  assumes "sleepers_ok sl F g"
  shows "sleepers_ok sl F (fst (trigger_set g))"
proof -
  let ?p = "gate_promise g"
  obtain h i where n: "new_promise g = (h, i)" by fastforce
  note ok = swap_promise_ok [OF assms n]
  have w: "waiting_promise g ?p" using assms by (simp add: sleepers_ok_def gate_ok_def)
  have "sleepers_ok sl (remove1 ?p (F @ [?p])) (fst (gate_fire ?p (h\<lparr>gate_promise := i\<rparr>)))"
    by (rule gate_fire_ok [OF ok]) simp
  moreover have "remove1 ?p (F @ [?p]) = F" using ok by (auto simp: sleepers_ok_def gate_ok_def remove1_append)
  moreover have "fst (gate_fire ?p (h\<lparr>gate_promise := i\<rparr>)) = fst (trigger_set g)"
  proof -
    have "waiting_promise (h\<lparr>gate_promise := i\<rparr>) ?p" "?p \<noteq> next_promise g"
      using new_promise_ok(5) [OF assms n] w by (auto simp: waiting_promise_def)
    then show ?thesis using n
      by (auto simp: gate_fire_def trigger_set_def set_value_fires w new_promise_def Let_def fun_upd_twist)
  qed
  ultimately show ?thesis by simp
qed

lemma next_generation_fst_ok: "sleepers_ok sl F g \<Longrightarrow> sleepers_ok sl F (fst (next_generation g))"
  using next_generation_ok [of sl F g] by (cases "gate_generation g = - 1") (auto simp: next_generation_def)

lemma trigger_get_future_ok:
  assumes "sleepers_ok sl F g"
  shows "sleepers_ok sl F (fst (trigger_get_future g))"
proof -
  obtain h r where n: "next_generation g = (h, r)" by fastforce
  then have "sleepers_ok sl F h" using next_generation_fst_ok [OF assms] by simp
  then show ?thesis using retrieve_ok [of sl F h "gate_promise h"] n
    by (cases r) (auto simp: trigger_get_future_def Let_def case_prod_unfold)
qed

text \<open>A gate does what a trigger does, after its segments have been initialized.\<close>

lemma gate_get_future_init:
  "gate_get_future count g =
     (let count = (case count of None \<Rightarrow> length (received_segments g) | Some n \<Rightarrow> n) in
      if count = 0 then (g, Inl assertion_failure)
      else case init_locked count g of (g, Inl err) \<Rightarrow> (g, Inl err) | (g, Inr _) \<Rightarrow> trigger_get_future g)"
  unfolding gate_get_future_def trigger_get_future_def Let_def ..

lemma gate_get_future_ok:
  assumes "sleepers_ok sl F g"
  shows "sleepers_ok sl F (fst (gate_get_future count g))"
  using assms trigger_get_future_ok [of sl F "g\<lparr>received_segments := bs\<rparr>" for bs]
  by (auto simp: gate_get_future_init init_locked_def Let_def)

lemma gate_new_ok: "sleepers_ok [] [] (gate_new count)"
  by (simp add: sleepers_ok_def gate_ok_def gate_new_def waiting_promise_def promise_new_def)

lemma gate_reachable_ok: "gate_reachable count u \<Longrightarrow> sleepers_ok (sleepers u) (firing u) (the_gate u)"
proof (induction rule: gate_reachable.induct)
  case gate_start
  show ?case by (simp add: gate_new_ok)
next
  case (gate_step u a)
  then show ?case
    by (cases a) (auto simp: case_prod_unfold Let_def intro: synchronize_end_ok [unfolded case_prod_unfold]
      next_generation_fst_ok gate_get_future_ok gate_set_ok gate_fire_ok trigger_get_future_ok trigger_set_ok
      synchronize_ok [OF _ surjective_pairing] gate_set_ok [OF _ surjective_pairing])
qed

text \<open>A thread that waits for a generation of a gate or trigger is woken when it is reached, and not before. In every reachable state the future of a thread in
  \<open>synchronize\<close> is ready if and only if the generation is at least the one it waits for, however generations, gates, triggers and threads interleave.\<close>

lemma synchronize_wakes:
  assumes "gate_reachable count u" "(t, gv, f) \<in> set (sleepers u)"
  shows "shared_state (promises (the_gate u) f) \<noteq> Some None \<longleftrightarrow> gv \<le> gate_generation (the_gate u)"
proof -
  have ok: "sleepers_ok (sleepers u) (firing u) (the_gate u)" by (rule gate_reachable_ok [OF assms(1)])
  obtain k where "k < length (sleepers u)" "sleepers u ! k = (t, gv, f)" using assms(2) by (auto simp: in_set_conv_nth)
  then obtain y where y: "y \<in> set (conditions (the_gate u))" "sleeps (the_gate u) (t, gv, f) y"
    using ok unfolding sleepers_ok_def list_all2_conv_all_nth by (metis nth_mem)
  then have "ct_promise (snd y) \<in> set (trigger_promises (conditions (the_gate u)))"
    using y(1) by (auto simp: trigger_promises_def case_prod_unfold)
  then have "waiting_promise (the_gate u) (ct_promise (snd y))"
    using ok by (auto simp: sleepers_ok_def gate_ok_def list_all_iff)
  then show ?thesis using y(2) by (cases y) (auto simp: sleeps_def waiting_promise_def split: if_splits)
qed

definition example_gate :: gate_users where
  "example_gate =
     fold gate_perform [Synchronize 1 1, Synchronize 2 2, Gate_Get_Future None, Gate_Set 1, Gate_Set 0, Gate_Fire 0]
       \<lparr>the_gate = gate_new 2, sleepers = [], firing = []\<rparr>"

section \<open>A round of a gate\<close>

fun set_all :: "nat list \<Rightarrow> gate \<Rightarrow> gate \<times> bool result list" where
  "set_all [] g = (g, [])"
| "set_all (w # ws) g = (let (g, r) = and_gate_set w g; (g, rs) = set_all ws g in (g, r # rs))"

lemma set_all_append: "set_all (vs @ ws) g = (let (g, rs) = set_all vs g; (g, qs) = set_all ws g in (g, rs @ qs))"
  by (induction vs arbitrary: g) (simp_all add: case_prod_unfold Let_def)

text \<open>The segments that have been set.\<close>

definition segments :: "nat \<Rightarrow> nat set \<Rightarrow> bool list" where
  "segments n A = map (\<lambda>i. i \<in> A) [0..<n]"

lemma segments_update: "w < n \<Longrightarrow> (segments n A)[w := True] = segments n (insert w A)"
  by (rule nth_equalityI) (auto simp: segments_def nth_list_update)

lemma segments_all: "list_all id (segments n A) \<longleftrightarrow> {..<n} \<subseteq> A"
  by (auto simp: segments_def list_all_iff)

lemma gate_set_missing:
  assumes "received_segments g = segments n A" "w < n" "w \<notin> A" "\<not> {..<n} \<subseteq> insert w A"
  shows "and_gate_set w g = (g\<lparr>received_segments := segments n (insert w A)\<rparr>, Inr False)"
proof -
  have "length (segments n A) = n" "segments n A ! w = False" using assms(2,3) by (simp_all add: segments_def)
  then show ?thesis using assms by (simp add: and_gate_set_def gate_set_def segments_update segments_all)
qed

lemma set_all_missing:
  assumes "received_segments g = segments n A" "distinct ws" "set ws \<subseteq> {..<n} - A" "\<not> {..<n} \<subseteq> A \<union> set ws"
  shows "set_all ws g = (g\<lparr>received_segments := segments n (A \<union> set ws)\<rparr>, replicate (length ws) (Inr False))"
  using assms
proof (induction ws arbitrary: g A)
  case Nil
  then show ?case by simp
next
  case (Cons w ws)
  have "and_gate_set w g = (g\<lparr>received_segments := segments n (insert w A)\<rparr>, Inr False)"
    by (rule gate_set_missing) (use Cons.prems in auto)
  moreover have "set_all ws (g\<lparr>received_segments := segments n (insert w A)\<rparr>) =
      (g\<lparr>received_segments := segments n (insert w A \<union> set ws)\<rparr>, replicate (length ws) (Inr False))"
    using Cons.IH [of "g\<lparr>received_segments := segments n (insert w A)\<rparr>" "insert w A"] Cons.prems by auto
  ultimately show ?case by simp
qed

lemma gate_set_last:
  assumes "received_segments g = segments n A" "w < n" "w \<notin> A" "{..<n} \<subseteq> insert w A" "waiting_promise g (gate_promise g)"
  shows "and_gate_set w g =
    (g\<lparr>promises := (promises g)(gate_promise g := fire (promises g (gate_promise g)), next_promise g := promise_new),
       next_promise := next_promise g + 1, gate_promise := next_promise g, received_segments := segments n {}\<rparr>, Inr True)"
proof -
  have "length (segments n A) = n" "segments n A ! w = False" using assms(2,3) by (simp_all add: segments_def)
  moreover have "map (\<lambda>_. False) (segments n B) = segments n {}" for B by (simp add: segments_def)
  moreover have "gate_promise g \<noteq> next_promise g" using assms(5) by (auto simp: waiting_promise_def)
  ultimately show ?thesis using assms
    by (simp add: and_gate_set_def gate_set_def segments_update segments_all new_promise_def gate_fire_def on_promise_def set_value_def
        set_outcome_def fire_def waiting_promise_def fun_upd_twist)
qed

lemma gate_get_future_round:
  assumes "sleepers_ok sl F g" "gate_generation g \<noteq> - 1" "True \<notin> set (received_segments g)"
    "\<not> future_retrieved (promises g (gate_promise g))" "0 < n"
  obtains g' where "gate_get_future (Some n) g = (g', Inr (gate_promise g, gate_generation g + 1))" "sleepers_ok sl F g'"
    "received_segments g' = segments n {}" "gate_promise g' = gate_promise g"
proof -
  let ?g = "g\<lparr>received_segments := replicate n False\<rparr>"
  obtain h where h: "next_generation ?g = (h, Inr (gate_generation g + 1))" "sleepers_ok sl F h"
    "received_segments h = replicate n False" "gate_promise h = gate_promise g"
    "promises h (gate_promise g) = promises g (gate_promise g)"
    using next_generation_ok [of sl F ?g] assms(1,2) by auto
  have w: "shared_state (promises g (gate_promise g)) = Some None"
    using assms(1) by (simp add: sleepers_ok_def gate_ok_def waiting_promise_def)
  show thesis
  proof (rule that)
    let ?h = "fst (on_promise get_future (gate_promise g) h)"
    show "gate_get_future (Some n) g = (?h, Inr (gate_promise g, gate_generation g + 1))"
      using assms(3-5) h w
      by (simp add: gate_get_future_def init_locked_def Let_def on_promise_def get_future_def)
    show "sleepers_ok sl F ?h" by (rule retrieve_ok [OF h(2)])
    show "received_segments ?h = segments n {}" "gate_promise ?h = gate_promise g"
      using h by (simp_all add: on_promise_def case_prod_unfold Let_def segments_def map_replicate_const)
  qed
qed

text \<open>C30: a gate fires when all of its segments have been set, in whatever order, and not before. From every reachable state in which a round can start, asking for the future
  succeeds with the next generation; setting each segment once returns false until the last one, which returns true; the future is not ready before that and
  ready after it; and the next round can start.\<close>

theorem and_gate_round:
  assumes "gate_reachable count u" "g = the_gate u" "gate_generation g \<noteq> - 1" "True \<notin> set (received_segments g)"
    "\<not> future_retrieved (promises g (gate_promise g))" "0 < n" "distinct ws" "set ws = {..<n}"
  shows "\<exists>g1 f g2. gate_get_future (Some n) g = (g1, Inr (f, gate_generation g + 1)) \<and>
    set_all ws g1 = (g2, replicate (n - 1) (Inr False) @ [Inr True]) \<and>
    (\<forall>k < n. shared_state (promises (fst (set_all (take k ws) g1)) f) = Some None) \<and>
    shared_state (promises g2 f) = Some (Some (Value ())) \<and>
    received_segments g2 = replicate n False \<and> \<not> future_retrieved (promises g2 (gate_promise g2))"
proof -
  have ok: "sleepers_ok (sleepers u) (firing u) g" using gate_reachable_ok [OF assms(1)] assms(2) by simp
  obtain g1 where g1: "gate_get_future (Some n) g = (g1, Inr (gate_promise g, gate_generation g + 1))"
    "sleepers_ok (sleepers u) (firing u) g1" "received_segments g1 = segments n {}" "gate_promise g1 = gate_promise g"
    using gate_get_future_round [OF ok assms(3-6)] by blast
  have w: "waiting_promise g1 (gate_promise g)" using g1(2,4) by (simp add: sleepers_ok_def gate_ok_def)
  have len: "length ws = n" using distinct_card [OF assms(7)] assms(8) by simp
  obtain vs v where ws: "ws = vs @ [v]" using len assms(6) by (cases ws rule: rev_cases) auto
  have part: "set_all (take k ws) g1 = (g1\<lparr>received_segments := segments n (set (take k ws))\<rparr>, replicate k (Inr False))" if "k < n" for k
  proof -
    have "set (take k ws) \<subseteq> {..<n}" using set_take_subset [of k ws] assms(8) by simp
    moreover have "card (set (take k ws)) < card {..<n}" using that card_length [of "take k ws"] by (simp add: len)
    ultimately have "\<not> {..<n} \<subseteq> set (take k ws)" by (metis card_mono finite_set not_less)
    then show ?thesis
      using set_all_missing [OF g1(3), of "take k ws"] assms(7,8) set_take_subset [of k ws] that len by auto
  qed
  have vs: "vs = take (n - 1) ws" "v < n" "v \<notin> set vs" "{..<n} \<subseteq> insert v (set vs)" using len assms(7,8) by (auto simp: ws)
  let ?g1 = "g1\<lparr>received_segments := segments n (set vs)\<rparr>"
  have "set_all vs g1 = (?g1, replicate (n - 1) (Inr False))" using part [of "n - 1"] assms(6) vs(1) by simp
  moreover have "and_gate_set v ?g1 = (?g1\<lparr>promises := (promises g1)(gate_promise g := fire (promises g1 (gate_promise g)),
      next_promise g1 := promise_new), next_promise := next_promise g1 + 1, gate_promise := next_promise g1,
      received_segments := segments n {}\<rparr>, Inr True)" (is "_ = (?g2, _)")
    using gate_set_last [of ?g1 n "set vs" v] vs w g1(4) by (simp add: waiting_promise_def)
  ultimately have "set_all ws g1 = (?g2, replicate (n - 1) (Inr False) @ [Inr True])" by (simp add: ws set_all_append)
  moreover have "gate_promise g \<noteq> next_promise g1" using w by (auto simp: waiting_promise_def)
  ultimately show ?thesis using g1(1) part w
    by (intro exI conjI) (auto simp: waiting_promise_def fire_def promise_new_def segments_def map_replicate_const)
qed

theorem and_gate_round_witness:
  "\<exists>g1 f g2. gate_get_future (Some 3) (the_gate example_gate) = (g1, Inr (f, 2)) \<and>
     set_all [1, 2, 0] g1 = (g2, [Inr False, Inr False, Inr True]) \<and> shared_state (promises g2 f) = Some (Some (Value ()))"
proof -
  have "gate_reachable 2 example_gate"
    unfolding example_gate_def fold.simps comp_def id_def by (intro gate_step gate_start) code_simp+
  moreover have "gate_generation (the_gate example_gate) = 1" "received_segments (the_gate example_gate) = [False, False]"
    "\<not> future_retrieved (promises (the_gate example_gate) (gate_promise (the_gate example_gate)))"
    by code_simp+
  moreover have "set [1, 2, 0] = {..<3 :: nat}" by auto
  moreover have "replicate (3 - 1) (Inr False) @ [Inr True] = [Inr False, Inr False, Inr True :: bool result]"
    by (simp add: numeral_2_eq_2 numeral_3_eq_3)
  ultimately show ?thesis
    using and_gate_round [of 2 example_gate "the_gate example_gate" 3 "[1, 2, 0]"] by fastforce
qed

end
