(* ===== verification/Pool_Timer.thy ===== *)
theory Pool_Timer
  imports Main
begin

text \<open>
  The timer that runs on a thread of the timer pool, \<^verbatim>\<open>src/util/pool_timer.cpp\<close>.

  The timer of Boost.Asio below it is not part of the repository. What the class asks of it is kept as a history, the
  latest call first, and when it calls the handler of a wait is left to a parameter \<open>deliver\<close>: \<open>deliver h n e\<close> says
  that after the history \<open>h\<close> the handler of wait \<open>n\<close> may be called, with an error if \<open>e\<close>. The predicate
  \<open>asio_timer\<close> states what its documentation promises: a handler is called for a wait whose
  handler has not been called yet, with an error only after the wait has been cancelled, by \<open>cancel\<close>, by a new
  expiry time or by the end of the timer; and as long as a wait has not been cancelled the call of its handler is
  still to come. A wait that has been cancelled may still see its handler called without an error, if it had been
  queued before.

  Every operation is cut where the class gives up its mutex: \<open>start\<close> unlocks while it registers \<open>terminate\<close> with the
  runtime, and goes on with \<open>arm\<close> without looking at the flags again; \<open>terminate\<close> unlocks before it
  calls \<open>on_term_\<close>, and after that call it deletes the timer without the mutex: \<open>delete timer_\<close> and \<open>timer_ = nullptr\<close> are
  two operations here, \<open>delete_timer\<close> and \<open>reset_timer\<close>, between which the pointer is not null and the timer is gone. The handler
  takes no lock at all. A failing \<open>HPX_ASSERT\<close> is the result \<open>None\<close> or \<open>Timer_gone\<close>; the use of a timer that has been
  deleted, undefined in C++, is \<open>None\<close> or \<open>Timer_freed\<close>.
\<close>

section \<open>The timer of Boost.Asio\<close>

datatype timer_op = Expires_from_now int | Async_wait | Timer_cancel | Timer_destroyed | Handler_called nat bool

type_synonym timer_history = "timer_op list"

fun waits :: "timer_history \<Rightarrow> nat" where
  "waits [] = 0"
| "waits (Async_wait # h) = Suc (waits h)"
| "waits (_ # h) = waits h"

text \<open>The waits whose handler has not been called, and those of them that have not been cancelled.\<close>

fun outstanding :: "timer_history \<Rightarrow> nat list" where
  "outstanding [] = []"
| "outstanding (Async_wait # h) = waits h # outstanding h"
| "outstanding (Handler_called n e # h) = removeAll n (outstanding h)"
| "outstanding (_ # h) = outstanding h"

fun uncancelled :: "timer_history \<Rightarrow> nat list" where
  "uncancelled [] = []"
| "uncancelled (Async_wait # h) = waits h # uncancelled h"
| "uncancelled (Handler_called n e # h) = removeAll n (uncancelled h)"
| "uncancelled (_ # h) = []"

definition asio_timer :: "(timer_history \<Rightarrow> nat \<Rightarrow> bool \<Rightarrow> bool) \<Rightarrow> bool" where
  "asio_timer deliver \<longleftrightarrow>
     (\<forall>h n e. deliver h n e \<longrightarrow> n \<in> set (outstanding h)) \<and>
     (\<forall>h n. deliver h n True \<longrightarrow> n \<notin> set (uncancelled h)) \<and>
     (\<forall>h n. n \<in> set (uncancelled h) \<longrightarrow> (\<exists>e. deliver h n e))"

lemma uncancelled_outstanding: "set (uncancelled h) \<subseteq> set (outstanding h)"
  by (induction h rule: uncancelled.induct) auto

lemma asio_timerD:
  assumes "asio_timer deliver"
  shows "deliver h n e \<Longrightarrow> n \<in> set (outstanding h)"
    and "deliver h n True \<Longrightarrow> n \<notin> set (uncancelled h)"
    and "n \<in> set (uncancelled h) \<Longrightarrow> \<exists>e. deliver h n e"
  using assms by (auto simp: asio_timer_def)

lemma fewer_outstanding:
  assumes "n \<in> set (outstanding h)"
  shows "length (removeAll n (outstanding h)) < length (outstanding h)"
  using assms by (metis length_removeAll_less)

text \<open>
  One that keeps the promise: handlers of waits that have not been cancelled are called without an error, those
  that have been cancelled with one.
\<close>

definition prompt_timer :: "timer_history \<Rightarrow> nat \<Rightarrow> bool \<Rightarrow> bool" where
  "prompt_timer h n e \<longleftrightarrow> (if e then n \<in> set (outstanding h) \<and> n \<notin> set (uncancelled h) else n \<in> set (uncancelled h))"

lemma asio_prompt_timer: "asio_timer prompt_timer"
  using uncancelled_outstanding by (auto simp: asio_timer_def prompt_timer_def split: if_splits intro: exI [of _ False])

section \<open>The timer of the pool\<close>

record pool_timer =
  on_term :: bool
  pre_shutdown :: bool
  is_started :: bool
  first_start :: bool
  is_terminated :: bool
  is_stopped :: bool
  timer_present :: bool
  timer_alive :: bool
  timer_ops :: timer_history
  registered :: "bool list"

definition make_pool_timer :: "bool \<Rightarrow> bool \<Rightarrow> pool_timer" where
  "make_pool_timer term pre = \<lparr>on_term = term, pre_shutdown = pre, is_started = False, first_start = True, is_terminated = False,
     is_stopped = False, timer_present = True, timer_alive = True, timer_ops = [], registered = []\<rparr>"

datatype start_result = Start_returns bool | Start_registers | Timer_gone | Timer_freed

definition arm :: "int \<Rightarrow> pool_timer \<Rightarrow> start_result \<times> pool_timer" where
  "arm d t = (let t' = t\<lparr>is_stopped := False, is_started := True\<rparr> in
     if \<not> timer_present t' then (Timer_gone, t')
     else if \<not> timer_alive t' then (Timer_freed, t')
     else (Start_returns True, t'\<lparr>timer_ops := Async_wait # Expires_from_now d # timer_ops t'\<rparr>))"

definition start :: "int \<Rightarrow> pool_timer \<Rightarrow> start_result \<times> pool_timer" where
  "start d t =
     (if is_terminated t then (Start_returns False, t)
      else if \<not> is_started t then
        if first_start t then (Start_registers, t\<lparr>first_start := False\<rparr>) else arm d t
      else (Start_returns False, t))"

text \<open>
  The states of the runtime that matter to the registration, \<open>hpx/state.hpp\<close>. There may be no runtime yet.
  \<open>None\<close> is the exception \<open>invalid_status\<close>. A registered function is noted by the list it went to.
\<close>

definition state_pre_shutdown :: int where
  "state_pre_shutdown = 7"

definition state_shutdown :: int where
  "state_shutdown = 8"

definition register_pre_shutdown_function :: "int option \<Rightarrow> pool_timer \<Rightarrow> pool_timer option" where
  "register_pre_shutdown_function rt t = (case rt of
       None \<Rightarrow> Some (t\<lparr>registered := True # registered t\<rparr>)
     | Some s \<Rightarrow> if s > state_pre_shutdown then None else Some (t\<lparr>registered := True # registered t\<rparr>))"

definition register_shutdown_function :: "int option \<Rightarrow> pool_timer \<Rightarrow> pool_timer option" where
  "register_shutdown_function rt t = (case rt of
       None \<Rightarrow> Some (t\<lparr>registered := False # registered t\<rparr>)
     | Some s \<Rightarrow> if s > state_shutdown then None else Some (t\<lparr>registered := False # registered t\<rparr>))"

definition register_terminate :: "int option \<Rightarrow> pool_timer \<Rightarrow> pool_timer option" where
  "register_terminate rt t =
     (if pre_shutdown t then register_pre_shutdown_function rt t else register_shutdown_function rt t)"

definition stop_locked :: "pool_timer \<Rightarrow> (bool \<times> pool_timer) option" where
  "stop_locked t =
     (if \<not> is_terminated t \<and> is_started t \<and> \<not> is_stopped t then
        let t' = t\<lparr>is_started := False, is_stopped := True\<rparr> in
        if timer_present t' \<and> timer_alive t' then Some (True, t'\<lparr>timer_ops := Timer_cancel # timer_ops t'\<rparr>) else None
      else Some (False, t))"

definition stop :: "pool_timer \<Rightarrow> (bool \<times> pool_timer) option" where
  "stop t = stop_locked t"

text \<open>
  Deleting a null pointer does nothing, deleting a timer twice is undefined. Destroying the timer cancels its waits.
\<close>

definition delete_timer :: "pool_timer \<Rightarrow> pool_timer option" where
  "delete_timer t =
     (if \<not> timer_present t then Some t
      else if timer_alive t then Some (t\<lparr>timer_alive := False, timer_ops := Timer_destroyed # timer_ops t\<rparr>)
      else None)"

definition reset_timer :: "pool_timer \<Rightarrow> pool_timer" where
  "reset_timer t = t\<lparr>timer_present := False\<rparr>"

text \<open>
  The first part of \<open>terminate\<close>. The result tells whether it has unlocked the mutex to call \<open>on_term_\<close>. In either case
  \<open>delete_timer\<close> and \<open>reset_timer\<close> follow.
\<close>

definition terminate :: "pool_timer \<Rightarrow> (bool \<times> pool_timer) option" where
  "terminate t =
     (if \<not> is_terminated t then
        map_option (\<lambda>(_, t'). (on_term t', t')) (stop_locked (t\<lparr>is_terminated := True\<rparr>))
      else Some (False, t))"

definition handler_proceeds :: "pool_timer \<Rightarrow> bool" where
  "handler_proceeds t \<longleftrightarrow> \<not> is_stopped t \<or> \<not> is_terminated t"

definition handler_reset :: "pool_timer \<Rightarrow> pool_timer" where
  "handler_reset t = t\<lparr>is_started := False\<rparr>"

section \<open>Its invariant\<close>

text \<open>
  A stopped timer is not started, and a timer is deleted after it has been terminated only. That a started timer
  has a wait to come is not one of its invariants: the wait may be over, with the handler on its way.
\<close>

definition timer_ok :: "pool_timer \<Rightarrow> bool" where
  "timer_ok t \<longleftrightarrow> (is_stopped t \<longrightarrow> \<not> is_started t) \<and> 
     (\<not> timer_present t \<or> \<not> timer_alive t \<longrightarrow> is_terminated t)"

lemma make_pool_timer_ok: "timer_ok (make_pool_timer term pre)"
  by (simp add: timer_ok_def make_pool_timer_def)

lemma start_cases:
  obtains (refused) "is_terminated t \<or> is_started t" "start d t = (Start_returns False, t)"
  | (registers) "\<not> is_terminated t" "\<not> is_started t" "first_start t"
      "start d t = (Start_registers, t\<lparr>first_start := False\<rparr>)"
  | (arms) "\<not> is_terminated t" "\<not> is_started t" "\<not> first_start t" "start d t = arm d t"
  by (cases "is_terminated t"; cases "is_started t"; cases "first_start t") (simp_all add: start_def)

lemma arm_cases:
  obtains (gone) "\<not> timer_present t" "arm d t = (Timer_gone, t\<lparr>is_stopped := False, is_started := True\<rparr>)"
  | (freed) "timer_present t" "\<not> timer_alive t" "arm d t = (Timer_freed, t\<lparr>is_stopped := False, is_started := True\<rparr>)"
  | (armed) "timer_present t" "timer_alive t" "arm d t = (Start_returns True, t\<lparr>is_stopped := False, is_started := True,
      timer_ops := Async_wait # Expires_from_now d # timer_ops t\<rparr>)"
  by (cases "timer_present t"; cases "timer_alive t") (simp_all add: arm_def)

lemma stop_cases:
  assumes "timer_ok t"
  obtains (idle) "is_terminated t \<or> \<not> is_started t" "stop t = Some (False, t)"
  | (stops) "\<not> is_terminated t" "is_started t" "timer_present t" "timer_alive t"
      "stop t = Some (True, t\<lparr>is_started := False, is_stopped := True, timer_ops := Timer_cancel # timer_ops t\<rparr>)"
  using assms by (cases "is_terminated t"; cases "is_started t") (auto simp: stop_def stop_locked_def timer_ok_def)

text \<open>
  Termination never cancels the wait by itself: it has set \<open>is_terminated_\<close> when it calls \<open>stop_locked\<close>, which does
  nothing for a terminated timer.
\<close>

lemma terminate_stops_nothing:
  "terminate t = Some (if is_terminated t then (False, t) else (on_term t, t\<lparr>is_terminated := True\<rparr>))"
  by (simp add: terminate_def stop_locked_def)

lemma delete_timer_cases:
  assumes "delete_timer t = Some t'"
  obtains (null) "\<not> timer_present t" "t' = t"
  | (deleted) "timer_present t" "timer_alive t" "t' = t\<lparr>timer_alive := False, timer_ops := Timer_destroyed # timer_ops t\<rparr>"
  using assms by (auto simp: delete_timer_def split: if_splits)

lemma register_terminate_frame:
  assumes "register_terminate rt t = Some t'"
  shows "\<exists>b. t' = t\<lparr>registered := b # registered t\<rparr>"
  using assms
  by (auto simp: register_terminate_def register_pre_shutdown_function_def register_shutdown_function_def
      split: if_splits option.splits)

end
