(* ===== verification/Parcel_Histogram.thy ===== *)
theory Parcel_Histogram
  imports Complex_Main
begin

text \<open>
  The histogram of times between parcels, \<^verbatim>\<open>hpx/util/histogram.hpp\<close>: a number of bins of the same size between a
  minimum and a maximum, one more on each side, and how many samples each has got. Floating point numbers are modelled as
  rational numbers, without rounding. The number of samples is what \<open>tag::count\<close> of Boost.Accumulators counts.
  Bins have a size only if there is at least one, so the statements ask for that.
\<close>

record histogram =
  num_bins :: nat
  bin_positions :: "rat list"
  samples_in_bin :: "nat list"
  samples_count :: nat

definition bin_size :: "nat \<Rightarrow> rat \<Rightarrow> rat \<Rightarrow> rat" where
  "bin_size nb mn mx = (mx - mn) / of_nat nb"

definition make_histogram :: "nat \<Rightarrow> rat \<Rightarrow> rat \<Rightarrow> histogram" where
  "make_histogram nb mn mx =
     \<lparr>num_bins = nb,
      bin_positions = map (\<lambda>i. mn + (of_nat i - 1) * bin_size nb mn mx) [0..<nb + 2],
      samples_in_bin = replicate (nb + 2) 0,
      samples_count = 0\<rparr>"

text \<open>\<open>std::upper_bound\<close> of a sorted range: the first position that is greater.\<close>

definition upper_bound_index :: "rat list \<Rightarrow> rat \<Rightarrow> nat" where
  "upper_bound_index ps x = length (takeWhile (\<lambda>p. p \<le> x) ps)"

definition bin_of :: "histogram \<Rightarrow> rat \<Rightarrow> nat" where
  "bin_of hg x =
     (if x < bin_positions hg ! 1 then 0
      else if x \<ge> bin_positions hg ! (num_bins hg + 1) then num_bins hg + 1
      else upper_bound_index (bin_positions hg) x - 1)"

definition add_sample :: "rat \<Rightarrow> histogram \<Rightarrow> histogram" where
  "add_sample x hg = hg\<lparr>samples_in_bin := (samples_in_bin hg)[bin_of hg x := Suc (samples_in_bin hg ! bin_of hg x)],
     samples_count := Suc (samples_count hg)\<rparr>"

text \<open>Without a sample the quotients are not numbers, which is \<open>None\<close> here.\<close>

definition histogram_result :: "histogram \<Rightarrow> (rat \<times> rat) list option" where
  "histogram_result hg =
     (if samples_count hg = 0 then None
      else Some (map (\<lambda>i. (bin_positions hg ! i, of_nat (samples_in_bin hg ! i) / of_nat (samples_count hg)))
        [0..<num_bins hg + 2]))"

definition histogram_ok :: "nat \<Rightarrow> rat \<Rightarrow> rat \<Rightarrow> histogram \<Rightarrow> bool" where
  "histogram_ok nb mn mx hg \<longleftrightarrow>
     num_bins hg = nb \<and> bin_positions hg = bin_positions (make_histogram nb mn mx) \<and>
     length (samples_in_bin hg) = nb + 2 \<and> sum_list (samples_in_bin hg) = samples_count hg"

lemma make_histogram_ok: "histogram_ok nb mn mx (make_histogram nb mn mx)"
  by (simp add: histogram_ok_def make_histogram_def sum_list_replicate)

lemma bin_positions_nth:
  assumes "histogram_ok nb mn mx hg" "i < nb + 2"
  shows "bin_positions hg ! i = mn + (of_nat i - 1) * bin_size nb mn mx"
  using assms by (simp add: histogram_ok_def make_histogram_def del: upt_Suc)

text \<open>The bin of a sample by division: the reference the search has to agree with.\<close>

definition bin_index :: "nat \<Rightarrow> rat \<Rightarrow> rat \<Rightarrow> rat \<Rightarrow> nat" where
  "bin_index nb mn mx x =
     (if x < mn then 0 else if x \<ge> mx then nb + 1 else nat \<lfloor>(x - mn) / bin_size nb mn mx\<rfloor> + 1)"

lemma bin_of_is_bin_index:
  assumes ok: "histogram_ok nb mn mx hg" and nb: "0 < nb" and lt: "mn < mx"
  shows "bin_of hg x = bin_index nb mn mx x"
proof -
  define w where "w = bin_size nb mn mx"
  have w: "0 < w" and nw: "of_nat nb * w = mx - mn" using nb lt by (simp_all add: w_def bin_size_def)
  have pos: "i < nb + 2 \<Longrightarrow> bin_positions hg ! i = mn + (of_nat i - 1) * w" for i
    using bin_positions_nth [OF ok] by (simp add: w_def)
  have len: "length (bin_positions hg) = nb + 2" and nbh: "num_bins hg = nb"
    using ok by (auto simp: histogram_ok_def make_histogram_def)
  have first: "bin_positions hg ! Suc 0 = mn" and last: "bin_positions hg ! Suc nb = mx"
    using pos [of 1] pos [of "nb + 1"] nw by simp_all
  show ?thesis
  proof (cases "x < mn \<or> x \<ge> mx")
    case True
    then show ?thesis using lt by (auto simp: bin_of_def bin_index_def nbh first last)
  next
    case False
    define k where "k = nat \<lfloor>(x - mn) / w\<rfloor>"
    have nonneg: "0 \<le> (x - mn) / w" using False w by simp
    have k: "of_nat k \<le> (x - mn) / w" "(x - mn) / w < of_nat k + 1"
      using nonneg by (simp_all add: k_def, linarith+)
    have lower: "mn + of_nat k * w \<le> x" and upper: "x < mn + (of_nat k + 1) * w"
      using k w by (simp_all add: field_simps)
    have "of_nat k * w < of_nat nb * w" using lower nw False by linarith
    then have kn: "k < nb" using w by simp
    have "takeWhile (\<lambda>p. p \<le> x) (bin_positions hg) = take (k + 2) (bin_positions hg)"
    proof (rule takeWhile_eq_take_P_nth)
      show "\<not> bin_positions hg ! (k + 2) \<le> x" using pos [of "k + 2"] kn upper by (simp add: algebra_simps)
      fix i assume "i < k + 2"
      then have "(of_nat i - 1) * w \<le> of_nat k * w" using w by (intro mult_right_mono) auto
      then show "bin_positions hg ! i \<le> x" using pos [of i] \<open>i < k + 2\<close> kn lower by simp
    qed
    then have "upper_bound_index (bin_positions hg) x = k + 2" using kn len by (simp add: upper_bound_index_def)
    then show ?thesis using False by (simp add: bin_of_def bin_index_def nbh first last k_def w_def)
  qed
qed

lemma bin_of_less:
  assumes "histogram_ok nb mn mx hg" "0 < nb" "mn < mx"
  shows "bin_of hg x < nb + 2"
proof (cases "x < mn \<or> x \<ge> mx")
  case True
  then show ?thesis using assms by (auto simp: bin_of_is_bin_index bin_index_def)
next
  case False
  have "0 < bin_size nb mn mx" "of_nat nb * bin_size nb mn mx = mx - mn" using assms by (simp_all add: bin_size_def)
  then have "(x - mn) / bin_size nb mn mx < of_nat nb" using False by (simp add: field_simps)
  then have "\<lfloor>(x - mn) / bin_size nb mn mx\<rfloor> < int nb" by (simp add: floor_less_iff)
  then show ?thesis using False assms by (auto simp: bin_of_is_bin_index bin_index_def)
qed

lemma add_sample_ok:
  assumes "histogram_ok nb mn mx hg" "0 < nb" "mn < mx"
  shows "histogram_ok nb mn mx (add_sample x hg)"
  using assms bin_of_less [OF assms, of x] by (auto simp: histogram_ok_def add_sample_def sum_list_update)

lemma add_sample_samples:
  "samples_in_bin (add_sample x hg) =
     (samples_in_bin hg)[bin_of hg x := Suc (samples_in_bin hg ! bin_of hg x)]"
  by (simp add: add_sample_def)

text \<open>Every bin has as many samples as its interval contains, in whatever order they came.\<close>

lemma add_samples_count:
  assumes "0 < nb" "mn < mx"
  shows "histogram_ok nb mn mx (fold add_sample xs (make_histogram nb mn mx)) \<and>
    (\<forall>i<nb + 2. samples_in_bin (fold add_sample xs (make_histogram nb mn mx)) ! i =
       length (filter (\<lambda>x. bin_index nb mn mx x = i) xs))"
proof (induction xs rule: rev_induct)
  case Nil
  then show ?case by (simp add: make_histogram_ok) (simp add: make_histogram_def del: replicate_Suc)
next
  case (snoc x xs)
  let ?hg = "fold add_sample xs (make_histogram nb mn mx)"
  have ok: "histogram_ok nb mn mx ?hg" using snoc.IH by simp
  have "length (samples_in_bin ?hg) = nb + 2" using ok by (simp add: histogram_ok_def)
  then show ?case
    using snoc.IH add_sample_ok [OF ok assms, of x] bin_of_is_bin_index [OF ok assms, of x]
    by (auto simp: add_sample_samples nth_list_update)
qed

end
