(* ===== verification/Coalescing_Handler.thy ===== *)
theory Coalescing_Handler
  imports Pool_Timer Parcel_Histogram Hpx_Prelude
begin

text \<open>
  The message handler that coalesces the parcels of an action for one destination,
  \<^verbatim>\<open>plugins/parcel/coalescing/coalescing_message_handler.cpp\<close>, with its buffer, \<^verbatim>\<open>hpx/plugins/parcel/message_buffer.hpp\<close>.

  Destinations, parcels and write handlers are arbitrary types. What is handed to the parcelport is the component
  \<open>sent\<close>, one entry for each call of \<open>put_parcel\<close> or \<open>put_parcels\<close>, the latest at the end. Times are
  in nanoseconds; times and counters are unbounded integers. A section that asks for the time has it as an argument \<open>now\<close>: it
  is what the clock shows when the section runs, with the mutex taken.

  An operation gives up its mutex where it touches the timer and before it sends, so it is a sequence of steps, and
  a \<open>pc\<close> says what a thread has to do next. The definitions here are the sections that run under the mutex:
  each gives the next \<open>pc\<close> and the new state, or \<open>None\<close> where an assertion fails. A section that reads a
  flag of the timer reads it once, so the timer may change at any moment before.
\<close>

section \<open>Buffers\<close>

datatype append_state = Normal | First_message | Buffer_now_full | Singleton_buffer

record ('d, 'p, 'f) message_buffer =
  dest :: "'d option"
  messages :: "'p list"
  handlers :: "'f list"
  max_messages :: nat

definition make_message_buffer :: "nat \<Rightarrow> ('d, 'p, 'f) message_buffer" where
  "make_message_buffer n = \<lparr>dest = None, messages = [], handlers = [], max_messages = n\<rparr>"

definition message_buffer_append ::
    "'d \<Rightarrow> 'p \<Rightarrow> 'f \<Rightarrow> ('d, 'p, 'f) message_buffer \<Rightarrow> (append_state \<times> ('d, 'p, 'f) message_buffer) option" where
  "message_buffer_append d p f b =
     (let push = (\<lambda>result b. let b' = b\<lparr>messages := messages b @ [p], handlers := handlers b @ [f]\<rparr> in
        Some (if length (messages b') \<ge> max_messages b' then Buffer_now_full else result, b'))
      in
        if messages b = [] then
          if handlers b = [] then push First_message (b\<lparr>dest := Some d\<rparr>) else None
        else if length (messages b) = length (handlers b) \<and> dest b = Some d then push Normal b
        else None)"

definition message_buffer_empty :: "('d, 'p, 'f) message_buffer \<Rightarrow> bool" where
  "message_buffer_empty b \<longleftrightarrow> messages b = []"

definition message_buffer_clear :: "('d, 'p, 'f) message_buffer \<Rightarrow> ('d, 'p, 'f) message_buffer" where
  "message_buffer_clear b = b\<lparr>dest := None, messages := [], handlers := []\<rparr>"

definition message_buffer_size :: "('d, 'p, 'f) message_buffer \<Rightarrow> nat" where
  "message_buffer_size b = length (messages b)"

definition message_buffer_ok :: "('d, 'p, 'f) message_buffer \<Rightarrow> bool" where
  "message_buffer_ok b \<longleftrightarrow> length (messages b) = length (handlers b)"

definition parcels_for :: "'d option \<Rightarrow> 'p list \<Rightarrow> 'f list \<Rightarrow> ('d option \<times> 'p \<times> 'f) list" where
  "parcels_for d ps fs = map (\<lambda>(p, f). (d, p, f)) (zip ps fs)"

definition buffered :: "('d, 'p, 'f) message_buffer \<Rightarrow> ('d option \<times> 'p \<times> 'f) list" where
  "buffered b = parcels_for (dest b) (messages b) (handlers b)"

lemma make_message_buffer_simps [simp]:
  "message_buffer_ok (make_message_buffer n)" "buffered (make_message_buffer n) = []"
  "messages (make_message_buffer n) = []"
  "max_messages (make_message_buffer n) = n"
  by (simp_all add: message_buffer_ok_def buffered_def parcels_for_def make_message_buffer_def)

lemma buffered_empty: "messages b = [] \<Longrightarrow> buffered b = []"
  by (simp add: buffered_def parcels_for_def)

text \<open>Appending keeps the order, and fails for another destination only.\<close>

lemma buffer_append_outcome:
  assumes ok: "message_buffer_ok b" and d: "messages b = [] \<or> dest b = Some d"
  shows "\<exists>b'. message_buffer_append d p f b =
      Some (if Suc (length (messages b)) \<ge> max_messages b then Buffer_now_full
            else if messages b = [] then First_message else Normal, b') \<and>
    message_buffer_ok b' \<and> buffered b' = buffered b @ [(Some d, p, f)] \<and> dest b' = Some d \<and>
    messages b' = messages b @ [p] \<and> max_messages b' = max_messages b"
  using assms by (auto simp: message_buffer_append_def message_buffer_ok_def buffered_def parcels_for_def Let_def split: option.splits)

lemma buffer_append_fails:
  assumes "message_buffer_ok b"
  shows "message_buffer_append d p f b = None \<longleftrightarrow> messages b \<noteq> [] \<and> dest b \<noteq> Some d"
  using assms by (auto simp: message_buffer_append_def message_buffer_ok_def Let_def)

lemma buffer_append_cases:
  assumes "message_buffer_ok b" "message_buffer_append d p f b = Some (s, b')"
  shows "s = (if Suc (length (messages b)) \<ge> max_messages b then Buffer_now_full
            else if messages b = [] then First_message else Normal)"
    and "message_buffer_ok b'" "buffered b' = buffered b @ [(Some d, p, f)]" "dest b' = Some d"
    and "messages b' = messages b @ [p]" "max_messages b' = max_messages b"
proof -
  have "messages b = [] \<or> dest b = Some d"
    using buffer_append_fails [OF assms(1)] assms(2) by (metis option.distinct(1))
  from buffer_append_outcome [OF assms(1) this, of p f] assms(2)
  show "s = (if Suc (length (messages b)) \<ge> max_messages b then Buffer_now_full
            else if messages b = [] then First_message else Normal)"
    "message_buffer_ok b'" "buffered b' = buffered b @ [(Some d, p, f)]" "dest b' = Some d"
    "messages b' = messages b @ [p]" "max_messages b' = max_messages b"
    by auto
qed

section \<open>The state of the handler\<close>

record ('d, 'p, 'f) coalescing =
  num_coalesced_parcels :: nat
  interval :: "64 word"
  buffer :: "('d, 'p, 'f) message_buffer"
  timer :: pool_timer
  stopped :: bool
  allow_background_flush :: bool
  num_parcels :: int
  reset_num_parcels :: int
  reset_per_message_parcels :: int
  num_messages :: int
  reset_num_messages :: int
  reset_per_message_messages :: int
  started_at :: int
  reset_time_num_parcels :: int
  last_parcel_time :: int
  time_between_parcels :: "histogram option"
  histogram_min_boundary :: int
  histogram_max_boundary :: int
  histogram_num_buckets :: int
  sent :: "('d option \<times> 'p list \<times> 'f list) list"

text \<open>The configuration entries are arguments: what the functions of \<open>detail\<close> have read.\<close>

definition background_flush_allowed :: "string \<Rightarrow> bool" where
  "background_flush_allowed value \<longleftrightarrow> value \<noteq> [] \<and> hd value \<noteq> CHR ''0''"

definition make_coalescing :: "nat \<Rightarrow> 64 word \<Rightarrow> string \<Rightarrow> int \<Rightarrow> ('d, 'p, 'f) coalescing" where
  "make_coalescing num interv bg now =
     \<lparr>num_coalesced_parcels = num, interval = interv, buffer = make_message_buffer num,
      timer = make_pool_timer True True, stopped = False, allow_background_flush = background_flush_allowed bg,
      num_parcels = 0, reset_num_parcels = 0, reset_per_message_parcels = 0,
      num_messages = 0, reset_num_messages = 0, reset_per_message_messages = 0,
      started_at = now, reset_time_num_parcels = 0, last_parcel_time = now,
      time_between_parcels = None, histogram_min_boundary = -1, histogram_max_boundary = -1,
      histogram_num_buckets = -1, sent = []\<rparr>"

definition update_num_messages :: "nat \<Rightarrow> ('d, 'p, 'f) coalescing \<Rightarrow> ('d, 'p, 'f) coalescing" where
  "update_num_messages num h = h\<lparr>num_coalesced_parcels := num\<rparr>"

definition update_interval :: "64 word \<Rightarrow> ('d, 'p, 'f) coalescing \<Rightarrow> ('d, 'p, 'f) coalescing" where
  "update_interval interv h = h\<lparr>interval := interv\<rparr>"

section \<open>Steps of the operations\<close>

datatype flush_mode = Flush_mode_timer | Flush_mode_background_work | Flush_mode_buffer_full

datatype caller = By_put | By_timer | By_flush | By_terminate

datatype counter = Parcels | Messages | Parcels_per_message | Average_time

datatype returned = Nothing | Returned_bool bool | Returned_int int

datatype ('d, 'p, 'f) pc =
    Put_parcel 'd 'p 'f
  | Timer_start int
  | Register_terminate int
  | Register_threw
  | Timer_arm int
  | Timer_handler bool
  | Handler_reset bool
  | Timer_flush
  | Flush flush_mode bool
  | Flush_terminate
  | Stop_timer caller
  | Take_buffer caller
  | Invoke caller "('d, 'p, 'f) message_buffer"
  | Pp_put_parcel 'd 'p 'f
  | Pp_put_parcels "'d option" "'p list" "'f list"
  | Terminate
  | Delete_timer bool
  | Reset_timer bool
  | Update_num_messages nat
  | Update_interval "64 word"
  | Get_counter counter bool
  | Create_histogram int int int
  | Finished returned
  | Threw

text \<open>
  \<open>Register_threw\<close> is a \<open>start\<close> that an exception leaves: it takes the mutex again and gives it up. The flag of
  \<open>Delete_timer\<close> and \<open>Reset_timer\<close> tells whether \<open>terminate\<close> still holds the mutex of the timer. What is left of an operation when its call of \<open>flush_locked\<close> has returned.\<close>

primrec after_flush :: "caller \<Rightarrow> bool \<Rightarrow> ('d, 'p, 'f) pc" where
  "after_flush By_put r = Finished Nothing"
| "after_flush By_timer r = Finished (Returned_bool False)"
| "after_flush By_flush r = Finished (Returned_bool r)"
| "after_flush By_terminate r = Delete_timer False"

definition take_buffer ::
    "caller \<Rightarrow> ('d, 'p, 'f) coalescing \<Rightarrow> ('d, 'p, 'f) pc \<times> ('d, 'p, 'f) coalescing" where
  "take_buffer c h =
     (if message_buffer_empty (buffer h) then (after_flush c False, h)
      else (Invoke c (buffer h),
        h\<lparr>buffer := make_message_buffer (num_coalesced_parcels h), num_messages := num_messages h + 1\<rparr>))"

definition flush_locked ::
    "flush_mode \<Rightarrow> bool \<Rightarrow> bool \<Rightarrow> caller \<Rightarrow> ('d, 'p, 'f) coalescing \<Rightarrow> ('d, 'p, 'f) pc \<times> ('d, 'p, 'f) coalescing" where
  "flush_locked mode stop_buffering cancel_timer c h =
     (if \<not> allow_background_flush h \<and> mode = Flush_mode_background_work then (after_flush c False, h)
      else if \<not> stopped h \<and> stop_buffering then (Stop_timer c, h\<lparr>stopped := True\<rparr>)
      else if cancel_timer then (Stop_timer c, h)
      else take_buffer c h)"

definition microseconds :: "64 word \<Rightarrow> int" where
  "microseconds n = 1000 * sint n"

definition put_parcel ::
    "int \<Rightarrow> 'd \<Rightarrow> 'p \<Rightarrow> 'f \<Rightarrow> ('d, 'p, 'f) coalescing \<Rightarrow> (('d, 'p, 'f) pc \<times> ('d, 'p, 'f) coalescing) option" where
  "put_parcel parcel_time d p f h =
     (let h = h\<lparr>num_parcels := num_parcels h + 1\<rparr>;
          time_since_last_parcel = parcel_time - last_parcel_time h;
          h = h\<lparr>last_parcel_time := parcel_time,
                time_between_parcels := map_option (add_sample (of_int time_since_last_parcel)) (time_between_parcels h)\<rparr>;
          interv = microseconds (interval h)
      in
        if stopped h \<or> message_buffer_empty (buffer h) \<and> time_since_last_parcel > interv
        then Some (Pp_put_parcel d p f, h\<lparr>num_messages := num_messages h + 1\<rparr>)
        else case message_buffer_append d p f (buffer h) of
            None \<Rightarrow> None
          | Some (s, b) \<Rightarrow> let h = h\<lparr>buffer := b\<rparr> in
             Some (case s of
                First_message \<Rightarrow> (Timer_start interv, h)
              | Normal \<Rightarrow> if is_started (timer h) then (Finished Nothing, h) else (Timer_start interv, h)
              | Buffer_now_full \<Rightarrow> flush_locked Flush_mode_buffer_full False True By_put h
              | Singleton_buffer \<Rightarrow> (Threw, h)))"

definition timer_flush :: "('d, 'p, 'f) coalescing \<Rightarrow> ('d, 'p, 'f) pc \<times> ('d, 'p, 'f) coalescing" where
  "timer_flush h =
     (if \<not> message_buffer_empty (buffer h) then flush_locked Flush_mode_timer False False By_timer h
      else (Finished (Returned_bool False), h))"

definition flush :: "flush_mode \<Rightarrow> bool \<Rightarrow> ('d, 'p, 'f) coalescing \<Rightarrow> ('d, 'p, 'f) pc \<times> ('d, 'p, 'f) coalescing" where
  "flush mode stop_buffering h = flush_locked mode stop_buffering True By_flush h"

definition flush_terminate :: "('d, 'p, 'f) coalescing \<Rightarrow> ('d, 'p, 'f) pc \<times> ('d, 'p, 'f) coalescing" where
  "flush_terminate h = flush_locked Flush_mode_timer True True By_terminate h"

section \<open>Counters\<close>

definition get_average_time_between_parcels ::
    "int \<Rightarrow> bool \<Rightarrow> ('d, 'p, 'f) coalescing \<Rightarrow> (int \<times> ('d, 'p, 'f) coalescing) option" where
  "get_average_time_between_parcels now reset h =
     (if num_parcels h = 0 then Some (0, if reset then h\<lparr>started_at := now\<rparr> else h)
      else let n = num_parcels h - reset_time_num_parcels h in
        if n = 0 then Some (0, if reset then h\<lparr>started_at := now\<rparr> else h)
        else if now \<ge> started_at h
        then Some ((now - started_at h) div n,
          if reset then h\<lparr>started_at := now, reset_time_num_parcels := num_parcels h\<rparr> else h)
        else None)"

definition get_parcels_count :: "bool \<Rightarrow> ('d, 'p, 'f) coalescing \<Rightarrow> int \<times> ('d, 'p, 'f) coalescing" where
  "get_parcels_count reset h =
     (num_parcels h - reset_num_parcels h, if reset then h\<lparr>reset_num_parcels := num_parcels h\<rparr> else h)"

definition get_parcels_per_message_count :: "bool \<Rightarrow> ('d, 'p, 'f) coalescing \<Rightarrow> int \<times> ('d, 'p, 'f) coalescing" where
  "get_parcels_per_message_count reset h =
     (let h' = (if reset then h\<lparr>reset_per_message_parcels := num_parcels h,
                  reset_per_message_messages := num_messages h\<rparr> else h) in
      if num_messages h = 0 then (0, h')
      else let np = num_parcels h - reset_per_message_parcels h;
               nm = num_messages h - reset_per_message_messages h
           in (if nm = 0 then 0 else np div nm, h'))"

definition get_messages_count :: "bool \<Rightarrow> ('d, 'p, 'f) coalescing \<Rightarrow> int \<times> ('d, 'p, 'f) coalescing" where
  "get_messages_count reset h =
     (num_messages h - reset_num_messages h, if reset then h\<lparr>reset_num_messages := num_messages h\<rparr> else h)"

fun get_counter ::
    "int \<Rightarrow> counter \<Rightarrow> bool \<Rightarrow> ('d, 'p, 'f) coalescing \<Rightarrow> (int \<times> ('d, 'p, 'f) coalescing) option" where
  "get_counter now Parcels reset h = Some (get_parcels_count reset h)"
| "get_counter now Messages reset h = Some (get_messages_count reset h)"
| "get_counter now Parcels_per_message reset h = Some (get_parcels_per_message_count reset h)"
| "get_counter now Average_time reset h = get_average_time_between_parcels now reset h"

text \<open>
  The histogram. The first request sets it up; later ones keep its boundaries. Reading it ignores \<open>reset\<close>.
  The fractions are multiplied by 1000 and cut off; without a sample their conversion is undefined.
\<close>

datatype histogram_error = Not_initialized | Undefined_conversion

definition get_time_between_parcels_histogram ::
    "bool \<Rightarrow> ('d, 'p, 'f) coalescing \<Rightarrow> histogram_error + int list" where
  "get_time_between_parcels_histogram reset h = (case time_between_parcels h of
       None \<Rightarrow> Inl Not_initialized
     | Some hg \<Rightarrow> (case histogram_result hg of
          None \<Rightarrow> Inl Undefined_conversion
        | Some data \<Rightarrow> Inr ([histogram_min_boundary h, histogram_max_boundary h, histogram_num_buckets h] @
            map (\<lambda>item. \<lfloor>snd item * 1000\<rfloor>) data)))"

definition get_time_between_parcels_histogram_creator ::
    "int \<Rightarrow> int \<Rightarrow> int \<Rightarrow> int \<Rightarrow> ('d, 'p, 'f) coalescing \<Rightarrow> ('d, 'p, 'f) coalescing" where
  "get_time_between_parcels_histogram_creator now min_boundary max_boundary num_buckets h =
     (case time_between_parcels h of
        Some _ \<Rightarrow> h
      | None \<Rightarrow> h\<lparr>histogram_min_boundary := min_boundary, histogram_max_boundary := max_boundary,
          histogram_num_buckets := num_buckets,
          time_between_parcels := Some (make_histogram (nat num_buckets) (of_int min_boundary) (of_int max_boundary)),
          last_parcel_time := now\<rparr>)"

text \<open>
  A histogram that has been set up and has seen parcels gives its parameters and, for every bin, the thousandths of
  the parcels whose distance from the one before falls into it.
\<close>

lemma histogram_values:
  assumes "time_between_parcels h = Some (fold add_sample xs (make_histogram nb mn mx))"
    and "xs \<noteq> []" "0 < nb" "mn < mx"
  shows "get_time_between_parcels_histogram reset h =
    Inr ([histogram_min_boundary h, histogram_max_boundary h, histogram_num_buckets h] @
      map (\<lambda>i. 1000 * int (length (filter (\<lambda>x. bin_index nb mn mx x = i) xs)) div int (length xs)) [0..<nb + 2])"
proof -
  let ?hg = "fold add_sample xs (make_histogram nb mn mx)"
  have ok: "histogram_ok nb mn mx ?hg"
    and count: "\<And>i. i < nb + 2 \<Longrightarrow> samples_in_bin ?hg ! i = length (filter (\<lambda>x. bin_index nb mn mx x = i) xs)"
    using add_samples_count [OF assms(3,4), of xs] by auto
  have "samples_count (fold add_sample ys g) = samples_count g + length ys" for ys g
    by (induction ys arbitrary: g) (simp_all add: add_sample_def)
  from this [of xs] have n: "samples_count ?hg = length xs" by (simp add: make_histogram_def)
  have nb: "num_bins ?hg = nb" using ok by (simp add: histogram_ok_def)
  have "\<lfloor>of_nat a / of_nat b * (1000::rat)\<rfloor> = 1000 * int a div int b" for a b
    using floor_divide_of_int_eq [of "1000 * int a" "int b", where ?'a = rat] by (simp add: mult.commute)
  then show ?thesis
    using assms(2) by (simp add: get_time_between_parcels_histogram_def assms(1) histogram_result_def n nb count
        del: upt_Suc)
qed

end
