(* ===== verification/Coalescing_Tasks.thy ===== *)
theory Coalescing_Tasks
  imports Coalescing_Handler "HOL-Library.Multiset"
begin

text \<open>
  Threads that use one coalescing message handler at the same time: calls of \<open>put_parcel\<close>, of \<open>flush\<close>, of the
  functions for the configuration and the counters, the handlers of the timer and the termination that the timer has
  registered with the runtime. A step of the system is a step of one of the threads, a thread that takes a mutex, a new call, a
  call of a handler by the timer, a new state of the runtime or a change of the clock. A failing assertion and the use of
  a timer that has been deleted end everything.

  The two mutexes, that of the message handler and that of its timer, are part of the state: the step of a thread
  that runs under a mutex needs a \<open>Lock\<close> before it, which waits until the mutex is free, also when it is the thread itself that
  holds it; the mutex is given up with the step unless what comes next is still under it. Between the two
  the threads that do not need the mutex go on: the handler of the timer, the registration with the runtime, the
  parcelport and a \<open>terminate\<close> that deletes the timer without its mutex.
\<close>

section \<open>Threads\<close>

definition after_start ::
    "int \<Rightarrow> start_result \<times> pool_timer \<Rightarrow> ('d, 'p, 'f) coalescing \<Rightarrow>
     (('d, 'p, 'f) pc \<times> ('d, 'p, 'f) pc list \<times> ('d, 'p, 'f) coalescing) option" where
  "after_start d r h = (case r of
       (Start_returns b, t) \<Rightarrow> Some (Finished Nothing, [], h\<lparr>timer := t\<rparr>)
     | (Start_registers, t) \<Rightarrow> Some (Register_terminate d, [], h\<lparr>timer := t\<rparr>)
     | (Timer_gone, t) \<Rightarrow> None
     | (Timer_freed, t) \<Rightarrow> None)"

text \<open>
  Invoking a buffer: \<open>self\<close> tells whether this is an HPX thread. Otherwise a new one is created for the call of the
  parcelport.
\<close>

definition invoke_buffer ::
    "bool \<Rightarrow> caller \<Rightarrow> ('d, 'p, 'f) message_buffer \<Rightarrow> ('d, 'p, 'f) coalescing \<Rightarrow>
     ('d, 'p, 'f) pc \<times> ('d, 'p, 'f) pc list \<times> ('d, 'p, 'f) coalescing" where
  "invoke_buffer self c b h =
     (if messages b = [] then (after_flush c True, [], h)
      else if self then (after_flush c True, [], h\<lparr>sent := sent h @ [(dest b, messages b, handlers b)]\<rparr>)
      else (after_flush c True, [Pp_put_parcels (dest b) (messages b) (handlers b)], h))"

fun thread_step ::
    "int option \<Rightarrow> int \<Rightarrow> bool \<Rightarrow> ('d, 'p, 'f) pc \<Rightarrow> ('d, 'p, 'f) coalescing \<Rightarrow>
     (('d, 'p, 'f) pc \<times> ('d, 'p, 'f) pc list \<times> ('d, 'p, 'f) coalescing) option" where
  "thread_step rt now self (Put_parcel d p f) h = map_option (\<lambda>(pc, h). (pc, [], h)) (put_parcel now d p f h)"
| "thread_step rt now self (Timer_start d) h = after_start d (start d (timer h)) h"
| "thread_step rt now self (Register_terminate d) h = (case register_terminate rt (timer h) of
      None \<Rightarrow> Some (Register_threw, [], h)
    | Some t \<Rightarrow> Some (Timer_arm d, [], h\<lparr>timer := t\<rparr>))"
| "thread_step rt now self Register_threw h = Some (Threw, [], h)"
| "thread_step rt now self (Timer_arm d) h = after_start d (arm d (timer h)) h"
| "thread_step rt now self (Timer_handler e) h =
    Some (if handler_proceeds (timer h) then Handler_reset e else Finished Nothing, [], h)"
| "thread_step rt now self (Handler_reset e) h =
    Some (if e then Finished Nothing else Timer_flush, [], h\<lparr>timer := handler_reset (timer h)\<rparr>)"
| "thread_step rt now self Timer_flush h = (let (pc, h) = timer_flush h in Some (pc, [], h))"
| "thread_step rt now self (Flush mode stop_buffering) h = (let (pc, h) = flush mode stop_buffering h in Some (pc, [], h))"
| "thread_step rt now self Flush_terminate h = (let (pc, h) = flush_terminate h in Some (pc, [], h))"
| "thread_step rt now self (Stop_timer c) h =
    map_option (\<lambda>(_, t). (Take_buffer c, [], h\<lparr>timer := t\<rparr>)) (stop (timer h))"
| "thread_step rt now self (Take_buffer c) h = (let (pc, h) = take_buffer c h in Some (pc, [], h))"
| "thread_step rt now self (Invoke c b) h = Some (invoke_buffer self c b h)"
| "thread_step rt now self (Pp_put_parcel d p f) h =
    Some (Finished Nothing, [], h\<lparr>sent := sent h @ [(Some d, [p], [f])]\<rparr>)"
| "thread_step rt now self (Pp_put_parcels d ps fs) h =
    Some (Finished Nothing, [], h\<lparr>sent := sent h @ [(d, ps, fs)]\<rparr>)"
| "thread_step rt now self Terminate h =
    map_option (\<lambda>(b, t). (if b then Flush_terminate else Delete_timer True, [], h\<lparr>timer := t\<rparr>)) (terminate (timer h))"
| "thread_step rt now self (Delete_timer l) h =
    map_option (\<lambda>t. (Reset_timer l, [], h\<lparr>timer := t\<rparr>)) (delete_timer (timer h))"
| "thread_step rt now self (Reset_timer l) h = Some (Finished Nothing, [], h\<lparr>timer := reset_timer (timer h)\<rparr>)"
| "thread_step rt now self (Update_num_messages n) h = Some (Finished Nothing, [], update_num_messages n h)"
| "thread_step rt now self (Update_interval n) h = Some (Finished Nothing, [], update_interval n h)"
| "thread_step rt now self (Get_counter k reset) h =
    map_option (\<lambda>(v, h). (Finished (Returned_int v), [], h)) (get_counter now k reset h)"
| "thread_step rt now self (Create_histogram mn mx nb) h =
    Some (Finished Nothing, [], get_time_between_parcels_histogram_creator now mn mx nb h)"
| "thread_step rt now self (Finished r) h = Some (Finished r, [], h)"
| "thread_step rt now self Threw h = Some (Threw, [], h)"

fun finished :: "('d, 'p, 'f) pc \<Rightarrow> bool" where
  "finished (Finished r) = True"
| "finished Threw = True"
| "finished _ = False"

text \<open>The calls that come from outside. The calls of \<open>terminate\<close> are those that have been registered and that of the destructor.\<close>

fun is_call :: "('d, 'p, 'f) pc \<Rightarrow> bool" where
  "is_call (Put_parcel d p f) = True"
| "is_call (Flush mode stop_buffering) = True"
| "is_call Terminate = True"
| "is_call (Update_num_messages n) = True"
| "is_call (Update_interval n) = True"
| "is_call (Get_counter k reset) = True"
| "is_call (Create_histogram mn mx nb) = True"
| "is_call _ = False"

section \<open>Mutexes\<close>

datatype handler_mutex = Handler_mutex | Timer_mutex

text \<open>The mutex that a step has to take before it runs, and those that the thread still holds from the step before.\<close>

fun takes :: "('d, 'p, 'f) pc \<Rightarrow> handler_mutex option" where
  "takes (Put_parcel d p f) = Some Handler_mutex"
| "takes (Timer_start d) = Some Timer_mutex"
| "takes Register_threw = Some Timer_mutex"
| "takes (Timer_arm d) = Some Timer_mutex"
| "takes Timer_flush = Some Handler_mutex"
| "takes (Flush mode stop_buffering) = Some Handler_mutex"
| "takes Flush_terminate = Some Handler_mutex"
| "takes (Stop_timer c) = Some Timer_mutex"
| "takes (Take_buffer c) = Some Handler_mutex"
| "takes Terminate = Some Timer_mutex"
| "takes (Update_num_messages n) = Some Handler_mutex"
| "takes (Update_interval n) = Some Handler_mutex"
| "takes (Get_counter k reset) = Some Handler_mutex"
| "takes (Create_histogram mn mx nb) = Some Handler_mutex"
| "takes _ = None"

fun holds :: "('d, 'p, 'f) pc \<Rightarrow> handler_mutex list" where
  "holds (Delete_timer l) = (if l then [Timer_mutex] else [])"
| "holds (Reset_timer l) = (if l then [Timer_mutex] else [])"
| "holds _ = []"

text \<open>The mutexes are held by threads, which are known by their position.\<close>

type_synonym lock_table = "(handler_mutex \<times> nat) list"

definition may_lock :: "('d, 'p, 'f) pc \<Rightarrow> lock_table \<Rightarrow> bool" where
  "may_lock pc ls \<longleftrightarrow> (case takes pc of None \<Rightarrow> False | Some m \<Rightarrow> m \<notin> fst ` set ls)"

definition may_run :: "nat \<Rightarrow> ('d, 'p, 'f) pc \<Rightarrow> lock_table \<Rightarrow> bool" where
  "may_run i pc ls \<longleftrightarrow> (case takes pc of None \<Rightarrow> True | Some m \<Rightarrow> m \<notin> set (holds pc) \<and> (m, i) \<in> set ls)"

definition give_up :: "nat \<Rightarrow> ('d, 'p, 'f) pc \<Rightarrow> lock_table \<Rightarrow> lock_table" where
  "give_up i pc ls = filter (\<lambda>(m, j). j = i \<longrightarrow> m \<in> set (holds pc)) ls"

section \<open>The system\<close>

record ('d, 'p, 'f) system =
  handler :: "('d, 'p, 'f) coalescing"
  threads :: "(bool \<times> ('d, 'p, 'f) pc) list"
  locks :: lock_table
  clock :: int
  runtime_state :: "int option"
  failed :: bool

datatype ('d, 'p, 'f) event =
    Lock nat
  | Run nat
  | Call bool "('d, 'p, 'f) pc"
  | Deliver nat bool
  | Runtime_state "int option"
  | Tick int

fun system_step ::
    "(timer_history \<Rightarrow> nat \<Rightarrow> bool \<Rightarrow> bool) \<Rightarrow> ('d, 'p, 'f) event \<Rightarrow> ('d, 'p, 'f) system \<Rightarrow>
     ('d, 'p, 'f) system option" where
  "system_step deliver (Lock i) s =
     (if failed s \<or> length (threads s) \<le> i \<or> \<not> may_lock (snd (threads s ! i)) (locks s) then None
      else Some (s\<lparr>locks := (the (takes (snd (threads s ! i))), i) # locks s\<rparr>))"
| "system_step deliver (Run i) s =
     (if failed s \<or> length (threads s) \<le> i \<or> finished (snd (threads s ! i)) \<or>
         \<not> may_run i (snd (threads s ! i)) (locks s) then None
      else case thread_step (runtime_state s) (clock s) (fst (threads s ! i)) (snd (threads s ! i)) (handler s) of
          None \<Rightarrow> Some (s\<lparr>failed := True\<rparr>)
        | Some (pc, new, h) \<Rightarrow> Some (s\<lparr>handler := h,
            threads := (threads s)[i := (fst (threads s ! i), pc)] @ map (Pair True) new,
            locks := give_up i pc (locks s)\<rparr>))"
| "system_step deliver (Call self pc) s =
     (if failed s \<or> \<not> is_call pc then None else Some (s\<lparr>threads := threads s @ [(self, pc)]\<rparr>))"
| "system_step deliver (Deliver n e) s =
     (if failed s \<or> \<not> deliver (timer_ops (timer (handler s))) n e then None
      else Some (s\<lparr>handler := (handler s)\<lparr>timer := (timer (handler s))
             \<lparr>timer_ops := Handler_called n e # timer_ops (timer (handler s))\<rparr>\<rparr>,
           threads := threads s @ [(False, Timer_handler e)]\<rparr>))"
| "system_step deliver (Runtime_state rt) s = (if failed s then None else Some (s\<lparr>runtime_state := rt\<rparr>))"
| "system_step deliver (Tick t) s = (if failed s then None else Some (s\<lparr>clock := clock s + t\<rparr>))"

fun run_events ::
    "(timer_history \<Rightarrow> nat \<Rightarrow> bool \<Rightarrow> bool) \<Rightarrow> ('d, 'p, 'f) event list \<Rightarrow> ('d, 'p, 'f) system \<Rightarrow>
     ('d, 'p, 'f) system option" where
  "run_events deliver [] s = Some s"
| "run_events deliver (e # es) s = Option.bind (system_step deliver e s) (run_events deliver es)"

definition initial_system :: "nat \<Rightarrow> 64 word \<Rightarrow> string \<Rightarrow> int \<Rightarrow> int option \<Rightarrow> ('d, 'p, 'f) system" where
  "initial_system num interv bg now rt =
     \<lparr>handler = make_coalescing num interv bg now, threads = [], locks = [], clock = now,
      runtime_state = rt, failed = False\<rparr>"

text \<open>Nothing is left to run: every thread has finished, and the timer is not going to call.\<close>

definition at_rest :: "(timer_history \<Rightarrow> nat \<Rightarrow> bool \<Rightarrow> bool) \<Rightarrow> ('d, 'p, 'f) system \<Rightarrow> bool" where
  "at_rest deliver s \<longleftrightarrow>
     (\<forall>x\<in>set (threads s). finished (snd x)) \<and> (\<forall>n e. \<not> deliver (timer_ops (timer (handler s))) n e)"

end
