(* ===== verification/Coalescing_Delivery.thy ===== *)
theory Coalescing_Delivery
  imports Coalescing_Tasks
begin

text \<open>
  What a coalescing message handler promises to those who put parcels: every parcel is handed to the
  parcelport exactly once, and none is forgotten in the buffer.
\<close>

section \<open>Threads that are going to flush\<close>

text \<open>
  \<open>has ts P\<close>: some thread is at a point that satisfies \<open>P\<close>. The threads of a step are the others, before and behind,
  and the one that runs.
\<close>

definition has :: "(bool \<times> ('d, 'p, 'f) pc) list \<Rightarrow> (('d, 'p, 'f) pc \<Rightarrow> bool) \<Rightarrow> bool" where
  "has ts P \<longleftrightarrow> (\<exists>x\<in>set ts. P (snd x))"

lemma has_simps [simp]:
  "has [] P \<longleftrightarrow> False" "has (x # ts) P \<longleftrightarrow> P (snd x) \<or> has ts P" "has (ts @ us) P \<longleftrightarrow> has ts P \<or> has us P"
  by (auto simp: has_def)

fun flushing :: "('d, 'p, 'f) pc \<Rightarrow> bool" where
  "flushing (Stop_timer c) = True"
| "flushing (Take_buffer c) = True"
| "flushing _ = False"

fun expired :: "('d, 'p, 'f) pc \<Rightarrow> bool" where
  "expired (Timer_handler e) = (\<not> e)"
| "expired (Handler_reset e) = (\<not> e)"
| "expired _ = False"

fun terminating :: "('d, 'p, 'f) pc \<Rightarrow> bool" where
  "terminating Flush_terminate = True"
| "terminating _ = False"

fun deleting :: "('d, 'p, 'f) pc \<Rightarrow> bool" where
  "deleting (Delete_timer l) = True"
| "deleting (Reset_timer l) = True"
| "deleting (Stop_timer c) = (c = By_terminate)"
| "deleting (Take_buffer c) = (c = By_terminate)"
| "deleting (Invoke c b) = (c = By_terminate)"
| "deleting Flush_terminate = True"
| "deleting _ = False"

fun starting :: "('d, 'p, 'f) pc \<Rightarrow> bool" where
  "starting (Timer_start d) = True"
| "starting (Register_terminate d) = True"
| "starting (Timer_arm d) = True"
| "starting Timer_flush = True"
| "starting _ = False"

fun threw :: "('d, 'p, 'f) pc \<Rightarrow> bool" where
  "threw Threw = True"
| "threw Register_threw = True"
| "threw _ = False"

text \<open>
  The invariant. The timer of a handler that still buffers is terminated by a thread that is going to stop the
  buffering; what is in the buffer of a handler that has stopped buffering is about to be taken; a started timer has a wait that
  will end, or its handler is on its way. So a parcel in the buffer has a thread that takes it, or starts the
  timer, or the timer is armed, except when the registration with the runtime threw an exception.
\<close>

definition delivery_inv :: "('d, 'p, 'f) coalescing \<Rightarrow> (bool \<times> ('d, 'p, 'f) pc) list \<Rightarrow> bool" where
  "delivery_inv h ts \<longleftrightarrow>
     message_buffer_ok (buffer h) \<and> timer_ok (timer h) \<and> on_term (timer h) \<and>
     (has ts deleting \<longrightarrow> is_terminated (timer h)) \<and>
     (is_terminated (timer h) \<longrightarrow> stopped h \<or> has ts terminating) \<and>
     (stopped h \<and> messages (buffer h) \<noteq> [] \<longrightarrow> has ts flushing) \<and>
     (is_started (timer h) \<and> \<not> is_terminated (timer h) \<longrightarrow>
        uncancelled (timer_ops (timer h)) \<noteq> [] \<or> has ts expired) \<and>
     (messages (buffer h) \<noteq> [] \<longrightarrow>
        has ts flushing \<or> has ts expired \<or> has ts terminating \<or> has ts starting \<or> has ts threw \<or>
        uncancelled (timer_ops (timer h)) \<noteq> [])"

lemma thread_at:
  assumes "i < length ts"
  shows "\<exists>us vs. ts = us @ ts ! i # vs \<and> (\<forall>x. ts[i := x] = us @ x # vs)"
  using assms by (metis id_take_nth_drop upd_conv_take_nth_drop)

lemma put_parcel_frame:
  assumes "put_parcel now d p f h = Some (pc, h')"
  shows "timer h' = timer h" "stopped h' = stopped h" "num_parcels h' = num_parcels h + 1" "sent h' = sent h"
  using assms
  by (auto simp: put_parcel_def Let_def flush_locked_def split: if_splits option.splits prod.splits append_state.splits)

lemma put_parcel_cases:
  assumes put: "put_parcel now d p f h = Some (pc, h')" and ok: "message_buffer_ok (buffer h)"
  obtains (direct) "pc = Pp_put_parcel d p f" "buffer h' = buffer h" "num_messages h' = num_messages h + 1"
  | (buffers) "\<not> stopped h" "message_buffer_ok (buffer h')" "buffered (buffer h') = buffered (buffer h) @ [(Some d, p, f)]"
      "messages (buffer h') = messages (buffer h) @ [p]" "max_messages (buffer h') = max_messages (buffer h)"
      "num_messages h' = num_messages h"
      "pc = (if Suc (length (messages (buffer h))) \<ge> max_messages (buffer h) then Stop_timer By_put
        else if messages (buffer h) = [] \<or> \<not> is_started (timer h) then Timer_start (microseconds (interval h))
        else Finished Nothing)"
proof (cases "stopped h \<or> message_buffer_empty (buffer h) \<and> now - last_parcel_time h > microseconds (interval h)")
  case True
  then show ?thesis using put by (intro direct) (auto simp: put_parcel_def Let_def)
next
  case False
  then obtain s b where ap: "message_buffer_append d p f (buffer h) = Some (s, b)"
    using put by (auto simp: put_parcel_def Let_def split: option.splits)
  note b = buffer_append_cases [OF ok ap]
  have "buffer h' = b \<and> num_messages h' = num_messages h \<and> pc = (case s of First_message \<Rightarrow> Timer_start (microseconds (interval h))
       | Normal \<Rightarrow> if is_started (timer h) then Finished Nothing else Timer_start (microseconds (interval h))
       | Buffer_now_full \<Rightarrow> Stop_timer By_put | Singleton_buffer \<Rightarrow> Threw)"
    using put False by (auto simp: put_parcel_def Let_def ap flush_locked_def split: append_state.splits if_splits)
  then show ?thesis using False b by (intro buffers) auto
qed

lemma put_parcel_fails:
  assumes "message_buffer_ok (buffer h)"
  shows "put_parcel now d p f h = None \<longrightarrow> messages (buffer h) \<noteq> [] \<and> dest (buffer h) \<noteq> Some d"
  using buffer_append_fails [OF assms, of d p f]
  by (auto simp: put_parcel_def Let_def split: if_splits option.splits prod.splits)

lemma put_parcel_inv:
  assumes inv: "delivery_inv h (us @ (self, Put_parcel d p f) # vs)" and put: "put_parcel now d p f h = Some (pc, h')"
  shows "delivery_inv h' (us @ (self, pc) # vs)"
proof -
  have "message_buffer_ok (buffer h)" using inv by (simp add: delivery_inv_def)
  from put this show ?thesis
  proof (cases rule: put_parcel_cases)
    case direct
    then show ?thesis using inv put_parcel_frame [OF put] by (simp add: delivery_inv_def)
  next
    case buffers
    then show ?thesis using inv put_parcel_frame [OF put] by (auto simp: delivery_inv_def)
  qed
qed

lemma take_buffer_cases:
  assumes "take_buffer c h = (pc, h')"
  obtains (empty) "messages (buffer h) = []" "pc = after_flush c False" "h' = h"
  | (taken) "messages (buffer h) \<noteq> []" "pc = Invoke c (buffer h)"
      "h' = h\<lparr>buffer := make_message_buffer (num_coalesced_parcels h), num_messages := num_messages h + 1\<rparr>"
  using assms by (auto simp: take_buffer_def message_buffer_empty_def split: if_splits)

lemma after_flush_points [simp]:
  "\<not> flushing (after_flush c r)" "\<not> expired (after_flush c r)" "\<not> terminating (after_flush c r)"
  "\<not> starting (after_flush c r)" "\<not> threw (after_flush c r)" "deleting (after_flush c r) \<longleftrightarrow> c = By_terminate"
  by (cases c; simp)+

lemma take_buffer_inv:
  assumes inv: "delivery_inv h (us @ (self, pc0) # vs)" and take: "take_buffer c h = (pc, h')"
    and c: "c = By_terminate \<longrightarrow> is_terminated (timer h)"
    and pc0: "\<not> expired pc0" "\<not> terminating pc0"
  shows "delivery_inv h' (us @ (self, pc) # vs)"
  using take
proof (cases rule: take_buffer_cases)
  case empty
  then show ?thesis using inv c pc0 by (simp add: delivery_inv_def)
next
  case taken
  then show ?thesis using inv c pc0 by (simp add: delivery_inv_def)
qed

lemma flush_locked_inv:
  assumes inv: "delivery_inv h (us @ (self, pc0) # vs)" and step: "flush_locked mode sb ct c h = (pc, h')"
    and c: "c = By_terminate \<longrightarrow> is_terminated (timer h)"
    and pc0: "\<not> expired pc0" "\<not> flushing pc0" "terminating pc0 \<longrightarrow> sb \<and> ct \<and> mode \<noteq> Flush_mode_background_work"
      "starting pc0 \<longrightarrow> \<not> sb \<and> \<not> ct \<and> mode \<noteq> Flush_mode_background_work" "\<not> threw pc0"
  shows "delivery_inv h' (us @ (self, pc) # vs)"
proof -
  consider (refused) "\<not> allow_background_flush h" "mode = Flush_mode_background_work"
    | (stops) "allow_background_flush h \<or> mode \<noteq> Flush_mode_background_work" "\<not> stopped h" "sb"
    | (cancels) "allow_background_flush h \<or> mode \<noteq> Flush_mode_background_work" "stopped h \<or> \<not> sb" "ct"
    | (takes) "allow_background_flush h \<or> mode \<noteq> Flush_mode_background_work" "stopped h \<or> \<not> sb" "\<not> ct"
    by blast
  then show ?thesis
  proof cases
    case refused
    then have "pc = after_flush c False \<and> h' = h" using step by (simp add: flush_locked_def)
    then show ?thesis using inv c pc0 refused by (simp add: delivery_inv_def)
  next
    case stops
    then have "pc = Stop_timer c \<and> h' = h\<lparr>stopped := True\<rparr>" using step by (auto simp: flush_locked_def)
    then show ?thesis using inv c pc0 stops by (simp add: delivery_inv_def)
  next
    case cancels
    then have "pc = Stop_timer c \<and> h' = h" using step by (auto simp: flush_locked_def)
    then show ?thesis using inv c pc0 cancels by (cases "terminating pc0") (simp_all add: delivery_inv_def)
  next
    case takes
    then have "take_buffer c h = (pc, h')" using step by (auto simp: flush_locked_def)
    then show ?thesis using take_buffer_inv [OF inv _ c] pc0 takes by simp
  qed
qed

lemma after_start_inv:
  assumes inv: "delivery_inv h (us @ (self, pc0) # vs)" and pc0: "pc0 = Timer_start d \<or> pc0 = Timer_arm d"
    and step: "after_start d (if pc0 = Timer_arm d then arm d (timer h) else start d (timer h)) h = Some (pc, new, h')"
  shows "delivery_inv h' (us @ (self, pc) # vs) \<and> new = []"
proof -
  have armed: "delivery_inv h' (us @ (self, pc) # vs) \<and> new = []" if "after_start d (arm d (timer h)) h = Some (pc, new, h')"
  proof (cases d "timer h" rule: arm_cases)
    case gone
    then show ?thesis using that by (simp add: after_start_def)
  next
    case freed
    then show ?thesis using that by (simp add: after_start_def)
  next
    case armed
    then have "pc = Finished Nothing \<and> new = [] \<and> h' = h\<lparr>timer := timer h\<lparr>is_stopped := False, is_started := True,
        timer_ops := Async_wait # Expires_from_now d # timer_ops (timer h)\<rparr>\<rparr>"
      using that by (auto simp: after_start_def)
    then show ?thesis using inv pc0 armed(1) by (elim disjE) (simp_all add: delivery_inv_def timer_ok_def)
  qed
  show ?thesis
  proof (cases "pc0 = Timer_arm d")
    case True
    then show ?thesis using armed step by simp
  next
    case False
    then have pc0: "pc0 = Timer_start d" and step: "after_start d (start d (timer h)) h = Some (pc, new, h')"
      using assms by auto
    show ?thesis
    proof (cases d "timer h" rule: start_cases)
      case refused
      then have "pc = Finished Nothing" "h' = h\<lparr>timer := timer h\<rparr>" "new = []" using step by (auto simp: after_start_def)
      then show ?thesis using inv refused(1) pc0 by (auto simp: delivery_inv_def)
    next
      case registers
      then show ?thesis using step inv pc0 by (auto simp: after_start_def delivery_inv_def timer_ok_def)
    next
      case arms
      then show ?thesis using armed step by simp
    qed
  qed
qed

lemma stop_timer_inv:
  assumes inv: "delivery_inv h (us @ (self, Stop_timer c) # vs)" and step: "stop (timer h) = Some (r, t)"
  shows "delivery_inv (h\<lparr>timer := t\<rparr>) (us @ (self, Take_buffer c) # vs)"
proof -
  have "timer_ok (timer h)" using inv by (simp add: delivery_inv_def)
  then show ?thesis
  proof (cases rule: stop_cases)
    case idle
    then show ?thesis using inv step by (simp add: delivery_inv_def)
  next
    case stops
    then have "t = timer h\<lparr>is_started := False, is_stopped := True, timer_ops := Timer_cancel # timer_ops (timer h)\<rparr>"
      using step by simp
    then show ?thesis using inv stops(1,3) by (simp add: delivery_inv_def timer_ok_def)
  qed
qed

lemma delete_timer_inv:
  assumes inv: "delivery_inv h (us @ (self, Delete_timer l) # vs)" and step: "delete_timer (timer h) = Some t"
  shows "delivery_inv (h\<lparr>timer := t\<rparr>) (us @ (self, Reset_timer l) # vs)"
  using step
proof (cases rule: delete_timer_cases)
  case null
  then show ?thesis using inv by (simp add: delivery_inv_def)
next
  case deleted
  then show ?thesis using inv by (auto simp: delivery_inv_def timer_ok_def)
qed

lemma reset_timer_inv:
  assumes "delivery_inv h (us @ (self, Reset_timer l) # vs)"
  shows "delivery_inv (h\<lparr>timer := reset_timer (timer h)\<rparr>) (us @ (self, Finished Nothing) # vs)"
  using assms by (auto simp: delivery_inv_def timer_ok_def reset_timer_def)

lemma terminate_inv:
  assumes inv: "delivery_inv h (us @ (self, Terminate) # vs)" and step: "terminate (timer h) = Some (b, t)"
  shows "delivery_inv (h\<lparr>timer := t\<rparr>) (us @ (self, if b then Flush_terminate else Delete_timer True) # vs)"
proof (cases "is_terminated (timer h)")
  case True
  then show ?thesis using step inv by (auto simp: terminate_stops_nothing delivery_inv_def)
next
  case False
  then have "b \<and> t = timer h\<lparr>is_terminated := True\<rparr>"
    using step inv by (auto simp: terminate_stops_nothing delivery_inv_def)
  then show ?thesis using inv by (simp add: delivery_inv_def timer_ok_def)
qed

lemma handler_inv:
  assumes inv: "delivery_inv h (us @ (self, Timer_handler e) # vs)"
  shows "delivery_inv h (us @ (self, if handler_proceeds (timer h) then Handler_reset e else Finished Nothing) # vs)"
proof (cases "handler_proceeds (timer h)")
  case True
  then show ?thesis using inv by (simp add: delivery_inv_def)
next
  case False
  then have "is_stopped (timer h)" "is_terminated (timer h)" by (auto simp: handler_proceeds_def)
  then show ?thesis using inv False by (auto simp: delivery_inv_def timer_ok_def)
qed

lemma handler_reset_inv:
  assumes inv: "delivery_inv h (us @ (self, Handler_reset e) # vs)"
  shows "delivery_inv (h\<lparr>timer := handler_reset (timer h)\<rparr>)
    (us @ (self, if e then Finished Nothing else Timer_flush) # vs)"
  using inv by (cases e) (simp_all add: delivery_inv_def timer_ok_def handler_reset_def)

lemma register_inv:
  assumes inv: "delivery_inv h (us @ (self, Register_terminate d) # vs)"
    and step: "thread_step rt now self (Register_terminate d) h = Some (pc, new, h')"
  shows "delivery_inv h' (us @ (self, pc) # vs) \<and> new = []"
proof (cases "register_terminate rt (timer h)")
  case None
  then show ?thesis using inv step by (simp add: delivery_inv_def)
next
  case (Some t)
  then obtain b where t: "t = timer h\<lparr>registered := b # registered (timer h)\<rparr>" using register_terminate_frame by blast
  have "pc = Timer_arm d \<and> new = [] \<and> h' = h\<lparr>timer := t\<rparr>" using step Some by auto
  then show ?thesis using inv by (simp add: delivery_inv_def timer_ok_def t)
qed

text \<open>What the counters and the configuration change is not part of the invariant.\<close>

lemma delivery_inv_cong:
  assumes "buffer h' = buffer h" "timer h' = timer h" "stopped h' = stopped h"
  shows "delivery_inv h' ts = delivery_inv h ts"
  using assms by (simp add: delivery_inv_def)

lemma get_counter_frame:
  assumes "get_counter now k reset h = Some (v, h')"
  shows "buffer h' = buffer h \<and> timer h' = timer h \<and> stopped h' = stopped h \<and> sent h' = sent h \<and>
    num_parcels h' = num_parcels h \<and> num_messages h' = num_messages h"
  using assms
  by (cases k) (auto simp: get_parcels_count_def get_messages_count_def get_parcels_per_message_count_def
      get_average_time_between_parcels_def Let_def split: if_splits)

lemma create_histogram_frame:
  "buffer (get_time_between_parcels_histogram_creator now mn mx nb h) = buffer h"
  "timer (get_time_between_parcels_histogram_creator now mn mx nb h) = timer h"
  "stopped (get_time_between_parcels_histogram_creator now mn mx nb h) = stopped h"
  "sent (get_time_between_parcels_histogram_creator now mn mx nb h) = sent h"
  "num_parcels (get_time_between_parcels_histogram_creator now mn mx nb h) = num_parcels h"
  "num_messages (get_time_between_parcels_histogram_creator now mn mx nb h) = num_messages h"
  by (simp_all add: get_time_between_parcels_histogram_creator_def split: option.split)

text \<open>A thread that moves to a point that is as good as the one it leaves.\<close>

lemma delivery_inv_move:
  assumes "delivery_inv h (us @ (self, pc0) # vs)" "buffer h' = buffer h" "timer h' = timer h" "stopped h' = stopped h"
    and "\<not> flushing pc0" "\<not> expired pc0" "\<not> terminating pc0" "\<not> starting pc0" "\<not> threw pc0" "deleting pc \<longrightarrow> deleting pc0"
  shows "delivery_inv h' (us @ (self, pc) # vs)"
  using assms by (simp add: delivery_inv_def) blast

lemma thread_step_inv:
  assumes inv: "delivery_inv h (us @ (self, pc0) # vs)" and step: "thread_step rt now self pc0 h = Some (pc, new, h')"
  shows "delivery_inv h' (us @ (self, pc) # vs @ map (Pair True) new)"
proof (cases pc0)
  case (Put_parcel d p f)
  then show ?thesis using inv step put_parcel_inv by (fastforce split: prod.splits)
next
  case (Timer_start d)
  then show ?thesis using inv step after_start_inv [of h us self "Timer_start d" vs d] by simp
next
  case (Register_terminate d)
  then show ?thesis using register_inv [of h us self d vs rt now pc new h'] inv step by simp
next
  case (Timer_arm d)
  then show ?thesis using inv step after_start_inv [of h us self "Timer_arm d" vs d] by simp
next
  case (Timer_handler e)
  then show ?thesis using handler_inv [of h us self e vs] inv step by auto
next
  case (Handler_reset e)
  then show ?thesis using handler_reset_inv [of h us self e vs] inv step by auto
next
  case Timer_flush
  show ?thesis
  proof (cases "messages (buffer h) = []")
    case True
    then have "pc = Finished (Returned_bool False) \<and> new = [] \<and> h' = h"
      using step Timer_flush by (auto simp: timer_flush_def message_buffer_empty_def)
    then show ?thesis using inv True Timer_flush by (simp add: delivery_inv_def)
  next
    case False
    then have "flush_locked Flush_mode_timer False False By_timer h = (pc, h')" and new: "new = []"
      using step Timer_flush by (simp_all add: timer_flush_def message_buffer_empty_def split: prod.splits)
    from this(1) have "delivery_inv h' (us @ (self, pc) # vs)"
      by (rule flush_locked_inv [OF inv]) (simp_all add: Timer_flush)
    then show ?thesis using new by simp
  qed
next
  case (Flush mode sb)
  then have "flush_locked mode sb True By_flush h = (pc, h')" and new: "new = []"
    using step by (simp_all add: flush_def split: prod.splits)
  from this(1) have "delivery_inv h' (us @ (self, pc) # vs)" by (rule flush_locked_inv [OF inv]) (simp_all add: Flush)
  then show ?thesis using new by simp
next
  case Flush_terminate
  then have tm: "is_terminated (timer h)" using inv by (simp add: delivery_inv_def)
  have "flush_locked Flush_mode_timer True True By_terminate h = (pc, h')" and new: "new = []"
    using step Flush_terminate by (simp_all add: flush_terminate_def split: prod.splits)
  from this(1) have "delivery_inv h' (us @ (self, pc) # vs)"
    by (rule flush_locked_inv [OF inv]) (simp_all add: Flush_terminate tm)
  then show ?thesis using new by simp
next
  case (Stop_timer c)
  then show ?thesis using stop_timer_inv inv step by fastforce
next
  case (Take_buffer c)
  then have tm: "c = By_terminate \<longrightarrow> is_terminated (timer h)" using inv by (simp add: delivery_inv_def)
  have "take_buffer c h = (pc, h')" and new: "new = []" using step Take_buffer by (simp_all split: prod.splits)
  from this(1) have "delivery_inv h' (us @ (self, pc) # vs)"
    by (rule take_buffer_inv [OF inv _ tm]) (simp_all add: Take_buffer)
  then show ?thesis using new by simp
next
  case (Invoke c b)
  have "delivery_inv h' (us @ (self, pc) # vs)"
    by (rule delivery_inv_move [OF inv]) (use step Invoke in \<open>auto simp: invoke_buffer_def split: if_splits\<close>)
  moreover have "new = [] \<or> new = [Pp_put_parcels (dest b) (messages b) (handlers b)]"
    using step Invoke by (auto simp: invoke_buffer_def split: if_splits)
  ultimately show ?thesis by (elim disjE) (simp_all add: delivery_inv_def)
next
  case Terminate
  then show ?thesis using terminate_inv inv step by fastforce
next
  case (Delete_timer l)
  then show ?thesis using delete_timer_inv [of h us self l vs] inv step by auto
next
  case (Reset_timer l)
  then show ?thesis using reset_timer_inv [of h us self l vs] inv step by auto
next
  case (Get_counter k reset)
  then obtain v where "get_counter now k reset h = Some (v, h')" and pc: "pc = Finished (Returned_int v)" "new = []"
    using step by auto
  from get_counter_frame [OF this(1)] show ?thesis using delivery_inv_move [OF inv] Get_counter pc by simp
next
  case Register_threw
  then show ?thesis using inv step by (auto simp: delivery_inv_def)
next
  case Threw
  then show ?thesis using inv step by simp
qed (use step in \<open>auto intro: delivery_inv_move [OF inv] simp: inv update_num_messages_def update_interval_def
    create_histogram_frame\<close>)

lemma system_step_inv:
  assumes asio: "asio_timer deliver" and inv: "delivery_inv (handler s) (threads s)"
    and step: "system_step deliver e s = Some s'"
  shows "delivery_inv (handler s') (threads s')"
proof (cases e)
  case (Run i)
  then have i: "i < length (threads s)" using step by (auto split: if_splits)
  obtain us vs self pc0 where at: "threads s = us @ (self, pc0) # vs" "threads s ! i = (self, pc0)"
    and upd: "\<And>x. (threads s)[i := x] = us @ x # vs"
    using thread_at [OF i] by (metis surj_pair)
  show ?thesis
  proof (cases "thread_step (runtime_state s) (clock s) self pc0 (handler s)")
    case None
    then show ?thesis using step Run at(2) inv by (auto split: if_splits)
  next
    case (Some r)
    obtain pc new h' where r: "r = (pc, new, h')" using prod_cases3 by blast
    from thread_step_inv [OF inv [unfolded at(1)] Some [unfolded r]]
    show ?thesis using step Run at(2) upd Some r by (auto split: if_splits)
  qed
next
  case (Call self pc)
  then have "is_call pc" and s': "handler s' = handler s" "threads s' = threads s @ [(self, pc)]"
    using step by (auto split: if_splits)
  then have "\<not> deleting pc" by (cases pc) simp_all
  then show ?thesis using inv by (auto simp: delivery_inv_def s')
next
  case (Deliver n er)
  let ?t = "timer (handler s)"
  have called: "deliver (timer_ops ?t) n er"
    and s': "handler s' = (handler s)\<lparr>timer := ?t\<lparr>timer_ops := Handler_called n er # timer_ops ?t\<rparr>\<rparr>"
      "threads s' = threads s @ [(False, Timer_handler er)]"
    using step Deliver by (auto split: if_splits)
  have "\<not> er" if "uncancelled (timer_ops ?t) \<noteq> []" "removeAll n (uncancelled (timer_ops ?t)) = []"
  proof -
    have "n \<in> set (uncancelled (timer_ops ?t))" using that by (metis removeAll_id)
    then show ?thesis using called asio_timerD(2) [OF asio] by auto
  qed
  then consider "removeAll n (uncancelled (timer_ops ?t)) \<noteq> []" | "uncancelled (timer_ops ?t) = []" | "\<not> er" by blast
  then show ?thesis
    by cases (use inv in \<open>simp_all add: delivery_inv_def timer_ok_def s', blast?\<close>)
qed (use step inv in \<open>auto split: if_splits\<close>)

lemma initial_inv: "delivery_inv (handler (initial_system num interv bg now rt)) (threads (initial_system num interv bg now rt))"
  by (simp add: delivery_inv_def initial_system_def make_coalescing_def make_pool_timer_ok)
    (simp add: make_pool_timer_def)

lemma run_events_induct:
  assumes run: "run_events deliver es s = Some s'" and base: "P [] s"
    and step: "\<And>es s e s'. P es s \<Longrightarrow> system_step deliver e s = Some s' \<Longrightarrow> P (es @ [e]) s'"
  shows "P es s'"
proof -
  have "run_events deliver es s = Some s' \<Longrightarrow> P ds s \<Longrightarrow> P (ds @ es) s'" for ds
  proof (induction es arbitrary: ds s)
    case Nil
    then show ?case by simp
  next
    case (Cons e es)
    then obtain s1 where "system_step deliver e s = Some s1" "run_events deliver es s1 = Some s'"
      by (auto simp: bind_eq_Some_conv)
    then show ?case using Cons.IH [of s1 "ds @ [e]"] step [OF Cons.prems(2)] by simp
  qed
  from this [of "[]"] run base show ?thesis by simp
qed

lemma run_events_invariant:
  assumes "run_events deliver es s = Some s'" "P s"
    and "\<And>s e s'. P s \<Longrightarrow> system_step deliver e s = Some s' \<Longrightarrow> P s'"
  shows "P s'"
  using run_events_induct [OF assms(1), of "\<lambda>_. P"] assms(2,3) by blast

lemma reachable_inv:
  assumes "asio_timer deliver" "run_events deliver es (initial_system num interv bg now rt) = Some s"
  shows "delivery_inv (handler s) (threads s)"
  using assms(2)
  by (rule run_events_invariant [where P = "\<lambda>s. delivery_inv (handler s) (threads s)"])
    (use initial_inv system_step_inv [OF assms(1)] in \<open>blast+\<close>)

section \<open>No parcel is lost or sent twice\<close>

definition sent_parcels :: "('d, 'p, 'f) coalescing \<Rightarrow> ('d option \<times> 'p \<times> 'f) list" where
  "sent_parcels h = concat (map (\<lambda>(d, ps, fs). parcels_for d ps fs) (sent h))"

fun parcels_of :: "('d, 'p, 'f) pc \<Rightarrow> ('d option \<times> 'p \<times> 'f) list" where
  "parcels_of (Put_parcel d p f) = [(Some d, p, f)]"
| "parcels_of (Invoke c b) = buffered b"
| "parcels_of (Pp_put_parcel d p f) = [(Some d, p, f)]"
| "parcels_of (Pp_put_parcels d ps fs) = parcels_for d ps fs"
| "parcels_of _ = []"

definition all_parcels :: "('d, 'p, 'f) coalescing \<Rightarrow> (bool \<times> ('d, 'p, 'f) pc) list \<Rightarrow> ('d option \<times> 'p \<times> 'f) multiset" where
  "all_parcels h ts = mset (sent_parcels h) + mset (buffered (buffer h)) + mset (concat (map (parcels_of \<circ> snd) ts))"

definition parcels_put :: "('d, 'p, 'f) event list \<Rightarrow> ('d option \<times> 'p \<times> 'f) list" where
  "parcels_put es = concat (map (\<lambda>e. case e of Call self pc \<Rightarrow> parcels_of pc | _ \<Rightarrow> []) es)"

lemma after_flush_parcels [simp]: "parcels_of (after_flush c r) = []"
  by (cases c) simp_all

lemma take_buffer_parcels:
  assumes "take_buffer c h = (pc, h')"
  shows "mset (buffered (buffer h')) + mset (parcels_of pc) = mset (buffered (buffer h)) \<and> sent_parcels h' = sent_parcels h"
  using assms by (cases rule: take_buffer_cases) (simp_all add: buffered_empty sent_parcels_def)

lemma flush_locked_parcels:
  assumes "flush_locked mode sb ct c h = (pc, h')"
  shows "mset (buffered (buffer h')) + mset (parcels_of pc) = mset (buffered (buffer h)) \<and> sent_parcels h' = sent_parcels h"
  using assms take_buffer_parcels [of c h pc h']
  by (auto simp: flush_locked_def sent_parcels_def split: if_splits)

lemma thread_step_parcels:
  assumes ok: "message_buffer_ok (buffer h)" and step: "thread_step rt now self pc0 h = Some (pc, new, h')"
  shows "mset (sent_parcels h') + mset (buffered (buffer h')) + mset (parcels_of pc) + mset (concat (map parcels_of new)) =
    mset (sent_parcels h) + mset (buffered (buffer h)) + mset (parcels_of pc0)"
proof (cases pc0)
  case (Put_parcel d p f)
  then have put: "put_parcel now d p f h = Some (pc, h')" and new: "new = []" using step by auto
  from put ok show ?thesis
    by (cases rule: put_parcel_cases)
      (use put_parcel_frame [OF put] new Put_parcel in \<open>auto simp: sent_parcels_def\<close>)
next
  case Timer_flush
  then show ?thesis
    using step flush_locked_parcels [of Flush_mode_timer False False By_timer h pc h']
    by (auto simp: timer_flush_def split: if_splits prod.splits)
next
  case (Flush mode sb)
  then show ?thesis
    using step flush_locked_parcels [of mode sb True By_flush h pc h'] by (auto simp: flush_def split: prod.splits)
next
  case Flush_terminate
  then show ?thesis
    using step flush_locked_parcels [of Flush_mode_timer True True By_terminate h pc h']
    by (auto simp: flush_terminate_def split: prod.splits)
next
  case (Take_buffer c)
  then show ?thesis using step take_buffer_parcels [of c h pc h'] by (auto split: prod.splits)
next
  case (Get_counter k reset)
  then show ?thesis using step get_counter_frame [of now k reset h _ h'] by (auto simp: sent_parcels_def)
next
  case (Invoke c b)
  then show ?thesis using step
    by (auto simp: invoke_buffer_def sent_parcels_def buffered_empty split: if_splits) (auto simp: buffered_def)
qed (use step in \<open>auto simp: sent_parcels_def after_start_def update_num_messages_def update_interval_def
    parcels_for_def create_histogram_frame split: option.splits start_result.splits prod.splits if_splits\<close>)

lemma system_step_threads:
  assumes "system_step deliver (Run i) s = Some s'" "\<not> failed s'"
  obtains us vs self pc0 pc new where "threads s = us @ (self, pc0) # vs" "\<not> finished pc0" "\<not> failed s"
    "thread_step (runtime_state s) (clock s) self pc0 (handler s) = Some (pc, new, handler s')"
    "threads s' = us @ (self, pc) # vs @ map (Pair True) new"
proof -
  have i: "i < length (threads s)" and fin: "\<not> finished (snd (threads s ! i))" and nf: "\<not> failed s"
    using assms(1) by (auto split: if_splits)
  obtain us vs self pc0 where at: "threads s = us @ (self, pc0) # vs" "threads s ! i = (self, pc0)"
    and upd: "\<And>x. (threads s)[i := x] = us @ x # vs"
    using thread_at [OF i] by (metis surj_pair)
  obtain pc new h' where step: "thread_step (runtime_state s) (clock s) self pc0 (handler s) = Some (pc, new, h')"
    using assms i at(2) by (auto split: if_splits option.splits)
  then have "handler s' = h'" "threads s' = us @ (self, pc) # vs @ map (Pair True) new"
    using assms(1) at(2) upd by (auto split: if_splits)
  then show thesis using that [OF at(1)] fin at(2) nf step by simp
qed

lemma system_step_failed:
  assumes "system_step deliver e s = Some s'" "failed s'"
  shows "s' = s\<lparr>failed := True\<rparr> \<and> \<not> failed s \<and> (\<exists>i. e = Run i)"
  using assms by (cases e) (auto split: if_splits option.splits)

lemma system_step_parcels:
  assumes ok: "message_buffer_ok (buffer (handler s))" and step: "system_step deliver e s = Some s'"
  shows "all_parcels (handler s') (threads s') = all_parcels (handler s) (threads s) + mset (parcels_put [e])"
proof (cases "failed s'")
  case True
  then show ?thesis using system_step_failed [OF step] by (auto simp: parcels_put_def)
next
  case False
  show ?thesis
  proof (cases e)
    case (Run i)
    from system_step_threads [OF step [unfolded Run] False] obtain us vs self pc0 pc new
      where at: "threads s = us @ (self, pc0) # vs" "threads s' = us @ (self, pc) # vs @ map (Pair True) new"
        and st: "thread_step (runtime_state s) (clock s) self pc0 (handler s) = Some (pc, new, handler s')" by metis
    have [simp]: "map (parcels_of \<circ> snd \<circ> Pair True) new = map parcels_of new" by simp
    show ?thesis
      using thread_step_parcels [OF ok st] by (simp add: all_parcels_def at Run parcels_put_def) (simp add: ac_simps)
  next
    case (Call self pc)
    then show ?thesis using step by (auto simp: all_parcels_def parcels_put_def split: if_splits)
  next
    case (Deliver n er)
    then show ?thesis
      using step by (auto simp: all_parcels_def parcels_put_def sent_parcels_def split: if_splits)
  qed (use step in \<open>auto simp: all_parcels_def parcels_put_def split: if_splits\<close>)
qed

lemma reachable_parcels:
  assumes asio: "asio_timer deliver" and run: "run_events deliver es (initial_system num interv bg now rt) = Some s"
  shows "all_parcels (handler s) (threads s) = mset (parcels_put es)"
proof -
  let ?P = "\<lambda>es s. delivery_inv (handler s) (threads s) \<and> all_parcels (handler s) (threads s) = mset (parcels_put es)"
  have "?P es s"
  proof (rule run_events_induct [OF run])
    show "?P [] (initial_system num interv bg now rt)"
      using initial_inv by (simp add: all_parcels_def parcels_put_def initial_system_def make_coalescing_def sent_parcels_def)
    fix es s e s' assume "?P es s" and step: "system_step deliver e s = Some s'"
    then show "?P (es @ [e]) s'"
      using system_step_inv [OF asio _ step] system_step_parcels [OF _ step]
      by (simp add: parcels_put_def delivery_inv_def)
  qed
  then show ?thesis by simp
qed

lemma finished_points:
  assumes "finished pc"
  shows "\<not> flushing pc" "\<not> expired pc" "\<not> terminating pc" "\<not> starting pc" "parcels_of pc = []"
  using assms by (cases pc; simp)+

lemma at_rest_empty:
  assumes asio: "asio_timer deliver" and inv: "delivery_inv (handler s) (threads s)" and rest: "at_rest deliver s"
    and no: "\<not> has (threads s) threw"
  shows "messages (buffer (handler s)) = []"
proof (rule ccontr)
  assume "messages (buffer (handler s)) \<noteq> []"
  moreover have "\<not> has (threads s) flushing" "\<not> has (threads s) expired" "\<not> has (threads s) terminating"
    "\<not> has (threads s) starting"
    using rest by (auto simp: at_rest_def has_def dest: finished_points)
  ultimately have "uncancelled (timer_ops (timer (handler s))) \<noteq> []" using inv no by (simp add: delivery_inv_def)
  then obtain n where "n \<in> set (uncancelled (timer_ops (timer (handler s))))" using hd_in_set by blast
  from asio_timerD(3) [OF asio this] show False using rest by (auto simp: at_rest_def)
qed

lemma at_rest_sent:
  assumes rest: "at_rest deliver s" and empty: "messages (buffer (handler s)) = []"
  shows "all_parcels (handler s) (threads s) = mset (sent_parcels (handler s))"
proof -
  have "concat (map (parcels_of \<circ> snd) (threads s)) = []"
    using rest by (fastforce simp: at_rest_def intro: finished_points(5))
  then show ?thesis using empty by (simp add: all_parcels_def buffered_empty)
qed

end
