(* ===== verification/Coalescing_Liveness.thy ===== *)
theory Coalescing_Liveness
  imports Coalescing_Delivery
begin

text \<open>
  More about the threads that use a coalescing message handler: every call is over after a bounded number of steps, no thread
  waits for a mutex in vain, which assertions can fail, what the counters count, how many parcels a message has at most, and
  runs that show where the code does not do what it is meant to do.
\<close>

section \<open>Every run ends\<close>

text \<open>
  A bound of the steps that are left for a thread; a wait that has not been called yet costs a handler. Starting the
  timer may create a wait.
\<close>

fun work :: "('d, 'p, 'f) pc \<Rightarrow> nat" where
  "work (Put_parcel d p f) = 14"
| "work (Timer_start d) = 13"
| "work (Register_terminate d) = 12"
| "work (Timer_arm d) = 11"
| "work (Timer_handler e) = 9"
| "work (Handler_reset e) = 8"
| "work Timer_flush = 7"
| "work (Flush mode sb) = 7"
| "work Flush_terminate = 7"
| "work (Stop_timer c) = 6"
| "work (Take_buffer c) = 5"
| "work (Invoke c b) = 4"
| "work Terminate = 8"
| "work (Delete_timer l) = 2"
| "work (Finished r) = 0"
| "work Threw = 0"
| "work _ = 1"

definition work_ahead :: "('d, 'p, 'f) system \<Rightarrow> nat" where
  "work_ahead s = (\<Sum>x\<leftarrow>threads s. work (snd x)) + 10 * length (outstanding (timer_ops (timer (handler s)))) +
     (if failed s then 0 else 1)"

lemma after_flush_work [simp]: "work (after_flush c r) = (if c = By_terminate then 2 else 0)"
  by (cases c) simp_all

lemma take_buffer_work:
  assumes "take_buffer c h = (pc, h')"
  shows "work pc \<le> 4 \<and> timer h' = timer h"
  using assms by (cases rule: take_buffer_cases) simp_all

lemma flush_locked_work:
  assumes "flush_locked mode sb ct c h = (pc, h')"
  shows "work pc \<le> 6 \<and> timer h' = timer h"
  using assms take_buffer_work [of c h pc h']
  by (auto simp: flush_locked_def split: if_splits)

lemma put_parcel_work:
  assumes "put_parcel now d p f h = Some (pc, h')"
  shows "work pc \<le> 13"
  using assms flush_locked_work [of Flush_mode_buffer_full False True By_put _ pc h']
  by (fastforce simp: put_parcel_def Let_def split: if_splits option.splits prod.splits append_state.splits)

lemma after_start_work:
  assumes "after_start d r h = Some (pc, new, h')" "r = start d (timer h) \<or> r = arm d (timer h)"
  shows "new = [] \<and> work pc + 10 * length (outstanding (timer_ops (timer h'))) \<le>
    (if r = arm d (timer h) then 10 else 12) + 10 * length (outstanding (timer_ops (timer h)))"
  using assms by (auto simp: after_start_def start_def arm_def Let_def split: if_splits)

lemma stop_ops:
  assumes "stop t = Some (r, t')"
  shows "outstanding (timer_ops t') = outstanding (timer_ops t)"
  using assms by (auto simp: stop_def stop_locked_def Let_def split: if_splits)

lemma delete_timer_ops:
  assumes "delete_timer t = Some t'"
  shows "outstanding (timer_ops t') = outstanding (timer_ops t)"
  using assms by (cases rule: delete_timer_cases) simp_all

lemma terminate_ops:
  assumes "terminate t = Some (b, t')"
  shows "outstanding (timer_ops t') = outstanding (timer_ops t)"
  using assms by (auto simp: terminate_stops_nothing split: if_splits)

lemma thread_step_work:
  assumes step: "thread_step rt now self pc0 h = Some (pc, new, h')" and fin: "\<not> finished pc0"
  shows "work pc + (\<Sum>x\<leftarrow>new. work x) + 10 * length (outstanding (timer_ops (timer h'))) <
    work pc0 + 10 * length (outstanding (timer_ops (timer h)))"
proof (cases pc0)
  case (Put_parcel d p f)
  then have put: "put_parcel now d p f h = Some (pc, h')" "new = []" using step by auto
  then show ?thesis using put_parcel_work [OF put(1)] put_parcel_frame [OF put(1)] Put_parcel by simp
next
  case (Timer_start d)
  then show ?thesis using step after_start_work [of d "start d (timer h)" h pc new h'] by (auto split: if_splits)
next
  case (Timer_arm d)
  then show ?thesis using step after_start_work [of d "arm d (timer h)" h pc new h'] by simp
next
  case (Register_terminate d)
  then show ?thesis using step by (auto split: option.splits dest!: register_terminate_frame)
next
  case Timer_flush
  then show ?thesis
    using step flush_locked_work [of Flush_mode_timer False False By_timer h pc h']
    by (auto simp: timer_flush_def split: if_splits prod.splits)
next
  case (Flush mode sb)
  then show ?thesis
    using step flush_locked_work [of mode sb True By_flush h pc h'] by (auto simp: flush_def split: prod.splits)
next
  case Flush_terminate
  then show ?thesis
    using step flush_locked_work [of Flush_mode_timer True True By_terminate h pc h']
    by (auto simp: flush_terminate_def split: prod.splits)
next
  case (Take_buffer c)
  then show ?thesis using step take_buffer_work [of c h pc h'] by (auto split: prod.splits)
next
  case (Stop_timer c)
  then show ?thesis using step by (auto dest: stop_ops)
next
  case Terminate
  then show ?thesis using step by (auto dest: terminate_ops)
next
  case (Delete_timer l)
  then show ?thesis using step by (auto dest: delete_timer_ops)
next
  case (Get_counter k reset)
  then show ?thesis using step by (auto dest: get_counter_frame)
next
  case (Invoke c b)
  then show ?thesis using step by (auto simp: invoke_buffer_def split: if_splits)
qed (use step fin in \<open>auto simp: handler_reset_def reset_timer_def update_num_messages_def update_interval_def
    create_histogram_frame\<close>)

text \<open>
  The steps of threads and handlers, as opposed to calls and changes from outside. A \<open>Lock\<close> is a step of its own, but no work.
\<close>

fun is_internal :: "('d, 'p, 'f) event \<Rightarrow> bool" where
  "is_internal (Lock i) = True"
| "is_internal (Run i) = True"
| "is_internal (Deliver n e) = True"
| "is_internal _ = False"

fun is_lock :: "('d, 'p, 'f) event \<Rightarrow> bool" where
  "is_lock (Lock i) = True"
| "is_lock _ = False"

fun is_new_call :: "('d, 'p, 'f) event \<Rightarrow> bool" where
  "is_new_call (Call self pc) = True"
| "is_new_call _ = False"

fun event_work :: "('d, 'p, 'f) event \<Rightarrow> nat" where
  "event_work (Call self pc) = work pc"
| "event_work _ = 0"

lemma system_step_work:
  assumes asio: "asio_timer deliver" and step: "system_step deliver e s = Some s'"
  shows "work_ahead s' + (if is_internal e \<and> \<not> is_lock e then 1 else 0) \<le> work_ahead s + event_work e"
proof (cases "failed s'")
  case True
  then show ?thesis using system_step_failed [OF step] by (auto simp: work_ahead_def)
next
  case False
  show ?thesis
  proof (cases e)
    case (Run i)
    from system_step_threads [OF step [unfolded Run] False] obtain us vs self pc0 pc new
      where at: "threads s = us @ (self, pc0) # vs" "threads s' = us @ (self, pc) # vs @ map (Pair True) new"
        and fin: "\<not> finished pc0" "\<not> failed s"
        and st: "thread_step (runtime_state s) (clock s) self pc0 (handler s) = Some (pc, new, handler s')" by metis
    have [simp]: "(\<Sum>x\<leftarrow>map (Pair True) new. work (snd x)) = (\<Sum>x\<leftarrow>new. work x)" by (simp add: comp_def)
    show ?thesis
      using thread_step_work [OF st fin(1)] False fin(2) by (simp add: work_ahead_def at Run del: map_map)
  next
    case (Call self pc)
    then show ?thesis using step by (auto simp: work_ahead_def split: if_splits)
  next
    case (Deliver n er)
    then have d: "deliver (timer_ops (timer (handler s))) n er" using step by (auto split: if_splits)
    note fewer = fewer_outstanding [OF asio_timerD(1) [OF asio d]]
    have "handler s' = (handler s)\<lparr>timer := (timer (handler s))
             \<lparr>timer_ops := Handler_called n er # timer_ops (timer (handler s))\<rparr>\<rparr>"
      "threads s' = threads s @ [(False, Timer_handler er)]" "\<not> failed s"
      using step Deliver by (auto split: if_splits)
    then show ?thesis using fewer Deliver False by (simp add: work_ahead_def)
  qed (use step in \<open>auto simp: work_ahead_def split: if_splits\<close>)
qed

section \<open>Mutexes\<close>

text \<open>
  A mutex is held by one thread, which needs it for its next step, or still has it from the one before. No thread holds one
  mutex while it waits for another.
\<close>

definition locks_ok :: "lock_table \<Rightarrow> (bool \<times> ('d, 'p, 'f) pc) list \<Rightarrow> bool" where
  "locks_ok ls ts \<longleftrightarrow> distinct (map fst ls) \<and>
     (\<forall>(m, i)\<in>set ls. i < length ts \<and> (takes (snd (ts ! i)) = Some m \<or> m \<in> set (holds (snd (ts ! i))))) \<and>
     (\<forall>i < length ts. \<forall>m\<in>set (holds (snd (ts ! i))). (m, i) \<in> set ls)"

lemma locks_okD:
  assumes "locks_ok ls ts"
  shows "distinct (map fst ls)"
    and "(m, i) \<in> set ls \<Longrightarrow> i < length ts \<and> (takes (snd (ts ! i)) = Some m \<or> m \<in> set (holds (snd (ts ! i))))"
    and "i < length ts \<Longrightarrow> m \<in> set (holds (snd (ts ! i))) \<Longrightarrow> (m, i) \<in> set ls"
  using assms by (auto simp: locks_ok_def)

lemma takes_nothing_more: "takes pc = Some m \<Longrightarrow> holds pc = []"
  by (cases pc) simp_all

lemma holds_one: "\<exists>m. set (holds pc) \<subseteq> {m}"
  by (cases pc) auto

lemma finished_without_mutex: "finished pc \<Longrightarrow> takes pc = None \<and> holds pc = []"
  by (cases pc) simp_all

lemma after_flush_holds [simp]: "holds (after_flush c r) = []"
  by (cases c) simp_all

lemma take_buffer_holds: "take_buffer c h = (pc, h') \<Longrightarrow> holds pc = []"
  by (erule take_buffer_cases) simp_all

lemma flush_locked_holds: "flush_locked mode sb ct c h = (pc, h') \<Longrightarrow> holds pc = []"
  using take_buffer_holds [of c h pc h'] by (auto simp: flush_locked_def split: if_splits)

lemma put_parcel_holds: "put_parcel now d p f h = Some (pc, h') \<Longrightarrow> holds pc = []"
  using flush_locked_holds [of Flush_mode_buffer_full False True By_put _ pc h']
  by (fastforce simp: put_parcel_def Let_def split: if_splits option.splits prod.splits append_state.splits)

text \<open>What a thread holds after a step it has taken for the step or held before.\<close>

lemma thread_step_holds:
  assumes "thread_step rt now self pc0 h = Some (pc, new, h')"
  shows "set (holds pc) \<subseteq> set (holds pc0) \<union> set_option (takes pc0)" "\<forall>x\<in>set new. holds x = []"
proof -
  show "set (holds pc) \<subseteq> set (holds pc0) \<union> set_option (takes pc0)"
  proof (cases pc0)
    case (Put_parcel d p f)
    then show ?thesis using assms by (auto dest: put_parcel_holds)
  next
    case Timer_flush
    then show ?thesis using assms
      by (auto simp: timer_flush_def split: if_splits prod.splits dest: flush_locked_holds)
  next
    case (Take_buffer c)
    then show ?thesis using assms by (auto split: prod.splits dest: take_buffer_holds)
  qed (use assms in \<open>auto simp: after_start_def invoke_buffer_def flush_def flush_terminate_def
      split: if_splits prod.splits option.splits start_result.splits dest: flush_locked_holds\<close>)
  show "\<forall>x\<in>set new. holds x = []"
    using assms by (cases pc0) (auto simp: after_start_def invoke_buffer_def split: if_splits prod.splits option.splits start_result.splits)
qed

lemma locks_ok_append:
  assumes "locks_ok ls ts" "\<forall>x\<in>set us. holds (snd x) = []"
  shows "locks_ok ls (ts @ us)"
  using assms by (auto simp: locks_ok_def nth_append)

lemma locks_ok_lock:
  assumes "locks_ok ls ts" "i < length ts" "takes (snd (ts ! i)) = Some m" "m \<notin> fst ` set ls"
  shows "locks_ok ((m, i) # ls) ts"
  using assms by (auto simp: locks_ok_def)

lemma locks_ok_run:
  assumes ok: "locks_ok ls ts" and i: "i < length ts" and run: "may_run i (snd (ts ! i)) ls"
    and pc: "set (holds pc) \<subseteq> set (holds (snd (ts ! i))) \<union> set_option (takes (snd (ts ! i)))"
  shows "locks_ok (give_up i pc ls) (ts[i := (self, pc)])"
proof -
  have own: "(m, i) \<in> set ls" if "m \<in> set (holds pc)" for m
    using that pc run locks_okD(3) [OF ok i] by (auto simp: may_run_def split: option.splits)
  have "distinct (map fst (give_up i pc ls))"
    using locks_okD(1) [OF ok] by (auto simp: give_up_def distinct_map_filter)
  moreover have "j < length ts \<and> (takes (snd (ts[i := (self, pc)] ! j)) = Some m \<or> m \<in> set (holds (snd (ts[i := (self, pc)] ! j))))"
    if "(m, j) \<in> set (give_up i pc ls)" for m j
    using that locks_okD(2) [OF ok, of m j] by (cases "j = i") (auto simp: give_up_def)
  moreover have "(m, j) \<in> set (give_up i pc ls)" if "j < length ts" "m \<in> set (holds (snd (ts[i := (self, pc)] ! j)))" for m j
    using that own locks_okD(3) [OF ok, of j m] i by (cases "j = i") (auto simp: give_up_def)
  ultimately show ?thesis by (auto simp: locks_ok_def)
qed

lemma give_up_length:
  assumes ok: "locks_ok ls ts" and i: "i < length ts"
  shows "length ls \<le> Suc (length (give_up i pc ls))"
proof -
  let ?own = "filter (\<lambda>x. snd x = i) ls"
  obtain m where m: "\<And>m'. takes (snd (ts ! i)) = Some m' \<or> m' \<in> set (holds (snd (ts ! i))) \<Longrightarrow> m' = m"
    using holds_one [of "snd (ts ! i)"] takes_nothing_more [of "snd (ts ! i)"]
    by (cases "takes (snd (ts ! i))") fastforce+
  have "set ?own \<subseteq> {(m, i)}" using locks_okD(2) [OF ok] m by fastforce
  moreover have "distinct ?own" using locks_okD(1) [OF ok] by (auto simp: distinct_map)
  ultimately have "length ?own \<le> 1" by (metis card_mono distinct_card finite.simps card.empty card_insert_disjoint empty_iff One_nat_def)
  moreover have "length (filter (\<lambda>x. snd x \<noteq> i) ls) \<le> length (give_up i pc ls)"
    unfolding give_up_def by (induction ls) auto
  moreover have "length ls = length ?own + length (filter (\<lambda>x. snd x \<noteq> i) ls)" by (rule sum_length_filter_compl [symmetric])
  ultimately show ?thesis by simp
qed

lemma two_mutexes:
  assumes "distinct (ms :: handler_mutex list)"
  shows "length ms \<le> 2"
proof -
  have "set ms \<subseteq> {Handler_mutex, Timer_mutex}" by (metis insertI1 insertI2 handler_mutex.exhaust subsetI)
  then have "card (set ms) \<le> card {Handler_mutex, Timer_mutex}" by (intro card_mono) simp_all
  then show ?thesis using distinct_card [OF assms] by simp
qed

lemma system_step_locks:
  assumes ok: "locks_ok (locks s) (threads s)" and step: "system_step deliver e s = Some s'"
  shows "locks_ok (locks s') (threads s')"
proof (cases e)
  case (Lock i)
  then obtain m where "i < length (threads s)" "takes (snd (threads s ! i)) = Some m" "m \<notin> fst ` set (locks s)"
    and "locks s' = (m, i) # locks s" "threads s' = threads s"
    using step by (auto simp: may_lock_def split: if_splits option.splits)
  then show ?thesis using locks_ok_lock [OF ok] by simp
next
  case (Run i)
  let ?self = "fst (threads s ! i)" and ?pc = "snd (threads s ! i)"
  have i: "i < length (threads s)" and run: "may_run i ?pc (locks s)" using step Run by (auto split: if_splits)
  show ?thesis
  proof (cases "thread_step (runtime_state s) (clock s) ?self ?pc (handler s)")
    case None
    then show ?thesis using step Run ok by (auto split: if_splits)
  next
    case (Some r)
    obtain pc new h where r: "r = (pc, new, h)" using prod_cases3 by blast
    note st = Some [unfolded r]
    have s': "locks s' = give_up i pc (locks s)" "threads s' = (threads s)[i := (?self, pc)] @ map (Pair True) new"
      using step Run st by (auto split: if_splits)
    have "locks_ok (give_up i pc (locks s)) ((threads s)[i := (?self, pc)])"
      by (rule locks_ok_run [OF ok i run thread_step_holds(1) [OF st]])
    from locks_ok_append [OF this] show ?thesis using thread_step_holds(2) [OF st] by (simp add: s')
  qed
next
  case (Call self pc)
  then have "is_call pc" "locks s' = locks s" "threads s' = threads s @ [(self, pc)]" using step by (auto split: if_splits)
  moreover from this(1) have "holds pc = []" by (cases pc) simp_all
  ultimately show ?thesis using locks_ok_append [OF ok] by simp
next
  case (Deliver n er)
  then have "locks s' = locks s" "threads s' = threads s @ [(False, Timer_handler er)]" using step by (auto split: if_splits)
  then show ?thesis using locks_ok_append [OF ok] by simp
qed (use step ok in \<open>auto split: if_splits\<close>)

lemma initial_locks: "locks_ok [] []"
  by (simp add: locks_ok_def)

lemma reachable_locks:
  assumes "run_events deliver es (initial_system num interv bg now rt) = Some s"
  shows "locks_ok (locks s) (threads s)"
  using assms
  by (rule run_events_invariant [where P = "\<lambda>s. locks_ok (locks s) (threads s)"])
    (use initial_locks system_step_locks in \<open>auto simp: initial_system_def\<close>)

text \<open>Every step of a thread or of the timer brings the end nearer: a \<open>Lock\<close> takes one of the two mutexes, and a step gives up one at most.\<close>

definition steps_ahead :: "('d, 'p, 'f) system \<Rightarrow> nat" where
  "steps_ahead s = 2 * work_ahead s + (2 - length (locks s))"

lemma system_step_ahead:
  assumes asio: "asio_timer deliver" and ok: "locks_ok (locks s) (threads s)" and step: "system_step deliver e s = Some s'"
  shows "steps_ahead s' + (if is_internal e then 1 else 0) \<le> steps_ahead s + 2 * event_work e"
proof -
  note w = system_step_work [OF asio step]
  show ?thesis
  proof (cases e)
    case (Lock i)
    then obtain m where "locks s' = (m, i) # locks s" using step by (auto split: if_splits)
    then have "length (locks s) < 2"
      using two_mutexes [OF locks_okD(1) [OF system_step_locks [OF ok step]]] by simp
    then show ?thesis using w Lock \<open>locks s' = (m, i) # locks s\<close> by (simp add: steps_ahead_def)
  next
    case (Run i)
    then have i: "i < length (threads s)" using step by (auto split: if_splits)
    have "locks s' = locks s \<or> (\<exists>pc :: ('a, 'b, 'c) pc. locks s' = give_up i pc (locks s))"
      using step Run by (auto split: if_splits option.splits)
    then have "length (locks s) \<le> Suc (length (locks s'))" using give_up_length [OF ok i] by auto
    then show ?thesis using w Run by (simp add: steps_ahead_def)
  next
    case (Deliver n er)
    then have "locks s' = locks s" using step by (auto split: if_splits)
    then show ?thesis using w Deliver by (simp add: steps_ahead_def)
  next
    case (Call self pc)
    then have "locks s' = locks s" using step by (auto split: if_splits)
    then show ?thesis using w Call by (simp add: steps_ahead_def)
  qed (use step w in \<open>auto simp: steps_ahead_def split: if_splits\<close>)
qed

lemma run_events_ahead:
  assumes "asio_timer deliver" "locks_ok (locks s) (threads s)" "run_events deliver es s = Some s'"
  shows "steps_ahead s' + length (filter is_internal es) \<le> steps_ahead s + 2 * (\<Sum>e\<leftarrow>es. event_work e)"
  using assms(2,3)
proof (induction es arbitrary: s)
  case Nil
  then show ?case by simp
next
  case (Cons e es)
  then obtain s1 where s1: "system_step deliver e s = Some s1" "run_events deliver es s1 = Some s'"
    by (auto simp: bind_eq_Some_conv)
  from system_step_ahead [OF assms(1) Cons.prems(1) s1(1)] Cons.IH [OF system_step_locks [OF Cons.prems(1) s1(1)] s1(2)]
  show ?case by (simp split: if_splits)
qed

text \<open>A thread that holds a mutex is able to run: it never waits for another one.\<close>

lemma owner_runs:
  assumes ok: "locks_ok (locks s) (threads s)" and "\<not> failed s" and own: "(m, i) \<in> set (locks s)"
  shows "\<exists>s'. system_step deliver (Run i) s = Some s'"
proof -
  let ?pc = "snd (threads s ! i)"
  have i: "i < length (threads s)" and m: "takes ?pc = Some m \<or> m \<in> set (holds ?pc)"
    using locks_okD(2) [OF ok own] by auto
  have "\<not> finished ?pc" using m finished_without_mutex [of ?pc] by auto
  moreover have "may_run i ?pc (locks s)"
    using m own takes_nothing_more [of ?pc] by (auto simp: may_run_def split: option.split)
  ultimately show ?thesis using i assms(2) by (simp split: option.split)
qed

lemma progress:
  assumes ok: "locks_ok (locks s) (threads s)" and "\<not> failed s" "\<not> at_rest deliver s"
  shows "\<exists>e s'. is_internal e \<and> system_step deliver e s = Some s'"
proof -
  consider x where "x \<in> set (threads s)" "\<not> finished (snd x)"
    | n er where "deliver (timer_ops (timer (handler s))) n er"
    using assms(3) by (auto simp: at_rest_def)
  then show ?thesis
  proof cases
    case 1
    then obtain i where i: "i < length (threads s)" "\<not> finished (snd (threads s ! i))" by (metis in_set_conv_nth)
    let ?pc = "snd (threads s ! i)"
    consider (runs) "may_run i ?pc (locks s)" | (locks) "may_lock ?pc (locks s)"
      | (waits) m j where "(m, j) \<in> set (locks s)"
      by (cases "takes ?pc") (use takes_nothing_more [of ?pc] in \<open>force simp: may_run_def may_lock_def\<close>)+
    then show ?thesis
    proof cases
      case runs
      then have "\<exists>s'. system_step deliver (Run i) s = Some s'" using i assms(2) by (simp split: option.split)
      then show ?thesis using is_internal.simps(2) by blast
    next
      case locks
      then have "\<exists>s'. system_step deliver (Lock i) s = Some s'" using i assms(2) by simp
      then show ?thesis using is_internal.simps(1) by blast
    next
      case waits
      from owner_runs [OF ok assms(2) this] show ?thesis using is_internal.simps(2) by blast
    qed
  next
    case 2
    then have "\<exists>s'. system_step deliver (Deliver n er) s = Some s'" using assms(2) by simp
    then show ?thesis using is_internal.simps(3) by blast
  qed
qed

section \<open>Failing assertions\<close>

text \<open>
  What can go wrong: a parcel for another destination than those in the buffer, a timer that has been
  deleted while \<open>start\<close> was registering, a timer that is deleted twice, and a clock that has gone back.
\<close>

fun assertion_fails :: "int \<Rightarrow> ('d, 'p, 'f) coalescing \<Rightarrow> ('d, 'p, 'f) pc \<Rightarrow> bool" where
  "assertion_fails now h (Put_parcel d p f) = (messages (buffer h) \<noteq> [] \<and> dest (buffer h) \<noteq> Some d)"
| "assertion_fails now h (Timer_arm d) =
     (is_terminated (timer h) \<and> (\<not> timer_present (timer h) \<or> \<not> timer_alive (timer h)))"
| "assertion_fails now h (Delete_timer l) = (timer_present (timer h) \<and> \<not> timer_alive (timer h))"
| "assertion_fails now h (Get_counter Average_time reset) = (now < started_at h)"
| "assertion_fails now h _ = False"

lemma thread_step_fails:
  assumes inv: "delivery_inv h ts" and step: "thread_step rt now self pc h = None"
  shows "assertion_fails now h pc"
proof (cases pc)
  case (Put_parcel d p f)
  then show ?thesis using step inv put_parcel_fails [of h now d p f] by (auto simp: delivery_inv_def)
next
  case (Timer_start d)
  then show ?thesis using step inv
    by (auto simp: after_start_def start_def arm_def delivery_inv_def timer_ok_def Let_def split: if_splits)
next
  case (Timer_arm d)
  then show ?thesis using step inv
    by (auto simp: after_start_def arm_def delivery_inv_def timer_ok_def Let_def split: if_splits)
next
  case (Stop_timer c)
  then show ?thesis using step inv
    by (auto simp: stop_def stop_locked_def delivery_inv_def timer_ok_def Let_def split: if_splits)
next
  case Terminate
  then show ?thesis using step by (auto simp: terminate_stops_nothing split: if_splits)
next
  case (Delete_timer l)
  then show ?thesis using step by (auto simp: delete_timer_def split: if_splits)
next
  case (Get_counter k reset)
  then show ?thesis using step by (cases k) (auto simp: get_average_time_between_parcels_def Let_def split: if_splits)
qed (use step in \<open>auto split: option.splits prod.splits\<close>)

lemma reachable_failed:
  assumes asio: "asio_timer deliver" and run: "run_events deliver es (initial_system num interv bg now rt) = Some s"
    and failed: "failed s"
  shows "has (threads s) (assertion_fails (clock s) (handler s))"
proof -
  let ?P = "\<lambda>s. delivery_inv (handler s) (threads s) \<and> (failed s \<longrightarrow> has (threads s) (assertion_fails (clock s) (handler s)))"
  have "?P s"
  proof (rule run_events_invariant [OF run])
    show "?P (initial_system num interv bg now rt)" using initial_inv by (simp add: initial_system_def)
    fix s e s' assume P: "?P s" and step: "system_step deliver e s = Some s'"
    have "has (threads s') (assertion_fails (clock s') (handler s'))" if f: "failed s'"
    proof -
      obtain i where e: "e = Run i" and s': "s' = s\<lparr>failed := True\<rparr>" "\<not> failed s"
        using system_step_failed [OF step f] by blast
      have "i < length (threads s)"
        "thread_step (runtime_state s) (clock s) (fst (threads s ! i)) (snd (threads s ! i)) (handler s) = None"
        using step f s'(2) unfolding e by (auto split: if_splits option.splits)
      then have "threads s ! i \<in> set (threads s)" "assertion_fails (clock s) (handler s) (snd (threads s ! i))"
        using thread_step_fails P by (simp, blast)
      then show ?thesis using s'(1) by (auto simp: has_def)
    qed
    then show "?P s'" using system_step_inv [OF asio _ step] P by blast
  qed
  then show ?thesis using failed by simp
qed

text \<open>With parcels for one destination only, the one the handler has been created for, they do not differ.\<close>

lemma one_destination:
  assumes asio: "asio_timer deliver" and run: "run_events deliver es (initial_system num interv bg now rt) = Some s"
    and d: "\<forall>x\<in>set (parcels_put es). fst x = Some d"
  shows "messages (buffer (handler s)) \<noteq> [] \<longrightarrow> dest (buffer (handler s)) = Some d"
    and "(self, Put_parcel d' p f) \<in> set (threads s) \<longrightarrow> d' = d"
proof -
  have all: "\<forall>x\<in>#all_parcels (handler s) (threads s). fst x = Some d"
    using reachable_parcels [OF asio run] d by simp
  have "message_buffer_ok (buffer (handler s))" using reachable_inv [OF asio run] by (simp add: delivery_inv_def)
  then have "messages (buffer (handler s)) \<noteq> [] \<Longrightarrow>
      (dest (buffer (handler s)), hd (messages (buffer (handler s))), hd (handlers (buffer (handler s)))) \<in>
      set (buffered (buffer (handler s)))"
    by (cases "messages (buffer (handler s))"; cases "handlers (buffer (handler s))")
      (simp_all add: buffered_def parcels_for_def message_buffer_ok_def)
  then have "messages (buffer (handler s)) \<noteq> [] \<Longrightarrow>
      (dest (buffer (handler s)), hd (messages (buffer (handler s))), hd (handlers (buffer (handler s)))) \<in>#
      all_parcels (handler s) (threads s)" by (simp add: all_parcels_def)
  then show "messages (buffer (handler s)) \<noteq> [] \<longrightarrow> dest (buffer (handler s)) = Some d"
    using all by (metis fst_conv)
  have "(self, Put_parcel d' p f) \<in> set (threads s) \<Longrightarrow> (Some d', p, f) \<in># all_parcels (handler s) (threads s)"
    by (force simp: all_parcels_def)
  then show "(self, Put_parcel d' p f) \<in> set (threads s) \<longrightarrow> d' = d"
    using all by (metis fst_conv option.inject)
qed

text \<open>
  A timer that has been deleted while the pointer to it is not null yet: some thread is about to reset the pointer.
\<close>

fun resetting :: "('d, 'p, 'f) pc \<Rightarrow> bool" where
  "resetting (Reset_timer l) = True"
| "resetting _ = False"

definition dangling_ok :: "('d, 'p, 'f) coalescing \<Rightarrow> (bool \<times> ('d, 'p, 'f) pc) list \<Rightarrow> bool" where
  "dangling_ok h ts \<longleftrightarrow> (timer_present (timer h) \<and> \<not> timer_alive (timer h) \<longrightarrow> has ts resetting)"

lemma thread_step_pointer:
  assumes step: "thread_step rt now self pc0 h = Some (pc, new, h')" and "\<And>l. pc0 \<noteq> Delete_timer l" "\<And>l. pc0 \<noteq> Reset_timer l"
  shows "timer_present (timer h') = timer_present (timer h) \<and> timer_alive (timer h') = timer_alive (timer h)"
proof (cases pc0)
  case (Put_parcel d p f)
  then show ?thesis using step by (auto dest: put_parcel_frame(1))
next
  case (Register_terminate d)
  then show ?thesis using step by (auto split: option.splits dest!: register_terminate_frame)
next
  case Timer_flush
  then show ?thesis using step
    by (auto simp: timer_flush_def split: if_splits prod.splits dest: flush_locked_work)
next
  case (Take_buffer c)
  then show ?thesis using step by (auto split: prod.splits dest: take_buffer_work)
next
  case (Get_counter k reset)
  then show ?thesis using step by (auto dest: get_counter_frame)
qed (use assms in \<open>auto simp: after_start_def start_def arm_def stop_def stop_locked_def terminate_stops_nothing Let_def
    handler_reset_def invoke_buffer_def flush_def flush_terminate_def update_num_messages_def update_interval_def create_histogram_frame
    split: if_splits prod.splits dest: flush_locked_work\<close>)

lemma thread_step_dangling:
  assumes ok: "dangling_ok h (us @ (self, pc0) # vs)" and step: "thread_step rt now self pc0 h = Some (pc, new, h')"
  shows "dangling_ok h' (us @ (self, pc) # vs @ map (Pair True) new)"
proof -
  consider (deletes) l where "pc0 = Delete_timer l" | (resets) l where "pc0 = Reset_timer l"
    | (others) "\<And>l. pc0 \<noteq> Delete_timer l" "\<And>l. pc0 \<noteq> Reset_timer l" by blast
  then show ?thesis
  proof cases
    case deletes
    then show ?thesis using step by (auto simp: dangling_ok_def)
  next
    case resets
    then show ?thesis using step by (auto simp: dangling_ok_def reset_timer_def)
  next
    case others
    then have "\<not> resetting pc0" by (metis resetting.elims(2))
    then show ?thesis using ok thread_step_pointer [OF step others] by (auto simp: dangling_ok_def)
  qed
qed

lemma system_step_dangling:
  assumes ok: "dangling_ok (handler s) (threads s)" and step: "system_step deliver e s = Some s'"
  shows "dangling_ok (handler s') (threads s')"
proof (cases "failed s'")
  case True
  then show ?thesis using system_step_failed [OF step] ok by auto
next
  case False
  show ?thesis
  proof (cases e)
    case (Run i)
    from system_step_threads [OF step [unfolded Run] False] ok show ?thesis
      by (metis thread_step_dangling)
  qed (use step ok in \<open>auto simp: dangling_ok_def split: if_splits\<close>)
qed

lemma reachable_dangling:
  assumes "run_events deliver es (initial_system num interv bg now rt) = Some s"
  shows "dangling_ok (handler s) (threads s)"
  using assms
proof (rule run_events_invariant [where P = "\<lambda>s. dangling_ok (handler s) (threads s)"])
  show "dangling_ok (handler (initial_system num interv bg now rt)) (threads (initial_system num interv bg now rt))"
    by (simp add: initial_system_def dangling_ok_def make_coalescing_def make_pool_timer_def)
qed (rule system_step_dangling)

text \<open>With a clock that does not go back, the time of the start is not after that of the clock.\<close>

lemma thread_step_started:
  assumes step: "thread_step rt now self pc0 h = Some (pc, new, h')" and "started_at h \<le> now"
  shows "started_at h' \<le> now"
proof (cases pc0)
  case (Put_parcel d p f)
  then show ?thesis using assms
    by (auto simp: put_parcel_def Let_def flush_locked_def split: if_splits option.splits prod.splits append_state.splits)
next
  case (Get_counter k reset)
  then show ?thesis using assms
    by (cases k) (auto simp: get_average_time_between_parcels_def get_parcels_count_def get_messages_count_def
        get_parcels_per_message_count_def Let_def split: if_splits)
qed (use assms in \<open>auto simp: after_start_def invoke_buffer_def timer_flush_def flush_def flush_terminate_def flush_locked_def
    take_buffer_def update_num_messages_def update_interval_def get_time_between_parcels_histogram_creator_def
    split: if_splits prod.splits option.splits start_result.splits\<close>)

lemma system_step_started:
  assumes "started_at (handler s) \<le> clock s" and step: "system_step deliver e s = Some s'" and "\<forall>t. e = Tick t \<longrightarrow> 0 \<le> t"
  shows "started_at (handler s') \<le> clock s'"
proof (cases "failed s'")
  case True
  then show ?thesis using system_step_failed [OF step] assms(1) by auto
next
  case False
  show ?thesis
  proof (cases e)
    case (Run i)
    then have "clock s' = clock s" using step by (auto split: if_splits option.splits)
    with system_step_threads [OF step [unfolded Run] False] assms(1) show ?thesis by (metis thread_step_started)
  qed (use step assms in \<open>auto split: if_splits\<close>)
qed

lemma reachable_started:
  assumes run: "run_events deliver es (initial_system num interv bg now rt) = Some s" and "\<forall>t. Tick t \<in> set es \<longrightarrow> 0 \<le> t"
  shows "started_at (handler s) \<le> clock s"
proof -
  have "(\<forall>t. Tick t \<in> set es \<longrightarrow> 0 \<le> t) \<longrightarrow> started_at (handler s) \<le> clock s"
    using run
  proof (rule run_events_induct)
    show "(\<forall>t. Tick t \<in> set [] \<longrightarrow> 0 \<le> t) \<longrightarrow> started_at (handler (initial_system num interv bg now rt)) \<le> clock (initial_system num interv bg now rt)"
      by (simp add: initial_system_def make_coalescing_def)
  qed (auto intro: system_step_started)
  then show ?thesis using assms(2) by blast
qed

section \<open>Counters\<close>

text \<open>Parcels and messages that a thread has still to count, and messages that it has counted but not sent yet.\<close>

fun to_count :: "('d, 'p, 'f) pc \<Rightarrow> nat" where
  "to_count (Put_parcel d p f) = 1"
| "to_count _ = 0"

fun to_send :: "('d, 'p, 'f) pc \<Rightarrow> nat" where
  "to_send (Invoke c b) = (if messages b = [] then 0 else 1)"
| "to_send (Pp_put_parcel d p f) = 1"
| "to_send (Pp_put_parcels d ps fs) = 1"
| "to_send _ = 0"

lemma after_flush_counts [simp]: "to_count (after_flush c r) = 0" "to_send (after_flush c r) = 0"
  by (cases c; simp)+

lemma take_buffer_counts:
  assumes "take_buffer c h = (pc, h')"
  shows "num_parcels h' = num_parcels h \<and> num_messages h' = num_messages h + int (to_send pc) \<and> sent h' = sent h \<and>
    to_count pc = 0"
  using assms by (cases rule: take_buffer_cases) simp_all

lemma flush_locked_counts:
  assumes "flush_locked mode sb ct c h = (pc, h')"
  shows "num_parcels h' = num_parcels h \<and> num_messages h' = num_messages h + int (to_send pc) \<and> sent h' = sent h \<and>
    to_count pc = 0"
  using assms take_buffer_counts [of c h pc h'] by (auto simp: flush_locked_def split: if_splits)

lemma thread_step_counts:
  assumes ok: "message_buffer_ok (buffer h)" and step: "thread_step rt now self pc0 h = Some (pc, new, h')"
  shows "num_parcels h' + int (to_count pc) = num_parcels h + int (to_count pc0) \<and> (\<Sum>x\<leftarrow>new. to_count x) = 0 \<and>
    num_messages h' - int (length (sent h') + to_send pc + (\<Sum>x\<leftarrow>new. to_send x)) =
    num_messages h - int (length (sent h) + to_send pc0)"
proof (cases pc0)
  case (Put_parcel d p f)
  then have put: "put_parcel now d p f h = Some (pc, h')" and new: "new = []" using step by auto
  from put ok show ?thesis
    by (cases rule: put_parcel_cases) (use put_parcel_frame [OF put] new Put_parcel in auto)
next
  case Timer_flush
  then show ?thesis
    using step flush_locked_counts [of Flush_mode_timer False False By_timer h pc h']
    by (auto simp: timer_flush_def split: if_splits prod.splits)
next
  case (Flush mode sb)
  then show ?thesis
    using step flush_locked_counts [of mode sb True By_flush h pc h'] by (auto simp: flush_def split: prod.splits)
next
  case Flush_terminate
  then show ?thesis
    using step flush_locked_counts [of Flush_mode_timer True True By_terminate h pc h']
    by (auto simp: flush_terminate_def split: prod.splits)
next
  case (Take_buffer c)
  then show ?thesis using step take_buffer_counts [of c h pc h'] by (auto split: prod.splits)
next
  case (Get_counter k reset)
  then show ?thesis using step get_counter_frame [of now k reset h _ h'] by auto
next
  case (Invoke c b)
  then show ?thesis using step by (auto simp: invoke_buffer_def split: if_splits)
qed (use step in \<open>auto simp: after_start_def update_num_messages_def update_interval_def create_histogram_frame
    split: option.splits start_result.splits prod.splits if_splits\<close>)

definition counters_ok :: "nat \<Rightarrow> ('d, 'p, 'f) system \<Rightarrow> bool" where
  "counters_ok n s \<longleftrightarrow>
     num_parcels (handler s) + int (\<Sum>x\<leftarrow>threads s. to_count (snd x)) = int n \<and>
     num_messages (handler s) = int (length (sent (handler s)) + (\<Sum>x\<leftarrow>threads s. to_send (snd x)))"

fun event_count :: "('d, 'p, 'f) event \<Rightarrow> nat" where
  "event_count (Call self pc) = to_count pc"
| "event_count _ = 0"

lemma system_step_counts:
  assumes ok: "message_buffer_ok (buffer (handler s))" and step: "system_step deliver e s = Some s'" and inv: "counters_ok n s"
  shows "counters_ok (n + event_count e) s'"
proof (cases "failed s'")
  case True
  then show ?thesis using system_step_failed [OF step] inv by (auto simp: counters_ok_def)
next
  case False
  show ?thesis
  proof (cases e)
    case (Run i)
    from system_step_threads [OF step [unfolded Run] False] obtain us vs self pc0 pc new
      where at: "threads s = us @ (self, pc0) # vs" "threads s' = us @ (self, pc) # vs @ map (Pair True) new"
        and st: "thread_step (runtime_state s) (clock s) self pc0 (handler s) = Some (pc, new, handler s')" by metis
    have [simp]: "(\<Sum>x\<leftarrow>map (Pair True) new. g (snd x)) = (\<Sum>x\<leftarrow>new. g x)" for g :: "('a, 'b, 'c) pc \<Rightarrow> nat"
      by (simp add: comp_def)
    show ?thesis
      using thread_step_counts [OF ok st] inv by (simp add: counters_ok_def at Run del: map_map sum_list_eq_0_iff)
  next
    case (Call self pc)
    then have "is_call pc" using step by (auto split: if_splits)
    then have "to_send pc = 0" by (cases pc) simp_all
    then show ?thesis using step inv Call by (auto simp: counters_ok_def split: if_splits)
  next
    case (Deliver n er)
    then show ?thesis using step inv by (auto simp: counters_ok_def split: if_splits)
  qed (use step inv in \<open>auto simp: counters_ok_def split: if_splits\<close>)
qed

lemma reachable_counts:
  fixes es :: "('d, 'p, 'f) event list"
  assumes asio: "asio_timer deliver" and run: "run_events deliver es (initial_system num interv bg now rt) = Some s"
  shows "counters_ok (\<Sum>e\<leftarrow>es. event_count e) s"
proof -
  let ?P = "\<lambda>(es :: ('d, 'p, 'f) event list) (s :: ('d, 'p, 'f) system).
    delivery_inv (handler s) (threads s) \<and> counters_ok (\<Sum>e\<leftarrow>es. event_count e) s"
  have "?P es s"
  proof (rule run_events_induct [OF run])
    show "?P [] (initial_system num interv bg now rt)"
      using initial_inv by (simp add: initial_system_def counters_ok_def make_coalescing_def)
    fix es s e s' assume P: "?P es s" and step: "system_step deliver e s = Some s'"
    then show "?P (es @ [e]) s'"
      using system_step_inv [OF asio _ step] system_step_counts [OF _ step] by (simp add: delivery_inv_def)
  qed
  then show ?thesis by simp
qed

lemma event_counts:
  assumes "run_events deliver es s = Some s'"
  shows "(\<Sum>e\<leftarrow>es. event_count e) = length (parcels_put es)"
  using assms
proof (induction es arbitrary: s)
  case Nil
  then show ?case by (simp add: parcels_put_def)
next
  case (Cons e es)
  then obtain s1 where s1: "system_step deliver e s = Some s1" "run_events deliver es s1 = Some s'"
    by (auto simp: bind_eq_Some_conv)
  have "event_count e = length (parcels_put [e])"
  proof (cases e)
    case (Call self pc)
    then have "is_call pc" using s1(1) by (auto split: if_splits)
    then show ?thesis using Call by (cases pc) (simp_all add: parcels_put_def)
  qed (simp_all add: parcels_put_def)
  then show ?case using Cons.IH [OF s1(2)] by (simp add: parcels_put_def)
qed

section \<open>The size of a message\<close>

text \<open>
  A buffer that is full is taken after the timer has been stopped, without the mutex in between. So every thread
  that has found it full may have added a parcel to it.
\<close>

fun found_full :: "('d, 'p, 'f) pc \<Rightarrow> nat" where
  "found_full (Stop_timer c) = (if c = By_put then 1 else 0)"
| "found_full (Take_buffer c) = (if c = By_put then 1 else 0)"
| "found_full _ = 0"

definition size_ok :: "('d, 'p, 'f) coalescing \<Rightarrow> nat \<Rightarrow> bool" where
  "size_ok h k \<longleftrightarrow> length (messages (buffer h)) \<le> max_messages (buffer h) - 1 + k"

lemma size_ok_mono: "size_ok h k \<Longrightarrow> k \<le> k' \<Longrightarrow> size_ok h k'"
  by (simp add: size_ok_def)

lemma take_buffer_size:
  assumes "take_buffer c h = (pc, h')"
  shows "size_ok h' k"
  using assms by (cases rule: take_buffer_cases) (simp_all add: size_ok_def)

lemma flush_locked_size:
  assumes "flush_locked mode sb ct c h = (pc, h')" "size_ok h k"
  shows "size_ok h' k"
  using assms take_buffer_size [of c h pc h'] by (auto simp: flush_locked_def size_ok_def split: if_splits)

lemma thread_step_size:
  assumes ok: "message_buffer_ok (buffer h)" and step: "thread_step rt now self pc0 h = Some (pc, new, h')"
    and size: "size_ok h (k + found_full pc0)"
  shows "size_ok h' (k + found_full pc + (\<Sum>x\<leftarrow>new. found_full x))"
proof (cases pc0)
  case (Put_parcel d p f)
  then have put: "put_parcel now d p f h = Some (pc, h')" and new: "new = []" using step by auto
  from put ok show ?thesis
    by (cases rule: put_parcel_cases) (use new Put_parcel size in \<open>auto simp: size_ok_def\<close>)
next
  case Timer_flush
  then show ?thesis
    using step size flush_locked_size [of Flush_mode_timer False False By_timer h pc h' k]
    by (auto simp: timer_flush_def intro: size_ok_mono split: if_splits prod.splits)
next
  case (Flush mode sb)
  then show ?thesis
    using step size flush_locked_size [of mode sb True By_flush h pc h' k]
    by (auto simp: flush_def intro: size_ok_mono split: prod.splits)
next
  case Flush_terminate
  then show ?thesis
    using step size flush_locked_size [of Flush_mode_timer True True By_terminate h pc h' k]
    by (auto simp: flush_terminate_def intro: size_ok_mono split: prod.splits)
next
  case (Take_buffer c)
  then show ?thesis using step take_buffer_size [of c h pc h'] by (auto split: prod.splits)
next
  case (Get_counter k reset)
  then show ?thesis using step size get_counter_frame [of now k reset h _ h'] by (auto simp: size_ok_def)
next
  case (Invoke c b)
  then show ?thesis using step size by (auto simp: invoke_buffer_def size_ok_def split: if_splits)
qed (use step size in \<open>auto simp: size_ok_def after_start_def update_num_messages_def update_interval_def
    create_histogram_frame split: option.splits start_result.splits prod.splits if_splits\<close>)

lemma system_step_size:
  assumes ok: "message_buffer_ok (buffer (handler s))" and step: "system_step deliver e s = Some s'"
    and size: "size_ok (handler s) (\<Sum>x\<leftarrow>threads s. found_full (snd x))"
  shows "size_ok (handler s') (\<Sum>x\<leftarrow>threads s'. found_full (snd x))"
proof (cases "failed s'")
  case True
  then show ?thesis using system_step_failed [OF step] size by auto
next
  case False
  show ?thesis
  proof (cases e)
    case (Run i)
    from system_step_threads [OF step [unfolded Run] False] obtain us vs self pc0 pc new
      where at: "threads s = us @ (self, pc0) # vs" "threads s' = us @ (self, pc) # vs @ map (Pair True) new"
        and st: "thread_step (runtime_state s) (clock s) self pc0 (handler s) = Some (pc, new, handler s')" by metis
    have [simp]: "(\<Sum>x\<leftarrow>map (Pair True) new. found_full (snd x)) = (\<Sum>x\<leftarrow>new. found_full x)" by (simp add: comp_def)
    show ?thesis
      using thread_step_size [OF ok st, of "(\<Sum>x\<leftarrow>us @ vs. found_full (snd x))"] size
      by (simp add: at ac_simps del: map_map)
  next
    case (Call self pc)
    then show ?thesis using step size by (auto simp: size_ok_def split: if_splits)
  next
    case (Deliver n er)
    then show ?thesis using step size by (auto simp: size_ok_def split: if_splits)
  qed (use step size in \<open>auto split: if_splits\<close>)
qed

lemma reachable_size:
  assumes asio: "asio_timer deliver" and run: "run_events deliver es (initial_system num interv bg now rt) = Some s"
  shows "size_ok (handler s) (\<Sum>x\<leftarrow>threads s. found_full (snd x))"
proof -
  let ?P = "\<lambda>s. delivery_inv (handler s) (threads s) \<and> size_ok (handler s) (\<Sum>x\<leftarrow>threads s. found_full (snd x))"
  have "?P s"
  proof (rule run_events_invariant [OF run])
    show "?P (initial_system num interv bg now rt)"
      using initial_inv by (simp add: initial_system_def size_ok_def make_coalescing_def)
    fix s e s' assume P: "?P s" and step: "system_step deliver e s = Some s'"
    then show "?P s'"
      using system_step_inv [OF asio _ step] system_step_size [OF _ step] by (simp add: delivery_inv_def)
  qed
  then show ?thesis by simp
qed

section \<open>Runs\<close>

text \<open>
  Two parcels that fill the buffer. The first starts the timer, the second takes the buffer and cancels the wait.
\<close>

definition full_buffer :: "(nat, nat, nat) event list" where
  "full_buffer = [Call True (Put_parcel 7 1 1), Lock 0, Run 0, Lock 0, Run 0, Run 0, Lock 0, Run 0,
     Tick 10, Call True (Put_parcel 7 2 2), Lock 1, Run 1, Lock 1, Run 1, Lock 1, Run 1, Run 1, Deliver 0 True, Run 2, Run 2]"

lemmas run_defs = initial_system_def make_coalescing_def make_pool_timer_def make_message_buffer_def
  background_flush_allowed_def put_parcel_def message_buffer_empty_def message_buffer_append_def flush_locked_def take_buffer_def
  invoke_buffer_def after_start_def start_def arm_def register_terminate_def register_pre_shutdown_function_def
  state_pre_shutdown_def stop_def stop_locked_def handler_proceeds_def handler_reset_def timer_flush_def flush_def
  flush_terminate_def terminate_stops_nothing delete_timer_def reset_timer_def microseconds_def prompt_timer_def
  may_lock_def may_run_def give_up_def

lemma full_buffer_run:
  "run_events prompt_timer full_buffer (initial_system 2 100 ''1'' 0 None) = Some
     \<lparr>handler = (make_coalescing 2 100 ''1'' 0)\<lparr>
        timer := \<lparr>on_term = True, pre_shutdown = True, is_started = False, first_start = False, is_terminated = False,
          is_stopped = True, timer_present = True, timer_alive = True,
          timer_ops = [Handler_called 0 True, Timer_cancel, Async_wait, Expires_from_now 100000], registered = [True]\<rparr>,
        num_parcels := 2, num_messages := 1, last_parcel_time := 10, sent := [(Some 7, [1, 2], [1, 2])]\<rparr>,
      threads = [(True, Finished Nothing), (True, Finished Nothing), (False, Finished Nothing)],
      locks = [], clock = 10, runtime_state = None, failed = False\<rparr>"
  by (simp add: full_buffer_def run_defs)

lemma full_buffer_at_rest:
  "\<exists>s. run_events prompt_timer full_buffer (initial_system 2 100 ''1'' 0 None) = Some s \<and> at_rest prompt_timer s \<and>
     (\<forall>x\<in>set (threads s). snd x \<noteq> Threw) \<and> sent (handler s) = [(Some 7, [1, 2], [1, 2])]"
  by (simp add: full_buffer_run at_rest_def prompt_timer_def)

text \<open>
  The first parcel starts the timer for the first time. While the thread registers, the timer is terminated, and it
  has been deleted when the thread goes on.
\<close>

definition late_start :: "(nat, nat, nat) event list" where
  "late_start = [Call True (Put_parcel 7 1 1), Lock 0, Run 0, Lock 0, Run 0, Run 0,
     Call True Terminate, Lock 1, Run 1, Lock 1, Run 1, Lock 1, Run 1, Lock 1, Run 1, Run 1, Run 1, Run 1, Lock 0, Run 0]"

lemma late_start_fails:
  "\<exists>s. run_events prompt_timer late_start (initial_system 2 100 ''1'' 0 None) = Some s \<and> failed s \<and>
     \<not> timer_present (timer (handler s))"
  by (simp add: late_start_def run_defs)

text \<open>
  With the pointer not reset yet the assertion holds, and the thread uses a timer that has been deleted: \<open>terminate\<close> does not
  hold the mutex when it deletes the timer.
\<close>

lemma freed_timer_used:
  "\<exists>s. run_events prompt_timer (butlast (butlast (butlast late_start)) @ [Lock 0, Run 0]) (initial_system 2 100 ''1'' 0 None) = Some s \<and>
     failed s \<and> timer_present (timer (handler s)) \<and> \<not> timer_alive (timer (handler s))"
  by (simp add: late_start_def run_defs)

text \<open>Two terminations that overlap: the second deletes the timer before the first has reset the pointer.\<close>

lemma timer_deleted_twice:
  "\<exists>s. run_events prompt_timer [Call True (Terminate :: (nat, nat, nat) pc), Lock 0, Run 0, Lock 0, Run 0, Lock 0, Run 0, Lock 0, Run 0, Run 0,
         Call True Terminate, Lock 1, Run 1, Run 1] (initial_system 2 100 ''1'' 0 None) = Some s \<and>
     failed s \<and> threads s = [(True, Reset_timer False), (True, Delete_timer True)]"
  by (simp add: run_defs)

text \<open>A clock that has gone back makes the counter of the average time fail.\<close>

lemma clock_back_fails:
  "\<exists>s. run_events prompt_timer [Call True (Put_parcel (7::nat) (1::nat) (1::nat)), Lock 0, Run 0, Tick (-5),
         Call True (Get_counter Average_time False), Lock 1, Run 1] (initial_system 2 100 ''1'' 0 None) = Some s \<and> failed s"
  by (simp add: run_defs get_average_time_between_parcels_def)

text \<open>
  A parcel that is put when it is too late to register the termination: the exception leaves it in the buffer, and
  nothing is going to take it.
\<close>

lemma late_registration_strands_parcel:
  "\<exists>s. run_events prompt_timer [Call True (Put_parcel (7::nat) (1::nat) (1::nat)), Lock 0, Run 0, Lock 0, Run 0, Run 0, Lock 0, Run 0]
       (initial_system 2 100 ''1'' 0 (Some state_shutdown)) = Some s \<and>
     at_rest prompt_timer s \<and> messages (buffer (handler s)) = [1] \<and> sent (handler s) = []"
  by (simp add: run_defs state_shutdown_def at_rest_def)

text \<open>Two threads find the same buffer full, and the message has one parcel more than configured.\<close>

lemma message_exceeds_number:
  "\<exists>s. run_events prompt_timer [Call True (Put_parcel (7::nat) (1::nat) (1::nat)), Lock 0, Run 0,
         Call True (Put_parcel 7 2 2), Lock 1, Run 1, Lock 0, Run 0, Lock 0, Run 0, Run 0, Lock 1, Run 1, Lock 1, Run 1]
       (initial_system 1 100 ''1'' 0 None) = Some s \<and>
     at_rest prompt_timer s \<and> num_coalesced_parcels (handler s) = 1 \<and> sent (handler s) = [(Some 7, [1, 2], [1, 2])]"
  by (simp add: run_defs at_rest_def)

text \<open>
  The handler of a wait that has been cancelled resets \<open>is_started_\<close> although the timer has been started again. A flush
  does not cancel the new wait then, and the next parcel starts the timer once more, with a new expiry time.
\<close>

lemma cancelled_wait_hides_timer:
  "\<exists>s. run_events prompt_timer [Call True (Put_parcel (7::nat) (1::nat) (1::nat)), Lock 0, Run 0, Lock 0, Run 0, Run 0, Lock 0, Run 0,
         Call True (Flush Flush_mode_timer False), Lock 1, Run 1, Lock 1, Run 1, Lock 1, Run 1, Run 1,
         Tick 10, Call True (Put_parcel 7 2 2), Lock 2, Run 2, Lock 2, Run 2, Deliver 0 True, Run 3, Run 3,
         Tick 10, Call True (Put_parcel 7 3 3), Lock 4, Run 4]
       (initial_system 5 100 ''1'' 0 None) = Some s \<and>
     uncancelled (timer_ops (timer (handler s))) = [1] \<and> \<not> is_started (timer (handler s)) \<and>
     threads s ! 4 = (True, Timer_start 100000)"
  by (simp add: run_defs)

text \<open>A histogram that is read before the next parcel has no samples, and its values are undefined.\<close>

lemma histogram_without_samples:
  assumes "time_between_parcels h = None"
  shows "get_time_between_parcels_histogram reset (get_time_between_parcels_histogram_creator now mn mx nb h) =
    Inl Undefined_conversion"
  using assms by (simp add: get_time_between_parcels_histogram_def get_time_between_parcels_histogram_creator_def
      histogram_result_def make_histogram_def)

section \<open>Theorems\<close>

text \<open>C19: Every parcel that is put is handed to the parcelport exactly once, with its destination and its write handler.
  However the calls of \<open>put_parcel\<close>, \<open>flush\<close> and \<open>terminate\<close> and the timer interleave, when
  nothing is left to run then the buffer is empty and the parcels that have been sent are those that have been put, unless
  a thread could not register the timer with the runtime.\<close>

theorem coalescing_sends_every_parcel_once:
  assumes "asio_timer deliver"
    and "run_events deliver es (initial_system num interv bg now rt) = Some s"
    and "at_rest deliver s" "\<forall>x\<in>set (threads s). snd x \<noteq> Threw"
  shows "messages (buffer (handler s)) = [] \<and> mset (sent_parcels (handler s)) = mset (parcels_put es)"
proof -
  have "\<not> has (threads s) threw"
  proof
    assume "has (threads s) threw"
    then obtain x where "x \<in> set (threads s)" "threw (snd x)" by (auto simp: has_def)
    then show False using assms(3,4) by (cases "snd x") (auto simp: at_rest_def)
  qed
  then have "messages (buffer (handler s)) = []"
    using at_rest_empty [OF assms(1) reachable_inv [OF assms(1,2)] assms(3)] by simp
  then show ?thesis using at_rest_sent [OF assms(3)] reachable_parcels [OF assms(1,2)] by simp
qed

theorem coalescing_sends_every_parcel_once_witness:
  "\<exists>s. run_events prompt_timer full_buffer (initial_system 2 100 ''1'' 0 None) = Some s \<and>
     messages (buffer (handler s)) = [] \<and> mset (sent_parcels (handler s)) = {#(Some 7, 1, 1), (Some 7, 2, 2)#}"
proof -
  obtain s where s: "run_events prompt_timer full_buffer (initial_system 2 100 ''1'' 0 None) = Some s"
    "at_rest prompt_timer s" "\<forall>x\<in>set (threads s). snd x \<noteq> Threw"
    using full_buffer_at_rest by blast
  from coalescing_sends_every_parcel_once [OF asio_prompt_timer s] s(1) show ?thesis
    by (simp add: parcels_put_def full_buffer_def)
qed

text \<open>C20: The threads do not go on for ever, whatever they do, and they do not block each other: in any run, threads and timer together
  take no more steps than a number that depends on the calls only, 28 for each and the locking of mutexes included; as long as
  no assertion has failed and no deleted timer has been used, a thread that holds one of the two mutexes can run, so that nobody
  waits for it in vain, and there is a step to do until every thread has finished and the timer is not going to call any more.\<close>

theorem coalescing_calls_end:
  assumes "asio_timer deliver" "run_events deliver es (initial_system num interv bg now rt) = Some s"
  shows "length (filter is_internal es) \<le> 4 + 28 * length (filter is_new_call es) \<and>
    (\<not> failed s \<longrightarrow> (\<forall>(m, i)\<in>set (locks s). \<exists>s'. system_step deliver (Run i) s = Some s') \<and>
      (at_rest deliver s \<or> (\<exists>e s'. is_internal e \<and> system_step deliver e s = Some s')))"
proof
  have "event_work e \<le> (if is_new_call e then 14 else 0)" for e :: "('a, 'b, 'c) event"
  proof (cases e)
    case (Call self pc)
    then show ?thesis by (cases pc) simp_all
  qed simp_all
  then have "(\<Sum>e\<leftarrow>es. event_work e) \<le> (\<Sum>e\<leftarrow>es. if is_new_call e then 14 else 0)" by (intro sum_list_mono) simp
  also have "\<dots> = 14 * length (filter is_new_call es)" by (induction es) simp_all
  finally show "length (filter is_internal es) \<le> 4 + 28 * length (filter is_new_call es)"
    using run_events_ahead [OF assms(1) reachable_locks [OF run_events.simps(1)] assms(2)]
    by (simp add: steps_ahead_def work_ahead_def initial_system_def make_coalescing_def make_pool_timer_def)
  note ok = reachable_locks [OF assms(2)]
  show "\<not> failed s \<longrightarrow> (\<forall>(m, i)\<in>set (locks s). \<exists>s'. system_step deliver (Run i) s = Some s') \<and>
      (at_rest deliver s \<or> (\<exists>e s'. is_internal e \<and> system_step deliver e s = Some s'))"
  proof (intro impI conjI ballI)
    fix x assume "\<not> failed s" "x \<in> set (locks s)"
    then show "case x of (m, i) \<Rightarrow> \<exists>s'. system_step deliver (Run i) s = Some s'"
      using owner_runs [OF ok] by (cases x) blast
  qed (use progress [OF ok] in blast)
qed

text \<open>A thread has taken the mutex of the handler, and another one waits for it.\<close>

definition contended :: "(nat, nat, nat) event list" where
  "contended = [Call True (Put_parcel 7 1 1), Call True (Put_parcel 7 2 2), Lock 0]"

lemma contended_run:
  "\<exists>s. run_events prompt_timer contended (initial_system 2 100 ''1'' 0 None) = Some s \<and> \<not> failed s \<and> locks s = [(Handler_mutex, 0)] \<and>
     system_step prompt_timer (Lock 1) s = None \<and> system_step prompt_timer (Run 1) s = None"
  by (simp add: contended_def run_defs)

theorem coalescing_calls_end_witness:
  "\<exists>s. run_events prompt_timer contended (initial_system 2 100 ''1'' 0 None) = Some s \<and>
     length (filter is_internal contended) \<le> 4 + 28 * length (filter is_new_call contended) \<and>
     system_step prompt_timer (Lock 1) s = None \<and> system_step prompt_timer (Run 1) s = None \<and>
     (\<exists>s'. system_step prompt_timer (Run 0) s = Some s')"
proof -
  obtain s where s: "run_events prompt_timer contended (initial_system 2 100 ''1'' 0 None) = Some s" "\<not> failed s"
    "locks s = [(Handler_mutex, 0)]" "system_step prompt_timer (Lock 1) s = None" "system_step prompt_timer (Run 1) s = None"
    using contended_run by blast
  from coalescing_calls_end [OF asio_prompt_timer s(1)] have
    "length (filter is_internal contended) \<le> 4 + 28 * length (filter is_new_call contended)"
    "\<forall>(m, i)\<in>set (locks s). \<exists>s'. system_step prompt_timer (Run i) s = Some s'" using s(2) by blast+
  then show ?thesis using s(1,3-5) by auto
qed

text \<open>C21: With parcels for one destination only and a clock that does not go back, an assertion fails, or a deleted timer is used, only
  while the timer is being terminated, and only in two ways: a thread that is starting the timer for the first time has registered
  the termination with the runtime without holding the mutex, and when it goes on the timer has been deleted;
  or two terminations overlap, and the second deletes the timer while the first, which does not hold the mutex either, has
  still to reset the pointer.\<close>

theorem coalescing_assertions_hold:
  assumes "asio_timer deliver" "run_events deliver es (initial_system num interv bg now rt) = Some s"
    and "\<forall>x\<in>set (parcels_put es). fst x = Some d"
    and "\<forall>t. Tick t \<in> set es \<longrightarrow> 0 \<le> t"
    and "failed s"
  shows "is_terminated (timer (handler s)) \<and>
    ((\<exists>self du. (self, Timer_arm du) \<in> set (threads s)) \<and>
       (\<not> timer_present (timer (handler s)) \<or> \<not> timer_alive (timer (handler s))) \<or>
     (\<exists>self l self' l'. (self, Delete_timer l) \<in> set (threads s) \<and> (self', Reset_timer l') \<in> set (threads s)) \<and>
       timer_present (timer (handler s)) \<and> \<not> timer_alive (timer (handler s)))"
proof -
  obtain self pc where at: "(self, pc) \<in> set (threads s)" "assertion_fails (clock s) (handler s) pc"
    using reachable_failed [OF assms(1,2,5)] by (auto simp: has_def)
  have ok: "timer_ok (timer (handler s))" using reachable_inv [OF assms(1,2)] by (simp add: delivery_inv_def)
  from at(2) show ?thesis
  proof (cases rule: assertion_fails.elims(2))
    case (1 d' p f)
    then show ?thesis using one_destination [OF assms(1-3)] at(1) by blast
  next
    case (2 du)
    then show ?thesis using at(1) by blast
  next
    case (3 l)
    then obtain self' pc' where r: "(self', pc') \<in> set (threads s)" "resetting pc'"
      using reachable_dangling [OF assms(2)] by (auto simp: dangling_ok_def has_def)
    from r(2) obtain l' where "pc' = Reset_timer l'" by (cases pc') simp_all
    then show ?thesis using 3 at(1) r(1) ok by (auto simp: timer_ok_def)
  next
    case (4 reset)
    then show ?thesis using reachable_started [OF assms(2,4)] by simp
  qed
qed

theorem coalescing_assertions_hold_witness:
  "\<exists>s. run_events prompt_timer late_start (initial_system 2 100 ''1'' 0 None) = Some s \<and>
     is_terminated (timer (handler s)) \<and> (\<exists>self du. (self, Timer_arm du) \<in> set (threads s))"
proof -
  obtain s where s: "run_events prompt_timer late_start (initial_system 2 100 ''1'' 0 None) = Some s" "failed s"
    "\<not> timer_present (timer (handler s))"
    using late_start_fails by blast
  have d: "\<forall>x\<in>set (parcels_put late_start). fst x = Some 7" by (simp add: parcels_put_def late_start_def)
  have t: "\<forall>t. Tick t \<in> set late_start \<longrightarrow> 0 \<le> t" by (simp add: late_start_def)
  from coalescing_assertions_hold [OF asio_prompt_timer s(1) d t s(2)] s(1,3) show ?thesis by blast
qed

text \<open>C22: A buffer never has more parcels than the configured number less one, and one more for each call of
  \<open>put_parcel\<close> that has found it full and has not taken it yet: a single thread sends no message with more than
  the configured number of parcels. The counters agree with what happens: when nothing is left to run, they are the
  number of calls of \<open>put_parcel\<close> and the number of messages that have been sent.\<close>

theorem coalescing_sizes_and_counters:
  assumes "asio_timer deliver" "run_events deliver es (initial_system num interv bg now rt) = Some s"
  shows "length (messages (buffer (handler s))) \<le>
      max_messages (buffer (handler s)) - 1 + (\<Sum>x\<leftarrow>threads s. found_full (snd x)) \<and>
    (at_rest deliver s \<longrightarrow>
      num_parcels (handler s) = int (length (parcels_put es)) \<and> num_messages (handler s) = int (length (sent (handler s))))"
proof (intro conjI impI)
  show "length (messages (buffer (handler s))) \<le>
      max_messages (buffer (handler s)) - 1 + (\<Sum>x\<leftarrow>threads s. found_full (snd x))"
    using reachable_size [OF assms] by (simp add: size_ok_def)
  assume "at_rest deliver s"
  then have fin: "\<forall>x\<in>set (threads s). finished (snd x)" by (simp add: at_rest_def)
  have "to_count pc = 0 \<and> to_send pc = 0" if "finished pc" for pc :: "('a, 'b, 'c) pc" using that by (cases pc) simp_all
  then have "(\<Sum>x\<leftarrow>threads s. to_count (snd x)) = 0" "(\<Sum>x\<leftarrow>threads s. to_send (snd x)) = 0"
    using fin by simp_all
  then show "num_parcels (handler s) = int (length (parcels_put es))" "num_messages (handler s) = int (length (sent (handler s)))"
    using reachable_counts [OF assms] event_counts [OF assms(2)] by (simp_all add: counters_ok_def del: sum_list_eq_0_iff)
qed

theorem coalescing_sizes_and_counters_witness:
  "\<exists>s. run_events prompt_timer full_buffer (initial_system 2 100 ''1'' 0 None) = Some s \<and> at_rest prompt_timer s \<and>
     num_parcels (handler s) = 2 \<and> num_messages (handler s) = 1"
proof -
  obtain s where s: "run_events prompt_timer full_buffer (initial_system 2 100 ''1'' 0 None) = Some s"
    "at_rest prompt_timer s" "sent (handler s) = [(Some 7, [1, 2], [1, 2])]"
    using full_buffer_at_rest by blast
  from coalescing_sizes_and_counters [OF asio_prompt_timer s(1)] s show ?thesis
    by (simp add: parcels_put_def full_buffer_def)
qed

end
