(* ===== verification/Coalescing_Registry.thy ===== *)
theory Coalescing_Registry
  imports Main
begin

text \<open>
  The registry of the counters of coalescing message handlers,
  \<^verbatim>\<open>plugins/parcel/coalescing/coalescing_counter_registry.cpp\<close>: for every action the functions that read the counters
  of its message handler, and the discovery of counters by the names of actions, which may be patterns.

  The functions are values of arbitrary types, and an empty one is \<open>None\<close>. The table has no particular
  order, so it is a list with the actions in the order in which they are visited. Matching of patterns and the names of
  counters are the work of other components and arguments here. A thread that locks the mutex while it holds it waits for
  ever, which is the result \<open>Deadlock\<close>.
\<close>

record ('c, 'h) counter_functions =
  fn_num_parcels :: "'c option"
  fn_num_messages :: "'c option"
  fn_num_parcels_per_message :: "'c option"
  fn_average_time_between_parcels :: "'c option"
  fn_histogram_creator :: "'h option"
  min_boundary :: int
  max_boundary :: int
  num_buckets :: int

type_synonym ('c, 'h) registry = "(string \<times> ('c, 'h) counter_functions) list"

datatype registry_error = Bad_parameter

text \<open>
  Registration of the functions of a message handler. The second component of the result is the call of the creator, if
  boundaries have been asked for before.
\<close>

definition register_functions ::
    "string \<Rightarrow> 'c option \<Rightarrow> 'c option \<Rightarrow> 'c option \<Rightarrow> 'c option \<Rightarrow> 'h option \<Rightarrow> ('c, 'h) registry \<Rightarrow>
     registry_error + (int \<times> int \<times> int) option \<times> ('c, 'h) registry" where
  "register_functions name np nm npm av hc reg =
     (if name = [] then Inl Bad_parameter
      else case map_of reg name of
          None \<Rightarrow> Inr (None, reg @ [(name, \<lparr>fn_num_parcels = np, fn_num_messages = nm, fn_num_parcels_per_message = npm,
             fn_average_time_between_parcels = av, fn_histogram_creator = hc,
             min_boundary = 0, max_boundary = 0, num_buckets = 1\<rparr>)])
        | Some data \<Rightarrow>
            let data = data\<lparr>fn_num_parcels := np, fn_num_messages := nm, fn_num_parcels_per_message := npm,
                fn_average_time_between_parcels := av, fn_histogram_creator := hc\<rparr>
            in Inr (if min_boundary data \<noteq> max_boundary data
                    then Some (min_boundary data, max_boundary data, num_buckets data) else None,
                  map (\<lambda>(k, v). if k = name then (k, data) else (k, v)) reg))"

definition register_action :: "string \<Rightarrow> ('c, 'h) registry \<Rightarrow> registry_error + ('c, 'h) registry" where
  "register_action name reg =
     (if name = [] then Inl Bad_parameter
      else case map_of reg name of
          None \<Rightarrow> Inr (reg @ [(name, \<lparr>fn_num_parcels = None, fn_num_messages = None, fn_num_parcels_per_message = None,
             fn_average_time_between_parcels = None, fn_histogram_creator = None,
             min_boundary = 0, max_boundary = 0, num_buckets = 0\<rparr>)])
        | Some data \<Rightarrow> Inr reg)"

definition get_parcels_counter :: "string \<Rightarrow> ('c, 'h) registry \<Rightarrow> registry_error + 'c option" where
  "get_parcels_counter name reg =
     (case map_of reg name of None \<Rightarrow> Inl Bad_parameter | Some data \<Rightarrow> Inr (fn_num_parcels data))"

definition get_messages_counter :: "string \<Rightarrow> ('c, 'h) registry \<Rightarrow> registry_error + 'c option" where
  "get_messages_counter name reg =
     (case map_of reg name of None \<Rightarrow> Inl Bad_parameter | Some data \<Rightarrow> Inr (fn_num_messages data))"

definition get_parcels_per_message_counter :: "string \<Rightarrow> ('c, 'h) registry \<Rightarrow> registry_error + 'c option" where
  "get_parcels_per_message_counter name reg =
     (case map_of reg name of None \<Rightarrow> Inl Bad_parameter | Some data \<Rightarrow> Inr (fn_num_parcels_per_message data))"

definition get_average_time_between_parcels_counter :: "string \<Rightarrow> ('c, 'h) registry \<Rightarrow> registry_error + 'c option" where
  "get_average_time_between_parcels_counter name reg =
     (case map_of reg name of None \<Rightarrow> Inl Bad_parameter | Some data \<Rightarrow> Inr (fn_average_time_between_parcels data))"

text \<open>
  The histogram: its creator is called, with the boundaries, or they are kept until there is one. The result has the
  creator that has been called, or nothing.
\<close>

definition get_time_between_parcels_histogram_counter ::
    "string \<Rightarrow> int \<Rightarrow> int \<Rightarrow> int \<Rightarrow> ('c, 'h) registry \<Rightarrow> registry_error + 'h option \<times> ('c, 'h) registry" where
  "get_time_between_parcels_histogram_counter name mn mx nb reg = (case map_of reg name of
       None \<Rightarrow> Inl Bad_parameter
     | Some data \<Rightarrow> (case fn_histogram_creator data of
          None \<Rightarrow> Inr (None, map (\<lambda>(k, v). if k = name then
             (k, data\<lparr>min_boundary := mn, max_boundary := mx, num_buckets := nb\<rparr>) else (k, v)) reg)
        | Some c \<Rightarrow> Inr (Some c, reg)))"

section \<open>Discovery of counters\<close>

record counter_path_elements =
  parentinstancename :: string
  parentinstanceindex :: int
  instancename :: string
  instanceindex :: int
  parameters :: string

datatype discover_mode = Discover_counters_minimal | Discover_counters_full

text \<open>The full names for which the callback has been called, and the result with the types that an error names.\<close>

datatype discovery = Deadlock | Discovered "string list" bool | Unknown_type "string list" string

definition default_instances :: "discover_mode \<Rightarrow> counter_path_elements \<Rightarrow> counter_path_elements" where
  "default_instances mode p =
     (if mode = Discover_counters_minimal \<or> parentinstancename p = [] \<or> instancename p = [] then
        let p = (if parentinstancename p = [] then p\<lparr>parentinstancename := ''locality#*'', parentinstanceindex := -1\<rparr> else p)
        in if instancename p = [] then p\<lparr>instancename := ''total'', instanceindex := -1\<rparr> else p
      else p)"

definition known_types :: "('c, 'h) registry \<Rightarrow> string" where
  "known_types reg = concat (map (\<lambda>(k, _). ''  '' @ k @ [CHR 0x0A]) reg)"

text \<open>\<open>None\<close> of the name of a counter is an error. The loop gives the calls, and \<open>None\<close> if it has ended early.\<close>

fun discover_matching ::
    "(string \<Rightarrow> bool) \<Rightarrow> (counter_path_elements \<Rightarrow> string option) \<Rightarrow> (string \<Rightarrow> bool) \<Rightarrow> counter_path_elements \<Rightarrow>
     string \<Rightarrow> ('c, 'h) registry \<Rightarrow> string list \<times> bool option" where
  "discover_matching rx get_counter_name f p extra [] = ([], Some False)"
| "discover_matching rx get_counter_name f p extra ((k, _) # reg) =
     (if \<not> rx k then discover_matching rx get_counter_name f p extra reg
      else case get_counter_name (p\<lparr>parameters := k @ extra\<rparr>) of
          None \<Rightarrow> ([], None)
        | Some fullname \<Rightarrow>
            if \<not> f fullname then ([fullname], None)
            else let (ns, r) = discover_matching rx get_counter_name f p extra reg
              in (fullname # ns, map_option (\<lambda>_. True) r))"

definition counter_discoverer ::
    "(string \<Rightarrow> (string \<Rightarrow> bool) option) \<Rightarrow> (counter_path_elements \<Rightarrow> string option) \<Rightarrow> (string \<Rightarrow> bool) \<Rightarrow>
     discover_mode \<Rightarrow> counter_path_elements \<Rightarrow> ('c, 'h) registry \<Rightarrow> discovery" where
  "counter_discoverer regex_from_pattern get_counter_name f mode p reg =
     (let p = default_instances mode p in
      if parameters p = [] \<and> mode = Discover_counters_minimal then
        (case get_counter_name p of None \<Rightarrow> Discovered [] False | Some fullname \<Rightarrow> Discovered [fullname] (f fullname))
      else
        let p = (if parameters p = [] then p\<lparr>parameters := ''*''\<rparr> else p);
            params = takeWhile (\<lambda>c. c \<noteq> CHR '','') (parameters p);
            extra = dropWhile (\<lambda>c. c \<noteq> CHR '','') (parameters p)
        in
          if list_ex (\<lambda>c. c \<in> set ''*?[]'') params then
            (case regex_from_pattern params of
               None \<Rightarrow> Discovered [] False
             | Some rx \<Rightarrow> (case discover_matching rx get_counter_name f p extra reg of
                  (ns, None) \<Rightarrow> Discovered ns False
                | (ns, Some False) \<Rightarrow> Deadlock
                | (ns, Some True) \<Rightarrow> Discovered ns True))
          else if map_of reg params = None then Unknown_type [] (known_types reg)
          else case get_counter_name p of
              None \<Rightarrow> Discovered [] False
            | Some fullname \<Rightarrow> Discovered [fullname] (f fullname))"

text \<open>
  After a registration the counters of the action are those that have been registered, and those of other actions
  are as before.
\<close>

lemma map_of_replace:
  "map_of (map (\<lambda>(k, v). if k = name then (k, data) else (k, v)) reg) k =
     (if k = name then map_option (\<lambda>_. data) (map_of reg k) else map_of reg k)"
  by (induction reg) auto

lemma register_functions_lookup:
  assumes "register_functions name np nm npm av hc reg = Inr (call, reg')"
  shows "get_parcels_counter name reg' = Inr np" "get_messages_counter name reg' = Inr nm"
    "get_parcels_per_message_counter name reg' = Inr npm" "get_average_time_between_parcels_counter name reg' = Inr av"
    "\<And>k. k \<noteq> name \<Longrightarrow> map_of reg' k = map_of reg k"
  using assms
  by (auto simp: register_functions_def get_parcels_counter_def get_messages_counter_def
      get_parcels_per_message_counter_def get_average_time_between_parcels_counter_def Let_def map_of_replace map_add_def
      split: if_splits option.splits)

text \<open>Boundaries that are asked for before there is a message handler are passed on when it registers.\<close>

lemma boundaries_passed_on:
  assumes "get_time_between_parcels_histogram_counter name mn mx nb reg = Inr (None, reg1)" "name \<noteq> []" "mn \<noteq> mx"
  shows "\<exists>reg2. register_functions name np nm npm av hc reg1 = Inr (Some (mn, mx, nb), reg2)"
  using assms
  by (auto simp: get_time_between_parcels_histogram_counter_def register_functions_def Let_def map_of_replace
      split: option.splits)

text \<open>
  A pattern that matches no action: the mutex is locked again in order to list the actions, while it is still held.
\<close>

lemma discover_matching_none:
  assumes "\<forall>(k, v)\<in>set reg. \<not> rx k"
  shows "discover_matching rx get_counter_name f p extra reg = ([], Some False)"
  using assms by (induction reg) auto

lemma unmatched_pattern_deadlocks:
  assumes "parameters p \<noteq> []" "list_ex (\<lambda>c. c \<in> set ''*?[]'') (parameters p)" "CHR '','' \<notin> set (parameters p)"
    and "regex_from_pattern (parameters p) = Some rx" "\<forall>(k, v)\<in>set reg. \<not> rx k"
  shows "counter_discoverer regex_from_pattern get_counter_name f mode p reg = Deadlock"
proof -
  have params: "parameters (default_instances mode p) = parameters p"
    by (simp add: default_instances_def Let_def)
  have whole: "takeWhile (\<lambda>c. c \<noteq> CHR '','') (parameters p) = parameters p" "dropWhile (\<lambda>c. c \<noteq> CHR '','') (parameters p) = []"
    using assms(3) by (auto simp: takeWhile_eq_all_conv)
  show ?thesis
    using assms(1,2,4) by (simp add: counter_discoverer_def Let_def params whole discover_matching_none [OF assms(5)])
qed

text \<open>A pattern that matches gives one name for each action that it matches, as long as the callback goes on.\<close>

lemma discover_matching_all:
  assumes "\<And>q. get_counter_name q \<noteq> None" "\<And>n. f n"
  shows "discover_matching rx get_counter_name f p extra reg =
    (map (\<lambda>k. the (get_counter_name (p\<lparr>parameters := k @ extra\<rparr>))) (filter rx (map fst reg)), Some (\<exists>k\<in>set (map fst reg). rx k))"
proof (induction reg)
  case (Cons x reg)
  obtain n where "get_counter_name (p\<lparr>parameters := fst x @ extra\<rparr>) = Some n" using assms(1) by blast
  then show ?case using Cons assms(2) by (cases x) auto
qed simp

end
