(* ===== verification/Parcel_Dispatch.thy ===== *)
theory Parcel_Dispatch
  imports Gva_Types "HOL-Library.Multiset"
begin

text \<open>
  How the parcel handler dispatches parcels, \<^verbatim>\<open>src/runtime/parcelset/parcelhandler.cpp\<close>: the parcelports in the order
  of their priorities, the message handlers by destination and action, and \<open>put_parcel\<close> and \<open>put_parcels\<close>, which hand
  a parcel to a message handler, to a parcelport or to the routing of the addressing service.

  What these functions do to other components is a list of actions, in order; the message handlers
  are numbered in the order of their creation. The answers of the addressing service, of the parcelports, of the thread manager and of
  the runtime are components of an environment that does not change during a call. An exception ends a call, and the
  actions before it have been done.
\<close>

section \<open>Parcelports\<close>

record 'e parcelport =
  port_type :: string
  port_priority :: int
  port_here :: 'e
  can_connect :: "'e \<Rightarrow> bool \<Rightarrow> bool"

type_synonym 'e handler_key = "'e \<times> string"

record 'e parcelhandler =
  pports :: "(int \<times> 'e parcelport) list"
  priorities :: "string \<rightharpoonup> int"
  endpoints :: "string \<rightharpoonup> 'e"
  use_alternative_parcelports :: bool
  load_message_handlers :: bool
  count_routed :: nat
  handlers :: "'e handler_key \<rightharpoonup> nat option"
  handlers_created :: nat

definition make_parcelhandler :: "int \<Rightarrow> 'e parcelhandler" where
  "make_parcelhandler message_handlers = \<lparr>pports = [], priorities = Map.empty, endpoints = Map.empty,
     use_alternative_parcelports = False, load_message_handlers = (message_handlers \<noteq> 0), count_routed = 0,
     handlers = Map.empty, handlers_created = 0\<rparr>"

text \<open>Assignment to an entry of \<open>pports_\<close>, which is ordered by descending priority.\<close>

fun ports_assign :: "int \<Rightarrow> 'e parcelport \<Rightarrow> (int \<times> 'e parcelport) list \<Rightarrow> (int \<times> 'e parcelport) list" where
  "ports_assign k pp [] = [(k, pp)]"
| "ports_assign k pp ((k', pp') # ps) =
     (if k > k' then (k, pp) # (k', pp') # ps
      else if k = k' then (k, pp) # ps
      else (k', pp') # ports_assign k pp ps)"

definition attach_parcelport :: "(string \<Rightarrow> string) \<Rightarrow> 'e parcelport option \<Rightarrow> 'e parcelhandler \<Rightarrow> 'e parcelhandler" where
  "attach_parcelport get_config_entry pp ph = (case pp of
       None \<Rightarrow> ph
     | Some pp \<Rightarrow>
         let priority = (if get_config_entry (''hpx.parcel.'' @ port_type pp @ ''.enable'') \<noteq> ''1''
                         then - port_priority pp else port_priority pp);
             ph = ph\<lparr>pports := ports_assign priority pp (pports ph),
                     priorities := (priorities ph)(port_type pp \<mapsto> priority)\<rparr>
         in if priority > 0 then ph\<lparr>endpoints := (endpoints ph)(port_type pp \<mapsto> port_here pp)\<rparr> else ph)"

definition get_priority :: "string \<Rightarrow> 'e parcelhandler \<Rightarrow> int" where
  "get_priority name ph = (case priorities ph name of None \<Rightarrow> 0 | Some k \<Rightarrow> k)"

definition find_parcelport :: "string \<Rightarrow> 'e parcelhandler \<Rightarrow> 'e parcelport option" where
  "find_parcelport name ph =
     (let priority = get_priority name ph in if priority \<le> 0 then None else map_of (pports ph) priority)"

definition find_endpoint :: "(string \<rightharpoonup> 'e) \<Rightarrow> string \<Rightarrow> 'e option" where
  "find_endpoint eps name = eps name"

fun find_destination ::
    "bool \<Rightarrow> (string \<rightharpoonup> 'e) \<Rightarrow> (int \<times> 'e parcelport) list \<Rightarrow> ('e parcelport \<times> 'e) option" where
  "find_destination alt eps [] = None"
| "find_destination alt eps ((k, pp) # ps) =
     (if k > 0 then
        case find_endpoint eps (port_type pp) of
          None \<Rightarrow> find_destination alt eps ps
        | Some dest \<Rightarrow> if can_connect pp dest alt then Some (pp, dest) else find_destination alt eps ps
      else find_destination alt eps ps)"

datatype dispatch_error = Network_error | Bad_parameter | Bad_plugin_type | Invalid_status | Assertion_failed

definition find_appropriate_destination ::
    "(gid_type \<Rightarrow> (string \<rightharpoonup> 'e)) \<Rightarrow> gid_type \<Rightarrow> 'e parcelhandler \<Rightarrow> dispatch_error + 'e parcelport \<times> 'e" where
  "find_appropriate_destination resolve_locality dest_gid ph =
     (case find_destination (use_alternative_parcelports ph) (resolve_locality dest_gid) (pports ph) of
        None \<Rightarrow> Inl Network_error
      | Some d \<Rightarrow> Inr d)"

text \<open>The ports are sorted, and the destination is that of the enabled port with the highest priority that can reach it.\<close>

lemma ports_assign_keys: "set (map fst (ports_assign k pp ps)) = insert k (set (map fst ps))"
  by (induction k pp ps rule: ports_assign.induct) auto

lemma ports_assign_sorted:
  assumes "sorted_wrt (>) (map fst ps)"
  shows "sorted_wrt (>) (map fst (ports_assign k pp ps))"
  using assms
proof (induction k pp ps rule: ports_assign.induct)
  case (2 k pp k' pp' ps)
  then show ?case using ports_assign_keys [of k pp ps] by (auto dest: less_trans)
qed simp

lemma attach_parcelport_sorted:
  assumes "sorted_wrt (>) (map fst (pports ph))"
  shows "sorted_wrt (>) (map fst (pports (attach_parcelport cfg pp ph)))"
  using assms ports_assign_sorted by (auto simp: attach_parcelport_def Let_def split: option.split)

definition reaches :: "bool \<Rightarrow> (string \<rightharpoonup> 'e) \<Rightarrow> int \<times> 'e parcelport \<Rightarrow> 'e \<Rightarrow> bool" where
  "reaches alt eps kp d \<longleftrightarrow> fst kp > 0 \<and> eps (port_type (snd kp)) = Some d \<and> can_connect (snd kp) d alt"

lemma find_destination_highest:
  assumes "find_destination alt eps ps = Some (pp, d)" "sorted_wrt (>) (map fst ps)"
  shows "\<exists>k. (k, pp) \<in> set ps \<and> reaches alt eps (k, pp) d \<and> (\<forall>kp\<in>set ps. \<forall>d'. reaches alt eps kp d' \<longrightarrow> fst kp \<le> k)"
  using assms
proof (induction alt eps ps rule: find_destination.induct)
  case (2 alt eps k pp0 ps)
  show ?case
  proof (cases "\<exists>d'. reaches alt eps (k, pp0) d'")
    case True
    then have "pp = pp0 \<and> reaches alt eps (k, pp0) d"
      using "2.prems"(1) by (auto simp: reaches_def find_endpoint_def)
    then show ?thesis using "2.prems"(2) by (intro exI [of _ k]) auto
  next
    case False
    then have "find_destination alt eps ps = Some (pp, d)"
      using "2.prems"(1) by (auto simp: reaches_def find_endpoint_def split: if_splits option.splits)
    moreover have "sorted_wrt (>) (map fst ps)" using "2.prems"(2) by simp
    ultimately have "\<exists>k. (k, pp) \<in> set ps \<and> reaches alt eps (k, pp) d \<and>
        (\<forall>kp\<in>set ps. \<forall>d'. reaches alt eps kp d' \<longrightarrow> fst kp \<le> k)"
      using "2.IH" False "2.prems" by (auto simp: reaches_def find_endpoint_def split: if_splits option.splits)
    then show ?thesis using False by auto
  qed
qed simp

lemma find_destination_none:
  "find_destination alt eps ps = None \<longleftrightarrow> (\<forall>kp\<in>set ps. \<forall>d. \<not> reaches alt eps kp d)"
  by (induction alt eps ps rule: find_destination.induct)
    (auto simp: reaches_def find_endpoint_def split: option.splits)

section \<open>Message handlers\<close>

text \<open>
  The plugins of the runtime: a factory may be missing or disabled. \<open>None\<close> for the table means that there is no runtime.
\<close>

definition create_message_handler :: "(string \<rightharpoonup> bool option) option \<Rightarrow> string \<Rightarrow> dispatch_error + unit" where
  "create_message_handler runtime message_handler_type = (case runtime of
       None \<Rightarrow> Inl Invalid_status
     | Some plugins \<Rightarrow> (case plugins message_handler_type of
          None \<Rightarrow> Inl Bad_plugin_type
        | Some None \<Rightarrow> Inl Bad_plugin_type
        | Some (Some isenabled) \<Rightarrow> if isenabled then Inr () else Inl Bad_plugin_type))"

text \<open>
  Errors are thrown, or they are stored in the error code that has been passed. The mutex is held throughout, so no
  other thread can have made the entry in between.
\<close>

datatype handler_result = Raised dispatch_error | Found "nat option" "dispatch_error option"

definition get_message_handler ::
    "bool \<Rightarrow> (string \<rightharpoonup> bool option) option \<Rightarrow> string \<Rightarrow> string \<Rightarrow> 'e \<Rightarrow> 'e parcelhandler \<Rightarrow>
     handler_result \<times> 'e parcelhandler" where
  "get_message_handler throws runtime action message_handler_type loc ph = (case handlers ph (loc, action) of
       None \<Rightarrow> (case create_message_handler runtime message_handler_type of
            Inl e \<Rightarrow> if throws then (Raised e, ph)
              else (Found None (Some e), ph\<lparr>handlers := (handlers ph)((loc, action) \<mapsto> None)\<rparr>)
          | Inr _ \<Rightarrow> (Found (Some (handlers_created ph)) None,
              ph\<lparr>handlers := (handlers ph)((loc, action) \<mapsto> Some (handlers_created ph)),
                handlers_created := Suc (handlers_created ph)\<rparr>))
     | Some None \<Rightarrow> (if throws then Raised Bad_parameter else Found None (Some Bad_parameter), ph)
     | Some (Some i) \<Rightarrow> (Found (Some i) None, ph))"

text \<open>Message handlers have one destination and one action each.\<close>

definition handlers_ok :: "'e parcelhandler \<Rightarrow> bool" where
  "handlers_ok ph \<longleftrightarrow>
     (\<forall>k i. handlers ph k = Some (Some i) \<longrightarrow> i < handlers_created ph) \<and>
     (\<forall>k k' i. handlers ph k = Some (Some i) \<longrightarrow> handlers ph k' = Some (Some i) \<longrightarrow> k = k')"

lemma make_parcelhandler_ok: "handlers_ok (make_parcelhandler n)"
  by (simp add: handlers_ok_def make_parcelhandler_def)

lemma handlers_ok_new:
  assumes ok: "handlers_ok ph"
  shows "handlers_ok (ph\<lparr>handlers := (handlers ph)(k \<mapsto> Some (handlers_created ph)),
    handlers_created := Suc (handlers_created ph)\<rparr>)"
proof -
  have less: "handlers ph k' = Some (Some i) \<Longrightarrow> i < handlers_created ph" for k' i
    using ok unfolding handlers_ok_def by blast
  have inj: "handlers ph k1 = Some (Some i) \<Longrightarrow> handlers ph k2 = Some (Some i) \<Longrightarrow> k1 = k2" for k1 k2 i
    using ok unfolding handlers_ok_def by blast
  have new: "handlers ph k' \<noteq> Some (Some (handlers_created ph))" for k' using less by blast
  show ?thesis
    unfolding handlers_ok_def by (auto simp: less_Suc_eq new dest: less inj)
qed

lemma handlers_ok_null:
  assumes "handlers_ok ph"
  shows "handlers_ok (ph\<lparr>handlers := (handlers ph)(k \<mapsto> None)\<rparr>)"
  using assms unfolding handlers_ok_def by simp

lemma get_message_handler_outcome:
  assumes "handlers_ok ph" "get_message_handler throws runtime action mt loc ph = (r, ph')"
  shows "handlers_ok ph'" "\<And>k i. handlers ph k = Some (Some i) \<Longrightarrow> handlers ph' k = Some (Some i)"
    "\<And>i e. r = Found (Some i) e \<Longrightarrow> handlers ph' (loc, action) = Some (Some i)"
    "pports ph' = pports ph" "count_routed ph' = count_routed ph" "load_message_handlers ph' = load_message_handlers ph"
    "use_alternative_parcelports ph' = use_alternative_parcelports ph"
  using assms handlers_ok_new [of ph "(loc, action)"] handlers_ok_null [of ph "(loc, action)"]
  by (auto simp: get_message_handler_def split: option.splits sum.splits if_splits)

text \<open>A handler that could not be created is not tried again.\<close>

lemma get_message_handler_again:
  assumes "get_message_handler False runtime action mt loc ph = (Found None e, ph')"
  shows "get_message_handler False runtime' action mt' loc ph' = (Found None (Some Bad_parameter), ph')"
  using assms by (auto simp: get_message_handler_def split: option.splits sum.splits)

text \<open>
  In the way that throws, though, an exception leaves no entry behind, so that every parcel tries again to create the handler.
\<close>

lemma get_message_handler_throws_again:
  assumes "get_message_handler True runtime action mt loc ph = (Raised Bad_plugin_type, ph')"
  shows "ph' = ph \<and> get_message_handler True runtime action mt loc ph' = (Raised Bad_plugin_type, ph')"
  using assms by (auto simp: get_message_handler_def split: option.splits sum.splits)

section \<open>Dispatching parcels\<close>

text \<open>
  What the functions read of a parcel. \<open>parcel_action\<close> is the name of the action, if parcels of the action are to be
  coalesced, and whether this has been declared in the way that throws exceptions.
\<close>

record parcel =
  parcel_source :: "gid_type option"
  destination :: gid_type
  addr :: address
  parcel_action :: "(string \<times> bool) option"
  does_termination_detection :: bool

definition destination_locality :: "parcel \<Rightarrow> gid_type" where
  "destination_locality p = addr_locality (addr p)"

text \<open>
  Moving a parcel resets its source, destination and address. \<open>resolve_local\<close> writes the address, and its result says whether it is known.
\<close>

definition moved_from :: "parcel \<Rightarrow> parcel" where
  "moved_from p = p\<lparr>parcel_source := None, destination := invalid_gid, addr := address_default, parcel_action := None\<rparr>"

record 'e environment =
  here :: gid_type
  resolve_local :: "gid_type \<Rightarrow> address \<Rightarrow> bool \<times> address"
  resolve_locality :: "gid_type \<Rightarrow> (string \<rightharpoonup> 'e)"
  plugins :: "(string \<rightharpoonup> bool option) option"
  has_sufficient_stack_space :: bool
  threadmanager_running :: bool
  stopped_or_shutting_down :: bool

datatype 'w write_handler = Parcel_sent_handler 'w

datatype ('e, 'w) action =
    To_message_handler nat 'e parcel "'w write_handler"
  | To_parcelport string 'e "parcel list" "'w write_handler list"
  | To_route parcel "'w write_handler"
  | Reschedule "parcel list" "'w list"
  | Make_black
  | Invoke_handler 'w

text \<open>The write handler that the parcelport calls when a parcel has been sent.\<close>

fun parcel_sent_handler :: "'w write_handler \<Rightarrow> parcel \<Rightarrow> ('e, 'w) action list" where
  "parcel_sent_handler (Parcel_sent_handler f) p =
     (if \<not> does_termination_detection p then [Make_black] else []) @ [Invoke_handler f]"

definition init_parcel :: "gid_type \<Rightarrow> parcel \<Rightarrow> parcel" where
  "init_parcel loc p = (if parcel_source p = None then p\<lparr>parcel_source := Some loc\<rparr> else p)"

definition resolve_parcel :: "'e environment \<Rightarrow> parcel \<Rightarrow> bool \<times> parcel" where
  "resolve_parcel env p =
     (if address_to_bool (addr p) then (True, p)
      else let (resolved_locally, a) = resolve_local env (destination p) (addr p) in (resolved_locally, p\<lparr>addr := a\<rparr>))"

definition parcel_message_handler ::
    "'e environment \<Rightarrow> parcel \<Rightarrow> 'e \<Rightarrow> 'e parcelhandler \<Rightarrow>
     (dispatch_error + nat option) \<times> 'e parcelhandler" where
  "parcel_message_handler env p loc ph = (case parcel_action p of
       None \<Rightarrow> (Inr None, ph)
     | Some (action, throws) \<Rightarrow>
         (case get_message_handler throws (plugins env) action ''coalescing_message_handler'' loc ph of
            (Found mh e, ph) \<Rightarrow> (Inr mh, ph)
          | (Raised e, ph) \<Rightarrow> (Inl e, ph)))"

definition parcelhandler_put_parcel ::
    "'e environment \<Rightarrow> parcel \<Rightarrow> 'w \<Rightarrow> 'e parcelhandler \<Rightarrow>
     ('e, 'w) action list \<times> dispatch_error option \<times> 'e parcelhandler" where
  "parcelhandler_put_parcel env p f ph =
     (if \<not> has_sufficient_stack_space env \<and> threadmanager_running env then ([Reschedule [p] [f]], None, ph)
      else let (resolved_locally, p) = resolve_parcel env (init_parcel (here env) p) in
        if resolved_locally then
          (case find_appropriate_destination (resolve_locality env) (addr_locality (addr p)) ph of
              Inl e \<Rightarrow> ([], Some e, ph)
            | Inr (pp, dest) \<Rightarrow>
                let (mh, ph) = (if load_message_handlers ph \<and> \<not> stopped_or_shutting_down env
                                then parcel_message_handler env p dest ph else (Inr None, ph))
                in (case mh of
                   Inl e \<Rightarrow> ([], Some e, ph)
                 | Inr (Some i) \<Rightarrow> ([To_message_handler i dest p (Parcel_sent_handler f)], None, ph)
                 | Inr None \<Rightarrow> ([To_parcelport (port_type pp) dest [p] [Parcel_sent_handler f]], None, ph)))
        else ([To_route p (Parcel_sent_handler f)], None, ph\<lparr>count_routed := Suc (count_routed ph)\<rparr>))"

text \<open>
  The loop over several parcels keeps those for the parcelport and those to be routed. Its result is an exception, or
  the two collections with the destination of the first. \<open>first\<close> is \<open>parcels[0]\<close> as it is when the loop looks at it: every
  way through the body moves the parcel on, so from the second time on it has been moved from.
\<close>

fun put_loop ::
    "'e environment \<Rightarrow> parcel \<Rightarrow> (parcel \<times> 'w) list \<Rightarrow> (string \<times> 'e) option \<Rightarrow> 'e parcelhandler \<Rightarrow>
     ('e, 'w) action list \<times>
     (dispatch_error + (parcel \<times> 'w write_handler) list \<times> (string \<times> 'e) option \<times>
      (parcel \<times> 'w write_handler) list) \<times>
     'e parcelhandler" where
  "put_loop env first [] rd ph = ([], Inr ([], rd, []), ph)"
| "put_loop env first ((p, f) # ps) rd ph =
     (if \<not> gid_eq (destination_locality first) (destination_locality p) then ([], Inl Bad_parameter, ph)
      else let (resolved_locally, p) = resolve_parcel env (init_parcel (here env) p); f = Parcel_sent_handler f;
        first = moved_from first in
        if resolved_locally then
          (case find_appropriate_destination (resolve_locality env) (addr_locality (addr p)) ph of
              Inl e \<Rightarrow> ([], Inl e, ph)
            | Inr (pp, dest) \<Rightarrow>
                let (mh, ph) = (if load_message_handlers ph then parcel_message_handler env p dest ph else (Inr None, ph))
                in (case mh of
                   Inl e \<Rightarrow> ([], Inl e, ph)
                 | Inr (Some i) \<Rightarrow> let (as, r, ph) = put_loop env first ps rd ph in (To_message_handler i dest p f # as, r, ph)
                 | Inr None \<Rightarrow>
                     if rd \<noteq> None \<and> rd \<noteq> Some (port_type pp, dest) then ([], Inl Assertion_failed, ph)
                     else let (as, r, ph) = put_loop env first ps (Some (port_type pp, dest)) ph in
                       (as, map_sum id (\<lambda>(res, rd, non). ((p, f) # res, rd, non)) r, ph)))
        else let (as, r, ph) = put_loop env first ps rd ph in
             (as, map_sum id (\<lambda>(res, rd, non). (res, rd, (p, f) # non)) r, ph))"

definition parcelhandler_put_parcels ::
    "'e environment \<Rightarrow> parcel list \<Rightarrow> 'w list \<Rightarrow> 'e parcelhandler \<Rightarrow>
     ('e, 'w) action list \<times> dispatch_error option \<times> 'e parcelhandler" where
  "parcelhandler_put_parcels env ps fs ph =
     (if length ps \<noteq> length fs then ([], Some Bad_parameter, ph)
      else if \<not> has_sufficient_stack_space env \<and> threadmanager_running env then ([Reschedule ps fs], None, ph)
      else if ps = [] then ([], None, ph)
      else case put_loop env (hd ps) (zip ps fs) None ph of
          (as, Inl e, ph) \<Rightarrow> (as, Some e, ph)
        | (as, Inr (res, rd, non), ph) \<Rightarrow>
            (as @ (case rd of None \<Rightarrow> []
                 | Some (t, d) \<Rightarrow> if res = [] then [] else [To_parcelport t d (map fst res) (map snd res)]) @
               map (\<lambda>(p, f). To_route p f) non,
             None, ph\<lparr>count_routed := count_routed ph + length non\<rparr>))"

section \<open>Every parcel is dispatched once\<close>

definition prepared :: "'e environment \<Rightarrow> parcel \<times> 'w \<Rightarrow> parcel \<times> 'w write_handler" where
  "prepared env x = (snd (resolve_parcel env (init_parcel (here env) (fst x))), Parcel_sent_handler (snd x))"

fun dispatched :: "('e, 'w) action \<Rightarrow> (parcel \<times> 'w write_handler) list" where
  "dispatched (To_message_handler i d p f) = [(p, f)]"
| "dispatched (To_parcelport t d ps fs) = zip ps fs"
| "dispatched (To_route p f) = [(p, f)]"
| "dispatched _ = []"

lemma put_loop_cases:
  assumes "put_loop env first ((p, f) # ps) rd ph = (as, r, ph')"
  obtains (error) e where "r = Inl e" "as = []" "ph' = ph \<or> (\<exists>q d. ph' = snd (parcel_message_handler env q d ph))"
  | (handler) i d ph1 as1 where "gid_eq (destination_locality first) (destination_locality p)"
      "parcel_message_handler env (fst (prepared env (p, f))) d ph = (Inr (Some i), ph1)"
      "put_loop env (moved_from first) ps rd ph1 = (as1, r, ph')"
      "as = To_message_handler i d (fst (prepared env (p, f))) (snd (prepared env (p, f))) # as1"
  | (port) t d ph1 r1 where "gid_eq (destination_locality first) (destination_locality p)"
      "ph1 = ph \<or> parcel_message_handler env (fst (prepared env (p, f))) d ph = (Inr None, ph1)"
      "put_loop env (moved_from first) ps (Some (t, d)) ph1 = (as, r1, ph')"
      "r = map_sum id (\<lambda>(res, rd, non). (prepared env (p, f) # res, rd, non)) r1"
  | (route) r1 where "gid_eq (destination_locality first) (destination_locality p)"
      "put_loop env (moved_from first) ps rd ph = (as, r1, ph')"
      "r = map_sum id (\<lambda>(res, rd, non). (res, rd, prepared env (p, f) # non)) r1"
proof (cases "gid_eq (destination_locality first) (destination_locality p)")
  case False
  then show thesis using assms by (intro error) auto
next
  case same: True
  obtain known q where q: "resolve_parcel env (init_parcel (here env) p) = (known, q)" by fastforce
  have prep: "prepared env (p, f) = (q, Parcel_sent_handler f)" by (simp add: prepared_def q)
  note step = assms [unfolded put_loop.simps Let_def q, simplified same]
  show thesis
  proof (cases known)
    case False
    obtain as1 r1 ph2 where rec: "put_loop env (moved_from first) ps rd ph = (as1, r1, ph2)" using prod_cases3 by blast
    show thesis by (rule route [OF same, of r1]) (use step False rec in \<open>auto simp: prep same\<close>)
  next
    case known: True
    show thesis
    proof (cases "find_appropriate_destination (resolve_locality env) (addr_locality (addr q)) ph")
      case (Inl e)
      then show thesis using step known by (intro error) (auto simp: same)
    next
      case (Inr x)
      obtain pp d where x: "x = (pp, d)" by (cases x)
      obtain mh ph1 where
        mh: "(if load_message_handlers ph then parcel_message_handler env q d ph else (Inr None, ph)) = (mh, ph1)"
        by fastforce
      then have pm: "ph1 = ph \<and> mh = Inr None \<or> parcel_message_handler env q d ph = (mh, ph1)" by (auto split: if_splits)
      show thesis
      proof (cases mh)
        case (Inl e)
        then have "ph' = ph1" "r = Inl e" "as = []" using step known Inr x mh by (auto simp: same)
        then show thesis using error pm by (metis snd_conv)
      next
        case mhr: (Inr m)
        show thesis
        proof (cases m)
          case None
          show thesis
          proof (cases "rd \<noteq> None \<and> rd \<noteq> Some (port_type pp, d)")
            case True
            then have "ph' = ph1" "r = Inl Assertion_failed" "as = []" using step known Inr x mh mhr None by (auto simp: same)
            then show thesis using error pm by (metis snd_conv)
          next
            case False
            obtain as1 r1 ph2 where rec: "put_loop env (moved_from first) ps (Some (port_type pp, d)) ph1 = (as1, r1, ph2)"
              using prod_cases3 by blast
            show thesis by (rule port [OF same, of ph1 d "port_type pp" r1])
              (use step known Inr x mh mhr None pm False rec in \<open>auto simp: prep same\<close>)
          qed
        next
          case mi: (Some i)
          obtain as1 r1 ph2 where rec: "put_loop env (moved_from first) ps rd ph1 = (as1, r1, ph2)" using prod_cases3 by blast
          show thesis by (rule handler [OF same, of d i ph1 as1])
            (use step known Inr x mh mhr mi pm rec in \<open>auto simp: prep same\<close>)
        qed
      qed
    qed
  qed
qed

lemma moved_from_locality [simp]: "destination_locality (moved_from p) = invalid_gid"
  by (simp add: destination_locality_def moved_from_def address_default_def)

lemma put_loop_dispatched:
  assumes "put_loop env first zs rd ph = (as, Inr (res, rd', non), ph')"
  shows "mset (concat (map dispatched as)) + mset res + mset non = mset (map (prepared env) zs) \<and>
    (rd \<noteq> None \<or> res \<noteq> [] \<longrightarrow> rd' \<noteq> None) \<and>
    (\<forall>x\<in>set (tl zs). gid_eq invalid_gid (destination_locality (fst x))) \<and>
    (\<forall>x xs. zs = x # xs \<longrightarrow> gid_eq (destination_locality first) (destination_locality (fst x)))"
  using assms
proof (induction zs arbitrary: first rd ph as res rd' non)
  case Nil
  then show ?case by simp
next
  case (Cons x zs)
  obtain p f where x: "x = (p, f)" by (cases x)
  have tl: "\<forall>y\<in>set zs. gid_eq invalid_gid (destination_locality (fst y))"
    if "\<forall>y\<in>set (tl zs). gid_eq invalid_gid (destination_locality (fst y))"
      "\<forall>y ys. zs = y # ys \<longrightarrow> gid_eq (destination_locality (moved_from first)) (destination_locality (fst y))"
    using that by (cases zs) auto
  from Cons.prems [unfolded x] show ?case
  proof (cases rule: put_loop_cases)
    case (error e)
    then show ?thesis by simp
  next
    case (handler i d ph1 as1)
    note IH = Cons.IH [OF handler(3)]
    show ?thesis using IH tl handler(1) unfolding x handler(4) by simp
  next
    case (port t d ph1 r1)
    then obtain res1 where r1: "r1 = Inr (res1, rd', non)" "res = prepared env (p, f) # res1"
      by (cases r1) auto
    note IH = Cons.IH [OF port(3) [unfolded r1(1)]]
    show ?thesis using IH tl port(1) unfolding x r1(2) by simp
  next
    case (route r1)
    then obtain non1 where r1: "r1 = Inr (res, rd', non1)" "non = prepared env (p, f) # non1"
      by (cases r1) auto
    note IH = Cons.IH [OF route(2) [unfolded r1(1)]]
    show ?thesis using IH tl route(1) unfolding x r1(2) by simp
  qed
qed

text \<open>Message handlers are found under their destination.\<close>

definition handlers_grow :: "'e parcelhandler \<Rightarrow> 'e parcelhandler \<Rightarrow> bool" where
  "handlers_grow ph ph' \<longleftrightarrow> handlers_ok ph' \<and> (\<forall>k i. handlers ph k = Some (Some i) \<longrightarrow> handlers ph' k = Some (Some i))"

lemma handlers_grow_trans: "handlers_grow ph1 ph2 \<Longrightarrow> handlers_grow ph2 ph3 \<Longrightarrow> handlers_grow ph1 ph3"
  by (simp add: handlers_grow_def)

lemma handlers_grow_refl: "handlers_ok ph \<Longrightarrow> handlers_grow ph ph"
  by (simp add: handlers_grow_def)

lemma handlers_grow_ok: "handlers_grow ph ph' \<Longrightarrow> handlers_ok ph'"
  by (simp add: handlers_grow_def)

lemma parcel_message_handler_grow:
  assumes "handlers_ok ph" "parcel_message_handler env p d ph = (mh, ph')"
  shows "handlers_grow ph ph' \<and> (\<forall>i. mh = Inr (Some i) \<longrightarrow> (\<exists>a. handlers ph' (d, a) = Some (Some i)))"
proof (cases "parcel_action p")
  case None
  then show ?thesis using assms handlers_grow_refl by (auto simp: parcel_message_handler_def)
next
  case (Some x)
  obtain a t where x: "x = (a, t)" by (cases x)
  obtain r ph1 where r: "get_message_handler t (plugins env) a ''coalescing_message_handler'' d ph = (r, ph1)" by fastforce
  then have "ph' = ph1" "\<And>i. mh = Inr (Some i) \<Longrightarrow> \<exists>e. r = Found (Some i) e"
    using assms(2) Some x by (auto simp: parcel_message_handler_def split: handler_result.splits)
  then show ?thesis
    using get_message_handler_outcome(1-3) [OF assms(1) r] unfolding handlers_grow_def by blast
qed

text \<open>The destinations that message handlers are given in a list of actions are those of their entries.\<close>

fun destination_ok :: "'e parcelhandler \<Rightarrow> ('e, 'w) action \<Rightarrow> bool" where
  "destination_ok ph (To_message_handler i d p f) = (\<exists>a. handlers ph (d, a) = Some (Some i))"
| "destination_ok ph _ = True"

lemma destination_ok_grow: "handlers_grow ph ph' \<Longrightarrow> destination_ok ph x \<Longrightarrow> destination_ok ph' x"
  unfolding handlers_grow_def by (cases x) auto

lemma put_loop_handlers:
  assumes "put_loop env first zs rd ph = (as, r, ph')" "handlers_ok ph"
  shows "handlers_grow ph ph' \<and> (\<forall>x\<in>set as. destination_ok ph' x)"
  using assms
proof (induction zs arbitrary: first rd ph as r)
  case Nil
  then show ?case using handlers_grow_refl by simp
next
  case (Cons x zs)
  obtain p f where x: "x = (p, f)" by (cases x)
  from Cons.prems(1) [unfolded x] show ?case
  proof (cases rule: put_loop_cases)
    case (error e)
    have "handlers_grow ph (snd (parcel_message_handler env q d ph))" for q d
      using parcel_message_handler_grow [OF Cons.prems(2), of env q d] by (metis prod.collapse)
    then show ?thesis using error handlers_grow_refl [OF Cons.prems(2)] by auto
  next
    case (handler i d ph1 as1)
    note mh = parcel_message_handler_grow [OF Cons.prems(2) handler(2)]
    note IH = Cons.IH [OF handler(3)]
    have grow: "handlers_grow ph1 ph'" and "\<forall>x\<in>set as1. destination_ok ph' x" using IH mh handlers_grow_ok by blast+
    moreover have "destination_ok ph' (To_message_handler i d q g)" for q :: parcel and g :: "'b write_handler"
      by (rule destination_ok_grow [OF grow]) (use mh in simp)
    ultimately show ?thesis using handlers_grow_trans [OF conjunct1 [OF mh] grow] unfolding handler(4) by simp
  next
    case (port t d ph1 r1)
    have "handlers_grow ph ph1"
      using port(2) parcel_message_handler_grow [OF Cons.prems(2)] handlers_grow_refl [OF Cons.prems(2)] by blast
    then show ?thesis using Cons.IH [OF port(3)] handlers_grow_trans handlers_grow_ok by blast
  next
    case (route r1)
    then show ?thesis using Cons.IH [OF route(2) Cons.prems(2)] by blast
  qed
qed

text \<open>What follows the loop.\<close>

definition port_actions ::
    "(parcel \<times> 'w write_handler) list \<Rightarrow> (string \<times> 'e) option \<Rightarrow> ('e, 'w) action list" where
  "port_actions res rd = (case rd of None \<Rightarrow> []
     | Some (t, d) \<Rightarrow> if res = [] then [] else [To_parcelport t d (map fst res) (map snd res)])"

lemma put_parcels_after_loop:
  assumes "length ps = length fs" "has_sufficient_stack_space env \<or> \<not> threadmanager_running env" "ps \<noteq> []"
    and "put_loop env (hd ps) (zip ps fs) None ph = (as, r, ph')"
  shows "parcelhandler_put_parcels env ps fs ph = (case r of
      Inl e \<Rightarrow> (as, Some e, ph')
    | Inr (res, rd, non) \<Rightarrow> (as @ port_actions res rd @ map (\<lambda>(p, f). To_route p f) non, None,
        ph'\<lparr>count_routed := count_routed ph' + length non\<rparr>))"
  using assms(1-3) by (auto simp: parcelhandler_put_parcels_def assms(4) port_actions_def split: sum.split)


lemma put_parcels_handlers:
  assumes "parcelhandler_put_parcels env ps fs ph = (as, e, ph')" "handlers_ok ph"
  shows "handlers_grow ph ph' \<and> (\<forall>x\<in>set as. destination_ok ph' x)"
proof (cases "length ps \<noteq> length fs \<or> \<not> has_sufficient_stack_space env \<and> threadmanager_running env \<or> ps = []")
  case True
  then show ?thesis using assms handlers_grow_refl by (auto simp: parcelhandler_put_parcels_def split: if_splits)
next
  case False
  obtain as1 r ph1 where loop: "put_loop env (hd ps) (zip ps fs) None ph = (as1, r, ph1)"
    using prod_cases3 by blast
  note l = put_loop_handlers [OF loop assms(2)]
  show ?thesis
  proof (cases r)
    case (Inl e')
    then have "as = as1 \<and> ph' = ph1" using assms(1) False put_parcels_after_loop [OF _ _ _ loop] by auto
    then show ?thesis using l by simp
  next
    case (Inr x)
    obtain res rd non where x: "x = (res, rd, non)" using prod_cases3 by blast
    have ph': "ph' = ph1\<lparr>count_routed := count_routed ph1 + length non\<rparr>"
      and as: "set as \<subseteq> set as1 \<union> {y. \<forall>i d p f. y \<noteq> To_message_handler i d p f}"
      using assms(1) False put_parcels_after_loop [OF _ _ _ loop] Inr x
      by (auto simp: port_actions_def split: option.splits if_splits)
    have same: "handlers ph' = handlers ph1" "handlers_created ph' = handlers_created ph1" by (simp_all add: ph')
    then have "destination_ok ph' y" if "destination_ok ph1 y" for y :: "('a, 'b) action"
      using that by (cases y) simp_all
    moreover have "destination_ok ph' y" if "\<forall>i d p f. y \<noteq> To_message_handler i d p f" for y :: "('a, 'b) action"
      using that by (cases y) simp_all
    moreover have "handlers_grow ph ph'" using l same by (simp add: handlers_grow_def handlers_ok_def)
    ultimately show ?thesis using as l by blast
  qed
qed

lemma put_parcel_handlers:
  assumes "parcelhandler_put_parcel env p f ph = (as, e, ph')" "handlers_ok ph"
  shows "handlers_grow ph ph' \<and> (\<forall>x\<in>set as. destination_ok ph' x)"
proof -
  obtain known q where q: "resolve_parcel env (init_parcel (here env) p) = (known, q)" by fastforce
  consider (other) "handlers ph' = handlers ph" "handlers_created ph' = handlers_created ph"
      "\<forall>x\<in>set as. \<forall>i d p f. x \<noteq> To_message_handler i d p f"
    | (handler) d mh where "parcel_message_handler env q d ph = (mh, ph')"
      "\<forall>x\<in>set as. \<forall>i d' p f. x = To_message_handler i d' p f \<longrightarrow> d' = d \<and> mh = Inr (Some i)"
  proof (cases "(\<not> has_sufficient_stack_space env \<and> threadmanager_running env) \<or> \<not> known")
    case True
    then show thesis using assms(1) by (intro other) (auto simp: parcelhandler_put_parcel_def q split: if_splits)
  next
    case False
    note put = assms(1) [unfolded parcelhandler_put_parcel_def Let_def q]
    show thesis
    proof (cases "find_appropriate_destination (resolve_locality env) (addr_locality (addr q)) ph")
      case (Inl e')
      then show thesis using put False by (intro other) (auto split: if_splits)
    next
      case (Inr x)
      obtain pp d where x: "x = (pp, d)" by (cases x)
      obtain mh ph1 where mh: "parcel_message_handler env q d ph = (mh, ph1)" by fastforce
      show thesis
      proof (cases "load_message_handlers ph \<and> \<not> stopped_or_shutting_down env")
        case True
        then show thesis using put False Inr x mh
          by (intro handler [of d mh]) (auto split: if_splits sum.splits option.splits)
      next
        case noload: False
        then show thesis using put False Inr x by (intro other) (auto split: if_splits)
      qed
    qed
  qed
  then show ?thesis
  proof cases
    case other
    have "destination_ok ph' x" if "x \<in> set as" for x using other(3) that by (cases x) auto
    then show ?thesis using other assms(2) by (simp add: handlers_grow_def handlers_ok_def)
  next
    case handler
    note mh = parcel_message_handler_grow [OF assms(2) handler(1)]
    have "destination_ok ph' x" if "x \<in> set as" for x using handler(2) that mh by (cases x) auto
    then show ?thesis using mh by blast
  qed
qed

text \<open>Sequences of calls.\<close>

datatype ('e, 'w) dispatch_call =
    Attach "string \<Rightarrow> string" "'e parcelport option"
  | Put "'e environment" parcel 'w
  | Puts "'e environment" "parcel list" "'w list"

fun dispatch :: "('e, 'w) dispatch_call list \<Rightarrow> 'e parcelhandler \<Rightarrow> ('e, 'w) action list \<times> 'e parcelhandler" where
  "dispatch [] ph = ([], ph)"
| "dispatch (Attach cfg pp # cs) ph = dispatch cs (attach_parcelport cfg pp ph)"
| "dispatch (Put env p f # cs) ph =
     (let (as, _, ph) = parcelhandler_put_parcel env p f ph; (bs, ph) = dispatch cs ph in (as @ bs, ph))"
| "dispatch (Puts env ps fs # cs) ph =
     (let (as, _, ph) = parcelhandler_put_parcels env ps fs ph; (bs, ph) = dispatch cs ph in (as @ bs, ph))"

lemma dispatch_handlers:
  assumes "dispatch cs ph = (as, ph')" "handlers_ok ph"
  shows "handlers_grow ph ph' \<and> (\<forall>x\<in>set as. destination_ok ph' x)"
  using assms
proof (induction cs arbitrary: ph as)
  case Nil
  then show ?case using handlers_grow_refl by simp
next
  case (Cons c cs)
  have "\<exists>as1 ph1 bs. as = as1 @ bs \<and> dispatch cs ph1 = (bs, ph') \<and>
      handlers_grow ph ph1 \<and> (\<forall>x\<in>set as1. destination_ok ph1 x)"
  proof (cases c)
    case (Attach cfg pp)
    have "handlers (attach_parcelport cfg pp ph) = handlers ph"
      "handlers_created (attach_parcelport cfg pp ph) = handlers_created ph"
      by (simp_all add: attach_parcelport_def Let_def split: option.split)
    then have "handlers_grow ph (attach_parcelport cfg pp ph)"
      using Cons.prems(2) by (simp add: handlers_grow_def handlers_ok_def)
    moreover have "dispatch cs (attach_parcelport cfg pp ph) = (as, ph')" using Cons.prems(1) Attach by simp
    ultimately show ?thesis by (intro exI [of _ "[]"]) auto
  next
    case (Put env p f)
    obtain as1 e ph1 where p: "parcelhandler_put_parcel env p f ph = (as1, e, ph1)" using prod_cases3 by blast
    obtain bs ph2 where d: "dispatch cs ph1 = (bs, ph2)" by fastforce
    have "as = as1 @ bs" "ph2 = ph'" using Cons.prems(1) Put p d by simp_all
    then show ?thesis using d put_parcel_handlers [OF p Cons.prems(2)] by blast
  next
    case (Puts env ps fs)
    obtain as1 e ph1 where p: "parcelhandler_put_parcels env ps fs ph = (as1, e, ph1)" using prod_cases3 by blast
    obtain bs ph2 where d: "dispatch cs ph1 = (bs, ph2)" by fastforce
    have "as = as1 @ bs" "ph2 = ph'" using Cons.prems(1) Puts p d by simp_all
    then show ?thesis using d put_parcels_handlers [OF p Cons.prems(2)] by blast
  qed
  then obtain as1 ph1 bs where as: "as = as1 @ bs" and rest: "dispatch cs ph1 = (bs, ph')"
    and first: "handlers_grow ph ph1 \<and> (\<forall>x\<in>set as1. destination_ok ph1 x)" by blast
  note IH = Cons.IH [OF rest handlers_grow_ok [OF conjunct1 [OF first]]]
  have "\<forall>x\<in>set as1. destination_ok ph' x" using first IH destination_ok_grow by blast
  then show ?case using first IH handlers_grow_trans as by auto
qed

section \<open>Examples\<close>

text \<open>
  One parcelport, a plugin for coalescing, and a parcel of an action that uses it. The destinations with a lower word from 10 to 19 are
  at locality 1, all others are not known.
\<close>

definition example_port :: "nat parcelport" where
  "example_port = \<lparr>port_type = ''tcp'', port_priority = 1, port_here = 0, can_connect = (\<lambda>d alt. True)\<rparr>"

definition example_handler :: "nat parcelhandler" where
  "example_handler = attach_parcelport (\<lambda>_. ''1'') (Some example_port) (make_parcelhandler 1)"

definition example_address :: address where
  "example_address = \<lparr>addr_locality = \<lparr>id_msb = 0x200000000, id_lsb = 0\<rparr>, addr_type = 5, addr_address = 7\<rparr>"

definition example_env :: "bool \<Rightarrow> nat environment" where
  "example_env down = \<lparr>here = \<lparr>id_msb = 0x100000000, id_lsb = 0\<rparr>,
     resolve_local = (\<lambda>g a. if 10 \<le> id_lsb g \<and> id_lsb g < 20 then (True, example_address) else (False, a)),
     resolve_locality = (\<lambda>l. [''tcp'' \<mapsto> 101]), plugins = Some [''coalescing_message_handler'' \<mapsto> Some True],
     has_sufficient_stack_space = True, threadmanager_running = True, stopped_or_shutting_down = down\<rparr>"

definition example_parcel :: "u64 \<Rightarrow> address \<Rightarrow> bool \<Rightarrow> parcel" where
  "example_parcel g a coalesce = \<lparr>parcel_source = None, destination = \<lparr>id_msb = 0x200000000, id_lsb = g\<rparr>, addr = a,
     parcel_action = (if coalesce then Some (''set_event'', False) else None),
     does_termination_detection = False\<rparr>"

lemmas dispatch_defs = example_port_def example_handler_def example_env_def example_parcel_def attach_parcelport_def
  make_parcelhandler_def parcelhandler_put_parcel_def parcelhandler_put_parcels_def prepared_def resolve_parcel_def init_parcel_def
  find_appropriate_destination_def find_endpoint_def parcel_message_handler_def get_message_handler_def
  create_message_handler_def moved_from_def destination_locality_def

lemma example_address_facts [simp]:
  "\<not> address_to_bool address_default" "addr_locality address_default = invalid_gid"
  "\<not> gid_eq invalid_gid (addr_locality example_address)"
  by (simp_all add: address_to_bool_def address_default_def example_address_def gid_to_bool_def) code_simp+

text \<open>
  A single parcel does not go to a message handler while the runtime shuts down, several parcels do.
\<close>

lemma put_parcels_ignores_shutdown:
  "fst (parcelhandler_put_parcel (example_env True) (example_parcel 10 address_default True) (0::nat) example_handler) =
     [To_parcelport ''tcp'' 101 [fst (prepared (example_env True) (example_parcel 10 address_default True, 0::nat))] [Parcel_sent_handler 0]]"
  "fst (parcelhandler_put_parcels (example_env True) [example_parcel 10 address_default True] [0::nat] example_handler) =
     [To_message_handler 0 101 (fst (prepared (example_env True) (example_parcel 10 address_default True, 0::nat))) (Parcel_sent_handler 0)]"
  by (simp_all add: dispatch_defs)

text \<open>
  When the parcels have different destinations, what has gone to message handlers before the exception has gone, and what was kept for the
  parcelport is dropped.
\<close>

lemma put_parcels_stops_halfway:
  "\<exists>ph. parcelhandler_put_parcels (example_env False)
       [example_parcel 10 address_default True, example_parcel 11 address_default False, example_parcel 12 example_address False]
       [0::nat, 1, 2] example_handler =
     ([To_message_handler 0 101 (fst (prepared (example_env False) (example_parcel 10 address_default True, 0::nat)))
        (Parcel_sent_handler 0)], Some Bad_parameter, ph)"
  by (simp add: dispatch_defs example_address_facts)

text \<open>
  The localities of all parcels are compared with that of the first one, which has been moved from when the second is looked at. So a call with
  two parcels that have the same destination throws when the second has a locality, and the first one has been sent or is lost.
\<close>

lemma put_parcels_rejects_second:
  assumes "ps = p # q # qs" "length fs = length ps" "has_sufficient_stack_space env \<or> \<not> threadmanager_running env"
    and "\<not> gid_eq invalid_gid (destination_locality q)"
  shows "fst (snd (parcelhandler_put_parcels env ps fs ph)) \<noteq> None"
proof -
  obtain as r ph' where loop: "put_loop env (hd ps) (zip ps fs) None ph = (as, r, ph')" using prod_cases3 by blast
  have "\<exists>e. r = Inl e"
  proof (cases r)
    case (Inr x)
    obtain res rd non where x: "x = (res, rd, non)" using prod_cases3 by blast
    obtain f g gs where fs: "fs = f # g # gs" using assms(1,2) by (cases fs; cases "tl fs") auto
    have "gid_eq invalid_gid (destination_locality q)"
      using put_loop_dispatched [OF loop [unfolded Inr x]] assms(1) fs by simp
    then show ?thesis using assms(4) by simp
  qed simp
  then show ?thesis
    using put_parcels_after_loop [OF assms(2) [symmetric] assms(3) _ loop] assms(1) by auto
qed

text \<open>
  A parcelport with the priority of another one replaces it, and the type of the other one leads to it.
\<close>

lemma attach_replaces_equal_priority:
  "let ph = attach_parcelport (\<lambda>_. ''1'') (Some (example_port\<lparr>port_type := ''mpi''\<rparr>)) example_handler in
     map_option port_type (find_parcelport ''tcp'' ph) = Some ''mpi''"
  by (simp add: example_handler_def example_port_def attach_parcelport_def make_parcelhandler_def find_parcelport_def
      get_priority_def Let_def)

section \<open>Theorems\<close>

text \<open>C23: Whatever parcels the parcel handler is given, a message handler gets parcels for one destination only,
  the one it has been created for.\<close>

theorem message_handler_has_one_destination:
  assumes "dispatch cs (make_parcelhandler n) = (as, ph)"
    and "To_message_handler i d p f \<in> set as" "To_message_handler i d' p' f' \<in> set as"
  shows "d = d'"
proof -
  note inv = dispatch_handlers [OF assms(1) make_parcelhandler_ok]
  have "destination_ok ph (To_message_handler i d p f)" "destination_ok ph (To_message_handler i d' p' f')"
    using inv assms(2,3) by blast+
  then obtain a a' where "handlers ph (d, a) = Some (Some i)" "handlers ph (d', a') = Some (Some i)" by auto
  moreover have "handlers_ok ph" using inv handlers_grow_ok by blast
  ultimately show ?thesis unfolding handlers_ok_def by blast
qed

theorem message_handler_has_one_destination_witness:
  "let cs = [Attach (\<lambda>_. ''1'') (Some example_port), Puts (example_env False) [example_parcel 10 address_default True] [0::nat],
         Put (example_env False) (example_parcel 11 address_default True) 1];
       d = (\<lambda>k. case fst (dispatch cs (make_parcelhandler 1)) ! k of To_message_handler i d p f \<Rightarrow> Some (i, d) | _ \<Rightarrow> None)
   in \<exists>i e e'. d 0 = Some (i, e) \<and> d 1 = Some (i, e') \<and> e = e'"
proof -
  let ?cs = "[Attach (\<lambda>_. ''1'') (Some example_port), Puts (example_env False) [example_parcel 10 address_default True] [0::nat],
         Put (example_env False) (example_parcel 11 address_default True) 1]"
  obtain as ph where run: "dispatch ?cs (make_parcelhandler 1) = (as, ph)" by fastforce
  then obtain d p d' p' where as: "as = [To_message_handler 0 d p (Parcel_sent_handler 0), To_message_handler 0 d' p' (Parcel_sent_handler 1)]"
    by (auto simp: dispatch_defs)
  have "d = d'" by (rule message_handler_has_one_destination [OF run, of 0 d p "Parcel_sent_handler 0" d' p' "Parcel_sent_handler 1"])
    (simp_all add: as)
  then show ?thesis using run as by simp
qed



end
