(* ===== verification/Std_Heap.thy ===== *)
theory Std_Heap
  imports "HOL-Library.Multiset"
begin

text \<open>
  The heap algorithms of the C++ standard library. The standard says what their results satisfy, not which of the
  possible results it is, so they are parameters, a record of functions. \<open>std_heap\<close> states what the standard promises for a
  comparison that is a strict weak ordering.
\<close>

definition strict_weak :: "('k \<Rightarrow> 'k \<Rightarrow> bool) \<Rightarrow> bool" where
  "strict_weak lt \<longleftrightarrow> (\<forall>x y. lt x y \<longrightarrow> \<not> lt y x) \<and> (\<forall>x y z. \<not> lt x y \<longrightarrow> \<not> lt y z \<longrightarrow> \<not> lt x z)"

definition is_heap :: "('k \<Rightarrow> 'k \<Rightarrow> bool) \<Rightarrow> 'k list \<Rightarrow> bool" where
  "is_heap lt xs \<longleftrightarrow> (\<forall>i<length xs. 0 < i \<longrightarrow> \<not> lt (xs ! ((i - 1) div 2)) (xs ! i))"

record 'k heap_ops =
  make_heap :: "('k \<Rightarrow> 'k \<Rightarrow> bool) \<Rightarrow> 'k list \<Rightarrow> 'k list"
  push_heap :: "('k \<Rightarrow> 'k \<Rightarrow> bool) \<Rightarrow> 'k list \<Rightarrow> 'k list"
  pop_heap :: "('k \<Rightarrow> 'k \<Rightarrow> bool) \<Rightarrow> 'k list \<Rightarrow> 'k list"

definition std_heap :: "'k heap_ops \<Rightarrow> bool" where
  "std_heap hp \<longleftrightarrow>
     (\<forall>lt xs. strict_weak lt \<longrightarrow> is_heap lt (make_heap hp lt xs) \<and> mset (make_heap hp lt xs) = mset xs) \<and>
     (\<forall>lt xs x. strict_weak lt \<longrightarrow> is_heap lt xs \<longrightarrow>
        is_heap lt (push_heap hp lt (xs @ [x])) \<and> mset (push_heap hp lt (xs @ [x])) = mset (xs @ [x])) \<and>
     (\<forall>lt x xs. strict_weak lt \<longrightarrow> is_heap lt (x # xs) \<longrightarrow>
        (\<exists>ys. pop_heap hp lt (x # xs) = ys @ [x] \<and> is_heap lt ys \<and> mset ys = mset xs))"

lemma std_heapD:
  assumes "std_heap hp" "strict_weak lt"
  shows "is_heap lt (make_heap hp lt xs)" "mset (make_heap hp lt xs) = mset xs"
    "is_heap lt xs \<Longrightarrow> is_heap lt (push_heap hp lt (xs @ [x]))"
    "is_heap lt xs \<Longrightarrow> mset (push_heap hp lt (xs @ [x])) = mset (xs @ [x])"
    "is_heap lt (x # xs) \<Longrightarrow> \<exists>ys. pop_heap hp lt (x # xs) = ys @ [x] \<and> is_heap lt ys \<and> mset ys = mset xs"
  using assms unfolding std_heap_def by blast+

lemma is_heap_Nil [simp]: "is_heap lt []"
  by (simp add: is_heap_def)

lemma strict_weak_inv_image: "strict_weak lt \<Longrightarrow> strict_weak (\<lambda>x y. lt (f x) (f y))"
  unfolding strict_weak_def by blast

lemma is_heap_cong:
  assumes "\<And>x y. x \<in> set xs \<Longrightarrow> y \<in> set xs \<Longrightarrow> lt x y = lt' x y"
  shows "is_heap lt xs = is_heap lt' xs"
proof -
  have "xs ! ((i - 1) div 2) \<in> set xs" if "i < length xs" for i
    using that by (intro nth_mem) linarith
  then show ?thesis using assms by (auto simp: is_heap_def)
qed

text \<open>No element is greater than the top.\<close>

lemma heap_top:
  assumes lt: "strict_weak lt" and heap: "is_heap lt (x # xs)" and y: "y \<in> set (x # xs)"
  shows "\<not> lt x y"
proof -
  let ?h = "x # xs"
  have refl: "\<not> lt z z" and trans: "\<not> lt a b \<Longrightarrow> \<not> lt b c \<Longrightarrow> \<not> lt a c" for z a b c
    using lt unfolding strict_weak_def by blast+
  have top: "\<not> lt x (?h ! i)" if "i < length ?h" for i
    using that
  proof (induction i rule: less_induct)
    case (less i)
    show ?case
    proof (cases "i = 0")
      case True
      then show ?thesis using refl by simp
    next
      case False
      let ?p = "(i - 1) div 2"
      have p: "?p < i" "?p < length ?h" using False less.prems by linarith+
      have "\<not> lt (?h ! ?p) (?h ! i)" using heap less.prems False unfolding is_heap_def by blast
      then show ?thesis using trans [OF less.IH [OF p]] by blast
    qed
  qed
  obtain i where "i < length ?h" "y = ?h ! i" using y by (metis in_set_conv_nth)
  then show ?thesis using top by simp
qed

section \<open>An instance\<close>

text \<open>Lists in descending order are heaps.\<close>

fun descending_insert :: "('k \<Rightarrow> 'k \<Rightarrow> bool) \<Rightarrow> 'k \<Rightarrow> 'k list \<Rightarrow> 'k list" where
  "descending_insert lt x [] = [x]"
| "descending_insert lt x (y # ys) = (if lt x y then y # descending_insert lt x ys else x # y # ys)"

definition descending :: "('k \<Rightarrow> 'k \<Rightarrow> bool) \<Rightarrow> 'k list \<Rightarrow> 'k list" where
  "descending lt xs = foldr (descending_insert lt) xs []"

definition descending_heap :: "'k heap_ops" where
  "descending_heap = \<lparr>make_heap = descending, push_heap = descending,
     pop_heap = (\<lambda>lt xs. case xs of [] \<Rightarrow> [] | x # ys \<Rightarrow> descending lt ys @ [x])\<rparr>"

lemma mset_descending_insert [simp]: "mset (descending_insert lt x ys) = add_mset x (mset ys)"
  by (induction lt x ys rule: descending_insert.induct) auto

lemma mset_descending [simp]: "mset (descending lt xs) = mset xs"
  by (induction xs) (simp_all add: descending_def)

lemma set_descending_insert [simp]: "set (descending_insert lt x ys) = insert x (set ys)"
  by (induction lt x ys rule: descending_insert.induct) auto

lemma descending_insert_sorted:
  assumes lt: "strict_weak lt" and ys: "sorted_wrt (\<lambda>a b. \<not> lt a b) ys"
  shows "sorted_wrt (\<lambda>a b. \<not> lt a b) (descending_insert lt x ys)"
  using ys
proof (induction ys)
  case (Cons y ys)
  have asym: "lt a b \<Longrightarrow> \<not> lt b a" and trans: "\<not> lt a b \<Longrightarrow> \<not> lt b c \<Longrightarrow> \<not> lt a c" for a b c
    using lt unfolding strict_weak_def by blast+
  show ?case
  proof (cases "lt x y")
    case True
    then show ?thesis using Cons asym [OF True] by simp
  next
    case False
    then show ?thesis using Cons.prems trans [OF False] by simp
  qed
qed simp

lemma descending_sorted:
  assumes "strict_weak lt"
  shows "sorted_wrt (\<lambda>a b. \<not> lt a b) (descending lt xs)"
  by (induction xs) (simp_all add: descending_def descending_insert_sorted [OF assms])

lemma descending_is_heap:
  assumes "strict_weak lt"
  shows "is_heap lt (descending lt xs)"
  unfolding is_heap_def
proof (intro allI impI)
  fix i assume "i < length (descending lt xs)" "0 < i"
  then have "(i - 1) div 2 < i" "i < length (descending lt xs)" by linarith+
  then show "\<not> lt (descending lt xs ! ((i - 1) div 2)) (descending lt xs ! i)"
    using descending_sorted [OF assms, of xs] by (simp add: sorted_wrt_iff_nth_less)
qed

lemma std_descending_heap: "std_heap descending_heap"
  unfolding std_heap_def by (auto simp: descending_heap_def descending_is_heap)

end
