(* ===== verification/Local_Cache.thy ===== *)
theory Local_Cache
  imports Lru_Cache Std_Heap
begin

text \<open>
  The cache with replaceable policies, \<^verbatim>\<open>hpx/util/cache/local_cache.hpp\<close>, with the entries of \<^verbatim>\<open>hpx/util/cache/entries\<close>.

  The entries are in a map, and a heap of iterators orders them by the update policy: what is at its top is removed first
  when the cache gets too large. An iterator is given by its key. The functions that an entry type has are a record
  \<open>entry_ops\<close>, and a cache is configured by them, its policies and the heap algorithms of the standard library. Operations that read the clock
  get the time as an argument. An operation is \<open>None\<close> where it uses an iterator beyond the end of the heap.
\<close>

section \<open>Entries\<close>

record ('v, 'e) entry_ops =
  touch :: "int \<Rightarrow> 'e \<Rightarrow> bool \<times> 'e"
  entry_insert :: "int \<Rightarrow> 'e \<Rightarrow> bool \<times> 'e"
  entry_remove :: "'e \<Rightarrow> bool"
  get_size :: "'e \<Rightarrow> u64"
  get_value :: "'e \<Rightarrow> 'v"
  set_value :: "'v \<Rightarrow> 'e \<Rightarrow> 'e"
  entry_less :: "'e \<Rightarrow> 'e \<Rightarrow> bool"

definition plain_entry :: "('v :: linorder, 'v) entry_ops" where
  "plain_entry = \<lparr>touch = (\<lambda>now e. (False, e)), entry_insert = (\<lambda>now e. (True, e)), entry_remove = (\<lambda>e. True),
     get_size = (\<lambda>e. 1), get_value = (\<lambda>e. e), set_value = (\<lambda>v e. v), entry_less = (<)\<rparr>"

record 'v fifo_entry =
  fifo_value :: 'v
  insertion_time :: int

definition fifo_entry :: "('v, 'v fifo_entry) entry_ops" where
  "fifo_entry = \<lparr>touch = (\<lambda>now e. (False, e)), entry_insert = (\<lambda>now e. (True, e\<lparr>insertion_time := now\<rparr>)),
     entry_remove = (\<lambda>e. True), get_size = (\<lambda>e. 1), get_value = fifo_value, set_value = (\<lambda>v e. e\<lparr>fifo_value := v\<rparr>),
     entry_less = (\<lambda>x y. insertion_time x < insertion_time y)\<rparr>"

record 'v lfu_entry =
  lfu_value :: 'v
  ref_count :: u64

definition lfu_entry :: "('v, 'v lfu_entry) entry_ops" where
  "lfu_entry = \<lparr>touch = (\<lambda>now e. (True, e\<lparr>ref_count := ref_count e + 1\<rparr>)), entry_insert = (\<lambda>now e. (True, e)),
     entry_remove = (\<lambda>e. True), get_size = (\<lambda>e. 1), get_value = lfu_value, set_value = (\<lambda>v e. e\<lparr>lfu_value := v\<rparr>),
     entry_less = (\<lambda>x y. ref_count x < ref_count y)\<rparr>"

record 'v lru_entry =
  lru_value :: 'v
  access_time :: int

definition lru_entry :: "('v, 'v lru_entry) entry_ops" where
  "lru_entry = \<lparr>touch = (\<lambda>now e. (True, e\<lparr>access_time := now\<rparr>)), entry_insert = (\<lambda>now e. (True, e)),
     entry_remove = (\<lambda>e. True), get_size = (\<lambda>e. 1), get_value = lru_value, set_value = (\<lambda>v e. e\<lparr>lru_value := v\<rparr>),
     entry_less = (\<lambda>x y. access_time x > access_time y)\<rparr>"

record 'v size_entry =
  size_value :: 'v
  entry_size :: u64

definition size_entry :: "('v, 'v size_entry) entry_ops" where
  "size_entry = \<lparr>touch = (\<lambda>now e. (False, e)), entry_insert = (\<lambda>now e. (True, e)), entry_remove = (\<lambda>e. True),
     get_size = entry_size, get_value = size_value, set_value = (\<lambda>v e. e\<lparr>size_value := v\<rparr>),
     entry_less = (\<lambda>x y. entry_size x > entry_size y)\<rparr>"

text \<open>The constructors from a value, which \<open>size_entry\<close> does not have.\<close>

definition fifo_new :: "int \<Rightarrow> 'v \<Rightarrow> 'v fifo_entry" where
  "fifo_new now v = \<lparr>fifo_value = v, insertion_time = 0\<rparr>"

definition lfu_new :: "int \<Rightarrow> 'v \<Rightarrow> 'v lfu_entry" where
  "lfu_new now v = \<lparr>lfu_value = v, ref_count = 0\<rparr>"

definition lru_entry_new :: "int \<Rightarrow> 'v \<Rightarrow> 'v lru_entry" where
  "lru_entry_new now v = \<lparr>lru_value = v, access_time = now\<rparr>"

definition always :: "'e \<Rightarrow> bool" where
  "always e = True"

section \<open>The cache\<close>

record ('k, 'e) local_cache =
  cache_max_size :: u64
  cache_current_size :: u64
  store :: "'k \<rightharpoonup> 'e"
  entry_heap :: "'k list"
  cache_stats :: cache_statistics

record ('k, 'v, 'e) cache_config =
  entries :: "('v, 'e) entry_ops"
  heaps :: "'k heap_ops"
  update_policy :: "'e \<Rightarrow> 'e \<Rightarrow> bool"
  insert_policy :: "'e \<Rightarrow> bool"

definition make_local_cache :: "u64 \<Rightarrow> ('k, 'e) local_cache" where
  "make_local_cache n = \<lparr>cache_max_size = n, cache_current_size = 0, store = Map.empty, entry_heap = [],
     cache_stats = no_cache_statistics\<rparr>"

text \<open>What the new cache has after a move.\<close>

definition local_cache_move :: "('k, 'e) local_cache \<Rightarrow> ('k, 'e) local_cache" where
  "local_cache_move other = \<lparr>cache_max_size = cache_max_size other, cache_current_size = cache_current_size other,
     store = store other, entry_heap = entry_heap other, cache_stats = cache_stats other\<rparr>"

definition local_cache_size :: "('k, 'e) local_cache \<Rightarrow> u64" where
  "local_cache_size c = cache_current_size c"

definition local_cache_capacity :: "('k, 'e) local_cache \<Rightarrow> u64" where
  "local_cache_capacity c = cache_max_size c"

definition holds_key :: "'k \<Rightarrow> ('k, 'e) local_cache \<Rightarrow> bool" where
  "holds_key k c \<longleftrightarrow> store c k \<noteq> None"

text \<open>The comparison of iterators by the entries they point to.\<close>

definition adapt :: "('e \<Rightarrow> 'e \<Rightarrow> bool) \<Rightarrow> ('k \<rightharpoonup> 'e) \<Rightarrow> 'k \<Rightarrow> 'k \<Rightarrow> bool" where
  "adapt f s x y = f (the (s x)) (the (s y))"

definition reorder :: "('k, 'v, 'e) cache_config \<Rightarrow> ('k, 'e) local_cache \<Rightarrow> ('k, 'e) local_cache" where
  "reorder cfg c = c\<lparr>entry_heap := make_heap (heaps cfg) (adapt (update_policy cfg) (store c)) (entry_heap c)\<rparr>"

text \<open>Touching the entry \<open>e\<close> of a key, which may have been changed before.\<close>

definition touch_entry ::
    "('k, 'v, 'e) cache_config \<Rightarrow> int \<Rightarrow> 'k \<Rightarrow> 'e \<Rightarrow> ('k, 'e) local_cache \<Rightarrow> ('k, 'e) local_cache" where
  "touch_entry cfg now k e c =
     (let (b, e') = touch (entries cfg) now e; c = c\<lparr>store := (store c)(k \<mapsto> e')\<rparr>
      in if b then reorder cfg c else c)"

definition stat :: "(cache_statistics \<Rightarrow> cache_statistics) \<Rightarrow> ('k, 'e) local_cache \<Rightarrow> ('k, 'e) local_cache" where
  "stat f c = c\<lparr>cache_stats := f (cache_stats c)\<rparr>"

definition cache_get_entry ::
    "('k, 'v, 'e) cache_config \<Rightarrow> int \<Rightarrow> 'k \<Rightarrow> ('k, 'e) local_cache \<Rightarrow> ('k \<times> 'e) option \<times> ('k, 'e) local_cache" where
  "cache_get_entry cfg now k c = (case store c k of
       None \<Rightarrow> (None, stat (update_on_exit method_get_entry \<circ> got_miss) c)
     | Some e \<Rightarrow> let c = stat (update_on_exit method_get_entry \<circ> got_hit) (touch_entry cfg now k e c)
         in (map_option (Pair k) (store c k), c))"

text \<open>
  The loop that removes entries until enough space is free. \<open>it\<close> is the position of the iterator; removing the entry at the top moves
  it on before the heap is changed.
\<close>

definition evict_entry ::
    "('k, 'v, 'e) cache_config \<Rightarrow> 'k \<Rightarrow> 'e \<Rightarrow> 'k list \<Rightarrow> ('k, 'e) local_cache \<Rightarrow> ('k, 'e) local_cache" where
  "evict_entry cfg k e heap c = stat got_eviction (c\<lparr>entry_heap := heap, store := (store c)(k := None),
     cache_current_size := cache_current_size c - get_size (entries cfg) e\<rparr>)"

function free_loop ::
    "('k, 'v, 'e) cache_config \<Rightarrow> int \<Rightarrow> nat \<Rightarrow> bool \<Rightarrow> ('k, 'e) local_cache \<Rightarrow>
     (int \<times> bool \<times> ('k, 'e) local_cache) option" where
  "free_loop cfg num_free it heap_kept c =
     (let h = entry_heap c in
      if \<not> (num_free > 0 \<and> it \<noteq> length h) then Some (num_free, heap_kept, c)
      else if it > length h then None
      else let k = h ! it; e = the (store c k); size = get_size (entries cfg) e in
        if \<not> entry_remove (entries cfg) e then free_loop cfg num_free (it + 1) heap_kept c
        else if it = 0 then
          free_loop cfg (num_free - sint size) 1 heap_kept
            (evict_entry cfg k e (butlast (pop_heap (heaps cfg) (adapt (update_policy cfg) (store c)) h)) c)
        else
          free_loop cfg (num_free - sint size) it False (evict_entry cfg k e (take it h @ drop (Suc it) h) c))"
  by pat_completeness auto
termination
  by (relation "measures [\<lambda>(cfg, n, it, b, c). if it = 0 then 1 else 0, \<lambda>(cfg, n, it, b, c). length (entry_heap c) - it]")
    (auto simp: evict_entry_def stat_def)

declare free_loop.simps [simp del]

definition free_space ::
    "('k, 'v, 'e) cache_config \<Rightarrow> int \<Rightarrow> ('k, 'e) local_cache \<Rightarrow> (bool \<times> ('k, 'e) local_cache) option" where
  "free_space cfg num_free c =
     (if entry_heap c = [] then Some (False, c)
      else map_option (\<lambda>(n, heap_kept, c). (n \<le> 0, if heap_kept then c else reorder cfg c))
        (free_loop cfg num_free 0 True c))"

definition cache_reserve ::
    "('k, 'v, 'e) cache_config \<Rightarrow> u64 \<Rightarrow> ('k, 'e) local_cache \<Rightarrow> (bool \<times> ('k, 'e) local_cache) option" where
  "cache_reserve cfg n c =
     (if n \<noteq> 0 \<and> n < cache_max_size c
      then map_option (\<lambda>(r, c). (r, c\<lparr>cache_max_size := n\<rparr>)) (free_space cfg (sint (cache_max_size c - n)) c)
      else Some (True, c\<lparr>cache_max_size := n\<rparr>))"

definition store_entry ::
    "('k, 'v, 'e) cache_config \<Rightarrow> 'k \<Rightarrow> 'e \<Rightarrow> ('k, 'e) local_cache \<Rightarrow> bool \<times> ('k, 'e) local_cache" where
  "store_entry cfg k e c =
     (if store c k \<noteq> None then (False, c)
      else let c = c\<lparr>store := (store c)(k \<mapsto> e), cache_current_size := cache_current_size c + get_size (entries cfg) e\<rparr>
        in (True, stat got_insertion
          (c\<lparr>entry_heap := push_heap (heaps cfg) (adapt (update_policy cfg) (store c)) (entry_heap c @ [k])\<rparr>)))"

definition insert_unlogged ::
    "('k, 'v, 'e) cache_config \<Rightarrow> int \<Rightarrow> 'k \<Rightarrow> 'e \<Rightarrow> ('k, 'e) local_cache \<Rightarrow> (bool \<times> ('k, 'e) local_cache) option" where
  "insert_unlogged cfg now k e c =
     (if \<not> insert_policy cfg e then Some (False, c)
      else let (b, e) = entry_insert (entries cfg) now e in
        if \<not> b then Some (False, c)
        else let size = get_size (entries cfg) e in
          if cache_max_size c \<noteq> 0 \<and> cache_current_size c + size > cache_max_size c
          then case free_space cfg (sint (cache_current_size c - cache_max_size c + size)) c of
              None \<Rightarrow> None
            | Some (r, c) \<Rightarrow> if \<not> r then Some (False, c) else Some (store_entry cfg k e c)
          else Some (store_entry cfg k e c))"

definition cache_insert_entry ::
    "('k, 'v, 'e) cache_config \<Rightarrow> int \<Rightarrow> 'k \<Rightarrow> 'e \<Rightarrow> ('k, 'e) local_cache \<Rightarrow> (bool \<times> ('k, 'e) local_cache) option" where
  "cache_insert_entry cfg now k e c =
     map_option (\<lambda>(r, c). (r, stat (update_on_exit method_insert_entry) c)) (insert_unlogged cfg now k e c)"

definition cache_insert ::
    "('k, 'v, 'e) cache_config \<Rightarrow> (int \<Rightarrow> 'v \<Rightarrow> 'e) \<Rightarrow> int \<Rightarrow> 'k \<Rightarrow> 'v \<Rightarrow> ('k, 'e) local_cache \<Rightarrow>
     (bool \<times> ('k, 'e) local_cache) option" where
  "cache_insert cfg construct now k v c = cache_insert_entry cfg now k (construct now v) c"

definition cache_update_if ::
    "('k, 'v, 'e) cache_config \<Rightarrow> (int \<Rightarrow> 'v \<Rightarrow> 'e) \<Rightarrow> int \<Rightarrow> 'k \<Rightarrow> 'v \<Rightarrow> ('k \<Rightarrow> 'k \<Rightarrow> bool) \<Rightarrow> ('k, 'e) local_cache \<Rightarrow>
     (bool \<times> ('k, 'e) local_cache) option" where
  "cache_update_if cfg construct now k v f c = map_option (\<lambda>(r, c). (r, stat (update_on_exit method_update_entry) c))
     (case store c k of
        None \<Rightarrow> cache_insert cfg construct now k v (stat got_miss c)
      | Some e \<Rightarrow> if \<not> f k k then Some (False, c)
          else Some (True, stat got_hit (touch_entry cfg now k (set_value (entries cfg) v e) c)))"

definition cache_update ::
    "('k, 'v, 'e) cache_config \<Rightarrow> (int \<Rightarrow> 'v \<Rightarrow> 'e) \<Rightarrow> int \<Rightarrow> 'k \<Rightarrow> 'v \<Rightarrow> ('k, 'e) local_cache \<Rightarrow>
     (bool \<times> ('k, 'e) local_cache) option" where
  "cache_update cfg construct now k v c = map_option (\<lambda>(r, c). (r, stat (update_on_exit method_update_entry) c))
     (case store c k of
        None \<Rightarrow> cache_insert cfg construct now k v (stat got_miss c)
      | Some e \<Rightarrow> Some (True, stat got_hit (touch_entry cfg now k (set_value (entries cfg) v e) c)))"

definition cache_update_entry ::
    "('k, 'v, 'e) cache_config \<Rightarrow> int \<Rightarrow> 'k \<Rightarrow> 'e \<Rightarrow> ('k, 'e) local_cache \<Rightarrow> (bool \<times> ('k, 'e) local_cache) option" where
  "cache_update_entry cfg now k e c = map_option (\<lambda>(r, c). (r, stat (update_on_exit method_update_entry) c))
     (case store c k of
        None \<Rightarrow> cache_insert_entry cfg now k e (stat got_miss c)
      | Some old \<Rightarrow>
          if \<not> entry_remove (entries cfg) old then Some (False, c)
          else if \<not> insert_policy cfg e then Some (False, c)
          else let (b, e) = entry_insert (entries cfg) now e in
            if \<not> b then Some (False, c) else Some (True, stat got_hit (touch_entry cfg now k e c)))"

text \<open>Erasing visits the entries in the order of the heap, which is rebuilt at the end.\<close>

fun erase_loop ::
    "('k, 'v, 'e) cache_config \<Rightarrow> ('k \<times> 'e \<Rightarrow> bool) \<Rightarrow> 'k list \<Rightarrow> 'k list \<Rightarrow> u64 \<Rightarrow> ('k, 'e) local_cache \<Rightarrow>
     u64 \<times> ('k, 'e) local_cache" where
  "erase_loop cfg ep kept [] amount c = (amount, c\<lparr>entry_heap := kept\<rparr>)"
| "erase_loop cfg ep kept (k # ks) amount c =
     (let e = the (store c k) in
      if ep (k, e) \<and> entry_remove (entries cfg) e
      then erase_loop cfg ep kept ks (amount + get_size (entries cfg) e) (evict_entry cfg k e (kept @ ks) c)
      else erase_loop cfg ep (kept @ [k]) ks amount c)"

definition cache_erase ::
    "('k, 'v, 'e) cache_config \<Rightarrow> ('k \<times> 'e \<Rightarrow> bool) \<Rightarrow> ('k, 'e) local_cache \<Rightarrow> u64 \<times> ('k, 'e) local_cache" where
  "cache_erase cfg ep c = (let (amount, c) = erase_loop cfg ep [] (entry_heap c) 0 c
     in (amount, stat (update_on_exit method_erase_entry) (reorder cfg c)))"

definition cache_erase_all :: "('k, 'v, 'e) cache_config \<Rightarrow> ('k, 'e) local_cache \<Rightarrow> u64 \<times> ('k, 'e) local_cache" where
  "cache_erase_all cfg c = cache_erase cfg always c"

definition statistics_clear :: "cache_statistics \<Rightarrow> cache_statistics" where
  "statistics_clear st = st\<lparr>hits := 0, misses := 0, evictions := 0, insertions := 0\<rparr>"

definition cache_clear :: "('k, 'e) local_cache \<Rightarrow> ('k, 'e) local_cache" where
  "cache_clear c = stat statistics_clear (c\<lparr>store := Map.empty, entry_heap := [], cache_current_size := 0\<rparr>)"

section \<open>The invariant\<close>

text \<open>The default arguments of the template.\<close>

definition cache_of :: "('v, 'e) entry_ops \<Rightarrow> 'k heap_ops \<Rightarrow> ('k, 'v, 'e) cache_config" where
  "cache_of ops hp = \<lparr>entries = ops, heaps = hp, update_policy = entry_less ops, insert_policy = always\<rparr>"

lemma cache_of_simps [simp]:
  "entries (cache_of ops hp) = ops" "heaps (cache_of ops hp) = hp" "update_policy (cache_of ops hp) = entry_less ops"
  "insert_policy (cache_of ops hp) = always"
  by (simp_all add: cache_of_def)

text \<open>
  The heap has the keys of the map, each once, and the size is the sum of the sizes of the entries. \<open>linked\<close> leaves out the order of
  the heap.
\<close>

definition linked :: "('v, 'e) entry_ops \<Rightarrow> ('k, 'e) local_cache \<Rightarrow> bool" where
  "linked ops c \<longleftrightarrow> distinct (entry_heap c) \<and> set (entry_heap c) = dom (store c) \<and>
     cache_current_size c = (\<Sum>k\<leftarrow>entry_heap c. get_size ops (the (store c k)))"

definition ordered :: "('v, 'e) entry_ops \<Rightarrow> ('k, 'e) local_cache \<Rightarrow> bool" where
  "ordered ops c \<longleftrightarrow> is_heap (adapt (entry_less ops) (store c)) (entry_heap c)"

definition cache_ok :: "('v, 'e) entry_ops \<Rightarrow> ('k, 'e) local_cache \<Rightarrow> bool" where
  "cache_ok ops c \<longleftrightarrow> linked ops c \<and> ordered ops c"

lemma stat_simps [simp]:
  "linked ops (stat f c) = linked ops c" "ordered ops (stat f c) = ordered ops c" "cache_ok ops (stat f c) = cache_ok ops c"
  "store (stat f c) = store c" "entry_heap (stat f c) = entry_heap c" "cache_max_size (stat f c) = cache_max_size c"
  "cache_current_size (stat f c) = cache_current_size c"
  by (simp_all add: linked_def ordered_def cache_ok_def stat_def)

lemma make_local_cache_ok: "cache_ok ops (make_local_cache n)"
  by (simp add: cache_ok_def linked_def ordered_def make_local_cache_def)

lemma local_cache_move_ok: "cache_ok ops (local_cache_move c) = cache_ok ops c"
  by (simp add: cache_ok_def linked_def ordered_def local_cache_move_def)

lemma cache_clear_ok: "cache_ok ops (cache_clear c)"
  unfolding cache_clear_def by (simp add: cache_ok_def linked_def ordered_def)

lemma sum_list_mset_cong:
  assumes "mset xs = mset ys"
  shows "(\<Sum>k\<leftarrow>xs. (f k :: u64)) = (\<Sum>k\<leftarrow>ys. f k)"
  using assms by (metis mset_map sum_mset_sum_list)

text \<open>What the cache relies on: a change of its value does not change the size of an entry, and neither does a touch.\<close>

locale cache_entry =
  fixes ops :: "('v, 'e) entry_ops"
  assumes touch_size: "get_size ops (snd (touch ops now e)) = get_size ops e"
    and touch_value: "get_value ops (snd (touch ops now e)) = get_value ops e"
    and insert_value: "get_value ops (snd (entry_insert ops now e)) = get_value ops e"
    and set_size: "get_size ops (set_value ops v e) = get_size ops e"
    and get_set: "get_value ops (set_value ops v e) = v"
    and less_weak: "strict_weak (entry_less ops)"
begin

lemma adapt_weak: "strict_weak (adapt (entry_less ops) s)"
proof -
  have "adapt (entry_less ops) s = (\<lambda>x y. entry_less ops (the (s x)) (the (s y)))" by (simp add: adapt_def fun_eq_iff)
  then show ?thesis using strict_weak_inv_image [OF less_weak] by simp
qed

lemma reorder_ok:
  assumes "std_heap hp" "linked ops c"
  shows "cache_ok ops (reorder (cache_of ops hp) c)"
    and "store (reorder (cache_of ops hp) c) = store c" "mset (entry_heap (reorder (cache_of ops hp) c)) = mset (entry_heap c)"
    "cache_max_size (reorder (cache_of ops hp) c) = cache_max_size c"
    "cache_current_size (reorder (cache_of ops hp) c) = cache_current_size c"
proof -
  let ?h = "make_heap hp (adapt (entry_less ops) (store c)) (entry_heap c)"
  have h: "is_heap (adapt (entry_less ops) (store c)) ?h" "mset ?h = mset (entry_heap c)"
    using std_heapD(1,2) [OF assms(1) adapt_weak] by auto
  have "(\<Sum>k\<leftarrow>?h. get_size ops (the (store c k))) = (\<Sum>k\<leftarrow>entry_heap c. get_size ops (the (store c k)))"
    by (rule sum_list_mset_cong [OF h(2)])
  moreover have "distinct ?h = distinct (entry_heap c)" "set ?h = set (entry_heap c)"
    using h(2) mset_eq_imp_distinct_iff mset_eq_setD by blast+
  ultimately show "cache_ok ops (reorder (cache_of ops hp) c)"
    using assms(2) h(1) by (simp add: cache_ok_def linked_def ordered_def reorder_def)
  show "store (reorder (cache_of ops hp) c) = store c" "mset (entry_heap (reorder (cache_of ops hp) c)) = mset (entry_heap c)"
    "cache_max_size (reorder (cache_of ops hp) c) = cache_max_size c"
    "cache_current_size (reorder (cache_of ops hp) c) = cache_current_size c"
    using h(2) by (simp_all add: reorder_def)
qed

text \<open>Removing an entry from the map and the heap.\<close>

lemma evict_linked:
  assumes "linked ops c" "store c k = Some e" "mset (entry_heap c) = add_mset k (mset h)"
  shows "linked ops (evict_entry (cache_of ops hp) k e h c)"
proof -
  have dist: "distinct (k # h)" using assms(1,3) mset_eq_imp_distinct_iff [of "k # h" "entry_heap c"] by (simp add: linked_def)
  have set: "set (entry_heap c) = insert k (set h)" using assms(3) by (metis set_mset_add_mset_insert set_mset_mset)
  have "(\<Sum>x\<leftarrow>entry_heap c. get_size ops (the (store c x))) = (\<Sum>x\<leftarrow>k # h. get_size ops (the (store c x)))"
    by (rule sum_list_mset_cong) (simp add: assms(3))
  moreover have "(\<Sum>x\<leftarrow>h. get_size ops (the (((store c)(k := None)) x))) = (\<Sum>x\<leftarrow>h. get_size ops (the (store c x)))"
    using dist by (intro arg_cong [where f = sum_list] List.map_cong) auto
  ultimately show ?thesis
    using assms(1,2) dist set by (auto simp: linked_def evict_entry_def)
qed

lemma evict_ordered:
  assumes "is_heap (adapt (entry_less ops) (store c)) h" "k \<notin> set h"
  shows "ordered ops (evict_entry (cache_of ops hp) k e h c)"
proof -
  have "is_heap (adapt (entry_less ops) ((store c)(k := None))) h = is_heap (adapt (entry_less ops) (store c)) h"
    using assms(2) by (intro is_heap_cong) (auto simp: adapt_def)
  then show ?thesis using assms(1) by (simp add: ordered_def evict_entry_def)
qed

lemma pop_top:
  assumes hp: "std_heap hp" and ok: "cache_ok ops c" and h: "entry_heap c = k # ks" and e: "store c k = Some e"
  shows "cache_ok ops (evict_entry (cache_of ops hp) k e
      (butlast (pop_heap hp (adapt (entry_less ops) (store c)) (entry_heap c))) c)"
    and "mset (butlast (pop_heap hp (adapt (entry_less ops) (store c)) (entry_heap c))) = mset ks"
proof -
  let ?lt = "adapt (entry_less ops) (store c)"
  have "is_heap ?lt (k # ks)" using ok h by (simp add: cache_ok_def ordered_def)
  from std_heapD(5) [OF hp adapt_weak this] obtain ys where
    ys: "pop_heap hp ?lt (k # ks) = ys @ [k]" "is_heap ?lt ys" "mset ys = mset ks" by blast
  have b: "butlast (pop_heap hp ?lt (entry_heap c)) = ys" using ys(1) h by simp
  have "distinct (k # ks)" using ok h by (simp add: cache_ok_def linked_def)
  then have "k \<notin> set ys" using ys(3) by (metis distinct.simps(2) mset_eq_setD)
  moreover have "linked ops (evict_entry (cache_of ops hp) k e ys c)"
    using ok h e ys(3) by (intro evict_linked) (simp_all add: cache_ok_def)
  ultimately show "cache_ok ops (evict_entry (cache_of ops hp) k e (butlast (pop_heap hp ?lt (entry_heap c))) c)"
    using evict_ordered [OF ys(2)] b by (simp add: cache_ok_def)
  show "mset (butlast (pop_heap hp ?lt (entry_heap c))) = mset ks" using b ys(3) by simp
qed

lemma remove_nth_mset:
  assumes "i < length xs"
  shows "mset xs = add_mset (xs ! i) (mset (take i xs @ drop (Suc i) xs))"
proof -
  have "xs = take i xs @ xs ! i # drop (Suc i) xs" by (rule id_take_nth_drop [OF assms])
  then show ?thesis by (metis mset.simps(2) mset_append union_mset_add_mset_right)
qed

lemma free_loop_ok:
  assumes hp: "std_heap hp" and "free_loop (cache_of ops hp) n it kept c = Some (n', kept', c')"
    and "linked ops c" "kept \<or> it = 0 \<longrightarrow> ordered ops c"
  shows "linked ops c' \<and> (kept' \<longrightarrow> ordered ops c') \<and> cache_max_size c' = cache_max_size c \<and>
    (\<forall>k. store c' k = store c k \<or> store c' k = None)"
  using assms(2-)
proof (induction "cache_of ops hp" n it kept c rule: free_loop.induct)
  case (1 n it kept c)
  let ?h = "entry_heap c"
  let ?k = "?h ! it"
  let ?e = "the (store c ?k)"
  show ?case
  proof (cases "n > 0 \<and> it \<noteq> length ?h")
    case False
    then show ?thesis using "1.prems" by (subst (asm) free_loop.simps) (auto simp: Let_def)
  next
    case True
    then have it: "it < length ?h" using "1.prems"(1) by (subst (asm) free_loop.simps) (auto simp: Let_def split: if_splits)
    then have e: "store c ?k = Some ?e" using "1.prems"(2) nth_mem [OF it] by (auto simp: linked_def)
    have eq: "free_loop (cache_of ops hp) n it kept c =
      (if \<not> entry_remove ops ?e then free_loop (cache_of ops hp) n (it + 1) kept c
       else if it = 0 then free_loop (cache_of ops hp) (n - sint (get_size ops ?e)) 1 kept
         (evict_entry (cache_of ops hp) ?k ?e (butlast (pop_heap hp (adapt (entry_less ops) (store c)) ?h)) c)
       else free_loop (cache_of ops hp) (n - sint (get_size ops ?e)) it False
         (evict_entry (cache_of ops hp) ?k ?e (take it ?h @ drop (Suc it) ?h) c))"
      using True it by (subst free_loop.simps) (simp add: Let_def)
    show ?thesis
    proof (cases "entry_remove ops ?e")
      case False
      then show ?thesis using "1.hyps"(1) [of ?h ?k ?e] "1.prems" True it eq by simp
    next
      case rem: True
      show ?thesis
      proof (cases "it = 0")
        case True
        then have ok: "cache_ok ops c" using "1.prems"(2,3) by (simp add: cache_ok_def)
        have h: "?h = ?k # tl ?h" using it True by (cases ?h) auto
        note top = pop_top [OF hp ok h e]
        show ?thesis
          using "1.hyps"(2) [of ?h ?k ?e "get_size ops ?e"] "1.prems"(1) \<open>n > 0 \<and> it \<noteq> length ?h\<close> it eq rem True top(1)
          by (simp add: cache_ok_def evict_entry_def) (metis fun_upd_apply)
      next
        case False
        have "linked ops (evict_entry (cache_of ops hp) ?k ?e (take it ?h @ drop (Suc it) ?h) c)"
          using "1.prems"(2) e remove_nth_mset [OF it] by (rule evict_linked)
        then show ?thesis
          using "1.hyps"(3) [of ?h ?k ?e "get_size ops ?e"] "1.prems"(1) \<open>n > 0 \<and> it \<noteq> length ?h\<close> it eq rem False
          by (simp add: evict_entry_def) (metis fun_upd_apply)
      qed
    qed
  qed
qed

lemma free_space_ok:
  assumes hp: "std_heap hp" and step: "free_space (cache_of ops hp) n c = Some (r, c')" and ok: "cache_ok ops c"
  shows "cache_ok ops c' \<and> cache_max_size c' = cache_max_size c \<and> (\<forall>k. store c' k = store c k \<or> store c' k = None)"
proof (cases "entry_heap c = []")
  case True
  then show ?thesis using step ok by (simp add: free_space_def)
next
  case False
  then obtain n1 kept c1 where loop: "free_loop (cache_of ops hp) n 0 True c = Some (n1, kept, c1)"
    and c': "c' = (if kept then c1 else reorder (cache_of ops hp) c1)"
    using step by (auto simp: free_space_def)
  from free_loop_ok [OF hp loop] ok have l: "linked ops c1" "kept \<longrightarrow> ordered ops c1" "cache_max_size c1 = cache_max_size c"
    "\<forall>k. store c1 k = store c k \<or> store c1 k = None" by (auto simp: cache_ok_def)
  then show ?thesis using reorder_ok [OF hp l(1)] c' by (auto simp: cache_ok_def)
qed

lemma store_entry_ok:
  assumes hp: "std_heap hp" and ok: "cache_ok ops c" and step: "store_entry (cache_of ops hp) k e c = (r, c')"
  shows "cache_ok ops c'" "r \<longleftrightarrow> store c k = None" "store c' = (if r then (store c)(k \<mapsto> e) else store c)"
    "cache_max_size c' = cache_max_size c"
proof -
  show "r \<longleftrightarrow> store c k = None" "store c' = (if r then (store c)(k \<mapsto> e) else store c)" "cache_max_size c' = cache_max_size c"
    using step by (auto simp: store_entry_def Let_def split: if_splits)
  show "cache_ok ops c'"
  proof (cases "store c k")
    case (Some x)
    then show ?thesis using step ok by (simp add: store_entry_def)
  next
    case None
    let ?s = "(store c)(k \<mapsto> e)"
    let ?h = "push_heap hp (adapt (entry_less ops) ?s) (entry_heap c @ [k])"
    have new: "k \<notin> set (entry_heap c)" using ok None by (auto simp: cache_ok_def linked_def)
    have "is_heap (adapt (entry_less ops) ?s) (entry_heap c) = is_heap (adapt (entry_less ops) (store c)) (entry_heap c)"
      using new by (intro is_heap_cong) (auto simp: adapt_def)
    then have heap: "is_heap (adapt (entry_less ops) ?s) (entry_heap c)" using ok by (simp add: cache_ok_def ordered_def)
    note push = std_heapD(3,4) [OF hp adapt_weak heap, where x = k]
    have "(\<Sum>x\<leftarrow>?h. get_size ops (the (?s x))) = (\<Sum>x\<leftarrow>entry_heap c @ [k]. get_size ops (the (?s x)))"
      by (rule sum_list_mset_cong [OF push(2)])
    also have "\<dots> = (\<Sum>x\<leftarrow>entry_heap c. get_size ops (the (store c x))) + get_size ops e"
    proof -
      have "map (\<lambda>x. get_size ops (the (?s x))) (entry_heap c) = map (\<lambda>x. get_size ops (the (store c x))) (entry_heap c)"
        using new by (intro List.map_cong) auto
      then show ?thesis by (simp del: map_eq_conv fun_upd_apply) simp
    qed
    finally have size: "(\<Sum>x\<leftarrow>?h. get_size ops (the (?s x))) = cache_current_size c + get_size ops e"
      using ok by (simp add: cache_ok_def linked_def)
    have "distinct ?h = distinct (entry_heap c @ [k])" "set ?h = set (entry_heap c @ [k])"
      using push(2) mset_eq_imp_distinct_iff mset_eq_setD by blast+
    then have "cache_ok ops (c\<lparr>store := ?s, cache_current_size := cache_current_size c + get_size ops e, entry_heap := ?h\<rparr>)"
      using ok new push(1) size by (auto simp: cache_ok_def linked_def ordered_def)
    then show ?thesis using step None by (auto simp: store_entry_def Let_def)
  qed
qed

text \<open>Inserting keeps the invariant, whatever is removed for it and whether it succeeds or not.\<close>

lemma insert_unlogged_ok:
  assumes hp: "std_heap hp" and ok: "cache_ok ops c" and step: "insert_unlogged (cache_of ops hp) now k e c = Some (r, c')"
  shows "cache_ok ops c' \<and> cache_max_size c' = cache_max_size c \<and>
    (r \<longrightarrow> map_option (get_value ops) (store c' k) = Some (get_value ops e)) \<and>
    (\<forall>k'. k' \<noteq> k \<longrightarrow> store c' k' = store c k' \<or> store c' k' = None)"
proof -
  obtain b e1 where ins: "entry_insert ops now e = (b, e1)" by fastforce
  have val: "get_value ops e1 = get_value ops e" using insert_value [of now e] ins by simp
  consider (refused) "\<not> b" "c' = c" "\<not> r"
    | (fits) "store_entry (cache_of ops hp) k e1 c = (r, c')"
    | (frees) r1 c1 n where "free_space (cache_of ops hp) n c = Some (r1, c1)"
        "if r1 then store_entry (cache_of ops hp) k e1 c1 = (r, c') else \<not> r \<and> c' = c1"
    using step ins by (auto simp: insert_unlogged_def Let_def always_def split: if_splits option.splits)
  then show ?thesis
  proof cases
    case refused
    then show ?thesis using ok by simp
  next
    case fits
    note st = store_entry_ok [OF hp ok fits]
    then show ?thesis using val by auto
  next
    case frees
    note fr = free_space_ok [OF hp frees(1) ok]
    show ?thesis
    proof (cases r1)
      case True
      note st = store_entry_ok [OF hp conjunct1 [OF fr], of k e1 r c']
      then show ?thesis using frees(2) True val fr by auto
    next
      case False
      then show ?thesis using frees(2) fr by auto
    qed
  qed
qed

text \<open>Replacing the entry of a key by one of the same size, and touching it.\<close>

lemma replace_linked:
  assumes "linked ops c" "store c k = Some e0" "get_size ops e = get_size ops e0"
  shows "linked ops (c\<lparr>store := (store c)(k \<mapsto> e)\<rparr>)"
proof -
  have "map (\<lambda>x. get_size ops (the (((store c)(k \<mapsto> e)) x))) (entry_heap c) =
      map (\<lambda>x. get_size ops (the (store c x))) (entry_heap c)"
    using assms(2,3) by (intro List.map_cong) auto
  then show ?thesis using assms(1,2) by (auto simp: linked_def simp del: fun_upd_apply map_eq_conv)
qed

lemma touch_entry_ok:
  assumes hp: "std_heap hp" and ok: "cache_ok ops c" and k: "store c k = Some e0"
    and size: "get_size ops e = get_size ops e0"
    and kept: "fst (touch ops now e) \<or> (\<forall>x. entry_less ops (snd (touch ops now e)) x = entry_less ops e0 x \<and>
        entry_less ops x (snd (touch ops now e)) = entry_less ops x e0) \<and>
      entry_less ops (snd (touch ops now e)) (snd (touch ops now e)) = entry_less ops e0 e0"
  shows "cache_ok ops (touch_entry (cache_of ops hp) now k e c)"
    and "store (touch_entry (cache_of ops hp) now k e c) = (store c)(k \<mapsto> snd (touch ops now e))"
    and "cache_max_size (touch_entry (cache_of ops hp) now k e c) = cache_max_size c"
    and "cache_current_size (touch_entry (cache_of ops hp) now k e c) = cache_current_size c"
proof -
  obtain b e1 where t: "touch ops now e = (b, e1)" by fastforce
  let ?c = "c\<lparr>store := (store c)(k \<mapsto> e1)\<rparr>"
  have "get_size ops e1 = get_size ops e0" using touch_size [of now e] size t by simp
  then have linked: "linked ops ?c" using replace_linked [OF _ k] ok by (simp add: cache_ok_def)
  have eq: "touch_entry (cache_of ops hp) now k e c = (if b then reorder (cache_of ops hp) ?c else ?c)"
    by (simp add: touch_entry_def t)
  have "ordered ops ?c" if "\<not> b"
  proof -
    have "adapt (entry_less ops) ((store c)(k \<mapsto> e1)) x y = adapt (entry_less ops) (store c) x y" for x y
      using kept that t k by (auto simp: adapt_def)
    then have "adapt (entry_less ops) ((store c)(k \<mapsto> e1)) = adapt (entry_less ops) (store c)" by blast
    then show ?thesis using ok by (simp add: cache_ok_def ordered_def)
  qed
  then show "cache_ok ops (touch_entry (cache_of ops hp) now k e c)"
    using reorder_ok(1) [OF hp linked] linked by (simp add: eq cache_ok_def)
  show "store (touch_entry (cache_of ops hp) now k e c) = (store c)(k \<mapsto> snd (touch ops now e))"
    "cache_max_size (touch_entry (cache_of ops hp) now k e c) = cache_max_size c"
    "cache_current_size (touch_entry (cache_of ops hp) now k e c) = cache_current_size c"
    using reorder_ok(2,4,5) [OF hp linked] by (simp_all add: eq t)
qed

text \<open>Erasing removes the entries that it is meant to remove and that agree.\<close>

lemma erase_loop_ok:
  assumes "erase_loop (cache_of ops hp) ep kept ks n c = (n', c')" "linked ops c" "entry_heap c = kept @ ks"
  shows "linked ops c' \<and> cache_max_size c' = cache_max_size c \<and> n' + cache_current_size c' = n + cache_current_size c \<and>
    (\<forall>k. store c' k = (case store c k of None \<Rightarrow> None | Some e \<Rightarrow>
       if k \<in> set ks \<and> ep (k, e) \<and> entry_remove ops e then None else Some e))"
  using assms
proof (induction ks arbitrary: kept n c)
  case Nil
  then show ?case by (auto simp: linked_def split: option.split)
next
  case (Cons k ks)
  have dist: "distinct (kept @ k # ks)" and dom: "set (kept @ k # ks) = dom (store c)"
    using Cons.prems(2,3) by (auto simp: linked_def)
  then obtain e where e: "store c k = Some e" by (metis domD in_set_conv_decomp)
  show ?case
  proof (cases "ep (k, e) \<and> entry_remove ops e")
    case True
    let ?c = "evict_entry (cache_of ops hp) k e (kept @ ks) c"
    have l: "linked ops ?c" using Cons.prems(2) e by (rule evict_linked) (simp add: Cons.prems(3))
    have step: "erase_loop (cache_of ops hp) ep kept ks (n + get_size ops e) ?c = (n', c')"
      using Cons.prems(1) True e by simp
    have h: "entry_heap ?c = kept @ ks" "cache_max_size ?c = cache_max_size c"
      "cache_current_size ?c = cache_current_size c - get_size ops e" "store ?c = (store c)(k := None)"
      by (simp_all add: evict_entry_def)
    from Cons.IH [OF step l h(1)] show ?thesis using True e dist h by (auto split: option.splits)
  next
    case False
    then have step: "erase_loop (cache_of ops hp) ep (kept @ [k]) ks n c = (n', c')" using Cons.prems(1) e by auto
    from Cons.IH [OF step Cons.prems(2)] Cons.prems(3) show ?thesis using False e dist by (auto split: option.splits)
  qed
qed

lemma cache_erase_ok:
  assumes hp: "std_heap hp" and ok: "cache_ok ops c" and step: "cache_erase (cache_of ops hp) ep c = (n, c')"
  shows "cache_ok ops c' \<and> cache_max_size c' = cache_max_size c \<and> n + cache_current_size c' = cache_current_size c \<and>
    (\<forall>k. store c' k = (case store c k of None \<Rightarrow> None | Some e \<Rightarrow>
       if ep (k, e) \<and> entry_remove ops e then None else Some e))"
proof -
  obtain c1 where loop: "erase_loop (cache_of ops hp) ep [] (entry_heap c) 0 c = (n, c1)"
    and c': "c' = stat (update_on_exit method_erase_entry) (reorder (cache_of ops hp) c1)"
    using step by (auto simp: cache_erase_def split: prod.splits)
  have "linked ops c" and dom: "set (entry_heap c) = dom (store c)" using ok by (auto simp: cache_ok_def linked_def)
  from erase_loop_ok [OF loop this(1)] have l: "linked ops c1" "cache_max_size c1 = cache_max_size c"
    "n + cache_current_size c1 = cache_current_size c"
    "\<forall>k. store c1 k = (case store c k of None \<Rightarrow> None | Some e \<Rightarrow>
       if k \<in> set (entry_heap c) \<and> ep (k, e) \<and> entry_remove ops e then None else Some e)" by auto
  then show ?thesis using reorder_ok [OF hp l(1)] dom by (auto simp: c' split: option.splits)
qed

end

end
