(* ===== verification/Local_Cache_Policy.thy ===== *)
theory Local_Cache_Policy
  imports Local_Cache
begin

text \<open>
  Which entries a cache removes. Every operation that returns keeps the invariant of the cache, for the entry types whose order does not depend on
  the value. A cache of \<open>lru_entry\<close> behaves as a list in the order of the last use, from which the last element is
  dropped. The other entry types order the heap the wrong way round: the top of a heap of the standard library is the greatest element.
\<close>

section \<open>Entries that keep their order\<close>

locale ordered_entry = cache_entry ops for ops :: "('v, 'e) entry_ops" +
  assumes set_order: "entry_less ops (set_value ops v e) x = entry_less ops e x"
      "entry_less ops x (set_value ops v e) = entry_less ops x e"
    and touch_order: "\<not> fst (touch ops now e) \<Longrightarrow> snd (touch ops now e) = e"
begin

lemma touch_kept_order:
  "fst (touch ops now e) \<or> (\<forall>x. entry_less ops (snd (touch ops now e)) x = entry_less ops e x \<and>
        entry_less ops x (snd (touch ops now e)) = entry_less ops x e) \<and>
      entry_less ops (snd (touch ops now e)) (snd (touch ops now e)) = entry_less ops e e"
  using touch_order by auto

lemma get_entry_ok:
  assumes hp: "std_heap hp" and ok: "cache_ok ops c" and step: "cache_get_entry (cache_of ops hp) now k c = (r, c')"
  shows "cache_ok ops c' \<and> cache_max_size c' = cache_max_size c \<and>
    map_option (get_value ops \<circ> snd) r = map_option (get_value ops) (store c k) \<and>
    (\<forall>k. map_option (get_value ops) (store c' k) = map_option (get_value ops) (store c k))"
proof (cases "store c k")
  case None
  then show ?thesis using ok step by (auto simp: cache_get_entry_def)
next
  case (Some e)
  note t = touch_entry_ok [OF hp ok Some refl touch_kept_order]
  have c': "c' = stat (update_on_exit method_get_entry \<circ> got_hit) (touch_entry (cache_of ops hp) now k e c)"
    and r: "r = Some (k, snd (touch ops now e))"
    using step Some t(2) by (auto simp: cache_get_entry_def Let_def)
  show ?thesis using t Some touch_value [of now e] by (simp add: c' r)
qed

lemma set_touch_ok:
  assumes hp: "std_heap hp" and ok: "cache_ok ops c" and k: "store c k = Some e"
  shows "cache_ok ops (touch_entry (cache_of ops hp) now k (set_value ops v e) c)"
    and "store (touch_entry (cache_of ops hp) now k (set_value ops v e) c) =
      (store c)(k \<mapsto> snd (touch ops now (set_value ops v e)))"
    and "cache_max_size (touch_entry (cache_of ops hp) now k (set_value ops v e) c) = cache_max_size c"
proof -
  have "fst (touch ops now (set_value ops v e)) \<or>
    (\<forall>x. entry_less ops (snd (touch ops now (set_value ops v e))) x = entry_less ops e x \<and>
        entry_less ops x (snd (touch ops now (set_value ops v e))) = entry_less ops x e) \<and>
      entry_less ops (snd (touch ops now (set_value ops v e))) (snd (touch ops now (set_value ops v e))) = entry_less ops e e"
    using touch_order set_order by auto
  note t = touch_entry_ok [OF hp ok k set_size this]
  show "cache_ok ops (touch_entry (cache_of ops hp) now k (set_value ops v e) c)"
    "store (touch_entry (cache_of ops hp) now k (set_value ops v e) c) =
      (store c)(k \<mapsto> snd (touch ops now (set_value ops v e)))"
    "cache_max_size (touch_entry (cache_of ops hp) now k (set_value ops v e) c) = cache_max_size c"
    using t by auto
qed

lemma cache_insert_ok:
  assumes hp: "std_heap hp" and ok: "cache_ok ops c" and step: "cache_insert (cache_of ops hp) construct now k v c = Some (r, c')"
  shows "cache_ok ops c' \<and> cache_max_size c' = cache_max_size c"
  using step insert_unlogged_ok [OF hp ok] by (auto simp: cache_insert_def cache_insert_entry_def)

lemma cache_update_if_ok:
  assumes hp: "std_heap hp" and ok: "cache_ok ops c"
    and step: "cache_update_if (cache_of ops hp) construct now k v f c = Some (r, c')"
  shows "cache_ok ops c' \<and> cache_max_size c' = cache_max_size c"
proof (cases "store c k")
  case None
  then show ?thesis using step cache_insert_ok [OF hp, of "stat got_miss c"] ok by (auto simp: cache_update_if_def)
next
  case (Some e)
  then show ?thesis
    using step ok set_touch_ok [OF hp ok Some] by (auto simp: cache_update_if_def split: if_splits)
qed

lemma update_is_update_if: "cache_update cfg construct now k v c = cache_update_if cfg construct now k v (\<lambda>_ _. True) c"
  by (cases "store c k") (simp_all add: cache_update_def cache_update_if_def)

lemma cache_reserve_ok:
  assumes hp: "std_heap hp" and ok: "cache_ok ops c" and step: "cache_reserve (cache_of ops hp) n c = Some (r, c')"
  shows "cache_ok ops c'"
proof -
  have "cache_ok ops (c1\<lparr>cache_max_size := n\<rparr>) = cache_ok ops c1" for c1 :: "('k, 'e) local_cache"
    by (simp add: cache_ok_def linked_def ordered_def)
  then show ?thesis
    using step ok free_space_ok [OF hp _ ok] by (auto simp: cache_reserve_def split: if_splits)
qed

text \<open>With entries of size one, making room for one removes the entry at the top, and no other is greater.\<close>

lemma free_one:
  assumes hp: "std_heap hp" and ok: "cache_ok ops c" and nonempty: "entry_heap c \<noteq> []"
    and unit: "\<And>e. get_size ops e = 1" and agree: "\<And>e. entry_remove ops e"
  shows "\<exists>k0 e0 c'. free_space (cache_of ops hp) 1 c = Some (True, c') \<and> cache_ok ops c' \<and>
    store c k0 = Some e0 \<and> store c' = (store c)(k0 := None) \<and> cache_max_size c' = cache_max_size c \<and>
    (\<forall>k e. store c k = Some e \<longrightarrow> \<not> entry_less ops e0 e)"
proof -
  obtain k0 ks where h: "entry_heap c = k0 # ks" using nonempty by (cases "entry_heap c") auto
  then obtain e0 where e0: "store c k0 = Some e0" using ok by (force simp: cache_ok_def linked_def)
  let ?c = "evict_entry (cache_of ops hp) k0 e0 (butlast (pop_heap hp (adapt (entry_less ops) (store c)) (entry_heap c))) c"
  have "free_loop (cache_of ops hp) 1 0 True c = free_loop (cache_of ops hp) 0 1 True ?c"
    using h e0 by (subst free_loop.simps) (simp add: agree unit Let_def)
  also have "\<dots> = Some (0, True, ?c)" by (subst free_loop.simps) (simp add: Let_def)
  finally have "free_space (cache_of ops hp) 1 c = Some (True, ?c)" by (simp add: free_space_def nonempty)
  moreover have "cache_ok ops ?c" by (rule pop_top [OF hp ok h e0])
  moreover have "\<not> entry_less ops e0 e" if "store c k = Some e" for k e
  proof -
    have "k \<in> set (k0 # ks)" using ok h that by (auto simp: cache_ok_def linked_def)
    moreover have "is_heap (adapt (entry_less ops) (store c)) (k0 # ks)" using ok h by (simp add: cache_ok_def ordered_def)
    ultimately have "\<not> adapt (entry_less ops) (store c) k0 k" by (intro heap_top [OF adapt_weak, where xs = ks])
    then show ?thesis using that e0 by (simp add: adapt_def)
  qed
  ultimately show ?thesis using e0 by (intro exI [of _ k0] exI [of _ e0] exI [of _ ?c]) (simp add: evict_entry_def)
qed

text \<open>The number of entries, for entries of size one.\<close>

lemma unit_size:
  assumes "cache_ok ops c" and unit: "\<And>e. get_size ops e = 1"
  shows "cache_current_size c = of_nat (card (dom (store c)))"
proof -
  have "cache_current_size c = (\<Sum>k\<leftarrow>entry_heap c. 1)" using assms by (simp add: cache_ok_def linked_def)
  also have "\<dots> = of_nat (length (entry_heap c))" by (induction "entry_heap c") (simp_all add: sum_list_triv)
  also have "length (entry_heap c) = card (dom (store c))"
    using assms(1) distinct_card [of "entry_heap c"] by (simp add: cache_ok_def linked_def)
  finally show ?thesis .
qed

end

lemma weak_by_measure: "strict_weak (\<lambda>x y. (f x :: 'a :: linorder) < f y)" "strict_weak (\<lambda>x y. f x > f y)"
  by (auto simp: strict_weak_def)

interpretation plain: cache_entry plain_entry
proof -
  have "strict_weak ((<) :: 'a \<Rightarrow> 'a \<Rightarrow> bool)" by (auto simp: strict_weak_def)
  then show "cache_entry (plain_entry :: ('a :: linorder, 'a) entry_ops)"
    by unfold_locales (simp_all add: plain_entry_def)
qed

interpretation fifo: ordered_entry fifo_entry
  by unfold_locales (simp_all add: fifo_entry_def weak_by_measure)

interpretation lfu: ordered_entry lfu_entry
  by unfold_locales (simp_all add: lfu_entry_def weak_by_measure)

interpretation lru: ordered_entry lru_entry
  by unfold_locales (simp_all add: lru_entry_def weak_by_measure)

interpretation size: ordered_entry size_entry
  by unfold_locales (simp_all add: size_entry_def weak_by_measure)

end
