(* ===== verification/Local_Cache_Lru.thy ===== *)
theory Local_Cache_Lru
  imports Local_Cache_Policy
begin

text \<open>
  A cache of \<open>lru_entry\<close> behaves as a list in the order of the last use: a use moves an element to the front, and when the list is full
  an insertion first drops its last element. The calls of a run read the clock at times that increase.
\<close>

section \<open>Runs of calls\<close>

datatype ('k, 'v) cache_call = Get 'k | Insert_value 'k 'v | Update_value 'k 'v | Erase_keys "'k \<Rightarrow> bool" | Clear_all

datatype 'v cache_answer = Found "'v option" | Succeeded bool | Removed_size u64 | Cleared

fun lru_call ::
    "'k heap_ops \<Rightarrow> int \<Rightarrow> ('k, 'v) cache_call \<Rightarrow> ('k, 'v lru_entry) local_cache \<Rightarrow>
     ('v cache_answer \<times> ('k, 'v lru_entry) local_cache) option" where
  "lru_call hp now (Get k) c =
     (let (r, c) = cache_get_entry (cache_of lru_entry hp) now k c in Some (Found (map_option (lru_value \<circ> snd) r), c))"
| "lru_call hp now (Insert_value k v) c =
     map_option (\<lambda>(r, c). (Succeeded r, c)) (cache_insert (cache_of lru_entry hp) lru_entry_new now k v c)"
| "lru_call hp now (Update_value k v) c =
     map_option (\<lambda>(r, c). (Succeeded r, c)) (cache_update (cache_of lru_entry hp) lru_entry_new now k v c)"
| "lru_call hp now (Erase_keys f) c =
     (let (n, c) = cache_erase (cache_of lru_entry hp) (f \<circ> fst) c in Some (Removed_size n, c))"
| "lru_call hp now Clear_all c = Some (Cleared, cache_clear c)"

fun lru_run ::
    "'k heap_ops \<Rightarrow> (int \<times> ('k, 'v) cache_call) list \<Rightarrow> ('k, 'v lru_entry) local_cache \<Rightarrow>
     ('v cache_answer list \<times> ('k, 'v lru_entry) local_cache) option" where
  "lru_run hp [] c = Some ([], c)"
| "lru_run hp ((now, x) # xs) c = (case lru_call hp now x c of
       None \<Rightarrow> None
     | Some (r, c) \<Rightarrow> map_option (\<lambda>(rs, c). (r # rs, c)) (lru_run hp xs c))"

section \<open>The list it behaves as\<close>

definition without :: "'k \<Rightarrow> ('k \<times> 'e) list \<Rightarrow> ('k \<times> 'e) list" where
  "without k = filter (\<lambda>p. fst p \<noteq> k)"

definition recent_insert :: "u64 \<Rightarrow> 'k \<Rightarrow> 'v \<Rightarrow> ('k \<times> 'v) list \<Rightarrow> 'v cache_answer \<times> ('k \<times> 'v) list" where
  "recent_insert cap k v al =
     (let al = (if cap \<noteq> 0 \<and> length al = unat cap then butlast al else al)
      in if map_of al k = None then (Succeeded True, (k, v) # al) else (Succeeded False, al))"

fun recent_call :: "u64 \<Rightarrow> ('k, 'v) cache_call \<Rightarrow> ('k \<times> 'v) list \<Rightarrow> 'v cache_answer \<times> ('k \<times> 'v) list" where
  "recent_call cap (Get k) al = (case map_of al k of
       None \<Rightarrow> (Found None, al)
     | Some v \<Rightarrow> (Found (Some v), (k, v) # without k al))"
| "recent_call cap (Insert_value k v) al = recent_insert cap k v al"
| "recent_call cap (Update_value k v) al =
     (if map_of al k = None then recent_insert cap k v al else (Succeeded True, (k, v) # without k al))"
| "recent_call cap (Erase_keys f) al =
     (let al' = filter (\<lambda>p. \<not> f (fst p)) al in (Removed_size (of_nat (length al - length al')), al'))"
| "recent_call cap Clear_all al = (Cleared, [])"

fun recent_run :: "u64 \<Rightarrow> ('k, 'v) cache_call list \<Rightarrow> ('k \<times> 'v) list \<Rightarrow> 'v cache_answer list \<times> ('k \<times> 'v) list" where
  "recent_run cap [] al = ([], al)"
| "recent_run cap (x # xs) al = (let (r, al) = recent_call cap x al; (rs, al) = recent_run cap xs al in (r # rs, al))"

section \<open>The simulation\<close>

text \<open>The entries in the order of the list, each used later than those behind it and all before \<open>now\<close>.\<close>

definition recent_order :: "int \<Rightarrow> ('k \<times> 'v lru_entry) list \<Rightarrow> bool" where
  "recent_order now tal \<longleftrightarrow> distinct (map fst tal) \<and>
     sorted_wrt (\<lambda>x y. access_time (snd x) > access_time (snd y)) tal \<and> (\<forall>p\<in>set tal. access_time (snd p) < now)"

definition lru_simulates ::
    "int \<Rightarrow> u64 \<Rightarrow> ('k, 'v lru_entry) local_cache \<Rightarrow> ('k \<times> 'v lru_entry) list \<Rightarrow> bool" where
  "lru_simulates now cap c tal \<longleftrightarrow> cache_ok lru_entry c \<and> cache_max_size c = cap \<and> store c = map_of tal \<and>
     recent_order now tal \<and> (cap \<noteq> 0 \<longrightarrow> length tal \<le> unat cap)"

definition values_of :: "('k \<times> 'v lru_entry) list \<Rightarrow> ('k \<times> 'v) list" where
  "values_of tal = map (\<lambda>p. (fst p, lru_value (snd p))) tal"

lemma lru_entry_simps [simp]:
  "touch lru_entry now e = (True, e\<lparr>access_time := now\<rparr>)" "entry_insert lru_entry now e = (True, e)"
  "entry_remove lru_entry e" "get_size lru_entry e = 1" "get_value lru_entry = lru_value"
  "set_value lru_entry v e = e\<lparr>lru_value := v\<rparr>" "entry_less lru_entry x y \<longleftrightarrow> access_time x > access_time y"
  by (simp_all add: lru_entry_def)

lemma values_of_simps [simp]:
  "values_of [] = []" "values_of (p # tal) = (fst p, lru_value (snd p)) # values_of tal" "length (values_of tal) = length tal"
  "values_of (butlast tal) = butlast (values_of tal)" "values_of (without k tal) = without k (values_of tal)"
  "values_of (filter (\<lambda>p. P (fst p)) tal) = filter (\<lambda>p. P (fst p)) (values_of tal)"
  by (simp_all add: values_of_def map_butlast without_def filter_map comp_def)

lemma map_of_values_of [simp]: "map_of (values_of tal) k = map_option lru_value (map_of tal k)"
  by (induction tal) auto

lemma map_of_filter_fst: "map_of (filter (\<lambda>p. P (fst p)) tal) k = (if P k then map_of tal k else None)"
  by (induction tal) auto

lemma map_of_without [simp]: "map_of (without k tal) = (map_of tal)(k := None)"
  using map_of_filter_fst [of "\<lambda>x. x \<noteq> k" tal] by (auto simp: without_def fun_eq_iff)

lemma map_of_snoc_remove:
  "distinct (map fst (xs @ [(k, e)])) \<Longrightarrow> (map_of (xs @ [(k, e)]))(k := None) = map_of xs"
  by (induction xs) (auto simp: fun_upd_twist)

lemma length_without: "map_of tal k = Some e \<Longrightarrow> length (without k tal) < length tal"
  unfolding without_def by (rule length_filter_less [where x = "(k, e)"]) (simp_all add: map_of_SomeD)

lemma recent_order_filter: "recent_order now tal \<Longrightarrow> recent_order now (filter P tal)"
  by (auto simp: recent_order_def sorted_wrt_filter distinct_map_filter)

lemma recent_order_butlast: "recent_order now tal \<Longrightarrow> recent_order now (butlast tal)"
  by (auto simp: recent_order_def distinct_butlast butlast_conv_take sorted_wrt_take take_map [symmetric] dest: in_set_takeD)

lemma recent_order_later: "recent_order now tal \<Longrightarrow> now \<le> now' \<Longrightarrow> recent_order now' tal"
  by (fastforce simp: recent_order_def)

lemma recent_order_Cons:
  assumes "recent_order now tal" "map_of tal k = None" "access_time e = now" "now < now'"
  shows "recent_order now' ((k, e) # tal)"
  using assms by (fastforce simp: recent_order_def map_of_eq_None_iff)

text \<open>A used entry moves to the front.\<close>

lemma use_simulates:
  assumes sim: "lru_simulates now cap c tal" and k: "map_of tal k = Some e0" and e: "access_time e = now" and later: "now < now'"
    and ok: "cache_ok lru_entry c'" "cache_max_size c' = cache_max_size c" "store c' = (store c)(k \<mapsto> e)"
  shows "lru_simulates now' cap c' ((k, e) # without k tal)"
proof -
  have "recent_order now (without k tal)" using sim recent_order_filter by (auto simp: lru_simulates_def without_def)
  then have "recent_order now' ((k, e) # without k tal)" by (rule recent_order_Cons) (simp_all add: e later)
  then show ?thesis using sim ok length_without [OF k] by (auto simp: lru_simulates_def)
qed

lemma size_is_length: "lru_simulates now cap c tal \<Longrightarrow> cache_current_size c = of_nat (length tal)"
proof -
  assume sim: "lru_simulates now cap c tal"
  then have "card (dom (store c)) = card (set (map fst tal))" by (simp add: lru_simulates_def dom_map_of_conv_image_fst)
  also have "\<dots> = length tal" using sim distinct_card [of "map fst tal"] by (simp add: lru_simulates_def recent_order_def)
  finally show ?thesis using lru.unit_size [of c] sim by (simp add: lru_simulates_def)
qed

text \<open>The entry that is removed for another is the last one.\<close>

lemma evict_simulates:
  assumes hp: "std_heap hp" and sim: "lru_simulates now cap c tal" and "tal \<noteq> []"
  shows "\<exists>c'. free_space (cache_of lru_entry hp) 1 c = Some (True, c') \<and> lru_simulates now cap c' (butlast tal)"
proof -
  have ok: "cache_ok lru_entry c" using sim by (simp add: lru_simulates_def)
  have "set (entry_heap c) = fst ` set tal"
    using sim by (simp add: lru_simulates_def cache_ok_def linked_def dom_map_of_conv_image_fst)
  then have "entry_heap c \<noteq> []" using \<open>tal \<noteq> []\<close> by auto
  from lru.free_one [OF hp ok this] obtain k0 e0 c' where
    c': "free_space (cache_of lru_entry hp) 1 c = Some (True, c')" "cache_ok lru_entry c'" "store c k0 = Some e0"
      "store c' = (store c)(k0 := None)" "cache_max_size c' = cache_max_size c"
    and oldest: "\<And>k e. store c k = Some e \<Longrightarrow> \<not> access_time e0 > access_time e" by auto
  obtain k1 e1 where last: "last tal = (k1, e1)" by fastforce
  then have tal: "tal = butlast tal @ [(k1, e1)]" using \<open>tal \<noteq> []\<close> by (metis append_butlast_last_id)
  have dist: "distinct (map fst (butlast tal @ [(k1, e1)]))"
    and sorted: "sorted_wrt (\<lambda>x y. access_time (snd x) > access_time (snd y)) (butlast tal @ [(k1, e1)])"
    using sim tal by (auto simp: lru_simulates_def recent_order_def)
  have st: "store c = map_of tal" using sim by (simp add: lru_simulates_def)
  have "(k0, e0) \<in> set (butlast tal @ [(k1, e1)])" using c'(3) st tal by (metis map_of_SomeD)
  moreover have "store c k1 = Some e1"
    using st sim \<open>tal \<noteq> []\<close> last by (metis last_in_set lru_simulates_def map_of_is_SomeI recent_order_def)
  ultimately have k0: "k0 = k1" using oldest sorted by (fastforce simp: sorted_wrt_append)
  have "(map_of tal)(k1 := None) = map_of (butlast tal)" using map_of_snoc_remove [OF dist] tal by simp
  then have "lru_simulates now cap c' (butlast tal)"
    using sim c' st k0 recent_order_butlast by (auto simp: lru_simulates_def)
  then show ?thesis using c'(1) by blast
qed

text \<open>Inserting into a cache that has room, and into a full one.\<close>

lemma store_simulates:
  assumes hp: "std_heap hp" and sim: "lru_simulates now cap c tal" and room: "cap \<noteq> 0 \<longrightarrow> length tal < unat cap"
    and later: "now < now'"
  shows "\<exists>c' tal'. store_entry (cache_of lru_entry hp) k (lru_entry_new now v) c = (map_of tal k = None, c') \<and>
    lru_simulates now' cap c' tal' \<and>
    values_of tal' = (if map_of tal k = None then (k, v) # values_of tal else values_of tal)"
proof -
  have ok: "cache_ok lru_entry c" and st: "store c = map_of tal" and cap: "cache_max_size c = cap" and ord: "recent_order now tal"
    using sim by (auto simp: lru_simulates_def)
  obtain r c' where step: "store_entry (cache_of lru_entry hp) k (lru_entry_new now v) c = (r, c')" by fastforce
  note t = lru.store_entry_ok [OF hp ok step]
  show ?thesis
  proof (cases "map_of tal k")
    case None
    have "recent_order now' ((k, lru_entry_new now v) # tal)"
      using ord None _ later by (rule recent_order_Cons) (simp add: lru_entry_new_def)
    then have "lru_simulates now' cap c' ((k, lru_entry_new now v) # tal)"
      using t None st cap room by (auto simp: lru_simulates_def)
    then show ?thesis
      using step t(2) None st by (intro exI [of _ c'] exI [of _ "(k, lru_entry_new now v) # tal"]) (simp add: lru_entry_new_def)
  next
    case (Some e)
    have "lru_simulates now' cap c' tal"
      using t Some st cap room recent_order_later [OF ord, of now'] later by (auto simp: lru_simulates_def)
    then show ?thesis using step t(2) Some st by (intro exI [of _ c'] exI [of _ tal]) simp
  qed
qed

lemma full_is_full:
  assumes "cap \<noteq> (- 1 :: u64)" "n \<le> unat cap"
  shows "of_nat n + 1 > cap \<longleftrightarrow> n = unat cap"
proof -
  have "unat cap \<noteq> unat (- 1 :: u64)" using assms(1) by (metis word_unat_eq_iff)
  then have "unat cap < 2 ^ 64 - 1"
    using unsigned_less [of cap, where ?'a = nat] by (simp add: unsigned_minus_1_eq_mask mask_eq_exp_minus_1)
  then have "unat (of_nat (n + 1) :: u64) = n + 1" using assms(2) by (simp add: unsigned_of_nat take_bit_nat_eq_self del: of_nat_Suc of_nat_add)
  then show ?thesis using assms(2) by (auto simp: word_less_nat_alt add.commute)
qed

lemma insert_simulates:
  assumes hp: "std_heap hp" and sim: "lru_simulates now cap c tal" and cap: "cap \<noteq> - 1" and later: "now < now'"
  shows "\<exists>c' tal' r. cache_insert (cache_of lru_entry hp) lru_entry_new now k v c = Some (r, c') \<and>
    lru_simulates now' cap c' tal' \<and> recent_insert cap k v (values_of tal) = (Succeeded r, values_of tal')"
proof -
  let ?full = "cap \<noteq> 0 \<and> length tal = unat cap"
  have max: "cache_max_size c = cap" and len: "cap \<noteq> 0 \<longrightarrow> length tal \<le> unat cap" using sim by (auto simp: lru_simulates_def)
  have full: "cap \<noteq> 0 \<and> of_nat (length tal) + 1 > cap \<longleftrightarrow> ?full" using full_is_full [OF cap] len by blast
  have ins: "insert_unlogged (cache_of lru_entry hp) now k (lru_entry_new now v) c =
      (if ?full then (case free_space (cache_of lru_entry hp) 1 c of None \<Rightarrow> None
         | Some (r, c) \<Rightarrow> if \<not> r then Some (False, c) else Some (store_entry (cache_of lru_entry hp) k (lru_entry_new now v) c))
       else Some (store_entry (cache_of lru_entry hp) k (lru_entry_new now v) c))"
    using full by (auto simp: insert_unlogged_def always_def Let_def max size_is_length [OF sim])
  show ?thesis
  proof (cases ?full)
    case True
    then have "tal \<noteq> []" by (auto simp: unat_eq_zero)
    from evict_simulates [OF hp sim this] obtain c1 where
      c1: "free_space (cache_of lru_entry hp) 1 c = Some (True, c1)" "lru_simulates now cap c1 (butlast tal)" by blast
    have "length (butlast tal) < unat cap" using True \<open>tal \<noteq> []\<close> by (cases tal) auto
    with store_simulates [OF hp c1(2) _ later, of k v] obtain c' tal' where
      "store_entry (cache_of lru_entry hp) k (lru_entry_new now v) c1 = (map_of (butlast tal) k = None, c')"
      "lru_simulates now' cap c' tal'"
      "values_of tal' = (if map_of (butlast tal) k = None then (k, v) # values_of (butlast tal) else values_of (butlast tal))"
      by blast
    then show ?thesis
      using True c1(1) ins map_of_values_of [of "butlast tal" k]
      by (intro exI [of _ "stat (update_on_exit method_insert_entry) c'"] exI [of _ tal'] exI [of _ "map_of (butlast tal) k = None"])
        (auto simp: cache_insert_def cache_insert_entry_def recent_insert_def Let_def lru_simulates_def)
  next
    case False
    then have "cap \<noteq> 0 \<longrightarrow> length tal < unat cap" using len by auto
    from store_simulates [OF hp sim this later, of k v] obtain c' tal' where
      "store_entry (cache_of lru_entry hp) k (lru_entry_new now v) c = (map_of tal k = None, c')"
      "lru_simulates now' cap c' tal'"
      "values_of tal' = (if map_of tal k = None then (k, v) # values_of tal else values_of tal)"
      by blast
    then show ?thesis
      using False ins
      by (intro exI [of _ "stat (update_on_exit method_insert_entry) c'"] exI [of _ tal'] exI [of _ "map_of tal k = None"])
        (auto simp: cache_insert_def cache_insert_entry_def recent_insert_def Let_def lru_simulates_def)
  qed
qed

lemma stat_simulates [simp]: "lru_simulates now cap (stat f c) tal = lru_simulates now cap c tal"
  by (simp add: lru_simulates_def)

lemma update_simulates:
  assumes hp: "std_heap hp" and sim: "lru_simulates now cap c tal" and cap: "cap \<noteq> - 1" and later: "now < now'"
  shows "\<exists>c' tal' r. cache_update (cache_of lru_entry hp) lru_entry_new now k v c = Some (r, c') \<and>
    lru_simulates now' cap c' tal' \<and> recent_call cap (Update_value k v) (values_of tal) = (Succeeded r, values_of tal')"
proof (cases "map_of tal k")
  case None
  have "lru_simulates now cap (stat got_miss c) tal" using sim by simp
  from insert_simulates [OF hp this cap later, of k v] obtain c' tal' r where
    "cache_insert (cache_of lru_entry hp) lru_entry_new now k v (stat got_miss c) = Some (r, c')"
    "lru_simulates now' cap c' tal'" "recent_insert cap k v (values_of tal) = (Succeeded r, values_of tal')" by blast
  moreover have "store c k = None" using sim None by (simp add: lru_simulates_def)
  ultimately show ?thesis
    using None by (intro exI [of _ "stat (update_on_exit method_update_entry) c'"] exI [of _ tal'] exI [of _ r])
      (simp add: cache_update_def)
next
  case (Some e)
  have ok: "cache_ok lru_entry c" and k: "store c k = Some e" using sim Some by (auto simp: lru_simulates_def)
  let ?c = "touch_entry (cache_of lru_entry hp) now k (set_value lru_entry v e) c"
  let ?e = "e\<lparr>lru_value := v, access_time := now\<rparr>"
  note t = lru.set_touch_ok [OF hp ok k, of now v]
  have "lru_simulates now' cap ?c ((k, ?e) # without k tal)"
    by (rule use_simulates [OF sim Some _ later t(1,3)]) (use t(2) in simp_all)
  then show ?thesis
    using Some k
    by (intro exI [of _ "stat (update_on_exit method_update_entry) (stat got_hit ?c)"] exI [of _ "(k, ?e) # without k tal"]
        exI [of _ True]) (simp add: cache_update_def)
qed

lemma get_simulates:
  assumes hp: "std_heap hp" and sim: "lru_simulates now cap c tal" and later: "now < now'"
  shows "\<exists>c' tal' r. lru_call hp now (Get k) c = Some (r, c') \<and>
    lru_simulates now' cap c' tal' \<and> recent_call cap (Get k) (values_of tal) = (r, values_of tal')"
proof (cases "map_of tal k")
  case None
  then have "lru_simulates now' cap c tal" "store c k = None"
    using sim recent_order_later [of now tal now'] later by (auto simp: lru_simulates_def)
  then show ?thesis
    using None by (intro exI [of _ "stat (update_on_exit method_get_entry \<circ> got_miss) c"] exI [of _ tal] exI [of _ "Found None"])
      (simp add: cache_get_entry_def)
next
  case (Some e)
  have ok: "cache_ok lru_entry c" and k: "store c k = Some e" using sim Some by (auto simp: lru_simulates_def)
  let ?c = "touch_entry (cache_of lru_entry hp) now k e c"
  let ?e = "e\<lparr>access_time := now\<rparr>"
  note t = lru.touch_entry_ok [OF hp ok k refl lru.touch_kept_order, of now]
  have st: "store ?c = (store c)(k \<mapsto> ?e)" using t(2) by simp
  have "lru_simulates now' cap ?c ((k, ?e) # without k tal)"
    by (rule use_simulates [OF sim Some _ later t(1,3) st]) simp
  then show ?thesis
    using Some k st
    by (intro exI [of _ "stat (update_on_exit method_get_entry \<circ> got_hit) ?c"] exI [of _ "(k, ?e) # without k tal"]
        exI [of _ "Found (Some (lru_value e))"]) (simp add: cache_get_entry_def Let_def)
qed

lemma erase_simulates:
  assumes hp: "std_heap hp" and sim: "lru_simulates now cap c tal" and later: "now < now'"
  shows "\<exists>c' tal' r. lru_call hp now (Erase_keys f) c = Some (r, c') \<and>
    lru_simulates now' cap c' tal' \<and> recent_call cap (Erase_keys f) (values_of tal) = (r, values_of tal')"
proof -
  have ok: "cache_ok lru_entry c" using sim by (simp add: lru_simulates_def)
  obtain n c' where step: "cache_erase (cache_of lru_entry hp) (f \<circ> fst) c = (n, c')" by fastforce
  note t = lru.cache_erase_ok [OF hp ok step]
  let ?tal = "filter (\<lambda>p. \<not> f (fst p)) tal"
  have "store c' = map_of ?tal"
    using t sim map_of_filter_fst [of "\<lambda>k. \<not> f k" tal] by (auto simp: lru_simulates_def fun_eq_iff split: option.splits)
  moreover have "recent_order now' ?tal"
    using sim recent_order_later [OF recent_order_filter, of now tal now'] later by (auto simp: lru_simulates_def)
  moreover have le: "length ?tal \<le> length tal" by simp
  ultimately have sim': "lru_simulates now' cap c' ?tal"
    using sim t le_trans [OF le] by (auto simp: lru_simulates_def)
  have "n + of_nat (length ?tal) = (of_nat (length tal) :: u64)"
    using t size_is_length [OF sim] size_is_length [OF sim'] by simp
  then have "n = of_nat (length tal - length ?tal)" using le by (simp add: eq_diff_eq of_nat_diff)
  moreover have v: "values_of ?tal = filter (\<lambda>p. \<not> f (fst p)) (values_of tal)"
    by (rule values_of_simps(6) [where P = "\<lambda>k. \<not> f k"])
  moreover have "length (filter (\<lambda>p. \<not> f (fst p)) (values_of tal)) = length ?tal"
    by (simp only: v [symmetric] values_of_simps(3))
  ultimately show ?thesis
    using sim' step by (intro exI [of _ c'] exI [of _ ?tal] exI [of _ "Removed_size n"]) (simp add: Let_def)
qed

lemma call_simulates:
  assumes hp: "std_heap hp" and sim: "lru_simulates now cap c tal" and cap: "cap \<noteq> - 1" and later: "now < now'"
  shows "\<exists>c' tal' r. lru_call hp now x c = Some (r, c') \<and>
    lru_simulates now' cap c' tal' \<and> recent_call cap x (values_of tal) = (r, values_of tal')"
proof (cases x)
  case (Get k)
  then show ?thesis using get_simulates [OF hp sim later] by simp
next
  case (Insert_value k v)
  with insert_simulates [OF hp sim cap later, of k v] show ?thesis by fastforce
next
  case (Update_value k v)
  with update_simulates [OF hp sim cap later, of k v] show ?thesis by fastforce
next
  case (Erase_keys f)
  then show ?thesis using erase_simulates [OF hp sim later] by simp
next
  case Clear_all
  have "lru_simulates now' cap (cache_clear c) []"
    using sim cache_clear_ok [of lru_entry c]
    by (simp add: lru_simulates_def recent_order_def cache_clear_def)
  then show ?thesis using Clear_all by (intro exI [of _ "cache_clear c"] exI [of _ "[]"]) simp
qed

lemma run_simulates:
  assumes hp: "std_heap hp" and cap: "cap \<noteq> - 1"
  shows "sorted_wrt (<) (map fst xs) \<Longrightarrow> (\<forall>x\<in>set xs. now \<le> fst x) \<Longrightarrow> recent_order now tal \<Longrightarrow>
    (\<And>now'. recent_order now' tal \<Longrightarrow> lru_simulates now' cap c tal) \<Longrightarrow>
    \<exists>c' tal' now'. lru_run hp xs c = Some (fst (recent_run cap (map snd xs) (values_of tal)), c') \<and>
      snd (recent_run cap (map snd xs) (values_of tal)) = values_of tal' \<and> lru_simulates now' cap c' tal'"
proof (induction xs arbitrary: now c tal)
  case Nil
  then show ?case by fastforce
next
  case (Cons y xs)
  obtain t x where y: "y = (t, x)" by fastforce
  have "recent_order t tal" using Cons.prems(2,3) y recent_order_later by fastforce
  then have sim: "lru_simulates t cap c tal" by (rule Cons.prems(4))
  from call_simulates [OF hp this cap, of "t + 1" x] obtain c1 tal1 r where
    c1: "lru_call hp t x c = Some (r, c1)" "lru_simulates (t + 1) cap c1 tal1" "recent_call cap x (values_of tal) = (r, values_of tal1)"
    by auto
  have "recent_order (t + 1) tal1" "\<And>now'. recent_order now' tal1 \<Longrightarrow> lru_simulates now' cap c1 tal1"
    using c1(2) by (auto simp: lru_simulates_def)
  moreover have "sorted_wrt (<) (map fst xs)" "\<forall>x\<in>set xs. t + 1 \<le> fst x" using Cons.prems(1) y by auto
  ultimately obtain c' tal' now' where
    "lru_run hp xs c1 = Some (fst (recent_run cap (map snd xs) (values_of tal1)), c')"
    "snd (recent_run cap (map snd xs) (values_of tal1)) = values_of tal'" "lru_simulates now' cap c' tal'"
    using Cons.IH [of "t + 1" tal1 c1] by blast
  then show ?case using y c1 by (auto simp: split_beta)
qed

text \<open>C12: a cache of least recently used entries. On a cache of the given capacity, zero for no limit but not the largest 64-bit number, every sequence of lookups,
  insertions, updates, erasures and clears (not of \<open>reserve\<close>) with strictly increasing clock readings returns, whatever heap algorithms within the standard
  are used, and gives the answers of a list in the order of the last use from which an insertion into a full cache first drops the last
  element. At the end the cache holds what the list holds, its size is the length of the list, and that is at most the capacity.\<close>

theorem lru_cache_drops_least_recent:
  assumes "std_heap hp" "cap \<noteq> - 1" "sorted_wrt (<) (map fst xs)"
  shows "\<exists>c. lru_run hp xs (make_local_cache cap) = Some (fst (recent_run cap (map snd xs) []), c) \<and>
    (\<forall>k. map_option lru_value (store c k) = map_of (snd (recent_run cap (map snd xs) [])) k) \<and>
    local_cache_size c = of_nat (length (snd (recent_run cap (map snd xs) []))) \<and>
    (cap \<noteq> 0 \<longrightarrow> length (snd (recent_run cap (map snd xs) [])) \<le> unat cap)"
proof -
  obtain now where now: "\<forall>x\<in>set xs. now \<le> fst x"
  proof (cases xs)
    case Nil
    then show ?thesis using that by simp
  next
    case (Cons y ys)
    then have "\<forall>z\<in>set xs. fst y \<le> fst z" using assms(3) by auto
    then show ?thesis by (rule that)
  qed
  have "lru_simulates now' cap (make_local_cache cap) []" for now'
    by (simp add: lru_simulates_def make_local_cache_ok recent_order_def) (simp add: make_local_cache_def)
  moreover have "recent_order now []" by (simp add: recent_order_def)
  ultimately obtain c tal now' where
    "lru_run hp xs (make_local_cache cap) = Some (fst (recent_run cap (map snd xs) []), c)"
    "snd (recent_run cap (map snd xs) []) = values_of tal" "lru_simulates now' cap c tal"
    using run_simulates [OF assms(1,2,3) now] by (metis values_of_simps(1))
  then show ?thesis using size_is_length [of now' cap c tal] by (auto simp: lru_simulates_def local_cache_size_def)
qed

theorem lru_cache_drops_least_recent_witness:
  "\<exists>c. lru_run descending_heap [(1, Insert_value (10 :: nat) True), (2, Insert_value 20 False), (3, Get 10),
        (5, Insert_value 30 True), (8, Get 20)] (make_local_cache 2) =
      Some ([Succeeded True, Succeeded True, Found (Some True), Succeeded True, Found None], c) \<and>
    store c 20 = None \<and> map_option lru_value (store c 10) = Some True \<and> local_cache_size c = 2"
proof -
  let ?xs = "[(1 :: int, Insert_value (10 :: nat) True), (2, Insert_value 20 False), (3, Get 10), (5, Insert_value 30 True), (8, Get 20)]"
  have spec: "recent_run 2 (map snd ?xs) [] =
      ([Succeeded True, Succeeded True, Found (Some True), Succeeded True, Found None], [(30, True), (10, True)])"
    by (simp add: recent_insert_def without_def)
  have "\<exists>c. lru_run descending_heap ?xs (make_local_cache 2) = Some (fst (recent_run 2 (map snd ?xs) []), c) \<and>
    (\<forall>k. map_option lru_value (store c k) = map_of (snd (recent_run 2 (map snd ?xs) [])) k) \<and>
    local_cache_size c = of_nat (length (snd (recent_run 2 (map snd ?xs) []))) \<and>
    (2 \<noteq> (0 :: u64) \<longrightarrow> length (snd (recent_run 2 (map snd ?xs) [])) \<le> unat (2 :: u64))"
    by (rule lru_cache_drops_least_recent [OF std_descending_heap]) simp_all
  then obtain c where c: "lru_run descending_heap ?xs (make_local_cache 2) =
      Some ([Succeeded True, Succeeded True, Found (Some True), Succeeded True, Found None], c)"
    "\<And>k. map_option lru_value (store c k) = map_of [(30, True), (10, True)] k" "local_cache_size c = of_nat 2"
    unfolding spec by auto
  have "store c 20 = None" "map_option lru_value (store c 10) = Some True" using c(2) [of 20] c(2) [of 10] by simp_all
  then show ?thesis using c(1,3) by (intro exI [of _ c]) (simp del: lru_run.simps)
qed

section \<open>Other entries and other calls\<close>

text \<open>
  The order of the other entry types is the other way round. With \<open>fifo_entry\<close> what is removed for a new entry was inserted last, and with
  \<open>lfu_entry\<close> it was used most.
\<close>

lemma fifo_evicts_newest:
  assumes "std_heap hp" "cache_ok fifo_entry c" "entry_heap c \<noteq> []"
  shows "\<exists>k0 e0 c'. free_space (cache_of fifo_entry hp) 1 c = Some (True, c') \<and> store c k0 = Some e0 \<and>
    store c' = (store c)(k0 := None) \<and> (\<forall>k e. store c k = Some e \<longrightarrow> insertion_time e \<le> insertion_time e0)"
  using fifo.free_one [OF assms] by (fastforce simp: fifo_entry_def not_less)

lemma lfu_evicts_most_used:
  assumes "std_heap hp" "cache_ok lfu_entry c" "entry_heap c \<noteq> []"
  shows "\<exists>k0 e0 c'. free_space (cache_of lfu_entry hp) 1 c = Some (True, c') \<and> store c k0 = Some e0 \<and>
    store c' = (store c)(k0 := None) \<and> (\<forall>k e. store c k = Some e \<longrightarrow> ref_count e \<le> ref_count e0)"
  using lfu.free_one [OF assms] by (fastforce simp: lfu_entry_def not_less)

lemma size_evicts_smallest:
  assumes ok: "cache_ok size_entry c" and h: "entry_heap c = k0 # ks" and "store c k0 = Some e0" "store c k = Some e"
  shows "entry_size e0 \<le> entry_size e"
proof -
  have "k \<in> set (k0 # ks)" using ok h assms(4) by (auto simp: cache_ok_def linked_def)
  moreover have "is_heap (adapt (entry_less size_entry) (store c)) (k0 # ks)" using ok h by (simp add: cache_ok_def ordered_def)
  ultimately have "\<not> adapt (entry_less size_entry) (store c) k0 k" by (intro heap_top [OF size.adapt_weak, where xs = ks])
  then show ?thesis using assms(3,4) by (simp add: adapt_def size_entry_def not_less)
qed

text \<open>
  The loop moves its iterator beyond the end when it removes the only entry and needs more space. A second entry is taken from the position after
  the top, here the newest one. A smaller capacity frees the difference even when the cache is not full. An insertion that fails because the key is
  there has removed another entry before. Replacing an entry by one of another size does not change the size of the cache.
\<close>

lemma free_space_passes_end:
  assumes "entry_heap c = [k]" "store c k = Some e" "entry_remove (entries cfg) e" "sint (get_size (entries cfg) e) < n" "0 < n"
    and "length (pop_heap (heaps cfg) (adapt (update_policy cfg) (store c)) [k]) = 1"
  shows "free_space cfg n c = None"
proof -
  let ?h = "butlast (pop_heap (heaps cfg) (adapt (update_policy cfg) (store c)) [k])"
  have "?h = []" using assms(6) by (metis diff_self_eq_0 length_0_conv length_butlast)
  then have "free_loop cfg (n - sint (get_size (entries cfg) e)) 1 True (evict_entry cfg k e ?h c) = None"
    using assms(4) by (subst free_loop.simps) (simp add: Let_def evict_entry_def)
  moreover have "free_loop cfg n 0 True c = free_loop cfg (n - sint (get_size (entries cfg) e)) 1 True (evict_entry cfg k e ?h c)"
    using assms by (subst free_loop.simps) (simp add: Let_def)
  ultimately show ?thesis using assms(1) by (simp add: free_space_def)
qed

definition three_entries :: "(nat, unit lru_entry) local_cache" where
  "three_entries = snd (the (lru_run descending_heap [(1, Insert_value 10 ()), (2, Insert_value 20 ()), (3, Insert_value 30 ())]
     (make_local_cache 3)))"

lemma reserve_drops_newest:
  "map_option (\<lambda>(r, c). (r, map (\<lambda>k. store c k \<noteq> None) [10, 20, 30]))
     (cache_reserve (cache_of lru_entry descending_heap) 1 three_entries) = Some (True, [False, True, False])"
  by code_simp

lemma reserve_drops_though_it_fits:
  "map_option (\<lambda>(r, c). (r, map (\<lambda>k. store c k \<noteq> None) [10, 20, 30]))
     (cache_reserve (cache_of lru_entry descending_heap) 3 (three_entries\<lparr>cache_max_size := 4\<rparr>)) = Some (True, [False, True, True])"
  by code_simp

lemma failed_insert_evicts:
  "map_option (\<lambda>(r, c). (r, map (\<lambda>k. store c k \<noteq> None) [10, 20, 30]))
     (cache_insert (cache_of lru_entry descending_heap) lru_entry_new 4 30 () three_entries) = Some (False, [False, True, True])"
  by code_simp

lemma update_entry_keeps_size:
  assumes "store c k = Some old" "cache_update_entry (cache_of size_entry hp) now k e c = Some (True, c')"
  shows "cache_current_size c' = cache_current_size c \<and> store c' = (store c)(k \<mapsto> e)"
  using assms by (auto simp: cache_update_entry_def touch_entry_def size_entry_def always_def)

end
