(* ===== verification/Spec2Isabelle.thy ===== *)
theory Spec2Isabelle
  imports Credit_Protocol Primary_Allocate Symbol_Credit Symbol_Routing Component_Namespace
    Locality_Namespace Cache_Coherence For_Loop Parallel_Predicates Learned_Parameters
    Local_Semaphore Local_Mutex Latch_Barrier Shared_Mutex Channel And_Gate
    Coalescing_Liveness Coalescing_Registry Parcel_Dispatch Local_Cache_Lru
begin

text \<open>
  A verification development for hpxML, the HPX runtime system for distributed C++ programs
  (\<^verbatim>\<open>src/hpxml\<close>) extended with learned parameters of parallel loops
  (\<^verbatim>\<open>src/logisticRegressionModel\<close>). Paths below are relative to \<^verbatim>\<open>src/hpxml\<close>.

  \<^bold>\<open>The program.\<close> A program runs on several localities (processes). Every object that can be
  used from another locality has a gid, 128 bits that hold the number of the locality that
  made it, a lock bit, flags and the logarithm of a credit. The active global address space (AGAS) is a set of services
  that know about gids: the primary namespace of each locality maps gids to addresses and keeps
  reference counts, the symbol namespaces map names to gids, the component and the locality
  namespaces register component types and localities. The addressing service is the client of these
  services on each locality; it batches changes of reference counts and caches addresses. On top of
  this, and independent of it, stand the parallel algorithms: they cut a range into
  chunks, run one task per chunk on an executor and combine the results. The repository adds parameters of loops (sequential or parallel, size
  of the chunks, prefetching distance) that are decided by weights which were learned and stored in files. Threads of one locality meet at
  local synchronization objects, which suspend a thread in the queue of a condition variable or in a future. Between localities travel parcels; the parcel
  handler chooses how they go, and parcels of some actions are collected by a message handler and sent together.

  \<^bold>\<open>Conventions.\<close> Records stand for the classes and keep the names of their members; each
  definition keeps the name of the function it models, with a prefix where C++ distinguishes by class.
  Unsigned integers are words of their width and wrap; signed ones, whose overflow C++ leaves undefined,
  are integers: credits and reference counts (\<open>i64\<close>) are taken not to reach \<open>2 ^ 63\<close>. Iterators are positions. An operation that throws or asserts gives \<open>Inl\<close> of an error code of
  \<^verbatim>\<open>hpx/error.hpp\<close>, or of \<open>assertion_failure\<close>. \<open>None\<close> is always one of two things, and
  the text beside the definition says which: a call that does not return (a lock that
  its caller already holds, a loop without end) or behaviour the language leaves undefined (a read
  outside an array, a division by zero). So a theorem that an operation gives \<open>Some\<close> states that it ends. An operation
  that waits for an answer is cut in two: the first part gives a value that says for what it waits, the second
  is its continuation, and other operations may run in between. What
  the code does under one lock is one definition, one step; where it gives up the lock, a new step begins, and what it does without a
  lock are steps of their own. An object that many threads use at once
  is a step relation over such steps, and its theorems hold in every reachable state. Where threads could wait for each other's mutexes, in the
  coalescing message handler, who holds which mutex is part of the state. The clock is an argument or part of the state,
  read by the step that asks for the time.

  \<^bold>\<open>Foundations.\<close>
  \<^item> \<open>Hpx_Prelude\<close>: the widths, error codes and results, and lemmas on words and bits.
  \<^item> \<open>Std_Map\<close>: \<open>std::map\<close> as a list of entries in the order of a comparison function. The locale
    \<open>strict_order\<close> proves the laws of lookup, insertion and removal from the order of the
    keys; the components interpret it for gids, names, ids and ranges of gids.
  \<^item> \<open>Counter_Data\<close>: the call counters each service keeps; times are left out.

  \<^bold>\<open>Identifiers.\<close>
  \<^item> \<open>Gid_Type\<close> (\<^verbatim>\<open>hpx/runtime/naming/name.hpp\<close>, \<^verbatim>\<open>src/runtime/naming/name.cpp\<close>): comparison,
    addition and subtraction with carries, the lock bit, the credit stored as a logarithm. The comparison is a total order on
    entities, whatever their internal bits; addition, with its assertion, is addition modulo \<open>2 ^ 128\<close> as long as no carry reaches the lock
    bit (\<open>gid_sum\<close> is the sum itself); the exact outcome of storing any credit; locking is exclusive.
  \<^item> \<open>Gva_Types\<close>: component types with their names, and the addresses gids are bound to.
  \<^item> \<open>Id_Type\<close> (\<^verbatim>\<open>hpx/runtime/naming/id_type_impl.hpp\<close>, \<^verbatim>\<open>src/runtime/naming/name.cpp\<close>): counted representations
    of gids. Sending a reference splits its credit, and no credit is gained or lost; releasing the last
    one sends back exactly what it has; the printed and archived forms.

  \<^bold>\<open>Primary namespace\<close> (\<^verbatim>\<open>src/runtime/agas/server/primary_namespace_server.cpp\<close>).
  \<^item> \<open>Primary_Namespace\<close>: the service as a record of its tables (addresses, reference counts, migrating
    objects, next free gid) and its operations.
  \<^item> \<open>Primary_Ranges\<close>: the search among ranges finds the range that has the gid (\<open>resolve_spec\<close> is
    the specification); what binding and unbinding change, and what they refuse.
  \<^item> \<open>Primary_Allocate\<close>: blocks of gids handed out by calls that do not overlap in time are disjoint. The code takes no lock, so an
    allocation is two steps, and calls that overlap may get the same block.

  \<^bold>\<open>Distributed reference counting.\<close>
  \<^item> \<open>Refcnt_Requests\<close> (\<^verbatim>\<open>src/runtime/agas/addressing_service.cpp\<close>): increments and decrements are
    collected per gid, compensate each other, and are sent in batches.
  \<^item> \<open>Credit_Protocol\<close>: clients, messages and the server together as a step relation. The locales
    \<open>credit_server\<close> and \<open>credit_client\<close> are what it relies on; the primary namespace and the batching client are their interpretations. In every
    reachable state the count of an object is the credit of all references and messages; so an object is freed at most
    once, never while it is referenced, no operation of the protocol fails, and an object without references can be freed.

  \<^bold>\<open>Names, component types, localities.\<close>
  \<^item> \<open>Symbol_Namespace\<close>, \<open>Symbol_Credit\<close> (\<^verbatim>\<open>src/runtime/agas/server/symbol_namespace_server.cpp\<close>): the table
    of names shares its gids with operations that are splitting them or wait for more credit, so it is a store of cells. Looking up a name
    and splitting its gid are two steps, as the code unlocks its mutex in between.
    Binding notifies the registered LCOs once, iteration ends, and a ledger accounts for all credit under every interleaving;
    what unbinding a name in between loses or duplicates is described exactly.
  \<^item> \<open>Jenkins_Hash\<close>, \<open>Symbol_Routing\<close> (\<^verbatim>\<open>hpx/util/jenkins_hash.hpp\<close>, \<^verbatim>\<open>src/runtime/agas/symbol_namespace.cpp\<close>):
    each name has one home.
  \<^item> \<open>Component_Namespace\<close>, \<open>Locality_Namespace\<close>: in every history of calls a component type is given to one name only, also after
    the name has been removed; lookups give back what was registered, removal removes nothing else; the search for a free locality number
    ends. The counter of types is a 32-bit integer whose overflow is undefined.

  \<^bold>\<open>Resolution of addresses.\<close>
  \<^item> \<open>Lru_Cache\<close> (\<^verbatim>\<open>hpx/util/cache/lru_cache.hpp\<close>): the list of nodes and the map into it refine a list in the
    order of last use, for any comparison that satisfies \<open>strict_order\<close>. The list follows the documentation; capacities and callbacks on which
    the code differs from it are excluded, and what it does there are lemmas.
  \<^item> \<open>Address_Cache\<close> (\<^verbatim>\<open>src/runtime/agas/addressing_service.cpp\<close>): resolution from local knowledge, the cache, or the
    home of the gid. Its state \<open>agas_client\<close> extends the one of \<open>Refcnt_Requests\<close>. The intervals of Boost.ICL are a parameter \<open>icl\<close> with
    the documented behaviour as the hypothesis \<open>icl_ok\<close>; the remote services are an argument.
  \<^item> \<open>Cache_Coherence\<close>: clients and services that bind, bind again and unbind, with lookups on their way. In every reachable state,
    resolving through the cache gives what the home answers or has answered before; nothing invalidates a cache when a range is unbound. Boost.ICL is given by a concrete instance in the witnesses.

  \<^bold>\<open>Caches with policies.\<close>
  \<^item> \<open>Std_Heap\<close>: the heap algorithms of the standard library as a parameter; \<open>std_heap\<close> is what the standard promises, and sorting is an instance.
  \<^item> \<open>Local_Cache\<close>, \<open>Local_Cache_Policy\<close> (\<^verbatim>\<open>hpx/util/cache/local_cache.hpp\<close>, \<^verbatim>\<open>hpx/util/cache/entries\<close>): a map of entries and a heap of iterators into it, and the types of
    entries. The locales \<open>cache_entry\<close> and \<open>ordered_entry\<close> show that the operations keep map, heap and size together; they are interpreted for the
    entry types.
  \<^item> \<open>Local_Cache_Lru\<close>: with \<open>lru_entry\<close> the cache refines a list in the order of last use; what the other types remove, and where the code leaves the heap.

  \<^bold>\<open>Parallel algorithms\<close> (\<^verbatim>\<open>hpx/parallel\<close>).
  \<^item> \<open>Chunk_Shape\<close> (\<^verbatim>\<open>util/detail/chunk_size.hpp\<close>, \<^verbatim>\<open>executors\<close>): a monad for tasks that
    may throw, the executor parameters, and the chunks they make. The chunks
    cut the range exactly. The clock is an argument.
  \<^item> \<open>Partitioner\<close> (\<^verbatim>\<open>util/partitioner.hpp\<close>, \<^verbatim>\<open>util/foreach_partitioner.hpp\<close>, \<^verbatim>\<open>executors/parallel_executor.hpp\<close>): executors and
    what becomes of the results and exceptions of the tasks. The locale \<open>bulk_executor\<close> and its extensions
    state what a partitioner needs of an executor. The number of tasks and of chunks per task are 64-bit words.
  \<^item> \<open>For_Loop\<close>, \<open>Parallel_Scan\<close> (\<^verbatim>\<open>algorithms/for_loop.hpp\<close>, \<^verbatim>\<open>algorithms/reduce.hpp\<close>, \<^verbatim>\<open>algorithms/inclusive_scan.hpp\<close>,
    \<^verbatim>\<open>algorithms/exclusive_scan.hpp\<close>): the parallel versions compute what the sequential ones do, the scans for every
    order in which their tasks run.
  \<^item> \<open>Cancellation_Token\<close> (\<^verbatim>\<open>util/cancellation_token.hpp\<close>, \<^verbatim>\<open>util/loop.hpp\<close>): tasks as programs over one atomic variable that is read and
    exchanged in relaxed memory order, so that a task may read outdated values. The locale \<open>token_order\<close> shows that a token ends at the best value that
    was offered; it is interpreted for the least and for the greatest index. For flags there is a weakest precondition of a task among others.
  \<^item> \<open>Parallel_Find\<close>, \<open>Parallel_Predicates\<close> (\<^verbatim>\<open>algorithms\<close>: \<^verbatim>\<open>find.hpp\<close>, \<^verbatim>\<open>adjacent_find.hpp\<close>, \<^verbatim>\<open>mismatch.hpp\<close>, \<^verbatim>\<open>lexicographical_compare.hpp\<close>,
    \<^verbatim>\<open>search.hpp\<close>, \<^verbatim>\<open>is_sorted.hpp\<close>, \<^verbatim>\<open>is_partitioned.hpp\<close>, \<^verbatim>\<open>equal.hpp\<close>, \<^verbatim>\<open>all_any_none.hpp\<close>): every run of the tasks of these searches ends without
    undefined behaviour, with the result of the sequential version; the exceptions are stated as they are.

  \<^bold>\<open>Learned parameters of loops\<close> (\<^verbatim>\<open>hpx/parallel\<close>).
  \<^item> \<open>Ieee_Double\<close>: binary64 numbers with rounding to nearest even, their order, and the error of a rounded operation.
  \<^item> \<open>Learned_Parameters\<close> (\<^verbatim>\<open>reading_learning_weights.hpp\<close>, \<^verbatim>\<open>seq_or_par.hpp.cpp\<close>, \<^verbatim>\<open>chunk_size_determination.hpp\<close>,
    \<^verbatim>\<open>prefetching_distance_determination.hpp\<close>): reading and normalizing the weights, and the three decisions. A file gives its normalized rows, once; the chunk size is found without undefined
    behaviour and is the share of the best class within rounding. The file system is an argument.

  \<^bold>\<open>Local synchronization\<close> (\<^verbatim>\<open>hpx/lcos/local\<close>, \<^verbatim>\<open>src/lcos/local\<close>).
  \<^item> \<open>Condition_Variable\<close> (\<^verbatim>\<open>detail/condition_variable.cpp\<close>): the queue of waiting threads, notifying one or all of them with what
    happens when a thread cannot be woken, aborting them. The locale \<open>waiting_queue\<close> is what its users rely on.
  \<^item> \<open>Monitor\<close>: how threads use an object that is a mutex and condition variables. Each object gives the sections of its operations; threads call operations, run
    sections, wait, are notified and run into time limits in any order. The locale \<open>untimed_object\<close> reduces an invariant of all reachable states to the
    calls and sections; it is interpreted for every object below.
  \<^item> \<open>Local_Semaphore\<close>, \<open>Local_Mutex\<close>, \<open>Latch_Barrier\<close>, \<open>Shared_Mutex\<close>: counting and sliding semaphores, mutexes with and without time limits, events, latches, barriers,
    and the mutex of readers and writers with upgrades. Credits are conserved; locks exclude; barriers release complete groups; a latch
    opens at zero; and nobody is left asleep who could go on.
  \<^item> \<open>Receive_Buffer\<close>, \<open>Channel\<close> (\<^verbatim>\<open>promise.hpp\<close>, \<^verbatim>\<open>receive_buffer.hpp\<close>, \<^verbatim>\<open>channel.hpp\<close>): promises, the buffer that pairs values and futures by step, and channels over
    it. A value meets its future in every order; a channel is first in, first out, also while it is closed.
  \<^item> \<open>And_Gate\<close> (\<^verbatim>\<open>and_gate.hpp\<close>, \<^verbatim>\<open>trigger.hpp\<close>, \<^verbatim>\<open>conditional_trigger.hpp\<close>): a gate fires when all segments are set and not before; a thread that waits for a
    generation is woken exactly when it is reached.

  \<^bold>\<open>Parcels.\<close>
  \<^item> \<open>Pool_Timer\<close> (\<^verbatim>\<open>src/util/pool_timer.cpp\<close>): the timer that flushes, cut where it gives up its mutex; deleting it and resetting the
    pointer to it are two steps without a mutex. The timer of Boost.Asio is a parameter, and \<open>asio_timer\<close>
    states what its documentation promises.
  \<^item> \<open>Parcel_Histogram\<close> (\<^verbatim>\<open>hpx/util/histogram.hpp\<close>): every bin has the samples of its interval. Numbers are rational.
  \<^item> \<open>Coalescing_Handler\<close>, \<open>Coalescing_Tasks\<close> (\<^verbatim>\<open>plugins/parcel/coalescing/coalescing_message_handler.cpp\<close>, \<^verbatim>\<open>hpx/plugins/parcel/message_buffer.hpp\<close>): the buffer, the message handler and
    the threads that use it, with calls of the timer's handlers and of its termination at any time. The mutexes of the message handler and of its timer, who
    holds them, and the clock are part of the state.
  \<^item> \<open>Coalescing_Delivery\<close>, \<open>Coalescing_Liveness\<close>: the invariant that every parcel in the buffer has somebody who will take it. When nothing is left to run,
    every parcel has been sent exactly once; runs end, and no thread waits for a mutex in vain; assertions, sizes of messages and counters.
  \<^item> \<open>Coalescing_Registry\<close> (\<^verbatim>\<open>coalescing_counter_registry.cpp\<close>): the functions that read the counters, and their discovery by patterns.
  \<^item> \<open>Parcel_Dispatch\<close> (\<^verbatim>\<open>src/runtime/parcelset/parcelhandler.cpp\<close>): parcelports by priority, message handlers by destination and action, and the dispatch of one or several
    parcels. A parcel that has been moved has lost its address, which the loop over several parcels trips over. Each parcel that is dispatched goes one way and once, and a message handler gets parcels for one destination, as \<open>coalescing_assertions_hold\<close> needs it. The other components are an
    environment that is given with each call.

  \<^bold>\<open>Bounds.\<close> No definition has fuel. Loops that may not end are \<open>partial_function (option)\<close>, and where a theorem uses one
  it shows that the result is \<open>Some\<close>. The bounds of the words are hypotheses or invariants under their own names: \<open>entry_ok\<close> (the range of a binding stays
  within the lower word of the gids), \<open>vm_part\<close> (what is left to allocate), \<open>shape_pre\<close> (a range of iterations is
  not longer than \<open>2 ^ 63\<close>), \<open>few_threads\<close> (fewer than \<open>2 ^ 32\<close> threads share a mutex); a barrier has at most \<open>2 ^ 63\<close> threads, and a channel fewer than \<open>2 ^ 64 - 1\<close> calls.

  \<^bold>\<open>Behaviour that differs from what comments or the rest of the code say\<close> is proved where it is found, for
  instance \<open>bind_gid_accepts_overlap\<close>, \<open>allocate_misses_exhaustion\<close>, \<open>overlapping_allocations_collide\<close>, \<open>symbol_unbind_race_leaks\<close>, \<open>symbol_unbind_race_duplicates\<close>,
  \<open>large_type_not_found\<close>, \<open>unbound_range_still_resolves\<close>, \<open>zero_capacity_keeps_nothing\<close>, \<open>put_parcels_rejects_second\<close>,
  \<open>negative_stride_once\<close>, \<open>induction_with_stride_differs\<close>, \<open>timed_chunk_takes_all\<close>, \<open>nonpositive_weights_class_zero\<close>,
  \<open>notify_all_leaves_dangling_entries\<close>, \<open>mixed_waits_lose_wakeup\<close>, \<open>timed_mutex_loses_wakeup\<close>, \<open>unlock_upgrade_wakes_nobody\<close>, \<open>close_cancels_pending_set\<close>, \<open>find_end_not_found\<close>,
  \<open>search_ignores_op\<close>, \<open>is_sorted_until_misses_boundary\<close>, \<open>is_partitioned_forgets_first\<close>,
  \<open>late_start_fails\<close>, \<open>freed_timer_used\<close>, \<open>timer_deleted_twice\<close>, \<open>cancelled_wait_hides_timer\<close>, \<open>late_registration_strands_parcel\<close>, \<open>unmatched_pattern_deadlocks\<close>, \<open>free_space_passes_end\<close>, \<open>fifo_evicts_newest\<close>. The theorems on correct behaviour have
  hypotheses that exclude these cases.

  \<^bold>\<open>Not modelled.\<close>
  \<^item> Parcel transport, thread scheduling, the runtime support server: sockets and MPI, context switches and
    lock-free queues, loading of modules. Of the parcel handler: background work, shutdown and performance counters.
  \<^item> Of AGAS: routing of parcels by the primary namespace, bootstrap, and the registration of performance counters
    (strings handed to a framework).
  \<^item> Of the parallel algorithms: reduction objects of \<open>for_loop\<close>, partitioners with cleanup, executors other than the
    parallel one, and the algorithms that only pass a callback to the partitioners modelled here.
  \<^item> Distributed containers, which are client objects over remote components; the compiler tool, a plug-in of clang;
    examples and vendored code.
  \<^item> Of the local synchronization objects: spinlocks and recursive mutexes, which are atomic operations of the memory model; moving of
    gates and promises; continuations of futures; iterators over channels. Threads are not interrupted, and sections are sequentially consistent.
  \<^item> The training of the learning models, floating point code over the matrix library Eigen.
\<close>

end
